(* ===== verification/Prelude.thy ===== *)
theory Prelude
  imports Main "HOL-Library.Char_ord" "HOL-Library.List_Lexorder"
begin

section \<open>Shared vocabulary: Go strings, integers, hex and decimal text\<close>

text \<open>
  Everything the components share. A Go \<open>string\<close> and a Go \<open>[]byte\<close> are both byte
  sequences, and the conversions between them copy the bytes, so both are the type
  \<^typ>\<open>string\<close> (a list of 8-bit characters) here. Go's \<open>int\<close> and \<open>int64\<close> are
  \<^typ>\<open>int\<close> with the wrap-around written out by \<open>wrap64\<close> where the code adds.

  The theory models what the program uses of the packages \<open>encoding/hex\<close>,
  \<open>strconv\<close>, \<open>strings\<close> and \<open>unicode/utf8\<close>, and proves the round trips and
  injectivity facts that the hash preimages rest on.
\<close>

named_theorems text_simps \<open>shape and length facts of rendered text\<close>

type_synonym bytes = string

subsection \<open>64-bit wrap-around\<close>

definition wrap64 :: "int \<Rightarrow> int" where
  "wrap64 x = (x + 2 ^ 63) mod 2 ^ 64 - 2 ^ 63"

definition int64 :: "int \<Rightarrow> bool" where
  "int64 x \<longleftrightarrow> - (2 ^ 63) \<le> x \<and> x < 2 ^ 63"

lemma wrap64_id [simp]: "int64 x \<Longrightarrow> wrap64 x = x"
  by (simp add: wrap64_def int64_def)

lemma wrap64_zero [simp]: "wrap64 0 = 0"
  by (simp add: wrap64_def)

lemma int64_wrap64 [simp]: "int64 (wrap64 x)"
proof -
  have "0 \<le> (x + 2 ^ 63) mod 2 ^ 64" and "(x + 2 ^ 63) mod 2 ^ 64 < 2 ^ 64" by simp_all
  then show ?thesis by (simp add: wrap64_def int64_def)
qed

subsection \<open>Character classes\<close>

definition is_digit :: "char \<Rightarrow> bool" where
  "is_digit c \<longleftrightarrow> CHR ''0'' \<le> c \<and> c \<le> CHR ''9''"

text \<open>The condition every shape check of the code spells out byte by byte:
  \<open>(c >= '0' && c <= '9') || (c >= 'a' && c <= 'f')\<close>.\<close>

definition is_lower_hex :: "char \<Rightarrow> bool" where
  "is_lower_hex c \<longleftrightarrow>
     (CHR ''0'' \<le> c \<and> c \<le> CHR ''9'') \<or> (CHR ''a'' \<le> c \<and> c \<le> CHR ''f'')"

text \<open>The shape of every digest in the formats: 128 lowercase hex characters.\<close>

definition is_hex128 :: "string \<Rightarrow> bool" where
  "is_hex128 s \<longleftrightarrow> length s = 128 \<and> list_all is_lower_hex s"

lemma of_char_bound [simp]: "(of_char c :: nat) < 256"
proof -
  have "(of_char c :: nat) = of_char c mod 256" by simp
  also have "\<dots> < 256" by (rule mod_less_divisor) simp
  finally show ?thesis .
qed

subsection \<open>Hex: \<open>hex.EncodeToString\<close> and \<open>hex.DecodeString\<close>\<close>

definition hextable :: string where
  "hextable = ''0123456789abcdef''"

fun hex_encode :: "bytes \<Rightarrow> string" where
  "hex_encode [] = []"
| "hex_encode (c # cs) =
     hextable ! (of_char c div 16) # hextable ! (of_char c mod 16) # hex_encode cs"

definition unhex :: "char \<Rightarrow> nat option" where
  "unhex c =
     (if CHR ''0'' \<le> c \<and> c \<le> CHR ''9'' then Some (of_char c - 48)
      else if CHR ''a'' \<le> c \<and> c \<le> CHR ''f'' then Some (of_char c - 87)
      else if CHR ''A'' \<le> c \<and> c \<le> CHR ''F'' then Some (of_char c - 55)
      else None)"

fun hex_decode :: "string \<Rightarrow> bytes option" where
  "hex_decode [] = Some []"
| "hex_decode [c] = None"
| "hex_decode (a # b # cs) =
     (case (unhex a, unhex b) of
        (Some h, Some l) \<Rightarrow> map_option ((#) (char_of (16 * h + l))) (hex_decode cs)
      | _ \<Rightarrow> None)"

lemma hextable_cases:
  "(\<forall>n \<in> set [0..<16]. unhex (hextable ! n) = Some n \<and> is_lower_hex (hextable ! n))"
  by code_simp

lemma unhex_hextable [simp]: "n < 16 \<Longrightarrow> unhex (hextable ! n) = Some n"
  using hextable_cases by simp

lemma is_lower_hex_hextable [simp]: "n < 16 \<Longrightarrow> is_lower_hex (hextable ! n)"
  using hextable_cases by simp

lemma length_hex_encode [simp, text_simps]: "length (hex_encode bs) = 2 * length bs"
  by (induction bs) auto

lemma hex_decode_encode [simp]: "hex_decode (hex_encode bs) = Some bs"
proof (induction bs)
  case Nil
  show ?case by simp
next
  case (Cons c cs)
  have "(of_char c :: nat) div 16 < 16" using of_char_bound [of c] by linarith
  moreover have "(of_char c :: nat) mod 16 < 16" by simp
  ultimately show ?case using Cons by (simp add: mult.commute)
qed

lemma hex_encode_inject [simp]: "hex_encode a = hex_encode b \<longleftrightarrow> a = b"
  by (metis hex_decode_encode option.inject)

lemma list_all_hex_encode [simp, text_simps]: "list_all is_lower_hex (hex_encode bs)"
proof (induction bs)
  case (Cons c cs)
  have "(of_char c :: nat) div 16 < 16" using of_char_bound [of c] by linarith
  then show ?case using Cons by simp
qed simp

lemma is_hex128_hex_encode [simp]: "length bs = 64 \<Longrightarrow> is_hex128 (hex_encode bs)"
  by (simp add: is_hex128_def)

subsection \<open>Decimal: \<open>strconv.FormatInt\<close> and \<open>strconv.ParseInt\<close>\<close>

definition dec_digit :: "nat \<Rightarrow> char" where
  "dec_digit n = ''0123456789'' ! n"

fun dec_nat :: "nat \<Rightarrow> string" where
  "dec_nat n = (if n < 10 then [dec_digit n] else dec_nat (n div 10) @ [dec_digit (n mod 10)])"

declare dec_nat.simps [simp del]

definition dec_val :: "string \<Rightarrow> nat" where
  "dec_val s = foldl (\<lambda>a c. 10 * a + (of_char c - 48)) 0 s"

definition fmt_int :: "int \<Rightarrow> string" where
  "fmt_int i = (if i < 0 then CHR ''-'' # dec_nat (nat (- i)) else dec_nat (nat i))"

text \<open>\<open>ParseInt(s, 10, 64)\<close> and \<open>Atoi\<close>: an optional sign, at least one digit, digits
  only, and the value in range.\<close>

definition parse_int64 :: "string \<Rightarrow> int option" where
  "parse_int64 s =
     (let neg = (s \<noteq> [] \<and> hd s = CHR ''-'');
          ds = (if s \<noteq> [] \<and> (hd s = CHR ''-'' \<or> hd s = CHR ''+'') then tl s else s);
          v = (if neg then - int (dec_val ds) else int (dec_val ds))
      in if ds = [] \<or> \<not> list_all is_digit ds then None
         else if int64 v then Some v else None)"

lemma dec_digit_cases:
  "\<forall>n \<in> set [0..<10]. is_digit (dec_digit n) \<and> of_char (dec_digit n) = n + (48::nat)"
  by code_simp

lemma is_digit_dec_digit [simp]: "n < 10 \<Longrightarrow> is_digit (dec_digit n)"
  using dec_digit_cases by simp

lemma of_char_dec_digit [simp]: "n < 10 \<Longrightarrow> (of_char (dec_digit n) :: nat) = n + 48"
  using dec_digit_cases by simp

lemma dec_val_snoc [simp]: "dec_val (s @ [c]) = 10 * dec_val s + (of_char c - 48)"
  by (simp add: dec_val_def)

lemma dec_val_dec_nat [simp]: "dec_val (dec_nat n) = n"
proof (induction n rule: dec_nat.induct)
  case (1 n)
  show ?case
  proof (cases "n < 10")
    case True
    then show ?thesis by (simp add: dec_nat.simps [of n] dec_val_def)
  next
    case False
    with 1 show ?thesis by (simp add: dec_nat.simps [of n])
  qed
qed

lemma dec_nat_inject [simp]: "dec_nat a = dec_nat b \<longleftrightarrow> a = b"
  by (metis dec_val_dec_nat)

lemma digits_dec_nat [simp, text_simps]: "list_all is_digit (dec_nat n)"
proof (induction n rule: dec_nat.induct)
  case (1 n)
  then show ?case by (cases "n < 10") (simp_all add: dec_nat.simps [of n])
qed

lemma dec_nat_not_Nil [simp, text_simps]: "dec_nat n \<noteq> []"
  by (subst dec_nat.simps) simp

lemma digit_not_in_dec_nat: "c \<in> set (dec_nat n) \<Longrightarrow> is_digit c"
  using digits_dec_nat [of n] by (simp add: list_all_iff)

lemma hd_dec_nat_not_sign:
  "hd (dec_nat n) \<noteq> CHR ''-''" "hd (dec_nat n) \<noteq> CHR ''+''"
proof -
  have "is_digit (hd (dec_nat n))"
    by (rule digit_not_in_dec_nat [where n = n]) (simp add: hd_in_set)
  then show "hd (dec_nat n) \<noteq> CHR ''-''" "hd (dec_nat n) \<noteq> CHR ''+''"
    by (auto simp: is_digit_def)
qed

lemma parse_fmt_int [simp]: "int64 i \<Longrightarrow> parse_int64 (fmt_int i) = Some i"
  by (cases "i < 0")
     (simp_all add: parse_int64_def fmt_int_def Let_def hd_dec_nat_not_sign)

lemma fmt_int_inject [simp]: "fmt_int a = fmt_int b \<longleftrightarrow> a = b"
proof
  assume eq: "fmt_int a = fmt_int b"
  show "a = b"
  proof (cases "a < 0"; cases "b < 0")
    assume "a < 0" and "\<not> b < 0"
    with eq show ?thesis using hd_dec_nat_not_sign(1) [of "nat b"]
      by (metis fmt_int_def list.sel(1))
  next
    assume "\<not> a < 0" and "b < 0"
    with eq show ?thesis using hd_dec_nat_not_sign(1) [of "nat a"]
      by (metis fmt_int_def list.sel(1))
  qed (use eq in \<open>auto simp: fmt_int_def\<close>)
qed simp

lemma fmt_int_chars: "c \<in> set (fmt_int i) \<Longrightarrow> is_digit c \<or> c = CHR ''-''"
  by (auto simp: fmt_int_def digit_not_in_dec_nat split: if_splits)

lemma no_pipe_fmt_int [simp, text_simps]: "CHR ''|'' \<notin> set (fmt_int i)"
  using fmt_int_chars [of "CHR ''|''" i] by (auto simp: is_digit_def)

lemma fmt_int_not_Nil [simp, text_simps]: "fmt_int i \<noteq> []"
  by (simp add: fmt_int_def)

subsection \<open>Splitting and joining: package \<open>strings\<close>\<close>

fun split_on :: "char \<Rightarrow> string \<Rightarrow> string list" where
  "split_on sep [] = [[]]"
| "split_on sep (c # cs) =
     (if c = sep then [] # split_on sep cs
      else case split_on sep cs of [] \<Rightarrow> [[c]] | p # ps \<Rightarrow> (c # p) # ps)"

text \<open>\<open>strings.SplitN(s, sep, 2)\<close> when it yields two parts, and \<open>None\<close> when it yields
  one (no separator).\<close>

definition split_first :: "char \<Rightarrow> string \<Rightarrow> (string \<times> string) option" where
  "split_first sep s =
     (if sep \<in> set s
      then Some (takeWhile (\<lambda>c. c \<noteq> sep) s, tl (dropWhile (\<lambda>c. c \<noteq> sep) s))
      else None)"

definition has_prefix :: "string \<Rightarrow> string \<Rightarrow> bool" where
  "has_prefix p s \<longleftrightarrow> take (length p) s = p"

lemma split_on_not_Nil [simp]: "split_on sep s \<noteq> []"
  by (induction s) (auto split: list.splits)

lemma split_on_no_sep [simp]: "sep \<notin> set s \<Longrightarrow> split_on sep s = [s]"
  by (induction s) auto

lemma split_on_append_sep:
  "sep \<notin> set s \<Longrightarrow> split_on sep (s @ sep # t) = s # split_on sep t"
  by (induction s) auto

lemma split_first_append [simp]:
  "sep \<notin> set s \<Longrightarrow> split_first sep (s @ sep # t) = Some (s, t)"
proof -
  assume "sep \<notin> set s"
  then have "takeWhile (\<lambda>c. c \<noteq> sep) (s @ sep # t) = s"
    and "dropWhile (\<lambda>c. c \<noteq> sep) (s @ sep # t) = sep # t"
    by (induction s) auto
  then show ?thesis by (simp add: split_first_def)
qed

text \<open>The delimiter argument all the preimages rest on: with no separator in the first
  fields, the first separator is the boundary.\<close>

lemma sep_inject:
  assumes "a @ sep # b = a' @ sep # b'" and "sep \<notin> set a" and "sep \<notin> set a'"
  shows "a = a' \<and> b = b'"
  using assms
proof (induction a arbitrary: a')
  case Nil
  then show ?case by (cases a') auto
next
  case (Cons x xs)
  then show ?case by (cases a') auto
qed

lemma lower_hex_no_pipe [simp]: "\<not> is_lower_hex (CHR ''|'')"
  by (simp add: is_lower_hex_def)

lemma hex_no_pipe: "list_all is_lower_hex s \<Longrightarrow> CHR ''|'' \<notin> set s"
  using lower_hex_no_pipe by (metis list_all_iff)

lemma is_hex128_no_pipe: "is_hex128 s \<Longrightarrow> CHR ''|'' \<notin> set s"
  by (simp add: is_hex128_def hex_no_pipe)

lemma has_prefix_append [simp]: "has_prefix p (p @ s)"
  by (simp add: has_prefix_def)

lemma has_prefix_iff: "has_prefix p s \<longleftrightarrow> (\<exists>t. s = p @ t)"
  unfolding has_prefix_def by (metis append_eq_conv_conj append_take_drop_id)

subsection \<open>Big-endian integers: \<open>encoding/binary\<close>\<close>

text \<open>\<open>binary.BigEndian.PutUint32\<close> and \<open>PutUint64\<close>.\<close>

fun be_bytes :: "nat \<Rightarrow> nat \<Rightarrow> bytes" where
  "be_bytes 0 v = []"
| "be_bytes (Suc n) v = be_bytes n (v div 256) @ [char_of (v mod 256)]"

lemma length_be_bytes [simp]: "length (be_bytes n v) = n"
  by (induction n arbitrary: v) simp_all

lemma be_bytes_inject:
  "a < 256 ^ n \<Longrightarrow> b < 256 ^ n \<Longrightarrow> be_bytes n a = be_bytes n b \<longleftrightarrow> a = b"
proof (induction n arbitrary: a b)
  case (Suc n)
  have "a div 256 < 256 ^ n" and "b div 256 < 256 ^ n"
    using Suc.prems by (simp_all add: less_mult_imp_div_less)
  with Suc.IH have "be_bytes (Suc n) a = be_bytes (Suc n) b \<longleftrightarrow> a div 256 = b div 256 \<and> a mod 256 = b mod 256"
    using char_of_eq_iff [of "a mod 256"] by (auto simp: of_char_of)
  then show ?case by (metis div_mult_mod_eq)
qed simp

text \<open>Their order as strings is the order of the numbers.\<close>

lemma less_append_same: "length xs = length ys \<Longrightarrow> xs @ us < ys @ vs \<longleftrightarrow> xs < ys \<or> xs = ys \<and> us < (vs :: string)"
proof (induction xs arbitrary: ys)
  case (Cons x xs)
  then show ?case by (cases ys) auto
qed simp

lemma char_of_less: "a < 256 \<Longrightarrow> b < 256 \<Longrightarrow> (char_of a :: char) < char_of b \<longleftrightarrow> a < (b :: nat)"
  by (simp add: less_char_def of_char_of)

lemma digits_less:
  "r < 256 \<Longrightarrow> r' < 256 \<Longrightarrow> q < q' \<or> q = q' \<and> r < r' \<longleftrightarrow> 256 * q + r < 256 * q' + (r' :: nat)"
  by (cases q q' rule: linorder_cases) auto

lemma be_bytes_less:
  "a < 256 ^ n \<Longrightarrow> b < 256 ^ n \<Longrightarrow> be_bytes n a < be_bytes n b \<longleftrightarrow> a < b"
proof (induction n arbitrary: a b)
  case (Suc n)
  have "a div 256 < 256 ^ n" and "b div 256 < 256 ^ n"
    using Suc.prems by (simp_all add: less_mult_imp_div_less)
  then have "be_bytes (Suc n) a < be_bytes (Suc n) b \<longleftrightarrow> a div 256 < b div 256 \<or> a div 256 = b div 256 \<and> a mod 256 < b mod 256"
    using char_of_less [of "a mod 256" "b mod 256"] by (simp add: less_append_same Suc.IH be_bytes_inject)
  also have "\<dots> \<longleftrightarrow> 256 * (a div 256) + a mod 256 < 256 * (b div 256) + b mod 256"
    by (rule digits_less) simp_all
  finally show ?case by simp
qed simp

fun be_value :: "bytes \<Rightarrow> nat" where
  "be_value [] = 0"
| "be_value (c # cs) = of_char c * 256 ^ length cs + be_value cs"

lemma be_value_snoc: "be_value (cs @ [c]) = 256 * be_value cs + of_char c"
  by (induction cs) (simp_all add: algebra_simps)

lemma be_value_bytes: "v < 256 ^ n \<Longrightarrow> be_value (be_bytes n v) = v"
proof (induction n arbitrary: v)
  case (Suc n)
  then have "v div 256 < 256 ^ n" by (simp add: less_mult_imp_div_less)
  with Suc.IH [of "v div 256"] show ?case by (simp add: be_value_snoc of_char_of)
qed simp

subsection \<open>Early returns\<close>

text \<open>A run of checks that returns at the first error, and a loop that collects results until one
  fails.\<close>

fun first_error :: "'e option list \<Rightarrow> 'e option" where
  "first_error [] = None"
| "first_error (None # cs) = first_error cs"
| "first_error (Some e # cs) = Some e"

definition refuse_when :: "bool \<Rightarrow> 'e \<Rightarrow> 'e option" where
  "refuse_when b e = (if b then Some e else None)"

lemma first_error_None [simp]: "first_error cs = None \<longleftrightarrow> (\<forall>c \<in> set cs. c = None)"
  by (induction cs rule: first_error.induct) simp_all

lemma refuse_when_None [simp]: "refuse_when b e = None \<longleftrightarrow> \<not> b"
  by (simp add: refuse_when_def)

fun collect :: "('e + 'a) list \<Rightarrow> 'e + 'a list" where
  "collect [] = Inr []"
| "collect (Inl e # rs) = Inl e"
| "collect (Inr x # rs) = (case collect rs of Inl e \<Rightarrow> Inl e | Inr xs \<Rightarrow> Inr (x # xs))"

lemma collect_map_Inr [simp]: "collect (map Inr xs) = Inr xs"
  by (induction xs) simp_all

lemma collect_Inr [simp]: "collect rs = Inr xs \<longleftrightarrow> rs = map Inr xs"
proof
  show "collect rs = Inr xs \<Longrightarrow> rs = map Inr xs"
    by (induction rs arbitrary: xs rule: collect.induct) (auto split: sum.splits)
qed simp

subsection \<open>UTF-8: \<open>utf8.ValidString\<close>\<close>

definition byte_in :: "nat \<Rightarrow> nat \<Rightarrow> char \<Rightarrow> bool" where
  "byte_in lo hi c \<longleftrightarrow> lo \<le> of_char c \<and> of_char c \<le> hi"

abbreviation utf8_cont :: "char \<Rightarrow> bool" where
  "utf8_cont \<equiv> byte_in 0x80 0xBF"

text \<open>One well-formed code point: the second byte's range depends on the first, which is
  what excludes overlong forms, surrogates and values above U+10FFFF.\<close>

fun utf8_valid :: "string \<Rightarrow> bool" where
  "utf8_valid [] = True"
| "utf8_valid (a # s) =
     (if byte_in 0 0x7F a then utf8_valid s
      else if byte_in 0xC2 0xDF a then
        (case s of b # r \<Rightarrow> utf8_cont b \<and> utf8_valid r | _ \<Rightarrow> False)
      else if byte_in 0xE0 0xEF a then
        (case s of b # c # r \<Rightarrow>
           (if of_char a = (0xE0 :: nat) then byte_in 0xA0 0xBF b
            else if of_char a = (0xED :: nat) then byte_in 0x80 0x9F b
            else utf8_cont b) \<and> utf8_cont c \<and> utf8_valid r
         | _ \<Rightarrow> False)
      else if byte_in 0xF0 0xF4 a then
        (case s of b # c # d # r \<Rightarrow>
           (if of_char a = (0xF0 :: nat) then byte_in 0x90 0xBF b
            else if of_char a = (0xF4 :: nat) then byte_in 0x80 0x8F b
            else utf8_cont b) \<and> utf8_cont c \<and> utf8_cont d \<and> utf8_valid r
         | _ \<Rightarrow> False)
      else False)"

lemma utf8_valid_ascii: "list_all (byte_in 0 0x7F) s \<Longrightarrow> utf8_valid s"
  by (induction s) simp_all

text \<open>From here on a string literal is read one ASCII character at a time.\<close>

lemma utf8_valid_Cons_ascii [simp]: "of_char c < (0x80 :: nat) \<Longrightarrow> utf8_valid (c # s) = utf8_valid s"
  by (simp add: byte_in_def)

declare utf8_valid.simps(2) [simp del]

end
