(* ===== verification/Sha512.thy ===== *)
theory Sha512
  imports Prelude "HOL-Library.Word"
begin

unbundle bit_operations_syntax

section \<open>SHA-512\<close>

text \<open>
  Package \<open>crypto/sha512\<close>, written out from FIPS 180-4: the padding, the message
  schedule (kept as a sliding window of sixteen words) and the compression function, on
  64-bit words. The components use it only through \<open>sha512\<close>, its length, and
  \<open>collision\<close>: an integrity theorem concludes that two inputs agree or that two
  byte strings named in the statement are a SHA-512 collision.
\<close>

subsection \<open>Constants and functions on words\<close>

text \<open>FIPS 180-4 takes the first 64 bits of the fractional parts of the square roots of the
  first 8 primes (the initial state) and of the cube roots of the first 80 primes (the round
  constants). \<open>root_bits\<close> computes an integer root bit by bit.\<close>

fun root_bits :: "nat \<Rightarrow> int \<Rightarrow> nat \<Rightarrow> int \<Rightarrow> int" where
  "root_bits k n 0 acc = acc"
| "root_bits k n (Suc b) acc =
     root_bits k n b (if (acc + 2 ^ b) ^ k \<le> n then acc + 2 ^ b else acc)"

definition primes_to :: "int \<Rightarrow> int list" where
  "primes_to n = filter (\<lambda>p. list_all (\<lambda>d. p mod d \<noteq> 0) [2..p - 1]) [2..n]"

definition sha512_K :: "64 word list" where
  "sha512_K = map (\<lambda>p. of_int (root_bits 3 (p * 2 ^ 192) 68 0)) (primes_to 409)"

definition sha512_H0 :: "64 word list" where
  "sha512_H0 = map (\<lambda>p. of_int (root_bits 2 (p * 2 ^ 128) 69 0)) [2, 3, 5, 7, 11, 13, 17, 19]"

definition rotr64 :: "nat \<Rightarrow> 64 word \<Rightarrow> 64 word" where
  "rotr64 n x = drop_bit n x OR push_bit (64 - n) x"

definition big_sigma0 :: "64 word \<Rightarrow> 64 word" where
  "big_sigma0 x = rotr64 28 x XOR rotr64 34 x XOR rotr64 39 x"

definition big_sigma1 :: "64 word \<Rightarrow> 64 word" where
  "big_sigma1 x = rotr64 14 x XOR rotr64 18 x XOR rotr64 41 x"

definition small_sigma0 :: "64 word \<Rightarrow> 64 word" where
  "small_sigma0 x = rotr64 1 x XOR rotr64 8 x XOR drop_bit 7 x"

definition small_sigma1 :: "64 word \<Rightarrow> 64 word" where
  "small_sigma1 x = rotr64 19 x XOR rotr64 61 x XOR drop_bit 6 x"

definition sha_ch :: "64 word \<Rightarrow> 64 word \<Rightarrow> 64 word \<Rightarrow> 64 word" where
  "sha_ch x y z = (x AND y) XOR (NOT x AND z)"

definition sha_maj :: "64 word \<Rightarrow> 64 word \<Rightarrow> 64 word \<Rightarrow> 64 word" where
  "sha_maj x y z = (x AND y) XOR (x AND z) XOR (y AND z)"

subsection \<open>Compression\<close>

fun sha_rounds :: "64 word list \<Rightarrow> 64 word list \<Rightarrow> 64 word list \<Rightarrow> 64 word list" where
  "sha_rounds (k # ks) (w # ws) [a, b, c, d, e, f, g, h] =
     (let t1 = h + big_sigma1 e + sha_ch e f g + k + w;
          t2 = big_sigma0 a + sha_maj a b c
      in sha_rounds ks (ws @ [small_sigma1 (ws ! 13) + ws ! 8 + small_sigma0 (ws ! 0) + w])
           [t1 + t2, a, b, c, d + t1, e, f, g])"
| "sha_rounds _ _ s = s"

definition sha_compress :: "64 word list \<Rightarrow> 64 word list \<Rightarrow> 64 word list" where
  "sha_compress st blk = map2 (+) st (sha_rounds sha512_K blk st)"

subsection \<open>Bytes, words and padding\<close>

definition word_of_bytes :: "bytes \<Rightarrow> 64 word" where
  "word_of_bytes cs = fold (\<lambda>c acc. push_bit 8 acc OR of_char c) cs 0"

definition bytes_of_word :: "64 word \<Rightarrow> bytes" where
  "bytes_of_word w = map (\<lambda>i. char_of (uint (drop_bit (8 * i) w))) [7, 6, 5, 4, 3, 2, 1, 0]"

fun chunks :: "nat \<Rightarrow> nat \<Rightarrow> 'a list \<Rightarrow> 'a list list" where
  "chunks 0 w xs = []"
| "chunks (Suc n) w xs = take w xs # chunks n w (drop w xs)"

text \<open>The padding writes the bit length in the low 64 bits of its 128-bit field; the
  program hashes nothing near \<open>2 ^ 61\<close> bytes long.\<close>

definition sha_pad :: "bytes \<Rightarrow> bytes" where
  "sha_pad m =
     (let n = length m; z = (239 - n mod 128) mod 128
      in m @ CHR 0x80 # replicate (z + 8) (CHR 0x00) @ bytes_of_word (of_nat (8 * n)))"

definition sha512 :: "bytes \<Rightarrow> bytes" where
  "sha512 m =
     (let p = sha_pad m
      in concat (map bytes_of_word
           (fold (\<lambda>b st. sha_compress st (map word_of_bytes (chunks 16 8 b)))
              (chunks (length p div 128) 128 p) sha512_H0)))"

subsection \<open>The digest is 64 bytes\<close>

lemma length_sha_rounds [simp]: "length s = 8 \<Longrightarrow> length (sha_rounds ks ws s) = 8"
  by (induction ks ws s rule: sha_rounds.induct) (simp_all add: Let_def)

lemma length_sha_compress: "length st = 8 \<Longrightarrow> length (sha_compress st blk) = 8"
  by (simp add: sha_compress_def)

lemma length_sha_fold:
  "length st = 8 \<Longrightarrow>
   length (fold (\<lambda>b st. sha_compress st (map word_of_bytes (chunks 16 8 b))) bs st) = 8"
  by (induction bs arbitrary: st) (simp_all add: length_sha_compress)

lemma length_bytes_of_word [simp]: "length (bytes_of_word w) = 8"
  by (simp add: bytes_of_word_def)

lemma length_concat_words: "length (concat (map bytes_of_word ws)) = 8 * length ws"
  by (induction ws) simp_all

lemma length_sha512 [simp]: "length (sha512 m) = 64"
  by (simp add: sha512_def Let_def length_concat_words length_sha_fold sha512_H0_def)

lemma sha512_not_Nil [simp]: "sha512 m \<noteq> []" "[] \<noteq> sha512 m"
  using length_sha512 [of m] by (metis length_0_conv zero_neq_numeral)+

text \<open>The padded message is a whole number of 128-byte blocks, so no byte is left out.\<close>

lemma length_sha_pad: "length (sha_pad m) mod 128 = 0"
proof -
  let ?n = "length m"
  have "?n mod 128 < 128" by simp
  moreover have "(239 - r) mod 128 = (if r < 112 then 111 - r else 239 - r)" if "r < 128" for r :: nat
    using that by (simp add: mod_if)
  ultimately have "(?n mod 128 + (17 + (239 - ?n mod 128) mod 128)) mod 128 = 0"
    by (simp split: if_splits)
  then have "(?n + (17 + (239 - ?n mod 128) mod 128)) mod 128 = 0"
    by (metis mod_add_left_eq)
  then show ?thesis by (simp add: sha_pad_def Let_def add.assoc)
qed

subsection \<open>Collisions\<close>

definition collision :: "bytes \<Rightarrow> bytes \<Rightarrow> bool" where
  "collision x y \<longleftrightarrow> x \<noteq> y \<and> sha512 x = sha512 y"

lemma sha512_eqD: "sha512 x = sha512 y \<Longrightarrow> x = y \<or> collision x y"
  by (auto simp: collision_def)

text \<open>The hex digest \<open>hex.EncodeToString(sha512.Sum512(x))\<close> every format stores.\<close>

definition hex_sha512 :: "bytes \<Rightarrow> string" where
  "hex_sha512 m = hex_encode (sha512 m)"

lemma is_hex128_hex_sha512 [simp]: "is_hex128 (hex_sha512 m)"
  by (simp add: hex_sha512_def)

lemma length_hex_sha512 [simp]: "length (hex_sha512 m) = 128"
  by (simp add: hex_sha512_def)

lemma hex_sha512_not_Nil [simp]: "hex_sha512 m \<noteq> []" "[] \<noteq> hex_sha512 m"
  using length_hex_sha512 [of m] by (metis length_0_conv zero_neq_numeral)+

lemma hex_sha512_eqD: "hex_sha512 x = hex_sha512 y \<Longrightarrow> x = y \<or> collision x y"
  by (simp add: hex_sha512_def sha512_eqD)

text \<open>A collision between two lists of hashed strings, as a predicate that computes.\<close>

definition collide :: "bytes list \<Rightarrow> bytes list \<Rightarrow> bool" where
  "collide xs ys \<longleftrightarrow> list_ex (\<lambda>x. list_ex (\<lambda>y. collision x y) ys) xs"

lemma collide_iff: "collide xs ys \<longleftrightarrow> (\<exists>x \<in> set xs. \<exists>y \<in> set ys. collision x y)"
  by (simp add: collide_def list_ex_iff)

lemma collide_mono:
  "collide xs ys \<Longrightarrow> set xs \<subseteq> set xs' \<Longrightarrow> set ys \<subseteq> set ys' \<Longrightarrow> collide xs' ys'"
  by (auto simp: collide_iff)

lemma collide_hd: "sha512 x = sha512 y \<Longrightarrow> x \<noteq> y \<Longrightarrow> collide (x # xs) (y # ys)"
  by (auto simp: collide_iff collision_def)

end
