(* ===== verification/Go_Time.thy ===== *)
theory Go_Time
  imports Prelude
begin

section \<open>Go's \<open>time.Time\<close>: instants, UTC fields, layout and RFC 3339 parsing\<close>

text \<open>
  What the program uses of package \<open>time\<close>. An instant is a count of seconds since the
  Unix epoch and a nanosecond within the second; locations play no part, because every use
  in the program converts to UTC first. \<open>civil\<close> is the calendar computation behind
  \<open>Time.Date\<close> (400-, 100-, 4- and 1-year cycles, as package \<open>time\<close> computes it),
  \<open>date_days\<close> its inverse behind \<open>time.Date\<close>, \<open>format_layout\<close> is
  \<open>t.UTC().Format("2006-01-02T15:04:05.000000Z")\<close> and \<open>parse_rfc3339\<close> is
  \<open>time.Parse(time.RFC3339Nano, s)\<close> with its lenient spots (a one-digit hour, a comma
  before the fraction, offsets up to 24:60).
\<close>

record gotime =
  unix_sec :: int
  nsec :: nat

definition wf_time :: "gotime \<Rightarrow> bool" where
  "wf_time t \<longleftrightarrow> nsec t < 1000000000"

text \<open>The zero \<open>time.Time\<close>: January 1, year 1, 00:00:00 UTC.\<close>

definition is_zero_time :: "gotime \<Rightarrow> bool" where
  "is_zero_time t \<longleftrightarrow> unix_sec t = - 62135596800 \<and> nsec t = 0"

definition time_before :: "gotime \<Rightarrow> gotime \<Rightarrow> bool" where
  "time_before s t \<longleftrightarrow>
     unix_sec s < unix_sec t \<or> unix_sec s = unix_sec t \<and> nsec s < nsec t"

definition time_equal :: "gotime \<Rightarrow> gotime \<Rightarrow> bool" where
  "time_equal s t \<longleftrightarrow> unix_sec s = unix_sec t \<and> nsec s = nsec t"

subsection \<open>The calendar\<close>

definition is_leap :: "int \<Rightarrow> bool" where
  "is_leap y \<longleftrightarrow> y mod 4 = 0 \<and> (y mod 100 \<noteq> 0 \<or> y mod 400 = 0)"

definition month_lengths :: "int \<Rightarrow> int list" where
  "month_lengths y =
     [31, if is_leap y then 29 else 28, 31, 30, 31, 30, 31, 31, 30, 31, 30, 31]"

fun month_walk :: "int list \<Rightarrow> nat \<Rightarrow> int \<Rightarrow> nat \<times> int" where
  "month_walk [] m d = (m, d + 1)"
| "month_walk (l # ls) m d = (if d < l then (m, d + 1) else month_walk ls (Suc m) (d - l))"

text \<open>Days are counted from 1970-01-01; the cycles start in year 1.\<close>

definition civil :: "int \<Rightarrow> int \<times> nat \<times> int" where
  "civil days =
     (let d = days + 719162;
          a = d div 146097; r = d mod 146097;
          b = min 3 (r div 36524); r = r - 36524 * b;
          c = r div 1461; r = r mod 1461;
          e = min 3 (r div 365); yday = r - 365 * e;
          y = 400 * a + 100 * b + 4 * c + e + 1
      in (y, month_walk (month_lengths y) 1 yday))"

definition year_start :: "int \<Rightarrow> int" where
  "year_start y = 365 * (y - 1) + (y - 1) div 4 - (y - 1) div 100 + (y - 1) div 400 - 719162"

definition date_days :: "int \<Rightarrow> nat \<Rightarrow> int \<Rightarrow> int" where
  "date_days y m d = year_start y + sum_list (take (m - 1) (month_lengths y)) + (d - 1)"

lemma month_walk_sound:
  assumes "month_walk ls m d = (m', d')" and "d < sum_list ls" and "0 \<le> d"
  shows "m \<le> m'" and "m' < m + length ls" and "sum_list (take (m' - m) ls) + (d' - 1) = d"
    and "1 \<le> d'" and "d' \<le> ls ! (m' - m)"
proof -
  have "m \<le> m' \<and> m' < m + length ls \<and> sum_list (take (m' - m) ls) + (d' - 1) = d
      \<and> 1 \<le> d' \<and> d' \<le> ls ! (m' - m)"
    using assms
  proof (induction ls m d rule: month_walk.induct)
    case (1 m d)
    then show ?case by simp
  next
    case (2 l ls m d)
    show ?case
    proof (cases "d < l")
      case True
      with 2 show ?thesis by auto
    next
      case False
      with 2 have ih: "Suc m \<le> m' \<and> m' < Suc m + length ls
          \<and> sum_list (take (m' - Suc m) ls) + (d' - 1) = d - l
          \<and> 1 \<le> d' \<and> d' \<le> ls ! (m' - Suc m)" by simp
      then have "m' - m = Suc (m' - Suc m)" by linarith
      with ih show ?thesis by simp
    qed
  qed
  then show "m \<le> m'" and "m' < m + length ls"
    and "sum_list (take (m' - m) ls) + (d' - 1) = d" and "1 \<le> d'" and "d' \<le> ls ! (m' - m)"
    by simp_all
qed

lemma sum_month_lengths: "sum_list (month_lengths y) = (if is_leap y then 366 else 365)"
  by (simp add: month_lengths_def)

lemma month_lengths_bound:
  assumes "i < 12" shows "month_lengths y ! i \<le> 31"
proof -
  have "list_all (\<lambda>l. l \<le> 31) (month_lengths y)" by (simp add: month_lengths_def)
  moreover have "length (month_lengths y) = 12" by (simp add: month_lengths_def)
  ultimately show ?thesis using assms by (simp add: list_all_length)
qed

lemma capped_cycle:
  fixes k r n :: int
  assumes "0 < k" and "0 \<le> r" and "r < k * (n + 1) + 1" and "0 \<le> n"
  shows "0 \<le> min n (r div k)" and "min n (r div k) \<le> n" and "0 \<le> r - k * min n (r div k)"
    and "r - k * min n (r div k) < (if min n (r div k) = n then k + 1 else k)"
proof -
  have r: "r = k * (r div k) + r mod k" by simp
  have m: "0 \<le> r mod k" "r mod k < k" using assms(1) by simp_all
  show "0 \<le> min n (r div k)" using assms by (simp add: pos_imp_zdiv_nonneg_iff)
  show "min n (r div k) \<le> n" by simp
  have "k * min n (r div k) \<le> k * (r div k)" using assms(1) by simp
  with r m show "0 \<le> r - k * min n (r div k)" by linarith
  show "r - k * min n (r div k) < (if min n (r div k) = n then k + 1 else k)"
  proof (cases "r div k \<le> n")
    case True
    then have "min n (r div k) = r div k" by simp
    moreover have "r - k * (r div k) = r mod k" by (rule minus_mult_div_eq_mod)
    ultimately show ?thesis using m by (cases "r div k = n") simp_all
  next
    case False
    then have "min n (r div k) = n" by simp
    with assms(3) show ?thesis by (simp add: algebra_simps)
  qed
qed

text \<open>The cycle digits of a day number, and what they say about its year.\<close>

lemma cycle_digits:
  fixes days :: int
  obtains a b c e yday where
    "days = 146097 * a + 36524 * b + 1461 * c + 365 * e + yday - 719162"
    "0 \<le> b" "b \<le> 3" "0 \<le> c" "c \<le> 24" "0 \<le> e" "e \<le> 3" "0 \<le> yday"
    "yday < (if is_leap (400 * a + 100 * b + 4 * c + e + 1) then 366 else 365)"
    "civil days = (400 * a + 100 * b + 4 * c + e + 1,
       month_walk (month_lengths (400 * a + 100 * b + 4 * c + e + 1)) 1 yday)"
proof -
  define d where "d = days + 719162"
  define a where "a = d div 146097"
  define r1 where "r1 = d mod 146097"
  define b where "b = min 3 (r1 div 36524)"
  define r2 where "r2 = r1 - 36524 * b"
  define c where "c = r2 div 1461"
  define r3 where "r3 = r2 mod 1461"
  define e where "e = min 3 (r3 div 365)"
  define yday where "yday = r3 - 365 * e"
  have r1: "0 \<le> r1" "r1 < 146097" and d: "d = 146097 * a + r1"
    by (simp_all add: r1_def a_def)
  have b: "0 \<le> b" "b \<le> 3" and r2: "0 \<le> r2" "r2 < (if b = 3 then 36525 else 36524)"
    using r1 by (auto simp: b_def r2_def min_def; presburger)+
  have c: "0 \<le> c" "c \<le> 24" and r3: "0 \<le> r3" "r3 < 1461" and r2': "r2 = 1461 * c + r3"
  proof -
    have "r2 < 36525" using r2 by (simp split: if_splits)
    then show "c \<le> 24" unfolding c_def by presburger
    show "0 \<le> c" unfolding c_def using r2(1) by (simp add: pos_imp_zdiv_nonneg_iff)
  qed (simp_all add: c_def r3_def)
  note cc = capped_cycle [of 365 r3 3, folded e_def, folded yday_def]
  have e: "0 \<le> e" "e \<le> 3" and y0: "0 \<le> yday" using cc(1-3) r3 by simp_all
  have y1: "yday < (if e = 3 then 366 else 365)"
    by (cases "e = 3") (use cc(4) r3 in simp_all)
  define y where "y = 400 * a + 100 * b + 4 * c + e + 1"
  have yd: "yday < (if is_leap y then 366 else 365)"
  proof (cases "e = 3")
    case False
    with y1 show ?thesis by simp
  next
    case True
    show ?thesis
    proof (cases "is_leap y")
      case True
      with y1 show ?thesis by (simp split: if_splits)
    next
      case False
      have "y = 4 * (100 * a + 25 * b + c + 1)" using \<open>e = 3\<close> by (simp add: y_def)
      then have m4: "y mod 4 = 0" by simp
      have "y = (4 * c + 4) + (4 * a + b) * 100" using \<open>e = 3\<close> by (simp add: y_def)
      then have "y mod 100 = (4 * c + 4) mod 100" by (simp only: mod_mult_self1)
      moreover have "y mod 100 = 0" using False m4 unfolding is_leap_def by blast
      ultimately have "(4 * c + 4) mod 100 = 0" by simp
      then have "c = 24" using c by presburger
      have "y = (100 * b + 100) + a * 400" using \<open>e = 3\<close> \<open>c = 24\<close> by (simp add: y_def)
      then have "y mod 400 = (100 * b + 100) mod 400" by (simp only: mod_mult_self1)
      moreover have "y mod 400 \<noteq> 0" using False m4 by (auto simp: is_leap_def)
      ultimately have "b \<noteq> 3" by auto
      with r2 r2' \<open>c = 24\<close> have "r3 < 1460" by simp
      with \<open>e = 3\<close> False show ?thesis by (simp add: yday_def)
    qed
  qed
  have days: "days = 146097 * a + 36524 * b + 1461 * c + 365 * e + yday - 719162"
    using d r2' by (simp add: d_def r2_def yday_def)
  have civ: "civil days = (y, month_walk (month_lengths y) 1 yday)"
    unfolding civil_def Let_def y_def yday_def e_def r3_def c_def r2_def b_def r1_def a_def d_def ..
  show thesis
    by (rule that [OF days b c e y0 yd [unfolded y_def] civ [unfolded y_def]])
qed

lemma year_start_digits:
  assumes "0 \<le> b" "b \<le> 3" "0 \<le> c" "c \<le> 24" "0 \<le> e" "e \<le> (3::int)"
  shows "year_start (400 * a + 100 * b + 4 * c + e + 1)
    = 146097 * a + 36524 * b + 1461 * c + 365 * e - 719162"
proof -
  let ?y = "400 * a + 100 * b + 4 * c + e"
  have "?y div 4 = 100 * a + 25 * b + c"
    by (rule int_div_pos_eq [where r = e]) (use assms in simp_all)
  moreover have "?y div 100 = 4 * a + b"
    by (rule int_div_pos_eq [where r = "4 * c + e"]) (use assms in simp_all)
  moreover have "?y div 400 = a"
    by (rule int_div_pos_eq [where r = "100 * b + 4 * c + e"]) (use assms in simp_all)
  ultimately show ?thesis by (simp add: year_start_def)
qed

text \<open>The calendar is right: the date of a day names that day, with a month 1..12 and a day
  that the month has.\<close>

lemma civil_sound:
  assumes "civil days = (y, m, d)"
  shows "date_days y m d = days" and "1 \<le> m" and "m \<le> 12" and "1 \<le> d"
    and "d \<le> month_lengths y ! (m - 1)"
proof -
  obtain a b c e yday where
    days: "days = 146097 * a + 36524 * b + 1461 * c + 365 * e + yday - 719162"
    and rng: "0 \<le> b" "b \<le> 3" "0 \<le> c" "c \<le> 24" "0 \<le> e" "e \<le> 3" "0 \<le> yday"
    and yd: "yday < (if is_leap (400 * a + 100 * b + 4 * c + e + 1) then 366 else 365)"
    and civ: "civil days = (400 * a + 100 * b + 4 * c + e + 1,
       month_walk (month_lengths (400 * a + 100 * b + 4 * c + e + 1)) 1 yday)"
    by (rule cycle_digits [of days])
  from assms civ have y: "y = 400 * a + 100 * b + 4 * c + e + 1"
    and mw: "month_walk (month_lengths y) 1 yday = (m, d)" by auto
  have lt: "yday < sum_list (month_lengths y)" using yd y by (simp add: sum_month_lengths)
  have len: "length (month_lengths y) = 12" by (simp add: month_lengths_def)
  note mws = month_walk_sound [OF mw lt rng(7)]
  have "sum_list (take (m - 1) (month_lengths y)) + (d - 1) = yday" by (rule mws(3))
  then show "date_days y m d = days"
    unfolding date_days_def days y year_start_digits [OF rng(1-6)] by simp
  show "1 \<le> m" "m \<le> 12" "1 \<le> d" "d \<le> month_lengths y ! (m - 1)"
    using mws(1,2,4,5) len by simp_all
qed


subsection \<open>UTC fields, and the instant with given fields\<close>

definition utc_date :: "gotime \<Rightarrow> int \<times> nat \<times> int" where
  "utc_date t = civil (unix_sec t div 86400)"

definition utc_year :: "gotime \<Rightarrow> int" where
  "utc_year t = fst (utc_date t)"

text \<open>\<open>t.Clock()\<close>: hour, minute and second.\<close>

definition utc_clock :: "gotime \<Rightarrow> int \<times> int \<times> int" where
  "utc_clock t =
     (let s = unix_sec t mod 86400 in (s div 3600, s mod 3600 div 60, s mod 60))"

definition go_date :: "int \<Rightarrow> nat \<Rightarrow> int \<Rightarrow> int \<Rightarrow> int \<Rightarrow> int \<Rightarrow> nat \<Rightarrow> gotime" where
  "go_date y m d hh mm ss ns =
     \<lparr>unix_sec = 86400 * date_days y m d + 3600 * hh + 60 * mm + ss, nsec = ns\<rparr>"

definition trunc_micro :: "gotime \<Rightarrow> gotime" where
  "trunc_micro t = t\<lparr>nsec := 1000 * (nsec t div 1000)\<rparr>"

lemma wf_trunc_micro [simp]: "wf_time t \<Longrightarrow> wf_time (trunc_micro t)"
  by (simp add: wf_time_def trunc_micro_def) 

lemma clock_sum:
  fixes x :: int
  shows "3600 * (x div 3600) + 60 * (x mod 3600 div 60) + x mod 60 = x"
proof -
  have "x mod 60 = x mod 3600 mod 60" by (simp add: mod_mod_cancel)
  moreover have "60 * (x mod 3600 div 60) + x mod 3600 mod 60 = x mod 3600" by simp
  moreover have "3600 * (x div 3600) + x mod 3600 = x" by simp
  ultimately show ?thesis by linarith
qed

lemma day_second_bounds:
  fixes x :: int
  assumes "0 \<le> x" and "x < 86400"
  shows "0 \<le> x div 3600" "x div 3600 < 24" "0 \<le> x mod 3600 div 60" "x mod 3600 div 60 < 60"
    "0 \<le> x mod 60" "x mod 60 < 60"
proof -
  show "0 \<le> x div 3600" "x div 3600 < 24" using assms by linarith+
  have "0 \<le> y div 60 \<and> y div 60 < 60" if "0 \<le> y" "y < 3600" for y :: int
    using that by linarith
  from this [of "x mod 3600"] show "0 \<le> x mod 3600 div 60" "x mod 3600 div 60 < 60" by simp_all
qed simp_all

lemma clock_bounds:
  assumes "utc_clock t = (hh, mm, ss)"
  shows "0 \<le> hh" "hh < 24" "0 \<le> mm" "mm < 60" "0 \<le> ss" "ss < 60"
    "3600 * hh + 60 * mm + ss = unix_sec t mod 86400"
proof -
  let ?s = "unix_sec t mod 86400"
  have hh: "hh = ?s div 3600" and mm: "mm = ?s mod 3600 div 60" and ss: "ss = ?s mod 60"
    using assms by (simp_all add: utc_clock_def Let_def)
  show "0 \<le> hh" "hh < 24" "0 \<le> mm" "mm < 60" "0 \<le> ss" "ss < 60"
    unfolding hh mm ss by (rule day_second_bounds; simp)+
  show "3600 * hh + 60 * mm + ss = ?s" unfolding hh mm ss by (rule clock_sum)
qed

lemma go_date_fields:
  assumes "utc_date t = (y, m, d)" and "utc_clock t = (hh, mm, ss)"
  shows "go_date y m d hh mm ss ns = t\<lparr>nsec := ns\<rparr>"
proof -
  have "date_days y m d = unix_sec t div 86400"
    using assms(1) by (simp add: utc_date_def civil_sound)
  moreover note clock_bounds(7) [OF assms(2)]
  ultimately have "86400 * date_days y m d + 3600 * hh + 60 * mm + ss = unix_sec t"
    using mult_div_mod_eq [of 86400 "unix_sec t"] by linarith
  then show ?thesis by (simp add: go_date_def)
qed

subsection \<open>Zero-padded decimals\<close>

definition pad_dec :: "nat \<Rightarrow> nat \<Rightarrow> string" where
  "pad_dec w n = replicate (w - length (dec_nat n)) (CHR ''0'') @ dec_nat n"

lemma dec_nat_lt10: "n < 10 \<Longrightarrow> dec_nat n = [dec_digit n]"
  by (simp add: dec_nat.simps [of n])

lemma dec_nat_ge10: "10 \<le> n \<Longrightarrow> dec_nat n = dec_nat (n div 10) @ [dec_digit (n mod 10)]"
  by (simp add: dec_nat.simps [of n])

lemma zero_digit: "CHR ''0'' = dec_digit 0"
  by (simp add: dec_digit_def)

lemma pad_dec_Suc:
  assumes "0 < w"
  shows "pad_dec (Suc w) n = pad_dec w (n div 10) @ [dec_digit (n mod 10)]"
proof (cases "n < 10")
  case True
  have "pad_dec w 0 = replicate w (CHR ''0'')"
    using assms by (cases w) (simp_all add: pad_dec_def dec_nat_lt10 zero_digit replicate_append_same)
  with True show ?thesis using assms
    by (cases w) (simp_all add: pad_dec_def dec_nat_lt10 zero_digit replicate_append_same)
next
  case False
  then show ?thesis by (simp add: pad_dec_def dec_nat_ge10)
qed

lemma pad_dec_1: "n < 10 \<Longrightarrow> pad_dec 1 n = [dec_digit n]"
  by (simp add: pad_dec_def dec_nat_lt10)

lemma pad_dec_2: "n < 100 \<Longrightarrow> pad_dec 2 n = [dec_digit (n div 10), dec_digit (n mod 10)]"
  using pad_dec_Suc [of 1 n] pad_dec_1 [of "n div 10"] by (simp add: numeral_2_eq_2)

lemma pad_dec_4:
  assumes "n < 10000"
  shows "pad_dec 4 n = [dec_digit (n div 1000), dec_digit (n div 100 mod 10),
    dec_digit (n div 10 mod 10), dec_digit (n mod 10)]"
proof -
  have "pad_dec 4 n = pad_dec 3 (n div 10) @ [dec_digit (n mod 10)]"
    using pad_dec_Suc [of 3 n] by simp
  also have "pad_dec 3 (n div 10) = pad_dec 2 (n div 100) @ [dec_digit (n div 10 mod 10)]"
    using pad_dec_Suc [of 2 "n div 10"] by (simp add: div_mult2_eq [symmetric])
  also have "pad_dec 2 (n div 100) = [dec_digit (n div 1000), dec_digit (n div 100 mod 10)]"
    using pad_dec_2 [of "n div 100"] assms by (simp add: div_mult2_eq [symmetric])
  finally show ?thesis by simp
qed

lemma pad_dec_6:
  assumes "n < 1000000"
  shows "pad_dec 6 n = [dec_digit (n div 100000), dec_digit (n div 10000 mod 10),
    dec_digit (n div 1000 mod 10), dec_digit (n div 100 mod 10),
    dec_digit (n div 10 mod 10), dec_digit (n mod 10)]"
proof -
  have "pad_dec 6 n = pad_dec 5 (n div 10) @ [dec_digit (n mod 10)]"
    using pad_dec_Suc [of 5 n] by simp
  also have "pad_dec 5 (n div 10) = pad_dec 4 (n div 100) @ [dec_digit (n div 10 mod 10)]"
    using pad_dec_Suc [of 4 "n div 10"] by (simp add: div_mult2_eq [symmetric])
  also have "pad_dec 4 (n div 100) = [dec_digit (n div 100000), dec_digit (n div 10000 mod 10),
      dec_digit (n div 1000 mod 10), dec_digit (n div 100 mod 10)]"
    using pad_dec_4 [of "n div 100"] assms by (simp add: div_mult2_eq [symmetric])
  finally show ?thesis by simp
qed

subsection \<open>\<open>Format\<close> with the layout \<open>2006-01-02T15:04:05.000000Z\<close>\<close>

text \<open>Package \<open>time\<close> writes a negative year with a sign and the digits of its absolute
  value, and any year with at least four digits.\<close>

definition fmt_year :: "int \<Rightarrow> string" where
  "fmt_year y = (if y < 0 then CHR ''-'' # pad_dec 4 (nat (- y)) else pad_dec 4 (nat y))"

definition date_time_text :: "gotime \<Rightarrow> string \<Rightarrow> string" where
  "date_time_text t rest =
     (case utc_date t of (y, m, d) \<Rightarrow> case utc_clock t of (hh, mm, ss) \<Rightarrow>
        fmt_year y @ ''-'' @ pad_dec 2 m @ ''-'' @ pad_dec 2 (nat d) @ ''T''
        @ pad_dec 2 (nat hh) @ '':'' @ pad_dec 2 (nat mm) @ '':'' @ pad_dec 2 (nat ss) @ rest)"

definition format_layout :: "gotime \<Rightarrow> string" where
  "format_layout t = date_time_text t (''.'' @ pad_dec 6 (nsec t div 1000) @ ''Z'')"

text \<open>\<open>RFC3339Nano\<close>, the layout of \<open>Time.MarshalJSON\<close>: the fraction without its trailing zeros, and no
  fraction for a whole second.\<close>

definition strip_zeros :: "string \<Rightarrow> string" where
  "strip_zeros s = rev (dropWhile (\<lambda>c. c = CHR ''0'') (rev s))"

definition nano_fraction :: "nat \<Rightarrow> string" where
  "nano_fraction n = (if n = 0 then [] else CHR ''.'' # strip_zeros (pad_dec 9 n))"

definition format_nano :: "gotime \<Rightarrow> string" where
  "format_nano t = date_time_text t (nano_fraction (nsec t) @ ''Z'')"

subsection \<open>\<open>time.Parse(time.RFC3339Nano, s)\<close>\<close>

definition digit_of :: "char \<Rightarrow> nat" where
  "digit_of c = of_char c - 48"

definition lit :: "char \<Rightarrow> string \<Rightarrow> string option" where
  "lit c s = (case s of [] \<Rightarrow> None | x # r \<Rightarrow> if x = c then Some r else None)"

definition num4 :: "string \<Rightarrow> (nat \<times> string) option" where
  "num4 s = (case s of a # b # c # d # r \<Rightarrow>
       if is_digit a \<and> is_digit b \<and> is_digit c \<and> is_digit d
       then Some (1000 * digit_of a + 100 * digit_of b + 10 * digit_of c + digit_of d, r) else None
     | _ \<Rightarrow> None)"

definition num2 :: "string \<Rightarrow> (nat \<times> string) option" where
  "num2 s = (case s of a # b # r \<Rightarrow>
       if is_digit a \<and> is_digit b then Some (10 * digit_of a + digit_of b, r) else None
     | _ \<Rightarrow> None)"

text \<open>The hour of the layout may have one digit.\<close>

definition num12 :: "string \<Rightarrow> (nat \<times> string) option" where
  "num12 s = (case s of
       [] \<Rightarrow> None
     | a # r \<Rightarrow>
         if \<not> is_digit a then None
         else (case r of
             [] \<Rightarrow> Some (digit_of a, r)
           | b # r' \<Rightarrow> if is_digit b then Some (10 * digit_of a + digit_of b, r')
                      else Some (digit_of a, r)))"

text \<open>An optional fraction: a dot or a comma and at least one digit; digits beyond the ninth
  are dropped.\<close>

definition fraction :: "string \<Rightarrow> nat \<times> string" where
  "fraction s = (case s of
       p # a # r \<Rightarrow>
         if (p = CHR ''.'' \<or> p = CHR '','') \<and> is_digit a
         then (let ds = takeWhile is_digit (a # r); u = take 9 ds
               in (dec_val u * 10 ^ (9 - length u), dropWhile is_digit (a # r)))
         else (0, s)
     | _ \<Rightarrow> (0, s))"

text \<open>\<open>Z\<close>, or a signed offset \<open>hh:mm\<close>; then the end of the input.\<close>

definition zone :: "string \<Rightarrow> int option" where
  "zone s =
     (if s = ''Z'' then Some 0
      else case s of
        [g, a, b, k, c, d] \<Rightarrow>
          if k = CHR '':'' \<and> is_digit a \<and> is_digit b \<and> is_digit c \<and> is_digit d
             \<and> (g = CHR ''+'' \<or> g = CHR ''-'')
             \<and> 10 * digit_of a + digit_of b \<le> 24 \<and> 10 * digit_of c + digit_of d \<le> 60
          then (let off = int ((10 * digit_of a + digit_of b) * 60 + (10 * digit_of c + digit_of d)) * 60
                in Some (if g = CHR ''-'' then - off else off))
          else None
      | _ \<Rightarrow> None)"

definition parse_rfc3339 :: "string \<Rightarrow> gotime option" where
  "parse_rfc3339 s =
     Option.bind (num4 s) (\<lambda>(y, s). Option.bind (lit (CHR ''-'') s) (\<lambda>s.
     Option.bind (num2 s) (\<lambda>(m, s). if m < 1 \<or> 12 < m then None else
     Option.bind (lit (CHR ''-'') s) (\<lambda>s.
     Option.bind (num2 s) (\<lambda>(d, s). Option.bind (lit (CHR ''T'') s) (\<lambda>s.
     Option.bind (num12 s) (\<lambda>(hh, s). if 24 \<le> hh then None else
     Option.bind (lit (CHR '':'') s) (\<lambda>s.
     Option.bind (num2 s) (\<lambda>(mm, s). if 60 \<le> mm then None else
     Option.bind (lit (CHR '':'') s) (\<lambda>s.
     Option.bind (num2 s) (\<lambda>(ss, s). if 60 \<le> ss then None else
     (case fraction s of (ns, s) \<Rightarrow>
     Option.bind (zone s) (\<lambda>off.
       if d < 1 \<or> month_lengths (int y) ! (m - 1) < int d then None
       else let t = go_date (int y) m (int d) (int hh) (int mm) (int ss) ns
            in Some (t\<lparr>unix_sec := unix_sec t - off\<rparr>))))))))))))))"

lemma digit_step:
  fixes n k :: nat
  shows "n div k = 10 * (n div (k * 10)) + n div k mod 10"
  by (simp add: div_mult2_eq)

lemma digits4: "(n::nat) = 1000 * (n div 1000) + 100 * (n div 100 mod 10)
    + 10 * (n div 10 mod 10) + n mod 10"
proof -
  have "n div 10 = 10 * (n div 100) + n div 10 mod 10" using digit_step [of n 10] by simp
  moreover have "n div 100 = 10 * (n div 1000) + n div 100 mod 10"
    using digit_step [of n 100] by simp
  moreover have "n = 10 * (n div 10) + n mod 10" by simp
  ultimately show ?thesis by linarith
qed

lemma digits6: "(n::nat) = 100000 * (n div 100000) + 10000 * (n div 10000 mod 10)
    + 1000 * (n div 1000 mod 10) + 100 * (n div 100 mod 10) + 10 * (n div 10 mod 10) + n mod 10"
proof -
  have "n div 1000 = 10 * (n div 10000) + n div 1000 mod 10" using digit_step [of n 1000] by simp
  moreover have "n div 10000 = 10 * (n div 100000) + n div 10000 mod 10"
    using digit_step [of n 10000] by simp
  ultimately show ?thesis using digits4 [of n] by linarith
qed

lemma digit_of_dec_digit [simp]: "n < 10 \<Longrightarrow> digit_of (dec_digit n) = n"
  by (simp add: digit_of_def)

lemma num4_pad: "n < 10000 \<Longrightarrow> num4 (pad_dec 4 n @ r) = Some (n, r)"
  using digits4 [of n] by (simp add: pad_dec_4 num4_def)

lemma num2_pad: "n < 100 \<Longrightarrow> num2 (pad_dec 2 n @ r) = Some (n, r)"
  by (simp add: pad_dec_2 num2_def)

lemma num12_pad: "n < 100 \<Longrightarrow> num12 (pad_dec 2 n @ r) = Some (n, r)"
  by (simp add: pad_dec_2 num12_def)

lemma fraction_pad:
  assumes "n < 1000000"
  shows "fraction (''.'' @ pad_dec 6 n @ ''Z'') = (1000 * n, ''Z'')"
proof -
  have "\<not> is_digit (CHR ''Z'')" by (simp add: is_digit_def)
  moreover have "dec_val (pad_dec 6 n) = n"
    using assms digits6 [of n] by (simp add: pad_dec_6 dec_val_def)
  moreover have "n div 100000 < 10" using assms by linarith
  ultimately show ?thesis using assms
    by (simp add: pad_dec_6 fraction_def Let_def)
qed

text \<open>The round trip: a time formatted with the layout parses back to itself, cut to the
  microsecond, for every year the layout can write with four digits.\<close>

lemma parse_date_time:
  assumes "0 \<le> utc_year t" and "utc_year t \<le> 9999" and "fraction f = (ns, ''Z'')"
  shows "parse_rfc3339 (date_time_text t f) = Some (t\<lparr>nsec := ns\<rparr>)"
proof -
  obtain y m d where ymd: "utc_date t = (y, m, d)" by (cases "utc_date t")
  obtain hh mm ss where clk: "utc_clock t = (hh, mm, ss)" by (cases "utc_clock t")
  have y: "0 \<le> y" "y \<le> 9999" using assms ymd by (simp_all add: utc_year_def)
  note cs = civil_sound [OF ymd [unfolded utc_date_def]]
  have dm: "1 \<le> m" "m \<le> 12" "1 \<le> d" "d \<le> month_lengths y ! (m - 1)" by (fact cs)+
  have "m - 1 < 12" using dm by simp
  then have d31: "d \<le> 31" using dm(4) month_lengths_bound [of "m - 1" y] by linarith
  note cb = clock_bounds [OF clk]
  have "0 \<le> d" using dm(3) by simp
  then obtain yn dn hn mn sn where n: "y = int yn" "d = int dn" "hh = int hn" "mm = int mn" "ss = int sn"
    using y(1) cb(1,3,5) by (metis nonneg_int_cases)
  have b: "yn < 10000" "m < 100" "m \<noteq> 0" "\<not> 12 < m" "dn < 100" "dn \<noteq> 0"
    "hn < 24" "mn < 60" "sn < 60" "\<not> month_lengths (int yn) ! (m - 1) < int dn"
    using y dm d31 cb(1-6) by (simp_all add: n)
  have "parse_rfc3339 (date_time_text t f) = Some (go_date y m d hh mm ss ns)"
    unfolding parse_rfc3339_def date_time_text_def ymd clk prod.case n nat_int fmt_year_def
    using b assms(3)
    by (simp add: num4_pad num2_pad num12_pad lit_def zone_def Let_def go_date_def)
  then show ?thesis by (simp add: go_date_fields [OF ymd clk])
qed

lemma parse_format:
  assumes "0 \<le> utc_year t" and "utc_year t \<le> 9999" and "wf_time t"
  shows "parse_rfc3339 (format_layout t) = Some (trunc_micro t)"
proof -
  have "nsec t div 1000 < 1000000" using assms(3) by (simp add: wf_time_def)
  from parse_date_time [OF assms(1,2) fraction_pad [OF this]] show ?thesis
    by (simp add: format_layout_def trunc_micro_def)
qed

text \<open>The layout of JSON loses nothing.\<close>

lemma leading_zeros: "\<exists>k. xs = replicate k a @ dropWhile (\<lambda>c. c = a) xs"
proof (induction xs)
  case (Cons x xs)
  then obtain k where k: "xs = replicate k a @ dropWhile (\<lambda>c. c = a) xs" by blast
  show ?case
  proof (cases "x = a")
    case True
    with k show ?thesis by (intro exI [of _ "Suc k"]) simp
  qed (intro exI [of _ 0], simp)
qed simp

lemma strip_zeros_split: "\<exists>k. s = strip_zeros s @ replicate k (CHR ''0'')"
proof -
  obtain k where "rev s = replicate k (CHR ''0'') @ dropWhile (\<lambda>c. c = CHR ''0'') (rev s)"
    by (rule exE [OF leading_zeros [of "rev s" "CHR ''0''"]])
  from arg_cong [OF this, of rev] have "s = strip_zeros s @ replicate k (CHR ''0'')"
    unfolding strip_zeros_def by (simp only: rev_append rev_replicate rev_rev_ident)
  then show ?thesis by (rule exI)
qed

lemma dec_val_zeros: "dec_val (u @ replicate k (CHR ''0'')) = dec_val u * 10 ^ k"
proof (induction k)
  case (Suc k)
  have "dec_val (u @ replicate (Suc k) (CHR ''0'')) = dec_val ((u @ replicate k (CHR ''0'')) @ [CHR ''0''])"
    by (simp add: replicate_append_same)
  then show ?case using Suc by (simp add: dec_val_snoc del: append_assoc)
qed simp

lemma dec_val_lead_zeros: "dec_val (replicate k (CHR ''0'') @ u) = dec_val u"
  by (induction k) (simp_all add: dec_val_def)

lemma pad_dec_facts:
  assumes "n < 10 ^ w"
  shows "dec_val (pad_dec w n) = n" "list_all is_digit (pad_dec w n)" "0 < w \<Longrightarrow> length (pad_dec w n) = w"
proof -
  show "dec_val (pad_dec w n) = n" by (simp add: pad_dec_def dec_val_lead_zeros)
  have "is_digit (CHR ''0'')" by (simp add: is_digit_def)
  then show "list_all is_digit (pad_dec w n)" by (auto simp: pad_dec_def list_all_iff dest: digit_not_in_dec_nat)
  show "length (pad_dec w n) = w" if "0 < w" using assms that
  proof (induction w arbitrary: n)
    case (Suc w)
    show ?case
    proof (cases "w = 0")
      case True
      with Suc.prems show ?thesis by (simp add: pad_dec_1 flip: One_nat_def)
    next
      case False
      moreover have "n div 10 < 10 ^ w" using Suc.prems(1) by (simp add: less_mult_imp_div_less mult.commute)
      ultimately show ?thesis using pad_dec_Suc [of w n] Suc.IH [of "n div 10"] by simp
    qed
  qed simp
qed

lemma fraction_nano:
  assumes "n < 10 ^ 9"
  shows "fraction (nano_fraction n @ ''Z'') = (n, ''Z'')"
proof (cases "n = 0")
  case True
  then show ?thesis by (simp add: nano_fraction_def fraction_def)
next
  case False
  obtain k where k: "pad_dec 9 n = strip_zeros (pad_dec 9 n) @ replicate k (CHR ''0'')"
    by (rule exE [OF strip_zeros_split])
  let ?u = "strip_zeros (pad_dec 9 n)"
  note pad = pad_dec_facts [OF assms]
  have val: "dec_val ?u * 10 ^ k = n" using pad(1) k dec_val_zeros by metis
  have len: "length ?u + k = 9" using pad(3) k by (metis length_append length_replicate zero_less_numeral)
  have dig: "list_all is_digit ?u" using pad(2) k by (metis list_all_append)
  have "?u \<noteq> []" using val False by (auto simp: dec_val_def)
  then obtain a r where ar: "?u = a # r" by (cases ?u) auto
  have z: "\<not> is_digit (CHR ''Z'')" by (simp add: is_digit_def)
  have tw: "takeWhile is_digit (?u @ ''Z'') = ?u" "dropWhile is_digit (?u @ ''Z'') = ''Z''"
    using dig z by (simp_all add: list_all_iff takeWhile_append2 dropWhile_append2)
  have "9 - length ?u = k" "take 9 ?u = ?u" using len by simp_all
  then show ?thesis using tw ar dig False val
    by (simp add: nano_fraction_def fraction_def Let_def)
qed

lemma parse_format_nano:
  assumes "0 \<le> utc_year t" and "utc_year t \<le> 9999" and "wf_time t"
  shows "parse_rfc3339 (format_nano t) = Some t"
  using parse_date_time [OF assms(1,2) fraction_nano [of "nsec t"]] assms(3)
  by (simp add: format_nano_def wf_time_def)

lemma format_layout_inject:
  assumes "format_layout s = format_layout t"
    and "0 \<le> utc_year s" "utc_year s \<le> 9999" "wf_time s"
    and "0 \<le> utc_year t" "utc_year t \<le> 9999" "wf_time t"
  shows "trunc_micro s = trunc_micro t"
  using parse_format [OF assms(2-4)] parse_format [OF assms(5-7)] assms(1) by simp

end
