(* ===== verification/Chain_Format.thy ===== *)
theory Chain_Format
  imports Sha512 Go_Time
begin

section \<open>Chain hashes and tombstones: package \<open>chainformat\<close>\<close>

text \<open>
  The hash that links a chain (\<open>chain_hash.go\<close> for format v2, \<open>chain_hash_v3.go\<close>
  for format v3) and the shape of an erased entry (\<open>tombstone.go\<close>). A Go error is a
  value of \<open>chain_error\<close> or \<open>tombstone_error\<close>; a validator returns \<open>None\<close> for
  Go's nil. The lemmas show that the delimited preimages are injective on validated
  inputs, that the two formats never share a preimage, and which rule carries that.
\<close>

datatype chain_error =
    PreviousHashLength nat | PreviousHashChars
  | RunIDEmpty | RunIDPipe | SequenceNumNegative int
  | ContentHashLength nat | ContentHashChars
  | FieldLength string nat | FieldChars string | GlobalSeqNegative int
  | YearOutOfRange int

datatype tombstone_error =
    EntryIDPrefixMissing | UUIDLength nat | UUIDHyphens | UUIDChar char nat
  | EntryTypeNotTombstone | SubjectEmpty | TombstoneContentHashShape nat | TimestampZero
  | RandomReadFailed

subsection \<open>Timestamps\<close>

text \<open>\<open>appendIntPadded\<close>: the digits of a positive value, \<open>0\<close> for zero, nothing for a
  negative one, then zeros in front up to the width.\<close>

definition appendIntPadded :: "int \<Rightarrow> nat \<Rightarrow> string" where
  "appendIntPadded val width =
     (let ds = (if val = 0 then ''0'' else if 0 < val then dec_nat (nat val) else [])
      in replicate (width - length ds) (CHR ''0'') @ ds)"

definition appendTimestampMicro :: "gotime \<Rightarrow> string" where
  "appendTimestampMicro t =
     (case utc_date t of (year, month, day) \<Rightarrow> case utc_clock t of (hour, minute, sec) \<Rightarrow>
        appendIntPadded year 4 @ ''-'' @ appendIntPadded (int month) 2 @ ''-''
        @ appendIntPadded day 2 @ ''T'' @ appendIntPadded hour 2 @ '':''
        @ appendIntPadded minute 2 @ '':'' @ appendIntPadded sec 2 @ ''.''
        @ appendIntPadded (int (nsec t div 1000)) 6 @ ''Z'')"

definition ValidateTimestamp :: "gotime \<Rightarrow> chain_error option" where
  "ValidateTimestamp t =
     (if utc_year t < 0 \<or> 9999 < utc_year t then Some (YearOutOfRange (utc_year t)) else None)"

lemma appendIntPadded_nonneg: "0 \<le> v \<Longrightarrow> appendIntPadded v w = pad_dec w (nat v)"
  by (auto simp: appendIntPadded_def pad_dec_def dec_nat_lt10 zero_digit Let_def)

lemma appendTimestampMicro_format:
  assumes "0 \<le> utc_year t"
  shows "appendTimestampMicro t = format_layout t"
proof -
  obtain y m d where ymd: "utc_date t = (y, m, d)" by (cases "utc_date t")
  obtain hh mm ss where clk: "utc_clock t = (hh, mm, ss)" by (cases "utc_clock t")
  have "0 \<le> y" using assms ymd by (simp add: utc_year_def)
  moreover have "1 \<le> d" using civil_sound(4) [OF ymd [unfolded utc_date_def]] .
  moreover note clock_bounds [OF clk]
  ultimately show ?thesis
    by (simp add: appendTimestampMicro_def format_layout_def date_time_text_def ymd clk fmt_year_def
        appendIntPadded_nonneg)
qed

lemma no_pipe_appendIntPadded [simp]: "CHR ''|'' \<notin> set (appendIntPadded v w)"
  using digit_not_in_dec_nat [of "CHR ''|''" "nat v"]
  by (auto simp: appendIntPadded_def Let_def is_digit_def)

lemma no_pipe_timestamp [simp]: "CHR ''|'' \<notin> set (appendTimestampMicro t)"
  by (simp add: appendTimestampMicro_def split: prod.splits)

subsection \<open>Tombstones\<close>

definition TombstoneContentHashPrefix :: string where
  "TombstoneContentHashPrefix = ''TOMBSTONE:''"

definition TombstoneEntryIDPrefix :: string where
  "TombstoneEntryIDPrefix = ''tomb_''"

definition TombstoneEntryType :: string where
  "TombstoneEntryType = ''tombstone''"

definition tombstoneContentHashLen :: nat where
  "tombstoneContentHashLen = length TombstoneContentHashPrefix + 64"

definition IsTombstone :: "string \<Rightarrow> string \<Rightarrow> bool" where
  "IsTombstone entryType entryID \<longleftrightarrow>
     entryType = TombstoneEntryType \<and> has_prefix TombstoneEntryIDPrefix entryID"

definition IsTombstoneContentHash :: "string \<Rightarrow> bool" where
  "IsTombstoneContentHash contentHash \<longleftrightarrow> has_prefix TombstoneContentHashPrefix contentHash"

definition ValidateTombstoneContentHash :: "string \<Rightarrow> bool" where
  "ValidateTombstoneContentHash contentHash =
     (if length contentHash \<noteq> tombstoneContentHashLen then False
      else if \<not> has_prefix TombstoneContentHashPrefix contentHash then False
      else list_all is_lower_hex (drop (length TombstoneContentHashPrefix) contentHash))"

definition is_hex_any_case :: "char \<Rightarrow> bool" where
  "is_hex_any_case c \<longleftrightarrow> is_lower_hex c \<or> (CHR ''A'' \<le> c \<and> c \<le> CHR ''F'')"

definition hyphen_positions :: "nat list" where
  "hyphen_positions = [8, 13, 18, 23]"

definition validateUUIDFormat :: "string \<Rightarrow> tombstone_error option" where
  "validateUUIDFormat s =
     (if length s \<noteq> 36 then Some (UUIDLength (length s))
      else if \<not> list_all (\<lambda>i. s ! i = CHR ''-'') hyphen_positions then Some UUIDHyphens
      else case List.find (\<lambda>i. i \<notin> set hyphen_positions \<and> \<not> is_hex_any_case (s ! i)) [0..<36] of
             Some i \<Rightarrow> Some (UUIDChar (s ! i) i)
           | None \<Rightarrow> None)"

definition IsValidTombstoneFormat ::
    "string \<Rightarrow> string \<Rightarrow> string \<Rightarrow> string \<Rightarrow> gotime \<Rightarrow> tombstone_error option" where
  "IsValidTombstoneFormat entryID entryType subject contentHash timestamp =
     (if \<not> has_prefix TombstoneEntryIDPrefix entryID then Some EntryIDPrefixMissing
      else case validateUUIDFormat (drop (length TombstoneEntryIDPrefix) entryID) of
        Some e \<Rightarrow> Some e
      | None \<Rightarrow>
          if entryType \<noteq> TombstoneEntryType then Some EntryTypeNotTombstone
          else if subject = [] then Some SubjectEmpty
          else if \<not> ValidateTombstoneContentHash contentHash
               then Some (TombstoneContentHashShape (length contentHash))
          else if is_zero_time timestamp then Some TimestampZero
          else None)"

text \<open>The random source is an argument: the 32 bytes \<open>rand.Read\<close> filled in, or its
  failure.\<close>

definition GenerateTombstoneContentHash :: "bytes option \<Rightarrow> tombstone_error + string" where
  "GenerateTombstoneContentHash random =
     (case random of
        None \<Rightarrow> Inl RandomReadFailed
      | Some randomBytes \<Rightarrow> Inr (TombstoneContentHashPrefix @ hex_encode randomBytes))"

definition OrphanTombstoneDomainPrefix :: string where
  "OrphanTombstoneDomainPrefix = ''aleutian.orphan.tombstone.v1''"

definition orphan_preimage :: "string \<Rightarrow> string \<Rightarrow> string \<Rightarrow> int \<Rightarrow> bytes" where
  "orphan_preimage companyID entryID payloadPath discoveryMs =
     OrphanTombstoneDomainPrefix @ [CHR 0x00] @ companyID @ [CHR 0x00] @ entryID
     @ [CHR 0x00] @ payloadPath @ [CHR 0x00] @ fmt_int discoveryMs"

definition ComputeOrphanTombstoneContentHash :: "string \<Rightarrow> string \<Rightarrow> string \<Rightarrow> int \<Rightarrow> string" where
  "ComputeOrphanTombstoneContentHash companyID entryID payloadPath discoveryMs =
     hex_sha512 (orphan_preimage companyID entryID payloadPath discoveryMs)"

lemmas tombstone_constants =
  TombstoneContentHashPrefix_def TombstoneEntryIDPrefix_def TombstoneEntryType_def
  tombstoneContentHashLen_def

lemma ValidateTombstoneContentHash_iff:
  "ValidateTombstoneContentHash c \<longleftrightarrow>
     (\<exists>h. c = TombstoneContentHashPrefix @ h \<and> length h = 64 \<and> list_all is_lower_hex h)"
  by (auto simp: ValidateTombstoneContentHash_def tombstone_constants has_prefix_iff)

lemma GenerateTombstoneContentHash_valid:
  "length b = 32 \<Longrightarrow> GenerateTombstoneContentHash (Some b) = Inr h \<Longrightarrow> ValidateTombstoneContentHash h"
  by (auto simp: GenerateTombstoneContentHash_def ValidateTombstoneContentHash_iff)

lemma tombstone_not_hex128: "ValidateTombstoneContentHash c \<Longrightarrow> \<not> is_hex128 c"
  by (auto simp: ValidateTombstoneContentHash_iff is_hex128_def tombstone_constants)

lemma tombstone_no_pipe: "ValidateTombstoneContentHash c \<Longrightarrow> CHR ''|'' \<notin> set c"
  by (auto simp: ValidateTombstoneContentHash_iff tombstone_constants
      dest: hex_no_pipe)

subsection \<open>Chain hash, format v2\<close>

definition ChainHashPrefix :: string where
  "ChainHashPrefix = ''aleutian.chain.v2:''"

definition chain_preimage_v2 :: "string \<Rightarrow> string \<Rightarrow> int \<Rightarrow> gotime \<Rightarrow> string \<Rightarrow> bytes" where
  "chain_preimage_v2 previousHash runID sequenceNum timestamp contentHash =
     ChainHashPrefix @ previousHash @ ''|'' @ runID @ ''|'' @ fmt_int sequenceNum @ ''|''
     @ appendTimestampMicro timestamp @ ''|'' @ contentHash"

definition ComputeChainHashUnchecked ::
    "string \<Rightarrow> string \<Rightarrow> int \<Rightarrow> gotime \<Rightarrow> string \<Rightarrow> string" where
  "ComputeChainHashUnchecked previousHash runID sequenceNum timestamp contentHash =
     hex_sha512 (chain_preimage_v2 previousHash runID sequenceNum timestamp contentHash)"

definition ValidateChainHashInputs :: "string \<Rightarrow> string \<Rightarrow> int \<Rightarrow> string \<Rightarrow> chain_error option" where
  "ValidateChainHashInputs previousHash runID sequenceNum contentHash =
     (if previousHash \<noteq> [] \<and> length previousHash \<noteq> 128
        then Some (PreviousHashLength (length previousHash))
      else if previousHash \<noteq> [] \<and> \<not> list_all is_lower_hex previousHash then Some PreviousHashChars
      else if runID = [] then Some RunIDEmpty
      else if CHR ''|'' \<in> set runID then Some RunIDPipe
      else if sequenceNum < 0 then Some (SequenceNumNegative sequenceNum)
      else if ValidateTombstoneContentHash contentHash then None
      else if length contentHash \<noteq> 128 then Some (ContentHashLength (length contentHash))
      else if \<not> list_all is_lower_hex contentHash then Some ContentHashChars
      else None)"

definition ComputeChainHash ::
    "string \<Rightarrow> string \<Rightarrow> int \<Rightarrow> gotime \<Rightarrow> string \<Rightarrow> chain_error + string" where
  "ComputeChainHash previousHash runID sequenceNum timestamp contentHash =
     (case ValidateChainHashInputs previousHash runID sequenceNum contentHash of
        Some e \<Rightarrow> Inl e
      | None \<Rightarrow> (case ValidateTimestamp timestamp of
          Some e \<Rightarrow> Inl e
        | None \<Rightarrow> Inr (ComputeChainHashUnchecked previousHash runID sequenceNum timestamp contentHash)))"

subsection \<open>Chain hash, format v3\<close>

definition ChainHashPrefixV3 :: string where
  "ChainHashPrefixV3 = ''aleutian.chain.v3:''"

definition FormatV2 :: int where "FormatV2 = 2"
definition FormatV3 :: int where "FormatV3 = 3"

definition NormalizeFormatVersion :: "int \<Rightarrow> int" where
  "NormalizeFormatVersion version = (if version = 0 then FormatV2 else version)"

definition chain_preimage_v3 :: "string \<Rightarrow> int \<Rightarrow> gotime \<Rightarrow> string \<Rightarrow> bytes" where
  "chain_preimage_v3 previousHash globalSeq timestamp contentHash =
     ChainHashPrefixV3 @ previousHash @ ''|'' @ fmt_int globalSeq @ ''|''
     @ appendTimestampMicro timestamp @ ''|'' @ contentHash"

definition ComputeChainHashV3Unchecked :: "string \<Rightarrow> int \<Rightarrow> gotime \<Rightarrow> string \<Rightarrow> string" where
  "ComputeChainHashV3Unchecked previousHash globalSeq timestamp contentHash =
     hex_sha512 (chain_preimage_v3 previousHash globalSeq timestamp contentHash)"

definition validateHashField :: "string \<Rightarrow> string \<Rightarrow> bool \<Rightarrow> chain_error option" where
  "validateHashField name val allowEmpty =
     (if val = [] then (if allowEmpty then None else Some (FieldLength name 0))
      else if length val \<noteq> 128 then Some (FieldLength name (length val))
      else if \<not> list_all is_lower_hex val then Some (FieldChars name)
      else None)"

definition ValidateChainHashInputsV3 :: "string \<Rightarrow> int \<Rightarrow> string \<Rightarrow> chain_error option" where
  "ValidateChainHashInputsV3 previousHash globalSeq contentHash =
     (case validateHashField ''previousHash'' previousHash True of
        Some e \<Rightarrow> Some e
      | None \<Rightarrow>
          if globalSeq < 0 then Some (GlobalSeqNegative globalSeq)
          else if ValidateTombstoneContentHash contentHash then None
          else validateHashField ''contentHash'' contentHash False)"

definition ComputeChainHashV3 :: "string \<Rightarrow> int \<Rightarrow> gotime \<Rightarrow> string \<Rightarrow> chain_error + string" where
  "ComputeChainHashV3 previousHash globalSeq timestamp contentHash =
     (case ValidateChainHashInputsV3 previousHash globalSeq contentHash of
        Some e \<Rightarrow> Inl e
      | None \<Rightarrow> (case ValidateTimestamp timestamp of
          Some e \<Rightarrow> Inl e
        | None \<Rightarrow> Inr (ComputeChainHashV3Unchecked previousHash globalSeq timestamp contentHash)))"

subsection \<open>What validation establishes\<close>

definition prev_shape :: "string \<Rightarrow> bool" where
  "prev_shape p \<longleftrightarrow> p = [] \<or> is_hex128 p"

definition content_shape :: "string \<Rightarrow> bool" where
  "content_shape c \<longleftrightarrow> ValidateTombstoneContentHash c \<or> is_hex128 c"

lemma prev_shape_no_pipe: "prev_shape p \<Longrightarrow> CHR ''|'' \<notin> set p"
  by (auto simp: prev_shape_def is_hex128_no_pipe)

lemma content_shape_no_pipe: "content_shape c \<Longrightarrow> CHR ''|'' \<notin> set c"
  by (auto simp: content_shape_def is_hex128_no_pipe tombstone_no_pipe)

lemma ValidateChainHashInputs_iff:
  "ValidateChainHashInputs p r n c = None \<longleftrightarrow>
     prev_shape p \<and> r \<noteq> [] \<and> CHR ''|'' \<notin> set r \<and> 0 \<le> n \<and> content_shape c"
  by (auto simp: ValidateChainHashInputs_def prev_shape_def content_shape_def is_hex128_def)

lemma ValidateChainHashInputsV3_iff:
  "ValidateChainHashInputsV3 p n c = None \<longleftrightarrow> prev_shape p \<and> 0 \<le> n \<and> content_shape c"
  by (auto simp: ValidateChainHashInputsV3_def validateHashField_def prev_shape_def
      content_shape_def is_hex128_def split: option.splits if_splits)

lemma ValidateTimestamp_iff: "ValidateTimestamp t = None \<longleftrightarrow> 0 \<le> utc_year t \<and> utc_year t \<le> 9999"
  by (auto simp: ValidateTimestamp_def)

lemma ComputeChainHash_Inr:
  "ComputeChainHash p r n t c = Inr h \<longleftrightarrow>
     ValidateChainHashInputs p r n c = None \<and> ValidateTimestamp t = None
     \<and> h = ComputeChainHashUnchecked p r n t c"
  by (auto simp: ComputeChainHash_def split: option.splits)

lemma ComputeChainHashV3_Inr:
  "ComputeChainHashV3 p n t c = Inr h \<longleftrightarrow>
     ValidateChainHashInputsV3 p n c = None \<and> ValidateTimestamp t = None
     \<and> h = ComputeChainHashV3Unchecked p n t c"
  by (auto simp: ComputeChainHashV3_def split: option.splits)

lemma is_hex128_chain_hash [simp]:
  "is_hex128 (ComputeChainHashUnchecked p r n t c)"
  "is_hex128 (ComputeChainHashV3Unchecked p' n' t' c')"
  by (simp_all add: ComputeChainHashUnchecked_def ComputeChainHashV3Unchecked_def)

lemma timestamp_inject:
  assumes "appendTimestampMicro s = appendTimestampMicro t"
    and "ValidateTimestamp s = None" "ValidateTimestamp t = None" "wf_time s" "wf_time t"
  shows "trunc_micro s = trunc_micro t"
  using assms
  by (intro format_layout_inject)
     (simp_all add: ValidateTimestamp_iff appendTimestampMicro_format [symmetric])

subsection \<open>Injective preimages\<close>

text \<open>Reading the fields from the right: the last separator is the boundary when the last
  fields have none.\<close>

lemma sep_inject_last:
  assumes "a @ sep # b = a' @ sep # b'" and "sep \<notin> set b" and "sep \<notin> set b'"
  shows "a = a' \<and> b = b'"
proof -
  have "rev b @ sep # rev a = rev b' @ sep # rev a'"
    using arg_cong [OF assms(1), of rev] by simp
  then have "rev b = rev b' \<and> rev a = rev a'"
    by (rule sep_inject) (use assms in simp_all)
  then show ?thesis by simp
qed

text \<open>The v2 preimage is injective as soon as the previous hash has its shape; a \<open>|\<close> in the
  run id does no harm then, because the last three fields have none.\<close>

lemma chain_preimage_v2_inject:
  assumes eq: "chain_preimage_v2 p r n t c = chain_preimage_v2 p' r' n' t' c'"
    and p: "prev_shape p" "prev_shape p'" and c: "content_shape c" "content_shape c'"
  shows "p = p' \<and> r = r' \<and> n = n' \<and> appendTimestampMicro t = appendTimestampMicro t' \<and> c = c'"
proof -
  have "p @ CHR ''|'' # (r @ CHR ''|'' # fmt_int n @ CHR ''|'' # appendTimestampMicro t @ CHR ''|'' # c)
      = p' @ CHR ''|'' # (r' @ CHR ''|'' # fmt_int n' @ CHR ''|'' # appendTimestampMicro t' @ CHR ''|'' # c')"
    using eq by (simp add: chain_preimage_v2_def)
  from sep_inject [OF this] p have p_eq: "p = p'"
    and r1: "(r @ CHR ''|'' # fmt_int n @ CHR ''|'' # appendTimestampMicro t) @ CHR ''|'' # c
      = (r' @ CHR ''|'' # fmt_int n' @ CHR ''|'' # appendTimestampMicro t') @ CHR ''|'' # c'"
    by (simp_all add: prev_shape_no_pipe)
  from sep_inject_last [OF r1] c have c_eq: "c = c'"
    and r2: "(r @ CHR ''|'' # fmt_int n) @ CHR ''|'' # appendTimestampMicro t
      = (r' @ CHR ''|'' # fmt_int n') @ CHR ''|'' # appendTimestampMicro t'"
    by (simp_all add: content_shape_no_pipe)
  from sep_inject_last [OF r2] have t_eq: "appendTimestampMicro t = appendTimestampMicro t'"
    and r3: "r @ CHR ''|'' # fmt_int n = r' @ CHR ''|'' # fmt_int n'" by simp_all
  from sep_inject_last [OF r3] have "r = r'" "n = n'" by simp_all
  with p_eq c_eq t_eq show ?thesis by simp
qed

lemma chain_preimage_v3_inject:
  assumes eq: "chain_preimage_v3 p n t c = chain_preimage_v3 p' n' t' c'"
    and p: "prev_shape p" "prev_shape p'"
  shows "p = p' \<and> n = n' \<and> appendTimestampMicro t = appendTimestampMicro t' \<and> c = c'"
proof -
  have "p @ CHR ''|'' # (fmt_int n @ CHR ''|'' # appendTimestampMicro t @ CHR ''|'' # c)
      = p' @ CHR ''|'' # (fmt_int n' @ CHR ''|'' # appendTimestampMicro t' @ CHR ''|'' # c')"
    using eq by (simp add: chain_preimage_v3_def)
  from sep_inject [OF this] p have p_eq: "p = p'"
    and r1: "fmt_int n @ CHR ''|'' # appendTimestampMicro t @ CHR ''|'' # c
      = fmt_int n' @ CHR ''|'' # appendTimestampMicro t' @ CHR ''|'' # c'"
    by (simp_all add: prev_shape_no_pipe)
  from sep_inject [OF r1] have n_eq: "n = n'"
    and r2: "appendTimestampMicro t @ CHR ''|'' # c = appendTimestampMicro t' @ CHR ''|'' # c'"
    by simp_all
  from sep_inject [OF r2] p_eq n_eq show ?thesis by simp
qed

lemma chain_preimages_differ: "chain_preimage_v2 p r n t c \<noteq> chain_preimage_v3 p' n' t' c'"
  by (simp add: chain_preimage_v2_def chain_preimage_v3_def ChainHashPrefix_def ChainHashPrefixV3_def)

subsection \<open>Properties\<close>

text \<open>A v2 chain hash binds its inputs: two checked computations with the same result
  had the same previous hash, run id, sequence number, timestamp to the microsecond and
  content hash, or the two preimages are a SHA-512 collision.\<close>

theorem chain_hash_v2_binds:
  assumes "ComputeChainHash p r n t c = Inr h" and "ComputeChainHash p' r' n' t' c' = Inr h"
    and "wf_time t" and "wf_time t'"
  shows "p = p' \<and> r = r' \<and> n = n' \<and> trunc_micro t = trunc_micro t' \<and> c = c'
    \<or> collision (chain_preimage_v2 p r n t c) (chain_preimage_v2 p' r' n' t' c')"
proof -
  have v: "prev_shape p" "prev_shape p'" "content_shape c" "content_shape c'"
    "ValidateTimestamp t = None" "ValidateTimestamp t' = None"
    using assms(1,2) by (simp_all add: ComputeChainHash_Inr ValidateChainHashInputs_iff)
  have "hex_sha512 (chain_preimage_v2 p r n t c) = hex_sha512 (chain_preimage_v2 p' r' n' t' c')"
    using assms(1,2) by (simp add: ComputeChainHash_Inr ComputeChainHashUnchecked_def)
  then show ?thesis
    using hex_sha512_eqD chain_preimage_v2_inject [OF _ v(1-4)] timestamp_inject [OF _ v(5,6) assms(3,4)]
    by blast
qed

text \<open>C1. A v3 chain hash binds its inputs: two checked computations with the same result had
  the same previous hash, global sequence, timestamp to the microsecond and content hash,
  or the two preimages are a SHA-512 collision.\<close>

theorem chain_hash_v3_binds:
  assumes "ComputeChainHashV3 p n t c = Inr h" and "ComputeChainHashV3 p' n' t' c' = Inr h"
    and "wf_time t" and "wf_time t'"
  shows "p = p' \<and> n = n' \<and> trunc_micro t = trunc_micro t' \<and> c = c'
    \<or> collision (chain_preimage_v3 p n t c) (chain_preimage_v3 p' n' t' c')"
proof -
  have v: "prev_shape p" "prev_shape p'"
    "ValidateTimestamp t = None" "ValidateTimestamp t' = None"
    using assms(1,2) by (simp_all add: ComputeChainHashV3_Inr ValidateChainHashInputsV3_iff)
  have "hex_sha512 (chain_preimage_v3 p n t c) = hex_sha512 (chain_preimage_v3 p' n' t' c')"
    using assms(1,2) by (simp add: ComputeChainHashV3_Inr ComputeChainHashV3Unchecked_def)
  then show ?thesis
    using hex_sha512_eqD chain_preimage_v3_inject [OF _ v(1,2)] timestamp_inject [OF _ v(3,4) assms(3,4)]
    by blast
qed

text \<open>Concrete inputs for the witnesses: the epoch, and a content hash of 128 zeros.\<close>

definition epoch :: gotime where
  "epoch = \<lparr>unix_sec = 0, nsec = 0\<rparr>"

definition zeros128 :: string where
  "zeros128 = replicate 128 (CHR ''0'')"

lemma epoch_facts [simp]: "ValidateTimestamp epoch = None" "wf_time epoch"
proof -
  have "utc_year epoch = 1970" unfolding epoch_def by code_simp
  then show "ValidateTimestamp epoch = None" by (simp add: ValidateTimestamp_def)
  show "wf_time epoch" by (simp add: epoch_def wf_time_def)
qed

lemma is_hex128_zeros128 [simp]: "is_hex128 zeros128"
  by (simp add: is_hex128_def zeros128_def list_all_iff is_lower_hex_def)

lemma genesis_shapes [simp]: "prev_shape []" "content_shape zeros128"
  by (simp_all add: prev_shape_def content_shape_def)

theorem chain_hash_v3_binds_witness:
  "\<exists>h. ComputeChainHashV3 [] 7 epoch zeros128 = Inr h
     \<and> (([]::string) = [] \<and> (7::int) = 7 \<and> trunc_micro epoch = trunc_micro epoch
          \<and> zeros128 = zeros128
        \<or> collision (chain_preimage_v3 [] 7 epoch zeros128) (chain_preimage_v3 [] 7 epoch zeros128))"
proof -
  let ?h = "ComputeChainHashV3Unchecked [] 7 epoch zeros128"
  have h: "ComputeChainHashV3 [] 7 epoch zeros128 = Inr ?h"
    by (simp add: ComputeChainHashV3_Inr ValidateChainHashInputsV3_iff)
  show ?thesis
    using h chain_hash_v3_binds [OF h h] by simp
qed

text \<open>Why the unchecked hash is not enough: moving a \<open>|\<close> from the previous hash to the
  run id leaves the v2 preimage, and so the unchecked hash, unchanged, for every input; the
  checked function refuses both sides.\<close>

theorem unchecked_hash_ambiguous:
  "ComputeChainHashUnchecked (a @ ''|'' @ b) r n t c
     = ComputeChainHashUnchecked a (b @ ''|'' @ r) n t c
   \<and> (\<exists>e. ComputeChainHash (a @ ''|'' @ b) r n t c = Inl e)
   \<and> (\<exists>e. ComputeChainHash a (b @ ''|'' @ r) n t c = Inl e)"
proof -
  have "\<not> prev_shape (a @ ''|'' @ b)" using prev_shape_no_pipe [of "a @ ''|'' @ b"] by auto
  then have "\<nexists>h. ComputeChainHash (a @ ''|'' @ b) r n t c = Inr h"
    by (simp add: ComputeChainHash_Inr ValidateChainHashInputs_iff)
  moreover have "\<nexists>h. ComputeChainHash a (b @ ''|'' @ r) n t c = Inr h"
    by (simp add: ComputeChainHash_Inr ValidateChainHashInputs_iff)
  ultimately show ?thesis
    by (metis (no_types, lifting) ComputeChainHashUnchecked_def append_assoc
        chain_preimage_v2_def sumE)
qed

text \<open>The timestamp in a preimage loses nothing but the digits below a microsecond: for
  every time \<open>ValidateTimestamp\<close> accepts, parsing the 27 characters gives the time back.\<close>

theorem timestamp_round_trip:
  assumes "ValidateTimestamp t = None" and "wf_time t"
  shows "parse_rfc3339 (appendTimestampMicro t) = Some (trunc_micro t)"
  using assms by (simp add: ValidateTimestamp_iff appendTimestampMicro_format parse_format)

end
