(* ===== verification/Merkle_Tree.thy ===== *)
theory Merkle_Tree
  imports Sha512 "HOL-Library.While_Combinator"
begin

section \<open>Merkle trees: package \<open>merkle\<close>, hashing and inclusion proofs\<close>

text \<open>
  The RFC 9162 tree over SHA-512 (\<open>merkle.go\<close>) and inclusion proofs
  (\<open>inclusion.go\<close>). Tree sizes and indices inside the recursions are naturals (they are
  lengths of slices); the exported functions take Go ints and make the range checks of the
  code. \<open>tree_preimages\<close> lists the byte strings a computation hashes, so that the
  soundness theorems can name the strings that would collide.
\<close>

datatype merkle_error =
    EmptyTree | IndexOutOfRange int nat | ConsistencyOutOfRange int nat
  | LeafHex nat | LeafLength nat nat
  | FrontierSizeParse string | FrontierNodeParse string | FrontierLevelParse string
  | FrontierLevelNotOccupied int int | FrontierNodeHash int | FrontierDuplicateLevel int
  | FrontierBitsMismatch int int

definition HashSize :: nat where "HashSize = 64"

definition LeafHash :: "bytes \<Rightarrow> bytes" where
  "LeafHash data = sha512 (CHR 0x00 # data)"

definition NodeHash :: "bytes \<Rightarrow> bytes \<Rightarrow> bytes" where
  "NodeHash left right = sha512 (CHR 0x01 # left @ right)"

definition EmptyRoot :: bytes where
  "EmptyRoot = sha512 []"

lemma length_merkle_hash [simp]:
  "length (LeafHash d) = 64" "length (NodeHash l r) = 64" "length EmptyRoot = 64"
  by (simp_all add: LeafHash_def NodeHash_def EmptyRoot_def)

subsection \<open>The split point\<close>

definition largestPowerOfTwoLessThan :: "nat \<Rightarrow> nat" where
  "largestPowerOfTwoLessThan n = while (\<lambda>k. k \<le> (n - 1) div 2) (\<lambda>k. 2 * k) 1"

lemma split_point:
  assumes "1 < n"
  shows "(\<exists>i. largestPowerOfTwoLessThan n = 2 ^ i) \<and> largestPowerOfTwoLessThan n < n
    \<and> n \<le> 2 * largestPowerOfTwoLessThan n"
  unfolding largestPowerOfTwoLessThan_def
proof (rule while_rule [where P = "\<lambda>k. (\<exists>i. k = 2 ^ i) \<and> k < n" and r = "measure (\<lambda>k. n - k)"])
  show "(\<exists>i. (1::nat) = 2 ^ i) \<and> 1 < n" using assms by (metis power_0)
next
  fix k :: nat assume "(\<exists>i. k = 2 ^ i) \<and> k < n" and le: "k \<le> (n - 1) div 2"
  then obtain i where "k = 2 ^ i" by blast
  then have "2 * k = 2 ^ Suc i" by simp
  moreover have "2 * k < n" using le assms by presburger
  ultimately show "(\<exists>i. 2 * k = 2 ^ i) \<and> 2 * k < n" by blast
next
  fix k assume "(\<exists>i. k = 2 ^ i) \<and> k < n" and "\<not> k \<le> (n - 1) div 2"
  then show "(\<exists>i. k = 2 ^ i) \<and> k < n \<and> n \<le> 2 * k" by auto
next
  show "wf (measure (\<lambda>k. n - k))" by simp
next
  fix k assume "(\<exists>i. k = 2 ^ i) \<and> k < n" and "k \<le> (n - 1) div 2"
  moreover from this have "0 < k" by auto
  ultimately show "(2 * k, k) \<in> measure (\<lambda>k. n - k)" by auto
qed

lemma split_less: "1 < n \<Longrightarrow> largestPowerOfTwoLessThan n < n"
  and split_le_double: "1 < n \<Longrightarrow> n \<le> 2 * largestPowerOfTwoLessThan n"
  and split_power: "1 < n \<Longrightarrow> \<exists>i. largestPowerOfTwoLessThan n = 2 ^ i"
  and split_pos: "1 < n \<Longrightarrow> 0 < largestPowerOfTwoLessThan n"
  using split_point [of n] by auto

lemma split_list_less [simp]:
  "ls \<noteq> [] \<Longrightarrow> length ls \<noteq> Suc 0 \<Longrightarrow> largestPowerOfTwoLessThan (length ls) < length ls"
  "ls \<noteq> [] \<Longrightarrow> length ls \<noteq> Suc 0 \<Longrightarrow> 0 < largestPowerOfTwoLessThan (length ls)"
  by (simp_all add: split_less split_pos Suc_lessI)

lemma power_two_between:
  assumes "(2::nat) ^ i < n" "n \<le> 2 * 2 ^ i" "(2::nat) ^ j < n" "n \<le> 2 * 2 ^ j"
  shows "i = j"
proof -
  have "(2::nat) ^ i < 2 ^ Suc j" and "(2::nat) ^ j < 2 ^ Suc i" using assms by simp_all
  then have "i < Suc j" and "j < Suc i"
    by (metis power_less_imp_less_exp one_less_numeral_iff semiring_norm(76))+
  then show ?thesis by simp
qed

lemma split_unique:
  assumes "2 ^ i < n" "n \<le> 2 * 2 ^ i"
  shows "largestPowerOfTwoLessThan n = 2 ^ i"
proof -
  have "1 < n" using assms(1) by (metis less_trans one_le_numeral one_le_power order_le_less)
  then obtain j where "largestPowerOfTwoLessThan n = 2 ^ j" "2 ^ j < n" "n \<le> 2 * 2 ^ j"
    using split_point by metis
  then show ?thesis using power_two_between assms by metis
qed

subsection \<open>The split point at the width of the code\<close>

text \<open>The same loop on Go's 64-bit \<open>int\<close>, with the wrap-around of the subtraction and of the shift
  written out. The loop of the source may run forever on the wrong condition, so not returning is
  the value \<open>None\<close>; \<open>x div 2\<close> is the arithmetic shift \<open>x >> 1\<close>.\<close>

partial_function (option) double_past :: "int \<Rightarrow> int \<Rightarrow> int option" where
  "double_past m k = (if k \<le> m then double_past m (wrap64 (k * 2)) else Some k)"

definition largestPowerOfTwoLessThan64 :: "int \<Rightarrow> int option" where
  "largestPowerOfTwoLessThan64 n = double_past (wrap64 (n - 1) div 2) 1"

declare double_past.simps [code]

text \<open>Started at a power of two and stopped by a bound below \<open>2^62\<close>, the loop returns the first
  power above the bound; no step overflows.\<close>

lemma double_past_power:
  assumes "m < 2 ^ 62" and "d + i = 62"
  shows "\<exists>j. i \<le> j \<and> double_past m (2 ^ i) = Some (2 ^ j) \<and> m < 2 ^ j \<and> (i < j \<longrightarrow> 2 ^ (j - 1) \<le> m)"
  using assms(2)
proof (induction d arbitrary: i)
  case 0
  with assms(1) have "\<not> 2 ^ i \<le> m" by simp
  then show ?case by (intro exI [of _ i]) (simp add: double_past.simps)
next
  case (Suc d)
  show ?case
  proof (cases "(2::int) ^ i \<le> m")
    case False
    then show ?thesis by (intro exI [of _ i]) (simp add: double_past.simps)
  next
    case True
    have "(2::int) ^ Suc i \<le> 2 ^ 62" using Suc.prems by (intro power_increasing) simp_all
    moreover have "(0::int) < 2 ^ Suc i" by simp
    moreover have "int64 x" if "0 < x" "x \<le> 2 ^ 62" for x :: int using that by (simp add: int64_def)
    ultimately have "int64 (2 ^ Suc i)" by blast
    then have wrap: "wrap64 (2 ^ i * 2) = 2 ^ Suc i" by (metis power_Suc2 wrap64_id)
    obtain j where j: "Suc i \<le> j" "double_past m (2 ^ Suc i) = Some (2 ^ j)" "m < 2 ^ j"
      "Suc i < j \<longrightarrow> 2 ^ (j - 1) \<le> m" using Suc.IH [of "Suc i"] Suc.prems by auto
    have "double_past m (2 ^ i) = Some (2 ^ j)"
      using j(2) wrap True by (subst double_past.simps) (simp del: power_Suc)
    moreover have "2 ^ (j - 1) \<le> m"
    proof (cases "Suc i < j")
      case False
      with j(1) have "j = Suc i" by simp
      with True show ?thesis by simp
    qed (use j(4) in simp)
    ultimately show ?thesis using j by (intro exI [of _ j]) simp
  qed
qed

lemma wrap64_half_less: "wrap64 x div 2 < 2 ^ 62"
proof -
  have "wrap64 x < 2 ^ 63" using int64_wrap64 [of x] unfolding int64_def by blast
  then show ?thesis by simp
qed

text \<open>C25. The loop that finds the split point returns for every 64-bit argument, also near the end of
  the range, where doubling would overflow; for every tree size of at least two it returns the
  largest power of two below the size, without wrap-around.\<close>
theorem split_point_terminates:
  "\<exists>k. largestPowerOfTwoLessThan64 n = Some k \<and>
     (1 < n \<and> int64 n \<longrightarrow> k = int (largestPowerOfTwoLessThan (nat n)) \<and> k < n \<and> n \<le> 2 * k)"
proof -
  let ?m = "wrap64 (n - 1) div 2"
  obtain j where j: "double_past ?m 1 = Some (2 ^ j)" "?m < 2 ^ j" "0 < j \<longrightarrow> 2 ^ (j - 1) \<le> ?m"
    using double_past_power [OF wrap64_half_less, of 62 0 "n - 1"] by auto
  have "2 ^ j = int (largestPowerOfTwoLessThan (nat n)) \<and> 2 ^ j < n \<and> n \<le> 2 * 2 ^ j"
    if n: "1 < n" "int64 n"
  proof -
    have m: "?m = (n - 1) div 2" using n by (simp add: int64_def)
    have up: "n \<le> 2 * 2 ^ j" using j(2) unfolding m by linarith
    have low: "2 ^ j < n"
    proof (cases j)
      case (Suc i)
      then have "2 ^ i \<le> (n - 1) div 2" using j(3) m by simp
      with Suc show ?thesis by simp
    qed (use n in simp)
    have "largestPowerOfTwoLessThan (nat n) = 2 ^ j"
      by (rule split_unique) (use low up n in \<open>simp_all add: zless_nat_conj nat_le_iff\<close>)
    with low up show ?thesis by simp
  qed
  with j(1) show ?thesis by (intro exI [of _ "2 ^ j"]) (simp add: largestPowerOfTwoLessThan64_def)
qed

lemma split_point_terminates_witness:
  "\<exists>k. largestPowerOfTwoLessThan64 9223372036854775807 = Some k \<and> k < 9223372036854775807 \<and> 9223372036854775807 \<le> 2 * k"
  using split_point_terminates [of 9223372036854775807] by (auto simp: int64_def)

subsection \<open>The whole-tree root\<close>

function RootFromLeaves :: "bytes list \<Rightarrow> bytes" where
  "RootFromLeaves leaves =
     (let n = length leaves
      in if n = 0 then EmptyRoot
         else if n = 1 then LeafHash (leaves ! 0)
         else let k = largestPowerOfTwoLessThan n
              in NodeHash (RootFromLeaves (take k leaves)) (RootFromLeaves (drop k leaves)))"
  by pat_completeness auto
termination
  by (relation "measure length") (auto simp: min_def not_le)

declare RootFromLeaves.simps [simp del]

abbreviation splitp :: "'a list \<Rightarrow> nat" where
  "splitp ls \<equiv> largestPowerOfTwoLessThan (length ls)"

lemma root_Nil [simp]: "RootFromLeaves [] = EmptyRoot"
  by (subst RootFromLeaves.simps) simp

lemma root_single [simp]: "RootFromLeaves [d] = LeafHash d"
  by (subst RootFromLeaves.simps) simp

lemma root_node:
  "1 < length ls \<Longrightarrow> RootFromLeaves ls
     = NodeHash (RootFromLeaves (take (splitp ls) ls)) (RootFromLeaves (drop (splitp ls) ls))"
  by (subst RootFromLeaves.simps) (auto simp: Let_def)

lemma length_root [simp]: "length (RootFromLeaves ls) = 64"
  by (subst RootFromLeaves.simps) (simp add: Let_def)

text \<open>Every proof about a tree splits it in the same three cases.\<close>

lemma tree_induct [case_names Nil Single Node]:
  assumes "P []" and "\<And>d. P [d]"
    and "\<And>ls. 1 < length ls \<Longrightarrow> P (take (splitp ls) ls) \<Longrightarrow> P (drop (splitp ls) ls) \<Longrightarrow> P ls"
  shows "P (ls :: bytes list)"
proof (induction ls rule: measure_induct_rule [where f = length])
  case (less ls)
  show ?case
  proof (cases "length ls \<le> 1")
    case True
    then show ?thesis using assms(1,2) by (cases ls) auto
  next
    case False
    then have n: "1 < length ls" by simp
    show ?thesis
      by (rule assms(3) [OF n]; rule less.IH) (use n split_less [OF n] split_pos [OF n] in auto)
  qed
qed

lemma tree_cases [case_names Nil Single Node]:
  assumes "ls = [] \<Longrightarrow> P" and "\<And>d. ls = [d] \<Longrightarrow> P" and "1 < length ls \<Longrightarrow> P"
  shows P
  using assms by (cases ls; cases "tl ls") auto

text \<open>Joining two trees at a power of two is the tree of the joined leaves.\<close>

lemma root_join:
  assumes "length a = 2 ^ i" and "b \<noteq> []" and "length b \<le> 2 ^ i"
  shows "NodeHash (RootFromLeaves a) (RootFromLeaves b) = RootFromLeaves (a @ b)"
proof -
  have "largestPowerOfTwoLessThan (length (a @ b)) = 2 ^ i"
    using assms by (intro split_unique) auto
  moreover have "1 < length (a @ b)"
  proof -
    have "(1::nat) \<le> 2 ^ i" by simp
    with assms show ?thesis by (cases b) auto
  qed
  ultimately show ?thesis using root_node [of "a @ b"] assms(1) by simp
qed

subsection \<open>The strings a tree hashes, and when two roots agree\<close>

function tree_preimages :: "bytes list \<Rightarrow> bytes list" where
  "tree_preimages leaves =
     (let n = length leaves
      in if n = 0 then [[]]
         else if n = 1 then [CHR 0x00 # leaves ! 0]
         else let k = largestPowerOfTwoLessThan n; l = take k leaves; r = drop k leaves
              in (CHR 0x01 # RootFromLeaves l @ RootFromLeaves r)
                 # tree_preimages l @ tree_preimages r)"
  by pat_completeness auto
termination
  by (relation "measure length") (auto simp: min_def not_le)

declare tree_preimages.simps [simp del]

lemma tree_preimages_Nil [simp]: "tree_preimages [] = [[]]"
  by (subst tree_preimages.simps) simp

lemma tree_preimages_single [simp]: "tree_preimages [d] = [CHR 0x00 # d]"
  by (subst tree_preimages.simps) simp

lemma tree_preimages_node:
  "1 < length ls \<Longrightarrow> tree_preimages ls =
     (CHR 0x01 # RootFromLeaves (take (splitp ls) ls) @ RootFromLeaves (drop (splitp ls) ls))
     # tree_preimages (take (splitp ls) ls) @ tree_preimages (drop (splitp ls) ls)"
  by (subst tree_preimages.simps) (auto simp: Let_def)

lemma root_is_hash_of_hd: "RootFromLeaves ls = sha512 (hd (tree_preimages ls))"
  by (cases ls rule: tree_cases)
     (simp_all add: EmptyRoot_def LeafHash_def NodeHash_def root_node tree_preimages_node)

lemma tree_preimages_not_Nil [simp]: "tree_preimages ls \<noteq> []"
  by (cases ls rule: tree_cases) (simp_all add: tree_preimages_node)

text \<open>Equal roots mean equal leaves, whatever the sizes, or a collision between the strings
  the two trees hash: the leaf and node prefixes keep the shapes apart.\<close>

lemma roots_equal:
  "RootFromLeaves ls = RootFromLeaves ls' \<Longrightarrow>
     ls = ls' \<or> collide (tree_preimages ls) (tree_preimages ls')"
proof (induction ls arbitrary: ls' rule: tree_induct)
  case Nil
  then show ?case
    by (cases ls' rule: tree_cases)
       (auto simp: root_is_hash_of_hd tree_preimages_node intro!: collide_hd)
next
  case (Single d)
  then show ?case
    by (cases ls' rule: tree_cases)
       (auto simp: root_is_hash_of_hd tree_preimages_node intro!: collide_hd)
next
  case (Node ls)
  let ?l = "take (splitp ls) ls" and ?r = "drop (splitp ls) ls"
  let ?l' = "take (splitp ls') ls'" and ?r' = "drop (splitp ls') ls'"
  show ?case
  proof (cases "hd (tree_preimages ls) = hd (tree_preimages ls')")
    case False
    then have "collide (hd (tree_preimages ls) # tl (tree_preimages ls))
        (hd (tree_preimages ls') # tl (tree_preimages ls'))"
      using Node.prems by (intro collide_hd) (simp_all add: root_is_hash_of_hd)
    then show ?thesis by simp
  next
    case True
    with Node.hyps(1) have long: "1 < length ls'"
      by (cases ls' rule: tree_cases) (simp_all add: tree_preimages_node)
    from True have "RootFromLeaves ?l @ RootFromLeaves ?r = RootFromLeaves ?l' @ RootFromLeaves ?r'"
      unfolding tree_preimages_node [OF Node.hyps(1)] tree_preimages_node [OF long]
      by (simp only: list.sel list.inject simp_thms)
    then have eqs: "RootFromLeaves ?l = RootFromLeaves ?l'" "RootFromLeaves ?r = RootFromLeaves ?r'"
      by simp_all
    have "ls = ls'" if "?l = ?l'" "?r = ?r'"
      using that by (metis append_take_drop_id)
    with Node.IH(1) [OF eqs(1)] Node.IH(2) [OF eqs(2)] show ?thesis
      unfolding tree_preimages_node [OF Node.hyps(1)] tree_preimages_node [OF long]
      by (auto simp: collide_iff)
  qed
qed

subsection \<open>Inclusion proofs\<close>

text \<open>\<open>inclusionPath\<close> is called with a non-empty tree; the empty list is answered like the
  single leaf only to make the recursion total.\<close>

function inclusionPath :: "nat \<Rightarrow> bytes list \<Rightarrow> bytes list" where
  "inclusionPath m leaves =
     (if length leaves \<le> 1 then []
      else let k = largestPowerOfTwoLessThan (length leaves)
           in if m < k then inclusionPath m (take k leaves) @ [RootFromLeaves (drop k leaves)]
              else inclusionPath (m - k) (drop k leaves) @ [RootFromLeaves (take k leaves)])"
  by pat_completeness auto
termination
  by (relation "measure (\<lambda>(m, ls). length ls)") (auto simp: split_less split_pos min_def not_le intro!: diff_less)

declare inclusionPath.simps [simp del]

definition InclusionProof :: "int \<Rightarrow> bytes list \<Rightarrow> merkle_error + bytes list" where
  "InclusionProof m leaves =
     (let n = length leaves
      in if n = 0 then Inl EmptyTree
         else if m < 0 \<or> int n \<le> m then Inl (IndexOutOfRange m n)
         else Inr (inclusionPath (nat m) leaves))"

function rootFromInclusion :: "bytes \<Rightarrow> nat \<Rightarrow> nat \<Rightarrow> bytes list \<Rightarrow> bytes option" where
  "rootFromInclusion leafHash m n proof =
     (if n = 1 then (if proof \<noteq> [] then None else Some leafHash)
      else if proof = [] then None
      else let sibling = last proof; rest = butlast proof; k = largestPowerOfTwoLessThan n
           in if m < k
              then (case rootFromInclusion leafHash m k rest of
                      None \<Rightarrow> None | Some left \<Rightarrow> Some (NodeHash left sibling))
              else (case rootFromInclusion leafHash (m - k) (n - k) rest of
                      None \<Rightarrow> None | Some right \<Rightarrow> Some (NodeHash sibling right)))"
  by pat_completeness auto
termination
  by (relation "measure (\<lambda>(h, m, n, p). length p)") auto

declare rootFromInclusion.simps [simp del]

definition VerifyInclusion :: "bytes \<Rightarrow> int \<Rightarrow> int \<Rightarrow> bytes list \<Rightarrow> bytes \<Rightarrow> bool" where
  "VerifyInclusion leafHash m treeSize proof root =
     (if m < 0 \<or> treeSize \<le> m \<or> treeSize \<le> 0 then False
      else case rootFromInclusion leafHash (nat m) (nat treeSize) proof of
             None \<Rightarrow> False
           | Some computed \<Rightarrow> computed = root)"

lemma inclusionPath_complete:
  "m < length ls \<Longrightarrow>
     rootFromInclusion (LeafHash (ls ! m)) m (length ls) (inclusionPath m ls)
       = Some (RootFromLeaves ls)"
proof (induction ls arbitrary: m rule: tree_induct)
  case Nil
  then show ?case by simp
next
  case (Single d)
  then show ?case by (simp add: inclusionPath.simps rootFromInclusion.simps)
next
  case (Node ls)
  let ?k = "splitp ls"
  note k = split_less [OF Node.hyps(1)]
  show ?case
  proof (cases "m < ?k")
    case True
    with Node.IH(1) [of m] k Node.hyps(1) show ?thesis
      by (simp add: inclusionPath.simps [of m ls] rootFromInclusion.simps [of _ _ "length ls"]
          Let_def root_node min_def)
  next
    case False
    with Node.IH(2) [of "m - ?k"] k Node.hyps(1) Node.prems show ?thesis
      by (simp add: inclusionPath.simps [of m ls] rootFromInclusion.simps [of _ _ "length ls"]
          Let_def root_node)
  qed
qed

text \<open>The strings \<open>rootFromInclusion\<close> hashes, the leaf's own preimage first at the
  bottom.\<close>

function inclusion_preimages :: "bytes \<Rightarrow> nat \<Rightarrow> nat \<Rightarrow> bytes list \<Rightarrow> bytes list" where
  "inclusion_preimages d m n proof =
     (if n = 1 \<or> proof = [] then [CHR 0x00 # d]
      else let sibling = last proof; rest = butlast proof; k = largestPowerOfTwoLessThan n
           in if m < k
              then (CHR 0x01 # the (rootFromInclusion (LeafHash d) m k rest) @ sibling)
                   # inclusion_preimages d m k rest
              else (CHR 0x01 # sibling @ the (rootFromInclusion (LeafHash d) (m - k) (n - k) rest))
                   # inclusion_preimages d (m - k) (n - k) rest)"
  by pat_completeness auto
termination
  by (relation "measure (\<lambda>(h, m, n, p). length p)") auto

declare inclusion_preimages.simps [simp del]

lemma length_rootFromInclusion:
  "rootFromInclusion h m n p = Some r \<Longrightarrow> length h = 64 \<Longrightarrow> length r = 64"
  by (subst (asm) rootFromInclusion.simps)
     (auto simp: Let_def split: if_splits option.splits)

lemma inclusion_sound:
  "m < length ls \<Longrightarrow> rootFromInclusion (LeafHash d) m (length ls) p = Some (RootFromLeaves ls) \<Longrightarrow>
     d = ls ! m \<or> collide (inclusion_preimages d m (length ls) p) (tree_preimages ls)"
proof (induction ls arbitrary: m p rule: tree_induct)
  case Nil
  then show ?case by simp
next
  case (Single x)
  then have "LeafHash d = LeafHash x"
    by (simp add: rootFromInclusion.simps split: if_splits)
  with Single show ?case
    by (auto simp: LeafHash_def inclusion_preimages.simps intro!: collide_hd)
next
  case (Node ls)
  let ?k = "splitp ls" and ?s = "last p" and ?p = "butlast p"
  let ?l = "take ?k ls" and ?r = "drop ?k ls"
  note k = split_less [OF Node.hyps(1)]
  have ne: "p \<noteq> []" "length ls \<noteq> 1"
    using Node.prems(2) Node.hyps(1) by (subst (asm) rootFromInclusion.simps; auto)+
  show ?case
  proof (cases "m < ?k")
    case True
    then obtain h where h: "rootFromInclusion (LeafHash d) m ?k ?p = Some h"
      and eq: "NodeHash h ?s = NodeHash (RootFromLeaves ?l) (RootFromLeaves ?r)"
      using Node.prems(2) ne Node.hyps(1)
      by (subst (asm) rootFromInclusion.simps) (auto simp: Let_def root_node split: option.splits)
    have pre: "inclusion_preimages d m (length ls) p
        = (CHR 0x01 # h @ ?s) # inclusion_preimages d m ?k ?p"
      using True ne h by (subst inclusion_preimages.simps) (simp add: Let_def)
    show ?thesis
    proof (cases "h @ ?s = RootFromLeaves ?l @ RootFromLeaves ?r")
      case False
      with eq show ?thesis unfolding pre tree_preimages_node [OF Node.hyps(1)]
        by (intro disjI2 collide_hd) (simp_all add: NodeHash_def)
    next
      case eqp: True
      have "h = RootFromLeaves ?l"
        using eqp length_rootFromInclusion [OF h] by simp
      with Node.IH(1) [of m ?p] h k True have
        "d = ls ! m \<or> collide (inclusion_preimages d m ?k ?p) (tree_preimages ?l)"
        by (simp add: min_def)
      then show ?thesis unfolding pre tree_preimages_node [OF Node.hyps(1)]
        by (auto simp: collide_iff)
    qed
  next
    case False
    then obtain h where h: "rootFromInclusion (LeafHash d) (m - ?k) (length ls - ?k) ?p = Some h"
      and eq: "NodeHash ?s h = NodeHash (RootFromLeaves ?l) (RootFromLeaves ?r)"
      using Node.prems(2) ne Node.hyps(1)
      by (subst (asm) rootFromInclusion.simps) (auto simp: Let_def root_node split: option.splits)
    have pre: "inclusion_preimages d m (length ls) p
        = (CHR 0x01 # ?s @ h) # inclusion_preimages d (m - ?k) (length ls - ?k) ?p"
      using False ne h by (subst inclusion_preimages.simps) (simp add: Let_def)
    show ?thesis
    proof (cases "?s @ h = RootFromLeaves ?l @ RootFromLeaves ?r")
      case False
      with eq show ?thesis unfolding pre tree_preimages_node [OF Node.hyps(1)]
        by (intro disjI2 collide_hd) (simp_all add: NodeHash_def)
    next
      case eqp: True
      have "h = RootFromLeaves ?r"
        using eqp length_rootFromInclusion [OF h] by simp
      with Node.IH(2) [of "m - ?k" ?p] h k False Node.prems(1) have
        "d = ls ! m \<or> collide (inclusion_preimages d (m - ?k) (length ls - ?k) ?p) (tree_preimages ?r)"
        by simp
      then show ?thesis unfolding pre tree_preimages_node [OF Node.hyps(1)]
        by (auto simp: collide_iff)
    qed
  qed
qed

subsection \<open>Properties\<close>

text \<open>C2. A root commits to its leaves: two lists with the same root, of whatever sizes, are the
  same list, unless two of the strings the trees hash (each list of them is given) are a
  SHA-512 collision. The leaf and node prefixes are what rules out reading a node as a leaf.\<close>

theorem merkle_root_binds:
  assumes "RootFromLeaves leaves = RootFromLeaves leaves'"
  shows "leaves = leaves' \<or> collide (tree_preimages leaves) (tree_preimages leaves')"
  using assms by (rule roots_equal)

theorem merkle_root_binds_witness:
  "[''a''] = [''a''] \<or> collide (tree_preimages [''a'']) (tree_preimages [''a''])"
  by (rule merkle_root_binds) simp

text \<open>C3. \<open>InclusionProof\<close> returns a proof for every index inside the tree and an error for every
  other, and the proof it returns is accepted by \<open>VerifyInclusion\<close> for that leaf, index, size
  and the root of the tree.\<close>

theorem inclusion_proof_verifies:
  "case InclusionProof m leaves of
     Inl e \<Rightarrow> \<not> (0 \<le> m \<and> m < int (length leaves))
       \<and> e = (if leaves = [] then EmptyTree else IndexOutOfRange m (length leaves))
   | Inr p \<Rightarrow> 0 \<le> m \<and> m < int (length leaves)
       \<and> VerifyInclusion (LeafHash (leaves ! nat m)) m (int (length leaves)) p (RootFromLeaves leaves)"
proof (cases "0 \<le> m \<and> m < int (length leaves)")
  case True
  then have "nat m < length leaves" by linarith
  with True inclusionPath_complete [OF this] show ?thesis
    by (auto simp: InclusionProof_def VerifyInclusion_def Let_def)
next
  case False
  then show ?thesis by (auto simp: InclusionProof_def Let_def)
qed

text \<open>C4. An accepted inclusion proof, from whatever source, shows that the leaf at the index is the
  one claimed, unless a string the verifier hashes collides with one the tree hashes.\<close>

theorem inclusion_proof_sound:
  assumes "VerifyInclusion (LeafHash d) m (int (length leaves)) p (RootFromLeaves leaves)"
  shows "0 \<le> m \<and> m < int (length leaves) \<and>
    (d = leaves ! nat m \<or>
     collide (inclusion_preimages d (nat m) (length leaves) p) (tree_preimages leaves))"
proof -
  from assms have m: "0 \<le> m" "m < int (length leaves)"
    and r: "rootFromInclusion (LeafHash d) (nat m) (length leaves) p = Some (RootFromLeaves leaves)"
    by (auto simp: VerifyInclusion_def split: if_splits option.splits)
  from m have "nat m < length leaves" by linarith
  from inclusion_sound [OF this r] m show ?thesis by simp
qed

theorem inclusion_proof_sound_witness:
  "(0::int) \<le> 0 \<and> 0 < int (length [''a'']) \<and>
    (''a'' = [''a''] ! nat 0 \<or>
     collide (inclusion_preimages ''a'' (nat 0) (length [''a'']) []) (tree_preimages [''a'']))"
  by (rule inclusion_proof_sound) (simp add: VerifyInclusion_def rootFromInclusion.simps)

end
