(* ===== verification/Merkle_Frontier.thy ===== *)
theory Merkle_Frontier
  imports Merkle_Tree
begin

unbundle bit_operations_syntax

section \<open>The incremental tree: \<open>merkle/frontier.go\<close> and \<open>merkle/roothex.go\<close>\<close>

text \<open>
  A frontier keeps one subtree root per set bit of the number of leaves. A level is a Go slice
  that is nil or not: an option here; the only way to store an empty non-nil slice would be to
  decode one, and \<open>UnmarshalFrontier\<close> refuses it. The refinement theorem says the frontier
  computes the root of the whole-tree definition, and the marshal theorems that a stored
  frontier resumes as the same frontier.
\<close>

record frontier =
  levels :: "bytes option list"
  fsize :: int

definition NewFrontier :: frontier where
  "NewFrontier = \<lparr>levels = [], fsize = 0\<rparr>"

definition Size :: "frontier \<Rightarrow> int" where
  "Size f = fsize f"

definition slice_of :: "bytes option \<Rightarrow> bytes" where
  "slice_of x = (case x of None \<Rightarrow> [] | Some b \<Rightarrow> b)"

text \<open>The loop of \<open>Append\<close> over the occupied low levels, and the store that ends it. A copy of
  an empty slice is nil.\<close>

fun carry_up :: "bytes option list \<Rightarrow> bytes option \<Rightarrow> bytes option list" where
  "carry_up [] carry = [carry]"
| "carry_up (None # lvls) carry = carry # lvls"
| "carry_up (Some h # lvls) carry = None # carry_up lvls (Some (NodeHash h (slice_of carry)))"

definition Append :: "frontier \<Rightarrow> bytes \<Rightarrow> frontier" where
  "Append f leafHash =
     \<lparr>levels = carry_up (levels f) (if leafHash = [] then None else Some leafHash),
      fsize = wrap64 (fsize f + 1)\<rparr>"

definition root_step :: "bytes option \<Rightarrow> bytes option \<Rightarrow> bytes option" where
  "root_step acc lvl =
     (case lvl of
        None \<Rightarrow> acc
      | Some h \<Rightarrow> (case acc of None \<Rightarrow> Some h | Some a \<Rightarrow> Some (NodeHash h a)))"

definition Root :: "frontier \<Rightarrow> bytes" where
  "Root f = (if fsize f = 0 then EmptyRoot else slice_of (foldl root_step None (levels f)))"

definition FrontierFromLeaves :: "bytes list \<Rightarrow> frontier" where
  "FrontierFromLeaves leaves = foldl (\<lambda>f d. Append f (LeafHash d)) NewFrontier leaves"

definition render_node :: "nat \<Rightarrow> bytes \<Rightarrow> string" where
  "render_node lvl h = fmt_int (int lvl) @ CHR '':'' # hex_encode h"

fun render_levels :: "nat \<Rightarrow> bytes option list \<Rightarrow> string" where
  "render_levels lvl [] = []"
| "render_levels lvl (None # lvls) = render_levels (Suc lvl) lvls"
| "render_levels lvl (Some h # lvls) = CHR ''|'' # render_node lvl h @ render_levels (Suc lvl) lvls"

definition Marshal :: "frontier \<Rightarrow> string" where
  "Marshal f = fmt_int (fsize f) @ render_levels 0 (levels f)"

definition maxFrontierLevel :: int where
  "maxFrontierLevel = 62"

text \<open>One \<open>level:hash\<close> part of the stored form, and the loop over the parts.\<close>

definition unmarshal_node ::
  "int \<Rightarrow> bytes option list \<Rightarrow> string \<Rightarrow> merkle_error + bytes option list" where
  "unmarshal_node sz lvls p =
     (case split_first (CHR '':'') p of
        None \<Rightarrow> Inl (FrontierNodeParse p)
      | Some (l, h) \<Rightarrow>
          (case parse_int64 l of
             None \<Rightarrow> Inl (FrontierLevelParse l)
           | Some lvl \<Rightarrow>
               if lvl < 0 then Inl (FrontierLevelParse l)
               else if maxFrontierLevel < lvl \<or> drop_bit (nat lvl) sz AND 1 = 0
               then Inl (FrontierLevelNotOccupied lvl sz)
               else
                 (case hex_decode h of
                    None \<Rightarrow> Inl (FrontierNodeHash lvl)
                  | Some hb \<Rightarrow>
                      if length hb \<noteq> HashSize then Inl (FrontierNodeHash lvl)
                      else
                        let ext = lvls @ replicate (Suc (nat lvl) - length lvls) None
                        in if ext ! nat lvl \<noteq> None then Inl (FrontierDuplicateLevel lvl)
                           else Inr (ext[nat lvl := Some hb]))))"

fun unmarshal_nodes ::
  "int \<Rightarrow> bytes option list \<Rightarrow> string list \<Rightarrow> merkle_error + bytes option list" where
  "unmarshal_nodes sz lvls [] = Inr lvls"
| "unmarshal_nodes sz lvls (p # ps) =
     (case unmarshal_node sz lvls p of
        Inl e \<Rightarrow> Inl e
      | Inr lvls' \<Rightarrow> unmarshal_nodes sz lvls' ps)"

fun occupied_bits :: "nat \<Rightarrow> bytes option list \<Rightarrow> int \<Rightarrow> int" where
  "occupied_bits lvl [] acc = acc"
| "occupied_bits lvl (x # lvls) acc =
     occupied_bits (Suc lvl) lvls (if x \<noteq> None then acc OR push_bit lvl 1 else acc)"

definition UnmarshalFrontier :: "string \<Rightarrow> merkle_error + frontier" where
  "UnmarshalFrontier s =
     (let parts = split_on (CHR ''|'') s
      in case parse_int64 (hd parts) of
           None \<Rightarrow> Inl (FrontierSizeParse (hd parts))
         | Some sz \<Rightarrow>
             if sz < 0 then Inl (FrontierSizeParse (hd parts))
             else
               (case unmarshal_nodes sz [] (tl parts) of
                  Inl e \<Rightarrow> Inl e
                | Inr lvls \<Rightarrow>
                    let reconstructed = occupied_bits 0 lvls 0
                    in if reconstructed \<noteq> sz then Inl (FrontierBitsMismatch reconstructed sz)
                       else Inr \<lparr>levels = lvls, fsize = sz\<rparr>))"

fun decode_leaves :: "nat \<Rightarrow> string list \<Rightarrow> merkle_error + bytes list" where
  "decode_leaves i [] = Inr []"
| "decode_leaves i (h # hs) =
     (case hex_decode h of
        None \<Rightarrow> Inl (LeafHex i)
      | Some b \<Rightarrow>
          if length b \<noteq> HashSize then Inl (LeafLength i (length b))
          else case decode_leaves (Suc i) hs of Inl e \<Rightarrow> Inl e | Inr bs \<Rightarrow> Inr (b # bs))"

definition RootHex :: "string list \<Rightarrow> merkle_error + string" where
  "RootHex contentHashesHex =
     (case decode_leaves 0 contentHashesHex of
        Inl e \<Rightarrow> Inl e
      | Inr raw \<Rightarrow> Inr (hex_encode (Root (FrontierFromLeaves raw))))"

subsection \<open>The frontier represents its leaves\<close>

text \<open>\<open>represents i lvls ls\<close>: the levels from \<open>i\<close> up hold the roots of consecutive blocks of
  the leaves \<open>ls\<close>, the last block at the lowest level, each of its level's size.\<close>

fun represents :: "nat \<Rightarrow> bytes option list \<Rightarrow> bytes list \<Rightarrow> bool" where
  "represents i [] ls = (ls = [])"
| "represents i (None # lvls) ls = represents (Suc i) lvls ls"
| "represents i (Some h # lvls) ls =
     (2 ^ i \<le> length ls \<and> h = RootFromLeaves (drop (length ls - 2 ^ i) ls) \<and>
      represents (Suc i) lvls (take (length ls - 2 ^ i) ls))"

lemma root_not_Nil [simp]: "RootFromLeaves ls \<noteq> []"
  using length_root [of ls] by (metis list.size(3) zero_neq_numeral)

lemma represents_carry:
  "represents i lvls a \<Longrightarrow> length b = 2 ^ i \<Longrightarrow>
     represents i (carry_up lvls (Some (RootFromLeaves b))) (a @ b)"
proof (induction i lvls a arbitrary: b rule: represents.induct)
  case (1 i ls)
  then show ?case by simp
next
  case (2 i lvls ls)
  then show ?case by simp
next
  case (3 i h lvls ls)
  let ?m = "length ls - 2 ^ i"
  let ?c = "drop ?m ls"
  from 3 have c: "length ?c = 2 ^ i" "h = RootFromLeaves ?c" by simp_all
  have "b \<noteq> []" using 3(3) by auto
  then have "NodeHash (RootFromLeaves ?c) (RootFromLeaves b) = RootFromLeaves (?c @ b)"
    using c 3(3) by (intro root_join [where i = i]) auto
  moreover have "represents (Suc i) (carry_up lvls (Some (RootFromLeaves (?c @ b)))) (take ?m ls @ ?c @ b)"
    using 3 c by (intro "3.IH") simp_all
  moreover have "take ?m ls @ ?c @ b = ls @ b" by simp
  ultimately show ?case by (simp add: slice_of_def c(2))
qed

lemma represents_root:
  "represents i lvls a \<Longrightarrow> length c \<le> 2 ^ i \<Longrightarrow>
     foldl root_step (if c = [] then None else Some (RootFromLeaves c)) lvls
       = (if a @ c = [] then None else Some (RootFromLeaves (a @ c)))"
proof (induction i lvls a arbitrary: c rule: represents.induct)
  case (1 i ls)
  then show ?case by simp
next
  case (2 i lvls ls)
  then have "represents (Suc i) lvls ls" and "length c \<le> 2 ^ Suc i" by simp_all
  from "2.IH" [OF this] show ?case by (simp add: root_step_def)
next
  case (3 i h lvls ls)
  let ?m = "length ls - 2 ^ i"
  let ?b = "drop ?m ls"
  from 3 have b: "length ?b = 2 ^ i" "h = RootFromLeaves ?b" by simp_all
  then have ne: "?b \<noteq> []" by (metis length_0_conv power_not_zero zero_neq_numeral)
  have "root_step (if c = [] then None else Some (RootFromLeaves c)) (Some h)
      = Some (RootFromLeaves (?b @ c))"
    using root_join [of ?b i c] 3 b by (simp add: root_step_def)
  moreover have "foldl root_step (if ?b @ c = [] then None else Some (RootFromLeaves (?b @ c))) lvls
      = (if take ?m ls @ ?b @ c = [] then None else Some (RootFromLeaves (take ?m ls @ ?b @ c)))"
    using 3 b by (intro "3.IH") simp_all
  moreover have eq: "take ?m ls @ ?b @ c = ls @ c" by (metis append_assoc append_take_drop_id)
  ultimately show ?case using ne unfolding eq by simp
qed

definition frontier_of :: "bytes list \<Rightarrow> frontier \<Rightarrow> bool" where
  "frontier_of ls f \<longleftrightarrow> represents 0 (levels f) ls \<and> fsize f = wrap64 (int (length ls))"

lemma wrap64_Suc: "wrap64 (wrap64 x + 1) = wrap64 (x + 1)"
  by (simp add: wrap64_def mod_simps algebra_simps)

lemma leaf_hash_not_Nil: "LeafHash d \<noteq> []"
  using length_merkle_hash(1) [of d] by (metis list.size(3) zero_neq_numeral)

lemma frontier_of_Append: "frontier_of ls f \<Longrightarrow> frontier_of (ls @ [d]) (Append f (LeafHash d))"
  using represents_carry [of 0 "levels f" ls "[d]"]
  by (simp add: frontier_of_def Append_def wrap64_Suc leaf_hash_not_Nil add.commute [of 1])

lemma frontier_of_New: "frontier_of [] NewFrontier"
  by (simp add: frontier_of_def NewFrontier_def wrap64_def)

lemma frontier_of_FromLeaves: "frontier_of ls (FrontierFromLeaves ls)"
  unfolding FrontierFromLeaves_def
  by (induction ls rule: rev_induct) (simp_all add: frontier_of_New frontier_of_Append)

lemma Root_frontier_of:
  assumes "frontier_of ls f" and "length ls < 2 ^ 63"
  shows "Root f = RootFromLeaves ls"
proof -
  have "int64 (int (length ls))" using assms(2) by (simp add: int64_def)
  then have "fsize f = int (length ls)" using assms(1) by (simp add: frontier_of_def)
  moreover have "foldl root_step None (levels f) = (if ls = [] then None else Some (RootFromLeaves ls))"
    using represents_root [of 0 "levels f" ls "[]"] assms(1) by (simp add: frontier_of_def)
  ultimately show ?thesis by (simp add: Root_def slice_of_def)
qed

subsection \<open>Well-formed frontiers and the stored form\<close>

text \<open>\<open>occupancy\<close> reads the levels as the binary number whose bits are the occupied levels.\<close>

fun occupancy :: "bytes option list \<Rightarrow> int" where
  "occupancy [] = 0"
| "occupancy (x # lvls) = (if x = None then 0 else 1) + 2 * occupancy lvls"

definition node_ok :: "bytes option \<Rightarrow> bool" where
  "node_ok x = (case x of None \<Rightarrow> True | Some h \<Rightarrow> length h = 64)"

definition wf_frontier :: "frontier \<Rightarrow> bool" where
  "wf_frontier f \<longleftrightarrow>
     occupancy (levels f) = fsize f \<and> fsize f < 2 ^ 63 \<and>
     list_all node_ok (levels f) \<and>
     (levels f = [] \<or> last (levels f) \<noteq> None)"

lemma occupancy_nonneg [simp]: "0 \<le> occupancy lvls"
  by (induction lvls) auto

lemma occupancy_bit: "k < length lvls \<Longrightarrow> bit (occupancy lvls) k \<longleftrightarrow> lvls ! k \<noteq> None"
  by (induction lvls arbitrary: k) (auto simp: bit_Suc bit_0 nth_Cons split: nat.splits)

lemma occupancy_ge: "k < length lvls \<Longrightarrow> lvls ! k \<noteq> None \<Longrightarrow> 2 ^ k \<le> occupancy lvls"
proof (induction lvls arbitrary: k)
  case (Cons x lvls)
  show ?case
  proof (cases k)
    case (Suc j)
    with Cons have "2 ^ j \<le> occupancy lvls" by simp
    then show ?thesis using Suc by simp
  next
    case 0
    have "0 \<le> occupancy lvls" by simp
    with 0 Cons.prems show ?thesis by (cases x) simp_all
  qed
qed simp

lemma occupied_bits_occupancy:
  "0 \<le> acc \<Longrightarrow> acc < 2 ^ lvl \<Longrightarrow> occupied_bits lvl lvls acc = acc + 2 ^ lvl * occupancy lvls"
proof (induction lvls arbitrary: lvl acc)
  case Nil
  then show ?case by simp
next
  case (Cons x lvls)
  have "acc OR push_bit lvl 1 = acc + 2 ^ lvl"
  proof -
    have "\<not> bit acc n" if "lvl \<le> n" for n
    proof -
      have "acc < 2 ^ n" using Cons.prems(2) that
        by (meson less_le_trans one_le_numeral power_increasing)
      with Cons.prems(1) show ?thesis by (simp add: bit_iff_odd)
    qed
    then have "acc AND push_bit lvl 1 = 0"
      by (intro bit_eqI) (auto simp: bit_simps)
    then show ?thesis using disjunctive_add_eq_or [of acc "push_bit lvl 1"] by (simp add: push_bit_eq_mult)
  qed
  then show ?case using Cons.IH [of "acc + 2 ^ lvl" "Suc lvl"] Cons.IH [of acc "Suc lvl"] Cons.prems
    by (simp add: algebra_simps)
qed

lemma occupancy_carry [simp]: "occupancy (carry_up lvls (Some h)) = occupancy lvls + 1"
  by (induction lvls "Some h" arbitrary: h rule: carry_up.induct) auto

lemma carry_last: "lvls = [] \<or> last lvls \<noteq> None \<Longrightarrow>
    carry_up lvls (Some h) \<noteq> [] \<and> last (carry_up lvls (Some h)) \<noteq> None"
proof (induction lvls "Some h" arbitrary: h rule: carry_up.induct)
  case (3 g lvls)
  then show ?case by (cases lvls) auto
qed (auto split: if_splits)

lemma carry_hashes:
  "list_all node_ok lvls \<Longrightarrow> length h = 64 \<Longrightarrow>
   list_all node_ok (carry_up lvls (Some h))"
  by (induction lvls "Some h" arbitrary: h rule: carry_up.induct) (auto simp: node_ok_def)

lemma wf_frontier_New: "wf_frontier NewFrontier"
  by (simp add: wf_frontier_def NewFrontier_def)

lemma wf_frontier_Append:
  assumes "wf_frontier f" "length h = 64" "fsize f < 2 ^ 63 - 1"
  shows "wf_frontier (Append f h) \<and> fsize (Append f h) = fsize f + 1"
proof -
  have "0 \<le> fsize f" using assms(1) occupancy_nonneg [of "levels f"] by (simp add: wf_frontier_def)
  then have "wrap64 (fsize f + 1) = fsize f + 1" using assms(3) by (simp add: int64_def)
  moreover have "h \<noteq> []" using assms(2) by auto
  ultimately show ?thesis using assms carry_last [of "levels f" h] carry_hashes [of "levels f" h]
    by (simp add: wf_frontier_def Append_def)
qed

text \<open>\<open>trim\<close> drops the nil levels at the top, as a decoded frontier has none.\<close>

definition trim :: "bytes option list \<Rightarrow> bytes option list" where
  "trim lvls = rev (dropWhile (\<lambda>x. x = None) (rev lvls))"

lemma trim_simps [simp]:
  "trim [] = []" "trim (lvls @ [None]) = trim lvls" "trim (lvls @ [Some h]) = lvls @ [Some h]"
  by (simp_all add: trim_def)

lemma trim_id: "lvls = [] \<or> last lvls \<noteq> None \<Longrightarrow> trim lvls = lvls"
  by (cases lvls rule: rev_cases) auto

lemma trim_extend:
  "trim lvls @ replicate (Suc (length lvls) - length (trim lvls)) None = lvls @ [None]
    \<and> length (trim lvls) \<le> length lvls"
proof (induction lvls rule: rev_induct)
  case Nil
  then show ?case by simp
next
  case (snoc x xs)
  show ?case
  proof (cases x)
    case None
    have "replicate (Suc (Suc (length xs)) - length (trim xs)) (None :: bytes option)
        = replicate (Suc (length xs) - length (trim xs)) None @ [None]"
      using snoc by (simp add: Suc_diff_le replicate_append_same)
    then show ?thesis using snoc None by simp
  next
    case (Some h)
    then show ?thesis by simp
  qed
qed

fun node_parts :: "nat \<Rightarrow> bytes option list \<Rightarrow> string list" where
  "node_parts lvl [] = []"
| "node_parts lvl (None # lvls) = node_parts (Suc lvl) lvls"
| "node_parts lvl (Some h # lvls) = render_node lvl h # node_parts (Suc lvl) lvls"

lemma no_pipe_hex_encode [simp]: "CHR ''|'' \<notin> set (hex_encode h)"
  by (rule hex_no_pipe) simp

lemma no_pipe_render_node [simp]: "CHR ''|'' \<notin> set (render_node lvl h)"
  by (simp add: render_node_def)

lemma no_colon_fmt_int [simp]: "CHR '':'' \<notin> set (fmt_int i)"
  using fmt_int_chars [of "CHR '':''" i] by (auto simp: is_digit_def)

lemma split_render_levels:
  "CHR ''|'' \<notin> set s \<Longrightarrow> split_on (CHR ''|'') (s @ render_levels lvl lvls) = s # node_parts lvl lvls"
  by (induction lvl lvls arbitrary: s rule: render_levels.induct) (simp_all add: split_on_append_sep)

lemma unmarshal_render_node:
  assumes "length h = 64" "length lvls \<le> 62" "bit sz (length lvls)"
  shows "unmarshal_node sz (trim lvls) (render_node (length lvls) h) = Inr (lvls @ [Some h])"
proof -
  have "int64 (int (length lvls))" using assms(2) by (simp add: int64_def)
  moreover have "drop_bit (length lvls) sz AND 1 \<noteq> 0"
    using assms(3) by (simp add: bit_iff_odd_drop_bit and_one_eq odd_iff_mod_2_eq_one)
  moreover have "trim lvls @ replicate (Suc (length lvls) - length (trim lvls)) None = lvls @ [None]"
    using trim_extend by blast
  ultimately show ?thesis using assms
    by (simp add: unmarshal_node_def render_node_def maxFrontierLevel_def HashSize_def Let_def
        nth_append list_update_append)
qed

lemma unmarshal_node_parts:
  "(\<And>k h. k < length lvls \<Longrightarrow> lvls ! k = Some h \<Longrightarrow>
      length h = 64 \<and> length pre + k \<le> 62 \<and> bit sz (length pre + k)) \<Longrightarrow>
   unmarshal_nodes sz (trim pre) (node_parts (length pre) lvls) = Inr (trim (pre @ lvls))"
proof (induction lvls arbitrary: pre)
  case Nil
  then show ?case by simp
next
  case (Cons x lvls)
  have IH: "unmarshal_nodes sz (trim (pre @ [x])) (node_parts (Suc (length pre)) lvls)
      = Inr (trim (pre @ x # lvls))"
    using Cons.IH [of "pre @ [x]"] Cons.prems [of "Suc k" for k] by simp
  show ?case
  proof (cases x)
    case None
    then show ?thesis using IH by simp
  next
    case (Some h)
    have "unmarshal_node sz (trim pre) (render_node (length pre) h) = Inr (pre @ [x])"
      using Cons.prems [of 0 h] Some by (simp add: unmarshal_render_node)
    then show ?thesis using IH Some by simp
  qed
qed

lemma unmarshal_marshal_lemma:
  assumes "wf_frontier f"
  shows "UnmarshalFrontier (Marshal f) = Inr f"
proof -
  let ?lv = "levels f"
  have occ: "occupancy ?lv = fsize f" and lt: "fsize f < 2 ^ 63" using assms by (simp_all add: wf_frontier_def)
  have nonneg: "0 \<le> fsize f" using occupancy_nonneg [of ?lv] occ by simp
  have "unmarshal_nodes (fsize f) (trim []) (node_parts (length ([] :: bytes option list)) ?lv)
      = Inr (trim ([] @ ?lv))"
  proof (rule unmarshal_node_parts)
    fix k h assume k: "k < length ?lv" "?lv ! k = Some h"
    then have "2 ^ k < (2::int) ^ 63" using occupancy_ge [of k ?lv] occ lt by simp
    then have "k \<le> 62" using power_less_imp_less_exp [of "2::int" k 63] by simp
    moreover have "bit (fsize f) k" using occupancy_bit [of k ?lv] k occ by simp
    moreover have "length h = 64" using assms k by (auto simp: wf_frontier_def list_all_length node_ok_def split: option.splits)
    ultimately show "length h = 64 \<and> length ([] :: bytes option list) + k \<le> 62
        \<and> bit (fsize f) (length ([] :: bytes option list) + k)" by simp
  qed
  moreover have "trim ?lv = ?lv" using assms by (intro trim_id) (simp add: wf_frontier_def)
  moreover have "occupied_bits 0 ?lv 0 = fsize f" by (simp add: occupied_bits_occupancy occ)
  moreover have "int64 (fsize f)" using nonneg lt by (simp add: int64_def)
  ultimately show ?thesis using nonneg
    by (simp add: UnmarshalFrontier_def Marshal_def split_render_levels Let_def)
qed

text \<open>What decoding guarantees of any input.\<close>

lemma unmarshal_node_ok:
  assumes "unmarshal_node sz lvls p = Inr lvls'" "list_all node_ok lvls" "lvls = [] \<or> last lvls \<noteq> None"
  shows "list_all node_ok lvls' \<and> lvls' \<noteq> [] \<and> last lvls' \<noteq> None"
proof -
  obtain k hb where hb: "length hb = 64"
    and l: "lvls' = (lvls @ replicate (Suc k - length lvls) None)[k := Some hb]"
    using assms(1)
    by (auto simp: unmarshal_node_def HashSize_def Let_def split: option.splits prod.splits if_splits)
  have "list_all node_ok lvls'"
    using assms(2) hb unfolding l list_all_length
    by (auto simp: nth_list_update nth_append node_ok_def)
  moreover have "lvls' \<noteq> []" by (simp add: l)
  moreover have "last lvls' \<noteq> None"
  proof (cases "k < length lvls - 1")
    case True
    then have "last lvls' = last lvls" "lvls \<noteq> []" unfolding l
      by (cases lvls rule: rev_cases; auto simp: list_update_append)+
    then show ?thesis using assms(3) by simp
  next
    case False
    then have "k = length lvls' - 1" by (auto simp: l)
    moreover have "lvls' ! k = Some hb" unfolding l by (rule nth_list_update_eq) simp
    ultimately show ?thesis using \<open>lvls' \<noteq> []\<close> by (simp add: last_conv_nth)
  qed
  ultimately show ?thesis by simp
qed

lemma unmarshal_nodes_ok:
  "unmarshal_nodes sz lvls ps = Inr lvls' \<Longrightarrow> list_all node_ok lvls \<Longrightarrow> lvls = [] \<or> last lvls \<noteq> None \<Longrightarrow>
     list_all node_ok lvls' \<and> (lvls' = [] \<or> last lvls' \<noteq> None)"
  by (induction sz lvls ps rule: unmarshal_nodes.induct)
     (auto split: sum.splits dest: unmarshal_node_ok)

lemma frontier_of_wf:
  assumes "int (length ls) < 2 ^ 63"
  shows "wf_frontier (FrontierFromLeaves ls) \<and> fsize (FrontierFromLeaves ls) = int (length ls)"
  using assms unfolding FrontierFromLeaves_def
proof (induction ls rule: rev_induct)
  case Nil
  then show ?case using wf_frontier_New by (simp add: NewFrontier_def)
next
  case (snoc d ls)
  then have "wf_frontier (foldl (\<lambda>f d. Append f (LeafHash d)) NewFrontier ls)"
    and "fsize (foldl (\<lambda>f d. Append f (LeafHash d)) NewFrontier ls) < 2 ^ 63 - 1"
    and "fsize (foldl (\<lambda>f d. Append f (LeafHash d)) NewFrontier ls) = int (length ls)" by simp_all
  then show ?case using wf_frontier_Append [of _ "LeafHash d"] by simp
qed

definition leaf_ok :: "string \<Rightarrow> bool" where
  "leaf_ok h = (case hex_decode h of None \<Rightarrow> False | Some b \<Rightarrow> length b = 64)"

definition leaf_error :: "nat \<Rightarrow> string \<Rightarrow> merkle_error" where
  "leaf_error i h = (case hex_decode h of None \<Rightarrow> LeafHex i | Some b \<Rightarrow> LeafLength i (length b))"

lemma decode_leaves_eq:
  "decode_leaves i hs =
     (if list_all leaf_ok hs then Inr (map (\<lambda>h. the (hex_decode h)) hs)
      else Inl (leaf_error (i + length (takeWhile leaf_ok hs)) (hs ! length (takeWhile leaf_ok hs))))"
proof (induction i hs rule: decode_leaves.induct)
  case (2 i h hs)
  show ?case
  proof (cases "leaf_ok h")
    case True
    then obtain b where "hex_decode h = Some b" "length b = 64"
      by (auto simp: leaf_ok_def split: option.splits)
    with True 2 show ?thesis by (simp add: HashSize_def)
  next
    case False
    then show ?thesis
      by (auto simp: HashSize_def leaf_error_def leaf_ok_def split: option.splits)
  qed
qed simp

subsection \<open>Properties\<close>

text \<open>C7. The frontier is a refinement of the tree: appending the leaves one by one, with one
  hash per carry, and folding the frontier gives exactly the root of the whole-tree recursion,
  for every number of leaves an int64 counts.\<close>

theorem frontier_refines_tree:
  assumes "length leaves < 2 ^ 63"
  shows "Root (FrontierFromLeaves leaves) = RootFromLeaves leaves"
  using Root_frontier_of [OF frontier_of_FromLeaves assms] .

theorem frontier_refines_tree_witness:
  "Root (FrontierFromLeaves [''a'', ''b'', ''c'']) = RootFromLeaves [''a'', ''b'', ''c'']"
  by (rule frontier_refines_tree) simp

text \<open>C8. A frontier marshalled after some leaves and unmarshalled again is accepted, is the
  same frontier, and goes on to the root of all the leaves.\<close>

theorem frontier_resumes:
  assumes "length (ls @ rest) < 2 ^ 63"
  shows "\<exists>f. UnmarshalFrontier (Marshal (FrontierFromLeaves ls)) = Inr f \<and>
    f = FrontierFromLeaves ls \<and>
    Root (foldl (\<lambda>f d. Append f (LeafHash d)) f rest) = RootFromLeaves (ls @ rest)"
proof -
  have "wf_frontier (FrontierFromLeaves ls)" using frontier_of_wf [of ls] assms by simp
  then have "UnmarshalFrontier (Marshal (FrontierFromLeaves ls)) = Inr (FrontierFromLeaves ls)"
    by (rule unmarshal_marshal_lemma)
  moreover have "foldl (\<lambda>f d. Append f (LeafHash d)) (FrontierFromLeaves ls) rest
      = FrontierFromLeaves (ls @ rest)"
    by (simp add: FrontierFromLeaves_def)
  ultimately show ?thesis
    using Root_frontier_of [OF frontier_of_FromLeaves assms] by simp
qed

theorem frontier_resumes_witness:
  "\<exists>f. UnmarshalFrontier (Marshal (FrontierFromLeaves [''a'', ''b''])) = Inr f \<and>
    f = FrontierFromLeaves [''a'', ''b''] \<and>
    Root (foldl (\<lambda>f d. Append f (LeafHash d)) f [''c'']) = RootFromLeaves ([''a'', ''b''] @ [''c''])"
  by (rule frontier_resumes) simp

text \<open>Whatever string is unmarshalled, a frontier that comes out is well formed: its size
  is in range, the occupied levels are exactly the bits of the size, every stored hash has 64
  bytes and no level is stored above the top one. Marshalling it and reading it back gives the
  same frontier.\<close>

theorem unmarshal_frontier_wf:
  assumes "UnmarshalFrontier s = Inr f"
  shows "wf_frontier f \<and> UnmarshalFrontier (Marshal f) = Inr f"
proof -
  from assms obtain sz lvls where
    sz: "parse_int64 (hd (split_on (CHR ''|'') s)) = Some sz" "0 \<le> sz"
    and lv: "unmarshal_nodes sz [] (tl (split_on (CHR ''|'') s)) = Inr lvls"
    and occ: "occupied_bits 0 lvls 0 = sz" and f: "f = \<lparr>levels = lvls, fsize = sz\<rparr>"
    by (auto simp: UnmarshalFrontier_def Let_def split: option.splits sum.splits if_splits)
  have "sz < 2 ^ 63" using sz by (auto simp: parse_int64_def int64_def Let_def split: if_splits)
  then have "wf_frontier f"
    using unmarshal_nodes_ok [OF lv] occ by (simp add: wf_frontier_def f occupied_bits_occupancy)
  then show ?thesis by (simp add: unmarshal_marshal_lemma)
qed

text \<open>\<open>RootHex\<close> accepts exactly the lists whose entries all decode to 64 bytes, reports the
  first one that does not, and its answer is the hex of the whole-tree root of the decoded
  hashes.\<close>

theorem root_hex_functional:
  assumes "length hs < 2 ^ 63"
  shows "RootHex hs =
    (if list_all leaf_ok hs then Inr (hex_encode (RootFromLeaves (map (\<lambda>h. the (hex_decode h)) hs)))
     else let i = length (takeWhile leaf_ok hs) in Inl (leaf_error i (hs ! i)))"
  using Root_frontier_of [OF frontier_of_FromLeaves, of "map (\<lambda>h. the (hex_decode h)) hs"] assms
  by (simp add: RootHex_def decode_leaves_eq Let_def)

end
