(* ===== verification/Merkle_Consistency.thy ===== *)
theory Merkle_Consistency
  imports Merkle_Tree
begin

section \<open>Consistency proofs: \<open>merkle/consistency.go\<close>\<close>

text \<open>
  \<open>subProof\<close> builds the RFC 9162 proof by recursion over the tree; \<open>VerifyConsistency\<close> checks it
  with an iterative loop over the bits of the two last indices. The two meet in a reference
  verifier that recurses like the prover (\<open>split_run\<close>): the loop is proved equal to it, and
  completeness and soundness are then inductions over the tree. After the range checks the
  loop's variables are non-negative, so they are naturals.
\<close>

function subProof :: "nat \<Rightarrow> bytes list \<Rightarrow> bool \<Rightarrow> bytes list" where
  "subProof m leaves b =
     (let n = length leaves
      in if m = n then (if b then [] else [RootFromLeaves leaves])
         else if n \<le> 1 then []
         else let k = largestPowerOfTwoLessThan n
              in if m \<le> k then subProof m (take k leaves) b @ [RootFromLeaves (drop k leaves)]
                 else subProof (m - k) (drop k leaves) False @ [RootFromLeaves (take k leaves)])"
  by pat_completeness auto
termination
  by (relation "measure (\<lambda>(m, ls, b). length ls)")
     (auto simp: split_less split_pos not_le intro!: diff_less)

declare subProof.simps [simp del]

definition ConsistencyProof :: "int \<Rightarrow> bytes list \<Rightarrow> merkle_error + bytes list" where
  "ConsistencyProof m leaves =
     (let n = length leaves
      in if m < 0 \<or> int n < m then Inl (ConsistencyOutOfRange m n)
         else if m = 0 \<or> m = int n then Inr []
         else Inr (subProof (nat m) leaves True))"

text \<open>The two inner loops of the verifier: climbing while the node is a right child, and
  climbing the left spine.\<close>

fun climb_right :: "nat \<Rightarrow> nat \<Rightarrow> nat \<times> nat" where
  "climb_right node lastNode =
     (if node mod 2 = 1 then climb_right (node div 2) (lastNode div 2) else (node, lastNode))"

fun climb_left :: "nat \<Rightarrow> nat \<Rightarrow> nat \<times> nat" where
  "climb_left node lastNode =
     (if node mod 2 = 0 \<and> node \<noteq> 0 then climb_left (node div 2) (lastNode div 2)
      else (node, lastNode))"

declare climb_right.simps [simp del] climb_left.simps [simp del]

fun verify_loop ::
  "nat \<Rightarrow> nat \<Rightarrow> bytes \<Rightarrow> bytes \<Rightarrow> bytes list \<Rightarrow> (bytes \<times> bytes) option" where
  "verify_loop node lastNode hash1 hash2 [] =
     (if lastNode \<noteq> 0 then None else Some (hash1, hash2))"
| "verify_loop node lastNode hash1 hash2 (p # ps) =
     (if lastNode = 0 then None
      else if node mod 2 = 1 \<or> node = lastNode
      then let (node', lastNode') = climb_left node lastNode
           in verify_loop (node' div 2) (lastNode' div 2) (NodeHash p hash1) (NodeHash p hash2) ps
      else verify_loop (node div 2) (lastNode div 2) hash1 (NodeHash hash2 p) ps)"

definition VerifyConsistency :: "int \<Rightarrow> int \<Rightarrow> bytes \<Rightarrow> bytes \<Rightarrow> bytes list \<Rightarrow> bool" where
  "VerifyConsistency m n rootA rootB proof =
     (if m < 0 \<or> n < 0 \<or> n < m then False
      else if m = n then proof = [] \<and> rootA = rootB
      else if m = 0 then proof = [] \<and> rootA = EmptyRoot
      else if proof = [] then False
      else
        let (node, lastNode) = climb_right (nat (m - 1)) (nat (n - 1));
            (start, rest) = (if 0 < node then (hd proof, tl proof) else (rootA, proof))
        in case verify_loop node lastNode start start rest of
             None \<Rightarrow> False
           | Some (hash1, hash2) \<Rightarrow> hash1 = rootA \<and> hash2 = rootB)"

subsection \<open>The loop as a list of steps\<close>

text \<open>\<open>True\<close> is a left sibling, hashed in front of both running hashes; \<open>False\<close> is a right
  sibling, which only the newer tree has.\<close>

fun run :: "bool list \<Rightarrow> bytes \<Rightarrow> bytes \<Rightarrow> bytes list \<Rightarrow> (bytes \<times> bytes) option" where
  "run [] h1 h2 [] = Some (h1, h2)"
| "run (True # xs) h1 h2 (p # ps) = run xs (NodeHash p h1) (NodeHash p h2) ps"
| "run (False # xs) h1 h2 (p # ps) = run xs h1 (NodeHash h2 p) ps"
| "run _ h1 h2 _ = None"

fun steps :: "nat \<Rightarrow> nat \<Rightarrow> bool list" where
  "steps a c =
     (if c = 0 then []
      else if odd a then True # steps (a div 2) (c div 2)
      else if a = c then steps (a div 2) (c div 2)
      else False # steps (a div 2) (c div 2))"

declare steps.simps [simp del]

lemma steps_left:
  "c \<noteq> 0 \<Longrightarrow> odd a \<or> a = c \<Longrightarrow> a \<le> c \<Longrightarrow> climb_left a c = (a', c') \<Longrightarrow>
     steps a c = True # steps (a' div 2) (c' div 2) \<and> a' div 2 \<le> c' div 2"
proof (induction a c rule: climb_left.induct)
  case (1 a c)
  show ?case
  proof (cases "odd a")
    case True
    then have "climb_left a c = (a, c)" by (subst climb_left.simps) (simp add: odd_iff_mod_2_eq_one)
    moreover have "steps a c = True # steps (a div 2) (c div 2)"
      using True 1(2) by (subst steps.simps) simp
    ultimately show ?thesis using 1 by (simp add: div_le_mono)
  next
    case False
    with 1 have a: "a = c" "a mod 2 = 0" "a \<noteq> 0" "c div 2 \<noteq> 0" by auto
    then have "climb_left a c = climb_left (a div 2) (c div 2)" by (subst climb_left.simps) simp
    with 1 have "climb_left (a div 2) (c div 2) = (a', c')" by simp
    with 1 a have "steps (a div 2) (c div 2) = True # steps (a' div 2) (c' div 2) \<and> a' div 2 \<le> c' div 2"
      by simp
    with a False show ?thesis by (subst steps.simps) simp
  qed
qed

lemma verify_loop_steps: "a \<le> c \<Longrightarrow> verify_loop a c h1 h2 ps = run (steps a c) h1 h2 ps"
proof (induction ps arbitrary: a c h1 h2)
  case Nil
  show ?case
  proof (cases "c = 0")
    case True
    then show ?thesis by (simp add: steps.simps)
  next
    case False
    have "run xs h1 h2 [] = (if xs = [] then Some (h1, h2) else None)" for xs
      by (cases xs; cases "hd xs") auto
    moreover have "steps a c \<noteq> []"
    proof (cases "odd a \<or> a = c")
      case True
      then show ?thesis using steps_left [OF False True Nil]
        by (cases "climb_left a c") auto
    next
      case even: False
      then show ?thesis using False by (subst steps.simps) simp
    qed
    ultimately show ?thesis using False by simp
  qed
next
  case (Cons p ps)
  obtain a' c' where cl: "climb_left a c = (a', c')" by force
  consider "c = 0" | "c \<noteq> 0" "odd a \<or> a = c" | "c \<noteq> 0" "even a" "a \<noteq> c" by blast
  then show ?case
  proof cases
    case 1
    then show ?thesis by (simp add: steps.simps)
  next
    case 2
    with steps_left [OF 2 Cons.prems cl] Cons.IH show ?thesis
      by (auto simp: cl odd_iff_mod_2_eq_one)
  next
    case 3
    then show ?thesis using Cons.IH [of "a div 2" "c div 2"] Cons.prems
      by (simp add: steps.simps [of a c] div_le_mono even_iff_mod_2_eq_zero)
  qed
qed

lemma run_snoc:
  "run (xs @ [x]) h1 h2 ps =
     (if ps = [] then None
      else case run xs h1 h2 (butlast ps) of
             None \<Rightarrow> None
           | Some (a, b) \<Rightarrow>
               Some (if x then (NodeHash (last ps) a, NodeHash (last ps) b)
                     else (a, NodeHash b (last ps))))"
proof (induction xs arbitrary: h1 h2 ps)
  case Nil
  show ?case by (cases ps; cases "tl ps"; cases x) auto
next
  case (Cons y ys)
  show ?case
  proof (cases ps)
    case Nil
    then show ?thesis by (cases y) auto
  next
    case (Cons p qs)
    then show ?thesis using Cons.IH
      by (cases y; cases qs) (auto simp: last_ConsR split: option.splits)
  qed
qed

lemma run_snocs:
  "run (xs @ [True]) h1 h2 ps =
     (if ps = [] then None
      else case run xs h1 h2 (butlast ps) of
             None \<Rightarrow> None
           | Some (a, b) \<Rightarrow> Some (NodeHash (last ps) a, NodeHash (last ps) b))"
  "run (xs @ [False]) h1 h2 ps =
     (if ps = [] then None
      else case run xs h1 h2 (butlast ps) of
             None \<Rightarrow> None
           | Some (a, b) \<Rightarrow> Some (a, NodeHash b (last ps)))"
  by (auto simp: run_snoc split: option.splits)

text \<open>The steps after the first climb, as the split of the tree sees them.\<close>

fun climb_steps :: "nat \<Rightarrow> nat \<Rightarrow> bool list" where
  "climb_steps a c = (if a mod 2 = 1 then climb_steps (a div 2) (c div 2) else steps a c)"

declare climb_steps.simps [simp del]

lemma climb_right_steps:
  "climb_right a c = (a', c') \<Longrightarrow> a \<le> c \<Longrightarrow>
     climb_steps a c = steps a' c' \<and> a' \<le> c' \<and> even a' \<and> (a < c \<longrightarrow> a' < c')"
proof (induction a c rule: climb_right.induct)
  case (1 a c)
  show ?case
  proof (cases "odd a")
    case True
    with 1 have "climb_right (a div 2) (c div 2) = (a', c')"
      by (simp add: climb_right.simps [of a c] odd_iff_mod_2_eq_one)
    moreover have "a < c \<Longrightarrow> a div 2 < c div 2" using True by presburger
    ultimately show ?thesis using 1 True
      by (simp add: climb_steps.simps [of a c] odd_iff_mod_2_eq_one div_le_mono)
  next
    case False
    then have "climb_steps a c = steps a c" by (subst climb_steps.simps) (simp add: odd_iff_mod_2_eq_one)
    moreover have "climb_right a c = (a, c)"
      using False by (subst climb_right.simps) (simp add: odd_iff_mod_2_eq_one)
    ultimately show ?thesis using 1 False by simp
  qed
qed

lemma steps_low:
  "a < 2 ^ i \<Longrightarrow> 2 ^ i \<le> c \<Longrightarrow> c < 2 * 2 ^ i \<Longrightarrow> steps a c = steps a (2 ^ i - 1) @ [False]"
proof (induction i arbitrary: a c)
  case 0
  then show ?case by (simp add: steps.simps)
next
  case (Suc i)
  have half: "(2 ^ Suc i - 1) div 2 = (2 ^ i - 1 :: nat)" by simp
  have "0 < (2::nat) ^ i" by simp
  then have ne: "(2 ^ Suc i - 1 :: nat) \<noteq> 0" unfolding power_Suc by linarith
  have odd: "odd (2 ^ Suc i - 1 :: nat)" by simp
  have "steps (a div 2) (c div 2) = steps (a div 2) (2 ^ i - 1) @ [False]"
    using Suc.prems by (intro Suc.IH) (auto simp: less_eq_div_iff_mult_less_eq)
  moreover have "odd a \<or> a \<noteq> 2 ^ Suc i - 1" using odd by metis
  moreover have "a \<noteq> c" "c \<noteq> 0" using Suc.prems by auto
  ultimately show ?case
    using ne half by (subst steps.simps, subst steps.simps [of a "2 ^ Suc i - 1"]) auto
qed

lemma steps_high:
  "a \<le> c \<Longrightarrow> c < 2 ^ i \<Longrightarrow> steps (a + 2 ^ i) (c + 2 ^ i) = steps a c @ [True]"
proof (induction i arbitrary: a c)
  case 0
  then show ?case by (simp add: steps.simps)
next
  case (Suc i)
  have half: "(a + 2 ^ Suc i) div 2 = a div 2 + 2 ^ i" "(c + 2 ^ Suc i) div 2 = c div 2 + 2 ^ i"
    by simp_all
  have IH: "steps (a div 2 + 2 ^ i) (c div 2 + 2 ^ i) = steps (a div 2) (c div 2) @ [True]"
  proof (rule Suc.IH)
    show "a div 2 \<le> c div 2" using Suc.prems by (simp add: div_le_mono)
    show "c div 2 < 2 ^ i" using Suc.prems by auto
  qed
  show ?case
  proof (cases "c = 0")
    case True
    then show ?thesis using IH Suc.prems
      by (subst steps.simps) (simp add: half steps.simps)
  next
    case False
    then show ?thesis using IH
      by (subst steps.simps, subst steps.simps [of a c]) (cases "a = c"; simp add: half add.commute)
  qed
qed

lemma climb_steps_odd: "odd a \<Longrightarrow> climb_steps a c = climb_steps (a div 2) (c div 2)"
  by (subst climb_steps.simps) (simp add: odd_iff_mod_2_eq_one)

lemma climb_steps_even: "even a \<Longrightarrow> climb_steps a c = steps a c"
  by (subst climb_steps.simps) (simp add: odd_iff_mod_2_eq_one)

lemma climb_steps_low:
  "a < 2 ^ i \<Longrightarrow> 2 ^ i \<le> c \<Longrightarrow> c < 2 * 2 ^ i \<Longrightarrow>
     climb_steps a c = climb_steps a (2 ^ i - 1) @ [False]"
proof (induction i arbitrary: a c)
  case 0
  then show ?case by (simp add: climb_steps_even steps.simps)
next
  case (Suc i)
  show ?case
  proof (cases "odd a")
    case True
    have half: "(2 ^ Suc i - 1) div 2 = (2 ^ i - 1 :: nat)" by simp
    have "climb_steps (a div 2) (c div 2) = climb_steps (a div 2) (2 ^ i - 1) @ [False]"
      using Suc.prems by (intro Suc.IH) (auto simp: less_eq_div_iff_mult_less_eq)
    then show ?thesis
      using True half climb_steps_odd [OF True, of c] climb_steps_odd [OF True, of "2 ^ Suc i - 1"]
      by simp
  next
    case False
    then show ?thesis using steps_low [OF Suc.prems] by (simp add: climb_steps_even)
  qed
qed

lemma climb_steps_high:
  "a \<le> c \<Longrightarrow> c < 2 ^ i \<Longrightarrow> Suc a < 2 ^ i \<Longrightarrow>
     climb_steps (a + 2 ^ i) (c + 2 ^ i) = climb_steps a c @ [True]"
proof (induction i arbitrary: a c)
  case 0
  then show ?case by simp
next
  case (Suc i)
  show ?case
  proof (cases "odd a")
    case True
    have half: "(a + 2 ^ Suc i) div 2 = a div 2 + 2 ^ i" "(c + 2 ^ Suc i) div 2 = c div 2 + 2 ^ i"
      by simp_all
    have "climb_steps (a div 2 + 2 ^ i) (c div 2 + 2 ^ i) = climb_steps (a div 2) (c div 2) @ [True]"
    proof (rule Suc.IH)
      show "a div 2 \<le> c div 2" using Suc.prems by (simp add: div_le_mono)
      show "c div 2 < 2 ^ i" using Suc.prems by auto
      have "Suc a < 2 * 2 ^ i" using Suc.prems by simp
      then show "Suc (a div 2) < 2 ^ i" using True by presburger
    qed
    moreover have "odd (a + 2 ^ Suc i)" using True by simp
    ultimately show ?thesis
      using half climb_steps_odd [OF True, of c] climb_steps_odd [of "a + 2 ^ Suc i" "c + 2 ^ Suc i"]
      by (simp add: add.commute)
  next
    case False
    then show ?thesis using steps_high [of a c "Suc i"] Suc.prems by (simp add: climb_steps_even)
  qed
qed

lemma climb_steps_full: "climb_steps (2 ^ i - 1) (2 ^ i - 1) = []"
proof (induction i)
  case 0
  show ?case by (simp add: climb_steps_even steps.simps)
next
  case (Suc i)
  have "odd (2 ^ Suc i - 1 :: nat)" "(2 ^ Suc i - 1) div 2 = (2 ^ i - 1 :: nat)" by simp_all
  with Suc show ?case using climb_steps_odd [of "2 ^ Suc i - 1" "2 ^ Suc i - 1"] by simp
qed

subsection \<open>The reference verifier\<close>

function split_run :: "nat \<Rightarrow> nat \<Rightarrow> bytes \<Rightarrow> bytes list \<Rightarrow> (bytes \<times> bytes) option" where
  "split_run m n h ps =
     (if m = n then (if ps = [] then Some (h, h) else None)
      else if ps = [] then None
      else
        let k = largestPowerOfTwoLessThan n; p = last ps
        in if m \<le> k
           then (case split_run m k h (butlast ps) of
                   None \<Rightarrow> None
                 | Some (h1, h2) \<Rightarrow> Some (h1, NodeHash h2 p))
           else (case split_run (m - k) (n - k) h (butlast ps) of
                   None \<Rightarrow> None
                 | Some (h1, h2) \<Rightarrow> Some (NodeHash p h1, NodeHash p h2)))"
  by pat_completeness auto
termination
  by (relation "measure (\<lambda>(m, n, h, ps). length ps)") auto

declare split_run.simps [simp del]

definition power_of_two :: "nat \<Rightarrow> bool" where
  "power_of_two m \<longleftrightarrow> (\<exists>i. m = 2 ^ i)"

lemma split_run_steps:
  "0 < m \<Longrightarrow> m < n \<or> m = n \<and> power_of_two m \<Longrightarrow>
     split_run m n h ps = run (climb_steps (m - 1) (n - 1)) h h ps"
proof (induction m n h ps rule: split_run.induct)
  case (1 m n h ps)
  show ?case
  proof (cases "m = n")
    case True
    then obtain i where "m = 2 ^ i" using 1 by (auto simp: power_of_two_def)
    then have "climb_steps (m - 1) (n - 1) = []" using True climb_steps_full by simp
    then show ?thesis using True by (cases ps) (simp_all add: split_run.simps)
  next
    case False
    then have lt: "m < n" and n: "1 < n" using 1(3,4) by auto
    define k where "k = largestPowerOfTwoLessThan n"
    obtain i where k: "k = 2 ^ i" "k < n" "n \<le> 2 * k" using split_point [OF n] k_def by auto
    show ?thesis
    proof (cases "m \<le> k")
      case True
      have "m < k \<or> m = k \<and> power_of_two m" using True k by (auto simp: power_of_two_def)
      then have IH: "ps \<noteq> [] \<Longrightarrow> split_run m k h (butlast ps)
          = run (climb_steps (m - 1) (k - 1)) h h (butlast ps)"
        using 1 False True by (simp add: k_def [symmetric])
      have "climb_steps (m - 1) (n - 1) = climb_steps (m - 1) (k - 1) @ [False]"
        unfolding k(1) using True k 1(3) by (intro climb_steps_low) auto
      then show ?thesis using IH False True
        by (simp add: split_run.simps [of m n] run_snocs k_def [symmetric] Let_def)
    next
      case high: False
      then have "m - k < n - k" using lt by simp
      with high have IH: "ps \<noteq> [] \<Longrightarrow> split_run (m - k) (n - k) h (butlast ps)
          = run (climb_steps (m - k - 1) (n - k - 1)) h h (butlast ps)"
        using 1(2) [OF False _ k_def refl] by simp
      have "climb_steps (m - k - 1 + 2 ^ i) (n - k - 1 + 2 ^ i)
          = climb_steps (m - k - 1) (n - k - 1) @ [True]"
        using high lt k by (intro climb_steps_high) auto
      moreover have "m - k - 1 + 2 ^ i = m - 1" "n - k - 1 + 2 ^ i = n - 1"
        using high lt k by auto
      ultimately have "climb_steps (m - 1) (n - 1) = climb_steps (m - k - 1) (n - k - 1) @ [True]"
        by metis
      then show ?thesis using IH False high
        by (simp add: split_run.simps [of m n] run_snocs k_def [symmetric] Let_def)
    qed
  qed
qed

text \<open>The loop of the code, after the first climb, is the reference verifier.\<close>

lemma verify_loop_split:
  assumes "0 < m" "m < n" "climb_right (m - 1) (n - 1) = (a, c)"
  shows "verify_loop a c h h ps = split_run m n h ps"
proof -
  have "climb_steps (m - 1) (n - 1) = steps a c \<and> a \<le> c"
    using climb_right_steps [OF assms(3)] assms(1,2) by simp
  then show ?thesis using split_run_steps [of m n h ps] verify_loop_steps [of a c h h ps] assms by simp
qed

lemma climb_right_zero: "climb_right a c = (0, c') \<Longrightarrow> power_of_two (Suc a)"
proof (induction a c rule: climb_right.induct)
  case (1 a c)
  show ?case
  proof (cases "a mod 2 = 1")
    case True
    with 1 have "power_of_two (Suc (a div 2))" by (simp add: climb_right.simps [of a])
    then obtain i where "Suc (a div 2) = 2 ^ i" by (auto simp: power_of_two_def)
    then have "Suc a = 2 ^ Suc i" using True by simp presburger
    then show ?thesis unfolding power_of_two_def by blast
  next
    case False
    with 1(2) have "a = 0" by (simp add: climb_right.simps [of a])
    then show ?thesis unfolding power_of_two_def by (metis One_nat_def power_0)
  qed
qed

lemma climb_right_power: "climb_right (2 ^ i - 1) c = (0, c div 2 ^ i)"
proof (induction i arbitrary: c)
  case 0
  show ?case by (simp add: climb_right.simps)
next
  case (Suc i)
  have "(2 ^ Suc i - 1) mod 2 = (1 :: nat)" by (subst odd_iff_mod_2_eq_one [symmetric]) simp
  moreover have "(2 ^ Suc i - 1) div 2 = (2 ^ i - 1 :: nat)" by simp
  ultimately show ?case using Suc [of "c div 2"]
    by (subst climb_right.simps) (simp add: div_mult2_eq)
qed

lemma climb_right_pos: "climb_right (m - 1) c = (a, c') \<Longrightarrow> 0 < m \<Longrightarrow> 0 < a \<longleftrightarrow> \<not> power_of_two m"
  using climb_right_zero [of "m - 1" c c'] climb_right_power [of _ c]
  by (auto simp: power_of_two_def)

subsection \<open>Completeness\<close>

lemma root_take_split:
  assumes "largestPowerOfTwoLessThan (length ls) < m" "m \<le> length ls" "1 < length ls"
  shows "RootFromLeaves (take m ls) =
    NodeHash (RootFromLeaves (take (splitp ls) ls))
             (RootFromLeaves (take (m - splitp ls) (drop (splitp ls) ls)))"
proof -
  obtain i where i: "splitp ls = 2 ^ i" using split_power [OF assms(3)] by auto
  have "NodeHash (RootFromLeaves (take (splitp ls) ls))
      (RootFromLeaves (take (m - splitp ls) (drop (splitp ls) ls)))
    = RootFromLeaves (take (splitp ls) ls @ take (m - splitp ls) (drop (splitp ls) ls))"
    using assms split_le_double [OF assms(3)] by (intro root_join [of _ i]) (auto simp: i)
  also have "take (splitp ls) ls @ take (m - splitp ls) (drop (splitp ls) ls) = take m ls"
    using assms(1) by (metis le_add_diff_inverse less_imp_le_nat take_add)
  finally show ?thesis by simp
qed

text \<open>Without the caller's root (\<open>b\<close> false, or a size that is no power of two) the proof starts
  with the hash both runs start from; with it, the older root is that hash.\<close>

lemma subProof_seeded:
  "0 < m \<Longrightarrow> m \<le> length ls \<Longrightarrow>
     \<exists>h ps. subProof m ls False = h # ps \<and>
       split_run m (length ls) h ps = Some (RootFromLeaves (take m ls), RootFromLeaves ls)"
proof (induction "length ls" arbitrary: m ls rule: less_induct)
  case less
  show ?case
  proof (cases "m = length ls")
    case True
    then show ?thesis by (simp add: subProof.simps split_run.simps)
  next
    case False
    with less have n: "1 < length ls" by simp
    note k = split_less [OF n] split_pos [OF n]
    show ?thesis
    proof (cases "m \<le> splitp ls")
      case True
      with less k obtain h ps where "subProof m (take (splitp ls) ls) False = h # ps"
        and "split_run m (splitp ls) h ps
          = Some (RootFromLeaves (take m ls), RootFromLeaves (take (splitp ls) ls))"
        using less(1) [of "take (splitp ls) ls" m] by (auto simp: min_def)
      then show ?thesis using True False n k
        by (simp add: subProof.simps [of m ls] split_run.simps [of m "length ls"] root_node Let_def)
    next
      case high: False
      have "length (drop (splitp ls) ls) < length ls" "m - splitp ls \<le> length (drop (splitp ls) ls)"
        "0 < m - splitp ls" using k less(3) high by auto
      from less(1) [OF this(1,3,2)]
      obtain h ps where "subProof (m - splitp ls) (drop (splitp ls) ls) False = h # ps"
        and "split_run (m - splitp ls) (length ls - splitp ls) h ps
          = Some (RootFromLeaves (take (m - splitp ls) (drop (splitp ls) ls)),
                  RootFromLeaves (drop (splitp ls) ls))"
        by auto
      then show ?thesis using high False n k root_take_split [of ls m] less(3)
        by (simp add: subProof.simps [of m ls] split_run.simps [of m "length ls"] root_node Let_def)
    qed
  qed
qed

lemma subProof_power:
  "m = 2 ^ i \<Longrightarrow> m \<le> length ls \<Longrightarrow>
     split_run m (length ls) (RootFromLeaves (take m ls)) (subProof m ls True)
       = Some (RootFromLeaves (take m ls), RootFromLeaves ls)"
proof (induction "length ls" arbitrary: ls rule: less_induct)
  case less
  show ?case
  proof (cases "m = length ls")
    case True
    then show ?thesis by (simp add: subProof.simps split_run.simps)
  next
    case False
    have "0 < m" using less(2) by simp
    with False less(3) have n: "1 < length ls" by linarith
    note k = split_less [OF n] split_pos [OF n]
    have le: "m \<le> splitp ls"
    proof (rule ccontr)
      assume "\<not> m \<le> splitp ls"
      moreover obtain j where "splitp ls = 2 ^ j" using split_power [OF n] by auto
      ultimately have "(2::nat) ^ j < 2 ^ i" using less(2) by simp
      then have "(2::nat) ^ Suc j \<le> 2 ^ i"
        by (metis Suc_leI one_less_numeral_iff power_increasing_iff power_strict_increasing_iff semiring_norm(76))
      then show False using split_le_double [OF n] less(2,3) False \<open>splitp ls = 2 ^ j\<close> by simp
    qed
    then have "split_run m (splitp ls) (RootFromLeaves (take m ls)) (subProof m (take (splitp ls) ls) True)
        = Some (RootFromLeaves (take m ls), RootFromLeaves (take (splitp ls) ls))"
      using less(1) [of "take (splitp ls) ls"] less(2) k by (simp add: min_def)
    then show ?thesis using le False n k
      by (simp add: subProof.simps [of m ls] split_run.simps [of m "length ls"] root_node Let_def)
  qed
qed

lemma subProof_flag:
  "\<not> power_of_two m \<Longrightarrow> m < length ls \<Longrightarrow> subProof m ls True = subProof m ls False"
proof (induction "length ls" arbitrary: ls rule: less_induct)
  case less
  show ?case
  proof (cases "1 < length ls")
    case False
    with less(3) show ?thesis by (simp add: subProof.simps)
  next
    case True
    note k = split_less [OF True] split_pos [OF True]
    have "m \<noteq> splitp ls" using split_power [OF True] less(2) by (auto simp: power_of_two_def)
    then show ?thesis
      using less(1) [of "take (splitp ls) ls"] less(2,3) k
      by (simp add: subProof.simps [of m ls] Let_def min_def)
  qed
qed

subsection \<open>Soundness\<close>

text \<open>The strings the verifier hashes, in the order of the split of the tree.\<close>

function consistency_preimages :: "nat \<Rightarrow> nat \<Rightarrow> bytes \<Rightarrow> bytes list \<Rightarrow> bytes list" where
  "consistency_preimages m n h ps =
     (if m = n \<or> ps = [] then []
      else
        let k = largestPowerOfTwoLessThan n; p = last ps
        in if m \<le> k
           then (case split_run m k h (butlast ps) of
                   None \<Rightarrow> []
                 | Some (h1, h2) \<Rightarrow> (CHR 0x01 # h2 @ p) # consistency_preimages m k h (butlast ps))
           else (case split_run (m - k) (n - k) h (butlast ps) of
                   None \<Rightarrow> []
                 | Some (h1, h2) \<Rightarrow>
                     (CHR 0x01 # p @ h1) # (CHR 0x01 # p @ h2)
                       # consistency_preimages (m - k) (n - k) h (butlast ps)))"
  by pat_completeness auto
termination
  by (relation "measure (\<lambda>(m, n, h, ps). length ps)") auto

declare consistency_preimages.simps [simp del]

lemma split_run_low:
  assumes "split_run m n h ps = Some (h1, h2)" "m \<noteq> n" "m \<le> largestPowerOfTwoLessThan n"
  obtains h2' where "split_run m (largestPowerOfTwoLessThan n) h (butlast ps) = Some (h1, h2')"
    and "h2 = NodeHash h2' (last ps)"
    and "consistency_preimages m n h ps = (CHR 0x01 # h2' @ last ps)
           # consistency_preimages m (largestPowerOfTwoLessThan n) h (butlast ps)"
proof -
  have "ps \<noteq> []" using assms(1,2) by (auto simp: split_run.simps [of m n] split: if_splits)
  then show ?thesis using assms that
    by (auto simp: split_run.simps [of m n] consistency_preimages.simps [of m n] Let_def
        split: option.splits prod.splits)
qed

lemma split_run_high:
  assumes "split_run m n h ps = Some (h1, h2)" "m \<noteq> n" "\<not> m \<le> k"
    and k: "k = largestPowerOfTwoLessThan n"
  obtains h1' h2' where "split_run (m - k) (n - k) h (butlast ps) = Some (h1', h2')"
    and "h1 = NodeHash (last ps) h1'" and "h2 = NodeHash (last ps) h2'"
    and "consistency_preimages m n h ps = (CHR 0x01 # last ps @ h1') # (CHR 0x01 # last ps @ h2')
           # consistency_preimages (m - k) (n - k) h (butlast ps)"
proof -
  have "ps \<noteq> []" using assms(1,2) by (auto simp: split_run.simps [of m n] split: if_splits)
  then show ?thesis using assms that
    by (auto simp: split_run.simps [of m n] consistency_preimages.simps [of m n] Let_def
        split: option.splits prod.splits)
qed

lemma split_run_length:
  assumes "split_run m n h ps = Some (h1, h2)" "m \<noteq> n"
  shows "length h2 = 64"
  using assms
  by (cases "m \<le> largestPowerOfTwoLessThan n")
     (auto elim: split_run_low [OF assms] split_run_high [OF assms _ refl])

text \<open>A collision somewhere in one list of hashed strings.\<close>

abbreviation collides :: "bytes list \<Rightarrow> bool" where
  "collides xs \<equiv> collide xs xs"

lemma collides_mono: "collides xs \<Longrightarrow> set xs \<subseteq> set ys \<Longrightarrow> collides ys"
  by (auto simp: collide_iff)

lemma node_hash_eq:
  "NodeHash a b = NodeHash c d \<Longrightarrow> CHR 0x01 # a @ b \<in> set xs \<Longrightarrow> CHR 0x01 # c @ d \<in> set xs \<Longrightarrow>
     \<not> collides xs \<Longrightarrow> a @ b = c @ d"
  unfolding NodeHash_def collide_iff collision_def by auto

lemma roots_equal_in:
  "RootFromLeaves a = RootFromLeaves b \<Longrightarrow> set (tree_preimages a) \<subseteq> set xs \<Longrightarrow>
     set (tree_preimages b) \<subseteq> set xs \<Longrightarrow> \<not> collides xs \<Longrightarrow> a = b"
  using roots_equal [of a b] collide_mono by metis

lemma split_run_sound:
  "split_run m n h ps = Some (RootFromLeaves la, RootFromLeaves lb) \<Longrightarrow>
   length la = m \<Longrightarrow> length lb = n \<Longrightarrow> 0 < m \<Longrightarrow> m \<le> n \<Longrightarrow>
   set (consistency_preimages m n h ps) \<subseteq> set xs \<Longrightarrow> set (tree_preimages la) \<subseteq> set xs \<Longrightarrow>
   set (tree_preimages lb) \<subseteq> set xs \<Longrightarrow> \<not> collides xs \<Longrightarrow> la = take m lb"
proof (induction n arbitrary: m ps la lb rule: less_induct)
  case (less n)
  show ?case
  proof (cases "m = n")
    case True
    with less.prems(1) have "RootFromLeaves la = RootFromLeaves lb"
      by (subst (asm) split_run.simps) (auto split: if_splits)
    then have "la = lb" using less.prems by (metis roots_equal_in)
    then show ?thesis using True less.prems by simp
  next
    case False
    then have n: "1 < n" using less.prems by simp
    define k where "k = largestPowerOfTwoLessThan n"
    have k: "k < n" "0 < k" "n \<le> 2 * k" using split_point [OF n] split_pos [OF n] by (auto simp: k_def)
    let ?l = "take k lb" and ?r = "drop k lb"
    have kb: "splitp lb = k" using less.prems by (simp add: k_def)
    have lb: "RootFromLeaves lb = NodeHash (RootFromLeaves ?l) (RootFromLeaves ?r)"
      "set (tree_preimages ?l) \<subseteq> set xs" "set (tree_preimages ?r) \<subseteq> set xs"
      "CHR 0x01 # RootFromLeaves ?l @ RootFromLeaves ?r \<in> set xs"
      using root_node [of lb] tree_preimages_node [of lb] n less.prems(3,8) kb by auto
    show ?thesis
    proof (cases "m \<le> k")
      case True
      from split_run_low [OF less.prems(1) False True [unfolded k_def]] obtain h2' where
        run: "split_run m k h (butlast ps) = Some (RootFromLeaves la, h2')"
        and h2: "RootFromLeaves lb = NodeHash h2' (last ps)"
        and cp: "consistency_preimages m n h ps = (CHR 0x01 # h2' @ last ps)
          # consistency_preimages m k h (butlast ps)"
        unfolding k_def by blast
      then have pre: "CHR 0x01 # h2' @ last ps \<in> set xs"
          "set (consistency_preimages m k h (butlast ps)) \<subseteq> set xs"
        using less.prems(6) by auto
      have "h2' @ last ps = RootFromLeaves ?l @ RootFromLeaves ?r"
        using h2 lb pre(1) less.prems(9) by (metis node_hash_eq)
      moreover have "length h2' = 64"
      proof (cases "m = k")
        case True
        then show ?thesis using run by (auto simp: split_run.simps [of k k] split: if_splits)
      qed (use run split_run_length in blast)
      ultimately have "h2' = RootFromLeaves ?l" by simp
      then have "la = take m ?l"
        using less.IH [of k m "butlast ps" la ?l] run k less.prems True pre(2) lb by simp
      then show ?thesis using True by (simp add: min_def)
    next
      case high: False
      from split_run_high [OF less.prems(1) False high k_def] obtain h1' h2' where
        run: "split_run (m - k) (n - k) h (butlast ps) = Some (h1', h2')"
        and h1: "RootFromLeaves la = NodeHash (last ps) h1'"
        and h2: "RootFromLeaves lb = NodeHash (last ps) h2'"
        and cp: "consistency_preimages m n h ps = (CHR 0x01 # last ps @ h1')
          # (CHR 0x01 # last ps @ h2') # consistency_preimages (m - k) (n - k) h (butlast ps)"
        by blast
      then have pre: "CHR 0x01 # last ps @ h1' \<in> set xs" "CHR 0x01 # last ps @ h2' \<in> set xs"
          "set (consistency_preimages (m - k) (n - k) h (butlast ps)) \<subseteq> set xs"
        using less.prems(6) by auto
      have m: "1 < m" "splitp la = k" using high k less.prems split_unique [of _ m] split_power [OF n]
        by (auto simp: k_def)
      let ?la = "take k la" and ?ra = "drop k la"
      have la: "RootFromLeaves la = NodeHash (RootFromLeaves ?la) (RootFromLeaves ?ra)"
        "set (tree_preimages ?la) \<subseteq> set xs" "set (tree_preimages ?ra) \<subseteq> set xs"
        "CHR 0x01 # RootFromLeaves ?la @ RootFromLeaves ?ra \<in> set xs"
        using root_node [of la] tree_preimages_node [of la] m less.prems(2,7) by auto
      have eqb: "last ps @ h2' = RootFromLeaves ?l @ RootFromLeaves ?r"
        using h2 lb pre(2) less.prems(9) by (metis node_hash_eq)
      have eqa: "last ps @ h1' = RootFromLeaves ?la @ RootFromLeaves ?ra"
        using h1 la pre(1) less.prems(9) by (metis node_hash_eq)
      have "m - k \<noteq> n - k" using False high k less.prems by simp
      with run have "length h2' = 64" by (rule split_run_length)
      then have b: "last ps = RootFromLeaves ?l" "h2' = RootFromLeaves ?r"
        using eqb by simp_all
      then have a: "RootFromLeaves ?la = RootFromLeaves ?l" "h1' = RootFromLeaves ?ra"
        using eqa by simp_all
      have "?la = ?l" using a(1) la(2) lb(2) less.prems(9) by (metis roots_equal_in)
      moreover have "?ra = take (m - k) ?r"
        using less.IH [of "n - k" "m - k" "butlast ps" ?ra ?r] run a b k less.prems high pre(3) la lb
        by simp
      ultimately have "la = ?l @ take (m - k) ?r" by (metis append_take_drop_id)
      then show ?thesis using high by (metis le_add_diff_inverse nat_le_linear take_add)
    qed
  qed
qed

text \<open>The hash both runs start from, and the part of the proof the loop consumes.\<close>

definition verifier_start :: "nat \<Rightarrow> bytes \<Rightarrow> bytes list \<Rightarrow> bytes \<times> bytes list" where
  "verifier_start m rootA proof =
     (if power_of_two m then (rootA, proof) else (hd proof, tl proof))"

definition verifier_preimages :: "nat \<Rightarrow> nat \<Rightarrow> bytes \<Rightarrow> bytes list \<Rightarrow> bytes list" where
  "verifier_preimages m n rootA proof =
     (case verifier_start m rootA proof of (start, rest) \<Rightarrow> consistency_preimages m n start rest)"

lemma VerifyConsistency_split:
  assumes "0 < m" "m < n"
  shows "VerifyConsistency (int m) (int n) rootA rootB proof \<longleftrightarrow>
    proof \<noteq> [] \<and> (case verifier_start m rootA proof of
       (start, rest) \<Rightarrow> split_run m n start rest = Some (rootA, rootB))"
proof -
  obtain a c where cr: "climb_right (m - 1) (n - 1) = (a, c)" by force
  have "nat (int m - 1) = m - 1" "nat (int n - 1) = n - 1" using assms by auto
  moreover note verify_loop_split [OF assms cr] climb_right_pos [OF cr assms(1)]
  ultimately show ?thesis using assms cr
    by (auto simp: VerifyConsistency_def verifier_start_def Let_def split: option.splits)
qed

subsection \<open>Properties\<close>

text \<open>C5. \<open>ConsistencyProof\<close> answers every size up to the number of leaves and refuses every
  other, and \<open>VerifyConsistency\<close>, whose loop climbs the bits of the two indices, accepts the
  proof for the roots of the prefix and of the whole list.\<close>

theorem consistency_proof_verifies:
  "case ConsistencyProof m leaves of
     Inl e \<Rightarrow> \<not> (0 \<le> m \<and> m \<le> int (length leaves)) \<and> e = ConsistencyOutOfRange m (length leaves)
   | Inr p \<Rightarrow> 0 \<le> m \<and> m \<le> int (length leaves) \<and>
       VerifyConsistency m (int (length leaves)) (RootFromLeaves (take (nat m) leaves))
         (RootFromLeaves leaves) p"
proof -
  consider "m < 0 \<or> int (length leaves) < m" | "m = 0 \<or> m = int (length leaves)"
    | "0 < nat m" "nat m < length leaves" "int (nat m) = m" by linarith
  then show ?thesis
  proof cases
    case 1
    then show ?thesis by (auto simp: ConsistencyProof_def Let_def)
  next
    case 2
    then show ?thesis by (auto simp: ConsistencyProof_def Let_def VerifyConsistency_def)
  next
    case 3
    let ?p = "subProof (nat m) leaves True" and ?a = "RootFromLeaves (take (nat m) leaves)"
    obtain h ps where seeded: "subProof (nat m) leaves False = h # ps"
      "split_run (nat m) (length leaves) h ps = Some (?a, RootFromLeaves leaves)"
      using subProof_seeded [of "nat m" leaves] 3 by auto
    have "?p \<noteq> [] \<and> (case verifier_start (nat m) ?a ?p of
       (start, rest) \<Rightarrow> split_run (nat m) (length leaves) start rest = Some (?a, RootFromLeaves leaves))"
    proof (cases "power_of_two (nat m)")
      case True
      then obtain i where "nat m = 2 ^ i" by (auto simp: power_of_two_def)
      then have run: "split_run (nat m) (length leaves) ?a ?p = Some (?a, RootFromLeaves leaves)"
        using 3 by (intro subProof_power) auto
      then have "?p \<noteq> []" using 3 by (auto simp: split_run.simps [of "nat m"] split: if_splits)
      then show ?thesis using run True by (simp add: verifier_start_def)
    next
      case False
      then show ?thesis using subProof_flag [OF False 3(2)] seeded by (simp add: verifier_start_def)
    qed
    then have "VerifyConsistency (int (nat m)) (int (length leaves)) ?a (RootFromLeaves leaves) ?p"
      using VerifyConsistency_split [OF 3(1,2)] by simp
    moreover have "ConsistencyProof m leaves = Inr ?p"
      using 3 by (auto simp: ConsistencyProof_def Let_def)
    ultimately show ?thesis using 3 by simp
  qed
qed

text \<open>C6. An accepted consistency proof, from whatever source and with siblings of whatever
  length, shows that the older tree's leaves are a prefix of the newer tree's, unless two of
  the strings hashed by the verifier and the two trees collide.\<close>

theorem consistency_proof_sound:
  assumes "VerifyConsistency (int (length la)) (int (length lb))
             (RootFromLeaves la) (RootFromLeaves lb) p"
  shows "length la \<le> length lb \<and> (la = take (length la) lb \<or>
    collides (verifier_preimages (length la) (length lb) (RootFromLeaves la) p
      @ tree_preimages la @ tree_preimages lb))"
proof -
  let ?xs = "verifier_preimages (length la) (length lb) (RootFromLeaves la) p
      @ tree_preimages la @ tree_preimages lb"
  have le: "length la \<le> length lb" using assms by (auto simp: VerifyConsistency_def split: if_splits)
  consider "la = []" | "length la = length lb" | "0 < length la" "length la < length lb"
    using le by fastforce
  then have "la = take (length la) lb \<or> collides ?xs"
  proof cases
    case 2
    then have "RootFromLeaves la = RootFromLeaves lb"
      using assms by (simp add: VerifyConsistency_def split: if_splits)
    then have "la = lb \<or> collides ?xs" using roots_equal_in [of la lb ?xs] by auto
    then show ?thesis using 2 by auto
  next
    case 3
    obtain start rest where vs: "verifier_start (length la) (RootFromLeaves la) p = (start, rest)"
      by force
    have run: "split_run (length la) (length lb) start rest = Some (RootFromLeaves la, RootFromLeaves lb)"
      using assms VerifyConsistency_split [OF 3] vs by simp
    show ?thesis
      using split_run_sound [OF run refl refl 3(1) le, of ?xs] vs
      by (auto simp: verifier_preimages_def)
  qed simp
  with le show ?thesis by simp
qed

theorem consistency_proof_sound_witness:
  "length [''a''] \<le> length [''a'', ''b''] \<and> ([''a''] = take (length [''a'']) [''a'', ''b''] \<or>
    collides (verifier_preimages (length [''a'']) (length [''a'', ''b'']) (RootFromLeaves [''a''])
        (subProof 1 [''a'', ''b''] True)
      @ tree_preimages [''a''] @ tree_preimages [''a'', ''b'']))"
proof (rule consistency_proof_sound)
  let ?p = "subProof 1 [''a'', ''b''] True"
  have run: "split_run 1 2 (RootFromLeaves [''a'']) ?p
      = Some (RootFromLeaves [''a''], RootFromLeaves [''a'', ''b''])"
    using subProof_power [of 1 0 "[''a'', ''b'']"] by (simp add: numeral_2_eq_2)
  then have "?p \<noteq> []" by (auto simp: split_run.simps [of "Suc 0"])
  moreover have "power_of_two 1" unfolding power_of_two_def by (metis power_0)
  ultimately have "VerifyConsistency (int 1) (int 2) (RootFromLeaves [''a''])
      (RootFromLeaves [''a'', ''b'']) ?p"
    using run VerifyConsistency_split [of 1 2] by (simp add: verifier_start_def)
  then show "VerifyConsistency (int (length [''a''])) (int (length [''a'', ''b'']))
      (RootFromLeaves [''a'']) (RootFromLeaves [''a'', ''b'']) ?p"
    by simp
qed

end
