(* ===== verification/Store_Types.thy ===== *)
theory Store_Types
  imports Chain_Format
begin

section \<open>The store port: \<open>store/store.go\<close> and \<open>store/append_check.go\<close>\<close>

text \<open>
  The rows of a chain, its head record and its tail as the records of the code, the sentinel
  errors, and the rule that what an updater writes is an append. The three records name a chain
  by \<open>ChainID\<close> in the code; here the head record and the tail prefix their fields.
  A \<open>context.Context\<close> is only asked whether it is done: a bool here.
\<close>

type_synonym ctx = bool

record entry =
  ChainID :: string
  EntryID :: string
  EntryType :: string
  FormatVersion :: int
  GlobalSeq :: int
  RunID :: string
  SequenceNum :: int
  Timestamp :: gotime
  ContentHash :: string
  PreviousHash :: string
  ChainHash :: string

record chain_state =
  st_ChainID :: string
  HeadSeq :: int
  HeadHash :: string
  ComputedAt :: gotime

record tail =
  t_ChainID :: string
  t_Empty :: bool
  t_Hash :: string
  t_GlobalSeq :: int

datatype store_error =
    ContextDone | ErrNotFound | ErrEmptyChain | ErrChainLeased string
  | EntryUnnamedChain string string | EntryWrongSequence string string int int
  | EntryNotLinked string string | StateUnnamedChain string | StateNoEntries string
  | StateNotLast string
  | EmptyChainID nat | EmptyEntryID nat | NoChains | NilFunction | BadChainName nat
  | ChainTwice string | EntryEmptyIDs nat | NilState | StateEmptyChainID | LeaseToken
  | NoLeaseHeld | LeaseMismatch
  | NegativeGlobalSeq nat int | NulInChainID nat | EncodeEntry string | EncodeState | DecodeRow
  | DatabaseError string | BadLimit int | NoSeparator nat | ErrCorrupt string

subsection \<open>\<open>CheckAppend\<close>\<close>

text \<open>The continuation point of a chain while the entries are read.\<close>

record cursor =
  c_next :: int
  c_prev :: string
  c_last :: "entry option"

definition tail_cursor :: "tail \<Rightarrow> cursor" where
  "tail_cursor t =
     (if t_Empty t then \<lparr>c_next = 0, c_prev = [], c_last = None\<rparr>
      else \<lparr>c_next = wrap64 (t_GlobalSeq t + 1), c_prev = t_Hash t, c_last = None\<rparr>)"

definition tail_cursors :: "tail list \<Rightarrow> string \<rightharpoonup> cursor" where
  "tail_cursors tails = foldl (\<lambda>m t. m(t_ChainID t \<mapsto> tail_cursor t)) (\<lambda>_. None) tails"

fun check_entries :: "(string \<rightharpoonup> cursor) \<Rightarrow> entry list \<Rightarrow> store_error + (string \<rightharpoonup> cursor)" where
  "check_entries curs [] = Inr curs"
| "check_entries curs (e # es) =
     (case curs (ChainID e) of
        None \<Rightarrow> Inl (EntryUnnamedChain (EntryID e) (ChainID e))
      | Some c \<Rightarrow>
          if GlobalSeq e \<noteq> c_next c
          then Inl (EntryWrongSequence (ChainID e) (EntryID e) (GlobalSeq e) (c_next c))
          else if PreviousHash e \<noteq> c_prev c then Inl (EntryNotLinked (ChainID e) (EntryID e))
          else check_entries
                 (curs(ChainID e \<mapsto>
                    \<lparr>c_next = wrap64 (c_next c + 1), c_prev = ChainHash e, c_last = Some e\<rparr>)) es)"

fun check_states :: "(string \<rightharpoonup> cursor) \<Rightarrow> chain_state list \<Rightarrow> store_error option" where
  "check_states curs [] = None"
| "check_states curs (st # sts) =
     (case curs (st_ChainID st) of
        None \<Rightarrow> Some (StateUnnamedChain (st_ChainID st))
      | Some c \<Rightarrow>
          (case c_last c of
             None \<Rightarrow> Some (StateNoEntries (st_ChainID st))
           | Some e \<Rightarrow>
               if HeadSeq st \<noteq> GlobalSeq e \<or> HeadHash st \<noteq> ChainHash e
               then Some (StateNotLast (st_ChainID st))
               else check_states curs sts))"

definition CheckAppend :: "tail list \<Rightarrow> entry list \<Rightarrow> chain_state list \<Rightarrow> store_error option" where
  "CheckAppend tails entries states =
     (case check_entries (tail_cursors tails) entries of
        Inl e \<Rightarrow> Some e
      | Inr curs \<Rightarrow> check_states curs states)"

subsection \<open>What an append is, chain by chain\<close>

text \<open>The entries of one chain continue a position and a hash.\<close>

fun continues :: "int \<Rightarrow> string \<Rightarrow> entry list \<Rightarrow> bool" where
  "continues n p [] = True"
| "continues n p (e # es) =
     (GlobalSeq e = n \<and> PreviousHash e = p \<and> continues (wrap64 (n + 1)) (ChainHash e) es)"

definition entries_of :: "string \<Rightarrow> entry list \<Rightarrow> entry list" where
  "entries_of c es = filter (\<lambda>e. ChainID e = c) es"

lemma entries_of_simps [simp]:
  "entries_of c [] = []"
  "entries_of c (e # es) = (if ChainID e = c then e # entries_of c es else entries_of c es)"
  "entries_of c (es @ es') = entries_of c es @ entries_of c es'"
  by (simp_all add: entries_of_def)

definition append_ok :: "tail list \<Rightarrow> entry list \<Rightarrow> chain_state list \<Rightarrow> bool" where
  "append_ok tails es sts \<longleftrightarrow>
     (\<forall>e \<in> set es. ChainID e \<in> t_ChainID ` set tails) \<and>
     (\<forall>t \<in> set tails. continues (c_next (tail_cursor t)) (c_prev (tail_cursor t))
        (entries_of (t_ChainID t) es)) \<and>
     (\<forall>st \<in> set sts. st_ChainID st \<in> t_ChainID ` set tails \<and>
        entries_of (st_ChainID st) es \<noteq> [] \<and>
        HeadSeq st = GlobalSeq (last (entries_of (st_ChainID st) es)) \<and>
        HeadHash st = ChainHash (last (entries_of (st_ChainID st) es)))"

text \<open>The interleaved scan is the conjunction of the scans of the single chains.\<close>

definition cursor_ok :: "(string \<rightharpoonup> cursor) \<Rightarrow> entry list \<Rightarrow> bool" where
  "cursor_ok curs es \<longleftrightarrow>
     (\<forall>e \<in> set es. curs (ChainID e) \<noteq> None) \<and>
     (\<forall>c k. curs c = Some k \<longrightarrow> continues (c_next k) (c_prev k) (entries_of c es))"

lemma check_entries_iff:
  "(\<exists>curs'. check_entries curs es = Inr curs') \<longleftrightarrow> cursor_ok curs es"
proof (induction es arbitrary: curs)
  case Nil
  show ?case by (simp add: cursor_ok_def)
next
  case (Cons e es)
  show ?case
  proof (cases "curs (ChainID e)")
    case None
    then show ?thesis by (auto simp: cursor_ok_def)
  next
    case (Some k)
    let ?k' = "\<lparr>c_next = wrap64 (c_next k + 1), c_prev = ChainHash e, c_last = Some e\<rparr>"
    have "cursor_ok curs (e # es) \<longleftrightarrow> GlobalSeq e = c_next k \<and> PreviousHash e = c_prev k \<and>
        cursor_ok (curs(ChainID e \<mapsto> ?k')) es"
      using Some by (auto simp: cursor_ok_def split: if_splits)
    moreover have "(\<exists>curs'. check_entries curs (e # es) = Inr curs') \<longleftrightarrow>
        GlobalSeq e = c_next k \<and> PreviousHash e = c_prev k \<and>
        (\<exists>curs'. check_entries (curs(ChainID e \<mapsto> ?k')) es = Inr curs')"
      by (simp add: Some)
    ultimately show ?thesis unfolding Cons.IH by blast
  qed
qed

lemma check_entries_last:
  "check_entries curs es = Inr curs' \<Longrightarrow>
     curs' c = (case curs c of
        None \<Rightarrow> None
      | Some k \<Rightarrow>
          if entries_of c es = [] then Some k
          else Some \<lparr>c_next = wrap64 (GlobalSeq (last (entries_of c es)) + 1),
                     c_prev = ChainHash (last (entries_of c es)),
                     c_last = Some (last (entries_of c es))\<rparr>)"
proof (induction es arbitrary: curs)
  case Nil
  then show ?case by (simp split: option.splits)
next
  case (Cons e es)
  then show ?case
    by (auto split: option.splits if_splits simp: Cons.IH)
qed

lemma tail_cursors_distinct:
  "distinct (map t_ChainID tails) \<Longrightarrow>
     (tail_cursors tails c = Some k \<longleftrightarrow> (\<exists>t \<in> set tails. t_ChainID t = c \<and> k = tail_cursor t))"
proof (induction tails rule: rev_induct)
  case Nil
  show ?case by (simp add: tail_cursors_def)
next
  case (snoc t ts)
  have "tail_cursors (ts @ [t]) = (tail_cursors ts)(t_ChainID t \<mapsto> tail_cursor t)"
    by (simp add: tail_cursors_def)
  moreover have "t_ChainID t \<notin> t_ChainID ` set ts" using snoc.prems by simp
  ultimately show ?case using snoc by (cases "c = t_ChainID t") (auto intro: rev_image_eqI)
qed

lemma tail_cursor_last [simp]: "c_last (tail_cursor t) = None"
  by (simp add: tail_cursor_def)

lemma check_states_iff:
  "check_states curs sts = None \<longleftrightarrow>
     (\<forall>st \<in> set sts. \<exists>k e. curs (st_ChainID st) = Some k \<and> c_last k = Some e \<and>
        HeadSeq st = GlobalSeq e \<and> HeadHash st = ChainHash e)"
  by (induction sts) (auto split: option.splits)

lemma cursor_ok_tails:
  assumes "distinct (map t_ChainID tails)"
  shows "cursor_ok (tail_cursors tails) es \<longleftrightarrow>
     (\<forall>e \<in> set es. ChainID e \<in> t_ChainID ` set tails) \<and>
     (\<forall>t \<in> set tails. continues (c_next (tail_cursor t)) (c_prev (tail_cursor t))
        (entries_of (t_ChainID t) es))"
proof -
  note iff = tail_cursors_distinct [OF assms]
  have "tail_cursors tails c \<noteq> None \<longleftrightarrow> c \<in> t_ChainID ` set tails" for c
    using iff [of c] by auto
  moreover have "(\<forall>c k. tail_cursors tails c = Some k \<longrightarrow> continues (c_next k) (c_prev k) (entries_of c es))
      \<longleftrightarrow> (\<forall>t \<in> set tails. continues (c_next (tail_cursor t)) (c_prev (tail_cursor t))
        (entries_of (t_ChainID t) es))"
    unfolding iff by blast
  ultimately show ?thesis by (simp only: cursor_ok_def)
qed

lemma CheckAppend_iff:
  assumes "distinct (map t_ChainID tails)"
  shows "CheckAppend tails es sts = None \<longleftrightarrow> append_ok tails es sts"
proof (cases "check_entries (tail_cursors tails) es")
  case (Inl err)
  then have "\<not> cursor_ok (tail_cursors tails) es"
    using check_entries_iff [of "tail_cursors tails" es] by auto
  then have "\<not> append_ok tails es sts"
    unfolding cursor_ok_tails [OF assms] append_ok_def by blast
  then show ?thesis by (simp add: CheckAppend_def Inl)
next
  case (Inr curs)
  then have ok: "cursor_ok (tail_cursors tails) es"
    using check_entries_iff [of "tail_cursors tails" es] by blast
  have "(\<exists>k e. curs c = Some k \<and> c_last k = Some e \<and> P e) \<longleftrightarrow>
      c \<in> t_ChainID ` set tails \<and> entries_of c es \<noteq> [] \<and> P (last (entries_of c es))" for c P
  proof (cases "tail_cursors tails c")
    case None
    have "c \<notin> t_ChainID ` set tails"
    proof
      assume "c \<in> t_ChainID ` set tails"
      then obtain t where "t \<in> set tails" "t_ChainID t = c" by blast
      then have "tail_cursors tails c = Some (tail_cursor t)"
        using tail_cursors_distinct [OF assms, of c "tail_cursor t"] by blast
      with None show False by simp
    qed
    then show ?thesis using check_entries_last [OF Inr, of c] None by simp
  next
    case (Some k)
    then obtain t where "t \<in> set tails" "t_ChainID t = c" "k = tail_cursor t"
      using tail_cursors_distinct [OF assms] by blast
    then show ?thesis using check_entries_last [OF Inr, of c] Some by auto
  qed
  then have "check_states curs sts = None \<longleftrightarrow>
      (\<forall>st \<in> set sts. st_ChainID st \<in> t_ChainID ` set tails \<and> entries_of (st_ChainID st) es \<noteq> [] \<and>
        HeadSeq st = GlobalSeq (last (entries_of (st_ChainID st) es)) \<and>
        HeadHash st = ChainHash (last (entries_of (st_ChainID st) es)))"
    by (simp only: check_states_iff)
  then show ?thesis using ok unfolding cursor_ok_tails [OF assms]
    by (simp add: CheckAppend_def Inr append_ok_def)
qed

subsection \<open>The port as an interface\<close>

text \<open>The methods of the Go interface \<open>store.Store\<close> that an appender calls, over any state.\<close>

record 's store_ops =
  op_read_tail :: "ctx \<Rightarrow> string \<Rightarrow> 's \<Rightarrow> store_error + (string \<times> int)"
  op_write_batch :: "ctx \<Rightarrow> entry list \<Rightarrow> 's \<Rightarrow> store_error option \<times> 's"
  op_put_state :: "ctx \<Rightarrow> chain_state option \<Rightarrow> 's \<Rightarrow> store_error option \<times> 's"
  op_acquire :: "ctx \<Rightarrow> string \<Rightarrow> 's \<Rightarrow> (store_error + string option) \<times> 's"
  op_release :: "ctx \<Rightarrow> string \<Rightarrow> string \<Rightarrow> 's \<Rightarrow> store_error option \<times> 's"

definition last_seq :: "entry list \<Rightarrow> int" where
  "last_seq es = (if es = [] then -1 else GlobalSeq (last es))"

definition last_hash :: "entry list \<Rightarrow> string" where
  "last_hash es = (if es = [] then [] else ChainHash (last es))"

text \<open>There is room for \<open>k\<close> more positions after these rows.\<close>

definition room :: "entry list \<Rightarrow> nat \<Rightarrow> bool" where
  "room es k \<longleftrightarrow> int64 (last_seq es) \<and> last_seq es + int k < 2 ^ 63"

text \<open>What the port promises an appender. The tail is the last row, and no other error than
  \<open>ErrEmptyChain\<close> says that a chain is empty; entries that continue the tail extend exactly that chain
  when the write reports success, and a failed write changes nothing; a lease has one holder and goes
  when its release reports success. A store may promise this only for some chain ids (\<open>named\<close>) and
  some rows (\<open>storable\<close>).\<close>

locale store_port =
  fixes ops :: "'s store_ops"
    and valid :: "'s \<Rightarrow> bool"
    and chain_rows :: "'s \<Rightarrow> string \<Rightarrow> entry list"
    and lease_of :: "'s \<Rightarrow> string \<Rightarrow> string option"
    and named :: "string \<Rightarrow> bool"
    and storable :: "entry \<Rightarrow> bool"
  assumes read_tail: "valid s \<Longrightarrow> named c \<Longrightarrow> op_read_tail ops False c s = r \<Longrightarrow>
      (r = Inl ErrEmptyChain \<longrightarrow> chain_rows s c = []) \<and>
      (\<forall>h n. r = Inr (h, n) \<longrightarrow>
         chain_rows s c \<noteq> [] \<and> h = last_hash (chain_rows s c) \<and> n = last_seq (chain_rows s c))"
    and read_tail_done: "op_read_tail ops True c s = Inl ContextDone"
    and write_append: "valid s \<Longrightarrow> named c \<Longrightarrow> c \<noteq> [] \<Longrightarrow>
      (\<forall>e \<in> set es. ChainID e = c \<and> EntryID e \<noteq> [] \<and> storable e) \<Longrightarrow>
      room (chain_rows s c) (length es) \<Longrightarrow>
      continues (last_seq (chain_rows s c) + 1) (last_hash (chain_rows s c)) es \<Longrightarrow>
      op_write_batch ops False es s = (w, s') \<Longrightarrow>
      valid s' \<and> lease_of s' = lease_of s \<and>
      chain_rows s' = (if w = None then (chain_rows s)(c := chain_rows s c @ es) else chain_rows s)"
    and write_done: "op_write_batch ops True es s = (Some ContextDone, s)"
    and put_state: "valid s \<Longrightarrow> op_put_state ops d st s = (r', s') \<Longrightarrow>
      valid s' \<and> chain_rows s' = chain_rows s \<and> lease_of s' = lease_of s"
    and acquire: "valid s \<Longrightarrow> op_acquire ops d c s = (a, s') \<Longrightarrow>
      valid s' \<and> chain_rows s' = chain_rows s \<and>
      lease_of s' = (case a of Inr (Some t) \<Rightarrow> (lease_of s)(c := Some t) | _ \<Rightarrow> lease_of s) \<and>
      (case a of Inr (Some t) \<Rightarrow> lease_of s c = None | _ \<Rightarrow> True)"
    and release: "valid s \<Longrightarrow> lease_of s c = Some t \<Longrightarrow> op_release ops False c t s = (w, s') \<Longrightarrow>
      valid s' \<and> chain_rows s' = chain_rows s \<and>
      lease_of s' = (if w = None then (lease_of s)(c := None) else lease_of s)"

end
