(* ===== verification/Mem_Store.thy ===== *)
theory Mem_Store
  imports Store_Types
begin

section \<open>The memory store: package \<open>store/memory\<close>\<close>

text \<open>
  \<open>Store\<close> is the record \<open>mem\<close>: the entries of each chain sorted by position, the head records
  and the lease tokens, the three Go maps of the code. Every method takes the lock for its whole
  body, so a method is one step of the state. The only outside input, the token bytes that
  \<open>crypto/rand\<close> returns or its failure, is an argument of \<open>Acquire\<close>.

  \<open>sort.Slice\<close> is not stable, but it sorts entries whose positions are distinct
  (\<open>wf_mem\<close>), where every sort gives the same list; \<open>sort_key\<close> is used for it.
\<close>

record mem =
  m_entries :: "string \<rightharpoonup> entry list"
  m_state :: "string \<rightharpoonup> chain_state"
  m_leases :: "string \<rightharpoonup> string"

definition New :: mem where
  "New = \<lparr>m_entries = (\<lambda>_. None), m_state = (\<lambda>_. None), m_leases = (\<lambda>_. None)\<rparr>"

text \<open>Reading a Go map of slices: a missing key is the nil slice.\<close>

definition rows :: "mem \<Rightarrow> string \<Rightarrow> entry list" where
  "rows s c = (case m_entries s c of None \<Rightarrow> [] | Some es \<Rightarrow> es)"

text \<open>Replacing the row at an occupied position, or appending.\<close>

fun upsert_row :: "entry \<Rightarrow> entry list \<Rightarrow> entry list" where
  "upsert_row e [] = [e]"
| "upsert_row e (x # xs) = (if GlobalSeq x = GlobalSeq e then e # xs else x # upsert_row e xs)"

definition upsertLocked :: "entry list \<Rightarrow> mem \<Rightarrow> mem" where
  "upsertLocked es s =
     (let put = (\<lambda>m e. m(ChainID e \<mapsto> upsert_row e (case m (ChainID e) of None \<Rightarrow> [] | Some xs \<Rightarrow> xs)));
          m = foldl put (m_entries s) es
      in s\<lparr>m_entries := (\<lambda>c. map_option (sort_key GlobalSeq) (m c))\<rparr>)"

fun check_ids :: "nat \<Rightarrow> entry list \<Rightarrow> store_error option" where
  "check_ids i [] = None"
| "check_ids i (e # es) =
     (if ChainID e = [] then Some (EmptyChainID i)
      else if EntryID e = [] then Some (EmptyEntryID i)
      else check_ids (Suc i) es)"

definition WriteBatch :: "ctx \<Rightarrow> entry list \<Rightarrow> mem \<Rightarrow> (store_error option) \<times> mem" where
  "WriteBatch done es s =
     (if done then (Some ContextDone, s)
      else case check_ids 0 es of
             Some err \<Rightarrow> (Some err, s)
           | None \<Rightarrow> (None, upsertLocked es s))"

definition ReadTail :: "ctx \<Rightarrow> string \<Rightarrow> mem \<Rightarrow> store_error + (string \<times> int)" where
  "ReadTail done c s =
     (if done then Inl ContextDone
      else if rows s c = [] then Inl ErrEmptyChain
      else let e = last (rows s c) in Inr (ChainHash e, GlobalSeq e))"

definition Predecessor :: "ctx \<Rightarrow> string \<Rightarrow> int \<Rightarrow> mem \<Rightarrow> store_error + entry" where
  "Predecessor done c startSeq s =
     (if done then Inl ContextDone
      else case foldl (\<lambda>best e. if GlobalSeq e < startSeq then Some e else best) None (rows s c) of
             None \<Rightarrow> Inl ErrNotFound
           | Some e \<Rightarrow> Inr e)"

text \<open>The loop of \<open>Range\<close> with its early stop; \<open>got\<close> is \<open>len(out)\<close>.\<close>

fun range_loop :: "int \<Rightarrow> int \<Rightarrow> int \<Rightarrow> int \<Rightarrow> entry list \<Rightarrow> entry list" where
  "range_loop startSeq endSeq limit got [] = []"
| "range_loop startSeq endSeq limit got (e # es) =
     (if GlobalSeq e < startSeq \<or> endSeq < GlobalSeq e
      then range_loop startSeq endSeq limit got es
      else if 0 < limit \<and> got + 1 = limit then [e]
      else e # range_loop startSeq endSeq limit (got + 1) es)"

definition Range :: "ctx \<Rightarrow> string \<Rightarrow> int \<Rightarrow> int \<Rightarrow> int \<Rightarrow> mem \<Rightarrow> store_error + entry list" where
  "Range done c startSeq endSeq limit s =
     (if done then Inl ContextDone
      else Inr (range_loop startSeq endSeq limit 0 (rows s c)))"

definition Bounds :: "ctx \<Rightarrow> string \<Rightarrow> mem \<Rightarrow> store_error + (int \<times> int)" where
  "Bounds done c s =
     (if done then Inl ContextDone
      else if rows s c = [] then Inl ErrEmptyChain
      else Inr (GlobalSeq (hd (rows s c)), GlobalSeq (last (rows s c))))"

definition GetState :: "ctx \<Rightarrow> string \<Rightarrow> mem \<Rightarrow> store_error + chain_state" where
  "GetState done c s =
     (if done then Inl ContextDone
      else case m_state s c of None \<Rightarrow> Inl ErrNotFound | Some st \<Rightarrow> Inr st)"

definition PutState :: "ctx \<Rightarrow> chain_state option \<Rightarrow> mem \<Rightarrow> store_error option \<times> mem" where
  "PutState done ptr s =
     (if done then (Some ContextDone, s)
      else case ptr of
             None \<Rightarrow> (Some NilState, s)
           | Some st \<Rightarrow>
               if st_ChainID st = [] then (Some StateEmptyChainID, s)
               else (None, s\<lparr>m_state := (m_state s)(st_ChainID st \<mapsto> st)\<rparr>))"

text \<open>\<open>rand\<close> is what \<open>rand.Read\<close> returns for the 16 token bytes, \<open>None\<close> for its error. The
  answer is \<open>None\<close> when the lease is held (acquired false).\<close>

definition Acquire :: "bytes option \<Rightarrow> ctx \<Rightarrow> string \<Rightarrow> mem \<Rightarrow> (store_error + string option) \<times> mem" where
  "Acquire rand done c s =
     (if done then (Inl ContextDone, s)
      else if m_leases s c \<noteq> None then (Inr None, s)
      else case rand of
             None \<Rightarrow> (Inl LeaseToken, s)
           | Some b \<Rightarrow>
               let token = hex_encode b
               in (Inr (Some token), s\<lparr>m_leases := (m_leases s)(c \<mapsto> token)\<rparr>))"

definition Release :: "ctx \<Rightarrow> string \<Rightarrow> string \<Rightarrow> mem \<Rightarrow> store_error option \<times> mem" where
  "Release done c token s =
     (if done then (Some ContextDone, s)
      else case m_leases s c of
             None \<Rightarrow> (Some NoLeaseHeld, s)
           | Some held \<Rightarrow>
               if held \<noteq> token then (Some LeaseMismatch, s)
               else (None, s\<lparr>m_leases := (m_leases s)(c := None)\<rparr>))"

subsection \<open>\<open>UpdateChains\<close>\<close>

text \<open>The callback's own error passes through unchanged, so it has a type of its own.\<close>

datatype 'e update_error = StoreErr store_error | CallbackErr 'e

fun check_names :: "nat \<Rightarrow> string list \<Rightarrow> string set \<Rightarrow> store_error option" where
  "check_names i [] named = None"
| "check_names i (c # cs) named =
     (if c = [] \<or> CHR 0x00 \<in> set c then Some (BadChainName i)
      else if c \<in> named then Some (ChainTwice c)
      else check_names (Suc i) cs (insert c named))"

fun check_leases :: "mem \<Rightarrow> string list \<Rightarrow> store_error option" where
  "check_leases s [] = None"
| "check_leases s (c # cs) =
     (if m_leases s c \<noteq> None then Some (ErrChainLeased c) else check_leases s cs)"

definition read_tail_row :: "mem \<Rightarrow> string \<Rightarrow> tail" where
  "read_tail_row s c =
     (if rows s c = [] then \<lparr>t_ChainID = c, t_Empty = True, t_Hash = [], t_GlobalSeq = 0\<rparr>
      else let e = last (rows s c)
           in \<lparr>t_ChainID = c, t_Empty = False, t_Hash = ChainHash e, t_GlobalSeq = GlobalSeq e\<rparr>)"

fun check_both_ids :: "nat \<Rightarrow> entry list \<Rightarrow> store_error option" where
  "check_both_ids i [] = None"
| "check_both_ids i (e # es) =
     (if ChainID e = [] \<or> EntryID e = [] then Some (EntryEmptyIDs i) else check_both_ids (Suc i) es)"

definition put_states :: "chain_state list \<Rightarrow> mem \<Rightarrow> mem" where
  "put_states sts s = s\<lparr>m_state := foldl (\<lambda>m st. m(st_ChainID st \<mapsto> st)) (m_state s) sts\<rparr>"

definition UpdateChains ::
  "ctx \<Rightarrow> string list \<Rightarrow> (tail list \<Rightarrow> 'e + (entry list \<times> chain_state list)) option \<Rightarrow> mem \<Rightarrow>
     'e update_error option \<times> mem" where
  "UpdateChains done ids fn s =
     (if done then (Some (StoreErr ContextDone), s)
      else if ids = [] then (Some (StoreErr NoChains), s)
      else case fn of
        None \<Rightarrow> (Some (StoreErr NilFunction), s)
      | Some f \<Rightarrow>
        (case check_names 0 ids {} of
           Some err \<Rightarrow> (Some (StoreErr err), s)
         | None \<Rightarrow>
        (case check_leases s ids of
           Some err \<Rightarrow> (Some (StoreErr err), s)
         | None \<Rightarrow>
           let tails = map (read_tail_row s) ids
           in case f tails of
                Inl err \<Rightarrow> (Some (CallbackErr err), s)
              | Inr (es, sts) \<Rightarrow>
                  (case check_both_ids 0 es of
                     Some err \<Rightarrow> (Some (StoreErr err), s)
                   | None \<Rightarrow>
                  (case CheckAppend tails es sts of
                     Some err \<Rightarrow> (Some (StoreErr err), s)
                   | None \<Rightarrow> (None, put_states sts (upsertLocked es s)))))))"

subsection \<open>The invariant\<close>

definition wf_rows :: "string \<Rightarrow> entry list \<Rightarrow> bool" where
  "wf_rows c es \<longleftrightarrow> sorted_wrt (<) (map GlobalSeq es) \<and> list_all (\<lambda>e. ChainID e = c) es"

definition wf_mem :: "mem \<Rightarrow> bool" where
  "wf_mem s \<longleftrightarrow> (\<forall>c es. m_entries s c = Some es \<longrightarrow> wf_rows c es)"

lemma wf_mem_rows: "wf_mem s \<Longrightarrow> wf_rows c (rows s c)"
  by (auto simp: wf_mem_def rows_def wf_rows_def split: option.splits)

lemma wf_mem_New: "wf_mem New"
  by (simp add: wf_mem_def New_def)

text \<open>Looking a position up in a list of rows: what the sorting does not change.\<close>

definition lookup :: "entry list \<Rightarrow> int \<Rightarrow> entry option" where
  "lookup es n = List.find (\<lambda>e. GlobalSeq e = n) es"

lemma lookup_simps [simp]:
  "lookup [] n = None"
  "lookup (e # es) n = (if GlobalSeq e = n then Some e else lookup es n)"
  by (simp_all add: lookup_def)

lemma lookup_iff:
  "distinct (map GlobalSeq es) \<Longrightarrow> lookup es n = Some e \<longleftrightarrow> e \<in> set es \<and> GlobalSeq e = n"
proof (induction es)
  case (Cons x xs)
  then have "x \<in> set xs \<Longrightarrow> False" "GlobalSeq x \<notin> GlobalSeq ` set xs" by auto
  with Cons show ?case by auto
qed simp

lemma lookup_None: "lookup es n = None \<longleftrightarrow> n \<notin> GlobalSeq ` set es"
  by (induction es) auto

lemma lookup_cong:
  "distinct (map GlobalSeq es) \<Longrightarrow> distinct (map GlobalSeq es') \<Longrightarrow> set es = set es' \<Longrightarrow>
     lookup es n = lookup es' n"
  using lookup_iff [of es n] lookup_iff [of es' n] by (metis not_Some_eq)

lemma lookup_upsert_row [simp]:
  "lookup (upsert_row e es) n = (if n = GlobalSeq e then Some e else lookup es n)"
  by (induction es) auto

lemma upsert_row_keys:
  "set (map GlobalSeq (upsert_row e es)) = insert (GlobalSeq e) (set (map GlobalSeq es))"
  by (induction es) auto

lemma upsert_row_distinct: "distinct (map GlobalSeq es) \<Longrightarrow> distinct (map GlobalSeq (upsert_row e es))"
proof (induction es)
  case (Cons x xs)
  then show ?case using upsert_row_keys [of e xs] by (auto simp del: set_map simp: set_map [symmetric])
qed simp

lemma upsert_row_set: "set (upsert_row e es) \<subseteq> insert e (set es)"
  by (induction es) auto

lemma sort_rows:
  assumes "distinct (map GlobalSeq es)"
  shows "sorted_wrt (<) (map GlobalSeq (sort_key GlobalSeq es))"
    and "set (sort_key GlobalSeq es) = set es"
    and "lookup (sort_key GlobalSeq es) n = lookup es n"
proof -
  have d: "distinct (map GlobalSeq (sort_key GlobalSeq es))"
    using assms by (simp add: distinct_map)
  then show "sorted_wrt (<) (map GlobalSeq (sort_key GlobalSeq es))"
    by (simp add: strict_sorted_iff)
  show "set (sort_key GlobalSeq es) = set es" by simp
  then show "lookup (sort_key GlobalSeq es) n = lookup es n" using d assms by (intro lookup_cong)
qed

lemma rows_update [simp]:
  "rows (s\<lparr>m_entries := m\<rparr>) c = (case m c of None \<Rightarrow> [] | Some es \<Rightarrow> es)"
  "rows (s\<lparr>m_state := st\<rparr>) c = rows s c" "rows (s\<lparr>m_leases := ls\<rparr>) c = rows s c"
  by (simp_all add: rows_def)

subsection \<open>Writing refines a map update\<close>

text \<open>The contents of the store as a map from chain and position to the row.\<close>

definition contents :: "mem \<Rightarrow> string \<times> int \<rightharpoonup> entry" where
  "contents s = (\<lambda>(c, n). lookup (rows s c) n)"

definition put_all :: "entry list \<Rightarrow> (string \<times> int \<rightharpoonup> entry) \<Rightarrow> (string \<times> int \<rightharpoonup> entry)" where
  "put_all es f = foldl (\<lambda>f e. f((ChainID e, GlobalSeq e) \<mapsto> e)) f es"

definition row_list :: "(string \<rightharpoonup> entry list) \<Rightarrow> string \<Rightarrow> entry list" where
  "row_list m c = (case m c of None \<Rightarrow> [] | Some xs \<Rightarrow> xs)"

definition row_put :: "(string \<rightharpoonup> entry list) \<Rightarrow> entry \<Rightarrow> (string \<rightharpoonup> entry list)" where
  "row_put m e = m(ChainID e \<mapsto> upsert_row e (row_list m (ChainID e)))"

definition keyed :: "(string \<rightharpoonup> entry list) \<Rightarrow> bool" where
  "keyed m \<longleftrightarrow> (\<forall>c. distinct (map GlobalSeq (row_list m c)) \<and> (\<forall>e \<in> set (row_list m c). ChainID e = c))"

lemma upsertLocked_eq:
  "upsertLocked es s = s\<lparr>m_entries := (\<lambda>c. map_option (sort_key GlobalSeq) (foldl row_put (m_entries s) es c))\<rparr>"
  by (simp add: upsertLocked_def row_put_def [abs_def] row_list_def Let_def)

lemma row_list_put [simp]:
  "row_list (row_put m e) c = (if c = ChainID e then upsert_row e (row_list m c) else row_list m c)"
  by (simp add: row_put_def row_list_def)

lemma keyed_row_put: "keyed m \<Longrightarrow> keyed (row_put m e)"
  using upsert_row_set [of e "row_list m (ChainID e)"]
  by (auto simp: keyed_def upsert_row_distinct)

lemma keyed_foldl: "keyed m \<Longrightarrow> keyed (foldl row_put m es)"
  by (induction es arbitrary: m) (simp_all add: keyed_row_put)

lemma lookup_row_put:
  "lookup (row_list (row_put m e) c) n =
     (if c = ChainID e \<and> n = GlobalSeq e then Some e else lookup (row_list m c) n)"
  by simp

lemma put_all_Cons: "put_all (e # es) f = put_all es (f((ChainID e, GlobalSeq e) \<mapsto> e))"
  by (simp add: put_all_def)

lemma lookup_foldl:
  "(\<lambda>(c, n). lookup (row_list (foldl row_put m es) c) n) = put_all es (\<lambda>(c, n). lookup (row_list m c) n)"
proof (induction es arbitrary: m)
  case Nil
  show ?case by (simp add: put_all_def)
next
  case (Cons e es)
  have "(\<lambda>(c, n). lookup (row_list (row_put m e) c) n)
      = (\<lambda>(c, n). lookup (row_list m c) n)((ChainID e, GlobalSeq e) \<mapsto> e)"
    by (rule ext) (auto simp: lookup_row_put simp del: row_list_put split: if_splits)
  then show ?case by (simp only: Cons.IH put_all_Cons foldl_Cons)
qed

lemma rows_row_list: "rows s c = row_list (m_entries s) c"
  by (simp add: rows_def row_list_def)

lemma contents_at: "contents s (c, k) = lookup (rows s c) k"
  by (simp add: contents_def)

lemma wf_mem_keyed: "wf_mem s \<Longrightarrow> keyed (m_entries s)"
  by (auto simp: wf_mem_def wf_rows_def keyed_def row_list_def strict_sorted_iff list_all_iff
      split: option.splits)

lemma rows_upsert:
  "rows (upsertLocked es s) c = sort_key GlobalSeq (row_list (foldl row_put (m_entries s) es) c)"
  by (simp add: upsertLocked_eq row_list_def split: option.splits)

lemma wf_mem_upsert: "wf_mem s \<Longrightarrow> wf_mem (upsertLocked es s)"
proof -
  assume "wf_mem s"
  then have k: "keyed (foldl row_put (m_entries s) es)" by (simp add: keyed_foldl wf_mem_keyed)
  show ?thesis
    unfolding wf_mem_def
  proof (intro allI impI)
    fix c rs assume "m_entries (upsertLocked es s) c = Some rs"
    then obtain xs where xs: "foldl row_put (m_entries s) es c = Some xs" "rs = sort_key GlobalSeq xs"
      by (auto simp: upsertLocked_eq)
    then have "distinct (map GlobalSeq xs)" "\<forall>e \<in> set xs. ChainID e = c"
      using k by (auto simp: keyed_def row_list_def split: option.splits dest: spec [of _ c])
    then show "wf_rows c rs" using sort_rows [of xs] xs by (simp add: wf_rows_def list_all_iff)
  qed
qed

lemma contents_upsert: "wf_mem s \<Longrightarrow> contents (upsertLocked es s) = put_all es (contents s)"
proof -
  assume "wf_mem s"
  then have "keyed (foldl row_put (m_entries s) es)" by (simp add: keyed_foldl wf_mem_keyed)
  then have "contents (upsertLocked es s) = (\<lambda>(c, n). lookup (row_list (foldl row_put (m_entries s) es) c) n)"
    by (auto simp: contents_def rows_upsert keyed_def sort_rows)
  also have "\<dots> = put_all es (contents s)"
    by (simp only: lookup_foldl contents_def rows_row_list)
  finally show ?thesis .
qed

text \<open>Rows sorted strictly by position are determined by what is found at the positions.\<close>

lemma rows_ext:
  assumes "sorted_wrt (<) (map GlobalSeq xs)" "sorted_wrt (<) (map GlobalSeq ys)"
    and "\<And>n. lookup xs n = lookup ys n"
  shows "xs = ys"
proof -
  have d: "distinct (map GlobalSeq xs)" "distinct (map GlobalSeq ys)"
    "sorted (map GlobalSeq xs)" "sorted (map GlobalSeq ys)"
    using assms(1,2) by (simp_all add: strict_sorted_iff)
  have "e \<in> set xs \<longleftrightarrow> e \<in> set ys" for e
    using lookup_iff [OF d(1), of "GlobalSeq e" e] lookup_iff [OF d(2), of "GlobalSeq e" e] assms(3) by simp
  then have eq: "set xs = set ys" by blast
  moreover have "inj_on GlobalSeq (set xs \<union> set ys)"
    using d(1) eq by (simp add: distinct_map)
  ultimately show ?thesis
    using map_sorted_distinct_set_unique [of GlobalSeq xs ys] d by blast
qed

lemma lookup_append: "lookup (xs @ ys) n = (case lookup xs n of None \<Rightarrow> lookup ys n | Some e \<Rightarrow> Some e)"
  by (induction xs) auto

lemma put_all_lookup:
  "distinct (map GlobalSeq (entries_of c es)) \<Longrightarrow>
     put_all es f (c, n) = (case lookup (entries_of c es) n of None \<Rightarrow> f (c, n) | Some e \<Rightarrow> Some e)"
proof (induction es arbitrary: f)
  case Nil
  then show ?case by (simp add: put_all_def)
next
  case (Cons e es)
  note step = put_all_Cons
  show ?case
  proof (cases "ChainID e = c")
    case True
    with Cons.prems have "lookup (entries_of c es) (GlobalSeq e) = None"
      by (simp add: lookup_None)
    then show ?thesis using True Cons by (auto simp: step split: option.splits)
  next
    case False
    then show ?thesis using Cons by (auto simp: step split: option.splits)
  qed
qed

text \<open>Entries that continue the tail, without overflow, are appended.\<close>

lemma continues_seqs:
  "continues n p es \<Longrightarrow> int64 n \<Longrightarrow> n + int (length es) \<le> 2 ^ 63 \<Longrightarrow>
     map GlobalSeq es = map (\<lambda>i. n + int i) [0..<length es]"
proof (induction es arbitrary: n p)
  case Nil
  then show ?case by simp
next
  case (Cons e es)
  show ?case
  proof (cases es)
    case Nil
    with Cons.prems show ?thesis by simp
  next
    case (Cons e' es')
    then have "int64 (n + 1)" using \<open>int64 n\<close> \<open>n + int (length (e # es)) \<le> 2 ^ 63\<close>
      by (simp add: int64_def)
    with \<open>continues n p (e # es)\<close> \<open>n + int (length (e # es)) \<le> 2 ^ 63\<close> Cons.IH [of "n + 1" "ChainHash e"]
    have "map GlobalSeq es = map (\<lambda>i. n + 1 + int i) [0..<length es]" by simp
    then show ?thesis using \<open>continues n p (e # es)\<close>
      by (simp add: upt_conv_Cons map_Suc_upt [symmetric] add_ac comp_def del: upt_Suc)
  qed
qed

lemma continues_sorted:
  assumes "continues n p es" "int64 n" "n + int (length es) \<le> 2 ^ 63"
  shows "sorted_wrt (<) (map GlobalSeq es)" and "\<forall>e \<in> set es. n \<le> GlobalSeq e"
proof -
  note m = continues_seqs [OF assms]
  show "sorted_wrt (<) (map GlobalSeq es)" unfolding m by (simp add: sorted_wrt_map)
  have "\<forall>k \<in> set (map GlobalSeq es). n \<le> k" unfolding m by auto
  then show "\<forall>e \<in> set es. n \<le> GlobalSeq e" by simp
qed

lemma rows_upsert_append:
  assumes "wf_mem s"
    and "continues n p (entries_of c es)" "int64 n" "n + int (length (entries_of c es)) \<le> 2 ^ 63"
    and "\<forall>e \<in> set (rows s c). GlobalSeq e < n"
  shows "rows (upsertLocked es s) c = rows s c @ entries_of c es"
proof (rule rows_ext)
  note srt = continues_sorted [OF assms(2-4)]
  show "sorted_wrt (<) (map GlobalSeq (rows (upsertLocked es s) c))"
    using wf_mem_rows [OF wf_mem_upsert [OF assms(1)]] by (simp add: wf_rows_def)
  show "sorted_wrt (<) (map GlobalSeq (rows s c @ entries_of c es))"
    using srt assms(5) wf_mem_rows [OF assms(1), of c] unfolding wf_rows_def
    by (simp add: sorted_wrt_append) (meson less_le_trans)
  have "distinct (map GlobalSeq (entries_of c es))" using srt(1) by (simp add: strict_sorted_iff)
  then have "lookup (rows (upsertLocked es s) c) k
      = (case lookup (entries_of c es) k of None \<Rightarrow> lookup (rows s c) k | Some e \<Rightarrow> Some e)" for k
    using put_all_lookup [of c es "contents s" k]
    by (simp only: contents_at [symmetric] contents_upsert [OF assms(1)])
  moreover have "lookup (rows s c) k = None \<or> lookup (entries_of c es) k = None" for k
  proof (rule ccontr)
    assume "\<not> ?thesis"
    then obtain e e' where "e \<in> set (rows s c)" "e' \<in> set (entries_of c es)"
      "GlobalSeq e = k" "GlobalSeq e' = k"
      by (auto simp: lookup_None)
    then show False using srt(2) assms(5) by fastforce
  qed
  ultimately show "lookup (rows (upsertLocked es s) c) k = lookup (rows s c @ entries_of c es) k" for k
    unfolding lookup_append by (metis (no_types, lifting) option.case_eq_if option.collapse option.distinct(1))
qed

lemma rows_upsert_other: "wf_mem s \<Longrightarrow> entries_of c es = [] \<Longrightarrow> rows (upsertLocked es s) c = rows s c"
proof (rule rows_ext)
  assume wf: "wf_mem s" and none: "entries_of c es = []"
  show "sorted_wrt (<) (map GlobalSeq (rows (upsertLocked es s) c))"
    using wf_mem_rows [OF wf_mem_upsert [OF wf]] by (simp add: wf_rows_def)
  show "sorted_wrt (<) (map GlobalSeq (rows s c))" using wf_mem_rows [OF wf] by (simp add: wf_rows_def)
  show "lookup (rows (upsertLocked es s) c) k = lookup (rows s c) k" for k
    using put_all_lookup [of c es "contents s" k] none
    by (simp add: contents_at [symmetric] contents_upsert [OF wf])
qed

lemma rows_below_last:
  assumes "wf_mem s" "rows s c \<noteq> []" "e \<in> set (rows s c)"
  shows "GlobalSeq e \<le> GlobalSeq (last (rows s c))"
proof -
  have "sorted_wrt (<) (map GlobalSeq (butlast (rows s c) @ [last (rows s c)]))"
    using wf_mem_rows [OF assms(1), of c] assms(2) by (simp add: wf_rows_def)
  moreover have "e \<in> set (butlast (rows s c)) \<or> e = last (rows s c)"
    using assms(2,3) by (metis append_butlast_last_id in_set_conv_decomp_last insert_iff list.simps(15) rotate1.simps(2) set_rotate1)
  ultimately show ?thesis by (auto simp: sorted_wrt_append)
qed

subsection \<open>The state machine of the store\<close>

text \<open>Every method call that changes the state, with whatever arguments and whatever the
  callback of \<open>UpdateChains\<close> computes.\<close>

inductive mem_step :: "mem \<Rightarrow> mem \<Rightarrow> bool" where
  write_batch: "WriteBatch done es s = (r, s') \<Longrightarrow> mem_step s s'"
| put_state: "PutState done ptr s = (r, s') \<Longrightarrow> mem_step s s'"
| acquire: "Acquire rand done c s = (r', s') \<Longrightarrow> mem_step s s'"
| release: "Release done c token s = (r, s') \<Longrightarrow> mem_step s s'"
| update_chains: "UpdateChains done ids (fn :: (tail list \<Rightarrow> unit + (entry list \<times> chain_state list)) option) s = (u, s')
    \<Longrightarrow> mem_step s s'"

inductive_cases mem_stepE: "mem_step s s'"

lemma wf_mem_fields [simp]:
  "wf_mem (s\<lparr>m_state := x\<rparr>) = wf_mem s" "wf_mem (s\<lparr>m_leases := y\<rparr>) = wf_mem s"
  "wf_mem (put_states sts s) = wf_mem s"
  by (simp_all add: wf_mem_def put_states_def)

lemma UpdateChains_cases:
  assumes "UpdateChains done ids fn s = (r, s')"
  obtains (refused) err where "r = Some err" "s' = s"
  | (written) f es sts where "r = None" "fn = Some f" "f (map (read_tail_row s) ids) = Inr (es, sts)"
    "\<not> done" "ids \<noteq> []" "check_names 0 ids {} = None" "check_leases s ids = None"
    "check_both_ids 0 es = None" "CheckAppend (map (read_tail_row s) ids) es sts = None"
    "s' = put_states sts (upsertLocked es s)"
proof (cases r)
  case None
  then obtain f es sts where f: "fn = Some f" "f (map (read_tail_row s) ids) = Inr (es, sts)"
    "\<not> done" "ids \<noteq> []" "check_names 0 ids {} = None" "check_leases s ids = None"
    using assms
    by (simp add: UpdateChains_def Let_def split: if_splits option.splits sum.splits prod.splits)
  with None assms have "check_both_ids 0 es = None"
    "CheckAppend (map (read_tail_row s) ids) es sts = None"
    "s' = put_states sts (upsertLocked es s)"
    by (simp_all add: UpdateChains_def Let_def split: option.splits)
  with written None f show ?thesis by blast
next
  case (Some err)
  with assms have "s' = s"
    by (simp add: UpdateChains_def Let_def split: if_splits option.splits sum.splits prod.splits)
  with refused Some show ?thesis by blast
qed

lemma wf_mem_step: "mem_step s s' \<Longrightarrow> wf_mem s \<Longrightarrow> wf_mem s'"
proof (induction rule: mem_step.induct)
  case (update_chains "done" ids fn s u s')
  from update_chains(1) show ?case
    by (cases rule: UpdateChains_cases) (use update_chains in \<open>auto simp: wf_mem_upsert\<close>)
qed (auto simp: WriteBatch_def PutState_def Acquire_def Release_def Let_def wf_mem_upsert
      split: if_splits option.splits)

lemma wf_mem_reachable: "mem_step\<^sup>*\<^sup>* New s \<Longrightarrow> wf_mem s"
  by (induction rule: rtranclp_induct) (auto simp: wf_mem_New wf_mem_step)

subsection \<open>The memory store provides the port\<close>

text \<open>The method table of \<open>memory.Store\<close>, with the token bytes of the next \<open>Acquire\<close>.\<close>

definition mem_ops :: "bytes option \<Rightarrow> mem store_ops" where
  "mem_ops rand = \<lparr>op_read_tail = ReadTail, op_write_batch = WriteBatch, op_put_state = PutState,
     op_acquire = Acquire rand, op_release = Release\<rparr>"

lemma check_ids_None: "check_ids i es = None \<longleftrightarrow> (\<forall>e \<in> set es. ChainID e \<noteq> [] \<and> EntryID e \<noteq> [])"
  by (induction i es rule: check_ids.induct) auto

lemma room_rows:
  assumes "wf_mem s" "room (rows s c) k" "0 < k"
  shows "int64 (last_seq (rows s c) + 1)" "\<forall>e \<in> set (rows s c). GlobalSeq e < last_seq (rows s c) + 1"
proof -
  show "int64 (last_seq (rows s c) + 1)"
    using assms(2,3) by (simp add: room_def int64_def)
  show "\<forall>e \<in> set (rows s c). GlobalSeq e < last_seq (rows s c) + 1"
  proof
    fix e assume e: "e \<in> set (rows s c)"
    then have "rows s c \<noteq> []" by auto
    with rows_below_last [OF assms(1) this e]
    show "GlobalSeq e < last_seq (rows s c) + 1" by (simp add: last_seq_def)
  qed
qed

lemma upsert_appends:
  assumes "wf_mem s" "room (rows s c) (length (entries_of c es))"
    and "continues (last_seq (rows s c) + 1) (last_hash (rows s c)) (entries_of c es)"
  shows "rows (upsertLocked es s) c = rows s c @ entries_of c es"
proof (cases "entries_of c es = []")
  case True
  then show ?thesis using rows_upsert_other [OF assms(1) True] by simp
next
  case False
  then have "0 < length (entries_of c es)" by simp
  note r = room_rows [OF assms(1,2) this]
  have "last_seq (rows s c) + 1 + int (length (entries_of c es)) \<le> 2 ^ 63"
    using assms(2) by (simp add: room_def)
  from rows_upsert_append [OF assms(1,3) r(1) this r(2)] show ?thesis .
qed

lemma entries_of_all: "\<forall>e \<in> set es. ChainID e = c \<Longrightarrow> entries_of d es = (if d = c then es else [])"
  by (induction es) auto

lemma write_appends:
  assumes wf: "wf_mem s" and c: "c \<noteq> []" and ids: "\<forall>e \<in> set es. ChainID e = c \<and> EntryID e \<noteq> []"
    and app: "room (rows s c) (length es)"
      "continues (last_seq (rows s c) + 1) (last_hash (rows s c)) es"
  shows "WriteBatch False es s = (None, upsertLocked es s)" and "wf_mem (upsertLocked es s)"
    and "rows (upsertLocked es s) = (rows s)(c := rows s c @ es)"
    and "m_leases (upsertLocked es s) = m_leases s"
proof -
  have of_c: "entries_of d es = (if d = c then es else [])" for d
    using ids by (intro entries_of_all) blast
  show "WriteBatch False es s = (None, upsertLocked es s)"
    using c ids by (auto simp: WriteBatch_def check_ids_None split: option.splits)
  show "rows (upsertLocked es s) = (rows s)(c := rows s c @ es)"
  proof
    fix d
    show "rows (upsertLocked es s) d = ((rows s)(c := rows s c @ es)) d"
      using upsert_appends [OF wf, of c es] rows_upsert_other [OF wf, of d es] of_c app by simp
  qed
  show "m_leases (upsertLocked es s) = m_leases s" by (simp add: upsertLocked_eq)
qed (rule wf_mem_upsert [OF wf])

interpretation memory: store_port "mem_ops rand" wf_mem rows m_leases "\<lambda>_. True" "\<lambda>_. True"
proof
  fix s c r
  assume "wf_mem s" and "op_read_tail (mem_ops rand) False c s = r"
  then show "(r = Inl ErrEmptyChain \<longrightarrow> rows s c = []) \<and>
      (\<forall>h n. r = Inr (h, n) \<longrightarrow> rows s c \<noteq> [] \<and> h = last_hash (rows s c) \<and> n = last_seq (rows s c))"
    by (auto simp: mem_ops_def ReadTail_def last_hash_def last_seq_def Let_def split: if_splits)
next
  fix s s' :: mem and c es w
  assume "wf_mem s" and "c \<noteq> []" and "\<forall>e \<in> set es. ChainID e = c \<and> EntryID e \<noteq> [] \<and> True"
    and "room (rows s c) (length es)" "continues (last_seq (rows s c) + 1) (last_hash (rows s c)) es"
    and "op_write_batch (mem_ops rand) False es s = (w, s')"
  then show "wf_mem s' \<and> m_leases s' = m_leases s \<and>
      rows s' = (if w = None then (rows s)(c := rows s c @ es) else rows s)"
    using write_appends [of s c es] by (auto simp: mem_ops_def)
qed (auto simp: mem_ops_def ReadTail_def WriteBatch_def PutState_def Acquire_def Release_def Let_def
       split: if_splits option.splits)

lemma memory_release: "m_leases s c = Some t \<Longrightarrow> fst (op_release (mem_ops rand) False c t s) = None"
  by (simp add: mem_ops_def Release_def)

lemma range_loop_eq:
  "limit \<le> 0 \<or> got < limit \<Longrightarrow> range_loop a b limit got es =
     (let xs = filter (\<lambda>e. a \<le> GlobalSeq e \<and> GlobalSeq e \<le> b) es
      in if 0 < limit then take (nat (limit - got)) xs else xs)"
proof (induction es arbitrary: got)
  case (Cons e es)
  show ?case
  proof (cases "0 < limit \<and> got + 1 = limit")
    case True
    then have "limit - got = 1" by linarith
    then have "nat (limit - got) = Suc 0" by simp
    with True show ?thesis using Cons by (auto simp: Let_def)
  next
    case False
    then have "0 < limit \<Longrightarrow> nat (limit - got) = Suc (nat (limit - (got + 1)))" using Cons.prems by auto
    with False show ?thesis using Cons.IH [of got] Cons.IH [of "got + 1"] Cons.prems
      by (auto simp: Let_def)
  qed
qed simp

lemma check_names_distinct: "check_names i ids named = None \<Longrightarrow> distinct ids \<and> set ids \<inter> named = {}"
  by (induction i ids named rule: check_names.induct) (auto split: if_splits)

lemma check_leases_None: "check_leases s ids = None \<longleftrightarrow> (\<forall>c \<in> set ids. m_leases s c = None)"
  by (induction ids) auto

lemma check_both_ids_None:
  "check_both_ids i es = None \<longleftrightarrow> (\<forall>e \<in> set es. ChainID e \<noteq> [] \<and> EntryID e \<noteq> [])"
  by (induction i es rule: check_both_ids.induct) auto

lemma tail_row_simps [simp]:
  "t_ChainID (read_tail_row s c) = c"
  "c_prev (tail_cursor (read_tail_row s c)) = last_hash (rows s c)"
  "c_next (tail_cursor (read_tail_row s c)) = wrap64 (last_seq (rows s c) + 1)"
  by (auto simp: read_tail_row_def tail_cursor_def last_hash_def last_seq_def Let_def)

lemma m_state_put_states:
  "m_state (put_states sts s) c =
     (case List.find (\<lambda>st. st_ChainID st = c) (rev sts) of None \<Rightarrow> m_state s c | Some st \<Rightarrow> Some st)"
proof -
  have "foldl (\<lambda>m st. m(st_ChainID st \<mapsto> st)) f sts c =
     (case List.find (\<lambda>st. st_ChainID st = c) (rev sts) of None \<Rightarrow> f c | Some st \<Rightarrow> Some st)" for f
    by (induction sts rule: rev_induct) auto
  then show ?thesis by (simp add: put_states_def)
qed

lemma UpdateChains_append:
  assumes "wf_mem s" and "UpdateChains done ids fn s = (r, s')"
  shows "(r \<noteq> None \<longrightarrow> s' = s) \<and>
    (r = None \<longrightarrow> (\<exists>f es sts. fn = Some f \<and> f (map (read_tail_row s) ids) = Inr (es, sts) \<and>
       distinct ids \<and> (\<forall>c \<in> set ids. m_leases s c = None) \<and> m_leases s' = m_leases s \<and>
       append_ok (map (read_tail_row s) ids) es sts \<and>
       (\<forall>c. room (rows s c) (length (entries_of c es)) \<longrightarrow> rows s' c = rows s c @ entries_of c es)))"
  using assms(2)
proof (cases rule: UpdateChains_cases)
  case (refused err)
  then show ?thesis by simp
next
  case (written f es sts)
  have d: "distinct (map t_ChainID (map (read_tail_row s) ids))"
    using check_names_distinct [OF written(6)] by (simp add: comp_def)
  then have ok: "append_ok (map (read_tail_row s) ids) es sts" using written(9) CheckAppend_iff by blast
  have "rows s' c = rows s c @ entries_of c es" if room: "room (rows s c) (length (entries_of c es))" for c
  proof (cases "entries_of c es = []")
    case True
    then show ?thesis
      using rows_upsert_other [OF assms(1) True] written(10)
      by (simp add: put_states_def)
  next
    case False
    then have "c \<in> set ids" using ok by (fastforce simp: append_ok_def entries_of_def filter_empty_conv)
    then have "continues (wrap64 (last_seq (rows s c) + 1)) (last_hash (rows s c)) (entries_of c es)"
      using ok by (auto simp: append_ok_def)
    moreover have "int64 (last_seq (rows s c) + 1)"
      using room_rows(1) [OF assms(1) room] False by simp
    ultimately show ?thesis
      using upsert_appends [OF assms(1) room] written(10)
      by (simp add: put_states_def)
  qed
  then show ?thesis using written ok d
    by (auto simp: check_leases_None put_states_def upsertLocked_eq distinct_map comp_def)
qed

subsection \<open>Properties\<close>

text \<open>The rule for appends is the per-chain rule: scanning the interleaved entries of several
  chains once accepts exactly when every entry and state is for a named chain, the entries of
  each chain alone continue its tail position by position and hash by hash, and every state
  names the last entry its chain received.\<close>

theorem check_append_per_chain:
  assumes "distinct (map t_ChainID tails)"
  shows "CheckAppend tails es sts = None \<longleftrightarrow> append_ok tails es sts"
  using assms by (rule CheckAppend_iff)

text \<open>In every reachable state of the store, \<open>WriteBatch\<close> either refuses and changes nothing
  (exactly when the context is done or an id is empty) or has the effect of a map update at
  (chain, position) for each entry in order, and touches neither head records nor leases. The
  upsert, the slices and the sorting are invisible.\<close>

theorem write_batch_refines:
  assumes "mem_step\<^sup>*\<^sup>* New s" and "WriteBatch done es s = (r, s')"
  shows "(r \<noteq> None \<longrightarrow> s' = s) \<and>
    (r = None \<longleftrightarrow> \<not> done \<and> (\<forall>e \<in> set es. ChainID e \<noteq> [] \<and> EntryID e \<noteq> [])) \<and>
    (r = None \<longrightarrow> contents s' = put_all es (contents s) \<and> m_state s' = m_state s \<and> m_leases s' = m_leases s)"
  using assms(2) contents_upsert [OF wf_mem_reachable [OF assms(1)], of es] check_ids_None [of 0 es]
  by (auto simp: WriteBatch_def upsertLocked_eq split: if_splits option.splits)

text \<open>In every reachable state a range query answers, in strictly ascending order of position,
  exactly the stored rows of the chain in the range, cut at the limit when it is positive; and
  every row it answers is of that chain.\<close>

theorem range_ascending:
  assumes "mem_step\<^sup>*\<^sup>* New s"
  shows "\<exists>out. Range False c a b limit s = Inr out \<and>
    sorted_wrt (<) (map GlobalSeq out) \<and> list_all (\<lambda>e. ChainID e = c) out \<and>
    out = (let xs = filter (\<lambda>e. a \<le> GlobalSeq e \<and> GlobalSeq e \<le> b) (rows s c)
           in if 0 < limit then take (nat limit) xs else xs)"
proof -
  let ?xs = "filter (\<lambda>e. a \<le> GlobalSeq e \<and> GlobalSeq e \<le> b) (rows s c)"
  have wf: "sorted_wrt (<) (map GlobalSeq (rows s c))" "list_all (\<lambda>e. ChainID e = c) (rows s c)"
    using wf_mem_rows [OF wf_mem_reachable [OF assms]] by (simp_all add: wf_rows_def)
  then have "sorted_wrt (<) (map GlobalSeq ?xs)" by (simp add: sorted_wrt_map sorted_wrt_filter)
  then have "sorted_wrt (<) (map GlobalSeq (take n ?xs))" for n
    unfolding take_map [symmetric] by (rule sorted_wrt_take)
  moreover have "list_all (\<lambda>e. ChainID e = c) (take n ?xs)" for n
    using wf(2) by (auto simp: list_all_iff dest: in_set_takeD)
  moreover note \<open>sorted_wrt (<) (map GlobalSeq ?xs)\<close> wf(2)
  moreover have "list_all (\<lambda>e. ChainID e = c) ?xs" using wf(2) by (simp add: list_all_iff)
  ultimately show ?thesis using range_loop_eq [of limit 0 a b "rows s c"]
    by (auto simp: Range_def Let_def)
qed

text \<open>C13. \<open>UpdateChains\<close> is atomic and only appends. On any error the state is unchanged. When it
  succeeds, no named chain was leased, the callback's entries are an append for the tails it
  was given, leases are untouched, and every chain with room for its new positions is its old
  rows followed by its new entries in their order; chains that got no entry are unchanged.\<close>

theorem update_chains_atomic_append:
  assumes "mem_step\<^sup>*\<^sup>* New s" and "UpdateChains done ids fn s = (r, s')"
  shows "(r \<noteq> None \<longrightarrow> s' = s) \<and>
    (r = None \<longrightarrow> (\<exists>f es sts. fn = Some f \<and> f (map (read_tail_row s) ids) = Inr (es, sts) \<and>
       distinct ids \<and> (\<forall>c \<in> set ids. m_leases s c = None) \<and> m_leases s' = m_leases s \<and>
       append_ok (map (read_tail_row s) ids) es sts \<and>
       (\<forall>c. room (rows s c) (length (entries_of c es)) \<longrightarrow> rows s' c = rows s c @ entries_of c es)))"
  using UpdateChains_append [OF wf_mem_reachable [OF assms(1)] assms(2)] .

definition first_row :: entry where
  "first_row = \<lparr>ChainID = ''c'', EntryID = ''e'', EntryType = ''event'', FormatVersion = 3, GlobalSeq = 0, RunID = [],
     SequenceNum = 0, Timestamp = epoch, ContentHash = ''ab'', PreviousHash = [], ChainHash = ''cd''\<rparr>"

theorem update_chains_atomic_append_witness:
  "\<exists>s'. UpdateChains False [''c''] (Some (\<lambda>_. Inr ([first_row], []))) New = (None :: unit update_error option, s') \<and>
     rows s' ''c'' = [first_row] \<and> rows s' ''d'' = [] \<and> m_leases s' = m_leases New"
proof -
  let ?s = "put_states [] (upsertLocked [first_row] New)"
  have u: "UpdateChains False [''c''] (Some (\<lambda>_. Inr ([first_row], []))) New = (None :: unit update_error option, ?s)"
    by (simp add: UpdateChains_def New_def CheckAppend_def first_row_def read_tail_row_def tail_cursors_def tail_cursor_def rows_def)
  have "rows New c = []" for c by (simp add: rows_def New_def)
  moreover from this have "room (rows New c) (length (entries_of c [first_row]))" for c
    by (simp add: room_def last_seq_def entries_of_def int64_def)
  ultimately have "rows ?s c = entries_of c [first_row]" "m_leases ?s = m_leases New" for c
    using update_chains_atomic_append [OF rtranclp.rtrancl_refl u] by auto
  then show ?thesis using u by (simp add: first_row_def)
qed

text \<open>A lease excludes every other appender until its own token is released: while it is
  held, \<open>Acquire\<close> answers that it is taken, \<open>UpdateChains\<close> on a list with the chain refuses, a
  release with another token refuses, none of them changes the state, and no method call ends
  the lease except \<open>Release\<close> with the token.\<close>

theorem lease_exclusive:
  assumes "m_leases s c = Some token"
  shows "Acquire rand False c s = (Inr None, s)
    \<and> (c \<in> set ids \<longrightarrow> snd (UpdateChains done ids fn s) = s \<and> fst (UpdateChains done ids fn s) \<noteq> None)
    \<and> (other \<noteq> token \<longrightarrow> Release False c other s = (Some LeaseMismatch, s))
    \<and> (mem_step s s' \<longrightarrow> m_leases s' c = Some token \<or> Release False c token s = (None, s'))"
proof (intro conjI impI)
  show "Acquire rand False c s = (Inr None, s)" using assms by (simp add: Acquire_def)
next
  assume c: "c \<in> set ids"
  obtain r t where u: "UpdateChains done ids fn s = (r, t)" by force
  from u have "t = s \<and> r \<noteq> None"
  proof (cases rule: UpdateChains_cases)
    case (written f es sts)
    then show ?thesis using assms c by (auto simp: check_leases_None)
  qed simp
  with u show "snd (UpdateChains done ids fn s) = s" "fst (UpdateChains done ids fn s) \<noteq> None"
    by simp_all
next
  assume "other \<noteq> token"
  then show "Release False c other s = (Some LeaseMismatch, s)" using assms by (simp add: Release_def)
next
  assume "mem_step s s'"
  then show "m_leases s' c = Some token \<or> Release False c token s = (None, s')"
    using assms
  proof (cases rule: mem_step.cases)
    case (update_chains "done" ids fn u)
    then show ?thesis
      by (cases rule: UpdateChains_cases) (auto simp: put_states_def upsertLocked_eq assms)
  qed (auto simp: WriteBatch_def PutState_def Acquire_def Release_def Let_def upsertLocked_eq
      split: if_splits option.splits)
qed

end
