(* ===== verification/Linker.thy ===== *)
theory Linker
  imports Mem_Store "HOL-Library.Product_Lexorder" "HOL-Library.Multiset"
begin

section \<open>Appending to a chain: package \<open>linker\<close>\<close>

text \<open>
  A batch is checked to have a total order, sorted into it, and linked onto the tail of the
  chain under a lease (\<open>order.go\<close>, \<open>linker.go\<close>), or onto the tails of several chains in one
  transaction of the store (\<open>append_chains.go\<close>). The linker works over any store: its state is
  a type parameter and its method table a record, and what it needs of the store is the locale
  \<open>store_port\<close>.

  A context may be done at any moment, so it is the sequence of answers it gives each time it is
  asked. The clock and the run-id source are functions of the call's number for the same reason.
\<close>

record input =
  i_EntryID :: string
  i_EntryType :: string
  i_Timestamp :: gotime
  i_ContentHash :: string
  IngestedAt :: gotime
  ExpectChainHash :: string

record link_result =
  r_RunID :: string
  Appended :: nat
  FirstSeq :: int
  LastSeq :: int
  r_HeadHash :: string

datatype ordering_error =
    OrdEmptyID nat | OrdInvalidUTF8 nat | OrdTimestamp string chain_error
  | OrdZeroIngested string | OrdReserved string | OrdDuplicate string

datatype linker_error =
    NilStore | LinkContextDone | EmptyChainName | EmptyBatch | BadOrdering ordering_error
  | RunIDFailed | AcquireFailed store_error | ErrChainBusy | ReadTailFailed store_error
  | HashRefused string nat chain_error | ErrUnexpectedChainHash nat | WriteFailed store_error
  | ErrHeadStateStale link_result store_error
  | NoChainsUpdater | NoBatches | BatchEmptyChain nat | BatchChainTwice nat string
  | BatchEmpty nat string | BatchOrdering nat string ordering_error
  | TailCount nat nat | TailMismatch string string | BatchLink nat linker_error
  | UpdateRefused store_error

record 's linker =
  l_store :: "'s store_ops"
  l_now :: "nat \<Rightarrow> gotime"
  l_runID :: "nat \<Rightarrow> string option"
  l_format :: int

text \<open>\<open>newRunID\<close>: the hex of the 16 bytes \<open>rand.Read\<close> returns, or its error.\<close>

definition newRunID :: "bytes option \<Rightarrow> string option" where
  "newRunID rand = map_option hex_encode rand"

definition WithClock :: "(nat \<Rightarrow> gotime) \<Rightarrow> 's linker \<Rightarrow> 's linker" where
  "WithClock now l = l\<lparr>l_now := now\<rparr>"

definition WithRunIDFunc :: "(nat \<Rightarrow> string option) \<Rightarrow> 's linker \<Rightarrow> 's linker" where
  "WithRunIDFunc f l = l\<lparr>l_runID := f\<rparr>"

definition WithFormatV2 :: "'s linker \<Rightarrow> 's linker" where
  "WithFormatV2 l = l\<lparr>l_format := FormatV2\<rparr>"

definition New_linker ::
  "(nat \<Rightarrow> gotime) \<Rightarrow> (nat \<Rightarrow> bytes option) \<Rightarrow> 's store_ops option \<Rightarrow> ('s linker \<Rightarrow> 's linker) list \<Rightarrow>
     linker_error + 's linker" where
  "New_linker clock rand s opts =
     (case s of
        None \<Rightarrow> Inl NilStore
      | Some sto \<Rightarrow>
          Inr (foldl (\<lambda>l opt. opt l)
            \<lparr>l_store = sto, l_now = clock, l_runID = (\<lambda>i. newRunID (rand i)), l_format = FormatV3\<rparr> opts))"

subsection \<open>The order of a batch\<close>

fun order_loop :: "nat \<Rightarrow> string set \<Rightarrow> input list \<Rightarrow> string \<times> ordering_error option" where
  "order_loop i seen [] = ([], None)"
| "order_loop i seen (x # xs) =
     (if i_EntryID x = [] then ([], Some (OrdEmptyID i))
      else if \<not> utf8_valid (i_EntryID x) then ([], Some (OrdInvalidUTF8 i))
      else case ValidateTimestamp (i_Timestamp x) of
             Some e \<Rightarrow> (i_EntryID x, Some (OrdTimestamp (i_EntryID x) e))
           | None \<Rightarrow>
      if is_zero_time (IngestedAt x) then (i_EntryID x, Some (OrdZeroIngested (i_EntryID x)))
      else if i_EntryType x = TombstoneEntryType \<or> has_prefix TombstoneEntryIDPrefix (i_EntryID x)
              \<or> IsTombstoneContentHash (i_ContentHash x)
           then (i_EntryID x, Some (OrdReserved (i_EntryID x)))
      else if i_EntryID x \<in> seen then (i_EntryID x, Some (OrdDuplicate (i_EntryID x)))
      else order_loop (Suc i) (insert (i_EntryID x) seen) xs)"

definition validateBatchOrdering :: "input list \<Rightarrow> string \<times> ordering_error option" where
  "validateBatchOrdering inputs = order_loop 0 {} inputs"

text \<open>The comparison of \<open>sortInputs\<close>. The ids of a valid batch are distinct, so every sort by it
  gives the same list; insertion is used.\<close>

definition input_less :: "input \<Rightarrow> input \<Rightarrow> bool" where
  "input_less a b =
     (if time_equal (IngestedAt a) (IngestedAt b) then i_EntryID a < i_EntryID b
      else time_before (IngestedAt a) (IngestedAt b))"

fun insert_input :: "input \<Rightarrow> input list \<Rightarrow> input list" where
  "insert_input x [] = [x]"
| "insert_input x (y # ys) = (if input_less y x then y # insert_input x ys else x # y # ys)"

definition sortInputs :: "input list \<Rightarrow> input list" where
  "sortInputs xs = foldr insert_input xs []"

subsection \<open>Linking\<close>

definition entry_hash ::
  "int \<Rightarrow> string \<Rightarrow> string \<Rightarrow> int \<Rightarrow> int \<Rightarrow> gotime \<Rightarrow> string \<Rightarrow> chain_error + string" where
  "entry_hash format prev runID seqNum globalSeq ts content =
     (if format = FormatV2 then ComputeChainHash prev runID seqNum ts content
      else ComputeChainHashV3 prev globalSeq ts content)"

text \<open>The row written for an input: only format v2 has a run id and a sequence number.\<close>

definition entry_for :: "int \<Rightarrow> string \<Rightarrow> string \<Rightarrow> int \<Rightarrow> nat \<Rightarrow> string \<Rightarrow> string \<Rightarrow> input \<Rightarrow> entry" where
  "entry_for format c runID globalSeq i prev h b =
     \<lparr>ChainID = c, EntryID = i_EntryID b, EntryType = i_EntryType b, FormatVersion = format,
      GlobalSeq = globalSeq, RunID = (if format = FormatV2 then runID else []),
      SequenceNum = (if format = FormatV2 then int i else 0), Timestamp = i_Timestamp b,
      ContentHash = i_ContentHash b, PreviousHash = prev, ChainHash = h\<rparr>"

lemma entry_for_fields [simp]:
  "ChainID (entry_for format c runID n i prev h b) = c"
  "EntryID (entry_for format c runID n i prev h b) = i_EntryID b"
  "FormatVersion (entry_for format c runID n i prev h b) = format"
  "GlobalSeq (entry_for format c runID n i prev h b) = n"
  "Timestamp (entry_for format c runID n i prev h b) = i_Timestamp b"
  "ContentHash (entry_for format c runID n i prev h b) = i_ContentHash b"
  "PreviousHash (entry_for format c runID n i prev h b) = prev"
  "ChainHash (entry_for format c runID n i prev h b) = h"
  by (simp_all add: entry_for_def)

fun link_loop ::
  "int \<Rightarrow> string \<Rightarrow> int \<Rightarrow> string \<Rightarrow> nat \<Rightarrow> string \<Rightarrow> input list \<Rightarrow> linker_error + entry list" where
  "link_loop format chainID nextGlobalSeq runID i previousHash [] = Inr []"
| "link_loop format chainID nextGlobalSeq runID i previousHash (b # bs) =
     (let seqNum = int i;
          globalSeq = wrap64 (nextGlobalSeq + seqNum)
      in case entry_hash format previousHash runID seqNum globalSeq (i_Timestamp b) (i_ContentHash b) of
           Inl err \<Rightarrow> Inl (HashRefused (i_EntryID b) i err)
         | Inr chainHash \<Rightarrow>
             if ExpectChainHash b \<noteq> [] \<and> ExpectChainHash b \<noteq> chainHash then Inl (ErrUnexpectedChainHash i)
             else
               let e = entry_for format chainID runID globalSeq i previousHash chainHash b
               in case link_loop format chainID nextGlobalSeq runID (Suc i) chainHash bs of
                    Inl err \<Rightarrow> Inl err
                  | Inr es \<Rightarrow> Inr (e # es))"

definition link ::
  "'s linker \<Rightarrow> string \<Rightarrow> string \<Rightarrow> int \<Rightarrow> string \<Rightarrow> input list \<Rightarrow> linker_error + entry list" where
  "link l chainID previousHash nextGlobalSeq runID batch =
     link_loop (l_format l) chainID nextGlobalSeq runID 0 previousHash batch"

definition continuation :: "'s linker \<Rightarrow> ctx \<Rightarrow> string \<Rightarrow> 's \<Rightarrow> linker_error + (string \<times> int)" where
  "continuation l done chainID s =
     (case op_read_tail (l_store l) done chainID s of
        Inl ErrEmptyChain \<Rightarrow> Inr ([], 0)
      | Inl err \<Rightarrow> Inl (ReadTailFailed err)
      | Inr (chainHash, globalSeq) \<Rightarrow> Inr (chainHash, wrap64 (globalSeq + 1)))"

definition result_of :: "string \<Rightarrow> entry list \<Rightarrow> link_result" where
  "result_of runID es =
     \<lparr>r_RunID = runID, Appended = length es, FirstSeq = GlobalSeq (hd es),
      LastSeq = GlobalSeq (last es), r_HeadHash = ChainHash (last es)\<rparr>"

definition head_state :: "gotime \<Rightarrow> string \<Rightarrow> entry list \<Rightarrow> chain_state" where
  "head_state at chainID es =
     \<lparr>st_ChainID = chainID, HeadSeq = GlobalSeq (last es), HeadHash = ChainHash (last es), ComputedAt = at\<rparr>"

text \<open>What \<open>Append\<close> does between taking and releasing the lease. The answers of the context are
  counted: 0 at the start, 1 in \<open>Acquire\<close>, then one per store call.\<close>

definition append_leased ::
  "'s linker \<Rightarrow> (nat \<Rightarrow> ctx) \<Rightarrow> string \<Rightarrow> string \<Rightarrow> input list \<Rightarrow> 's \<Rightarrow> (linker_error + link_result) \<times> 's" where
  "append_leased l ctxs chainID runID batch s =
     (case continuation l (ctxs 2) chainID s of
        Inl err \<Rightarrow> (Inl err, s)
      | Inr (previousHash, nextGlobalSeq) \<Rightarrow>
     (case link l chainID previousHash nextGlobalSeq runID batch of
        Inl err \<Rightarrow> (Inl err, s)
      | Inr es \<Rightarrow>
     (case op_write_batch (l_store l) (ctxs 3) es s of
        (Some err, s') \<Rightarrow> (Inl (WriteFailed err), s')
      | (None, s') \<Rightarrow>
     (case op_put_state (l_store l) (ctxs 4) (Some (head_state (l_now l 0) chainID es)) s' of
        (Some err, s'') \<Rightarrow> (Inl (ErrHeadStateStale (result_of runID es) err), s'')
      | (None, s'') \<Rightarrow> (Inr (result_of runID es), s'')))))"

definition Append_linker ::
  "'s linker \<Rightarrow> (nat \<Rightarrow> ctx) \<Rightarrow> string \<Rightarrow> input list \<Rightarrow> 's \<Rightarrow> (linker_error + link_result) \<times> 's" where
  "Append_linker l ctxs chainID inputs s =
     (if ctxs 0 then (Inl LinkContextDone, s)
      else if chainID = [] then (Inl EmptyChainName, s)
      else if inputs = [] then (Inl EmptyBatch, s)
      else case validateBatchOrdering inputs of
        (_, Some err) \<Rightarrow> (Inl (BadOrdering err), s)
      | (_, None) \<Rightarrow>
        let batch = sortInputs inputs
        in case (if l_format l = FormatV2 then l_runID l 0 else Some []) of
             None \<Rightarrow> (Inl RunIDFailed, s)
           | Some runID \<Rightarrow>
        (case op_acquire (l_store l) (ctxs 1) chainID s of
           (Inl err, s') \<Rightarrow> (Inl (AcquireFailed err), s')
         | (Inr None, s') \<Rightarrow> (Inl ErrChainBusy, s')
         | (Inr (Some token), s') \<Rightarrow>
             (case append_leased l ctxs chainID runID batch s' of
                (res, s'') \<Rightarrow> (res, snd (op_release (l_store l) False chainID token s'')))))"

subsection \<open>Appending to several chains\<close>

text \<open>An updater of the store, as the code sees it: the callback is called at most once, and the
  results it leaves in captured variables are a function of the tails it is given, which is why
  the updater also answers the tails it read.\<close>

type_synonym 's updater =
  "ctx \<Rightarrow> string list \<Rightarrow> (tail list \<Rightarrow> linker_error + (entry list \<times> chain_state list)) option \<Rightarrow> 's \<Rightarrow>
     linker_error update_error option \<times> tail list \<times> 's"

definition mem_updater :: "mem updater" where
  "mem_updater done ids fn s =
     (case UpdateChains done ids fn s of (r, s') \<Rightarrow> (r, map (read_tail_row s) ids, s'))"

record chain_inputs =
  ci_ChainID :: string
  Inputs :: "input list"

text \<open>The checks of the batches, in order; each accepted batch becomes its chain, its sorted
  inputs and its run id.\<close>

fun prepare_batches ::
  "'s linker \<Rightarrow> nat \<Rightarrow> string set \<Rightarrow> chain_inputs list \<Rightarrow>
     linker_error + (string \<times> input list \<times> string) list" where
  "prepare_batches l b seen [] = Inr []"
| "prepare_batches l b seen (x # xs) =
     (if ci_ChainID x = [] then Inl (BatchEmptyChain b)
      else if ci_ChainID x \<in> seen then Inl (BatchChainTwice b (ci_ChainID x))
      else if Inputs x = [] then Inl (BatchEmpty b (ci_ChainID x))
      else case validateBatchOrdering (Inputs x) of
             (_, Some err) \<Rightarrow> Inl (BatchOrdering b (ci_ChainID x) err)
           | (_, None) \<Rightarrow>
      (case (if l_format l = FormatV2 then l_runID l b else Some []) of
         None \<Rightarrow> Inl RunIDFailed
       | Some runID \<Rightarrow>
           (case prepare_batches l (Suc b) (insert (ci_ChainID x) seen) xs of
              Inl err \<Rightarrow> Inl err
            | Inr ps \<Rightarrow> Inr ((ci_ChainID x, sortInputs (Inputs x), runID) # ps))))"

text \<open>The callback's loop over the batches and their tails: entries, head records, results.\<close>

fun link_batches ::
  "'s linker \<Rightarrow> nat \<Rightarrow> (string \<times> input list \<times> string) list \<Rightarrow> tail list \<Rightarrow>
     linker_error + (entry list \<times> chain_state list \<times> link_result list)" where
  "link_batches l b ((c, batch, runID) # ps) (t # ts) =
     (if t_ChainID t \<noteq> c then Inl (TailMismatch (t_ChainID t) c)
      else
        let prev = (if t_Empty t then [] else t_Hash t);
            next = (if t_Empty t then 0 else wrap64 (t_GlobalSeq t + 1))
        in case link l c prev next runID batch of
             Inl err \<Rightarrow> Inl (BatchLink b err)
           | Inr es \<Rightarrow>
               (case link_batches l (Suc b) ps ts of
                  Inl err \<Rightarrow> Inl err
                | Inr (es', sts, rs) \<Rightarrow>
                    Inr (es @ es', head_state (l_now l b) c es # sts, result_of runID es # rs)))"
| "link_batches l b _ _ = Inr ([], [], [])"

definition append_callback ::
  "'s linker \<Rightarrow> (string \<times> input list \<times> string) list \<Rightarrow> tail list \<Rightarrow>
     linker_error + (entry list \<times> chain_state list \<times> link_result list)" where
  "append_callback l ps tails =
     (if length tails \<noteq> length ps then Inl (TailCount (length tails) (length ps))
      else link_batches l 0 ps tails)"

definition AppendChains ::
  "'s linker \<Rightarrow> 's updater option \<Rightarrow> (nat \<Rightarrow> ctx) \<Rightarrow> chain_inputs list \<Rightarrow> 's \<Rightarrow>
     (linker_error + link_result list) \<times> 's" where
  "AppendChains l upd ctxs batches s =
     (if ctxs 0 then (Inl LinkContextDone, s)
      else case upd of
        None \<Rightarrow> (Inl NoChainsUpdater, s)
      | Some u \<Rightarrow>
        if batches = [] then (Inl NoBatches, s)
        else case prepare_batches l 0 {} batches of
          Inl err \<Rightarrow> (Inl err, s)
        | Inr ps \<Rightarrow>
          (case u (ctxs 1) (map fst ps)
                  (Some (\<lambda>tails. map_sum id (\<lambda>(es, sts, rs). (es, sts)) (append_callback l ps tails))) s of
             (r, tails, s') \<Rightarrow>
               (case r of
                  Some (StoreErr (ErrChainLeased c)) \<Rightarrow> (Inl ErrChainBusy, s')
                | Some (StoreErr err) \<Rightarrow> (Inl (UpdateRefused err), s')
                | Some (CallbackErr err) \<Rightarrow> (Inl err, s')
                | None \<Rightarrow>
                    (case append_callback l ps tails of
                       Inr (es, sts, rs) \<Rightarrow> (Inr rs, s')
                     | Inl err \<Rightarrow> (Inl err, s')))))"

subsection \<open>What a valid batch is, and its order\<close>

definition input_ok :: "input \<Rightarrow> bool" where
  "input_ok x \<longleftrightarrow> i_EntryID x \<noteq> [] \<and> utf8_valid (i_EntryID x) \<and> ValidateTimestamp (i_Timestamp x) = None \<and>
     \<not> is_zero_time (IngestedAt x) \<and> i_EntryType x \<noteq> TombstoneEntryType \<and>
     \<not> has_prefix TombstoneEntryIDPrefix (i_EntryID x) \<and> \<not> IsTombstoneContentHash (i_ContentHash x)"

definition batch_ok :: "input list \<Rightarrow> bool" where
  "batch_ok xs \<longleftrightarrow> list_all input_ok xs \<and> distinct (map i_EntryID xs)"

lemma order_loop_None:
  "snd (order_loop i seen xs) = None \<longleftrightarrow>
     list_all input_ok xs \<and> distinct (map i_EntryID xs) \<and> i_EntryID ` set xs \<inter> seen = {}"
  by (induction i seen xs rule: order_loop.induct) (auto simp: input_ok_def split: option.splits)

lemma order_loop_fst: "snd (order_loop i seen xs) = None \<Longrightarrow> order_loop i seen xs = ([], None)"
  by (induction i seen xs rule: order_loop.induct) (auto split: if_splits option.splits)

lemma validateBatchOrdering_None: "snd (validateBatchOrdering xs) = None \<longleftrightarrow> batch_ok xs"
  by (simp add: validateBatchOrdering_def order_loop_None batch_ok_def)

lemma validateBatchOrdering_ok: "batch_ok xs \<Longrightarrow> validateBatchOrdering xs = ([], None)"
  using validateBatchOrdering_None [of xs] order_loop_fst [of 0 "{}" xs]
  by (simp add: validateBatchOrdering_def)

definition input_key :: "input \<Rightarrow> int \<times> nat \<times> string" where
  "input_key x = (unix_sec (IngestedAt x), nsec (IngestedAt x), i_EntryID x)"

lemma input_less_key: "input_less a b \<longleftrightarrow> input_key a < input_key b"
  by (auto simp: input_less_def input_key_def time_equal_def time_before_def less_prod_def less_prod_def')

lemma insert_input_key: "insert_input x ys = insort_key input_key x ys"
  by (induction ys) (auto simp: input_less_key)

lemma sortInputs_key: "sortInputs xs = sort_key input_key xs"
proof -
  have "insert_input = insort_key input_key" by (intro ext insert_input_key)
  then show ?thesis by (simp add: sortInputs_def sort_key_def)
qed

lemma sortInputs_facts [simp]:
  "mset (sortInputs xs) = mset xs" "set (sortInputs xs) = set xs" "length (sortInputs xs) = length xs"
  by (simp_all add: sortInputs_key)

lemma sortInputs_perm:
  assumes "distinct (map i_EntryID xs)" "mset ys = mset xs"
  shows "sortInputs ys = sortInputs xs"
proof -
  have "set ys = set xs" using assms(2) by (metis set_mset_mset)
  moreover have "inj_on input_key (set xs)"
    using assms(1) by (auto simp: distinct_map inj_on_def input_key_def)
  ultimately show ?thesis unfolding sortInputs_key using assms(2)
    by (intro sort_key_inj_key_eq) auto
qed

lemma batch_ok_perm: "mset ys = mset xs \<Longrightarrow> batch_ok ys = batch_ok xs"
proof -
  assume "mset ys = mset xs"
  then have "set ys = set xs" "mset (map i_EntryID ys) = mset (map i_EntryID xs)"
    by (simp_all flip: set_mset_mset)
  then show ?thesis by (simp add: batch_ok_def list_all_iff distinct_count_atmost_1 flip: count_mset)
qed

subsection \<open>What linking produces\<close>

text \<open>\<open>linked\<close>: the entries are the inputs' entries, each hashed over the one before.\<close>

fun linked :: "int \<Rightarrow> string \<Rightarrow> int \<Rightarrow> string \<Rightarrow> nat \<Rightarrow> string \<Rightarrow> input list \<Rightarrow> entry list \<Rightarrow> bool" where
  "linked format c next runID i prev [] es = (es = [])"
| "linked format c next runID i prev (b # bs) es =
     (case es of
        [] \<Rightarrow> False
      | e # es' \<Rightarrow>
          e = entry_for format c runID (wrap64 (next + int i)) i prev (ChainHash e) b \<and>
          entry_hash format prev runID (int i) (wrap64 (next + int i)) (i_Timestamp b) (i_ContentHash b)
            = Inr (ChainHash e) \<and>
          (ExpectChainHash b = [] \<or> ExpectChainHash b = ChainHash e) \<and>
          linked format c next runID (Suc i) (ChainHash e) bs es')"

lemma link_loop_linked:
  "link_loop format c next runID i prev bs = Inr es \<longleftrightarrow> linked format c next runID i prev bs es"
proof (induction bs arbitrary: i prev es)
  case Nil
  then show ?case by auto
next
  case (Cons b bs)
  show ?case
  proof (cases "entry_hash format prev runID (int i) (wrap64 (next + int i)) (i_Timestamp b) (i_ContentHash b)")
    case (Inl e)
    then show ?thesis by (auto simp: Let_def split: list.splits)
  next
    case (Inr h)
    show ?thesis
    proof (cases es)
      case Nil
      then show ?thesis using Inr by (auto simp: Let_def split: sum.splits)
    next
      case (Cons e es')
      have "link_loop format c next runID i prev (b # bs) = Inr es \<longleftrightarrow>
          (ExpectChainHash b = [] \<or> ExpectChainHash b = h) \<and>
          e = entry_for format c runID (wrap64 (next + int i)) i prev h b \<and>
          link_loop format c next runID (Suc i) h bs = Inr es'"
        using Inr Cons by (auto simp: Let_def split: sum.splits)
      then show ?thesis using Inr Cons Cons.IH by auto
    qed
  qed
qed

lemma linked_length: "linked format c next runID i prev bs es \<Longrightarrow> length es = length bs"
  by (induction format c "next" runID i prev bs es rule: linked.induct) (auto split: list.splits)

lemma linked_ids:
  "linked format c next runID i prev bs es \<Longrightarrow> map EntryID es = map i_EntryID bs \<and> (\<forall>e \<in> set es. ChainID e = c)"
proof (induction format c "next" runID i prev bs es rule: linked.induct)
  case (2 format c "next" runID i prev b bs es)
  then show ?case by (cases es) (auto, (metis entry_for_fields)+)
qed auto

lemma wrap64_add: "wrap64 (wrap64 x + y) = wrap64 (x + y)"
  by (simp add: wrap64_def mod_simps algebra_simps)

lemma linked_continues:
  "linked format c next runID i prev bs es \<Longrightarrow> continues (wrap64 (next + int i)) prev es"
proof (induction format c "next" runID i prev bs es rule: linked.induct)
  case (2 format c "next" runID i prev b bs es)
  then obtain e es' where es: "es = e # es'" by (cases es) auto
  with 2 have "continues (wrap64 (next + int (Suc i))) (ChainHash e) es'" by simp
  moreover have "wrap64 (next + int (Suc i)) = wrap64 (wrap64 (next + int i) + 1)"
    using wrap64_add [of "next + int i" 1] by (simp add: algebra_simps)
  moreover have "GlobalSeq e = wrap64 (next + int i) \<and> PreviousHash e = prev"
    using 2(2) es by simp (metis entry_for_fields)
  ultimately show ?case using es by simp
qed auto

subsection \<open>Appending over the port\<close>

text \<open>\<open>wrote r\<close>: the call wrote its entries, and the result it reports.\<close>

definition wrote :: "(linker_error + link_result) \<Rightarrow> link_result option" where
  "wrote r = (case r of Inr res \<Rightarrow> Some res | Inl (ErrHeadStateStale res _) \<Rightarrow> Some res | Inl _ \<Rightarrow> None)"

lemma link_loop_wrote: "link_loop format c n runID i prev bs = Inl e \<Longrightarrow> wrote (Inl e) = None"
proof (induction bs arbitrary: i prev)
  case (Cons b bs)
  then show ?case
    by (auto simp: Let_def split: sum.splits if_splits) (auto simp: wrote_def)
qed simp

context store_port begin

lemma continuation_Inr:
  assumes "valid s" "named c" "l_store l = ops" "continuation l done c s = Inr (prev, n)"
  shows "prev = last_hash (chain_rows s c) \<and> n = wrap64 (last_seq (chain_rows s c) + 1)"
proof (cases "done")
  case True
  then show ?thesis using assms read_tail_done by (simp add: continuation_def)
next
  case False
  then show ?thesis using assms(3,4) read_tail [OF assms(1,2) refl]
    by (auto simp: continuation_def last_hash_def last_seq_def
        split: if_splits sum.splits store_error.splits)
qed

lemma append_leased_cases:
  assumes v: "valid s" and nm: "named c" and l: "l_store l = ops" and c: "c \<noteq> []"
    and ok: "batch_ok batch" "batch \<noteq> []" and room: "room (chain_rows s c) (length batch)"
    and st: "\<And>es. link l c (last_hash (chain_rows s c)) (last_seq (chain_rows s c) + 1) runID batch = Inr es \<Longrightarrow>
      \<forall>e \<in> set es. storable e"
    and run: "append_leased l ctxs c runID batch s = (r, s')"
  shows "valid s' \<and> lease_of s' = lease_of s \<and>
    (case wrote r of
       None \<Rightarrow> chain_rows s' = chain_rows s
     | Some res \<Rightarrow> \<exists>es. link l c (last_hash (chain_rows s c)) (last_seq (chain_rows s c) + 1) runID batch = Inr es
         \<and> chain_rows s' = (chain_rows s)(c := chain_rows s c @ es) \<and> res = result_of runID es)"
proof (cases "continuation l (ctxs 2) c s")
  case (Inl e)
  then have "r = Inl e" "s' = s" using run by (auto simp: append_leased_def)
  moreover have "wrote (Inl e) = None" using Inl
    by (auto simp: continuation_def wrote_def split: sum.splits store_error.splits prod.splits)
  ultimately show ?thesis using v by simp
next
  case (Inr pn)
  obtain prev n where pn: "pn = (prev, n)" by force
  have "1 \<le> length batch" using ok(2) by (cases batch) auto
  then have "int64 (last_seq (chain_rows s c) + 1)"
    using room unfolding room_def int64_def by linarith
  then have prev: "prev = last_hash (chain_rows s c)" "n = last_seq (chain_rows s c) + 1"
    using continuation_Inr [OF v nm l, of "ctxs 2" prev n] Inr pn by simp_all
  show ?thesis
  proof (cases "link l c prev n runID batch")
    case (Inl e)
    then have "r = Inl e" "s' = s" using run Inr pn by (auto simp: append_leased_def)
    moreover have "wrote (Inl e) = None"
      using Inl unfolding link_def by (rule link_loop_wrote)
    ultimately show ?thesis using v by simp
  next
    case (Inr es)
    note es = this
    then have li: "linked (l_format l) c n runID 0 prev batch es" by (simp add: link_def link_loop_linked)
    have ids: "\<forall>e \<in> set es. ChainID e = c \<and> EntryID e \<noteq> []"
    proof
      fix e assume "e \<in> set es"
      moreover from this have "EntryID e \<in> set (map i_EntryID batch)"
        using linked_ids [OF li] by (metis image_eqI list.set_map)
      ultimately show "ChainID e = c \<and> EntryID e \<noteq> []"
        using linked_ids [OF li] ok(1) by (auto simp: batch_ok_def list_all_iff input_ok_def)
    qed
    have "continues n prev es" using linked_continues [OF li] \<open>int64 _\<close> prev by simp
    then have cont: "continues (last_seq (chain_rows s c) + 1) (last_hash (chain_rows s c)) es" using prev by simp
    have row: "\<forall>e \<in> set es. ChainID e = c \<and> EntryID e \<noteq> [] \<and> storable e"
      using ids st es prev by blast
    show ?thesis
    proof (cases "ctxs 3")
      case True
      then show ?thesis using run \<open>continuation _ _ _ _ = _\<close> pn es l write_done v
        by (auto simp: append_leased_def wrote_def)
    next
      case False
      obtain w s1 where w: "op_write_batch ops False es s = (w, s1)" by force
      have "room (chain_rows s c) (length es)" using room linked_length [OF li] by simp
      from write_append [OF v nm c row this cont w]
      have s1: "valid s1" "lease_of s1 = lease_of s"
        "chain_rows s1 = (if w = None then (chain_rows s)(c := chain_rows s c @ es) else chain_rows s)" by blast+
      obtain pr s2 where p: "op_put_state ops (ctxs 4) (Some (head_state (l_now l 0) c es)) s1 = (pr, s2)"
        by force
      note put_state [OF s1(1) p]
      then show ?thesis using run \<open>continuation _ _ _ _ = _\<close> pn es l w s1 p False prev
        by (auto simp: append_leased_def wrote_def split: option.splits)
    qed
  qed
qed

text \<open>The lease stays behind only when the store refused its release.\<close>

lemma append_cases:
  assumes v: "valid s" and nm: "named c" and l: "l_store l = ops" and room: "room (chain_rows s c) (length inputs)"
    and st: "\<And>runID es. link l c (last_hash (chain_rows s c)) (last_seq (chain_rows s c) + 1) runID
      (sortInputs inputs) = Inr es \<Longrightarrow> \<forall>e \<in> set es. storable e"
    and run: "Append_linker l ctxs c inputs s = (r, s')"
  shows "valid s' \<and>
    (lease_of s' = lease_of s \<or>
       (\<exists>t s0 e. lease_of s0 = (lease_of s)(c := Some t) \<and> op_release ops False c t s0 = (Some e, s'))) \<and>
    (case wrote r of
       None \<Rightarrow> chain_rows s' = chain_rows s
     | Some res \<Rightarrow> \<exists>es. batch_ok inputs \<and> lease_of s c = None \<and>
         link l c (last_hash (chain_rows s c)) (last_seq (chain_rows s c) + 1) (r_RunID res) (sortInputs inputs) = Inr es
         \<and> chain_rows s' = (chain_rows s)(c := chain_rows s c @ es) \<and> res = result_of (r_RunID res) es)"
proof (cases "ctxs 0 \<or> c = [] \<or> inputs = [] \<or> \<not> batch_ok inputs")
  case True
  then have "s' = s" "wrote r = None" using run validateBatchOrdering_None [of inputs]
    by (auto simp: Append_linker_def wrote_def split: if_splits option.splits prod.splits)
  then show ?thesis using v by simp
next
  case False
  then have f: "ctxs 0 = False" "(c = []) = False" "(inputs = []) = False" "batch_ok inputs" by simp_all
  have run': "(case (if l_format l = FormatV2 then l_runID l 0 else Some []) of
             None \<Rightarrow> (Inl RunIDFailed, s)
           | Some runID \<Rightarrow>
        (case op_acquire ops (ctxs 1) c s of
           (Inl err, s') \<Rightarrow> (Inl (AcquireFailed err), s')
         | (Inr None, s') \<Rightarrow> (Inl ErrChainBusy, s')
         | (Inr (Some token), s') \<Rightarrow>
             (case append_leased l ctxs c runID (sortInputs inputs) s' of
                (res, s'') \<Rightarrow> (res, snd (op_release ops False c token s''))))) = (r, s')"
    using run by (simp only: Append_linker_def f(1-3) validateBatchOrdering_ok [OF f(4)] Let_def l
        if_False prod.case option.case)
  show ?thesis
  proof (cases "if l_format l = FormatV2 then l_runID l 0 else Some []")
    case None
    then show ?thesis using run' v by (auto simp: wrote_def)
  next
    case (Some runID)
    obtain a s1 where a: "op_acquire ops (ctxs 1) c s = (a, s1)" by force
    note acq = acquire [OF v a]
    show ?thesis
    proof (cases "\<exists>t. a = Inr (Some t)")
      case no: False
      then show ?thesis using run' Some a acq
        by (auto simp: wrote_def split: sum.splits option.splits)
    next
      case True
      then obtain t where t: "a = Inr (Some t)" ..
      obtain ar s2 where ar: "append_leased l ctxs c runID (sortInputs inputs) s1 = (ar, s2)" by force
      have s1: "valid s1" "chain_rows s1 = chain_rows s" "lease_of s1 = (lease_of s)(c := Some t)"
        "lease_of s c = None" using acq t by auto
      have b: "batch_ok (sortInputs inputs)" "sortInputs inputs \<noteq> []"
        using False batch_ok_perm [of "sortInputs inputs" inputs] sortInputs_facts(3) [of inputs]
        by (auto simp del: sortInputs_facts(3))
      have room1: "room (chain_rows s1 c) (length (sortInputs inputs))" using room s1 by simp
      have "c \<noteq> []" using False by simp
      have "\<And>es. link l c (last_hash (chain_rows s1 c)) (last_seq (chain_rows s1 c) + 1) runID (sortInputs inputs) = Inr es
          \<Longrightarrow> \<forall>e \<in> set es. storable e"
        using st unfolding s1(2) .
      note al = append_leased_cases [OF s1(1) nm l \<open>c \<noteq> []\<close> b room1 this ar]
      then have held: "lease_of s2 = (lease_of s)(c := Some t)" "lease_of s2 c = Some t" "valid s2" using s1 by auto
      obtain w s3 where rel: "op_release ops False c t s2 = (w, s3)" by force
      note release [OF held(3,2) rel]
      moreover have "r = ar" "s' = s3" using run' Some a t ar rel by auto
      moreover have "lease_of s3 = lease_of s \<or>
          (\<exists>t s0 e. lease_of s0 = (lease_of s)(c := Some t) \<and> op_release ops False c t s0 = (Some e, s3))"
      proof (cases w)
        case None
        then show ?thesis using calculation al s1 by (auto simp: fun_upd_idem)
      next
        case (Some e)
        then show ?thesis using held(1) rel by blast
      qed
      ultimately show ?thesis using al s1 False by (auto simp: result_of_def split: option.splits)
    qed
  qed
qed

end

lemma memory_append:
  assumes "wf_mem s" "l_store l = mem_ops rand" "room (rows s c) (length inputs)"
    and "Append_linker l ctxs c inputs s = (r, s')"
  shows "wf_mem s' \<and> m_leases s' = m_leases s \<and>
    (case wrote r of
       None \<Rightarrow> rows s' = rows s
     | Some res \<Rightarrow> \<exists>es. batch_ok inputs \<and> m_leases s c = None \<and>
         link l c (last_hash (rows s c)) (last_seq (rows s c) + 1) (r_RunID res) (sortInputs inputs) = Inr es
         \<and> rows s' = (rows s)(c := rows s c @ es) \<and> res = result_of (r_RunID res) es)"
proof -
  have "op_release (mem_ops rand) False c t s0 \<noteq> (Some e, s')" if "m_leases s0 = (m_leases s)(c := Some t)" for t s0 e
    using memory_release [of s0 c t] that by (metis fst_conv fun_upd_same option.distinct(1))
  then show ?thesis
    using memory.append_cases [OF assms(1) TrueI assms(2,3) _ assms(4)] by blast
qed

subsection \<open>Batches of several chains\<close>

definition tail_prev :: "tail \<Rightarrow> string" where
  "tail_prev t = (if t_Empty t then [] else t_Hash t)"

definition tail_next :: "tail \<Rightarrow> int" where
  "tail_next t = (if t_Empty t then 0 else wrap64 (t_GlobalSeq t + 1))"

lemma tail_of_row [simp]:
  "tail_prev (read_tail_row s c) = last_hash (rows s c)"
  "tail_next (read_tail_row s c) = wrap64 (last_seq (rows s c) + 1)"
  by (auto simp: tail_prev_def tail_next_def read_tail_row_def last_hash_def last_seq_def Let_def)

lemma entries_of_linked:
  "link l c prev n runID batch = Inr es \<Longrightarrow> entries_of d es = (if d = c then es else [])"
  using linked_ids unfolding link_def link_loop_linked by (intro entries_of_all) blast

lemma link_batches_entries:
  "link_batches l b ps ts = Inr (es, sts, rs) \<Longrightarrow> \<forall>e \<in> set es. ChainID e \<in> fst ` set ps"
proof (induction l b ps ts arbitrary: es sts rs rule: link_batches.induct)
  case (1 l b c batch runID ps t ts)
  then obtain es1 es2 sts2 rs2 where
    l: "link l c (tail_prev t) (tail_next t) runID batch = Inr es1"
    and r: "link_batches l (Suc b) ps ts = Inr (es2, sts2, rs2)" and es: "es = es1 @ es2"
    by (auto simp: Let_def tail_prev_def tail_next_def split: if_splits sum.splits prod.splits)
  have "\<forall>e \<in> set es1. ChainID e = c"
    using l linked_ids unfolding link_def link_loop_linked by blast
  moreover have "\<forall>e \<in> set es2. ChainID e \<in> fst ` set ps"
    using 1 l r by (auto simp: Let_def tail_prev_def tail_next_def split: if_splits)
  ultimately show ?case using es by auto
qed auto

lemma link_batches_nth:
  "link_batches l b ps ts = Inr (es, sts, rs) \<Longrightarrow> length ts = length ps \<Longrightarrow> distinct (map fst ps) \<Longrightarrow>
     length rs = length ps \<and> length sts = length ps \<and>
     (\<forall>i < length ps. case ps ! i of (c, batch, runID) \<Rightarrow>
        \<exists>esi. link l c (tail_prev (ts ! i)) (tail_next (ts ! i)) runID batch = Inr esi \<and>
          entries_of c es = esi \<and> sts ! i = head_state (l_now l (b + i)) c esi \<and> rs ! i = result_of runID esi)"
proof (induction l b ps ts arbitrary: es sts rs rule: link_batches.induct)
  case (1 l b c batch runID ps t ts)
  then obtain es1 es2 sts2 rs2 where
    l: "link l c (tail_prev t) (tail_next t) runID batch = Inr es1"
    and r: "link_batches l (Suc b) ps ts = Inr (es2, sts2, rs2)"
    and es: "es = es1 @ es2" "sts = head_state (l_now l b) c es1 # sts2" "rs = result_of runID es1 # rs2"
    and tc: "t_ChainID t = c"
    by (auto simp: Let_def tail_prev_def tail_next_def split: if_splits sum.splits prod.splits)
  have IH: "length rs2 = length ps \<and> length sts2 = length ps \<and>
     (\<forall>i < length ps. case ps ! i of (c, batch, runID) \<Rightarrow>
        \<exists>esi. link l c (tail_prev (ts ! i)) (tail_next (ts ! i)) runID batch = Inr esi \<and>
          entries_of c es2 = esi \<and> sts2 ! i = head_state (l_now l (Suc b + i)) c esi \<and> rs2 ! i = result_of runID esi)"
    using 1(1) [of "tail_prev t" "tail_next t" es1] 1(3,4) l r tc
    by (simp add: tail_prev_def tail_next_def)
  have c2: "entries_of c es2 = []"
    using link_batches_entries [OF r] 1(4) by (auto simp: entries_of_def filter_empty_conv)
  show ?case
  proof (intro conjI allI impI)
    show "length rs = length ((c, batch, runID) # ps)" "length sts = length ((c, batch, runID) # ps)"
      using IH es by simp_all
    fix i assume i: "i < length ((c, batch, runID) # ps)"
    show "case ((c, batch, runID) # ps) ! i of (c, batch, runID) \<Rightarrow>
        \<exists>esi. link l c (tail_prev ((t # ts) ! i)) (tail_next ((t # ts) ! i)) runID batch = Inr esi \<and>
          entries_of c es = esi \<and> sts ! i = head_state (l_now l (b + i)) c esi \<and> rs ! i = result_of runID esi"
    proof (cases i)
      case 0
      then show ?thesis using l es entries_of_linked [OF l, of c] c2 by simp
    next
      case (Suc j)
      obtain d bt rn where d: "ps ! j = (d, bt, rn)" by (cases "ps ! j")
      have "d \<in> fst ` set ps" using d i Suc by (metis Suc_less_eq fst_conv image_eqI length_Cons nth_mem)
      then have "d \<noteq> c" using 1(4) by auto
      then show ?thesis using IH d i Suc es entries_of_linked [OF l, of d] by auto
    qed
  qed
qed auto

lemma find_distinct:
  assumes "distinct (map f xs)" "i < length xs"
  shows "List.find (\<lambda>x. f x = f (xs ! i)) xs = Some (xs ! i)"
proof -
  have one: "j = i" if "j < length xs" "f (xs ! j) = f (xs ! i)" for j
    using that assms nth_eq_iff_index_eq [of "map f xs" j i] by simp
  have "f (xs ! j) \<noteq> f (xs ! i)" if "j < i" for j using one [of j] that assms(2) by auto
  then show ?thesis using assms(2) by (auto simp: find_Some_iff)
qed

text \<open>The head records a successful callback hands to the store, chain by chain.\<close>

lemma put_linked_states:
  assumes lb: "link_batches l 0 ps ts = Inr (es, sts, rs)" and len: "length ts = length ps"
    and d: "distinct (map fst ps)"
  shows "c \<notin> fst ` set ps \<Longrightarrow> m_state (put_states sts s) c = m_state s c"
    and "i < length ps \<Longrightarrow> m_state (put_states sts s) (fst (ps ! i)) = Some (sts ! i)"
proof -
  note nth = link_batches_nth [OF lb len d]
  have "st_ChainID (sts ! i) = fst (ps ! i)" if "i < length ps" for i
    using nth that by (cases "ps ! i") (auto simp: head_state_def)
  then have ids: "map st_ChainID sts = map fst ps" using nth by (auto intro: nth_equalityI)
  show "m_state (put_states sts s) c = m_state s c" if "c \<notin> fst ` set ps"
  proof -
    have "c \<notin> st_ChainID ` set sts" using that ids by (metis list.set_map)
    then have "List.find (\<lambda>st. st_ChainID st = c) (rev sts) = None" by (auto simp: find_None_iff)
    then show ?thesis by (simp add: m_state_put_states)
  qed
  show "m_state (put_states sts s) (fst (ps ! i)) = Some (sts ! i)" if i: "i < length ps"
  proof -
    have l: "length sts = length ps" using nth by simp
    have "distinct (map st_ChainID (rev sts))" using d ids by (simp add: rev_map [symmetric])
    from find_distinct [OF this, of "length sts - Suc i"] i l
    have "List.find (\<lambda>st. st_ChainID st = st_ChainID (sts ! i)) (rev sts) = Some (sts ! i)"
      by (simp add: rev_nth)
    moreover have "st_ChainID (sts ! i) = fst (ps ! i)" using arg_cong [OF ids, of "\<lambda>xs. xs ! i"] i l by simp
    ultimately show ?thesis by (simp add: m_state_put_states)
  qed
qed

lemma prepare_batches_Inr:
  "prepare_batches l b seen xs = Inr ps \<Longrightarrow>
     map fst ps = map ci_ChainID xs \<and> map (\<lambda>p. fst (snd p)) ps = map (\<lambda>x. sortInputs (Inputs x)) xs \<and>
     distinct (map ci_ChainID xs) \<and> ci_ChainID ` set xs \<inter> seen = {} \<and>
     list_all (\<lambda>x. Inputs x \<noteq> [] \<and> batch_ok (Inputs x)) xs"
proof (induction xs arbitrary: b seen ps)
  case (Cons x xs)
  have v: "snd (validateBatchOrdering (Inputs x)) = None" "ci_ChainID x \<notin> seen" "Inputs x \<noteq> []"
    using Cons.prems by (auto split: if_splits prod.splits option.splits)
  then have ok: "batch_ok (Inputs x)" by (simp add: validateBatchOrdering_None)
  obtain runID ps' where p: "(if l_format l = FormatV2 then l_runID l b else Some []) = Some runID"
    "prepare_batches l (Suc b) (insert (ci_ChainID x) seen) xs = Inr ps'"
    "ps = (ci_ChainID x, sortInputs (Inputs x), runID) # ps'"
    using Cons.prems validateBatchOrdering_ok [OF ok] by (auto split: if_splits option.splits sum.splits)
  have "map fst ps' = map ci_ChainID xs \<and> map (\<lambda>p. fst (snd p)) ps' = map (\<lambda>x. sortInputs (Inputs x)) xs \<and>
     distinct (map ci_ChainID xs) \<and> ci_ChainID ` set xs \<inter> insert (ci_ChainID x) seen = {} \<and>
     list_all (\<lambda>x. Inputs x \<noteq> [] \<and> batch_ok (Inputs x)) xs"
    using Cons.IH [OF p(2)] .
  then show ?case using p(3) v ok by auto
qed simp

lemma link_length: "link l c prev n runID batch = Inr es \<Longrightarrow> length es = length batch"
  unfolding link_def link_loop_linked by (rule linked_length)

lemma append_chains_lemma:
  assumes wf: "wf_mem s"
    and room: "\<forall>b < length batches. room (rows s (ci_ChainID (batches ! b))) (length (Inputs (batches ! b)))"
    and run: "AppendChains l (Some mem_updater) ctxs batches s = (r, s')"
  shows "case r of
      Inl err \<Rightarrow> s' = s
    | Inr results \<Rightarrow>
        length results = length batches \<and> m_leases s' = m_leases s \<and>
        (\<forall>c. c \<notin> ci_ChainID ` set batches \<longrightarrow> rows s' c = rows s c \<and> m_state s' c = m_state s c) \<and>
        (\<forall>b < length batches. let c = ci_ChainID (batches ! b) in
           m_leases s c = None \<and>
           (\<exists>es runID. link l c (last_hash (rows s c)) (last_seq (rows s c) + 1) runID
                       (sortInputs (Inputs (batches ! b))) = Inr es \<and>
              rows s' c = rows s c @ es \<and> m_state s' c = Some (head_state (l_now l b) c es) \<and>
              results ! b = result_of runID es))"
proof (cases "ctxs 0 \<or> batches = [] \<or> (\<exists>e. prepare_batches l 0 {} batches = Inl e)")
  case True
  then consider "ctxs 0" | "\<not> ctxs 0" "batches = []"
    | e where "\<not> ctxs 0" "batches \<noteq> []" "prepare_batches l 0 {} batches = Inl e" by blast
  then have "\<exists>e. (r, s') = (Inl e, s)"
    by cases (simp_all add: run [symmetric] AppendChains_def)
  then show ?thesis by auto
next
  case False
  then obtain ps where ps: "prepare_batches l 0 {} batches = Inr ps" by (cases "prepare_batches l 0 {} batches") auto
  let ?fn = "Some (\<lambda>tails. map_sum id (\<lambda>(es, sts, rs). (es, sts)) (append_callback l ps tails))"
  let ?tails = "map (read_tail_row s) (map fst ps)"
  obtain u s1 where u: "UpdateChains (ctxs 1) (map fst ps) ?fn s = (u, s1)" by force
  note app = UpdateChains_append [OF wf u]
  note prep = prepare_batches_Inr [OF ps]
  have len: "length ps = length batches" using prep by (metis length_map)
  show ?thesis
  proof (cases u)
    case (Some e)
    then have "\<exists>err. r = Inl err" "s' = s"
      using run False ps u app
      by (auto simp: AppendChains_def mem_updater_def split: update_error.splits store_error.splits)
    then show ?thesis by auto
  next
    case None
    then obtain es sts rs where cb: "append_callback l ps ?tails = Inr (es, sts, rs)"
      using app by (cases "append_callback l ps ?tails") auto
    have r: "r = Inr rs" "s' = s1"
      using run False ps u None cb by (auto simp: AppendChains_def mem_updater_def)
    have appended: "m_leases s1 = m_leases s" "\<forall>c \<in> set (map fst ps). m_leases s c = None"
      "\<And>c. room (rows s c) (length (entries_of c es)) \<Longrightarrow> rows s1 c = rows s c @ entries_of c es"
      using app None cb by auto
    have lb: "link_batches l 0 ps ?tails = Inr (es, sts, rs)" using cb by (simp add: append_callback_def)
    have d: "distinct (map fst ps)" using prep by simp
    have st1: "m_state s1 = m_state (put_states sts s)"
      using u
    proof (cases rule: UpdateChains_cases)
      case (refused err)
      then show ?thesis using None by simp
    next
      case (written f es' sts')
      then show ?thesis using cb by (auto simp: put_states_def upsertLocked_eq)
    qed
    have nth: "length rs = length ps \<and> length sts = length ps \<and>
       (\<forall>i < length ps. case ps ! i of (c, batch, runID) \<Rightarrow>
        \<exists>esi. link l c (tail_prev (?tails ! i)) (tail_next (?tails ! i)) runID batch = Inr esi \<and>
          entries_of c es = esi \<and> sts ! i = head_state (l_now l (0 + i)) c esi \<and> rs ! i = result_of runID esi)"
      using link_batches_nth [OF lb _ d] by simp
    have named: "fst ` set ps = ci_ChainID ` set batches" using prep by (metis list.set_map)
    note heads = put_linked_states [OF lb _ d]
    have other: "rows s1 c = rows s c" if "c \<notin> ci_ChainID ` set batches" for c
    proof -
      from named have "entries_of c es = []"
        using link_batches_entries [OF lb] that by (auto simp: entries_of_def filter_empty_conv)
      from u show ?thesis
      proof (cases rule: UpdateChains_cases)
        case (refused err)
        then show ?thesis using None by simp
      next
        case (written f es' sts')
        then have "es' = es" using cb by auto
        then show ?thesis using written rows_upsert_other [OF wf \<open>entries_of c es = []\<close>]
          by (simp add: put_states_def)
      qed
    qed
    have batch: "let c = ci_ChainID (batches ! b) in m_leases s c = None \<and>
           (\<exists>es runID. link l c (last_hash (rows s c)) (last_seq (rows s c) + 1) runID
                       (sortInputs (Inputs (batches ! b))) = Inr es \<and>
              rows s1 c = rows s c @ es \<and> m_state s1 c = Some (head_state (l_now l b) c es) \<and>
              rs ! b = result_of runID es)" if b: "b < length batches" for b
    proof -
      obtain c bt rn where p: "ps ! b = (c, bt, rn)" by (cases "ps ! b")
      have "map fst ps ! b = map ci_ChainID batches ! b"
        "map (\<lambda>p. fst (snd p)) ps ! b = map (\<lambda>x. sortInputs (Inputs x)) batches ! b"
        using prep by simp_all
      then have c: "c = ci_ChainID (batches ! b)" "bt = sortInputs (Inputs (batches ! b))"
        using p b len by simp_all
      have "Inputs (batches ! b) \<noteq> []" using prep b by (simp add: list_all_length)
      then have "1 \<le> length (Inputs (batches ! b))" by (cases "Inputs (batches ! b)") auto
      then have i64: "int64 (last_seq (rows s c) + 1)"
        using room b c(1) unfolding room_def int64_def by fastforce
      obtain esi where e: "link l c (last_hash (rows s c)) (last_seq (rows s c) + 1) rn bt = Inr esi"
        "entries_of c es = esi" "sts ! b = head_state (l_now l b) c esi" "rs ! b = result_of rn esi"
        using nth b len p i64 by fastforce
      have "length esi = length (Inputs (batches ! b))" using link_length [OF e(1)] c by simp
      then have "rows s1 c = rows s c @ esi" using appended(3) [of c] room b c e by simp
      moreover have "m_leases s c = None" using appended(2) p b len
        by (metis fst_conv length_map nth_map nth_mem)
      moreover have "m_state s1 c = Some (sts ! b)" using heads(2) [of b s] p b len by (simp add: st1)
      ultimately show ?thesis using e c by (auto simp: Let_def)
    qed
    show ?thesis using r nth len other batch appended(1) heads(1) [of _ s] named by (simp add: st1)
  qed
qed

subsection \<open>Format v3: totality and batch independence\<close>

lemma v3_not_v2 [simp]: "FormatV3 \<noteq> FormatV2" "(FormatV2 = FormatV3) = False"
  by (simp_all add: FormatV2_def FormatV3_def)

lemma linked_append:
  "linked format c next runID i prev (xs @ ys) es \<longleftrightarrow>
     (\<exists>es1 es2. es = es1 @ es2 \<and> linked format c next runID i prev xs es1 \<and>
        linked format c next runID (i + length xs) (if es1 = [] then prev else ChainHash (last es1)) ys es2)"
proof (induction xs arbitrary: i prev es)
  case Nil
  show ?case by simp
next
  case (Cons x xs)
  show ?case
  proof (cases es)
    case Nil
    then show ?thesis by simp
  next
    case (Cons e es')
    let ?H = "e = entry_for format c runID (wrap64 (next + int i)) i prev (ChainHash e) x \<and>
      entry_hash format prev runID (int i) (wrap64 (next + int i)) (i_Timestamp x) (i_ContentHash x)
        = Inr (ChainHash e) \<and> (ExpectChainHash x = [] \<or> ExpectChainHash x = ChainHash e)"
    have hd: "linked format c next runID i prev (x # zs) (e # fs) \<longleftrightarrow>
        ?H \<and> linked format c next runID (Suc i) (ChainHash e) zs fs" for zs fs
      by auto
    have "linked format c next runID i prev ((x # xs) @ ys) es \<longleftrightarrow> ?H \<and>
        (\<exists>es1 es2. es' = es1 @ es2 \<and> linked format c next runID (Suc i) (ChainHash e) xs es1 \<and>
          linked format c next runID (Suc i + length xs)
            (if es1 = [] then ChainHash e else ChainHash (last es1)) ys es2)"
      unfolding Cons append_Cons hd Cons.IH ..
    also have "\<dots> \<longleftrightarrow> (\<exists>es1 es2. es' = es1 @ es2 \<and> linked format c next runID i prev (x # xs) (e # es1) \<and>
          linked format c next runID (i + length (x # xs)) (ChainHash (last (e # es1))) ys es2)"
      unfolding hd by auto
    also have "\<dots> \<longleftrightarrow> (\<exists>es1 es2. es = es1 @ es2 \<and> linked format c next runID i prev (x # xs) es1 \<and>
          linked format c next runID (i + length (x # xs)) (if es1 = [] then prev else ChainHash (last es1)) ys es2)"
      (is "_ \<longleftrightarrow> ?R")
    proof
      assume "\<exists>es1 es2. es' = es1 @ es2 \<and> linked format c next runID i prev (x # xs) (e # es1) \<and>
          linked format c next runID (i + length (x # xs)) (ChainHash (last (e # es1))) ys es2"
      then obtain es1 es2 where "es' = es1 @ es2" "linked format c next runID i prev (x # xs) (e # es1)"
        "linked format c next runID (i + length (x # xs)) (ChainHash (last (e # es1))) ys es2" by blast
      then show ?R using Cons by (intro exI [of _ "e # es1"] exI [of _ es2]) simp
    next
      assume ?R
      then obtain es1 es2 where *: "es = es1 @ es2" "linked format c next runID i prev (x # xs) es1"
        "linked format c next runID (i + length (x # xs)) (if es1 = [] then prev else ChainHash (last es1)) ys es2"
        by blast
      from *(2) obtain e1 t where "es1 = e1 # t" by (cases es1) auto
      then show "\<exists>es1 es2. es' = es1 @ es2 \<and> linked format c next runID i prev (x # xs) (e # es1) \<and>
          linked format c next runID (i + length (x # xs)) (ChainHash (last (e # es1))) ys es2"
        using * Cons by (intro exI [of _ t] exI [of _ es2]) simp
    qed
    finally show ?thesis .
  qed
qed

lemma linked_v3_shift:
  "linked FormatV3 c n runID (k + i) prev bs es \<longleftrightarrow> linked FormatV3 c (wrap64 (n + int k)) runID' i prev bs es"
proof (induction bs arbitrary: i prev es)
  case Nil
  show ?case by simp
next
  case (Cons b bs)
  have "wrap64 (wrap64 (n + int k) + int i) = wrap64 (n + int (k + i))"
    using wrap64_add [of "n + int k" "int i"] by (simp add: algebra_simps)
  then show ?case using Cons.IH [of "Suc i"]
    by (simp add: entry_hash_def entry_for_def split: list.splits)
qed

lemma linked_v3_total:
  "prev_shape prev \<Longrightarrow> 0 \<le> n + int i \<Longrightarrow> n + int i + int (length bs) \<le> 2 ^ 63 \<Longrightarrow>
   list_all (\<lambda>b. content_shape (i_ContentHash b) \<and> ExpectChainHash b = [] \<and> ValidateTimestamp (i_Timestamp b) = None) bs
   \<Longrightarrow> \<exists>es. linked FormatV3 c n runID i prev bs es"
proof (induction bs arbitrary: i prev)
  case Nil
  then show ?case by simp
next
  case (Cons b bs)
  let ?h = "ComputeChainHashV3Unchecked prev (n + int i) (i_Timestamp b) (i_ContentHash b)"
  have w: "wrap64 (n + int i) = n + int i" using Cons.prems by (simp add: int64_def)
  have h: "entry_hash FormatV3 prev runID (int i) (n + int i) (i_Timestamp b) (i_ContentHash b) = Inr ?h"
    using Cons.prems by (simp add: entry_hash_def ComputeChainHashV3_Inr ValidateChainHashInputsV3_iff)
  have "prev_shape ?h" by (simp add: prev_shape_def)
  then obtain es where "linked FormatV3 c n runID (Suc i) ?h bs es"
    using Cons.IH [of ?h "Suc i"] Cons.prems by auto
  then have "linked FormatV3 c n runID i prev (b # bs)
      (entry_for FormatV3 c runID (n + int i) i prev ?h b # es)"
    using Cons.prems by (simp add: w h)
  then show ?case by blast
qed

lemma linked_last_shape:
  "linked format c next runID i prev bs es \<Longrightarrow> prev_shape prev \<Longrightarrow>
     prev_shape (if es = [] then prev else ChainHash (last es))"
proof (induction bs arbitrary: i prev es)
  case (Cons b bs)
  then obtain e es' where es: "es = e # es'"
    and h: "entry_hash format prev runID (int i) (wrap64 (next + int i)) (i_Timestamp b) (i_ContentHash b) = Inr (ChainHash e)"
    and l: "linked format c next runID (Suc i) (ChainHash e) bs es'" by (cases es) auto
  have "prev_shape (ChainHash e)"
    using h by (auto simp: entry_hash_def ComputeChainHashV3_Inr ComputeChainHash_Inr prev_shape_def split: if_splits)
  from Cons.IH [OF l this] show ?case by (simp add: es split: if_splits)
qed simp

lemma append_succeeds_lemma:
  assumes wf: "wf_mem s" and l: "l_store l = mem_ops (Some tok)" "l_format l = FormatV3"
    and room: "room (rows s c) (length inputs)" and low: "-1 \<le> last_seq (rows s c)"
    and prev: "prev_shape (last_hash (rows s c))"
    and free: "m_leases s c = None" and c: "c \<noteq> []" and ne: "inputs \<noteq> []" and ok: "batch_ok inputs"
    and shapes: "list_all (\<lambda>b. content_shape (i_ContentHash b) \<and> ExpectChainHash b = []) inputs"
  shows "\<exists>res s'. Append_linker l (\<lambda>_. False) c inputs s = (Inr res, s') \<and>
    Appended res = length inputs \<and> FirstSeq res = last_seq (rows s c) + 1 \<and>
    LastSeq res = last_seq (rows s c) + int (length inputs)"
proof -
  let ?n = "last_seq (rows s c) + 1" and ?p = "last_hash (rows s c)" and ?b = "sortInputs inputs"
  let ?s1 = "s\<lparr>m_leases := (m_leases s)(c \<mapsto> hex_encode tok)\<rparr>"
  have len: "1 \<le> length inputs" using ne by (cases inputs) auto
  have n: "int64 ?n" using room len unfolding room_def int64_def by linarith
  have n2: "?n + int (length inputs) \<le> 2 ^ 63" using room by (simp add: room_def)
  have "list_all (\<lambda>b. content_shape (i_ContentHash b) \<and> ExpectChainHash b = [] \<and> ValidateTimestamp (i_Timestamp b) = None) ?b"
    using shapes ok by (auto simp: list_all_iff batch_ok_def input_ok_def)
  then obtain es where li: "linked FormatV3 c ?n [] 0 ?p ?b es"
    using linked_v3_total [OF prev, of ?n 0 ?b c "[]"] low n2 by auto
  have es: "length es = length inputs" "es \<noteq> []" using linked_length [OF li] len by auto
  have cont: "continues ?n ?p es" using linked_continues [OF li] n by simp
  have ids: "\<forall>e \<in> set es. ChainID e = c \<and> EntryID e \<noteq> []"
  proof
    fix e assume "e \<in> set es"
    moreover from this have "EntryID e \<in> set (map i_EntryID ?b)"
      using linked_ids [OF li] by (metis image_eqI list.set_map)
    ultimately show "ChainID e = c \<and> EntryID e \<noteq> []"
      using linked_ids [OF li] ok by (auto simp: batch_ok_def list_all_iff input_ok_def)
  qed
  have s1: "wf_mem ?s1" "rows ?s1 c = rows s c" using wf by simp_all
  obtain s2 where w: "op_write_batch (mem_ops (Some tok)) False es ?s1 = (None, s2)"
    using write_appends(1) [OF s1(1) c ids] cont room es(1) unfolding s1(2) by (auto simp: mem_ops_def)
  have cn: "continuation l False c ?s1 = Inr (?p, ?n)"
    using l n by (cases "rows s c = []")
      (simp_all add: continuation_def mem_ops_def ReadTail_def Let_def last_hash_def last_seq_def)
  have lk: "link l c ?p ?n [] ?b = Inr es" using li l(2) by (simp add: link_def link_loop_linked)
  obtain s3 where pt: "op_put_state (mem_ops (Some tok)) False (Some (head_state (l_now l 0) c es)) s2 = (None, s3)"
    using c by (auto simp: mem_ops_def PutState_def head_state_def)
  have al: "append_leased l (\<lambda>_. False) c [] ?b ?s1 = (Inr (result_of [] es), s3)"
    by (simp add: append_leased_def cn lk l(1) w pt)
  have ac: "op_acquire (mem_ops (Some tok)) False c s = (Inr (Some (hex_encode tok)), ?s1)"
    using free by (simp add: mem_ops_def Acquire_def Let_def)
  have "\<exists>s'. Append_linker l (\<lambda>_. False) c inputs s = (Inr (result_of [] es), s')"
    using c ne by (simp add: Append_linker_def validateBatchOrdering_ok [OF ok] l ac al Let_def)
  moreover have "map GlobalSeq es = map (\<lambda>i. ?n + int i) [0..<length es]"
    using continues_seqs [OF cont n] n2 es(1) by simp
  then have "GlobalSeq (es ! k) = ?n + int k" if "k < length es" for k
    using that by (metis (no_types, lifting) add.left_neutral diff_zero length_map length_upt nth_map nth_upt)
  then have "GlobalSeq (hd es) = ?n" "GlobalSeq (last es) = ?n + int (length es - 1)"
    using es(2) by (simp_all add: hd_conv_nth last_conv_nth)
  ultimately show ?thesis using es len by (auto simp: result_of_def)
qed

subsection \<open>\<open>AppendChains\<close> succeeds\<close>

lemma prepare_batches_v3:
  "l_format l = FormatV3 \<Longrightarrow> distinct (map ci_ChainID xs) \<Longrightarrow> ci_ChainID ` set xs \<inter> seen = {} \<Longrightarrow>
   list_all (\<lambda>x. ci_ChainID x \<noteq> [] \<and> Inputs x \<noteq> [] \<and> batch_ok (Inputs x)) xs \<Longrightarrow>
   prepare_batches l b seen xs = Inr (map (\<lambda>x. (ci_ChainID x, sortInputs (Inputs x), [])) xs)"
proof (induction xs arbitrary: b seen)
  case (Cons x xs)
  then have "prepare_batches l (Suc b) (insert (ci_ChainID x) seen) xs =
      Inr (map (\<lambda>x. (ci_ChainID x, sortInputs (Inputs x), [])) xs)" by auto
  then show ?case using Cons.prems
    by (simp add: validateBatchOrdering_ok FormatV2_def FormatV3_def)
qed simp

lemma link_batches_total:
  "list_all2 (\<lambda>(c, batch, runID) t. t_ChainID t = c \<and>
      (\<exists>es. link l c (tail_prev t) (tail_next t) runID batch = Inr es)) ps ts \<Longrightarrow>
   \<exists>es sts rs. link_batches l b ps ts = Inr (es, sts, rs)"
proof (induction arbitrary: b rule: list_all2_induct)
  case (Cons p ps t ts)
  obtain c batch runID where p: "p = (c, batch, runID)" by (cases p)
  obtain es sts rs where "link_batches l (Suc b) ps ts = Inr (es, sts, rs)" using Cons.IH by blast
  moreover obtain es1 where "t_ChainID t = c" "link l c (tail_prev t) (tail_next t) runID batch = Inr es1"
    using Cons.hyps(1) p by auto
  ultimately show ?case by (simp add: p tail_prev_def tail_next_def)
qed simp

text \<open>A batch that can be appended to its chain in format v3.\<close>

definition appendable :: "mem \<Rightarrow> chain_inputs \<Rightarrow> bool" where
  "appendable s x \<longleftrightarrow>
     (let c = ci_ChainID x
      in c \<noteq> [] \<and> CHR 0x00 \<notin> set c \<and> m_leases s c = None \<and> Inputs x \<noteq> [] \<and> batch_ok (Inputs x) \<and>
         room (rows s c) (length (Inputs x)) \<and> -1 \<le> last_seq (rows s c) \<and> prev_shape (last_hash (rows s c)) \<and>
         list_all (\<lambda>b. content_shape (i_ContentHash b) \<and> ExpectChainHash b = []) (Inputs x))"

lemma appendable_links:
  assumes "appendable s x" and v3: "l_format l = FormatV3"
  shows "\<exists>es. link l (ci_ChainID x) (last_hash (rows s (ci_ChainID x))) (wrap64 (last_seq (rows s (ci_ChainID x)) + 1))
    [] (sortInputs (Inputs x)) = Inr es"
proof -
  let ?c = "ci_ChainID x"
  have a: "Inputs x \<noteq> []" "batch_ok (Inputs x)" "room (rows s ?c) (length (Inputs x))" "-1 \<le> last_seq (rows s ?c)"
    "prev_shape (last_hash (rows s ?c))"
    "list_all (\<lambda>b. content_shape (i_ContentHash b) \<and> ExpectChainHash b = []) (Inputs x)"
    using assms(1) by (simp_all add: appendable_def Let_def)
  have "1 \<le> length (Inputs x)" using a(1) by (cases "Inputs x") auto
  then have i64: "int64 (last_seq (rows s ?c) + 1)" and top: "last_seq (rows s ?c) + 1 + int (length (Inputs x)) \<le> 2 ^ 63"
    using a(3,4) unfolding room_def int64_def by linarith+
  have "list_all (\<lambda>b. content_shape (i_ContentHash b) \<and> ExpectChainHash b = [] \<and> ValidateTimestamp (i_Timestamp b) = None)
      (sortInputs (Inputs x))"
    using a(2,6) by (auto simp: list_all_iff batch_ok_def input_ok_def)
  then obtain es where "linked FormatV3 ?c (last_seq (rows s ?c) + 1) [] 0 (last_hash (rows s ?c)) (sortInputs (Inputs x)) es"
    using linked_v3_total [OF a(5), of "last_seq (rows s ?c) + 1" 0 "sortInputs (Inputs x)" ?c "[]"] a(4) top by auto
  then show ?thesis using i64 v3 by (auto simp: link_def link_loop_linked)
qed

lemma check_names_None:
  "check_names i cs seen = None \<longleftrightarrow>
     distinct cs \<and> set cs \<inter> seen = {} \<and> (\<forall>c \<in> set cs. c \<noteq> [] \<and> CHR 0x00 \<notin> set c)"
  by (induction i cs seen rule: check_names.induct) auto

lemma append_chains_succeeds:
  assumes v3: "l_format l = FormatV3" and ne: "batches \<noteq> []" and d: "distinct (map ci_ChainID batches)"
    and ok: "\<forall>x \<in> set batches. appendable s x"
  shows "\<exists>rs s'. AppendChains l (Some mem_updater) (\<lambda>_. False) batches s = (Inr rs, s')"
proof -
  let ?ps = "map (\<lambda>x. (ci_ChainID x, sortInputs (Inputs x), [])) batches"
  let ?ids = "map ci_ChainID batches"
  let ?tails = "map (read_tail_row s) ?ids"
  have prep: "prepare_batches l 0 {} batches = Inr ?ps"
    by (rule prepare_batches_v3 [OF v3 d]) (use ok in \<open>auto simp: list_all_iff appendable_def Let_def\<close>)
  have fst_ps: "map fst ?ps = ?ids" by (simp add: comp_def)
  have "list_all2 (\<lambda>(c, batch, runID) t. t_ChainID t = c \<and>
      (\<exists>es. link l c (tail_prev t) (tail_next t) runID batch = Inr es)) ?ps ?tails"
    using appendable_links [OF _ v3] ok by (auto simp: list_all2_conv_all_nth)
  then obtain es sts rs where lb: "link_batches l 0 ?ps ?tails = Inr (es, sts, rs)"
    using link_batches_total by blast
  have "distinct (map fst ?ps)" "length ?tails = length ?ps" using d by (simp_all add: comp_def)
  note nth = link_batches_nth [OF lb this(2,1)]
  have own: "\<exists>esi. link l (ci_ChainID (batches ! i)) (last_hash (rows s (ci_ChainID (batches ! i))))
        (wrap64 (last_seq (rows s (ci_ChainID (batches ! i))) + 1)) [] (sortInputs (Inputs (batches ! i))) = Inr esi \<and>
      entries_of (ci_ChainID (batches ! i)) es = esi \<and> sts ! i = head_state (l_now l i) (ci_ChainID (batches ! i)) esi"
    if "i < length batches" for i
    using nth that by auto
  have ids: "\<forall>e \<in> set es. ChainID e \<in> ci_ChainID ` set batches"
    using link_batches_entries [OF lb] by (auto simp: image_iff)
  have eids: "\<forall>e \<in> set es. ChainID e \<noteq> [] \<and> EntryID e \<noteq> []"
  proof
    fix e assume e: "e \<in> set es"
    then obtain i where i: "i < length batches" "ChainID e = ci_ChainID (batches ! i)"
      using ids by (force simp: in_set_conv_nth)
    have a: "appendable s (batches ! i)" using ok i by simp
    have "e \<in> set (entries_of (ci_ChainID (batches ! i)) es)" using e i by (simp add: entries_of_def)
    moreover obtain esi where esi: "entries_of (ci_ChainID (batches ! i)) es = esi"
      "linked FormatV3 (ci_ChainID (batches ! i)) (wrap64 (last_seq (rows s (ci_ChainID (batches ! i))) + 1)) [] 0
         (last_hash (rows s (ci_ChainID (batches ! i)))) (sortInputs (Inputs (batches ! i))) esi"
      using own [OF i(1)] v3 by (auto simp: link_def link_loop_linked)
    ultimately have "EntryID e \<in> set (map i_EntryID (sortInputs (Inputs (batches ! i))))"
      using linked_ids [OF esi(2)] by (metis image_eqI list.set_map)
    then show "ChainID e \<noteq> [] \<and> EntryID e \<noteq> []"
      using a i by (auto simp: appendable_def Let_def batch_ok_def list_all_iff input_ok_def)
  qed
  have "append_ok ?tails es sts"
    unfolding append_ok_def
  proof (intro conjI ballI)
    fix e assume "e \<in> set es"
    then show "ChainID e \<in> t_ChainID ` set ?tails" using ids by (force simp: image_iff)
  next
    fix t assume "t \<in> set ?tails"
    then obtain i where i: "i < length batches" "t = read_tail_row s (ci_ChainID (batches ! i))"
      by (auto simp: in_set_conv_nth)
    obtain esi where "entries_of (ci_ChainID (batches ! i)) es = esi"
      "linked FormatV3 (ci_ChainID (batches ! i)) (wrap64 (last_seq (rows s (ci_ChainID (batches ! i))) + 1)) [] 0
         (last_hash (rows s (ci_ChainID (batches ! i)))) (sortInputs (Inputs (batches ! i))) esi"
      using own [OF i(1)] v3 by (auto simp: link_def link_loop_linked)
    then show "continues (c_next (tail_cursor t)) (c_prev (tail_cursor t)) (entries_of (t_ChainID t) es)"
      using linked_continues i(2) by fastforce
  next
    fix st assume "st \<in> set sts"
    moreover have "length sts = length batches" using nth by simp
    ultimately obtain i where i: "i < length batches" "st = sts ! i" by (auto simp: in_set_conv_nth)
    obtain esi where e: "link l (ci_ChainID (batches ! i)) (last_hash (rows s (ci_ChainID (batches ! i))))
        (wrap64 (last_seq (rows s (ci_ChainID (batches ! i))) + 1)) [] (sortInputs (Inputs (batches ! i))) = Inr esi"
      "entries_of (ci_ChainID (batches ! i)) es = esi" "st = head_state (l_now l i) (ci_ChainID (batches ! i)) esi"
      using own [OF i(1)] i(2) by auto
    have "Inputs (batches ! i) \<noteq> []" using ok i(1) by (simp add: appendable_def Let_def)
    then have "esi \<noteq> []" using link_length [OF e(1)] by auto
    then show "st_ChainID st \<in> t_ChainID ` set ?tails" "entries_of (st_ChainID st) es \<noteq> []"
      "HeadSeq st = GlobalSeq (last (entries_of (st_ChainID st) es))"
      "HeadHash st = ChainHash (last (entries_of (st_ChainID st) es))"
      using e i(1) by (auto simp: head_state_def image_image)
  qed
  then have chk: "CheckAppend ?tails es sts = None" using CheckAppend_iff [of ?tails es sts] d by (simp add: comp_def)
  have cb: "append_callback l ?ps ?tails = Inr (es, sts, rs)" using lb by (simp add: append_callback_def)
  have names: "check_names 0 ?ids {} = None"
    using d ok by (auto simp: check_names_None appendable_def Let_def)
  have leases: "check_leases s ?ids = None" using ok by (auto simp: check_leases_None appendable_def Let_def)
  have both: "check_both_ids 0 es = None" using eids by (simp add: check_both_ids_None)
  have "UpdateChains False ?ids (Some (\<lambda>tails. map_sum id (\<lambda>(es, sts, rs). (es, sts)) (append_callback l ?ps tails))) s =
      (None, put_states sts (upsertLocked es s))"
    using ne by (simp add: UpdateChains_def names leases cb both chk Let_def del: map_map)
  then show ?thesis using ne
    by (simp add: AppendChains_def prep mem_updater_def fst_ps cb del: map_map)
qed

subsection \<open>Properties\<close>

text \<open>C12. A batch is accepted exactly when every input is well formed (a non-empty UTF-8 id that
  is not reserved, a year the hash can carry, an arrival time, no tombstone marking) and no id
  repeats; and then its order, so everything computed from it, does not depend on the order the
  caller gave.\<close>

theorem batch_order_canonical:
  assumes "mset inputs' = mset inputs"
  shows "(snd (validateBatchOrdering inputs) = None \<longleftrightarrow> batch_ok inputs) \<and>
    (batch_ok inputs \<longrightarrow> validateBatchOrdering inputs' = ([], None) \<and>
       sortInputs inputs' = sortInputs inputs \<and> mset (sortInputs inputs) = mset inputs \<and>
       sorted_wrt input_less (sortInputs inputs) \<and>
       Append_linker l ctxs c inputs' s = Append_linker l ctxs c inputs s)"
proof -
  have "validateBatchOrdering inputs' = ([], None)" if "batch_ok inputs"
    using that batch_ok_perm [OF assms] validateBatchOrdering_ok by blast
  moreover have "sortInputs inputs' = sortInputs inputs" if "batch_ok inputs"
    using that assms by (intro sortInputs_perm) (auto simp: batch_ok_def)
  moreover have "sorted_wrt input_less (sortInputs inputs)" if "batch_ok inputs"
  proof -
    have "inj_on input_key (set inputs)"
      using that by (auto simp: batch_ok_def distinct_map inj_on_def input_key_def)
    moreover have "distinct inputs" using that by (auto simp: batch_ok_def distinct_map)
    ultimately have "distinct (map input_key (sortInputs inputs))"
      by (simp add: sortInputs_key distinct_map)
    then have "sorted_wrt (<) (map input_key (sortInputs inputs))"
      by (simp add: strict_sorted_iff sortInputs_key)
    then show ?thesis by (simp add: sorted_wrt_map input_less_key [abs_def])
  qed
  moreover have "inputs' = [] \<longleftrightarrow> inputs = []" using assms by auto
  ultimately show ?thesis
    using validateBatchOrdering_None validateBatchOrdering_ok
    by (auto simp: Append_linker_def)
qed

definition example_input :: "string \<Rightarrow> input" where
  "example_input eid = \<lparr>i_EntryID = eid, i_EntryType = ''event'', i_Timestamp = epoch,
     i_ContentHash = zeros128, IngestedAt = epoch, ExpectChainHash = []\<rparr>"

lemma New_facts [simp]: "rows New c = []" "m_leases New c = None" "last_seq [] = -1" "last_hash [] = []"
  by (simp_all add: rows_def New_def last_seq_def last_hash_def)

lemma example_input_fields [simp]:
  "i_Timestamp (example_input x) = epoch" "i_ContentHash (example_input x) = zeros128"
  "ExpectChainHash (example_input x) = []"
  by (simp_all add: example_input_def)

lemma example_input_ok [simp]:
  "input_ok (example_input ''a'')" "input_ok (example_input ''b'')"
  "batch_ok [example_input ''a'', example_input ''b'']"
proof -
  have "\<not> is_zero_time epoch" by (simp add: is_zero_time_def epoch_def)
  moreover have "\<not> IsTombstoneContentHash zeros128"
    by (simp add: IsTombstoneContentHash_def zeros128_def TombstoneContentHashPrefix_def has_prefix_def
        numeral_eq_Suc)
  ultimately show "input_ok (example_input ''a'')" "input_ok (example_input ''b'')"
    by (simp_all add: input_ok_def example_input_def TombstoneEntryType_def TombstoneEntryIDPrefix_def
        has_prefix_def utf8_valid_ascii byte_in_def)
  then show "batch_ok [example_input ''a'', example_input ''b'']"
    by (simp add: batch_ok_def) (simp add: example_input_def)
qed

theorem batch_order_canonical_witness:
  "sortInputs [example_input ''b'', example_input ''a''] = sortInputs [example_input ''a'', example_input ''b'']"
  using batch_order_canonical [of "[example_input ''b'', example_input ''a'']"
      "[example_input ''a'', example_input ''b'']"] example_input_ok(3) by fastforce

text \<open>C9. An append over the memory store either leaves every row as it was or puts exactly the
  linked batch at the end of its chain: each row is the row of the next input in the batch's
  order, at the next position, hashed over the row before it, with the hash the caller expected
  if it named one. Whatever fails, and whenever the context is cancelled, the lease is given
  back; a result is reported exactly when rows were written, also when only the head record
  could not be saved.\<close>

theorem append_extends_chain:
  assumes "mem_step\<^sup>*\<^sup>* New s" and "l_store l = mem_ops rand"
    and "room (rows s c) (length inputs)"
    and "Append_linker l ctxs c inputs s = (r, s')"
  shows "m_leases s' = m_leases s \<and>
    (case wrote r of
       None \<Rightarrow> rows s' = rows s
     | Some res \<Rightarrow> \<exists>es. m_leases s c = None \<and> batch_ok inputs \<and>
         rows s' = (rows s)(c := rows s c @ es) \<and> res = result_of (r_RunID res) es \<and>
         linked (l_format l) c (last_seq (rows s c) + 1) (r_RunID res) 0 (last_hash (rows s c))
           (sortInputs inputs) es)"
  using memory_append [OF wf_mem_reachable [OF assms(1)] assms(2-4)]
  by (auto simp: link_def link_loop_linked split: option.splits)

definition example_linker :: "mem linker" where
  "example_linker = \<lparr>l_store = mem_ops (Some ''token''), l_now = (\<lambda>_. epoch), l_runID = (\<lambda>_. None),
     l_format = FormatV3\<rparr>"

lemma example_linker_fields [simp]:
  "l_store example_linker = mem_ops (Some ''token'')" "l_format example_linker = FormatV3"
  by (simp_all add: example_linker_def)

definition example_batch :: "input list" where
  "example_batch = [example_input ''a'', example_input ''b'']"

lemma example_batch_facts [simp]:
  "batch_ok example_batch" "length example_batch = 2" "example_batch \<noteq> []"
  "list_all (\<lambda>b. content_shape (i_ContentHash b) \<and> ExpectChainHash b = []) example_batch"
  by (simp_all add: example_batch_def)

lemma example_append:
  "\<exists>res s'. Append_linker example_linker (\<lambda>_. False) ''c'' example_batch New = (Inr res, s') \<and>
    Appended res = length example_batch \<and> FirstSeq res = last_seq (rows New ''c'') + 1 \<and>
    LastSeq res = last_seq (rows New ''c'') + int (length example_batch)"
  by (rule append_succeeds_lemma [where tok = "''token''"]) (simp_all add: room_def int64_def wf_mem_New)

theorem append_extends_chain_witness:
  "\<exists>res s' es. Append_linker example_linker (\<lambda>_. False) ''c'' example_batch New = (Inr res, s') \<and>
     rows s' = (rows New)(''c'' := es) \<and> linked FormatV3 ''c'' 0 (r_RunID res) 0 [] (sortInputs example_batch) es"
proof -
  obtain res s' where a: "Append_linker example_linker (\<lambda>_. False) ''c'' example_batch New = (Inr res, s')"
    using example_append by blast
  have "room (rows New ''c'') (length example_batch)" by (simp add: room_def int64_def)
  from append_extends_chain [OF rtranclp.rtrancl_refl example_linker_fields(1) this a] a
  show ?thesis by (auto simp: wrote_def)
qed

text \<open>C10. An append that should work does: for an unleased chain whose last hash is well formed,
  a valid batch with content hashes in their form and no expectations, a clock and a token
  source that answer and a context that is never done, \<open>Append\<close> in format v3 succeeds, and
  reports the number of inputs and the positions after the tail.\<close>

theorem append_succeeds:
  assumes "mem_step\<^sup>*\<^sup>* New s" and "l_store l = mem_ops (Some tok)" and "l_format l = FormatV3"
    and "room (rows s c) (length inputs)" and "-1 \<le> last_seq (rows s c)" and "prev_shape (last_hash (rows s c))"
    and "m_leases s c = None" and "c \<noteq> []" and "inputs \<noteq> []" and "batch_ok inputs"
    and "list_all (\<lambda>b. content_shape (i_ContentHash b) \<and> ExpectChainHash b = []) inputs"
  shows "\<exists>res s'. Append_linker l (\<lambda>_. False) c inputs s = (Inr res, s') \<and>
    Appended res = length inputs \<and> FirstSeq res = last_seq (rows s c) + 1 \<and>
    LastSeq res = last_seq (rows s c) + int (length inputs)"
  using append_succeeds_lemma [OF wf_mem_reachable [OF assms(1)] assms(2-)] .

theorem append_succeeds_witness:
  "\<exists>res s'. Append_linker example_linker (\<lambda>_. False) ''c'' example_batch New = (Inr res, s') \<and>
    Appended res = length example_batch \<and> FirstSeq res = last_seq (rows New ''c'') + 1 \<and>
    LastSeq res = last_seq (rows New ''c'') + int (length example_batch)"
  by (rule append_succeeds [where tok = "''token''"]) (simp_all add: room_def int64_def)

text \<open>Format v3 does not depend on how entries are batched: linking a batch is linking its
  first part and then linking the rest onto the result, for every split.\<close>

theorem v3_batch_independent:
  assumes "l_format l = FormatV3"
  shows "link l c prev n runID (xs @ ys) = Inr es \<longleftrightarrow>
    (\<exists>es1 es2. link l c prev n runID xs = Inr es1 \<and> es = es1 @ es2 \<and>
       link l c (if es1 = [] then prev else ChainHash (last es1)) (wrap64 (n + int (length xs))) runID' ys
         = Inr es2)"
  using linked_append [of FormatV3 c n runID 0 prev xs ys es]
    linked_v3_shift [of c n runID "length xs" 0 _ ys _ runID'] assms
  by (auto simp: link_def link_loop_linked)

text \<open>C11. \<open>AppendChains\<close> over the memory store is all or nothing, as long as the positions of its chains
  last: a batch must not take its chain past the largest signed 64-bit position. On any error the
  store is unchanged. On success every chain of the call is extended by exactly its own linked batch
  and its head record names the last entry of that batch, with one result per batch; the rows and
  the head records of all other chains and every lease are as before, and no chain of the call was
  under a lease.\<close>

theorem append_chains_atomic:
  assumes "mem_step\<^sup>*\<^sup>* New s"
    and "\<forall>b < length batches. room (rows s (ci_ChainID (batches ! b))) (length (Inputs (batches ! b)))"
    and "AppendChains l (Some mem_updater) ctxs batches s = (r, s')"
  shows "case r of
      Inl err \<Rightarrow> s' = s
    | Inr results \<Rightarrow>
        length results = length batches \<and> m_leases s' = m_leases s \<and>
        (\<forall>c. c \<notin> ci_ChainID ` set batches \<longrightarrow> rows s' c = rows s c \<and> m_state s' c = m_state s c) \<and>
        (\<forall>b < length batches. let c = ci_ChainID (batches ! b) in
           m_leases s c = None \<and>
           (\<exists>es runID. link l c (last_hash (rows s c)) (last_seq (rows s c) + 1) runID
                       (sortInputs (Inputs (batches ! b))) = Inr es \<and>
              rows s' c = rows s c @ es \<and> m_state s' c = Some (head_state (l_now l b) c es) \<and>
              results ! b = result_of runID es))"
  using append_chains_lemma [OF wf_mem_reachable [OF assms(1)] assms(2,3)] .

theorem append_chains_atomic_witness:
  "\<exists>results s' es. AppendChains example_linker (Some mem_updater) (\<lambda>_. False)
       [\<lparr>ci_ChainID = ''c'', Inputs = example_batch\<rparr>] New = (Inr results, s') \<and>
     link example_linker ''c'' [] 0 (r_RunID (hd results)) (sortInputs example_batch) = Inr es \<and>
     length es = 2 \<and> rows s' ''c'' = es \<and> m_state s' ''c'' = Some (head_state epoch ''c'' es) \<and>
     results = [result_of (r_RunID (hd results)) es] \<and> rows s' ''d'' = [] \<and> m_state s' ''d'' = None"
proof -
  let ?b = "[\<lparr>ci_ChainID = ''c'', Inputs = example_batch\<rparr>]"
  have "\<forall>x \<in> set ?b. appendable New x" by (simp add: appendable_def room_def int64_def)
  then obtain rs s' where a: "AppendChains example_linker (Some mem_updater) (\<lambda>_. False) ?b New = (Inr rs, s')"
    using append_chains_succeeds [of example_linker ?b New] by auto
  have room: "\<forall>b < length ?b. room (rows New (ci_ChainID (?b ! b))) (length (Inputs (?b ! b)))"
    by (simp add: room_def int64_def)
  have now: "l_now example_linker 0 = epoch" "m_state New ''d'' = None" by (simp_all add: example_linker_def New_def)
  from append_chains_atomic [OF rtranclp.rtrancl_refl room a] obtain es runID where
    es: "length rs = 1" "link example_linker ''c'' [] 0 runID (sortInputs example_batch) = Inr es"
      "rows s' ''c'' = es" "m_state s' ''c'' = Some (head_state epoch ''c'' es)" "rs ! 0 = result_of runID es"
      "rows s' ''d'' = []" "m_state s' ''d'' = None"
    by (auto simp: Let_def now)
  have "rs = [result_of runID es]" using es(1,5) by (cases rs) auto
  moreover have "length es = 2" using link_length [OF es(2)] by simp
  ultimately show ?thesis using a es by (auto simp: result_of_def)
qed

end
