(* ===== verification/Verify_Walk.thy ===== *)
theory Verify_Walk
  imports Linker
begin

section \<open>Verifying a chain: \<open>verify/verify.go\<close>\<close>

text \<open>
  The walker re-derives every chain hash from the one before and collects the breaks.
  \<open>Add\<close> is translated with its early returns; a break's detail, a formatted sentence in the
  code, is a constructor with the values the sentence prints. The regular expression
  \<open>^[0-9a-f]{128}$\<close> is \<open>is_hex128\<close> (in Go's syntax \<open>$\<close> is the end of the text).

  Then: the walk as a function of the entries alone (\<open>all_breaks\<close>), what \<open>INTACT\<close> means entry by
  entry (\<open>chain_ok\<close>), that the linker's output is intact, and what an intact verdict binds.
\<close>

datatype verdict = VerdictIntact | VerdictAnchored | VerdictBroken

datatype break_type =
    BreakHashMismatch | BreakSequenceGap | BreakInvalidTombstone | BreakUnknownFormat
  | BreakFormatFieldMisuse | BreakInvalidTimestamp | BreakInvalidField

datatype break_detail =
    NoDetail | SeqExpected int int | ChainHashShape | V3CarriesRun | VersionUnknown int
  | SeqNegative int | TombstoneShape | NotRFC3339 | NotCanonicalTime | Shape chain_error
  | PreviousShape

record ventry =
  v_EntryID :: string
  v_EntryType :: string
  v_Timestamp :: string
  v_FormatVersion :: int
  v_RunID :: string
  v_SequenceNum :: int
  v_GlobalSeq :: int
  v_ContentHash :: string
  v_ChainHash :: string

record vbreak =
  Position :: int
  b_EntryID :: string
  b_Type :: break_type
  Expected :: string
  Actual :: string
  Detail :: break_detail

record vresult =
  Verdict :: verdict
  EntriesVerified :: int
  TombstonesFound :: int
  LastTombstone :: int
  FirstBreak :: int
  Breaks :: "vbreak list"
  AnchorChecked :: bool

record options =
  MaxBreaks :: int
  o_PreviousHash :: string

record walker =
  opts :: options
  res :: vresult
  w_previousHash :: string
  w_previousSeq :: int
  w_first :: ventry
  w_last :: ventry

definition zero_entry :: ventry where
  "zero_entry = \<lparr>v_EntryID = [], v_EntryType = [], v_Timestamp = [], v_FormatVersion = 0,
     v_RunID = [], v_SequenceNum = 0, v_GlobalSeq = 0, v_ContentHash = [], v_ChainHash = []\<rparr>"

definition NewWalker :: "options \<Rightarrow> walker" where
  "NewWalker o' = \<lparr>opts = o',
     res = \<lparr>Verdict = VerdictIntact, EntriesVerified = 0, TombstonesFound = 0, LastTombstone = -1,
            FirstBreak = -1, Breaks = [], AnchorChecked = False\<rparr>,
     w_previousHash = o_PreviousHash o', w_previousSeq = 0, w_first = zero_entry, w_last = zero_entry\<rparr>"

definition Segment :: "walker \<Rightarrow> bool" where
  "Segment w \<longleftrightarrow> o_PreviousHash (opts w) \<noteq> []"

definition Count :: "walker \<Rightarrow> int" where
  "Count w = EntriesVerified (res w)"

definition First :: "walker \<Rightarrow> ventry" where "First w = w_first w"
definition Last :: "walker \<Rightarrow> ventry" where "Last w = w_last w"
definition Result :: "walker \<Rightarrow> vresult" where "Result w = res w"

definition result_break :: "int \<Rightarrow> vbreak \<Rightarrow> vresult \<Rightarrow> vresult" where
  "result_break maxBreaks b r =
     r\<lparr>FirstBreak := (if FirstBreak r = -1 then Position b else FirstBreak r),
       Verdict := VerdictBroken,
       Breaks := (if maxBreaks = 0 \<or> int (length (Breaks r)) < maxBreaks then Breaks r @ [b] else Breaks r)\<rparr>"

definition addBreak :: "vbreak \<Rightarrow> walker \<Rightarrow> walker" where
  "addBreak b w = w\<lparr>res := result_break (MaxBreaks (opts w)) b (res w)\<rparr>"

text \<open>A break without hashes, as all but one of the code's break literals are.\<close>

definition mk_break :: "int \<Rightarrow> ventry \<Rightarrow> break_type \<Rightarrow> break_detail \<Rightarrow> vbreak" where
  "mk_break i e ty d = \<lparr>Position = i, b_EntryID = v_EntryID e, b_Type = ty, Expected = [], Actual = [], Detail = d\<rparr>"

definition checkStart :: "ventry \<Rightarrow> walker \<Rightarrow> walker" where
  "checkStart e w =
     (if o_PreviousHash (opts w) \<noteq> [] \<and> \<not> is_hex128 (o_PreviousHash (opts w))
      then addBreak (mk_break 0 e BreakInvalidField PreviousShape) w else w)"

text \<open>The part of \<open>Add\<close> for a tombstone: its hash is not recomputable, so its format is checked
  and the walk advances on the stored hash.\<close>

definition add_tombstone :: "int \<Rightarrow> ventry \<Rightarrow> walker \<Rightarrow> walker" where
  "add_tombstone i e w0 =
     (let w1 = w0\<lparr>res := (res w0)\<lparr>TombstonesFound := TombstonesFound (res w0) + 1, LastTombstone := i\<rparr>\<rparr>;
          ver = NormalizeFormatVersion (v_FormatVersion e);
          w2 = (if ver = FormatV2 then w1
                else if ver = FormatV3 then
                  (if v_RunID e \<noteq> [] \<or> v_SequenceNum e \<noteq> 0
                   then addBreak (mk_break i e BreakFormatFieldMisuse V3CarriesRun) w1 else w1)
                else addBreak (mk_break i e BreakUnknownFormat (VersionUnknown (v_FormatVersion e))) w1);
          w3 = (if v_GlobalSeq e < 0
                then addBreak (mk_break i e BreakInvalidField (SeqNegative (v_GlobalSeq e))) w2 else w2);
          w4 = (if \<not> ValidateTombstoneContentHash (v_ContentHash e)
                then addBreak (mk_break i e BreakInvalidTombstone TombstoneShape) w3 else w3)
      in w4\<lparr>w_previousHash := v_ChainHash e\<rparr>)"

text \<open>The end of \<open>Add\<close>: the recomputed hash against the stored one.\<close>

definition add_hash ::
  "int \<Rightarrow> ventry \<Rightarrow> chain_error option \<Rightarrow> string \<Rightarrow> walker \<Rightarrow> walker" where
  "add_hash i e shapeErr expected w =
     (case shapeErr of
        Some err \<Rightarrow> (addBreak (mk_break i e BreakInvalidField (Shape err)) w)\<lparr>w_previousHash := v_ChainHash e\<rparr>
      | None \<Rightarrow>
          (if expected \<noteq> v_ChainHash e
           then addBreak ((mk_break i e BreakHashMismatch NoDetail)\<lparr>Expected := expected, Actual := v_ChainHash e\<rparr>) w
           else w)\<lparr>w_previousHash := expected\<rparr>)"

definition add_live :: "int \<Rightarrow> ventry \<Rightarrow> walker \<Rightarrow> walker" where
  "add_live i e w0 =
     (case parse_rfc3339 (v_Timestamp e) of
        None \<Rightarrow> (addBreak (mk_break i e BreakInvalidTimestamp NotRFC3339) w0)\<lparr>w_previousHash := v_ChainHash e\<rparr>
      | Some ts \<Rightarrow>
        let w = (if format_layout ts \<noteq> v_Timestamp e
                 then addBreak (mk_break i e BreakInvalidTimestamp NotCanonicalTime) w0 else w0);
            prev = w_previousHash w;
            ver = NormalizeFormatVersion (v_FormatVersion e)
        in if ver = FormatV2 then
             let shape = ValidateChainHashInputs prev (v_RunID e) (v_SequenceNum e) (v_ContentHash e);
                 shape' = (if shape = None \<and> v_GlobalSeq e < 0 then Some (GlobalSeqNegative (v_GlobalSeq e)) else shape)
             in add_hash i e shape'
                  (ComputeChainHashUnchecked prev (v_RunID e) (v_SequenceNum e) ts (v_ContentHash e)) w
           else if ver = FormatV3 then
             (if v_RunID e \<noteq> [] \<or> v_SequenceNum e \<noteq> 0
              then (addBreak (mk_break i e BreakFormatFieldMisuse V3CarriesRun) w)\<lparr>w_previousHash := v_ChainHash e\<rparr>
              else add_hash i e (ValidateChainHashInputsV3 prev (v_GlobalSeq e) (v_ContentHash e))
                     (ComputeChainHashV3Unchecked prev (v_GlobalSeq e) ts (v_ContentHash e)) w)
           else (addBreak (mk_break i e BreakUnknownFormat (VersionUnknown (v_FormatVersion e))) w)
                  \<lparr>w_previousHash := v_ChainHash e\<rparr>)"

definition Add :: "walker \<Rightarrow> ventry \<Rightarrow> walker" where
  "Add w0 e =
     (let i = EntriesVerified (res w0);
          w1 = w0\<lparr>res := (res w0)\<lparr>EntriesVerified := i + 1\<rparr>\<rparr>;
          w2 = (if i = 0 then checkStart e (w1\<lparr>w_first := e\<rparr>) else w1);
          w3 = w2\<lparr>w_last := e\<rparr>;
          w4 = (if 0 < i \<and> v_GlobalSeq e \<noteq> wrap64 (w_previousSeq w3 + 1)
                then addBreak (mk_break i e BreakSequenceGap
                       (SeqExpected (wrap64 (w_previousSeq w3 + 1)) (v_GlobalSeq e))) w3 else w3);
          w5 = w4\<lparr>w_previousSeq := v_GlobalSeq e\<rparr>
      in if \<not> is_hex128 (v_ChainHash e)
         then (addBreak (mk_break i e BreakInvalidField ChainHashShape) w5)\<lparr>w_previousHash := v_ChainHash e\<rparr>
         else if IsTombstone (v_EntryType e) (v_EntryID e) then add_tombstone i e w5
         else add_live i e w5)"

definition Chain :: "ventry list \<Rightarrow> options \<Rightarrow> vresult option" where
  "Chain entries o' = (if entries = [] then None else Some (Result (foldl Add (NewWalker o') entries)))"

text \<open>A stored row in the form the walker reads (\<open>toVerifyEntry\<close> of \<open>sink/files.go\<close>).\<close>

definition toVerifyEntry :: "entry \<Rightarrow> ventry" where
  "toVerifyEntry r = \<lparr>v_EntryID = EntryID r, v_EntryType = EntryType r,
     v_Timestamp = format_layout (Timestamp r), v_FormatVersion = FormatVersion r, v_RunID = [],
     v_SequenceNum = 0, v_GlobalSeq = GlobalSeq r, v_ContentHash = ContentHash r, v_ChainHash = ChainHash r\<rparr>"

subsection \<open>The breaks of one entry, as a function\<close>

definition start_breaks :: "string \<Rightarrow> ventry \<Rightarrow> vbreak list" where
  "start_breaks prev e =
     (if prev \<noteq> [] \<and> \<not> is_hex128 prev then [mk_break 0 e BreakInvalidField PreviousShape] else [])"

definition tombstone_breaks :: "int \<Rightarrow> ventry \<Rightarrow> vbreak list" where
  "tombstone_breaks i e =
     (let ver = NormalizeFormatVersion (v_FormatVersion e)
      in if ver = FormatV2 then []
         else if ver = FormatV3 then
           (if v_RunID e \<noteq> [] \<or> v_SequenceNum e \<noteq> 0 then [mk_break i e BreakFormatFieldMisuse V3CarriesRun] else [])
         else [mk_break i e BreakUnknownFormat (VersionUnknown (v_FormatVersion e))])
     @ (if v_GlobalSeq e < 0 then [mk_break i e BreakInvalidField (SeqNegative (v_GlobalSeq e))] else [])
     @ (if \<not> ValidateTombstoneContentHash (v_ContentHash e)
        then [mk_break i e BreakInvalidTombstone TombstoneShape] else [])"

definition hash_breaks ::
  "int \<Rightarrow> ventry \<Rightarrow> chain_error option \<Rightarrow> string \<Rightarrow> vbreak list \<times> string" where
  "hash_breaks i e shapeErr expected =
     (case shapeErr of
        Some err \<Rightarrow> ([mk_break i e BreakInvalidField (Shape err)], v_ChainHash e)
      | None \<Rightarrow>
          (if expected \<noteq> v_ChainHash e
           then [(mk_break i e BreakHashMismatch NoDetail)\<lparr>Expected := expected, Actual := v_ChainHash e\<rparr>]
           else [], expected))"

definition v2_shape :: "string \<Rightarrow> ventry \<Rightarrow> chain_error option" where
  "v2_shape prev e =
     (let shape = ValidateChainHashInputs prev (v_RunID e) (v_SequenceNum e) (v_ContentHash e)
      in if shape = None \<and> v_GlobalSeq e < 0 then Some (GlobalSeqNegative (v_GlobalSeq e)) else shape)"

definition live_breaks :: "int \<Rightarrow> string \<Rightarrow> ventry \<Rightarrow> vbreak list \<times> string" where
  "live_breaks i prev e =
     (case parse_rfc3339 (v_Timestamp e) of
        None \<Rightarrow> ([mk_break i e BreakInvalidTimestamp NotRFC3339], v_ChainHash e)
      | Some ts \<Rightarrow>
        let tb = (if format_layout ts \<noteq> v_Timestamp e
                  then [mk_break i e BreakInvalidTimestamp NotCanonicalTime] else []);
            ver = NormalizeFormatVersion (v_FormatVersion e);
            (bs, next) =
              (if ver = FormatV2 then
                 hash_breaks i e (v2_shape prev e)
                   (ComputeChainHashUnchecked prev (v_RunID e) (v_SequenceNum e) ts (v_ContentHash e))
               else if ver = FormatV3 then
                 (if v_RunID e \<noteq> [] \<or> v_SequenceNum e \<noteq> 0
                  then ([mk_break i e BreakFormatFieldMisuse V3CarriesRun], v_ChainHash e)
                  else hash_breaks i e (ValidateChainHashInputsV3 prev (v_GlobalSeq e) (v_ContentHash e))
                     (ComputeChainHashV3Unchecked prev (v_GlobalSeq e) ts (v_ContentHash e)))
               else ([mk_break i e BreakUnknownFormat (VersionUnknown (v_FormatVersion e))], v_ChainHash e))
        in (tb @ bs, next))"

text \<open>Breaks of the body of an entry (hash shape, tombstone or live), and the hash the walk
  continues from.\<close>

definition body_breaks :: "int \<Rightarrow> string \<Rightarrow> ventry \<Rightarrow> vbreak list \<times> string" where
  "body_breaks i prev e =
     (if \<not> is_hex128 (v_ChainHash e) then ([mk_break i e BreakInvalidField ChainHashShape], v_ChainHash e)
      else if IsTombstone (v_EntryType e) (v_EntryID e) then (tombstone_breaks i e, v_ChainHash e)
      else live_breaks i prev e)"

definition gap_breaks :: "int \<Rightarrow> int option \<Rightarrow> ventry \<Rightarrow> vbreak list" where
  "gap_breaks i prevSeq e =
     (case prevSeq of
        None \<Rightarrow> []
      | Some n \<Rightarrow>
          if v_GlobalSeq e \<noteq> wrap64 (n + 1)
          then [mk_break i e BreakSequenceGap (SeqExpected (wrap64 (n + 1)) (v_GlobalSeq e))] else [])"

fun walk_breaks :: "int \<Rightarrow> string \<Rightarrow> int option \<Rightarrow> ventry list \<Rightarrow> vbreak list" where
  "walk_breaks i prev prevSeq [] = []"
| "walk_breaks i prev prevSeq (e # es) =
     (if prevSeq = None then start_breaks prev e else []) @ gap_breaks i prevSeq e
     @ fst (body_breaks i prev e)
     @ walk_breaks (i + 1) (snd (body_breaks i prev e)) (Some (v_GlobalSeq e)) es"

definition all_breaks :: "string \<Rightarrow> ventry list \<Rightarrow> vbreak list" where
  "all_breaks prev es = walk_breaks 0 prev None es"

subsection \<open>The walker computes those breaks\<close>

definition kept :: "int \<Rightarrow> vbreak list \<Rightarrow> vbreak list" where
  "kept m bs = (if m = 0 then bs else take (nat m) bs)"

text \<open>The result a list of breaks determines, with the counters.\<close>

definition result_for :: "int \<Rightarrow> vbreak list \<Rightarrow> int \<Rightarrow> int \<Rightarrow> int \<Rightarrow> vresult" where
  "result_for m bs n tombs lastT =
     \<lparr>Verdict = (if bs = [] then VerdictIntact else VerdictBroken), EntriesVerified = n,
      TombstonesFound = tombs, LastTombstone = lastT,
      FirstBreak = (if bs = [] then -1 else Position (hd bs)), Breaks = kept m bs, AnchorChecked = False\<rparr>"

lemma kept_snoc:
  "(if m = 0 \<or> int (length (kept m bs)) < m then kept m bs @ [b] else kept m bs) = kept m (bs @ [b])"
  by (auto simp: kept_def min_def)

lemma result_break_for [simp]:
  "list_all (\<lambda>b. 0 \<le> Position b) bs \<Longrightarrow>
     result_break m b (result_for m bs n t lt) = result_for m (bs @ [b]) n t lt"
  using kept_snoc [of m bs b] by (cases bs) (auto simp: result_break_def result_for_def)

lemma result_for_updates [simp]:
  "EntriesVerified (result_for m bs n t lt) = n"
  "TombstonesFound (result_for m bs n t lt) = t"
  "(result_for m bs n t lt)\<lparr>EntriesVerified := n'\<rparr> = result_for m bs n' t lt"
  "(result_for m bs n t lt)\<lparr>TombstonesFound := t', LastTombstone := lt'\<rparr> = result_for m bs n t' lt'"
  by (simp_all add: result_for_def)

lemma addBreak_fields [simp]:
  "opts (addBreak b w) = opts w" "w_previousHash (addBreak b w) = w_previousHash w"
  "w_previousSeq (addBreak b w) = w_previousSeq w"
  "w_first (addBreak b w) = w_first w" "w_last (addBreak b w) = w_last w"
  "res (addBreak b w) = result_break (MaxBreaks (opts w)) b (res w)"
  by (simp_all add: addBreak_def)

lemma mk_break_position [simp]: "Position (mk_break i e ty d) = i"
  by (simp add: mk_break_def)

text \<open>The state of a walker after the breaks \<open>bs\<close>, in terms of what the rest of the walk reads.\<close>

definition walked :: "walker \<Rightarrow> options \<Rightarrow> vbreak list \<Rightarrow> int \<Rightarrow> int \<Rightarrow> int \<Rightarrow> string \<Rightarrow> int \<Rightarrow> bool" where
  "walked w o' bs n t lt prev seq \<longleftrightarrow>
     opts w = o' \<and> res w = result_for (MaxBreaks o') bs n t lt \<and> list_all (\<lambda>b. 0 \<le> Position b) bs \<and>
     w_previousHash w = prev \<and> w_previousSeq w = seq"

lemma walked_addBreak:
  "walked w o' bs n t lt prev seq \<Longrightarrow> 0 \<le> Position b \<Longrightarrow> walked (addBreak b w) o' (bs @ [b]) n t lt prev seq"
  by (simp add: walked_def)

lemma walked_updates [simp]:
  "walked (w\<lparr>w_previousHash := h\<rparr>) o' bs n t lt prev seq \<longleftrightarrow>
     prev = h \<and> walked w o' bs n t lt (w_previousHash w) seq"
  "walked (w\<lparr>w_previousSeq := k\<rparr>) o' bs n t lt prev seq \<longleftrightarrow>
     seq = k \<and> walked w o' bs n t lt prev (w_previousSeq w)"
  "walked (w\<lparr>w_first := e\<rparr>) o' bs n t lt prev seq = walked w o' bs n t lt prev seq"
  "walked (w\<lparr>w_last := e\<rparr>) o' bs n t lt prev seq = walked w o' bs n t lt prev seq"
  by (auto simp: walked_def)

lemma walked_prev: "walked w o' bs n t lt prev seq \<Longrightarrow> w_previousHash w = prev \<and> w_previousSeq w = seq \<and> opts w = o'"
  by (simp add: walked_def)

lemma walked_if:
  "walked w o' bs n t lt prev seq \<Longrightarrow> 0 \<le> Position b \<Longrightarrow>
     walked (if c then addBreak b w else w) o' (bs @ (if c then [b] else [])) n t lt prev seq"
  by (simp add: walked_addBreak)

lemma walked_hash:
  assumes "walked w o' bs n t lt prev seq" "0 \<le> i"
  shows "walked (add_hash i e sh ex w) o' (bs @ fst (hash_breaks i e sh ex)) n t lt
    (snd (hash_breaks i e sh ex)) seq"
  using assms walked_prev [OF assms(1)]
  by (auto simp: add_hash_def hash_breaks_def intro!: walked_addBreak split: option.splits)

lemma walked_tombstone:
  assumes "walked w o' bs n t lt prev seq" "0 \<le> i"
  shows "walked (add_tombstone i e w) o' (bs @ tombstone_breaks i e) n (t + 1) i (v_ChainHash e) seq"
proof -
  let ?w1 = "w\<lparr>res := (res w)\<lparr>TombstonesFound := TombstonesFound (res w) + 1, LastTombstone := i\<rparr>\<rparr>"
  have w1: "walked ?w1 o' bs n (t + 1) i prev seq" using assms by (simp add: walked_def)
  note w2 = walked_if [OF w1, of "mk_break i e BreakFormatFieldMisuse V3CarriesRun"
      "v_RunID e \<noteq> [] \<or> v_SequenceNum e \<noteq> 0"]
    walked_addBreak [OF w1, of "mk_break i e BreakUnknownFormat (VersionUnknown (v_FormatVersion e))"]
  define tb where "tb = (let ver = NormalizeFormatVersion (v_FormatVersion e)
      in if ver = FormatV2 then []
         else if ver = FormatV3 then
           (if v_RunID e \<noteq> [] \<or> v_SequenceNum e \<noteq> 0 then [mk_break i e BreakFormatFieldMisuse V3CarriesRun] else [])
         else [mk_break i e BreakUnknownFormat (VersionUnknown (v_FormatVersion e))])"
  define w2' where "w2' = (let ver = NormalizeFormatVersion (v_FormatVersion e)
      in if ver = FormatV2 then ?w1
         else if ver = FormatV3 then
           (if v_RunID e \<noteq> [] \<or> v_SequenceNum e \<noteq> 0
            then addBreak (mk_break i e BreakFormatFieldMisuse V3CarriesRun) ?w1 else ?w1)
         else addBreak (mk_break i e BreakUnknownFormat (VersionUnknown (v_FormatVersion e))) ?w1)"
  have "walked w2' o' (bs @ tb) n (t + 1) i prev seq"
    using w1 w2 assms(2) unfolding w2'_def tb_def Let_def by simp
  note w3 = walked_if [OF this, of "mk_break i e BreakInvalidField (SeqNegative (v_GlobalSeq e))" "v_GlobalSeq e < 0"]
  note w4 = walked_if [OF w3, of "mk_break i e BreakInvalidTombstone TombstoneShape"
      "\<not> ValidateTombstoneContentHash (v_ContentHash e)"]
  have t: "tombstone_breaks i e = tb @ (if v_GlobalSeq e < 0 then [mk_break i e BreakInvalidField (SeqNegative (v_GlobalSeq e))] else [])
     @ (if \<not> ValidateTombstoneContentHash (v_ContentHash e)
        then [mk_break i e BreakInvalidTombstone TombstoneShape] else [])"
    by (simp add: tombstone_breaks_def tb_def)
  have "add_tombstone i e w =
      (let w3 = (if v_GlobalSeq e < 0
                then addBreak (mk_break i e BreakInvalidField (SeqNegative (v_GlobalSeq e))) w2' else w2')
       in (if \<not> ValidateTombstoneContentHash (v_ContentHash e)
           then addBreak (mk_break i e BreakInvalidTombstone TombstoneShape) w3 else w3)\<lparr>w_previousHash := v_ChainHash e\<rparr>)"
    unfolding add_tombstone_def w2'_def Let_def ..
  then show ?thesis using w4 assms(2) unfolding t Let_def
    by (simp add: walked_prev [OF w4] del: if_split)
qed

lemma walked_live:
  assumes w: "walked w o' bs n t lt prev seq" and i: "0 \<le> i"
  shows "walked (add_live i e w) o' (bs @ fst (live_breaks i prev e)) n t lt (snd (live_breaks i prev e)) seq"
proof (cases "parse_rfc3339 (v_Timestamp e)")
  case None
  then show ?thesis using walked_addBreak [OF w, of "mk_break i e BreakInvalidTimestamp NotRFC3339"] i walked_prev [OF w]
    by (simp add: add_live_def live_breaks_def)
next
  case (Some ts)
  define tb where "tb = (if format_layout ts \<noteq> v_Timestamp e then [mk_break i e BreakInvalidTimestamp NotCanonicalTime] else [])"
  define w1 where "w1 = (if format_layout ts \<noteq> v_Timestamp e
                 then addBreak (mk_break i e BreakInvalidTimestamp NotCanonicalTime) w else w)"
  have w1: "walked w1 o' (bs @ tb) n t lt prev seq"
    unfolding w1_def tb_def by (rule walked_if [OF w]) (simp add: i)
  note prev = walked_prev [OF w1]
  let ?ver = "NormalizeFormatVersion (v_FormatVersion e)"
  consider "?ver = FormatV2" | "?ver = FormatV3" "v_RunID e \<noteq> [] \<or> v_SequenceNum e \<noteq> 0"
    | "?ver = FormatV3" "v_RunID e = []" "v_SequenceNum e = 0" | "?ver \<noteq> FormatV2" "?ver \<noteq> FormatV3" by blast
  then show ?thesis
  proof cases
    case 1
    let ?hash = "ComputeChainHashUnchecked prev (v_RunID e) (v_SequenceNum e) ts (v_ContentHash e)"
    have "add_live i e w = add_hash i e (v2_shape prev e) ?hash w1"
      unfolding v2_shape_def using 1 Some prev by (simp add: add_live_def Let_def flip: w1_def)
    moreover have "live_breaks i prev e
        = (tb @ fst (hash_breaks i e (v2_shape prev e) ?hash), snd (hash_breaks i e (v2_shape prev e) ?hash))"
      using 1 Some by (simp add: live_breaks_def Let_def case_prod_beta flip: tb_def)
    ultimately show ?thesis using walked_hash [OF w1 i, of e "v2_shape prev e" ?hash] by simp
  next
    case 2
    then show ?thesis
      using walked_addBreak [OF w1, of "mk_break i e BreakFormatFieldMisuse V3CarriesRun"] i Some prev
      by (auto simp: add_live_def live_breaks_def Let_def simp flip: w1_def tb_def)
  next
    case 3
    then show ?thesis
      using walked_hash [OF w1 i, of e "ValidateChainHashInputsV3 prev (v_GlobalSeq e) (v_ContentHash e)"
          "ComputeChainHashV3Unchecked prev (v_GlobalSeq e) ts (v_ContentHash e)"] Some prev
      by (simp add: add_live_def live_breaks_def Let_def case_prod_beta flip: w1_def tb_def)
  next
    case 4
    then show ?thesis
      using walked_addBreak [OF w1, of "mk_break i e BreakUnknownFormat (VersionUnknown (v_FormatVersion e))"] i Some prev
      by (simp add: add_live_def live_breaks_def Let_def flip: w1_def tb_def)
  qed
qed

definition counts_tombstone :: "ventry \<Rightarrow> bool" where
  "counts_tombstone e \<longleftrightarrow> is_hex128 (v_ChainHash e) \<and> IsTombstone (v_EntryType e) (v_EntryID e)"

lemma walked_Add:
  assumes w: "walked w o' bs n t lt prev seq" and n: "0 \<le> n" "n = 0 \<Longrightarrow> prev = o_PreviousHash o'"
  shows "walked (Add w e) o'
    (bs @ (if n = 0 then start_breaks prev e else []) @ gap_breaks n (if n = 0 then None else Some seq) e
       @ fst (body_breaks n prev e))
    (n + 1) (t + (if counts_tombstone e then 1 else 0)) (if counts_tombstone e then n else lt)
    (snd (body_breaks n prev e)) (v_GlobalSeq e)"
proof -
  have i: "EntriesVerified (res w) = n" using w by (simp add: walked_def)
  define w1 where "w1 = w\<lparr>res := (res w)\<lparr>EntriesVerified := n + 1\<rparr>\<rparr>"
  have w1: "walked w1 o' bs (n + 1) t lt prev seq" using w by (simp add: walked_def w1_def)
  define w2 where "w2 = (if n = 0 then checkStart e (w1\<lparr>w_first := e\<rparr>) else w1)"
  define b2 where "b2 = bs @ (if n = 0 then start_breaks prev e else [])"
  have w2: "walked w2 o' b2 (n + 1) t lt prev seq"
  proof (cases "n = 0")
    case True
    then show ?thesis using w1 n(2) walked_prev [OF w1]
      by (auto simp: w2_def b2_def checkStart_def start_breaks_def intro!: walked_addBreak)
  qed (use w1 in \<open>simp add: w2_def b2_def\<close>)
  define w3 where "w3 = w2\<lparr>w_last := e\<rparr>"
  have w3: "walked w3 o' b2 (n + 1) t lt prev seq" using w2 by (simp add: w3_def)
  define w4 where "w4 = (if 0 < n \<and> v_GlobalSeq e \<noteq> wrap64 (w_previousSeq w3 + 1)
                then addBreak (mk_break n e BreakSequenceGap
                       (SeqExpected (wrap64 (w_previousSeq w3 + 1)) (v_GlobalSeq e))) w3 else w3)"
  define b4 where "b4 = b2 @ gap_breaks n (if n = 0 then None else Some seq) e"
  have w4: "walked w4 o' b4 (n + 1) t lt prev seq"
    using w3 n(1) walked_prev [OF w3]
    by (auto simp: w4_def b4_def gap_breaks_def intro!: walked_addBreak)
  define w5 where "w5 = w4\<lparr>w_previousSeq := v_GlobalSeq e\<rparr>"
  have w5: "walked w5 o' b4 (n + 1) t lt prev (v_GlobalSeq e)"
    using w4 walked_prev [OF w4] by (simp add: w5_def)
  have add: "Add w e = (if \<not> is_hex128 (v_ChainHash e)
         then (addBreak (mk_break n e BreakInvalidField ChainHashShape) w5)\<lparr>w_previousHash := v_ChainHash e\<rparr>
         else if IsTombstone (v_EntryType e) (v_EntryID e) then add_tombstone n e w5
         else add_live n e w5)"
    by (simp only: Add_def i Let_def w5_def w4_def w3_def w2_def w1_def)
  have bs: "bs @ (if n = 0 then start_breaks prev e else []) @ gap_breaks n (if n = 0 then None else Some seq) e
       @ fst (body_breaks n prev e) = b4 @ fst (body_breaks n prev e)"
    by (simp add: b4_def b2_def)
  show ?thesis
    unfolding add bs
    using walked_addBreak [OF w5, of "mk_break n e BreakInvalidField ChainHashShape"]
      walked_tombstone [OF w5 n(1), of e] walked_live [OF w5 n(1), of e] n(1) walked_prev [OF w5]
    by (simp add: body_breaks_def counts_tombstone_def)
qed

fun last_tombstone :: "int \<Rightarrow> int \<Rightarrow> ventry list \<Rightarrow> int" where
  "last_tombstone i lt [] = lt"
| "last_tombstone i lt (e # es) = last_tombstone (i + 1) (if counts_tombstone e then i else lt) es"

lemma walked_foldl:
  assumes "walked w o' bs n t lt prev seq" and "0 \<le> n" "n = 0 \<Longrightarrow> prev = o_PreviousHash o'"
  shows "\<exists>prev' seq'. walked (foldl Add w es) o'
    (bs @ walk_breaks n prev (if n = 0 then None else Some seq) es) (n + int (length es))
    (t + int (length (filter counts_tombstone es))) (last_tombstone n lt es) prev' seq'"
  using assms
proof (induction es arbitrary: w bs n t lt prev seq)
  case Nil
  then show ?case by auto
next
  case (Cons e es)
  note step = walked_Add [OF Cons.prems, of e]
  have "0 \<le> n + 1" "n + 1 = 0 \<Longrightarrow> snd (body_breaks n prev e) = o_PreviousHash o'" using Cons.prems(2) by auto
  from Cons.IH [OF step this] show ?case
    using Cons.prems(2) by (auto simp: algebra_simps split: if_splits)
qed

lemma Chain_result:
  assumes "es \<noteq> []"
  shows "Chain es o' = Some (result_for (MaxBreaks o') (all_breaks (o_PreviousHash o') es) (int (length es))
    (int (length (filter counts_tombstone es))) (last_tombstone 0 (-1) es))"
proof -
  have "walked (NewWalker o') o' [] 0 0 (-1) (o_PreviousHash o') 0"
    by (simp add: walked_def NewWalker_def result_for_def kept_def)
  from walked_foldl [OF this, of es] show ?thesis
    using assms by (auto simp: Chain_def Result_def all_breaks_def walked_def)
qed

subsection \<open>What an intact verdict means\<close>

definition tombstone_ok :: "ventry \<Rightarrow> bool" where
  "tombstone_ok e \<longleftrightarrow>
     (NormalizeFormatVersion (v_FormatVersion e) = FormatV2 \<or>
      NormalizeFormatVersion (v_FormatVersion e) = FormatV3 \<and> v_RunID e = [] \<and> v_SequenceNum e = 0) \<and>
     0 \<le> v_GlobalSeq e \<and> ValidateTombstoneContentHash (v_ContentHash e)"

text \<open>The recomputation by the checked hash functions of \<open>chainformat\<close>.\<close>

definition live_ok :: "string \<Rightarrow> ventry \<Rightarrow> bool" where
  "live_ok prev e =
     (case parse_rfc3339 (v_Timestamp e) of
        None \<Rightarrow> False
      | Some ts \<Rightarrow> format_layout ts = v_Timestamp e \<and>
          (NormalizeFormatVersion (v_FormatVersion e) = FormatV2 \<and> 0 \<le> v_GlobalSeq e \<and>
             ComputeChainHash prev (v_RunID e) (v_SequenceNum e) ts (v_ContentHash e) = Inr (v_ChainHash e) \<or>
           NormalizeFormatVersion (v_FormatVersion e) = FormatV3 \<and> v_RunID e = [] \<and> v_SequenceNum e = 0 \<and>
             ComputeChainHashV3 prev (v_GlobalSeq e) ts (v_ContentHash e) = Inr (v_ChainHash e)))"

definition entry_ok :: "string \<Rightarrow> ventry \<Rightarrow> bool" where
  "entry_ok prev e \<longleftrightarrow> is_hex128 (v_ChainHash e) \<and>
     (if IsTombstone (v_EntryType e) (v_EntryID e) then tombstone_ok e else live_ok prev e)"

fun chain_ok :: "string \<Rightarrow> int option \<Rightarrow> ventry list \<Rightarrow> bool" where
  "chain_ok prev prevSeq [] = True"
| "chain_ok prev prevSeq (e # es) =
     ((case prevSeq of None \<Rightarrow> True | Some n \<Rightarrow> v_GlobalSeq e = wrap64 (n + 1)) \<and> entry_ok prev e \<and>
      chain_ok (v_ChainHash e) (Some (v_GlobalSeq e)) es)"

text \<open>A timestamp in canonical form has a year the hash can carry.\<close>

lemma length_dec_nat_5: "9999 < n \<Longrightarrow> 5 \<le> length (dec_nat n)"
proof -
  assume n: "9999 < n"
  have step: "10 \<le> k \<Longrightarrow> length (dec_nat k) = Suc (length (dec_nat (k div 10)))" for k
    by (subst dec_nat.simps) simp
  have "1 \<le> length (dec_nat (n div 10 div 10 div 10 div 10))"
    using dec_nat_not_Nil by (metis One_nat_def Suc_leI length_greater_0_conv)
  then show ?thesis
    using n step [of n] step [of "n div 10"] step [of "n div 10 div 10"] step [of "n div 10 div 10 div 10"]
    by linarith
qed

lemma canonical_year:
  assumes "parse_rfc3339 s = Some ts" "format_layout ts = s"
  shows "ValidateTimestamp ts = None"
proof -
  obtain a b c d r where s: "s = a # b # c # d # CHR ''-'' # r" "is_digit a"
    using assms(1) by (auto simp: parse_rfc3339_def num4_def lit_def split: list.splits if_splits)
  obtain y m dd hh mm ss where f: "utc_date ts = (y, m, dd)" "utc_clock ts = (hh, mm, ss)"
    by (metis prod_cases3)
  obtain t where fy: "s = fmt_year y @ CHR ''-'' # t"
    using assms(2) f by (auto simp: format_layout_def date_time_text_def)
  have "0 \<le> y"
  proof (rule ccontr)
    assume "\<not> 0 \<le> y"
    then have "a = CHR ''-''" using fy s by (simp add: fmt_year_def)
    then show False using s(2) by (simp add: is_digit_def)
  qed
  moreover have "y \<le> 9999"
  proof (rule ccontr)
    assume "\<not> y \<le> 9999"
    then have "9999 < nat y" "0 \<le> y" by auto
    from length_dec_nat_5 [OF this(1)] have l: "5 \<le> length (dec_nat (nat y))" .
    then have "fmt_year y = dec_nat (nat y)" using \<open>0 \<le> y\<close> by (simp add: fmt_year_def pad_dec_def)
    then have "s ! 4 = dec_nat (nat y) ! 4" using fy l by (simp add: nth_append)
    then have "CHR ''-'' = dec_nat (nat y) ! 4" using s by simp
    moreover have "is_digit (dec_nat (nat y) ! 4)" using digits_dec_nat [of "nat y"] l by (simp add: list_all_length)
    ultimately show False by (simp add: is_digit_def flip: \<open>CHR ''-'' = _\<close>)
  qed
  ultimately show ?thesis using f by (simp add: ValidateTimestamp_iff utc_year_def)
qed

lemma tombstone_breaks_iff: "tombstone_breaks i e = [] \<longleftrightarrow> tombstone_ok e"
  by (auto simp: tombstone_breaks_def tombstone_ok_def Let_def)

lemma hash_breaks_Nil:
  "fst (hash_breaks i e sh ex) = [] \<longleftrightarrow> sh = None \<and> ex = v_ChainHash e"
  "fst (hash_breaks i e sh ex) = [] \<Longrightarrow> snd (hash_breaks i e sh ex) = v_ChainHash e"
  by (auto simp: hash_breaks_def split: option.splits if_splits)

lemma live_breaks_iff:
  "fst (live_breaks i prev e) = [] \<longleftrightarrow> live_ok prev e"
proof (cases "parse_rfc3339 (v_Timestamp e)")
  case None
  then show ?thesis by (simp add: live_breaks_def live_ok_def)
next
  case (Some ts)
  show ?thesis
  proof (cases "format_layout ts = v_Timestamp e")
    case False
    then show ?thesis using Some by (simp add: live_breaks_def live_ok_def Let_def case_prod_beta)
  next
    case True
    then have v: "ValidateTimestamp ts = None" using canonical_year [OF Some] by simp
    show ?thesis using Some True v
      by (auto simp: live_breaks_def live_ok_def Let_def case_prod_beta hash_breaks_Nil v2_shape_def
          ComputeChainHash_Inr ComputeChainHashV3_Inr)
  qed
qed

lemma live_breaks_next: "fst (live_breaks i prev e) = [] \<Longrightarrow> snd (live_breaks i prev e) = v_ChainHash e"
  by (auto simp: live_breaks_def Let_def case_prod_beta hash_breaks_Nil split: option.splits if_splits)

lemma body_breaks_iff: "fst (body_breaks i prev e) = [] \<longleftrightarrow> entry_ok prev e"
  by (auto simp: body_breaks_def entry_ok_def tombstone_breaks_iff live_breaks_iff)

lemma body_breaks_next: "fst (body_breaks i prev e) = [] \<Longrightarrow> snd (body_breaks i prev e) = v_ChainHash e"
  by (auto simp: body_breaks_def live_breaks_next split: if_splits)

lemma walk_breaks_Nil:
  "walk_breaks i prev prevSeq es = [] \<longleftrightarrow>
     (prevSeq = None \<and> es \<noteq> [] \<longrightarrow> prev_shape prev) \<and> chain_ok prev prevSeq es"
proof (induction i prev prevSeq es rule: walk_breaks.induct)
  case (2 i prev prevSeq e es)
  have s: "start_breaks prev e = [] \<longleftrightarrow> prev_shape prev" by (auto simp: start_breaks_def prev_shape_def)
  have g: "gap_breaks i prevSeq e = [] \<longleftrightarrow> (case prevSeq of None \<Rightarrow> True | Some n \<Rightarrow> v_GlobalSeq e = wrap64 (n + 1))"
    by (auto simp: gap_breaks_def split: option.splits)
  show ?case using 2 body_breaks_next [of i prev e] by (auto simp: s g body_breaks_iff)
qed simp

lemma all_breaks_Nil: "es \<noteq> [] \<Longrightarrow> all_breaks prev es = [] \<longleftrightarrow> prev_shape prev \<and> chain_ok prev None es"
  by (simp add: all_breaks_def walk_breaks_Nil)

lemma Chain_intact:
  "es \<noteq> [] \<Longrightarrow> (\<exists>r. Chain es o' = Some r \<and> Verdict r = VerdictIntact) \<longleftrightarrow>
     prev_shape (o_PreviousHash o') \<and> chain_ok (o_PreviousHash o') None es"
  using all_breaks_Nil [of es "o_PreviousHash o'"] by (simp add: Chain_result result_for_def)

subsection \<open>Splitting a walk\<close>

definition end_hash :: "string \<Rightarrow> ventry list \<Rightarrow> string" where
  "end_hash prev es = (if es = [] then prev else v_ChainHash (last es))"

definition end_seq :: "int option \<Rightarrow> ventry list \<Rightarrow> int option" where
  "end_seq prevSeq es = (if es = [] then prevSeq else Some (v_GlobalSeq (last es)))"

lemma chain_ok_append:
  "chain_ok prev prevSeq (xs @ ys) \<longleftrightarrow>
     chain_ok prev prevSeq xs \<and> chain_ok (end_hash prev xs) (end_seq prevSeq xs) ys"
  by (induction xs arbitrary: prev prevSeq) (auto simp: end_hash_def end_seq_def split: if_splits)

lemma chain_ok_start: "chain_ok prev (Some n) es \<longleftrightarrow>
    chain_ok prev None es \<and> (es = [] \<or> v_GlobalSeq (hd es) = wrap64 (n + 1))"
  by (cases es) auto

lemma chain_ok_hashes: "chain_ok prev prevSeq es \<Longrightarrow> e \<in> set es \<Longrightarrow> is_hex128 (v_ChainHash e)"
  by (induction es arbitrary: prev prevSeq) (auto simp: entry_ok_def)

lemma end_hash_shape: "chain_ok prev prevSeq es \<Longrightarrow> prev_shape prev \<Longrightarrow> prev_shape (end_hash prev es)"
  using chain_ok_hashes [of prev prevSeq es "last es"] by (auto simp: end_hash_def prev_shape_def)

subsection \<open>What the linker writes is intact\<close>

lemma format_trunc [simp]: "format_layout (trunc_micro t) = format_layout t"
  by (simp add: format_layout_def date_time_text_def trunc_micro_def utc_date_def utc_clock_def)

lemma append_trunc [simp]: "appendTimestampMicro (trunc_micro t) = appendTimestampMicro t"
  by (simp add: appendTimestampMicro_def trunc_micro_def utc_date_def utc_clock_def)

lemma year_trunc [simp]: "utc_year (trunc_micro t) = utc_year t"
  by (simp add: utc_year_def trunc_micro_def utc_date_def)

lemma v3_hash_trunc [simp]: "ComputeChainHashV3 p n (trunc_micro t) c = ComputeChainHashV3 p n t c"
proof -
  have "ValidateTimestamp (trunc_micro t) = ValidateTimestamp t" by (simp add: ValidateTimestamp_def)
  moreover have "ComputeChainHashV3Unchecked p n (trunc_micro t) c = ComputeChainHashV3Unchecked p n t c"
    by (simp add: ComputeChainHashV3Unchecked_def chain_preimage_v3_def)
  ultimately show ?thesis by (simp only: ComputeChainHashV3_def)
qed

lemma linked_intact:
  "linked FormatV3 c n runID i prev bs es \<Longrightarrow> list_all input_ok bs \<Longrightarrow>
   list_all (\<lambda>b. wf_time (i_Timestamp b)) bs \<Longrightarrow>
     chain_ok prev (Some (n + int i - 1)) (map toVerifyEntry es)"
proof (induction bs arbitrary: i prev es)
  case Nil
  then show ?case by simp
next
  case (Cons b bs)
  then obtain e es' where es: "es = e # es'"
    and e: "e = entry_for FormatV3 c runID (wrap64 (n + int i)) i prev (ChainHash e) b"
    and h: "entry_hash FormatV3 prev runID (int i) (wrap64 (n + int i)) (i_Timestamp b) (i_ContentHash b) = Inr (ChainHash e)"
    and l: "linked FormatV3 c n runID (Suc i) (ChainHash e) bs es'" by (cases es) auto
  have f: "GlobalSeq e = wrap64 (n + int i)" "Timestamp e = i_Timestamp b" "EntryType e = i_EntryType b"
    "FormatVersion e = FormatV3" "ContentHash e = i_ContentHash b"
    by (subst e, simp add: entry_for_def)+
  have b: "0 \<le> utc_year (i_Timestamp b)" "utc_year (i_Timestamp b) \<le> 9999" "wf_time (i_Timestamp b)"
    "i_EntryType b \<noteq> TombstoneEntryType"
    using Cons.prems by (auto simp: input_ok_def ValidateTimestamp_iff)
  have "is_hex128 (ChainHash e)"
    using h by (auto simp: entry_hash_def ComputeChainHashV3_Inr)
  moreover have "live_ok prev (toVerifyEntry e)"
    using h by (simp add: live_ok_def toVerifyEntry_def f parse_format [OF b(1-3)] entry_hash_def
        NormalizeFormatVersion_def FormatV3_def FormatV2_def)
  ultimately have "entry_ok prev (toVerifyEntry e)"
    using b(4) by (simp add: entry_ok_def IsTombstone_def toVerifyEntry_def f)
  moreover have "chain_ok (ChainHash e) (Some (n + int (Suc i) - 1)) (map toVerifyEntry es')"
    using Cons.IH [OF l] Cons.prems by simp
  then have "chain_ok (ChainHash e) (Some (wrap64 (n + int i))) (map toVerifyEntry es')"
    using wrap64_add [of "n + int i" 1] by (simp add: chain_ok_start)
  moreover have "v_ChainHash (toVerifyEntry e) = ChainHash e" "v_GlobalSeq (toVerifyEntry e) = wrap64 (n + int i)"
    by (simp_all add: toVerifyEntry_def f)
  ultimately show ?case using es by simp
qed

lemma linked_types: "linked format c next runID i prev bs es \<Longrightarrow> map EntryType es = map i_EntryType bs"
proof (induction format c "next" runID i prev bs es rule: linked.induct)
  case (2 format c "next" runID i prev b bs es)
  then obtain e es' where es: "es = e # es'" by (cases es) auto
  with 2 have "EntryType e = i_EntryType b" by simp (metis entry_for_def entry.select_convs(3))
  then show ?case using 2 es by auto
qed auto

subsection \<open>What the hashes bind\<close>

text \<open>The string hashed for a live entry, and for a chain without tombstones, in order.\<close>

definition live_preimage :: "string \<Rightarrow> ventry \<Rightarrow> bytes" where
  "live_preimage prev e =
     (let ts = the (parse_rfc3339 (v_Timestamp e))
      in if NormalizeFormatVersion (v_FormatVersion e) = FormatV2
         then chain_preimage_v2 prev (v_RunID e) (v_SequenceNum e) ts (v_ContentHash e)
         else chain_preimage_v3 prev (v_GlobalSeq e) ts (v_ContentHash e))"

fun chain_preimages :: "string \<Rightarrow> ventry list \<Rightarrow> bytes list" where
  "chain_preimages prev [] = []"
| "chain_preimages prev (e # es) = live_preimage prev e # chain_preimages (v_ChainHash e) es"

text \<open>The fields a chain hash binds: not the entry id and type, and the global sequence only in
  format v3.\<close>

definition bound_fields :: "ventry \<Rightarrow> int \<times> string \<times> int \<times> int \<times> string \<times> string \<times> string" where
  "bound_fields e =
     (let ver = NormalizeFormatVersion (v_FormatVersion e)
      in (ver, v_RunID e, v_SequenceNum e, if ver = FormatV3 then v_GlobalSeq e else 0,
          v_Timestamp e, v_ContentHash e, v_ChainHash e))"

definition live :: "ventry \<Rightarrow> bool" where
  "live e \<longleftrightarrow> \<not> IsTombstone (v_EntryType e) (v_EntryID e)"

lemma chain_preimages_append:
  "chain_preimages prev (xs @ ys) = chain_preimages prev xs @ chain_preimages (end_hash prev xs) ys"
  by (induction xs arbitrary: prev) (auto simp: end_hash_def)

lemma live_hash:
  assumes "entry_ok prev e" "live e"
  shows "v_ChainHash e = hex_sha512 (live_preimage prev e)"
  using assms
  by (auto simp: entry_ok_def live_def live_ok_def live_preimage_def Let_def ComputeChainHash_Inr
      ComputeChainHashV3_Inr ComputeChainHashUnchecked_def ComputeChainHashV3Unchecked_def
      split: option.splits)

lemma canonical_append:
  assumes "parse_rfc3339 s = Some ts" "format_layout ts = s"
  shows "appendTimestampMicro ts = s"
  using canonical_year [OF assms] assms(2) by (simp add: appendTimestampMicro_format ValidateTimestamp_iff)

lemma live_preimage_inject:
  assumes x: "entry_ok p x" "live x" and y: "entry_ok q y" "live y"
    and shapes: "prev_shape p" "prev_shape q"
    and eq: "live_preimage p x = live_preimage q y"
  shows "p = q \<and> bound_fields x = bound_fields y"
proof -
  obtain tx where tx: "parse_rfc3339 (v_Timestamp x) = Some tx" "format_layout tx = v_Timestamp x"
    using x by (auto simp: entry_ok_def live_def live_ok_def split: option.splits)
  obtain ty where ty: "parse_rfc3339 (v_Timestamp y) = Some ty" "format_layout ty = v_Timestamp y"
    using y by (auto simp: entry_ok_def live_def live_ok_def split: option.splits)
  note ts = canonical_append [OF tx] canonical_append [OF ty]
  have h: "v_ChainHash x = v_ChainHash y"
    using live_hash [OF x] live_hash [OF y] eq by simp
  consider (v2) "NormalizeFormatVersion (v_FormatVersion x) = FormatV2"
      "ComputeChainHash p (v_RunID x) (v_SequenceNum x) tx (v_ContentHash x) = Inr (v_ChainHash x)"
    | (v3) "NormalizeFormatVersion (v_FormatVersion x) = FormatV3" "v_RunID x = []" "v_SequenceNum x = 0"
      "ComputeChainHashV3 p (v_GlobalSeq x) tx (v_ContentHash x) = Inr (v_ChainHash x)"
    using x tx by (auto simp: entry_ok_def live_def live_ok_def)
  note cx = this
  consider (v2) "NormalizeFormatVersion (v_FormatVersion y) = FormatV2"
      "ComputeChainHash q (v_RunID y) (v_SequenceNum y) ty (v_ContentHash y) = Inr (v_ChainHash y)"
    | (v3) "NormalizeFormatVersion (v_FormatVersion y) = FormatV3" "v_RunID y = []" "v_SequenceNum y = 0"
      "ComputeChainHashV3 q (v_GlobalSeq y) ty (v_ContentHash y) = Inr (v_ChainHash y)"
    using y ty by (auto simp: entry_ok_def live_def live_ok_def)
  then show ?thesis
  proof cases
    case yv2: v2
    show ?thesis using cx
    proof cases
      case v2
      have "chain_preimage_v2 p (v_RunID x) (v_SequenceNum x) tx (v_ContentHash x)
          = chain_preimage_v2 q (v_RunID y) (v_SequenceNum y) ty (v_ContentHash y)"
        using eq v2 yv2 tx ty by (simp add: live_preimage_def)
      from chain_preimage_v2_inject [OF this shapes] v2 yv2 ts h show ?thesis
        by (auto simp: bound_fields_def Let_def ComputeChainHash_Inr ValidateChainHashInputs_iff)
    next
      case v3
      then show ?thesis using eq yv2 tx ty chain_preimages_differ
        by (simp add: live_preimage_def) metis
    qed
  next
    case yv3: v3
    show ?thesis using cx
    proof cases
      case v2
      then show ?thesis using eq yv3 tx ty chain_preimages_differ
        by (simp add: live_preimage_def)
    next
      case v3
      have "chain_preimage_v3 p (v_GlobalSeq x) tx (v_ContentHash x)
          = chain_preimage_v3 q (v_GlobalSeq y) ty (v_ContentHash y)"
        using eq v3 yv3 tx ty by (simp add: live_preimage_def)
      from chain_preimage_v3_inject [OF this shapes] v3 yv3 ts h show ?thesis
        by (auto simp: bound_fields_def Let_def)
    qed
  qed
qed

lemma same_end_same_chain:
  "chain_ok [] None xs \<Longrightarrow> chain_ok [] None ys \<Longrightarrow> list_all live xs \<Longrightarrow> list_all live ys \<Longrightarrow>
   end_hash [] xs = end_hash [] ys \<Longrightarrow>
     map bound_fields xs = map bound_fields ys \<or> collide (chain_preimages [] xs) (chain_preimages [] ys)"
proof (induction xs arbitrary: ys rule: rev_induct)
  case Nil
  have "ys = []"
  proof (rule ccontr)
    assume "ys \<noteq> []"
    then have "is_hex128 (v_ChainHash (last ys))" using chain_ok_hashes [OF Nil(2)] by simp
    then show False using Nil(5) \<open>ys \<noteq> []\<close> by (simp add: end_hash_def is_hex128_def split: if_splits)
  qed
  then show ?case by simp
next
  case (snoc x xs)
  have "is_hex128 (v_ChainHash x)" using chain_ok_hashes [OF snoc(2)] by simp
  then have "ys \<noteq> []" using snoc(6) by (auto simp: end_hash_def is_hex128_def)
  then obtain y ys' where ys: "ys = ys' @ [y]" by (cases ys rule: rev_cases) auto
  let ?p = "end_hash [] xs" and ?q = "end_hash [] ys'"
  have ok: "chain_ok [] None xs" "entry_ok ?p x" "chain_ok [] None ys'" "entry_ok ?q y"
    "live x" "live y" "list_all live xs" "list_all live ys'"
    using snoc.prems unfolding ys by (simp_all add: chain_ok_append)
  have shapes: "prev_shape ?p" "prev_shape ?q"
    using end_hash_shape [OF ok(1)] end_hash_shape [OF ok(3)] by (simp_all add: prev_shape_def)
  have "hex_sha512 (live_preimage ?p x) = hex_sha512 (live_preimage ?q y)"
    using live_hash [OF ok(2,5)] live_hash [OF ok(4,6)] snoc(6) ys by (simp add: end_hash_def)
  then have "live_preimage ?p x = live_preimage ?q y \<or> collision (live_preimage ?p x) (live_preimage ?q y)"
    by (auto dest!: hex_sha512_eqD)
  then show ?case
  proof
    assume "collision (live_preimage ?p x) (live_preimage ?q y)"
    then show ?thesis unfolding ys by (auto simp: chain_preimages_append collide_iff)
  next
    assume "live_preimage ?p x = live_preimage ?q y"
    from live_preimage_inject [OF ok(2,5,4,6) shapes this] have "?p = ?q" "bound_fields x = bound_fields y"
      by auto
    with snoc.IH [OF ok(1,3,7,8)] show ?thesis unfolding ys
      by (auto simp: chain_preimages_append collide_iff)
  qed
qed

lemma entry_ok_seq: "entry_ok p e \<Longrightarrow> 0 \<le> v_GlobalSeq e"
  by (auto simp: entry_ok_def tombstone_ok_def live_ok_def ComputeChainHashV3_Inr ValidateChainHashInputsV3_iff
      split: if_splits option.splits)

definition intact :: "ventry list \<Rightarrow> options \<Rightarrow> bool" where
  "intact es o' = (case Chain es o' of None \<Rightarrow> False | Some r \<Rightarrow> Verdict r = VerdictIntact)"

lemma intact_iff_chain_ok:
  "intact es o' \<longleftrightarrow> es \<noteq> [] \<and> prev_shape (o_PreviousHash o') \<and> chain_ok (o_PreviousHash o') None es"
proof (cases "es = []")
  case True
  then show ?thesis by (simp add: intact_def Chain_def)
next
  case False
  then show ?thesis using Chain_intact [OF False, of o'] by (auto simp: intact_def split: option.splits)
qed

text \<open>The options of a whole chain: no cap on the breaks, a genesis entry first.\<close>

definition from_genesis :: options where
  "from_genesis = \<lparr>MaxBreaks = 0, o_PreviousHash = []\<rparr>"

lemma from_genesis_fields [simp]: "o_PreviousHash from_genesis = []" "MaxBreaks from_genesis = 0"
  by (simp_all add: from_genesis_def)

lemma prev_shape_Nil [simp]: "prev_shape []" by (simp add: prev_shape_def)

lemma append_intact_lemma:
  assumes wf: "wf_mem s" and l: "l_store l = mem_ops rand" "l_format l = FormatV3"
    and room: "room (rows s c) (length inputs)"
    and before: "rows s c = [] \<or> intact (map toVerifyEntry (rows s c)) from_genesis"
    and times: "list_all (\<lambda>b. wf_time (i_Timestamp b)) inputs"
    and run: "Append_linker l ctxs c inputs s = (r, s')" "wrote r \<noteq> None"
  shows "intact (map toVerifyEntry (rows s' c)) from_genesis \<and>
    list_all live (map toVerifyEntry (drop (length (rows s c)) (rows s' c))) \<and>
    length (rows s' c) = length (rows s c) + length inputs"
proof -
  obtain res where res: "wrote r = Some res" using run(2) by auto
  obtain es where ok: "batch_ok inputs" and rows: "rows s' = (rows s)(c := rows s c @ es)"
    and lk: "link l c (last_hash (rows s c)) (last_seq (rows s c) + 1) (r_RunID res) (sortInputs inputs) = Inr es"
    using memory_append [OF wf l(1) room run(1)] unfolding res option.case by blast
  have li: "linked FormatV3 c (last_seq (rows s c) + 1) (r_RunID res) 0 (last_hash (rows s c)) (sortInputs inputs) es"
    using lk l(2) by (simp add: link_def link_loop_linked)
  have "inputs \<noteq> []"
    using run by (auto simp: Append_linker_def wrote_def split: if_splits)
  have "list_all input_ok (sortInputs inputs)" "list_all (\<lambda>b. wf_time (i_Timestamp b)) (sortInputs inputs)"
    using ok times by (auto simp: batch_ok_def list_all_iff)
  note new = linked_intact [OF li this]
  have len: "length es = length inputs" using linked_length [OF li] by simp
  then have "es \<noteq> []" using \<open>inputs \<noteq> []\<close> by auto
  have types: "EntryType e \<noteq> TombstoneEntryType" if "e \<in> set es" for e
  proof -
    obtain k where k: "k < length es" "es ! k = e" using \<open>e \<in> set es\<close> by (auto simp: in_set_conv_nth)
    have "map EntryType es = map i_EntryType (sortInputs inputs)" using linked_types [OF li] .
    then have "EntryType e \<in> i_EntryType ` set inputs" using that by (metis image_eqI list.set_map sortInputs_facts(2))
    then show ?thesis using ok by (auto simp: batch_ok_def list_all_iff input_ok_def)
  qed
  have "chain_ok [] None (map toVerifyEntry (rows s c @ es))"
  proof (cases "rows s c = []")
    case True
    then show ?thesis using new by (simp add: last_hash_def chain_ok_start)
  next
    case False
    then have old: "chain_ok [] None (map toVerifyEntry (rows s c))" using before by (simp add: intact_iff_chain_ok)
    have "end_hash [] (map toVerifyEntry (rows s c)) = last_hash (rows s c)"
      "end_seq None (map toVerifyEntry (rows s c)) = Some (last_seq (rows s c))"
      using False by (simp_all add: end_hash_def end_seq_def last_hash_def last_seq_def last_map toVerifyEntry_def)
    then show ?thesis using old new by (simp add: chain_ok_append)
  qed
  then show ?thesis using rows \<open>es \<noteq> []\<close> len types
    by (auto simp: intact_iff_chain_ok list_all_iff live_def IsTombstone_def toVerifyEntry_def)
qed

lemma example_chain_ids:
  "\<exists>xs. length xs = 2 \<and> intact xs from_genesis \<and> list_all live xs \<and>
     set (map v_EntryID xs) = set (map i_EntryID example_batch)"
proof -
  obtain res s' where a: "Append_linker example_linker (\<lambda>_. False) ''c'' example_batch New = (Inr res, s')"
    using example_append by blast
  have room: "room (rows New ''c'') (length example_batch)" by (simp add: room_def int64_def)
  moreover have "list_all (\<lambda>b. wf_time (i_Timestamp b)) example_batch" by (simp add: example_batch_def)
  ultimately have ok: "intact (map toVerifyEntry (rows s' ''c'')) from_genesis \<and>
      list_all live (map toVerifyEntry (drop (length (rows New ''c'')) (rows s' ''c''))) \<and>
      length (rows s' ''c'') = length (rows New ''c'') + length example_batch"
    using append_intact_lemma [OF wf_mem_New example_linker_fields _ _ _ a] by (simp add: wrote_def)
  obtain es where rows: "rows s' = (rows New)(''c'' := es)"
    and lk: "linked FormatV3 ''c'' 0 (r_RunID res) 0 [] (sortInputs example_batch) es"
    using memory_append [OF wf_mem_New example_linker_fields(1) room a]
    by (auto simp: wrote_def link_def link_loop_linked last_seq_def last_hash_def split: sum.splits option.splits)
  have "map v_EntryID (map toVerifyEntry (rows s' ''c'')) = map i_EntryID (sortInputs example_batch)"
    unfolding rows using linked_ids [OF lk] by (simp add: toVerifyEntry_def comp_def)
  then have "set (map v_EntryID (map toVerifyEntry (rows s' ''c''))) = set (map i_EntryID example_batch)"
    by (simp only: set_map sortInputs_facts(2))
  with ok show ?thesis by (intro exI [of _ "map toVerifyEntry (rows s' ''c'')"]) simp
qed

lemma example_chain:
  "\<exists>xs. length xs = 2 \<and> intact xs from_genesis \<and> list_all live xs"
  using example_chain_ids by blast

subsection \<open>Properties\<close>

text \<open>\<open>Chain\<close> refuses only the empty list, and its result is a function of the breaks of the
  entries: the verdict is intact exactly when there is none, the first break's position and the
  counts do not depend on \<open>MaxBreaks\<close>, which only cuts the list that is kept.\<close>

theorem chain_result_functional:
  "Chain es o' =
     (if es = [] then None
      else Some \<lparr>Verdict = (if all_breaks (o_PreviousHash o') es = [] then VerdictIntact else VerdictBroken),
        EntriesVerified = int (length es), TombstonesFound = int (length (filter counts_tombstone es)),
        LastTombstone = last_tombstone 0 (-1) es,
        FirstBreak = (case all_breaks (o_PreviousHash o') es of [] \<Rightarrow> -1 | b # _ \<Rightarrow> Position b),
        Breaks = kept (MaxBreaks o') (all_breaks (o_PreviousHash o') es), AnchorChecked = False\<rparr>)"
proof (cases "es = []")
  case True
  then show ?thesis by (simp add: Chain_def)
next
  case False
  then show ?thesis by (auto simp: Chain_result result_for_def split: list.splits)
qed

text \<open>C14. What \<open>INTACT\<close> means: the entries are at consecutive positions, every chain hash is 128
  hex characters, every tombstone is well formed, and every other entry has its timestamp in
  canonical form and a chain hash that the checked hash function of its format recomputes from
  its fields and the stored hash before it.\<close>

theorem intact_means_recomputed:
  "(case Chain es o' of None \<Rightarrow> False | Some r \<Rightarrow> Verdict r = VerdictIntact) \<longleftrightarrow>
     es \<noteq> [] \<and> prev_shape (o_PreviousHash o') \<and> chain_ok (o_PreviousHash o') None es"
  using intact_iff_chain_ok by (simp add: intact_def)

text \<open>C15. Tamper evidence: two chains from genesis that verify intact, hold no tombstones and end
  in the same chain hash agree, entry by entry and whatever their lengths, in every field the
  hash binds, unless two of the hashed strings collide.\<close>

theorem intact_chains_bind:
  assumes "intact xs from_genesis" "intact ys from_genesis"
    and "list_all live xs" "list_all live ys"
    and "v_ChainHash (last xs) = v_ChainHash (last ys)"
  shows "map bound_fields xs = map bound_fields ys \<or> collide (chain_preimages [] xs) (chain_preimages [] ys)"
  using assms by (intro same_end_same_chain) (auto simp: intact_iff_chain_ok end_hash_def)

theorem intact_chains_bind_witness:
  "\<exists>xs. length xs = 2 \<and> intact xs from_genesis \<and>
     (map bound_fields xs = map bound_fields xs \<or> collide (chain_preimages [] xs) (chain_preimages [] xs))"
  using example_chain intact_chains_bind by blast

text \<open>C16. What the linker writes verifies: if a chain of the memory store is empty or verifies
  intact, then after an append in format v3 that wrote its rows the whole chain, in the form the
  verifier reads, verifies intact.\<close>

theorem append_keeps_chain_intact:
  assumes "mem_step\<^sup>*\<^sup>* New s" and "l_store l = mem_ops rand" "l_format l = FormatV3"
    and "room (rows s c) (length inputs)"
    and "rows s c = [] \<or> intact (map toVerifyEntry (rows s c)) from_genesis"
    and "list_all (\<lambda>b. wf_time (i_Timestamp b)) inputs"
    and "Append_linker l ctxs c inputs s = (r, s')" "wrote r \<noteq> None"
  shows "intact (map toVerifyEntry (rows s' c)) from_genesis"
  using append_intact_lemma [OF wf_mem_reachable [OF assms(1)] assms(2-)] by blast

theorem append_keeps_chain_intact_witness:
  "\<exists>res s'. Append_linker example_linker (\<lambda>_. False) ''c'' example_batch New = (Inr res, s') \<and>
     intact (map toVerifyEntry (rows s' ''c'')) from_genesis"
proof -
  obtain res s' where a: "Append_linker example_linker (\<lambda>_. False) ''c'' example_batch New = (Inr res, s')"
    using example_append by blast
  have "room (rows New ''c'') (length example_batch)" by (simp add: room_def int64_def)
  moreover have "list_all (\<lambda>b. wf_time (i_Timestamp b)) example_batch" by (simp add: example_batch_def)
  ultimately have "intact (map toVerifyEntry (rows s' ''c'')) from_genesis"
    using append_keeps_chain_intact [OF rtranclp.rtrancl_refl example_linker_fields _ _ _ a]
    by (simp add: wrote_def)
  with a show ?thesis by blast
qed

text \<open>C17. Lawful erasure keeps the verdict: replacing any entry of an intact chain by a
  well-formed tombstone that keeps its chain hash and position leaves the chain intact, with one
  more tombstone counted when the entry was none.\<close>

theorem erasure_keeps_chain_intact:
  assumes "intact (xs @ e # ys) o'" and "live e"
    and "IsTombstone (v_EntryType t) (v_EntryID t)" "tombstone_ok t"
    and "v_ChainHash t = v_ChainHash e" "v_GlobalSeq t = v_GlobalSeq e"
  shows "intact (xs @ t # ys) o' \<and>
    map_option TombstonesFound (Chain (xs @ t # ys) o')
      = map_option (\<lambda>r. TombstonesFound r + 1) (Chain (xs @ e # ys) o')"
proof -
  have "is_hex128 (v_ChainHash e)" using assms(1) by (auto simp: intact_iff_chain_ok chain_ok_append entry_ok_def)
  then have "counts_tombstone t" "\<not> counts_tombstone e"
    using assms by (auto simp: counts_tombstone_def live_def)
  moreover have "intact (xs @ t # ys) o'"
    using assms(1,3,4) \<open>is_hex128 _\<close> unfolding intact_iff_chain_ok chain_ok_append chain_ok.simps entry_ok_def
      assms(5,6) by simp
  ultimately show ?thesis by (simp add: Chain_result result_for_def)
qed

theorem erasure_keeps_chain_intact_witness:
  "\<exists>x y t. intact [x, y] from_genesis \<and> live x \<and> \<not> live t \<and> intact [t, y] from_genesis"
proof -
  obtain x y where c: "intact [x, y] from_genesis" "live x"
    using example_chain by (auto simp: length_Suc_conv numeral_2_eq_2)
  let ?t = "\<lparr>v_EntryID = TombstoneEntryIDPrefix, v_EntryType = TombstoneEntryType, v_Timestamp = [],
    v_FormatVersion = 3, v_RunID = [], v_SequenceNum = 0, v_GlobalSeq = v_GlobalSeq x,
    v_ContentHash = TombstoneContentHashPrefix @ replicate 64 (CHR ''0''), v_ChainHash = v_ChainHash x\<rparr>"
  have "0 \<le> v_GlobalSeq x" using c(1) by (auto simp: intact_iff_chain_ok entry_ok_seq)
  then have t: "IsTombstone (v_EntryType ?t) (v_EntryID ?t)" "tombstone_ok ?t"
    by (simp_all add: IsTombstone_def tombstone_ok_def NormalizeFormatVersion_def FormatV3_def FormatV2_def
        ValidateTombstoneContentHash_def tombstoneContentHashLen_def list_all_iff is_lower_hex_def has_prefix_def)
  have "intact ([] @ x # [y]) from_genesis" using c(1) by simp
  from erasure_keeps_chain_intact [OF this c(2) t] have "intact [?t, y] from_genesis" by simp
  with c t(1) show ?thesis unfolding live_def by blast
qed

text \<open>A chain can be verified in segments: verifying a chain in one walk gives intact exactly
  when its first part does, the rest does as a segment continued from the first part's last
  hash, and the positions meet.\<close>

theorem segments_compose:
  assumes "xs \<noteq> []" "ys \<noteq> []"
  shows "intact (xs @ ys) o' \<longleftrightarrow> intact xs o' \<and>
    intact ys \<lparr>MaxBreaks = m, o_PreviousHash = v_ChainHash (last xs)\<rparr> \<and>
    v_GlobalSeq (hd ys) = wrap64 (v_GlobalSeq (last xs) + 1)"
  using assms chain_ok_hashes [of "o_PreviousHash o'" None xs "last xs"]
  by (auto simp: intact_iff_chain_ok chain_ok_append end_hash_def end_seq_def chain_ok_start prev_shape_def)

end
