(* ===== verification/Go_Json.thy ===== *)
theory Go_Json
  imports Prelude
begin

section \<open>Text encodings of the standard library: JSON strings and base64\<close>

text \<open>
  What the program uses of \<open>encoding/json\<close> (the string encoder of \<open>json.Marshal\<close>, with its HTML
  escapes, and the string decoder of \<open>json.Unmarshal\<close>) and of \<open>encoding/base64\<close> (the standard
  alphabet, encoding and strict decoding). A string comes back from the two as it was, but for bytes
  that are not UTF-8, which come back as the replacement character.
\<close>

subsection \<open>JSON strings\<close>

text \<open>The length of the well-formed code point at the front of a string whose first byte is not
  ASCII, 0 when there is none (\<open>utf8.DecodeRuneInString\<close> answering a width of 1).\<close>

definition rune_width :: "string \<Rightarrow> nat" where
  "rune_width s =
     (case s of [] \<Rightarrow> 0
      | a # r \<Rightarrow>
        if byte_in 0xC2 0xDF a then (case r of b # _ \<Rightarrow> if utf8_cont b then 2 else 0 | _ \<Rightarrow> 0)
        else if byte_in 0xE0 0xEF a then
          (case r of b # c # _ \<Rightarrow>
             if (if of_char a = (0xE0 :: nat) then byte_in 0xA0 0xBF b
                 else if of_char a = (0xED :: nat) then byte_in 0x80 0x9F b
                 else utf8_cont b) \<and> utf8_cont c then 3 else 0
           | _ \<Rightarrow> 0)
        else if byte_in 0xF0 0xF4 a then
          (case r of b # c # d # _ \<Rightarrow>
             if (if of_char a = (0xF0 :: nat) then byte_in 0x90 0xBF b
                 else if of_char a = (0xF4 :: nat) then byte_in 0x80 0x8F b
                 else utf8_cont b) \<and> utf8_cont c \<and> utf8_cont d then 4 else 0
           | _ \<Rightarrow> 0)
        else 0)"

text \<open>ASCII bytes that are copied: all printable ones and DEL but the quote, the backslash and,
  when HTML escaping is on (the default of \<open>json.Marshal\<close>), the three HTML characters. The others
  are escaped, the common ones by a letter.\<close>

definition json_ascii :: "bool \<Rightarrow> char \<Rightarrow> string" where
  "json_ascii html c =
     (if c = CHR 0x5C \<or> c = CHR 0x22 then [CHR 0x5C, c]
      else if c = CHR 0x08 then [CHR 0x5C, CHR ''b'']
      else if c = CHR 0x0C then [CHR 0x5C, CHR ''f'']
      else if c = CHR 0x0A then [CHR 0x5C, CHR ''n'']
      else if c = CHR 0x0D then [CHR 0x5C, CHR ''r'']
      else if c = CHR 0x09 then [CHR 0x5C, CHR ''t'']
      else if of_char c < (0x20 :: nat) \<or> html \<and> (c = CHR ''<'' \<or> c = CHR ''>'' \<or> c = CHR ''&'')
      then [CHR 0x5C, CHR ''u'', CHR ''0'', CHR ''0'', hextable ! (of_char c div 16), hextable ! (of_char c mod 16)]
      else [c])"

definition line_sep :: string where "line_sep = [CHR 0xE2, CHR 0x80, CHR 0xA8]"
definition para_sep :: string where "para_sep = [CHR 0xE2, CHR 0x80, CHR 0xA9]"

function json_chars :: "bool \<Rightarrow> string \<Rightarrow> string" where
  "json_chars html [] = []"
| "json_chars html (c # r) =
     (if of_char c < (0x80 :: nat) then json_ascii html c @ json_chars html r
      else let w = rune_width (c # r); u = take w (c # r)
           in if w = 0 then CHR 0x5C # ''ufffd'' @ json_chars html r
              else if u = line_sep then CHR 0x5C # ''u2028'' @ json_chars html (drop w (c # r))
              else if u = para_sep then CHR 0x5C # ''u2029'' @ json_chars html (drop w (c # r))
              else u @ json_chars html (drop w (c # r)))"
  by pat_completeness auto
termination
  by (relation "measure (length \<circ> snd)") auto

definition json_string :: "bool \<Rightarrow> string \<Rightarrow> string" where
  "json_string html s = CHR 0x22 # json_chars html s @ [CHR 0x22]"

text \<open>The decoder: \<open>unquote\<close>, up to the closing quote. Escapes may name any UTF-16 code unit in hex;
  a surrogate pair is one character, a lone surrogate and a byte that is not UTF-8 become the
  replacement character; control characters are not allowed.\<close>

definition repl_char :: string where "repl_char = [CHR 0xEF, CHR 0xBF, CHR 0xBD]"

definition utf8_encode :: "nat \<Rightarrow> string" where
  "utf8_encode n =
     (if n < 0x80 then [char_of n]
      else if n < 0x800 then [char_of (0xC0 + n div 64), char_of (0x80 + n mod 64)]
      else if 0xD800 \<le> n \<and> n < 0xE000 \<or> 0x10FFFF < n then repl_char
      else if n < 0x10000 then
        [char_of (0xE0 + n div 4096), char_of (0x80 + n div 64 mod 64), char_of (0x80 + n mod 64)]
      else [char_of (0xF0 + n div 262144), char_of (0x80 + n div 4096 mod 64), char_of (0x80 + n div 64 mod 64),
            char_of (0x80 + n mod 64)])"

fun hex4 :: "string \<Rightarrow> nat option" where
  "hex4 (a # b # c # d # r) =
     (case (unhex a, unhex b, unhex c, unhex d) of
        (Some i, Some j, Some k, Some l) \<Rightarrow> Some (4096 * i + 256 * j + 16 * k + l)
      | _ \<Rightarrow> None)"
| "hex4 _ = None"

text \<open>\<open>getu4\<close>: a whole escape at the front.\<close>

definition escape4 :: "string \<Rightarrow> nat option" where
  "escape4 s = (if has_prefix [CHR 0x5C, CHR ''u''] s then hex4 (drop 2 s) else None)"

definition cons_fst :: "string \<Rightarrow> (string \<times> string) option \<Rightarrow> (string \<times> string) option" where
  "cons_fst w x = map_option (\<lambda>(s, r). (w @ s, r)) x"

definition unescape :: "char \<Rightarrow> char option" where
  "unescape c =
     (if c = CHR 0x22 \<or> c = CHR 0x5C \<or> c = CHR ''/'' then Some c
      else if c = CHR ''b'' then Some (CHR 0x08) else if c = CHR ''f'' then Some (CHR 0x0C)
      else if c = CHR ''n'' then Some (CHR 0x0A) else if c = CHR ''r'' then Some (CHR 0x0D)
      else if c = CHR ''t'' then Some (CHR 0x09) else None)"

function read_string :: "string \<Rightarrow> (string \<times> string) option" where
  "read_string [] = None"
| "read_string (c # r) =
     (if c = CHR 0x22 then Some ([], r)
      else if c = CHR 0x5C then
        (case r of
           [] \<Rightarrow> None
         | k # r' \<Rightarrow>
             if k = CHR ''u'' then
               (case hex4 r' of
                  None \<Rightarrow> None
                | Some u \<Rightarrow>
                    if 0xD800 \<le> u \<and> u < 0xE000 then
                      (case escape4 (drop 4 r') of
                         Some v \<Rightarrow>
                           if u < 0xDC00 \<and> 0xDC00 \<le> v \<and> v < 0xE000
                           then cons_fst (utf8_encode ((u - 0xD800) * 1024 + (v - 0xDC00) + 0x10000))
                                  (read_string (drop 10 r'))
                           else cons_fst repl_char (read_string (drop 4 r'))
                       | None \<Rightarrow> cons_fst repl_char (read_string (drop 4 r')))
                    else cons_fst (utf8_encode u) (read_string (drop 4 r')))
             else (case unescape k of None \<Rightarrow> None | Some x \<Rightarrow> cons_fst [x] (read_string r')))
      else if of_char c < (0x20 :: nat) then None
      else if of_char c < (0x80 :: nat) then cons_fst [c] (read_string r)
      else let w = rune_width (c # r)
           in if w = 0 then cons_fst repl_char (read_string r)
              else cons_fst (take w (c # r)) (read_string (drop w (c # r))))"
  by pat_completeness auto
termination
  by (relation "measure length") auto

text \<open>What a string is after a trip through the encoder and the decoder.\<close>

function clean :: "string \<Rightarrow> string" where
  "clean [] = []"
| "clean (c # r) =
     (if of_char c < (0x80 :: nat) then c # clean r
      else let w = rune_width (c # r)
           in if w = 0 then repl_char @ clean r else take w (c # r) @ clean (drop w (c # r)))"
  by pat_completeness auto
termination
  by (relation "measure length") auto

declare json_chars.simps(2) [simp del] read_string.simps(2) [simp del] clean.simps(2) [simp del]

lemma cons_fst_simps [simp]: "cons_fst w (Some (s, r)) = Some (w @ s, r)"
  by (simp add: cons_fst_def)

lemma hextable_hex4:
  "i < 16 \<Longrightarrow> j < 16 \<Longrightarrow> hex4 (CHR ''0'' # CHR ''0'' # hextable ! i # hextable ! j # r) = Some (16 * i + j)"
  by (simp add: unhex_def [of "CHR ''0''"])

lemma utf8_encode_simps [simp]:
  "utf8_encode 65533 = repl_char" "utf8_encode 8232 = line_sep" "utf8_encode 8233 = para_sep"
  by (simp_all add: utf8_encode_def repl_char_def line_sep_def para_sep_def char_of_def bit_0)

lemma utf8_encode_ascii: "of_char c < (0x80 :: nat) \<Longrightarrow> utf8_encode (of_char c) = [c]"
  by (simp add: utf8_encode_def)

lemma read_string_steps:
  assumes "read_string t = Some (s, r)"
  shows "unescape k = Some x \<Longrightarrow> k \<noteq> CHR ''u'' \<Longrightarrow> read_string (CHR 0x5C # k # t) = Some (x # s, r)"
    and "hex4 (a # b # d # e # t) = Some u \<Longrightarrow> \<not> (0xD800 \<le> u \<and> u < 0xE000) \<Longrightarrow>
      read_string (CHR 0x5C # CHR ''u'' # a # b # d # e # t) = Some (utf8_encode u @ s, r)"
    and "c \<noteq> CHR 0x22 \<Longrightarrow> c \<noteq> CHR 0x5C \<Longrightarrow> \<not> of_char c < (0x20 :: nat) \<Longrightarrow> of_char c < (0x80 :: nat) \<Longrightarrow>
      read_string (c # t) = Some (c # s, r)"
  using assms by (auto simp: read_string.simps(2) simp del: hex4.simps)

lemma read_string_ascii:
  assumes "of_char c < (0x80 :: nat)" "read_string t = Some (s, r)"
  shows "read_string (json_ascii html c @ t) = Some (c # s, r)"
proof -
  have hex: "of_char c div 16 < (16 :: nat)" "of_char c mod 16 < (16 :: nat)" using assms(1) by simp_all
  have u4: "hex4 (CHR ''0'' # CHR ''0'' # hextable ! (of_char c div 16) # hextable ! (of_char c mod 16) # t) = Some (of_char c)"
    using hextable_hex4 [OF hex, of t] by (simp add: mult.commute del: hex4.simps)
  have "read_string (CHR 0x5C # CHR ''u'' # CHR ''0'' # CHR ''0'' # hextable ! (of_char c div 16)
      # hextable ! (of_char c mod 16) # t) = Some (c # s, r)"
    using read_string_steps(2) [OF assms(2) u4] assms(1) by (simp add: utf8_encode_ascii)
  moreover have "read_string (CHR 0x5C # k # t) = Some (c # s, r)"
    if "(k, c) \<in> {(CHR 0x5C, CHR 0x5C), (CHR 0x22, CHR 0x22), (CHR ''b'', CHR 0x08), (CHR ''f'', CHR 0x0C),
      (CHR ''n'', CHR 0x0A), (CHR ''r'', CHR 0x0D), (CHR ''t'', CHR 0x09)}" for k
    using that by (intro read_string_steps(1) [OF assms(2)]) (auto simp: unescape_def)
  moreover have "read_string (c # t) = Some (c # s, r)"
    if "c \<noteq> CHR 0x22" "c \<noteq> CHR 0x5C" "\<not> of_char c < (0x20 :: nat)"
    using read_string_steps(3) [OF assms(2) that assms(1)] .
  ultimately show ?thesis unfolding json_ascii_def by (simp split: if_split)
qed

lemma take_drop_few:
  "take 2 (a # b # r) = [a, b]" "drop 2 (a # b # r) = r"
  "take 3 (a # b # c # r) = [a, b, c]" "drop 3 (a # b # c # r) = r"
  "take 4 (a # b # c # d # r) = [a, b, c, d]" "drop 4 (a # b # c # d # r) = r"
  by (simp_all add: numeral_2_eq_2 numeral_3_eq_3 numeral_Bit0 [of "num.Bit0 num.One"])

text \<open>A character of several bytes is read in one piece, whatever follows it.\<close>

lemma rune_width_cases:
  assumes "w = rune_width (c # r)" "w \<noteq> 0"
  obtains (two) x t where "r = x # t" "w = 2" "byte_in 0xC2 0xDF c" "utf8_cont x"
  | (three) x y t where "r = x # y # t" "w = 3" "\<not> byte_in 0xC2 0xDF c" "byte_in 0xE0 0xEF c"
      "if of_char c = (0xE0 :: nat) then byte_in 0xA0 0xBF x
       else if of_char c = (0xED :: nat) then byte_in 0x80 0x9F x else utf8_cont x" "utf8_cont y"
  | (four) x y z t where "r = x # y # z # t" "w = 4" "\<not> byte_in 0xC2 0xDF c" "\<not> byte_in 0xE0 0xEF c"
      "byte_in 0xF0 0xF4 c"
      "if of_char c = (0xF0 :: nat) then byte_in 0x90 0xBF x
       else if of_char c = (0xF4 :: nat) then byte_in 0x80 0x8F x else utf8_cont x" "utf8_cont y" "utf8_cont z"
proof -
  consider "byte_in 0xC2 0xDF c" | "\<not> byte_in 0xC2 0xDF c" "byte_in 0xE0 0xEF c"
    | "\<not> byte_in 0xC2 0xDF c" "\<not> byte_in 0xE0 0xEF c" by blast
  then show ?thesis
  proof cases
    case 1
    with assms two show ?thesis by (cases r) (simp_all add: rune_width_def split: if_splits)
  next
    case 2
    with assms three show ?thesis by (cases r; cases "tl r") (simp_all add: rune_width_def split: if_splits)
  next
    case 3
    with assms have "byte_in 0xF0 0xF4 c" by (simp add: rune_width_def split: if_splits)
    with 3 assms four show ?thesis
      by (cases r; cases "tl r"; cases "tl (tl r)") (simp_all add: rune_width_def split: if_splits)
  qed
qed

lemma rune_width_append:
  "w = rune_width (c # r) \<Longrightarrow> w \<noteq> 0 \<Longrightarrow> rune_width (take w (c # r) @ t) = w"
  by (elim rune_width_cases) (simp_all add: rune_width_def take_drop_few)

lemma rune_width_le: "rune_width s \<le> length s"
  by (auto simp: rune_width_def split: list.splits)

lemma utf8_valid_step:
  assumes "utf8_valid (c # r)" "\<not> of_char c < (0x80 :: nat)"
  shows "rune_width (c # r) \<noteq> 0 \<and> utf8_valid (drop (rune_width (c # r)) (c # r))"
proof -
  have "\<not> byte_in 0 0x7F c" using assms(2) by (simp add: byte_in_def)
  moreover from this have "byte_in 0xC2 0xDF c \<or> byte_in 0xE0 0xEF c \<or> byte_in 0xF0 0xF4 c"
    using assms(1) by (cases "byte_in 0xC2 0xDF c"; cases "byte_in 0xE0 0xEF c"; cases "byte_in 0xF0 0xF4 c") (simp_all add: utf8_valid.simps(2))
  ultimately consider (two) "byte_in 0xC2 0xDF c"
    | (three) "\<not> byte_in 0xC2 0xDF c" "byte_in 0xE0 0xEF c"
    | (four) "\<not> byte_in 0xC2 0xDF c" "\<not> byte_in 0xE0 0xEF c" "byte_in 0xF0 0xF4 c"
    by blast
  then show ?thesis
  proof cases
    case two
    then show ?thesis using assms(1) \<open>\<not> byte_in 0 0x7F c\<close>
      by (cases r) (simp_all add: utf8_valid.simps(2) rune_width_def take_drop_few)
  next
    case three
    then obtain b d t where "r = b # d # t"
      using assms(1) \<open>\<not> byte_in 0 0x7F c\<close> by (cases r; cases "tl r") (simp_all add: utf8_valid.simps(2))
    then show ?thesis using three assms(1) \<open>\<not> byte_in 0 0x7F c\<close>
      by (simp add: utf8_valid.simps(2) rune_width_def take_drop_few)
  next
    case four
    then obtain b d e t where "r = b # d # e # t"
      using assms(1) \<open>\<not> byte_in 0 0x7F c\<close> by (cases r; cases "tl r"; cases "tl (tl r)") (simp_all add: utf8_valid.simps(2))
    then show ?thesis using four assms(1) \<open>\<not> byte_in 0 0x7F c\<close>
      by (simp add: utf8_valid.simps(2) rune_width_def take_drop_few)
  qed
qed

lemma read_string_chars: "read_string (json_chars html s @ CHR 0x22 # r) = Some (clean s, r)"
proof (induction s rule: measure_induct_rule [where f = length])
  case (less s)
  show ?case
  proof (cases s)
    case Nil
    then show ?thesis by (simp add: read_string.simps(2))
  next
    case (Cons c t)
    show ?thesis
    proof (cases "of_char c < (0x80 :: nat)")
      case True
      with less.IH [of t] Cons show ?thesis by (simp add: json_chars.simps(2) clean.simps(2) read_string_ascii)
    next
      case hi: False
      let ?w = "rune_width (c # t)" and ?t = "json_chars html (drop (rune_width (c # t)) (c # t)) @ CHR 0x22 # r"
      show ?thesis
      proof (cases "?w = 0")
        case True
        with less.IH [of t] Cons hi show ?thesis
          by (simp add: json_chars.simps(2) clean.simps(2) read_string.simps(2) unhex_def less_eq_char_def)
      next
        case False
        then have rest: "read_string ?t = Some (clean (drop ?w (c # t)), r)"
          using less.IH [of "drop ?w (c # t)"] Cons by simp
        consider (line) "take ?w (c # t) = line_sep" | (para) "take ?w (c # t) = para_sep" "take ?w (c # t) \<noteq> line_sep"
          | (plain) "take ?w (c # t) \<noteq> line_sep" "take ?w (c # t) \<noteq> para_sep" by blast
        then show ?thesis
        proof cases
          case line
          then show ?thesis using hi False rest Cons
            by (simp add: json_chars.simps(2) clean.simps(2) Let_def read_string.simps(2) unhex_def less_eq_char_def)
        next
          case para
          then show ?thesis using hi False rest Cons
            by (simp add: json_chars.simps(2) clean.simps(2) Let_def read_string.simps(2) unhex_def less_eq_char_def)
        next
          case plain
          obtain u where u: "take ?w (c # t) = c # u" using False by (cases ?w) auto
          have w: "rune_width (c # u @ ?t) = ?w" using rune_width_append [OF refl False, of ?t] u by simp
          have "length (c # u) = ?w" using u rune_width_le [of "c # t"] by (metis length_take min.absorb2)
          then have "take ?w (c # u @ ?t) = c # u" "drop ?w (c # u @ ?t) = ?t" by (simp_all flip: append_Cons)
          moreover have "c \<noteq> CHR 0x22" "c \<noteq> CHR 0x5C" using hi by auto
          ultimately have "read_string (c # u @ ?t) = Some (c # u @ clean (drop ?w (c # t)), r)"
            using hi False rest w by (simp add: read_string.simps(2))
          then show ?thesis using plain hi False Cons u by (simp add: json_chars.simps(2) clean.simps(2) Let_def)
        qed
      qed
    qed
  qed
qed

lemma clean_valid [simp]: "utf8_valid s \<Longrightarrow> clean s = s"
proof (induction s rule: clean.induct)
  case (2 c r)
  show ?case
  proof (cases "of_char c < (0x80 :: nat)")
    case True
    with 2 show ?thesis by (simp add: clean.simps(2))
  next
    case False
    with utf8_valid_step [OF 2(4) False] 2(3) [OF False refl] show ?thesis
      by (simp add: clean.simps(2) Let_def)
  qed
qed simp

lemma json_string_inject:
  assumes "json_string html s @ r = json_string html s' @ r'" "utf8_valid s" "utf8_valid s'"
  shows "s = s' \<and> r = r'"
proof -
  have "json_chars html s @ CHR 0x22 # r = json_chars html s' @ CHR 0x22 # r'"
    using assms(1) by (simp add: json_string_def)
  with read_string_chars [of html s r] read_string_chars [of html s' r']
  have "Some (clean s, r) = Some (clean s', r')" by metis
  with assms(2,3) show ?thesis by simp
qed

subsection \<open>Base64\<close>

definition b64_alphabet :: string where
  "b64_alphabet = ''ABCDEFGHIJKLMNOPQRSTUVWXYZabcdefghijklmnopqrstuvwxyz0123456789+/''"

definition b64_char :: "nat \<Rightarrow> char" where
  "b64_char n = b64_alphabet ! n"

text \<open>The decode table, which sends a character that is not in the alphabet to no value.\<close>

definition b64_val :: "char \<Rightarrow> nat option" where
  "b64_val c =
     (let n = length (takeWhile (\<lambda>x. x \<noteq> c) b64_alphabet) in if n < 64 then Some n else None)"

fun b64_encode :: "bytes \<Rightarrow> string" where
  "b64_encode [] = []"
| "b64_encode [x] = [b64_char (of_char x div 4), b64_char (of_char x mod 4 * 16), CHR ''='', CHR ''='']"
| "b64_encode [x, y] =
     [b64_char (of_char x div 4), b64_char (of_char x mod 4 * 16 + of_char y div 16),
      b64_char (of_char y mod 16 * 4), CHR ''='']"
| "b64_encode (x # y # z # r) =
     b64_char (of_char x div 4) # b64_char (of_char x mod 4 * 16 + of_char y div 16)
     # b64_char (of_char y mod 16 * 4 + of_char z div 64) # b64_char (of_char z mod 64) # b64_encode r"

text \<open>\<open>StdEncoding.Strict().DecodeString\<close> on a string without line breaks (the callers refuse
  them first): full groups of four, padding only at the end, and no stray bits before it.\<close>

fun b64_decode :: "string \<Rightarrow> bytes option" where
  "b64_decode [] = Some []"
| "b64_decode (a # b # c # d # r) =
     (case (b64_val a, b64_val b) of
        (Some i, Some j) \<Rightarrow>
          if c = CHR ''='' then
            (if d = CHR ''='' \<and> r = [] \<and> j mod 16 = 0 then Some [char_of (i * 4 + j div 16)] else None)
          else
            (case b64_val c of
               None \<Rightarrow> None
             | Some k \<Rightarrow>
                 if d = CHR ''='' then
                   (if r = [] \<and> k mod 4 = 0
                    then Some [char_of (i * 4 + j div 16), char_of (j mod 16 * 16 + k div 4)] else None)
                 else
                   (case b64_val d of
                      None \<Rightarrow> None
                    | Some l \<Rightarrow>
                        map_option (\<lambda>bs. char_of (i * 4 + j div 16) # char_of (j mod 16 * 16 + k div 4)
                           # char_of (k mod 4 * 64 + l) # bs) (b64_decode r)))
      | _ \<Rightarrow> None)"
| "b64_decode _ = None"

lemma b64_table: "\<forall>n \<in> set [0..<64]. b64_val (b64_char n) = Some n \<and> b64_char n \<noteq> CHR ''=''
    \<and> b64_char n \<noteq> CHR 0x0A \<and> b64_char n \<noteq> CHR 0x0D"
  by code_simp

lemma b64_val_char [simp]: "n < 64 \<Longrightarrow> b64_val (b64_char n) = Some n"
  and b64_char_not_pad [simp]: "n < 64 \<Longrightarrow> b64_char n \<noteq> CHR ''=''"
  using b64_table by simp_all

lemma b64_bounds:
  assumes "x < (256 :: nat)" "y < 256"
  shows "x div 4 < 64" "x mod 4 * 16 + y div 16 < 64" "x mod 16 * 4 + y div 64 < 64" "x mod 64 < 64"
    "x mod 4 * 16 < 64" "x mod 16 * 4 < 64"
proof -
  show "x div 4 < 64" using assms by linarith
  have "x mod 4 \<le> 3" "y div 16 \<le> 15" "x mod 16 \<le> 15" "y div 64 \<le> 3" using assms by (simp, linarith, simp, linarith)
  then show "x mod 4 * 16 + y div 16 < 64" "x mod 16 * 4 + y div 64 < 64" "x mod 4 * 16 < 64" "x mod 16 * 4 < 64" by linarith+
qed simp

lemma b64_split:
  assumes "y < (256 :: nat)"
  shows "(x mod 4 * 16 + y div 16) div 16 = x mod 4" "(x mod 4 * 16 + y div 16) mod 16 = y div 16"
    "(y mod 16 * 4 + z div 64) div 4 = y mod 16 + z div 64 div 4"
    "(y mod 16 * 4 + z div 64) mod 4 = z div 64 mod 4"
proof -
  have "y div 16 < 16" using assms by linarith
  then show "(x mod 4 * 16 + y div 16) div 16 = x mod 4" "(x mod 4 * 16 + y div 16) mod 16 = y div 16" by simp_all
  show "(y mod 16 * 4 + z div 64) div 4 = y mod 16 + z div 64 div 4"
    "(y mod 16 * 4 + z div 64) mod 4 = z div 64 mod 4" by simp_all
qed

lemma b64_decode_encode: "b64_decode (b64_encode bs) = Some bs"
proof (induction bs rule: b64_encode.induct)
  case (2 x)
  show ?case using b64_bounds [of "of_char x" 0] by simp
next
  case (3 x y)
  show ?case using b64_bounds [of "of_char x" "of_char y"] b64_bounds [of "of_char y" 0]
    by (simp add: b64_split)
next
  case (4 x y z r)
  let ?x = "of_char x :: nat" and ?y = "of_char y :: nat" and ?z = "of_char z :: nat"
  have small: "?y div 16 div 16 = 0" "?y div 16 mod 16 = ?y div 16" "?z div 64 div 4 = 0" "?z div 64 mod 4 = ?z div 64"
    by (simp_all add: less_mult_imp_div_less)
  show ?case using 4 b64_bounds [of ?x ?y] b64_bounds [of ?y ?z] b64_bounds [of ?z 0]
    by (simp add: b64_split small)
qed simp

lemma b64_encode_no_break: "CHR 0x0A \<notin> set (b64_encode bs) \<and> CHR 0x0D \<notin> set (b64_encode bs)"
proof -
  have c: "n < 64 \<Longrightarrow> CHR 0x0A \<noteq> b64_char n \<and> CHR 0x0D \<noteq> b64_char n" for n
    using b64_table by (auto dest!: bspec [of _ _ n])
  show ?thesis
  proof (induction bs rule: b64_encode.induct)
    case (2 x)
    show ?case using c b64_bounds [of "of_char x" 0] by simp
  next
    case (3 x y)
    show ?case using c b64_bounds [of "of_char x" "of_char y"] b64_bounds [of "of_char y" 0] by simp
  next
    case (4 x y z r)
    then show ?case using c b64_bounds [of "of_char x" "of_char y"] b64_bounds [of "of_char y" "of_char z"]
        b64_bounds [of "of_char z" 0] by simp
  qed simp
qed

subsection \<open>JSON values\<close>

text \<open>A decoded value, with numbers as their text and object members in order, and the compact text
  of \<open>json.Marshal\<close> for it.\<close>

datatype json =
    JNull | JBool bool | JNum string | JStr string | JArr "json list" | JObj "(string \<times> json) list"

definition commas :: "string list \<Rightarrow> string" where
  "commas xs = (case xs of [] \<Rightarrow> [] | y # ys \<Rightarrow> y @ concat (map ((#) (CHR '','')) ys))"

fun json_text :: "bool \<Rightarrow> json \<Rightarrow> string" where
  "json_text html JNull = ''null''"
| "json_text html (JBool b) = (if b then ''true'' else ''false'')"
| "json_text html (JNum n) = n"
| "json_text html (JStr s) = json_string html s"
| "json_text html (JArr xs) = CHR ''['' # commas (map (json_text html) xs) @ '']''"
| "json_text html (JObj ms) =
     CHR ''{'' # commas (map (\<lambda>(k, v). json_string html k @ CHR '':'' # json_text html v) ms) @ ''}''"

abbreviation JInt :: "int \<Rightarrow> json" where
  "JInt i \<equiv> JNum (fmt_int i)"

definition number_char :: "char \<Rightarrow> bool" where
  "number_char c \<longleftrightarrow> is_digit c \<or> c \<in> {CHR ''-'', CHR ''+'', CHR ''.'', CHR ''e'', CHR ''E''}"

definition number_text :: "string \<Rightarrow> bool" where
  "number_text n \<longleftrightarrow> n \<noteq> [] \<and> list_all number_char n"

fun json_ok :: "json \<Rightarrow> bool" where
  "json_ok (JNum n) = number_text n"
| "json_ok (JStr s) = utf8_valid s"
| "json_ok (JArr xs) = list_all json_ok xs"
| "json_ok (JObj ms) = list_all (\<lambda>(k, v). utf8_valid k \<and> json_ok v) ms"
| "json_ok _ = True"

text \<open>What may follow a value: nothing that would lengthen a number.\<close>

definition value_end :: "string \<Rightarrow> bool" where
  "value_end r \<longleftrightarrow> (case r of [] \<Rightarrow> True | c # _ \<Rightarrow> \<not> number_char c)"

lemma number_char_simps [simp]:
  "\<not> number_char (CHR '','')" "\<not> number_char (CHR ''}'')" "\<not> number_char (CHR '']'')"
  "\<not> number_char (CHR 0x22)" "\<not> number_char (CHR ''['')" "\<not> number_char (CHR ''{'')"
  "\<not> number_char (CHR ''n'')" "\<not> number_char (CHR ''t'')" "\<not> number_char (CHR ''f'')"
  by (simp_all add: number_char_def is_digit_def)

lemma number_text_fmt_int [simp]: "number_text (fmt_int i)"
  using fmt_int_chars by (fastforce simp: number_text_def number_char_def list_all_iff)

lemma number_prefix:
  assumes "list_all number_char n" "list_all number_char n'" "value_end r" "value_end r'" "n @ r = n' @ r'"
  shows "n = n' \<and> r = r'"
  using assms
proof (induction n arbitrary: n')
  case Nil
  then show ?case by (cases n') (auto simp: value_end_def)
next
  case (Cons c n)
  note IH = Cons.IH and prems = Cons.prems
  show ?case
  proof (cases n')
    case Nil
    then show ?thesis using Cons.prems by (auto simp: value_end_def)
  next
    case (Cons d m)
    then show ?thesis using IH [of m] prems by simp
  qed
qed

text \<open>The first character tells the kind of a value, and is never one that separates or closes.\<close>

lemma json_text_hd:
  assumes "json_ok v"
  obtains c t where "json_text html v = c # t" "c \<noteq> CHR '','' \<and> c \<noteq> CHR '']'' \<and> c \<noteq> CHR ''}''"
    "c = CHR 0x22 \<longleftrightarrow> (\<exists>s. v = JStr s)" "c = CHR ''['' \<longleftrightarrow> (\<exists>xs. v = JArr xs)"
    "c = CHR ''{'' \<longleftrightarrow> (\<exists>ms. v = JObj ms)" "c = CHR ''n'' \<longleftrightarrow> v = JNull"
    "c = CHR ''t'' \<longleftrightarrow> v = JBool True" "c = CHR ''f'' \<longleftrightarrow> v = JBool False"
    "number_char c \<longleftrightarrow> (\<exists>n. v = JNum n)"
proof (cases v)
  case (JNum n)
  then obtain c t where "n = c # t" "number_char c" using assms by (cases n) (auto simp: number_text_def)
  with JNum show ?thesis by (intro that [of c t]) auto
next
  case (JBool b)
  then show ?thesis using that by (cases b) simp_all
qed (use that in \<open>simp_all add: json_string_def\<close>)

definition cancels :: "('a \<Rightarrow> string) \<Rightarrow> ('a \<Rightarrow> bool) \<Rightarrow> 'a \<Rightarrow> bool" where
  "cancels f p x \<longleftrightarrow>
     (\<forall>y r r'. p x \<longrightarrow> p y \<longrightarrow> value_end r \<longrightarrow> value_end r' \<longrightarrow> f x @ r = f y @ r' \<longrightarrow> x = y \<and> r = r')"

lemma cancelsD:
  "cancels f p x \<Longrightarrow> f x @ r = f y @ r' \<Longrightarrow> p x \<Longrightarrow> p y \<Longrightarrow> value_end r \<Longrightarrow> value_end r' \<Longrightarrow> x = y \<and> r = r'"
  unfolding cancels_def by blast

lemma value_end_simps [simp]:
  "value_end []" "value_end (CHR '','' # r)" "value_end (CHR '']'' # r)" "value_end (CHR ''}'' # r)"
  by (simp_all add: value_end_def)

text \<open>A list of items, each with a text that cancels, separated by commas and closed by a bracket,
  cancels.\<close>

lemma rest_cancel:
  assumes "\<forall>x \<in> set xs. cancels f p x" "list_all p xs" "list_all p ys" "close = CHR '']'' \<or> close = CHR ''}''"
    and "concat (map ((#) (CHR '','')) (map f xs)) @ close # r = concat (map ((#) (CHR '','')) (map f ys)) @ close # r'"
  shows "xs = ys \<and> r = r'"
  using assms
proof (induction xs arbitrary: ys)
  case Nil
  then show ?case by (cases ys) auto
next
  case (Cons x xs)
  then obtain y zs where ys: "ys = y # zs" by (cases ys) auto
  have e: "value_end (concat (map ((#) (CHR '','')) (map f zs)) @ close # r)" for zs r
    using Cons.prems(4) by (cases zs) auto
  have "f x @ (concat (map ((#) (CHR '','')) (map f xs)) @ close # r)
      = f y @ (concat (map ((#) (CHR '','')) (map f zs)) @ close # r')"
    using Cons.prems(5) ys by simp
  then have "x = y \<and> concat (map ((#) (CHR '','')) (map f xs)) @ close # r
      = concat (map ((#) (CHR '','')) (map f zs)) @ close # r'"
    using Cons.prems(1-3) ys e by (intro cancelsD [where f = f and p = p]) simp_all
  with Cons.IH [of zs] Cons.prems ys show ?case by simp
qed

lemma commas_cancel:
  assumes "\<forall>x \<in> set xs. cancels f p x"
    and "\<And>x r. p x \<Longrightarrow> hd (f x @ r) \<noteq> CHR '']'' \<and> hd (f x @ r) \<noteq> CHR ''}''"
    and "list_all p xs" "list_all p ys" "close = CHR '']'' \<or> close = CHR ''}''"
    and "commas (map f xs) @ close # r = commas (map f ys) @ close # r'"
  shows "xs = ys \<and> r = r'"
proof (cases xs)
  case Nil
  show ?thesis
  proof (cases ys)
    case (Cons y zs)
    then have "hd (f y @ concat (map ((#) (CHR '','')) (map f zs)) @ close # r') = close"
      using assms(6) Nil by (simp add: commas_def) (metis list.sel(1))
    with assms(2) [of y] assms(4,5) Cons show ?thesis by auto
  qed (use assms(6) Nil in \<open>simp add: commas_def\<close>)
next
  case (Cons x zs)
  show ?thesis
  proof (cases ys)
    case Nil
    then have "hd (f x @ concat (map ((#) (CHR '','')) (map f zs)) @ close # r) = close"
      using assms(6) Cons by (simp add: commas_def)
    with assms(2) [of x] assms(3,5) Cons show ?thesis by auto
  next
    case (Cons y us)
    have "concat (map ((#) (CHR '','')) (map f xs)) @ close # r = concat (map ((#) (CHR '','')) (map f ys)) @ close # r'"
      using assms(6) Cons \<open>xs = x # zs\<close> by (simp add: commas_def)
    then show ?thesis by (rule rest_cancel [OF assms(1,3-5)])
  qed
qed

definition member_text :: "bool \<Rightarrow> string \<times> json \<Rightarrow> string" where
  "member_text html m = json_string html (fst m) @ CHR '':'' # json_text html (snd m)"

lemma json_text_JObj:
  "json_text html (JObj ms) = CHR ''{'' # commas (map (member_text html) ms) @ ''}''"
  by (simp add: member_text_def case_prod_unfold cong: map_cong)

lemma member_cancels:
  assumes "cancels (json_text html) json_ok (snd m)"
  shows "cancels (member_text html) (\<lambda>(k, v). utf8_valid k \<and> json_ok v) m"
  unfolding cancels_def
proof (intro allI impI)
  fix m' r r'
  assume ok: "case m of (k, v) \<Rightarrow> utf8_valid k \<and> json_ok v" "case m' of (k, v) \<Rightarrow> utf8_valid k \<and> json_ok v"
    and e: "value_end r" "value_end r'" and eq: "member_text html m @ r = member_text html m' @ r'"
  have "json_string html (fst m) @ (CHR '':'' # json_text html (snd m) @ r)
      = json_string html (fst m') @ (CHR '':'' # json_text html (snd m') @ r')"
    using eq by (simp add: member_text_def)
  then have "fst m = fst m' \<and> CHR '':'' # json_text html (snd m) @ r = CHR '':'' # json_text html (snd m') @ r'"
    by (rule json_string_inject) (use ok in auto)
  moreover from this have "snd m = snd m' \<and> r = r'"
    using ok e by (intro cancelsD [OF assms]) auto
  ultimately show "m = m' \<and> r = r'" by (simp add: prod_eq_iff)
qed

lemma json_text_hd_inside:
  "json_ok v \<Longrightarrow> hd (json_text html v @ r) \<noteq> CHR '']'' \<and> hd (json_text html v @ r) \<noteq> CHR ''}''"
  by (rule json_text_hd [of v html]) auto

lemma json_text_same_kind:
  assumes "json_text html v @ r = json_text html v' @ r'" "json_ok v" "json_ok v'"
  shows "(\<exists>s. v = JStr s) = (\<exists>s. v' = JStr s)" "(\<exists>xs. v = JArr xs) = (\<exists>xs. v' = JArr xs)"
    "(\<exists>ms. v = JObj ms) = (\<exists>ms. v' = JObj ms)" "v = JNull \<longleftrightarrow> v' = JNull"
    "v = JBool True \<longleftrightarrow> v' = JBool True" "v = JBool False \<longleftrightarrow> v' = JBool False"
    "(\<exists>n. v = JNum n) = (\<exists>n. v' = JNum n)"
proof -
  note 1 = json_text_hd [OF assms(2), of html] and 2 = json_text_hd [OF assms(3), of html]
  show "(\<exists>s. v = JStr s) = (\<exists>s. v' = JStr s)"
    by (rule 1, rule 2) (use assms(1) in auto)
  show "(\<exists>xs. v = JArr xs) = (\<exists>xs. v' = JArr xs)"
    by (rule 1, rule 2) (use assms(1) in auto)
  show "(\<exists>ms. v = JObj ms) = (\<exists>ms. v' = JObj ms)"
    by (rule 1, rule 2) (use assms(1) in auto)
  show "v = JNull \<longleftrightarrow> v' = JNull"
    by (rule 1, rule 2) (use assms(1) in auto)
  show "v = JBool True \<longleftrightarrow> v' = JBool True"
    by (rule 1, rule 2) (use assms(1) in auto)
  show "v = JBool False \<longleftrightarrow> v' = JBool False"
    by (rule 1, rule 2) (use assms(1) in auto)
  show "(\<exists>n. v = JNum n) = (\<exists>n. v' = JNum n)"
    by (rule 1, rule 2) (use assms(1) in auto)
qed

lemma json_text_cancels: "cancels (json_text html) json_ok v"
proof (induction v)
  case (JArr xs)
  show ?case unfolding cancels_def
  proof (intro allI impI)
    fix v' r r'
    assume ok: "json_ok (JArr xs)" "json_ok v'" and e: "value_end r" "value_end r'"
      and eq: "json_text html (JArr xs) @ r = json_text html v' @ r'"
    obtain ys where ys: "v' = JArr ys" using json_text_same_kind(2) [OF eq ok] by blast
    have "commas (map (json_text html) xs) @ CHR '']'' # r = commas (map (json_text html) ys) @ CHR '']'' # r'"
      using eq ys by simp
    then have "xs = ys \<and> r = r'" using JArr ok ys json_text_hd_inside
      by (intro commas_cancel [where f = "json_text html" and p = json_ok and close = "CHR '']''"]) simp_all
    with ys show "JArr xs = v' \<and> r = r'" by simp
  qed
next
  case (JObj ms)
  let ?p = "\<lambda>(k, v). utf8_valid k \<and> json_ok v"
  have c: "\<forall>m \<in> set ms. cancels (member_text html) ?p m"
    using JObj by (auto intro!: member_cancels simp: snds.simps)
  show ?case unfolding cancels_def
  proof (intro allI impI)
    fix v' r r'
    assume ok: "json_ok (JObj ms)" "json_ok v'" and e: "value_end r" "value_end r'"
      and eq: "json_text html (JObj ms) @ r = json_text html v' @ r'"
    obtain ys where ys: "v' = JObj ys" using json_text_same_kind(3) [OF eq ok] by blast
    have "commas (map (member_text html) ms) @ CHR ''}'' # r = commas (map (member_text html) ys) @ CHR ''}'' # r'"
      using eq unfolding ys json_text_JObj by simp
    then have "ms = ys \<and> r = r'" using c ok ys
      by (intro commas_cancel [where f = "member_text html" and p = ?p and close = "CHR ''}''"])
         (simp_all add: member_text_def json_string_def)
    with ys show "JObj ms = v' \<and> r = r'" by simp
  qed
next
  case (JNum n)
  show ?case unfolding cancels_def
  proof (intro allI impI)
    fix v' r r'
    assume ok: "json_ok (JNum n)" "json_ok v'" and e: "value_end r" "value_end r'"
      and eq: "json_text html (JNum n) @ r = json_text html v' @ r'"
    obtain n' where v': "v' = JNum n'" using json_text_same_kind(7) [OF eq ok] by blast
    have "n = n' \<and> r = r'" using eq ok e v' by (intro number_prefix) (simp_all add: number_text_def)
    with v' show "JNum n = v' \<and> r = r'" by simp
  qed
next
  case (JStr s)
  show ?case unfolding cancels_def
  proof (intro allI impI)
    fix v' r r'
    assume ok: "json_ok (JStr s)" "json_ok v'" and eq: "json_text html (JStr s) @ r = json_text html v' @ r'"
    obtain s' where v': "v' = JStr s'" using json_text_same_kind(1) [OF eq ok] by blast
    with eq have "s = s' \<and> r = r'" using ok by (intro json_string_inject [of html]) simp_all
    with v' show "JStr s = v' \<and> r = r'" by simp
  qed
next
  case JNull
  show ?case unfolding cancels_def
  proof (intro allI impI)
    fix v' r r'
    assume ok: "json_ok v'" and eq: "json_text html JNull @ r = json_text html v' @ r'"
    then have "v' = JNull" using json_text_same_kind(4) [OF eq] by simp
    with eq show "JNull = v' \<and> r = r'" by simp
  qed
next
  case (JBool b)
  show ?case unfolding cancels_def
  proof (intro allI impI)
    fix v' r r'
    assume ok: "json_ok v'" and eq: "json_text html (JBool b) @ r = json_text html v' @ r'"
    then have "v' = JBool b" using json_text_same_kind(5,6) [OF eq] by (cases b) simp_all
    with eq show "JBool b = v' \<and> r = r'" by simp
  qed
qed

lemma json_text_inject:
  "json_text html v = json_text html v' \<Longrightarrow> json_ok v \<Longrightarrow> json_ok v' \<Longrightarrow> v = v'"
  using cancelsD [OF json_text_cancels, of html v "[]" v' "[]"] by simp

end
