(* ===== verification/Mldsa.thy ===== *)
theory Mldsa
  imports Prelude
begin

section \<open>ML-DSA: package \<open>mldsa\<close>\<close>

text \<open>
  The wrapper around the three parameter sets of the CIRCL library (\<open>mldsa.go\<close>). The library is
  not part of the repository: its four calls are the fields of a record \<open>circl\<close>, and \<open>circl_ok\<close>
  states what its documentation promises of them. The wrapper's own part is modelled in full: the
  parameter-set table, the length checks, and which failure is which error. Zeroing a local copy of
  the seed after use has no effect a caller sees.
\<close>

subsection \<open>Parameter sets\<close>

text \<open>The Go type is an integer with three named values; \<open>OtherSet\<close> is any other one.\<close>

datatype ParameterSet = MLDSA44 | MLDSA65 | MLDSA87 | OtherSet int

fun String_set :: "ParameterSet \<Rightarrow> string" where
  "String_set MLDSA44 = ''ML-DSA-44''"
| "String_set MLDSA65 = ''ML-DSA-65''"
| "String_set MLDSA87 = ''ML-DSA-87''"
| "String_set (OtherSet _) = ''unknown''"

fun SeedSize_mldsa :: "ParameterSet \<Rightarrow> nat" where
  "SeedSize_mldsa (OtherSet _) = 0"
| "SeedSize_mldsa _ = 32"

fun PublicKeySize_mldsa :: "ParameterSet \<Rightarrow> nat" where
  "PublicKeySize_mldsa MLDSA44 = 1312"
| "PublicKeySize_mldsa MLDSA65 = 1952"
| "PublicKeySize_mldsa MLDSA87 = 2592"
| "PublicKeySize_mldsa (OtherSet _) = 0"

fun SignatureSize_mldsa :: "ParameterSet \<Rightarrow> nat" where
  "SignatureSize_mldsa MLDSA44 = 2420"
| "SignatureSize_mldsa MLDSA65 = 3309"
| "SignatureSize_mldsa MLDSA87 = 4627"
| "SignatureSize_mldsa (OtherSet _) = 0"

datatype mldsa_error =
    UnsupportedParameterSet ParameterSet
  | SeedWrongSize ParameterSet nat nat | PublicKeyWrongSize ParameterSet nat nat
  | MldsaPublicKeyUnparsed | MldsaSignFailed | MldsaInvalidSignature

subsection \<open>The library underneath\<close>

record circl =
  circl_public :: "ParameterSet \<Rightarrow> bytes \<Rightarrow> bytes"
  circl_sign :: "ParameterSet \<Rightarrow> bytes \<Rightarrow> bytes \<Rightarrow> bytes option"
  circl_parses :: "ParameterSet \<Rightarrow> bytes \<Rightarrow> bool"
  circl_verify :: "ParameterSet \<Rightarrow> bytes \<Rightarrow> bytes \<Rightarrow> bytes \<Rightarrow> bool"

text \<open>The documented behaviour: a seed determines a public key of the set's size that the library
  reads back, and a signature made from the seed has the set's size and verifies under that key
  over the same message.\<close>

definition circl_ok :: "circl \<Rightarrow> bool" where
  "circl_ok C \<longleftrightarrow>
     (\<forall>ps seed. SeedSize_mldsa ps \<noteq> 0 \<and> length seed = SeedSize_mldsa ps \<longrightarrow>
        length (circl_public C ps seed) = PublicKeySize_mldsa ps \<and>
        circl_parses C ps (circl_public C ps seed) \<and>
        (\<forall>msg. \<exists>sig. circl_sign C ps seed msg = Some sig \<and> length sig = SignatureSize_mldsa ps \<and>
           circl_verify C ps (circl_public C ps seed) msg sig))"

subsection \<open>The wrapper\<close>

definition seedArray :: "ParameterSet \<Rightarrow> bytes \<Rightarrow> mldsa_error + bytes" where
  "seedArray ps seed =
     (if SeedSize_mldsa ps = 0 then Inl (UnsupportedParameterSet ps)
      else if length seed \<noteq> SeedSize_mldsa ps then Inl (SeedWrongSize ps (SeedSize_mldsa ps) (length seed))
      else Inr seed)"

definition PublicKeyFromSeed :: "circl \<Rightarrow> ParameterSet \<Rightarrow> bytes \<Rightarrow> mldsa_error + bytes" where
  "PublicKeyFromSeed C ps seed =
     (case seedArray ps seed of Inl e \<Rightarrow> Inl e | Inr s \<Rightarrow> Inr (circl_public C ps s))"

definition Sign_mldsa :: "circl \<Rightarrow> ParameterSet \<Rightarrow> bytes \<Rightarrow> bytes \<Rightarrow> mldsa_error + bytes" where
  "Sign_mldsa C ps seed msg =
     (case seedArray ps seed of
        Inl e \<Rightarrow> Inl e
      | Inr s \<Rightarrow> (case circl_sign C ps s msg of None \<Rightarrow> Inl MldsaSignFailed | Some sig \<Rightarrow> Inr sig))"

definition Verify_mldsa :: "circl \<Rightarrow> ParameterSet \<Rightarrow> bytes \<Rightarrow> bytes \<Rightarrow> bytes \<Rightarrow> mldsa_error option" where
  "Verify_mldsa C ps pub msg sig =
     (if PublicKeySize_mldsa ps = 0 then Some (UnsupportedParameterSet ps)
      else if length pub \<noteq> PublicKeySize_mldsa ps
           then Some (PublicKeyWrongSize ps (PublicKeySize_mldsa ps) (length pub))
      else if length sig \<noteq> SignatureSize_mldsa ps then Some MldsaInvalidSignature
      else if \<not> circl_parses C ps pub then Some MldsaPublicKeyUnparsed
      else if \<not> circl_verify C ps pub msg sig then Some MldsaInvalidSignature
      else None)"

lemma sizes_agree: "SeedSize_mldsa ps = 0 \<longleftrightarrow> PublicKeySize_mldsa ps = 0"
  by (cases ps) simp_all

lemma Sign_Verify:
  assumes "circl_ok C" "PublicKeyFromSeed C ps seed = Inr pub"
  obtains sig where "Sign_mldsa C ps seed msg = Inr sig" "length sig = SignatureSize_mldsa ps"
    "Verify_mldsa C ps pub msg sig = None" "length pub = PublicKeySize_mldsa ps"
proof -
  have s: "SeedSize_mldsa ps \<noteq> 0" "length seed = SeedSize_mldsa ps" "pub = circl_public C ps seed"
    using assms(2) by (auto simp: PublicKeyFromSeed_def seedArray_def split: if_splits)
  then obtain sig where "circl_sign C ps seed msg = Some sig" "length sig = SignatureSize_mldsa ps"
    "circl_verify C ps pub msg sig" "length pub = PublicKeySize_mldsa ps" "circl_parses C ps pub"
    using assms(1) unfolding circl_ok_def by blast
  with s that show ?thesis by (simp add: Sign_mldsa_def seedArray_def Verify_mldsa_def sizes_agree)
qed

text \<open>A concrete library for witnesses: the public key is the padded seed, the signature the padded
  seed and message.\<close>

definition pad_to :: "nat \<Rightarrow> bytes \<Rightarrow> bytes" where
  "pad_to n s = take n (s @ replicate n (CHR 0x00))"

definition toy_circl :: circl where
  "toy_circl =
     \<lparr> circl_public = (\<lambda>ps seed. pad_to (PublicKeySize_mldsa ps) seed),
       circl_sign = (\<lambda>ps seed msg. Some (pad_to (SignatureSize_mldsa ps) (seed @ msg))),
       circl_parses = (\<lambda>ps pub. length pub = PublicKeySize_mldsa ps),
       circl_verify = (\<lambda>ps pub msg sig. sig = pad_to (SignatureSize_mldsa ps) (take 32 pub @ msg)) \<rparr>"

lemma length_pad_to [simp]: "length (pad_to n s) = n"
  by (simp add: pad_to_def)

lemma toy_circl_ok: "circl_ok toy_circl"
  unfolding circl_ok_def
proof (intro allI impI)
  fix ps :: ParameterSet and seed :: bytes
  assume s: "SeedSize_mldsa ps \<noteq> 0 \<and> length seed = SeedSize_mldsa ps"
  then have len: "length seed = 32" by (cases ps) simp_all
  have "take 32 (pad_to (PublicKeySize_mldsa ps) seed) = seed"
    using s len by (cases ps) (simp_all add: pad_to_def)
  then show "length (circl_public toy_circl ps seed) = PublicKeySize_mldsa ps \<and>
      circl_parses toy_circl ps (circl_public toy_circl ps seed) \<and>
      (\<forall>msg. \<exists>sig. circl_sign toy_circl ps seed msg = Some sig \<and> length sig = SignatureSize_mldsa ps \<and>
         circl_verify toy_circl ps (circl_public toy_circl ps seed) msg sig)"
    by (simp add: toy_circl_def)
qed

end
