(* ===== verification/Key_Id.thy ===== *)
theory Key_Id
  imports Sha512
begin

section \<open>Key algorithms and key ids: package \<open>keyfile\<close>\<close>

text \<open>
  The algorithm table (\<open>algorithm.go\<close>), the encoding of a public key (\<open>MarshalPublicKey\<close> in
  \<open>public.go\<close>) and the key id derived from it (\<open>keyid.go\<close>). A PEM file with one block is
  represented by the block, its label and its bytes: \<open>KeyID\<close> only decodes the text it has just
  encoded, which gives that block back. The DER encoder below is what the code uses of
  \<open>encoding/asn1\<close>. Parsing key files is not modelled here.
\<close>

subsection \<open>Algorithms\<close>

datatype Algorithm =
    Unknown | MLKEM512 | MLKEM768 | MLKEM1024 | KF_MLDSA44 | KF_MLDSA65 | KF_MLDSA87 | XWing | OtherAlgorithm int

record algorithmInfo =
  ai_name :: string
  ai_oid :: "nat list"
  ai_seedSize :: nat
  ai_publicSize :: nat
  ai_expandedSize :: nat
  ai_mlkemK :: nat

definition alg_info :: "string \<Rightarrow> nat list \<Rightarrow> nat \<Rightarrow> nat \<Rightarrow> nat \<Rightarrow> nat \<Rightarrow> algorithmInfo" where
  "alg_info nm oid seed pub expanded k =
     \<lparr> ai_name = nm, ai_oid = oid, ai_seedSize = seed, ai_publicSize = pub,
       ai_expandedSize = expanded, ai_mlkemK = k \<rparr>"

fun algorithms :: "Algorithm \<Rightarrow> algorithmInfo option" where
  "algorithms MLKEM512 = Some (alg_info ''ML-KEM-512'' [2, 16, 840, 1, 101, 3, 4, 4, 1] 64 800 1632 2)"
| "algorithms MLKEM768 = Some (alg_info ''ML-KEM-768'' [2, 16, 840, 1, 101, 3, 4, 4, 2] 64 1184 2400 3)"
| "algorithms MLKEM1024 = Some (alg_info ''ML-KEM-1024'' [2, 16, 840, 1, 101, 3, 4, 4, 3] 64 1568 3168 4)"
| "algorithms KF_MLDSA44 = Some (alg_info ''ML-DSA-44'' [2, 16, 840, 1, 101, 3, 4, 3, 17] 32 1312 2560 0)"
| "algorithms KF_MLDSA65 = Some (alg_info ''ML-DSA-65'' [2, 16, 840, 1, 101, 3, 4, 3, 18] 32 1952 4032 0)"
| "algorithms KF_MLDSA87 = Some (alg_info ''ML-DSA-87'' [2, 16, 840, 1, 101, 3, 4, 3, 19] 32 2592 4896 0)"
| "algorithms XWing = Some (alg_info ''X-Wing'' [1, 3, 6, 1, 4, 1, 62253, 25722] 32 1216 0 0)"
| "algorithms _ = None"

definition String_algorithm :: "Algorithm \<Rightarrow> string" where
  "String_algorithm a = (case algorithms a of Some i \<Rightarrow> ai_name i | None \<Rightarrow> ''unknown'')"

definition SeedSize_algorithm :: "Algorithm \<Rightarrow> nat" where
  "SeedSize_algorithm a = (case algorithms a of Some i \<Rightarrow> ai_seedSize i | None \<Rightarrow> 0)"

definition PublicKeySize_algorithm :: "Algorithm \<Rightarrow> nat" where
  "PublicKeySize_algorithm a = (case algorithms a of Some i \<Rightarrow> ai_publicSize i | None \<Rightarrow> 0)"

definition OID :: "Algorithm \<Rightarrow> nat list option" where
  "OID a = map_option ai_oid (algorithms a)"

text \<open>The range over the Go map has no fixed order; no two entries share an identifier, so the order
  does not matter (\<open>algorithmByOID_OID\<close>).\<close>

definition known_algorithms :: "Algorithm list" where
  "known_algorithms = [MLKEM512, MLKEM768, MLKEM1024, KF_MLDSA44, KF_MLDSA65, KF_MLDSA87, XWing]"

definition algorithmByOID :: "nat list \<Rightarrow> Algorithm option" where
  "algorithmByOID oid = List.find (\<lambda>a. OID a = Some oid) known_algorithms"

lemma algorithmByOID_OID: "algorithmByOID oid = Some a \<longleftrightarrow> OID a = Some oid"
proof
  show "algorithmByOID oid = Some a \<Longrightarrow> OID a = Some oid"
    by (auto simp: algorithmByOID_def find_Some_iff)
  show "OID a = Some oid \<Longrightarrow> algorithmByOID oid = Some a"
    by (cases a) (auto simp: algorithmByOID_def known_algorithms_def OID_def alg_info_def)
qed

subsection \<open>DER\<close>

text \<open>Big-endian digits of a positive number in base 256 and in base 128.\<close>

fun base_digits :: "nat \<Rightarrow> nat \<Rightarrow> nat list" where
  "base_digits b n = (if b < 2 \<or> n < b then [n] else base_digits b (n div b) @ [n mod b])"

declare base_digits.simps [simp del]

definition der_length :: "nat \<Rightarrow> bytes" where
  "der_length n =
     (if n < 128 then [char_of n]
      else let ds = base_digits 256 n in char_of (128 + length ds) # map char_of ds)"

definition der_tlv :: "nat \<Rightarrow> bytes \<Rightarrow> bytes" where
  "der_tlv tag content = char_of tag # der_length (length content) @ content"

definition der_arc :: "nat \<Rightarrow> bytes" where
  "der_arc n = (let ds = base_digits 128 n in map (\<lambda>d. char_of (128 + d)) (butlast ds) @ [char_of (last ds)])"

definition der_oid :: "nat list \<Rightarrow> bytes" where
  "der_oid arcs =
     (case arcs of
        a # b # r \<Rightarrow> der_tlv 6 (der_arc (40 * a + b) @ concat (map der_arc r))
      | _ \<Rightarrow> [])"

text \<open>\<open>asn1.Marshal(subjectPublicKeyInfo{...})\<close>: a sequence of the algorithm identifier (its
  parameters absent) and the key as a bit string with no unused bits.\<close>

definition spki_der :: "nat list \<Rightarrow> bytes \<Rightarrow> bytes" where
  "spki_der oid pub = der_tlv 48 (der_tlv 48 (der_oid oid) @ der_tlv 3 (CHR 0x00 # pub))"

subsection \<open>Public keys and their ids\<close>

datatype keyfile_error =
    UnsupportedAlgorithm Algorithm | PublicKeyLength string nat nat | ReencodeFailed

record pem_block =
  pem_type :: string
  pem_bytes :: bytes

definition pemTypePublic :: string where
  "pemTypePublic = ''PUBLIC KEY''"

definition MarshalPublicKey :: "Algorithm \<Rightarrow> bytes \<Rightarrow> keyfile_error + pem_block" where
  "MarshalPublicKey alg pub =
     (case algorithms alg of
        None \<Rightarrow> Inl (UnsupportedAlgorithm alg)
      | Some i \<Rightarrow>
          if length pub \<noteq> ai_publicSize i then Inl (PublicKeyLength (ai_name i) (ai_publicSize i) (length pub))
          else Inr \<lparr> pem_type = pemTypePublic, pem_bytes = spki_der (ai_oid i) pub \<rparr>)"

definition keyIDDomain :: string where "keyIDDomain = ''proof.keyid.v1:''"
definition KeyIDSize :: nat where "KeyIDSize = 16"

definition KeyID :: "Algorithm \<Rightarrow> bytes \<Rightarrow> keyfile_error + bytes" where
  "KeyID alg pub =
     (case algorithms alg of
        None \<Rightarrow> Inl (UnsupportedAlgorithm alg)
      | Some i \<Rightarrow>
          if length pub \<noteq> ai_publicSize i then Inl (PublicKeyLength (ai_name i) (ai_publicSize i) (length pub))
          else if alg = XWing then Inr (take KeyIDSize (sha512 pub))
          else case MarshalPublicKey alg pub of
            Inl e \<Rightarrow> Inl e
          | Inr block \<Rightarrow> Inr (take KeyIDSize (sha512 (keyIDDomain @ pem_bytes block))))"

definition KeyIDHex :: "Algorithm \<Rightarrow> bytes \<Rightarrow> keyfile_error + string" where
  "KeyIDHex alg pub = (case KeyID alg pub of Inl e \<Rightarrow> Inl e | Inr kid \<Rightarrow> Inr (hex_encode kid))"

text \<open>What is hashed, and the size of it for each algorithm.\<close>

definition keyid_preimage :: "Algorithm \<Rightarrow> bytes \<Rightarrow> bytes" where
  "keyid_preimage alg pub =
     (if alg = XWing then pub
      else keyIDDomain @ spki_der (case algorithms alg of Some i \<Rightarrow> ai_oid i | None \<Rightarrow> []) pub)"

lemma KeyID_ok_iff:
  "KeyID alg pub = Inr kid \<longleftrightarrow>
     (\<exists>i. algorithms alg = Some i \<and> length pub = ai_publicSize i) \<and> kid = take 16 (sha512 (keyid_preimage alg pub))"
  by (auto simp: KeyID_def MarshalPublicKey_def keyid_preimage_def KeyIDSize_def split: option.splits)

lemma base_digits_simps:
  "n < b \<Longrightarrow> base_digits b n = [n]"
  "\<not> b < 2 \<Longrightarrow> \<not> n < b \<Longrightarrow> base_digits b n = base_digits b (n div b) @ [n mod b]"
  by (subst base_digits.simps; simp)+

text \<open>Every key of the table is long enough for a two-byte length, and its identifier takes 11
  bytes, so the wrapper of a key is 22 bytes longer than the key.\<close>

lemma length_der_length: "256 \<le> n \<Longrightarrow> n < 65536 \<Longrightarrow> length (der_length n) = 3"
proof -
  assume n: "256 \<le> n" "n < 65536"
  have "n div 256 < 256" using n(2) by linarith
  with n show ?thesis by (simp add: der_length_def base_digits_simps)
qed

lemma length_der_oid:
  assumes "a \<noteq> XWing" "algorithms a = Some i"
  shows "length (der_oid (ai_oid i)) = 11"
  using assms
  by (cases a)
     (auto simp: alg_info_def der_oid_def der_tlv_def der_arc_def der_length_def base_digits_simps)

lemma length_keyid_preimage:
  assumes "algorithms a = Some i" "length pub = ai_publicSize i"
  shows "length (keyid_preimage a pub) = (if a = XWing then 1216 else 37 + ai_publicSize i)"
proof (cases "a = XWing")
  case True
  then show ?thesis using assms by (auto simp: keyid_preimage_def alg_info_def)
next
  case False
  have sz: "800 \<le> ai_publicSize i" "ai_publicSize i \<le> 2592"
    using assms(1) False by (cases a; auto simp: alg_info_def)+
  have oid: "length (der_oid (ai_oid i)) = 11" by (rule length_der_oid [OF False assms(1)])
  have "length (der_length 11) = 1" by (simp add: der_length_def)
  then show ?thesis using False assms sz oid
    by (simp add: keyid_preimage_def spki_der_def der_tlv_def length_der_length keyIDDomain_def)
qed

lemma keyid_preimage_suffix: "\<exists>p. keyid_preimage a pub = p @ pub"
  by (auto simp: keyid_preimage_def spki_der_def der_tlv_def)

lemma keyid_preimage_inject:
  assumes "algorithms a = Some i" "length pub = ai_publicSize i"
    and "algorithms a' = Some i'" "length pub' = ai_publicSize i'"
    and "keyid_preimage a pub = keyid_preimage a' pub'"
  shows "a = a' \<and> pub = pub'"
proof -
  have "length (keyid_preimage a pub) = length (keyid_preimage a' pub')" using assms(5) by simp
  then have "(if a = XWing then 1216 else 37 + ai_publicSize i) = (if a' = XWing then 1216 else 37 + ai_publicSize i')"
    using length_keyid_preimage assms(1-4) by metis
  then have a: "a = a'" using assms(1,3) by (cases a; cases a') (auto simp: alg_info_def)
  with assms have "length pub = length pub'" by simp
  moreover obtain p p' where "keyid_preimage a pub = p @ pub" "keyid_preimage a' pub' = p' @ pub'"
    using keyid_preimage_suffix by metis
  ultimately have "pub = pub'" using assms(5) by simp
  with a show ?thesis by simp
qed

text \<open>A key id names one key of one algorithm: if two keys, of the same algorithm or of different
  ones, have the same id, they are the same key of the same algorithm, or the two strings hashed
  for them are different and agree in the first 16 bytes of their SHA-512.\<close>

theorem key_id_binds:
  assumes "KeyID alg pub = Inr kid" "KeyID alg' pub' = Inr kid"
  shows "(alg = alg' \<and> pub = pub') \<or>
    (keyid_preimage alg pub \<noteq> keyid_preimage alg' pub' \<and>
     take 16 (sha512 (keyid_preimage alg pub)) = take 16 (sha512 (keyid_preimage alg' pub')))"
proof (cases "keyid_preimage alg pub = keyid_preimage alg' pub'")
  case True
  then show ?thesis using assms keyid_preimage_inject unfolding KeyID_ok_iff by blast
next
  case False
  then show ?thesis using assms unfolding KeyID_ok_iff by simp
qed

end
