(* ===== verification/Anchor_Core.thy ===== *)
theory Anchor_Core
  imports Sha512 Go_Json Mldsa Key_Id
begin

section \<open>Anchors: package \<open>anchor\<close>\<close>

text \<open>
  The signed statement that a chain had a head: the record and its versions (\<open>anchor.go\<close>), the bytes
  that are signed (\<open>canonical.go\<close>), the hash that ties an anchor to the one before it
  (\<open>chainhash.go\<close>), key rings and signature verification (\<open>verify.go\<close>). Signing is in
  \<open>Anchor_Sign\<close>. Strings are byte lists; the JSON encoder is the one of \<open>Go_Json\<close> with HTML escapes on;
  the signature scheme is the wrapper of \<open>Mldsa\<close> over a library \<open>C\<close>.
\<close>

subsection \<open>The record\<close>

record EntryRange =
  StartEntryID :: string
  EndEntryID :: string

record anchor =
  an_Version :: int
  an_AnchorID :: string
  an_Subject :: string
  an_ChainHash :: string
  an_Range :: EntryRange
  an_EntryCount :: int
  an_Signature :: string
  an_SigningKeyID :: string
  an_CreatedAtMs :: int
  an_PreviousAnchorID :: string
  an_VerifiedThrough :: int

datatype anchor_error =
    Withdrawn | UnsupportedVersion int
  | PredatesVerifiedThrough int int | VerifiedThroughNotPositive int | SubjectMissing
  | CoversNothing int int | VerifiedThroughExceeds int int | CreatedAtNegative
  | PipeInField string
  | TrustUnrecognised string | KeyRingEmptyID | KeyRingKeyLength string nat | KeyRingNil
  | UnknownKeyID string | KeySourceRequired
  | KeyLength nat | SignatureNotBase64 | SignatureLength nat | SignatureInvalid mldsa_error
  | CanonicalizeFailed anchor_error
  | SignerRequired | SignerKeyUnreadable | SignerKeyLength nat | KeyIDUnderivable keyfile_error
  | CanonicalEmpty | CanonicalTooLong nat | CanonicalNotObject | KeyIDMissing string
  | SignerFailed anchor_error | SignerBadSignature mldsa_error string | RefusingInvalid anchor_error
  | SignerClosed | PreHashed | SeedLength nat | ContextDone string | MldsaFailed mldsa_error

subsection \<open>The bytes that are signed\<close>

definition MinVersion :: int where "MinVersion = 1"
definition MaxVersion :: int where "MaxVersion = 6"
definition WithdrawnVersion :: int where "WithdrawnVersion = 5"
definition SubjectVersion :: int where "SubjectVersion = 6"

definition errWithdrawn :: anchor_error where "errWithdrawn = Withdrawn"

definition canonicalRange :: "EntryRange \<Rightarrow> json" where
  "canonicalRange r =
     JObj [(''end_entry_id'', JStr (EndEntryID r)), (''start_entry_id'', JStr (StartEntryID r))]"

definition canonicalV3 :: "anchor \<Rightarrow> json" where
  "canonicalV3 a =
     JObj [(''anchor_id'', JStr (an_AnchorID a)), (''chain_hash'', JStr (an_ChainHash a)),
       (''company_id'', JStr (an_Subject a)), (''created_at_ms'', JInt (an_CreatedAtMs a)),
       (''entry_count'', JInt (an_EntryCount a)), (''previous_anchor_id'', JStr (an_PreviousAnchorID a)),
       (''range'', canonicalRange (an_Range a)), (''signing_key_id'', JStr (an_SigningKeyID a)),
       (''version'', JInt (an_Version a))]"

definition canonicalV4 :: "anchor \<Rightarrow> json" where
  "canonicalV4 a =
     JObj [(''anchor_id'', JStr (an_AnchorID a)), (''chain_hash'', JStr (an_ChainHash a)),
       (''company_id'', JStr (an_Subject a)), (''created_at_ms'', JInt (an_CreatedAtMs a)),
       (''entry_count'', JInt (an_EntryCount a)), (''previous_anchor_id'', JStr (an_PreviousAnchorID a)),
       (''range'', canonicalRange (an_Range a)), (''signing_key_id'', JStr (an_SigningKeyID a)),
       (''verified_through'', JInt (an_VerifiedThrough a)), (''version'', JInt (an_Version a))]"

definition canonicalV6 :: "anchor \<Rightarrow> json" where
  "canonicalV6 a =
     JObj [(''anchor_id'', JStr (an_AnchorID a)), (''chain_hash'', JStr (an_ChainHash a)),
       (''created_at_ms'', JInt (an_CreatedAtMs a)),
       (''entry_count'', JInt (an_EntryCount a)), (''previous_anchor_id'', JStr (an_PreviousAnchorID a)),
       (''range'', canonicalRange (an_Range a)), (''signing_key_id'', JStr (an_SigningKeyID a)),
       (''subject'', JStr (an_Subject a)),
       (''verified_through'', JInt (an_VerifiedThrough a)), (''version'', JInt (an_Version a))]"

definition Canonicalize :: "anchor \<Rightarrow> anchor_error + bytes" where
  "Canonicalize a =
     (if MinVersion \<le> an_Version a \<and> an_Version a \<le> 3 then Inr (json_text True (canonicalV3 a))
      else if an_Version a = 4 then Inr (json_text True (canonicalV4 a))
      else if an_Version a = WithdrawnVersion then Inl errWithdrawn
      else if an_Version a = SubjectVersion then Inr (json_text True (canonicalV6 a))
      else Inl (UnsupportedVersion (an_Version a)))"

definition validateCounts :: "anchor \<Rightarrow> anchor_error option" where
  "validateCounts a =
     (if an_EntryCount a < 1 then Some (CoversNothing (an_Version a) (an_EntryCount a))
      else if an_EntryCount a < an_VerifiedThrough a
           then Some (VerifiedThroughExceeds (an_VerifiedThrough a) (an_EntryCount a))
      else if an_CreatedAtMs a < 0 then Some CreatedAtNegative
      else None)"

definition ValidateVersionInvariants :: "anchor \<Rightarrow> anchor_error option" where
  "ValidateVersionInvariants a =
     (if MinVersion \<le> an_Version a \<and> an_Version a \<le> 3 then
        (if an_VerifiedThrough a \<noteq> 0
         then Some (PredatesVerifiedThrough (an_Version a) (an_VerifiedThrough a)) else None)
      else if an_Version a = 4 then
        (if an_VerifiedThrough a \<le> 0 then Some (VerifiedThroughNotPositive 4) else validateCounts a)
      else if an_Version a = WithdrawnVersion then Some errWithdrawn
      else if an_Version a = SubjectVersion then
        (if an_VerifiedThrough a \<le> 0 then Some (VerifiedThroughNotPositive SubjectVersion)
         else if an_Subject a = [] then Some SubjectMissing
         else validateCounts a)
      else Some (UnsupportedVersion (an_Version a)))"

lemmas version_numbers = MinVersion_def MaxVersion_def WithdrawnVersion_def SubjectVersion_def

text \<open>Which anchors pass, in one condition.\<close>

definition valid_anchor :: "anchor \<Rightarrow> bool" where
  "valid_anchor a \<longleftrightarrow>
     (an_Version a \<in> {1, 2, 3} \<and> an_VerifiedThrough a = 0) \<or>
     (an_Version a \<in> {4, 6} \<and> 0 < an_VerifiedThrough a \<and> an_VerifiedThrough a \<le> an_EntryCount a \<and>
      0 \<le> an_CreatedAtMs a \<and> (an_Version a = 6 \<longrightarrow> an_Subject a \<noteq> []))"

lemma ValidateVersionInvariants_iff: "ValidateVersionInvariants a = None \<longleftrightarrow> valid_anchor a"
proof -
  have "1 \<le> an_Version a \<and> an_Version a \<le> 3 \<longleftrightarrow> an_Version a \<in> {1, 2, 3}" by auto
  then show ?thesis
    by (auto simp: ValidateVersionInvariants_def validateCounts_def valid_anchor_def version_numbers)
qed

lemma valid_anchor_canonicalizes: "valid_anchor a \<Longrightarrow> \<exists>c. Canonicalize a = Inr c"
  by (auto simp: valid_anchor_def Canonicalize_def version_numbers)

text \<open>Every string of the anchor that the canonical form holds.\<close>

definition anchor_utf8 :: "anchor \<Rightarrow> bool" where
  "anchor_utf8 a \<longleftrightarrow>
     list_all utf8_valid [an_AnchorID a, an_ChainHash a, an_Subject a, an_PreviousAnchorID a,
       an_SigningKeyID a, StartEntryID (an_Range a), EndEntryID (an_Range a)]"

lemmas canonical_layouts = canonicalV3_def canonicalV4_def canonicalV6_def canonicalRange_def

lemma canonical_json_ok:
  assumes "anchor_utf8 a"
  shows "json_ok (canonicalV3 a)" "json_ok (canonicalV4 a)" "json_ok (canonicalV6 a)"
  using assms by (simp_all add: canonical_layouts anchor_utf8_def)

definition canonical_json :: "anchor \<Rightarrow> json" where
  "canonical_json a =
     (if an_Version a \<le> 3 then canonicalV3 a else if an_Version a = 4 then canonicalV4 a else canonicalV6 a)"

lemma Canonicalize_text:
  "Canonicalize a = Inr c \<Longrightarrow>
     c = json_text True (canonical_json a) \<and> (1 \<le> an_Version a \<and> an_Version a \<le> 4 \<or> an_Version a = 6)"
  by (auto simp: Canonicalize_def canonical_json_def version_numbers split: if_splits)

lemma canonical_json_inject:
  assumes "canonical_json a = canonical_json b"
  shows "an_Version a = an_Version b \<and> an_AnchorID a = an_AnchorID b \<and> an_Subject a = an_Subject b
    \<and> an_ChainHash a = an_ChainHash b \<and> an_Range a = an_Range b \<and> an_EntryCount a = an_EntryCount b
    \<and> an_SigningKeyID a = an_SigningKeyID b \<and> an_CreatedAtMs a = an_CreatedAtMs b
    \<and> an_PreviousAnchorID a = an_PreviousAnchorID b
    \<and> (4 \<le> an_Version a \<longrightarrow> an_VerifiedThrough a = an_VerifiedThrough b)"
proof -
  have r: "EndEntryID x = EndEntryID y \<Longrightarrow> StartEntryID x = StartEntryID y \<Longrightarrow> x = y" for x y :: EntryRange
    by simp
  show ?thesis
    using assms unfolding canonical_json_def canonical_layouts
    by (cases "an_Version a \<le> 3"; cases "an_Version b \<le> 3"; cases "an_Version a = 4"; cases "an_Version b = 4")
       (simp_all add: r)
qed

lemma canonical_text_inject:
  assumes "Canonicalize a = Inr c" "Canonicalize b = Inr c" "anchor_utf8 a" "anchor_utf8 b"
  shows "canonical_json a = canonical_json b"
proof -
  have "json_text True (canonical_json a) = json_text True (canonical_json b)"
    using Canonicalize_text [OF assms(1)] Canonicalize_text [OF assms(2)] by simp
  moreover have "json_ok (canonical_json a)" "json_ok (canonical_json b)"
    using canonical_json_ok assms(3,4) by (simp_all add: canonical_json_def)
  ultimately show ?thesis by (rule json_text_inject)
qed

text \<open>The first byte of the canonical form, which the signing path checks.\<close>

lemma Canonicalize_brace: "Canonicalize a = Inr c \<Longrightarrow> \<exists>r. c = CHR ''{'' # r"
  using Canonicalize_text [of a c] by (auto simp: canonical_json_def canonical_layouts)

text \<open>C22. The signed bytes determine the anchor: two valid anchors whose text is well-formed UTF-8 and
  whose canonical bytes are equal agree in every field except the signature, whatever versions
  they declare. So no signature of one anchor is a signature of another, and none of one version
  is one of another version.\<close>

theorem canonical_form_binds:
  assumes "Canonicalize a = Inr c" "Canonicalize b = Inr c"
    and "ValidateVersionInvariants a = None" "ValidateVersionInvariants b = None"
    and "anchor_utf8 a" "anchor_utf8 b"
  shows "b = a \<lparr> an_Signature := an_Signature b \<rparr>"
proof -
  note eq = canonical_json_inject [OF canonical_text_inject [OF assms(1,2,5,6)]]
  moreover have "an_VerifiedThrough a = an_VerifiedThrough b"
    using eq assms(3,4) by (auto simp: ValidateVersionInvariants_iff valid_anchor_def)
  ultimately show ?thesis by simp
qed

definition example_anchor :: anchor where
  "example_anchor =
     \<lparr> an_Version = 6, an_AnchorID = ''anchor_1'', an_Subject = ''host-1'', an_ChainHash = ''ab12'',
       an_Range = \<lparr> StartEntryID = ''e1'', EndEntryID = ''e3'' \<rparr>, an_EntryCount = 3, an_Signature = ''c2ln'',
       an_SigningKeyID = ''k1'', an_CreatedAtMs = 1767225600000, an_PreviousAnchorID = ''anchor_0'',
       an_VerifiedThrough = 2 \<rparr>"

lemma example_anchor_facts:
  "ValidateVersionInvariants (example_anchor \<lparr> an_Signature := g \<rparr>) = None"
  "Canonicalize (example_anchor \<lparr> an_Signature := g \<rparr>) = Canonicalize example_anchor"
  "anchor_utf8 (example_anchor \<lparr> an_Signature := g \<rparr>)"
  "\<exists>c. Canonicalize example_anchor = Inr c"
  by (simp_all add: ValidateVersionInvariants_def validateCounts_def version_numbers example_anchor_def
      Canonicalize_def canonical_layouts anchor_utf8_def)

theorem canonical_form_binds_witness:
  "\<exists>c. Canonicalize example_anchor = Inr c \<and> ValidateVersionInvariants example_anchor = None \<and>
     (let b = example_anchor \<lparr> an_Signature := ''eA=='' \<rparr>
      in Canonicalize b = Inr c \<and> b = example_anchor \<lparr> an_Signature := an_Signature b \<rparr>)"
proof -
  obtain c where c: "Canonicalize example_anchor = Inr c" using example_anchor_facts(4) by blast
  have e: "example_anchor = example_anchor \<lparr> an_Signature := ''c2ln'' \<rparr>" by (simp add: example_anchor_def)
  have v: "ValidateVersionInvariants example_anchor = None" "anchor_utf8 example_anchor"
    using example_anchor_facts(1,3) e by metis+
  have c': "Canonicalize (example_anchor \<lparr> an_Signature := ''eA=='' \<rparr>) = Inr c"
    using example_anchor_facts(2) c by metis
  show ?thesis
    using canonical_form_binds [OF c c' v(1) example_anchor_facts(1) v(2) example_anchor_facts(3)] c c' v
    unfolding Let_def by blast
qed

subsection \<open>The hash of an anchor\<close>

definition ChainDomainV2 :: string where "ChainDomainV2 = ''aleutian.anchor.v2:''"

definition SeedAnchorHash :: string where
  "SeedAnchorHash =
     ''03443d96d3b369839f63f98b712463efba04c00551822743108d60c5f291627859ff0b7dc29f99e3c847b07b0b18bb385426c744847c1b070563f8dd07271f27''"

definition SeedAnchorID :: string where
  "SeedAnchorID = ''anchor_00000000-0000-0000-0000-000000000000''"

definition chainHashFields :: "string list" where
  "chainHashFields = [''previousAnchorHash'', ''subject'', ''startEntryID'', ''endEntryID'', ''tipChainHash'']"

definition ValidateChainHashDelimiters ::
    "string \<Rightarrow> string \<Rightarrow> string \<Rightarrow> string \<Rightarrow> string \<Rightarrow> anchor_error option" where
  "ValidateChainHashDelimiters previousAnchorHash subject startEntryID endEntryID tipChainHash =
     map_option (\<lambda>(f, v). PipeInField f)
       (List.find (\<lambda>(f, v). CHR ''|'' \<in> set v)
          (zip chainHashFields [previousAnchorHash, subject, startEntryID, endEntryID, tipChainHash]))"

definition anchor_preimage :: "string \<Rightarrow> string \<Rightarrow> string \<Rightarrow> string \<Rightarrow> string \<Rightarrow> bytes" where
  "anchor_preimage previousAnchorHash subject startEntryID endEntryID tipChainHash =
     ChainDomainV2 @ previousAnchorHash @ CHR ''|'' # subject @ CHR ''|'' # startEntryID
     @ CHR ''|'' # endEntryID @ CHR ''|'' # tipChainHash"

definition ChainHashUnchecked :: "string \<Rightarrow> string \<Rightarrow> string \<Rightarrow> string \<Rightarrow> string \<Rightarrow> string" where
  "ChainHashUnchecked previousAnchorHash subject startEntryID endEntryID tipChainHash =
     hex_sha512 (anchor_preimage previousAnchorHash subject startEntryID endEntryID tipChainHash)"

definition ChainHash_anchor :: "string \<Rightarrow> string \<Rightarrow> string \<Rightarrow> string \<Rightarrow> string \<Rightarrow> anchor_error + string" where
  "ChainHash_anchor previousAnchorHash subject startEntryID endEntryID tipChainHash =
     (case ValidateChainHashDelimiters previousAnchorHash subject startEntryID endEntryID tipChainHash of
        Some e \<Rightarrow> Inl e
      | None \<Rightarrow> Inr (ChainHashUnchecked previousAnchorHash subject startEntryID endEntryID tipChainHash))"

lemma ValidateChainHashDelimiters_iff:
  "ValidateChainHashDelimiters p s i j t = None \<longleftrightarrow>
     CHR ''|'' \<notin> set p \<and> CHR ''|'' \<notin> set s \<and> CHR ''|'' \<notin> set i \<and> CHR ''|'' \<notin> set j \<and> CHR ''|'' \<notin> set t"
  by (auto simp: ValidateChainHashDelimiters_def chainHashFields_def)

lemma ChainHash_iff:
  "ChainHash_anchor p s i j t = Inr h \<longleftrightarrow>
     (CHR ''|'' \<notin> set p \<and> CHR ''|'' \<notin> set s \<and> CHR ''|'' \<notin> set i \<and> CHR ''|'' \<notin> set j \<and> CHR ''|'' \<notin> set t) \<and>
     h = hex_sha512 (anchor_preimage p s i j t)"
  using ValidateChainHashDelimiters_iff [of p s i j t]
  by (cases "ValidateChainHashDelimiters p s i j t") (auto simp: ChainHash_anchor_def ChainHashUnchecked_def)

lemma anchor_preimage_inject:
  assumes "anchor_preimage p s i j t = anchor_preimage p' s' i' j' t'"
    and "ChainHash_anchor p s i j t = Inr h" "ChainHash_anchor p' s' i' j' t' = Inr h'"
  shows "p = p' \<and> s = s' \<and> i = i' \<and> j = j' \<and> t = t'"
proof -
  note np = assms(2,3) [unfolded ChainHash_iff]
  have "p @ CHR ''|'' # (s @ CHR ''|'' # i @ CHR ''|'' # j @ CHR ''|'' # t)
      = p' @ CHR ''|'' # (s' @ CHR ''|'' # i' @ CHR ''|'' # j' @ CHR ''|'' # t')"
    using assms(1) by (simp add: anchor_preimage_def)
  from sep_inject [OF this] np have 1: "p = p'"
    and "s @ CHR ''|'' # (i @ CHR ''|'' # j @ CHR ''|'' # t) = s' @ CHR ''|'' # (i' @ CHR ''|'' # j' @ CHR ''|'' # t')"
    by simp_all
  from sep_inject [OF this(2)] np have 2: "s = s'"
    and "i @ CHR ''|'' # (j @ CHR ''|'' # t) = i' @ CHR ''|'' # (j' @ CHR ''|'' # t')" by simp_all
  from sep_inject [OF this(2)] np have 3: "i = i'" and "j @ CHR ''|'' # t = j' @ CHR ''|'' # t'" by simp_all
  from sep_inject [OF this(2)] np 1 2 3 show ?thesis by simp
qed

lemma ChainHash_collides:
  assumes "ChainHash_anchor p s i j t = Inr h" "ChainHash_anchor p' s' i' j' t' = Inr h"
    and "\<not> (p = p' \<and> s = s' \<and> i = i' \<and> j = j' \<and> t = t')"
  shows "collision (anchor_preimage p s i j t) (anchor_preimage p' s' i' j' t')"
proof -
  have "hex_sha512 (anchor_preimage p s i j t) = hex_sha512 (anchor_preimage p' s' i' j' t')"
    using assms(1,2) unfolding ChainHash_iff by metis
  then have "sha512 (anchor_preimage p s i j t) = sha512 (anchor_preimage p' s' i' j' t')"
    by (simp add: hex_sha512_def)
  with anchor_preimage_inject [OF _ assms(1,2)] assms(3) show ?thesis by (auto simp: collision_def)
qed

text \<open>The hash of an anchor commits to its predecessor's hash, its subject, both ends of its range
  and the chain's head: equal hashes mean equal inputs, unless the two strings hashed collide.\<close>

theorem anchor_hash_binds:
  assumes "ChainHash_anchor p s i j t = Inr h" "ChainHash_anchor p' s' i' j' t' = Inr h"
  shows "(p = p' \<and> s = s' \<and> i = i' \<and> j = j' \<and> t = t') \<or>
    collision (anchor_preimage p s i j t) (anchor_preimage p' s' i' j' t')"
  using ChainHash_collides [OF assms] by blast

subsection \<open>Keys\<close>

text \<open>A trust level is a string; the three named ones are the only ones a key ring takes.\<close>

datatype Trust = TrustPlatform | TrustProvided | TrustSelf | OtherTrust string

fun Establishes :: "Trust \<Rightarrow> string" where
  "Establishes TrustPlatform = ''a third party attests to this chain''"
| "Establishes TrustProvided = ''the holder of a key you supplied attests to this chain''"
| "Establishes TrustSelf = ''the chain's own holder attests to it; no third party is involved''"
| "Establishes (OtherTrust _) = ''unknown trust level; treat as unverified''"

definition SignatureSize_anchor :: nat where "SignatureSize_anchor = 3309"
definition PublicKeySize_anchor :: nat where "PublicKeySize_anchor = 1952"

text \<open>The interface \<open>KeySource\<close> has one method; \<open>None\<close> is a nil source.\<close>

type_synonym KeySource = "string \<Rightarrow> anchor_error + (bytes \<times> Trust)"

record KeyRing =
  kr_trust :: Trust
  kr_keys :: "string \<rightharpoonup> bytes"

text \<open>The keys are a Go map, given as the list of its entries in the order the loop meets them; their
  ids are distinct. The loop stops at the first entry it refuses.\<close>

fun check_ring :: "(string \<times> bytes) list \<Rightarrow> anchor_error option" where
  "check_ring [] = None"
| "check_ring ((kid, k) # r) =
     (if kid = [] then Some KeyRingEmptyID
      else if length k \<noteq> PublicKeySize_anchor then Some (KeyRingKeyLength kid (length k))
      else check_ring r)"

definition NewKeyRing :: "Trust \<Rightarrow> (string \<times> bytes) list \<Rightarrow> anchor_error + KeyRing" where
  "NewKeyRing trust ks =
     (case trust of
        OtherTrust t \<Rightarrow> Inl (TrustUnrecognised t)
      | _ \<Rightarrow> (case check_ring ks of
               Some e \<Rightarrow> Inl e
             | None \<Rightarrow> Inr \<lparr> kr_trust = trust, kr_keys = map_of ks \<rparr>))"

definition PublicKey_ring :: "KeyRing option \<Rightarrow> KeySource" where
  "PublicKey_ring r keyID =
     (case r of
        None \<Rightarrow> Inl KeyRingNil
      | Some ring \<Rightarrow> (case kr_keys ring keyID of
                        None \<Rightarrow> Inl (UnknownKeyID keyID)
                      | Some k \<Rightarrow> Inr (k, kr_trust ring)))"

lemma check_ring_iff:
  "check_ring ks = None \<longleftrightarrow> (\<forall>(kid, k) \<in> set ks. kid \<noteq> [] \<and> length k = 1952)"
  by (induction ks rule: check_ring.induct) (auto simp: PublicKeySize_anchor_def)

text \<open>A key ring is made exactly for a named trust level and entries that all have an id and a key
  of 1952 bytes; it then answers an id with the key stored under it and the ring's trust level, and
  any other id with the error of an unknown key.\<close>

lemma key_ring_functional:
  "((\<exists>r. NewKeyRing trust ks = Inr r) \<longleftrightarrow>
      trust \<in> {TrustPlatform, TrustProvided, TrustSelf} \<and> list_all (\<lambda>(kid, k). kid \<noteq> [] \<and> length k = 1952) ks) \<and>
   (\<forall>r kid. NewKeyRing trust ks = Inr r \<longrightarrow> PublicKey_ring (Some r) kid =
      (case map_of ks kid of None \<Rightarrow> Inl (UnknownKeyID kid) | Some k \<Rightarrow> Inr (k, trust)))"
proof
  have "check_ring ks = None \<longleftrightarrow> list_all (\<lambda>(kid, k). kid \<noteq> [] \<and> length k = 1952) ks"
    by (simp add: check_ring_iff list_all_iff)
  then show "(\<exists>r. NewKeyRing trust ks = Inr r) \<longleftrightarrow>
      trust \<in> {TrustPlatform, TrustProvided, TrustSelf} \<and> list_all (\<lambda>(kid, k). kid \<noteq> [] \<and> length k = 1952) ks"
    by (auto simp: NewKeyRing_def split: Trust.splits option.splits)
  show "\<forall>r kid. NewKeyRing trust ks = Inr r \<longrightarrow> PublicKey_ring (Some r) kid =
      (case map_of ks kid of None \<Rightarrow> Inl (UnknownKeyID kid) | Some k \<Rightarrow> Inr (k, trust))"
    by (auto simp: NewKeyRing_def PublicKey_ring_def split: Trust.splits option.splits)
qed

subsection \<open>Verifying a signature\<close>

definition verifyMLDSA65 :: "circl \<Rightarrow> bytes \<Rightarrow> bytes \<Rightarrow> bytes \<Rightarrow> mldsa_error option" where
  "verifyMLDSA65 C pub msg sig = Verify_mldsa C MLDSA65 pub msg sig"

definition VerifySignature :: "circl \<Rightarrow> anchor \<Rightarrow> KeySource option \<Rightarrow> anchor_error + Trust" where
  "VerifySignature C a src =
     (case src of
        None \<Rightarrow> Inl KeySourceRequired
      | Some lookup \<Rightarrow>
          (case ValidateVersionInvariants a of
             Some e \<Rightarrow> Inl e
           | None \<Rightarrow>
               if an_SigningKeyID a = [] then Inl (UnknownKeyID [])
               else (case lookup (an_SigningKeyID a) of
                 Inl e \<Rightarrow> Inl e
               | Inr (pubKey, trust) \<Rightarrow>
                   if length pubKey \<noteq> PublicKeySize_anchor then Inl (KeyLength (length pubKey))
                   else if CHR 0x0D \<in> set (an_Signature a) \<or> CHR 0x0A \<in> set (an_Signature a)
                        then Inl SignatureNotBase64
                   else (case b64_decode (an_Signature a) of
                     None \<Rightarrow> Inl SignatureNotBase64
                   | Some sig \<Rightarrow>
                       if length sig \<noteq> SignatureSize_anchor then Inl (SignatureLength (length sig))
                       else (case Canonicalize a of
                         Inl e \<Rightarrow> Inl (CanonicalizeFailed e)
                       | Inr canonical \<Rightarrow>
                           (case verifyMLDSA65 C pubKey canonical sig of
                              Some e \<Rightarrow> Inl (SignatureInvalid e)
                            | None \<Rightarrow> Inr trust))))))"

lemma VerifySignature_lemma:
  "VerifySignature C a (Some lookup) = Inr trust \<longleftrightarrow>
     (\<exists>pub sig canonical.
        ValidateVersionInvariants a = None \<and> an_SigningKeyID a \<noteq> [] \<and>
        lookup (an_SigningKeyID a) = Inr (pub, trust) \<and> length pub = 1952 \<and>
        CHR 0x0D \<notin> set (an_Signature a) \<and> CHR 0x0A \<notin> set (an_Signature a) \<and>
        b64_decode (an_Signature a) = Some sig \<and> length sig = 3309 \<and>
        Canonicalize a = Inr canonical \<and> verifyMLDSA65 C pub canonical sig = None)"
  by (auto simp: VerifySignature_def PublicKeySize_anchor_def SignatureSize_anchor_def
      split: option.splits sum.splits prod.splits if_splits)

end
