(* ===== verification/Anchor_Sign.thy ===== *)
theory Anchor_Sign
  imports Anchor_Core
begin

section \<open>Signing anchors: \<open>anchor/sign.go\<close> and \<open>anchor/signer.go\<close>\<close>

text \<open>
  The interface a signing key is used through (\<open>ContextSigner\<close>), the in-memory ML-DSA-65 signer
  that provides it, and the two operations over it: \<open>SignCanonical\<close>, which signs bytes and checks
  its own result, and \<open>SignAnchor\<close>, which stamps the key id before canonicalizing. The read-write
  lock of the in-memory signer makes each call one step; its seed is gone after \<open>Close_signer\<close>.
  What the code assumes of a signer is the locale \<open>context_signer\<close>.
\<close>

subsection \<open>The interface\<close>

text \<open>What \<open>Public()\<close> may answer: a value that is no \<open>BinaryMarshaler\<close>, one whose marshalling fails,
  or key bytes. A signer is the pair of the two methods for one context.\<close>

datatype public_value = NotMarshaler | MarshalFails | MarshalsTo bytes

record ContextSigner =
  cs_Public :: public_value
  cs_SignContext :: "bytes \<Rightarrow> anchor_error + bytes"

subsection \<open>The in-memory signer\<close>

text \<open>\<open>PublicKey\<close> of \<open>signer.go\<close>; a nil pointer is \<open>None\<close>.\<close>

record PublicKey = pk_raw :: bytes

definition MarshalBinary :: "PublicKey option \<Rightarrow> public_value" where
  "MarshalBinary p = (case p of None \<Rightarrow> MarshalFails | Some k \<Rightarrow> MarshalsTo (pk_raw k))"

definition Equal_key :: "PublicKey option \<Rightarrow> PublicKey option \<Rightarrow> bool" where
  "Equal_key p x =
     (case (p, x) of
        (Some k, Some l) \<Rightarrow>
          length (pk_raw l) = length (pk_raw k) \<and>
          list_all (\<lambda>i. pk_raw k ! i = pk_raw l ! i) [0..<length (pk_raw k)]
      | _ \<Rightarrow> False)"

record MLDSA65Signer =
  sg_seed :: bytes
  sg_closed :: bool
  sg_pub :: bytes
  sg_keyID :: string

definition NewMLDSA65Signer :: "circl \<Rightarrow> bytes \<Rightarrow> anchor_error + MLDSA65Signer" where
  "NewMLDSA65Signer C seed =
     (if length seed \<noteq> SeedSize_mldsa MLDSA65 then Inl (SeedLength (length seed))
      else case PublicKeyFromSeed C MLDSA65 seed of
        Inl e \<Rightarrow> Inl (MldsaFailed e)
      | Inr pub \<Rightarrow>
          if length pub \<noteq> PublicKeySize_anchor then Inl (KeyLength (length pub))
          else case KeyIDHex KF_MLDSA65 pub of
            Inl e \<Rightarrow> Inl (KeyIDUnderivable e)
          | Inr keyID \<Rightarrow> Inr \<lparr> sg_seed = seed, sg_closed = False, sg_pub = pub, sg_keyID = keyID \<rparr>)"

definition KeyID_signer :: "MLDSA65Signer \<Rightarrow> string" where
  "KeyID_signer s = sg_keyID s"

definition Public_signer :: "MLDSA65Signer \<Rightarrow> PublicKey option" where
  "Public_signer s = Some \<lparr> pk_raw = sg_pub s \<rparr>"

text \<open>The options name a hash function, 0 for none; \<open>None\<close> is nil options.\<close>

definition Sign_signer :: "circl \<Rightarrow> MLDSA65Signer \<Rightarrow> bytes \<Rightarrow> nat option \<Rightarrow> anchor_error + bytes" where
  "Sign_signer C s msg opts =
     (if opts \<noteq> None \<and> opts \<noteq> Some 0 then Inl PreHashed
      else if sg_closed s then Inl SignerClosed
      else case Sign_mldsa C MLDSA65 (sg_seed s) msg of
        Inl e \<Rightarrow> Inl (MldsaFailed e)
      | Inr sig \<Rightarrow> Inr sig)"

definition SignContext :: "circl \<Rightarrow> string option \<Rightarrow> MLDSA65Signer \<Rightarrow> bytes \<Rightarrow> anchor_error + bytes" where
  "SignContext C ctx s msg =
     (case ctx of Some e \<Rightarrow> Inl (ContextDone e) | None \<Rightarrow> Sign_signer C s msg (Some 0))"

definition Close_signer :: "MLDSA65Signer \<Rightarrow> MLDSA65Signer" where
  "Close_signer s = (if sg_closed s then s else s \<lparr> sg_seed := [], sg_closed := True \<rparr>)"

text \<open>The in-memory signer as a \<open>ContextSigner\<close>, and the adapter for a plain signer
  (\<open>cryptoSignerAdapter\<close>), which forwards both methods with no hash named. \<open>None\<close> is a nil
  signer.\<close>

definition as_ContextSigner :: "circl \<Rightarrow> string option \<Rightarrow> MLDSA65Signer \<Rightarrow> ContextSigner" where
  "as_ContextSigner C ctx s =
     \<lparr> cs_Public = MarshalBinary (Public_signer s), cs_SignContext = SignContext C ctx s \<rparr>"

definition FromCryptoSigner ::
    "(public_value \<times> (bytes \<Rightarrow> nat option \<Rightarrow> anchor_error + bytes)) option \<Rightarrow> anchor_error + ContextSigner" where
  "FromCryptoSigner s =
     (case s of
        None \<Rightarrow> Inl SignerRequired
      | Some (pub, sign) \<Rightarrow> Inr \<lparr> cs_Public = pub, cs_SignContext = (\<lambda>msg. sign msg (Some 0)) \<rparr>)"

subsection \<open>Signing\<close>

definition maxCanonicalSize :: nat where "maxCanonicalSize = 1048576"

definition KeyIDOf :: "ContextSigner option \<Rightarrow> anchor_error + (string \<times> bytes)" where
  "KeyIDOf s =
     (case s of
        None \<Rightarrow> Inl SignerRequired
      | Some sg \<Rightarrow>
          (case cs_Public sg of
             MarshalsTo pub \<Rightarrow>
               if length pub \<noteq> PublicKeySize_anchor then Inl (SignerKeyLength (length pub))
               else (case KeyIDHex KF_MLDSA65 pub of
                 Inl e \<Rightarrow> Inl (KeyIDUnderivable e)
               | Inr keyID \<Rightarrow> Inr (keyID, pub))
           | _ \<Rightarrow> Inl SignerKeyUnreadable))"

fun contains :: "string \<Rightarrow> string \<Rightarrow> bool" where
  "contains p [] = (p = [])"
| "contains p (c # s) = (has_prefix p (c # s) \<or> contains p s)"

definition emptyKeyIDMember :: string where
  "emptyKeyIDMember = json_string True ''signing_key_id'' @ CHR '':'' # json_string True []"

definition SignCanonical :: "circl \<Rightarrow> ContextSigner option \<Rightarrow> bytes \<Rightarrow> anchor_error + (bytes \<times> string)" where
  "SignCanonical C s canonical =
     (case KeyIDOf s of
        Inl e \<Rightarrow> Inl e
      | Inr (keyID, pub) \<Rightarrow>
          if canonical = [] then Inl CanonicalEmpty
          else if maxCanonicalSize < length canonical then Inl (CanonicalTooLong (length canonical))
          else if hd canonical \<noteq> CHR ''{'' then Inl CanonicalNotObject
          else if contains emptyKeyIDMember canonical then Inl (KeyIDMissing keyID)
          else case s of None \<Rightarrow> Inl SignerRequired | Some sg \<Rightarrow>
            (case cs_SignContext sg canonical of
               Inl e \<Rightarrow> Inl (SignerFailed e)
             | Inr sig \<Rightarrow>
                 if length sig \<noteq> SignatureSize_anchor then Inl (SignatureLength (length sig))
                 else (case verifyMLDSA65 C pub canonical sig of
                   Some e \<Rightarrow> Inl (SignerBadSignature e keyID)
                 | None \<Rightarrow> Inr (sig, keyID))))"

definition SignAnchor :: "circl \<Rightarrow> ContextSigner option \<Rightarrow> anchor \<Rightarrow> anchor_error + anchor" where
  "SignAnchor C s a =
     (case KeyIDOf s of
        Inl e \<Rightarrow> Inl e
      | Inr (keyID, pub) \<Rightarrow>
          let out = (if an_SigningKeyID a = [] then a \<lparr> an_SigningKeyID := keyID \<rparr> else a) \<lparr> an_Signature := [] \<rparr>
          in case ValidateVersionInvariants out of
               Some e \<Rightarrow> Inl (RefusingInvalid e)
             | None \<Rightarrow>
                 (case Canonicalize out of
                    Inl e \<Rightarrow> Inl (CanonicalizeFailed e)
                  | Inr canonical \<Rightarrow>
                      (case SignCanonical C s canonical of
                         Inl e \<Rightarrow> Inl e
                       | Inr (sig, kid) \<Rightarrow> Inr (out \<lparr> an_Signature := b64_encode sig \<rparr>))))"

text \<open>The string the code searches for, spelled out.\<close>

lemma emptyKeyIDMember_text:
  "emptyKeyIDMember = CHR 0x22 # ''signing_key_id'' @ [CHR 0x22, CHR '':'', CHR 0x22, CHR 0x22]"
  by (simp add: emptyKeyIDMember_def json_string_def json_chars.simps(2) json_ascii_def)

lemma KeyIDOf_ok:
  "KeyIDOf s = Inr (kid, pub) \<longleftrightarrow>
     (\<exists>sg. s = Some sg \<and> cs_Public sg = MarshalsTo pub) \<and> length pub = 1952 \<and>
     kid = hex_encode (take 16 (sha512 (keyid_preimage KF_MLDSA65 pub)))"
proof -
  have "KeyIDHex KF_MLDSA65 pub = Inr (hex_encode (take 16 (sha512 (keyid_preimage KF_MLDSA65 pub))))"
    if "length pub = 1952" for pub
    using that by (simp add: KeyIDHex_def KeyID_ok_iff [THEN iffD2] alg_info_def)
  then show ?thesis
    by (auto simp: KeyIDOf_def PublicKeySize_anchor_def split: option.splits public_value.splits)
qed

lemma KeyIDOf_not_empty: "KeyIDOf s = Inr (kid, pub) \<Longrightarrow> kid \<noteq> []"
  by (auto simp: KeyIDOf_ok dest: arg_cong [where f = length])

subsection \<open>What a good signer gives\<close>

locale context_signer =
  fixes ready :: "'s \<Rightarrow> bool" and as_signer :: "'s \<Rightarrow> ContextSigner"
    and public :: "'s \<Rightarrow> bytes" and library :: "'s \<Rightarrow> circl"
  assumes public_of: "ready s \<Longrightarrow> cs_Public (as_signer s) = MarshalsTo (public s)"
    and public_length: "ready s \<Longrightarrow> length (public s) = 1952"
    and sign_ok: "ready s \<Longrightarrow> \<exists>sig. cs_SignContext (as_signer s) msg = Inr sig \<and> length sig = 3309 \<and>
        verifyMLDSA65 (library s) (public s) msg sig = None"
begin

lemma KeyIDOf_ready: "ready s \<Longrightarrow> \<exists>kid. KeyIDOf (Some (as_signer s)) = Inr (kid, public s)"
  by (simp add: KeyIDOf_ok public_of public_length)

lemma SignCanonical_ready:
  assumes "ready s" "hd c = CHR ''{''" "c \<noteq> []" "length c \<le> maxCanonicalSize" "\<not> contains emptyKeyIDMember c"
  shows "\<exists>sig kid. SignCanonical (library s) (Some (as_signer s)) c = Inr (sig, kid)"
proof -
  obtain kid where k: "KeyIDOf (Some (as_signer s)) = Inr (kid, public s)" using KeyIDOf_ready [OF assms(1)] by blast
  obtain sig where g: "cs_SignContext (as_signer s) c = Inr sig" "length sig = 3309"
    "verifyMLDSA65 (library s) (public s) c sig = None"
    using sign_ok [OF assms(1)] by blast
  with k assms(2-5) show ?thesis
    by (auto simp: SignCanonical_def SignatureSize_anchor_def)
qed

end

text \<open>The in-memory signer, open and made from a seed, over a library that behaves as documented,
  provides the interface.\<close>

definition signer_ready :: "circl \<times> MLDSA65Signer \<Rightarrow> bool" where
  "signer_ready = (\<lambda>(C, s). circl_ok C \<and> \<not> sg_closed s \<and> PublicKeyFromSeed C MLDSA65 (sg_seed s) = Inr (sg_pub s))"

lemma NewMLDSA65Signer_ready:
  "circl_ok C \<Longrightarrow> NewMLDSA65Signer C seed = Inr s \<Longrightarrow> signer_ready (C, s)"
  by (auto simp: NewMLDSA65Signer_def signer_ready_def split: if_splits sum.splits)

lemma NewMLDSA65Signer_total:
  assumes "circl_ok C" "length seed = 32"
  shows "\<exists>s. NewMLDSA65Signer C seed = Inr s"
proof -
  have p: "PublicKeyFromSeed C MLDSA65 seed = Inr (circl_public C MLDSA65 seed)"
    using assms(2) by (simp add: PublicKeyFromSeed_def seedArray_def)
  then have l: "length (circl_public C MLDSA65 seed) = 1952"
    using Sign_Verify [OF assms(1) p] by (metis PublicKeySize_mldsa.simps(2))
  then have "KeyID KF_MLDSA65 (circl_public C MLDSA65 seed) =
      Inr (take 16 (sha512 (keyid_preimage KF_MLDSA65 (circl_public C MLDSA65 seed))))"
    by (simp add: KeyID_ok_iff alg_info_def)
  with p l assms(2) show ?thesis
    by (simp add: NewMLDSA65Signer_def PublicKeySize_anchor_def KeyIDHex_def)
qed

interpretation mldsa65: context_signer signer_ready "\<lambda>(C, s). as_ContextSigner C None s"
    "\<lambda>(C, s). sg_pub s" fst
proof
  fix x :: "circl \<times> MLDSA65Signer" and msg :: bytes
  assume r: "signer_ready x"
  obtain C s where x: "x = (C, s)" by (cases x)
  have p: "circl_ok C" "\<not> sg_closed s" "PublicKeyFromSeed C MLDSA65 (sg_seed s) = Inr (sg_pub s)"
    using r x by (simp_all add: signer_ready_def)
  obtain sig where g: "Sign_mldsa C MLDSA65 (sg_seed s) msg = Inr sig" "length sig = SignatureSize_mldsa MLDSA65"
    "Verify_mldsa C MLDSA65 (sg_pub s) msg sig = None" "length (sg_pub s) = PublicKeySize_mldsa MLDSA65"
    by (rule Sign_Verify [OF p(1,3)])
  show "cs_Public (case x of (C, s) \<Rightarrow> as_ContextSigner C None s) = MarshalsTo (case x of (C, s) \<Rightarrow> sg_pub s)"
    by (simp add: x as_ContextSigner_def MarshalBinary_def Public_signer_def)
  show "length (case x of (C, s) \<Rightarrow> sg_pub s) = 1952" using g by (simp add: x)
  show "\<exists>sig. cs_SignContext (case x of (C, s) \<Rightarrow> as_ContextSigner C None s) msg = Inr sig \<and> length sig = 3309 \<and>
      verifyMLDSA65 (fst x) (case x of (C, s) \<Rightarrow> sg_pub s) msg sig = None"
    using g p(2) by (simp add: x as_ContextSigner_def SignContext_def Sign_signer_def verifyMLDSA65_def)
qed

subsection \<open>The signed text never holds an empty key id\<close>

text \<open>\<open>SignCanonical\<close> refuses bytes with an empty key id member, by searching for its text. In the
  canonical form of an anchor that has a key id the text does not occur: no quote stands inside an
  encoded string without a backslash before it, so the text could only be the member itself.\<close>

fun escaped :: "string \<Rightarrow> bool" where
  "escaped [] = True"
| "escaped [c] = (c \<noteq> CHR 0x22 \<and> c \<noteq> CHR 0x5C)"
| "escaped (c # d # r) = (if c = CHR 0x5C then escaped r else c \<noteq> CHR 0x22 \<and> escaped (d # r))"

lemma escaped_plain [simp]: "c \<noteq> CHR 0x22 \<Longrightarrow> c \<noteq> CHR 0x5C \<Longrightarrow> escaped (c # r) = escaped r"
  by (cases r) auto

lemma escaped_append: "escaped x \<Longrightarrow> escaped (x @ y) = escaped y"
  by (induction x rule: escaped.induct) (auto split: if_splits)

lemma escaped_ascii: "escaped (json_ascii html c)"
proof -
  have "hextable ! i \<noteq> CHR 0x22 \<and> hextable ! i \<noteq> CHR 0x5C" if "i < 16" for i
  proof -
    have "hextable ! i \<in> set hextable" using that by (intro nth_mem) (simp add: hextable_def)
    moreover have "CHR 0x22 \<notin> set hextable" "CHR 0x5C \<notin> set hextable" by (simp_all add: hextable_def)
    ultimately show ?thesis by metis
  qed
  moreover have "of_char c div 16 < (16 :: nat)" "of_char c mod 16 < (16 :: nat)"
    using of_char_mod_256 [of c] by (simp_all add: less_mult_imp_div_less)
  ultimately show ?thesis by (auto simp: json_ascii_def)
qed

lemma high_plain: "byte_in n m c \<Longrightarrow> 0x80 \<le> n \<Longrightarrow> c \<noteq> CHR 0x22 \<and> c \<noteq> CHR 0x5C"
  by (auto simp: byte_in_def)

lemma escaped_rune:
  assumes "rune_width (c # r) \<noteq> 0"
  shows "escaped (take (rune_width (c # r)) (c # r))"
  using rune_width_cases [OF refl assms]
  by (cases) (auto simp: take_drop_few split: if_splits dest!: high_plain)

lemma escaped_chars: "escaped (json_chars html s)"
  by (induction html s rule: json_chars.induct)
    (auto simp: json_chars.simps(2) Let_def escaped_append escaped_ascii escaped_rune)

lemma has_prefix_simps:
  "has_prefix [] s" "has_prefix (a # p) [] = False" "has_prefix (a # p) (b # s) = (a = b \<and> has_prefix p s)"
  by (auto simp: has_prefix_def)

lemma no_key_inside:
  "escaped e \<Longrightarrow> c \<noteq> CHR '':'' \<Longrightarrow> \<forall>x \<in> set w. x \<noteq> CHR 0x22 \<and> x \<noteq> CHR 0x5C \<Longrightarrow>
     \<not> has_prefix (w @ CHR 0x22 # CHR '':'' # z) (e @ CHR 0x22 # c # r)"
proof (induction w arbitrary: e)
  case Nil
  then show ?case by (cases e rule: escaped.cases) (auto simp: has_prefix_simps)
next
  case (Cons x w)
  show ?case
  proof (cases e)
    case e: (Cons y e')
    have x: "x \<noteq> CHR 0x22" "x \<noteq> CHR 0x5C" "\<forall>x \<in> set w. x \<noteq> CHR 0x22 \<and> x \<noteq> CHR 0x5C" using Cons.prems(3) by simp_all
    have "\<not> has_prefix (w @ CHR 0x22 # CHR '':'' # z) (e' @ CHR 0x22 # c # r)" if "y = x"
      using Cons.IH [OF _ Cons.prems(2) x(3)] Cons.prems(1) that x(1,2) e by simp
    then show ?thesis using e by (auto simp only: has_prefix_simps append_Cons)
  next
    case Nil
    then show ?thesis using Cons.prems(3) by (simp add: has_prefix_simps)
  qed
qed

lemma emptyKeyIDMember_parts:
  "emptyKeyIDMember = CHR 0x22 # ''signing_key_id'' @ CHR 0x22 # CHR '':'' # [CHR 0x22, CHR 0x22]"
  by (simp add: emptyKeyIDMember_text)

lemma no_member_inside:
  assumes "escaped e" "c \<noteq> CHR '':''"
  shows "\<not> has_prefix emptyKeyIDMember (d # e @ CHR 0x22 # c # r)"
proof -
  have "\<forall>x \<in> set ''signing_key_id''. x \<noteq> CHR 0x22 \<and> x \<noteq> CHR 0x5C" by simp
  from no_key_inside [OF assms this, of "[CHR 0x22, CHR 0x22]" r] show ?thesis
    unfolding emptyKeyIDMember_parts by (simp only: has_prefix_simps) simp
qed

lemma contains_other: "c \<noteq> CHR 0x22 \<Longrightarrow> contains emptyKeyIDMember (c # s) = contains emptyKeyIDMember s"
  by (simp add: emptyKeyIDMember_parts has_prefix_simps)

text \<open>Looking for the member goes past the rest of a string that is no key.\<close>

lemma contains_past_string:
  "escaped e \<Longrightarrow> c \<noteq> CHR '':'' \<Longrightarrow> c \<noteq> CHR ''s'' \<Longrightarrow>
     contains emptyKeyIDMember (e @ CHR 0x22 # c # r) = contains emptyKeyIDMember (c # r)"
proof (induction e rule: escaped.induct)
  case 1
  then have "\<not> has_prefix emptyKeyIDMember (CHR 0x22 # c # r)" by (simp add: emptyKeyIDMember_parts has_prefix_simps)
  then show ?case by simp
next
  case (2 d)
  then have "\<not> has_prefix emptyKeyIDMember (CHR 0x22 # c # r)" by (simp add: emptyKeyIDMember_parts has_prefix_simps)
  then show ?case using 2 by (simp add: contains_other [of d] del: contains.simps) simp
next
  case (3 d d' e)
  show ?case
  proof (cases "d = CHR 0x5C")
    case True
    then have e: "escaped e" using 3 by simp
    have "\<not> has_prefix emptyKeyIDMember (d' # e @ CHR 0x22 # c # r)" by (rule no_member_inside [OF e 3(4)])
    then have "contains emptyKeyIDMember (d' # e @ CHR 0x22 # c # r) = contains emptyKeyIDMember (e @ CHR 0x22 # c # r)"
      by (simp only: contains.simps(2) simp_thms)
    then show ?thesis using True 3(1) [OF True e 3(4,5)] contains_other [of d "d' # e @ CHR 0x22 # c # r"]
      by (simp only: append_Cons) simp
  next
    case False
    then show ?thesis using 3 by (simp add: contains_other [of d] del: contains.simps)
  qed
qed

lemma contains_past_plain:
  "CHR 0x22 \<notin> set d \<Longrightarrow> contains emptyKeyIDMember (d @ s) = contains emptyKeyIDMember s"
  by (induction d) (auto simp: contains_other simp del: contains.simps)

lemma fmt_int_no_quote: "CHR 0x22 \<notin> set (fmt_int i)"
  using fmt_int_chars by (fastforce simp: is_digit_def)

lemma escaped_starts: "escaped e \<Longrightarrow> e \<noteq> [] \<Longrightarrow> hd (e @ s) \<noteq> CHR 0x22"
  by (cases e rule: escaped.cases) (auto split: if_splits)

lemma json_chars_Nil: "json_chars html s = [] \<longleftrightarrow> s = []"
  by (cases s) (auto simp: json_chars.simps(2) json_ascii_def Let_def split: if_splits)

lemma key_id_member:
  assumes "k \<noteq> []"
  shows "\<not> has_prefix emptyKeyIDMember (CHR 0x22 # ''signing_key_id'' @ CHR 0x22 # CHR '':'' # CHR 0x22 # json_chars html k @ CHR 0x22 # r)"
proof -
  have "json_chars html k \<noteq> []" using assms by (simp add: json_chars_Nil)
  from escaped_starts [OF escaped_chars this, of "CHR 0x22 # r"] show ?thesis
    by (cases "json_chars html k") (auto simp: emptyKeyIDMember_parts has_prefix_simps json_chars_Nil)
qed

lemma contains_past_value:
  "escaped e \<Longrightarrow> c \<noteq> CHR '':'' \<Longrightarrow> c \<noteq> CHR ''s'' \<Longrightarrow>
     contains emptyKeyIDMember (CHR 0x22 # e @ CHR 0x22 # c # r) = contains emptyKeyIDMember (c # r)"
  using no_member_inside [of e c "CHR 0x22" r] contains_past_string [of e c r]
  by (simp only: contains.simps(2) simp_thms)

lemma contains_quote:
  "c \<noteq> CHR ''s'' \<Longrightarrow> contains emptyKeyIDMember (CHR 0x22 # c # s) = contains emptyKeyIDMember (c # s)"
  "c \<noteq> CHR ''i'' \<Longrightarrow> contains emptyKeyIDMember (CHR 0x22 # CHR ''s'' # c # s) = contains emptyKeyIDMember (c # s)"
  by (simp_all add: emptyKeyIDMember_parts has_prefix_simps)

lemma contains_key_id:
  assumes "k \<noteq> []"
  shows "contains emptyKeyIDMember
      (CHR 0x22 # CHR ''s'' # CHR ''i'' # CHR ''g'' # CHR ''n'' # CHR ''i'' # CHR ''n'' # CHR ''g'' # CHR ''_'' # CHR ''k''
        # CHR ''e'' # CHR ''y'' # CHR ''_'' # CHR ''i'' # CHR ''d'' # CHR 0x22 # CHR '':'' # CHR 0x22
        # json_chars html k @ CHR 0x22 # r) =
    contains emptyKeyIDMember (CHR 0x22 # json_chars html k @ CHR 0x22 # r)"
proof -
  have "contains emptyKeyIDMember
      (CHR 0x22 # ''signing_key_id'' @ CHR 0x22 # CHR '':'' # CHR 0x22 # json_chars html k @ CHR 0x22 # r) =
    contains emptyKeyIDMember
      (''signing_key_id'' @ CHR 0x22 # CHR '':'' # CHR 0x22 # json_chars html k @ CHR 0x22 # r)"
    using key_id_member [OF assms, of html r] by (simp only: contains.simps(2) simp_thms)
  then show ?thesis
    by (simp add: contains_other contains_quote del: contains.simps)
qed

lemmas member_search =
  contains_other contains_quote contains_key_id contains_past_value [OF escaped_chars]
  contains_past_plain [OF fmt_int_no_quote]

text \<open>The canonical form of an anchor with a key id never holds the empty member: a quote inside a text
  is escaped.\<close>

lemma no_empty_key_id_member:
  assumes "Canonicalize a = Inr c" "an_SigningKeyID a \<noteq> []"
  shows "\<not> contains emptyKeyIDMember c"
proof -
  have "\<not> contains emptyKeyIDMember ''}''" by (simp add: emptyKeyIDMember_parts has_prefix_simps)
  then have "\<not> contains emptyKeyIDMember (json_text True (canonicalV3 a))"
    "\<not> contains emptyKeyIDMember (json_text True (canonicalV4 a))"
    "\<not> contains emptyKeyIDMember (json_text True (canonicalV6 a))"
    using assms(2)
    by (simp_all add: canonical_layouts commas_def json_string_def member_search json_chars.simps(2) json_ascii_def
        del: contains.simps(2))
  then show ?thesis using Canonicalize_text [OF assms(1)] by (simp add: canonical_json_def)
qed

text \<open>What a key id adds to the size.\<close>

lemma json_ascii_lower_hex: "is_lower_hex c \<Longrightarrow> of_char c < (0x80 :: nat) \<and> json_ascii html c = [c]"
proof -
  assume "is_lower_hex c"
  then have n: "(48 \<le> (of_char c :: nat) \<and> (of_char c :: nat) \<le> 57) \<or> (97 \<le> (of_char c :: nat) \<and> (of_char c :: nat) \<le> 102)"
    by (simp add: is_lower_hex_def is_digit_def less_eq_char_def)
  then have ne: "c \<noteq> x" if "(of_char x :: nat) \<in> {0x5C, 0x22, 0x08, 0x0C, 0x0A, 0x0D, 0x09, 60, 62, 38}" for x
    using that by auto
  have r: "\<not> of_char c < (0x20 :: nat)" "of_char c < (0x80 :: nat)" using n by linarith+
  have "c \<noteq> CHR 0x5C \<and> c \<noteq> CHR 0x22 \<and> c \<noteq> CHR 0x08 \<and> c \<noteq> CHR 0x0C \<and> c \<noteq> CHR 0x0A \<and> c \<noteq> CHR 0x0D \<and>
    c \<noteq> CHR 0x09 \<and> c \<noteq> CHR ''<'' \<and> c \<noteq> CHR ''>'' \<and> c \<noteq> CHR ''&''"
    by (intro conjI ne) simp_all
  then show ?thesis using r by (simp add: json_ascii_def)
qed

lemma json_chars_lower_hex: "list_all is_lower_hex s \<Longrightarrow> json_chars html s = s"
  by (induction s) (simp_all add: json_chars.simps(2) json_ascii_lower_hex)

subsection \<open>Properties\<close>

lemma SignCanonical_sound:
  assumes "SignCanonical C s c = Inr (sig, kid)"
  obtains sg pub where "s = Some sg" "KeyIDOf s = Inr (kid, pub)" "length sig = 3309" "length pub = 1952"
    "verifyMLDSA65 C pub c sig = None" "cs_SignContext sg c = Inr sig" "length c \<le> maxCanonicalSize"
  using assms
  by (auto simp: SignCanonical_def KeyIDOf_def SignatureSize_anchor_def PublicKeySize_anchor_def
      split: sum.splits option.splits if_splits public_value.splits)

text \<open>What \<open>SignAnchor\<close> returns: the caller's anchor with a key id and a signature, nothing else
  changed.\<close>

definition stamped :: "anchor \<Rightarrow> string \<Rightarrow> string \<Rightarrow> anchor" where
  "stamped a keyID g =
     a \<lparr> an_SigningKeyID := (if an_SigningKeyID a = [] then keyID else an_SigningKeyID a), an_Signature := g \<rparr>"

lemma Canonicalize_unsigned: "Canonicalize (a \<lparr> an_Signature := g \<rparr>) = Canonicalize a"
  by (simp add: Canonicalize_def canonical_layouts)

lemma Invariants_unsigned: "ValidateVersionInvariants (a \<lparr> an_Signature := g \<rparr>) = ValidateVersionInvariants a"
  by (simp add: ValidateVersionInvariants_def validateCounts_def)

lemma stamped_unsigned:
  "Canonicalize (stamped a k g) = Canonicalize (stamped a k [])"
  "ValidateVersionInvariants (stamped a k g) = ValidateVersionInvariants (stamped a k [])"
proof -
  have "stamped a k g = stamped a k [] \<lparr> an_Signature := g \<rparr>" by (simp add: stamped_def)
  then show "Canonicalize (stamped a k g) = Canonicalize (stamped a k [])"
    "ValidateVersionInvariants (stamped a k g) = ValidateVersionInvariants (stamped a k [])"
    by (simp_all add: Canonicalize_unsigned Invariants_unsigned)
qed

lemma SignAnchor_stamped:
  "SignAnchor C s a =
     (case KeyIDOf s of Inl e \<Rightarrow> Inl e
      | Inr (keyID, pub) \<Rightarrow>
          (case ValidateVersionInvariants (stamped a keyID []) of
             Some e \<Rightarrow> Inl (RefusingInvalid e)
           | None \<Rightarrow>
               (case Canonicalize (stamped a keyID []) of
                  Inl e \<Rightarrow> Inl (CanonicalizeFailed e)
                | Inr c \<Rightarrow>
                    (case SignCanonical C s c of
                       Inl e \<Rightarrow> Inl e
                     | Inr (sig, kid) \<Rightarrow> Inr (stamped a keyID (b64_encode sig))))))"
  by (auto simp: SignAnchor_def stamped_def Let_def split: sum.splits option.splits)

lemma SignAnchor_sound:
  assumes "SignAnchor C s a = Inr out"
  obtains keyID pub sig c where "KeyIDOf s = Inr (keyID, pub)" "length pub = 1952"
    "out = stamped a keyID (b64_encode sig)" "ValidateVersionInvariants out = None"
    "Canonicalize out = Inr c" "length sig = 3309" "verifyMLDSA65 C pub c sig = None"
proof -
  from assms obtain keyID pub where k1: "KeyIDOf s = Inr (keyID, pub)"
    by (cases "KeyIDOf s") (auto simp: SignAnchor_stamped)
  with assms obtain c where k2: "ValidateVersionInvariants (stamped a keyID []) = None"
    "Canonicalize (stamped a keyID []) = Inr c"
    by (cases "ValidateVersionInvariants (stamped a keyID [])"; cases "Canonicalize (stamped a keyID [])")
       (auto simp: SignAnchor_stamped)
  with k1 assms obtain sig kid where k3: "SignCanonical C s c = Inr (sig, kid)" "out = stamped a keyID (b64_encode sig)"
    by (cases "SignCanonical C s c") (auto simp: SignAnchor_stamped)
  note k = k1 k2 k3
  obtain pub' where "KeyIDOf s = Inr (kid, pub')" "length sig = 3309" "length pub' = 1952"
    "verifyMLDSA65 C pub' c sig = None"
    by (rule SignCanonical_sound [OF k(4)])
  with k(1) have "length sig = 3309" "length pub = 1952" "verifyMLDSA65 C pub c sig = None" by simp_all
  with that [OF k(1)] k(2-3,5) show ?thesis by (simp add: stamped_unsigned [of a keyID "b64_encode sig"])
qed

text \<open>C23. What \<open>SignAnchor\<close> returns verifies: with any key source that answers the returned anchor's key
  id with the signer's own public key, \<open>VerifySignature\<close> accepts it at the source's trust level,
  whatever the signer is and whatever the signature library does; and the returned anchor is the
  one given, with the key id the signer's where none was set, and with a signature.\<close>

theorem signed_anchor_verifies:
  assumes "SignAnchor C s a = Inr out" "KeyIDOf s = Inr (keyID, pub)"
    and "src (an_SigningKeyID out) = Inr (pub, trust)"
  shows "VerifySignature C out (Some src) = Inr trust \<and> out = stamped a keyID (an_Signature out)"
proof -
  obtain keyID' pub' sig c where "KeyIDOf s = Inr (keyID', pub')" "length pub' = 1952"
    "out = stamped a keyID' (b64_encode sig)" "ValidateVersionInvariants out = None"
    "Canonicalize out = Inr c" "length sig = 3309" "verifyMLDSA65 C pub' c sig = None"
    by (rule SignAnchor_sound [OF assms(1)])
  with assms(2) have o: "out = stamped a keyID (b64_encode sig)" "ValidateVersionInvariants out = None"
      "Canonicalize out = Inr c"
    and g: "length sig = 3309" "length pub = 1952" "verifyMLDSA65 C pub c sig = None" by simp_all
  have kid: "keyID \<noteq> []" by (rule KeyIDOf_not_empty [OF assms(2)])
  then have "an_SigningKeyID out \<noteq> []" "an_Signature out = b64_encode sig" using o(1) by (auto simp: stamped_def)
  then have "VerifySignature C out (Some src) = Inr trust"
    unfolding VerifySignature_lemma
    using o(2,3) g assms(3) b64_decode_encode [of sig] b64_encode_no_break [of sig] by auto
  with o(1) show ?thesis by (simp add: stamped_def)
qed

text \<open>A closed signer has forgotten its seed and signs nothing.\<close>

lemma Close_signer_refuses:
  "sg_closed (Close_signer s)" "SignContext C None (Close_signer s) msg = Inl SignerClosed"
  "\<not> sg_closed s \<Longrightarrow> sg_seed (Close_signer s) = []"
  by (simp_all add: Close_signer_def SignContext_def Sign_signer_def)

lemma SignAnchor_ready:
  assumes "signer_ready (C, s)" "KeyIDOf (Some (as_ContextSigner C None s)) = Inr (keyID, pub)"
    and "ValidateVersionInvariants (stamped a keyID []) = None" "Canonicalize (stamped a keyID []) = Inr c"
    and "length c \<le> maxCanonicalSize" "\<not> contains emptyKeyIDMember c"
  shows "\<exists>out. SignAnchor C (Some (as_ContextSigner C None s)) a = Inr out"
proof -
  obtain r where "c = CHR ''{'' # r" using Canonicalize_brace [OF assms(4)] by blast
  then have "\<exists>sig kid. SignCanonical C (Some (as_ContextSigner C None s)) c = Inr (sig, kid)"
    using mldsa65.SignCanonical_ready [OF assms(1), of c] assms(5,6) by simp
  with assms(2-4) show ?thesis by (auto simp: SignAnchor_stamped)
qed

lemma canonical_size:
  assumes "Canonicalize a = Inr c" "an_SigningKeyID a = []"
  shows "\<exists>d. Canonicalize (a\<lparr>an_SigningKeyID := k, an_Signature := g\<rparr>) = Inr d \<and>
    length d = length c + length (json_chars True k)"
  using assms
  by (auto simp: Canonicalize_def canonical_layouts commas_def json_string_def split: if_splits)

lemma stamped_canonical:
  assumes "Canonicalize a = Inr c" and "list_all is_lower_hex k"
  shows "\<exists>d. Canonicalize (stamped a k []) = Inr d \<and>
    length d = length c + (if an_SigningKeyID a = [] then length k else 0)"
proof (cases "an_SigningKeyID a = []")
  case True
  then show ?thesis
    using canonical_size [OF assms(1) True, where k = k and g = "[]"] json_chars_lower_hex [OF assms(2)] by (simp add: stamped_def)
next
  case False
  then have "stamped a k [] = a\<lparr>an_Signature := []\<rparr>" by (simp add: stamped_def)
  then show ?thesis using assms(1) False by (simp add: Canonicalize_unsigned)
qed

lemma stamped_valid: "ValidateVersionInvariants (stamped a k g) = ValidateVersionInvariants a"
  by (simp add: ValidateVersionInvariants_def validateCounts_def stamped_def)

lemma SignAnchor_size:
  assumes ready: "signer_ready (C, s)" and valid: "ValidateVersionInvariants a = None" and c: "Canonicalize a = Inr c"
    and size: "length c + (if an_SigningKeyID a = [] then 32 else 0) \<le> maxCanonicalSize"
  shows "\<exists>out. SignAnchor C (Some (as_ContextSigner C None s)) a = Inr out"
proof -
  obtain keyID where k: "KeyIDOf (Some (as_ContextSigner C None s)) = Inr (keyID, sg_pub s)"
    using mldsa65.KeyIDOf_ready [OF ready] by auto
  then have hex: "list_all is_lower_hex keyID" "length keyID = 32" by (auto simp: KeyIDOf_ok)
  obtain d where d: "Canonicalize (stamped a keyID []) = Inr d" "length d \<le> maxCanonicalSize"
    using stamped_canonical [OF c hex(1)] size unfolding hex(2) by auto
  have "an_SigningKeyID (stamped a keyID []) \<noteq> []" using KeyIDOf_not_empty [OF k] by (simp add: stamped_def)
  then show ?thesis
    using SignAnchor_ready [OF ready k _ d(1,2)] no_empty_key_id_member [OF d(1)] valid stamped_valid by auto
qed

text \<open>C24. Signing succeeds: over a library that behaves as documented, the signer made from any 32-byte
  seed signs every anchor that passes the version checks and whose canonical form is at most 1 MiB,
  counting the 32 characters of the signer's key id where the anchor has none yet, and the result
  verifies against a key ring holding the signer's key under the anchor's key id. The search for an
  empty key id member never refuses such an anchor, whatever its texts hold.\<close>

theorem sign_anchor_succeeds:
  assumes "circl_ok C" and "length seed = 32"
    and "ValidateVersionInvariants a = None" and "Canonicalize a = Inr c"
    and "length c + (if an_SigningKeyID a = [] then 32 else 0) \<le> maxCanonicalSize"
  shows "\<exists>s out ring. NewMLDSA65Signer C seed = Inr s \<and>
    SignAnchor C (Some (as_ContextSigner C None s)) a = Inr out \<and>
    NewKeyRing TrustSelf [(an_SigningKeyID out, sg_pub s)] = Inr ring \<and>
    VerifySignature C out (Some (PublicKey_ring (Some ring))) = Inr TrustSelf"
proof -
  obtain s where s: "NewMLDSA65Signer C seed = Inr s" using NewMLDSA65Signer_total [OF assms(1,2)] by blast
  note ready = NewMLDSA65Signer_ready [OF assms(1) s]
  obtain out where out: "SignAnchor C (Some (as_ContextSigner C None s)) a = Inr out"
    using SignAnchor_size [OF ready assms(3-5)] by blast
  obtain keyID pub sig d where o: "KeyIDOf (Some (as_ContextSigner C None s)) = Inr (keyID, pub)" "length pub = 1952"
    "out = stamped a keyID (b64_encode sig)" "ValidateVersionInvariants out = None" "Canonicalize out = Inr d"
    "length sig = 3309" "verifyMLDSA65 C pub d sig = None"
    by (rule SignAnchor_sound [OF out])
  have id: "an_SigningKeyID out \<noteq> []" using o(1,3) KeyIDOf_not_empty by (auto simp: stamped_def)
  have pub: "pub = sg_pub s" using o(1) mldsa65.KeyIDOf_ready [OF ready] by auto
  let ?ring = "\<lparr> kr_trust = TrustSelf, kr_keys = map_of [(an_SigningKeyID out, sg_pub s)] \<rparr>"
  have ring: "NewKeyRing TrustSelf [(an_SigningKeyID out, sg_pub s)] = Inr ?ring"
    using id o(2) pub by (simp add: NewKeyRing_def PublicKeySize_anchor_def)
  have g: "an_Signature out = b64_encode sig" using o(3) by (simp add: stamped_def)
  have "VerifySignature C out (Some (PublicKey_ring (Some ?ring))) = Inr TrustSelf"
    unfolding VerifySignature_lemma
    using id o(2,4-7) pub g b64_decode_encode [of sig] b64_encode_no_break [of sig] by (auto simp: PublicKey_ring_def)
  with s out ring show ?thesis by blast
qed

definition example_text :: string where
  "example_text = json_text True (canonicalV6 example_anchor)"

lemma example_canonical:
  "Canonicalize (stamped example_anchor k g) = Inr example_text"
  "ValidateVersionInvariants (stamped example_anchor k g) = None"
  by (simp_all add: stamped_def example_anchor_def example_text_def Canonicalize_def version_numbers
      ValidateVersionInvariants_def validateCounts_def canonical_layouts)

lemma example_text_literal:
  "example_text =
     ''{'' @ [CHR 0x22] @ ''anchor_id'' @ [CHR 0x22] @ '':'' @ [CHR 0x22] @ ''anchor_1'' @ [CHR
     0x22] @ '','' @ [CHR 0x22] @ ''chain_hash'' @ [CHR 0x22] @ '':'' @ [CHR 0x22] @ ''ab12'' @ [CHR
     0x22] @ '','' @ [CHR 0x22] @ ''created_at_ms'' @ [CHR 0x22] @ '':1767225600000,'' @ [CHR 0x22]
     @ ''entry_count'' @ [CHR 0x22] @ '':3,'' @ [CHR 0x22] @ ''previous_anchor_id'' @ [CHR 0x22] @
     '':'' @ [CHR 0x22] @ ''anchor_0'' @ [CHR 0x22] @ '','' @ [CHR 0x22] @ ''range'' @ [CHR 0x22] @
     '':{'' @ [CHR 0x22] @ ''end_entry_id'' @ [CHR 0x22] @ '':'' @ [CHR 0x22] @ ''e3'' @ [CHR 0x22]
     @ '','' @ [CHR 0x22] @ ''start_entry_id'' @ [CHR 0x22] @ '':'' @ [CHR 0x22] @ ''e1'' @ [CHR
     0x22] @ ''},'' @ [CHR 0x22] @ ''signing_key_id'' @ [CHR 0x22] @ '':'' @ [CHR 0x22] @ ''k1'' @
     [CHR 0x22] @ '','' @ [CHR 0x22] @ ''subject'' @ [CHR 0x22] @ '':'' @ [CHR 0x22] @ ''host-1'' @
     [CHR 0x22] @ '','' @ [CHR 0x22] @ ''verified_through'' @ [CHR 0x22] @ '':2,'' @ [CHR 0x22] @
     ''version'' @ [CHR 0x22] @ '':6}''"
  by (simp add: example_text_def example_anchor_def canonical_layouts commas_def json_string_def
      json_chars.simps(2) json_ascii_def fmt_int_def dec_nat.simps dec_digit_def)

lemma example_text_ok: "length example_text \<le> maxCanonicalSize \<and> \<not> contains emptyKeyIDMember example_text"
  unfolding example_text_literal emptyKeyIDMember_text by (simp add: maxCanonicalSize_def has_prefix_def)

lemma unkeyed_canonical:
  "\<exists>c. Canonicalize (example_anchor\<lparr>an_SigningKeyID := []\<rparr>) = Inr c \<and> length c + 32 \<le> maxCanonicalSize"
  by (simp add: example_anchor_def Canonicalize_def version_numbers canonical_layouts commas_def json_string_def
      json_chars.simps(2) json_ascii_def fmt_int_def dec_nat.simps maxCanonicalSize_def)

theorem sign_anchor_succeeds_witness:
  "let seed = replicate 32 (CHR 0x01); a = example_anchor\<lparr>an_SigningKeyID := []\<rparr>
   in circl_ok toy_circl \<and> (\<exists>s out ring. NewMLDSA65Signer toy_circl seed = Inr s \<and>
     SignAnchor toy_circl (Some (as_ContextSigner toy_circl None s)) a = Inr out \<and>
     NewKeyRing TrustSelf [(an_SigningKeyID out, sg_pub s)] = Inr ring \<and>
     VerifySignature toy_circl out (Some (PublicKey_ring (Some ring))) = Inr TrustSelf)"
proof -
  obtain c where c: "Canonicalize (example_anchor\<lparr>an_SigningKeyID := []\<rparr>) = Inr c" "length c + 32 \<le> maxCanonicalSize"
    using unkeyed_canonical by blast
  have "ValidateVersionInvariants (example_anchor\<lparr>an_SigningKeyID := []\<rparr>) = None"
    by (simp add: example_anchor_def version_numbers ValidateVersionInvariants_def validateCounts_def)
  from sign_anchor_succeeds [OF toy_circl_ok _ this c(1), of "replicate 32 (CHR 0x01)"] c(2) show ?thesis
    by (simp add: toy_circl_ok)
qed

text \<open>The example anchor signed by the toy library's signer.\<close>

lemma example_signed:
  "\<exists>s out keyID pub. signer_ready (toy_circl, s) \<and>
     KeyIDOf (Some (as_ContextSigner toy_circl None s)) = Inr (keyID, pub) \<and>
     SignAnchor toy_circl (Some (as_ContextSigner toy_circl None s)) example_anchor = Inr out"
proof -
  obtain s where s: "NewMLDSA65Signer toy_circl (replicate 32 (CHR 0x01)) = Inr s"
    using NewMLDSA65Signer_total [OF toy_circl_ok, of "replicate 32 (CHR 0x01)"] by auto
  note ready = NewMLDSA65Signer_ready [OF toy_circl_ok s]
  from mldsa65.KeyIDOf_ready [OF ready] obtain keyID pub where
    k: "KeyIDOf (Some (as_ContextSigner toy_circl None s)) = Inr (keyID, pub)" by auto
  have "\<exists>out. SignAnchor toy_circl (Some (as_ContextSigner toy_circl None s)) example_anchor = Inr out"
    by (rule SignAnchor_ready [OF ready k example_canonical(2) example_canonical(1)]) (simp_all add: example_text_ok)
  with ready k show ?thesis by blast
qed

theorem signed_anchor_verifies_witness:
  "\<exists>s out keyID pub. SignAnchor toy_circl s example_anchor = Inr out \<and> KeyIDOf s = Inr (keyID, pub) \<and>
     VerifySignature toy_circl out (Some (\<lambda>k. if k = ''k1'' then Inr (pub, TrustProvided) else Inl (UnknownKeyID k)))
       = Inr TrustProvided"
proof -
  obtain s out keyID pub where
    k: "KeyIDOf (Some (as_ContextSigner toy_circl None s)) = Inr (keyID, pub)"
    and o: "SignAnchor toy_circl (Some (as_ContextSigner toy_circl None s)) example_anchor = Inr out"
    using example_signed by blast
  have "an_SigningKeyID out = ''k1''"
    by (rule SignAnchor_sound [OF o]) (simp add: stamped_def example_anchor_def)
  with signed_anchor_verifies [OF o k, of "\<lambda>k. if k = ''k1'' then Inr (pub, TrustProvided) else Inl (UnknownKeyID k)" TrustProvided]
  show ?thesis using k o by auto
qed

end
