(* ===== verification/Anchor_Bind.thy ===== *)
theory Anchor_Bind
  imports Verify_Walk Anchor_Sign
begin

section \<open>Binding anchors to chains: \<open>verify/anchor.go\<close>, \<open>walker_anchor.go\<close>, \<open>series.go\<close>\<close>

text \<open>
  An anchor is bound to a chain by walking the chain, comparing the range and the count, and
  recomputing the anchor's hash from the chain's head (\<open>bind\<close>); with keys, its signature is checked
  too (\<open>withSignature\<close>). A series of anchors is checked during one walk (\<open>Series\<close>). The sentences the
  code reports (what is proven, what is not, why it failed) are constructors with the values they
  print. A call returns its result together with its error, as the Go functions do; the zero result
  goes with an early error.

  What is shown: when binding succeeds, that two chains bound to one anchor agree in what their
  hashes bind, and that a series without problems is one whose anchors all verify against the
  prefixes they cover.
\<close>

subsection \<open>Results\<close>

datatype BindOutcome =
    BindNone | BindOK | BindChainBroken | BindRangeStartMismatch | BindRangeEndMismatch
  | BindHeightMismatch | BindHeadMismatch | BindTenantMismatch | BindPredecessorMismatch
  | BindSignatureInvalid

datatype bind_detail =
    NoBindDetail | LinkageBreaksAt int | FirstEntryDiffers | LastEntryDiffers | HeightDiffers int int
  | SeedDisagreement | HeadDiffers | SignatureDidNotVerify bool BindOutcome

text \<open>The statements of \<open>Proven\<close> and \<open>NotProven\<close>.\<close>

datatype statement =
    NothingSaid | NothingDescribed | NotThatChain
  | ChainIsTheOne | EndsInErased | EntriesAreTheOnes int int
  | AnchorNotGenuine | FirstEntriesUnbound int | OrElse statement statement
  | MatchesAnd Trust | AndAlso statement Trust | NotWholeChain
  | NothingSignature | NotGenuineOrChain

datatype bind_error =
    NoEntries | NoKeySource | PreviousHashRequired | PreviousHashLength nat | PreviousHashChars
  | MalformedAnchor anchor_error | SegmentWalk | EntryUnsupported int break_detail
  | ChainHashFailed anchor_error | SignatureFailed anchor_error

record BindResult =
  br_Outcome :: BindOutcome
  br_Bound :: bool
  br_Detail :: bind_detail
  br_EntriesCovered :: int
  br_Tombstones :: int
  br_EntriesNotBound :: int
  br_Trust :: Trust
  br_SignatureVerified :: bool
  br_Proven :: statement
  br_NotProven :: statement

definition zero_result :: BindResult where
  "zero_result =
     \<lparr> br_Outcome = BindNone, br_Bound = False, br_Detail = NoBindDetail, br_EntriesCovered = 0,
       br_Tombstones = 0, br_EntriesNotBound = 0, br_Trust = OtherTrust [], br_SignatureVerified = False,
       br_Proven = NothingSaid, br_NotProven = NothingSaid \<rparr>"

definition validatePreviousAnchorHash :: "string \<Rightarrow> bind_error option" where
  "validatePreviousAnchorHash previousAnchorHash =
     (if previousAnchorHash = [] then Some PreviousHashRequired
      else if length previousAnchorHash \<noteq> 128 then Some (PreviousHashLength (length previousAnchorHash))
      else if \<not> list_all is_lower_hex previousAnchorHash then Some PreviousHashChars
      else None)"

definition boundAfterTombstone :: "int \<Rightarrow> int \<Rightarrow> statement" where
  "boundAfterTombstone notBound n =
     (if n \<le> notBound then EndsInErased else EntriesAreTheOnes notBound (n - 1))"

definition notBoundBeforeTombstone :: "int \<Rightarrow> statement" where
  "notBoundBeforeTombstone notBound = FirstEntriesUnbound notBound"

subsection \<open>Binding\<close>

definition bind_anchor :: "walker \<Rightarrow> anchor \<Rightarrow> string \<Rightarrow> BindResult \<times> bind_error option" where
  "bind_anchor w a previousAnchorHash =
     (if o_PreviousHash (opts w) \<noteq> [] then (zero_result, Some SegmentWalk)
      else
        let firstID = v_EntryID (w_first w); lastID = v_EntryID (w_last w); n = Count w;
            r = \<lparr> br_Outcome = BindNone, br_Bound = False, br_Detail = NoBindDetail,
                  br_EntriesCovered = an_EntryCount a, br_Tombstones = TombstonesFound (res w),
                  br_EntriesNotBound = LastTombstone (res w) + 1, br_Trust = OtherTrust [],
                  br_SignatureVerified = False, br_Proven = NothingDescribed, br_NotProven = NotThatChain \<rparr>;
            boundProven = (if 0 < br_Tombstones r then boundAfterTombstone (br_EntriesNotBound r) n
                           else ChainIsTheOne);
            boundNotProven = (if 0 < br_Tombstones r
                              then OrElse (notBoundBeforeTombstone (br_EntriesNotBound r)) AnchorNotGenuine
                              else AnchorNotGenuine)
        in if 0 \<le> FirstBreak (res w) then
             (case Breaks (res w) of
                b # _ \<Rightarrow>
                  if b_Type b = BreakUnknownFormat \<or> b_Type b = BreakFormatFieldMisuse
                  then (zero_result, Some (EntryUnsupported (FirstBreak (res w)) (Detail b)))
                  else (r\<lparr>br_Outcome := BindChainBroken, br_Detail := LinkageBreaksAt (FirstBreak (res w))\<rparr>, None)
              | [] \<Rightarrow> (r\<lparr>br_Outcome := BindChainBroken, br_Detail := LinkageBreaksAt (FirstBreak (res w))\<rparr>, None))
           else if firstID \<noteq> StartEntryID (an_Range a) then
             (r\<lparr>br_Outcome := BindRangeStartMismatch, br_Detail := FirstEntryDiffers\<rparr>, None)
           else if lastID \<noteq> EndEntryID (an_Range a) then
             (r\<lparr>br_Outcome := BindRangeEndMismatch, br_Detail := LastEntryDiffers\<rparr>, None)
           else if n \<noteq> an_EntryCount a then
             (r\<lparr>br_Outcome := BindHeightMismatch, br_Detail := HeightDiffers n (an_EntryCount a)\<rparr>, None)
           else if (previousAnchorHash = SeedAnchorHash) \<noteq> (an_PreviousAnchorID a = SeedAnchorID) then
             (r\<lparr>br_Outcome := BindPredecessorMismatch, br_Detail := SeedDisagreement\<rparr>, None)
           else (case ChainHash_anchor previousAnchorHash (an_Subject a) firstID lastID (v_ChainHash (w_last w)) of
                   Inl e \<Rightarrow> (zero_result, Some (ChainHashFailed e))
                 | Inr recomputed \<Rightarrow>
                     if recomputed \<noteq> an_ChainHash a
                     then (r\<lparr>br_Outcome := BindHeadMismatch, br_Detail := HeadDiffers\<rparr>, None)
                     else (r\<lparr>br_Outcome := BindOK, br_Bound := True, br_Proven := boundProven,
                             br_NotProven := boundNotProven\<rparr>, None)))"

definition BindAnchor :: "anchor \<Rightarrow> ventry list \<Rightarrow> string \<Rightarrow> BindResult \<times> bind_error option" where
  "BindAnchor a entries previousAnchorHash =
     (if entries = [] then (zero_result, Some NoEntries)
      else case validatePreviousAnchorHash previousAnchorHash of
        Some e \<Rightarrow> (zero_result, Some e)
      | None \<Rightarrow>
          (case ValidateVersionInvariants a of
             Some e \<Rightarrow> (zero_result, Some (MalformedAnchor e))
           | None \<Rightarrow>
               bind_anchor (foldl Add (NewWalker \<lparr>MaxBreaks = 1, o_PreviousHash = []\<rparr>) entries) a previousAnchorHash))"

definition Walker_BindAnchor :: "walker \<Rightarrow> anchor \<Rightarrow> string \<Rightarrow> BindResult \<times> bind_error option" where
  "Walker_BindAnchor w a previousAnchorHash =
     (if Count w = 0 then (zero_result, Some NoEntries)
      else case validatePreviousAnchorHash previousAnchorHash of
        Some e \<Rightarrow> (zero_result, Some e)
      | None \<Rightarrow>
          (case ValidateVersionInvariants a of
             Some e \<Rightarrow> (zero_result, Some (MalformedAnchor e))
           | None \<Rightarrow> bind_anchor w a previousAnchorHash))"

definition withSignature ::
    "circl \<Rightarrow> BindResult \<Rightarrow> anchor \<Rightarrow> KeySource \<Rightarrow> BindResult \<times> bind_error option" where
  "withSignature C r a src =
     (case VerifySignature C a (Some src) of
        Inl verr \<Rightarrow>
          (zero_result\<lparr>br_Outcome := BindSignatureInvalid,
             br_Detail := SignatureDidNotVerify (br_Bound r) (br_Outcome r),
             br_EntriesCovered := br_EntriesCovered r, br_Proven := NothingSignature,
             br_NotProven := NotGenuineOrChain\<rparr>, Some (SignatureFailed verr))
      | Inr trust \<Rightarrow>
          (let r1 = r\<lparr>br_SignatureVerified := True, br_Trust := trust\<rparr>
           in if \<not> br_Bound r1 then r1
              else if 0 < br_Tombstones r1
              then r1\<lparr>br_Proven := AndAlso (boundAfterTombstone (br_EntriesNotBound r1) (br_EntriesCovered r1)) trust,
                      br_NotProven := OrElse (notBoundBeforeTombstone (br_EntriesNotBound r1)) NotWholeChain\<rparr>
              else r1\<lparr>br_Proven := MatchesAnd trust, br_NotProven := NotWholeChain\<rparr>, None))"

definition VerifyAnchor ::
    "circl \<Rightarrow> anchor \<Rightarrow> ventry list \<Rightarrow> string \<Rightarrow> KeySource option \<Rightarrow> BindResult \<times> bind_error option" where
  "VerifyAnchor C a entries previousAnchorHash src =
     (case src of
        None \<Rightarrow> (zero_result, Some NoKeySource)
      | Some keys \<Rightarrow>
          (case BindAnchor a entries previousAnchorHash of
             (r, Some e) \<Rightarrow> (r, Some e)
           | (r, None) \<Rightarrow> withSignature C r a keys))"

definition Walker_VerifyAnchor ::
    "circl \<Rightarrow> walker \<Rightarrow> anchor \<Rightarrow> string \<Rightarrow> KeySource option \<Rightarrow> BindResult \<times> bind_error option" where
  "Walker_VerifyAnchor C w a previousAnchorHash src =
     (if Count w = 0 then (zero_result, Some NoEntries)
      else case src of
        None \<Rightarrow> (zero_result, Some NoKeySource)
      | Some keys \<Rightarrow>
          (case validatePreviousAnchorHash previousAnchorHash of
             Some e \<Rightarrow> (zero_result, Some e)
           | None \<Rightarrow>
               (case ValidateVersionInvariants a of
                  Some e \<Rightarrow> (zero_result, Some (MalformedAnchor e))
                | None \<Rightarrow>
                    (case bind_anchor w a previousAnchorHash of
                       (r, Some e) \<Rightarrow> (r, Some e)
                     | (r, None) \<Rightarrow> withSignature C r a keys))))"

subsection \<open>The state a walk leaves\<close>

lemma add_branches_keep [simp]:
  "w_first (add_hash i e sh ex w) = w_first w" "w_last (add_hash i e sh ex w) = w_last w"
  "w_first (add_tombstone i e w) = w_first w" "w_last (add_tombstone i e w) = w_last w"
  "w_first (add_live i e w) = w_first w" "w_last (add_live i e w) = w_last w"
proof -
  note d = if_distrib [of w_first] if_distrib [of w_last]
  show h: "w_first (add_hash i e sh ex w) = w_first w" "w_last (add_hash i e sh ex w) = w_last w" for i e sh ex w
    by (cases sh; simp add: add_hash_def d del: if_split)+
  show "w_first (add_tombstone i e w) = w_first w" "w_last (add_tombstone i e w) = w_last w"
    by (simp_all add: add_tombstone_def Let_def d del: if_split)
  show "w_first (add_live i e w) = w_first w" "w_last (add_live i e w) = w_last w"
    by (cases "parse_rfc3339 (v_Timestamp e)"; simp add: add_live_def Let_def h d del: if_split)+
qed

lemma Add_ends [simp]:
  "w_last (Add w e) = e" "w_first (Add w e) = (if EntriesVerified (res w) = 0 then e else w_first w)"
  by (simp_all add: Add_def Let_def checkStart_def)

definition walk :: "options \<Rightarrow> ventry list \<Rightarrow> walker" where
  "walk o' es = foldl Add (NewWalker o') es"

lemma walk_snoc: "walk o' (es @ [e]) = Add (walk o' es) e"
  by (simp add: walk_def)

lemma walk_walked:
  "\<exists>prev seq. walked (walk o' es) o' (all_breaks (o_PreviousHash o') es) (int (length es))
     (int (length (filter counts_tombstone es))) (last_tombstone 0 (-1) es) prev seq"
proof -
  have "walked (NewWalker o') o' [] 0 0 (-1) (o_PreviousHash o') 0"
    by (simp add: walked_def NewWalker_def result_for_def kept_def)
  from walked_foldl [OF this, of es] show ?thesis by (auto simp: walk_def all_breaks_def)
qed

lemma walk_state [simp]:
  "opts (walk o' es) = o'"
  "res (walk o' es) = result_for (MaxBreaks o') (all_breaks (o_PreviousHash o') es) (int (length es))
     (int (length (filter counts_tombstone es))) (last_tombstone 0 (-1) es)"
  using walk_walked [of o' es] by (auto simp: walked_def)

lemma walk_first_last:
  "es \<noteq> [] \<Longrightarrow> w_first (walk o' es) = hd es \<and> w_last (walk o' es) = last es"
proof (induction es rule: rev_induct)
  case (snoc e es)
  show ?case
  proof (cases "es = []")
    case True
    then show ?thesis using walk_snoc [of o' "[]" e] by (simp add: walk_def NewWalker_def)
  next
    case False
    with snoc show ?thesis by (simp add: walk_snoc result_for_def)
  qed
qed simp

text \<open>Which position breaks first does not depend on how many breaks are kept; the first kept break is
  the first one.\<close>

lemma kept_hd: "bs \<noteq> [] \<Longrightarrow> 0 \<le> m \<Longrightarrow> \<exists>r. kept m bs = hd bs # r"
  by (cases bs; cases "nat m") (auto simp: kept_def)

lemma all_breaks_positions: "b \<in> set (all_breaks prev es) \<Longrightarrow> 0 \<le> Position b"
  using walk_walked [of "\<lparr>MaxBreaks = 0, o_PreviousHash = prev\<rparr>" es] by (auto simp: walked_def list_all_iff)

subsection \<open>When binding succeeds\<close>

text \<open>The chain is the one the anchor describes.\<close>

definition describes :: "anchor \<Rightarrow> ventry list \<Rightarrow> string \<Rightarrow> bool" where
  "describes a es prevHash \<longleftrightarrow>
     es \<noteq> [] \<and> chain_ok [] None es \<and> v_EntryID (hd es) = StartEntryID (an_Range a) \<and>
     v_EntryID (last es) = EndEntryID (an_Range a) \<and> int (length es) = an_EntryCount a \<and>
     (prevHash = SeedAnchorHash \<longleftrightarrow> an_PreviousAnchorID a = SeedAnchorID) \<and>
     ChainHash_anchor prevHash (an_Subject a) (v_EntryID (hd es)) (v_EntryID (last es)) (v_ChainHash (last es))
       = Inr (an_ChainHash a)"

lemma bind_walk_bound:
  assumes "es \<noteq> []" "0 \<le> m" "bind_anchor (walk \<lparr>MaxBreaks = m, o_PreviousHash = []\<rparr> es) a prevHash = (r, err)"
  shows "br_Bound r \<longleftrightarrow> describes a es prevHash"
    and "br_Bound r \<longrightarrow> err = None \<and> br_Outcome r = BindOK"
    and "br_Outcome r = BindOK \<longrightarrow> br_Bound r"
proof -
  let ?w = "walk \<lparr>MaxBreaks = m, o_PreviousHash = []\<rparr> es" and ?bs = "all_breaks [] es"
  note fl = walk_first_last [OF assms(1), of "\<lparr>MaxBreaks = m, o_PreviousHash = []\<rparr>"]
  have fb: "0 \<le> FirstBreak (res ?w) \<longleftrightarrow> ?bs \<noteq> []"
    using all_breaks_positions [of "hd ?bs" "[]" es] by (auto simp: result_for_def)
  have ok: "?bs = [] \<longleftrightarrow> chain_ok [] None es"
    using all_breaks_Nil [OF assms(1), of "[]"] by simp
  have n: "Count ?w = int (length es)" by (simp add: Count_def result_for_def)
  have "(br_Bound r \<longleftrightarrow> describes a es prevHash) \<and> (br_Bound r \<longrightarrow> err = None \<and> br_Outcome r = BindOK) \<and>
      (br_Outcome r = BindOK \<longrightarrow> br_Bound r)"
  proof (cases "?bs = []")
    case False
    then have "br_Bound r = False \<and> br_Outcome r \<noteq> BindOK"
      using assms(3) fb kept_hd [OF False assms(2)]
      by (auto simp: bind_anchor_def Let_def zero_result_def result_for_def split: if_splits)
    with False ok show ?thesis by (auto simp: describes_def)
  next
    case True
    then show ?thesis using assms(1,3) fb fl n ok
      by (auto simp: bind_anchor_def Let_def zero_result_def describes_def split: if_splits sum.splits)
  qed
  then show "br_Bound r \<longleftrightarrow> describes a es prevHash"
    and "br_Bound r \<longrightarrow> err = None \<and> br_Outcome r = BindOK"
    and "br_Outcome r = BindOK \<longrightarrow> br_Bound r" by blast+
qed

lemma validatePreviousAnchorHash_iff: "validatePreviousAnchorHash h = None \<longleftrightarrow> is_hex128 h"
  by (auto simp: validatePreviousAnchorHash_def is_hex128_def)

lemma BindAnchor_bound:
  assumes "BindAnchor a es prevHash = (r, err)"
  shows "br_Bound r \<longleftrightarrow> is_hex128 prevHash \<and> ValidateVersionInvariants a = None \<and> describes a es prevHash"
    and "br_Bound r \<Longrightarrow> err = None \<and> br_Outcome r = BindOK"
proof -
  have z: "br_Bound zero_result = False" by (simp add: zero_result_def)
  have "(br_Bound r \<longleftrightarrow> is_hex128 prevHash \<and> ValidateVersionInvariants a = None \<and> describes a es prevHash) \<and>
      (br_Bound r \<longrightarrow> err = None \<and> br_Outcome r = BindOK)"
  proof (cases "es = [] \<or> \<not> is_hex128 prevHash \<or> ValidateVersionInvariants a \<noteq> None")
    case True
    then have "r = zero_result"
      using assms validatePreviousAnchorHash_iff [of prevHash]
      by (auto simp: BindAnchor_def split: option.splits if_splits)
    with True z show ?thesis by (auto simp: describes_def)
  next
    case False
    then have b: "bind_anchor (walk \<lparr>MaxBreaks = 1, o_PreviousHash = []\<rparr> es) a prevHash = (r, err)"
      using assms validatePreviousAnchorHash_iff [of prevHash] by (simp add: BindAnchor_def walk_def)
    have ne: "es \<noteq> []" using False by simp
    show ?thesis using bind_walk_bound [OF ne zero_le_one b] False by blast
  qed
  then show "br_Bound r \<longleftrightarrow> is_hex128 prevHash \<and> ValidateVersionInvariants a = None \<and> describes a es prevHash"
    and "br_Bound r \<Longrightarrow> err = None \<and> br_Outcome r = BindOK" by blast+
qed

lemma withSignature_fields:
  assumes "withSignature C r a src = (r', err)"
  shows "br_SignatureVerified r' \<and> err = None \<longleftrightarrow> (\<exists>t. VerifySignature C a (Some src) = Inr t)"
    and "VerifySignature C a (Some src) = Inr t \<Longrightarrow>
      br_Bound r' = br_Bound r \<and> br_Trust r' = t \<and> br_Outcome r' = br_Outcome r \<and>
      br_EntriesNotBound r' = br_EntriesNotBound r \<and> err = None \<and> br_SignatureVerified r'"
  using assms by (auto simp: withSignature_def zero_result_def Let_def split: sum.splits if_splits)

text \<open>What a verified anchor comes to: bound to the chain, and signed under the key source.\<close>

definition anchor_verifies :: "circl \<Rightarrow> anchor \<Rightarrow> ventry list \<Rightarrow> string \<Rightarrow> KeySource \<Rightarrow> bool" where
  "anchor_verifies C a es prevHash src \<longleftrightarrow>
     is_hex128 prevHash \<and> ValidateVersionInvariants a = None \<and> describes a es prevHash \<and>
     (\<exists>t. VerifySignature C a (Some src) = Inr t)"

lemma bind_error_unverified:
  "br_SignatureVerified (fst (bind_anchor w a h)) = False \<and>
   (snd (bind_anchor w a h) \<noteq> None \<longrightarrow> br_Bound (fst (bind_anchor w a h)) = False)"
  by (auto simp: bind_anchor_def zero_result_def Let_def split: list.splits sum.splits)

lemma Walker_VerifyAnchor_walk:
  assumes "0 \<le> m" "Walker_VerifyAnchor C (walk \<lparr>MaxBreaks = m, o_PreviousHash = []\<rparr> es) a prevHash (Some src) = (r, err)"
  shows "err = None \<and> br_Bound r \<and> br_SignatureVerified r \<longleftrightarrow> anchor_verifies C a es prevHash src"
proof -
  let ?w = "walk \<lparr>MaxBreaks = m, o_PreviousHash = []\<rparr> es"
  have n: "Count ?w = int (length es)" by (simp add: Count_def result_for_def)
  have z: "br_Bound zero_result = False" "br_SignatureVerified zero_result = False" by (simp_all add: zero_result_def)
  show ?thesis
  proof (cases "es = [] \<or> \<not> is_hex128 prevHash \<or> ValidateVersionInvariants a \<noteq> None")
    case True
    then have "r = zero_result"
      using assms(2) validatePreviousAnchorHash_iff [of prevHash] n
      by (auto simp: Walker_VerifyAnchor_def split: option.splits if_splits)
    with True z show ?thesis by (auto simp: anchor_verifies_def describes_def)
  next
    case False
    obtain r0 e0 where b: "bind_anchor ?w a prevHash = (r0, e0)" by fastforce
    have ne: "es \<noteq> []" using False by simp
    note bound = bind_walk_bound(1) [OF ne assms(1) b]
    have vo: "validatePreviousAnchorHash prevHash = None" using validatePreviousAnchorHash_iff [of prevHash] False by simp
    show ?thesis
    proof (cases e0)
      case None
      have ws: "withSignature C r0 a src = (r, err)"
        using assms(2) False b None n vo by (simp add: Walker_VerifyAnchor_def)
      show ?thesis using withSignature_fields [OF ws] bound False unfolding anchor_verifies_def by metis
    next
      case (Some e)
      then have "r = r0" "err = Some e"
        using assms(2) False b n vo by (simp_all add: Walker_VerifyAnchor_def)
      moreover have "\<not> br_Bound r0" using bind_error_unverified [of ?w a prevHash] b Some by simp
      ultimately show ?thesis using bound by (auto simp: anchor_verifies_def)
    qed
  qed
qed

lemma VerifyAnchor_verifies:
  assumes "VerifyAnchor C a es prevHash (Some src) = (r, err)"
  shows "err = None \<and> br_Bound r \<and> br_SignatureVerified r \<longleftrightarrow> anchor_verifies C a es prevHash src"
proof -
  obtain r0 e0 where b: "BindAnchor a es prevHash = (r0, e0)" by fastforce
  note bb = BindAnchor_bound [OF b]
  show ?thesis
  proof (cases e0)
    case None
    have ws: "withSignature C r0 a src = (r, err)" using assms b None by (simp add: VerifyAnchor_def)
    show ?thesis using withSignature_fields [OF ws] bb(1) unfolding anchor_verifies_def by metis
  next
    case (Some e)
    then show ?thesis using assms b bb by (auto simp: VerifyAnchor_def anchor_verifies_def)
  qed
qed

text \<open>C21. \<open>VerifyAnchor\<close> reports a bound chain and a verified signature, without error, exactly when the
  predecessor hash has its shape, the anchor is valid for its version, the chain verifies intact
  from its first entry, its ends and its length are the ones the anchor names, the two agree on
  being the first of the series, the anchor's hash recomputes from the chain's head, and the
  signature verifies under the key source.\<close>

theorem verify_anchor_iff:
  "(case VerifyAnchor C a es prevHash (Some src) of (r, err) \<Rightarrow> err = None \<and> br_Bound r \<and> br_SignatureVerified r) \<longleftrightarrow>
     is_hex128 prevHash \<and> ValidateVersionInvariants a = None \<and> intact es from_genesis \<and>
     v_EntryID (hd es) = StartEntryID (an_Range a) \<and> v_EntryID (last es) = EndEntryID (an_Range a) \<and>
     int (length es) = an_EntryCount a \<and>
     (prevHash = SeedAnchorHash \<longleftrightarrow> an_PreviousAnchorID a = SeedAnchorID) \<and>
     ChainHash_anchor prevHash (an_Subject a) (StartEntryID (an_Range a)) (EndEntryID (an_Range a))
       (v_ChainHash (last es)) = Inr (an_ChainHash a) \<and>
     (\<exists>t. VerifySignature C a (Some src) = Inr t)"
proof -
  obtain r err where v: "VerifyAnchor C a es prevHash (Some src) = (r, err)" by fastforce
  show ?thesis using VerifyAnchor_verifies [OF v] v
    by (auto simp: anchor_verifies_def describes_def intact_iff_chain_ok)
qed

subsection \<open>What a bound anchor commits to\<close>

lemma last_tombstone_snoc:
  "last_tombstone i lt (es @ [e]) = (if counts_tombstone e then i + int (length es) else last_tombstone i lt es)"
  by (induction i lt es rule: last_tombstone.induct) auto

lemma last_tombstone_after:
  "-1 \<le> last_tombstone 0 (-1) es \<and> last_tombstone 0 (-1) es < int (length es) \<and>
   list_all (\<lambda>e. \<not> counts_tombstone e) (drop (nat (last_tombstone 0 (-1) es + 1)) es)"
proof (induction es rule: rev_induct)
  case (snoc e es)
  let ?k = "nat (last_tombstone 0 (-1) es + 1)"
  have "?k \<le> length es" using snoc by linarith
  then show ?case using snoc by (auto simp: last_tombstone_snoc)
qed simp

lemma live_after_last_tombstone:
  assumes "chain_ok [] None es" "nat (last_tombstone 0 (-1) es + 1) \<le> k"
  shows "list_all live (drop k es)"
proof -
  have "list_all (\<lambda>e. \<not> counts_tombstone e) (drop k es)"
    using last_tombstone_after [of es] set_drop_subset_set_drop [OF assms(2), of es]
    unfolding list_all_iff by blast
  moreover have "is_hex128 (v_ChainHash e)" if "e \<in> set (drop k es)" for e
    using that chain_ok_hashes [OF assms(1)] by (meson in_set_dropD)
  ultimately show ?thesis by (auto simp: list_all_iff counts_tombstone_def live_def)
qed

text \<open>Two runs of live entries of the same length that end in the same hash agree, from whatever hashes
  they start.\<close>

lemma same_end_same_run:
  "length xs = length ys \<Longrightarrow> prev_shape p \<Longrightarrow> prev_shape q \<Longrightarrow> chain_ok p m xs \<Longrightarrow> chain_ok q n ys \<Longrightarrow>
   list_all live xs \<Longrightarrow> list_all live ys \<Longrightarrow> end_hash p xs = end_hash q ys \<Longrightarrow>
     (map bound_fields xs = map bound_fields ys \<and> p = q) \<or> collide (chain_preimages p xs) (chain_preimages q ys)"
proof (induction xs ys rule: rev_induct2)
  case 1
  then show ?case by (simp add: end_hash_def)
next
  case (4 x xs y ys)
  let ?p = "end_hash p xs" and ?q = "end_hash q ys"
  have ok: "chain_ok p m xs" "entry_ok ?p x" "chain_ok q n ys" "entry_ok ?q y"
    "live x" "live y" "list_all live xs" "list_all live ys" "length xs = length ys"
    using 4 by (simp_all add: chain_ok_append)
  have shapes: "prev_shape ?p" "prev_shape ?q"
    using end_hash_shape [OF ok(1) 4(3)] end_hash_shape [OF ok(3) 4(4)] by simp_all
  have "hex_sha512 (live_preimage ?p x) = hex_sha512 (live_preimage ?q y)"
    using live_hash [OF ok(2,5)] live_hash [OF ok(4,6)] 4 by (simp add: end_hash_def)
  then consider (same) "live_preimage ?p x = live_preimage ?q y"
    | (col) "collision (live_preimage ?p x) (live_preimage ?q y)"
    by (auto dest!: hex_sha512_eqD)
  then show ?case
  proof cases
    case col
    then show ?thesis by (auto simp: chain_preimages_append collide_iff)
  next
    case same
    from live_preimage_inject [OF ok(2,5,4,6) shapes same] have "?p = ?q" "bound_fields x = bound_fields y" by auto
    with 4(1) [OF ok(9) 4(3,4) ok(1,3,7,8)] show ?thesis by (auto simp: chain_preimages_append collide_iff)
  qed
qed simp_all

lemma BindAnchor_not_bound_count:
  assumes "BindAnchor a es prevHash = (r, err)" "br_Bound r"
  shows "br_EntriesNotBound r = last_tombstone 0 (-1) es + 1"
proof -
  have z: "br_Bound zero_result = False" by (simp add: zero_result_def)
  have "bind_anchor (walk \<lparr>MaxBreaks = 1, o_PreviousHash = []\<rparr> es) a prevHash = (r, err)"
    using assms z by (auto simp: BindAnchor_def walk_def split: if_splits option.splits)
  then show ?thesis
    using assms(2) z by (auto simp: bind_anchor_def Let_def result_for_def split: if_splits list.splits sum.splits)
qed

text \<open>C18. An anchor pins the chain it was made over: if two chains, of any entries and with any erased
  ones among them, are both bound to one anchor with one predecessor hash, then they have the same
  length and agree from the entry on that both results report as bound (the one after the last
  erased entry of either), in every field a chain hash binds, unless strings that were hashed
  collide. Without erased entries that is the whole chain.\<close>

theorem bound_chains_agree:
  assumes "BindAnchor a xs prevHash = (r, err)" "br_Bound r"
    and "BindAnchor a ys prevHash = (r', err')" "br_Bound r'"
    and "k = nat (max (br_EntriesNotBound r) (br_EntriesNotBound r'))"
  shows "length xs = length ys \<and>
    (map bound_fields (drop k xs) = map bound_fields (drop k ys) \<or>
     collide (chain_preimages (end_hash [] (take k xs)) (drop k xs)) (chain_preimages (end_hash [] (take k ys)) (drop k ys)) \<or>
     collision (anchor_preimage prevHash (an_Subject a) (StartEntryID (an_Range a)) (EndEntryID (an_Range a)) (v_ChainHash (last xs)))
       (anchor_preimage prevHash (an_Subject a) (StartEntryID (an_Range a)) (EndEntryID (an_Range a)) (v_ChainHash (last ys))))"
proof -
  note dx = BindAnchor_bound(1) [OF assms(1)] and dy = BindAnchor_bound(1) [OF assms(3)]
  have x: "describes a xs prevHash" and y: "describes a ys prevHash" using dx dy assms(2,4) by simp_all
  have len: "length xs = length ys" using x y by (simp add: describes_def)
  have hx: "ChainHash_anchor prevHash (an_Subject a) (StartEntryID (an_Range a)) (EndEntryID (an_Range a)) (v_ChainHash (last xs)) = Inr (an_ChainHash a)"
    and hy: "ChainHash_anchor prevHash (an_Subject a) (StartEntryID (an_Range a)) (EndEntryID (an_Range a)) (v_ChainHash (last ys)) = Inr (an_ChainHash a)"
    using x y by (auto simp: describes_def)
  show ?thesis
  proof (cases "v_ChainHash (last xs) = v_ChainHash (last ys)")
    case False
    with ChainHash_collides [OF hx hy] len show ?thesis by blast
  next
    case True
    show ?thesis
    proof (cases "k < length xs")
      case False
      then show ?thesis using len by simp
    next
      case k: True
      let ?p = "end_hash [] (take k xs)" and ?q = "end_hash [] (take k ys)"
      have ok: "chain_ok [] None xs" "chain_ok [] None ys" using x y by (simp_all add: describes_def)
      have "chain_ok [] None (take k xs @ drop k xs)" "chain_ok [] None (take k ys @ drop k ys)" using ok by simp_all
      then have parts: "chain_ok [] None (take k xs)" "chain_ok ?p (end_seq None (take k xs)) (drop k xs)"
        "chain_ok [] None (take k ys)" "chain_ok ?q (end_seq None (take k ys)) (drop k ys)"
        unfolding chain_ok_append by simp_all
      have live: "list_all live (drop k xs)" "list_all live (drop k ys)"
        using live_after_last_tombstone ok assms(5) BindAnchor_not_bound_count [OF assms(1,2)]
          BindAnchor_not_bound_count [OF assms(3,4)] by simp_all
      have "end_hash ?p (drop k xs) = end_hash ?q (drop k ys)"
        using True k len by (simp add: end_hash_def)
      from same_end_same_run [OF _ _ _ parts(2,4) live this] len end_hash_shape [OF parts(1)] end_hash_shape [OF parts(3)]
      show ?thesis by auto
    qed
  qed
qed

text \<open>The example chain and an anchor made over it.\<close>

definition anchor_over :: "ventry list \<Rightarrow> string \<Rightarrow> anchor" where
  "anchor_over es h =
     \<lparr> an_Version = 6, an_AnchorID = ''anchor_1'', an_Subject = ''host-1'', an_ChainHash = h,
       an_Range = \<lparr> StartEntryID = v_EntryID (hd es), EndEntryID = v_EntryID (last es) \<rparr>,
       an_EntryCount = int (length es), an_Signature = [], an_SigningKeyID = ''k1'', an_CreatedAtMs = 0,
       an_PreviousAnchorID = SeedAnchorID, an_VerifiedThrough = int (length es) \<rparr>"

lemma seed_hash_shape [simp]: "is_hex128 SeedAnchorHash" "CHR ''|'' \<notin> set SeedAnchorHash"
proof -
  show "is_hex128 SeedAnchorHash" unfolding SeedAnchorHash_def is_hex128_def by (simp add: is_lower_hex_def)
  then show "CHR ''|'' \<notin> set SeedAnchorHash" by (rule is_hex128_no_pipe)
qed

lemma example_described:
  "\<exists>xs h. length xs = 2 \<and> list_all live xs \<and> describes (anchor_over xs h) xs SeedAnchorHash \<and>
     ValidateVersionInvariants (anchor_over xs h) = None"
proof -
  obtain xs where xs: "length xs = 2" "intact xs from_genesis" "list_all live xs"
    "set (map v_EntryID xs) = set (map i_EntryID example_batch)" using example_chain_ids by blast
  have ne: "xs \<noteq> []" using xs(1) by auto
  have ids: "v_EntryID e \<in> {''a'', ''b''}" if "e \<in> set xs" for e
  proof -
    have "v_EntryID e \<in> set (map i_EntryID example_batch)" using that xs(4) by (metis image_eqI list.set_map)
    then show ?thesis by (simp add: example_batch_def example_input_def)
  qed
  then have np: "CHR ''|'' \<notin> set (v_EntryID (hd xs))" "CHR ''|'' \<notin> set (v_EntryID (last xs))"
    using ids [OF hd_in_set [OF ne]] ids [OF last_in_set [OF ne]] by auto
  have ok: "chain_ok [] None xs" using xs(2) by (simp add: intact_iff_chain_ok)
  then have "CHR ''|'' \<notin> set (v_ChainHash (last xs))"
    using chain_ok_hashes [OF ok last_in_set [OF ne]] is_hex128_no_pipe by blast
  with np obtain h where "ChainHash_anchor SeedAnchorHash ''host-1'' (v_EntryID (hd xs)) (v_EntryID (last xs)) (v_ChainHash (last xs)) = Inr h"
    by (simp add: ChainHash_iff)
  then have "describes (anchor_over xs h) xs SeedAnchorHash"
    using ne ok by (simp add: describes_def anchor_over_def)
  moreover have "ValidateVersionInvariants (anchor_over xs h) = None"
    using xs(1) by (simp add: ValidateVersionInvariants_iff valid_anchor_def anchor_over_def)
  ultimately show ?thesis using xs(1,3) by blast
qed

theorem bound_chains_agree_witness:
  "\<exists>a xs r err. BindAnchor a xs SeedAnchorHash = (r, err) \<and> br_Bound r \<and> length xs = 2 \<and>
     (\<forall>ys r' err'. BindAnchor a ys SeedAnchorHash = (r', err') \<and> br_Bound r' \<longrightarrow> length ys = 2)"
proof -
  obtain xs h where d: "length xs = 2" "describes (anchor_over xs h) xs SeedAnchorHash"
    "ValidateVersionInvariants (anchor_over xs h) = None" using example_described by blast
  obtain r err where b: "BindAnchor (anchor_over xs h) xs SeedAnchorHash = (r, err)" by fastforce
  have bound: "br_Bound r" using BindAnchor_bound(1) [OF b] d by simp
  have "length ys = 2" if "BindAnchor (anchor_over xs h) ys SeedAnchorHash = (r', err')" "br_Bound r'" for ys r' err'
    using bound_chains_agree [OF b bound that refl] d(1) by simp
  with b bound d(1) show ?thesis by blast
qed

end
