(* ===== verification/Anchor_Series.thy ===== *)
theory Anchor_Series
  imports Anchor_Bind
begin

section \<open>A series of anchors: \<open>verify/series.go\<close>\<close>

text \<open>
  Checking every anchor of a chain during one walk: the state of a \<open>Series\<close>, the rules that need no
  chain (\<open>checkNext\<close>), the binding of the anchor whose prefix the walk has just finished
  (\<open>Reached\<close>), the end of the walk (\<open>Finish\<close>) and \<open>VerifyAnchorSeries\<close>. The labels only go into the
  reported sentences, which are constructors here, with the number of the anchor they are about.
\<close>

datatype problem =
    OtherChain int | FirstNotSeed int | WrongPredecessor int | DoesNotGrow int int | GoesBack int
  | AnchorError int bind_error | DoesNotVerify int bind_detail | ClaimsMore int int int

record Series =
  se_subject :: string
  se_anchors :: "anchor list"
  se_keys :: KeySource
  se_next :: nat
  se_prevHash :: string
  se_prevID :: string
  se_prevMs :: int
  se_covered :: int
  se_verified :: int
  se_problems :: "problem list"
  se_stopped :: bool
  se_unchecked :: bool

definition NewSeries :: "string \<Rightarrow> anchor list \<Rightarrow> KeySource \<Rightarrow> Series" where
  "NewSeries subject anchors keys =
     \<lparr> se_subject = subject, se_anchors = anchors, se_keys = keys, se_next = 0,
       se_prevHash = SeedAnchorHash, se_prevID = SeedAnchorID, se_prevMs = 0, se_covered = 0,
       se_verified = 0, se_problems = [], se_stopped = False, se_unchecked = True \<rparr>"

definition fail :: "problem \<Rightarrow> Series \<Rightarrow> Series" where
  "fail p s = s\<lparr>se_problems := se_problems s @ [p], se_stopped := True\<rparr>"

definition checkNext :: "Series \<Rightarrow> Series" where
  "checkNext s0 =
     (let s = s0\<lparr>se_unchecked := False\<rparr>
      in if se_stopped s \<or> length (se_anchors s) \<le> se_next s then s
         else
           let a = se_anchors s ! se_next s; n = int (se_next s) + 1
           in if an_Subject a \<noteq> se_subject s then fail (OtherChain n) s
              else if an_PreviousAnchorID a \<noteq> se_prevID s \<and> n = 1 then fail (FirstNotSeed n) s
              else if an_PreviousAnchorID a \<noteq> se_prevID s then fail (WrongPredecessor n) s
              else if an_EntryCount a \<le> se_covered s then fail (DoesNotGrow n (an_EntryCount a)) s
              else if an_CreatedAtMs a < se_prevMs s then fail (GoesBack n) s
              else s)"

definition Reached :: "circl \<Rightarrow> walker \<Rightarrow> Series \<Rightarrow> Series" where
  "Reached C w s0 =
     (let s = (if se_unchecked s0 then checkNext s0 else s0)
      in if se_stopped s \<or> length (se_anchors s) \<le> se_next s
            \<or> Count w \<noteq> an_EntryCount (se_anchors s ! se_next s) then s
         else
           let a = se_anchors s ! se_next s; n = int (se_next s) + 1
           in case Walker_VerifyAnchor C w a (se_prevHash s) (Some (se_keys s)) of
                (br, Some err) \<Rightarrow> fail (AnchorError n err) s
              | (br, None) \<Rightarrow>
                  if \<not> br_Bound br \<or> \<not> br_SignatureVerified br then fail (DoesNotVerify n (br_Detail br)) s
                  else checkNext (s\<lparr>se_verified := se_verified s + 1, se_covered := an_EntryCount a,
                         se_prevHash := an_ChainHash a, se_prevID := an_AnchorID a,
                         se_prevMs := an_CreatedAtMs a, se_next := se_next s + 1\<rparr>))"

definition Finish :: "int \<Rightarrow> Series \<Rightarrow> Series" where
  "Finish n_total s0 =
     (let s = (if se_unchecked s0 then checkNext s0 else s0)
      in if \<not> se_stopped s \<and> se_next s < length (se_anchors s)
         then fail (ClaimsMore (int (se_next s) + 1) (an_EntryCount (se_anchors s ! se_next s)) n_total) s
         else s)"

definition Problems :: "Series \<Rightarrow> problem list" where "Problems s = se_problems s"
definition Verified :: "Series \<Rightarrow> int" where "Verified s = se_verified s"
definition Covered :: "Series \<Rightarrow> int" where "Covered s = se_covered s"

datatype series_error = SeriesNoEntries | SeriesNoAnchors | SeriesNoKeys

text \<open>The loop of \<open>VerifyAnchorSeries\<close>.\<close>

fun series_loop :: "circl \<Rightarrow> walker \<Rightarrow> Series \<Rightarrow> ventry list \<Rightarrow> walker \<times> Series" where
  "series_loop C w s [] = (w, s)"
| "series_loop C w s (e # es) = (let w' = Add w e in series_loop C w' (Reached C w' s) es)"

definition VerifyAnchorSeries ::
    "circl \<Rightarrow> string \<Rightarrow> ventry list \<Rightarrow> anchor list \<Rightarrow> KeySource option \<Rightarrow> series_error + (vresult \<times> problem list)" where
  "VerifyAnchorSeries C subject entries anchors keys =
     (if entries = [] then Inl SeriesNoEntries
      else if anchors = [] then Inl SeriesNoAnchors
      else case keys of
        None \<Rightarrow> Inl SeriesNoKeys
      | Some src \<Rightarrow>
          (case series_loop C (NewWalker \<lparr>MaxBreaks = 0, o_PreviousHash = []\<rparr>) (NewSeries subject anchors src) entries of
             (w, s) \<Rightarrow> Inr (Result w, Problems (Finish (Count w) s))))"

subsection \<open>What a series without problems is\<close>

text \<open>The rules for the anchors that are left, after one with hash \<open>h\<close>, id \<open>i\<close>, time \<open>ms\<close> that covers
  \<open>k\<close> entries.\<close>

fun series_ok :: "circl \<Rightarrow> string \<Rightarrow> KeySource \<Rightarrow> ventry list \<Rightarrow> string \<Rightarrow> string \<Rightarrow> int \<Rightarrow> int \<Rightarrow> anchor list \<Rightarrow> bool" where
  "series_ok C subject src es h i ms k [] = True"
| "series_ok C subject src es h i ms k (a # as) =
     (an_Subject a = subject \<and> an_PreviousAnchorID a = i \<and> k < an_EntryCount a \<and> ms \<le> an_CreatedAtMs a \<and>
      an_EntryCount a \<le> int (length es) \<and>
      anchor_verifies C a (take (nat (an_EntryCount a)) es) h src \<and>
      series_ok C subject src es (an_ChainHash a) (an_AnchorID a) (an_CreatedAtMs a) (an_EntryCount a) as)"

abbreviation plain :: options where "plain \<equiv> \<lparr>MaxBreaks = 0, o_PreviousHash = []\<rparr>"

text \<open>The state in which the next anchor, if any, has passed the rules that need no chain.\<close>

definition static_ok :: "Series \<Rightarrow> anchor \<Rightarrow> bool" where
  "static_ok s a \<longleftrightarrow> an_Subject a = se_subject s \<and> an_PreviousAnchorID a = se_prevID s \<and>
     se_covered s < an_EntryCount a \<and> se_prevMs s \<le> an_CreatedAtMs a"

definition ready_series :: "Series \<Rightarrow> bool" where
  "ready_series s \<longleftrightarrow> \<not> se_stopped s \<and> \<not> se_unchecked s \<and> se_problems s = [] \<and>
     (se_next s < length (se_anchors s) \<longrightarrow> static_ok s (se_anchors s ! se_next s))"

definition failed_series :: "Series \<Rightarrow> bool" where
  "failed_series s \<longleftrightarrow> se_stopped s \<and> \<not> se_unchecked s \<and> se_problems s \<noteq> []"

definition left :: "circl \<Rightarrow> Series \<Rightarrow> ventry list \<Rightarrow> bool" where
  "left C s es = series_ok C (se_subject s) (se_keys s) es (se_prevHash s) (se_prevID s) (se_prevMs s)
     (se_covered s) (drop (se_next s) (se_anchors s))"

lemma left_step:
  assumes "se_next s < length (se_anchors s)"
  shows "left C s es \<longleftrightarrow> (let a = se_anchors s ! se_next s in
     static_ok s a \<and> an_EntryCount a \<le> int (length es) \<and>
     anchor_verifies C a (take (nat (an_EntryCount a)) es) (se_prevHash s) (se_keys s) \<and>
     left C (s\<lparr>se_verified := v, se_covered := an_EntryCount a, se_prevHash := an_ChainHash a,
       se_prevID := an_AnchorID a, se_prevMs := an_CreatedAtMs a, se_next := se_next s + 1\<rparr>) es)"
  using assms Cons_nth_drop_Suc [OF assms]
  by (auto simp: left_def static_ok_def Let_def simp flip: Cons_nth_drop_Suc)

lemma checkNext_cases:
  assumes "\<not> se_stopped s" "se_problems s = []"
  shows "(ready_series (checkNext s) \<and> checkNext s = s\<lparr>se_unchecked := False\<rparr>) \<or>
    (failed_series (checkNext s) \<and> \<not> left C s es)"
proof (cases "se_next s < length (se_anchors s)")
  case False
  then show ?thesis using assms by (simp add: checkNext_def ready_series_def Let_def)
next
  case True
  let ?a = "se_anchors s ! se_next s"
  show ?thesis
  proof (cases "static_ok s ?a")
    case True
    then have "checkNext s = s\<lparr>se_unchecked := False\<rparr>"
      using \<open>se_next s < _\<close> assms by (simp add: checkNext_def static_ok_def Let_def)
    with True assms show ?thesis by (simp add: ready_series_def static_ok_def)
  next
    case False
    then have "failed_series (checkNext s)"
      using \<open>se_next s < _\<close> assms
      by (auto simp: checkNext_def static_ok_def Let_def failed_series_def fail_def)
    moreover have "\<not> left C s es" using False left_step [OF True] by (simp add: Let_def)
    ultimately show ?thesis by blast
  qed
qed

lemma Reached_failed: "failed_series s \<Longrightarrow> Reached C w s = s"
  by (simp add: failed_series_def Reached_def Let_def)

lemma Finish_failed: "failed_series s \<Longrightarrow> se_problems (Finish n s) \<noteq> []"
  by (simp add: failed_series_def Finish_def Let_def)

lemma loop_failed: "failed_series s \<Longrightarrow> snd (series_loop C w s es) = s"
  by (induction es arbitrary: w) (simp_all add: Let_def Reached_failed)

lemma loop_walker: "fst (series_loop C w s es) = foldl Add w es"
  by (induction es arbitrary: w s) (simp_all add: Let_def)

text \<open>One anchor reached, or not.\<close>

lemma Reached_ready:
  fixes C :: circl
  assumes "ready_series s" "ps \<noteq> []"
    and "se_next s < length (se_anchors s) \<Longrightarrow> int (length ps) \<le> an_EntryCount (se_anchors s ! se_next s)"
  defines "s' \<equiv> Reached C (walk plain ps) s"
  shows "(ready_series s' \<and> (\<forall>es. left C s' (ps @ es) = left C s (ps @ es)) \<and>
      (se_next s' < length (se_anchors s') \<longrightarrow> int (length ps) < an_EntryCount (se_anchors s' ! se_next s'))) \<or>
    (failed_series s' \<and> (\<forall>es. \<not> left C s (ps @ es)))"
proof (cases "se_next s < length (se_anchors s)")
  case False
  then show ?thesis using assms(1) by (simp add: s'_def Reached_def ready_series_def Let_def)
next
  case nx: True
  let ?a = "se_anchors s ! se_next s"
  have n: "Count (walk plain ps) = int (length ps)" by (simp add: Count_def result_for_def)
  show ?thesis
  proof (cases "int (length ps) = an_EntryCount ?a")
    case False
    then have "s' = s" using assms(1) n by (simp add: s'_def Reached_def ready_series_def Let_def)
    then show ?thesis using assms(1,3) False nx by simp
  next
    case True
    obtain r err where v: "Walker_VerifyAnchor C (walk plain ps) ?a (se_prevHash s) (Some (se_keys s)) = (r, err)"
      by fastforce
    let ?ok = "anchor_verifies C ?a ps (se_prevHash s) (se_keys s)"
    note vw = Walker_VerifyAnchor_walk [OF order_refl v]
    define t where "t = s\<lparr>se_verified := se_verified s + 1, se_covered := an_EntryCount ?a,
       se_prevHash := an_ChainHash ?a, se_prevID := an_AnchorID ?a, se_prevMs := an_CreatedAtMs ?a,
       se_next := se_next s + 1\<rparr>"
    have tk: "take (nat (an_EntryCount ?a)) (ps @ es) = ps" for es
      using True by (metis append_eq_conv_conj nat_int)
    have lf: "left C s (ps @ es) \<longleftrightarrow> ?ok \<and> left C t (ps @ es)" for es
      using left_step [OF nx, of C "ps @ es" "se_verified s + 1"] assms(1) nx True tk [of es]
      by (simp add: t_def ready_series_def Let_def)
    show ?thesis
    proof (cases ?ok)
      case False
      then have "failed_series s'"
        using vw v assms(1) n True nx
        by (auto simp: s'_def Reached_def ready_series_def Let_def failed_series_def fail_def split: option.splits)
      with False lf show ?thesis by blast
    next
      case True
      then have s': "s' = checkNext t"
        using vw v assms(1) n \<open>int (length ps) = _\<close> nx
        by (simp add: s'_def Reached_def ready_series_def Let_def t_def)
      have "\<not> se_stopped t" "se_problems t = []" using assms(1) by (simp_all add: t_def ready_series_def)
      note cn = checkNext_cases [OF this]
      consider (r) "ready_series s'" "s' = t\<lparr>se_unchecked := False\<rparr>"
        | (f) "failed_series s'" "\<forall>es. \<not> left C t (ps @ es)" using cn unfolding s' by blast
      then show ?thesis
      proof cases
        case f
        with lf show ?thesis by blast
      next
        case r
        have "left C s' es = left C t es" for es by (simp add: r(2) left_def)
        moreover have "se_next s' < length (se_anchors s') \<longrightarrow> int (length ps) < an_EntryCount (se_anchors s' ! se_next s')"
          using r \<open>int (length ps) = _\<close> by (auto simp: ready_series_def static_ok_def t_def)
        ultimately show ?thesis using r(1) lf True by blast
      qed
    qed
  qed
qed

lemma Finish_ready:
  assumes "ready_series s" "se_next s < length (se_anchors s) \<Longrightarrow> int (length ps) < an_EntryCount (se_anchors s ! se_next s)"
  shows "se_problems (Finish n s) = [] \<longleftrightarrow> left C s ps"
proof (cases "se_next s < length (se_anchors s)")
  case True
  then show ?thesis using assms left_step [OF True, of C ps]
    by (auto simp: Finish_def ready_series_def fail_def Let_def)
next
  case False
  then show ?thesis using assms(1) by (simp add: Finish_def ready_series_def left_def Let_def)
qed

lemma loop_ready:
  assumes "ready_series s" "se_next s < length (se_anchors s) \<Longrightarrow> int (length ps) < an_EntryCount (se_anchors s ! se_next s)"
  shows "se_problems (Finish n (snd (series_loop C (walk plain ps) s es))) = [] \<longleftrightarrow> left C s (ps @ es)"
  using assms
proof (induction es arbitrary: ps s)
  case Nil
  then show ?case using Finish_ready by simp
next
  case (Cons e es)
  let ?ps = "ps @ [e]" and ?s = "Reached C (walk plain (ps @ [e])) s"
  have step: "series_loop C (walk plain ps) s (e # es) = series_loop C (walk plain ?ps) ?s es"
    by (simp add: Let_def walk_snoc)
  have "se_next s < length (se_anchors s) \<Longrightarrow> int (length ?ps) \<le> an_EntryCount (se_anchors s ! se_next s)"
    using Cons.prems(2) by simp
  from Reached_ready [OF Cons.prems(1) _ this, of C] show ?case
  proof
    assume r: "ready_series ?s \<and> (\<forall>es. left C ?s (?ps @ es) = left C s (?ps @ es)) \<and>
      (se_next ?s < length (se_anchors ?s) \<longrightarrow> int (length ?ps) < an_EntryCount (se_anchors ?s ! se_next ?s))"
    then show ?thesis using Cons.IH [of ?s ?ps] unfolding step by simp
  next
    assume f: "failed_series ?s \<and> (\<forall>es. \<not> left C s (?ps @ es))"
    then show ?thesis using loop_failed Finish_failed unfolding step by (metis append.assoc append_Cons append_Nil)
  qed simp
qed

lemma checkNext_again: "Reached C w (checkNext s) = (if se_unchecked s then Reached C w s else Reached C w (checkNext s))"
proof -
  have "se_unchecked (checkNext s) = False" by (simp add: checkNext_def Let_def fail_def)
  then show ?thesis by (simp add: Reached_def Let_def)
qed

lemma series_problems:
  assumes "es \<noteq> []"
  shows "se_problems (Finish n (snd (series_loop C (walk plain []) (NewSeries subject anchors src) es))) = [] \<longleftrightarrow>
    series_ok C subject src es SeedAnchorHash SeedAnchorID 0 0 anchors"
proof -
  let ?s = "NewSeries subject anchors src"
  obtain e es' where es: "es = e # es'" using assms by (cases es) auto
  have "Reached C w ?s = Reached C w (checkNext ?s)" for w
    by (simp add: checkNext_again NewSeries_def)
  then have loop: "series_loop C (walk plain []) ?s es = series_loop C (walk plain []) (checkNext ?s) es"
    by (simp add: es Let_def)
  have new: "left C ?s es = series_ok C subject src es SeedAnchorHash SeedAnchorID 0 0 anchors"
    by (simp add: left_def NewSeries_def)
  have "\<not> se_stopped ?s" "se_problems ?s = []" by (simp_all add: NewSeries_def)
  from checkNext_cases [OF this, of C es] show ?thesis
  proof
    assume r: "ready_series (checkNext ?s) \<and> checkNext ?s = ?s\<lparr>se_unchecked := False\<rparr>"
    have "left C (checkNext ?s) es = left C ?s es" using r by (simp add: left_def)
    moreover have "se_next (checkNext ?s) < length (se_anchors (checkNext ?s)) \<Longrightarrow>
        int (length ([] :: ventry list)) < an_EntryCount (se_anchors (checkNext ?s) ! se_next (checkNext ?s))"
      using r by (auto simp: ready_series_def static_ok_def NewSeries_def)
    ultimately have "se_problems (Finish n (snd (series_loop C (walk plain []) (checkNext ?s) es))) = [] \<longleftrightarrow> left C ?s es"
      using loop_ready [OF conjunct1 [OF r], of "[]" n C es] by simp
    then show ?thesis by (simp only: loop new)
  next
    assume f: "failed_series (checkNext ?s) \<and> \<not> left C ?s es"
    then show ?thesis using loop loop_failed Finish_failed new by metis
  qed
qed

text \<open>C20. A series checks out exactly when it should: \<open>VerifyAnchorSeries\<close> reports no problem for a chain
  and its anchors if and only if every anchor is for the subject, names the one before it (the
  first one the seed), covers more entries than the one before it and no more than there are, is
  not older than it, and verifies, with its signature, against the prefix of the chain it covers
  and the hash of the anchor before it; and the chain result it reports is the walk's.\<close>

theorem series_verifies_iff:
  "VerifyAnchorSeries C subject es anchors (Some src) = Inr (vres, []) \<longleftrightarrow>
     es \<noteq> [] \<and> anchors \<noteq> [] \<and> Chain es \<lparr>MaxBreaks = 0, o_PreviousHash = []\<rparr> = Some vres \<and>
     series_ok C subject src es SeedAnchorHash SeedAnchorID 0 0 anchors"
proof (cases "es = [] \<or> anchors = []")
  case True
  then show ?thesis by (auto simp: VerifyAnchorSeries_def)
next
  case False
  let ?l = "series_loop C (walk plain []) (NewSeries subject anchors src) es"
  have "fst ?l = foldl Add (NewWalker plain) es" by (simp add: loop_walker walk_def)
  then show ?thesis
    using False series_problems [of es "Count (fst ?l)" C subject anchors src]
    by (auto simp: VerifyAnchorSeries_def Problems_def Chain_def walk_def split: prod.splits)
qed

text \<open>The anchors of a series without problems cover growing prefixes of the chain.\<close>

lemma series_ok_grows:
  "series_ok C subject src es h i ms k as \<Longrightarrow>
     sorted_wrt (<) (map an_EntryCount as) \<and> list_all (\<lambda>a. k < an_EntryCount a \<and> an_EntryCount a \<le> int (length es) \<and>
       (\<exists>p. anchor_verifies C a (take (nat (an_EntryCount a)) es) p src)) as"
proof (induction as arbitrary: h i ms k)
  case (Cons a as)
  then have "list_all (\<lambda>b. an_EntryCount a < an_EntryCount b \<and> an_EntryCount b \<le> int (length es) \<and>
       (\<exists>p. anchor_verifies C b (take (nat (an_EntryCount b)) es) p src)) as"
    "sorted_wrt (<) (map an_EntryCount as)" "k < an_EntryCount a"
    by (fastforce dest: Cons.IH)+
  then show ?case using Cons.prems by (auto simp: list_all_iff)
qed simp

end
