(* ===== verification/Anchor_Build.thy ===== *)
theory Anchor_Build
  imports Anchor_Series
begin

section \<open>Making an anchor: package \<open>anchor/build\<close>\<close>

text \<open>
  An anchor over a whole chain, refused over a broken one. The clock's answer, the 16 random bytes of
  the id (or the failure to read them) and the context's answers at its two checks are arguments.
  The property is the composition: what is built, and signed, verifies against the chain it was
  built from.
\<close>

datatype build_error =
    BuildContext string | BuildNoEntries | SubjectRequired | WalkerSawSegment
  | PreviousOtherSubject | PreviousCoversMore int int | ErrChainBroken "(break_type \<times> int) option"
  | BuildHash anchor_error | BuildRandom | BuildInvalid anchor_error

record build_input =
  bi_Subject :: string
  bi_Entries :: "ventry list"
  bi_Previous :: "anchor option"
  bi_CreatedAt :: gotime

text \<open>\<open>newAnchorID\<close>: a version 4 UUID from 16 bytes.\<close>

definition uuid_bytes :: "bytes \<Rightarrow> bytes" where
  "uuid_bytes b = b[6 := char_of (of_char (b ! 6) mod 16 + 64 :: nat), 8 := char_of (of_char (b ! 8) mod 64 + 128 :: nat)]"

definition newAnchorID :: "bytes option \<Rightarrow> build_error + string" where
  "newAnchorID random =
     (case random of
        None \<Rightarrow> Inl BuildRandom
      | Some b0 \<Rightarrow>
          (let h = hex_encode (uuid_bytes b0)
           in Inr (''anchor_'' @ take 8 h @ ''-'' @ take 4 (drop 8 h) @ ''-'' @ take 4 (drop 12 h) @ ''-''
                   @ take 4 (drop 16 h) @ ''-'' @ take 12 (drop 20 h))))"

text \<open>\<open>Time.UnixMilli\<close>.\<close>

definition UnixMilli :: "gotime \<Rightarrow> int" where
  "UnixMilli t = wrap64 (unix_sec t * 1000 + int (nsec t div 1000000))"

definition FromWalker ::
    "string option \<Rightarrow> string \<Rightarrow> walker option \<Rightarrow> anchor option \<Rightarrow> gotime \<Rightarrow> gotime \<Rightarrow> bytes option \<Rightarrow>
     build_error + anchor" where
  "FromWalker ctx subject wo previous createdAt now random =
     (case ctx of Some e \<Rightarrow> Inl (BuildContext e) | None \<Rightarrow>
      case wo of None \<Rightarrow> Inl BuildNoEntries | Some w \<Rightarrow>
        if Count w = 0 then Inl BuildNoEntries
        else if subject = [] then Inl SubjectRequired
        else if Segment w then Inl WalkerSawSegment
        else case (case previous of
                     None \<Rightarrow> None
                   | Some p \<Rightarrow>
                       if an_Subject p \<noteq> subject then Some PreviousOtherSubject
                       else if Count w < an_EntryCount p then Some (PreviousCoversMore (an_EntryCount p) (Count w))
                       else None) of
          Some e \<Rightarrow> Inl e
        | None \<Rightarrow>
            let r = Result w
            in if Verdict r = VerdictBroken then
                 Inl (ErrChainBroken (case Breaks r of [] \<Rightarrow> None | b # _ \<Rightarrow> Some (b_Type b, Position b)))
               else
                 let previousAnchorHash = (case previous of None \<Rightarrow> SeedAnchorHash | Some p \<Rightarrow> an_ChainHash p);
                     previousAnchorID = (case previous of None \<Rightarrow> SeedAnchorID | Some p \<Rightarrow> an_AnchorID p)
                 in case ChainHash_anchor previousAnchorHash subject (v_EntryID (First w)) (v_EntryID (Last w))
                           (v_ChainHash (Last w)) of
                      Inl e \<Rightarrow> Inl (BuildHash e)
                    | Inr chainHash \<Rightarrow>
                        (case newAnchorID random of
                           Inl e \<Rightarrow> Inl e
                         | Inr anchorID \<Rightarrow>
                             let created = (if is_zero_time createdAt then now else createdAt);
                                 out = \<lparr> an_Version = SubjectVersion, an_AnchorID = anchorID, an_Subject = subject,
                                         an_ChainHash = chainHash,
                                         an_Range = \<lparr> StartEntryID = v_EntryID (First w), EndEntryID = v_EntryID (Last w) \<rparr>,
                                         an_EntryCount = Count w, an_Signature = [], an_SigningKeyID = [],
                                         an_CreatedAtMs = UnixMilli created, an_PreviousAnchorID = previousAnchorID,
                                         an_VerifiedThrough = EntriesVerified r \<rparr>
                             in case ValidateVersionInvariants out of
                                  Some e \<Rightarrow> Inl (BuildInvalid e)
                                | None \<Rightarrow> Inr out))"

definition Anchor_build ::
    "string option \<Rightarrow> string option \<Rightarrow> build_input \<Rightarrow> gotime \<Rightarrow> bytes option \<Rightarrow> build_error + anchor" where
  "Anchor_build ctx ctx' i now random =
     (case ctx of Some e \<Rightarrow> Inl (BuildContext e) | None \<Rightarrow>
        if bi_Entries i = [] then Inl BuildNoEntries
        else FromWalker ctx' (bi_Subject i)
               (Some (foldl Add (NewWalker \<lparr>MaxBreaks = 1, o_PreviousHash = []\<rparr>) (bi_Entries i)))
               (bi_Previous i) (bi_CreatedAt i) now random)"

text \<open>The predecessor an anchor is bound under.\<close>

definition predecessor_hash :: "anchor option \<Rightarrow> string" where
  "predecessor_hash previous = (case previous of None \<Rightarrow> SeedAnchorHash | Some p \<Rightarrow> an_ChainHash p)"

definition predecessor_id :: "anchor option \<Rightarrow> string" where
  "predecessor_id previous = (case previous of None \<Rightarrow> SeedAnchorID | Some p \<Rightarrow> an_AnchorID p)"

lemma FromWalker_walk:
  assumes "es \<noteq> []" "0 \<le> m"
  shows "FromWalker None subject (Some (walk \<lparr>MaxBreaks = m, o_PreviousHash = []\<rparr> es)) previous createdAt now random = Inr a \<longleftrightarrow>
    subject \<noteq> [] \<and>
    (case previous of None \<Rightarrow> True | Some p \<Rightarrow> an_Subject p = subject \<and> an_EntryCount p \<le> int (length es)) \<and>
    chain_ok [] None es \<and>
    (\<exists>h i. ChainHash_anchor (predecessor_hash previous) subject (v_EntryID (hd es)) (v_EntryID (last es)) (v_ChainHash (last es)) = Inr h \<and>
       newAnchorID random = Inr i \<and> ValidateVersionInvariants a = None \<and>
       a = \<lparr> an_Version = 6, an_AnchorID = i, an_Subject = subject, an_ChainHash = h,
             an_Range = \<lparr> StartEntryID = v_EntryID (hd es), EndEntryID = v_EntryID (last es) \<rparr>,
             an_EntryCount = int (length es), an_Signature = [], an_SigningKeyID = [],
             an_CreatedAtMs = UnixMilli (if is_zero_time createdAt then now else createdAt),
             an_PreviousAnchorID = predecessor_id previous, an_VerifiedThrough = int (length es) \<rparr>)"
proof -
  let ?w = "walk \<lparr>MaxBreaks = m, o_PreviousHash = []\<rparr> es"
  have w: "Count ?w = int (length es)" "EntriesVerified (Result ?w) = int (length es)" "\<not> Segment ?w"
    "First ?w = hd es" "Last ?w = last es"
    using walk_first_last [OF assms(1)]
    by (simp_all add: Count_def Result_def result_for_def Segment_def First_def Last_def)
  have v: "Verdict (Result ?w) = VerdictBroken \<longleftrightarrow> \<not> chain_ok [] None es"
    using all_breaks_Nil [OF assms(1), of "[]"] by (simp add: Result_def result_for_def)
  show ?thesis
    using assms(1) w v
    by (auto simp: FromWalker_def predecessor_hash_def predecessor_id_def Let_def version_numbers
        split: option.splits sum.splits if_splits)
qed

lemma Anchor_build_iff:
  "Anchor_build ctx ctx' i now random = Inr a \<longleftrightarrow>
     ctx = None \<and> ctx' = None \<and> bi_Entries i \<noteq> [] \<and>
     FromWalker None (bi_Subject i) (Some (walk \<lparr>MaxBreaks = 1, o_PreviousHash = []\<rparr> (bi_Entries i)))
       (bi_Previous i) (bi_CreatedAt i) now random = Inr a"
  by (cases ctx; cases ctx') (auto simp: Anchor_build_def walk_def FromWalker_def [of "Some _"])

lemma built_anchor_describes:
  assumes "Anchor_build ctx ctx' i now random = Inr a"
    and "\<And>p. bi_Previous i = Some p \<Longrightarrow> an_ChainHash p \<noteq> SeedAnchorHash \<and> an_AnchorID p \<noteq> SeedAnchorID"
  shows "describes a (bi_Entries i) (predecessor_hash (bi_Previous i)) \<and> ValidateVersionInvariants a = None \<and>
    an_SigningKeyID a = []"
proof -
  from assms(1) have ne: "bi_Entries i \<noteq> []"
    and f: "FromWalker None (bi_Subject i) (Some (walk \<lparr>MaxBreaks = 1, o_PreviousHash = []\<rparr> (bi_Entries i)))
       (bi_Previous i) (bi_CreatedAt i) now random = Inr a" by (simp_all add: Anchor_build_iff)
  have "predecessor_hash (bi_Previous i) = SeedAnchorHash \<longleftrightarrow> predecessor_id (bi_Previous i) = SeedAnchorID"
    using assms(2) by (cases "bi_Previous i") (auto simp: predecessor_hash_def predecessor_id_def)
  with f ne show ?thesis unfolding FromWalker_walk [OF ne zero_le_one] by (auto simp: describes_def)
qed

text \<open>The text of an id never is the seed's: its version digit is a 4.\<close>

lemma newAnchorID_not_seed:
  assumes "newAnchorID (Some b) = Inr i" "length b = 16"
  shows "i \<noteq> SeedAnchorID"
proof -
  obtain b0 b1 b2 b3 b4 b5 b6 b7 r where b: "b = b0 # b1 # b2 # b3 # b4 # b5 # b6 # b7 # r"
    using assms(2) by (auto simp: length_Suc_conv numeral_eq_Suc)
  let ?v = "of_char b6 mod 16 + 64 :: nat"
  have v: "?v < 256" "?v div 16 = 4" by simp_all
  then have "(of_char (char_of ?v :: char) :: nat) = ?v" by simp
  then have "i ! 21 = hextable ! 4"
    using assms(1) v(2) unfolding b by (auto simp: newAnchorID_def uuid_bytes_def Let_def nth_append)
  then show ?thesis by (auto simp: SeedAnchorID_def hextable_def)
qed

text \<open>C19. What is built verifies: take an anchor the build made over a chain and give it a key id and a
  signature that \<open>VerifySignature\<close> accepts (\<open>SignAnchor\<close> returns one); then \<open>VerifyAnchor\<close> binds it to
  that chain under its predecessor's hash, with the signature verified and the key source's trust
  level. The predecessor, where there is one, is an anchor whose hash has its shape and that is not
  confused with the seed.\<close>

theorem built_anchor_verifies:
  assumes "Anchor_build ctx ctx' i now random = Inr a"
    and "case bi_Previous i of None \<Rightarrow> True
      | Some p \<Rightarrow> is_hex128 (an_ChainHash p) \<and> an_ChainHash p \<noteq> SeedAnchorHash \<and> an_AnchorID p \<noteq> SeedAnchorID"
    and "out = stamped a keyID g" "VerifySignature C out (Some src) = Inr trust"
  shows "case VerifyAnchor C out (bi_Entries i) (predecessor_hash (bi_Previous i)) (Some src) of
    (r, err) \<Rightarrow> err = None \<and> br_Outcome r = BindOK \<and> br_SignatureVerified r \<and> br_Trust r = trust"
proof -
  have prev: "an_ChainHash p \<noteq> SeedAnchorHash \<and> an_AnchorID p \<noteq> SeedAnchorID" if "bi_Previous i = Some p" for p
    using assms(2) that by simp
  have hex: "is_hex128 (predecessor_hash (bi_Previous i))"
    using assms(2) by (cases "bi_Previous i") (auto simp: predecessor_hash_def)
  have desc: "describes out (bi_Entries i) (predecessor_hash (bi_Previous i))"
    using built_anchor_describes [OF assms(1) prev] assms(3) by (auto simp: describes_def stamped_def)
  have valid: "ValidateVersionInvariants out = None" using assms(4) by (simp add: VerifySignature_lemma)
  obtain r err where v: "VerifyAnchor C out (bi_Entries i) (predecessor_hash (bi_Previous i)) (Some src) = (r, err)"
    by fastforce
  obtain r0 e0 where b: "BindAnchor out (bi_Entries i) (predecessor_hash (bi_Previous i)) = (r0, e0)" by fastforce
  have bound: "br_Bound r0" using BindAnchor_bound(1) [OF b] hex valid desc by simp
  with BindAnchor_bound(2) [OF b] have "e0 = None" "br_Outcome r0 = BindOK" by blast+
  with v b have "withSignature C r0 out src = (r, err)" by (simp add: VerifyAnchor_def)
  from withSignature_fields(2) [OF this assms(4)] \<open>br_Outcome r0 = BindOK\<close> v show ?thesis by simp
qed

lemma build_succeeds_lemma:
  "(\<exists>a. Anchor_build None None i now (Some b) = Inr a) \<longleftrightarrow>
     intact (bi_Entries i) from_genesis \<and> bi_Subject i \<noteq> [] \<and>
     (case bi_Previous i of None \<Rightarrow> True
      | Some p \<Rightarrow> an_Subject p = bi_Subject i \<and> an_EntryCount p \<le> int (length (bi_Entries i)) \<and>
                  CHR ''|'' \<notin> set (an_ChainHash p)) \<and>
     CHR ''|'' \<notin> set (bi_Subject i) \<and> CHR ''|'' \<notin> set (v_EntryID (hd (bi_Entries i))) \<and>
     CHR ''|'' \<notin> set (v_EntryID (last (bi_Entries i))) \<and>
     0 \<le> UnixMilli (if is_zero_time (bi_CreatedAt i) then now else bi_CreatedAt i)"
proof (cases "bi_Entries i = []")
  case True
  then show ?thesis by (simp add: Anchor_build_iff intact_iff_chain_ok)
next
  case ne: False
  have tip: "CHR ''|'' \<notin> set (v_ChainHash (last (bi_Entries i)))" if "chain_ok [] None (bi_Entries i)"
    using chain_ok_hashes [OF that last_in_set [OF ne]] is_hex128_no_pipe by blast
  have pos: "0 < int (length (bi_Entries i))" using ne by simp
  have pred: "CHR ''|'' \<notin> set (predecessor_hash (bi_Previous i)) \<longleftrightarrow>
      (case bi_Previous i of None \<Rightarrow> True | Some p \<Rightarrow> CHR ''|'' \<notin> set (an_ChainHash p))"
    by (cases "bi_Previous i") (simp_all add: predecessor_hash_def)
  obtain k where k: "newAnchorID (Some b) = Inr k" by (simp add: newAnchorID_def Let_def)
  show ?thesis
    using ne tip pos pred k
    by (cases "bi_Previous i")
       (auto simp: Anchor_build_iff FromWalker_walk [OF ne zero_le_one] intact_iff_chain_ok ChainHash_iff
         ValidateVersionInvariants_iff valid_anchor_def)
qed

text \<open>When an anchor can be built: with random bytes and live contexts, exactly for a chain that
  verifies intact from genesis, a non-empty subject, a previous anchor of that subject that covers
  no more than the chain, no pipe in the predecessor's hash, the subject or the two entry ids, and a
  creation time not before 1970.\<close>

theorem build_succeeds_iff:
  "(\<exists>a. Anchor_build None None i now (Some b) = Inr a) \<longleftrightarrow>
     intact (bi_Entries i) from_genesis \<and> bi_Subject i \<noteq> [] \<and>
     (case bi_Previous i of None \<Rightarrow> True
      | Some p \<Rightarrow> an_Subject p = bi_Subject i \<and> an_EntryCount p \<le> int (length (bi_Entries i)) \<and>
                  CHR ''|'' \<notin> set (an_ChainHash p)) \<and>
     CHR ''|'' \<notin> set (bi_Subject i) \<and> CHR ''|'' \<notin> set (v_EntryID (hd (bi_Entries i))) \<and>
     CHR ''|'' \<notin> set (v_EntryID (last (bi_Entries i))) \<and>
     0 \<le> UnixMilli (if is_zero_time (bi_CreatedAt i) then now else bi_CreatedAt i)"
  by (rule build_succeeds_lemma)

definition example_build :: "ventry list \<Rightarrow> build_input" where
  "example_build es = \<lparr> bi_Subject = ''host-1'', bi_Entries = es, bi_Previous = None,
     bi_CreatedAt = \<lparr> unix_sec = 1767225600, nsec = 0 \<rparr> \<rparr>"

lemma example_chain_anchored:
  "\<exists>es a. length es = 2 \<and>
     Anchor_build None None (example_build es) \<lparr> unix_sec = 0, nsec = 0 \<rparr> (Some (replicate 16 (CHR 0x05))) = Inr a"
proof -
  obtain es where es: "length es = 2" "intact es from_genesis" "set (map v_EntryID es) = set (map i_EntryID example_batch)"
    using example_chain_ids by blast
  have ne: "es \<noteq> []" using es(1) by auto
  have "CHR ''|'' \<notin> set (v_EntryID e)" if "e \<in> set es" for e
  proof -
    have "v_EntryID e \<in> set (map i_EntryID example_batch)" using that es(3) by (metis image_eqI list.set_map)
    then show ?thesis by (auto simp: example_batch_def example_input_def)
  qed
  then have "CHR ''|'' \<notin> set (v_EntryID (hd es))" "CHR ''|'' \<notin> set (v_EntryID (last es))" using ne by simp_all
  moreover have "0 \<le> UnixMilli \<lparr> unix_sec = 1767225600, nsec = 0 \<rparr>" by (simp add: UnixMilli_def int64_def)
  ultimately have "\<exists>a. Anchor_build None None (example_build es) \<lparr> unix_sec = 0, nsec = 0 \<rparr> (Some (replicate 16 (CHR 0x05))) = Inr a"
    using es(2) by (simp add: build_succeeds_lemma example_build_def is_zero_time_def)
  with es(1) show ?thesis by blast
qed

theorem built_anchor_verifies_witness:
  "\<exists>es a out src. length es = 2 \<and>
     Anchor_build None None (example_build es) \<lparr> unix_sec = 0, nsec = 0 \<rparr> (Some (replicate 16 (CHR 0x05))) = Inr a \<and>
     (case VerifyAnchor toy_circl out es SeedAnchorHash (Some src) of
        (r, err) \<Rightarrow> err = None \<and> br_Outcome r = BindOK \<and> br_SignatureVerified r \<and> br_Trust r = TrustSelf)"
proof -
  obtain es a where a: "length es = 2"
    "Anchor_build None None (example_build es) \<lparr> unix_sec = 0, nsec = 0 \<rparr> (Some (replicate 16 (CHR 0x05))) = Inr a"
    using example_chain_anchored by blast
  have prev: "bi_Previous (example_build es) = None" "bi_Entries (example_build es) = es" by (simp_all add: example_build_def)
  have val: "ValidateVersionInvariants a = None" using built_anchor_describes [OF a(2)] prev by simp
  let ?pub = "circl_public toy_circl MLDSA65 (replicate 32 (CHR 0x01))"
  have pub: "PublicKeyFromSeed toy_circl MLDSA65 (replicate 32 (CHR 0x01)) = Inr ?pub"
    by (simp add: PublicKeyFromSeed_def seedArray_def)
  have val': "ValidateVersionInvariants (stamped a ''k1'' g) = None" "\<exists>c. Canonicalize (stamped a ''k1'' []) = Inr c" for g
    using val valid_anchor_canonicalizes [of "stamped a ''k1'' []"]
    by (auto simp: ValidateVersionInvariants_iff valid_anchor_def stamped_def)
  then obtain c where c: "Canonicalize (stamped a ''k1'' []) = Inr c" by blast
  obtain sig where sig: "length sig = SignatureSize_mldsa MLDSA65" "Verify_mldsa toy_circl MLDSA65 ?pub c sig = None"
    "length ?pub = PublicKeySize_mldsa MLDSA65" by (rule Sign_Verify [OF toy_circl_ok pub])
  let ?out = "stamped a ''k1'' (b64_encode sig)" and ?src = "\<lambda>k :: string. Inr (?pub, TrustSelf) :: anchor_error + (bytes \<times> Trust)"
  have "an_SigningKeyID ?out \<noteq> []" "an_Signature ?out = b64_encode sig" by (simp_all add: stamped_def)
  moreover have "Canonicalize ?out = Inr c" using c stamped_unsigned(1) [of a "''k1''" "b64_encode sig"] by simp
  ultimately have v: "VerifySignature toy_circl ?out (Some ?src) = Inr TrustSelf"
    unfolding VerifySignature_lemma using val' sig b64_decode_encode [of sig] b64_encode_no_break [of sig]
    by (auto simp: verifyMLDSA65_def)
  have "case bi_Previous (example_build es) of None \<Rightarrow> True
      | Some p \<Rightarrow> is_hex128 (an_ChainHash p) \<and> an_ChainHash p \<noteq> SeedAnchorHash \<and> an_AnchorID p \<noteq> SeedAnchorID"
    by (simp add: prev)
  from built_anchor_verifies [OF a(2) this refl v]
  have t: "case VerifyAnchor toy_circl ?out es SeedAnchorHash (Some ?src) of
      (r, err) \<Rightarrow> err = None \<and> br_Outcome r = BindOK \<and> br_SignatureVerified r \<and> br_Trust r = TrustSelf"
    unfolding prev predecessor_hash_def option.case .
  show ?thesis by (intro exI conjI) (rule a(1), rule a(2), rule t)
qed

end
