(* ===== verification/Json_Parse.thy ===== *)
theory Json_Parse
  imports Go_Json
begin

section \<open>Reading JSON: \<open>json.Unmarshal\<close> and \<open>json.Decoder\<close>\<close>

text \<open>
  The reader of \<open>encoding/json\<close>: white space, the grammar of numbers, strings with their escapes,
  nesting of at most 10000 brackets, and the decoded tree with the members of an object in order.
  The recursion is on fuel; \<open>parse\<close> gives it more than twice the length of its input, two calls at
  most pass without using a character, and so the fuel is never what stops it (\<open>read_fuel\<close>).

  What is shown: the text the encoder writes for a tree is read back as that tree, its strings
  cleaned of bytes that are not UTF-8.
\<close>

subsection \<open>Numbers\<close>

definition drop_digits :: "string \<Rightarrow> string" where
  "drop_digits s = dropWhile is_digit s"

definition eat_frac :: "string \<Rightarrow> string" where
  "eat_frac s =
     (case s of d # e # t \<Rightarrow> if d = CHR ''.'' \<and> is_digit e then drop_digits t else s | _ \<Rightarrow> s)"

definition starts_digit :: "string \<Rightarrow> bool" where
  "starts_digit s = (case s of [] \<Rightarrow> False | c # _ \<Rightarrow> is_digit c)"

definition eat_exp :: "string \<Rightarrow> string" where
  "eat_exp s =
     (case s of
        d # e # t \<Rightarrow>
          if d = CHR ''e'' \<or> d = CHR ''E'' then
            (if e = CHR ''+'' \<or> e = CHR ''-'' then (if starts_digit t then drop_digits t else s)
             else if is_digit e then drop_digits t else s)
          else s
      | _ \<Rightarrow> s)"

text \<open>What follows the number at the front of a string.\<close>

definition number_rest :: "string \<Rightarrow> string option" where
  "number_rest s =
     (case (if s \<noteq> [] \<and> hd s = CHR ''-'' then tl s else s) of
        [] \<Rightarrow> None
      | c # r \<Rightarrow>
          if is_digit c then Some (eat_exp (eat_frac (if c = CHR ''0'' then r else drop_digits r))) else None)"

text \<open>\<open>isValidNumber\<close>, for \<open>json.Number\<close>s.\<close>

definition valid_number :: "string \<Rightarrow> bool" where
  "valid_number s \<longleftrightarrow> number_rest s = Some []"

subsection \<open>Values\<close>

definition skip_ws :: "string \<Rightarrow> string" where
  "skip_ws s = dropWhile (\<lambda>c. c \<in> {CHR '' '', CHR 0x09, CHR 0x0A, CHR 0x0D}) s"

definition max_nesting :: nat where "max_nesting = 10000"

fun read_value :: "nat \<Rightarrow> nat \<Rightarrow> string \<Rightarrow> (json \<times> string) option"
  and read_items :: "nat \<Rightarrow> nat \<Rightarrow> string \<Rightarrow> (json list \<times> string) option"
  and read_members :: "nat \<Rightarrow> nat \<Rightarrow> string \<Rightarrow> ((string \<times> json) list \<times> string) option" where
  "read_value 0 d s = None"
| "read_value (Suc n) d s =
     (case skip_ws s of
        [] \<Rightarrow> None
      | c # r \<Rightarrow>
          if c = CHR 0x22 then map_option (\<lambda>(t, r'). (JStr t, r')) (read_string r)
          else if c = CHR ''['' then
            (if max_nesting \<le> d then None
             else if has_prefix '']'' (skip_ws r) then Some (JArr [], tl (skip_ws r))
             else map_option (\<lambda>(xs, r'). (JArr xs, r')) (read_items n (Suc d) r))
          else if c = CHR ''{'' then
            (if max_nesting \<le> d then None
             else if has_prefix ''}'' (skip_ws r) then Some (JObj [], tl (skip_ws r))
             else map_option (\<lambda>(ms, r'). (JObj ms, r')) (read_members n (Suc d) r))
          else if has_prefix ''null'' (c # r) then Some (JNull, drop 4 (c # r))
          else if has_prefix ''true'' (c # r) then Some (JBool True, drop 4 (c # r))
          else if has_prefix ''false'' (c # r) then Some (JBool False, drop 5 (c # r))
          else map_option (\<lambda>r'. (JNum (take (length (c # r) - length r') (c # r)), r')) (number_rest (c # r)))"
| "read_items 0 d s = None"
| "read_items (Suc n) d s =
     (case read_value n d s of
        None \<Rightarrow> None
      | Some (x, r) \<Rightarrow>
          (case skip_ws r of
             [] \<Rightarrow> None
           | c # r' \<Rightarrow>
               if c = CHR '','' then map_option (\<lambda>(xs, r). (x # xs, r)) (read_items n d r')
               else if c = CHR '']'' then Some ([x], r')
               else None))"
| "read_members 0 d s = None"
| "read_members (Suc n) d s =
     (if \<not> has_prefix [CHR 0x22] (skip_ws s) then None
      else case read_string (tl (skip_ws s)) of
        None \<Rightarrow> None
      | Some (k, r) \<Rightarrow>
          if \<not> has_prefix '':'' (skip_ws r) then None
          else case read_value n d (tl (skip_ws r)) of
            None \<Rightarrow> None
          | Some (x, r) \<Rightarrow>
              (case skip_ws r of
                 [] \<Rightarrow> None
               | c # r' \<Rightarrow>
                   if c = CHR '','' then map_option (\<lambda>(ms, r). ((k, x) # ms, r)) (read_members n d r')
                   else if c = CHR ''}'' then Some ([(k, x)], r')
                   else None))"

text \<open>A whole input: one value with white space around it.\<close>

definition parse :: "string \<Rightarrow> json option" where
  "parse s =
     (case read_value (Suc (2 * length s)) 0 s of
        Some (v, r) \<Rightarrow> if skip_ws r = [] then Some v else None
      | None \<Rightarrow> None)"

text \<open>Decoding into an \<open>any\<close>: an object becomes a map, and the last of several members with one name
  stays.\<close>

fun last_wins :: "('k \<times> 'v) list \<Rightarrow> ('k \<times> 'v) list" where
  "last_wins [] = []"
| "last_wins ((k, v) # ms) = (if k \<in> fst ` set ms then last_wins ms else (k, v) # last_wins ms)"

fun collapse :: "json \<Rightarrow> json" where
  "collapse (JArr xs) = JArr (map collapse xs)"
| "collapse (JObj ms) = JObj (last_wins (map (\<lambda>(k, v). (k, collapse v)) ms))"
| "collapse v = v"

subsection \<open>Facts about numbers\<close>

lemma drop_digits_chars: "list_all number_char (drop_digits s) \<Longrightarrow> list_all number_char s"
  unfolding drop_digits_def by (induction s) (auto simp: number_char_def split: if_splits)

lemma eat_frac_chars: "list_all number_char (eat_frac s) \<Longrightarrow> list_all number_char s"
  by (auto simp: eat_frac_def number_char_def [of "CHR ''.''"] dest: drop_digits_chars split: list.splits if_splits)
     (simp add: number_char_def)

lemma is_digit_number_char: "is_digit c \<Longrightarrow> number_char c"
  by (simp add: number_char_def)

lemma eat_exp_chars: "eat_exp s = [] \<Longrightarrow> list_all number_char s"
  using drop_digits_chars [of "tl (tl s)"]
  by (auto simp: eat_exp_def is_digit_number_char number_char_def [of "CHR ''e''"] number_char_def [of "CHR ''E''"]
      number_char_def [of "CHR ''+''"] number_char_def [of "CHR ''-''"] split: list.splits if_splits)

lemma valid_number_text:
  assumes "valid_number s"
  shows "number_text s"
proof -
  obtain c r where t: "(if s \<noteq> [] \<and> hd s = CHR ''-'' then tl s else s) = c # r" and c: "is_digit c"
    and e: "eat_exp (eat_frac (if c = CHR ''0'' then r else drop_digits r)) = []"
    using assms unfolding valid_number_def number_rest_def by (auto split: list.splits if_split_asm)
  from t have cr: "s = c # r \<or> s = CHR ''-'' # c # r" by (cases s) (simp_all split: if_splits)
  from e have "list_all number_char r"
    by (auto dest!: eat_exp_chars eat_frac_chars split: if_splits intro: drop_digits_chars)
  moreover have "number_char c" and "number_char (CHR ''-'')" using c by (simp_all add: number_char_def)
  ultimately show ?thesis using cr by (auto simp: number_text_def)
qed


lemma drop_digits_all: "list_all is_digit s \<Longrightarrow> drop_digits s = []"
  unfolding drop_digits_def by (induction s) simp_all

lemma hd_dec_nat_zero: "0 < n \<Longrightarrow> hd (dec_nat n) \<noteq> CHR ''0''"
proof (induction n rule: dec_nat.induct)
  case (1 n)
  show ?case
  proof (cases "n < 10")
    case True
    have "dec_digit n \<noteq> CHR ''0''" using of_char_dec_digit [OF True] 1(2) by auto
    with True show ?thesis by (simp add: dec_nat.simps [of n])
  next
    case False
    with 1(1) show ?thesis by (simp add: dec_nat.simps [of n])
  qed
qed

lemma valid_number_dec_nat: "number_rest (dec_nat n) = Some []"
proof -
  obtain c r where cr: "dec_nat n = c # r" by (cases "dec_nat n") auto
  then have "is_digit c" "list_all is_digit r" using digits_dec_nat [of n] by simp_all
  moreover have "c = CHR ''0'' \<Longrightarrow> r = []"
    using hd_dec_nat_zero [of n] cr by (cases "n = 0") (auto simp: dec_nat.simps [of 0])
  ultimately show ?thesis using cr hd_dec_nat_not_sign(1) [of n]
    by (auto simp: number_rest_def drop_digits_all eat_frac_def eat_exp_def)
qed

lemma valid_number_fmt_int [simp]: "valid_number (fmt_int i)"
proof (cases "i < 0")
  case False
  then show ?thesis using valid_number_dec_nat by (simp add: valid_number_def fmt_int_def)
next
  case True
  have "number_rest (CHR ''-'' # dec_nat (nat (- i))) = number_rest (dec_nat (nat (- i)))"
    using hd_dec_nat_not_sign(1) [of "nat (- i)"] by (simp add: number_rest_def)
  with True show ?thesis using valid_number_dec_nat by (simp add: valid_number_def fmt_int_def)
qed

text \<open>What follows a number does not change what is read, when it could not lengthen it.\<close>

lemma drop_digits_append: "value_end r \<Longrightarrow> drop_digits (x @ r) = drop_digits x @ r"
  unfolding drop_digits_def
  by (induction x) (auto simp: value_end_def is_digit_number_char split: list.splits)

lemma starts_digit_append: "value_end r \<Longrightarrow> starts_digit (x @ r) = starts_digit x"
  by (cases x) (auto simp: starts_digit_def value_end_def is_digit_number_char split: list.splits)

lemma eat_frac_append:
  assumes "value_end r"
  shows "eat_frac (x @ r) = eat_frac x @ r"
proof (cases x)
  case Nil
  then show ?thesis using assms by (auto simp: eat_frac_def value_end_def number_char_def split: list.splits)
next
  case (Cons d y)
  then show ?thesis using assms drop_digits_append [OF assms, of "tl y"]
    by (cases y) (auto simp: eat_frac_def value_end_def is_digit_number_char split: list.splits)
qed

lemma eat_exp_append:
  assumes "value_end r"
  shows "eat_exp (x @ r) = eat_exp x @ r"
proof (cases x)
  case Nil
  then show ?thesis using assms by (auto simp: eat_exp_def value_end_def number_char_def split: list.splits)
next
  case (Cons d y)
  then show ?thesis using assms drop_digits_append [OF assms, of "tl y"] starts_digit_append [OF assms, of "tl y"]
    by (cases y) (auto simp: eat_exp_def value_end_def number_char_def is_digit_number_char split: list.splits)
qed

lemma number_rest_append:
  assumes "value_end r" "valid_number n"
  shows "number_rest (n @ r) = Some r"
proof -
  obtain c y where t: "(if n \<noteq> [] \<and> hd n = CHR ''-'' then tl n else n) = c # y" and c: "is_digit c"
    and e: "eat_exp (eat_frac (if c = CHR ''0'' then y else drop_digits y)) = []"
    using assms(2) unfolding valid_number_def number_rest_def by (auto split: list.splits if_split_asm)
  have "eat_exp (eat_frac (if c = CHR ''0'' then y @ r else drop_digits (y @ r))) = r"
    using e by (simp add: drop_digits_append eat_frac_append eat_exp_append assms(1) split: if_splits)
  moreover have "(if n @ r \<noteq> [] \<and> hd (n @ r) = CHR ''-'' then tl (n @ r) else n @ r) = c # y @ r"
    using t by (cases n) (auto split: if_splits)
  ultimately show ?thesis using c by (simp add: number_rest_def)
qed

lemma valid_number_hd: "valid_number n \<Longrightarrow> \<exists>c m. n = c # m \<and> (is_digit c \<or> c = CHR ''-'')"
  by (cases n) (auto simp: valid_number_def number_rest_def split: if_splits list.splits)

subsection \<open>The fuel\<close>

lemma length_skip_ws: "length (skip_ws s) \<le> length s"
  by (simp add: skip_ws_def length_dropWhile_le)

lemma read_string_shorter: "read_string s = Some (x, r) \<Longrightarrow> length r < length s"
proof (induction s arbitrary: x rule: measure_induct_rule [where f = length])
  case (less s)
  have rest: "length r < length s" if "cons_fst w (read_string t) = Some (x, r)" "length t < length s" for w t
    using that less.IH [of t] by (auto simp: cons_fst_def)
  show ?case
  proof (cases s)
    case Nil
    with less.prems show ?thesis by simp
  next
    case (Cons c t)
    with less.prems rest show ?thesis
      by (auto simp: read_string.simps(2) Let_def less_Suc_eq_le split: if_splits list.splits option.splits)
  qed
qed

lemma drop_digits_le: "length (drop_digits s) \<le> length s"
  by (simp add: drop_digits_def length_dropWhile_le)

lemma eat_le: "length (eat_frac s) \<le> length s" "length (eat_exp s) \<le> length s"
  using drop_digits_le [of "tl (tl s)"]
  by (auto simp: eat_frac_def eat_exp_def split: list.splits)

lemma number_rest_shorter:
  assumes "number_rest s = Some r"
  shows "length r < length s"
proof -
  obtain c y where t: "(if s \<noteq> [] \<and> hd s = CHR ''-'' then tl s else s) = c # y"
    and r: "r = eat_exp (eat_frac (if c = CHR ''0'' then y else drop_digits y))"
    using assms unfolding number_rest_def by (auto split: list.splits if_split_asm)
  have "length r \<le> length y" unfolding r
    using eat_le(2) eat_le(1) drop_digits_le [of y] by (metis (full_types) le_trans)
  moreover have "length y < length s" using t by (cases s) (auto split: if_splits)
  ultimately show ?thesis by simp
qed

lemma read_shorter:
  "read_value n d s = Some (v, r) \<Longrightarrow> length r < length s"
  "read_items n d s = Some (xs, r) \<Longrightarrow> length r < length s"
  "read_members n d s = Some (ms, r) \<Longrightarrow> length r < length s"
proof (induction n d s and n d s and n d s arbitrary: v r and xs r and ms r rule: read_value_read_items_read_members.induct)
  case (2 n d s)
  have w: "length (skip_ws t) \<le> length t" for t by (rule length_skip_ws)
  obtain c t where ct: "skip_ws s = c # t" using "2.prems" by (cases "skip_ws s") simp_all
  then have t: "length t < length s" using w [of s] by simp
  show ?case using "2.prems" "2.IH" [OF ct] ct t w [of t]
    by (auto split: if_splits dest!: read_string_shorter number_rest_shorter)
next
  case (4 n d s)
  then obtain x t where x: "read_value n d s = Some (x, t)" by (cases "read_value n d s") auto
  with 4 obtain c u where u: "skip_ws t = c # u" by (cases "skip_ws t") auto
  have "length t < length s" by (rule "4.IH"(1) [OF x])
  moreover have "length u < length t" using u length_skip_ws [of t] by simp
  moreover have "length r < length u" if "read_items n d u = Some (ys, r)" "c = CHR '',''" for ys
    using "4.IH"(2) [OF x _ u that(2,1)] by simp
  ultimately show ?case using "4.prems" x u by (auto split: if_splits)
next
  case (6 n d s)
  let ?s = "tl (skip_ws s)"
  from "6.prems" have q: "has_prefix [CHR 0x22] (skip_ws s)" by (simp split: if_splits)
  from "6.prems" q obtain k t where k: "read_string ?s = Some (k, t)" by (cases "read_string ?s") auto
  let ?t = "tl (skip_ws t)"
  from "6.prems" q k have p: "has_prefix '':'' (skip_ws t)" by (simp split: if_splits)
  from "6.prems" q k p obtain x u where x: "read_value n d ?t = Some (x, u)" by (cases "read_value n d ?t") auto
  from "6.prems" q k p x obtain c w where w: "skip_ws u = c # w" by (cases "skip_ws u") auto
  have tl: "length (tl (skip_ws z)) \<le> length z" for z using length_skip_ws [of z] by simp
  have "length t < length ?s" by (rule read_string_shorter [OF k])
  moreover have "length u < length ?t" using "6.IH"(1) q k p x by simp
  moreover have "length w < length u" using w length_skip_ws [of u] by simp
  moreover have "length r < length w" if "read_members n d w = Some (ys, r)" "c = CHR '',''" for ys
    using "6.IH"(2) q k p x w that by simp
  ultimately show ?case using "6.prems" q k p x w tl [of s] tl [of t] by (auto split: if_splits)
qed simp_all

text \<open>More fuel than twice the number of characters changes nothing.\<close>

lemma read_fuel:
  "2 * length s < n \<Longrightarrow> 2 * length s < m \<Longrightarrow> read_value n d s = read_value m d s"
  "2 * length s + 1 < n \<Longrightarrow> 2 * length s + 1 < m \<Longrightarrow> read_items n d s = read_items m d s"
  "2 * length s + 1 < n \<Longrightarrow> 2 * length s + 1 < m \<Longrightarrow> read_members n d s = read_members m d s"
proof (induction n arbitrary: m d s)
  case (Suc n)
  note len = length_skip_ws
  {
    case 1
    then obtain k where m: "m = Suc k" by (cases m) auto
    have "read_items n (Suc d) r = read_items k (Suc d) r" "read_members n (Suc d) r = read_members k (Suc d) r"
      if "skip_ws s = c # r" for c r
      using Suc.IH(2,3) [of r k "Suc d"] 1 m len [of s] that by simp_all
    then show ?case unfolding m by (auto split: list.splits)
  next
    case 2
    then obtain k where m: "m = Suc k" by (cases m) auto
    have "read_value n d s = read_value k d s" using Suc.IH(1) [of s k d] 2 m by simp
    moreover have "read_items n d u = read_items k d u"
      if "read_value k d s = Some (x, t)" "skip_ws t = c # u" for x t c u
      using Suc.IH(2) [of u k d] read_shorter(1) [OF that(1)] len [of t] that(2) 2 m by simp
    ultimately show ?case unfolding m by (auto split: option.splits list.splits)
  next
    case 3
    then obtain k where m: "m = Suc k" by (cases m) auto
    have tl: "length (tl (skip_ws z)) \<le> length z" for z using len [of z] by simp
    have val: "read_value n d (tl (skip_ws t)) = read_value k d (tl (skip_ws t))"
      if "read_string (tl (skip_ws s)) = Some (y, t)" for y t
      using Suc.IH(1) [of "tl (skip_ws t)" k d] read_string_shorter [OF that] tl [of s] tl [of t] 3 m by simp
    have mem: "read_members n d u = read_members k d u"
      if "read_string (tl (skip_ws s)) = Some (y, t)" "read_value k d (tl (skip_ws t)) = Some (x, w)"
        "skip_ws w = c # u" for x y t w c u
      using Suc.IH(3) [of u k d] read_string_shorter [OF that(1)] read_shorter(1) [OF that(2)] tl [of s] tl [of t]
        len [of w] that(3) 3 m by simp
    show ?case unfolding m
      by (auto simp: val dest: mem split: option.splits list.splits)
  }
qed simp_all

subsection \<open>Reading what the encoder wrote\<close>

fun cleaned :: "json \<Rightarrow> json" where
  "cleaned (JStr s) = JStr (clean s)"
| "cleaned (JArr xs) = JArr (map cleaned xs)"
| "cleaned (JObj ms) = JObj (map (\<lambda>(k, v). (clean k, cleaned v)) ms)"
| "cleaned v = v"

fun numbers_valid :: "json \<Rightarrow> bool" where
  "numbers_valid (JNum n) = valid_number n"
| "numbers_valid (JArr xs) = list_all numbers_valid xs"
| "numbers_valid (JObj ms) = list_all (\<lambda>(k, v). numbers_valid v) ms"
| "numbers_valid v = True"

fun nesting :: "json \<Rightarrow> nat" where
  "nesting (JArr xs) = Suc (fold max (map nesting xs) 0)"
| "nesting (JObj ms) = Suc (fold max (map (\<lambda>(k, v). nesting v) ms) 0)"
| "nesting v = 0"

lemma fold_max_le: "fold max xs a \<le> (n::nat) \<longleftrightarrow> a \<le> n \<and> (\<forall>x \<in> set xs. x \<le> n)"
  by (induction xs arbitrary: a) auto

lemma add_fold_max_le: "d + fold max xs 0 \<le> (n::nat) \<longleftrightarrow> d \<le> n \<and> (\<forall>x \<in> set xs. d + x \<le> n)"
proof -
  have "d + m \<le> n \<longleftrightarrow> d \<le> n \<and> m \<le> n - d" for m :: nat by auto
  then show ?thesis by (auto simp: fold_max_le)
qed

definition ws :: "char \<Rightarrow> bool" where
  "ws c \<longleftrightarrow> c \<in> {CHR '' '', CHR 0x09, CHR 0x0A, CHR 0x0D}"

lemma skip_ws_Cons [simp]: "\<not> ws c \<Longrightarrow> skip_ws (c # r) = c # r"
  by (simp add: skip_ws_def ws_def)

lemma ws_simps [simp]:
  "\<not> ws (CHR '','')" "\<not> ws (CHR '']'')" "\<not> ws (CHR ''}'')" "\<not> ws (CHR 0x22)" "\<not> ws (CHR '':'')"
  "\<not> ws (CHR ''['')" "\<not> ws (CHR ''{'')"
  by (simp_all add: ws_def)

lemma commas_simps [simp]:
  "commas [] = []" "commas [x] = x" "commas (x # y # ys) = x @ CHR '','' # commas (y # ys)"
  by (simp_all add: commas_def)

lemma text_hd:
  assumes "numbers_valid v"
  obtains c t where "json_text html v = c # t" "\<not> ws c" "c \<noteq> CHR '']''" "c \<noteq> CHR ''}''"
proof (cases v)
  case (JNum n)
  with assms obtain c m where "n = c # m" "is_digit c \<or> c = CHR ''-''" using valid_number_hd [of n] by auto
  with JNum show ?thesis by (intro that [of c m]) (auto simp: ws_def is_digit_def)
next
  case (JBool b)
  then show ?thesis using that by (cases b) (simp_all add: ws_def)
qed (use that in \<open>simp_all add: json_string_def ws_def\<close>)

lemma read_items_text:
  assumes "\<And>x n r. x \<in> set xs \<Longrightarrow> value_end r \<Longrightarrow> length (f x) < n \<Longrightarrow> read_value n d (f x @ r) = Some (g x, r)"
    and "xs \<noteq> []" and "Suc (length (commas (map f xs))) < n"
  shows "read_items n d (commas (map f xs) @ CHR '']'' # r) = Some (map g xs, r)"
  using assms
proof (induction xs arbitrary: n)
  case (Cons x xs)
  obtain m where n: "n = Suc m" using Cons.prems(3) by (cases n) auto
  show ?case
  proof (cases xs)
    case Nil
    then show ?thesis using Cons.prems(1) [of x "CHR '']'' # r" m] Cons.prems(3) n by simp
  next
    case (Cons y ys)
    let ?rest = "commas (map f xs) @ CHR '']'' # r"
    have "read_value m d (f x @ CHR '','' # ?rest) = Some (g x, CHR '','' # ?rest)"
      using Cons.prems(1) [of x "CHR '','' # ?rest" m] Cons.prems(3) n Cons by simp
    moreover have "read_items m d ?rest = Some (map g xs, r)"
      using Cons.IH [of m] Cons.prems n Cons by simp
    ultimately show ?thesis using n Cons by simp
  qed
qed simp

lemma read_members_text:
  assumes "\<And>k x n r. (k, x) \<in> set ms \<Longrightarrow> value_end r \<Longrightarrow> length (json_text html x) < n \<Longrightarrow>
      read_value n d (json_text html x @ r) = Some (g x, r)"
    and "\<And>k x. (k, x) \<in> set ms \<Longrightarrow> numbers_valid x"
    and "ms \<noteq> []" and "Suc (length (commas (map (member_text html) ms))) < n"
  shows "read_members n d (commas (map (member_text html) ms) @ CHR ''}'' # r) = Some (map (\<lambda>(k, x). (clean k, g x)) ms, r)"
  using assms
proof (induction ms arbitrary: n)
  case (Cons m ms)
  obtain k x where m: "m = (k, x)" by (cases m)
  obtain l where n: "n = Suc l" using Cons.prems(4) by (cases n) auto
  show ?case
  proof (cases ms)
    case Nil
    have "read_value l d (json_text html x @ CHR ''}'' # r) = Some (g x, CHR ''}'' # r)"
      using Cons.prems(1) [of k x "CHR ''}'' # r" l] Cons.prems(4) n m Nil by (simp add: member_text_def json_string_def)
    then show ?thesis using n m Nil
      by (simp add: member_text_def json_string_def read_string_chars has_prefix_def)
  next
    case (Cons y ys)
    let ?rest = "commas (map (member_text html) ms) @ CHR ''}'' # r"
    have "read_value l d (json_text html x @ CHR '','' # ?rest) = Some (g x, CHR '','' # ?rest)"
      using Cons.prems(1) [of k x "CHR '','' # ?rest" l] Cons.prems(4) n m Cons by (simp add: member_text_def json_string_def)
    moreover have "read_members l d ?rest = Some (map (\<lambda>(k, x). (clean k, g x)) ms, r)"
    proof (rule Cons.IH)
      show "Suc (length (commas (map (member_text html) ms))) < l" using Cons.prems(4) n Cons by simp
      show "ms \<noteq> []" using Cons by simp
    qed (use Cons.prems(1,2) in \<open>meson list.set_intros(2)\<close>)+
    moreover have "commas (map (member_text html) (m # ms)) @ CHR ''}'' # r =
        CHR 0x22 # json_chars html k @ CHR 0x22 # CHR '':'' # json_text html x @ CHR '','' # ?rest"
      using m Cons by (simp add: member_text_def json_string_def)
    ultimately show ?thesis using n m by (simp add: read_string_chars has_prefix_def del: list.map) simp
  qed
qed simp

text \<open>With fuel for the length of the text, the reader returns the tree and what follows.\<close>

lemma read_text:
  "numbers_valid v \<Longrightarrow> d + nesting v \<le> max_nesting \<Longrightarrow> length (json_text html v) < n \<Longrightarrow> value_end r \<Longrightarrow>
     read_value n d (json_text html v @ r) = Some (cleaned v, r)"
proof (induction v arbitrary: d n r)
  case (JArr xs)
  obtain m where n: "n = Suc m" using JArr.prems(3) by (cases n) auto
  show ?case
  proof (cases "xs = []")
    case True
    then show ?thesis using JArr.prems n by (simp add: has_prefix_def)
  next
    case False
    have d: "d < max_nesting" and each: "\<forall>x \<in> set xs. Suc d + nesting x \<le> max_nesting"
      using JArr.prems(2) add_fold_max_le [of "Suc d" "map nesting xs" max_nesting] by auto
    have "read_items m (Suc d) (commas (map (json_text html) xs) @ CHR '']'' # r) = Some (map cleaned xs, r)"
    proof (rule read_items_text [OF _ False])
      show "Suc (length (commas (map (json_text html) xs))) < m" using JArr.prems(3) n by simp
    qed (use JArr.IH JArr.prems(1) each in \<open>auto simp: list_all_iff\<close>)
    moreover obtain c t where "commas (map (json_text html) xs) @ CHR '']'' # r = c # t" "\<not> ws c" "c \<noteq> CHR '']''"
    proof -
      obtain x ys where xs: "xs = x # ys" using False by (cases xs) auto
      have "numbers_valid x" using JArr.prems(1) xs by simp
      then obtain c t where "json_text html x = c # t" "\<not> ws c" "c \<noteq> CHR '']''" by (rule text_hd)
      with xs that [of c] show ?thesis by (cases ys) simp_all
    qed
    ultimately show ?thesis using n d by (simp add: has_prefix_def)
  qed
next
  case (JObj ms)
  obtain m where n: "n = Suc m" using JObj.prems(3) by (cases n) auto
  show ?case
  proof (cases "ms = []")
    case True
    then show ?thesis using JObj.prems n by (simp add: has_prefix_def)
  next
    case False
    have d: "d < max_nesting" and each: "\<forall>x \<in> set ms. Suc d + nesting (snd x) \<le> max_nesting"
      using JObj.prems(2) add_fold_max_le [of "Suc d" "map (\<lambda>(k, v). nesting v) ms" max_nesting]
      by (auto simp: case_prod_unfold)
    have "read_members m (Suc d) (commas (map (member_text html) ms) @ CHR ''}'' # r)
        = Some (map (\<lambda>(k, x). (clean k, cleaned x)) ms, r)"
    proof (rule read_members_text [OF _ _ False])
      show "Suc (length (commas (map (member_text html) ms))) < m" using JObj.prems(3) n unfolding json_text_JObj by simp
      fix k x assume kx: "(k, x) \<in> set ms"
      then show nv: "numbers_valid x" using JObj.prems(1) by (auto simp: list_all_iff)
      fix l s assume "value_end s" "length (json_text html x) < l"
      then show "read_value l (Suc d) (json_text html x @ s) = Some (cleaned x, s)"
        using JObj.IH [of "(k, x)" x "Suc d" l s] kx nv each by (auto simp: snds.simps)
    qed
    moreover obtain t where "commas (map (member_text html) ms) = CHR 0x22 # t"
      using False by (cases ms; cases "tl ms") (auto simp: member_text_def json_string_def)
    ultimately show ?thesis using n d unfolding json_text_JObj by (simp add: has_prefix_def)
  qed
next
  case (JNum s)
  obtain m where n: "n = Suc m" using JNum.prems(3) by (cases n) auto
  obtain c t where ct: "s = c # t" "is_digit c \<or> c = CHR ''-''" using valid_number_hd [of s] JNum.prems(1) by auto
  then have "\<not> ws c" "c \<noteq> CHR 0x22" "c \<noteq> CHR ''[''" "c \<noteq> CHR ''{''" "c \<noteq> CHR ''n''" "c \<noteq> CHR ''t''" "c \<noteq> CHR ''f''"
    by (auto simp: ws_def is_digit_def)
  moreover have "number_rest (c # t @ r) = Some r" using number_rest_append [OF JNum.prems(4), of s] JNum.prems(1) ct by simp
  ultimately show ?case using n ct by (simp add: has_prefix_def)
next
  case (JStr s)
  then obtain m where n: "n = Suc m" by (cases n) auto
  then show ?case by (simp add: json_string_def read_string_chars)
next
  case JNull
  then obtain m where n: "n = Suc m" by (cases n) auto
  then show ?case by (simp add: has_prefix_def ws_def)
next
  case (JBool b)
  then obtain m where n: "n = Suc m" by (cases n) auto
  then show ?case by (cases b) (simp_all add: has_prefix_def ws_def)
qed

text \<open>Whatever fuel and depth it starts with, the reader returns nothing else for the text.\<close>

lemma read_items_only:
  assumes "\<And>x n r w r'. x \<in> set xs \<Longrightarrow> value_end r \<Longrightarrow> read_value n d (f x @ r) = Some (w, r') \<Longrightarrow> w = g x \<and> r' = r"
    and "xs \<noteq> []" and "read_items n d (commas (map f xs) @ CHR '']'' # r) = Some (res, r')"
  shows "res = map g xs \<and> r' = r"
  using assms
proof (induction xs arbitrary: n res)
  case (Cons x xs)
  obtain m where n: "n = Suc m" using Cons.prems(3) by (cases n) auto
  let ?tail = "if xs = [] then CHR '']'' # r else CHR '','' # commas (map f xs) @ CHR '']'' # r"
  have shape: "commas (map f (x # xs)) @ CHR '']'' # r = f x @ ?tail" by (cases xs) simp_all
  obtain w t where w: "read_value m d (f x @ ?tail) = Some (w, t)"
    using Cons.prems(3) unfolding n shape by (cases "read_value m d (f x @ ?tail)") auto
  with Cons.prems(1) [of x ?tail m w t] have wt: "w = g x" "t = ?tail" by auto
  show ?case
  proof (cases "xs = []")
    case True
    with Cons.prems(3) w wt show ?thesis unfolding n shape by simp
  next
    case False
    then obtain us where us: "read_items m d (commas (map f xs) @ CHR '']'' # r) = Some (us, r')" "res = g x # us"
      using Cons.prems(3) w wt unfolding n shape by auto
    have "us = map g xs \<and> r' = r"
      by (rule Cons.IH [OF _ False us(1)]) (use Cons.prems(1) in \<open>meson list.set_intros(2)\<close>)
    with us(2) show ?thesis by simp
  qed
qed simp

lemma read_members_only:
  assumes "\<And>k x n r w r'. (k, x) \<in> set ms \<Longrightarrow> value_end r \<Longrightarrow> read_value n d (json_text html x @ r) = Some (w, r') \<Longrightarrow> w = g x \<and> r' = r"
    and "ms \<noteq> []" and "read_members n d (commas (map (member_text html) ms) @ CHR ''}'' # r) = Some (res, r')"
  shows "res = map (\<lambda>(k, x). (clean k, g x)) ms \<and> r' = r"
  using assms
proof (induction ms arbitrary: n res)
  case (Cons m ms)
  obtain k x where m: "m = (k, x)" by (cases m)
  obtain l where n: "n = Suc l" using Cons.prems(3) by (cases n) auto
  let ?tail = "if ms = [] then CHR ''}'' # r else CHR '','' # commas (map (member_text html) ms) @ CHR ''}'' # r"
  have shape: "commas (map (member_text html) (m # ms)) @ CHR ''}'' # r
      = CHR 0x22 # json_chars html k @ CHR 0x22 # CHR '':'' # json_text html x @ ?tail"
    using m by (cases ms) (simp_all add: member_text_def json_string_def)
  obtain w t where w: "read_value l d (json_text html x @ ?tail) = Some (w, t)"
    using Cons.prems(3) unfolding n shape
    by (cases "read_value l d (json_text html x @ ?tail)") (auto simp: has_prefix_def read_string_chars)
  with Cons.prems(1) [of k x ?tail l w t] m have wt: "w = g x" "t = ?tail" by auto
  show ?case
  proof (cases "ms = []")
    case True
    with Cons.prems(3) w wt m show ?thesis unfolding n shape by (simp add: has_prefix_def read_string_chars)
  next
    case False
    then obtain us where us: "read_members l d (commas (map (member_text html) ms) @ CHR ''}'' # r) = Some (us, r')"
        "res = (clean k, g x) # us"
      using Cons.prems(3) w wt unfolding n shape by (auto simp: has_prefix_def read_string_chars)
    have "us = map (\<lambda>(k, x). (clean k, g x)) ms \<and> r' = r"
      by (rule Cons.IH [OF _ False us(1)]) (use Cons.prems(1) in \<open>meson list.set_intros(2)\<close>)
    with us m show ?thesis by simp
  qed
qed simp

lemma read_text_only:
  "numbers_valid v \<Longrightarrow> value_end r \<Longrightarrow> read_value n d (json_text html v @ r) = Some (w, r') \<Longrightarrow> w = cleaned v \<and> r' = r"
proof (induction v arbitrary: d n r w r')
  case (JArr xs)
  then obtain m where n: "n = Suc m" by (cases n) auto
  show ?case
  proof (cases "xs = []")
    case True
    then show ?thesis using JArr.prems n by (simp add: has_prefix_def split: if_splits)
  next
    case False
    obtain c t where "commas (map (json_text html) xs) @ CHR '']'' # r = c # t" "\<not> ws c" "c \<noteq> CHR '']''"
    proof -
      obtain x ys where xs: "xs = x # ys" using False by (cases xs) auto
      have "numbers_valid x" using JArr.prems(1) xs by simp
      then obtain c t where "json_text html x = c # t" "\<not> ws c" "c \<noteq> CHR '']''" by (rule text_hd)
      with xs that [of c] show ?thesis by (cases ys) simp_all
    qed
    then obtain us where us: "read_items m (Suc d) (commas (map (json_text html) xs) @ CHR '']'' # r) = Some (us, r')" "w = JArr us"
      using JArr.prems(3) n by (auto simp: has_prefix_def split: if_splits)
    have "us = map cleaned xs \<and> r' = r"
      by (rule read_items_only [OF _ False us(1)]) (use JArr.IH JArr.prems(1) in \<open>auto simp: list_all_iff\<close>)
    with us show ?thesis by simp
  qed
next
  case (JObj ms)
  then obtain m where n: "n = Suc m" by (cases n) auto
  show ?case
  proof (cases "ms = []")
    case True
    then show ?thesis using JObj.prems n by (simp add: has_prefix_def split: if_splits)
  next
    case False
    obtain t where "commas (map (member_text html) ms) = CHR 0x22 # t"
      using False by (cases ms; cases "tl ms") (auto simp: member_text_def json_string_def)
    then obtain us where us: "read_members m (Suc d) (commas (map (member_text html) ms) @ CHR ''}'' # r) = Some (us, r')" "w = JObj us"
      using JObj.prems(3) n unfolding json_text_JObj by (auto simp: has_prefix_def split: if_splits)
    have "us = map (\<lambda>(k, x). (clean k, cleaned x)) ms \<and> r' = r"
    proof (rule read_members_only [OF _ False us(1)])
      fix k x l s u s'
      assume "(k, x) \<in> set ms" "value_end s" "read_value l (Suc d) (json_text html x @ s) = Some (u, s')"
      then show "u = cleaned x \<and> s' = s"
        using JObj.IH [of "(k, x)" x s l "Suc d" u s'] JObj.prems(1) by (auto simp: snds.simps list_all_iff)
    qed
    with us show ?thesis by simp
  qed
next
  case (JNum s)
  then obtain m where n: "n = Suc m" by (cases n) auto
  obtain c t where ct: "s = c # t" "is_digit c \<or> c = CHR ''-''" using valid_number_hd [of s] JNum.prems(1) by auto
  then have "\<not> ws c" "c \<noteq> CHR 0x22" "c \<noteq> CHR ''[''" "c \<noteq> CHR ''{''" "c \<noteq> CHR ''n''" "c \<noteq> CHR ''t''" "c \<noteq> CHR ''f''"
    by (auto simp: ws_def is_digit_def)
  moreover have "number_rest (c # t @ r) = Some r" using number_rest_append [OF JNum.prems(2), of s] JNum.prems(1) ct by simp
  ultimately have "read_value n d (json_text html (JNum s) @ r) = Some (JNum s, r)" using n ct by (simp add: has_prefix_def)
  with JNum.prems(3) show ?case by simp
next
  case (JStr s)
  then obtain m where n: "n = Suc m" by (cases n) auto
  then show ?case using JStr.prems by (simp add: json_string_def read_string_chars)
next
  case JNull
  then obtain m where n: "n = Suc m" by (cases n) auto
  then show ?case using JNull.prems by (simp add: has_prefix_def ws_def)
next
  case (JBool b)
  then obtain m where n: "n = Suc m" by (cases n) auto
  then show ?case using JBool.prems by (cases b) (auto simp: has_prefix_def ws_def)
qed

lemma parse_text_only: "numbers_valid v \<Longrightarrow> parse (json_text html v) = Some w \<Longrightarrow> w = cleaned v"
  using read_text_only [of v "[]" "Suc (2 * length (json_text html v))" 0 html]
  by (auto simp: parse_def split: option.splits if_splits)

lemma parse_text:
  assumes "numbers_valid v" "nesting v \<le> max_nesting"
  shows "parse (json_text html v) = Some (cleaned v)"
  using read_text [of v 0 html "Suc (2 * length (json_text html v))" "[]"] assms
  by (simp add: parse_def skip_ws_def)

end
