(* ===== verification/Store_Json.thy ===== *)
theory Store_Json
  imports Json_Parse Store_Types
begin

section \<open>Structs in JSON, and the rows of a store\<close>

text \<open>
  \<open>json.Unmarshal\<close> into a struct: a member is matched to a field by its name, or else by its name
  with case folded; a value of the wrong type is an error; \<open>null\<close> leaves a field alone; of several
  members for one field the last one stays. A time is read from the string after its escapes (the
  encoder writes none in a time).

  Then \<open>store.Entry\<close> and \<open>store.State\<close> as the bolt store keeps them, and their round trips.
\<close>

subsection \<open>Decoding into a struct\<close>

text \<open>Case folding of names: ASCII letters, and the two other characters that fold to ASCII.\<close>

definition upper :: "char \<Rightarrow> char" where
  "upper c = (if CHR ''a'' \<le> c \<and> c \<le> CHR ''z'' then char_of (of_char c - (32 :: nat)) else c)"

function fold_name :: "string \<Rightarrow> string" where
  "fold_name [] = []"
| "fold_name (c # r) =
     (if has_prefix [CHR 0xC5, CHR 0xBF] (c # r) then CHR ''S'' # fold_name (drop 1 r)
      else if has_prefix [CHR 0xE2, CHR 0x84, CHR 0xAA] (c # r) then CHR ''K'' # fold_name (drop 2 r)
      else upper c # fold_name r)"
  by pat_completeness auto
termination
  by (relation "measure length") auto

declare fold_name.simps(2) [simp del]

definition field_of :: "string list \<Rightarrow> string \<Rightarrow> string option" where
  "field_of names k =
     (if k \<in> set names then Some k else find (\<lambda>n. fold_name n = fold_name k) names)"

type_synonym 'a setter = "json \<Rightarrow> 'a \<Rightarrow> 'a option"

fun set_members :: "(string \<times> 'a setter) list \<Rightarrow> (string \<times> json) list \<Rightarrow> 'a \<Rightarrow> 'a option" where
  "set_members fs [] x = Some x"
| "set_members fs ((k, v) # ms) x =
     (case Option.bind (field_of (map fst fs) k) (map_of fs) of
        None \<Rightarrow> set_members fs ms x
      | Some f \<Rightarrow> (case f v x of None \<Rightarrow> None | Some y \<Rightarrow> set_members fs ms y))"

definition decode_struct :: "(string \<times> 'a setter) list \<Rightarrow> json \<Rightarrow> 'a \<Rightarrow> 'a option" where
  "decode_struct fs j x =
     (case j of JObj ms \<Rightarrow> set_members fs ms x | JNull \<Rightarrow> Some x | _ \<Rightarrow> None)"

definition unmarshal :: "(string \<times> 'a setter) list \<Rightarrow> 'a \<Rightarrow> string \<Rightarrow> 'a option" where
  "unmarshal fs x s = (case parse s of None \<Rightarrow> None | Some j \<Rightarrow> decode_struct fs j x)"

definition set_string :: "(string \<Rightarrow> 'a \<Rightarrow> 'a) \<Rightarrow> 'a setter" where
  "set_string f j x = (case j of JStr s \<Rightarrow> Some (f s x) | JNull \<Rightarrow> Some x | _ \<Rightarrow> None)"

definition set_int :: "(int \<Rightarrow> 'a \<Rightarrow> 'a) \<Rightarrow> 'a setter" where
  "set_int f j x =
     (case j of
        JNum n \<Rightarrow> (case parse_int64 n of None \<Rightarrow> None | Some i \<Rightarrow> Some (f i x))
      | JNull \<Rightarrow> Some x
      | _ \<Rightarrow> None)"

definition set_bool :: "(bool \<Rightarrow> 'a \<Rightarrow> 'a) \<Rightarrow> 'a setter" where
  "set_bool f j x = (case j of JBool b \<Rightarrow> Some (f b x) | JNull \<Rightarrow> Some x | _ \<Rightarrow> None)"

definition set_time :: "(gotime \<Rightarrow> 'a \<Rightarrow> 'a) \<Rightarrow> 'a setter" where
  "set_time f j x =
     (case j of
        JStr s \<Rightarrow> (case parse_rfc3339 s of None \<Rightarrow> None | Some t \<Rightarrow> Some (f t x))
      | JNull \<Rightarrow> Some x
      | _ \<Rightarrow> None)"

lemma setters_simps [simp]:
  "set_string f (JStr s) x = Some (f s x)"
  "int64 i \<Longrightarrow> set_int g (JNum (fmt_int i)) x = Some (g i x)"
  "set_bool h (JBool b) x = Some (h b x)"
  by (simp_all add: set_string_def set_int_def set_bool_def)

lemma set_members_exact:
  "k \<in> fst ` set fs \<Longrightarrow> map_of fs k = Some f \<Longrightarrow>
     set_members fs ((k, v) # ms) x = (case f v x of None \<Rightarrow> None | Some y \<Rightarrow> set_members fs ms y)"
  by (simp add: field_of_def)

subsection \<open>Times in JSON\<close>

text \<open>\<open>Time.MarshalJSON\<close> refuses a year that has not four digits.\<close>

definition json_time_ok :: "gotime \<Rightarrow> bool" where
  "json_time_ok t \<longleftrightarrow> 0 \<le> utc_year t \<and> utc_year t \<le> 9999"

lemma ascii_digit: "is_digit c \<Longrightarrow> of_char c < (0x80 :: nat)"
  by (simp add: is_digit_def less_eq_char_def)

lemma pad_dec_digits: "list_all is_digit (pad_dec w n)"
proof -
  have "is_digit (CHR ''0'')" by (simp add: is_digit_def)
  then show ?thesis by (auto simp: pad_dec_def list_all_iff dest: digit_not_in_dec_nat)
qed

lemma strip_zeros_set: "set (strip_zeros s) \<subseteq> set s"
  unfolding strip_zeros_def using set_dropWhileD by fastforce

lemma utf8_valid_format_nano: "utf8_valid (format_nano t)"
proof (rule utf8_valid_ascii)
  have d: "c \<in> set (pad_dec w n) \<Longrightarrow> byte_in 0 0x7F c" for c w n
    using pad_dec_digits [of w n] ascii_digit by (fastforce simp: list_all_iff byte_in_def)
  have s: "c \<in> set (strip_zeros (pad_dec w n)) \<Longrightarrow> byte_in 0 0x7F c" for c w n
    using strip_zeros_set d by blast
  show "list_all (byte_in 0 0x7F) (format_nano t)"
    by (cases "utc_date t"; cases "utc_clock t")
       (auto simp: format_nano_def date_time_text_def nano_fraction_def fmt_year_def list_all_iff byte_in_def
         dest: d [unfolded byte_in_def] s [unfolded byte_in_def])
qed

lemma set_time_format [simp]:
  "json_time_ok t \<Longrightarrow> wf_time t \<Longrightarrow> set_time f (JStr (format_nano t)) x = Some (f t x)"
  by (simp add: set_time_def json_time_ok_def parse_format_nano)

subsection \<open>Rows\<close>

definition entry_json :: "entry \<Rightarrow> json" where
  "entry_json e = JObj
     [(''ChainID'', JStr (ChainID e)), (''EntryID'', JStr (EntryID e)), (''EntryType'', JStr (EntryType e)),
      (''FormatVersion'', JInt (FormatVersion e)), (''GlobalSeq'', JInt (GlobalSeq e)), (''RunID'', JStr (RunID e)),
      (''SequenceNum'', JInt (SequenceNum e)), (''Timestamp'', JStr (format_nano (Timestamp e))),
      (''ContentHash'', JStr (ContentHash e)), (''PreviousHash'', JStr (PreviousHash e)), (''ChainHash'', JStr (ChainHash e))]"

definition entry_fields :: "(string \<times> entry setter) list" where
  "entry_fields =
     [(''ChainID'', set_string (\<lambda>s e. e\<lparr>ChainID := s\<rparr>)), (''EntryID'', set_string (\<lambda>s e. e\<lparr>EntryID := s\<rparr>)),
      (''EntryType'', set_string (\<lambda>s e. e\<lparr>EntryType := s\<rparr>)), (''FormatVersion'', set_int (\<lambda>i e. e\<lparr>FormatVersion := i\<rparr>)),
      (''GlobalSeq'', set_int (\<lambda>i e. e\<lparr>GlobalSeq := i\<rparr>)), (''RunID'', set_string (\<lambda>s e. e\<lparr>RunID := s\<rparr>)),
      (''SequenceNum'', set_int (\<lambda>i e. e\<lparr>SequenceNum := i\<rparr>)), (''Timestamp'', set_time (\<lambda>t e. e\<lparr>Timestamp := t\<rparr>)),
      (''ContentHash'', set_string (\<lambda>s e. e\<lparr>ContentHash := s\<rparr>)), (''PreviousHash'', set_string (\<lambda>s e. e\<lparr>PreviousHash := s\<rparr>)),
      (''ChainHash'', set_string (\<lambda>s e. e\<lparr>ChainHash := s\<rparr>))]"

definition zero_time :: gotime where
  "zero_time = \<lparr>unix_sec = - 62135596800, nsec = 0\<rparr>"

definition zero_entry :: entry where
  "zero_entry = \<lparr>ChainID = [], EntryID = [], EntryType = [], FormatVersion = 0, GlobalSeq = 0, RunID = [],
     SequenceNum = 0, Timestamp = zero_time, ContentHash = [], PreviousHash = [], ChainHash = []\<rparr>"

definition marshal_entry :: "entry \<Rightarrow> string option" where
  "marshal_entry e = (if json_time_ok (Timestamp e) then Some (json_text True (entry_json e)) else None)"

definition unmarshal_entry :: "string \<Rightarrow> entry option" where
  "unmarshal_entry s = unmarshal entry_fields zero_entry s"

text \<open>A row whose fields Go's types allow, with strings in UTF-8: what comes back as it was.\<close>

definition entry_plain :: "entry \<Rightarrow> bool" where
  "entry_plain e \<longleftrightarrow>
     list_all utf8_valid [ChainID e, EntryID e, EntryType e, RunID e, ContentHash e, PreviousHash e, ChainHash e] \<and>
     int64 (FormatVersion e) \<and> int64 (GlobalSeq e) \<and> int64 (SequenceNum e) \<and> wf_time (Timestamp e)"

lemma unmarshal_marshal_entry:
  assumes "entry_plain e" and "marshal_entry e = Some s"
  shows "unmarshal_entry s = Some e"
proof -
  have t: "json_time_ok (Timestamp e)" and s: "s = json_text True (entry_json e)"
    using assms(2) by (simp_all add: marshal_entry_def split: if_splits)
  have "numbers_valid (entry_json e)" "nesting (entry_json e) \<le> max_nesting"
    by (simp_all add: entry_json_def max_nesting_def)
  from parse_text [OF this] have "parse s = Some (cleaned (entry_json e))" by (simp add: s)
  also have "cleaned (entry_json e) = entry_json e"
    using assms(1) by (simp add: entry_json_def entry_plain_def utf8_valid_format_nano)
  finally show ?thesis using assms(1) t
    by (simp add: unmarshal_entry_def unmarshal_def decode_struct_def entry_json_def entry_fields_def zero_entry_def
        field_of_def entry_plain_def)
qed

subsection \<open>Head records\<close>

definition state_json :: "chain_state \<Rightarrow> json" where
  "state_json st = JObj
     [(''ChainID'', JStr (st_ChainID st)), (''HeadSeq'', JInt (HeadSeq st)), (''HeadHash'', JStr (HeadHash st)),
      (''ComputedAt'', JStr (format_nano (ComputedAt st)))]"

definition state_fields :: "(string \<times> chain_state setter) list" where
  "state_fields =
     [(''ChainID'', set_string (\<lambda>s e. e\<lparr>st_ChainID := s\<rparr>)), (''HeadSeq'', set_int (\<lambda>i e. e\<lparr>HeadSeq := i\<rparr>)),
      (''HeadHash'', set_string (\<lambda>s e. e\<lparr>HeadHash := s\<rparr>)), (''ComputedAt'', set_time (\<lambda>t e. e\<lparr>ComputedAt := t\<rparr>))]"

definition zero_state :: chain_state where
  "zero_state = \<lparr>st_ChainID = [], HeadSeq = 0, HeadHash = [], ComputedAt = zero_time\<rparr>"

definition marshal_state :: "chain_state \<Rightarrow> string option" where
  "marshal_state st = (if json_time_ok (ComputedAt st) then Some (json_text True (state_json st)) else None)"

definition unmarshal_state :: "string \<Rightarrow> chain_state option" where
  "unmarshal_state s = unmarshal state_fields zero_state s"

definition state_plain :: "chain_state \<Rightarrow> bool" where
  "state_plain st \<longleftrightarrow> utf8_valid (st_ChainID st) \<and> utf8_valid (HeadHash st) \<and> int64 (HeadSeq st) \<and> wf_time (ComputedAt st)"

lemma unmarshal_marshal_state:
  assumes "state_plain st" and "marshal_state st = Some s"
  shows "unmarshal_state s = Some st"
proof -
  have t: "json_time_ok (ComputedAt st)" and s: "s = json_text True (state_json st)"
    using assms(2) by (simp_all add: marshal_state_def split: if_splits)
  have "numbers_valid (state_json st)" "nesting (state_json st) \<le> max_nesting"
    by (simp_all add: state_json_def max_nesting_def)
  from parse_text [OF this] have "parse s = Some (cleaned (state_json st))" by (simp add: s)
  also have "cleaned (state_json st) = state_json st"
    using assms(1) by (simp add: state_json_def state_plain_def utf8_valid_format_nano)
  finally show ?thesis using assms(1) t
    by (simp add: unmarshal_state_def unmarshal_def decode_struct_def state_json_def state_fields_def zero_state_def
        field_of_def state_plain_def)
qed

end
