(* ===== verification/Bolt_Store.thy ===== *)
theory Bolt_Store
  imports Store_Json Mem_Store "HOL-Library.RBT"
begin

section \<open>The persistent store: \<open>store/bolt/bolt.go\<close>\<close>

text \<open>
  The store over the database library bbolt, which is not part of the repository: buckets of keys in
  byte order, cursors, and transactions that commit whole or not at all. The library's calls are the
  fields of \<open>bbolt\<close>, an argument of every definition, and what its documentation says of them is the
  hypothesis \<open>bbolt_ok\<close>, by two ghost functions: the sorted contents of a bucket, and what lies before
  and from the position of a cursor. What goes wrong with a transaction is \<open>db_fault\<close>.

  A row's key is the chain id, a zero byte and the position in eight bytes, so one chain's rows lie
  together and in order; rows and head records are JSON.
\<close>

subsection \<open>The library\<close>

record ('b, 'c) bbolt =
  bb_new :: 'b
  bb_Put :: "bytes \<Rightarrow> bytes \<Rightarrow> 'b \<Rightarrow> string + 'b"
  bb_Get :: "bytes \<Rightarrow> 'b \<Rightarrow> bytes option"
  bb_Delete :: "bytes \<Rightarrow> 'b \<Rightarrow> string + 'b"
  bb_First :: "'b \<Rightarrow> 'c"
  bb_Last :: "'b \<Rightarrow> 'c"
  bb_Seek :: "bytes \<Rightarrow> 'b \<Rightarrow> 'c"
  bb_Next :: "'c \<Rightarrow> 'c"
  bb_Prev :: "'c \<Rightarrow> 'c"
  bb_item :: "'c \<Rightarrow> (bytes \<times> bytes) option"

record 'b bolt_db =
  d_entries :: 'b
  d_state :: 'b
  d_leases :: 'b

text \<open>What may happen to a transaction. \<open>BeginFails\<close> and \<open>CommitFails\<close> are ordinary errors of the
  library, which mean that nothing was written. \<open>Panics\<close> is a panic or a memory fault inside the
  library, on a damaged file: the guard around every call (\<open>internal/fault\<close>) turns it into \<open>ErrCorrupt\<close>,
  and whether the transaction reached the disk is then not known, which the flag decides. \<open>Refused\<close> is
  every call after that: the handle is poisoned and the library is not entered again.\<close>

datatype db_fault = NoFault | BeginFails string | CommitFails string | Panics string bool | Refused

definition errPoisoned :: store_error where
  "errPoisoned =
     ErrCorrupt ''an earlier operation on this file failed inside the storage layer; the handle is no longer used''"

text \<open>\<open>DB.View\<close> and \<open>DB.Update\<close> of \<open>internal/safebolt\<close>: an error of the function discards what it wrote.\<close>

definition view_error :: "db_fault \<Rightarrow> store_error option" where
  "view_error f =
     (case f of
        BeginFails m \<Rightarrow> Some (DatabaseError m)
      | Panics m _ \<Rightarrow> Some (ErrCorrupt m)
      | Refused \<Rightarrow> Some errPoisoned
      | _ \<Rightarrow> None)"

lemma view_error_simps [simp]:
  "view_error NoFault = None" "view_error (BeginFails m) = Some (DatabaseError m)" "view_error (CommitFails m) = None"
  "view_error (Panics m l) = Some (ErrCorrupt m)" "view_error Refused = Some errPoisoned"
  by (simp_all add: view_error_def)

definition db_view :: "db_fault \<Rightarrow> ('s \<Rightarrow> store_error + 'a) \<Rightarrow> 's \<Rightarrow> store_error + 'a" where
  "db_view f fn s = (case view_error f of Some e \<Rightarrow> Inl e | None \<Rightarrow> fn s)"

definition db_update ::
  "(store_error \<Rightarrow> 'x) \<Rightarrow> db_fault \<Rightarrow> ('s \<Rightarrow> 'x + ('a \<times> 's)) \<Rightarrow> 's \<Rightarrow> ('x + 'a) \<times> 's" where
  "db_update wrap f fn s =
     (case f of
        BeginFails m \<Rightarrow> (Inl (wrap (DatabaseError m)), s)
      | Refused \<Rightarrow> (Inl (wrap errPoisoned), s)
      | _ \<Rightarrow>
          (case fn s of
             Inl e \<Rightarrow> (Inl (case f of Panics m _ \<Rightarrow> wrap (ErrCorrupt m) | _ \<Rightarrow> e), s)
           | Inr (a, s') \<Rightarrow>
               (case f of
                  CommitFails m \<Rightarrow> (Inl (wrap (DatabaseError m)), s)
                | Panics m landed \<Rightarrow> (Inl (wrap (ErrCorrupt m)), if landed then s' else s)
                | _ \<Rightarrow> (Inr a, s'))))"

subsection \<open>Keys\<close>

definition keySep :: char where "keySep = CHR 0x00"

definition chainPrefix :: "string \<Rightarrow> bytes" where
  "chainPrefix chainID = chainID @ [keySep]"

definition entryKey :: "string \<Rightarrow> int \<Rightarrow> bytes" where
  "entryKey chainID seq = chainID @ keySep # be_bytes 8 (nat (seq mod 2 ^ 64))"

text \<open>\<open>int64(binary.BigEndian.Uint64(b))\<close>.\<close>

definition be_int64 :: "bytes \<Rightarrow> int" where
  "be_int64 b = wrap64 (int (be_value (take 8 b)))"

subsection \<open>Opening for writing\<close>

text \<open>The initialising transaction on the buckets of a file, by name: the three buckets exist, the
  index of older versions is dropped, and leases of a crashed holder are cleared.\<close>

definition open_init :: "('b, 'c) bbolt \<Rightarrow> (string \<rightharpoonup> 'b) \<Rightarrow> 'b bolt_db" where
  "open_init B buckets =
     (let ensure = (\<lambda>n. case buckets n of Some b \<Rightarrow> b | None \<Rightarrow> bb_new B)
      in \<lparr>d_entries = ensure ''entries'', d_state = ensure ''state'', d_leases = bb_new B\<rparr>)"

subsection \<open>Writing rows\<close>

fun validateEntries :: "nat \<Rightarrow> entry list \<Rightarrow> store_error option" where
  "validateEntries i [] = None"
| "validateEntries i (e # es) =
     (if ChainID e = [] then Some (EmptyChainID i)
      else if EntryID e = [] then Some (EmptyEntryID i)
      else if GlobalSeq e < 0 then Some (NegativeGlobalSeq i (GlobalSeq e))
      else if keySep \<in> set (ChainID e) then Some (NulInChainID i)
      else validateEntries (Suc i) es)"

fun putEntries :: "('b, 'c) bbolt \<Rightarrow> entry list \<Rightarrow> 'b bolt_db \<Rightarrow> store_error + 'b bolt_db" where
  "putEntries B [] s = Inr s"
| "putEntries B (e # es) s =
     (case marshal_entry e of
        None \<Rightarrow> Inl (EncodeEntry (EntryID e))
      | Some raw \<Rightarrow>
          (case bb_Put B (entryKey (ChainID e) (GlobalSeq e)) raw (d_entries s) of
             Inl m \<Rightarrow> Inl (DatabaseError m)
           | Inr b \<Rightarrow> putEntries B es (s\<lparr>d_entries := b\<rparr>)))"

text \<open>How a result without a value is reported.\<close>

definition outcome :: "('x + unit) \<times> 's \<Rightarrow> 'x option \<times> 's" where
  "outcome r = (case fst r of Inl e \<Rightarrow> Some e | Inr _ \<Rightarrow> None, snd r)"

definition WriteBatch_bolt ::
  "('b, 'c) bbolt \<Rightarrow> db_fault \<Rightarrow> ctx \<Rightarrow> entry list \<Rightarrow> 'b bolt_db \<Rightarrow> store_error option \<times> 'b bolt_db" where
  "WriteBatch_bolt B f done es s =
     (if done then (Some ContextDone, s)
      else case validateEntries 0 es of
        Some err \<Rightarrow> (Some err, s)
      | None \<Rightarrow> outcome (db_update id f (\<lambda>s. map_sum id (Pair ()) (putEntries B es s)) s))"

subsection \<open>Reading rows\<close>

definition tailOf :: "('b, 'c) bbolt \<Rightarrow> string \<Rightarrow> 'b bolt_db \<Rightarrow> store_error + tail" where
  "tailOf B chainID s =
     (let prefix = chainPrefix chainID;
          c = bb_Seek B (prefix @ [CHR 0xFF]) (d_entries s);
          c = (if bb_item B c = None then bb_Last B (d_entries s) else bb_Prev B c)
      in case bb_item B c of
           None \<Rightarrow> Inr \<lparr>t_ChainID = chainID, t_Empty = True, t_Hash = [], t_GlobalSeq = 0\<rparr>
         | Some (k, v) \<Rightarrow>
             if \<not> has_prefix prefix k then Inr \<lparr>t_ChainID = chainID, t_Empty = True, t_Hash = [], t_GlobalSeq = 0\<rparr>
             else case unmarshal_entry v of
               None \<Rightarrow> Inl DecodeRow
             | Some e \<Rightarrow> Inr \<lparr>t_ChainID = chainID, t_Empty = False, t_Hash = ChainHash e, t_GlobalSeq = GlobalSeq e\<rparr>)"

definition ReadTail_bolt ::
  "('b, 'c) bbolt \<Rightarrow> db_fault \<Rightarrow> ctx \<Rightarrow> string \<Rightarrow> 'b bolt_db \<Rightarrow> store_error + (string \<times> int)" where
  "ReadTail_bolt B f done chainID s =
     (if done then Inl ContextDone
      else case db_view f (tailOf B chainID) s of
        Inl e \<Rightarrow> Inl e
      | Inr t \<Rightarrow> if t_Empty t then Inl ErrEmptyChain else Inr (t_Hash t, t_GlobalSeq t))"

definition predecessor_item :: "('b, 'c) bbolt \<Rightarrow> string \<Rightarrow> int \<Rightarrow> 'b bolt_db \<Rightarrow> store_error + entry option" where
  "predecessor_item B chainID startSeq s =
     (let c = bb_Seek B (entryKey chainID startSeq) (d_entries s);
          c = (if bb_item B c = None then bb_Last B (d_entries s) else bb_Prev B c)
      in case bb_item B c of
           None \<Rightarrow> Inr None
         | Some (k, v) \<Rightarrow>
             if \<not> has_prefix (chainPrefix chainID) k then Inr None
             else (case unmarshal_entry v of None \<Rightarrow> Inl DecodeRow | Some e \<Rightarrow> Inr (Some e)))"

definition Predecessor_bolt ::
  "('b, 'c) bbolt \<Rightarrow> db_fault \<Rightarrow> ctx \<Rightarrow> string \<Rightarrow> int \<Rightarrow> 'b bolt_db \<Rightarrow> store_error + entry" where
  "Predecessor_bolt B f done chainID startSeq s =
     (if done then Inl ContextDone
      else case db_view f (predecessor_item B chainID startSeq) s of
        Inl e \<Rightarrow> Inl e
      | Inr None \<Rightarrow> Inl ErrNotFound
      | Inr (Some e) \<Rightarrow> Inr e)"

text \<open>The loops follow a cursor, whose end the code cannot see from its own text: not returning is
  \<open>None\<close>.\<close>

partial_function (option) range_walk ::
  "('b, 'c) bbolt \<Rightarrow> bytes \<Rightarrow> bytes \<Rightarrow> int \<Rightarrow> entry list \<Rightarrow> 'c \<Rightarrow> (store_error + entry list) option" where
  "range_walk B prefix stop limit out c =
     (case bb_item B c of
        None \<Rightarrow> Some (Inr out)
      | Some (k, v) \<Rightarrow>
          if \<not> has_prefix prefix k \<or> stop < k then Some (Inr out)
          else (case unmarshal_entry v of
                  None \<Rightarrow> Some (Inl DecodeRow)
                | Some e \<Rightarrow>
                    if 0 < limit \<and> int (length (out @ [e])) = limit then Some (Inr (out @ [e]))
                    else range_walk B prefix stop limit (out @ [e]) (bb_Next B c)))"

definition Range_bolt ::
  "('b, 'c) bbolt \<Rightarrow> db_fault \<Rightarrow> ctx \<Rightarrow> string \<Rightarrow> int \<Rightarrow> int \<Rightarrow> int \<Rightarrow> 'b bolt_db \<Rightarrow> (store_error + entry list) option" where
  "Range_bolt B f done chainID startSeq endSeq limit s =
     (if done then Some (Inl ContextDone)
      else case view_error f of
        Some e \<Rightarrow> Some (Inl e)
      | None \<Rightarrow> range_walk B (chainPrefix chainID) (entryKey chainID endSeq) limit []
               (bb_Seek B (entryKey chainID (max 0 startSeq)) (d_entries s)))"

partial_function (option) bounds_walk :: "('b, 'c) bbolt \<Rightarrow> bytes \<Rightarrow> int \<Rightarrow> 'c \<Rightarrow> int option" where
  "bounds_walk B prefix mx c =
     (case bb_item B c of
        None \<Rightarrow> Some mx
      | Some (k, v) \<Rightarrow>
          if has_prefix prefix k then bounds_walk B prefix (be_int64 (drop (length prefix) k)) (bb_Next B c)
          else Some mx)"

definition Bounds_bolt ::
  "('b, 'c) bbolt \<Rightarrow> db_fault \<Rightarrow> ctx \<Rightarrow> string \<Rightarrow> 'b bolt_db \<Rightarrow> (store_error + (int \<times> int)) option" where
  "Bounds_bolt B f done chainID s =
     (if done then Some (Inl ContextDone)
      else case view_error f of
        Some e \<Rightarrow> Some (Inl e)
      | None \<Rightarrow>
          let prefix = chainPrefix chainID; c = bb_Seek B prefix (d_entries s)
          in case bb_item B c of
               None \<Rightarrow> Some (Inl ErrEmptyChain)
             | Some (k, v) \<Rightarrow>
                 if \<not> has_prefix prefix k then Some (Inl ErrEmptyChain)
                 else let mn = be_int64 (drop (length prefix) k)
                      in map_option (\<lambda>mx. Inr (mn, mx)) (bounds_walk B prefix mn c))"

text \<open>\<open>Chains\<close> and \<open>ChainsAfter\<close>: from the first key of a chain to the first key past it. The two loops
  differ in their limit.\<close>

partial_function (option) chains_walk ::
  "('b, 'c) bbolt \<Rightarrow> 'b \<Rightarrow> int option \<Rightarrow> string list \<Rightarrow> 'c \<Rightarrow> (store_error + string list) option" where
  "chains_walk B b limit out c =
     (case bb_item B c of
        None \<Rightarrow> Some (Inr out)
      | Some (k, v) \<Rightarrow>
          if (case limit of None \<Rightarrow> False | Some l \<Rightarrow> \<not> int (length out) < l) then Some (Inr out)
          else (case split_first keySep k of
                  None \<Rightarrow> Some (Inl (NoSeparator (length k)))
                | Some (chain, _) \<Rightarrow> chains_walk B b limit (out @ [chain]) (bb_Seek B (chain @ [CHR 0x01]) b)))"

definition Chains_bolt :: "('b, 'c) bbolt \<Rightarrow> db_fault \<Rightarrow> ctx \<Rightarrow> 'b bolt_db \<Rightarrow> (store_error + string list) option" where
  "Chains_bolt B f done s =
     (if done then Some (Inl ContextDone)
      else case view_error f of
        Some e \<Rightarrow> Some (Inl e)
      | None \<Rightarrow> chains_walk B (d_entries s) None [] (bb_First B (d_entries s)))"

definition ChainsAfter_bolt ::
  "('b, 'c) bbolt \<Rightarrow> db_fault \<Rightarrow> ctx \<Rightarrow> string option \<Rightarrow> int \<Rightarrow> 'b bolt_db \<Rightarrow> (store_error + string list) option" where
  "ChainsAfter_bolt B f done aft limit s =
     (if done then Some (Inl ContextDone)
      else if limit < 1 then Some (Inl (BadLimit limit))
      else case view_error f of
        Some e \<Rightarrow> Some (Inl e)
      | None \<Rightarrow> chains_walk B (d_entries s) (Some limit) []
               (case aft of None \<Rightarrow> bb_First B (d_entries s) | Some a \<Rightarrow> bb_Seek B (a @ [CHR 0x01]) (d_entries s)))"

subsection \<open>Head records\<close>

definition putState :: "('b, 'c) bbolt \<Rightarrow> chain_state \<Rightarrow> 'b bolt_db \<Rightarrow> store_error + 'b bolt_db" where
  "putState B st s =
     (if st_ChainID st = [] then Inl StateEmptyChainID
      else case marshal_state st of
        None \<Rightarrow> Inl EncodeState
      | Some raw \<Rightarrow>
          (case bb_Put B (st_ChainID st) raw (d_state s) of Inl m \<Rightarrow> Inl (DatabaseError m) | Inr b \<Rightarrow> Inr (s\<lparr>d_state := b\<rparr>)))"

definition PutState_bolt ::
  "('b, 'c) bbolt \<Rightarrow> db_fault \<Rightarrow> ctx \<Rightarrow> chain_state option \<Rightarrow> 'b bolt_db \<Rightarrow> store_error option \<times> 'b bolt_db" where
  "PutState_bolt B f done ptr s =
     (if done then (Some ContextDone, s)
      else case ptr of
        None \<Rightarrow> (Some NilState, s)
      | Some st \<Rightarrow> outcome (db_update id f (\<lambda>s. map_sum id (Pair ()) (putState B st s)) s))"

definition state_item :: "('b, 'c) bbolt \<Rightarrow> string \<Rightarrow> 'b bolt_db \<Rightarrow> store_error + chain_state option" where
  "state_item B chainID s =
     (case bb_Get B chainID (d_state s) of
        None \<Rightarrow> Inr None
      | Some raw \<Rightarrow> (case unmarshal_state raw of None \<Rightarrow> Inl DecodeRow | Some st \<Rightarrow> Inr (Some st)))"

definition GetState_bolt :: "('b, 'c) bbolt \<Rightarrow> db_fault \<Rightarrow> ctx \<Rightarrow> string \<Rightarrow> 'b bolt_db \<Rightarrow> store_error + chain_state" where
  "GetState_bolt B f done chainID s =
     (if done then Inl ContextDone
      else case db_view f (state_item B chainID) s of
        Inl e \<Rightarrow> Inl e
      | Inr None \<Rightarrow> Inl ErrNotFound
      | Inr (Some st) \<Rightarrow> Inr st)"

subsection \<open>Leases\<close>

definition Acquire_bolt ::
  "('b, 'c) bbolt \<Rightarrow> bytes option \<Rightarrow> db_fault \<Rightarrow> ctx \<Rightarrow> string \<Rightarrow> 'b bolt_db \<Rightarrow>
     (store_error + string option) \<times> 'b bolt_db" where
  "Acquire_bolt B rand f done chainID s =
     (if done then (Inl ContextDone, s)
      else case rand of
        None \<Rightarrow> (Inl LeaseToken, s)
      | Some bs \<Rightarrow>
          let token = hex_encode bs
          in db_update id f
               (\<lambda>s. if bb_Get B chainID (d_leases s) \<noteq> None then Inr (None, s)
                    else (case bb_Put B chainID token (d_leases s) of
                            Inl m \<Rightarrow> Inl (DatabaseError m)
                          | Inr b \<Rightarrow> Inr (Some token, s\<lparr>d_leases := b\<rparr>))) s)"

definition Release_bolt ::
  "('b, 'c) bbolt \<Rightarrow> db_fault \<Rightarrow> ctx \<Rightarrow> string \<Rightarrow> string \<Rightarrow> 'b bolt_db \<Rightarrow> store_error option \<times> 'b bolt_db" where
  "Release_bolt B f done chainID token s =
     (if done then (Some ContextDone, s)
      else outcome (db_update id f
        (\<lambda>s. case bb_Get B chainID (d_leases s) of
               None \<Rightarrow> Inl NoLeaseHeld
             | Some held \<Rightarrow>
                 if held \<noteq> token then Inl LeaseMismatch
                 else map_sum DatabaseError (\<lambda>b. ((), s\<lparr>d_leases := b\<rparr>)) (bb_Delete B chainID (d_leases s))) s))"

subsection \<open>\<open>UpdateChains\<close>\<close>

fun check_leases_bolt :: "('b, 'c) bbolt \<Rightarrow> string list \<Rightarrow> 'b bolt_db \<Rightarrow> store_error option" where
  "check_leases_bolt B [] s = None"
| "check_leases_bolt B (c # cs) s =
     (if bb_Get B c (d_leases s) \<noteq> None then Some (ErrChainLeased c) else check_leases_bolt B cs s)"

fun putStates :: "('b, 'c) bbolt \<Rightarrow> chain_state list \<Rightarrow> 'b bolt_db \<Rightarrow> store_error + 'b bolt_db" where
  "putStates B [] s = Inr s"
| "putStates B (st # sts) s = (case putState B st s of Inl e \<Rightarrow> Inl e | Inr s' \<Rightarrow> putStates B sts s')"

definition update_txn ::
  "('b, 'c) bbolt \<Rightarrow> string list \<Rightarrow> (tail list \<Rightarrow> 'e + (entry list \<times> chain_state list)) \<Rightarrow> 'b bolt_db \<Rightarrow>
     'e update_error + (unit \<times> 'b bolt_db)" where
  "update_txn B ids fn s =
     (case check_leases_bolt B ids s of
        Some e \<Rightarrow> Inl (StoreErr e)
      | None \<Rightarrow>
     (case collect (map (\<lambda>c. tailOf B c s) ids) of
        Inl e \<Rightarrow> Inl (StoreErr e)
      | Inr tails \<Rightarrow>
     (case fn tails of
        Inl err \<Rightarrow> Inl (CallbackErr err)
      | Inr (es, sts) \<Rightarrow>
     (case validateEntries 0 es of
        Some e \<Rightarrow> Inl (StoreErr e)
      | None \<Rightarrow>
     (case CheckAppend tails es sts of
        Some e \<Rightarrow> Inl (StoreErr e)
      | None \<Rightarrow>
     (case putEntries B es s of
        Inl e \<Rightarrow> Inl (StoreErr e)
      | Inr s' \<Rightarrow> map_sum StoreErr (Pair ()) (putStates B sts s')))))))"

definition UpdateChains_bolt ::
  "('b, 'c) bbolt \<Rightarrow> db_fault \<Rightarrow> ctx \<Rightarrow> string list \<Rightarrow> (tail list \<Rightarrow> 'e + (entry list \<times> chain_state list)) option \<Rightarrow>
     'b bolt_db \<Rightarrow> 'e update_error option \<times> 'b bolt_db" where
  "UpdateChains_bolt B f done ids fn s =
     (if done then (Some (StoreErr ContextDone), s)
      else if ids = [] then (Some (StoreErr NoChains), s)
      else case fn of
        None \<Rightarrow> (Some (StoreErr NilFunction), s)
      | Some g \<Rightarrow>
          (case check_names 0 ids {} of
             Some e \<Rightarrow> (Some (StoreErr e), s)
           | None \<Rightarrow> outcome (db_update StoreErr f (update_txn B ids g) s)))"

text \<open>The method table of \<open>bolt.Store\<close>, with the token bytes of the next \<open>Acquire\<close>; \<open>faults\<close> tells what
  happens to the transaction of each method, in the order of the table.\<close>

definition bolt_ops :: "('b, 'c) bbolt \<Rightarrow> bytes option \<Rightarrow> (nat \<Rightarrow> db_fault) \<Rightarrow> 'b bolt_db store_ops" where
  "bolt_ops B rand faults =
     \<lparr>op_read_tail = ReadTail_bolt B (faults 0), op_write_batch = WriteBatch_bolt B (faults 1),
      op_put_state = PutState_bolt B (faults 2), op_acquire = Acquire_bolt B rand (faults 3),
      op_release = Release_bolt B (faults 4)\<rparr>"

subsection \<open>What is assumed of the library\<close>

text \<open>A bucket is a list of pairs sorted by key and a cursor is a position in it. \<open>Put\<close> replaces or adds
  one pair when it succeeds, and it succeeds for a key of 1 to 32768 bytes and a value below two
  gigabytes; a missing item stands for a nil key.\<close>

type_synonym pairs = "(bytes \<times> bytes) list"

definition keys_sorted :: "pairs \<Rightarrow> bool" where
  "keys_sorted ps \<longleftrightarrow> sorted_wrt (<) (map fst ps)"

definition bbolt_ok :: "('b, 'c) bbolt \<Rightarrow> ('b \<Rightarrow> pairs) \<Rightarrow> ('c \<Rightarrow> pairs \<times> pairs) \<Rightarrow> bool" where
  "bbolt_ok B cont pos \<longleftrightarrow>
     (\<forall>b. keys_sorted (cont b)) \<and> cont (bb_new B) = [] \<and>
     (\<forall>k v b b'. bb_Put B k v b = Inr b' \<longrightarrow> map_of (cont b') = (map_of (cont b))(k \<mapsto> v)) \<and>
     (\<forall>k v b. k \<noteq> [] \<and> length k \<le> 32768 \<and> length v \<le> 2 ^ 31 - 2 \<longrightarrow> (\<exists>b'. bb_Put B k v b = Inr b')) \<and>
     (\<forall>k b. bb_Get B k b = map_of (cont b) k) \<and>
     (\<forall>k b b'. bb_Delete B k b = Inr b' \<longrightarrow> map_of (cont b') = (map_of (cont b))(k := None)) \<and>
     (\<forall>b. pos (bb_First B b) = ([], cont b)) \<and>
     (\<forall>b. cont b \<noteq> [] \<longrightarrow> pos (bb_Last B b) = (butlast (cont b), [last (cont b)])) \<and>
     (\<forall>b. cont b = [] \<longrightarrow> snd (pos (bb_Last B b)) = []) \<and>
     (\<forall>k b. pos (bb_Seek B k b) = (takeWhile (\<lambda>p. fst p < k) (cont b), dropWhile (\<lambda>p. fst p < k) (cont b))) \<and>
     (\<forall>c. bb_item B c = (case snd (pos c) of [] \<Rightarrow> None | p # _ \<Rightarrow> Some p)) \<and>
     (\<forall>c xs p ys. pos c = (xs, p # ys) \<longrightarrow> pos (bb_Next B c) = (xs @ [p], ys)) \<and>
     (\<forall>c xs x y ys. pos c = (xs @ [x], y # ys) \<longrightarrow> pos (bb_Prev B c) = (xs, x # y # ys)) \<and>
     (\<forall>c y ys. pos c = ([], y # ys) \<longrightarrow> bb_item B (bb_Prev B c) = None)"

text \<open>The library exists: red-black trees with lists for cursors.\<close>

definition rbt_bbolt :: "((bytes, bytes) rbt, pairs \<times> pairs) bbolt" where
  "rbt_bbolt =
     \<lparr>bb_new = RBT.empty,
      bb_Put = (\<lambda>k v b. if k = [] \<or> 32768 < length k \<or> 2 ^ 31 - 2 < length v then Inl ''refused''
                        else Inr (RBT.insert k v b)),
      bb_Get = (\<lambda>k b. RBT.lookup b k), bb_Delete = (\<lambda>k b. Inr (RBT.delete k b)),
      bb_First = (\<lambda>b. ([], RBT.entries b)),
      bb_Last = (\<lambda>b. if RBT.entries b = [] then ([], []) else (butlast (RBT.entries b), [last (RBT.entries b)])),
      bb_Seek = (\<lambda>k b. (takeWhile (\<lambda>p. fst p < k) (RBT.entries b), dropWhile (\<lambda>p. fst p < k) (RBT.entries b))),
      bb_Next = (\<lambda>(xs, ys). case ys of [] \<Rightarrow> (xs, []) | p # ys \<Rightarrow> (xs @ [p], ys)),
      bb_Prev = (\<lambda>(xs, ys). if xs = [] then ([], []) else (butlast xs, last xs # ys)),
      bb_item = (\<lambda>(xs, ys). case ys of [] \<Rightarrow> None | p # _ \<Rightarrow> Some p)\<rparr>"

lemma rbt_bbolt_ok: "bbolt_ok rbt_bbolt RBT.entries id"
proof -
  have "keys_sorted (RBT.entries b)" for b :: "(bytes, bytes) rbt"
    by (simp add: keys_sorted_def strict_sorted_iff RBT.sorted_entries RBT.distinct_entries)
  moreover have "RBT.entries (RBT.empty :: (bytes, bytes) rbt) = []"
    by (subst map_of_eq_empty_iff [symmetric]) (simp add: RBT.map_of_entries)
  ultimately show ?thesis
    by (auto simp: bbolt_ok_def rbt_bbolt_def RBT.map_of_entries split: if_splits)
qed

lemma bbolt_okD:
  assumes "bbolt_ok B cont pos"
  shows "keys_sorted (cont b)" and "cont (bb_new B) = []"
    and "bb_Put B k v b = Inr b' \<Longrightarrow> map_of (cont b') = (map_of (cont b))(k \<mapsto> v)"
    and "k \<noteq> [] \<Longrightarrow> length k \<le> 32768 \<Longrightarrow> length v \<le> 2147483646 \<Longrightarrow> \<exists>b'. bb_Put B k v b = Inr b'"
    and "bb_Get B k b = map_of (cont b) k"
    and "bb_Delete B k b = Inr b' \<Longrightarrow> map_of (cont b') = (map_of (cont b))(k := None)"
    and "pos (bb_First B b) = ([], cont b)"
    and "pos (bb_Seek B k b) = (takeWhile (\<lambda>p. fst p < k) (cont b), dropWhile (\<lambda>p. fst p < k) (cont b))"
    and "bb_item B c = (case snd (pos c) of [] \<Rightarrow> None | p # _ \<Rightarrow> Some p)"
    and "pos c = (xs, p # ys) \<Longrightarrow> pos (bb_Next B c) = (xs @ [p], ys)"
    and "pos c = (xs @ [x], y # ys) \<Longrightarrow> pos (bb_Prev B c) = (xs, x # y # ys)"
    and "pos c = ([], y # ys) \<Longrightarrow> bb_item B (bb_Prev B c) = None"
  subgoal using assms by (simp add: bbolt_ok_def)
  subgoal using assms by (simp add: bbolt_ok_def)
  subgoal using assms unfolding bbolt_ok_def by (elim conjE) (erule allE, erule allE, erule allE, erule allE, erule mp)
  subgoal using assms by (simp add: bbolt_ok_def)
  subgoal using assms by (simp add: bbolt_ok_def)
  subgoal using assms unfolding bbolt_ok_def by (elim conjE) (erule allE, erule allE, erule allE, erule allE, erule mp)
  subgoal using assms by (simp add: bbolt_ok_def)
  subgoal using assms by (simp add: bbolt_ok_def)
  subgoal using assms by (simp add: bbolt_ok_def)
  subgoal using assms unfolding bbolt_ok_def by (elim conjE) (erule allE, erule allE, erule allE, erule allE, erule mp)
  subgoal using assms unfolding bbolt_ok_def by (elim conjE) (erule allE, erule allE, erule allE, erule allE, erule allE, erule mp)
  subgoal using assms unfolding bbolt_ok_def by (elim conjE) (erule allE, erule allE, erule allE, erule mp)
  done

subsection \<open>Cursors over the sorted pairs\<close>

lemma sorted_takeWhile: "keys_sorted ps \<Longrightarrow> takeWhile (\<lambda>p. fst p < k) ps = filter (\<lambda>p. fst p < k) ps"
proof (induction ps)
  case (Cons p ps)
  then have "\<forall>q \<in> set ps. fst p < fst q" by (simp add: keys_sorted_def)
  then have "\<not> fst p < k \<Longrightarrow> filter (\<lambda>p. fst p < k) ps = []" by (fastforce simp: filter_empty_conv)
  with Cons show ?case by (simp add: keys_sorted_def)
qed simp

lemma sorted_dropWhile: "keys_sorted ps \<Longrightarrow> dropWhile (\<lambda>p. fst p < k) ps = filter (\<lambda>p. k \<le> fst p) ps"
proof (induction ps)
  case (Cons p ps)
  then have "\<forall>q \<in> set ps. fst p < fst q" by (simp add: keys_sorted_def)
  then have "\<not> fst p < k \<Longrightarrow> filter (\<lambda>p. k \<le> fst p) ps = ps" by (fastforce simp: filter_id_conv)
  with Cons show ?case by (auto simp: keys_sorted_def)
qed simp

definition last_opt :: "'a list \<Rightarrow> 'a option" where
  "last_opt xs = (if xs = [] then None else Some (last xs))"

lemma last_opt_simps [simp]:
  "last_opt [] = None" "xs \<noteq> [] \<Longrightarrow> last_opt xs = Some (last xs)"
  "last_opt xs = None \<longleftrightarrow> xs = []" "last_opt (map f xs) = map_option f (last_opt xs)"
  by (simp_all add: last_opt_def last_map)

text \<open>The idiom of \<open>tailOf\<close> and \<open>Predecessor\<close>: seek, then one step back, or the last pair at the end.\<close>

lemma before_item:
  assumes "bbolt_ok B cont pos"
  shows "bb_item B (if bb_item B (bb_Seek B k b) = None then bb_Last B b else bb_Prev B (bb_Seek B k b)) =
    last_opt (filter (\<lambda>p. fst p < k) (cont b))"
proof -
  let ?lo = "filter (\<lambda>p. fst p < k) (cont b)" and ?hi = "filter (\<lambda>p. k \<le> fst p) (cont b)"
  have s: "keys_sorted (cont b)" and item: "\<And>c. bb_item B c = (case snd (pos c) of [] \<Rightarrow> None | p # _ \<Rightarrow> Some p)"
    using assms by (simp_all add: bbolt_ok_def)
  have cut: "pos (bb_Seek B k b) = (?lo, ?hi)"
    using assms sorted_takeWhile [OF s] sorted_dropWhile [OF s] by (simp add: bbolt_ok_def)
  show ?thesis
  proof (cases ?hi)
    case Nil
    then have lo: "?lo = cont b" by (fastforce simp: filter_empty_conv filter_id_conv)
    have "bb_item B (bb_Last B b) = last_opt (cont b)"
      using assms by (cases "cont b") (simp_all add: bbolt_ok_def)
    then show ?thesis using Nil cut lo by (simp add: item)
  next
    case (Cons y ys)
    show ?thesis
    proof (cases ?lo rule: rev_cases)
      case Nil
      then have "bb_item B (bb_Prev B (bb_Seek B k b)) = None" using bbolt_okD(12) [OF assms] cut Cons by metis
      then show ?thesis using Nil cut Cons by (simp add: item)
    next
      case (snoc xs x)
      then have "pos (bb_Prev B (bb_Seek B k b)) = (xs, x # y # ys)"
        using bbolt_okD(11) [OF assms] cut Cons by metis
      then show ?thesis using snoc cut Cons by (cases xs) (auto simp: item)
    qed
  qed
qed

end
