(* ===== verification/Bolt_Rows.thy ===== *)
theory Bolt_Rows
  imports Bolt_Store
begin

section \<open>What the bolt store holds\<close>

text \<open>
  The rows of a chain as the sorted pairs of the entries bucket give them, the invariant that makes
  them rows (every pair decodes, and lies at the key of what it decodes to), and every operation of
  \<open>Bolt_Store\<close> in terms of them. Writing is proved by simulation against the memory store: the same
  write on a memory store with the same rows gives the same rows.
\<close>

subsection \<open>Keys and their order\<close>

lemma append_less [simp]: "p @ x < p @ (y :: string) \<longleftrightarrow> x < y"
  by (simp add: less_append_same)

lemma not_prefix_less: "\<not> has_prefix p k \<Longrightarrow> k < p @ x \<longleftrightarrow> k < (p :: string)"
proof (induction p arbitrary: k)
  case (Cons a p)
  then show ?case by (cases k) (auto simp: has_prefix_def)
qed (simp add: has_prefix_def)

lemma prefix_not_less: "has_prefix p k \<Longrightarrow> \<not> k < (p :: string)"
proof -
  have "\<not> p @ t < p" for t :: string by (induction p) auto
  then show "has_prefix p k \<Longrightarrow> \<not> k < p" by (auto simp: has_prefix_iff)
qed

text \<open>The positions a row may have: what Go's \<open>int64\<close> holds and \<open>validateEntries\<close> admits.\<close>

definition seq_ok :: "int \<Rightarrow> bool" where
  "seq_ok n \<longleftrightarrow> 0 \<le> n \<and> n < 2 ^ 63"

definition seq_bytes :: "int \<Rightarrow> bytes" where
  "seq_bytes n = be_bytes 8 (nat n)"

lemma nat_seq: "seq_ok n \<Longrightarrow> nat n < 256 ^ 8"
proof -
  assume "seq_ok n"
  then have "nat n < 2 ^ 63" by (simp add: seq_ok_def nat_less_iff)
  also have "(2 :: nat) ^ 63 < 256 ^ 8" by simp
  finally show ?thesis .
qed

lemma entryKey_seq: "seq_ok n \<Longrightarrow> entryKey c n = chainPrefix c @ seq_bytes n"
  by (simp add: entryKey_def chainPrefix_def seq_bytes_def seq_ok_def)

lemma seq_bytes_less [simp]: "seq_ok n \<Longrightarrow> seq_ok m \<Longrightarrow> seq_bytes n < seq_bytes m \<longleftrightarrow> n < m"
  using be_bytes_less [OF nat_seq nat_seq, of n m] by (auto simp: seq_bytes_def seq_ok_def)

lemma seq_bytes_inject [simp]: "seq_ok n \<Longrightarrow> seq_ok m \<Longrightarrow> seq_bytes n = seq_bytes m \<longleftrightarrow> n = m"
  using be_bytes_inject [OF nat_seq nat_seq, of n m] by (auto simp: seq_bytes_def seq_ok_def)

lemma be_bytes_Cons: "be_bytes (Suc n) v = char_of (v div 256 ^ n mod 256) # be_bytes n v"
proof (induction n arbitrary: v)
  case (Suc n)
  have "be_bytes (Suc (Suc n)) v = be_bytes (Suc n) (v div 256) @ [char_of (v mod 256)]" by simp
  also have "\<dots> = char_of (v div 256 div 256 ^ n mod 256) # be_bytes n (v div 256) @ [char_of (v mod 256)]"
    by (simp only: Suc.IH append_Cons)
  finally show ?case by (simp add: div_mult2_eq)
qed simp

lemma seq_bytes_top: "seq_ok n \<Longrightarrow> seq_bytes n < [CHR 0xFF]"
proof -
  assume "seq_ok n"
  then have "nat n < 2 ^ 63" by (simp add: seq_ok_def nat_less_iff)
  also have "(2 :: nat) ^ 63 = 128 * 256 ^ 7" by simp
  finally have "nat n div 256 ^ 7 < 128" by (simp add: less_mult_imp_div_less)
  then have "char_of (nat n div 256 ^ 7 mod 256) < (char_of (255 :: nat) :: char)"
    by (subst char_of_less) simp_all
  moreover have "(char_of (255 :: nat) :: char) = CHR 0xFF" by code_simp
  ultimately have "char_of (nat n div 256 ^ 7 mod 256) < CHR 0xFF" by (simp only:)
  moreover have "Suc 7 = (8 :: nat)" by simp
  ultimately show ?thesis using be_bytes_Cons [of 7 "nat n"] by (simp only: seq_bytes_def) simp
qed

lemma be_int64_seq [simp]: "seq_ok n \<Longrightarrow> be_int64 (seq_bytes n) = n"
  using be_value_bytes [OF nat_seq, of n]
  by (simp add: be_int64_def seq_bytes_def seq_ok_def int64_def)

lemma has_prefix_key [simp]:
  "keySep \<notin> set c \<Longrightarrow> keySep \<notin> set d \<Longrightarrow> has_prefix (chainPrefix c) (chainPrefix d @ x) \<longleftrightarrow> c = d"
  using sep_inject [of d keySep x c] by (auto simp: has_prefix_iff chainPrefix_def)

lemma prefix_inject [simp]:
  "keySep \<notin> set c \<Longrightarrow> keySep \<notin> set d \<Longrightarrow> chainPrefix c @ x = chainPrefix d @ y \<longleftrightarrow> c = d \<and> x = y"
  using sep_inject [of c keySep x d y] by (auto simp: chainPrefix_def)

subsection \<open>The invariant and the rows\<close>

definition row_pair :: "bytes \<times> bytes \<Rightarrow> bool" where
  "row_pair p \<longleftrightarrow> (\<exists>e. unmarshal_entry (snd p) = Some e \<and> fst p = chainPrefix (ChainID e) @ seq_bytes (GlobalSeq e) \<and>
     keySep \<notin> set (ChainID e) \<and> ChainID e \<noteq> [] \<and> seq_ok (GlobalSeq e))"

definition wf_bolt :: "('b \<Rightarrow> pairs) \<Rightarrow> 'b bolt_db \<Rightarrow> bool" where
  "wf_bolt cont s \<longleftrightarrow> list_all row_pair (cont (d_entries s))"

definition row_of :: "bytes \<times> bytes \<Rightarrow> entry" where
  "row_of p = the (unmarshal_entry (snd p))"

definition bolt_rows :: "('b \<Rightarrow> pairs) \<Rightarrow> 'b bolt_db \<Rightarrow> string \<Rightarrow> entry list" where
  "bolt_rows cont s c = entries_of c (map row_of (cont (d_entries s)))"

lemma row_pairD:
  assumes "row_pair p"
  shows "unmarshal_entry (snd p) = Some (row_of p)"
    and "fst p = chainPrefix (ChainID (row_of p)) @ seq_bytes (GlobalSeq (row_of p))"
    and "keySep \<notin> set (ChainID (row_of p))" and "ChainID (row_of p) \<noteq> []" and "seq_ok (GlobalSeq (row_of p))"
  using assms by (auto simp: row_pair_def row_of_def)

lemma row_pair_prefix:
  "row_pair p \<Longrightarrow> keySep \<notin> set c \<Longrightarrow> has_prefix (chainPrefix c) (fst p) \<longleftrightarrow> ChainID (row_of p) = c"
  using row_pairD [of p] by auto

lemma row_pair_less:
  "row_pair p \<Longrightarrow> row_pair q \<Longrightarrow> ChainID (row_of p) = ChainID (row_of q) \<Longrightarrow>
     fst p < fst q \<longleftrightarrow> GlobalSeq (row_of p) < GlobalSeq (row_of q)"
  using row_pairD [of p] row_pairD [of q] by simp

text \<open>The rows of a chain are what the pairs with its prefix decode to.\<close>

lemma rows_of_pairs:
  "list_all row_pair ps \<Longrightarrow> keySep \<notin> set c \<Longrightarrow>
     entries_of c (map row_of ps) = map row_of (filter (\<lambda>p. has_prefix (chainPrefix c) (fst p)) ps)"
  by (induction ps) (simp_all add: row_pair_prefix)

lemma wf_rows_pairs: "list_all row_pair ps \<Longrightarrow> keys_sorted ps \<Longrightarrow> wf_rows c (entries_of c (map row_of ps))"
proof (induction ps)
  case Nil
  show ?case by (simp add: wf_rows_def)
next
  case (Cons p ps)
  have rp: "row_pair p" "\<forall>q \<in> set ps. row_pair q \<and> fst p < fst q"
    using Cons.prems by (auto simp: keys_sorted_def list_all_iff)
  then have "\<forall>q \<in> set ps. ChainID (row_of q) = ChainID (row_of p) \<longrightarrow> GlobalSeq (row_of p) < GlobalSeq (row_of q)"
    using row_pair_less [of p] by auto
  moreover have "wf_rows c (entries_of c (map row_of ps))"
    using Cons by (simp add: keys_sorted_def)
  ultimately show ?case by (auto simp: wf_rows_def entries_of_def)
qed

lemma wf_rows_bolt: "bbolt_ok B cont pos \<Longrightarrow> wf_bolt cont s \<Longrightarrow> wf_rows c (bolt_rows cont s c)"
  by (simp add: bolt_rows_def wf_bolt_def wf_rows_pairs bbolt_okD(1))

subsection \<open>Parts of the sorted pairs\<close>

lemma sorted_takeWhile_filter:
  "keys_sorted ps \<Longrightarrow> (\<And>p q. p \<in> set ps \<Longrightarrow> q \<in> set ps \<Longrightarrow> fst p < fst q \<Longrightarrow> Q q \<Longrightarrow> Q p) \<Longrightarrow>
     takeWhile Q ps = filter Q ps"
proof (induction ps)
  case (Cons p ps)
  have "\<forall>q \<in> set ps. fst p < fst q" using Cons.prems(1) by (simp add: keys_sorted_def)
  then have "\<not> Q p \<Longrightarrow> filter Q ps = []"
    using Cons.prems(2) [of p] by (fastforce simp: filter_empty_conv)
  moreover have "takeWhile Q ps = filter Q ps"
  proof (rule Cons.IH)
    show "keys_sorted ps" using Cons.prems(1) by (simp add: keys_sorted_def)
    show "Q q'" if "q' \<in> set ps" "q \<in> set ps" "fst q' < fst q" "Q q" for q' q
      using that Cons.prems(2) [of q' q] by simp
  qed
  ultimately show ?case by simp
qed simp

lemma keys_sorted_filter [simp]: "keys_sorted ps \<Longrightarrow> keys_sorted (filter Q ps)"
  by (simp add: keys_sorted_def sorted_wrt_map sorted_wrt_filter)

lemma keys_sorted_last: "keys_sorted ps \<Longrightarrow> p \<in> set ps \<Longrightarrow> fst p \<le> fst (last ps)"
  by (induction ps) (auto simp: keys_sorted_def intro: less_imp_le)

definition prefixed :: "bytes \<Rightarrow> pairs \<Rightarrow> pairs" where
  "prefixed P ps = filter (\<lambda>p. has_prefix P (fst p)) ps"

lemma last_opt_filter: "xs \<noteq> [] \<Longrightarrow> Q (last xs) \<Longrightarrow> last_opt (filter Q xs) = Some (last xs)"
  by (cases xs rule: rev_cases) simp_all

lemma last_below:
  assumes "keys_sorted ps"
  shows "(case last_opt (filter (\<lambda>p. fst p < P @ x) ps) of
            None \<Rightarrow> None | Some p \<Rightarrow> if has_prefix P (fst p) then Some p else None) =
         last_opt (prefixed P (filter (\<lambda>p. fst p < P @ x) ps))"
proof -
  let ?lo = "filter (\<lambda>p. fst p < P @ x) ps"
  show ?thesis
  proof (cases "prefixed P ?lo = []")
    case True
    then have "\<forall>p \<in> set ?lo. \<not> has_prefix P (fst p)" unfolding prefixed_def filter_empty_conv .
    then have "?lo \<noteq> [] \<Longrightarrow> \<not> has_prefix P (fst (last ?lo))" using last_in_set by blast
    then show ?thesis using True by (cases "?lo = []") simp_all
  next
    case False
    then obtain p where p: "p \<in> set ?lo" "has_prefix P (fst p)"
      by (auto simp: prefixed_def filter_empty_conv)
    then have ne: "?lo \<noteq> []" by (metis list.set(1) empty_iff)
    have "fst p \<le> fst (last ?lo)" using keys_sorted_last [OF keys_sorted_filter [OF assms] p(1)] .
    then have "\<not> fst (last ?lo) < P" using prefix_not_less [OF p(2)] by (simp add: not_less)
    moreover have "fst (last ?lo) < P @ x" using last_in_set [OF ne] by simp
    ultimately have "has_prefix P (fst (last ?lo))" using not_prefix_less by blast
    then show ?thesis using ne last_opt_filter [OF ne] by (simp add: prefixed_def)
  qed
qed

subsection \<open>The tail and the predecessor\<close>

definition rows_tail :: "string \<Rightarrow> entry list \<Rightarrow> tail" where
  "rows_tail c xs =
     (if xs = [] then \<lparr>t_ChainID = c, t_Empty = True, t_Hash = [], t_GlobalSeq = 0\<rparr>
      else \<lparr>t_ChainID = c, t_Empty = False, t_Hash = ChainHash (last xs), t_GlobalSeq = GlobalSeq (last xs)\<rparr>)"

lemma read_tail_row_rows: "read_tail_row m c = rows_tail c (rows m c)"
  by (simp add: read_tail_row_def rows_tail_def Let_def)

lemma rows_prefixed:
  "list_all row_pair ps \<Longrightarrow> keySep \<notin> set c \<Longrightarrow> entries_of c (map row_of ps) = map row_of (prefixed (chainPrefix c) ps)"
  by (simp add: rows_of_pairs prefixed_def)

lemma filter_below:
  assumes "list_all row_pair ps" "keySep \<notin> set c" "seq_ok n"
  shows "prefixed (chainPrefix c) (filter (\<lambda>p. fst p < chainPrefix c @ seq_bytes n) ps)
    = filter (\<lambda>p. GlobalSeq (row_of p) < n) (prefixed (chainPrefix c) ps)"
proof -
  have "has_prefix (chainPrefix c) (fst p) \<and> fst p < chainPrefix c @ seq_bytes n \<longleftrightarrow>
      GlobalSeq (row_of p) < n \<and> has_prefix (chainPrefix c) (fst p)" if "p \<in> set ps" for p
    using that assms row_pairD [of p] row_pair_prefix [of p c] by (auto simp: list_all_iff)
  then show ?thesis by (simp add: prefixed_def conj_commute cong: filter_cong)
qed

lemma filter_top:
  assumes "list_all row_pair ps" "keySep \<notin> set c"
  shows "prefixed (chainPrefix c) (filter (\<lambda>p. fst p < chainPrefix c @ [CHR 0xFF]) ps) = prefixed (chainPrefix c) ps"
proof -
  have "has_prefix (chainPrefix c) (fst p) \<and> fst p < chainPrefix c @ [CHR 0xFF] \<longleftrightarrow>
      has_prefix (chainPrefix c) (fst p)" if "p \<in> set ps" for p
    using that assms row_pairD [of p] row_pair_prefix [of p c] seq_bytes_top [of "GlobalSeq (row_of p)"]
    by (auto simp: list_all_iff)
  then show ?thesis by (simp add: prefixed_def conj_commute cong: filter_cong)
qed

lemma prefixed_sub: "p \<in> set (prefixed P ps) \<Longrightarrow> p \<in> set ps"
  by (simp add: prefixed_def)

lemma before_prefixed:
  assumes "bbolt_ok B cont pos" and k: "k = P @ x"
  shows "(case bb_item B (if bb_item B (bb_Seek B k b) = None then bb_Last B b else bb_Prev B (bb_Seek B k b)) of
            None \<Rightarrow> u | Some (k', v) \<Rightarrow> if \<not> has_prefix P k' then u else w v) =
         (case last_opt (prefixed P (filter (\<lambda>p. fst p < k) (cont b))) of None \<Rightarrow> u | Some p \<Rightarrow> w (snd p))"
  unfolding before_item [OF assms(1)] k last_below [OF bbolt_okD(1) [OF assms(1)], symmetric]
  by (simp split: option.splits prod.splits)

lemma tailOf_rows:
  assumes B: "bbolt_ok B cont pos" and wf: "wf_bolt cont s" and c: "keySep \<notin> set c"
  shows "tailOf B c s = Inr (rows_tail c (bolt_rows cont s c))"
proof -
  let ?ps = "cont (d_entries s)"
  have rp: "list_all row_pair ?ps" using wf by (simp add: wf_bolt_def)
  have rows: "bolt_rows cont s c = map row_of (prefixed (chainPrefix c) ?ps)"
    by (simp add: bolt_rows_def rows_prefixed [OF rp c])
  have "row_pair (last (prefixed (chainPrefix c) ?ps))" if "prefixed (chainPrefix c) ?ps \<noteq> []"
    using prefixed_sub [OF last_in_set [OF that]] rp by (simp add: list_all_iff)
  then show ?thesis
    unfolding tailOf_def Let_def before_prefixed [OF B refl] filter_top [OF rp c] rows rows_tail_def
    using row_pairD(1) [of "last (prefixed (chainPrefix c) ?ps)"] by (auto simp: last_map)
qed

lemma predecessor_rows:
  assumes B: "bbolt_ok B cont pos" and wf: "wf_bolt cont s" and c: "keySep \<notin> set c" and n: "seq_ok n"
  shows "predecessor_item B c n s = Inr (last_opt (filter (\<lambda>e. GlobalSeq e < n) (bolt_rows cont s c)))"
proof -
  let ?ps = "cont (d_entries s)" and ?lo = "filter (\<lambda>p. GlobalSeq (row_of p) < n) (prefixed (chainPrefix c) (cont (d_entries s)))"
  have rp: "list_all row_pair ?ps" using wf by (simp add: wf_bolt_def)
  have rows: "filter (\<lambda>e. GlobalSeq e < n) (bolt_rows cont s c) = map row_of ?lo"
    by (simp add: bolt_rows_def rows_prefixed [OF rp c] filter_map comp_def)
  have "row_pair (last ?lo)" if "?lo \<noteq> []"
    using last_in_set [OF that] rp by (simp add: list_all_iff prefixed_def)
  then show ?thesis
    unfolding predecessor_item_def Let_def entryKey_seq [OF n] before_prefixed [OF B refl] filter_below [OF rp c n] rows
    using row_pairD(1) [of "last ?lo"] by (cases "?lo = []") auto
qed

subsection \<open>Ranges\<close>

declare range_walk.simps [code del] bounds_walk.simps [code del] chains_walk.simps [code del]

definition cut :: "int \<Rightarrow> int \<Rightarrow> 'a list \<Rightarrow> 'a list" where
  "cut limit got xs = (if 0 < limit then take (nat (limit - got)) xs else xs)"

lemma cut_Cons:
  "\<not> (0 < limit \<and> got + 1 = limit) \<Longrightarrow> limit \<le> 0 \<or> got < limit \<Longrightarrow> cut limit got (x # xs) = x # cut limit (got + 1) xs"
proof -
  assume "\<not> (0 < limit \<and> got + 1 = limit)" and "limit \<le> 0 \<or> got < limit"
  then have "0 < limit \<Longrightarrow> nat (limit - got) = Suc (nat (limit - (got + 1)))" by auto
  then show ?thesis by (simp add: cut_def)
qed

lemma cut_one: "0 < limit \<Longrightarrow> got + 1 = limit \<Longrightarrow> cut limit got (x # xs) = [x]"
proof -
  assume "0 < limit" "got + 1 = limit"
  moreover from this have "nat (limit - got) = Suc 0" by simp
  ultimately show ?thesis by (simp add: cut_def)
qed

lemma range_walk_steps:
  assumes B: "bbolt_ok B cont pos"
  shows "snd (pos c) = ps \<Longrightarrow> list_all row_pair ps \<Longrightarrow> limit \<le> 0 \<or> int (length out) < limit \<Longrightarrow>
    range_walk B P stop limit out c =
      Some (Inr (out @ cut limit (int (length out)) (map row_of (takeWhile (\<lambda>p. has_prefix P (fst p) \<and> fst p \<le> stop) ps))))"
proof (induction ps arbitrary: c out)
  case Nil
  then show ?case by (simp add: range_walk.simps [of B P stop limit out c] bbolt_okD(9) [OF B] cut_def)
next
  case (Cons p ps)
  obtain xs where c: "pos c = (xs, p # ps)" using Cons.prems(1) by (metis prod.collapse)
  obtain k v where p [simp]: "p = (k, v)" by force
  from c have item: "bb_item B c = Some (k, v)" and nx: "snd (pos (bb_Next B c)) = ps"
    using bbolt_okD(9) [OF B] bbolt_okD(10) [OF B] by simp_all
  have e: "unmarshal_entry v = Some (row_of p)" using Cons.prems(2) row_pairD(1) [of p] by simp
  note step = range_walk.simps [of B P stop limit out c]
  show ?case
  proof (cases "has_prefix P (fst p) \<and> fst p \<le> stop")
    case False
    then show ?thesis by (auto simp: step item not_less cut_def)
  next
    case True
    show ?thesis
    proof (cases "0 < limit \<and> int (length out) + 1 = limit")
      case stop: True
      then show ?thesis using True by (simp add: step item e not_less cut_one)
    next
      case False
      then have "limit \<le> 0 \<or> int (length (out @ [row_of p])) < limit" using Cons.prems(3) by auto
      from Cons.IH [OF nx _ this] show ?thesis
        using True False Cons.prems(2,3) by (auto simp: step item e not_less cut_Cons add.commute)
    qed
  qed
qed

lemma range_pairs:
  assumes ps: "keys_sorted ps" "list_all row_pair ps" and c: "keySep \<notin> set c" and ab: "seq_ok a" "seq_ok b"
  shows "map row_of (takeWhile (\<lambda>p. has_prefix (chainPrefix c) (fst p) \<and> fst p \<le> chainPrefix c @ seq_bytes b)
      (dropWhile (\<lambda>p. fst p < chainPrefix c @ seq_bytes a) ps))
    = filter (\<lambda>e. a \<le> GlobalSeq e \<and> GlobalSeq e \<le> b) (entries_of c (map row_of ps))"
proof -
  let ?P = "chainPrefix c"
  let ?Q = "\<lambda>p. has_prefix ?P (fst p) \<and> fst p \<le> ?P @ seq_bytes b"
  let ?hi = "filter (\<lambda>p. ?P @ seq_bytes a \<le> fst p) ps"
  have "takeWhile ?Q ?hi = filter ?Q ?hi"
  proof (rule sorted_takeWhile_filter)
    fix p q
    assume pq: "p \<in> set ?hi" "q \<in> set ?hi" "fst p < fst q" "?Q q"
    then have "\<not> fst p < ?P"
      using not_prefix_less [of ?P "?P" "[]"] prefix_not_less [of ?P "?P @ seq_bytes a"] by auto
    moreover obtain y where "fst q = ?P @ y" using pq(4) by (auto simp: has_prefix_iff)
    ultimately have "has_prefix ?P (fst p)" using not_prefix_less [of ?P "fst p" y] pq(3) by auto
    then show "?Q p" using pq(3,4) by auto
  qed (simp add: ps)
  also have "filter ?Q ?hi = filter (\<lambda>p. ChainID (row_of p) = c \<and> a \<le> GlobalSeq (row_of p) \<and> GlobalSeq (row_of p) \<le> b) ps"
  proof (simp only: filter_filter, rule filter_cong [OF refl])
    fix p assume "p \<in> set ps"
    then have p: "row_pair p" using ps(2) by (simp add: list_all_iff)
    have le: "?P @ seq_bytes n \<le> fst p \<longleftrightarrow> n \<le> GlobalSeq (row_of p)" "fst p \<le> ?P @ seq_bytes n \<longleftrightarrow> GlobalSeq (row_of p) \<le> n"
      if "ChainID (row_of p) = c" "seq_ok n" for n
      using row_pairD [OF p] that by (simp_all add: not_less [symmetric])
    show "(?P @ seq_bytes a \<le> fst p \<and> ?Q p) \<longleftrightarrow>
        ChainID (row_of p) = c \<and> a \<le> GlobalSeq (row_of p) \<and> GlobalSeq (row_of p) \<le> b"
      using row_pair_prefix [OF p c] le ab by blast
  qed
  finally show ?thesis
    by (simp add: sorted_dropWhile [OF ps(1)] entries_of_def filter_map comp_def conj_commute conj_left_commute)
qed

lemma Range_bolt_rows:
  assumes B: "bbolt_ok B cont pos" and wf: "wf_bolt cont s" and c: "keySep \<notin> set c"
    and ab: "a < 2 ^ 63" "seq_ok b"
  shows "range_walk B (chainPrefix c) (entryKey c b) limit [] (bb_Seek B (entryKey c (max 0 a)) (d_entries s)) =
    Some (Inr (cut limit 0 (filter (\<lambda>e. a \<le> GlobalSeq e \<and> GlobalSeq e \<le> b) (bolt_rows cont s c))))"
proof -
  let ?ps = "cont (d_entries s)"
  have rp: "list_all row_pair ?ps" using wf by (simp add: wf_bolt_def)
  have a: "seq_ok (max 0 a)" using ab(1) by (simp add: seq_ok_def)
  have pos: "snd (pos (bb_Seek B (chainPrefix c @ seq_bytes (max 0 a)) (d_entries s)))
      = dropWhile (\<lambda>p. fst p < chainPrefix c @ seq_bytes (max 0 a)) ?ps"
    by (simp add: bbolt_okD(8) [OF B])
  have rp2: "list_all row_pair (dropWhile (\<lambda>p. fst p < chainPrefix c @ seq_bytes (max 0 a)) ?ps)"
    using rp set_dropWhileD by (fastforce simp: list_all_iff)
  have "(max 0 a \<le> GlobalSeq e \<and> GlobalSeq e \<le> b) = (a \<le> GlobalSeq e \<and> GlobalSeq e \<le> b)"
    if "e \<in> set (bolt_rows cont s c)" for e
    using that rp row_pairD(5) by (fastforce simp: bolt_rows_def entries_of_def list_all_iff seq_ok_def)
  then have "filter (\<lambda>e. max 0 a \<le> GlobalSeq e \<and> GlobalSeq e \<le> b) (bolt_rows cont s c)
      = filter (\<lambda>e. a \<le> GlobalSeq e \<and> GlobalSeq e \<le> b) (bolt_rows cont s c)"
    by (rule filter_cong [OF refl])
  then show ?thesis
    using range_walk_steps [OF B pos rp2, of limit "[]" "chainPrefix c" "chainPrefix c @ seq_bytes b"]
      range_pairs [OF bbolt_okD(1) [OF B] rp c a ab(2)]
    by (simp add: entryKey_seq a ab(2) bolt_rows_def) linarith
qed

subsection \<open>Bounds\<close>

lemma prefix_run:
  assumes "keys_sorted ps"
  shows "takeWhile (\<lambda>p. has_prefix P (fst p)) (dropWhile (\<lambda>p. fst p < P) ps) = prefixed P ps"
proof -
  let ?hi = "filter (\<lambda>p. P \<le> fst p) ps"
  have "takeWhile (\<lambda>p. has_prefix P (fst p)) ?hi = filter (\<lambda>p. has_prefix P (fst p)) ?hi"
  proof (rule sorted_takeWhile_filter)
    fix p q
    assume pq: "p \<in> set ?hi" "fst p < fst q" "has_prefix P (fst q)"
    then obtain y where "fst q = P @ y" by (auto simp: has_prefix_iff)
    moreover have "\<not> fst p < P" using pq(1) by (simp add: not_less)
    ultimately show "has_prefix P (fst p)" using pq(2) not_prefix_less [of P "fst p" y] by auto
  qed (simp add: assms)
  moreover have "filter (\<lambda>p. has_prefix P (fst p)) ?hi = prefixed P ps"
    unfolding prefixed_def filter_filter
    by (rule filter_cong [OF refl]) (auto simp: not_less [symmetric] prefix_not_less)
  ultimately show ?thesis by (simp add: sorted_dropWhile [OF assms])
qed

lemma key_seq: "row_pair p \<Longrightarrow> has_prefix (chainPrefix c) (fst p) \<Longrightarrow> keySep \<notin> set c \<Longrightarrow>
    be_int64 (drop (length (chainPrefix c)) (fst p)) = GlobalSeq (row_of p)"
  using row_pair_prefix [of p c] row_pairD [of p] by simp

lemma bounds_walk_steps:
  assumes B: "bbolt_ok B cont pos" and ch: "keySep \<notin> set ch"
  shows "snd (pos c) = ps \<Longrightarrow> list_all row_pair ps \<Longrightarrow>
    bounds_walk B (chainPrefix ch) mx c =
      Some (case last_opt (takeWhile (\<lambda>p. has_prefix (chainPrefix ch) (fst p)) ps) of
              None \<Rightarrow> mx | Some p \<Rightarrow> GlobalSeq (row_of p))"
proof (induction ps arbitrary: c mx)
  case Nil
  then show ?case by (simp add: bounds_walk.simps [of B "chainPrefix ch" mx c] bbolt_okD(9) [OF B])
next
  case (Cons p ps)
  obtain xs where c: "pos c = (xs, p # ps)" using Cons.prems(1) by (metis prod.collapse)
  obtain k v where p [simp]: "p = (k, v)" by force
  from c have item: "bb_item B c = Some (k, v)" and nx: "snd (pos (bb_Next B c)) = ps"
    using bbolt_okD(9) [OF B] bbolt_okD(10) [OF B] by simp_all
  show ?case
  proof (cases "has_prefix (chainPrefix ch) k")
    case True
    then have "be_int64 (drop (length (chainPrefix ch)) k) = GlobalSeq (row_of p)"
      using key_seq [of p ch] Cons.prems(2) ch by simp
    then show ?thesis using Cons.IH [OF nx] Cons.prems(2) True
      by (simp add: bounds_walk.simps [of B "chainPrefix ch" mx c] item last_opt_def split: option.splits)
  next
    case False
    then show ?thesis by (simp add: bounds_walk.simps [of B "chainPrefix ch" mx c] item)
  qed
qed

lemma Bounds_bolt_rows:
  assumes B: "bbolt_ok B cont pos" and wf: "wf_bolt cont s" and c: "keySep \<notin> set c"
  shows "Bounds_bolt B NoFault False c s =
    Some (if bolt_rows cont s c = [] then Inl ErrEmptyChain
          else Inr (GlobalSeq (hd (bolt_rows cont s c)), GlobalSeq (last (bolt_rows cont s c))))"
proof -
  let ?ps = "cont (d_entries s)" and ?P = "chainPrefix c"
  let ?hi = "dropWhile (\<lambda>p. fst p < ?P) ?ps"
  let ?c = "bb_Seek B ?P (d_entries s)"
  have rp: "list_all row_pair ?ps" using wf by (simp add: wf_bolt_def)
  have rows: "bolt_rows cont s c = map row_of (takeWhile (\<lambda>p. has_prefix ?P (fst p)) ?hi)"
    by (simp add: bolt_rows_def rows_prefixed [OF rp c] prefix_run [OF bbolt_okD(1) [OF B]])
  have pos: "snd (pos ?c) = ?hi" by (simp add: bbolt_okD(8) [OF B])
  have rp2: "list_all row_pair ?hi" using rp set_dropWhileD by (fastforce simp: list_all_iff)
  have walk: "bounds_walk B ?P mx ?c = Some (case last_opt (takeWhile (\<lambda>p. has_prefix ?P (fst p)) ?hi) of
      None \<Rightarrow> mx | Some p \<Rightarrow> GlobalSeq (row_of p))" for mx
    using bounds_walk_steps [OF B c pos rp2] .
  show ?thesis
  proof (cases ?hi)
    case Nil
    show ?thesis using pos rows unfolding Nil by (simp add: Bounds_bolt_def Let_def bbolt_okD(9) [OF B])
  next
    case (Cons p qs)
    obtain k v where p: "p = (k, v)" by force
    have item: "bb_item B ?c = Some (k, v)" using Cons pos p by (simp add: bbolt_okD(9) [OF B])
    show ?thesis
    proof (cases "has_prefix ?P k")
      case False
      then show ?thesis using Cons p item rows by (simp add: Bounds_bolt_def Let_def)
    next
      case True
      then have "be_int64 (drop (length ?P) k) = GlobalSeq (row_of p)"
        using key_seq [of p c] rp2 Cons p c by simp
      then show ?thesis using True Cons p item rows walk
        by (simp add: Bounds_bolt_def Let_def last_map)
    qed
  qed
qed

subsection \<open>The chains of a store\<close>

lemma keySep_less [simp]: "CHR 0x00 \<noteq> a \<Longrightarrow> 0 < (of_char a :: nat)"
proof (rule ccontr)
  assume "CHR 0x00 \<noteq> a" and "\<not> 0 < (of_char a :: nat)"
  then have "(of_char a :: nat) = of_char (CHR 0x00)" by simp
  with \<open>CHR 0x00 \<noteq> a\<close> show False by (simp only: of_char_eq_iff)
qed

lemma key_chain_less:
  "keySep \<notin> set c \<Longrightarrow> keySep \<notin> set d \<Longrightarrow> c @ keySep # x < d @ keySep # y \<longleftrightarrow> c < d \<or> c = d \<and> x < (y :: string)"
proof (induction c arbitrary: d)
  case Nil
  then show ?case by (cases d) (auto simp: keySep_def less_char_def)
next
  case (Cons a c)
  then show ?case by (cases d) (auto simp: keySep_def less_char_def)
qed

lemma key_after_chain:
  "keySep \<notin> set c \<Longrightarrow> keySep \<notin> set d \<Longrightarrow> d @ keySep # x < c @ [CHR 0x01] \<longleftrightarrow> d \<le> (c :: string)"
proof (induction c arbitrary: d)
  case Nil
  then show ?case by (cases d) (auto simp: keySep_def less_char_def)
next
  case (Cons a c)
  then show ?case by (cases d) (auto simp: keySep_def less_char_def)
qed

definition chain_ids :: "pairs \<Rightarrow> string list" where
  "chain_ids ps = remdups_adj (map (\<lambda>p. ChainID (row_of p)) ps)"

lemma after_chain:
  assumes ps: "keys_sorted ps" "list_all row_pair ps" and c: "keySep \<notin> set c"
  shows "dropWhile (\<lambda>p. fst p < c @ [CHR 0x01]) ps = filter (\<lambda>p. c < ChainID (row_of p)) ps"
proof -
  have "c @ [CHR 0x01] \<le> fst p \<longleftrightarrow> c < ChainID (row_of p)" if "p \<in> set ps" for p
    using that ps(2) row_pairD [of p] key_after_chain [OF c] by (auto simp: list_all_iff chainPrefix_def not_less [symmetric])
  then show ?thesis unfolding sorted_dropWhile [OF ps(1)] by (rule filter_cong [OF refl])
qed

lemma chains_sorted: "keys_sorted ps \<Longrightarrow> list_all row_pair ps \<Longrightarrow> sorted (map (\<lambda>p. ChainID (row_of p)) ps)"
proof (induction ps)
  case (Cons p ps)
  have "ChainID (row_of p) \<le> ChainID (row_of q)" if "q \<in> set ps" for q
  proof -
    have "fst p < fst q" "row_pair p" "row_pair q"
      using that Cons.prems by (auto simp: keys_sorted_def list_all_iff)
    then show ?thesis using row_pairD [of p] row_pairD [of q] key_chain_less
      by (auto simp: chainPrefix_def less_imp_le)
  qed
  then show ?case using Cons by (simp add: keys_sorted_def)
qed simp

lemma sorted_set_sorted_remdups: "sorted xs \<Longrightarrow> remdups_adj xs = sorted_list_of_set (set xs)"
proof (rule sorted_distinct_set_unique)
  show "distinct (remdups_adj xs)" if "sorted xs"
    using that by (induction xs rule: remdups_adj.induct) (auto simp: less_le)
qed simp_all

lemma chain_ids_sorted:
  "keys_sorted ps \<Longrightarrow> list_all row_pair ps \<Longrightarrow> chain_ids ps = sorted_list_of_set ((\<lambda>p. ChainID (row_of p)) ` set ps)"
  using sorted_set_sorted_remdups [OF chains_sorted] by (simp add: chain_ids_def)

definition take_upto :: "int option \<Rightarrow> nat \<Rightarrow> 'a list \<Rightarrow> 'a list" where
  "take_upto limit got xs = (case limit of None \<Rightarrow> xs | Some l \<Rightarrow> take (nat (l - int got)) xs)"

lemma take_upto_simps [simp]:
  "take_upto limit got [] = []" "take_upto None got xs = xs"
  "int got < l \<Longrightarrow> take_upto (Some l) got (x # xs) = x # take_upto (Some l) (Suc got) xs"
  "\<not> int got < l \<Longrightarrow> take_upto (Some l) got xs = []"
proof -
  assume "int got < l"
  then have "nat (l - int got) = Suc (nat (l - int (Suc got)))" by simp
  then show "take_upto (Some l) got (x # xs) = x # take_upto (Some l) (Suc got) xs" by (simp add: take_upto_def)
qed (simp_all add: take_upto_def split: option.splits)

lemma chain_ids_Cons:
  assumes "keys_sorted (p # ps)" "list_all row_pair (p # ps)"
  shows "chain_ids (p # ps) = ChainID (row_of p) # chain_ids (filter (\<lambda>q. ChainID (row_of p) < ChainID (row_of q)) ps)"
proof -
  let ?f = "\<lambda>p. ChainID (row_of p)"
  have "dropWhile (\<lambda>y. y = ?f p) (map ?f ps) = filter (\<lambda>y. ?f p < y) (map ?f ps)"
    using chains_sorted [OF assms]
  proof (induction ps)
    case (Cons q qs)
    then have "\<not> ?f q = ?f p \<Longrightarrow> filter (\<lambda>y. ?f p < y) (map ?f (q # qs)) = map ?f (q # qs)"
      unfolding filter_id_conv by auto
    with Cons show ?case by auto
  qed simp
  then show ?thesis by (simp add: chain_ids_def remdups_adj_Cons' filter_map comp_def)
qed

lemma chains_walk_steps:
  assumes B: "bbolt_ok B cont pos" and rp: "list_all row_pair (cont b)"
  shows "snd (pos c) = ps \<Longrightarrow> (\<exists>Q. ps = filter Q (cont b) \<and> (\<forall>p \<in> set (cont b). \<forall>q \<in> set (cont b). fst p < fst q \<longrightarrow> Q p \<longrightarrow> Q q)) \<Longrightarrow>
    chains_walk B b limit out c = Some (Inr (out @ take_upto limit (length out) (chain_ids ps)))"
proof (induction "length ps" arbitrary: ps c out rule: less_induct)
  case less
  note step = chains_walk.simps [of B b limit out c]
  show ?case
  proof (cases ps)
    case Nil
    then show ?thesis using less.prems(1) by (simp add: step bbolt_okD(9) [OF B] chain_ids_def)
  next
    case (Cons p qs)
    obtain k v where p: "p = (k, v)" by force
    have item: "bb_item B c = Some (k, v)" using less.prems(1) Cons p by (simp add: bbolt_okD(9) [OF B])
    obtain Q where Q: "ps = filter Q (cont b)"
        "\<forall>p \<in> set (cont b). \<forall>q \<in> set (cont b). fst p < fst q \<longrightarrow> Q p \<longrightarrow> Q q" using less.prems(2) by blast
    have pin: "p \<in> set (cont b)" "Q p" using arg_cong [OF Q(1), of set] Cons by auto
    then have rpp: "row_pair p" using rp by (simp add: list_all_iff)
    let ?ch = "ChainID (row_of p)"
    have "fst p = ?ch @ keySep # seq_bytes (GlobalSeq (row_of p))"
      using row_pairD(2) [OF rpp] by (simp only: chainPrefix_def append.simps append_assoc)
    then have sp: "split_first keySep k = Some (?ch, seq_bytes (GlobalSeq (row_of p)))"
      using split_first_append [OF row_pairD(3) [OF rpp]] p by (metis fst_conv)
    have srt: "keys_sorted (cont b)" using bbolt_okD(1) [OF B] .
    let ?nx = "filter (\<lambda>q. ?ch < ChainID (row_of q)) (cont b)"
    have nx: "snd (pos (bb_Seek B (?ch @ [CHR 0x01]) b)) = ?nx"
      using after_chain [OF srt rp row_pairD(3) [OF rpp]] by (simp add: bbolt_okD(8) [OF B])
    have up: "?ch < ChainID (row_of q) \<Longrightarrow> q \<in> set (cont b) \<Longrightarrow> Q q" for q
    proof -
      assume q: "?ch < ChainID (row_of q)" "q \<in> set (cont b)"
      then have "row_pair q" using rp by (simp add: list_all_iff)
      then have "fst p < fst q"
        using q row_pairD [OF rpp] row_pairD [of q] by (simp add: chainPrefix_def key_chain_less)
      then show "Q q" using Q(2) pin q by blast
    qed
    have sub: "?nx = filter (\<lambda>q. ?ch < ChainID (row_of q)) ps"
      unfolding Q(1) filter_filter by (rule filter_cong [OF refl]) (use up in blast)
    also have "\<dots> = filter (\<lambda>q. ?ch < ChainID (row_of q)) qs" by (simp add: Cons)
    finally have nqs: "?nx = filter (\<lambda>q. ?ch < ChainID (row_of q)) qs" .
    then have shorter: "length ?nx < length ps" using Cons by (simp add: less_Suc_eq_le)
    have ids: "chain_ids ps = ?ch # chain_ids ?nx"
    proof -
      have "keys_sorted ps" "list_all row_pair ps"
        using srt rp unfolding Q(1) by (auto simp: list_all_iff)
      then show ?thesis unfolding Cons nqs by (rule chain_ids_Cons)
    qed
    have keep: "\<exists>Q. ?nx = filter Q (cont b) \<and>
        (\<forall>p \<in> set (cont b). \<forall>q \<in> set (cont b). fst p < fst q \<longrightarrow> Q p \<longrightarrow> Q q)"
    proof (intro exI conjI ballI impI)
      fix q r assume "q \<in> set (cont b)" "r \<in> set (cont b)" "fst q < fst r" "?ch < ChainID (row_of q)"
      moreover from this rp have "row_pair q" "row_pair r" by (simp_all add: list_all_iff)
      ultimately show "?ch < ChainID (row_of r)"
        using row_pairD [of q] row_pairD [of r] by (auto simp: chainPrefix_def key_chain_less)
    qed simp
    show ?thesis
    proof (cases "case limit of None \<Rightarrow> False | Some l \<Rightarrow> \<not> int (length out) < l")
      case True
      then show ?thesis by (auto simp: step item split: option.splits)
    next
      case False
      then show ?thesis using less.hyps [OF shorter nx keep, of "out @ [?ch]"]
        by (auto simp: step item sp ids split: option.splits)
    qed
  qed
qed

lemma Chains_bolt_rows:
  assumes B: "bbolt_ok B cont pos" and wf: "wf_bolt cont s"
  shows "Chains_bolt B NoFault False s = Some (Inr (chain_ids (cont (d_entries s))))"
proof -
  have "chains_walk B (d_entries s) None [] (bb_First B (d_entries s)) =
      Some (Inr ([] @ take_upto None (length ([] :: string list)) (chain_ids (cont (d_entries s)))))"
    by (rule chains_walk_steps [OF B])
       (use wf in \<open>simp_all add: wf_bolt_def bbolt_okD(7) [OF B] exI [of _ "\<lambda>_. True"]\<close>)
  then show ?thesis by (simp add: Chains_bolt_def)
qed

lemma chain_ids_rows:
  assumes B: "bbolt_ok B cont pos" and wf: "wf_bolt cont s"
  shows "sorted_wrt (<) (chain_ids (cont (d_entries s)))"
    and "set (chain_ids (cont (d_entries s))) = {c. bolt_rows cont s c \<noteq> []}"
proof -
  have rp: "list_all row_pair (cont (d_entries s))" using wf by (simp add: wf_bolt_def)
  note ids = chain_ids_sorted [OF bbolt_okD(1) [OF B] rp]
  show "sorted_wrt (<) (chain_ids (cont (d_entries s)))" by (simp add: ids strict_sorted_iff)
  show "set (chain_ids (cont (d_entries s))) = {c. bolt_rows cont s c \<noteq> []}"
    by (auto simp: ids bolt_rows_def entries_of_def filter_empty_conv)
qed

lemma ChainsAfter_bolt_rows:
  assumes B: "bbolt_ok B cont pos" and wf: "wf_bolt cont s" and l: "1 \<le> limit"
  shows "ChainsAfter_bolt B NoFault False None limit s =
      Some (Inr (take (nat limit) (chain_ids (cont (d_entries s)))))"
    and "keySep \<notin> set a \<Longrightarrow> ChainsAfter_bolt B NoFault False (Some a) limit s =
      Some (Inr (take (nat limit) (filter (\<lambda>c. a < c) (chain_ids (cont (d_entries s))))))"
proof -
  let ?ps = "cont (d_entries s)"
  have rp: "list_all row_pair ?ps" using wf by (simp add: wf_bolt_def)
  note srt = bbolt_okD(1) [OF B, of "d_entries s"]
  have "chains_walk B (d_entries s) (Some limit) [] (bb_First B (d_entries s)) =
      Some (Inr ([] @ take_upto (Some limit) (length ([] :: string list)) (chain_ids ?ps)))"
    by (rule chains_walk_steps [OF B]) (simp_all add: rp bbolt_okD(7) [OF B] exI [of _ "\<lambda>_. True"])
  then show "ChainsAfter_bolt B NoFault False None limit s = Some (Inr (take (nat limit) (chain_ids ?ps)))"
    using l by (simp add: ChainsAfter_bolt_def take_upto_def)
  assume a: "keySep \<notin> set a"
  let ?nx = "filter (\<lambda>p. a < ChainID (row_of p)) ?ps"
  have "chains_walk B (d_entries s) (Some limit) [] (bb_Seek B (a @ [CHR 0x01]) (d_entries s)) =
      Some (Inr ([] @ take_upto (Some limit) (length ([] :: string list)) (chain_ids ?nx)))"
  proof (rule chains_walk_steps [OF B rp])
    show "snd (pos (bb_Seek B (a @ [CHR 0x01]) (d_entries s))) = ?nx"
      using after_chain [OF srt rp a] by (simp add: bbolt_okD(8) [OF B])
    show "\<exists>Q. ?nx = filter Q ?ps \<and> (\<forall>p \<in> set ?ps. \<forall>q \<in> set ?ps. fst p < fst q \<longrightarrow> Q p \<longrightarrow> Q q)"
    proof (intro exI conjI ballI impI)
      fix q r assume "q \<in> set ?ps" "r \<in> set ?ps" "fst q < fst r" "a < ChainID (row_of q)"
      moreover from this rp have "row_pair q" "row_pair r" by (simp_all add: list_all_iff)
      ultimately show "a < ChainID (row_of r)"
        using row_pairD [of q] row_pairD [of r] by (auto simp: chainPrefix_def key_chain_less)
    qed simp
  qed
  moreover have "chain_ids ?nx = filter (\<lambda>c. a < c) (chain_ids ?ps)"
  proof (rule sorted_distinct_set_unique)
    have "list_all row_pair ?nx" using rp by (simp add: list_all_iff)
    note ids = chain_ids_sorted [OF keys_sorted_filter [OF srt] this] and all = chain_ids_sorted [OF srt rp]
    show "sorted (chain_ids ?nx)" "distinct (chain_ids ?nx)" by (simp_all add: ids)
    show "sorted (filter (\<lambda>c. a < c) (chain_ids ?ps))" "distinct (filter (\<lambda>c. a < c) (chain_ids ?ps))"
      by (simp_all add: all sorted_wrt_filter)
    show "set (chain_ids ?nx) = set (filter (\<lambda>c. a < c) (chain_ids ?ps))" by (auto simp: ids all)
  qed
  ultimately show "ChainsAfter_bolt B NoFault False (Some a) limit s =
      Some (Inr (take (nat limit) (filter (\<lambda>c. a < c) (chain_ids ?ps))))"
    using l by (simp add: ChainsAfter_bolt_def take_upto_def)
qed

end
