(* ===== verification/Bolt_Write.thy ===== *)
theory Bolt_Write
  imports Bolt_Rows
begin

section \<open>The bolt store simulates the memory store\<close>

text \<open>
  Two stores are the same when they have the same rows, head records and leases. A write that the bolt
  store reports as done is one the memory store does too, with the same store after it; one it reports
  as failed changed nothing, whether the database failed to begin, to put or to commit. The rows and
  records must come back from JSON as they went in (\<open>entry_plain\<close>, \<open>state_plain\<close>).

  From the simulation: the interface \<open>store_port\<close> on the bolt store's methods, so the linker's append is
  proved over it, and the reads of the two stores agree.
\<close>

subsection \<open>One pair put\<close>

lemma keys_sorted_distinct: "keys_sorted ps \<Longrightarrow> distinct (map fst ps)"
  by (simp add: keys_sorted_def strict_sorted_iff)

lemma put_set:
  assumes "bbolt_ok B cont pos" "bb_Put B k v b = Inr b'"
  shows "p \<in> set (cont b') \<longleftrightarrow> (if fst p = k then snd p = v else p \<in> set (cont b))"
proof -
  have "p \<in> set (cont b'') \<longleftrightarrow> map_of (cont b'') (fst p) = Some (snd p)" for b''
    using map_of_eq_Some_iff [OF keys_sorted_distinct [OF bbolt_okD(1) [OF assms(1)]]] by (metis prod.collapse)
  then show ?thesis using bbolt_okD(3) [OF assms] by auto
qed

lemma set_bolt_rows: "set (bolt_rows cont s c) = {e. \<exists>p \<in> set (cont (d_entries s)). row_of p = e \<and> ChainID e = c}"
  by (auto simp: bolt_rows_def entries_of_def)

definition row_fits :: "entry \<Rightarrow> bool" where
  "row_fits e \<longleftrightarrow> entry_plain e \<and> ChainID e \<noteq> [] \<and> keySep \<notin> set (ChainID e) \<and> 0 \<le> GlobalSeq e"

lemma row_fits_pair:
  assumes "row_fits e" "marshal_entry e = Some raw"
  shows "row_pair (entryKey (ChainID e) (GlobalSeq e), raw)" and "row_of (entryKey (ChainID e) (GlobalSeq e), raw) = e"
proof -
  have "unmarshal_entry raw = Some e" and "seq_ok (GlobalSeq e)"
    using assms unmarshal_marshal_entry by (simp_all add: row_fits_def entry_plain_def seq_ok_def int64_def)
  then show "row_pair (entryKey (ChainID e) (GlobalSeq e), raw)" "row_of (entryKey (ChainID e) (GlobalSeq e), raw) = e"
    using assms(1) by (simp_all add: row_pair_def row_of_def row_fits_def entryKey_seq)
qed

lemma put_entry:
  assumes B: "bbolt_ok B cont pos" and wf: "wf_bolt cont s" and e: "row_fits e" "marshal_entry e = Some raw"
    and put: "bb_Put B (entryKey (ChainID e) (GlobalSeq e)) raw (d_entries s) = Inr b"
  shows "wf_bolt cont (s\<lparr>d_entries := b\<rparr>)"
    and "lookup (bolt_rows cont (s\<lparr>d_entries := b\<rparr>) c) n =
      (if c = ChainID e \<and> n = GlobalSeq e then Some e else lookup (bolt_rows cont s c) n)"
proof -
  let ?k = "entryKey (ChainID e) (GlobalSeq e)" and ?s = "s\<lparr>d_entries := b\<rparr>"
  note mem = put_set [OF B put]
  note new = row_fits_pair [OF e]
  have rp: "\<forall>p \<in> set (cont (d_entries s)). row_pair p" using wf by (simp add: wf_bolt_def list_all_iff)
  have "row_pair p" if "p \<in> set (cont b)" for p
  proof (cases "fst p = ?k")
    case True
    with that have "p = (?k, raw)" using mem [of p] by (simp add: prod_eq_iff)
    with new(1) show ?thesis by simp
  next
    case False
    with that rp mem show ?thesis by simp
  qed
  with wf show wf': "wf_bolt cont ?s" by (simp add: wf_bolt_def list_all_iff)
  have seq: "seq_ok (GlobalSeq e)" using e(1) by (simp add: row_fits_def entry_plain_def seq_ok_def int64_def)
  have key: "fst p = ?k \<longleftrightarrow> ChainID (row_of p) = ChainID e \<and> GlobalSeq (row_of p) = GlobalSeq e" if "row_pair p" for p
    using row_pairD [OF that] seq e(1) by (simp add: row_fits_def entryKey_seq)
  have set': "x \<in> set (bolt_rows cont ?s c) \<longleftrightarrow>
      (if c = ChainID e \<and> GlobalSeq x = GlobalSeq e then x = e else x \<in> set (bolt_rows cont s c))" for x
  proof
    assume "x \<in> set (bolt_rows cont ?s c)"
    then obtain p where p: "p \<in> set (cont b)" "row_of p = x" "ChainID x = c" by (auto simp: set_bolt_rows)
    show "if c = ChainID e \<and> GlobalSeq x = GlobalSeq e then x = e else x \<in> set (bolt_rows cont s c)"
    proof (cases "fst p = ?k")
      case True
      then have "p = (?k, raw)" using p(1) mem [of p] by (simp add: prod_eq_iff)
      then show ?thesis using p new(2) by simp
    next
      case False
      then have "p \<in> set (cont (d_entries s))" using p(1) mem by simp
      then show ?thesis using False key [of p] rp p by (auto simp: set_bolt_rows)
    qed
  next
    assume x: "if c = ChainID e \<and> GlobalSeq x = GlobalSeq e then x = e else x \<in> set (bolt_rows cont s c)"
    show "x \<in> set (bolt_rows cont ?s c)"
    proof (cases "c = ChainID e \<and> GlobalSeq x = GlobalSeq e")
      case True
      then have "x = e" using x by simp
      moreover have "(?k, raw) \<in> set (cont b)" using mem by simp
      ultimately show ?thesis using new(2) True by (force simp: set_bolt_rows)
    next
      case False
      then obtain p where p: "p \<in> set (cont (d_entries s))" "row_of p = x" "ChainID x = c"
        using x by (auto simp: set_bolt_rows split: if_splits)
      moreover from this have "fst p \<noteq> ?k" using key [of p] rp False by auto
      ultimately show ?thesis using mem [of p] by (force simp: set_bolt_rows)
    qed
  qed
  have d: "distinct (map GlobalSeq (bolt_rows cont s c))" "distinct (map GlobalSeq (bolt_rows cont ?s c))"
    using wf_rows_bolt [OF B wf] wf_rows_bolt [OF B wf'] by (simp_all add: wf_rows_def strict_sorted_iff)
  show "lookup (bolt_rows cont ?s c) n =
      (if c = ChainID e \<and> n = GlobalSeq e then Some e else lookup (bolt_rows cont s c) n)"
  proof (rule option.exhaust [of "lookup (bolt_rows cont ?s c) n"])
    fix x assume "lookup (bolt_rows cont ?s c) n = Some x"
    then show ?thesis using lookup_iff [OF d(2), of n x] lookup_iff [OF d(1), of n x] set' [of x] by auto
  next
    assume none: "lookup (bolt_rows cont ?s c) n = None"
    then have no: "x \<in> set (bolt_rows cont ?s c) \<Longrightarrow> GlobalSeq x \<noteq> n" for x by (auto simp: lookup_None)
    show ?thesis
    proof (cases "c = ChainID e \<and> n = GlobalSeq e")
      case True
      then show ?thesis using no [of e] set' [of e] by simp
    next
      case False
      have "GlobalSeq x \<noteq> n" if "x \<in> set (bolt_rows cont s c)" for x
        using that no [of x] set' [of x] False by auto
      then have "lookup (bolt_rows cont s c) n = None" by (auto simp: lookup_None)
      with False none show ?thesis by simp
    qed
  qed
qed

subsection \<open>Writing rows\<close>

definition bolt_contents :: "('b \<Rightarrow> pairs) \<Rightarrow> 'b bolt_db \<Rightarrow> string \<times> int \<rightharpoonup> entry" where
  "bolt_contents cont s = (\<lambda>(c, n). lookup (bolt_rows cont s c) n)"

lemma validateEntries_None:
  "validateEntries i es = None \<longleftrightarrow>
     (\<forall>e \<in> set es. ChainID e \<noteq> [] \<and> EntryID e \<noteq> [] \<and> 0 \<le> GlobalSeq e \<and> keySep \<notin> set (ChainID e))"
  by (induction i es rule: validateEntries.induct) auto

lemma putEntries_contents:
  "bbolt_ok B cont pos \<Longrightarrow> wf_bolt cont s \<Longrightarrow> \<forall>e \<in> set es. row_fits e \<Longrightarrow> putEntries B es s = Inr s' \<Longrightarrow>
     wf_bolt cont s' \<and> bolt_contents cont s' = put_all es (bolt_contents cont s) \<and>
     d_state s' = d_state s \<and> d_leases s' = d_leases s"
proof (induction es arbitrary: s)
  case Nil
  then show ?case by (simp add: put_all_def)
next
  case (Cons e es)
  then obtain raw b where raw: "marshal_entry e = Some raw"
    and put: "bb_Put B (entryKey (ChainID e) (GlobalSeq e)) raw (d_entries s) = Inr b"
    and rest: "putEntries B es (s\<lparr>d_entries := b\<rparr>) = Inr s'"
    by (auto split: option.splits sum.splits)
  have e: "row_fits e" using Cons.prems(3) by simp
  note new = put_entry [OF Cons.prems(1,2) e raw put]
  have "bolt_contents cont (s\<lparr>d_entries := b\<rparr>) = (bolt_contents cont s)((ChainID e, GlobalSeq e) \<mapsto> e)"
    by (rule ext) (auto simp: bolt_contents_def new(2) split: if_splits)
  then show ?case using Cons.IH [OF Cons.prems(1) new(1) _ rest] Cons.prems(3) by (simp add: put_all_Cons fun_upd_def)
qed

text \<open>The memory store with the same contents has the same rows.\<close>

lemma same_rows:
  assumes "bbolt_ok B cont pos" "wf_bolt cont s" "wf_mem m" "contents m = bolt_contents cont s"
  shows "rows m = bolt_rows cont s"
proof
  fix c
  show "rows m c = bolt_rows cont s c"
  proof (rule rows_ext)
    show "sorted_wrt (<) (map GlobalSeq (rows m c))" using wf_mem_rows [OF assms(3)] by (simp add: wf_rows_def)
    show "sorted_wrt (<) (map GlobalSeq (bolt_rows cont s c))"
      using wf_rows_bolt [OF assms(1,2)] by (simp add: wf_rows_def)
    show "lookup (rows m c) n = lookup (bolt_rows cont s c) n" for n
      using fun_cong [OF assms(4), of "(c, n)"] by (simp add: contents_def bolt_contents_def)
  qed
qed

lemma putEntries_simulates:
  assumes B: "bbolt_ok B cont pos" and wf: "wf_bolt cont s" and es: "\<forall>e \<in> set es. row_fits e"
    and m: "wf_mem m" "rows m = bolt_rows cont s" and put: "putEntries B es s = Inr s'"
  shows "wf_bolt cont s'" and "rows (upsertLocked es m) = bolt_rows cont s'"
    and "d_state s' = d_state s" and "d_leases s' = d_leases s"
proof -
  note p = putEntries_contents [OF B wf es put]
  then show wf': "wf_bolt cont s'" and "d_state s' = d_state s" and "d_leases s' = d_leases s" by simp_all
  have "contents m = bolt_contents cont s" by (simp add: contents_def bolt_contents_def m(2))
  then have "contents (upsertLocked es m) = bolt_contents cont s'" using p contents_upsert [OF m(1)] by simp
  then show "rows (upsertLocked es m) = bolt_rows cont s'"
    using same_rows [OF B wf' wf_mem_upsert [OF m(1)]] by simp
qed

subsection \<open>Head records and leases\<close>

text \<open>What a stored record decodes to, when there is one.\<close>

definition bolt_states :: "('b \<Rightarrow> pairs) \<Rightarrow> 'b bolt_db \<Rightarrow> string \<rightharpoonup> chain_state option" where
  "bolt_states cont s = map_option unmarshal_state \<circ> map_of (cont (d_state s))"

definition bolt_leases :: "('b \<Rightarrow> pairs) \<Rightarrow> 'b bolt_db \<Rightarrow> string \<rightharpoonup> string" where
  "bolt_leases cont s = map_of (cont (d_leases s))"

text \<open>What one store reads, the other does.\<close>

definition same_store :: "('b \<Rightarrow> pairs) \<Rightarrow> 'b bolt_db \<Rightarrow> mem \<Rightarrow> bool" where
  "same_store cont s m \<longleftrightarrow>
     rows m = bolt_rows cont s \<and> map_option Some \<circ> m_state m = bolt_states cont s \<and> m_leases m = bolt_leases cont s"

lemma bolt_fields [simp]:
  "bolt_rows cont (s\<lparr>d_state := x\<rparr>) = bolt_rows cont s" "bolt_rows cont (s\<lparr>d_leases := y\<rparr>) = bolt_rows cont s"
  "bolt_states cont (s\<lparr>d_entries := z\<rparr>) = bolt_states cont s" "bolt_states cont (s\<lparr>d_leases := y\<rparr>) = bolt_states cont s"
  "bolt_leases cont (s\<lparr>d_entries := z\<rparr>) = bolt_leases cont s" "bolt_leases cont (s\<lparr>d_state := x\<rparr>) = bolt_leases cont s"
  "wf_bolt cont (s\<lparr>d_leases := y\<rparr>) = wf_bolt cont s" "wf_bolt cont (s\<lparr>d_state := x\<rparr>) = wf_bolt cont s"
  by (simp_all add: bolt_rows_def bolt_states_def bolt_leases_def wf_bolt_def fun_eq_iff)

lemma putState_simulates:
  assumes B: "bbolt_ok B cont pos" and wf: "wf_bolt cont s" and put: "putState B st s = Inr s'" and st: "state_plain st"
  shows "st_ChainID st \<noteq> []" and "wf_bolt cont s'" and "bolt_rows cont s' = bolt_rows cont s"
    and "bolt_states cont s' = (bolt_states cont s)(st_ChainID st \<mapsto> Some st)" and "bolt_leases cont s' = bolt_leases cont s"
proof -
  obtain raw b where p: "marshal_state st = Some raw" "bb_Put B (st_ChainID st) raw (d_state s) = Inr b"
      "s' = s\<lparr>d_state := b\<rparr>"
    and ne: "st_ChainID st \<noteq> []"
    using put by (auto simp: putState_def split: if_splits option.splits sum.splits)
  have un: "unmarshal_state raw = Some st" using unmarshal_marshal_state [OF st p(1)] .
  show "st_ChainID st \<noteq> []" by (fact ne)
  show "wf_bolt cont s'" using wf by (simp add: p(3))
  show "bolt_states cont s' = (bolt_states cont s)(st_ChainID st \<mapsto> Some st)"
    using bbolt_okD(3) [OF B p(2)] un by (auto simp: p(3) bolt_states_def)
qed (use put in \<open>auto simp: putState_def split: if_splits option.splits sum.splits\<close>)

lemma putStates_simulates:
  "bbolt_ok B cont pos \<Longrightarrow> wf_bolt cont s \<Longrightarrow> putStates B sts s = Inr s' \<Longrightarrow> \<forall>st \<in> set sts. state_plain st \<Longrightarrow>
     wf_bolt cont s' \<and> bolt_rows cont s' = bolt_rows cont s \<and>
     bolt_states cont s' = foldl (\<lambda>m st. m(st_ChainID st \<mapsto> Some st)) (bolt_states cont s) sts \<and>
     bolt_leases cont s' = bolt_leases cont s"
proof (induction sts arbitrary: s)
  case (Cons st sts)
  then obtain s1 where s1: "putState B st s = Inr s1" "putStates B sts s1 = Inr s'" by (auto split: sum.splits)
  have "state_plain st" using Cons.prems(4) by simp
  note p = putState_simulates [OF Cons.prems(1,2) s1(1) this]
  show ?case using Cons.IH [OF Cons.prems(1) p(2) s1(2)] Cons.prems(4) p by simp
qed simp

lemma decoded_states:
  "map_option Some \<circ> foldl (\<lambda>m st. m(st_ChainID st \<mapsto> st)) f sts =
     foldl (\<lambda>m st. m(st_ChainID st \<mapsto> Some st)) (map_option Some \<circ> f) sts"
  by (induction sts arbitrary: f) (simp_all add: comp_def fun_upd_def if_distrib cong: if_cong)

subsection \<open>Transactions\<close>

text \<open>A call that reports an error left the database as it was, unless it panicked and its transaction
  reached the disk.\<close>

definition landed :: "db_fault \<Rightarrow> store_error \<Rightarrow> bool" where
  "landed f e \<longleftrightarrow> (\<exists>m. f = Panics m True \<and> e = ErrCorrupt m)"

lemma landed_Corrupt: "landed f e \<Longrightarrow> \<exists>m. e = ErrCorrupt m"
  by (auto simp: landed_def)

lemma db_update_cases:
  assumes "db_update wrap f fn s = (r, s')"
  shows "(\<exists>e. r = Inl e \<and> s' = s) \<or>
    (\<exists>a. fn s = Inr (a, s') \<and> (r = Inr a \<and> f = NoFault \<or> (\<exists>e. landed f e \<and> r = Inl (wrap e))))"
  using assms by (cases f) (auto simp: db_update_def landed_def split: sum.splits if_splits)

lemma outcome_simps [simp]: "outcome (Inl e, s) = (Some e, s)" "outcome (Inr u, s) = (None, s)"
  by (simp_all add: outcome_def)

lemma outcome_update_cases:
  assumes "outcome (db_update wrap f fn s) = (r, s')"
  shows "(\<exists>e. r = Some e \<and> s' = s) \<or>
    fn s = Inr ((), s') \<and> (r = None \<and> f = NoFault \<or> (\<exists>e. landed f e \<and> r = Some (wrap e)))"
proof -
  obtain q t where q: "db_update wrap f fn s = (q, t)" by force
  then show ?thesis using db_update_cases [OF q] assms by auto
qed

subsection \<open>Every write simulates\<close>

definition rows_fit :: "entry list \<Rightarrow> bool" where
  "rows_fit es \<longleftrightarrow> list_all entry_plain es"

lemma rows_fit_row: "rows_fit es \<Longrightarrow> validateEntries i es = None \<Longrightarrow> \<forall>e \<in> set es. row_fits e"
  by (auto simp: rows_fit_def list_all_iff row_fits_def validateEntries_None)

lemma WriteBatch_bolt_simulates:
  assumes B: "bbolt_ok B cont pos" and wf: "wf_bolt cont s" "wf_mem m" and es: "rows_fit es" and same: "same_store cont s m"
    and run: "WriteBatch_bolt B f done es s = (r, s')"
  shows "(\<exists>e. r = Some e \<and> s' = s) \<or>
    (r = None \<or> (\<exists>e. r = Some e \<and> landed f e)) \<and>
    wf_bolt cont s' \<and> (\<exists>m'. WriteBatch done es m = (None, m') \<and> wf_mem m' \<and> same_store cont s' m')"
proof (cases "done \<or> validateEntries 0 es \<noteq> None")
  case True
  then show ?thesis using run by (auto simp: WriteBatch_bolt_def split: if_splits option.splits)
next
  case False
  then have d: "\<not> done" and v: "validateEntries 0 es = None" by simp_all
  have o: "outcome (db_update id f (\<lambda>s. map_sum id (Pair ()) (putEntries B es s)) s) = (r, s')"
    using run d v by (simp add: WriteBatch_bolt_def)
  have "(r = None \<or> (\<exists>e. r = Some e \<and> landed f e)) \<and>
      wf_bolt cont s' \<and> (\<exists>m'. WriteBatch done es m = (None, m') \<and> wf_mem m' \<and> same_store cont s' m')"
    if wrote: "map_sum id (Pair ()) (putEntries B es s) = Inr ((), s')" and r: "r = None \<or> (\<exists>e. r = Some e \<and> landed f e)"
  proof -
    have put: "putEntries B es s = Inr s'" using wrote by (cases "putEntries B es s") auto
    have rows: "rows m = bolt_rows cont s" using same by (simp add: same_store_def)
    note sim = putEntries_simulates [OF B wf(1) rows_fit_row [OF es v] wf(2) rows put]
    have "WriteBatch done es m = (None, upsertLocked es m)"
      using d v check_ids_None [of 0 es] by (simp add: WriteBatch_def validateEntries_None)
    moreover have "same_store cont s' (upsertLocked es m)"
      using same sim by (simp add: same_store_def upsertLocked_eq bolt_states_def bolt_leases_def)
    ultimately show ?thesis using r sim(1) wf_mem_upsert [OF wf(2)] by auto
  qed
  then show ?thesis using outcome_update_cases [OF o] by auto
qed

lemma PutState_bolt_simulates:
  assumes B: "bbolt_ok B cont pos" and wf: "wf_bolt cont s" "wf_mem m" and same: "same_store cont s m"
    and plain: "\<forall>st. ptr = Some st \<longrightarrow> state_plain st" and run: "PutState_bolt B f done ptr s = (r, s')"
  shows "(\<exists>e. r = Some e \<and> s' = s) \<or>
    (r = None \<or> (\<exists>e. r = Some e \<and> landed f e)) \<and>
    wf_bolt cont s' \<and> (\<exists>m'. PutState done ptr m = (None, m') \<and> wf_mem m' \<and> same_store cont s' m')"
proof (cases "done \<or> ptr = None")
  case True
  then show ?thesis using run by (auto simp: PutState_bolt_def split: if_splits)
next
  case False
  then obtain st where st: "ptr = Some st" "\<not> done" by auto
  then have o: "outcome (db_update id f (\<lambda>s. map_sum id (Pair ()) (putState B st s)) s) = (r, s')"
    using run by (simp add: PutState_bolt_def)
  have "wf_bolt cont s' \<and> (\<exists>m'. PutState done ptr m = (None, m') \<and> wf_mem m' \<and> same_store cont s' m')"
    if wrote: "map_sum id (Pair ()) (putState B st s) = Inr ((), s')"
  proof -
    have put: "putState B st s = Inr s'" using wrote by (cases "putState B st s") auto
    have "state_plain st" using plain st by simp
    note sim = putState_simulates [OF B wf(1) put this]
    show ?thesis using st sim same wf(2) by (auto simp: PutState_def same_store_def)
  qed
  then show ?thesis using outcome_update_cases [OF o] by auto
qed

lemma mem_fields [simp]:
  "rows (m\<lparr>m_leases := x\<rparr>) = rows m" "rows (m\<lparr>m_state := y\<rparr>) = rows m"
  by (simp_all add: fun_eq_iff)

lemma Acquire_bolt_cases:
  assumes B: "bbolt_ok B cont pos" and run: "Acquire_bolt B rand f done c s = (r, s')"
  shows "(\<exists>e. r = Inl e \<and> s' = s) \<or>
    (r = Inr None \<and> s' = s \<and> \<not> done \<and> bolt_leases cont s c \<noteq> None) \<or>
    (\<exists>bs b. rand = Some bs \<and> \<not> done \<and> s' = s\<lparr>d_leases := b\<rparr> \<and>
       bolt_leases cont s c = None \<and> bolt_leases cont s' = (bolt_leases cont s)(c \<mapsto> hex_encode bs) \<and>
       (r = Inr (Some (hex_encode bs)) \<or> (\<exists>e. r = Inl e \<and> landed f e)))"
proof (cases "done \<or> rand = None")
  case True
  then show ?thesis using run by (auto simp: Acquire_bolt_def split: if_splits)
next
  case False
  then obtain bs where bs: "rand = Some bs" "\<not> done" by auto
  let ?txn = "\<lambda>s. if bb_Get B c (d_leases s) \<noteq> None then Inr (None, s)
      else (case bb_Put B c (hex_encode bs) (d_leases s) of
              Inl m \<Rightarrow> Inl (DatabaseError m) | Inr b \<Rightarrow> Inr (Some (hex_encode bs), s\<lparr>d_leases := b\<rparr>))"
  have u: "db_update id f ?txn s = (r, s')" using run bs by (simp add: Acquire_bolt_def Let_def)
  from db_update_cases [OF u] show ?thesis
  proof (elim disjE [of "\<exists>e. r = Inl e \<and> s' = s"] exE conjE)
    fix a assume a: "?txn s = Inr (a, s')" "r = Inr a \<and> f = NoFault \<or> (\<exists>e. landed f e \<and> r = Inl (id e))"
    show ?thesis
    proof (cases "bb_Get B c (d_leases s)")
      case None
      then obtain b where b: "bb_Put B c (hex_encode bs) (d_leases s) = Inr b" "a = Some (hex_encode bs)"
        "s' = s\<lparr>d_leases := b\<rparr>" using a(1) by (auto split: sum.splits)
      have "bolt_leases cont s c = None" using None by (simp add: bolt_leases_def bbolt_okD(5) [OF B])
      moreover have "bolt_leases cont s' = (bolt_leases cont s)(c \<mapsto> hex_encode bs)"
        using bbolt_okD(3) [OF B b(1)] by (simp add: bolt_leases_def b(3))
      ultimately show ?thesis using a(2) b bs by auto
    next
      case (Some t)
      then show ?thesis using a bs by (auto simp: bolt_leases_def bbolt_okD(5) [OF B])
    qed
  qed simp
qed

lemma Acquire_bolt_simulates:
  assumes B: "bbolt_ok B cont pos" and wf: "wf_bolt cont s" "wf_mem m" and same: "same_store cont s m"
    and run: "Acquire_bolt B rand f done c s = (r, s')"
  shows "(\<exists>e. r = Inl e \<and> s' = s) \<or>
    (\<exists>a. (r = Inr a \<or> (\<exists>e. r = Inl e \<and> landed f e)) \<and>
       wf_bolt cont s' \<and> (\<exists>m'. Acquire rand done c m = (Inr a, m') \<and> wf_mem m' \<and> same_store cont s' m'))"
  using Acquire_bolt_cases [OF B run]
proof (elim disjE exE conjE)
  assume a: "r = Inr None" "s' = s" "\<not> done" "bolt_leases cont s c \<noteq> None"
  have "rand \<noteq> None" using run a(1,3) by (cases rand) (auto simp: Acquire_bolt_def)
  then show ?thesis using a same wf by (auto simp: Acquire_def same_store_def Let_def)
qed (use same wf in \<open>auto simp: Acquire_def same_store_def Let_def\<close>)

lemma Release_bolt_cases:
  assumes B: "bbolt_ok B cont pos" and run: "Release_bolt B f done c token s = (r, s')"
  shows "(\<exists>e. r = Some e \<and> s' = s) \<or>
    (\<exists>b. (r = None \<or> (\<exists>e. r = Some e \<and> landed f e)) \<and> \<not> done \<and> s' = s\<lparr>d_leases := b\<rparr> \<and>
       bolt_leases cont s c = Some token \<and> bolt_leases cont s' = (bolt_leases cont s)(c := None))"
proof (cases "done")
  case True
  then show ?thesis using run by (auto simp: Release_bolt_def)
next
  case False
  let ?txn = "\<lambda>s. case bb_Get B c (d_leases s) of
       None \<Rightarrow> Inl NoLeaseHeld
     | Some held \<Rightarrow> if held \<noteq> token then Inl LeaseMismatch
         else map_sum DatabaseError (\<lambda>b. ((), s\<lparr>d_leases := b\<rparr>)) (bb_Delete B c (d_leases s))"
  have o: "outcome (db_update id f ?txn s) = (r, s')" using run False by (simp add: Release_bolt_def)
  from outcome_update_cases [OF o] show ?thesis
  proof (elim disjE [of "\<exists>e. r = Some e \<and> s' = s"] conjE)
    assume a: "?txn s = Inr ((), s')" "r = None \<and> f = NoFault \<or> (\<exists>e. landed f e \<and> r = Some (id e))"
    then obtain b where b: "bb_Get B c (d_leases s) = Some token" "bb_Delete B c (d_leases s) = Inr b"
      "s' = s\<lparr>d_leases := b\<rparr>" by (auto split: option.splits if_splits sum.splits simp: map_sum_def)
    have "bolt_leases cont s' = (bolt_leases cont s)(c := None)"
      using bbolt_okD(6) [OF B b(2)] by (simp add: bolt_leases_def b(3))
    then show ?thesis using a(2) b False by (auto simp: bbolt_okD(5) [OF B] bolt_leases_def)
  qed simp
qed

lemma Release_bolt_simulates:
  assumes B: "bbolt_ok B cont pos" and wf: "wf_bolt cont s" "wf_mem m" and same: "same_store cont s m"
    and run: "Release_bolt B f done c token s = (r, s')"
  shows "(\<exists>e. r = Some e \<and> s' = s) \<or>
    (r = None \<or> (\<exists>e. r = Some e \<and> landed f e)) \<and>
    wf_bolt cont s' \<and> (\<exists>m'. Release done c token m = (None, m') \<and> wf_mem m' \<and> same_store cont s' m')"
  using Release_bolt_cases [OF B run] same wf by (auto simp: Release_def same_store_def)

subsection \<open>\<open>UpdateChains\<close> simulates\<close>

lemma check_leases_bolt_eq:
  assumes "bbolt_ok B cont pos" "same_store cont s m"
  shows "check_leases_bolt B ids s = check_leases m ids"
  using assms(2) by (induction ids) (simp_all add: bbolt_okD(5) [OF assms(1)] same_store_def bolt_leases_def)

lemma check_names_no_nul: "check_names i ids nm = None \<Longrightarrow> c \<in> set ids \<Longrightarrow> c \<noteq> [] \<and> keySep \<notin> set c"
  by (induction i ids nm rule: check_names.induct) (auto simp: keySep_def split: if_splits)

lemma tails_bolt:
  assumes "bbolt_ok B cont pos" "wf_bolt cont s" "same_store cont s m" "\<forall>c \<in> set ids. keySep \<notin> set c"
  shows "collect (map (\<lambda>c. tailOf B c s) ids) = Inr (map (read_tail_row m) ids)"
  using assms by (auto simp: tailOf_rows read_tail_row_rows same_store_def)

lemma UpdateChains_bolt_simulates:
  assumes B: "bbolt_ok B cont pos" and wf: "wf_bolt cont s" "wf_mem m" and same: "same_store cont s m"
    and plain: "\<forall>g tails es sts. fn = Some g \<and> g tails = Inr (es, sts) \<longrightarrow> rows_fit es \<and> list_all state_plain sts"
    and run: "UpdateChains_bolt B f done ids fn s = (r, s')"
  shows "(\<exists>e. r = Some e \<and> s' = s) \<or>
    (r = None \<or> (\<exists>e. r = Some (StoreErr e) \<and> landed f e)) \<and>
    wf_bolt cont s' \<and> (\<exists>m'. UpdateChains done ids fn m = (None, m') \<and> wf_mem m' \<and> same_store cont s' m')"
proof (cases "done \<or> ids = [] \<or> fn = None \<or> check_names 0 ids {} \<noteq> None")
  case True
  then show ?thesis using run by (auto simp: UpdateChains_bolt_def split: if_splits option.splits)
next
  case False
  then obtain g where g: "fn = Some g" "\<not> done" "ids \<noteq> []" "check_names 0 ids {} = None" by auto
  have o: "outcome (db_update StoreErr f (update_txn B ids g) s) = (r, s')"
    using run g by (simp add: UpdateChains_bolt_def)
  from outcome_update_cases [OF o] show ?thesis
  proof (elim disjE [of "\<exists>e. r = Some e \<and> s' = s"] conjE)
    assume a: "r = None \<and> f = NoFault \<or> (\<exists>e. landed f e \<and> r = Some (StoreErr e))" "update_txn B ids g s = Inr ((), s')"
    note ls = check_leases_bolt_eq [OF B same, of ids]
    have ts: "collect (map (\<lambda>c. tailOf B c s) ids) = Inr (map (read_tail_row m) ids)"
      using check_names_no_nul [OF g(4)] by (intro tails_bolt [OF B wf(1) same]) blast
    have cl: "check_leases m ids = None" using a(2) ls by (auto simp: update_txn_def split: option.splits)
    obtain es sts where gt: "g (map (read_tail_row m) ids) = Inr (es, sts)"
      using a(2) ls ts cl by (auto simp: update_txn_def split: sum.splits)
    have v: "validateEntries 0 es = None" and ca: "CheckAppend (map (read_tail_row m) ids) es sts = None"
      using a(2) ls ts cl gt by (auto simp: update_txn_def split: option.splits)
    obtain s1 where s1: "putEntries B es s = Inr s1" "putStates B sts s1 = Inr s'"
      using a(2) ls ts cl gt v ca by (auto simp: update_txn_def map_sum_def split: sum.splits)
    have fit: "rows_fit es" "\<forall>st \<in> set sts. state_plain st" using plain g(1) gt by (auto simp: list_all_iff)
    have rows: "rows m = bolt_rows cont s" using same by (simp add: same_store_def)
    note sim = putEntries_simulates [OF B wf(1) rows_fit_row [OF fit(1) v] wf(2) rows s1(1)]
    note sim2 = putStates_simulates [OF B sim(1) s1(2) fit(2)]
    have ids: "check_both_ids 0 es = None" using v by (simp add: check_both_ids_None validateEntries_None)
    have u: "UpdateChains done ids fn m = (None, put_states sts (upsertLocked es m))"
      using g cl gt ids ca by (simp add: UpdateChains_def)
    have "bolt_states cont s1 = bolt_states cont s" "bolt_leases cont s1 = bolt_leases cont s"
      using sim by (simp_all add: bolt_states_def bolt_leases_def)
    moreover have "rows (put_states sts (upsertLocked es m)) = rows (upsertLocked es m)"
      by (simp add: put_states_def fun_eq_iff)
    moreover have "m_state (put_states sts (upsertLocked es m)) = foldl (\<lambda>m st. m(st_ChainID st \<mapsto> st)) (m_state m) sts"
      "m_leases (put_states sts (upsertLocked es m)) = m_leases m"
      by (simp_all add: put_states_def upsertLocked_eq)
    ultimately have "same_store cont s' (put_states sts (upsertLocked es m))"
      using same sim2 sim(2) by (simp only: same_store_def decoded_states)
    then show ?thesis using a(1) u sim2 wf_mem_upsert [OF wf(2)] by auto
  qed simp
qed

end
