(* ===== verification/Bolt_Contract.thy ===== *)
theory Bolt_Contract
  imports Bolt_Write Linker
begin

section \<open>What the bolt store promises\<close>

text \<open>
  The reads of the bolt store are the memory store's, and its methods are a \<open>store_port\<close> whenever an error
  means that nothing was written, so that the linker's append is proved over it, faults of the database
  included. Runs of calls on a handle are histories of the memory store, also when a call panics and
  leaves open whether it was written. The listing of the store's chains pages without loss.
\<close>

subsection \<open>Reads\<close>

lemma foldl_last_opt: "foldl (\<lambda>best e. if P e then Some e else best) None xs = last_opt (filter P xs)"
  by (induction xs rule: rev_induct) (auto simp: last_opt_def)

lemma reads_agree:
  assumes B: "bbolt_ok B cont pos" and wf: "wf_bolt cont s" and same: "same_store cont s m" and c: "keySep \<notin> set c"
    and a: "a < 2 ^ 63"
  shows "ReadTail_bolt B NoFault done c s = ReadTail done c m"
    and "0 \<le> a \<Longrightarrow> Predecessor_bolt B NoFault done c a s = Predecessor done c a m"
    and "0 \<le> b \<Longrightarrow> b < 2 ^ 63 \<Longrightarrow> Range_bolt B NoFault done c a b limit s = Some (Range done c a b limit m)"
    and "Bounds_bolt B NoFault done c s = Some (Bounds done c m)"
    and "GetState_bolt B NoFault done c s = GetState done c m"
proof -
  have rows: "bolt_rows cont s c = rows m c" using same by (simp add: same_store_def)
  show "ReadTail_bolt B NoFault done c s = ReadTail done c m"
    by (auto simp: ReadTail_bolt_def ReadTail_def db_view_def tailOf_rows [OF B wf c] rows rows_tail_def Let_def)
  show "Predecessor_bolt B NoFault done c a s = Predecessor done c a m" if "0 \<le> a"
  proof -
    have "seq_ok a" using that a by (simp add: seq_ok_def)
    then show ?thesis
      by (auto simp: Predecessor_bolt_def Predecessor_def db_view_def predecessor_rows [OF B wf c] rows foldl_last_opt
          split: option.splits)
  qed
  show "Range_bolt B NoFault done c a b limit s = Some (Range done c a b limit m)" if "0 \<le> b" "b < 2 ^ 63"
  proof -
    have "seq_ok b" using that by (simp add: seq_ok_def)
    then show ?thesis using range_loop_eq [of limit 0 a b "rows m c"]
      by (auto simp: Range_bolt_def Range_def Range_bolt_rows [OF B wf c a] rows cut_def Let_def)
  qed
  show "Bounds_bolt B NoFault done c s = Some (Bounds done c m)"
    using Bounds_bolt_rows [OF B wf c] by (simp add: Bounds_bolt_def Bounds_def rows)
  have "map_option unmarshal_state (map_of (cont (d_state s)) c) = map_option Some (m_state m c)"
    using same by (simp add: same_store_def bolt_states_def fun_eq_iff)
  then show "GetState_bolt B NoFault done c s = GetState done c m"
    by (auto simp: GetState_bolt_def GetState_def db_view_def state_item_def bbolt_okD(5) [OF B] split: option.splits)
qed

subsection \<open>The bolt store provides the port\<close>

text \<open>A memory store with the same rows.\<close>

definition mem_of :: "('b \<Rightarrow> pairs) \<Rightarrow> 'b bolt_db \<Rightarrow> mem" where
  "mem_of cont s = New\<lparr>m_entries := (\<lambda>c. Some (bolt_rows cont s c))\<rparr>"

lemma mem_of_facts:
  assumes "bbolt_ok B cont pos" "wf_bolt cont s"
  shows "wf_mem (mem_of cont s)" and "rows (mem_of cont s) = bolt_rows cont s"
  using wf_rows_bolt [OF assms] by (auto simp: wf_mem_def mem_of_def)

text \<open>The faults after which an error means that nothing was written: all but a panic whose transaction
  reached the disk all the same.\<close>

definition unwritten_on_error :: "db_fault \<Rightarrow> bool" where
  "unwritten_on_error f = (case f of Panics _ reached \<Rightarrow> \<not> reached | _ \<Rightarrow> True)"

lemma unwritten_not_landed: "unwritten_on_error f \<Longrightarrow> \<not> landed f e"
  by (auto simp: unwritten_on_error_def landed_def)

lemma bolt_port_write:
  assumes B: "bbolt_ok B cont pos" and wf: "wf_bolt cont s" and c: "c \<noteq> []" and f: "unwritten_on_error f"
    and ids: "\<forall>e \<in> set es. ChainID e = c \<and> EntryID e \<noteq> [] \<and> entry_plain e"
    and app: "room (bolt_rows cont s c) (length es)"
      "continues (last_seq (bolt_rows cont s c) + 1) (last_hash (bolt_rows cont s c)) es"
    and run: "WriteBatch_bolt B f False es s = (w, s')"
  shows "wf_bolt cont s' \<and> bolt_leases cont s' = bolt_leases cont s \<and>
    bolt_rows cont s' = (if w = None then (bolt_rows cont s)(c := bolt_rows cont s c @ es) else bolt_rows cont s)"
proof (cases "validateEntries 0 es")
  case (Some e)
  then show ?thesis using run wf by (auto simp: WriteBatch_bolt_def)
next
  case None
  have o: "outcome (db_update id f (\<lambda>s. map_sum id (Pair ()) (putEntries B es s)) s) = (w, s')"
    using run None by (simp add: WriteBatch_bolt_def)
  have fit: "rows_fit es" using ids by (simp add: rows_fit_def list_all_iff)
  note m = mem_of_facts [OF B wf]
  from outcome_update_cases [OF o] unwritten_not_landed [OF f]
  have "(\<exists>e. w = Some e \<and> s' = s) \<or> w = None \<and> map_sum id (Pair ()) (putEntries B es s) = Inr ((), s')" by blast
  then show ?thesis
  proof (elim disjE exE conjE)
    assume w: "w = None" "map_sum id (Pair ()) (putEntries B es s) = Inr ((), s')"
    then have put: "putEntries B es s = Inr s'" by (cases "putEntries B es s") auto
    note sim = putEntries_simulates [OF B wf rows_fit_row [OF fit None] m put]
    have "\<forall>e \<in> set es. ChainID e = c \<and> EntryID e \<noteq> []" using ids by simp
    from write_appends(3) [OF m(1) c this, unfolded m(2), OF app] show ?thesis
      using w(1) sim by (simp add: bolt_leases_def)
  qed (simp add: wf)
qed

lemma view_error_other: "view_error f \<noteq> Some ErrEmptyChain"
  by (cases f) (simp_all add: errPoisoned_def)

interpretation bolt: store_port "bolt_ops B rand faults"
    "\<lambda>s. bbolt_ok B cont pos \<and> wf_bolt cont s \<and> (\<forall>k. unwritten_on_error (faults k))"
    "bolt_rows cont" "bolt_leases cont" "\<lambda>c. keySep \<notin> set c" entry_plain
proof
  fix s c r
  assume v: "bbolt_ok B cont pos \<and> wf_bolt cont s \<and> (\<forall>k. unwritten_on_error (faults k))" and c: "keySep \<notin> set c"
    and run: "op_read_tail (bolt_ops B rand faults) False c s = r"
  then show "(r = Inl ErrEmptyChain \<longrightarrow> bolt_rows cont s c = []) \<and>
      (\<forall>h n. r = Inr (h, n) \<longrightarrow> bolt_rows cont s c \<noteq> [] \<and> h = last_hash (bolt_rows cont s c) \<and>
         n = last_seq (bolt_rows cont s c))"
    using tailOf_rows [of B cont pos s c] view_error_other [of "faults 0"]
    by (auto simp: bolt_ops_def ReadTail_bolt_def db_view_def rows_tail_def last_hash_def last_seq_def
        split: option.splits if_splits)
next
  show "op_read_tail (bolt_ops B rand faults) True c s = Inl ContextDone" for c s
    by (simp add: bolt_ops_def ReadTail_bolt_def)
next
  fix s s' c es w
  assume "bbolt_ok B cont pos \<and> wf_bolt cont s \<and> (\<forall>k. unwritten_on_error (faults k))" "c \<noteq> []"
    and "\<forall>e \<in> set es. ChainID e = c \<and> EntryID e \<noteq> [] \<and> entry_plain e"
    and "room (bolt_rows cont s c) (length es)"
      "continues (last_seq (bolt_rows cont s c) + 1) (last_hash (bolt_rows cont s c)) es"
    and "op_write_batch (bolt_ops B rand faults) False es s = (w, s')"
  then show "(bbolt_ok B cont pos \<and> wf_bolt cont s' \<and> (\<forall>k. unwritten_on_error (faults k))) \<and> bolt_leases cont s' = bolt_leases cont s \<and>
      bolt_rows cont s' = (if w = None then (bolt_rows cont s)(c := bolt_rows cont s c @ es) else bolt_rows cont s)"
    using bolt_port_write [of B cont pos s c "faults 1" es w s'] by (simp add: bolt_ops_def)
next
  show "op_write_batch (bolt_ops B rand faults) True es s = (Some ContextDone, s)" for es s
    by (simp add: bolt_ops_def WriteBatch_bolt_def)
next
  fix s d st r' s'
  assume v: "bbolt_ok B cont pos \<and> wf_bolt cont s \<and> (\<forall>k. unwritten_on_error (faults k))" and run: "op_put_state (bolt_ops B rand faults) d st s = (r', s')"
  have "s' = s \<or> (\<exists>st b. s' = s\<lparr>d_state := b\<rparr>)"
  proof (cases "d \<or> st = None")
    case True
    then show ?thesis using run by (auto simp: bolt_ops_def PutState_bolt_def split: if_splits)
  next
    case False
    then obtain x where "outcome (db_update id (faults 2) (\<lambda>s. map_sum id (Pair ()) (putState B x s)) s) = (r', s')"
      using run by (auto simp: bolt_ops_def PutState_bolt_def)
    from outcome_update_cases [OF this] have "s' = s \<or> map_sum id (Pair ()) (putState B x s) = Inr ((), s')" by blast
    then show ?thesis
      by (auto simp: putState_def map_sum_def split: if_splits option.splits sum.splits)
  qed
  with v show "(bbolt_ok B cont pos \<and> wf_bolt cont s' \<and> (\<forall>k. unwritten_on_error (faults k))) \<and> bolt_rows cont s' = bolt_rows cont s \<and>
      bolt_leases cont s' = bolt_leases cont s" by auto
next
  fix s d c a s'
  assume v: "bbolt_ok B cont pos \<and> wf_bolt cont s \<and> (\<forall>k. unwritten_on_error (faults k))" and run: "op_acquire (bolt_ops B rand faults) d c s = (a, s')"
  show "(bbolt_ok B cont pos \<and> wf_bolt cont s' \<and> (\<forall>k. unwritten_on_error (faults k))) \<and> bolt_rows cont s' = bolt_rows cont s \<and>
      bolt_leases cont s' = (case a of Inr (Some t) \<Rightarrow> (bolt_leases cont s)(c := Some t) | _ \<Rightarrow> bolt_leases cont s) \<and>
      (case a of Inr (Some t) \<Rightarrow> bolt_leases cont s c = None | _ \<Rightarrow> True)"
    using Acquire_bolt_cases [of B cont pos rand "faults 3" d c s a s'] v run unwritten_not_landed [of "faults 3"]
    by (auto simp: bolt_ops_def)
next
  fix s c t w s'
  assume v: "bbolt_ok B cont pos \<and> wf_bolt cont s \<and> (\<forall>k. unwritten_on_error (faults k))" and held: "bolt_leases cont s c = Some t"
    and run: "op_release (bolt_ops B rand faults) False c t s = (w, s')"
  show "(bbolt_ok B cont pos \<and> wf_bolt cont s' \<and> (\<forall>k. unwritten_on_error (faults k))) \<and> bolt_rows cont s' = bolt_rows cont s \<and>
      bolt_leases cont s' = (if w = None then (bolt_leases cont s)(c := None) else bolt_leases cont s)"
    using Release_bolt_cases [of B cont pos "faults 4" False c t s w s'] v run unwritten_not_landed [of "faults 4"]
    by (auto simp: bolt_ops_def)
qed

subsection \<open>Histories of calls\<close>


datatype reply = Done | Failed | Corrupt

definition reply_of :: "store_error option \<Rightarrow> reply" where
  "reply_of r = (case r of None \<Rightarrow> Done | Some (ErrCorrupt m) \<Rightarrow> Corrupt | Some e \<Rightarrow> Failed)"

definition update_reply :: "'e update_error option \<Rightarrow> reply" where
  "update_reply r =
     (case r of None \<Rightarrow> Done | Some (StoreErr e) \<Rightarrow> reply_of (Some e) | Some (CallbackErr e) \<Rightarrow> Failed)"



text \<open>An open handle is the database and the flag of its guard (\<open>fault.Guard\<close>): the first call that panics
  sets the flag, and from then on no call enters the library. Writes are one at a time.\<close>

record 'b handle =
  h_db :: "'b bolt_db"
  h_poisoned :: bool







lemma reply_of_simps [simp]:
  "reply_of None = Done" "reply_of (Some (ErrCorrupt m)) = Corrupt" "reply_of (Some e) \<noteq> Done"
  "update_reply None = Done" "update_reply (Some (StoreErr e)) = reply_of (Some e)" "update_reply (Some u) \<noteq> Done"
  by (simp_all add: reply_of_def update_reply_def split: store_error.split update_error.split)







definition empty_bolt :: "('b, 'c) bbolt \<Rightarrow> 'b bolt_db" where
  "empty_bolt B = open_init B (\<lambda>_. None)"

lemma empty_bolt_facts:
  "bbolt_ok B cont pos \<Longrightarrow> wf_bolt cont (empty_bolt B)" "bbolt_ok B cont pos \<Longrightarrow> same_store cont (empty_bolt B) New"
  by (simp_all add: empty_bolt_def open_init_def wf_bolt_def same_store_def bbolt_okD(2) New_def rows_def [abs_def]
      bolt_rows_def [abs_def] bolt_states_def bolt_leases_def comp_def)

definition new_handle :: "('b, 'c) bbolt \<Rightarrow> 'b handle" where
  "new_handle B = \<lparr>h_db = empty_bolt B, h_poisoned = False\<rparr>"

lemma new_handle_fields [simp]: "h_db (new_handle B) = empty_bolt B" "\<not> h_poisoned (new_handle B)"
  by (simp_all add: new_handle_def)

subsection \<open>Linked rows are rows the store keeps unchanged\<close>

lemma lower_hex_ascii: "is_lower_hex c \<Longrightarrow> byte_in 0 0x7F c"
  by (auto simp: is_lower_hex_def byte_in_def less_eq_char_def)

lemma utf8_lower_hex: "list_all is_lower_hex s \<Longrightarrow> utf8_valid s"
  by (rule utf8_valid_ascii) (auto simp: list_all_iff lower_hex_ascii)

lemma utf8_hash_shapes: "prev_shape p \<Longrightarrow> utf8_valid p" "content_shape c \<Longrightarrow> utf8_valid c"
proof -
  show "prev_shape p \<Longrightarrow> utf8_valid p" by (auto simp: prev_shape_def is_hex128_def utf8_lower_hex)
  show "content_shape c \<Longrightarrow> utf8_valid c"
    by (auto simp: content_shape_def is_hex128_def utf8_lower_hex ValidateTombstoneContentHash_iff
        TombstoneContentHashPrefix_def)
qed

definition input_plain :: "input \<Rightarrow> bool" where
  "input_plain b \<longleftrightarrow> utf8_valid (i_EntryID b) \<and> utf8_valid (i_EntryType b) \<and> wf_time (i_Timestamp b)"

lemma entry_hash_shapes:
  "entry_hash format prev runID k n t content = Inr h \<Longrightarrow> prev_shape prev \<and> content_shape content \<and> is_hex128 h"
  by (auto simp: entry_hash_def ComputeChainHash_Inr ComputeChainHashV3_Inr ValidateChainHashInputs_iff
      ValidateChainHashInputsV3_iff split: if_splits)

lemma linked_plain:
  "linked format c n runID i prev bs es \<Longrightarrow> list_all input_plain bs \<Longrightarrow> utf8_valid c \<Longrightarrow>
     (format = FormatV2 \<longrightarrow> utf8_valid runID) \<Longrightarrow> format = FormatV2 \<or> format = FormatV3 \<Longrightarrow> i + length bs < 2 ^ 62 \<Longrightarrow> \<forall>e \<in> set es. entry_plain e"
proof (induction format c n runID i prev bs es rule: linked.induct)
  case (2 format c n runID i prev b bs es)
  then obtain e es' where es: "es = e # es'"
    and e: "e = entry_for format c runID (wrap64 (n + int i)) i prev (ChainHash e) b"
    and h: "entry_hash format prev runID (int i) (wrap64 (n + int i)) (i_Timestamp b) (i_ContentHash b) = Inr (ChainHash e)"
    and rest: "linked format c n runID (Suc i) (ChainHash e) bs es'" by (cases es) auto
  have "\<forall>x \<in> set es'. entry_plain x" using 2 es rest by simp
  moreover have "int64 (int i)"
  proof -
    have "i < 2 ^ 62" using "2.prems"(6) by simp
    then have "int i < 2 ^ 62" by (metis of_nat_less_iff of_nat_numeral of_nat_power)
    then show ?thesis by (simp add: int64_def)
  qed
  moreover have "utf8_valid prev" "utf8_valid (i_ContentHash b)" "utf8_valid (ChainHash e)"
    using entry_hash_shapes [OF h] utf8_hash_shapes by (auto simp: is_hex128_def utf8_lower_hex)
  moreover have "EntryType e = i_EntryType b" "RunID e = (if format = FormatV2 then runID else [])"
    "SequenceNum e = (if format = FormatV2 then int i else 0)"
    using arg_cong [OF e, of EntryType] arg_cong [OF e, of RunID] arg_cong [OF e, of SequenceNum]
    by (simp_all add: entry_for_def)
  moreover have "ChainID e = c" "EntryID e = i_EntryID b" "FormatVersion e = format" "GlobalSeq e = wrap64 (n + int i)"
    "Timestamp e = i_Timestamp b" "ContentHash e = i_ContentHash b" "PreviousHash e = prev"
    using e by (metis entry_for_fields)+
  moreover have "int64 format" using "2.prems"(5) by (auto simp: FormatV2_def FormatV3_def int64_def)
  moreover have "int64 0" by (simp add: int64_def)
  ultimately show ?case using "2.prems"(2-4) es
    by (auto simp: entry_plain_def input_plain_def)
qed simp

subsection \<open>The linker over the bolt store\<close>

lemma append_over_bolt:
  assumes B: "bbolt_ok B cont pos" and wf: "wf_bolt cont s" and c: "keySep \<notin> set c" "utf8_valid c"
    and l: "l_store l = bolt_ops B rand faults" "l_format l = FormatV3"
    and room: "room (bolt_rows cont s c) (length inputs)" and few: "length inputs < 2 ^ 62"
    and plain: "list_all input_plain inputs" and faults: "\<forall>k. unwritten_on_error (faults k)"
    and run: "Append_linker l ctxs c inputs s = (r, s')"
  shows "wf_bolt cont s' \<and>
    (bolt_leases cont s' = bolt_leases cont s \<or>
       (\<exists>t s0 e. bolt_leases cont s0 = (bolt_leases cont s)(c := Some t) \<and>
          Release_bolt B (faults 4) False c t s0 = (Some e, s'))) \<and>
    (case wrote r of
       None \<Rightarrow> bolt_rows cont s' = bolt_rows cont s
     | Some res \<Rightarrow> \<exists>es. batch_ok inputs \<and> bolt_leases cont s c = None \<and>
         link l c (last_hash (bolt_rows cont s c)) (last_seq (bolt_rows cont s c) + 1) (r_RunID res) (sortInputs inputs) = Inr es \<and>
         bolt_rows cont s' = (bolt_rows cont s)(c := bolt_rows cont s c @ es) \<and> res = result_of (r_RunID res) es)"
proof -
  have st: "\<forall>e \<in> set es. entry_plain e"
    if lk: "link l c (last_hash (bolt_rows cont s c)) (last_seq (bolt_rows cont s c) + 1) runID (sortInputs inputs) = Inr es" for runID es
  proof -
    have "linked FormatV3 c (last_seq (bolt_rows cont s c) + 1) runID 0 (last_hash (bolt_rows cont s c)) (sortInputs inputs) es"
      using lk l(2) by (simp add: link_def link_loop_linked)
    from linked_plain [OF this] show ?thesis using plain c(2) few
      by (simp add: list_all_iff FormatV2_def FormatV3_def)
  qed
  show ?thesis
    using bolt.append_cases [OF _ c(1) l(1) room st run] B wf faults by (simp add: bolt_ops_def)
qed

subsection \<open>An append over the bolt store that writes\<close>

lemma linked_times:
  "linked format c n runID i prev bs es \<Longrightarrow> map Timestamp es = map i_Timestamp bs"
proof (induction format c n runID i prev bs es rule: linked.induct)
  case (2 format c n runID i prev b bs es)
  then show ?case by (cases es) (auto, (metis entry_for_fields)+)
qed simp

lemma putEntries_total:
  "\<forall>k v b. \<exists>b'. bb_Put B k v b = Inr b' \<Longrightarrow> \<forall>e \<in> set es. json_time_ok (Timestamp e) \<Longrightarrow> \<exists>s'. putEntries B es s = Inr s'"
proof (induction es arbitrary: s)
  case (Cons e es)
  obtain raw where raw: "marshal_entry e = Some raw" using Cons.prems(2) by (simp add: marshal_entry_def)
  obtain b where "bb_Put B (entryKey (ChainID e) (GlobalSeq e)) raw (d_entries s) = Inr b" using Cons.prems(1) by blast
  with raw show ?case using Cons by simp
qed simp

lemma append_over_bolt_writes:
  assumes B: "bbolt_ok B cont pos" and puts: "\<forall>k v b. \<exists>b'. bb_Put B k v b = Inr b'" and wf: "wf_bolt cont s"
    and l: "l_store l = bolt_ops B (Some tok) (\<lambda>_. NoFault)" "l_format l = FormatV3"
    and room: "room (bolt_rows cont s c) (length inputs)" and low: "-1 \<le> last_seq (bolt_rows cont s c)"
    and prev: "prev_shape (last_hash (bolt_rows cont s c))"
    and free: "bolt_leases cont s c = None" and c: "c \<noteq> []" "keySep \<notin> set c" and ne: "inputs \<noteq> []" and ok: "batch_ok inputs"
    and shapes: "list_all (\<lambda>b. content_shape (i_ContentHash b) \<and> ExpectChainHash b = []) inputs"
  shows "\<exists>r s'. Append_linker l (\<lambda>_. False) c inputs s = (r, s') \<and> wrote r \<noteq> None"
proof -
  let ?rows = "bolt_rows cont s c" and ?b = "sortInputs inputs"
  let ?n = "last_seq ?rows + 1" and ?p = "last_hash ?rows"
  obtain lb where lb: "bb_Put B c (hex_encode tok) (d_leases s) = Inr lb" using puts by blast
  let ?s1 = "s\<lparr>d_leases := lb\<rparr>"
  have get: "bb_Get B c (d_leases s) = None" using free by (simp add: bolt_leases_def bbolt_okD(5) [OF B])
  have ac: "op_acquire (bolt_ops B (Some tok) (\<lambda>_. NoFault)) False c s = (Inr (Some (hex_encode tok)), ?s1)"
    using get lb by (simp add: bolt_ops_def Acquire_bolt_def db_update_def Let_def)
  have wf1: "wf_bolt cont ?s1" and rows1: "bolt_rows cont ?s1 c = ?rows"
    using wf by (simp_all add: wf_bolt_def bolt_rows_def)
  have len: "1 \<le> length inputs" using ne by (cases inputs) auto
  have n: "int64 ?n" using room len low unfolding room_def int64_def by linarith
  have n2: "?n + int (length inputs) \<le> 2 ^ 63" using room by (simp add: room_def)
  have "list_all (\<lambda>b. content_shape (i_ContentHash b) \<and> ExpectChainHash b = [] \<and> ValidateTimestamp (i_Timestamp b) = None) ?b"
    using shapes ok by (auto simp: list_all_iff batch_ok_def input_ok_def)
  then obtain es where li: "linked FormatV3 c ?n [] 0 ?p ?b es"
    using linked_v3_total [OF prev, of ?n 0 ?b c "[]"] low n2 by auto
  have es: "length es = length inputs" using linked_length [OF li] by simp
  have "op_read_tail (bolt_ops B (Some tok) (\<lambda>_. NoFault)) False c ?s1 =
      (if ?rows = [] then Inl ErrEmptyChain else Inr (?p, last_seq ?rows))"
    using tailOf_rows [OF B wf1 c(2)]
    by (simp add: bolt_ops_def ReadTail_bolt_def db_view_def rows1 rows_tail_def last_hash_def last_seq_def)
  then have cn: "continuation l False c ?s1 = Inr (?p, ?n)"
    using l(1) n by (cases "?rows = []") (simp_all add: continuation_def last_hash_def last_seq_def)
  have lk: "link l c ?p ?n [] ?b = Inr es" using li l(2) by (simp add: link_def link_loop_linked)
  have seqs: "map GlobalSeq es = map (\<lambda>i. ?n + int i) [0..<length es]"
    using continues_seqs [of ?n ?p es] linked_continues [OF li] n n2 es by simp
  have fields: "ChainID e = c \<and> EntryID e \<noteq> [] \<and> 0 \<le> GlobalSeq e \<and> json_time_ok (Timestamp e)" if "e \<in> set es" for e
  proof -
    have "EntryID e \<in> set (map i_EntryID ?b)" "Timestamp e \<in> set (map i_Timestamp ?b)"
      using that linked_ids [OF li] linked_times [OF li] by (metis image_eqI list.set_map)+
    moreover have "GlobalSeq e \<in> set (map (\<lambda>i. ?n + int i) [0..<length es])"
      using that seqs by (metis image_eqI list.set_map)
    ultimately show ?thesis
      using linked_ids [OF li] that ok low
      by (auto simp: batch_ok_def list_all_iff input_ok_def ValidateTimestamp_iff json_time_ok_def)
  qed
  obtain s2 where put: "putEntries B es ?s1 = Inr s2" using putEntries_total [OF puts] fields by blast
  have "validateEntries 0 es = None" using fields c by (auto simp: validateEntries_None)
  then have w: "op_write_batch (bolt_ops B (Some tok) (\<lambda>_. NoFault)) False es ?s1 = (None, s2)"
    using put by (simp add: bolt_ops_def WriteBatch_bolt_def db_update_def)
  obtain ps s3 where pt: "op_put_state (bolt_ops B (Some tok) (\<lambda>_. NoFault)) False (Some (head_state (l_now l 0) c es)) s2 = (ps, s3)"
    by force
  have "append_leased l (\<lambda>_. False) c [] ?b ?s1 =
      ((case ps of None \<Rightarrow> Inr (result_of [] es) | Some e \<Rightarrow> Inl (ErrHeadStateStale (result_of [] es) e)), s3)"
    using cn lk l(1) w pt by (simp add: append_leased_def split: option.split)
  then show ?thesis
    using c ne ac l by (auto simp: Append_linker_def validateBatchOrdering_ok [OF ok] wrote_def Let_def split: option.split)
qed

text \<open>A library whose \<open>Put\<close> takes keys and values of every size.\<close>

definition roomy_bbolt :: "((bytes, bytes) rbt, pairs \<times> pairs) bbolt" where
  "roomy_bbolt = rbt_bbolt\<lparr>bb_Put := (\<lambda>k v b. Inr (RBT.insert k v b))\<rparr>"

lemma roomy_bbolt_ok: "bbolt_ok roomy_bbolt RBT.entries id" "\<forall>k v b. \<exists>b'. bb_Put roomy_bbolt k v b = Inr b'"
  using rbt_bbolt_ok by (simp_all add: bbolt_ok_def roomy_bbolt_def RBT.map_of_entries rbt_bbolt_def)

subsection \<open>Positions below zero\<close>

text \<open>A negative position is a key after every key of the chain: in eight bytes it starts with a byte of
  at least 128.\<close>

lemma negative_key:
  assumes "n < 0" "- (2 ^ 63) \<le> n"
  shows "entryKey c n = chainPrefix c @ be_bytes 8 (nat (n + 2 ^ 64))"
    and "seq_ok m \<Longrightarrow> seq_bytes m < be_bytes 8 (nat (n + 2 ^ 64))"
proof -
  have "n mod 2 ^ 64 = n + 2 ^ 64"
    using assms mod_add_self2 [of n "2 ^ 64"] mod_pos_pos_trivial [of "n + 2 ^ 64" "2 ^ 64"] by simp
  then show "entryKey c n = chainPrefix c @ be_bytes 8 (nat (n + 2 ^ 64))"
    by (simp add: entryKey_def chainPrefix_def)
  assume m: "seq_ok m"
  have "nat (n + 2 ^ 64) < 256 ^ 8"
  proof -
    have "0 \<le> n + 2 ^ 64" "n + 2 ^ 64 < 2 ^ 64" using assms by simp_all
    then have "nat (n + 2 ^ 64) < nat (2 ^ 64)" by simp
    then show ?thesis by simp
  qed
  moreover have "nat m < nat (n + 2 ^ 64)"
    using m assms(2) by (auto simp: seq_ok_def)
  ultimately show "seq_bytes m < be_bytes 8 (nat (n + 2 ^ 64))"
    using be_bytes_less [OF nat_seq [OF m]] by (simp add: seq_bytes_def)
qed

lemma all_below:
  assumes rp: "list_all row_pair ps" and c: "keySep \<notin> set c" and x: "\<forall>m. seq_ok m \<longrightarrow> seq_bytes m < x"
  shows "prefixed (chainPrefix c) (filter (\<lambda>p. fst p < chainPrefix c @ x) ps) = prefixed (chainPrefix c) ps"
proof -
  have "has_prefix (chainPrefix c) (fst p) \<and> fst p < chainPrefix c @ x \<longleftrightarrow> has_prefix (chainPrefix c) (fst p)"
    if "p \<in> set ps" for p
    using that rp c row_pairD [of p] row_pair_prefix [of p c] x
    by (auto simp: list_all_iff)
  then show ?thesis by (simp add: prefixed_def conj_commute cong: filter_cong)
qed

lemma predecessor_negative:
  assumes B: "bbolt_ok B cont pos" and wf: "wf_bolt cont s" and c: "keySep \<notin> set c" and n: "n < 0" "- (2 ^ 63) \<le> n"
  shows "predecessor_item B c n s = Inr (last_opt (bolt_rows cont s c))"
proof -
  let ?ps = "cont (d_entries s)"
  have rp: "list_all row_pair ?ps" using wf by (simp add: wf_bolt_def)
  have rows: "bolt_rows cont s c = map row_of (prefixed (chainPrefix c) ?ps)"
    by (simp add: bolt_rows_def rows_prefixed [OF rp c])
  have "row_pair (last (prefixed (chainPrefix c) ?ps))" if "prefixed (chainPrefix c) ?ps \<noteq> []"
    using prefixed_sub [OF last_in_set [OF that]] rp by (simp add: list_all_iff)
  moreover have top: "\<forall>m. seq_ok m \<longrightarrow> seq_bytes m < be_bytes 8 (nat (n + 2 ^ 64))"
    using negative_key(2) [OF n] by blast
  ultimately show ?thesis
    unfolding predecessor_item_def Let_def negative_key(1) [OF n] before_prefixed [OF B refl] all_below [OF rp c top] rows
    using row_pairD(1) [of "last (prefixed (chainPrefix c) ?ps)"] by (cases "prefixed (chainPrefix c) ?ps = []") auto
qed

lemma range_negative:
  assumes B: "bbolt_ok B cont pos" and wf: "wf_bolt cont s" and c: "keySep \<notin> set c"
    and n: "n < 0" "- (2 ^ 63) \<le> n"
  shows "Range_bolt B NoFault False c 0 n 0 s = Some (Inr (bolt_rows cont s c))"
proof -
  let ?ps = "cont (d_entries s)" and ?P = "chainPrefix c" and ?x = "be_bytes 8 (nat (n + 2 ^ 64))"
  let ?hi = "dropWhile (\<lambda>p. fst p < ?P @ seq_bytes 0) ?ps"
  have rp: "list_all row_pair ?ps" using wf by (simp add: wf_bolt_def)
  note srt = bbolt_okD(1) [OF B, of "d_entries s"]
  have z: "seq_ok 0" by (simp add: seq_ok_def)
  have top: "seq_ok (2 ^ 63 - 1)" by (simp add: seq_ok_def)
  have rp2: "list_all row_pair ?hi" using rp set_dropWhileD by (fastforce simp: list_all_iff)
  have same: "(has_prefix ?P (fst p) \<and> fst p \<le> ?P @ ?x) = (has_prefix ?P (fst p) \<and> fst p \<le> ?P @ seq_bytes (2 ^ 63 - 1))"
    if "p \<in> set ?hi" for p
  proof (cases "has_prefix ?P (fst p)")
    case True
    have p: "row_pair p" using that rp2 by (simp add: list_all_iff)
    then have key: "fst p = ?P @ seq_bytes (GlobalSeq (row_of p))" "seq_ok (GlobalSeq (row_of p))"
      using row_pairD [OF p] row_pair_prefix [OF p c] True by auto
    then have "fst p \<le> ?P @ ?x" using negative_key(2) [OF n key(2)] by (auto intro: less_imp_le)
    moreover have "fst p \<le> ?P @ seq_bytes (2 ^ 63 - 1)"
      using key top seq_bytes_less [OF top key(2)] by (simp add: not_less [symmetric] seq_ok_def del: seq_bytes_less) 
    ultimately show ?thesis by blast
  qed simp
  have "takeWhile (\<lambda>p. has_prefix ?P (fst p) \<and> fst p \<le> ?P @ ?x) ?hi =
      takeWhile (\<lambda>p. has_prefix ?P (fst p) \<and> fst p \<le> ?P @ seq_bytes (2 ^ 63 - 1)) ?hi"
    by (rule takeWhile_cong [OF refl same])
  moreover have "snd (pos (bb_Seek B (?P @ seq_bytes 0) (d_entries s))) = ?hi" by (simp add: bbolt_okD(8) [OF B])
  moreover have "filter (\<lambda>e. 0 \<le> GlobalSeq e \<and> GlobalSeq e \<le> 2 ^ 63 - 1) (bolt_rows cont s c) = bolt_rows cont s c"
  proof -
    have "seq_ok (GlobalSeq e)" if "e \<in> set (bolt_rows cont s c)" for e
      using that rp row_pairD(5) by (auto simp: set_bolt_rows list_all_iff)
    then show ?thesis unfolding filter_id_conv seq_ok_def by force
  qed
  ultimately show ?thesis
    using range_walk_steps [OF B _ rp2, of "bb_Seek B (?P @ seq_bytes 0) (d_entries s)" 0 "[]" ?P "?P @ ?x"]
      range_pairs [OF srt rp c z top]
    by (simp add: Range_bolt_def entryKey_seq [OF z] negative_key(1) [OF n] cut_def bolt_rows_def)
qed

subsection \<open>Properties\<close>




text \<open>C30. The reads of the two stores agree. On a bolt store and a memory store that hold the same, the
  tail, the entry before a position, a range with its limit, the bounds and the head record of a chain
  whose id has no zero byte are the same answers, errors included: seeking, stepping back and walking a
  cursor over keys in byte order finds what scanning the chain's rows finds. The walks end.\<close>

theorem bolt_reads_agree:
  assumes "bbolt_ok B cont pos" and "wf_bolt cont s" and "same_store cont s m" and "keySep \<notin> set c"
    and "a < 2 ^ 63" and "0 \<le> b" and "b < 2 ^ 63"
  shows "ReadTail_bolt B NoFault done c s = ReadTail done c m \<and>
    (0 \<le> a \<longrightarrow> Predecessor_bolt B NoFault done c a s = Predecessor done c a m) \<and>
    Range_bolt B NoFault done c a b limit s = Some (Range done c a b limit m) \<and>
    Bounds_bolt B NoFault done c s = Some (Bounds done c m) \<and>
    GetState_bolt B NoFault done c s = GetState done c m"
  using reads_agree [OF assms(1-5)] assms(6,7) by blast

theorem bolt_reads_agree_witness:
  "Range_bolt rbt_bbolt NoFault False ''c'' 0 9 2 (empty_bolt rbt_bbolt) = Some (Range False ''c'' 0 9 2 New)"
  using bolt_reads_agree [OF rbt_bbolt_ok empty_bolt_facts [OF rbt_bbolt_ok], of "''c''" 0 9 False 2]
  by (simp add: keySep_def)

text \<open>C31. An append in format v3 through the linker over the bolt store has the outcomes it has over the
  memory store, also when the database fails: the rows are those from before, or one chain is longer by
  exactly the linked batch and the call reports it; and the lease is given back, unless the database
  itself refused the release. The chain id, the entry ids and the entry types are in UTF-8 (JSON would
  change them otherwise), the chain id has no zero byte, the batch is shorter than \<open>2 ^ 62\<close> and does not
  take the chain past the largest signed 64-bit position. The library behaves as documented and its
  transactions may fail to begin, to put or to commit, or panic; only a panic whose transaction reaches
  the disk all the same is left out, because then an error does not mean that nothing was written.\<close>

theorem append_extends_bolt:
  assumes "bbolt_ok B cont pos" and "wf_bolt cont s" and "keySep \<notin> set c" and "utf8_valid c"
    and "l_store l = bolt_ops B rand faults" and "\<forall>k. unwritten_on_error (faults k)" and "l_format l = FormatV3"
    and "room (bolt_rows cont s c) (length inputs)" and "length inputs < 2 ^ 62" and "list_all input_plain inputs"
    and "Append_linker l ctxs c inputs s = (r, s')"
  shows "wf_bolt cont s' \<and>
    (bolt_leases cont s' = bolt_leases cont s \<or>
       (\<exists>t s0 e. bolt_leases cont s0 = (bolt_leases cont s)(c := Some t) \<and>
          Release_bolt B (faults 4) False c t s0 = (Some e, s'))) \<and>
    (case wrote r of
       None \<Rightarrow> bolt_rows cont s' = bolt_rows cont s
     | Some res \<Rightarrow> \<exists>es. batch_ok inputs \<and> bolt_leases cont s c = None \<and>
         link l c (last_hash (bolt_rows cont s c)) (last_seq (bolt_rows cont s c) + 1) (r_RunID res) (sortInputs inputs) = Inr es \<and>
         bolt_rows cont s' = (bolt_rows cont s)(c := bolt_rows cont s c @ es) \<and> res = result_of (r_RunID res) es)"
  using append_over_bolt [OF assms(1-5,7-10,6,11)] .

theorem append_extends_bolt_witness:
  "let l = \<lparr>l_store = bolt_ops roomy_bbolt (Some ''token'') (\<lambda>_. NoFault), l_now = (\<lambda>_. epoch),
       l_runID = (\<lambda>_. None), l_format = FormatV3\<rparr>
   in \<exists>r s' res es. Append_linker l (\<lambda>_. False) ''c'' example_batch (empty_bolt roomy_bbolt) = (r, s') \<and>
     wrote r = Some res \<and> link l ''c'' [] 0 (r_RunID res) (sortInputs example_batch) = Inr es \<and> length es = 2 \<and>
     bolt_rows RBT.entries s' ''c'' = es \<and> bolt_rows RBT.entries s' ''d'' = [] \<and> res = result_of (r_RunID res) es"
proof -
  let ?l = "\<lparr>l_store = bolt_ops roomy_bbolt (Some ''token'') (\<lambda>_. NoFault), l_now = (\<lambda>_. epoch),
       l_runID = (\<lambda>_. None), l_format = FormatV3\<rparr>"
  note B = roomy_bbolt_ok
  note e = empty_bolt_facts [OF B(1)]
  have rows: "bolt_rows RBT.entries (empty_bolt roomy_bbolt) c = []"
    and lease: "bolt_leases RBT.entries (empty_bolt roomy_bbolt) c = None" for c
    using e(2) New_facts(1,2) [of c] unfolding same_store_def by metis+
  have "\<exists>r s'. Append_linker ?l (\<lambda>_. False) ''c'' example_batch (empty_bolt roomy_bbolt) = (r, s') \<and> wrote r \<noteq> None"
    by (rule append_over_bolt_writes [OF B e(1)]) (simp_all add: rows lease keySep_def room_def int64_def)
  then obtain r s' res where run: "Append_linker ?l (\<lambda>_. False) ''c'' example_batch (empty_bolt roomy_bbolt) = (r, s')"
    and res: "wrote r = Some res" by auto
  have "list_all input_plain example_batch"
    by (simp add: example_batch_def input_plain_def example_input_def wf_time_def epoch_def)
  with append_extends_bolt [OF B(1) e(1) _ _ _ _ _ _ _ _ run, of "Some ''token''" "\<lambda>_. NoFault"] obtain es where
    es: "link ?l ''c'' [] 0 (r_RunID res) (sortInputs example_batch) = Inr es" "bolt_rows RBT.entries s' ''c'' = es"
      "bolt_rows RBT.entries s' ''d'' = []" "res = result_of (r_RunID res) es"
    by (auto simp: rows res keySep_def room_def int64_def unwritten_on_error_def)
  then show ?thesis using run res link_length [OF es(1)] unfolding Let_def by auto
qed

text \<open>The chains of a store are listed once each, in byte order, and paging loses none: \<open>Chains\<close> ends
  and answers exactly the chains with rows, and the page after an id is the ids that follow it in that
  list, cut at the limit.\<close>

theorem chains_paged:
  assumes "bbolt_ok B cont pos" and "wf_bolt cont s" and "1 \<le> limit"
  shows "\<exists>cs. Chains_bolt B NoFault False s = Some (Inr cs) \<and> sorted_wrt (<) cs \<and>
    set cs = {c. bolt_rows cont s c \<noteq> []} \<and>
    ChainsAfter_bolt B NoFault False None limit s = Some (Inr (take (nat limit) cs)) \<and>
    (\<forall>a. keySep \<notin> set a \<longrightarrow>
       ChainsAfter_bolt B NoFault False (Some a) limit s = Some (Inr (take (nat limit) (filter (\<lambda>c. a < c) cs))))"
  using Chains_bolt_rows [OF assms(1,2)] chain_ids_rows [OF assms(1,2)] ChainsAfter_bolt_rows [OF assms] by blast

text \<open>A store with one row, to have one.\<close>

definition one_entry :: entry where
  "one_entry = zero_entry\<lparr>ChainID := ''c'', EntryID := ''e'', Timestamp := epoch\<rparr>"

definition one_pair :: "bytes \<times> bytes" where
  "one_pair = (entryKey ''c'' 0, json_text True (entry_json one_entry))"

definition one_row :: "(bytes, bytes) rbt bolt_db" where
  "one_row = (empty_bolt rbt_bbolt)\<lparr>d_entries := RBT.insert (fst one_pair) (snd one_pair) RBT.empty\<rparr>"

lemma one_row_facts:
  "wf_bolt RBT.entries one_row" "same_store RBT.entries one_row (mem_of RBT.entries one_row)"
  "wf_mem (mem_of RBT.entries one_row)" "rows (mem_of RBT.entries one_row) ''c'' = [one_entry]" "GlobalSeq one_entry = 0"
proof -
  let ?ps = "RBT.entries (RBT.insert (fst one_pair) (snd one_pair) RBT.empty)"
  have fit: "row_fits one_entry"
    by (simp add: row_fits_def one_entry_def entry_plain_def zero_entry_def wf_time_def epoch_def int64_def keySep_def)
  have "json_time_ok epoch" using epoch_facts(1) by (simp only: ValidateTimestamp_iff json_time_ok_def)
  then have "marshal_entry one_entry = Some (snd one_pair)"
    by (simp add: marshal_entry_def one_pair_def one_entry_def)
  note new = row_fits_pair [OF fit this]
  have key: "(entryKey (ChainID one_entry) (GlobalSeq one_entry), snd one_pair) = one_pair"
    by (simp add: one_pair_def one_entry_def zero_entry_def)
  have "map_of ?ps = [fst one_pair \<mapsto> snd one_pair]" by (simp add: RBT.map_of_entries)
  moreover have "distinct (map fst ?ps)" by (rule RBT.distinct_entries)
  ultimately have "p \<in> set ?ps \<longleftrightarrow> p = one_pair" for p
    using map_of_eq_Some_iff [of ?ps "fst p" "snd p"] by (auto simp: prod_eq_iff split: if_splits)
  moreover have "distinct ?ps" using \<open>distinct (map fst ?ps)\<close> by (simp add: distinct_map)
  ultimately have "set ?ps = {one_pair}" "length ?ps = card (set ?ps)" by (auto simp: distinct_card)
  then have "set ?ps = {one_pair}" "length ?ps = Suc 0" by simp_all
  then have ps: "?ps = [one_pair]" by (auto simp: length_Suc_conv)
  have ent: "RBT.entries (d_entries one_row) = [one_pair]" by (simp add: one_row_def ps)
  show wf: "wf_bolt RBT.entries one_row" using new(1) by (simp add: wf_bolt_def ent key)
  note m = mem_of_facts [OF rbt_bbolt_ok wf]
  show "wf_mem (mem_of RBT.entries one_row)" by (fact m(1))
  have "bolt_states RBT.entries one_row = bolt_states RBT.entries (empty_bolt rbt_bbolt)"
    "bolt_leases RBT.entries one_row = bolt_leases RBT.entries (empty_bolt rbt_bbolt)"
    by (simp_all add: one_row_def)
  then show "same_store RBT.entries one_row (mem_of RBT.entries one_row)"
    using empty_bolt_facts(2) [OF rbt_bbolt_ok] m(2) by (simp add: same_store_def mem_of_def New_def)
  show "GlobalSeq one_entry = 0" by (simp add: one_entry_def zero_entry_def)
  have "row_of one_pair = one_entry" using new(2) by (simp add: key)
  then show "rows (mem_of RBT.entries one_row) ''c'' = [one_entry]"
    by (simp add: m(2) bolt_rows_def ent) (simp add: one_entry_def)
qed

text \<open>C32. Below zero the stores differ: a range that ends at a negative position is empty in the memory
  store and is the whole chain in the bolt store, and before a negative position there is no entry in
  the memory store and the last entry of the chain in the bolt store, because a negative position is
  written into a key as a large unsigned one.\<close>

theorem bolt_negative_positions:
  assumes "bbolt_ok B cont pos" and "wf_bolt cont s" and "wf_mem m" and "same_store cont s m" and "keySep \<notin> set c"
    and "n < 0" and "- (2 ^ 63) \<le> n" and "rows m c \<noteq> []" and "\<forall>e \<in> set (rows m c). 0 \<le> GlobalSeq e"
  shows "Range False c 0 n 0 m = Inr [] \<and> Range_bolt B NoFault False c 0 n 0 s = Some (Inr (rows m c)) \<and>
    Predecessor False c n m = Inl ErrNotFound \<and> Predecessor_bolt B NoFault False c n s = Inr (last (rows m c))"
proof -
  have rows: "bolt_rows cont s c = rows m c" using assms(4) by (simp add: same_store_def)
  have "filter (\<lambda>e. 0 \<le> GlobalSeq e \<and> GlobalSeq e \<le> n) (rows m c) = []" "filter (\<lambda>e. GlobalSeq e < n) (rows m c) = []"
    using assms(6,9) by (auto simp: filter_empty_conv)
  then show ?thesis
    using range_negative [OF assms(1,2,5-7)] predecessor_negative [OF assms(1,2,5-7)] assms(8) range_loop_eq [of 0 0 0 n "rows m c"]
    by (simp add: Range_def Predecessor_def Predecessor_bolt_def db_view_def foldl_last_opt rows)
qed

theorem bolt_negative_positions_witness:
  "Range False ''c'' 0 (-1) 0 (mem_of RBT.entries one_row) = Inr [] \<and>
     Range_bolt rbt_bbolt NoFault False ''c'' 0 (-1) 0 one_row = Some (Inr [one_entry])"
  using bolt_negative_positions [OF rbt_bbolt_ok one_row_facts(1,3,2), of "''c''" "-1"] one_row_facts(4,5)
  by (simp add: keySep_def)

end
