(* ===== verification/Capture_V3.thy ===== *)
theory Capture_V3
  imports Sha512
begin

section \<open>Capture entries: \<open>chainformat/capture_v3.go\<close> and \<open>entry.go\<close>\<close>

text \<open>
  The typed content of a capture entry: its validator, its canonical bytes (length-prefixed strings
  and 64-bit integers in a fixed order) and its content hash. Unicode normalisation comes from a
  module outside the repository and is the parameter \<open>nfc\<close>; what the code relies on, that it leaves
  ASCII as it is, is the hypothesis \<open>nfc_ascii\<close>. The regular expressions are character classes with
  length bounds. The encoder is a state of bytes and a first error, as in the code.

  What is shown: every accepted entry has canonical bytes within a bound far below the code's limit,
  so the limit never refuses one, and equal canonical bytes mean equal entries up to normalisation
  of the subject.
\<close>

subsection \<open>The entry and its rules\<close>

record CaptureRequestV3 =
  cr_Subject :: string
  cr_SigningKeyID :: string
  cr_TimestampMs :: int
  cr_CaptureMethod :: string
  cr_ContentHash :: string
  cr_DLP :: string
  cr_EncryptionMode :: string
  cr_Model :: string
  cr_PIIAction :: string
  cr_PIICategories :: string
  cr_PIIDetected :: bool
  cr_PIIDigestKeyVersion :: string
  cr_ProcessingMode :: string
  cr_Provider :: string
  cr_Region :: string
  cr_SourceType :: string
  cr_TrustLevel :: string
  cr_UserID :: string

definition DomainPrefixV3 :: string where "DomainPrefixV3 = ''aleutian.chain.entry.v3:''"
definition EntryTypeCaptureRequestV3 :: string where "EntryTypeCaptureRequestV3 = ''capture.request.v3''"
definition maxV3StringFieldBytes :: nat where "maxV3StringFieldBytes = 256"
definition MaxCanonicalBytesV3 :: nat where "MaxCanonicalBytesV3 = 4096"
definition maxPlausibleTimestampMs :: int where "maxPlausibleTimestampMs = 7258118400000"

text \<open>The classes of the regular expressions.\<close>

definition lower_alnum :: "char \<Rightarrow> bool" where
  "lower_alnum c \<longleftrightarrow> (CHR ''a'' \<le> c \<and> c \<le> CHR ''z'') \<or> is_digit c"

definition any_alnum :: "char \<Rightarrow> bool" where
  "any_alnum c \<longleftrightarrow> lower_alnum c \<or> (CHR ''A'' \<le> c \<and> c \<le> CHR ''Z'')"

definition key_id_char :: "char \<Rightarrow> bool" where
  "key_id_char c \<longleftrightarrow> any_alnum c \<or> c \<in> set ''_./-''"

definition provenance_char :: "char \<Rightarrow> bool" where
  "provenance_char c \<longleftrightarrow> lower_alnum c \<or> c \<in> set ''_-''"

definition provider_char :: "char \<Rightarrow> bool" where
  "provider_char c \<longleftrightarrow> lower_alnum c \<or> c \<in> set ''_.-''"

definition key_version_char :: "char \<Rightarrow> bool" where
  "key_version_char c \<longleftrightarrow> lower_alnum c \<or> c \<in> set '':_.-''"

definition region_char :: "char \<Rightarrow> bool" where
  "region_char c \<longleftrightarrow> lower_alnum c \<or> c = CHR ''-''"

definition matches :: "(char \<Rightarrow> bool) \<Rightarrow> nat \<Rightarrow> nat \<Rightarrow> string \<Rightarrow> bool" where
  "matches p lo hi s \<longleftrightarrow> list_all p s \<and> lo \<le> length s \<and> length s \<le> hi"

definition v3SigningKeyIDRe :: "string \<Rightarrow> bool" where "v3SigningKeyIDRe = matches key_id_char 1 128"
definition v3SHA512HexRe :: "string \<Rightarrow> bool" where "v3SHA512HexRe = matches is_lower_hex 128 128"
definition v3ProvenanceEnumRe :: "string \<Rightarrow> bool" where "v3ProvenanceEnumRe = matches provenance_char 0 32"
definition v3ProviderRe :: "string \<Rightarrow> bool" where "v3ProviderRe = matches provider_char 0 64"
definition v3PIIDigestKeyVersionRe :: "string \<Rightarrow> bool" where "v3PIIDigestKeyVersionRe = matches key_version_char 0 64"
definition v3ModelRe :: "string \<Rightarrow> bool" where "v3ModelRe = matches key_id_char 0 128"
definition v3RegionRe :: "string \<Rightarrow> bool" where "v3RegionRe = matches region_char 0 16"

definition v3EncryptionModeAllowed :: "string list" where
  "v3EncryptionModeAllowed = [''zero-knowledge'', ''aleutian-managed'', ''cmek'']"
definition v3ProcessingModeAllowed :: "string list" where
  "v3ProcessingModeAllowed = [''zk'', ''pii_inspection'']"
definition v3PIIActionAllowed :: "string list" where
  "v3PIIActionAllowed = [''none'', ''flagged'', ''blocked'', ''redacted'']"

datatype capture_error =
    EntryNil | SubjectIsEmpty | SigningKeyIDEmpty | SigningKeyIDShape | TimestampNotPositive int
  | TimestampTooLate int | HexFieldShape string | OptionalDigestShape string | KeyVersionShape string
  | KeyVersionRequired | KeyVersionWithoutDigest string | EncryptionModeUnknown string
  | ProcessingModeUnknown string | PIIActionUnknown string | ZkForbidsDetection | ZkForbidsAction string
  | ZkForbidsCategories | ZkForbidsDLP | FieldShape string string
  | FieldNotUTF8 string | FieldTooLong string | FieldControlByte string
  | EncoderFieldTooLong | EncoderNegative int | CanonicalExceeds

definition hasDisallowedControlBytes :: "string \<Rightarrow> bool" where
  "hasDisallowedControlBytes s \<longleftrightarrow> list_ex (\<lambda>b. of_char b < (0x20 :: nat) \<or> of_char b = (0x7F :: nat)) s"

definition validateStringField :: "(string \<Rightarrow> string) \<Rightarrow> string \<Rightarrow> string \<Rightarrow> capture_error option" where
  "validateStringField nfc nm val =
     (if \<not> utf8_valid val then Some (FieldNotUTF8 nm)
      else if maxV3StringFieldBytes < length (nfc val) then Some (FieldTooLong nm)
      else if hasDisallowedControlBytes (nfc val) then Some (FieldControlByte nm)
      else None)"

definition validateOptionalHexDigest :: "string \<Rightarrow> string \<Rightarrow> capture_error option" where
  "validateOptionalHexDigest nm val =
     (if val = [] then None else if \<not> v3SHA512HexRe val then Some (OptionalDigestShape nm) else None)"

definition validateV3 :: "(string \<Rightarrow> string) \<Rightarrow> CaptureRequestV3 \<Rightarrow> capture_error option" where
  "validateV3 nfc e =
     (let hasDigest = cr_PIICategories e \<noteq> [] \<or> cr_DLP e \<noteq> []; zk = (cr_ProcessingMode e = ''zk'')
      in first_error
      ([ refuse_when (cr_Subject e = []) SubjectIsEmpty,
         validateStringField nfc ''subject'' (cr_Subject e),
         refuse_when (cr_SigningKeyID e = []) SigningKeyIDEmpty,
         refuse_when (\<not> v3SigningKeyIDRe (cr_SigningKeyID e)) SigningKeyIDShape,
         validateStringField nfc ''signing_key_id'' (cr_SigningKeyID e),
         refuse_when (cr_TimestampMs e \<le> 0) (TimestampNotPositive (cr_TimestampMs e)),
         refuse_when (maxPlausibleTimestampMs < cr_TimestampMs e) (TimestampTooLate (cr_TimestampMs e)),
         refuse_when (\<not> v3SHA512HexRe (cr_ContentHash e)) (HexFieldShape ''content_hash''),
         refuse_when (\<not> v3SHA512HexRe (cr_UserID e)) (HexFieldShape ''user_id''),
         validateOptionalHexDigest ''dlp'' (cr_DLP e),
         validateOptionalHexDigest ''pii_categories'' (cr_PIICategories e),
         refuse_when (\<not> v3PIIDigestKeyVersionRe (cr_PIIDigestKeyVersion e)) (KeyVersionShape (cr_PIIDigestKeyVersion e)),
         validateStringField nfc ''pii_digest_key_version'' (cr_PIIDigestKeyVersion e),
         refuse_when (hasDigest \<and> cr_PIIDigestKeyVersion e = []) KeyVersionRequired,
         refuse_when (\<not> hasDigest \<and> cr_PIIDigestKeyVersion e \<noteq> []) (KeyVersionWithoutDigest (cr_PIIDigestKeyVersion e)),
         refuse_when (cr_EncryptionMode e \<notin> set v3EncryptionModeAllowed) (EncryptionModeUnknown (cr_EncryptionMode e)),
         refuse_when (cr_ProcessingMode e \<notin> set v3ProcessingModeAllowed) (ProcessingModeUnknown (cr_ProcessingMode e)),
         refuse_when (cr_PIIAction e \<notin> set v3PIIActionAllowed) (PIIActionUnknown (cr_PIIAction e)),
         refuse_when (zk \<and> cr_PIIDetected e) ZkForbidsDetection,
         refuse_when (zk \<and> cr_PIIAction e \<noteq> ''none'') (ZkForbidsAction (cr_PIIAction e)),
         refuse_when (zk \<and> cr_PIICategories e \<noteq> []) ZkForbidsCategories,
         refuse_when (zk \<and> cr_DLP e \<noteq> []) ZkForbidsDLP,
         refuse_when (\<not> v3ProviderRe (cr_Provider e)) (FieldShape ''provider'' (cr_Provider e)),
         refuse_when (\<not> v3ModelRe (cr_Model e)) (FieldShape ''model'' (cr_Model e)),
         refuse_when (\<not> v3RegionRe (cr_Region e)) (FieldShape ''region'' (cr_Region e)),
         refuse_when (\<not> v3ProvenanceEnumRe (cr_CaptureMethod e)) (FieldShape ''capture_method'' (cr_CaptureMethod e)),
         refuse_when (\<not> v3ProvenanceEnumRe (cr_SourceType e)) (FieldShape ''source_type'' (cr_SourceType e)),
         refuse_when (\<not> v3ProvenanceEnumRe (cr_TrustLevel e)) (FieldShape ''trust_level'' (cr_TrustLevel e)) ]
       @ map (\<lambda>(nm, val). validateStringField nfc nm val)
           [ (''capture_method'', cr_CaptureMethod e), (''content_hash'', cr_ContentHash e), (''dlp'', cr_DLP e),
             (''encryption_mode'', cr_EncryptionMode e), (''model'', cr_Model e), (''pii_action'', cr_PIIAction e),
             (''pii_categories'', cr_PIICategories e), (''processing_mode'', cr_ProcessingMode e),
             (''provider'', cr_Provider e), (''region'', cr_Region e), (''source_type'', cr_SourceType e),
             (''trust_level'', cr_TrustLevel e), (''user_id'', cr_UserID e) ]))"

subsection \<open>The encoder\<close>

record v3Encoder =
  enc_buf :: bytes
  enc_err :: "capture_error option"

definition appendStr :: "(string \<Rightarrow> string) \<Rightarrow> string \<Rightarrow> v3Encoder \<Rightarrow> v3Encoder" where
  "appendStr nfc s e =
     (if enc_err e \<noteq> None then e
      else if maxV3StringFieldBytes < length (nfc s) then e\<lparr>enc_err := Some EncoderFieldTooLong\<rparr>
      else e\<lparr>enc_buf := enc_buf e @ be_bytes 4 (length (nfc s)) @ nfc s\<rparr>)"

definition appendU64 :: "int \<Rightarrow> v3Encoder \<Rightarrow> v3Encoder" where
  "appendU64 v e =
     (if enc_err e \<noteq> None then e
      else if v < 0 then e\<lparr>enc_err := Some (EncoderNegative v)\<rparr>
      else e\<lparr>enc_buf := enc_buf e @ be_bytes 8 (nat v)\<rparr>)"

definition appendBool :: "bool \<Rightarrow> v3Encoder \<Rightarrow> v3Encoder" where
  "appendBool b e = appendU64 (if b then 1 else 0) e"

definition encodeCanonicalV3 :: "(string \<Rightarrow> string) \<Rightarrow> CaptureRequestV3 \<Rightarrow> v3Encoder \<Rightarrow> v3Encoder" where
  "encodeCanonicalV3 nfc r enc0 =
     (let enc = appendStr nfc (cr_Subject r) enc0;
          enc = appendStr nfc EntryTypeCaptureRequestV3 enc;
          enc = appendStr nfc (cr_SigningKeyID r) enc;
          enc = appendU64 (cr_TimestampMs r) enc;
          enc = appendStr nfc (cr_CaptureMethod r) enc;
          enc = appendStr nfc (cr_ContentHash r) enc;
          enc = appendStr nfc (cr_DLP r) enc;
          enc = appendStr nfc (cr_EncryptionMode r) enc;
          enc = appendStr nfc (cr_Model r) enc;
          enc = appendStr nfc (cr_PIIAction r) enc;
          enc = appendStr nfc (cr_PIICategories r) enc;
          enc = appendBool (cr_PIIDetected r) enc;
          enc = appendStr nfc (cr_PIIDigestKeyVersion r) enc;
          enc = appendStr nfc (cr_ProcessingMode r) enc;
          enc = appendStr nfc (cr_Provider r) enc;
          enc = appendStr nfc (cr_Region r) enc;
          enc = appendStr nfc (cr_SourceType r) enc;
          enc = appendStr nfc (cr_TrustLevel r) enc
      in appendStr nfc (cr_UserID r) enc)"

text \<open>\<open>EntryV3\<close> is sealed: its only implementation is the capture request. \<open>None\<close> is a nil entry.\<close>

definition CanonicalV3 :: "(string \<Rightarrow> string) \<Rightarrow> CaptureRequestV3 option \<Rightarrow> capture_error + bytes" where
  "CanonicalV3 nfc entry =
     (case entry of
        None \<Rightarrow> Inl EntryNil
      | Some r \<Rightarrow>
          (case validateV3 nfc r of
             Some e \<Rightarrow> Inl e
           | None \<Rightarrow>
               let enc = encodeCanonicalV3 nfc r \<lparr>enc_buf = [], enc_err = None\<rparr>
               in case enc_err enc of
                    Some e \<Rightarrow> Inl e
                  | None \<Rightarrow>
                      if MaxCanonicalBytesV3 < length (enc_buf enc) then Inl CanonicalExceeds
                      else Inr (enc_buf enc)))"

definition ContentHashV3 :: "bytes \<Rightarrow> string" where
  "ContentHashV3 canonical = hex_sha512 (DomainPrefixV3 @ canonical)"

definition EncodeAndHashV3 :: "(string \<Rightarrow> string) \<Rightarrow> CaptureRequestV3 option \<Rightarrow> capture_error + (bytes \<times> string)" where
  "EncodeAndHashV3 nfc entry =
     (case CanonicalV3 nfc entry of Inl e \<Rightarrow> Inl e | Inr c \<Rightarrow> Inr (c, ContentHashV3 c))"

subsection \<open>What an accepted entry looks like\<close>

definition nfc_ascii :: "(string \<Rightarrow> string) \<Rightarrow> bool" where
  "nfc_ascii nfc \<longleftrightarrow> (\<forall>s. list_all (\<lambda>c. of_char c < (0x80 :: nat)) s \<longrightarrow> nfc s = s)"

lemma nfc_asciiD: "nfc_ascii nfc \<Longrightarrow> list_all (\<lambda>c. of_char c < (0x80 :: nat)) s \<Longrightarrow> nfc s = s"
  by (simp add: nfc_ascii_def)

lemma validateStringField_None [simp]:
  "validateStringField nfc nm v = None \<longleftrightarrow>
     utf8_valid v \<and> length (nfc v) \<le> 256 \<and> \<not> hasDisallowedControlBytes (nfc v)"
  by (simp add: validateStringField_def maxV3StringFieldBytes_def)

text \<open>Every character class of the expressions is ASCII.\<close>

lemma ascii_range: "c \<le> CHR ''z'' \<Longrightarrow> of_char c < (0x80 :: nat)"
  by (simp add: less_eq_char_def)

lemma classes_ascii:
  "key_id_char c \<Longrightarrow> of_char c < (0x80 :: nat)"
  "is_lower_hex c \<Longrightarrow> of_char c < (0x80 :: nat)"
  "provenance_char c \<Longrightarrow> of_char c < (0x80 :: nat)"
  "provider_char c \<Longrightarrow> of_char c < (0x80 :: nat)"
  "key_version_char c \<Longrightarrow> of_char c < (0x80 :: nat)"
  "region_char c \<Longrightarrow> of_char c < (0x80 :: nat)"
  by (auto simp: key_id_char_def is_lower_hex_def provenance_char_def provider_char_def key_version_char_def
      region_char_def any_alnum_def lower_alnum_def is_digit_def less_eq_char_def)

lemma matches_nfc:
  assumes "nfc_ascii nfc" and "matches p lo hi s" and "\<And>c. p c \<Longrightarrow> of_char c < (0x80 :: nat)"
  shows "nfc s = s"
proof (rule nfc_asciiD [OF assms(1)])
  show "list_all (\<lambda>c. of_char c < (0x80 :: nat)) s"
    using assms(2, 3) by (auto simp: matches_def list_all_iff)
qed

text \<open>A field's bytes are short and normalisation leaves them alone.\<close>

definition plain_field :: "(string \<Rightarrow> string) \<Rightarrow> nat \<Rightarrow> string \<Rightarrow> bool" where
  "plain_field nfc n s \<longleftrightarrow> nfc s = s \<and> length s \<le> n"

lemma plain_fieldD: "plain_field nfc n s \<Longrightarrow> nfc s = s" "plain_field nfc n s \<Longrightarrow> length s \<le> n"
  by (simp_all add: plain_field_def)

lemma plain_fields:
  assumes "nfc_ascii nfc"
  shows "v3SigningKeyIDRe s \<Longrightarrow> plain_field nfc 128 s" "v3SHA512HexRe s \<Longrightarrow> plain_field nfc 128 s"
    "v3ProvenanceEnumRe s \<Longrightarrow> plain_field nfc 32 s" "v3ProviderRe s \<Longrightarrow> plain_field nfc 64 s"
    "v3PIIDigestKeyVersionRe s \<Longrightarrow> plain_field nfc 64 s" "v3ModelRe s \<Longrightarrow> plain_field nfc 128 s"
    "v3RegionRe s \<Longrightarrow> plain_field nfc 16 s"
    "validateOptionalHexDigest nm s = None \<Longrightarrow> plain_field nfc 128 s"
proof -
  show hex: "v3SHA512HexRe s \<Longrightarrow> plain_field nfc 128 s" for s
    using matches_nfc [OF assms, of is_lower_hex 128 128 s] classes_ascii
    by (auto simp: plain_field_def v3SHA512HexRe_def matches_def)
  show "v3SigningKeyIDRe s \<Longrightarrow> plain_field nfc 128 s"
    using matches_nfc [OF assms, of key_id_char 1 128 s] classes_ascii
    by (auto simp: plain_field_def v3SigningKeyIDRe_def matches_def)
  show "v3ProvenanceEnumRe s \<Longrightarrow> plain_field nfc 32 s"
    using matches_nfc [OF assms, of provenance_char 0 32 s] classes_ascii
    by (auto simp: plain_field_def v3ProvenanceEnumRe_def matches_def)
  show "v3ProviderRe s \<Longrightarrow> plain_field nfc 64 s"
    using matches_nfc [OF assms, of provider_char 0 64 s] classes_ascii
    by (auto simp: plain_field_def v3ProviderRe_def matches_def)
  show "v3PIIDigestKeyVersionRe s \<Longrightarrow> plain_field nfc 64 s"
    using matches_nfc [OF assms, of key_version_char 0 64 s] classes_ascii
    by (auto simp: plain_field_def v3PIIDigestKeyVersionRe_def matches_def)
  show "v3ModelRe s \<Longrightarrow> plain_field nfc 128 s"
    using matches_nfc [OF assms, of key_id_char 0 128 s] classes_ascii
    by (auto simp: plain_field_def v3ModelRe_def matches_def)
  show "v3RegionRe s \<Longrightarrow> plain_field nfc 16 s"
    using matches_nfc [OF assms, of region_char 0 16 s] classes_ascii
    by (auto simp: plain_field_def v3RegionRe_def matches_def)
  show "validateOptionalHexDigest nm s = None \<Longrightarrow> plain_field nfc 128 s"
  proof (cases "s = []")
    case True
    then show ?thesis using nfc_asciiD [OF assms, of "[]"] by (simp add: plain_field_def)
  next
    case False
    moreover assume "validateOptionalHexDigest nm s = None"
    ultimately show ?thesis using hex by (auto simp: validateOptionalHexDigest_def split: if_splits)
  qed
qed

lemma plain_literal:
  "nfc_ascii nfc \<Longrightarrow> list_all (\<lambda>c. of_char c < (0x80 :: nat)) s \<Longrightarrow> length s \<le> n \<Longrightarrow> plain_field nfc n s"
  by (simp add: plain_field_def nfc_asciiD)

lemma plain_enums:
  assumes "nfc_ascii nfc"
  shows "s \<in> set v3EncryptionModeAllowed \<Longrightarrow> plain_field nfc 16 s"
    "s \<in> set v3ProcessingModeAllowed \<Longrightarrow> plain_field nfc 14 s"
    "s \<in> set v3PIIActionAllowed \<Longrightarrow> plain_field nfc 8 s"
    "plain_field nfc 18 EntryTypeCaptureRequestV3"
  by (auto intro!: plain_literal [OF assms] simp: v3EncryptionModeAllowed_def v3ProcessingModeAllowed_def
      v3PIIActionAllowed_def EntryTypeCaptureRequestV3_def)

text \<open>All of it together: the shape of an accepted entry.\<close>

definition plain_entry :: "(string \<Rightarrow> string) \<Rightarrow> CaptureRequestV3 \<Rightarrow> bool" where
  "plain_entry nfc e \<longleftrightarrow>
     length (nfc (cr_Subject e)) \<le> 256 \<and> 0 < cr_TimestampMs e \<and> cr_TimestampMs e \<le> maxPlausibleTimestampMs \<and>
     plain_field nfc 128 (cr_SigningKeyID e) \<and> plain_field nfc 32 (cr_CaptureMethod e) \<and>
     plain_field nfc 128 (cr_ContentHash e) \<and> plain_field nfc 128 (cr_DLP e) \<and>
     plain_field nfc 16 (cr_EncryptionMode e) \<and> plain_field nfc 128 (cr_Model e) \<and>
     plain_field nfc 8 (cr_PIIAction e) \<and> plain_field nfc 128 (cr_PIICategories e) \<and>
     plain_field nfc 64 (cr_PIIDigestKeyVersion e) \<and> plain_field nfc 14 (cr_ProcessingMode e) \<and>
     plain_field nfc 64 (cr_Provider e) \<and> plain_field nfc 16 (cr_Region e) \<and>
     plain_field nfc 32 (cr_SourceType e) \<and> plain_field nfc 32 (cr_TrustLevel e) \<and>
     plain_field nfc 128 (cr_UserID e)"

lemma validateV3_plain:
  assumes "nfc_ascii nfc" and "validateV3 nfc e = None"
  shows "plain_entry nfc e"
  using assms(2) unfolding validateV3_def Let_def plain_entry_def
  by (simp only: first_error_None) (auto intro: plain_fields [OF assms(1)] plain_enums [OF assms(1)])

subsection \<open>The encoder on such an entry\<close>

text \<open>What one string contributes, and how it is read off again.\<close>

definition str_bytes :: "string \<Rightarrow> bytes" where
  "str_bytes s = be_bytes 4 (length s) @ s"

lemma length_str_bytes [simp]: "length (str_bytes s) = 4 + length s"
  by (simp add: str_bytes_def)

lemma str_bytes_strip:
  assumes "length s \<le> 256" and "length s' \<le> 256"
  shows "str_bytes s @ r = str_bytes s' @ r' \<longleftrightarrow> s = s' \<and> r = r'"
proof
  assume eq: "str_bytes s @ r = str_bytes s' @ r'"
  then have "be_bytes 4 (length s) = be_bytes 4 (length s')" and rest: "s @ r = s' @ r'"
    by (simp_all add: str_bytes_def)
  then have "length s = length s'" using assms by (simp add: be_bytes_inject)
  with rest show "s = s' \<and> r = r'" by simp
qed simp

lemma appendStr_ok:
  "length (nfc s) \<le> 256 \<Longrightarrow>
     appendStr nfc s \<lparr>enc_buf = b, enc_err = None\<rparr> = \<lparr>enc_buf = b @ str_bytes (nfc s), enc_err = None\<rparr>"
  by (simp add: appendStr_def str_bytes_def maxV3StringFieldBytes_def)

lemma appendU64_ok:
  "0 \<le> v \<Longrightarrow> appendU64 v \<lparr>enc_buf = b, enc_err = None\<rparr> = \<lparr>enc_buf = b @ be_bytes 8 (nat v), enc_err = None\<rparr>"
  by (simp add: appendU64_def)

definition canonical_bytes :: "(string \<Rightarrow> string) \<Rightarrow> CaptureRequestV3 \<Rightarrow> bytes" where
  "canonical_bytes nfc r =
     str_bytes (nfc (cr_Subject r)) @ str_bytes EntryTypeCaptureRequestV3 @ str_bytes (cr_SigningKeyID r) @
     be_bytes 8 (nat (cr_TimestampMs r)) @ str_bytes (cr_CaptureMethod r) @ str_bytes (cr_ContentHash r) @
     str_bytes (cr_DLP r) @ str_bytes (cr_EncryptionMode r) @ str_bytes (cr_Model r) @
     str_bytes (cr_PIIAction r) @ str_bytes (cr_PIICategories r) @ be_bytes 8 (if cr_PIIDetected r then 1 else 0) @
     str_bytes (cr_PIIDigestKeyVersion r) @ str_bytes (cr_ProcessingMode r) @ str_bytes (cr_Provider r) @
     str_bytes (cr_Region r) @ str_bytes (cr_SourceType r) @ str_bytes (cr_TrustLevel r) @ str_bytes (cr_UserID r)"

lemma encode_plain:
  assumes "nfc_ascii nfc" and "plain_entry nfc r"
  shows "encodeCanonicalV3 nfc r \<lparr>enc_buf = [], enc_err = None\<rparr> = \<lparr>enc_buf = canonical_bytes nfc r, enc_err = None\<rparr>"
  using assms(2) plain_enums(4) [OF assms(1)]
  by (simp add: encodeCanonicalV3_def Let_def plain_entry_def plain_field_def appendStr_ok appendU64_ok
      appendBool_def canonical_bytes_def)

lemma canonical_bytes_bound:
  assumes "plain_entry nfc r"
  shows "length (canonical_bytes nfc r) \<le> 1404"
  using assms by (simp add: canonical_bytes_def plain_entry_def plain_field_def EntryTypeCaptureRequestV3_def)

lemma canonical_bytes_inject:
  assumes "plain_entry nfc r" and "plain_entry nfc r'" and "canonical_bytes nfc r = canonical_bytes nfc r'"
  shows "r' = r\<lparr>cr_Subject := cr_Subject r'\<rparr> \<and> nfc (cr_Subject r) = nfc (cr_Subject r')"
proof -
  have ts: "nat (cr_TimestampMs r) < 256 ^ 8" "nat (cr_TimestampMs r') < 256 ^ 8"
    using assms(1, 2) by (auto simp: plain_entry_def maxPlausibleTimestampMs_def nat_less_iff)
  have bits: "be_bytes 8 (if p then 1 else 0) = be_bytes 8 (if q then 1 else 0) \<longleftrightarrow> p = q" for p q
    by (subst be_bytes_inject) auto
  have last: "str_bytes s = str_bytes s' \<longleftrightarrow> s = s'" if "length s \<le> 256" "length s' \<le> 256" for s s'
    using str_bytes_strip [OF that, of "[]" "[]"] by simp
  show ?thesis
    using assms ts unfolding canonical_bytes_def plain_entry_def plain_field_def
    by (cases r; cases r') (simp add: str_bytes_strip last bits be_bytes_inject EntryTypeCaptureRequestV3_def eq_nat_nat_iff)
qed

lemma CanonicalV3_accepts:
  assumes "nfc_ascii nfc" and "validateV3 nfc r = None"
  shows "CanonicalV3 nfc (Some r) = Inr (canonical_bytes nfc r)"
proof -
  have plain: "plain_entry nfc r" by (rule validateV3_plain [OF assms])
  then show ?thesis using assms encode_plain [OF assms(1) plain] canonical_bytes_bound [OF plain]
    by (simp add: CanonicalV3_def Let_def MaxCanonicalBytesV3_def)
qed

lemma CanonicalV3_InrD:
  assumes "nfc_ascii nfc" and "CanonicalV3 nfc (Some r) = Inr c"
  shows "plain_entry nfc r \<and> c = canonical_bytes nfc r"
proof -
  have "validateV3 nfc r = None" using assms(2) by (simp add: CanonicalV3_def split: option.splits)
  with CanonicalV3_accepts [OF assms(1) this] validateV3_plain [OF assms(1) this] assms(2)
  show ?thesis by simp
qed

subsection \<open>The properties\<close>

text \<open>An entry used to show the hypotheses can hold.\<close>

definition example_capture :: CaptureRequestV3 where
  "example_capture =
     \<lparr>cr_Subject = ''acme'', cr_SigningKeyID = ''k1'', cr_TimestampMs = 1700000000000, cr_CaptureMethod = ''proxy'',
      cr_ContentHash = replicate 128 (CHR ''a''), cr_DLP = [], cr_EncryptionMode = ''cmek'', cr_Model = ''m'',
      cr_PIIAction = ''none'', cr_PIICategories = [], cr_PIIDetected = False, cr_PIIDigestKeyVersion = [],
      cr_ProcessingMode = ''zk'', cr_Provider = ''p'', cr_Region = ''eu'', cr_SourceType = ''api'',
      cr_TrustLevel = [], cr_UserID = replicate 128 (CHR ''b'')\<rparr>"

lemma nfc_ascii_id: "nfc_ascii (\<lambda>s. s)"
  by (simp add: nfc_ascii_def)

lemma utf8_replicate_ascii [simp]: "of_char c < (0x80 :: nat) \<Longrightarrow> utf8_valid (replicate n c)"
  by (rule utf8_valid_ascii) (simp add: list_all_iff byte_in_def)

lemma control_replicate [simp]:
  "n \<noteq> 0 \<Longrightarrow> hasDisallowedControlBytes (replicate n c) \<longleftrightarrow> of_char c < (0x20 :: nat) \<or> of_char c = (0x7F :: nat)"
  by (simp add: hasDisallowedControlBytes_def list_ex_iff)

lemma example_capture_valid: "validateV3 (\<lambda>s. s) example_capture = None"
  by (simp add: validateV3_def Let_def example_capture_def v3SigningKeyIDRe_def v3SHA512HexRe_def matches_def
      key_id_char_def any_alnum_def lower_alnum_def is_digit_def is_lower_hex_def less_eq_char_def list_all_iff
      validateOptionalHexDigest_def v3PIIDigestKeyVersionRe_def v3EncryptionModeAllowed_def v3ProcessingModeAllowed_def
      v3PIIActionAllowed_def v3ProviderRe_def provider_char_def v3ModelRe_def v3RegionRe_def region_char_def
      v3ProvenanceEnumRe_def provenance_char_def hasDisallowedControlBytes_def [of "_ # _"]
      hasDisallowedControlBytes_def [of "[]"] maxPlausibleTimestampMs_def)

text \<open>C26. Canonical bytes exist exactly for the entries the validator accepts: of the encoder's own
  checks (the field cap, the sign of the timestamp, the 4096-byte cap of the whole form) none refuses
  an entry that passed, and the form is then at most 1404 bytes. A nil entry is an error.\<close>
theorem canonical_v3_bounds:
  assumes "nfc_ascii nfc"
  shows "CanonicalV3 nfc None = Inl EntryNil \<and>
    (case validateV3 nfc r of
       Some e \<Rightarrow> CanonicalV3 nfc (Some r) = Inl e
     | None \<Rightarrow> (\<exists>c. CanonicalV3 nfc (Some r) = Inr c \<and> length c \<le> 1404 \<and> length c < MaxCanonicalBytesV3))"
proof (cases "validateV3 nfc r")
  case None
  with CanonicalV3_accepts [OF assms this] canonical_bytes_bound [OF validateV3_plain [OF assms None]]
  show ?thesis by (simp add: CanonicalV3_def MaxCanonicalBytesV3_def)
qed (simp add: CanonicalV3_def)

theorem canonical_v3_bounds_witness:
  "\<exists>c. CanonicalV3 (\<lambda>s. s) (Some example_capture) = Inr c \<and> length c < MaxCanonicalBytesV3"
  using canonical_v3_bounds [OF nfc_ascii_id, of example_capture] by (auto simp: example_capture_valid)

text \<open>Equal content hashes of two accepted entries mean equal entries in every field, the subject up
  to Unicode normalisation, unless the two preimages are a SHA-512 collision.\<close>
theorem content_hash_v3_binds:
  assumes "nfc_ascii nfc"
    and "EncodeAndHashV3 nfc (Some r) = Inr (c, h)" and "EncodeAndHashV3 nfc (Some r') = Inr (c', h)"
  shows "(r' = r\<lparr>cr_Subject := cr_Subject r'\<rparr> \<and> nfc (cr_Subject r) = nfc (cr_Subject r'))
    \<or> collision (DomainPrefixV3 @ c) (DomainPrefixV3 @ c')"
proof -
  have enc: "CanonicalV3 nfc (Some r) = Inr c" "CanonicalV3 nfc (Some r') = Inr c'"
    and "ContentHashV3 c = ContentHashV3 c'"
    using assms(2, 3) by (auto simp: EncodeAndHashV3_def split: sum.splits)
  then have "c = c' \<or> collision (DomainPrefixV3 @ c) (DomainPrefixV3 @ c')"
    by (metis ContentHashV3_def hex_sha512_eqD same_append_eq)
  moreover note CanonicalV3_InrD [OF assms(1) enc(1)] CanonicalV3_InrD [OF assms(1) enc(2)]
  ultimately show ?thesis using canonical_bytes_inject [of nfc r r'] by blast
qed

end
