(* ===== verification/Canonical_Json.thy ===== *)
theory Canonical_Json
  imports Json_Parse "HOL-Library.Finite_Map"
begin

section \<open>Canonical JSON: \<open>canonical/json.go\<close>\<close>

text \<open>
  The two passes of \<open>MarshalJSON\<close>: every string of the input is checked, the value goes through
  \<open>encoding/json\<close> and back, and the decoded tree is written with sorted keys. A Go value is a
  \<open>goval\<close>: the dynamic types the code's type switch names, and everything else (structs, typed maps
  and slices) as \<open>GOther\<close>, the members the encoder writes for it in their order, or \<open>None\<close> when the
  encoder refuses it. A nil map or slice is \<open>GNil\<close>: the encoder writes \<open>null\<close> for it too. The order
  of a \<open>GMap\<close> is the order in which one run of Go visits the map.

  The test for Normalization Form C comes from outside the repository and is the parameter \<open>is_nfc\<close>.
\<close>

subsection \<open>Values and what \<open>encoding/json\<close> does with them\<close>

datatype goval =
    GNil | GBool bool | GInt int
  | GFloat "string option" \<comment> \<open>the text the encoder prints, none for NaN and infinities\<close>
  | GNumber string \<comment> \<open>\<open>json.Number\<close>\<close>
  | GString string
  | GMap "(string \<times> goval) list"
  | GList "goval list"
  | GOther "json option"

datatype canon_error =
    MaxDepthExceeded nat | FloatNotAllowed string | NotNFC | LoneSurrogate | ObjectKeyError canon_error
  | EncoderRefused | DecoderRefused

definition MaxDepth :: nat where "MaxDepth = 64"

text \<open>What decoding into an \<open>any\<close> makes of the text of a tree, and the decoder on a text.\<close>

definition decoded :: "json \<Rightarrow> json" where
  "decoded j = collapse (cleaned j)"

definition decode :: "string \<Rightarrow> canon_error + json" where
  "decode s = (case parse s of None \<Rightarrow> Inl DecoderRefused | Some j \<Rightarrow> Inr (collapse j))"

text \<open>The tree whose text the encoder writes for a Go value; a \<open>json.Number\<close> is checked, and an empty one
  is written as 0.\<close>

fun encode_tree :: "goval \<Rightarrow> canon_error + json" where
  "encode_tree GNil = Inr JNull"
| "encode_tree (GBool b) = Inr (JBool b)"
| "encode_tree (GInt i) = Inr (JNum (fmt_int i))"
| "encode_tree (GFloat t) = (case t of None \<Rightarrow> Inl EncoderRefused | Some s \<Rightarrow> Inr (JNum s))"
| "encode_tree (GNumber s) =
     (if s = [] then Inr (JNum ''0'') else if valid_number s then Inr (JNum s) else Inl EncoderRefused)"
| "encode_tree (GString s) = Inr (JStr s)"
| "encode_tree (GMap ms) =
     (case collect (map (\<lambda>(k, v). map_sum id (Pair k) (encode_tree v)) ms) of
        Inl e \<Rightarrow> Inl e | Inr js \<Rightarrow> Inr (JObj js))"
| "encode_tree (GList vs) = (case collect (map encode_tree vs) of Inl e \<Rightarrow> Inl e | Inr js \<Rightarrow> Inr (JArr js))"
| "encode_tree (GOther t) = (case t of None \<Rightarrow> Inl EncoderRefused | Some j \<Rightarrow> Inr j)"

definition compactMarshalNoHTMLEscape :: "goval \<Rightarrow> canon_error + string" where
  "compactMarshalNoHTMLEscape v = map_sum id (json_text False) (encode_tree v)"

subsection \<open>The checks of the input\<close>

definition validateCanonicalString :: "(string \<Rightarrow> bool) \<Rightarrow> string \<Rightarrow> canon_error option" where
  "validateCanonicalString is_nfc s =
     (if \<not> utf8_valid s then Some LoneSurrogate else if \<not> is_nfc s then Some NotNFC else None)"

definition check_key :: "(string \<Rightarrow> bool) \<Rightarrow> string \<Rightarrow> canon_error option" where
  "check_key is_nfc k = map_option ObjectKeyError (validateCanonicalString is_nfc k)"

text \<open>\<open>validateInputStrings\<close> on a tree the decoder made, which holds no structs.\<close>

fun validate_tree :: "(string \<Rightarrow> bool) \<Rightarrow> nat \<Rightarrow> json \<Rightarrow> canon_error option" where
  "validate_tree is_nfc d v =
     (if MaxDepth < d then Some (MaxDepthExceeded d)
      else case v of
        JStr s \<Rightarrow> validateCanonicalString is_nfc s
      | JObj ms \<Rightarrow> first_error (map (\<lambda>(k, x). first_error [check_key is_nfc k, validate_tree is_nfc (d + 1) x]) ms)
      | JArr xs \<Rightarrow> first_error (map (validate_tree is_nfc (d + 1)) xs)
      | _ \<Rightarrow> None)"

definition validateInputStringsReflect :: "(string \<Rightarrow> bool) \<Rightarrow> nat \<Rightarrow> json option \<Rightarrow> canon_error option" where
  "validateInputStringsReflect is_nfc d t =
     (case compactMarshalNoHTMLEscape (GOther t) of
        Inl e \<Rightarrow> Some e
      | Inr s \<Rightarrow> (case decode s of Inl e \<Rightarrow> Some e | Inr g \<Rightarrow> validate_tree is_nfc (d + 1) g))"

fun validateInputStrings :: "(string \<Rightarrow> bool) \<Rightarrow> nat \<Rightarrow> goval \<Rightarrow> canon_error option" where
  "validateInputStrings is_nfc d v =
     (if MaxDepth < d then Some (MaxDepthExceeded d)
      else case v of
        GString s \<Rightarrow> validateCanonicalString is_nfc s
      | GMap ms \<Rightarrow>
          first_error (map (\<lambda>(k, x). first_error [check_key is_nfc k, validateInputStrings is_nfc (d + 1) x]) ms)
      | GList vs \<Rightarrow> first_error (map (validateInputStrings is_nfc (d + 1)) vs)
      | GOther t \<Rightarrow> validateInputStringsReflect is_nfc d t
      | _ \<Rightarrow> None)"

subsection \<open>The sorted writer\<close>

fun writeSorted :: "(string \<Rightarrow> bool) \<Rightarrow> nat \<Rightarrow> json \<Rightarrow> canon_error + string" where
  "writeSorted is_nfc d v =
     (if MaxDepth < d then Inl (MaxDepthExceeded d)
      else case v of
        JObj ms \<Rightarrow>
          (case first_error (map (\<lambda>(k, _). check_key is_nfc k) ms) of
             Some e \<Rightarrow> Inl e
           | None \<Rightarrow>
               (case collect (map (\<lambda>(k, r). map_sum id (\<lambda>t. json_string False k @ '':'' @ t) r)
                  (sort_key fst (map (\<lambda>(k, x). (k, writeSorted is_nfc (d + 1) x)) ms))) of
                  Inl e \<Rightarrow> Inl e
                | Inr ts \<Rightarrow> Inr (''{'' @ commas ts @ ''}'')))
      | JArr xs \<Rightarrow>
          (case collect (map (writeSorted is_nfc (d + 1)) xs) of
             Inl e \<Rightarrow> Inl e
           | Inr ts \<Rightarrow> Inr (''['' @ commas ts @ '']''))
      | JNum s \<Rightarrow> if set s \<inter> set ''.eE'' \<noteq> {} then Inl (FloatNotAllowed s) else Inr s
      | JStr s \<Rightarrow>
          (case validateCanonicalString is_nfc s of Some e \<Rightarrow> Inl e | None \<Rightarrow> Inr (json_string False s))
      | JBool b \<Rightarrow> Inr (if b then ''true'' else ''false'')
      | JNull \<Rightarrow> Inr ''null'')"

declare validate_tree.simps [simp del] validateInputStrings.simps [simp del] writeSorted.simps [simp del]

definition MarshalJSON :: "(string \<Rightarrow> bool) \<Rightarrow> goval \<Rightarrow> canon_error + string" where
  "MarshalJSON is_nfc v =
     (case validateInputStrings is_nfc 0 v of
        Some e \<Rightarrow> Inl e
      | None \<Rightarrow>
          (case compactMarshalNoHTMLEscape v of
             Inl e \<Rightarrow> Inl e
           | Inr s \<Rightarrow>
               (case decode s of Inl e \<Rightarrow> Inl e | Inr g \<Rightarrow> writeSorted is_nfc 0 g)))"

subsection \<open>What the writer accepts and writes\<close>

text \<open>The depth of a tree, the strings and the number texts in it.\<close>

fun tree_depth :: "json \<Rightarrow> nat" where
  "tree_depth (JArr xs) = fold max (map (\<lambda>x. Suc (tree_depth x)) xs) 0"
| "tree_depth (JObj ms) = fold max (map (\<lambda>(k, x). Suc (tree_depth x)) ms) 0"
| "tree_depth v = 0"

fun tree_strings :: "json \<Rightarrow> string list" where
  "tree_strings (JStr s) = [s]"
| "tree_strings (JArr xs) = concat (map tree_strings xs)"
| "tree_strings (JObj ms) = concat (map (\<lambda>(k, x). k # tree_strings x) ms)"
| "tree_strings v = []"

fun tree_numbers :: "json \<Rightarrow> string list" where
  "tree_numbers (JNum n) = [n]"
| "tree_numbers (JArr xs) = concat (map tree_numbers xs)"
| "tree_numbers (JObj ms) = concat (map (\<lambda>(k, x). tree_numbers x) ms)"
| "tree_numbers v = []"

definition string_ok :: "(string \<Rightarrow> bool) \<Rightarrow> string \<Rightarrow> bool" where
  "string_ok is_nfc s \<longleftrightarrow> utf8_valid s \<and> is_nfc s"

definition integer_text :: "string \<Rightarrow> bool" where
  "integer_text n \<longleftrightarrow> set n \<inter> set ''.eE'' = {}"

definition strings_fit :: "(string \<Rightarrow> bool) \<Rightarrow> nat \<Rightarrow> json \<Rightarrow> bool" where
  "strings_fit is_nfc d v \<longleftrightarrow> d + tree_depth v \<le> MaxDepth \<and> (\<forall>s \<in> set (tree_strings v). string_ok is_nfc s)"

definition tree_ok :: "(string \<Rightarrow> bool) \<Rightarrow> nat \<Rightarrow> json \<Rightarrow> bool" where
  "tree_ok is_nfc d v \<longleftrightarrow> strings_fit is_nfc d v \<and> (\<forall>n \<in> set (tree_numbers v). integer_text n)"

fun jsorted :: "json \<Rightarrow> json" where
  "jsorted (JArr xs) = JArr (map jsorted xs)"
| "jsorted (JObj ms) = JObj (sort_key fst (map (\<lambda>(k, x). (k, jsorted x)) ms))"
| "jsorted v = v"

lemma strings_fit_simps:
  "strings_fit is_nfc d (JStr s) \<longleftrightarrow> d \<le> MaxDepth \<and> string_ok is_nfc s"
  "strings_fit is_nfc d (JArr xs) \<longleftrightarrow> d \<le> MaxDepth \<and> (\<forall>x \<in> set xs. strings_fit is_nfc (Suc d) x)"
  "strings_fit is_nfc d (JObj ms) \<longleftrightarrow>
     d \<le> MaxDepth \<and> (\<forall>m \<in> set ms. string_ok is_nfc (fst m) \<and> strings_fit is_nfc (Suc d) (snd m))"
  "strings_fit is_nfc d (JNum n) \<longleftrightarrow> d \<le> MaxDepth" "strings_fit is_nfc d (JBool b) \<longleftrightarrow> d \<le> MaxDepth"
  "strings_fit is_nfc d JNull \<longleftrightarrow> d \<le> MaxDepth"
  by (auto simp: strings_fit_def add_fold_max_le)

lemma tree_ok_simps:
  "tree_ok is_nfc d (JStr s) \<longleftrightarrow> d \<le> MaxDepth \<and> string_ok is_nfc s"
  "tree_ok is_nfc d (JArr xs) \<longleftrightarrow> d \<le> MaxDepth \<and> (\<forall>x \<in> set xs. tree_ok is_nfc (Suc d) x)"
  "tree_ok is_nfc d (JObj ms) \<longleftrightarrow>
     d \<le> MaxDepth \<and> (\<forall>m \<in> set ms. string_ok is_nfc (fst m) \<and> tree_ok is_nfc (Suc d) (snd m))"
  "tree_ok is_nfc d (JNum n) \<longleftrightarrow> d \<le> MaxDepth \<and> integer_text n"
  "tree_ok is_nfc d (JBool b) \<longleftrightarrow> d \<le> MaxDepth" "tree_ok is_nfc d JNull \<longleftrightarrow> d \<le> MaxDepth"
  by (auto simp: tree_ok_def strings_fit_simps)

lemma check_None [simp]:
  "validateCanonicalString is_nfc s = None \<longleftrightarrow> string_ok is_nfc s"
  "check_key is_nfc s = None \<longleftrightarrow> string_ok is_nfc s"
  by (simp_all add: validateCanonicalString_def string_ok_def check_key_def)

lemma validate_tree_None: "validate_tree is_nfc d v = None \<longleftrightarrow> strings_fit is_nfc d v"
proof (induction v arbitrary: d)
  case (JObj ms)
  have "validate_tree is_nfc (Suc d) (snd m) = None \<longleftrightarrow> strings_fit is_nfc (Suc d) (snd m)" if "m \<in> set ms" for m
    using JObj [of m "snd m" "Suc d"] that by (simp add: snds.simps)
  then show ?case by (auto simp: validate_tree.simps [of is_nfc d] strings_fit_simps case_prod_unfold)
next
  case (JArr xs)
  then show ?case by (auto simp: validate_tree.simps [of is_nfc d] strings_fit_simps)
qed (auto simp: validate_tree.simps strings_fit_simps)

lemma map_sum_Inr_iff: "map_sum id f r = Inr y \<longleftrightarrow> (\<exists>x. r = Inr x \<and> y = f x)"
  by (cases r) auto

lemma map_eq_map_Inr: "map f xs = map Inr ys \<longleftrightarrow> (\<forall>x \<in> set xs. \<exists>y. f x = Inr y) \<and> ys = map (projr \<circ> f) xs"
proof (induction xs arbitrary: ys)
  case (Cons x xs)
  then show ?case by (cases ys) auto
qed simp

text \<open>Sorting by the name commutes with what leaves the names alone.\<close>

lemma insort_key_map_snd:
  "insort_key fst (k, f x) (map (\<lambda>(k, x). (k, f x)) ms) = map (\<lambda>(k, x). (k, f x)) (insort_key fst (k, x) ms)"
  by (induction ms) auto

lemma sort_key_map_snd: "sort_key fst (map (\<lambda>(k, x). (k, f x)) ms) = map (\<lambda>(k, x). (k, f x)) (sort_key fst ms)"
  by (induction ms) (auto simp: insort_key_map_snd [symmetric])

lemma tree_ok_numbers: "tree_ok is_nfc d (JNum s) \<Longrightarrow> set s \<inter> set ''.eE'' = {}"
  by (simp add: tree_ok_def integer_text_def)

lemma writeSorted_ok: "tree_ok is_nfc d v \<Longrightarrow> writeSorted is_nfc d v = Inr (json_text False (jsorted v))"
proof (induction v arbitrary: d)
  case (JArr xs)
  then have "map (writeSorted is_nfc (Suc d)) xs = map Inr (map (json_text False) (map jsorted xs))"
    by (simp add: tree_ok_simps)
  then have "collect (map (writeSorted is_nfc (Suc d)) xs) = Inr (map (json_text False) (map jsorted xs))"
    by (simp only: collect_map_Inr)
  with JArr.prems show ?case
    by (simp add: writeSorted.simps [of is_nfc d] tree_ok_simps del: collect_Inr)
next
  case (JObj ms)
  let ?w = "\<lambda>x. writeSorted is_nfc (Suc d) x"
  let ?item = "\<lambda>(k, x). json_string False k @ CHR '':'' # json_text False (jsorted x)"
  have each: "?w (snd m) = Inr (json_text False (jsorted (snd m)))" if "m \<in> set ms" for m
    using JObj.IH [of m "snd m" "Suc d"] JObj.prems that by (simp add: tree_ok_simps snds.simps)
  have "map (\<lambda>(k, r). map_sum id (\<lambda>t. json_string False k @ '':'' @ t) r) (sort_key fst (map (\<lambda>(k, x). (k, ?w x)) ms))
      = map Inr (map ?item (sort_key fst ms))"
    using each by (auto simp: sort_key_map_snd)
  then have col: "collect (map (\<lambda>(k, r). map_sum id (\<lambda>t. json_string False k @ '':'' @ t) r)
        (sort_key fst (map (\<lambda>(k, x). (k, writeSorted is_nfc (d + 1) x)) ms))) = Inr (map ?item (sort_key fst ms))"
    by (simp only: collect_map_Inr Suc_eq_plus1)
  have keys: "first_error (map (\<lambda>(k, _). check_key is_nfc k) ms) = None"
    using JObj.prems by (auto simp: tree_ok_simps)
  have "json_text False (jsorted (JObj ms)) = ''{'' @ commas (map ?item (sort_key fst ms)) @ ''}''"
    by (simp add: sort_key_map_snd) (simp add: case_prod_unfold comp_def)
  then show ?case using JObj.prems
    unfolding writeSorted.simps [of is_nfc d] json.case keys option.case col sum.case by (simp add: tree_ok_simps)
qed (auto simp: writeSorted.simps [of is_nfc d for d] tree_ok_simps integer_text_def check_None(1) [THEN iffD2])

lemma writeSorted_InrD: "writeSorted is_nfc d v = Inr t \<Longrightarrow> tree_ok is_nfc d v"
proof (induction v arbitrary: d t)
  case (JArr xs)
  then obtain ts where "map (writeSorted is_nfc (Suc d)) xs = map Inr ts" and "d \<le> MaxDepth"
    by (auto simp: writeSorted.simps [of is_nfc d] split: if_splits sum.splits)
  then show ?case using JArr.IH by (fastforce simp: tree_ok_simps map_eq_map_Inr)
next
  case (JObj ms)
  let ?w = "\<lambda>x. writeSorted is_nfc (Suc d) x"
  obtain ts where d: "d \<le> MaxDepth" and keys: "\<forall>m \<in> set ms. string_ok is_nfc (fst m)"
    and ts: "map (\<lambda>(k, r). map_sum id (\<lambda>t. json_string False k @ '':'' @ t) r) (sort_key fst (map (\<lambda>(k, x). (k, ?w x)) ms)) = map Inr ts"
    using JObj.prems
    by (auto simp: writeSorted.simps [of is_nfc d] case_prod_unfold split: if_splits sum.splits option.splits)
  have some: "\<exists>t. ?w (snd m) = Inr t" if "m \<in> set ms" for m
    using ts that by (cases m) (fastforce simp: map_eq_map_Inr map_sum_Inr_iff sort_key_map_snd)
  have "tree_ok is_nfc (Suc d) (snd m)" if m: "m \<in> set ms" for m
  proof -
    obtain t where "?w (snd m) = Inr t" using some [OF m] by blast
    with JObj.IH [of m "snd m" "Suc d" t] m show ?thesis by (simp add: snds.simps)
  qed
  with d keys show ?case by (simp add: tree_ok_simps)
qed (auto simp: writeSorted.simps [of is_nfc d for d] tree_ok_simps integer_text_def split: if_splits option.splits)

subsection \<open>The value behind a tree\<close>

text \<open>What a JSON text means: numbers by their text, objects as maps without an order.\<close>

datatype jval =
    VNull | VBool bool | VNum string | VStr string | VArr "jval list" | VObj "(string, jval) fmap"

fun jabs :: "json \<Rightarrow> jval" where
  "jabs JNull = VNull"
| "jabs (JBool b) = VBool b"
| "jabs (JNum n) = VNum n"
| "jabs (JStr s) = VStr s"
| "jabs (JArr xs) = VArr (map jabs xs)"
| "jabs (JObj ms) = VObj (fmap_of_list (map (\<lambda>(k, v). (k, jabs v)) ms))"

fun keys_distinct :: "json \<Rightarrow> bool" where
  "keys_distinct (JArr xs) = list_all keys_distinct xs"
| "keys_distinct (JObj ms) = (distinct (map fst ms) \<and> list_all (\<lambda>(k, v). keys_distinct v) ms)"
| "keys_distinct v = True"

text \<open>Sorting decides equality of such trees.\<close>

lemma fmap_of_list_eq_iff:
  assumes "distinct (map fst xs)" "distinct (map fst ys)"
  shows "fmap_of_list xs = fmap_of_list ys \<longleftrightarrow> set xs = set ys"
  using map_of_inject_set [OF assms] by (metis fmap_of_list.rep_eq fmlookup_inject)

lemma sort_key_fst_eq_iff:
  fixes xs ys :: "(string \<times> 'v) list"
  assumes "distinct (map fst xs)" "distinct (map fst ys)"
  shows "sort_key fst xs = sort_key fst ys \<longleftrightarrow> set xs = set ys"
proof
  assume "set xs = set ys"
  moreover have "inj_on fst (set xs)" using assms(1) by (simp add: distinct_map)
  moreover have "distinct (map fst (sort_key fst zs))" if "distinct (map fst zs)" for zs :: "(string \<times> 'v) list"
    using that by (simp add: distinct_map)
  ultimately show "sort_key fst xs = sort_key fst ys" using assms
    by (intro map_sorted_distinct_set_unique [where f = fst]) simp_all
qed (metis set_sort)

lemma image_snd_sub_iff:
  "(\<lambda>(k, v). (k, h v)) ` A \<subseteq> (\<lambda>(k, v). (k, h v)) ` B \<longleftrightarrow> (\<forall>a \<in> A. \<exists>b \<in> B. fst a = fst b \<and> h (snd a) = h (snd b))"
  by (auto simp: case_prod_unfold image_subset_iff image_iff)

lemma image_snd_eq_iff:
  assumes "\<And>m n. m \<in> A \<Longrightarrow> n \<in> B \<Longrightarrow> f (snd m) = f (snd n) \<longleftrightarrow> g (snd m) = g (snd n)"
  shows "(\<lambda>(k, v). (k, f v)) ` A = (\<lambda>(k, v). (k, f v)) ` B \<longleftrightarrow> (\<lambda>(k, v). (k, g v)) ` A = (\<lambda>(k, v). (k, g v)) ` B"
proof -
  have "f (snd n) = f (snd m) \<longleftrightarrow> g (snd n) = g (snd m)" if "m \<in> A" "n \<in> B" for m n
    using assms [OF that] by metis
  with assms show ?thesis unfolding set_eq_subset image_snd_sub_iff by (intro arg_cong2 [where f = "(\<and>)"] ball_cong bex_cong refl) auto
qed

lemma jsorted_eq_iff:
  "keys_distinct v \<Longrightarrow> keys_distinct w \<Longrightarrow> jsorted v = jsorted w \<longleftrightarrow> jabs v = jabs w"
proof (induction v arbitrary: w)
  case (JArr xs)
  show ?case
  proof (cases w)
    case ys: (JArr ys)
    have "map jsorted xs = map jsorted ys \<longleftrightarrow> map jabs xs = map jabs ys"
      using JArr unfolding ys by (auto simp: list_eq_iff_nth_eq list_all_iff)
    with ys show ?thesis by simp
  qed simp_all
next
  case (JObj ms)
  show ?case
  proof (cases w)
    case ns: (JObj ns)
    have "jsorted (snd m) = jsorted (snd n) \<longleftrightarrow> jabs (snd m) = jabs (snd n)" if "m \<in> set ms" "n \<in> set ns" for m n
      using JObj.IH [of m "snd m" "snd n"] JObj.prems that unfolding ns
      by (simp add: list_all_iff case_prod_unfold snds.simps)
    then have "(\<lambda>(k, v). (k, jsorted v)) ` set ms = (\<lambda>(k, v). (k, jsorted v)) ` set ns
        \<longleftrightarrow> (\<lambda>(k, v). (k, jabs v)) ` set ms = (\<lambda>(k, v). (k, jabs v)) ` set ns"
      by (rule image_snd_eq_iff)
    then show ?thesis using JObj.prems unfolding ns
      by (simp add: sort_key_fst_eq_iff fmap_of_list_eq_iff comp_def case_prod_unfold)
  qed simp_all
qed (case_tac w; simp)+

subsection \<open>Through the two passes\<close>

lemma decoded_simps [simp]:
  "decoded (JStr s) = JStr (clean s)" "decoded (JArr xs) = JArr (map decoded xs)"
  "decoded (JObj ms) = JObj (last_wins (map (\<lambda>(k, v). (clean k, decoded v)) ms))"
  "decoded (JNum n) = JNum n" "decoded (JBool b) = JBool b" "decoded JNull = JNull"
  by (simp_all add: decoded_def case_prod_unfold comp_def)

lemma last_wins_subset: "set (last_wins ms) \<subseteq> set ms"
  by (induction ms rule: last_wins.induct) auto

lemma last_wins_distinct [simp]: "distinct (map fst (last_wins ms))"
proof (induction ms rule: last_wins.induct)
  case (2 k v ms)
  then show ?case using last_wins_subset [of ms] by force
qed simp

lemma last_wins_id [simp]: "distinct (map fst ms) \<Longrightarrow> last_wins ms = ms"
  by (induction ms rule: last_wins.induct) auto

lemma keys_distinct_decoded [simp]: "keys_distinct (decoded v)"
proof (induction v)
  case (JObj ms)
  have "keys_distinct (snd m)" if m: "m \<in> set (last_wins (map (\<lambda>(k, v). (clean k, decoded v)) ms))" for m
  proof -
    obtain n where "n \<in> set ms" "snd m = decoded (snd n)" using m last_wins_subset by fastforce
    with JObj.IH [of n "snd n"] show ?thesis by (simp add: snds.simps)
  qed
  then show ?case by (simp add: list_all_iff case_prod_unfold)
qed (simp_all add: list_all_iff)

lemma decoded_id: "keys_distinct v \<Longrightarrow> \<forall>s \<in> set (tree_strings v). utf8_valid s \<Longrightarrow> decoded v = v"
proof (induction v)
  case (JArr xs)
  then show ?case by (auto simp: list_all_iff intro: map_idI)
next
  case (JObj ms)
  have "(case m of (k, v) \<Rightarrow> (clean k, decoded v)) = m" if "m \<in> set ms" for m
    using JObj.IH [of m "snd m"] JObj.prems that
    by (cases m) (auto simp: list_all_iff snds.simps)
  then have "map (\<lambda>(k, v). (clean k, decoded v)) ms = ms" by (intro map_idI) blast
  with JObj.prems show ?case by simp
qed simp_all

lemma decoded_numbers: "set (tree_numbers (decoded v)) \<subseteq> set (tree_numbers v)"
proof (induction v)
  case (JArr xs)
  then show ?case by fastforce
next
  case (JObj ms)
  show ?case
  proof
    fix s assume "s \<in> set (tree_numbers (decoded (JObj ms)))"
    then obtain m where "m \<in> set ms" "s \<in> set (tree_numbers (decoded (snd m)))"
      using last_wins_subset [of "map (\<lambda>(k, v). (clean k, decoded v)) ms"] by fastforce
    with JObj.IH [of m "snd m"] show "s \<in> set (tree_numbers (JObj ms))"
      by (fastforce simp: snds.simps case_prod_unfold)
  qed
qed simp_all

text \<open>What is known of the texts the encoder of the standard library writes by itself.\<close>

fun encoder_ok :: "goval \<Rightarrow> bool" where
  "encoder_ok (GFloat (Some s)) = valid_number s"
| "encoder_ok (GMap ms) = (distinct (map fst ms) \<and> list_all (\<lambda>(k, v). encoder_ok v) ms)"
| "encoder_ok (GList vs) = list_all encoder_ok vs"
| "encoder_ok (GOther (Some j)) = numbers_valid j"
| "encoder_ok v = True"

lemma encode_tree_members:
  "map (\<lambda>(k, v). map_sum id (Pair k) (f v)) ms = map Inr js \<Longrightarrow>
     map fst js = map fst ms \<and> (\<forall>k x. (k, x) \<in> set js \<longrightarrow> (\<exists>v. (k, v) \<in> set ms \<and> f v = Inr x)) \<and>
     (\<forall>k v. (k, v) \<in> set ms \<longrightarrow> (\<exists>x. (k, x) \<in> set js \<and> f v = Inr x))"
proof (induction ms arbitrary: js)
  case (Cons m ms)
  obtain k v where m: "m = (k, v)" by (cases m)
  then obtain x ys where "js = (k, x) # ys" "f v = Inr x" "map (\<lambda>(k, v). map_sum id (Pair k) (f v)) ms = map Inr ys"
    using Cons.prems by (cases js; cases "f v") (auto simp: id_def)
  with Cons.IH [of ys] m show ?case by fastforce
qed simp

lemma valid_number_zero: "valid_number ''0''"
  using valid_number_fmt_int [of 0] by (simp add: fmt_int_def dec_nat.simps [of 0] dec_digit_def)

lemma encode_tree_numbers: "encode_tree v = Inr j \<Longrightarrow> encoder_ok v \<Longrightarrow> numbers_valid j"
proof (induction v arbitrary: j)
  case (GMap ms)
  then obtain js where j: "j = JObj js" and js: "map (\<lambda>(k, v). map_sum id (Pair k) (encode_tree v)) ms = map Inr js"
    by (auto split: sum.splits)
  have "numbers_valid x" if kx: "(k, x) \<in> set js" for k x
  proof -
    obtain v where "(k, v) \<in> set ms" "encode_tree v = Inr x" using encode_tree_members [OF js] kx by blast
    with GMap.IH [of "(k, v)" v x] GMap.prems show ?thesis by (auto simp: snds.simps list_all_iff)
  qed
  then show ?case unfolding j by (auto simp: list_all_iff)
next
  case (GList vs)
  then obtain js where j: "j = JArr js" and js: "map encode_tree vs = map Inr js"
    by (auto split: sum.splits)
  have "numbers_valid x" if "x \<in> set js" for x
  proof -
    have "Inr x \<in> set (map encode_tree vs)" using that unfolding js by simp
    then obtain v where "v \<in> set vs" "encode_tree v = Inr x" by fastforce
    with GList.IH [of v x] GList.prems show ?thesis by (auto simp: list_all_iff)
  qed
  then show ?case unfolding j by (simp add: list_all_iff)
qed (auto split: if_splits option.splits simp: valid_number_zero)

lemma numbers_valid_iff: "numbers_valid v \<longleftrightarrow> list_all valid_number (tree_numbers v)"
proof (induction v)
  case (JObj ms)
  have "numbers_valid (snd m) \<longleftrightarrow> list_all valid_number (tree_numbers (snd m))" if "m \<in> set ms" for m
    using JObj.IH [of m "snd m"] that by (simp add: snds.simps)
  then show ?case by (fastforce simp: list_all_iff case_prod_unfold)
qed (auto simp: list_all_iff)

lemma decode_text: "numbers_valid j \<Longrightarrow> nesting j \<le> max_nesting \<Longrightarrow> decode (json_text False j) = Inr (decoded j)"
  by (simp add: decode_def parse_text decoded_def)

lemma decode_text_only: "numbers_valid j \<Longrightarrow> decode (json_text False j) = Inr g \<Longrightarrow> g = decoded j"
  by (auto simp: decode_def decoded_def dest: parse_text_only split: option.splits)

lemma json_ok_iff: "json_ok v \<longleftrightarrow> list_all number_text (tree_numbers v) \<and> list_all utf8_valid (tree_strings v)"
proof (induction v)
  case (JObj ms)
  have "json_ok (snd m) \<longleftrightarrow> list_all number_text (tree_numbers (snd m)) \<and> list_all utf8_valid (tree_strings (snd m))"
    if "m \<in> set ms" for m using JObj.IH [of m "snd m"] that by (simp add: snds.simps)
  then show ?case by (fastforce simp: list_all_iff case_prod_unfold)
qed (auto simp: list_all_iff)

lemma jsorted_sets [simp]:
  "set (tree_numbers (jsorted v)) = set (tree_numbers v)" "set (tree_strings (jsorted v)) = set (tree_strings v)"
proof (induction v)
  case (JObj ms)
  have "set (tree_numbers (jsorted (snd m))) = set (tree_numbers (snd m))"
    "set (tree_strings (jsorted (snd m))) = set (tree_strings (snd m))" if "m \<in> set ms" for m
    using JObj.IH [of m "snd m"] that by (simp_all add: snds.simps)
  then show "set (tree_numbers (jsorted (JObj ms))) = set (tree_numbers (JObj ms))"
    "set (tree_strings (jsorted (JObj ms))) = set (tree_strings (JObj ms))"
    by (simp_all add: case_prod_unfold)
qed simp_all

lemma MarshalJSON_InrD:
  assumes "MarshalJSON is_nfc v = Inr t" and "encoder_ok v"
  shows "\<exists>j. encode_tree v = Inr j \<and> tree_ok is_nfc 0 (decoded j) \<and> t = json_text False (jsorted (decoded j))"
proof -
  obtain j where j: "encode_tree v = Inr j"
    using assms(1) by (cases "encode_tree v") (auto simp: MarshalJSON_def compactMarshalNoHTMLEscape_def split: option.splits)
  then obtain g where g: "decode (json_text False j) = Inr g" "writeSorted is_nfc 0 g = Inr t"
    using assms(1) by (auto simp: MarshalJSON_def compactMarshalNoHTMLEscape_def split: option.splits sum.splits)
  then have w: "writeSorted is_nfc 0 (decoded j) = Inr t"
    using decode_text_only [OF encode_tree_numbers [OF j assms(2)]] by blast
  with j writeSorted_ok [OF writeSorted_InrD [OF w]] writeSorted_InrD [OF w] show ?thesis by simp
qed

lemma decoded_ok:
  assumes "encode_tree v = Inr j" "encoder_ok v" "tree_ok is_nfc 0 (decoded j)"
  shows "json_ok (jsorted (decoded j))"
  using encode_tree_numbers [OF assms(1,2)] decoded_numbers [of j] assms(3)
  by (auto simp: numbers_valid_iff json_ok_iff list_all_iff tree_ok_def strings_fit_def string_ok_def
      intro!: valid_number_text)

text \<open>The value a Go value stands for.\<close>

definition go_value :: "goval \<Rightarrow> jval option" where
  "go_value v = (case encode_tree v of Inl e \<Rightarrow> None | Inr j \<Rightarrow> Some (jabs (decoded j)))"

text \<open>The first pass over the strings, for values of the plain types.\<close>

fun plain_value :: "goval \<Rightarrow> bool" where
  "plain_value (GMap ms) = (distinct (map fst ms) \<and> list_all (\<lambda>(k, v). plain_value v) ms)"
| "plain_value (GList vs) = list_all plain_value vs"
| "plain_value (GOther t) = False"
| "plain_value (GFloat (Some s)) = valid_number s"
| "plain_value v = True"

lemma validateInputStrings_None:
  "plain_value v \<Longrightarrow> encode_tree v = Inr j \<Longrightarrow>
     (validateInputStrings is_nfc d v = None \<longleftrightarrow> strings_fit is_nfc d j) \<and> keys_distinct j"
proof (induction v arbitrary: d j)
  case (GMap ms)
  then obtain js where j: "j = JObj js" and js: "map (\<lambda>(k, v). map_sum id (Pair k) (encode_tree v)) ms = map Inr js"
    by (auto split: sum.splits)
  have names: "map fst js = map fst ms" and fetch: "\<And>k x. (k, x) \<in> set js \<Longrightarrow> \<exists>v. (k, v) \<in> set ms \<and> encode_tree v = Inr x"
    using encode_tree_members [OF js] by blast+
  have forth: "\<exists>x. (k, x) \<in> set js \<and> encode_tree v = Inr x" if "(k, v) \<in> set ms" for k v
    using encode_tree_members [OF js] that by blast
  have IH: "(validateInputStrings is_nfc (Suc d) v = None \<longleftrightarrow> strings_fit is_nfc (Suc d) x) \<and> keys_distinct x"
    if "(k, v) \<in> set ms" "encode_tree v = Inr x" for k v x d
    using GMap.IH [of "(k, v)" v x "Suc d"] GMap.prems(1) that by (auto simp: list_all_iff)
  have "(\<forall>m \<in> set ms. string_ok is_nfc (fst m) \<and> validateInputStrings is_nfc (Suc d) (snd m) = None) \<longleftrightarrow>
      (\<forall>m \<in> set js. string_ok is_nfc (fst m) \<and> strings_fit is_nfc (Suc d) (snd m))"
    using IH fetch forth by (metis (no_types, lifting) prod.collapse prod.sel)
  moreover have "keys_distinct (JObj js)"
    using names GMap.prems(1) IH fetch by (fastforce simp: list_all_iff)
  ultimately show ?case unfolding j
    by (simp add: validateInputStrings.simps [of is_nfc d] strings_fit_simps case_prod_unfold)
next
  case (GList vs)
  then obtain js where j: "j = JArr js" and js: "map encode_tree vs = map Inr js"
    by (auto split: sum.splits)
  have len: "length js = length vs" using js by (metis length_map)
  have nth: "encode_tree (vs ! i) = Inr (js ! i)" if "i < length vs" for i
    using js that len by (metis nth_map)
  have "(validateInputStrings is_nfc (Suc d) (vs ! i) = None \<longleftrightarrow> strings_fit is_nfc (Suc d) (js ! i)) \<and> keys_distinct (js ! i)"
    if "i < length vs" for i d
    using GList.IH [of "vs ! i" "js ! i" "Suc d"] GList.prems(1) nth [OF that] that by (simp add: list_all_iff)
  with len show ?case unfolding j
    by (auto simp: validateInputStrings.simps [of is_nfc d] strings_fit_simps all_set_conv_all_nth list_all_iff)
qed (auto simp: validateInputStrings.simps [of is_nfc d for d] strings_fit_simps split: if_splits option.splits)

lemma nesting_le_depth: "nesting v \<le> Suc (tree_depth v)"
proof (induction v)
  case (JArr xs)
  have "tree_depth (JArr xs) \<le> tree_depth (JArr xs)" ..
  then have "\<forall>x \<in> set xs. Suc (tree_depth x) \<le> tree_depth (JArr xs)"
    unfolding tree_depth.simps by (simp only: fold_max_le) simp
  with JArr have "\<forall>x \<in> set xs. nesting x \<le> tree_depth (JArr xs)" by fastforce
  then show ?case by (simp add: fold_max_le del: tree_depth.simps)
next
  case (JObj ms)
  have "tree_depth (JObj ms) \<le> tree_depth (JObj ms)" ..
  then have d: "\<forall>m \<in> set ms. Suc (tree_depth (snd m)) \<le> tree_depth (JObj ms)"
    unfolding tree_depth.simps by (simp only: fold_max_le) (simp add: case_prod_unfold)
  have "nesting (snd m) \<le> tree_depth (JObj ms)" if "m \<in> set ms" for m
    using JObj.IH [of m "snd m"] d that by (fastforce simp: snds.simps)
  then show ?case by (simp add: fold_max_le case_prod_unfold del: tree_depth.simps)
qed simp_all

lemma plain_encoder_ok: "plain_value v \<Longrightarrow> encoder_ok v"
  by (induction v rule: plain_value.induct) (auto simp: list_all_iff)

lemma MarshalJSON_plain:
  assumes "plain_value v" and "encode_tree v = Inr j"
  shows "(\<exists>t. MarshalJSON is_nfc v = Inr t) \<longleftrightarrow> tree_ok is_nfc 0 j"
proof -
  note val = validateInputStrings_None [OF assms, of is_nfc 0]
  show ?thesis
  proof (cases "strings_fit is_nfc 0 j")
    case True
    then have dec: "decoded j = j" using val by (intro decoded_id) (auto simp: strings_fit_def string_ok_def)
    have "nesting j \<le> max_nesting"
      using True nesting_le_depth [of j] by (simp add: strings_fit_def MaxDepth_def max_nesting_def)
    with val encode_tree_numbers [OF assms(2) plain_encoder_ok [OF assms(1)]] assms(2) True
    have "MarshalJSON is_nfc v = writeSorted is_nfc 0 j"
      by (simp add: MarshalJSON_def compactMarshalNoHTMLEscape_def decode_text dec)
    then show ?thesis using writeSorted_ok writeSorted_InrD by metis
  next
    case False
    then have "\<not> tree_ok is_nfc 0 j" by (simp add: tree_ok_def)
    moreover have "MarshalJSON is_nfc v \<noteq> Inr t" for t
      using False val by (auto simp: MarshalJSON_def split: option.splits)
    ultimately show ?thesis by blast
  qed
qed

subsection \<open>The properties\<close>

definition example_map :: goval where
  "example_map = GMap [(''b'', GNil), (''a'', GList [GInt 1])]"

definition example_map' :: goval where
  "example_map' = GMap [(''a'', GList [GInt 1]), (''b'', GNil)]"

text \<open>C27. Canonical bytes stand for the value alone: two values the encoder accepts have the same bytes
  exactly when they are the same JSON value, whatever order their maps were visited in, whether a
  part is a map or a struct, and however the members of the struct are ordered.\<close>
theorem canonical_json_unique:
  assumes "MarshalJSON is_nfc v = Inr s" and "encoder_ok v" and "MarshalJSON is_nfc w = Inr t" and "encoder_ok w"
  shows "s = t \<longleftrightarrow> go_value v = go_value w"
proof -
  obtain j where j: "encode_tree v = Inr j" "tree_ok is_nfc 0 (decoded j)" "s = json_text False (jsorted (decoded j))"
    using MarshalJSON_InrD [OF assms(1,2)] by blast
  obtain l where l: "encode_tree w = Inr l" "tree_ok is_nfc 0 (decoded l)" "t = json_text False (jsorted (decoded l))"
    using MarshalJSON_InrD [OF assms(3,4)] by blast
  have "s = t \<longleftrightarrow> jsorted (decoded j) = jsorted (decoded l)"
    using json_text_inject [OF _ decoded_ok [OF j(1) assms(2) j(2)] decoded_ok [OF l(1) assms(4) l(2)]] j(3) l(3) by metis
  then show ?thesis using j(1) l(1) by (simp add: go_value_def jsorted_eq_iff)
qed

lemma example_maps_ok:
  "\<exists>s t. MarshalJSON (\<lambda>s. True) example_map = Inr s \<and> MarshalJSON (\<lambda>s. True) example_map' = Inr t"
proof -
  have one: "encode_tree example_map = Inr (JObj [(''b'', JNull), (''a'', JArr [JNum (fmt_int 1)])])"
    and two: "encode_tree example_map' = Inr (JObj [(''a'', JArr [JNum (fmt_int 1)]), (''b'', JNull)])"
    by (simp_all add: example_map_def example_map'_def)
  have "integer_text (fmt_int 1)" by (simp add: integer_text_def fmt_int_def dec_nat.simps [of "Suc 0"] dec_digit_def)
  then show ?thesis
    using MarshalJSON_plain [OF _ one, of "\<lambda>s. True"] MarshalJSON_plain [OF _ two, of "\<lambda>s. True"]
    by (simp add: example_map_def example_map'_def tree_ok_simps MaxDepth_def string_ok_def)
qed

theorem canonical_json_unique_witness:
  "\<exists>s. MarshalJSON (\<lambda>s. True) example_map = Inr s \<and> MarshalJSON (\<lambda>s. True) example_map' = Inr s"
proof -
  obtain s t where s: "MarshalJSON (\<lambda>s. True) example_map = Inr s" and t: "MarshalJSON (\<lambda>s. True) example_map' = Inr t"
    using example_maps_ok by blast
  have "s = t \<longleftrightarrow> go_value example_map = go_value example_map'"
    by (rule canonical_json_unique [OF s _ t]) (simp_all add: example_map_def example_map'_def)
  moreover have "go_value example_map = go_value example_map'"
    by (simp add: go_value_def example_map_def example_map'_def fmupd_reorder_neq)
  ultimately show ?thesis using s t by simp
qed

text \<open>C28. For a value of maps, slices and scalars the encoder answers exactly when the standard library
  can encode it, it nests no deeper than \<open>MaxDepth\<close>, every key and string is UTF-8 in Normalization
  Form C, and every number is written as an integer; an answer is never one of the failures.\<close>
theorem canonical_json_accepts:
  assumes "plain_value v"
  shows "(\<exists>t. MarshalJSON is_nfc v = Inr t) \<longleftrightarrow>
    (\<exists>j. encode_tree v = Inr j \<and> tree_depth j \<le> MaxDepth \<and>
       (\<forall>s \<in> set (tree_strings j). utf8_valid s \<and> is_nfc s) \<and> (\<forall>n \<in> set (tree_numbers j). integer_text n))"
proof (cases "encode_tree v")
  case (Inl e)
  then have "MarshalJSON is_nfc v \<noteq> Inr t" for t
    by (auto simp: MarshalJSON_def compactMarshalNoHTMLEscape_def split: option.splits)
  with Inl show ?thesis by simp
next
  case (Inr j)
  then show ?thesis using MarshalJSON_plain [OF assms Inr, of is_nfc]
    by (simp add: tree_ok_def strings_fit_def string_ok_def)
qed

theorem canonical_json_accepts_witness:
  "\<exists>t. MarshalJSON (\<lambda>s. True) (GList [GNil, GBool True]) = Inr t"
  by (subst canonical_json_accepts) (simp_all add: MaxDepth_def)

text \<open>Two inputs the checks are there for get through. A string that is not UTF-8 is refused in a
  map, but inside a struct the encoder has replaced the bad bytes before the string is looked at,
  and canonical bytes come back. A float with an integral value is written without a point and
  passes as an integer; one with a fraction is refused.\<close>
theorem canonical_json_gaps:
  assumes "is_nfc ''f''" and "is_nfc [CHR 0xEF, CHR 0xBF, CHR 0xBD]"
  shows "MarshalJSON is_nfc (GMap [(''f'', GString [CHR 0xFF])]) = Inl LoneSurrogate \<and>
    MarshalJSON is_nfc (GOther (Some (JObj [(''f'', JStr [CHR 0xFF])]))) =
      MarshalJSON is_nfc (GMap [(''f'', GString [CHR 0xEF, CHR 0xBF, CHR 0xBD])]) \<and>
    (\<exists>t. MarshalJSON is_nfc (GMap [(''f'', GString [CHR 0xEF, CHR 0xBF, CHR 0xBD])]) = Inr t) \<and>
    MarshalJSON is_nfc (GFloat (Some ''3'')) = Inr ''3'' \<and>
    MarshalJSON is_nfc (GFloat (Some ''3.5'')) = Inl (FloatNotAllowed ''3.5'')"
proof -
  have bad: "\<not> utf8_valid [CHR 0xFF]" by (simp add: utf8_valid.simps(2) byte_in_def)
  have repl: "utf8_valid [CHR 0xEF, CHR 0xBF, CHR 0xBD]" by (simp add: utf8_valid.simps(2) byte_in_def)
  have clean: "clean [CHR 0xFF] = [CHR 0xEF, CHR 0xBF, CHR 0xBD]"
    by (simp add: clean.simps(2) rune_width_def byte_in_def repl_char_def)
  have nums: "valid_number ''3''" "valid_number ''3.5''"
    by (simp_all add: valid_number_def number_rest_def is_digit_def eat_frac_def eat_exp_def drop_digits_def)
  show ?thesis using assms bad repl clean nums
    by (simp add: MarshalJSON_def compactMarshalNoHTMLEscape_def validateInputStrings.simps validate_tree.simps validateInputStringsReflect_def
        decode_text max_nesting_def writeSorted.simps MaxDepth_def validateCanonicalString_def check_key_def commas_def
        del: json_text.simps)
qed

theorem canonical_json_gaps_witness:
  "MarshalJSON (\<lambda>s. True) (GFloat (Some ''3'')) = Inr ''3''"
  using canonical_json_gaps [of "\<lambda>s. True"] by simp

end
