(* ===== verification/Commitment.thy ===== *)
theory Commitment
  imports Sha512
begin

section \<open>Salted commitments: \<open>commitment/commitment.go\<close>\<close>

text \<open>
  A commitment to content under a random nonce: the hash of a domain string, the nonce and the
  hash of the content. What \<open>rand.Read\<close> delivers is an argument, \<open>None\<close> for its error; the
  constant-time comparison is equality of the bytes.
\<close>

datatype commitment_error = NonceSizeError | NonceDraw

definition CommitDomain :: string where "CommitDomain = ''aleutian.commit.v1:''"
definition NonceSize :: nat where "NonceSize = 32"

definition commit_preimage :: "bytes \<Rightarrow> bytes \<Rightarrow> bytes" where
  "commit_preimage nonce content = CommitDomain @ nonce @ sha512 content"

definition compute :: "bytes \<Rightarrow> bytes \<Rightarrow> commitment_error + string" where
  "compute nonce content =
     (if length nonce \<noteq> NonceSize then Inl NonceSizeError
      else Inr (hex_encode (sha512 (commit_preimage nonce content))))"

definition Salted :: "bytes option \<Rightarrow> bytes \<Rightarrow> commitment_error + (string \<times> bytes)" where
  "Salted rand content =
     (case rand of
        None \<Rightarrow> Inl NonceDraw
      | Some nonce \<Rightarrow> (case compute nonce content of Inl e \<Rightarrow> Inl e | Inr c \<Rightarrow> Inr (c, nonce)))"

definition Verify :: "string \<Rightarrow> bytes \<Rightarrow> bytes \<Rightarrow> bool" where
  "Verify commitment nonce content =
     (case compute nonce content of Inl _ \<Rightarrow> False | Inr want \<Rightarrow> want = commitment)"

lemma compute_Inr: "compute nonce content = Inr c \<longleftrightarrow>
    length nonce = 32 \<and> c = hex_sha512 (commit_preimage nonce content)"
  by (auto simp: compute_def NonceSize_def hex_sha512_def)

lemma Verify_iff: "Verify c nonce content \<longleftrightarrow> compute nonce content = Inr c"
  by (auto simp: Verify_def split: sum.splits)

lemma commit_preimage_eqD:
  "length n = length n' \<Longrightarrow> commit_preimage n x = commit_preimage n' x' \<Longrightarrow> n = n' \<and> sha512 x = sha512 x'"
  by (simp add: commit_preimage_def)

lemma Salted_Inr: "length nonce = 32 \<Longrightarrow> \<exists>c. Salted (Some nonce) content = Inr (c, nonce) \<and> Verify c nonce content"
  by (simp add: Salted_def Verify_iff compute_Inr compute_def NonceSize_def hex_sha512_def)

text \<open>A commitment that Salted hands out with its nonce verifies for the content, and whoever opens
  it, with whatever nonce, opens it to that content and nonce or has found a SHA-512 collision among
  the four strings hashed.\<close>
theorem commitment_binds:
  assumes "length nonce = 32"
  shows "\<exists>c. Salted (Some nonce) content = Inr (c, nonce) \<and> Verify c nonce content \<and>
    (\<forall>n x. Verify c n x \<longrightarrow> (n = nonce \<and> x = content) \<or>
       collide [commit_preimage nonce content, content] [commit_preimage n x, x])"
proof -
  obtain c where c: "Salted (Some nonce) content = Inr (c, nonce)" "Verify c nonce content"
    using Salted_Inr [OF assms] by blast
  have "(n = nonce \<and> x = content) \<or> collide [commit_preimage nonce content, content] [commit_preimage n x, x]"
    if v: "Verify c n x" for n x
  proof -
    have "length n = length nonce" and "hex_sha512 (commit_preimage nonce content) = hex_sha512 (commit_preimage n x)"
      using v c(2) by (simp_all add: Verify_iff compute_Inr)
    then have "n = nonce \<and> sha512 x = sha512 content \<or> collision (commit_preimage nonce content) (commit_preimage n x)"
      using hex_sha512_eqD commit_preimage_eqD by metis
    then show ?thesis using sha512_eqD [of content x] by (auto simp: collide_iff)
  qed
  with c show ?thesis by blast
qed

end
