(* ===== verification/Json_Object.thy ===== *)
theory Json_Object
  imports Json_Parse
begin

section \<open>Reading an object member by member: \<open>json.Decoder\<close>\<close>

text \<open>
  Some readers of the program do not trust \<open>json.Unmarshal\<close> with names: it matches them without regard
  to case and keeps the last of several. They take the tokens of an object one by one, look at each
  name, and decode the value after it. \<open>obj_loop\<close> is that loop over the text, with the decoder's own
  states: after the brace, after a value, after a comma. The two checks see the name and the members
  before it, one before and one after the value is decoded.

  What is shown: on an object that parses as a whole the loop finds the members the parser finds
  (\<open>obj_loop_members\<close>).
\<close>

definition read_top :: "string \<Rightarrow> (json \<times> string) option" where
  "read_top s = read_value (Suc (2 * length s)) 0 s"

lemma read_top_shorter: "read_top s = Some (v, r) \<Longrightarrow> length r < length s"
  unfolding read_top_def by (rule read_shorter(1))

type_synonym 'e name_check = "string \<Rightarrow> (string \<times> json) list \<Rightarrow> 'e option"

function obj_loop ::
  "'e name_check \<Rightarrow> 'e name_check \<Rightarrow> 'e \<Rightarrow> bool \<Rightarrow> (string \<times> json) list \<Rightarrow> string \<Rightarrow>
     'e + ((string \<times> json) list \<times> string)"
  and obj_member ::
  "'e name_check \<Rightarrow> 'e name_check \<Rightarrow> 'e \<Rightarrow> (string \<times> json) list \<Rightarrow> string \<Rightarrow>
     'e + ((string \<times> json) list \<times> string)" where
  "obj_loop pre post bad first ms s =
     (case skip_ws s of
        [] \<Rightarrow> Inl bad
      | c # r \<Rightarrow>
          if c = CHR ''}'' then Inr (ms, r)
          else if c = CHR '']'' \<or> \<not> first \<and> c \<noteq> CHR '','' then Inl bad
          else obj_member pre post bad ms (if first then c # r else skip_ws r))"
| "obj_member pre post bad ms t =
     (case t of
        [] \<Rightarrow> Inl bad
      | q # t' \<Rightarrow>
          if q \<noteq> CHR 0x22 then Inl bad
          else case read_string t' of
            None \<Rightarrow> Inl bad
          | Some (k, u) \<Rightarrow>
              (case pre k ms of
                 Some e \<Rightarrow> Inl e
               | None \<Rightarrow>
                   if \<not> has_prefix '':'' (skip_ws u) then Inl bad
                   else (case read_top (tl (skip_ws u)) of
                           None \<Rightarrow> Inl bad
                         | Some (v, w) \<Rightarrow>
                             (case post k ms of
                                Some e \<Rightarrow> Inl e
                              | None \<Rightarrow> obj_loop pre post bad False (ms @ [(k, v)]) w))))"
  by pat_completeness auto
termination
proof (relation "measure (\<lambda>x. case x of Inl (_, _, _, _, _, s) \<Rightarrow> 2 * length s + 1 | Inr (_, _, _, _, t) \<Rightarrow> 2 * length t)",
    goal_cases)
  case (2 pre post bad first ms s c r)
  have "length (c # r) \<le> length s" using length_skip_ws [of s] 2(1) by simp
  moreover have "length (skip_ws r) \<le> length r" by (rule length_skip_ws)
  ultimately have "length (if first then c # r else skip_ws r) \<le> length s" by auto
  then show ?case by simp
next
  case (3 pre post bad ms t q t' x k u y v w)
  have "length u < length t'" using 3 by (auto intro: read_string_shorter)
  moreover have "length w < length (tl (skip_ws u))" using 3 by (intro read_top_shorter [where v = v]) simp
  moreover have "length (tl (skip_ws u)) \<le> length u" using length_skip_ws [of u] by simp
  ultimately show ?case using 3 by simp
qed simp

declare obj_loop.simps [simp del] obj_member.simps [simp del]

text \<open>A whole input: \<open>More\<close> after the closing brace says no for a closing bracket, whatever follows it.\<close>

definition json_object :: "'e name_check \<Rightarrow> 'e name_check \<Rightarrow> 'e \<Rightarrow> 'e \<Rightarrow> 'e \<Rightarrow> string \<Rightarrow> 'e + (string \<times> json) list" where
  "json_object pre post notobj bad more s =
     (case skip_ws s of
        [] \<Rightarrow> Inl notobj
      | c # r \<Rightarrow>
          if c \<noteq> CHR ''{'' then Inl notobj
          else case obj_loop pre post bad True [] r of
            Inl e \<Rightarrow> Inl e
          | Inr (ms, r') \<Rightarrow>
              (case skip_ws r' of
                 [] \<Rightarrow> Inr ms
               | d # _ \<Rightarrow> if d = CHR '']'' \<or> d = CHR ''}'' then Inr ms else Inl more))"

subsection \<open>Agreement with the parser\<close>

text \<open>A value read at some depth is read at any smaller depth.\<close>

lemma read_more:
  "read_value n d s = Some x \<Longrightarrow> n \<le> m \<Longrightarrow> d' \<le> d \<Longrightarrow> read_value m d' s = Some x"
  "read_items n d s = Some y \<Longrightarrow> n \<le> m \<Longrightarrow> d' \<le> d \<Longrightarrow> read_items m d' s = Some y"
  "read_members n d s = Some z \<Longrightarrow> n \<le> m \<Longrightarrow> d' \<le> d \<Longrightarrow> read_members m d' s = Some z"
proof (induction n arbitrary: m d d' s x y z)
  case (Suc n)
  {
    case 1
    obtain k where m: "m = Suc k" "n \<le> k" using 1(2) by (cases m) auto
    have it: "read_items n (Suc d) r = Some w \<Longrightarrow> read_items k (Suc d') r = Some w" for r w
      using Suc.IH(2) [of "Suc d" r w k "Suc d'"] m(2) 1(3) by simp
    have me: "read_members n (Suc d) r = Some w \<Longrightarrow> read_members k (Suc d') r = Some w" for r w
      using Suc.IH(3) [of "Suc d" r w k "Suc d'"] m(2) 1(3) by simp
    show ?case using 1(1,3) unfolding m(1) by (auto dest: it me split: list.splits if_splits)
  next
    case 2
    obtain k where m: "m = Suc k" "n \<le> k" using 2(2) by (cases m) auto
    obtain v r where v: "read_value n d s = Some (v, r)" using 2(1) by (cases "read_value n d s") auto
    have v': "read_value k d' s = Some (v, r)" using Suc.IH(1) [OF v m(2) 2(3)] .
    have it: "read_items n d r = Some w \<Longrightarrow> read_items k d' r = Some w" for r w
      using Suc.IH(2) [of d r w k d'] m(2) 2(3) by simp
    show ?case using 2(1) v v' unfolding m(1) by (auto dest: it split: list.splits if_splits)
  next
    case 3
    obtain k where m: "m = Suc k" "n \<le> k" using 3(2) by (cases m) auto
    have q: "has_prefix [CHR 0x22] (skip_ws s)" using 3(1) by (simp split: if_splits)
    obtain y r where y: "read_string (tl (skip_ws s)) = Some (y, r)"
      using 3(1) q by (cases "read_string (tl (skip_ws s))") auto
    have p: "has_prefix '':'' (skip_ws r)" using 3(1) q y by (simp split: if_splits)
    obtain v u where v: "read_value n d (tl (skip_ws r)) = Some (v, u)"
      using 3(1) q y p by (cases "read_value n d (tl (skip_ws r))") auto
    have v': "read_value k d' (tl (skip_ws r)) = Some (v, u)" using Suc.IH(1) [OF v m(2) 3(3)] .
    have me: "read_members n d r = Some w \<Longrightarrow> read_members k d' r = Some w" for r w
      using Suc.IH(3) [of d r w k d'] m(2) 3(3) by simp
    show ?case using 3(1) q y p v v' unfolding m(1) by (auto dest: me split: list.splits if_splits)
  }
qed simp_all

lemma read_top_value: "read_value n d s = Some (v, r) \<Longrightarrow> read_top s = Some (v, r)"
proof -
  assume "read_value n d s = Some (v, r)"
  then have "read_value (max n (Suc (2 * length s))) 0 s = Some (v, r)" by (rule read_more) simp_all
  then show ?thesis
    using read_fuel(1) [of s "Suc (2 * length s)" "max n (Suc (2 * length s))" 0] by (simp add: read_top_def)
qed

lemma parse_read_top: "parse s = Some v \<longleftrightarrow> (\<exists>r. read_top s = Some (v, r) \<and> skip_ws r = [])"
  by (auto simp: parse_def read_top_def split: option.splits prod.splits if_splits)

text \<open>No check refuses a member in its place.\<close>

fun passes :: "'e name_check \<Rightarrow> 'e name_check \<Rightarrow> (string \<times> json) list \<Rightarrow> (string \<times> json) list \<Rightarrow> bool" where
  "passes pre post ms [] = True"
| "passes pre post ms ((k, v) # ks) = (pre k ms = None \<and> post k ms = None \<and> passes pre post (ms @ [(k, v)]) ks)"

lemma quote_not_end: "has_prefix [CHR 0x22] t \<Longrightarrow> \<exists>t'. t = CHR 0x22 # t'"
  by (cases t) (simp_all add: has_prefix_def)

lemma obj_member_read:
  "read_members n d s = Some (ks, r) \<Longrightarrow> passes pre post ms ks \<Longrightarrow>
     obj_member pre post bad ms (skip_ws s) = Inr (ms @ ks, r)"
proof (induction n arbitrary: s ms ks)
  case (Suc n)
  from Suc.prems(1) have q: "has_prefix [CHR 0x22] (skip_ws s)" by (simp split: if_splits)
  then obtain t where t: "skip_ws s = CHR 0x22 # t" using quote_not_end by blast
  from Suc.prems(1) q t obtain k u where k: "read_string t = Some (k, u)" by (cases "read_string t") auto
  from Suc.prems(1) q t k have p: "has_prefix '':'' (skip_ws u)" by (simp split: if_splits)
  from Suc.prems(1) q t k p obtain v w where v: "read_value n d (tl (skip_ws u)) = Some (v, w)"
    by (cases "read_value n d (tl (skip_ws u))") auto
  from Suc.prems(1) q t k p v obtain c x where x: "skip_ws w = c # x" by (cases "skip_ws w") auto
  note top = read_top_value [OF v]
  show ?case
  proof (cases "c = CHR '',''")
    case True
    then obtain ls where ls: "read_members n d x = Some (ls, r)" "ks = (k, v) # ls"
      using Suc.prems(1) q t k p v x by auto
    then have ok: "pre k ms = None" "post k ms = None" "passes pre post (ms @ [(k, v)]) ls"
      using Suc.prems(2) by simp_all
    from Suc.IH [OF ls(1) ok(3)] have "obj_loop pre post bad False (ms @ [(k, v)]) w = Inr (ms @ ks, r)"
      using x True ls(2) by (simp add: obj_loop.simps [of pre post bad False])
    then show ?thesis using t k p top ok by (simp add: obj_member.simps)
  next
    case False
    then have end': "c = CHR ''}''" "ks = [(k, v)]" "r = x" using Suc.prems(1) q t k p v x by (auto split: if_splits)
    then have ok: "pre k ms = None" "post k ms = None" using Suc.prems(2) by simp_all
    have "obj_loop pre post bad False (ms @ [(k, v)]) w = Inr (ms @ ks, r)"
      using x end' by (simp add: obj_loop.simps [of pre post bad False])
    then show ?thesis using t k p top ok by (simp add: obj_member.simps)
  qed
qed simp

lemma json_object_parse:
  assumes "parse s = Some (JObj ms)" and "passes pre post [] ms"
  shows "json_object pre post notobj bad more s = Inr ms"
proof -
  obtain r where r: "read_value (Suc (2 * length s)) 0 s = Some (JObj ms, r)" "skip_ws r = []"
    using assms(1) by (auto simp: parse_def split: option.splits prod.splits if_splits)
  obtain c t where t: "skip_ws s = c # t" using r(1) by (cases "skip_ws s") auto
  have c: "c = CHR ''{''" using r(1) t by (auto split: if_splits)
  have "obj_loop pre post bad True [] t = Inr (ms, r)"
  proof (cases "has_prefix ''}'' (skip_ws t)")
    case True
    then obtain u where "skip_ws t = CHR ''}'' # u" by (cases "skip_ws t") (auto simp: has_prefix_def)
    then have "ms = []" "u = r" using r(1) t c True by (auto simp: max_nesting_def)
    then show ?thesis using \<open>skip_ws t = _\<close> by (simp add: obj_loop.simps [of pre post bad True])
  next
    case False
    then have m: "read_members (2 * length s) (Suc 0) t = Some (ms, r)"
      using r(1) t c by (auto split: if_splits)
    then have "has_prefix [CHR 0x22] (skip_ws t)" by (cases "2 * length s") (auto split: if_splits)
    then obtain u where u: "skip_ws t = CHR 0x22 # u" using quote_not_end by blast
    from obj_member_read [OF m assms(2)] show ?thesis using u by (simp add: obj_loop.simps [of pre post bad True])
  qed
  then show ?thesis using t c r(2) by (simp add: json_object_def)
qed

text \<open>What the loop lets through passed its checks.\<close>

lemma obj_loop_passes:
  "obj_loop pre post bad first ms s = Inr (ks, r) \<Longrightarrow> \<exists>ls. ks = ms @ ls \<and> passes pre post ms ls"
  "obj_member pre post bad ms t = Inr (ks, r) \<Longrightarrow> \<exists>ls. ks = ms @ ls \<and> passes pre post ms ls"
proof (induction pre post bad first ms s and pre post bad ms t rule: obj_loop_obj_member.induct)
  case (1 pre post bad first ms s)
  from "1.prems" show ?case
    by (subst (asm) obj_loop.simps) (auto split: list.splits if_splits dest: "1.IH")
next
  case (2 pre post bad ms t)
  from "2.prems" obtain t' where t: "t = CHR 0x22 # t'"
    by (subst (asm) obj_member.simps) (auto split: list.splits if_splits)
  from "2.prems" t obtain k u where k: "read_string t' = Some (k, u)" "pre k ms = None" "has_prefix '':'' (skip_ws u)"
    by (subst (asm) obj_member.simps) (auto split: option.splits if_splits)
  from "2.prems" t k obtain v w where v: "read_top (tl (skip_ws u)) = Some (v, w)" "post k ms = None"
    by (subst (asm) obj_member.simps) (auto split: option.splits)
  have "obj_loop pre post bad False (ms @ [(k, v)]) w = Inr (ks, r)"
    using "2.prems" t k v by (subst (asm) obj_member.simps) simp
  from "2.IH" [OF t _ k(1) _ k(2) _ v(1) _ v(2) this] k(3)
  obtain ls where "ks = (ms @ [(k, v)]) @ ls" "passes pre post (ms @ [(k, v)]) ls" by auto
  then show ?case using k v by (intro exI [of _ "(k, v) # ls"]) simp
qed

lemma obj_member_only:
  "read_members n d s = Some (ks, r) \<Longrightarrow> obj_member pre post bad ms (skip_ws s) = Inr (ls, r') \<Longrightarrow> ls = ms @ ks \<and> r' = r"
proof (induction n arbitrary: s ms ks)
  case (Suc n)
  from Suc.prems(1) have q: "has_prefix [CHR 0x22] (skip_ws s)" by (simp split: if_splits)
  then obtain t where t: "skip_ws s = CHR 0x22 # t" using quote_not_end by blast
  from Suc.prems(1) q t obtain k u where k: "read_string t = Some (k, u)" by (cases "read_string t") auto
  from Suc.prems(1) q t k have p: "has_prefix '':'' (skip_ws u)" by (simp split: if_splits)
  from Suc.prems(1) q t k p obtain v w where v: "read_value n d (tl (skip_ws u)) = Some (v, w)"
    by (cases "read_value n d (tl (skip_ws u))") auto
  from Suc.prems(1) q t k p v obtain c x where x: "skip_ws w = c # x" by (cases "skip_ws w") auto
  note top = read_top_value [OF v]
  from Suc.prems(2) have loop: "obj_loop pre post bad False (ms @ [(k, v)]) w = Inr (ls, r')"
    unfolding t obj_member.simps using k p top by (simp split: option.splits)
  show ?case
  proof (cases "c = CHR '',''")
    case True
    then obtain js where js: "read_members n d x = Some (js, r)" "ks = (k, v) # js"
      using Suc.prems(1) q t k p v x by auto
    have "obj_member pre post bad (ms @ [(k, v)]) (skip_ws x) = Inr (ls, r')"
      using loop x True by (simp add: obj_loop.simps [of pre post bad False])
    from Suc.IH [OF js(1) this] show ?thesis using js(2) by simp
  next
    case False
    then have end': "c = CHR ''}''" "ks = [(k, v)]" "r = x" using Suc.prems(1) q t k p v x by (auto split: if_splits)
    then show ?thesis using loop x by (simp add: obj_loop.simps [of pre post bad False])
  qed
qed simp

text \<open>On a text that parses, an accepted object is the parsed one, and its members passed the checks.\<close>

lemma json_object_only:
  assumes "parse s = Some v" and "json_object pre post notobj bad more s = Inr ls"
  shows "v = JObj ls \<and> passes pre post [] ls"
proof -
  obtain c t where t: "skip_ws s = c # t" using assms(2) by (cases "skip_ws s") (simp_all add: json_object_def)
  have c: "c = CHR ''{''" using assms(2) t by (simp add: json_object_def split: if_splits)
  obtain r' where loop: "obj_loop pre post bad True [] t = Inr (ls, r')"
    using assms(2) t c by (auto simp: json_object_def split: sum.splits list.splits if_splits)
  obtain r where r: "read_value (Suc (2 * length s)) 0 s = Some (v, r)"
    using assms(1) by (auto simp: parse_def split: option.splits prod.splits if_splits)
  have "v = JObj ls"
  proof (cases "has_prefix ''}'' (skip_ws t)")
    case True
    then obtain u where u: "skip_ws t = CHR ''}'' # u" by (cases "skip_ws t") (auto simp: has_prefix_def)
    then have "ls = []" using loop by (simp add: obj_loop.simps [of pre post bad True])
    moreover have "v = JObj []" using r t c True by (auto simp: max_nesting_def)
    ultimately show ?thesis by simp
  next
    case False
    then obtain ms where m: "read_members (2 * length s) (Suc 0) t = Some (ms, r)" "v = JObj ms"
      using r t c by (auto split: if_splits)
    then have "has_prefix [CHR 0x22] (skip_ws t)" by (cases "2 * length s") (auto split: if_splits)
    then obtain u where u: "skip_ws t = CHR 0x22 # u" using quote_not_end by blast
    then have "obj_member pre post bad [] (skip_ws t) = Inr (ls, r')"
      using loop by (simp add: obj_loop.simps [of pre post bad True])
    from obj_member_only [OF m(1) this] m(2) show ?thesis by simp
  qed
  moreover have "passes pre post [] ls" using obj_loop_passes(1) [OF loop] by simp
  ultimately show ?thesis by simp
qed

end
