(* ===== verification/Anchor_Json.thy ===== *)
theory Anchor_Json
  imports Anchor_Core Store_Json Json_Object
begin

section \<open>Anchors in JSON: \<open>anchor/subject_json.go\<close>\<close>

text \<open>
  The transport form of an anchor. Writing puts the subject first, under the key of the anchor's
  version, and then the struct's other fields. Reading goes over the text twice: once name by name,
  where a name the format does not have, in its exact spelling, or a second member of one name is an
  error, and once through \<open>json.Unmarshal\<close> for the values.

  What is shown: reading gives back what was written, and it accepts exactly the objects whose members
  are distinct, known, rightly typed and name the subject as the version does, with the anchor that
  looking the members up by exact name gives.
\<close>

subsection \<open>Writing\<close>

definition legacySubjectKey :: string where "legacySubjectKey = ''company_id''"
definition subjectKey :: string where "subjectKey = ''subject''"

definition wire_members :: "anchor \<Rightarrow> (string \<times> json) list" where
  "wire_members a =
     [(''version'', JInt (an_Version a)), (''anchor_id'', JStr (an_AnchorID a)),
      (''chain_hash'', JStr (an_ChainHash a)),
      (''range'', JObj [(''start_entry_id'', JStr (StartEntryID (an_Range a))), (''end_entry_id'', JStr (EndEntryID (an_Range a)))]),
      (''entry_count'', JInt (an_EntryCount a)), (''signature'', JStr (an_Signature a)),
      (''signing_key_id'', JStr (an_SigningKeyID a)), (''created_at_ms'', JInt (an_CreatedAtMs a)),
      (''previous_anchor_id'', JStr (an_PreviousAnchorID a))] @
     (if an_VerifiedThrough a = 0 then [] else [(''verified_through'', JInt (an_VerifiedThrough a))])"

definition MarshalJSON_anchor :: "anchor \<Rightarrow> string" where
  "MarshalJSON_anchor a =
     (let raw = json_text True (JObj (wire_members a));
          key = (if SubjectVersion \<le> an_Version a then subjectKey else legacySubjectKey);
          subject = json_text True (JStr (an_Subject a));
          out = ''{'' @ [CHR 0x22] @ key @ [CHR 0x22, CHR '':''] @ subject
      in if 2 < length raw then out @ '','' @ tl raw else out @ ''}'')"

subsection \<open>Reading\<close>

datatype member_error =
    NotJsonObject string | InvalidJson string | UndefinedMember string string | MemberTwice string string
  | FollowedByMore string | WrongJsonType | SubjectNamed int string string

definition anchorMembers :: "string set" where
  "anchorMembers =
     {subjectKey, legacySubjectKey, ''version'', ''anchor_id'', ''chain_hash'', ''range'', ''entry_count'', ''signature'',
      ''signing_key_id'', ''created_at_ms'', ''previous_anchor_id'', ''verified_through''}"

definition rangeMembers :: "string set" where
  "rangeMembers = {''start_entry_id'', ''end_entry_id''}"

text \<open>The checks of \<open>objectMembers\<close> on one name, and the function itself; of a value already decoded as
  JSON only the names can be at fault.\<close>

definition member_check :: "string \<Rightarrow> string set \<Rightarrow> member_error name_check" where
  "member_check what allowed k ms =
     (if k \<notin> allowed then Some (UndefinedMember what (take 40 k))
      else if k \<in> fst ` set ms then Some (MemberTwice what k)
      else None)"

definition no_check :: "'e name_check" where "no_check k ms = None"

definition objectMembers :: "string \<Rightarrow> string set \<Rightarrow> string \<Rightarrow> member_error + string set" where
  "objectMembers data allowed what =
     map_sum id (\<lambda>ms. fst ` set ms)
       (json_object (member_check what allowed) no_check (NotJsonObject what) (InvalidJson what) (FollowedByMore what) data)"

fun names_fault :: "'e name_check \<Rightarrow> (string \<times> json) list \<Rightarrow> (string \<times> json) list \<Rightarrow> 'e option" where
  "names_fault pre ms [] = None"
| "names_fault pre ms ((k, v) # ks) = (case pre k ms of Some e \<Rightarrow> Some e | None \<Rightarrow> names_fault pre (ms @ [(k, v)]) ks)"

definition value_members :: "json \<Rightarrow> string set \<Rightarrow> string \<Rightarrow> member_error option" where
  "value_members v allowed what =
     (case v of JObj ms \<Rightarrow> names_fault (member_check what allowed) [] ms | _ \<Rightarrow> Some (NotJsonObject what))"

definition set_range :: "anchor setter" where
  "set_range j a =
     (case decode_struct
             [(''start_entry_id'', set_string (\<lambda>s r. r\<lparr>StartEntryID := s\<rparr>)),
              (''end_entry_id'', set_string (\<lambda>s r. r\<lparr>EndEntryID := s\<rparr>))] j (an_Range a) of
        None \<Rightarrow> None | Some r \<Rightarrow> Some (a\<lparr>an_Range := r\<rparr>))"

definition wire_fields :: "(string \<times> anchor setter) list" where
  "wire_fields =
     [(''version'', set_int (\<lambda>i a. a\<lparr>an_Version := i\<rparr>)), (''anchor_id'', set_string (\<lambda>s a. a\<lparr>an_AnchorID := s\<rparr>)),
      (''chain_hash'', set_string (\<lambda>s a. a\<lparr>an_ChainHash := s\<rparr>)), (''range'', set_range),
      (''entry_count'', set_int (\<lambda>i a. a\<lparr>an_EntryCount := i\<rparr>)), (''signature'', set_string (\<lambda>s a. a\<lparr>an_Signature := s\<rparr>)),
      (''signing_key_id'', set_string (\<lambda>s a. a\<lparr>an_SigningKeyID := s\<rparr>)),
      (''created_at_ms'', set_int (\<lambda>i a. a\<lparr>an_CreatedAtMs := i\<rparr>)),
      (''previous_anchor_id'', set_string (\<lambda>s a. a\<lparr>an_PreviousAnchorID := s\<rparr>)),
      (''verified_through'', set_int (\<lambda>i a. a\<lparr>an_VerifiedThrough := i\<rparr>))]"

definition zero_anchor :: anchor where
  "zero_anchor = \<lparr>an_Version = 0, an_AnchorID = [], an_Subject = [], an_ChainHash = [],
     an_Range = \<lparr>StartEntryID = [], EndEntryID = []\<rparr>, an_EntryCount = 0, an_Signature = [], an_SigningKeyID = [],
     an_CreatedAtMs = 0, an_PreviousAnchorID = [], an_VerifiedThrough = 0\<rparr>"

text \<open>The second struct: pointers that stay nil for a null, and the raw value of the range.\<close>

record wire_keys =
  k_Subject :: "string option"
  k_CompanyID :: "string option"
  k_Range :: "json option"

definition set_pointer :: "(string option \<Rightarrow> 'a \<Rightarrow> 'a) \<Rightarrow> 'a setter" where
  "set_pointer f j x = (case j of JStr s \<Rightarrow> Some (f (Some s) x) | JNull \<Rightarrow> Some (f None x) | _ \<Rightarrow> None)"

definition key_fields :: "(string \<times> wire_keys setter) list" where
  "key_fields =
     [(''subject'', set_pointer (\<lambda>p x. x\<lparr>k_Subject := p\<rparr>)), (''company_id'', set_pointer (\<lambda>p x. x\<lparr>k_CompanyID := p\<rparr>)),
      (''range'', \<lambda>j x. Some (x\<lparr>k_Range := Some j\<rparr>))]"

definition UnmarshalJSON_anchor :: "string \<Rightarrow> member_error + anchor" where
  "UnmarshalJSON_anchor data =
     (case objectMembers data anchorMembers ''the anchor'' of
        Inl e \<Rightarrow> Inl e
      | Inr names \<Rightarrow>
     (case unmarshal wire_fields zero_anchor data of
        None \<Rightarrow> Inl WrongJsonType
      | Some wire \<Rightarrow>
     (case unmarshal key_fields \<lparr>k_Subject = None, k_CompanyID = None, k_Range = None\<rparr> data of
        None \<Rightarrow> Inl WrongJsonType
      | Some keys \<Rightarrow>
     (case (if ''range'' \<in> names
            then (case k_Range keys of
                    None \<Rightarrow> Some (NotJsonObject ''the anchor's range'')
                  | Some v \<Rightarrow> value_members v rangeMembers ''the anchor's range'')
            else None) of
        Some e \<Rightarrow> Inl e
      | None \<Rightarrow>
          let (want, other) = (if SubjectVersion \<le> an_Version wire then (subjectKey, legacySubjectKey)
                               else (legacySubjectKey, subjectKey))
          in if other \<in> names then Inl (SubjectNamed (an_Version wire) want other)
             else Inr (wire\<lparr>an_Subject :=
                    (case k_Subject keys of
                       Some s \<Rightarrow> s
                     | None \<Rightarrow> (case k_CompanyID keys of Some s \<Rightarrow> s | None \<Rightarrow> an_Subject wire))\<rparr>)))))"

subsection \<open>Reading what was written\<close>

definition anchor_plain :: "anchor \<Rightarrow> bool" where
  "anchor_plain a \<longleftrightarrow>
     list_all utf8_valid [an_AnchorID a, an_Subject a, an_ChainHash a, StartEntryID (an_Range a), EndEntryID (an_Range a),
       an_Signature a, an_SigningKeyID a, an_PreviousAnchorID a] \<and>
     list_all int64 [an_Version a, an_EntryCount a, an_CreatedAtMs a, an_VerifiedThrough a]"

definition subject_key :: "anchor \<Rightarrow> string" where
  "subject_key a = (if SubjectVersion \<le> an_Version a then subjectKey else legacySubjectKey)"

definition anchor_members :: "anchor \<Rightarrow> (string \<times> json) list" where
  "anchor_members a = (subject_key a, JStr (an_Subject a)) # wire_members a"

lemma key_text: "json_string True subjectKey = CHR 0x22 # subjectKey @ [CHR 0x22]"
  "json_string True legacySubjectKey = CHR 0x22 # legacySubjectKey @ [CHR 0x22]"
  by code_simp+

lemma MarshalJSON_text: "MarshalJSON_anchor a = json_text True (JObj (anchor_members a))"
proof -
  obtain m ms where w: "wire_members a = m # ms" by (simp add: wire_members_def)
  have "json_string True (subject_key a) = CHR 0x22 # subject_key a @ [CHR 0x22]"
    using key_text by (simp add: subject_key_def)
  then show ?thesis unfolding MarshalJSON_anchor_def Let_def anchor_members_def json_text_JObj w
    by (cases ms) (simp_all add: member_text_def subject_key_def)
qed

lemmas member_names = subjectKey_def legacySubjectKey_def

lemma names_fault_passes: "names_fault pre ms ks = None \<longleftrightarrow> passes pre no_check ms ks"
  by (induction ks arbitrary: ms) (auto simp: no_check_def split: option.splits)

lemma member_check_None [simp]: "member_check what allowed k ms = None \<longleftrightarrow> k \<in> allowed \<and> k \<notin> fst ` set ms"
  by (simp add: member_check_def)

lemma passes_names:
  "passes (member_check what allowed) no_check ms ks \<longleftrightarrow>
     distinct (map fst ks) \<and> fst ` set ks \<subseteq> allowed \<and> fst ` set ks \<inter> fst ` set ms = {}"
proof (induction ks arbitrary: ms)
  case (Cons kv ks)
  obtain k v where kv: "kv = (k, v)" by force
  have "no_check k ms = None" by (simp add: no_check_def)
  then show ?case unfolding kv by (simp add: Cons.IH) blast
qed simp

text \<open>The values of an object by exact name.\<close>

fun int_of :: "json \<Rightarrow> int \<Rightarrow> int" where
  "int_of (JNum n) x = the (parse_int64 n)"
| "int_of _ x = x"

fun str_of :: "json \<Rightarrow> string \<Rightarrow> string" where
  "str_of (JStr s) x = s"
| "str_of _ x = x"

fun int_value :: "json \<Rightarrow> bool" where
  "int_value (JNum n) = (parse_int64 n \<noteq> None)"
| "int_value JNull = True"
| "int_value _ = False"

fun str_value :: "json \<Rightarrow> bool" where
  "str_value (JStr s) = True"
| "str_value JNull = True"
| "str_value _ = False"

definition int_at :: "(string \<times> json) list \<Rightarrow> string \<Rightarrow> int \<Rightarrow> int" where
  "int_at ms k x = (case map_of ms k of None \<Rightarrow> x | Some v \<Rightarrow> int_of v x)"

definition str_at :: "(string \<times> json) list \<Rightarrow> string \<Rightarrow> string \<Rightarrow> string" where
  "str_at ms k x = (case map_of ms k of None \<Rightarrow> x | Some v \<Rightarrow> str_of v x)"

lemma at_simps [simp]:
  "int_at [] k x = x" "str_at [] k t = t"
  "int_at ((j, v) # ms) k x = (if k = j then int_of v x else int_at ms k x)"
  "str_at ((j, v) # ms) k t = (if k = j then str_of v t else str_at ms k t)"
  by (simp_all add: int_at_def str_at_def)

lemma at_absent: "k \<notin> fst ` set ms \<Longrightarrow> int_at ms k x = x" "k \<notin> fst ` set ms \<Longrightarrow> str_at ms k t = t"
  by (simp_all add: int_at_def str_at_def map_of_eq_None_iff [symmetric])

definition typed :: "(string \<times> json) list \<Rightarrow> string set \<Rightarrow> string set \<Rightarrow> bool" where
  "typed ms ints strs \<longleftrightarrow> (\<forall>(k, v) \<in> set ms. (k \<in> ints \<longrightarrow> int_value v) \<and> (k \<in> strs \<longrightarrow> str_value v))"

lemma typed_simps [simp]:
  "typed [] I S"
  "typed ((k, v) # ms) I S \<longleftrightarrow> (k \<in> I \<longrightarrow> int_value v) \<and> (k \<in> S \<longrightarrow> str_value v) \<and> typed ms I S"
  by (auto simp: typed_def)

lemma set_int_of: "set_int f v x = (if int_value v then Some (if v = JNull then x else f (int_of v 0) x) else None)"
  by (cases v) (auto simp: set_int_def split: option.splits)

lemma set_str_of: "set_string f v x = (if str_value v then Some (if v = JNull then x else f (str_of v []) x) else None)"
  by (cases v) (auto simp: set_string_def)

definition range_fields :: "(string \<times> EntryRange setter) list" where
  "range_fields =
     [(''start_entry_id'', set_string (\<lambda>s r. r\<lparr>StartEntryID := s\<rparr>)), (''end_entry_id'', set_string (\<lambda>s r. r\<lparr>EndEntryID := s\<rparr>))]"

definition range_at :: "(string \<times> json) list \<Rightarrow> EntryRange \<Rightarrow> EntryRange" where
  "range_at rs r =
     r\<lparr>StartEntryID := str_at rs ''start_entry_id'' (StartEntryID r), EndEntryID := str_at rs ''end_entry_id'' (EndEntryID r)\<rparr>"

lemma set_members_known:
  "map_of fs k = Some f \<Longrightarrow> set_members fs ((k, v) # ms) x = Option.bind (f v x) (set_members fs ms)"
proof -
  assume f: "map_of fs k = Some f"
  then have "k \<in> fst ` set fs" by (metis domI dom_map_of_conv_image_fst)
  with f show ?thesis by (simp add: field_of_def split: option.splits)
qed

lemma range_members_read:
  "distinct (map fst rs) \<Longrightarrow> fst ` set rs \<subseteq> rangeMembers \<Longrightarrow>
     set_members range_fields rs r = (if typed rs {} rangeMembers then Some (range_at rs r) else None)"
proof (induction rs arbitrary: r)
  case Nil
  then show ?case by (simp add: range_at_def)
next
  case (Cons kv rs)
  obtain k v where kv: "kv = (k, v)" by force
  have k: "k = ''start_entry_id'' \<or> k = ''end_entry_id''" "k \<notin> fst ` set rs"
    using Cons.prems kv by (auto simp: rangeMembers_def)
  have IH: "set_members range_fields rs q = (if typed rs {} rangeMembers then Some (range_at rs q) else None)" for q
    using Cons by simp
  have "set_members range_fields ((k, v) # rs) r = (if str_value v then
      (if typed rs {} rangeMembers then Some (range_at ((k, v) # rs) r) else None) else None)"
    using k(1)
  proof
    assume a: "k = ''start_entry_id''"
    have m: "map_of range_fields k = Some (set_string (\<lambda>s r. r\<lparr>StartEntryID := s\<rparr>))" by (simp add: range_fields_def a)
    have "range_at rs (r\<lparr>StartEntryID := str_of v (StartEntryID r)\<rparr>) = range_at ((k, v) # rs) r"
      using k(2) by (simp add: range_at_def a at_absent)
    then show ?thesis unfolding set_members_known [OF m] set_str_of
      by (cases v) (simp_all add: IH)
  next
    assume a: "k = ''end_entry_id''"
    have m: "map_of range_fields k = Some (set_string (\<lambda>s r. r\<lparr>EndEntryID := s\<rparr>))" by (simp add: range_fields_def a)
    have "range_at rs (r\<lparr>EndEntryID := str_of v (EndEntryID r)\<rparr>) = range_at ((k, v) # rs) r"
      using k(2) by (simp add: range_at_def a at_absent)
    then show ?thesis unfolding set_members_known [OF m] set_str_of
      by (cases v) (simp_all add: IH)
  qed
  moreover have "k \<in> rangeMembers" using k(1) by (auto simp: rangeMembers_def)
  ultimately show ?case unfolding kv by simp
qed

definition int_names :: "string set" where
  "int_names = {''version'', ''entry_count'', ''created_at_ms'', ''verified_through''}"

definition str_names :: "string set" where
  "str_names = {''anchor_id'', ''chain_hash'', ''signature'', ''signing_key_id'', ''previous_anchor_id''}"

definition range_ok :: "(string \<times> json) list \<Rightarrow> EntryRange \<Rightarrow> bool" where
  "range_ok ms r \<longleftrightarrow> (case map_of ms ''range'' of None \<Rightarrow> True | Some v \<Rightarrow> decode_struct range_fields v r \<noteq> None)"

definition range_of :: "(string \<times> json) list \<Rightarrow> EntryRange \<Rightarrow> EntryRange" where
  "range_of ms r = (case map_of ms ''range'' of None \<Rightarrow> r | Some v \<Rightarrow> the (decode_struct range_fields v r))"

definition wire_at :: "(string \<times> json) list \<Rightarrow> anchor \<Rightarrow> anchor" where
  "wire_at ms a =
     a\<lparr>an_Version := int_at ms ''version'' (an_Version a), an_AnchorID := str_at ms ''anchor_id'' (an_AnchorID a),
       an_ChainHash := str_at ms ''chain_hash'' (an_ChainHash a), an_Range := range_of ms (an_Range a),
       an_EntryCount := int_at ms ''entry_count'' (an_EntryCount a), an_Signature := str_at ms ''signature'' (an_Signature a),
       an_SigningKeyID := str_at ms ''signing_key_id'' (an_SigningKeyID a),
       an_CreatedAtMs := int_at ms ''created_at_ms'' (an_CreatedAtMs a),
       an_PreviousAnchorID := str_at ms ''previous_anchor_id'' (an_PreviousAnchorID a),
       an_VerifiedThrough := int_at ms ''verified_through'' (an_VerifiedThrough a)\<rparr>"

lemma wire_names: "map fst wire_fields =
    [''version'', ''anchor_id'', ''chain_hash'', ''range'', ''entry_count'', ''signature'', ''signing_key_id'',
     ''created_at_ms'', ''previous_anchor_id'', ''verified_through'']"
  by (simp add: wire_fields_def)

lemma no_subject_field: "field_of (map fst wire_fields) subjectKey = None" "field_of (map fst wire_fields) legacySubjectKey = None"
  unfolding wire_names by code_simp+

lemma range_simps:
  "range_ok [] r" "range_of [] r = r"
  "''range'' \<notin> fst ` set ms \<Longrightarrow> range_ok ms r" "''range'' \<notin> fst ` set ms \<Longrightarrow> range_of ms r = r"
  "k \<noteq> ''range'' \<Longrightarrow> range_ok ((k, v) # ms) r = range_ok ms r" "k \<noteq> ''range'' \<Longrightarrow> range_of ((k, v) # ms) r = range_of ms r"
  "range_ok ((''range'', v) # ms) r \<longleftrightarrow> decode_struct range_fields v r \<noteq> None"
  "range_of ((''range'', v) # ms) r = the (decode_struct range_fields v r)"
  by (simp_all add: range_ok_def range_of_def map_of_eq_None_iff [symmetric])

lemma set_range_fields: "set_range v a = map_option (\<lambda>r. a\<lparr>an_Range := r\<rparr>) (decode_struct range_fields v (an_Range a))"
  by (simp add: set_range_def range_fields_def split: option.splits)

lemma wire_members_read:
  "distinct (map fst ms) \<Longrightarrow> fst ` set ms \<subseteq> anchorMembers \<Longrightarrow>
     set_members wire_fields ms a =
       (if typed ms int_names str_names \<and> range_ok ms (an_Range a) then Some (wire_at ms a) else None)"
proof (induction ms arbitrary: a)
  case Nil
  then show ?case by (simp add: wire_at_def range_simps)
next
  case (Cons kv ms)
  obtain k v where kv: "kv = (k, v)" by force
  have k: "k \<in> anchorMembers" "k \<notin> fst ` set ms" using Cons.prems kv by auto
  have IH: "set_members wire_fields ms b =
      (if typed ms int_names str_names \<and> range_ok ms (an_Range b) then Some (wire_at ms b) else None)" for b
    using Cons by simp
  let ?goal = "set_members wire_fields ((k, v) # ms) a =
      (if typed ((k, v) # ms) int_names str_names \<and> range_ok ((k, v) # ms) (an_Range a) then Some (wire_at ((k, v) # ms) a) else None)"
  have int_step: ?goal
    if f: "map_of wire_fields k = Some (set_int f)" and n: "k \<in> int_names" "k \<notin> str_names" "k \<noteq> ''range''"
      and w: "\<And>x b. an_Range (f x b) = an_Range b"
      and eq: "int_value v \<Longrightarrow> wire_at ((k, v) # ms) a = (if v = JNull then wire_at ms a else wire_at ms (f (int_of v 0) a))" for f
    unfolding set_members_known [OF f] set_int_of using n w eq by (cases v) (simp_all add: IH range_simps)
  have str_step: ?goal
    if f: "map_of wire_fields k = Some (set_string f)" and n: "k \<in> str_names" "k \<notin> int_names" "k \<noteq> ''range''"
      and w: "\<And>x b. an_Range (f x b) = an_Range b"
      and eq: "str_value v \<Longrightarrow> wire_at ((k, v) # ms) a = (if v = JNull then wire_at ms a else wire_at ms (f (str_of v []) a))" for f
    unfolding set_members_known [OF f] set_str_of using n w eq by (cases v) (simp_all add: IH range_simps)
  note facts = wire_fields_def int_names_def str_names_def wire_at_def at_absent range_simps
  note absent = at_absent [OF k(2)] range_simps(3,4)
  have c1: ?goal if k': "k = ''version''"
  proof (rule int_step [where f = "\<lambda>x a. a\<lparr>an_Version := x\<rparr>"])
    show "map_of wire_fields k = Some (set_int (\<lambda>x a. a\<lparr>an_Version := x\<rparr>))" by (simp add: wire_fields_def k')
    show "wire_at ((k, v) # ms) a = (if v = JNull then wire_at ms a else wire_at ms (a\<lparr>an_Version := int_of v 0\<rparr>))"
      if "int_value v" using that by (cases v) (simp_all add: wire_at_def absent [unfolded k'] k' range_simps(6))
  qed (simp_all add: k' int_names_def str_names_def)
  have c2: ?goal if k': "k = ''anchor_id''"
  proof (rule str_step [where f = "\<lambda>x a. a\<lparr>an_AnchorID := x\<rparr>"])
    show "map_of wire_fields k = Some (set_string (\<lambda>x a. a\<lparr>an_AnchorID := x\<rparr>))" by (simp add: wire_fields_def k')
    show "wire_at ((k, v) # ms) a = (if v = JNull then wire_at ms a else wire_at ms (a\<lparr>an_AnchorID := str_of v []\<rparr>))"
      if "str_value v" using that by (cases v) (simp_all add: wire_at_def absent [unfolded k'] k' range_simps(6))
  qed (simp_all add: k' int_names_def str_names_def)
  have c3: ?goal if k': "k = ''chain_hash''"
  proof (rule str_step [where f = "\<lambda>x a. a\<lparr>an_ChainHash := x\<rparr>"])
    show "map_of wire_fields k = Some (set_string (\<lambda>x a. a\<lparr>an_ChainHash := x\<rparr>))" by (simp add: wire_fields_def k')
    show "wire_at ((k, v) # ms) a = (if v = JNull then wire_at ms a else wire_at ms (a\<lparr>an_ChainHash := str_of v []\<rparr>))"
      if "str_value v" using that by (cases v) (simp_all add: wire_at_def absent [unfolded k'] k' range_simps(6))
  qed (simp_all add: k' int_names_def str_names_def)
  have c4: ?goal if k': "k = ''entry_count''"
  proof (rule int_step [where f = "\<lambda>x a. a\<lparr>an_EntryCount := x\<rparr>"])
    show "map_of wire_fields k = Some (set_int (\<lambda>x a. a\<lparr>an_EntryCount := x\<rparr>))" by (simp add: wire_fields_def k')
    show "wire_at ((k, v) # ms) a = (if v = JNull then wire_at ms a else wire_at ms (a\<lparr>an_EntryCount := int_of v 0\<rparr>))"
      if "int_value v" using that by (cases v) (simp_all add: wire_at_def absent [unfolded k'] k' range_simps(6))
  qed (simp_all add: k' int_names_def str_names_def)
  have c5: ?goal if k': "k = ''signature''"
  proof (rule str_step [where f = "\<lambda>x a. a\<lparr>an_Signature := x\<rparr>"])
    show "map_of wire_fields k = Some (set_string (\<lambda>x a. a\<lparr>an_Signature := x\<rparr>))" by (simp add: wire_fields_def k')
    show "wire_at ((k, v) # ms) a = (if v = JNull then wire_at ms a else wire_at ms (a\<lparr>an_Signature := str_of v []\<rparr>))"
      if "str_value v" using that by (cases v) (simp_all add: wire_at_def absent [unfolded k'] k' range_simps(6))
  qed (simp_all add: k' int_names_def str_names_def)
  have c6: ?goal if k': "k = ''signing_key_id''"
  proof (rule str_step [where f = "\<lambda>x a. a\<lparr>an_SigningKeyID := x\<rparr>"])
    show "map_of wire_fields k = Some (set_string (\<lambda>x a. a\<lparr>an_SigningKeyID := x\<rparr>))" by (simp add: wire_fields_def k')
    show "wire_at ((k, v) # ms) a = (if v = JNull then wire_at ms a else wire_at ms (a\<lparr>an_SigningKeyID := str_of v []\<rparr>))"
      if "str_value v" using that by (cases v) (simp_all add: wire_at_def absent [unfolded k'] k' range_simps(6))
  qed (simp_all add: k' int_names_def str_names_def)
  have c7: ?goal if k': "k = ''created_at_ms''"
  proof (rule int_step [where f = "\<lambda>x a. a\<lparr>an_CreatedAtMs := x\<rparr>"])
    show "map_of wire_fields k = Some (set_int (\<lambda>x a. a\<lparr>an_CreatedAtMs := x\<rparr>))" by (simp add: wire_fields_def k')
    show "wire_at ((k, v) # ms) a = (if v = JNull then wire_at ms a else wire_at ms (a\<lparr>an_CreatedAtMs := int_of v 0\<rparr>))"
      if "int_value v" using that by (cases v) (simp_all add: wire_at_def absent [unfolded k'] k' range_simps(6))
  qed (simp_all add: k' int_names_def str_names_def)
  have c8: ?goal if k': "k = ''previous_anchor_id''"
  proof (rule str_step [where f = "\<lambda>x a. a\<lparr>an_PreviousAnchorID := x\<rparr>"])
    show "map_of wire_fields k = Some (set_string (\<lambda>x a. a\<lparr>an_PreviousAnchorID := x\<rparr>))" by (simp add: wire_fields_def k')
    show "wire_at ((k, v) # ms) a = (if v = JNull then wire_at ms a else wire_at ms (a\<lparr>an_PreviousAnchorID := str_of v []\<rparr>))"
      if "str_value v" using that by (cases v) (simp_all add: wire_at_def absent [unfolded k'] k' range_simps(6))
  qed (simp_all add: k' int_names_def str_names_def)
  have c9: ?goal if k': "k = ''verified_through''"
  proof (rule int_step [where f = "\<lambda>x a. a\<lparr>an_VerifiedThrough := x\<rparr>"])
    show "map_of wire_fields k = Some (set_int (\<lambda>x a. a\<lparr>an_VerifiedThrough := x\<rparr>))" by (simp add: wire_fields_def k')
    show "wire_at ((k, v) # ms) a = (if v = JNull then wire_at ms a else wire_at ms (a\<lparr>an_VerifiedThrough := int_of v 0\<rparr>))"
      if "int_value v" using that by (cases v) (simp_all add: wire_at_def absent [unfolded k'] k' range_simps(6))
  qed (simp_all add: k' int_names_def str_names_def)
  have c10: ?goal if k': "k = ''range''"
  proof -
    have f: "map_of wire_fields k = Some set_range" by (simp add: wire_fields_def k')
    have n: "k \<notin> int_names" "k \<notin> str_names" by (simp_all add: k' int_names_def str_names_def)
    have free: "range_ok ms r" "range_of ms r = r" for r using absent(3,4) k(2) k' by simp_all
    show ?thesis unfolding set_members_known [OF f] set_range_fields using n
      by (cases "decode_struct range_fields v (an_Range a)") (simp_all add: IH free k' range_simps(7,8) wire_at_def)
  qed
  have c11: ?goal if k': "k = subjectKey \<or> k = legacySubjectKey"
  proof -
    have "field_of (map fst wire_fields) k = None" using k' no_subject_field by blast
    then have "set_members wire_fields ((k, v) # ms) a = set_members wire_fields ms a" by simp
    moreover have "k \<notin> int_names" "k \<notin> str_names" "k \<noteq> ''range''"
      using k' by (elim disjE; simp add: int_names_def str_names_def member_names)+
    moreover have "wire_at ((k, v) # ms) a = wire_at ms a"
      using k' by (elim disjE) (simp_all add: wire_at_def member_names range_simps(6))
    ultimately show ?thesis by (simp add: IH range_simps(5))
  qed
  have "(k = subjectKey \<or> k = legacySubjectKey) \<or> k = ''version'' \<or> k = ''anchor_id'' \<or> k = ''chain_hash'' \<or> k = ''range'' \<or>
      k = ''entry_count'' \<or> k = ''signature'' \<or> k = ''signing_key_id'' \<or> k = ''created_at_ms'' \<or>
      k = ''previous_anchor_id'' \<or> k = ''verified_through''"
    using k(1) unfolding anchorMembers_def insert_iff empty_iff by (simp only: disj_assoc simp_thms)
  then have ?goal
  proof
    show ?goal if "k = subjectKey \<or> k = legacySubjectKey" using that by (rule c11)
  qed (elim disjE; (rule c1 c2 c3 c4 c5 c6 c7 c8 c9 c10, assumption))
  then show ?case unfolding kv .
qed

subsection \<open>The two keys of the subject\<close>

definition pointer_at :: "(string \<times> json) list \<Rightarrow> string \<Rightarrow> string option \<Rightarrow> string option" where
  "pointer_at ms k p = (case map_of ms k of None \<Rightarrow> p | Some v \<Rightarrow> (case v of JStr s \<Rightarrow> Some s | _ \<Rightarrow> None))"

definition keys_at :: "(string \<times> json) list \<Rightarrow> wire_keys \<Rightarrow> wire_keys" where
  "keys_at ms x =
     x\<lparr>k_Subject := pointer_at ms subjectKey (k_Subject x), k_CompanyID := pointer_at ms legacySubjectKey (k_CompanyID x),
       k_Range := (case map_of ms ''range'' of None \<Rightarrow> k_Range x | Some v \<Rightarrow> Some v)\<rparr>"

definition subject_names :: "string set" where
  "subject_names = {subjectKey, legacySubjectKey}"

lemma other_key_fields:
  "k \<in> anchorMembers \<Longrightarrow> k \<noteq> ''subject'' \<Longrightarrow> k \<noteq> ''company_id'' \<Longrightarrow> k \<noteq> ''range'' \<Longrightarrow> field_of (map fst key_fields) k = None"
proof -
  have "\<forall>k \<in> {''version'', ''anchor_id'', ''chain_hash'', ''entry_count'', ''signature'', ''signing_key_id'', ''created_at_ms'',
      ''previous_anchor_id'', ''verified_through''}. field_of (map fst key_fields) k = None"
    unfolding key_fields_def list.map fst_conv by code_simp
  moreover assume "k \<in> anchorMembers" "k \<noteq> ''subject''" "k \<noteq> ''company_id''" "k \<noteq> ''range''"
  then have "k \<in> {''version'', ''anchor_id'', ''chain_hash'', ''entry_count'', ''signature'', ''signing_key_id'', ''created_at_ms'',
      ''previous_anchor_id'', ''verified_through''}"
    unfolding anchorMembers_def member_names insert_iff empty_iff by simp
  ultimately show "field_of (map fst key_fields) k = None" by (rule bspec)
qed

lemma pointer_simps:
  "pointer_at ((k, v) # ms) k p = (case v of JStr s \<Rightarrow> Some s | _ \<Rightarrow> None)"
  "j \<noteq> k \<Longrightarrow> pointer_at ((j, v) # ms) k p = pointer_at ms k p"
  "k \<notin> fst ` set ms \<Longrightarrow> pointer_at ms k p = p" "pointer_at [] k p = p"
  by (simp_all add: pointer_at_def map_of_eq_None_iff [symmetric])

lemma key_members_read:
  "distinct (map fst ms) \<Longrightarrow> fst ` set ms \<subseteq> anchorMembers \<Longrightarrow>
     set_members key_fields ms x = (if typed ms {} subject_names then Some (keys_at ms x) else None)"
proof (induction ms arbitrary: x)
  case Nil
  then show ?case by (simp add: keys_at_def pointer_simps)
next
  case (Cons kv ms)
  obtain k v where kv: "kv = (k, v)" by force
  have k: "k \<in> anchorMembers" "k \<notin> fst ` set ms" using Cons.prems kv by auto
  have IH: "set_members key_fields ms y = (if typed ms {} subject_names then Some (keys_at ms y) else None)" for y
    using Cons by simp
  have none: "map_of ms k = None" using k(2) by (simp add: map_of_eq_None_iff)
  let ?goal = "set_members key_fields ((k, v) # ms) x =
      (if typed ((k, v) # ms) {} subject_names then Some (keys_at ((k, v) # ms) x) else None)"
  have c1: ?goal if k': "k = ''subject''"
  proof -
    have f: "map_of key_fields k = Some (set_pointer (\<lambda>p x. x\<lparr>k_Subject := p\<rparr>))" by (simp add: key_fields_def k')
    have "k \<in> subject_names" by (simp add: subject_names_def member_names k')
    then show ?thesis unfolding set_members_known [OF f] set_pointer_def using k(2) none
      by (cases v) (simp_all add: IH keys_at_def pointer_simps k' member_names split: option.splits)
  qed
  have c2: ?goal if k': "k = ''company_id''"
  proof -
    have f: "map_of key_fields k = Some (set_pointer (\<lambda>p x. x\<lparr>k_CompanyID := p\<rparr>))" by (simp add: key_fields_def k')
    have "k \<in> subject_names" by (simp add: subject_names_def member_names k')
    then show ?thesis unfolding set_members_known [OF f] set_pointer_def using k(2) none
      by (cases v) (simp_all add: IH keys_at_def pointer_simps k' member_names split: option.splits)
  qed
  have c3: ?goal if k': "k = ''range''"
  proof -
    have f: "map_of key_fields k = Some (\<lambda>j x. Some (x\<lparr>k_Range := Some j\<rparr>))" by (simp add: key_fields_def k')
    have "k \<notin> subject_names" by (simp add: subject_names_def member_names k')
    then show ?thesis unfolding set_members_known [OF f] using k(2) none
      by (simp add: IH keys_at_def pointer_simps k' member_names)
  qed
  have c4: ?goal if k': "k \<noteq> ''subject''" "k \<noteq> ''company_id''" "k \<noteq> ''range''"
  proof -
    have "set_members key_fields ((k, v) # ms) x = set_members key_fields ms x"
      using other_key_fields [OF k(1) k'] by simp
    moreover have "k \<notin> subject_names" using k' by (simp add: subject_names_def member_names)
    ultimately show ?thesis using k' by (simp add: IH keys_at_def pointer_simps member_names)
  qed
  show ?case unfolding kv using c1 c2 c3 c4 by blast
qed

subsection \<open>What is accepted, and as what\<close>

text \<open>The reference: distinct members of the format with values of their types, the subject under the
  version's key, and the anchor that has their values.\<close>

definition other_key :: "(string \<times> json) list \<Rightarrow> string" where
  "other_key ms = (if SubjectVersion \<le> int_at ms ''version'' 0 then legacySubjectKey else subjectKey)"

definition acceptable :: "(string \<times> json) list \<Rightarrow> bool" where
  "acceptable ms \<longleftrightarrow>
     distinct (map fst ms) \<and> fst ` set ms \<subseteq> anchorMembers - {other_key ms} \<and>
     typed ms int_names (str_names \<union> subject_names) \<and>
     (case map_of ms ''range'' of
        None \<Rightarrow> True
      | Some v \<Rightarrow> (\<exists>rs. v = JObj rs \<and> distinct (map fst rs) \<and> fst ` set rs \<subseteq> rangeMembers \<and> typed rs {} rangeMembers))"

definition anchor_of :: "(string \<times> json) list \<Rightarrow> anchor" where
  "anchor_of ms =
     \<lparr>an_Version = int_at ms ''version'' 0, an_AnchorID = str_at ms ''anchor_id'' [],
      an_Subject = str_at ms (if SubjectVersion \<le> int_at ms ''version'' 0 then subjectKey else legacySubjectKey) [],
      an_ChainHash = str_at ms ''chain_hash'' [],
      an_Range = (case map_of ms ''range'' of
          Some (JObj rs) \<Rightarrow> \<lparr>StartEntryID = str_at rs ''start_entry_id'' [], EndEntryID = str_at rs ''end_entry_id'' []\<rparr>
        | _ \<Rightarrow> \<lparr>StartEntryID = [], EndEntryID = []\<rparr>),
      an_EntryCount = int_at ms ''entry_count'' 0, an_Signature = str_at ms ''signature'' [],
      an_SigningKeyID = str_at ms ''signing_key_id'' [], an_CreatedAtMs = int_at ms ''created_at_ms'' 0,
      an_PreviousAnchorID = str_at ms ''previous_anchor_id'' [], an_VerifiedThrough = int_at ms ''verified_through'' 0\<rparr>"


lemma objectMembers_names:
  assumes "parse data = Some v"
  shows "objectMembers data allowed what = Inr names \<longleftrightarrow>
    (\<exists>ms. v = JObj ms \<and> distinct (map fst ms) \<and> fst ` set ms \<subseteq> allowed \<and> names = fst ` set ms)"
proof
  assume "objectMembers data allowed what = Inr names"
  then obtain ms where "json_object (member_check what allowed) no_check (NotJsonObject what) (InvalidJson what) (FollowedByMore what) data
      = Inr ms" "names = fst ` set ms"
    unfolding objectMembers_def
    by (cases "json_object (member_check what allowed) no_check (NotJsonObject what) (InvalidJson what) (FollowedByMore what) data") auto
  with json_object_only [OF assms this(1)]
  show "\<exists>ms. v = JObj ms \<and> distinct (map fst ms) \<and> fst ` set ms \<subseteq> allowed \<and> names = fst ` set ms"
    by (auto simp: passes_names)
next
  assume "\<exists>ms. v = JObj ms \<and> distinct (map fst ms) \<and> fst ` set ms \<subseteq> allowed \<and> names = fst ` set ms"
  then obtain ms where ms: "v = JObj ms" "passes (member_check what allowed) no_check [] ms" "names = fst ` set ms"
    by (auto simp: passes_names)
  then show "objectMembers data allowed what = Inr names"
    using json_object_parse [OF assms [unfolded ms(1)] ms(2)] by (simp add: objectMembers_def)
qed

lemma value_members_None:
  "value_members v rangeMembers what = None \<longleftrightarrow> (\<exists>rs. v = JObj rs \<and> distinct (map fst rs) \<and> fst ` set rs \<subseteq> rangeMembers)"
  by (cases v) (simp_all add: value_members_def names_fault_passes passes_names)

definition no_keys :: wire_keys where "no_keys = \<lparr>k_Subject = None, k_CompanyID = None, k_Range = None\<rparr>"

lemma range_accepted:
  "(case map_of ms ''range'' of None \<Rightarrow> True
    | Some v \<Rightarrow> (\<exists>rs. v = JObj rs \<and> distinct (map fst rs) \<and> fst ` set rs \<subseteq> rangeMembers \<and> typed rs {} rangeMembers)) \<longleftrightarrow>
   range_ok ms r \<and> (case map_of ms ''range'' of None \<Rightarrow> True | Some v \<Rightarrow> value_members v rangeMembers what = None)"
proof (cases "map_of ms ''range''")
  case (Some v)
  have "decode_struct range_fields (JObj rs) r \<noteq> None \<longleftrightarrow> typed rs {} rangeMembers"
    if "distinct (map fst rs)" "fst ` set rs \<subseteq> rangeMembers" for rs
    using range_members_read [OF that, of r] by (simp add: decode_struct_def)
  then show ?thesis using Some by (auto simp: range_ok_def value_members_None)
qed (simp add: range_ok_def)

lemma typed_union: "typed ms I (S \<union> T) \<longleftrightarrow> typed ms I S \<and> typed ms {} T"
  by (auto simp: typed_def)

lemma range_value:
  "range_ok ms r \<Longrightarrow> r = \<lparr>StartEntryID = [], EndEntryID = []\<rparr> \<Longrightarrow>
   (case map_of ms ''range'' of None \<Rightarrow> True | Some v \<Rightarrow> value_members v rangeMembers what = None) \<Longrightarrow>
   range_of ms r = (case map_of ms ''range'' of
          Some (JObj rs) \<Rightarrow> \<lparr>StartEntryID = str_at rs ''start_entry_id'' [], EndEntryID = str_at rs ''end_entry_id'' []\<rparr>
        | _ \<Rightarrow> \<lparr>StartEntryID = [], EndEntryID = []\<rparr>)"
proof (cases "map_of ms ''range''")
  case (Some v)
  assume a: "range_ok ms r" "r = \<lparr>StartEntryID = [], EndEntryID = []\<rparr>"
    "case map_of ms ''range'' of None \<Rightarrow> True | Some v \<Rightarrow> value_members v rangeMembers what = None"
  then obtain rs where v: "v = JObj rs" and rs: "distinct (map fst rs)" "fst ` set rs \<subseteq> rangeMembers"
    using Some by (auto simp: value_members_None)
  then show ?thesis using a Some range_members_read [OF rs, of r]
    by (auto simp: range_ok_def range_of_def decode_struct_def range_at_def split: if_splits)
qed (simp add: range_of_def)

lemma subject_value:
  assumes "typed ms {} subject_names" and "other_key ms \<notin> fst ` set ms"
  shows "(case k_Subject (keys_at ms no_keys) of Some s \<Rightarrow> s
       | None \<Rightarrow> (case k_CompanyID (keys_at ms no_keys) of Some s \<Rightarrow> s | None \<Rightarrow> [])) =
     str_at ms (if SubjectVersion \<le> int_at ms ''version'' 0 then subjectKey else legacySubjectKey) []"
proof -
  have at: "str_at ms k [] = (case pointer_at ms k None of None \<Rightarrow> [] | Some s \<Rightarrow> s)" for k
    by (auto simp: str_at_def pointer_at_def split: option.splits json.splits)
  have "pointer_at ms (other_key ms) None = None" using assms(2) by (simp add: pointer_simps)
  then show ?thesis
    by (simp add: keys_at_def no_keys_def at other_key_def split: if_splits option.splits)
qed

lemma UnmarshalJSON_members:
  assumes p: "parse data = Some (JObj ms)" and d: "distinct (map fst ms)" "fst ` set ms \<subseteq> anchorMembers"
  shows "UnmarshalJSON_anchor data = Inr a \<longleftrightarrow> acceptable ms \<and> a = anchor_of ms"
proof -
  let ?r = "\<lparr>StartEntryID = [], EndEntryID = []\<rparr>"
  let ?vm = "case map_of ms ''range'' of None \<Rightarrow> True | Some v \<Rightarrow> value_members v rangeMembers ''the anchor's range'' = None"
  have names: "objectMembers data anchorMembers ''the anchor'' = Inr (fst ` set ms)"
    using objectMembers_names [OF p] d by blast
  have w: "unmarshal wire_fields zero_anchor data =
      (if typed ms int_names str_names \<and> range_ok ms ?r then Some (wire_at ms zero_anchor) else None)"
    using wire_members_read [OF d] p by (simp add: unmarshal_def decode_struct_def zero_anchor_def)
  have k: "unmarshal key_fields \<lparr>k_Subject = None, k_CompanyID = None, k_Range = None\<rparr> data =
      (if typed ms {} subject_names then Some (keys_at ms no_keys) else None)"
    using key_members_read [OF d] p by (simp add: unmarshal_def decode_struct_def no_keys_def)
  have r: "(if ''range'' \<in> fst ` set ms
            then (case k_Range (keys_at ms no_keys) of
                    None \<Rightarrow> Some (NotJsonObject ''the anchor's range'')
                  | Some v \<Rightarrow> value_members v rangeMembers ''the anchor's range'')
            else None) = (case map_of ms ''range'' of None \<Rightarrow> None | Some v \<Rightarrow> value_members v rangeMembers ''the anchor's range'')"
  proof (cases "map_of ms ''range''")
    case None
    then have "''range'' \<notin> fst ` set ms" by (simp only: map_of_eq_None_iff not_False_eq_True)
    with None show ?thesis by simp
  next
    case (Some v)
    then have "''range'' \<in> fst ` set ms" by (metis map_of_eq_None_iff option.discI)
    with Some show ?thesis by (simp add: keys_at_def)
  qed
  have ver: "an_Version (wire_at ms zero_anchor) = int_at ms ''version'' 0" by (simp add: wire_at_def zero_anchor_def)
  have acc: "acceptable ms \<longleftrightarrow> typed ms int_names str_names \<and> range_ok ms ?r \<and> typed ms {} subject_names \<and> ?vm \<and>
      other_key ms \<notin> fst ` set ms"
    unfolding acceptable_def typed_union range_accepted [of ms ?r "''the anchor's range''"] using d by blast
  have val: "(wire_at ms zero_anchor)\<lparr>an_Subject :=
        (case k_Subject (keys_at ms no_keys) of Some s \<Rightarrow> s
         | None \<Rightarrow> (case k_CompanyID (keys_at ms no_keys) of Some s \<Rightarrow> s | None \<Rightarrow> an_Subject (wire_at ms zero_anchor)))\<rparr> =
      anchor_of ms" if a: "acceptable ms"
  proof -
    have "an_Subject (wire_at ms zero_anchor) = []" by (simp add: wire_at_def zero_anchor_def)
    then show ?thesis unfolding \<open>an_Subject _ = _\<close>
      using a [unfolded acc] subject_value [of ms] range_value [of ms ?r "''the anchor's range''"]
      by (simp add: wire_at_def zero_anchor_def anchor_of_def)
  qed
  have "UnmarshalJSON_anchor data = Inr a \<longleftrightarrow> acceptable ms \<and>
      a = (wire_at ms zero_anchor)\<lparr>an_Subject :=
        (case k_Subject (keys_at ms no_keys) of Some s \<Rightarrow> s
         | None \<Rightarrow> (case k_CompanyID (keys_at ms no_keys) of Some s \<Rightarrow> s | None \<Rightarrow> an_Subject (wire_at ms zero_anchor)))\<rparr>"
    unfolding UnmarshalJSON_anchor_def names w k acc
    by (simp add: r ver other_key_def Let_def split: option.splits) (auto split: option.splits)
  then show ?thesis using val by auto
qed

lemma UnmarshalJSON_parses: "UnmarshalJSON_anchor data = Inr a \<Longrightarrow> \<exists>ms. parse data = Some (JObj ms) \<and>
    distinct (map fst ms) \<and> fst ` set ms \<subseteq> anchorMembers"
proof -
  assume a: "UnmarshalJSON_anchor data = Inr a"
  then obtain v where v: "parse data = Some v"
    by (cases "parse data") (simp_all add: UnmarshalJSON_anchor_def unmarshal_def split: sum.splits)
  obtain names where "objectMembers data anchorMembers ''the anchor'' = Inr names"
    using a by (simp add: UnmarshalJSON_anchor_def split: sum.splits)
  then show ?thesis using objectMembers_names [OF v] v by auto
qed

text \<open>C33. Reading an anchor accepts exactly the texts that are one JSON object whose members are distinct,
  all of the format and in its exact spelling, have values of their types (a null stands for the
  zero value, except for the range), and name the subject under the key of the version the same
  object gives; the anchor it yields has, field by field, the value of the member of exactly that
  name. The case-blind matching and the last-one-wins rule of \<open>json.Unmarshal\<close> never show.\<close>

theorem anchor_read_exact:
  "UnmarshalJSON_anchor data = Inr a \<longleftrightarrow> (\<exists>ms. parse data = Some (JObj ms) \<and> acceptable ms \<and> a = anchor_of ms)"
proof -
  have "acceptable ms \<Longrightarrow> distinct (map fst ms) \<and> fst ` set ms \<subseteq> anchorMembers" for ms
    unfolding acceptable_def by blast
  then have "parse data = Some (JObj ms) \<Longrightarrow> acceptable ms \<Longrightarrow> UnmarshalJSON_anchor data = Inr (anchor_of ms)" for ms
    using UnmarshalJSON_members [of data ms] by simp
  moreover have "acceptable ms \<and> a = anchor_of ms"
    if "UnmarshalJSON_anchor data = Inr a" "parse data = Some (JObj ms)" "distinct (map fst ms)" "fst ` set ms \<subseteq> anchorMembers" for ms
    using UnmarshalJSON_members [OF that(2-4), of a] that(1) by simp
  ultimately show ?thesis using UnmarshalJSON_parses [of data a] by metis
qed


subsection \<open>Round trip\<close>

lemma cleaned_members: "anchor_plain a \<Longrightarrow> cleaned (JObj (anchor_members a)) = JObj (anchor_members a)"
  by (simp add: anchor_members_def wire_members_def anchor_plain_def subject_key_def member_names)

lemma anchor_members_parse:
  assumes "anchor_plain a"
  shows "parse (MarshalJSON_anchor a) = Some (JObj (anchor_members a))"
proof -
  have "numbers_valid (JObj (anchor_members a))" using assms
    by (simp add: anchor_members_def wire_members_def anchor_plain_def)
  moreover have "nesting (JObj (anchor_members a)) \<le> max_nesting"
    by (simp add: anchor_members_def wire_members_def max_nesting_def)
  ultimately have "parse (MarshalJSON_anchor a) = Some (cleaned (JObj (anchor_members a)))"
    unfolding MarshalJSON_text by (rule parse_text)
  then show ?thesis using cleaned_members [OF assms] by (simp only:)
qed

lemma members_names: "fst ` set (anchor_members a) \<subseteq> {subject_key a, ''version'', ''anchor_id'', ''chain_hash'', ''range'',
    ''entry_count'', ''signature'', ''signing_key_id'', ''created_at_ms'', ''previous_anchor_id'', ''verified_through''}"
  by (simp add: anchor_members_def wire_members_def)

lemma int_of_fmt [simp]: "int64 i \<Longrightarrow> int_of (JInt i) x = i" "int64 i \<Longrightarrow> int_value (JInt i)"
  by simp_all

lemma members_acceptable:
  assumes "anchor_plain a"
  shows "acceptable (anchor_members a)" "anchor_of (anchor_members a) = a"
proof -
  let ?ms = "anchor_members a"
  have i: "int64 (an_Version a)" "int64 (an_EntryCount a)" "int64 (an_CreatedAtMs a)" "int64 (an_VerifiedThrough a)"
    using assms by (simp_all add: anchor_plain_def)
  have sk: "subject_key a \<noteq> ''version''" "subject_key a \<noteq> ''range''" "subject_key a \<noteq> ''anchor_id''"
    "subject_key a \<noteq> ''chain_hash''" "subject_key a \<noteq> ''entry_count''" "subject_key a \<noteq> ''signature''"
    "subject_key a \<noteq> ''signing_key_id''" "subject_key a \<noteq> ''created_at_ms''" "subject_key a \<noteq> ''previous_anchor_id''"
    "subject_key a \<noteq> ''verified_through''"
    by (simp_all add: subject_key_def member_names)
  have v: "int_at ?ms ''version'' 0 = an_Version a"
    using i sk by (simp add: anchor_members_def wire_members_def)
  have k: "(if SubjectVersion \<le> int_at ?ms ''version'' 0 then subjectKey else legacySubjectKey) = subject_key a"
    by (simp add: v subject_key_def)
  have other: "other_key ?ms \<noteq> subject_key a" by (simp add: other_key_def v subject_key_def member_names)
  have no: "other_key ?ms \<notin> fst ` set ?ms"
    using members_names [of a] other by (auto simp: other_key_def member_names split: if_splits)
  have "fst ` set ?ms \<subseteq> anchorMembers"
    using members_names [of a] by (rule order_trans) (simp add: subject_key_def anchorMembers_def)
  then have "fst ` set ?ms \<subseteq> anchorMembers - {other_key ?ms}" using no by blast
  moreover have "distinct (map fst ?ms)"
    using sk by (simp add: anchor_members_def wire_members_def)
  moreover have "typed ?ms int_names (str_names \<union> subject_names)"
    using i by (simp add: anchor_members_def wire_members_def int_names_def str_names_def subject_names_def member_names
        subject_key_def)
  moreover have "map_of ?ms ''range'' = Some (JObj [(''start_entry_id'', JStr (StartEntryID (an_Range a))),
      (''end_entry_id'', JStr (EndEntryID (an_Range a)))])"
    using sk by (simp add: anchor_members_def wire_members_def)
  ultimately show "acceptable ?ms" unfolding acceptable_def by (simp add: rangeMembers_def)
  show "anchor_of ?ms = a"
    unfolding anchor_of_def k using i sk by (simp add: anchor_members_def wire_members_def)
qed

lemma UnmarshalJSON_MarshalJSON: "anchor_plain a \<Longrightarrow> UnmarshalJSON_anchor (MarshalJSON_anchor a) = Inr a"
proof -
  assume a: "anchor_plain a"
  note acc = members_acceptable [OF a]
  have "distinct (map fst (anchor_members a))" "fst ` set (anchor_members a) \<subseteq> anchorMembers"
    using acc(1) unfolding acceptable_def by blast+
  from UnmarshalJSON_members [OF anchor_members_parse [OF a] this, of a] acc show ?thesis by simp
qed

text \<open>C34. An anchor whose strings are UTF-8 and whose numbers are of Go's width, of any version,
  comes back from its JSON form as it was: the subject under the key of its version, the omitted
  \<open>verified_through\<close> as zero.\<close>

theorem anchor_json_roundtrip: "anchor_plain a \<Longrightarrow> UnmarshalJSON_anchor (MarshalJSON_anchor a) = Inr a"
  by (rule UnmarshalJSON_MarshalJSON)

definition sample_json_anchor :: anchor where
  "sample_json_anchor = zero_anchor\<lparr>an_Version := 6, an_AnchorID := ''a-1'', an_Subject := ''acme'', an_EntryCount := 3,
     an_Range := \<lparr>StartEntryID = ''e1'', EndEntryID = ''e3''\<rparr>\<rparr>"

lemma anchor_json_roundtrip_witness:
  "UnmarshalJSON_anchor (MarshalJSON_anchor sample_json_anchor) = Inr sample_json_anchor"
proof (rule anchor_json_roundtrip)
  have "utf8_valid ''a-1''" "utf8_valid ''acme''" "utf8_valid ''e1''" "utf8_valid ''e3''" "utf8_valid []" by code_simp+
  then show "anchor_plain sample_json_anchor"
    by (simp add: anchor_plain_def sample_json_anchor_def zero_anchor_def int64_def)
qed

end
