(* ===== verification/Json_Local.thy ===== *)
theory Json_Local
  imports Json_Parse
begin

section \<open>What a JSON reader looks at\<close>

text \<open>
  A value is read from its own characters: what follows it can be replaced. So a value at the front of
  a longer input is the value alone, as a decoder reads it that takes one element after the other.
\<close>

definition here :: "(string \<Rightarrow> bool) \<Rightarrow> (string \<Rightarrow> ('a \<times> string) option) \<Rightarrow> string \<Rightarrow> 'a \<Rightarrow> string \<Rightarrow> bool" where
  "here ok f s x r \<longleftrightarrow> (\<exists>u. s = u @ r \<and> (\<forall>t. ok t \<longrightarrow> f (u @ t) = Some (x, t)))"

lemma hereI: "s = u @ r \<Longrightarrow> (\<And>t. ok t \<Longrightarrow> f (u @ t) = Some (x, t)) \<Longrightarrow> here ok f s x r"
  by (auto simp: here_def)

lemma hereE:
  assumes "here ok f s x r"
  obtains u where "s = u @ r" "\<And>t. ok t \<Longrightarrow> f (u @ t) = Some (x, t)"
  using assms by (auto simp: here_def)

subsection \<open>Strings\<close>

lemma quote_rune: "rune_width (c # u @ CHR 0x22 # t) = rune_width (c # u @ CHR 0x22 # r)"
proof -
  have q: "\<not> utf8_cont (CHR 0x22)" "\<not> byte_in 0xA0 0xBF (CHR 0x22)" "\<not> byte_in 0x80 0x9F (CHR 0x22)"
    "\<not> byte_in 0x90 0xBF (CHR 0x22)" "\<not> byte_in 0x80 0x8F (CHR 0x22)"
    by (simp_all add: byte_in_def)
  consider "u = []" | b where "u = [b]" | b e where "u = [b, e]" | b e f v where "u = b # e # f # v"
    by (metis list.exhaust)
  then show ?thesis by cases (auto simp: rune_width_def q split: list.split)
qed

lemma hex4_quote: "hex4 (u @ CHR 0x22 # t) = (if 4 \<le> length u then hex4 u else None)"
proof -
  have q: "unhex (CHR 0x22) = None" by code_simp
  consider "u = []" | a where "u = [a]" | a b where "u = [a, b]" | a b c where "u = [a, b, c]" | a b c d v where "u = a # b # c # d # v"
    by (metis list.exhaust)
  then show ?thesis
  proof cases
    case 1
    then show ?thesis using q by (cases t rule: hex4.cases) (auto split: option.split)
  next
    case 2
    then show ?thesis using q by (cases t; cases "tl t") (auto split: option.split)
  next
    case 3
    then show ?thesis using q by (cases t) (auto split: option.split)
  qed (use q in \<open>auto split: option.split\<close>)
qed

lemma quote_escape: "escape4 (u @ CHR 0x22 # t) = escape4 (u @ CHR 0x22 # r)"
proof -
  have "has_prefix [CHR 0x5C, CHR ''u''] (u @ CHR 0x22 # z) \<longleftrightarrow> (\<exists>v. u = CHR 0x5C # CHR ''u'' # v)" for z
    by (cases u; cases "tl u") (auto simp: has_prefix_def)
  then show ?thesis by (auto simp: escape4_def hex4_quote)
qed

lemma read_string_here:
  "read_string s = Some (x, r) \<Longrightarrow> \<exists>u. s = u @ CHR 0x22 # r \<and> (\<forall>t. read_string (u @ CHR 0x22 # t) = Some (x, t))"
proof (induction s arbitrary: x rule: measure_induct_rule [where f = length])
  case (less s)
  obtain c s' where s: "s = c # s'" using less.prems by (cases s) auto
  have sub: "\<exists>y u. x = w @ y \<and> q = u @ CHR 0x22 # r \<and> (\<forall>t. read_string (u @ CHR 0x22 # t) = Some (y, t))"
    if q: "cons_fst w (read_string q) = Some (x, r)" "length q < length s" for w q
  proof -
    obtain y where y: "read_string q = Some (y, r)" "x = w @ y" using q(1) by (auto simp: cons_fst_def)
    from less.IH [OF q(2) y(1)] y(2) show ?thesis by blast
  qed
  show ?case
  proof (cases "c = CHR 0x22")
    case True
    then show ?thesis using less.prems s by (intro exI [of _ "[]"]) (simp add: read_string.simps(2))
  next
    case quote: False
    show ?thesis
    proof (cases "c = CHR 0x5C")
      case esc: True
      obtain k q where q: "s' = k # q" using less.prems s esc by (cases s') (simp_all add: read_string.simps(2))
      show ?thesis
      proof (cases "k = CHR ''u''")
        case False
        then obtain e where e: "unescape k = Some e" "cons_fst [e] (read_string q) = Some (x, r)"
          using less.prems s esc q by (auto simp: read_string.simps(2) split: option.splits)
        from sub [OF e(2)] s q obtain y u where "x = [e] @ y" "q = u @ CHR 0x22 # r"
          "\<forall>t. read_string (u @ CHR 0x22 # t) = Some (y, t)" by auto
        then show ?thesis using s esc q False e(1) by (intro exI [of _ "c # k # u"]) (simp add: read_string.simps(2))
      next
        case u: True
        obtain n where n: "hex4 q = Some n" using less.prems s esc q u by (auto simp: read_string.simps(2) split: option.splits)
        then obtain a b d e z where z: "q = a # b # d # e # z" by (cases q rule: hex4.cases) auto
        have n': "hex4 (a # b # d # e # v) = Some n" for v using n z by simp
        note red = read_string.simps(2) [of "CHR 0x5C" "CHR ''u'' # a # b # d # e # v" for v]
        show ?thesis
        proof (cases "0xD800 \<le> n \<and> n < 0xE000")
          case False
          then have "cons_fst (utf8_encode n) (read_string z) = Some (x, r)"
            using less.prems s esc q u n' z by (simp add: read_string.simps(2) del: hex4.simps split: if_splits)
          from sub [OF this] s q z obtain y w where "x = utf8_encode n @ y" "z = w @ CHR 0x22 # r"
            "\<forall>t. read_string (w @ CHR 0x22 # t) = Some (y, t)" by auto
          then show ?thesis using s esc q u z n' False
            by (intro exI [of _ "c # k # a # b # d # e # w"]) (auto simp: red simp del: hex4.simps)
        next
          case sur: True
          show ?thesis
          proof (cases "\<exists>v. escape4 z = Some v \<and> n < 0xDC00 \<and> 0xDC00 \<le> v \<and> v < 0xE000")
            case True
            then obtain v where v: "escape4 z = Some v" "n < 0xDC00" "0xDC00 \<le> v" "v < 0xE000" by blast
            let ?w = "utf8_encode ((n - 0xD800) * 1024 + (v - 0xDC00) + 0x10000)"
            obtain a' b' d' e' z' where z': "z = CHR 0x5C # CHR ''u'' # a' # b' # d' # e' # z'"
            proof -
              from v(1) have p: "has_prefix [CHR 0x5C, CHR ''u''] z" "hex4 (drop 2 z) = Some v"
                by (simp_all add: escape4_def split: if_splits)
              then obtain y where y: "z = CHR 0x5C # CHR ''u'' # y" by (cases z; cases "tl z") (auto simp: has_prefix_def)
              with p(2) show ?thesis using that by (cases y rule: hex4.cases) auto
            qed
            have v': "escape4 (CHR 0x5C # CHR ''u'' # a' # b' # d' # e' # y) = Some v" for y
              using v(1) z' by (simp add: escape4_def has_prefix_def)
            have "cons_fst ?w (read_string z') = Some (x, r)"
              using less.prems s esc q u n' z z' v v' sur by (simp add: read_string.simps(2) del: hex4.simps)
            from sub [OF this] s q z z' obtain y t where "x = ?w @ y" "z' = t @ CHR 0x22 # r"
              "\<forall>q. read_string (t @ CHR 0x22 # q) = Some (y, q)" by auto
            then show ?thesis using s esc q u z z' n' v v' sur
              by (intro exI [of _ "c # k # a # b # d # e # CHR 0x5C # CHR ''u'' # a' # b' # d' # e' # t"])
                 (simp add: red del: hex4.simps)
          next
            case False
            then have "cons_fst repl_char (read_string z) = Some (x, r)"
              using less.prems s esc q u n' z sur
              by (auto simp: read_string.simps(2) simp del: hex4.simps split: option.splits if_splits)
            from sub [OF this] s q z obtain y w where w: "x = repl_char @ y" "z = w @ CHR 0x22 # r"
              "\<forall>t. read_string (w @ CHR 0x22 # t) = Some (y, t)" by auto
            have "\<not> (\<exists>v. escape4 (w @ CHR 0x22 # t) = Some v \<and> n < 0xDC00 \<and> 0xDC00 \<le> v \<and> v < 0xE000)" for t
              using False w(2) quote_escape [of w t r] by simp
            then have "read_string (c # k # a # b # d # e # w @ CHR 0x22 # t) = Some (x, t)" for t
              using esc u n' sur w by (auto simp: red simp del: hex4.simps split: option.split)
            then show ?thesis using s q z w(2) by (intro exI [of _ "c # k # a # b # d # e # w"]) simp
          qed
        qed
      qed
    next
      case plain: False
      have ctl: "\<not> of_char c < (0x20 :: nat)"
        using less.prems s quote plain by (auto simp: read_string.simps(2))
      show ?thesis
      proof (cases "of_char c < (0x80 :: nat)")
        case True
        then have "cons_fst [c] (read_string s') = Some (x, r)"
          using less.prems s quote plain ctl by (simp add: read_string.simps(2))
        from sub [OF this] s obtain y u where "x = [c] @ y" "s' = u @ CHR 0x22 # r"
          "\<forall>t. read_string (u @ CHR 0x22 # t) = Some (y, t)" by auto
        then show ?thesis using s quote plain ctl True by (intro exI [of _ "c # u"]) (simp add: read_string.simps(2))
      next
        case hi: False
        let ?w = "rune_width (c # s')"
        show ?thesis
        proof (cases "?w = 0")
          case True
          then have "cons_fst repl_char (read_string s') = Some (x, r)"
            using less.prems s quote plain ctl hi by (simp add: read_string.simps(2))
          from sub [OF this] s obtain y u where u: "x = repl_char @ y" "s' = u @ CHR 0x22 # r"
            "\<forall>t. read_string (u @ CHR 0x22 # t) = Some (y, t)" by auto
          have "rune_width (c # u @ CHR 0x22 # t) = 0" for t using True u(2) quote_rune [of c u t r] by simp
          then show ?thesis using s quote plain ctl hi u by (intro exI [of _ "c # u"]) (simp add: read_string.simps(2))
        next
          case False
          then have "cons_fst (take ?w (c # s')) (read_string (drop ?w (c # s'))) = Some (x, r)"
            using less.prems s quote plain ctl hi by (simp add: read_string.simps(2) Let_def)
          moreover have "length (drop ?w (c # s')) < length s" using False s by simp
          ultimately obtain y u where u: "x = take ?w (c # s') @ y" "drop ?w (c # s') = u @ CHR 0x22 # r"
            "\<forall>t. read_string (u @ CHR 0x22 # t) = Some (y, t)" using sub by blast
          obtain p where p: "take ?w (c # s') = c # p" using False by (cases ?w) simp_all
          have "length (c # p) = ?w" using p rune_width_le [of "c # s'"] by (metis length_take min.absorb2)
          then have "rune_width (c # p @ t) = Suc (length p)" for t using rune_width_append [OF refl False, of t] p by simp
          then have "read_string (c # p @ u @ CHR 0x22 # t) = Some (x, t)" for t
            using quote plain ctl hi False u(1,3) p by (simp add: read_string.simps(2) Let_def)
          moreover have "s = (c # p) @ u @ CHR 0x22 # r" using s p u(2) by (metis append_take_drop_id)
          ultimately show ?thesis by (intro exI [of _ "(c # p) @ u"]) simp
        qed
      qed
    qed
  qed
qed

subsection \<open>Numbers and white space\<close>

lemma suffix_twice: "\<exists>m. a = m @ b \<Longrightarrow> \<exists>m. b = m @ c \<Longrightarrow> \<exists>m. a = m @ (c :: string)"
  by (elim exE) simp

lemma number_suffix: "number_rest s = Some r \<Longrightarrow> \<exists>m. s = m @ r"
proof -
  assume a: "number_rest s = Some r"
  have d: "\<exists>m. y = m @ drop_digits y" for y by (metis drop_digits_def takeWhile_dropWhile_id)
  have d2: "\<exists>m. y = m @ drop_digits (drop 2 y)" for y
    by (rule suffix_twice [OF _ d]) (rule exI [of _ "take 2 y"], simp)
  have two: "x = y \<or> x = drop_digits (drop 2 y) \<Longrightarrow> \<exists>m. y = m @ x" for x y
    using d2 [of y] append_Nil [of y] by blast
  have f: "\<exists>m. y = m @ eat_frac y" for y by (rule two) (simp add: eat_frac_def split: list.split)
  have e: "\<exists>m. y = m @ eat_exp y" for y by (rule two) (simp add: eat_exp_def split: list.split)
  obtain c y where t: "(if s \<noteq> [] \<and> hd s = CHR ''-'' then tl s else s) = c # y"
    and r: "r = eat_exp (eat_frac (if c = CHR ''0'' then y else drop_digits y))"
    using a unfolding number_rest_def by (auto split: list.splits if_split_asm)
  have y: "\<exists>m. y = m @ (if c = CHR ''0'' then y else drop_digits y)" using d [of y] append_Nil [of y] by auto
  have "\<exists>m. y = m @ r" unfolding r by (rule suffix_twice [OF y suffix_twice [OF f e]])
  moreover have "\<exists>m. s = m @ y" using t by (cases s) (auto split: if_splits)
  ultimately show ?thesis using suffix_twice by blast
qed

lemma number_rest_here:
  assumes "number_rest s = Some r" and "value_end r"
  shows "here value_end (\<lambda>t. map_option (\<lambda>q. (take (length t - length q) t, q)) (number_rest t)) s (take (length s - length r) s) r"
proof -
  obtain m where m: "s = m @ r" using number_suffix [OF assms(1)] by blast
  have short: "length r < length s" by (rule number_rest_shorter [OF assms(1)])
  then have "m \<noteq> []" using m by auto
  obtain c y where t: "(if s \<noteq> [] \<and> hd s = CHR ''-'' then tl s else s) = c # y" "is_digit c"
    and r: "r = eat_exp (eat_frac (if c = CHR ''0'' then y else drop_digits y))"
    using assms(1) unfolding number_rest_def by (auto split: list.splits if_split_asm)
  have c: "\<not> (\<exists>q. r = c # q)" using assms(2) t(2) by (auto simp: value_end_def is_digit_number_char)
  obtain p where p: "(if hd m = CHR ''-'' then tl m else m) = c # p" "y = p @ r"
    using t(1) \<open>m \<noteq> []\<close> m c by (cases m) (auto split: if_splits simp: append_eq_Cons_conv)
  have "eat_exp (eat_frac (if c = CHR ''0'' then p else drop_digits p)) @ r = r"
    using r by (simp add: p(2) drop_digits_append eat_frac_append eat_exp_append assms(2) split: if_splits)
  then have "valid_number m" using p(1) \<open>m \<noteq> []\<close> t(2) by (simp add: valid_number_def number_rest_def)
  then have "number_rest (m @ t) = Some t" if "value_end t" for t by (rule number_rest_append [OF that])
  then show ?thesis using m by (intro hereI [where u = m]) simp_all
qed

lemma skip_ws_here: "skip_ws s = c # q \<Longrightarrow> \<exists>w. s = w @ c # q \<and> (\<forall>y. skip_ws (w @ c # y) = c # y)"
proof -
  assume a: "skip_ws s = c # q"
  let ?P = "\<lambda>c. c \<in> {CHR '' '', CHR 0x09, CHR 0x0A, CHR 0x0D}"
  have "s = takeWhile ?P s @ dropWhile ?P s" by (rule takeWhile_dropWhile_id [symmetric])
  also have "dropWhile ?P s = c # q" using a unfolding skip_ws_def .
  finally have s: "s = takeWhile ?P s @ c # q" .
  have "\<not> ?P c" using iffD1 [OF dropWhile_eq_Cons_conv a [unfolded skip_ws_def]] by (rule conjunct2)
  moreover have "\<forall>x \<in> set (takeWhile ?P s). ?P x" using set_takeWhileD [of _ ?P s] by blast
  ultimately have "skip_ws (takeWhile ?P s @ c # y) = c # y" for y
    unfolding skip_ws_def by (subst dropWhile_append2) simp_all
  with s show ?thesis by blast
qed

lemma ws_value_end: "skip_ws r = c # q \<Longrightarrow> \<not> number_char c \<Longrightarrow> value_end r"
  by (cases r) (auto simp: skip_ws_def value_end_def number_char_def is_digit_def split: if_splits)

subsection \<open>Values\<close>

definition ends :: "json \<Rightarrow> string \<Rightarrow> bool" where
  "ends v r \<longleftrightarrow> (case v of JNum _ \<Rightarrow> value_end r | _ \<Rightarrow> True)"

lemma read_items_start: "read_items n d s = Some y \<Longrightarrow> \<not> has_prefix '']'' (skip_ws s)"
proof
  assume a: "read_items n d s = Some y" "has_prefix '']'' (skip_ws s)"
  then obtain q where q: "skip_ws s = CHR '']'' # q" by (cases "skip_ws s") (auto simp: has_prefix_def)
  have "read_value m d s = None" for m
    by (cases m) (simp_all add: q has_prefix_def number_rest_def is_digit_def)
  then show False using a(1) by (cases n) simp_all
qed

lemma read_members_start: "read_members n d s = Some y \<Longrightarrow> \<not> has_prefix ''}'' (skip_ws s)"
  by (cases n; cases "skip_ws s") (auto simp: has_prefix_def split: if_splits)

lemma word_prefix: "has_prefix p s \<Longrightarrow> s = p @ drop (length p) s"
  by (metis append_take_drop_id has_prefix_def)

lemma here_ws:
  assumes "s = w @ c # q" "\<forall>y. skip_ws (w @ c # y) = c # y" "skip_ws s = c # q"
    and "q = u @ r" "\<And>t. ok t \<Longrightarrow> f (w @ c # u @ t) = Some (x, t)"
  shows "here ok f s x r"
  using assms by (intro hereI [where u = "w @ c # u"]) simp_all

lemma read_here:
  "read_value n d s = Some (v, r) \<Longrightarrow> ends v r \<Longrightarrow> here (ends v) (read_value n d) s v r"
  "read_items n d s = Some (xs, r) \<Longrightarrow> here (\<lambda>_. True) (read_items n d) s xs r"
  "read_members n d s = Some (ms, r) \<Longrightarrow> here (\<lambda>_. True) (read_members n d) s ms r"
proof (induction n arbitrary: d s v r xs ms)
  case (Suc n)
  {
    case 1
    obtain c q where cq: "skip_ws s = c # q" using 1(1) by (cases "skip_ws s") auto
    obtain w where w: "s = w @ c # q" "\<forall>y. skip_ws (w @ c # y) = c # y" using skip_ws_here [OF cq] by blast
    note here = here_ws [OF w cq]
    consider "c = CHR 0x22" | "c = CHR ''[''" | "c = CHR ''{''" | "has_prefix ''null'' (c # q)" | "has_prefix ''true'' (c # q)"
      | "has_prefix ''false'' (c # q)"
      | "c \<noteq> CHR 0x22" "c \<noteq> CHR ''[''" "c \<noteq> CHR ''{''" "\<not> has_prefix ''null'' (c # q)" "\<not> has_prefix ''true'' (c # q)"
        "\<not> has_prefix ''false'' (c # q)"
      by blast
    then show ?case
    proof cases
      case a: 1
      then obtain x where x: "read_string q = Some (x, r)" "v = JStr x" using 1(1) cq by auto
      obtain u where u: "q = u @ CHR 0x22 # r" "\<forall>t. read_string (u @ CHR 0x22 # t) = Some (x, t)"
        using read_string_here [OF x(1)] by blast
      show ?thesis by (rule here [where u = "u @ [CHR 0x22]"]) (use u w x a in simp_all)
    next
      case a: 2
      then have d: "\<not> max_nesting \<le> d" using 1(1) cq by auto
      show ?thesis
      proof (cases "has_prefix '']'' (skip_ws q)")
        case True
        then obtain p where p: "skip_ws q = CHR '']'' # p" by (cases "skip_ws q") (auto simp: has_prefix_def)
        then have r: "v = JArr []" "r = p" using 1(1) cq a d by (auto simp: has_prefix_def)
        obtain u where u: "q = u @ CHR '']'' # p" "\<forall>y. skip_ws (u @ CHR '']'' # y) = CHR '']'' # y"
          using skip_ws_here [OF p] by blast
        show ?thesis by (rule here [where u = "u @ [CHR '']'']"]) (use u w a d r in \<open>simp_all add: has_prefix_def\<close>)
      next
        case False
        then obtain xs where xs: "read_items n (Suc d) q = Some (xs, r)" "v = JArr xs" using 1(1) cq a d by auto
        obtain u where u: "q = u @ r" "\<And>t. read_items n (Suc d) (u @ t) = Some (xs, t)"
          using Suc.IH(2) [OF xs(1)] by (auto elim: hereE)
        have "\<not> has_prefix '']'' (skip_ws (u @ t))" for t by (rule read_items_start [OF u(2)])
        then show ?thesis by (intro here [where u = u]) (use u w a d xs in simp_all)
      qed
    next
      case a: 3
      then have d: "\<not> max_nesting \<le> d" using 1(1) cq by auto
      show ?thesis
      proof (cases "has_prefix ''}'' (skip_ws q)")
        case True
        then obtain p where p: "skip_ws q = CHR ''}'' # p" by (cases "skip_ws q") (auto simp: has_prefix_def)
        then have r: "v = JObj []" "r = p" using 1(1) cq a d by (auto simp: has_prefix_def)
        obtain u where u: "q = u @ CHR ''}'' # p" "\<forall>y. skip_ws (u @ CHR ''}'' # y) = CHR ''}'' # y"
          using skip_ws_here [OF p] by blast
        show ?thesis by (rule here [where u = "u @ [CHR ''}'']"]) (use u w a d r in \<open>simp_all add: has_prefix_def\<close>)
      next
        case False
        then obtain ms where ms: "read_members n (Suc d) q = Some (ms, r)" "v = JObj ms" using 1(1) cq a d by auto
        obtain u where u: "q = u @ r" "\<And>t. read_members n (Suc d) (u @ t) = Some (ms, t)"
          using Suc.IH(3) [OF ms(1)] by (auto elim: hereE)
        have "\<not> has_prefix ''}'' (skip_ws (u @ t))" for t by (rule read_members_start [OF u(2)])
        then show ?thesis by (intro here [where u = u]) (use u w a d ms in simp_all)
      qed
    next
      case a: 4
      then have "c = CHR ''n''" "q = ''ull'' @ r" "v = JNull"
        using 1(1) cq word_prefix [OF a] by (auto simp: has_prefix_def numeral_eq_Suc)
      then show ?thesis by (intro here [where u = "''ull''"]) (use w in \<open>simp_all add: has_prefix_def\<close>)
    next
      case a: 5
      then have "c = CHR ''t''" "q = ''rue'' @ r" "v = JBool True"
        using 1(1) cq word_prefix [OF a] by (auto simp: has_prefix_def numeral_eq_Suc)
      then show ?thesis by (intro here [where u = "''rue''"]) (use w in \<open>simp_all add: has_prefix_def\<close>)
    next
      case a: 6
      then have "c = CHR ''f''" "q = ''alse'' @ r" "v = JBool False"
        using 1(1) cq word_prefix [OF a] by (auto simp: has_prefix_def numeral_eq_Suc)
      then show ?thesis by (intro here [where u = "''alse''"]) (use w in \<open>simp_all add: has_prefix_def\<close>)
    next
      case a: 7
      then have n: "number_rest (c # q) = Some r" "v = JNum (take (length (c # q) - length r) (c # q))"
        using 1(1) cq by auto
      have "value_end r" using 1(2) n(2) by (simp add: ends_def)
      from number_rest_here [OF n(1) this] obtain m where m: "c # q = m @ r"
        "\<And>t. value_end t \<Longrightarrow> map_option (\<lambda>q. (take (length (m @ t) - length q) (m @ t), q)) (number_rest (m @ t)) =
            Some (take (length (c # q) - length r) (c # q), t)"
        by (auto elim: hereE)
      have "m \<noteq> []" using number_rest_shorter [OF n(1)] m(1) by auto
      then obtain p where p: "m = c # p" "q = p @ r" using m(1) by (cases m) auto
      have "is_digit c \<or> c = CHR ''-''" using n(1) by (simp add: number_rest_def split: if_splits)
      then have no: "\<not> has_prefix ''null'' (c # y)" "\<not> has_prefix ''true'' (c # y)" "\<not> has_prefix ''false'' (c # y)" for y
        by (auto simp: has_prefix_def is_digit_def)
      show ?thesis
        by (rule here [where u = p]) (use w p no a(1-3) n(2) m(2) in \<open>simp_all add: ends_def\<close>)
    qed
  next
    case 2
    obtain v q where v: "read_value n d s = Some (v, q)" using 2 by (cases "read_value n d s") auto
    with 2 obtain c p where c: "skip_ws q = c # p" by (cases "skip_ws q") auto
    have c': "c = CHR '','' \<or> c = CHR '']''" using 2 v c by (simp split: if_splits)
    have nc: "\<not> number_char c" using c' by (auto simp: number_char_def is_digit_def)
    have e: "ends v q" using ws_value_end [OF c nc] by (simp add: ends_def split: json.split)
    obtain u where u: "s = u @ q" "\<And>t. ends v t \<Longrightarrow> read_value n d (u @ t) = Some (v, t)"
      using Suc.IH(1) [OF v e] by (auto elim: hereE)
    obtain w where w: "q = w @ c # p" "\<forall>y. skip_ws (w @ c # y) = c # y" using skip_ws_here [OF c] by blast
    have step: "read_value n d (u @ w @ c # y) = Some (v, w @ c # y)" for y
      by (rule u(2)) (use w(2) ws_value_end [OF _ nc] in \<open>simp add: ends_def split: json.split\<close>)
    show ?case
    proof (cases "c = CHR '',''")
      case True
      then obtain ys where ys: "read_items n d p = Some (ys, r)" "xs = v # ys" using 2 v c by auto
      obtain u' where u': "p = u' @ r" "\<And>t. read_items n d (u' @ t) = Some (ys, t)"
        using Suc.IH(2) [OF ys(1)] by (auto elim: hereE)
      show ?thesis by (rule hereI [where u = "u @ w @ c # u'"]) (use u(1) u' w step ys True in simp_all)
    next
      case False
      then have "xs = [v]" "r = p" using 2 v c by (auto split: if_splits)
      then show ?thesis by (intro hereI [where u = "u @ w @ [c]"]) (use u(1) w step False c' in simp_all)
    qed
  next
    case 3
    from 3 have qu: "has_prefix [CHR 0x22] (skip_ws s)" by (simp split: if_splits)
    then obtain s' where s': "skip_ws s = CHR 0x22 # s'" by (cases "skip_ws s") (auto simp: has_prefix_def)
    from 3 qu s' obtain k q where k: "read_string s' = Some (k, q)" by (cases "read_string s'") auto
    from 3 qu s' k have co: "has_prefix '':'' (skip_ws q)" by (simp split: if_splits)
    then obtain q' where q': "skip_ws q = CHR '':'' # q'" by (cases "skip_ws q") (auto simp: has_prefix_def)
    from 3 qu s' k q' obtain v z where v: "read_value n d q' = Some (v, z)"
      by (cases "read_value n d q'") (auto simp: has_prefix_def)
    from 3 qu s' k q' v obtain c p where c: "skip_ws z = c # p" by (cases "skip_ws z") (auto simp: has_prefix_def)
    have c': "c = CHR '','' \<or> c = CHR ''}''" using 3 qu s' k q' v c by (auto simp: has_prefix_def split: if_splits)
    have nc: "\<not> number_char c" using c' by (auto simp: number_char_def is_digit_def)
    have e: "ends v z" using ws_value_end [OF c nc] by (simp add: ends_def split: json.split)
    obtain w1 where w1: "s = w1 @ CHR 0x22 # s'" "\<forall>y. skip_ws (w1 @ CHR 0x22 # y) = CHR 0x22 # y"
      using skip_ws_here [OF s'] by blast
    obtain u1 where u1: "s' = u1 @ CHR 0x22 # q" "\<forall>t. read_string (u1 @ CHR 0x22 # t) = Some (k, t)"
      using read_string_here [OF k] by blast
    obtain w2 where w2: "q = w2 @ CHR '':'' # q'" "\<forall>y. skip_ws (w2 @ CHR '':'' # y) = CHR '':'' # y"
      using skip_ws_here [OF q'] by blast
    obtain u2 where u2: "q' = u2 @ z" "\<And>t. ends v t \<Longrightarrow> read_value n d (u2 @ t) = Some (v, t)"
      using Suc.IH(1) [OF v e] by (auto elim: hereE)
    obtain w3 where w3: "z = w3 @ c # p" "\<forall>y. skip_ws (w3 @ c # y) = c # y" using skip_ws_here [OF c] by blast
    have val: "read_value n d (u2 @ w3 @ c # y) = Some (v, w3 @ c # y)" for y
      by (rule u2(2)) (use w3(2) ws_value_end [OF _ nc] in \<open>simp add: ends_def split: json.split\<close>)
    let ?u = "w1 @ CHR 0x22 # u1 @ CHR 0x22 # w2 @ CHR '':'' # u2 @ w3"
    have s: "s = ?u @ c # p" using w1(1) u1(1) w2(1) u2(1) w3(1) by simp
    show ?case
    proof (cases "c = CHR '',''")
      case True
      then obtain ys where ys: "read_members n d p = Some (ys, r)" "ms = (k, v) # ys"
        using 3 qu s' k q' v c by (auto simp: has_prefix_def)
      obtain u' where u': "p = u' @ r" "\<And>t. read_members n d (u' @ t) = Some (ys, t)"
        using Suc.IH(3) [OF ys(1)] by (auto elim: hereE)
      show ?thesis
        by (rule hereI [where u = "?u @ c # u'"]) (use s u' w1(2) u1(2) w2(2) w3(2) val ys True in \<open>simp_all add: has_prefix_def\<close>)
    next
      case False
      then have "ms = [(k, v)]" "r = p" using 3 qu s' k q' v c by (auto simp: has_prefix_def split: if_splits)
      then show ?thesis
        by (intro hereI [where u = "?u @ [c]"]) (use s w1(2) u1(2) w2(2) w3(2) val False c' in \<open>simp_all add: has_prefix_def\<close>)
    qed
  }
qed simp_all

end
