(* ===== verification/Entries_Json.thy ===== *)
theory Entries_Json
  imports Verify_Walk Store_Json Json_Object Json_Local
begin

section \<open>Exported entries: \<open>verify/entries_json.go\<close>\<close>

text \<open>
  The file a verifier is handed: a JSON array of entry objects, or one object per line. It is read
  in two ways, whole (\<open>DecodeEntries\<close>) or one entry at a time (\<open>EntryReader\<close>), and both apply
  \<open>decodeEntry\<close> to the text of each entry. The reader's input is its bytes; an \<open>io.Reader\<close> that fails
  in the middle is not modelled.

  What is shown: the reader ends on every input, and yields what reading the whole input yields,
  while no line is longer than its limit and no element of an array is nested to the decoder's limit.
\<close>

subsection \<open>White space: \<open>bytes.TrimSpace\<close> and \<open>unicode.IsSpace\<close>\<close>

text \<open>The encodings of the runes that are white space.\<close>

definition space_runes :: "string list" where
  "space_runes =
     [[CHR 0x09], [CHR 0x0A], [CHR 0x0B], [CHR 0x0C], [CHR 0x0D], [CHR '' ''], [CHR 0xC2, CHR 0x85], [CHR 0xC2, CHR 0xA0],
      [CHR 0xE1, CHR 0x9A, CHR 0x80], [CHR 0xE2, CHR 0x80, CHR 0x80], [CHR 0xE2, CHR 0x80, CHR 0x81],
      [CHR 0xE2, CHR 0x80, CHR 0x82], [CHR 0xE2, CHR 0x80, CHR 0x83], [CHR 0xE2, CHR 0x80, CHR 0x84],
      [CHR 0xE2, CHR 0x80, CHR 0x85], [CHR 0xE2, CHR 0x80, CHR 0x86], [CHR 0xE2, CHR 0x80, CHR 0x87],
      [CHR 0xE2, CHR 0x80, CHR 0x88], [CHR 0xE2, CHR 0x80, CHR 0x89], [CHR 0xE2, CHR 0x80, CHR 0x8A],
      [CHR 0xE2, CHR 0x80, CHR 0xA8], [CHR 0xE2, CHR 0x80, CHR 0xA9], [CHR 0xE2, CHR 0x80, CHR 0xAF],
      [CHR 0xE2, CHR 0x81, CHR 0x9F], [CHR 0xE3, CHR 0x80, CHR 0x80]]"

function drop_runes :: "string list \<Rightarrow> string \<Rightarrow> string" where
  "drop_runes ps s =
     (case find (\<lambda>p. p \<noteq> [] \<and> has_prefix p s) ps of
        None \<Rightarrow> s
      | Some p \<Rightarrow> drop_runes ps (drop (length p) s))"
  by pat_completeness auto
termination
proof (relation "measure (\<lambda>(ps, s). length s)", goal_cases)
  case (2 ps s p)
  then have "p \<noteq> []" "take (length p) s = p" by (auto simp: find_Some_iff has_prefix_def)
  then have "0 < length p" "length p \<le> length s" by (simp_all add: take_eq_Nil [symmetric]) (metis length_take min.absorb_iff2 nat_le_linear)
  then have "length s - length p < length s" by linarith
  then show ?case by simp
qed simp

declare drop_runes.simps [simp del]

definition skipSpace :: "string \<Rightarrow> string" where
  "skipSpace s = drop_runes space_runes s"

definition trim_right :: "string \<Rightarrow> string" where
  "trim_right s = rev (drop_runes (map rev space_runes) (rev s))"

definition TrimSpace :: "string \<Rightarrow> string" where
  "TrimSpace s = trim_right (skipSpace s)"

subsection \<open>One entry\<close>

datatype decode_error =
    EntryNotObject | EntryNotJson | OtherSpelling string | EntryMemberTwice string | EntryFollowed | EntryLacks string | EntryWrongType

definition entryMembers :: "string list" where
  "entryMembers =
     [''entry_id'', ''entry_type'', ''timestamp'', ''format_version'', ''run_id'', ''sequence_num'', ''global_seq'',
      ''content_hash'', ''chain_hash'']"

definition requiredEntryMembers :: "string list" where
  "requiredEntryMembers = [''entry_id'', ''timestamp'', ''content_hash'', ''chain_hash'']"

definition foldsToMember :: "string \<Rightarrow> string option" where
  "foldsToMember name = find (\<lambda>known. fold_name name = fold_name known) entryMembers"

definition spelling_check :: "decode_error name_check" where
  "spelling_check k ms = (if k \<in> set entryMembers then None else map_option OtherSpelling (foldsToMember k))"

definition repeat_check :: "decode_error name_check" where
  "repeat_check k ms = (if k \<in> set entryMembers \<and> k \<in> fst ` set ms then Some (EntryMemberTwice k) else None)"

definition unmarshalMember :: "string \<Rightarrow> json \<Rightarrow> ventry \<Rightarrow> ventry option" where
  "unmarshalMember name value e =
     (if name = ''entry_id'' then set_string (\<lambda>s e. e\<lparr>v_EntryID := s\<rparr>) value e
      else if name = ''entry_type'' then set_string (\<lambda>s e. e\<lparr>v_EntryType := s\<rparr>) value e
      else if name = ''timestamp'' then set_string (\<lambda>s e. e\<lparr>v_Timestamp := s\<rparr>) value e
      else if name = ''format_version'' then set_int (\<lambda>i e. e\<lparr>v_FormatVersion := i\<rparr>) value e
      else if name = ''run_id'' then set_string (\<lambda>s e. e\<lparr>v_RunID := s\<rparr>) value e
      else if name = ''sequence_num'' then set_int (\<lambda>i e. e\<lparr>v_SequenceNum := i\<rparr>) value e
      else if name = ''global_seq'' then set_int (\<lambda>i e. e\<lparr>v_GlobalSeq := i\<rparr>) value e
      else if name = ''content_hash'' then set_string (\<lambda>s e. e\<lparr>v_ContentHash := s\<rparr>) value e
      else if name = ''chain_hash'' then set_string (\<lambda>s e. e\<lparr>v_ChainHash := s\<rparr>) value e
      else None)"

fun fill_members :: "(string \<times> json) list \<Rightarrow> ventry \<Rightarrow> ventry option" where
  "fill_members [] e = Some e"
| "fill_members ((name, value) # ms) e =
     (if name \<in> set entryMembers
      then (case unmarshalMember name value e of None \<Rightarrow> None | Some e' \<Rightarrow> fill_members ms e')
      else fill_members ms e)"

definition zero_ventry :: ventry where
  "zero_ventry = \<lparr>v_EntryID = [], v_EntryType = [], v_Timestamp = [], v_FormatVersion = 0, v_RunID = [], v_SequenceNum = 0,
     v_GlobalSeq = 0, v_ContentHash = [], v_ChainHash = []\<rparr>"

definition decodeEntry :: "string \<Rightarrow> decode_error + ventry" where
  "decodeEntry doc =
     (case json_object spelling_check repeat_check EntryNotObject EntryNotJson EntryFollowed doc of
        Inl e \<Rightarrow> Inl e
      | Inr ms \<Rightarrow>
          (case find (\<lambda>name. name \<notin> fst ` set ms) requiredEntryMembers of
             Some name \<Rightarrow> Inl (EntryLacks name)
           | None \<Rightarrow> (case fill_members ms zero_ventry of None \<Rightarrow> Inl EntryWrongType | Some e \<Rightarrow> Inr e)))"

subsection \<open>The whole input\<close>

datatype entries_error =
    InputEmpty | NotAnArray | NoEntries | ElementNotEntry nat decode_error | LineNotEntry nat decode_error
  | LineTooLong nat | EndOfInput

text \<open>The text of the value a \<open>json.RawMessage\<close> takes, and the texts of an array's elements.\<close>

definition raw_text :: "string \<Rightarrow> string \<Rightarrow> string" where
  "raw_text s r = take (length (skip_ws s) - length r) (skip_ws s)"

function item_texts :: "string \<Rightarrow> (string \<times> json) list" where
  "item_texts s =
     (case read_top s of
        None \<Rightarrow> []
      | Some (v, r) \<Rightarrow>
          (raw_text s r, v) # (if has_prefix '','' (skip_ws r) then item_texts (tl (skip_ws r)) else []))"
  by pat_completeness auto
termination
proof (relation "measure length", goal_cases)
  case (2 s x v r)
  then have "length r < length s" by (auto intro: read_top_shorter)
  moreover have "length (tl (skip_ws r)) \<le> length r" using length_skip_ws [of r] by simp
  ultimately show ?case by simp
qed simp

declare item_texts.simps [simp del]

definition array_items :: "string \<Rightarrow> (string \<times> json) list" where
  "array_items s = (if has_prefix '']'' (skip_ws s) then [] else item_texts s)"

definition unmarshal_docs :: "string \<Rightarrow> string list option" where
  "unmarshal_docs s = (case parse s of Some (JArr _) \<Rightarrow> Some (map fst (array_items (tl s))) | _ \<Rightarrow> None)"

fun decode_docs :: "(nat \<Rightarrow> decode_error \<Rightarrow> entries_error) \<Rightarrow> bool \<Rightarrow> nat \<Rightarrow> string list \<Rightarrow> entries_error + ventry list" where
  "decode_docs fault array i [] = Inr []"
| "decode_docs fault array i (doc # docs) =
     (if doc = [] \<and> \<not> array then decode_docs fault array (Suc i) docs
      else case decodeEntry doc of
        Inl e \<Rightarrow> Inl (fault i e)
      | Inr e \<Rightarrow> map_sum id ((#) e) (decode_docs fault array (Suc i) docs))"

definition some_entries :: "entries_error + ventry list \<Rightarrow> entries_error + ventry list" where
  "some_entries r = (if r = Inr [] then Inl NoEntries else r)"

definition DecodeEntries :: "string \<Rightarrow> entries_error + ventry list" where
  "DecodeEntries raw =
     (let trimmed = TrimSpace raw in
      if trimmed = [] then Inl InputEmpty
      else if hd trimmed = CHR ''['' then
        (case unmarshal_docs trimmed of
           None \<Rightarrow> Inl NotAnArray
         | Some docs \<Rightarrow> some_entries (decode_docs ElementNotEntry True 0 docs))
      else some_entries (decode_docs (\<lambda>i. LineNotEntry (Suc i)) False 0 (map TrimSpace (split_on (CHR 0x0A) trimmed))))"

subsection \<open>One entry at a time\<close>

definition MaxEntryLineBytes :: nat where "MaxEntryLineBytes = 2 ^ 20"

record entry_reader =
  er_input :: string
  er_started :: bool
  er_array :: bool
  er_first :: bool
  er_line :: nat
  er_entries :: nat
  er_err :: "entries_error option"

definition NewEntryReader :: "string \<Rightarrow> entry_reader" where
  "NewEntryReader r =
     \<lparr>er_input = r, er_started = False, er_array = False, er_first = False, er_line = 0, er_entries = 0, er_err = None\<rparr>"

text \<open>The white space, then for an array the token of its bracket.\<close>

definition start_reader :: "entry_reader \<Rightarrow> entries_error option \<times> entry_reader" where
  "start_reader d =
     (let s = skipSpace (er_input d); d = d\<lparr>er_started := True, er_input := s\<rparr> in
      if s = [] then (Some InputEmpty, d)
      else if hd s \<noteq> CHR ''['' then (None, d)
      else (None, d\<lparr>er_array := True, er_first := True, er_input := tl s\<rparr>))"

text \<open>The decoder wants a comma before every element but the first.\<close>

definition nextElement :: "entry_reader \<Rightarrow> (entries_error + ventry) \<times> entry_reader" where
  "nextElement d =
     (case skip_ws (er_input d) of
        [] \<Rightarrow> (Inl NotAnArray, d)
      | c # r \<Rightarrow>
          if c = CHR '']'' then (Inl (if skipSpace r = [] then EndOfInput else NotAnArray), d)
          else if c = CHR ''}'' then (Inl NotAnArray, d)
          else if \<not> er_first d \<and> c \<noteq> CHR '','' then (Inl NotAnArray, d)
          else
            (let s = (if er_first d then c # r else r) in
             case read_top s of
               None \<Rightarrow> (Inl NotAnArray, d)
             | Some (v, r') \<Rightarrow>
                 (case decodeEntry (raw_text s r') of
                    Inl e \<Rightarrow> (Inl (ElementNotEntry (er_entries d) e), d)
                  | Inr e \<Rightarrow> (Inr e, d\<lparr>er_input := r', er_first := False\<rparr>))))"

text \<open>The bytes up to the newline, and what follows it.\<close>

definition readLine :: "nat \<Rightarrow> string \<Rightarrow> entries_error + (string \<times> string)" where
  "readLine line s =
     (let l = takeWhile (\<lambda>c. c \<noteq> CHR 0x0A) s; r = dropWhile (\<lambda>c. c \<noteq> CHR 0x0A) s in
      if MaxEntryLineBytes + 1 < length l + (if r = [] then 0 else 1) then Inl (LineTooLong (Suc line))
      else Inr (l, tl r))"

function nextLine :: "entry_reader \<Rightarrow> (entries_error + ventry) \<times> entry_reader" where
  "nextLine d =
     (if er_input d = [] then (Inl EndOfInput, d)
      else case readLine (er_line d) (er_input d) of
        Inl e \<Rightarrow> (Inl e, d)
      | Inr (l, r) \<Rightarrow>
          (let d' = d\<lparr>er_input := r, er_line := Suc (er_line d)\<rparr>; doc = TrimSpace l in
           if doc = [] then nextLine d'
           else (case decodeEntry doc of
                   Inl e \<Rightarrow> (Inl (LineNotEntry (er_line d') e), d')
                 | Inr e \<Rightarrow> (Inr e, d'))))"
  by pat_completeness auto

lemma readLine_shorter: "readLine n s = Inr (l, r) \<Longrightarrow> s \<noteq> [] \<Longrightarrow> length r < length s"
proof -
  assume a: "readLine n s = Inr (l, r)" "s \<noteq> []"
  have r: "r = tl (dropWhile (\<lambda>c. c \<noteq> CHR 0x0A) s)" using a(1) by (simp add: readLine_def Let_def split: if_splits)
  have "length (dropWhile (\<lambda>c. c \<noteq> CHR 0x0A) s) \<le> length s" by (rule length_dropWhile_le)
  then show ?thesis unfolding r using a(2) by (cases s) auto
qed

termination nextLine
  by (relation "measure (\<lambda>d. length (er_input d))") (auto intro: readLine_shorter)

declare nextLine.simps [simp del]

definition next_entry :: "entry_reader \<Rightarrow> (entries_error + ventry) \<times> entry_reader" where
  "next_entry d =
     (case (if er_started d then (None, d) else start_reader d) of
        (Some e, d') \<Rightarrow> (Inl e, d')
      | (None, d') \<Rightarrow> if er_array d' then nextElement d' else nextLine d')"

definition Next_entry :: "entry_reader \<Rightarrow> (entries_error + ventry) \<times> entry_reader" where
  "Next_entry d =
     (case er_err d of
        Some e \<Rightarrow> (Inl e, d)
      | None \<Rightarrow>
          (case next_entry d of
             (Inl e, d') \<Rightarrow>
               (let e' = (if e = EndOfInput \<and> er_entries d' = 0 then NoEntries else e) in (Inl e', d'\<lparr>er_err := Some e'\<rparr>))
           | (Inr x, d') \<Rightarrow> (Inr x, d'\<lparr>er_entries := Suc (er_entries d')\<rparr>)))"

lemma drop_runes_le: "length (drop_runes ps s) \<le> length s"
proof (induction ps s rule: drop_runes.induct)
  case (1 ps s)
  show ?case
  proof (cases "find (\<lambda>p. p \<noteq> [] \<and> has_prefix p s) ps")
    case None
    then show ?thesis by (simp add: drop_runes.simps)
  next
    case (Some p)
    have "length (drop_runes ps (drop (length p) s)) \<le> length (drop (length p) s)" by (rule 1 [OF Some])
    then show ?thesis using Some by (subst drop_runes.simps) simp
  qed
qed

lemma skipSpace_le: "length (skipSpace s) \<le> length s"
  by (simp add: skipSpace_def drop_runes_le)

text \<open>An entry that is returned has used some of the input.\<close>

lemma nextElement_shorter:
  assumes "nextElement d = (Inr e, d')"
  shows "length (er_input d') < length (er_input d)"
proof -
  obtain c r where c: "skip_ws (er_input d) = c # r" using assms by (cases "skip_ws (er_input d)") (simp_all add: nextElement_def)
  let ?s = "if er_first d then c # r else r"
  obtain v r' where v: "read_top ?s = Some (v, r')" "er_input d' = r'"
    using assms c by (auto simp: nextElement_def Let_def split: if_splits option.splits sum.splits)
  have "length r' < length ?s" by (rule read_top_shorter [OF v(1)])
  moreover have "length ?s \<le> length (er_input d)" using length_skip_ws [of "er_input d"] c by auto
  ultimately show ?thesis using v(2) by simp
qed

lemma nextLine_shorter: "nextLine d = (Inr e, d') \<Longrightarrow> length (er_input d') < length (er_input d)"
proof (induction d rule: nextLine.induct)
  case (1 d)
  have ne: "er_input d \<noteq> []" using "1.prems" by (auto simp: nextLine.simps [of d])
  obtain l r where lr: "readLine (er_line d) (er_input d) = Inr (l, r)"
    using "1.prems" ne by (cases "readLine (er_line d) (er_input d)") (auto simp: nextLine.simps [of d])
  let ?d = "d\<lparr>er_input := r, er_line := Suc (er_line d)\<rparr>"
  have short: "length r < length (er_input d)" by (rule readLine_shorter [OF lr ne])
  show ?case
  proof (cases "TrimSpace l = []")
    case True
    then have "nextLine ?d = (Inr e, d')" using "1.prems" ne lr by (simp add: nextLine.simps [of d])
    from "1.IH" [OF ne lr _ refl refl True this] show ?thesis using short by simp
  next
    case False
    then have "d' = ?d" using "1.prems" ne lr by (auto simp: nextLine.simps [of d] Let_def split: sum.splits)
    then show ?thesis using short by simp
  qed
qed

lemma Next_entry_shorter:
  assumes "Next_entry d = (Inr e, d')"
  shows "length (er_input d') < length (er_input d)"
proof -
  obtain d0 where d0: "next_entry d = (Inr e, d0)" "er_input d' = er_input d0"
    using assms by (auto simp: Next_entry_def Let_def split: option.splits prod.splits sum.splits)
  obtain d1 where d1: "(if er_array d1 then nextElement d1 else nextLine d1) = (Inr e, d0)"
      "d1 = d \<or> start_reader d = (None, d1)"
  proof (cases "er_started d")
    case True
    with d0(1) show ?thesis by (intro that [of d]) (simp_all add: next_entry_def)
  next
    case False
    then obtain d1 where "start_reader d = (None, d1)" using d0(1)
      by (cases "start_reader d"; cases "fst (start_reader d)") (auto simp: next_entry_def)
    with d0(1) False show ?thesis by (intro that [of d1]) (simp_all add: next_entry_def)
  qed
  have "length (er_input d1) \<le> length (er_input d)"
    using d1(2) skipSpace_le [of "er_input d"] by (auto simp: start_reader_def Let_def split: if_splits)
  moreover have "length (er_input d0) < length (er_input d1)"
    using d1(1) nextElement_shorter nextLine_shorter by (auto split: if_splits)
  ultimately show ?thesis using d0(2) by simp
qed

text \<open>A caller that asks until the end of the input or an error.\<close>

function read_all :: "entry_reader \<Rightarrow> entries_error + ventry list" where
  "read_all d =
     (case Next_entry d of
        (Inl e, d') \<Rightarrow> if e = EndOfInput then Inr [] else Inl e
      | (Inr x, d') \<Rightarrow> map_sum id ((#) x) (read_all d'))"
  by pat_completeness auto
termination
  by (relation "measure (\<lambda>d. length (er_input d))") (auto intro: Next_entry_shorter dest!: sym [of "(_, _)"])

declare read_all.simps [simp del]

subsection \<open>Trimming\<close>

definition spaces :: "string \<Rightarrow> bool" where
  "spaces w \<longleftrightarrow> (\<exists>qs. set qs \<subseteq> set space_runes \<and> w = concat qs)"

lemma rune_facts:
  "\<forall>p \<in> set space_runes. p \<noteq> [] \<and> \<not> utf8_cont (hd p) \<and> list_all utf8_cont (tl p) \<and> last p \<noteq> CHR '']''"
  "\<forall>p \<in> set space_runes. \<forall>q \<in> set space_runes. has_prefix p q \<longrightarrow> p = q"
  "\<forall>p \<in> set (map rev space_runes). \<forall>q \<in> set (map rev space_runes). has_prefix p q \<longrightarrow> p = q"
  "\<forall>p \<in> set space_runes. p = [CHR 0x0A] \<or> CHR 0x0A \<notin> set p"
  by code_simp+

lemma drop_rune:
  assumes free: "\<forall>p \<in> set ps. \<forall>q \<in> set ps. has_prefix p q \<longrightarrow> p = q" and p: "p \<in> set ps" "p \<noteq> []"
  shows "drop_runes ps (p @ s) = drop_runes ps s"
proof -
  have "find (\<lambda>q. q \<noteq> [] \<and> has_prefix q (p @ s)) ps \<noteq> None"
    using p by (simp add: find_None_iff has_prefix_iff) blast
  then obtain q where q: "find (\<lambda>q. q \<noteq> [] \<and> has_prefix q (p @ s)) ps = Some q" by blast
  then have "q \<in> set ps" "has_prefix q (p @ s)" by (auto simp: find_Some_iff)
  then have "q = p" using free p(1) by (auto simp: has_prefix_iff append_eq_append_conv2)
  then show ?thesis using q by (subst drop_runes.simps) simp
qed

lemma drop_concat:
  assumes "\<forall>p \<in> set ps. \<forall>q \<in> set ps. has_prefix p q \<longrightarrow> p = q" "[] \<notin> set ps" "set qs \<subseteq> set ps"
  shows "drop_runes ps (concat qs @ s) = drop_runes ps s"
  using assms(3)
proof (induction qs)
  case (Cons q qs)
  then have "drop_runes ps (q @ concat qs @ s) = drop_runes ps (concat qs @ s)"
    using drop_rune [OF assms(1), of q] assms(2) by force
  then show ?case using Cons by simp
qed simp

lemma drop_runes_split: "\<exists>qs. set qs \<subseteq> set ps \<and> s = concat qs @ drop_runes ps s \<and>
    (\<forall>p \<in> set ps. p \<noteq> [] \<longrightarrow> \<not> has_prefix p (drop_runes ps s))"
proof (induction ps s rule: drop_runes.induct)
  case (1 ps s)
  show ?case
  proof (cases "find (\<lambda>p. p \<noteq> [] \<and> has_prefix p s) ps")
    case None
    then have "drop_runes ps s = s" by (simp add: drop_runes.simps)
    moreover have "\<forall>p \<in> set ps. p \<noteq> [] \<longrightarrow> \<not> has_prefix p s" using None by (auto simp: find_None_iff)
    ultimately show ?thesis by (intro exI [of _ "[]"]) simp
  next
    case (Some p)
    then have p: "p \<in> set ps" "has_prefix p s" by (auto simp: find_Some_iff)
    from 1 [OF Some] obtain qs where qs: "set qs \<subseteq> set ps" "drop (length p) s = concat qs @ drop_runes ps (drop (length p) s)"
      "\<forall>p' \<in> set ps. p' \<noteq> [] \<longrightarrow> \<not> has_prefix p' (drop_runes ps (drop (length p) s))" by blast
    have "drop_runes ps s = drop_runes ps (drop (length p) s)" using Some by (subst drop_runes.simps) simp
    moreover have "s = p @ drop (length p) s" using p(2) by (metis has_prefix_def append_take_drop_id)
    ultimately show ?thesis using p(1) qs by (intro exI [of _ "p # qs"]) (metis append.assoc concat.simps(2) insert_subset list.simps(15))
  qed
qed

lemma rune_ne: "[] \<notin> set space_runes" "[] \<notin> set (map rev space_runes)"
  using rune_facts(1) by (auto simp: image_iff)

lemma skipSpace_spaces: "spaces w \<Longrightarrow> skipSpace (w @ s) = skipSpace s"
  using drop_concat [OF rune_facts(2) rune_ne(1)] by (auto simp: spaces_def skipSpace_def)

lemma skipSpace_split: "\<exists>w. spaces w \<and> s = w @ skipSpace s"
  using drop_runes_split [of space_runes s] by (auto simp: spaces_def skipSpace_def)

lemma skipSpace_none: "p \<in> set space_runes \<Longrightarrow> \<not> has_prefix p (skipSpace s)"
proof -
  assume p: "p \<in> set space_runes"
  have "\<forall>p \<in> set space_runes. p \<noteq> [] \<longrightarrow> \<not> has_prefix p (skipSpace s)"
    using drop_runes_split [of space_runes s] unfolding skipSpace_def by (elim exE conjE)
  then show ?thesis using p rune_ne(1) by metis
qed

lemma skipSpace_same: "(\<And>p. p \<in> set space_runes \<Longrightarrow> \<not> has_prefix p s) \<Longrightarrow> skipSpace s = s"
proof -
  assume "\<And>p. p \<in> set space_runes \<Longrightarrow> \<not> has_prefix p s"
  then have "find (\<lambda>p. p \<noteq> [] \<and> has_prefix p s) space_runes = None" by (simp add: find_None_iff)
  then show ?thesis unfolding skipSpace_def by (subst drop_runes.simps) (simp only: option.case)
qed

lemma skipSpace_Nil [simp]: "skipSpace [] = []"
  using skipSpace_le [of "[]"] by simp

lemma trim_right_spaces: "spaces w \<Longrightarrow> trim_right (s @ w) = trim_right s"
proof -
  assume "spaces w"
  then obtain qs where qs: "set qs \<subseteq> set space_runes" "w = concat qs" by (auto simp: spaces_def)
  have "rev w = concat (map rev (rev qs))" by (simp add: qs(2) rev_concat rev_map)
  moreover have "set (map rev (rev qs)) \<subseteq> set (map rev space_runes)" using qs(1) by auto
  ultimately show ?thesis
    using drop_concat [OF rune_facts(3) rune_ne(2), of "map rev (rev qs)" "rev s"] by (simp add: trim_right_def)
qed

lemma trim_right_split: "\<exists>w. spaces w \<and> s = trim_right s @ w"
proof -
  obtain qs where qs: "set qs \<subseteq> set (map rev space_runes)" "rev s = concat qs @ drop_runes (map rev space_runes) (rev s)"
    using drop_runes_split by blast
  have "s = trim_right s @ concat (map rev (rev qs))"
    using arg_cong [OF qs(2), of rev] by (simp add: trim_right_def rev_concat rev_map)
  moreover have "set (map rev (rev qs)) \<subseteq> set space_runes" using qs(1) by auto
  ultimately show ?thesis unfolding spaces_def by blast
qed

lemma skipSpace_idem [simp]: "skipSpace (skipSpace s) = skipSpace s"
  by (rule skipSpace_same) (rule skipSpace_none)

lemma spaces_skip: "spaces w \<Longrightarrow> skipSpace w = []"
  using skipSpace_spaces [of w "[]"] by simp

lemma trim_Nil [simp]: "trim_right [] = []" "TrimSpace [] = []"
  using trim_right_split [of "[]"] by (simp_all add: TrimSpace_def)

lemma TrimSpace_spaces:
  assumes w: "spaces w"
  shows "TrimSpace (l @ w) = TrimSpace l"
proof -
  let ?x = "skipSpace l"
  obtain a where a: "spaces a" "l = a @ ?x" using skipSpace_split by blast
  have eq: "skipSpace (l @ w) = skipSpace (?x @ w)" using skipSpace_spaces [OF a(1), of "?x @ w"] a(2) by (metis append.assoc)
  show ?thesis
  proof (cases "?x = []")
    case True
    then show ?thesis using eq spaces_skip [OF w] by (simp add: TrimSpace_def)
  next
    case False
    have "skipSpace (?x @ w) = ?x @ w"
    proof (rule skipSpace_same, rule notI)
      fix p assume p: "p \<in> set space_runes" "has_prefix p (?x @ w)"
      have no: "\<not> has_prefix p ?x" by (rule skipSpace_none [OF p(1)])
      obtain t where t: "?x @ w = p @ t" using p(2) by (auto simp: has_prefix_iff)
      obtain b where b: "p = ?x @ b" "w = b @ t" "b \<noteq> []"
        using t no by (auto simp: append_eq_append_conv2 has_prefix_iff)
      obtain c b' where c: "b = c # b'" using b(3) by (cases b) auto
      obtain y ys where y: "?x = y # ys" using False by (cases ?x) auto
      have "list_all utf8_cont (tl p)" using rune_facts(1) p(1) by blast
      then have "utf8_cont c" using b(1) c y by simp
      moreover have "\<not> utf8_cont (hd w)"
      proof -
        obtain qs where qs: "set qs \<subseteq> set space_runes" "w = concat qs" using w by (auto simp: spaces_def)
        then obtain q qs' where q: "qs = q # qs'" using b(2) c by (cases qs) auto
        then have "q \<noteq> []" "\<not> utf8_cont (hd q)" using rune_facts(1) qs(1) by auto
        then show ?thesis using qs(2) q by simp
      qed
      ultimately show False using b(2) c by simp
    qed
    then show ?thesis using eq trim_right_spaces [OF w] by (simp add: TrimSpace_def)
  qed
qed

lemma TrimSpace_of_spaces: "spaces w \<Longrightarrow> TrimSpace w = []"
  using TrimSpace_spaces [of w "[]"] by simp

lemma trim_right_empty: "skipSpace s = s \<Longrightarrow> trim_right s = [] \<longleftrightarrow> s = []"
  using trim_right_split [of s] spaces_skip by auto

lemma trim_right_end: "trim_right (x @ ''[]'' ) = x @ ''[]''" "trim_right (x @ [CHR '']'']) = x @ [CHR '']'']"
proof -
  have "drop_runes (map rev space_runes) (CHR '']'' # y) = CHR '']'' # y" for y
  proof -
    have "\<not> has_prefix (rev p) (CHR '']'' # y)" if "p \<in> set space_runes" for p
      using that rune_facts(1) by (cases p rule: rev_cases) (auto simp: has_prefix_iff)
    then have "find (\<lambda>p. p \<noteq> [] \<and> has_prefix p (CHR '']'' # y)) (map rev space_runes) = None"
      by (auto simp: find_None_iff)
    then show ?thesis by (simp add: drop_runes.simps)
  qed
  then show "trim_right (x @ ''[]'' ) = x @ ''[]''" "trim_right (x @ [CHR '']'']) = x @ [CHR '']'']"
    by (simp_all add: trim_right_def)
qed

subsection \<open>Lines\<close>

lemma split_on_append: "split_on c (a @ b) = butlast (split_on c a) @ (last (split_on c a) @ hd (split_on c b)) # tl (split_on c b)"
proof (induction a)
  case Nil
  then show ?case by (cases "split_on c b") simp_all
next
  case (Cons x a)
  obtain p ps where p: "split_on c a = p # ps" by (cases "split_on c a") simp_all
  then show ?case using Cons by (cases ps) simp_all
qed

lemma spaces_concat: "set qs \<subseteq> set space_runes \<Longrightarrow> spaces (concat qs)"
  unfolding spaces_def by blast

lemma split_spaces: "spaces w \<Longrightarrow> \<forall>l \<in> set (split_on (CHR 0x0A) w). spaces l"
proof -
  have "set qs \<subseteq> set space_runes \<Longrightarrow> \<forall>l \<in> set (split_on (CHR 0x0A) (concat qs)). \<exists>ps. set ps \<subseteq> set space_runes \<and> l = concat ps" for qs
  proof (induction qs)
    case Nil
    then show ?case by (auto intro: exI [of _ "[]"])
  next
    case (Cons q qs)
    let ?ls = "split_on (CHR 0x0A) (concat qs)"
    obtain l ls where l: "?ls = l # ls" by (cases ?ls) simp_all
    have IH: "\<exists>ps. set ps \<subseteq> set space_runes \<and> k = concat ps" if "k \<in> set (l # ls)" for k
      using Cons.IH Cons.prems that unfolding l by (metis insert_subset list.simps(15))
    have q: "q \<in> set space_runes" using Cons.prems by simp
    show ?case
    proof (cases "q = [CHR 0x0A]")
      case True
      then have "split_on (CHR 0x0A) (concat (q # qs)) = [] # l # ls" using l by simp
      then show ?thesis using IH by (auto intro: exI [of _ "[]"])
    next
      case False
      then have "CHR 0x0A \<notin> set q" using rune_facts(4) q by blast
      then have "split_on (CHR 0x0A) (concat (q # qs)) = (q @ l) # ls" using l by (simp add: split_on_append)
      moreover obtain ps where "set ps \<subseteq> set space_runes" "l = concat ps" using IH by auto
      then have "\<exists>ps. set ps \<subseteq> set space_runes \<and> q @ l = concat ps" using q by (intro exI [of _ "q # ps"]) simp
      ultimately show ?thesis using IH by auto
    qed
  qed
  then show "spaces w \<Longrightarrow> \<forall>l \<in> set (split_on (CHR 0x0A) w). spaces l" unfolding spaces_def by blast
qed

lemma trimmed_lines:
  assumes "spaces w"
  shows "\<exists>k. map TrimSpace (split_on (CHR 0x0A) (t @ w)) = map TrimSpace (split_on (CHR 0x0A) t) @ replicate k []"
proof -
  let ?t = "split_on (CHR 0x0A) t" and ?w = "split_on (CHR 0x0A) w"
  have w: "\<forall>l \<in> set ?w. spaces l" by (rule split_spaces [OF assms])
  then have "spaces (hd ?w)" by simp
  then have "TrimSpace (last ?t @ hd ?w) = TrimSpace (last ?t)" by (rule TrimSpace_spaces)
  moreover have "map TrimSpace (tl ?w) = replicate (length (tl ?w)) []"
    using w by (intro replicate_eqI) (auto simp: TrimSpace_of_spaces list.set_sel(2))
  moreover have "map TrimSpace ?t = map TrimSpace (butlast ?t) @ [TrimSpace (last ?t)]"
    by (metis append_butlast_last_id list.simps(8,9) map_append split_on_not_Nil)
  ultimately show ?thesis by (intro exI [of _ "length (tl ?w)"]) (simp add: split_on_append)
qed

lemma decode_blank: "decode_docs fault False i (docs @ replicate k []) = decode_docs fault False i docs"
proof (induction docs arbitrary: i)
  case Nil
  show ?case by (induction k arbitrary: i) simp_all
qed (simp split: sum.split)

lemma split_on_first:
  "split_on c s = takeWhile (\<lambda>x. x \<noteq> c) s #
     (if dropWhile (\<lambda>x. x \<noteq> c) s = [] then [] else split_on c (tl (dropWhile (\<lambda>x. x \<noteq> c) s)))"
  by (induction s) (auto split: list.splits)

lemma read_all_Next: "Next_entry d = Next_entry d' \<Longrightarrow> read_all d = read_all d'"
  by (simp add: read_all.simps)

lemma Next_started: "er_started d \<Longrightarrow> er_err d = None \<Longrightarrow> Next_entry d =
    (case (if er_array d then nextElement d else nextLine d) of
       (Inl e, d') \<Rightarrow> (let e' = (if e = EndOfInput \<and> er_entries d' = 0 then NoEntries else e) in (Inl e', d'\<lparr>er_err := Some e'\<rparr>))
     | (Inr x, d') \<Rightarrow> (Inr x, d'\<lparr>er_entries := Suc (er_entries d')\<rparr>))"
  by (simp add: Next_entry_def next_entry_def)

definition line_result :: "nat \<Rightarrow> entries_error + ventry list \<Rightarrow> entries_error + ventry list" where
  "line_result n r = (if r = Inr [] \<and> n = 0 then Inl NoEntries else r)"

lemma read_lines:
  "er_started d \<Longrightarrow> \<not> er_array d \<Longrightarrow> er_err d = None \<Longrightarrow>
     list_all (\<lambda>l. length l \<le> MaxEntryLineBytes) (split_on (CHR 0x0A) (er_input d)) \<Longrightarrow>
     read_all d = line_result (er_entries d)
       (decode_docs (\<lambda>i. LineNotEntry (Suc i)) False (er_line d) (map TrimSpace (split_on (CHR 0x0A) (er_input d))))"
proof (induction d rule: measure_induct_rule [where f = "\<lambda>d. length (er_input d)"])
  case (less d)
  let ?s = "er_input d" and ?fault = "\<lambda>i. LineNotEntry (Suc i)"
  show ?case
  proof (cases "?s = []")
    case True
    then have "nextLine d = (Inl EndOfInput, d)" by (simp add: nextLine.simps)
    then show ?thesis using True less.prems by (simp add: read_all.simps [of d] Next_started line_result_def Let_def)
  next
    case False
    let ?l = "takeWhile (\<lambda>x. x \<noteq> CHR 0x0A) ?s" and ?r = "dropWhile (\<lambda>x. x \<noteq> CHR 0x0A) ?s"
    let ?ls = "if ?r = [] then [] else split_on (CHR 0x0A) (tl ?r)"
    have split: "split_on (CHR 0x0A) ?s = ?l # ?ls" by (rule split_on_first)
    have fits: "length ?l \<le> MaxEntryLineBytes" "list_all (\<lambda>l. length l \<le> MaxEntryLineBytes) ?ls"
      using less.prems(4) unfolding split by simp_all
    have line: "readLine (er_line d) ?s = Inr (?l, tl ?r)" using fits(1) by (simp add: readLine_def Let_def)
    have short: "length (tl ?r) < length ?s" by (rule readLine_shorter [OF line False])
    let ?d = "d\<lparr>er_input := tl ?r, er_line := Suc (er_line d)\<rparr>"
    have rest: "decode_docs ?fault False i (map TrimSpace (split_on (CHR 0x0A) (tl ?r))) = decode_docs ?fault False i (map TrimSpace ?ls)" for i
    proof -
      have "decode_docs ?fault False i (map TrimSpace (split_on (CHR 0x0A) (tl r))) =
          decode_docs ?fault False i (map TrimSpace (if r = [] then [] else split_on (CHR 0x0A) (tl r)))" for r
        by (cases r) simp_all
      then show ?thesis .
    qed
    have fits': "list_all (\<lambda>l. length l \<le> MaxEntryLineBytes) (split_on (CHR 0x0A) (tl ?r))"
    proof -
      have "list_all (\<lambda>l. length l \<le> MaxEntryLineBytes) (if r = [] then [] else split_on (CHR 0x0A) (tl r)) \<Longrightarrow>
          list_all (\<lambda>l. length l \<le> MaxEntryLineBytes) (split_on (CHR 0x0A) (tl r))" for r
        by (cases r) simp_all
      then show ?thesis using fits(2) .
    qed
    have IH: "read_all (?d\<lparr>er_entries := n\<rparr>) = line_result n (decode_docs ?fault False (Suc (er_line d)) (map TrimSpace ?ls))" for n
      using less.IH [of "?d\<lparr>er_entries := n\<rparr>"] short less.prems fits' by (simp add: rest)
    show ?thesis
    proof (cases "TrimSpace ?l = []")
      case True
      then have "nextLine d = nextLine ?d" using False line by (subst nextLine.simps) (simp add: Let_def)
      then have "Next_entry d = Next_entry ?d" using less.prems by (simp add: Next_started)
      then have "read_all d = read_all ?d" by (rule read_all_Next)
      also have "?d = ?d\<lparr>er_entries := er_entries d\<rparr>" by simp
      finally show ?thesis unfolding split using IH [of "er_entries d"] True by simp
    next
      case doc: False
      show ?thesis
      proof (cases "decodeEntry (TrimSpace ?l)")
        case (Inl e)
        then have "nextLine d = (Inl (LineNotEntry (Suc (er_line d)) e), ?d)"
          using False line doc by (subst nextLine.simps) (simp add: Let_def)
        then show ?thesis unfolding split using less.prems doc Inl
          by (simp add: read_all.simps [of d] Next_started line_result_def Let_def)
      next
        case (Inr e)
        then have "nextLine d = (Inr e, ?d)" using False line doc by (subst nextLine.simps) (simp add: Let_def)
        then have "read_all d = map_sum id ((#) e) (read_all (?d\<lparr>er_entries := Suc (er_entries d)\<rparr>))"
          using less.prems by (simp add: read_all.simps [of d] Next_started)
        then show ?thesis unfolding split IH using doc Inr
          by (cases "decode_docs ?fault False (Suc (er_line d)) (map TrimSpace ?ls)") (simp_all add: line_result_def)
      qed
    qed
  qed
qed

subsection \<open>Arrays\<close>

lemma skip_ws_idem [simp]: "skip_ws (skip_ws s) = skip_ws s"
  by (simp add: skip_ws_def dropWhile_idem)

lemma read_top_ws: "read_top (skip_ws s) = read_top s"
proof -
  have "read_value (Suc n) d (skip_ws s) = read_value (Suc n) d s" for n d by simp
  then have "read_top s = read_value (Suc (2 * length s)) 0 (skip_ws s)" by (simp only: read_top_def)
  also have "\<dots> = read_top (skip_ws s)"
    unfolding read_top_def using length_skip_ws [of s] by (intro read_fuel(1)) simp_all
  finally show ?thesis by simp
qed

lemma raw_text_ws: "raw_text (skip_ws s) r = raw_text s r"
  by (simp add: raw_text_def)

lemma value_start: "read_top s = Some (v, r) \<Longrightarrow> \<exists>c q. skip_ws s = c # q \<and> c \<noteq> CHR '']'' \<and> c \<noteq> CHR ''}'' \<and> c \<noteq> CHR '',''"
  by (cases "skip_ws s") (auto simp: read_top_def has_prefix_def number_rest_def is_digit_def)

lemma read_elements:
  "read_items n k s = Some (vs, r) \<Longrightarrow> er_started d \<Longrightarrow> er_array d \<Longrightarrow> er_err d = None \<Longrightarrow>
     (if er_first d then er_input d = s else skip_ws (er_input d) = CHR '','' # s) \<Longrightarrow>
     read_all d = (case decode_docs ElementNotEntry True (er_entries d) (map fst (item_texts s)) of
        Inl e \<Rightarrow> Inl e | Inr es \<Rightarrow> if skipSpace r = [] then Inr es else Inl NotAnArray)"
proof (induction n arbitrary: s vs d)
  case (Suc n)
  obtain v q where v: "read_value n k s = Some (v, q)" using Suc.prems(1) by (cases "read_value n k s") auto
  with Suc.prems(1) obtain c p where c: "skip_ws q = c # p" by (cases "skip_ws q") auto
  have c': "c = CHR '','' \<or> c = CHR '']''" using Suc.prems(1) v c by (simp split: if_splits)
  have top: "read_top s = Some (v, q)" by (rule read_top_value [OF v])
  obtain c0 q0 where c0: "skip_ws s = c0 # q0" "c0 \<noteq> CHR '']''" "c0 \<noteq> CHR ''}''" "c0 \<noteq> CHR '',''"
    using value_start [OF top] by blast
  have read: "read_top (c0 # q0) = Some (v, q)" "raw_text (c0 # q0) q = raw_text s q"
    using top read_top_ws [of s] raw_text_ws [of s] c0(1) by simp_all
  have texts: "item_texts s = (raw_text s q, v) # (if c = CHR '','' then item_texts p else [])"
    by (simp add: item_texts.simps [of s] top c has_prefix_def)
  let ?d = "d\<lparr>er_input := q, er_first := False\<rparr>"
  have nxt: "nextElement d = (case decodeEntry (raw_text s q) of
      Inl e \<Rightarrow> (Inl (ElementNotEntry (er_entries d) e), d) | Inr e \<Rightarrow> (Inr e, ?d))"
    using Suc.prems(5) c0 read top by (simp add: nextElement_def Let_def split: if_splits)
  show ?case
  proof (cases "decodeEntry (raw_text s q)")
    case (Inl e)
    then show ?thesis using nxt Suc.prems(2-4) texts by (simp add: read_all.simps [of d] Next_started Let_def)
  next
    case (Inr e)
    let ?d' = "?d\<lparr>er_entries := Suc (er_entries d)\<rparr>"
    have step: "read_all d = map_sum id ((#) e) (read_all ?d')"
      using nxt Suc.prems Inr by (simp add: read_all.simps [of d] Next_started)
    show ?thesis
    proof (cases "c = CHR '',''")
      case True
      then obtain ws where ws: "read_items n k p = Some (ws, r)" using Suc.prems(1) v c by auto
      from Suc.IH [OF ws, of ?d'] have "read_all ?d' = (case decode_docs ElementNotEntry True (Suc (er_entries d)) (map fst (item_texts p)) of
          Inl e \<Rightarrow> Inl e | Inr es \<Rightarrow> if skipSpace r = [] then Inr es else Inl NotAnArray)"
        using Suc.prems c True by simp
      then show ?thesis unfolding step texts using Inr True
        by (simp split: sum.split)
    next
      case False
      then have c2: "c = CHR '']''" "r = p" using Suc.prems(1) v c by (auto split: if_splits)
      have "nextElement ?d' = (Inl (if skipSpace p = [] then EndOfInput else NotAnArray), ?d')"
        using c c2 by (simp add: nextElement_def)
      then have "read_all ?d' = (if skipSpace p = [] then Inr [] else Inl NotAnArray)"
        using Suc.prems by (simp add: read_all.simps [of ?d'] Next_started Let_def)
      then show ?thesis unfolding step texts using Inr False c2 by simp
    qed
  qed
qed simp

text \<open>The elements of an array are the same texts whatever follows the array.\<close>

lemma skip_ws_append: "skip_ws u \<noteq> [] \<Longrightarrow> skip_ws (u @ t) = skip_ws u @ t"
  unfolding skip_ws_def by (metis dropWhile_append1 dropWhile_eq_Nil_conv)

lemma value_here:
  assumes "read_value n d s = Some (v, q)" and "ends v q"
  obtains u where "s = u @ q" "\<And>t. ends v t \<Longrightarrow> read_value n d (u @ t) = Some (v, t)" "\<And>t. raw_text (u @ t) t = skip_ws u"
proof -
  obtain u where u: "s = u @ q" "\<And>t. ends v t \<Longrightarrow> read_value n d (u @ t) = Some (v, t)"
    using read_here(1) [OF assms] by (auto elim: hereE)
  have "read_value n d u = Some (v, [])" using u(2) [of "[]"] by (simp add: ends_def split: json.splits)
  then have "skip_ws u \<noteq> []" by (cases n) (auto split: list.splits)
  then have "raw_text (u @ t) t = skip_ws u" for t by (simp add: raw_text_def skip_ws_append)
  with u show ?thesis using that by blast
qed

lemma items_here:
  "read_items n d s = Some (vs, r) \<Longrightarrow> \<exists>u. s = u @ CHR '']'' # r \<and>
     (\<forall>t. read_items n d (u @ CHR '']'' # t) = Some (vs, t) \<and> item_texts (u @ CHR '']'' # t) = item_texts s)"
proof (induction n arbitrary: s vs)
  case (Suc n)
  obtain v q where v: "read_value n d s = Some (v, q)" using Suc.prems by (cases "read_value n d s") auto
  with Suc.prems obtain c p where c: "skip_ws q = c # p" by (cases "skip_ws q") auto
  have c': "c = CHR '','' \<or> c = CHR '']''" using Suc.prems v c by (simp split: if_splits)
  have nc: "\<not> number_char c" using c' by (auto simp: number_char_def is_digit_def)
  have e: "ends v z" if "skip_ws z = c # y" for z y using ws_value_end [OF that nc] by (simp add: ends_def split: json.split)
  obtain u where u: "s = u @ q" "\<And>t. ends v t \<Longrightarrow> read_value n d (u @ t) = Some (v, t)" "\<And>t. raw_text (u @ t) t = skip_ws u"
    using value_here [OF v e [OF c]] by blast
  obtain w where w: "q = w @ c # p" "\<And>y. skip_ws (w @ c # y) = c # y" using skip_ws_here [OF c] by blast
  have val: "read_value n d (u @ w @ c # y) = Some (v, w @ c # y)" for y by (rule u(2)) (rule e [OF w(2)])
  have texts: "item_texts (u @ w @ c # y) = (skip_ws u, v) # (if c = CHR '','' then item_texts y else [])" for y
    using read_top_value [OF val [of y]] u(3) w(2) [of y]
    by (subst item_texts.simps) (cases "c = CHR '',''"; simp add: has_prefix_def)
  have s: "s = u @ w @ c # p" using u(1) w(1) by simp
  show ?case
  proof (cases "c = CHR '',''")
    case True
    then obtain ys where ys: "read_items n d p = Some (ys, r)" "vs = v # ys" using Suc.prems v c by auto
    obtain u' where u': "p = u' @ CHR '']'' # r"
      "\<And>t. read_items n d (u' @ CHR '']'' # t) = Some (ys, t)" "\<And>t. item_texts (u' @ CHR '']'' # t) = item_texts p"
      using Suc.IH [OF ys(1)] by blast
    have "item_texts (u @ w @ c # u' @ CHR '']'' # t) = item_texts s" for t
      unfolding s texts using u'(3) by simp
    moreover have "read_items (Suc n) d (u @ w @ c # u' @ CHR '']'' # t) = Some (vs, t)" for t
      using val w(2) u'(2) True ys(2) by simp
    ultimately show ?thesis using s u'(1) by (intro exI [of _ "u @ w @ c # u'"]) simp
  next
    case False
    then have "vs = [v]" "r = p" "c = CHR '']''" using Suc.prems v c by (auto split: if_splits)
    moreover have "item_texts (u @ w @ CHR '']'' # t) = item_texts s" for t
      using texts [of t] texts [of p] \<open>c = _\<close> s by simp
    ultimately show ?thesis using s val w(2) by (intro exI [of _ "u @ w"]) simp
  qed
qed simp

lemma fold_max_ge: "x \<in> set xs \<Longrightarrow> (x :: nat) \<le> fold max xs a" "(a :: nat) \<le> fold max xs a"
proof -
  show a: "a \<le> fold max xs a" for a :: nat and xs
    by (induction xs arbitrary: a) (simp, metis fold_simps(2) max.boundedE)
  show "x \<in> set xs \<Longrightarrow> x \<le> fold max xs a"
  proof (induction xs arbitrary: a)
    case (Cons y ys)
    have "y \<le> fold max ys (max y a)" using a [of "max y a" ys] by simp
    with Cons show ?case by auto
  qed simp
qed

text \<open>The depth only matters for values that are nested too deep.\<close>

lemma read_deeper:
  "read_value n d s = Some (v, r) \<Longrightarrow> d' + nesting v \<le> max_nesting \<Longrightarrow> read_value n d' s = Some (v, r)"
  "read_items n d s = Some (xs, r) \<Longrightarrow> (\<forall>x \<in> set xs. d' + nesting x \<le> max_nesting) \<Longrightarrow> read_items n d' s = Some (xs, r)"
  "read_members n d s = Some (ms, r) \<Longrightarrow> (\<forall>m \<in> set ms. d' + nesting (snd m) \<le> max_nesting) \<Longrightarrow> read_members n d' s = Some (ms, r)"
proof (induction n arbitrary: d d' s v r xs ms)
  case (Suc n)
  {
    case 1
    have items: "read_items n (Suc d') q = Some (xs, z)" if "read_items n (Suc d) q = Some (xs, z)" "v = JArr xs" for q xs z
    proof (rule Suc.IH(2) [OF that(1)], rule ballI)
      fix x assume "x \<in> set xs"
      then have "nesting x \<le> fold max (map nesting xs) 0" by (intro fold_max_ge(1)) simp
      then show "Suc d' + nesting x \<le> max_nesting" using 1(2) that(2) by simp
    qed
    have members: "read_members n (Suc d') q = Some (ms, z)" if "read_members n (Suc d) q = Some (ms, z)" "v = JObj ms" for q ms z
    proof (rule Suc.IH(3) [OF that(1)], rule ballI)
      fix m assume "m \<in> set ms"
      then have "nesting (snd m) \<le> fold max (map (\<lambda>(k, v). nesting v) ms) 0"
        by (intro fold_max_ge(1)) (auto simp: image_iff split_beta intro: bexI [of _ m])
      then show "Suc d' + nesting (snd m) \<le> max_nesting" using 1(2) that(2) by simp
    qed
    show ?case using 1 items members by (auto split: list.splits if_splits)
  next
    case 2
    obtain v q where v: "read_value n d s = Some (v, q)" using 2(1) by (cases "read_value n d s") auto
    have "v \<in> set xs" using 2(1) v by (auto split: list.splits if_splits)
    then have v': "read_value n d' s = Some (v, q)" using Suc.IH(1) [OF v] 2(2) by blast
    show ?case using 2 v v' Suc.IH(2) [of d _ _ r d'] by (auto split: list.splits if_splits)
  next
    case 3
    from 3(1) have qu: "has_prefix [CHR 0x22] (skip_ws s)" by (simp split: if_splits)
    from 3(1) qu obtain k q where k: "read_string (tl (skip_ws s)) = Some (k, q)" by (cases "read_string (tl (skip_ws s))") auto
    from 3(1) qu k have co: "has_prefix '':'' (skip_ws q)" by (simp split: if_splits)
    from 3(1) qu k co obtain v z where v: "read_value n d (tl (skip_ws q)) = Some (v, z)"
      by (cases "read_value n d (tl (skip_ws q))") auto
    have "\<exists>k. (k, v) \<in> set ms" using 3(1) qu k co v by (auto split: list.splits if_splits)
    then have v': "read_value n d' (tl (skip_ws q)) = Some (v, z)" using Suc.IH(1) [OF v] 3(2) by fastforce
    show ?case using 3 qu k co v v' Suc.IH(3) [of d _ _ r d'] by (auto split: list.splits if_splits)
  }
qed simp_all

subsection \<open>The reader and the whole input\<close>

text \<open>The limits of the two: the length of a line, and one level of nesting more for an array that is
  decoded as a whole.\<close>

definition within_limits :: "string \<Rightarrow> bool" where
  "within_limits raw =
     (let s = skipSpace raw in
      if s \<noteq> [] \<and> hd s = CHR ''['' then list_all (\<lambda>(_, v). nesting v < max_nesting) (array_items (tl s))
      else list_all (\<lambda>l. length l \<le> MaxEntryLineBytes) (split_on (CHR 0x0A) s))"

lemma read_all_start:
  assumes "start_reader d = (None, d1)" "er_err d = None" "\<not> er_started d"
  shows "read_all d = read_all d1"
proof -
  have "er_started d1" "er_err d1 = None"
    using assms(1,2) by (auto simp: start_reader_def Let_def split: if_splits)
  then show ?thesis using assms by (intro read_all_Next) (simp add: Next_entry_def next_entry_def)
qed

lemma decode_docs_array: "docs \<noteq> [] \<Longrightarrow> decode_docs fault True i docs \<noteq> Inr []"
  by (cases docs) (auto split: sum.split simp: map_sum_def)

lemma ws_spaces: "skip_ws r = [] \<Longrightarrow> spaces r"
proof -
  assume "skip_ws r = []"
  then have "\<forall>c \<in> set r. [c] \<in> set space_runes" by (auto simp: skip_ws_def space_runes_def)
  then show ?thesis unfolding spaces_def by (intro exI [of _ "map (\<lambda>c. [c]) r"]) auto
qed

lemma spaces_append: "spaces a \<Longrightarrow> spaces b \<Longrightarrow> spaces (a @ b)"
  unfolding spaces_def by (metis (no_types) Un_least concat_append set_append)

lemma trimmed_start:
  assumes "skipSpace raw = s" "s \<noteq> []"
  obtains w where "spaces w" "s = TrimSpace raw @ w" "TrimSpace raw \<noteq> []" "hd (TrimSpace raw) = hd s"
proof -
  obtain w where w: "spaces w" "s = trim_right s @ w" using trim_right_split by blast
  have "trim_right s \<noteq> []" using trim_right_empty [of s] assms skipSpace_idem [of raw] by simp
  moreover have "TrimSpace raw = trim_right s" by (simp add: TrimSpace_def assms(1))
  ultimately show ?thesis using that w by (metis hd_append2)
qed

lemma trimmed_bracket:
  assumes "skipSpace raw = CHR ''['' # y"
  shows "\<exists>w t. spaces w \<and> TrimSpace raw = CHR ''['' # t \<and> y = t @ w"
proof (rule trimmed_start [OF assms])
  fix w assume w: "spaces w" "CHR ''['' # y = TrimSpace raw @ w" "TrimSpace raw \<noteq> []" "hd (TrimSpace raw) = hd (CHR ''['' # y)"
  then show ?thesis by (cases "TrimSpace raw") auto
qed simp

lemma line_streams:
  assumes "skipSpace raw = s" "s \<noteq> []" "hd s \<noteq> CHR ''[''" "list_all (\<lambda>l. length l \<le> MaxEntryLineBytes) (split_on (CHR 0x0A) s)"
  shows "read_all (NewEntryReader raw) = DecodeEntries raw"
proof -
  obtain w where w: "spaces w" "s = TrimSpace raw @ w" "TrimSpace raw \<noteq> []" "hd (TrimSpace raw) = hd s"
    using trimmed_start [OF assms(1,2)] .
  let ?d = "(NewEntryReader raw)\<lparr>er_started := True, er_input := s\<rparr>"
  have "read_all (NewEntryReader raw) = read_all ?d"
    by (rule read_all_start) (use assms(1-3) in \<open>simp_all add: start_reader_def NewEntryReader_def Let_def\<close>)
  also have "\<dots> = some_entries (decode_docs (\<lambda>i. LineNotEntry (Suc i)) False 0 (map TrimSpace (split_on (CHR 0x0A) s)))"
    using read_lines [of ?d] assms(4) by (simp add: NewEntryReader_def line_result_def some_entries_def)
  also have "map TrimSpace (split_on (CHR 0x0A) s) = map TrimSpace (split_on (CHR 0x0A) (TrimSpace raw @ w))" using w(2) by simp
  also have "some_entries (decode_docs (\<lambda>i. LineNotEntry (Suc i)) False 0 \<dots>) = DecodeEntries raw"
    using trimmed_lines [OF w(1), of "TrimSpace raw"] w(3,4) assms(3)
    by (auto simp: DecodeEntries_def Let_def decode_blank)
  finally show ?thesis .
qed

lemma array_start:
  assumes "skipSpace raw = CHR ''['' # y"
  shows "read_all (NewEntryReader raw) =
    read_all ((NewEntryReader raw)\<lparr>er_started := True, er_input := y, er_array := True, er_first := True\<rparr>)"
  by (rule read_all_start) (use assms in \<open>simp_all add: start_reader_def NewEntryReader_def Let_def\<close>)

lemma array_streams:
  assumes s: "skipSpace raw = CHR ''['' # y" and docs: "unmarshal_docs (TrimSpace raw) = Some docs"
  shows "read_all (NewEntryReader raw) = DecodeEntries raw"
proof -
  obtain w t where w: "spaces w" and t: "TrimSpace raw = CHR ''['' # t" "y = t @ w"
    using trimmed_bracket [OF s] by blast
  let ?d = "(NewEntryReader raw)\<lparr>er_started := True, er_input := y, er_array := True, er_first := True\<rparr>"
  obtain vs where vs: "parse (TrimSpace raw) = Some (JArr vs)" and docs': "docs = map fst (array_items t)"
    using docs t(1) by (auto simp: unmarshal_docs_def split: option.splits json.splits)
  then obtain n r where r: "read_value (Suc n) 0 (CHR ''['' # t) = Some (JArr vs, r)" "skip_ws r = []"
    using t(1) by (auto simp: parse_def simp del: read_value.simps split: option.splits if_splits)
  have sp: "skipSpace (r @ w) = []" using spaces_skip [OF spaces_append [OF ws_spaces [OF r(2)] w(1)]] .
  have dec: "DecodeEntries raw = some_entries (decode_docs ElementNotEntry True 0 docs)"
    using docs t(1) by (simp add: DecodeEntries_def)
  have ws: "skip_ws (CHR ''['' # t) = CHR ''['' # t" by (simp add: skip_ws_def)
  show ?thesis
  proof (cases "has_prefix '']'' (skip_ws t)")
    case True
    then have e: "docs = []" using docs' by (simp add: array_items_def)
    obtain p where p: "skip_ws t = CHR '']'' # p" using True by (cases "skip_ws t") (auto simp: has_prefix_def)
    then have "r = p" using r(1) ws True by (auto simp: max_nesting_def)
    have "skip_ws y = CHR '']'' # r @ w" using skip_ws_append [of t w] p t(2) \<open>r = p\<close> by simp
    then have "nextElement ?d = (Inl EndOfInput, ?d)" using sp by (simp add: nextElement_def)
    moreover have "er_started ?d" "er_array ?d" "er_err ?d = None" "er_entries ?d = 0" by (simp_all add: NewEntryReader_def)
    ultimately have "read_all ?d = Inl NoEntries" by (simp add: read_all.simps [of ?d] Next_started Let_def)
    then show ?thesis using array_start [OF s] dec e by (simp add: some_entries_def)
  next
    case False
    then have items: "read_items n (Suc 0) t = Some (vs, r)" using r(1) ws by (auto split: if_splits)
    obtain u where u: "t = u @ CHR '']'' # r" "\<And>z. read_items n (Suc 0) (u @ CHR '']'' # z) = Some (vs, z)"
      "\<And>z. item_texts (u @ CHR '']'' # z) = item_texts t"
      using items_here [OF items] by blast
    have y: "y = u @ CHR '']'' # r @ w" using t(2) u(1) by simp
    have docs2: "docs = map fst (item_texts t)" using docs' False by (simp add: array_items_def)
    have "docs \<noteq> []"
      using items docs2 by (cases n) (auto simp: item_texts.simps [of t] dest!: read_top_value split: option.splits)
    have "read_items n (Suc 0) y = Some (vs, r @ w)" "item_texts y = item_texts t" unfolding y using u(2,3) by simp_all
    from read_elements [OF this(1), of ?d] this(2) sp
    have "read_all ?d = (case decode_docs ElementNotEntry True 0 docs of Inl e \<Rightarrow> Inl e | Inr es \<Rightarrow> Inr es)"
      by (simp add: NewEntryReader_def docs2 split: sum.split)
    then show ?thesis using array_start [OF s] dec decode_docs_array [OF \<open>docs \<noteq> []\<close>]
      by (simp add: some_entries_def split: sum.splits)
  qed
qed

lemma stream_items:
  "read_all d = Inr es \<Longrightarrow> er_started d \<Longrightarrow> er_array d \<Longrightarrow> er_err d = None \<Longrightarrow>
     (if er_first d then er_input d = s \<and> \<not> has_prefix '']'' (skip_ws s) else skip_ws (er_input d) = CHR '','' # s) \<Longrightarrow>
     list_all (\<lambda>(_, v). nesting v < max_nesting) (item_texts s) \<Longrightarrow>
     \<exists>n vs r. read_items n (Suc 0) s = Some (vs, r) \<and> skipSpace r = []"
proof (induction s arbitrary: d es rule: measure_induct_rule [where f = length])
  case (less s)
  have nxt: "\<exists>e d'. nextElement d = (Inr e, d')"
  proof (rule ccontr)
    assume "\<nexists>e d'. nextElement d = (Inr e, d')"
    then obtain x where x: "nextElement d = (Inl x, d)"
      by (auto simp: nextElement_def Let_def split: list.splits if_splits option.splits sum.splits)
    moreover have "x \<noteq> EndOfInput"
      using x less.prems(5) by (auto simp: nextElement_def Let_def has_prefix_def split: list.splits if_splits option.splits sum.splits)
    ultimately show False using less.prems(1-4) by (simp add: read_all.simps [of d] Next_started Let_def)
  qed
  then obtain e d' where e: "nextElement d = (Inr e, d')" by blast
  obtain v q where v: "read_top s = Some (v, q)" "d' = d\<lparr>er_input := q, er_first := False\<rparr>"
    using e less.prems(5) read_top_ws [of s]
    by (auto simp: nextElement_def Let_def split: list.splits if_splits option.splits sum.splits)
  let ?N = "Suc (2 * length s)" and ?d = "d'\<lparr>er_entries := Suc (er_entries d')\<rparr>"
  have texts: "item_texts s = (raw_text s q, v) # (if has_prefix '','' (skip_ws q) then item_texts (tl (skip_ws q)) else [])"
    by (simp add: item_texts.simps [of s] v(1))
  have "nesting v < max_nesting" using less.prems(6) unfolding texts by simp
  then have val: "read_value ?N (Suc 0) s = Some (v, q)"
    using read_deeper(1) [OF v(1) [unfolded read_top_def], of "Suc 0"] by simp
  obtain fs where fs: "read_all ?d = Inr fs"
    using less.prems(1-4) e by (cases "read_all ?d") (simp_all add: read_all.simps [of d] Next_started)
  have d: "er_started ?d" "er_array ?d" "er_err ?d = None" "er_input ?d = q" "\<not> er_first ?d" using less.prems v(2) by simp_all
  obtain c p where c: "skip_ws q = c # p"
    using fs d by (cases "skip_ws q") (auto simp: read_all.simps [of ?d] Next_started nextElement_def Let_def)
  show ?case
  proof (cases "c = CHR '',''")
    case True
    have "length p < length s" using read_top_shorter [OF v(1)] length_skip_ws [of q] c by simp
    moreover have "list_all (\<lambda>(_, v). nesting v < max_nesting) (item_texts p)"
      using less.prems(6) c True unfolding texts by (simp add: has_prefix_def)
    ultimately obtain n vs r where r: "read_items n (Suc 0) p = Some (vs, r)" "skipSpace r = []"
      using less.IH [of p ?d fs] fs d c True by auto
    have "read_items (max n ?N) (Suc 0) p = Some (vs, r)" by (rule read_more(2) [OF r(1)]) simp_all
    moreover have "read_value (max n ?N) (Suc 0) s = Some (v, q)" by (rule read_more(1) [OF val]) simp_all
    ultimately have "read_items (Suc (max n ?N)) (Suc 0) s = Some (v # vs, r)" using c True by (simp del: read_value.simps)
    then show ?thesis using r(2) by blast
  next
    case False
    have "c = CHR '']'' \<and> skipSpace p = []"
      using fs d c False by (auto simp: read_all.simps [of ?d] Next_started nextElement_def Let_def split: if_splits)
    then have "read_items (Suc ?N) (Suc 0) s = Some ([v], p)" "skipSpace p = []" using val c by (simp_all del: read_value.simps)
    then show ?thesis by blast
  qed
qed

lemma stream_is_array:
  assumes s: "skipSpace raw = CHR ''['' # y" and es: "read_all (NewEntryReader raw) = Inr es"
    and shallow: "list_all (\<lambda>(_, v). nesting v < max_nesting) (array_items y)"
  shows "\<exists>docs. unmarshal_docs (TrimSpace raw) = Some docs"
proof -
  let ?d = "(NewEntryReader raw)\<lparr>er_started := True, er_input := y, er_array := True, er_first := True\<rparr>"
  have all: "read_all ?d = Inr es" using array_start [OF s] es by simp
  have no: "\<not> has_prefix '']'' (skip_ws y)"
  proof
    assume "has_prefix '']'' (skip_ws y)"
    then obtain p where "skip_ws y = CHR '']'' # p" by (cases "skip_ws y") (auto simp: has_prefix_def)
    then have "nextElement ?d = (Inl (if skipSpace p = [] then EndOfInput else NotAnArray), ?d)"
      by (simp add: nextElement_def)
    moreover have "er_started ?d" "er_array ?d" "er_err ?d = None" "er_entries ?d = 0" by (simp_all add: NewEntryReader_def)
    ultimately show False using all by (simp add: read_all.simps [of ?d] Next_started Let_def split: if_splits)
  qed
  have "list_all (\<lambda>(_, v). nesting v < max_nesting) (item_texts y)" using shallow no by (simp add: array_items_def)
  then obtain n vs r where r: "read_items n (Suc 0) y = Some (vs, r)" "skipSpace r = []"
    using stream_items [OF all] no by (auto simp: NewEntryReader_def)
  obtain u where u: "y = u @ CHR '']'' # r" "\<And>z. read_items n (Suc 0) (u @ CHR '']'' # z) = Some (vs, z)"
    using items_here [OF r(1)] by blast
  have "spaces r" using skipSpace_split [of r] r(2) by auto
  have t: "TrimSpace raw = CHR ''['' # u @ '']''"
    using trim_right_spaces [OF \<open>spaces r\<close>, of "CHR ''['' # u @ '']''"] trim_right_end(2) [of "CHR ''['' # u"]
    by (simp add: TrimSpace_def s u(1))
  have "read_value (Suc n) 0 (CHR ''['' # u @ '']'') = Some (JArr vs, [])"
    using u(2) [of "[]"] read_items_start [OF u(2) [of "[]"]] by (simp add: skip_ws_def max_nesting_def)
  from read_top_value [OF this] have "\<exists>r. read_top (TrimSpace raw) = Some (JArr vs, r) \<and> skip_ws r = []"
    unfolding t by (simp add: skip_ws_def)
  then have "parse (TrimSpace raw) = Some (JArr vs)" by (simp only: parse_read_top)
  then show ?thesis by (simp add: unmarshal_docs_def)
qed

text \<open>C35. Reading exported entries one at a time, to the end, yields the entries that reading the whole
  input yields and fails when that fails, for every input of arrays or lines, blank lines, Unicode
  white space around it and faults included; the reader ends on every input. The limits are those of
  \<open>within_limits\<close>: lines of at most \<open>MaxEntryLineBytes\<close>, elements nested one level less deep than
  the decoder's limit.\<close>

theorem entry_reader_streams:
  "within_limits raw \<Longrightarrow> read_all (NewEntryReader raw) = Inr es \<longleftrightarrow> DecodeEntries raw = Inr es"
proof -
  assume lim: "within_limits raw"
  show ?thesis
  proof (cases "skipSpace raw")
    case Nil
    then have "read_all (NewEntryReader raw) = Inl InputEmpty"
      by (simp add: read_all.simps Next_entry_def next_entry_def start_reader_def NewEntryReader_def Let_def)
    moreover have "DecodeEntries raw = Inl InputEmpty" using Nil by (simp add: DecodeEntries_def TrimSpace_def)
    ultimately show ?thesis by simp
  next
    case (Cons c y)
    show ?thesis
    proof (cases "c = CHR ''[''")
      case True
      with Cons have s: "skipSpace raw = CHR ''['' # y" by simp
      have "list_all (\<lambda>(_, v). nesting v < max_nesting) (array_items y)" using lim s by (simp add: within_limits_def)
      from stream_is_array [OF s _ this] array_streams [OF s]
      have "read_all (NewEntryReader raw) = Inr es \<Longrightarrow> DecodeEntries raw = Inr es" by fastforce
      moreover have "\<exists>docs. unmarshal_docs (TrimSpace raw) = Some docs" if "DecodeEntries raw = Inr es"
      proof -
        obtain w t where "TrimSpace raw = CHR ''['' # t" using trimmed_bracket [OF s] by blast
        then show ?thesis using that by (simp add: DecodeEntries_def Let_def split: option.splits)
      qed
      ultimately show ?thesis using array_streams [OF s] by fastforce
    next
      case False
      then show ?thesis using line_streams [OF Cons] lim Cons by (simp add: within_limits_def)
    qed
  qed
qed

definition sample_lines :: string where
  "sample_lines =
     [CHR 0x0A, CHR ''{'', CHR 0x22] @ ''entry_id'' @ [CHR 0x22, CHR '':'', CHR 0x22, CHR ''a'', CHR 0x22, CHR '','', CHR 0x22] @
     ''timestamp'' @ [CHR 0x22, CHR '':'', CHR 0x22, CHR ''t'', CHR 0x22, CHR '','', CHR 0x22] @
     ''content_hash'' @ [CHR 0x22, CHR '':'', CHR 0x22, CHR ''c'', CHR 0x22, CHR '','', CHR 0x22] @
     ''chain_hash'' @ [CHR 0x22, CHR '':'', CHR 0x22, CHR ''h'', CHR 0x22, CHR ''}'', CHR 0x0A, CHR '' '', CHR 0x0A]"

lemma entry_reader_streams_witness:
  "read_all (NewEntryReader sample_lines) =
     Inr [zero_ventry\<lparr>v_EntryID := ''a'', v_Timestamp := ''t'', v_ContentHash := ''c'', v_ChainHash := ''h''\<rparr>]"
proof (subst entry_reader_streams)
  have "skipSpace sample_lines = tl sample_lines" by code_simp
  moreover have "\<forall>l \<in> set (split_on (CHR 0x0A) (tl sample_lines)). length l < 100" by code_simp
  ultimately show "within_limits sample_lines"
    by (fastforce simp: within_limits_def sample_lines_def MaxEntryLineBytes_def list_all_iff)
  show "DecodeEntries sample_lines =
     Inr [zero_ventry\<lparr>v_EntryID := ''a'', v_Timestamp := ''t'', v_ContentHash := ''c'', v_ChainHash := ''h''\<rparr>]"
    by code_simp
qed

end
