(* ===== verification/Go_Path.thy ===== *)
theory Go_Path
  imports Prelude
begin

section \<open>Paths: packages \<open>path\<close> and \<open>path/filepath\<close> on Unix\<close>

text \<open>
  \<open>Clean\<close>, \<open>Join\<close> and \<open>Rel\<close> on the elements between slashes. What is shown: cleaning keeps a path of plain
  names as it is, and such a path, joined to a directory, is again the way from the directory to it.
\<close>

abbreviation slash :: char where "slash \<equiv> CHR ''/''"

fun join_path :: "string list \<Rightarrow> string" where
  "join_path [] = []"
| "join_path [c] = c"
| "join_path (c # cs) = c @ slash # join_path cs"

fun clean_elems :: "bool \<Rightarrow> string list \<Rightarrow> string list \<Rightarrow> string list" where
  "clean_elems rooted acc [] = rev acc"
| "clean_elems rooted acc (c # cs) =
     (if c = [] \<or> c = ''.'' then clean_elems rooted acc cs
      else if c = ''..'' then
        (if acc \<noteq> [] \<and> hd acc \<noteq> ''..'' then clean_elems rooted (tl acc) cs
         else if rooted then clean_elems rooted acc cs
         else clean_elems rooted (c # acc) cs)
      else clean_elems rooted (c # acc) cs)"

definition is_rooted :: "string \<Rightarrow> bool" where
  "is_rooted p \<longleftrightarrow> has_prefix [slash] p"

definition Clean :: "string \<Rightarrow> string" where
  "Clean p =
     (let body = join_path (clean_elems (is_rooted p) [] (split_on slash p)) in
      if is_rooted p then slash # body else if body = [] then ''.'' else body)"

definition Join2 :: "string \<Rightarrow> string \<Rightarrow> string" where
  "Join2 a b = (if a = [] then (if b = [] then [] else Clean b) else if b = [] then Clean a else Clean (a @ slash # b))"

text \<open>\<open>Rel\<close>: the elements the two cleaned paths do not share.\<close>

definition elems :: "string \<Rightarrow> string list" where
  "elems s = (if s = [] then [] else if s = [slash] then [[]] else split_on slash s)"

fun strip_common :: "string list \<Rightarrow> string list \<Rightarrow> string list \<times> string list" where
  "strip_common (b # bs) (t # ts) = (if b = t then strip_common bs ts else (b # bs, t # ts))"
| "strip_common bs ts = (bs, ts)"

definition Rel :: "string \<Rightarrow> string \<Rightarrow> string option" where
  "Rel basepath targpath =
     (let b = Clean basepath; t = Clean targpath in
      if t = b then Some ''.''
      else
        (let base = (if b = ''.'' then [] else b) in
         if is_rooted base \<noteq> is_rooted t then None
         else case strip_common (elems base) (elems t) of
           (bs, ts) \<Rightarrow>
             if bs \<noteq> [] \<and> ts \<noteq> [] \<and> hd bs = ''..'' then None
             else Some (join_path (replicate (length bs) ''..'' @ ts))))"

subsection \<open>Plain names\<close>

definition plain_name :: "string \<Rightarrow> bool" where
  "plain_name c \<longleftrightarrow> c \<noteq> [] \<and> c \<noteq> ''.'' \<and> c \<noteq> ''..'' \<and> slash \<notin> set c"

lemma split_join: "cs \<noteq> [] \<Longrightarrow> list_all (\<lambda>c. slash \<notin> set c) cs \<Longrightarrow> split_on slash (join_path cs) = cs"
  by (induction cs rule: join_path.induct) (simp_all add: split_on_append_sep)

lemma join_split: "join_path (split_on slash s) = s"
proof (induction s)
  case (Cons x s)
  obtain p ps where "split_on slash s = p # ps" by (cases "split_on slash s") auto
  with Cons show ?case by (cases ps) auto
qed simp

lemma clean_append_plain: "list_all plain_name cs \<Longrightarrow> clean_elems r acc (bs @ cs) = clean_elems r acc bs @ cs"
proof -
  assume a: "list_all plain_name cs"
  have plain: "clean_elems r acc cs = rev acc @ cs" for r acc
    using a by (induction cs arbitrary: acc) (simp_all add: plain_name_def)
  show "clean_elems r acc (bs @ cs) = clean_elems r acc bs @ cs"
    by (induction r acc bs rule: clean_elems.induct) (auto simp: plain)
qed

lemma clean_plain: "list_all plain_name cs \<Longrightarrow> clean_elems r [] cs = cs"
  using clean_append_plain [of cs r "[]" "[]"] by simp

lemma join_not_rooted: "cs \<noteq> [] \<Longrightarrow> list_all plain_name cs \<Longrightarrow> \<not> is_rooted (join_path cs) \<and> join_path cs \<noteq> []"
  by (cases cs rule: join_path.cases; cases "hd cs") (auto simp: plain_name_def is_rooted_def has_prefix_def)

lemma plain_no_slash: "list_all plain_name cs \<Longrightarrow> list_all (\<lambda>c. slash \<notin> set c) cs"
  by (auto simp: list_all_iff plain_name_def)

lemma Clean_plain:
  assumes "cs \<noteq> []" "list_all plain_name cs"
  shows "Clean (join_path cs) = join_path cs"
  using join_not_rooted [OF assms] split_join [OF assms(1) plain_no_slash [OF assms(2)]] clean_plain [OF assms(2)]
  by (simp add: Clean_def)

subsection \<open>A plain path below a directory\<close>

text \<open>What cleaning leaves of the elements: names, and in a relative path dots at the front.\<close>

definition clean_form :: "bool \<Rightarrow> string list \<Rightarrow> bool" where
  "clean_form r bs \<longleftrightarrow> (\<exists>k ns. bs = replicate k ''..'' @ ns \<and> list_all plain_name ns \<and> (r \<longrightarrow> k = 0))"

lemma clean_elems_form:
  "clean_form r (rev acc) \<Longrightarrow> list_all (\<lambda>c. slash \<notin> set c) cs \<Longrightarrow> clean_form r (clean_elems r acc cs)"
proof (induction r acc cs rule: clean_elems.induct)
  case (2 r acc c cs)
  obtain k ns where ns: "rev acc = replicate k ''..'' @ ns" "list_all plain_name ns" "r \<longrightarrow> k = 0"
    using "2.prems"(1) by (auto simp: clean_form_def)
  have acc: "acc = rev ns @ replicate k ''..''" using arg_cong [OF ns(1), of rev] by simp
  show ?case
  proof (cases "c = [] \<or> c = ''.''")
    case True
    then show ?thesis using 2 by simp
  next
    case c: False
    show ?thesis
    proof (cases "c = ''..''")
      case False
      then have "plain_name c" using c "2.prems"(2) by (simp add: plain_name_def)
      then have "clean_form r (rev (c # acc))"
        using ns unfolding clean_form_def by (intro exI [of _ k] exI [of _ "ns @ [c]"]) simp
      then show ?thesis using 2 c False by simp
    next
      case up: True
      show ?thesis
      proof (cases "acc \<noteq> [] \<and> hd acc \<noteq> ''..''")
        case True
        then obtain m ms where m: "rev ns = m # ms" using acc by (cases "rev ns"; cases k) auto
        then have "ns = rev ms @ [m]" by (metis rev_rev_ident rev.simps(2))
        moreover have "rev (tl acc) = replicate k ''..'' @ rev ms" using acc m by simp
        ultimately have "clean_form r (rev (tl acc))"
          using ns(2,3) unfolding clean_form_def by (intro exI [of _ k] exI [of _ "rev ms"]) simp
        then show ?thesis using 2 c up True by simp
      next
        case False
        have "ns = []"
        proof (rule ccontr)
          assume "ns \<noteq> []"
          then obtain m ms where m: "rev ns = m # ms" by (cases "rev ns") auto
          then have "m \<in> set ns" by (metis list.set_intros(1) set_rev)
          then have "plain_name m" using ns(2) by (simp add: list_all_iff)
          then show False using False acc m by (simp add: plain_name_def)
        qed
        then have "\<not> r \<Longrightarrow> clean_form r (rev (c # acc))"
          using ns(1) up unfolding clean_form_def
          by (intro exI [of _ "Suc k"] exI [of _ "[]"]) (simp add: replicate_append_same)
        then show ?thesis using 2 c up False by auto
      qed
    qed
  qed
qed simp

lemma clean_form_elems: "clean_form r bs \<Longrightarrow> clean_elems r [] bs = bs"
proof -
  assume "clean_form r bs"
  then obtain k ns where ns: "bs = replicate k ''..'' @ ns" "list_all plain_name ns" "r \<longrightarrow> k = 0"
    by (auto simp: clean_form_def)
  have "clean_elems False (replicate i ''..'') (replicate j ''..'') = replicate (i + j) ''..''" for i j
  proof (induction j arbitrary: i)
    case (Suc j)
    have "replicate i ''..'' = [] \<or> hd (replicate i ''..'') = ''..''" by (cases i) simp_all
    then show ?case using Suc.IH [of "Suc i"] by auto
  qed simp
  from this [of 0 k] have "clean_elems r [] (replicate k ''..'') = replicate k ''..''" using ns(3) by (cases r) simp_all
  then show ?thesis unfolding ns(1) clean_append_plain [OF ns(2)] by simp
qed

lemma clean_form_simps:
  assumes "clean_form r bs"
  shows "list_all (\<lambda>c. c \<noteq> [] \<and> slash \<notin> set c) bs" "''.'' \<notin> set bs" "list_all plain_name cs \<Longrightarrow> clean_form r (bs @ cs)"
proof -
  obtain k ns where ns: "bs = replicate k ''..'' @ ns" "list_all plain_name ns" "r \<longrightarrow> k = 0"
    using assms by (auto simp: clean_form_def)
  have dots: "list_all (\<lambda>c. c = ''..'') (replicate k ''..'')" by (simp add: list_all_iff)
  have each: "c = ''..'' \<or> plain_name c" if "c \<in> set bs" for c using that ns(1,2) dots by (auto simp: list_all_iff)
  show "list_all (\<lambda>c. c \<noteq> [] \<and> slash \<notin> set c) bs"
    unfolding list_all_iff using each by (fastforce simp: plain_name_def)
  show "''.'' \<notin> set bs" using each [of "''.''"] by (auto simp: plain_name_def)
  show "list_all plain_name cs \<Longrightarrow> clean_form r (bs @ cs)"
    using ns unfolding clean_form_def by (intro exI [of _ k] exI [of _ "ns @ cs"]) simp
qed

lemma split_no_slash: "list_all (\<lambda>c. slash \<notin> set c) (split_on slash s)"
proof (induction s)
  case (Cons x s)
  obtain p ps where "split_on slash s = p # ps" by (cases "split_on slash s") auto
  with Cons show ?case by auto
qed simp

lemma strip_common_append: "strip_common bs (bs @ ts) = ([], ts)"
  by (induction bs) (cases ts; simp)+

lemma join_path_append: "bs \<noteq> [] \<Longrightarrow> cs \<noteq> [] \<Longrightarrow> join_path (bs @ cs) = join_path bs @ slash # join_path cs"
  by (induction bs rule: join_path.induct) (simp_all, cases cs, simp_all)

lemma split_append_slash: "split_on slash (a @ slash # b) = split_on slash a @ split_on slash b"
proof (induction a)
  case (Cons x a)
  obtain p ps where "split_on slash a = p # ps" by (cases "split_on slash a") auto
  with Cons show ?case by auto
qed simp

lemma join_Nil_iff: "list_all (\<lambda>c. c \<noteq> [] \<and> slash \<notin> set c) bs \<Longrightarrow> join_path bs = [] \<longleftrightarrow> bs = []"
  by (cases bs rule: join_path.cases) auto

lemma join_rooted: "list_all (\<lambda>c. c \<noteq> [] \<and> slash \<notin> set c) bs \<Longrightarrow> \<not> is_rooted (join_path bs)"
  by (cases bs rule: join_path.cases; cases "hd bs") (auto simp: is_rooted_def has_prefix_def)

lemma join_inject:
  "list_all (\<lambda>c. c \<noteq> [] \<and> slash \<notin> set c) bs \<Longrightarrow> list_all (\<lambda>c. c \<noteq> [] \<and> slash \<notin> set c) cs \<Longrightarrow>
     join_path bs = join_path cs \<Longrightarrow> bs = cs"
proof -
  assume a: "list_all (\<lambda>c. c \<noteq> [] \<and> slash \<notin> set c) bs" "list_all (\<lambda>c. c \<noteq> [] \<and> slash \<notin> set c) cs" "join_path bs = join_path cs"
  have "list_all (\<lambda>c. slash \<notin> set c) bs" "list_all (\<lambda>c. slash \<notin> set c) cs" using a(1,2) by (simp_all add: list_all_iff)
  then show ?thesis using a join_Nil_iff split_join by metis
qed

lemma elems_join: "list_all (\<lambda>c. c \<noteq> [] \<and> slash \<notin> set c) bs \<Longrightarrow> elems (join_path bs) = bs"
proof -
  assume a: "list_all (\<lambda>c. c \<noteq> [] \<and> slash \<notin> set c) bs"
  then have "list_all (\<lambda>c. slash \<notin> set c) bs" by (simp add: list_all_iff)
  moreover have "join_path bs \<noteq> [slash]" using join_rooted [OF a] by (auto simp: is_rooted_def has_prefix_def)
  ultimately show ?thesis using a join_Nil_iff split_join by (auto simp: elems_def)
qed

lemma elems_rooted: "list_all (\<lambda>c. c \<noteq> [] \<and> slash \<notin> set c) bs \<Longrightarrow> elems (slash # join_path bs) = [] # bs"
proof -
  assume a: "list_all (\<lambda>c. c \<noteq> [] \<and> slash \<notin> set c) bs"
  then have "list_all (\<lambda>c. slash \<notin> set c) bs" by (simp add: list_all_iff)
  then show ?thesis using a join_Nil_iff split_join by (cases "bs = []") (auto simp: elems_def)
qed

lemma Clean_form:
  assumes "clean_form r bs"
  shows "Clean (if r then slash # join_path bs else if bs = [] then ''.'' else join_path bs) =
    (if r then slash # join_path bs else if bs = [] then ''.'' else join_path bs)"
proof -
  note ok = clean_form_simps(1) [OF assms]
  have sl: "bs \<noteq> [] \<Longrightarrow> split_on slash (join_path bs) = bs" using split_join ok by (auto simp: list_all_iff)
  show ?thesis
  proof (cases r)
    case True
    have "is_rooted (slash # join_path bs)" by (simp add: is_rooted_def has_prefix_def)
    moreover have "clean_elems True [] ([] # split_on slash (join_path bs)) = bs"
      using clean_form_elems [OF assms] True sl by (cases "bs = []") auto
    ultimately show ?thesis using True by (simp add: Clean_def)
  next
    case False
    show ?thesis
    proof (cases "bs = []")
      case True
      then show ?thesis using False by (simp add: Clean_def is_rooted_def has_prefix_def)
    next
      case ne: False
      then show ?thesis using False join_rooted [OF ok] join_Nil_iff [OF ok] sl clean_form_elems [OF assms] by (simp add: Clean_def)
    qed
  qed
qed

lemma Rel_Join:
  assumes cs: "cs \<noteq> []" "list_all plain_name cs"
  shows "Rel d (Join2 d (join_path cs)) = Some (join_path cs)"
proof -
  let ?ok = "list_all (\<lambda>c. c \<noteq> [] \<and> slash \<notin> set c)"
  define bs where "bs = clean_elems (is_rooted d) [] (split_on slash d)"
  have form: "clean_form (is_rooted d) bs"
    unfolding bs_def by (rule clean_elems_form) (simp_all add: split_no_slash clean_form_def)
  have form2: "clean_form (is_rooted d) (bs @ cs)" by (rule clean_form_simps(3) [OF form cs(2)])
  note okb = clean_form_simps(1) [OF form] and ok = clean_form_simps(1) [OF form2]
  have p: "\<not> is_rooted (join_path cs)" "join_path cs \<noteq> []" using join_not_rooted [OF cs] by simp_all
  have b: "Clean d = (if is_rooted d then slash # join_path bs else if bs = [] then ''.'' else join_path bs)"
    by (simp add: Clean_def bs_def [symmetric] Let_def join_Nil_iff [OF okb])
  have join: "Join2 d (join_path cs) = (if is_rooted d then slash # join_path (bs @ cs) else join_path (bs @ cs))"
  proof (cases "d = []")
    case True
    then have "bs = []" "\<not> is_rooted d" by (simp_all add: bs_def is_rooted_def has_prefix_def)
    then show ?thesis using True p(2) Clean_plain [OF cs] by (simp add: Join2_def)
  next
    case False
    have sl: "split_on slash (join_path cs) = cs" by (rule split_join [OF cs(1) plain_no_slash [OF cs(2)]])
    have "is_rooted (d @ slash # join_path cs) = is_rooted d" using False by (cases d) (simp_all add: is_rooted_def has_prefix_def)
    then have "Clean (d @ slash # join_path cs) = (if is_rooted d then slash # join_path (bs @ cs) else join_path (bs @ cs))"
      using join_Nil_iff [OF ok] cs(1)
      by (cases "is_rooted d") (simp_all add: Clean_def split_append_slash sl clean_append_plain [OF cs(2)] bs_def Let_def)
    then show ?thesis using False p(2) by (simp add: Join2_def)
  qed
  have cl: "Clean (Join2 d (join_path cs)) = Join2 d (join_path cs)"
    using Clean_form [OF form2] join cs(1) by (simp split: if_splits)
  have okd: "?ok [''.'']" by simp
  have nodot: "join_path (bs @ cs) \<noteq> ''.''"
    using join_inject [OF ok okd] clean_form_simps(2) [OF form2] by (metis join_path.simps(2) list.set_intros(1))
  have nodot': "bs \<noteq> [] \<Longrightarrow> join_path bs \<noteq> ''.''"
    using join_inject [OF okb okd] clean_form_simps(2) [OF form] by (metis join_path.simps(2) list.set_intros(1))
  have same: "join_path (bs @ cs) = join_path bs \<Longrightarrow> False" using join_inject [OF ok okb] cs(1) by simp
  have rooted: "\<not> is_rooted (join_path bs)" "\<not> is_rooted (join_path (bs @ cs))" "is_rooted (slash # z)" "\<not> is_rooted []" for z
    using join_rooted [OF okb] join_rooted [OF ok] by (simp_all add: is_rooted_def has_prefix_def)
  show ?thesis
  proof (cases "is_rooted d")
    case True
    then show ?thesis unfolding Rel_def cl unfolding join b
      using same rooted(3) elems_rooted [OF okb] elems_rooted [OF ok] strip_common_append [of "[] # bs" cs]
      by (auto simp: Let_def)
  next
    case False
    show ?thesis
    proof (cases "bs = []")
      case True
      then show ?thesis unfolding Rel_def cl unfolding join b using False nodot rooted(2,4) elems_join [OF ok] cs(1)
        by (cases cs) (simp_all add: Let_def elems_def [of "[]"])
    next
      case ne: False
      then show ?thesis unfolding Rel_def cl unfolding join b
        using False same nodot' rooted(1,2) elems_join [OF okb] elems_join [OF ok] strip_common_append [of bs cs]
        by (auto simp: Let_def)
    qed
  qed
qed

end
