(* ===== verification/Bundle.thy ===== *)
theory Bundle
  imports Sha512 Go_Path "HOL-Library.Multiset"
begin

section \<open>Bundles of files: package \<open>bundle\<close>\<close>

text \<open>
  A bundle is a directory of files and a manifest of their paths and digests. \<open>ManifestRoot\<close>
  (\<open>manifest.go\<close>) hashes the manifest in the order of its paths; \<open>VerifyDir\<close> (\<open>verify.go\<close>) compares a
  directory with it. The directory is a tree of names; how the file system compares two names is a
  parameter \<open>same\<close>, the function that maps names it takes for one to one, so that the check of the name
  on disk has something to do. The tree stays as it is while it is read, and reading it does not fail.

  What is shown: a manifest root pins every path and digest, a directory is intact exactly when it
  holds the listed files and no others, and two intact directories with one root hold the same files.
\<close>

subsection \<open>The manifest\<close>

record file_entry =
  fe_Path :: string
  fe_SHA512 :: string
  fe_Kind :: string
  fe_Bytes :: int
  fe_RowCount :: "int option"

datatype manifest_error =
    FileCountOverflow nat | RepeatedPath string | DigestShape nat string | DigestDecode nat string | PathOverflow nat

definition ManifestRootDomain :: string where "ManifestRootDomain = ''aleutian.compliance_bundle.v2:''"
definition MaxUint32 :: nat where "MaxUint32 = 2 ^ 32 - 1"

fun manifest_bytes :: "nat \<Rightarrow> string option \<Rightarrow> file_entry list \<Rightarrow> manifest_error + bytes" where
  "manifest_bytes i prev [] = Inr []"
| "manifest_bytes i prev (f # fs) =
     (if prev = Some (fe_Path f) then Inl (RepeatedPath (fe_Path f))
      else if \<not> is_hex128 (fe_SHA512 f) then Inl (DigestShape i (fe_Path f))
      else case hex_decode (fe_SHA512 f) of
        None \<Rightarrow> Inl (DigestDecode i (fe_Path f))
      | Some raw \<Rightarrow>
          if length raw \<noteq> 64 then Inl (DigestDecode i (fe_Path f))
          else if MaxUint32 < length (fe_Path f) then Inl (PathOverflow i)
          else map_sum id (\<lambda>rest. be_bytes 4 (length (fe_Path f)) @ fe_Path f @ be_bytes 4 64 @ raw @ rest)
                 (manifest_bytes (Suc i) (Some (fe_Path f)) fs))"

definition manifest_preimage :: "file_entry list \<Rightarrow> manifest_error + bytes" where
  "manifest_preimage files =
     (if MaxUint32 < length files then Inl (FileCountOverflow (length files))
      else map_sum id (\<lambda>b. ManifestRootDomain @ be_bytes 4 (length files) @ b)
             (manifest_bytes 0 None (sort_key fe_Path files)))"

definition ManifestRoot :: "file_entry list \<Rightarrow> manifest_error + string" where
  "ManifestRoot files = map_sum id hex_sha512 (manifest_preimage files)"

abbreviation listed :: "file_entry \<Rightarrow> string \<times> string" where
  "listed f \<equiv> (fe_Path f, fe_SHA512 f)"

subsection \<open>What a manifest root pins\<close>

lemma unhex_lower:
  assumes "is_lower_hex c"
  obtains n where "unhex c = Some n" "n < 16" "(of_char c :: nat) = (if n < 10 then n + 48 else n + 87)"
proof -
  have "48 \<le> (of_char c :: nat) \<and> (of_char c :: nat) \<le> 57 \<or> 97 \<le> (of_char c :: nat) \<and> (of_char c :: nat) \<le> 102"
    using assms by (simp add: is_lower_hex_def less_eq_char_def)
  then show ?thesis
  proof
    assume "48 \<le> (of_char c :: nat) \<and> (of_char c :: nat) \<le> 57"
    then show ?thesis by (intro that [of "of_char c - 48"]) (auto simp: unhex_def less_eq_char_def)
  next
    assume "97 \<le> (of_char c :: nat) \<and> (of_char c :: nat) \<le> 102"
    then show ?thesis by (intro that [of "of_char c - 87"]) (auto simp: unhex_def less_eq_char_def)
  qed
qed

lemma unhex_inject: "is_lower_hex a \<Longrightarrow> is_lower_hex b \<Longrightarrow> unhex a = unhex b \<Longrightarrow> a = b"
  by (elim unhex_lower) (metis of_char_eq_iff option.inject)

lemma hex_decode_lower:
  "list_all is_lower_hex s \<Longrightarrow> even (length s) \<Longrightarrow> \<exists>b. hex_decode s = Some b \<and> 2 * length b = length s"
proof (induction s rule: hex_decode.induct)
  case (3 x y cs)
  from "3.prems" obtain h l where hl: "unhex x = Some h" "unhex y = Some l" by (auto elim!: unhex_lower)
  have "\<exists>b. hex_decode cs = Some b \<and> 2 * length b = length cs"
    by (rule "3.IH") (use hl "3.prems" in auto)
  then show ?case using hl by auto
qed simp_all

lemma hex_decode_inject:
  "list_all is_lower_hex s \<Longrightarrow> list_all is_lower_hex t \<Longrightarrow> hex_decode s = Some b \<Longrightarrow> hex_decode t = Some b \<Longrightarrow> s = t"
proof (induction s arbitrary: t b rule: hex_decode.induct)
  case 1
  then show ?case by (cases t rule: hex_decode.cases) (auto split: option.splits)
next
  case (3 x y cs)
  from "3.prems" obtain h l bs where b: "unhex x = Some h" "unhex y = Some l" "hex_decode cs = Some bs" "b = char_of (16 * h + l) # bs"
    by (auto split: option.splits)
  obtain x' y' ct where t: "t = x' # y' # ct" using "3.prems" b(4) by (cases t rule: hex_decode.cases) auto
  from "3.prems" t b(4) obtain h' l' where b': "unhex x' = Some h'" "unhex y' = Some l'" "hex_decode ct = Some bs"
      "char_of (16 * h + l) = (char_of (16 * h' + l') :: char)"
    by (auto split: option.splits)
  have lower: "is_lower_hex x" "is_lower_hex y" "is_lower_hex x'" "is_lower_hex y'" using "3.prems" t by auto
  have "h < 16" "l < 16" "h' < 16" "l' < 16"
    using lower b(1,2) b'(1,2) by (auto elim!: unhex_lower)
  then have "16 * h + l < 256" "16 * h' + l' < 256" by simp_all
  then have "16 * h + l = 16 * h' + l'" using arg_cong [OF b'(4), of "of_char :: char \<Rightarrow> nat"] by (simp only: of_char_of mod_less)
  moreover have "(16 * h + l) div 16 = h" "(16 * h' + l') div 16 = h'" using \<open>l < 16\<close> \<open>l' < 16\<close> by simp_all
  ultimately have "h = h'" "l = l'" by simp_all
  then have "x = x'" "y = y'" using unhex_inject lower b(1,2) b'(1,2) by simp_all
  moreover have "cs = ct" by (rule "3.IH" [of "Some h" "Some l" h l ct bs]) (use b b'(3) "3.prems" t in auto)
  ultimately show ?case using t by simp
qed simp

lemma manifest_bytes_Cons:
  assumes "manifest_bytes i prev (f # fs) = Inr b"
  obtains raw rest where "is_hex128 (fe_SHA512 f)" "hex_decode (fe_SHA512 f) = Some raw" "length raw = 64"
    "length (fe_Path f) \<le> MaxUint32" "manifest_bytes (Suc i) (Some (fe_Path f)) fs = Inr rest"
    "b = be_bytes 4 (length (fe_Path f)) @ fe_Path f @ be_bytes 4 64 @ raw @ rest" "prev \<noteq> Some (fe_Path f)"
  using assms
  by (cases "manifest_bytes (Suc i) (Some (fe_Path f)) fs") (auto split: if_splits option.splits)

lemma max_uint32: "n \<le> MaxUint32 \<Longrightarrow> n < 256 ^ 4"
  by (simp add: MaxUint32_def)

lemma manifest_bytes_inject:
  "manifest_bytes i p fs = Inr b \<Longrightarrow> manifest_bytes j q gs = Inr b \<Longrightarrow> length fs = length gs \<Longrightarrow> map listed fs = map listed gs"
proof (induction fs arbitrary: gs i j p q b)
  case (Cons f fs)
  then obtain g gs' where gs: "gs = g # gs'" by (cases gs) auto
  from Cons.prems(1) obtain raw rest where f: "is_hex128 (fe_SHA512 f)" "hex_decode (fe_SHA512 f) = Some raw" "length raw = 64"
    "length (fe_Path f) \<le> MaxUint32" "manifest_bytes (Suc i) (Some (fe_Path f)) fs = Inr rest"
    "b = be_bytes 4 (length (fe_Path f)) @ fe_Path f @ be_bytes 4 64 @ raw @ rest"
    by (rule manifest_bytes_Cons)
  from Cons.prems(2) [unfolded gs] obtain raw' rest' where g: "is_hex128 (fe_SHA512 g)" "hex_decode (fe_SHA512 g) = Some raw'"
    "length raw' = 64" "length (fe_Path g) \<le> MaxUint32" "manifest_bytes (Suc j) (Some (fe_Path g)) gs' = Inr rest'"
    "b = be_bytes 4 (length (fe_Path g)) @ fe_Path g @ be_bytes 4 64 @ raw' @ rest'"
    by (rule manifest_bytes_Cons)
  have "be_bytes 4 (length (fe_Path f)) = be_bytes 4 (length (fe_Path g))"
    and rest: "fe_Path f @ be_bytes 4 64 @ raw @ rest = fe_Path g @ be_bytes 4 64 @ raw' @ rest'"
    using f(6) g(6) by (simp_all add: append_eq_append_conv)
  then have "length (fe_Path f) = length (fe_Path g)"
    using be_bytes_inject [OF max_uint32 [OF f(4)] max_uint32 [OF g(4)]] by simp
  then have eq: "fe_Path f = fe_Path g" "raw = raw'" "rest = rest'" using rest f(3) g(3) by (auto simp: append_eq_append_conv)
  have "fe_SHA512 f = fe_SHA512 g"
    using hex_decode_inject f(1,2) g(1,2) eq(2) by (auto simp: is_hex128_def)
  moreover have "map listed fs = map listed gs'"
    using Cons.IH [OF f(5) g(5) [folded eq(3)]] Cons.prems(3) gs by simp
  ultimately show ?case using gs eq(1) by simp
qed simp

lemma manifest_pins:
  assumes "ManifestRoot fs = Inr r" and "ManifestRoot gs = Inr r"
  shows "mset (map listed fs) = mset (map listed gs) \<or>
    (\<exists>x y. manifest_preimage fs = Inr x \<and> manifest_preimage gs = Inr y \<and> collision x y)"
proof -
  obtain x y where xy: "manifest_preimage fs = Inr x" "manifest_preimage gs = Inr y" "hex_sha512 x = hex_sha512 y"
    using assms by (cases "manifest_preimage fs"; cases "manifest_preimage gs") (auto simp: ManifestRoot_def)
  have "mset (map listed fs) = mset (map listed gs)" if "x = y"
  proof -
    obtain a where a: "manifest_bytes 0 None (sort_key fe_Path fs) = Inr a" "x = ManifestRootDomain @ be_bytes 4 (length fs) @ a"
        "length fs \<le> MaxUint32"
      using xy(1) by (cases "manifest_bytes 0 None (sort_key fe_Path fs)") (auto simp: manifest_preimage_def split: if_splits)
    obtain b where b: "manifest_bytes 0 None (sort_key fe_Path gs) = Inr b" "y = ManifestRootDomain @ be_bytes 4 (length gs) @ b"
        "length gs \<le> MaxUint32"
      using xy(2) by (cases "manifest_bytes 0 None (sort_key fe_Path gs)") (auto simp: manifest_preimage_def split: if_splits)
    have "be_bytes 4 (length fs) = be_bytes 4 (length gs)" "a = b"
      using that a(2) b(2) by (simp_all add: append_eq_append_conv)
    then have "length fs = length gs" using be_bytes_inject [OF max_uint32 [OF a(3)] max_uint32 [OF b(3)]] by simp
    then have "map listed (sort_key fe_Path fs) = map listed (sort_key fe_Path gs)"
      using manifest_bytes_inject [OF a(1) b(1) [folded \<open>a = b\<close>]] by simp
    then have "mset (map listed (sort_key fe_Path fs)) = mset (map listed (sort_key fe_Path gs))" by (rule arg_cong)
    then show ?thesis by simp
  qed
  then show ?thesis using xy hex_sha512_eqD by blast
qed

text \<open>A manifest with a root lists no path twice.\<close>

lemma manifest_bytes_distinct:
  "manifest_bytes i prev fs = Inr b \<Longrightarrow> sorted (map fe_Path fs) \<Longrightarrow> (\<forall>p. prev = Some p \<longrightarrow> (\<forall>f \<in> set fs. p \<le> fe_Path f)) \<Longrightarrow>
     distinct (map fe_Path fs) \<and> (\<forall>p. prev = Some p \<longrightarrow> p \<notin> fe_Path ` set fs)"
proof (induction fs arbitrary: i prev b)
  case (Cons f fs)
  from Cons.prems(1) obtain raw rest where f: "manifest_bytes (Suc i) (Some (fe_Path f)) fs = Inr rest" "prev \<noteq> Some (fe_Path f)"
    by (rule manifest_bytes_Cons)
  have "distinct (map fe_Path fs) \<and> fe_Path f \<notin> fe_Path ` set fs"
    using Cons.IH [OF f(1)] Cons.prems(2) by auto
  moreover have "p \<notin> fe_Path ` set (f # fs)" if "prev = Some p" for p
  proof -
    have "p \<le> fe_Path f" "p \<noteq> fe_Path f" using that Cons.prems(3) f(2) by auto
    then show ?thesis using Cons.prems(2) by fastforce
  qed
  ultimately show ?case by auto
qed simp

lemma root_distinct: "ManifestRoot fs = Inr r \<Longrightarrow> distinct (map fe_Path fs)"
proof -
  assume "ManifestRoot fs = Inr r"
  then obtain b where "manifest_bytes 0 None (sort_key fe_Path fs) = Inr b"
    by (cases "manifest_bytes 0 None (sort_key fe_Path fs)") (auto simp: ManifestRoot_def manifest_preimage_def split: if_splits)
  then have "distinct (map fe_Path (sort_key fe_Path fs))" using manifest_bytes_distinct by fastforce
  then show ?thesis by (metis distinct_map mset_eq_imp_distinct_iff mset_map mset_sort)
qed

subsection \<open>Directories\<close>

datatype node = Regular bytes | is_Folder: Folder "(string \<times> node) list" | Special

text \<open>\<open>filesOnDisk\<close>: the paths of everything that is not a directory.\<close>

fun disk_paths :: "node \<Rightarrow> string list list" where
  "disk_paths (Folder es) = concat (map (\<lambda>(name, v). map ((#) name) (disk_paths v)) es)"
| "disk_paths v = [[]]"

definition filesOnDisk :: "node \<Rightarrow> string list" where
  "filesOnDisk tree = map join_path (disk_paths tree)"

definition unlistedFiles :: "string list \<Rightarrow> string list \<Rightarrow> string list" where
  "unlistedFiles onDisk names = sort (remdups (filter (\<lambda>p. p \<notin> set names) onDisk))"

text \<open>\<open>Root.Lstat\<close>, with the file system's own idea of equal names.\<close>

fun lstat :: "(string \<Rightarrow> string) \<Rightarrow> node \<Rightarrow> string list \<Rightarrow> node option" where
  "lstat same v [] = Some v"
| "lstat same (Folder es) (c # cs) =
     (case find (\<lambda>(name, v). same name = same c) es of None \<Rightarrow> None | Some (name, v) \<Rightarrow> lstat same v cs)"
| "lstat same v (c # cs) = None"

datatype file_error = NotExist | ParentNotFolder | NotRegular | TooBig nat int

definition hashRegularFile :: "(string \<Rightarrow> string) \<Rightarrow> node \<Rightarrow> string \<Rightarrow> int \<Rightarrow> file_error + string" where
  "hashRegularFile same root rel limit =
     (let parts = split_on slash rel in
      case first_error (map (\<lambda>i. case lstat same root (take (Suc i) parts) of
              None \<Rightarrow> Some NotExist | Some (Folder _) \<Rightarrow> None | Some _ \<Rightarrow> Some ParentNotFolder) [0..<length parts - 1]) of
        Some e \<Rightarrow> Inl e
      | None \<Rightarrow>
          (case lstat same root parts of
             None \<Rightarrow> Inl NotExist
           | Some (Regular b) \<Rightarrow> if limit < int (length b) then Inl (TooBig (length b) limit) else Inr (hex_sha512 b)
           | Some _ \<Rightarrow> Inl NotRegular))"

datatype path_error = PathEmpty | PathNul | PathAbsolute | PathNotClean | PathNoRel | PathEscapes

definition safePath :: "string \<Rightarrow> string \<Rightarrow> path_error + string" where
  "safePath dir relSlash =
     (if relSlash = [] then Inl PathEmpty
      else if CHR 0x00 \<in> set relSlash then Inl PathNul
      else if is_rooted relSlash then Inl PathAbsolute
      else if Clean relSlash \<noteq> relSlash then Inl PathNotClean
      else case Rel dir (Join2 dir relSlash) of
        None \<Rightarrow> Inl PathNoRel
      | Some back \<Rightarrow>
          if back = ''.'' \<or> back = ''..'' \<or> has_prefix ''../'' back then Inl PathEscapes else Inr back)"

datatype problem =
    MissingFile string | ContentMismatch string | UnlistedFile string | Unreadable string file_error
  | UnsafePath string path_error | NotNameOnDisk string | DuplicatePath string
  | RootNotComputed manifest_error | RootMismatch

record dir_result =
  dr_Intact :: bool
  dr_FilesChecked :: nat
  dr_Problems :: "problem list"

datatype bundle_error = CannotOpen | NotADirectory | EmptyManifest

definition DefaultMaxFileBytes :: int where "DefaultMaxFileBytes = 512 * 2 ^ 20"

text \<open>One listed file: what is reported, and whether it counts as checked.\<close>

definition check_file ::
  "(string \<Rightarrow> string) \<Rightarrow> string \<Rightarrow> node \<Rightarrow> int \<Rightarrow> string list \<Rightarrow> file_entry \<Rightarrow> problem option \<times> bool" where
  "check_file same dir root limit onDisk f =
     (case safePath dir (fe_Path f) of
        Inl e \<Rightarrow> (Some (UnsafePath (fe_Path f) e), False)
      | Inr rel \<Rightarrow>
          (case hashRegularFile same root rel limit of
             Inl e \<Rightarrow> (Some (if e = NotExist then MissingFile (fe_Path f) else Unreadable (fe_Path f) e), False)
           | Inr got \<Rightarrow>
               if fe_Path f \<notin> set onDisk then (Some (NotNameOnDisk (fe_Path f)), False)
               else (if got \<noteq> fe_SHA512 f then Some (ContentMismatch (fe_Path f)) else None, True)))"

fun check_files ::
  "(file_entry \<Rightarrow> problem option \<times> bool) \<Rightarrow> string list \<Rightarrow> file_entry list \<Rightarrow> problem list \<times> nat" where
  "check_files chk names [] = ([], 0)"
| "check_files chk names (f # fs) =
     (if fe_Path f \<in> set names
      then (case check_files chk names fs of (ps, n) \<Rightarrow> (DuplicatePath (fe_Path f) # ps, n))
      else (case chk f of (p, c) \<Rightarrow>
             (case check_files chk (fe_Path f # names) fs of (ps, n) \<Rightarrow>
                ((case p of None \<Rightarrow> ps | Some x \<Rightarrow> x # ps), if c then Suc n else n))))"

definition VerifyDir ::
  "(string \<Rightarrow> string) \<Rightarrow> string \<Rightarrow> node option \<Rightarrow> file_entry list \<Rightarrow> string \<Rightarrow> int \<Rightarrow> bundle_error + dir_result" where
  "VerifyDir same dir tree files claimedRoot maxFileBytes =
     (let limit = (if maxFileBytes \<le> 0 then DefaultMaxFileBytes else maxFileBytes) in
      case tree of
        None \<Rightarrow> Inl CannotOpen
      | Some root \<Rightarrow>
          if \<not> is_Folder root then Inl NotADirectory
          else if files = [] then Inl EmptyManifest
          else
            (let onDisk = filesOnDisk root;
                 checked = check_files (check_file same dir root limit onDisk) [] files;
                 extra = map UnlistedFile (unlistedFiles onDisk (map fe_Path files));
                 rooted = (if claimedRoot = [] then []
                           else case ManifestRoot files of
                             Inl e \<Rightarrow> [RootNotComputed e]
                           | Inr r \<Rightarrow> if r \<noteq> claimedRoot then [RootMismatch] else []);
                 problems = fst checked @ extra @ rooted
             in Inr \<lparr>dr_Intact = (problems = []), dr_FilesChecked = snd checked, dr_Problems = problems\<rparr>))"

subsection \<open>Well-formed directories\<close>

text \<open>What every file system keeps: names are names, and no two names of one directory are one to it.\<close>

fun wf_tree :: "(string \<Rightarrow> string) \<Rightarrow> node \<Rightarrow> bool" where
  "wf_tree same (Folder es) =
     (distinct (map (same \<circ> fst) es) \<and> list_all (\<lambda>(name, v). plain_name name \<and> CHR 0x00 \<notin> set name \<and> wf_tree same v) es)"
| "wf_tree same v = True"

text \<open>The file of exactly that path.\<close>

fun file_at :: "node \<Rightarrow> string list \<Rightarrow> bytes option" where
  "file_at (Regular b) [] = Some b"
| "file_at (Folder es) (c # cs) = (case map_of es c of None \<Rightarrow> None | Some v \<Rightarrow> file_at v cs)"
| "file_at v cs = None"

lemma find_same: "distinct (map (same \<circ> fst) es) \<Longrightarrow> (name, v) \<in> set es \<Longrightarrow> find (\<lambda>(n, v). same n = same name) es = Some (name, v)"
proof (induction es)
  case (Cons e es)
  then show ?case by (cases e) (force simp: image_iff)
qed simp

lemma map_of_same: "distinct (map (same \<circ> fst) es) \<Longrightarrow> (name, v) \<in> set es \<Longrightarrow> map_of es name = Some v"
  by (metis distinct_map map_map map_of_is_SomeI)

text \<open>A path on the disk leads, name by name, through directories to what it is the path of.\<close>

lemma on_disk:
  "wf_tree same tree \<Longrightarrow> cs \<in> set (disk_paths tree) \<Longrightarrow>
     list_all (\<lambda>c. plain_name c \<and> CHR 0x00 \<notin> set c) cs \<and>
     (\<forall>i < length cs. \<exists>es. lstat same tree (take i cs) = Some (Folder es)) \<and>
     (\<exists>v. lstat same tree cs = Some v \<and> \<not> is_Folder v \<and> (\<forall>b. v = Regular b \<longleftrightarrow> file_at tree cs = Some b))"
proof (induction tree arbitrary: cs rule: disk_paths.induct)
  case (1 es)
  then obtain name v cs' where c: "(name, v) \<in> set es" "cs = name # cs'" "cs' \<in> set (disk_paths v)" by auto
  have wf: "distinct (map (same \<circ> fst) es)" "plain_name name" "CHR 0x00 \<notin> set name" "wf_tree same v"
    using "1.prems"(1) c(1) by (auto simp: list_all_iff)
  have f: "find (\<lambda>(n, v). same n = same name) es = Some (name, v)" and m: "map_of es name = Some v"
    using find_same [OF wf(1) c(1)] map_of_same [OF wf(1) c(1)] by simp_all
  have IH: "list_all (\<lambda>c. plain_name c \<and> CHR 0x00 \<notin> set c) cs'"
    "\<And>i. i < length cs' \<Longrightarrow> \<exists>es. lstat same v (take i cs') = Some (Folder es)"
    "\<exists>w. lstat same v cs' = Some w \<and> \<not> is_Folder w \<and> (\<forall>b. w = Regular b \<longleftrightarrow> file_at v cs' = Some b)"
    using "1.IH" [OF c(1) refl wf(4) c(3)] by blast+
  have "\<exists>es'. lstat same (Folder es) (take i cs) = Some (Folder es')" if "i < length cs" for i
    using that IH(2) c(2) f by (cases i) simp_all
  then show ?case using IH(1,3) c(2) f m wf(2,3) by simp
qed simp_all

lemma file_at_on_disk: "file_at tree cs = Some b \<Longrightarrow> cs \<in> set (disk_paths tree)"
proof (induction tree cs rule: file_at.induct)
  case (2 es c cs)
  then obtain v where "map_of es c = Some v" "file_at v cs = Some b" by (auto split: option.splits)
  then show ?case using 2 by (force dest: map_of_SomeD)
qed simp_all

definition holds :: "node \<Rightarrow> string \<Rightarrow> bytes \<Rightarrow> bool" where
  "holds root p b \<longleftrightarrow> file_at root (split_on slash p) = Some b"

lemma holds_on_disk: "holds root p b \<Longrightarrow> p \<in> set (filesOnDisk root)"
  using file_at_on_disk [of root "split_on slash p" b] join_split [of p] by (force simp: holds_def filesOnDisk_def)

lemma disk_path_plain:
  assumes wf: "wf_tree same root" and folder: "is_Folder root" and cs: "cs \<in> set (disk_paths root)"
  shows "cs \<noteq> []" "list_all plain_name cs" "split_on slash (join_path cs) = cs" "CHR 0x00 \<notin> set (join_path cs)"
proof -
  show ne: "cs \<noteq> []" using cs folder by (cases root) auto
  have all: "list_all (\<lambda>c. plain_name c \<and> CHR 0x00 \<notin> set c) cs" using on_disk [OF wf cs] by blast
  then show p: "list_all plain_name cs" by (simp add: list_all_iff)
  show "split_on slash (join_path cs) = cs" by (rule split_join [OF ne plain_no_slash [OF p]])
  show "CHR 0x00 \<notin> set (join_path cs)" using all by (induction cs rule: join_path.induct) simp_all
qed

lemma disk_path_safe:
  assumes "wf_tree same root" "is_Folder root" "cs \<in> set (disk_paths root)"
  shows "safePath dir (join_path cs) = Inr (join_path cs)"
proof -
  note p = disk_path_plain [OF assms]
  have hd: "plain_name (hd (split_on slash (join_path cs)))" using p(1-3) by (cases cs) simp_all
  have "join_path cs \<noteq> ''.''" "join_path cs \<noteq> ''..''" using hd by (auto simp: plain_name_def)
  moreover have "\<not> has_prefix ''../'' (join_path cs)"
  proof
    assume "has_prefix ''../'' (join_path cs)"
    then obtain t where "join_path cs = ''..'' @ slash # t" by (auto simp: has_prefix_iff)
    then show False using hd by (simp add: split_on_append_sep plain_name_def)
  qed
  ultimately show ?thesis
    using join_not_rooted [OF p(1,2)] Clean_plain [OF p(1,2)] Rel_Join [OF p(1,2)] p(4) by (simp add: safePath_def)
qed

lemma disk_path_hash:
  assumes wf: "wf_tree same root" and folder: "is_Folder root" and cs: "cs \<in> set (disk_paths root)"
  shows "hashRegularFile same root (join_path cs) limit =
    (case file_at root cs of
       None \<Rightarrow> Inl NotRegular
     | Some b \<Rightarrow> if limit < int (length b) then Inl (TooBig (length b) limit) else Inr (hex_sha512 b))"
proof -
  have dirs: "\<exists>es. lstat same root (take i cs) = Some (Folder es)" if "i < length cs" for i
    using on_disk [OF wf cs] that by blast
  have ne: "cs \<noteq> []" and sp: "split_on slash (join_path cs) = cs" using disk_path_plain [OF wf folder cs] by simp_all
  have each: "(case lstat same root (take (Suc i) cs) of
      None \<Rightarrow> Some NotExist | Some (Folder _) \<Rightarrow> None | Some _ \<Rightarrow> Some ParentNotFolder) = None" if "i < length cs - 1" for i
  proof -
    have "Suc i < length cs" using that by simp
    then obtain es where "lstat same root (take (Suc i) cs) = Some (Folder es)" using dirs by blast
    then show ?thesis by simp
  qed
  then have fe: "first_error (map (\<lambda>i. case lstat same root (take (Suc i) cs) of
            None \<Rightarrow> Some NotExist | Some (Folder _) \<Rightarrow> None | Some _ \<Rightarrow> Some ParentNotFolder) [0..<length cs - 1]) = None"
    by simp
  obtain v where v: "lstat same root cs = Some v" "\<not> is_Folder v" "\<forall>b. v = Regular b \<longleftrightarrow> file_at root cs = Some b"
    using on_disk [OF wf cs] by blast
  moreover have "file_at root cs = None" if "v = Special" using v(3) that by (cases "file_at root cs") auto
  moreover have "file_at root cs = Some b" if "v = Regular b" for b using v(3) that by blast
  ultimately show ?thesis unfolding hashRegularFile_def sp Let_def fe using v(1,2) by (cases v) simp_all
qed

lemma check_file_None:
  assumes wf: "wf_tree same root" and folder: "is_Folder root"
  shows "fst (check_file same dir root limit (filesOnDisk root) f) = None \<longleftrightarrow>
     (\<exists>b. holds root (fe_Path f) b \<and> int (length b) \<le> limit \<and> fe_SHA512 f = hex_sha512 b)"
proof (cases "fe_Path f \<in> set (filesOnDisk root)")
  case True
  then obtain cs where cs: "cs \<in> set (disk_paths root)" "fe_Path f = join_path cs" by (auto simp: filesOnDisk_def)
  have sp: "split_on slash (join_path cs) = cs" using disk_path_plain [OF wf folder cs(1)] by simp
  show ?thesis using True
    by (auto simp: check_file_def cs(2) disk_path_safe [OF wf folder cs(1)] disk_path_hash [OF wf folder cs(1)] holds_def sp split: option.split)
next
  case False
  then have "\<not> holds root (fe_Path f) b" for b using holds_on_disk by blast
  then show ?thesis using False by (simp add: check_file_def split: sum.split)
qed

lemma check_files_Nil:
  "fst (check_files chk names files) = [] \<longleftrightarrow>
     distinct (map fe_Path files) \<and> (\<forall>f \<in> set files. fe_Path f \<notin> set names) \<and> (\<forall>f \<in> set files. fst (chk f) = None)"
proof (induction chk names files rule: check_files.induct)
  case (2 chk names f fs)
  then show ?case by (auto simp: image_iff split: prod.splits option.splits; metis)
qed simp

lemma unlisted_Nil: "unlistedFiles onDisk names = [] \<longleftrightarrow> set onDisk \<subseteq> set names"
proof -
  have "unlistedFiles onDisk names = [] \<longleftrightarrow> filter (\<lambda>p. p \<notin> set names) onDisk = []"
    unfolding unlistedFiles_def by (metis remdups_eq_nil_iff set_empty set_sort)
  then show ?thesis by (auto simp: filter_empty_conv)
qed

subsection \<open>What an intact directory is\<close>

definition file_limit :: "int \<Rightarrow> int" where
  "file_limit n = (if n \<le> 0 then DefaultMaxFileBytes else n)"

lemma VerifyDir_cases:
  assumes "VerifyDir same dir tree files claimed limit = Inr res"
  obtains root where "tree = Some root" "is_Folder root" "files \<noteq> []"
    "dr_Problems res = fst (check_files (check_file same dir root (file_limit limit) (filesOnDisk root)) [] files) @
       map UnlistedFile (unlistedFiles (filesOnDisk root) (map fe_Path files)) @
       (if claimed = [] then []
        else case ManifestRoot files of Inl e \<Rightarrow> [RootNotComputed e] | Inr r \<Rightarrow> if r \<noteq> claimed then [RootMismatch] else [])"
    "dr_Intact res \<longleftrightarrow> dr_Problems res = []"
  using assms that
  by (cases tree) (auto simp: VerifyDir_def file_limit_def Let_def split: if_splits)

lemma VerifyDir_runs: "is_Folder root \<Longrightarrow> files \<noteq> [] \<Longrightarrow> \<exists>res. VerifyDir same dir (Some root) files claimed limit = Inr res"
  by (simp add: VerifyDir_def Let_def)

lemma VerifyDir_intact:
  assumes wf: "wf_tree same root" and v: "VerifyDir same dir (Some root) files claimed limit = Inr res"
  shows "dr_Intact res \<longleftrightarrow>
    distinct (map fe_Path files) \<and> set (map fe_Path files) = set (filesOnDisk root) \<and>
    (\<forall>f \<in> set files. \<exists>b. holds root (fe_Path f) b \<and> int (length b) \<le> file_limit limit \<and> fe_SHA512 f = hex_sha512 b) \<and>
    (claimed = [] \<or> ManifestRoot files = Inr claimed)"
proof (rule VerifyDir_cases [OF v])
  fix root' assume r: "Some root = Some root'" "is_Folder root'" "dr_Intact res \<longleftrightarrow> dr_Problems res = []"
    and p: "dr_Problems res = fst (check_files (check_file same dir root' (file_limit limit) (filesOnDisk root')) [] files) @
       map UnlistedFile (unlistedFiles (filesOnDisk root') (map fe_Path files)) @
       (if claimed = [] then []
        else case ManifestRoot files of Inl e \<Rightarrow> [RootNotComputed e] | Inr r \<Rightarrow> if r \<noteq> claimed then [RootMismatch] else [])"
  let ?held = "\<forall>f \<in> set files. \<exists>b. holds root (fe_Path f) b \<and> int (length b) \<le> file_limit limit \<and> fe_SHA512 f = hex_sha512 b"
  have "dr_Intact res \<longleftrightarrow> distinct (map fe_Path files) \<and> ?held \<and> set (filesOnDisk root) \<subseteq> set (map fe_Path files) \<and>
      (claimed = [] \<or> ManifestRoot files = Inr claimed)"
    using r check_file_None [OF wf] unfolding r(3) p
    by (auto simp: check_files_Nil unlisted_Nil split: sum.splits)
  moreover have "set (map fe_Path files) \<subseteq> set (filesOnDisk root)" if ?held
    using that holds_on_disk by fastforce
  ultimately show ?thesis by blast
qed

text \<open>C36. A directory is reported intact exactly when the manifest lists each path once, the paths are
  those of the files on disk, no more and no less, every listed path is by its exact name a regular
  file within the size limit whose bytes have the listed digest, and the claimed root, if one is
  given, is the manifest's. Symbolic links, special files, names a case-blind file system takes for
  others, paths that are absolute, not clean or lead out of the directory: none of them passes.\<close>

theorem directory_intact_iff:
  assumes "wf_tree same root" and "VerifyDir same dir (Some root) files claimed limit = Inr res"
  shows "dr_Intact res \<longleftrightarrow>
    distinct (map fe_Path files) \<and> set (map fe_Path files) = set (filesOnDisk root) \<and>
    (\<forall>f \<in> set files. \<exists>b. holds root (fe_Path f) b \<and> int (length b) \<le> file_limit limit \<and> fe_SHA512 f = hex_sha512 b) \<and>
    (claimed = [] \<or> ManifestRoot files = Inr claimed)"
  by (rule VerifyDir_intact [OF assms])

definition example_tree :: node where
  "example_tree = Folder [(''a'', Folder [(''b.json'', Regular ''{}'')])]"

definition example_manifest :: "file_entry list" where
  "example_manifest = [\<lparr>fe_Path = ''a/b.json'', fe_SHA512 = hex_sha512 ''{}'', fe_Kind = [], fe_Bytes = 2, fe_RowCount = None\<rparr>]"

lemma example_tree_facts:
  "wf_tree id example_tree" "set (filesOnDisk example_tree) = {''a/b.json''}" "holds example_tree ''a/b.json'' ''{}''"
  by (simp_all add: example_tree_def filesOnDisk_def holds_def plain_name_def)

lemma example_runs: "is_Folder example_tree" "example_manifest \<noteq> []"
  by (simp_all add: example_tree_def example_manifest_def)

lemma example_intact:
  "distinct (map fe_Path example_manifest)" "set (map fe_Path example_manifest) = set (filesOnDisk example_tree)"
  "\<forall>f \<in> set example_manifest. \<exists>b. holds example_tree (fe_Path f) b \<and> int (length b) \<le> file_limit 0 \<and> fe_SHA512 f = hex_sha512 b"
proof -
  have "\<exists>b. holds example_tree ''a/b.json'' b \<and> int (length b) \<le> file_limit 0 \<and> hex_sha512 ''{}'' = hex_sha512 b"
    by (intro exI [of _ "''{}''"] conjI example_tree_facts(3) refl) (simp add: file_limit_def DefaultMaxFileBytes_def)
  then show "\<forall>f \<in> set example_manifest. \<exists>b. holds example_tree (fe_Path f) b \<and> int (length b) \<le> file_limit 0 \<and> fe_SHA512 f = hex_sha512 b"
    by (simp add: example_manifest_def)
  show "distinct (map fe_Path example_manifest)" "set (map fe_Path example_manifest) = set (filesOnDisk example_tree)"
    unfolding example_tree_facts(2) by (simp_all add: example_manifest_def)
qed

lemma directory_intact_iff_witness:
  "\<exists>res. VerifyDir id ''d'' (Some example_tree) example_manifest [] 0 = Inr res \<and> dr_Intact res"
proof -
  obtain res where res: "VerifyDir id ''d'' (Some example_tree) example_manifest [] 0 = Inr res"
    using VerifyDir_runs [OF example_runs] by blast
  have "dr_Intact res" unfolding directory_intact_iff [OF example_tree_facts(1) res] using example_intact by blast
  with res show ?thesis by blast
qed

subsection \<open>One root, one directory\<close>

definition disk_bytes :: "node \<Rightarrow> bytes list" where
  "disk_bytes root = List.map_filter (file_at root) (disk_paths root)"

lemma holds_bytes: "holds root p b \<Longrightarrow> b \<in> set (disk_bytes root)"
  using file_at_on_disk [of root "split_on slash p" b]
  by (force simp: holds_def disk_bytes_def List.map_filter_def)

lemma intact_agree:
  assumes wf: "wf_tree same root" "wf_tree same' root'"
    and v: "VerifyDir same dir (Some root) files claimed limit = Inr res" "dr_Intact res"
      "VerifyDir same' dir' (Some root') files' claimed limit' = Inr res'" "dr_Intact res'"
    and listed: "mset (map listed files) = mset (map listed files')" and b: "holds root p b"
  shows "holds root' p b \<or> collide (disk_bytes root) (disk_bytes root')"
proof -
  have "p \<in> set (map fe_Path files)"
    using VerifyDir_intact [OF wf(1) v(1)] v(2) holds_on_disk [OF b] by blast
  then obtain f where f: "f \<in> set files" "fe_Path f = p" by auto
  then have "listed f \<in> set (map listed files)" by (auto intro: rev_image_eqI)
  also have "set (map listed files) = set (map listed files')" using listed by (metis set_mset_mset)
  finally obtain g where g: "g \<in> set files'" "listed g = listed f" by auto
  obtain x where x: "holds root (fe_Path f) x" "fe_SHA512 f = hex_sha512 x"
    using VerifyDir_intact [OF wf(1) v(1)] v(2) f(1) by blast
  obtain y where y: "holds root' (fe_Path g) y" "fe_SHA512 g = hex_sha512 y"
    using VerifyDir_intact [OF wf(2) v(3)] v(4) g(1) by blast
  have "x = b" using x(1) b f(2) by (simp add: holds_def)
  then have "b = y \<or> collision b y" using x(2) y(2) g(2) by (simp add: hex_sha512_eqD)
  moreover have "b \<in> set (disk_bytes root)" "y \<in> set (disk_bytes root')" using holds_bytes b y(1) by blast+
  ultimately show ?thesis using y(1) g(2) f(2) by (auto simp: collide_iff)
qed

text \<open>C37. Two directories that are intact under the same claimed root hold the same files with the same
  bytes, wherever they are, whatever their file systems take for equal names and whatever else the
  two manifests say, unless two manifests or two files have been found that hash alike.\<close>

theorem bundle_root_pins_files:
  assumes "wf_tree same root" "wf_tree same' root'" "claimed \<noteq> []"
    and "VerifyDir same dir (Some root) files claimed limit = Inr res" "dr_Intact res"
    and "VerifyDir same' dir' (Some root') files' claimed limit' = Inr res'" "dr_Intact res'"
  shows "(\<forall>p b. holds root p b \<longleftrightarrow> holds root' p b) \<or>
    (\<exists>x y. manifest_preimage files = Inr x \<and> manifest_preimage files' = Inr y \<and> collision x y) \<or>
    collide (disk_bytes root) (disk_bytes root') \<or> collide (disk_bytes root') (disk_bytes root)"
proof -
  have "ManifestRoot files = Inr claimed" "ManifestRoot files' = Inr claimed"
    using VerifyDir_intact [OF assms(1,4)] VerifyDir_intact [OF assms(2,6)] assms(3,5,7) by blast+
  from manifest_pins [OF this] show ?thesis
  proof
    assume same: "mset (map listed files) = mset (map listed files')"
    show ?thesis
      using intact_agree [OF assms(1,2,4-7) same] intact_agree [OF assms(2,1,6,7,4,5) same [symmetric]] by blast
  qed blast
qed

lemma bundle_root_pins_files_witness:
  "\<exists>claimed res. VerifyDir id ''d'' (Some example_tree) example_manifest claimed 0 = Inr res \<and> dr_Intact res \<and>
     ((\<forall>p b. holds example_tree p b \<longleftrightarrow> holds example_tree p b) \<or>
      (\<exists>x y. manifest_preimage example_manifest = Inr x \<and> manifest_preimage example_manifest = Inr y \<and> collision x y) \<or>
      collide (disk_bytes example_tree) (disk_bytes example_tree) \<or> collide (disk_bytes example_tree) (disk_bytes example_tree))"
proof -
  obtain r where r: "ManifestRoot example_manifest = Inr r" "r \<noteq> []"
  proof -
    obtain raw where raw: "hex_decode (hex_sha512 ''{}'') = Some raw" "length raw = 64"
      by (simp add: hex_sha512_def)
    have "sort_key fe_Path example_manifest = example_manifest" by (simp add: example_manifest_def)
    then show ?thesis using that raw
      by (simp add: ManifestRoot_def manifest_preimage_def example_manifest_def MaxUint32_def)
  qed
  obtain res where res: "VerifyDir id ''d'' (Some example_tree) example_manifest r 0 = Inr res"
    using VerifyDir_runs [OF example_runs] by blast
  have ok: "dr_Intact res"
    unfolding VerifyDir_intact [OF example_tree_facts(1) res] using example_intact r(1) by blast
  show ?thesis
    using bundle_root_pins_files [OF example_tree_facts(1) example_tree_facts(1) r(2) res ok res ok] res ok by blast
qed

end
