(* ===== verification/Export_Types.thy ===== *)
theory Export_Types
  imports Go_Json
begin

section \<open>Export bundles: what is read and what is reported\<close>

text \<open>
  The data of package \<open>exportbundle\<close>: chains as they are written in a bundle, the text of a checkpoint
  once read, the limits of the reader, problem codes, results, and the shapes of the strings
  (\<open>reader.go\<close>, \<open>checkpoint.go\<close>, \<open>verify.go\<close>, \<open>result.go\<close>). A nil checkpoint text, one over the size
  limit, is \<open>None\<close>. A bit field is a set of bit numbers or a record of flags.
\<close>

subsection \<open>Chains and checkpoints\<close>

record raw_pair =
  rp_a :: string
  rp_b :: string

record raw_entry =
  re_EntryID :: string
  re_EntryType :: string
  re_GlobalSeq :: string
  re_PreviousHash :: string
  re_Timestamp :: string
  re_ContentHash :: string
  re_ChainHash :: string
  re_Sig :: "raw_pair option"
  re_Disclosed :: "raw_pair option"

record raw_chain =
  rc_ID :: string
  rc_Entries :: "raw_entry list"
  rc_Checkpoints :: "bytes option list"

record checkpoint =
  ck_Version :: nat
  ck_AnchorID :: string
  ck_ChainHash :: string
  ck_CreatedAtMs :: nat
  ck_EntryCount :: nat
  ck_PreviousAnchorID :: string
  ck_RangeStart :: string
  ck_RangeEnd :: string
  ck_Signature :: bytes
  ck_SigningKeyID :: string
  ck_Subject :: string
  ck_VerifiedThrough :: nat
  ck_SignatureText :: string

definition empty_pair :: raw_pair where "empty_pair = \<lparr>rp_a = [], rp_b = []\<rparr>"

definition empty_entry :: raw_entry where
  "empty_entry = \<lparr>re_EntryID = [], re_EntryType = [], re_GlobalSeq = [], re_PreviousHash = [], re_Timestamp = [],
     re_ContentHash = [], re_ChainHash = [], re_Sig = None, re_Disclosed = None\<rparr>"

definition empty_chain :: raw_chain where
  "empty_chain = \<lparr>rc_ID = [], rc_Entries = [], rc_Checkpoints = []\<rparr>"

definition empty_checkpoint :: checkpoint where
  "empty_checkpoint = \<lparr>ck_Version = 0, ck_AnchorID = [], ck_ChainHash = [], ck_CreatedAtMs = 0, ck_EntryCount = 0,
     ck_PreviousAnchorID = [], ck_RangeStart = [], ck_RangeEnd = [], ck_Signature = [], ck_SigningKeyID = [],
     ck_Subject = [], ck_VerifiedThrough = 0, ck_SignatureText = []\<rparr>"

subsection \<open>Limits\<close>

record limits =
  lm_BundleBytes :: int
  lm_Chains :: int
  lm_Entries :: int
  lm_Checkpoints :: int
  lm_CheckpointBytes :: int
  lm_Depth :: int
  lm_Values :: int

definition maxInputBytes :: int where "maxInputBytes = 2 ^ 31 - 1"

definition DefaultLimits :: limits where
  "DefaultLimits = \<lparr>lm_BundleBytes = 256 * 2 ^ 20, lm_Chains = 100000, lm_Entries = 1000000,
     lm_Checkpoints = 100000, lm_CheckpointBytes = 2 ^ 20, lm_Depth = 8, lm_Values = 15000000\<rparr>"

definition or_default :: "int \<Rightarrow> int \<Rightarrow> int" where
  "or_default have def = (if have \<le> 0 then def else have)"

definition withDefaults :: "limits \<Rightarrow> limits" where
  "withDefaults l =
     (let d = DefaultLimits
      in \<lparr>lm_BundleBytes = min (or_default (lm_BundleBytes l) (lm_BundleBytes d)) maxInputBytes,
          lm_Chains = or_default (lm_Chains l) (lm_Chains d),
          lm_Entries = or_default (lm_Entries l) (lm_Entries d),
          lm_Checkpoints = or_default (lm_Checkpoints l) (lm_Checkpoints d),
          lm_CheckpointBytes = or_default (lm_CheckpointBytes l) (lm_CheckpointBytes d),
          lm_Depth = or_default (lm_Depth l) (lm_Depth d),
          lm_Values = or_default (lm_Values l) (lm_Values d)\<rparr>)"

definition wf_limits :: "limits \<Rightarrow> bool" where
  "wf_limits l \<longleftrightarrow> 0 < lm_BundleBytes l \<and> 0 < lm_Chains l \<and> 0 < lm_Entries l \<and> 0 < lm_Checkpoints l \<and>
     0 < lm_CheckpointBytes l \<and> 0 < lm_Depth l \<and> 0 < lm_Values l"

lemma wf_withDefaults [simp]: "wf_limits (withDefaults l)"
  by (simp add: wf_limits_def withDefaults_def DefaultLimits_def or_default_def maxInputBytes_def Let_def)

lemma wf_DefaultLimits [simp]: "wf_limits DefaultLimits"
  by (simp add: wf_limits_def DefaultLimits_def)

lemma withDefaults_default [simp]: "withDefaults DefaultLimits = DefaultLimits"
  by (simp add: withDefaults_def DefaultLimits_def or_default_def maxInputBytes_def Let_def)

subsection \<open>Shapes of strings\<close>

definition is_hex :: "nat \<Rightarrow> string \<Rightarrow> bool" where
  "is_hex n s \<longleftrightarrow> length s = n \<and> list_all is_lower_hex s"

lemma is_hex_128: "is_hex 128 s = is_hex128 s"
  by (simp add: is_hex_def is_hex128_def)

definition is_entry_id :: "string \<Rightarrow> bool" where
  "is_entry_id s \<longleftrightarrow> take 5 s = ''sink-'' \<and> is_hex 32 (drop 5 s)"

definition is_label :: "string \<Rightarrow> bool" where
  "is_label s \<longleftrightarrow> s \<noteq> [] \<and> CHR ''|'' \<notin> set s"

definition lower_or_digit :: "char \<Rightarrow> bool" where
  "lower_or_digit c \<longleftrightarrow> is_digit c \<or> byte_in 0x61 0x7A c"

text \<open>A class of 1 to 31 characters, a dot, and 32 hex digits.\<close>

definition is_chain_id :: "string \<Rightarrow> bool" where
  "is_chain_id s \<longleftrightarrow>
     (let n = length s - 33; class = take n s
      in 34 \<le> length s \<and> n \<le> 31 \<and> lower_or_digit (hd class) \<and>
         list_all (\<lambda>c. lower_or_digit c \<or> c = CHR ''_'' \<or> c = CHR ''-'') (tl class) \<and>
         s ! n = CHR ''.'' \<and> list_all is_lower_hex (drop (Suc n) s))"

text \<open>Canonical base64, as the code decodes it: the decoder passes over line breaks wherever they are, which
  the bundle format (section 3) does not allow.\<close>

definition is_break :: "char \<Rightarrow> bool" where
  "is_break c \<longleftrightarrow> c = CHR 0x0A \<or> c = CHR 0x0D"

definition decodeCanonicalBase64 :: "string \<Rightarrow> bytes option" where
  "decodeCanonicalBase64 s =
     (if length s mod 4 \<noteq> 0 then None else b64_decode (filter (\<lambda>c. \<not> is_break c) s))"

lemma decodeCanonicalBase64_encode [simp]: "decodeCanonicalBase64 (b64_encode bs) = Some bs"
proof -
  have "length (b64_encode bs) mod 4 = 0" by (induction bs rule: b64_encode.induct) simp_all
  moreover have "filter (\<lambda>c. \<not> is_break c) (b64_encode bs) = b64_encode bs"
    using b64_encode_no_break [of bs] by (intro filter_True) (auto simp: is_break_def)
  ultimately show ?thesis by (simp add: decodeCanonicalBase64_def b64_decode_encode)
qed

lemma b64_val_Some: "b64_val c = Some n \<Longrightarrow> n < 64 \<and> b64_char n = c"
proof -
  assume v: "b64_val c = Some n"
  have l: "length b64_alphabet = 64" by code_simp
  have n: "n = length (takeWhile (\<lambda>x. x \<noteq> c) b64_alphabet)" "n < 64"
    using v by (auto simp: b64_val_def Let_def split: if_splits)
  then have "b64_alphabet ! n = c" using nth_length_takeWhile [of "\<lambda>x. x \<noteq> c" b64_alphabet] l by simp
  then show ?thesis using n(2) by (simp add: b64_char_def)
qed

lemma b64_join:
  assumes "i < 64" "j < (64 :: nat)" "k < 64" "l < 64"
  shows "i * 4 + j div 16 < 256" "j mod 16 * 16 + k div 4 < 256" "k mod 4 * 64 + l < 256"
    "(i * 4 + j div 16) div 4 = i" "(i * 4 + j div 16) mod 4 * 16 = j div 16 * 16"
    "(j mod 16 * 16 + k div 4) div 16 = j mod 16" "(j mod 16 * 16 + k div 4) mod 16 * 4 = k div 4 * 4"
    "(k mod 4 * 64 + l) div 64 = k mod 4" "(k mod 4 * 64 + l) mod 64 = l"
proof -
  have b: "j div 16 < 4" "k div 4 < 16" "j mod 16 < 16" "k mod 4 < 4" using assms by (linarith, linarith, simp_all)
  show "i * 4 + j div 16 < 256" "j mod 16 * 16 + k div 4 < 256" "k mod 4 * 64 + l < 256" using assms b by linarith+
  show "(i * 4 + j div 16) div 4 = i" "(i * 4 + j div 16) mod 4 * 16 = j div 16 * 16"
    "(j mod 16 * 16 + k div 4) div 16 = j mod 16" "(j mod 16 * 16 + k div 4) mod 16 * 4 = k div 4 * 4"
    "(k mod 4 * 64 + l) div 64 = k mod 4" "(k mod 4 * 64 + l) mod 64 = l"
    using assms b by simp_all
qed

text \<open>The decoder takes the canonical encodings and nothing else.\<close>

lemma b64_decode_canonical: "b64_decode s = Some bs \<Longrightarrow> s = b64_encode bs"
proof (induction s arbitrary: bs rule: b64_decode.induct)
  case (2 a b c d r)
  obtain i j where ij: "b64_val a = Some i" "b64_val b = Some j" using "2.prems" by (auto split: option.splits)
  note v = b64_val_Some [OF ij(1)] b64_val_Some [OF ij(2)]
  show ?case
  proof (cases "c = CHR ''=''")
    case True
    then have "d = CHR ''=''" "r = []" "j mod 16 = 0" "bs = [char_of (i * 4 + j div 16)]"
      using "2.prems" ij by (auto split: if_splits)
    moreover have "j div 16 * 16 = j" using \<open>j mod 16 = 0\<close> by presburger
    ultimately show ?thesis using True v b64_join [of i j 0 0] by simp
  next
    case c: False
    obtain k where k: "b64_val c = Some k" using "2.prems" ij c by (auto split: option.splits)
    note vk = b64_val_Some [OF k]
    have j: "j div 16 * 16 + j mod 16 = j" by presburger
    show ?thesis
    proof (cases "d = CHR ''=''")
      case True
      then have "r = []" "k mod 4 = 0" "bs = [char_of (i * 4 + j div 16), char_of (j mod 16 * 16 + k div 4)]"
        using "2.prems" ij c k by (auto split: if_splits)
      moreover have "k div 4 * 4 = k" using \<open>k mod 4 = 0\<close> by presburger
      ultimately show ?thesis using True v vk j b64_join [of i j k 0] by simp
    next
      case False
      obtain l where l: "b64_val d = Some l" using "2.prems" ij c k False by (auto split: option.splits)
      obtain rest where rest: "b64_decode r = Some rest"
        "bs = char_of (i * 4 + j div 16) # char_of (j mod 16 * 16 + k div 4) # char_of (k mod 4 * 64 + l) # rest"
        using "2.prems" ij c k False l by auto
      have "r = b64_encode rest" using "2.IH" [OF refl ij c k False l rest(1)] by auto
      moreover have "k div 4 * 4 + k mod 4 = k" by presburger
      ultimately show ?thesis using rest(2) v vk j b64_val_Some [OF l] b64_join [of i j k l] by simp
    qed
  qed
qed auto

lemma decodeCanonicalBase64_iff:
  "decodeCanonicalBase64 s = Some bs \<longleftrightarrow> length s mod 4 = 0 \<and> filter (\<lambda>c. \<not> is_break c) s = b64_encode bs"
  using b64_decode_canonical b64_decode_encode by (auto simp: decodeCanonicalBase64_def)

text \<open>So a text with a line break in it can pass, which canonical base64 does not allow.\<close>

lemma line_breaks_pass:
  "decodeCanonicalBase64 (''Zm9v'' @ [CHR 0x0D, CHR 0x0A, CHR 0x0D, CHR 0x0A]) = Some ''foo''"
  by code_simp

end
