(* ===== verification/Export_Reader.thy ===== *)
theory Export_Reader
  imports Export_Types Json_Parse Sha512 "HOL-Library.Monad_Syntax"
begin

section \<open>The reader of export bundles: \<open>exportbundle/reader.go\<close> and \<open>checkpoint.go\<close>\<close>

text \<open>
  One pass over the bytes, without a tree: the reader counts values, notes what is wrong with the bundle
  in flags, and builds the chains as long as nothing is. The input from the current position on is
  \<open>rd_rest\<close>. A method that answers \<open>false\<close>, after which the text is not JSON, is \<open>None\<close>. The names seen in
  one object, which the code keeps as references into the input and an arena of unescaped names, are
  the unescaped names, an argument of the loop over the object's members.

  Objects and arrays nest at most to a limit. \<open>object_at d\<close> and \<open>array_at d\<close> read one where \<open>d\<close> more may
  still be opened, so the code's own depth counter is the recursion; every other method is defined once
  over \<open>ob\<close> and \<open>ar\<close>, the two for what is inside. The loops over members and elements use fuel, the
  length of the input left, and more changes nothing (\<open>strict_members_fuel\<close>, \<open>strict_items_fuel\<close> in
  \<open>Export_Grammar\<close>, where the loops are those of the grammar).
\<close>

subsection \<open>The reader\<close>

datatype reason = ReasonTooLarge | ReasonJSON | ReasonDuplicateKey | ReasonFormat | ReasonStructure

datatype object_kind =
  KindOther | KindBundle | KindChain | KindEntry | KindRecordSignature | KindDisclosed | KindCheckpoint | KindRange

datatype elem_kind = ElemAny | ElemChain | ElemEntry | ElemCheckpoint

definition FormatID :: string where "FormatID = ''aleutian.proof.bundle.v1''"

definition oversize :: string where "oversize = [CHR 0x00]"

definition maxMemberName :: nat where "maxMemberName = 32"
definition firstNameCheck :: nat where "firstNameCheck = 4096"
definition maxSafeInteger :: nat where "maxSafeInteger = 2 ^ 53 - 1"
definition signatureSize :: nat where "signatureSize = 3309"

text \<open>Limits of single strings: entry id, type, sequence, hash, timestamp; key id and signature; content
  and nonce; chain id.\<close>

definition entryCaps :: "nat list" where "entryCaps = [37, 12, 19, 128, 27, 128, 128]"
definition signatureCaps :: "nat list" where "signatureCaps = [32, 4412]"
definition disclosedCaps :: "nat list" where "disclosedCaps = [87384, 64]"
definition maxChainID :: nat where "maxChainID = 64"

fun memberNames :: "object_kind \<Rightarrow> string list" where
  "memberNames KindOther = []"
| "memberNames KindBundle = [''format'', ''chains'']"
| "memberNames KindChain = [''chain_id'', ''entries'', ''checkpoints'']"
| "memberNames KindEntry = [''entry_id'', ''entry_type'', ''global_seq'', ''previous_hash'', ''timestamp'',
     ''content_hash'', ''chain_hash'', ''record_signature'', ''disclosed'']"
| "memberNames KindRecordSignature = [''key_id'', ''signature'']"
| "memberNames KindDisclosed = [''content'', ''nonce'']"
| "memberNames KindCheckpoint = [''anchor_id'', ''chain_hash'', ''created_at_ms'', ''entry_count'',
     ''previous_anchor_id'', ''range'', ''signature'', ''signing_key_id'', ''subject'', ''verified_through'', ''version'']"
| "memberNames KindRange = [''start_entry_id'', ''end_entry_id'']"

definition entryRequired :: "nat set" where "entryRequired = {0, 1, 2, 3, 4, 5, 6}"
definition ckAll :: "nat set" where "ckAll = {0, 1, 2, 3, 4, 5, 6, 7, 8, 9, 10}"

record reader =
  rd_rest :: bytes
  rd_lim :: limits
  rd_values :: int
  rd_overValues :: bool
  rd_duplicate :: bool
  rd_structure :: bool
  rd_overCount :: bool
  rd_topObject :: bool
  rd_formatOK :: bool
  rd_build :: bool
  rd_chains :: "raw_chain list"
  rd_chain :: raw_chain
  rd_entry :: raw_entry
  rd_nChains :: int
  rd_nEntries :: int
  rd_nCheckpoints :: int
  rd_ck :: "checkpoint option"
  rd_track :: bool

definition newReader :: "bytes \<Rightarrow> limits \<Rightarrow> reader" where
  "newReader b lim =
     \<lparr>rd_rest = b, rd_lim = lim, rd_values = 0, rd_overValues = False, rd_duplicate = False, rd_structure = False,
      rd_overCount = False, rd_topObject = False, rd_formatOK = False, rd_build = False, rd_chains = [],
      rd_chain = empty_chain, rd_entry = empty_entry, rd_nChains = 0, rd_nEntries = 0, rd_nCheckpoints = 0,
      rd_ck = None, rd_track = True\<rparr>"

definition peek :: "reader \<Rightarrow> (char \<times> reader) option" where
  "peek r = (case skip_ws (rd_rest r) of [] \<Rightarrow> None | c # t \<Rightarrow> Some (c, r\<lparr>rd_rest := c # t\<rparr>))"

text \<open>\<open>r.i++\<close>, and a character that must be there.\<close>

definition advance :: "reader \<Rightarrow> reader" where "advance r = r\<lparr>rd_rest := tl (rd_rest r)\<rparr>"

definition require :: "bool \<Rightarrow> unit option" where "require b = (if b then Some () else None)"

definition stopBuilding :: "reader \<Rightarrow> reader" where
  "stopBuilding r = r\<lparr>rd_build := False, rd_chains := [], rd_chain := empty_chain, rd_entry := empty_entry\<rparr>"

definition violate :: "reader \<Rightarrow> reader" where
  "violate r = stopBuilding (r\<lparr>rd_structure := True\<rparr>)"

definition stopTracking :: "reader \<Rightarrow> reader" where
  "stopTracking r = r\<lparr>rd_track := False\<rparr>"

definition foundDuplicate :: "reader \<Rightarrow> reader" where
  "foundDuplicate r = stopTracking (stopBuilding (r\<lparr>rd_duplicate := True\<rparr>))"

definition countValue :: "reader \<Rightarrow> reader" where
  "countValue r =
     (let r = r\<lparr>rd_values := rd_values r + 1\<rparr>
      in if lm_Values (rd_lim r) < rd_values r \<and> \<not> rd_overValues r
         then stopTracking (stopBuilding (r\<lparr>rd_overValues := True\<rparr>)) else r)"

definition overLimit :: "int \<Rightarrow> int \<Rightarrow> reader \<Rightarrow> reader" where
  "overLimit n limit r =
     (if limit < n \<and> \<not> rd_overCount r then stopBuilding (r\<lparr>rd_overCount := True\<rparr>) else r)"

subsection \<open>Strings\<close>

definition rune_len :: "nat \<Rightarrow> nat" where
  "rune_len n = (if n < 0x80 then 1 else if n < 0x800 then 2 else if n < 0x10000 then 3 else 4)"

text \<open>The escape at the front: the code point and the number of bytes it takes.\<close>

definition escapeAt :: "string \<Rightarrow> (nat \<times> nat) option" where
  "escapeAt b =
     (case b of
        _ # c # t \<Rightarrow>
          if c = CHR ''u'' then
            (case hex4 t of
               None \<Rightarrow> None
             | Some hi \<Rightarrow>
                 if 0xDC00 \<le> hi \<and> hi \<le> 0xDFFF then None
                 else if hi < 0xD800 \<or> 0xDBFF < hi then Some (hi, 6)
                 else if \<not> has_prefix [CHR 0x5C, CHR ''u''] (drop 4 t) then None
                 else case hex4 (drop 6 t) of
                   None \<Rightarrow> None
                 | Some lo \<Rightarrow>
                     if lo < 0xDC00 \<or> 0xDFFF < lo then None
                     else Some (0x10000 + (hi - 0xD800) * 1024 + (lo - 0xDC00), 12))
          else map_option (\<lambda>x. (of_char x, 2)) (unescape c)
      | _ \<Rightarrow> None)"

text \<open>From after the opening quote: the bytes up to the closing one, the length of what they stand for,
  whether there is an escape, and what follows.\<close>

function scanString :: "string \<Rightarrow> (string \<times> nat \<times> bool \<times> string) option" where
  "scanString [] = None"
| "scanString (c # t) =
     (if c = CHR 0x22 then Some ([], 0, False, t)
      else if c = CHR 0x5C then
        (case escapeAt (c # t) of
           None \<Rightarrow> None
         | Some (ch, w) \<Rightarrow>
             map_option (\<lambda>(raw, n, _, r). (take w (c # t) @ raw, rune_len ch + n, True, r))
               (scanString (drop (w - 1) t)))
      else if of_char c < (0x20 :: nat) then None
      else if of_char c < (0x80 :: nat) then
        map_option (\<lambda>(raw, n, escaped, r). (c # raw, Suc n, escaped, r)) (scanString t)
      else let w = rune_width (c # t)
           in if w = 0 then None
              else map_option (\<lambda>(raw, n, escaped, r). (take w (c # t) @ raw, w + n, escaped, r))
                     (scanString (drop (w - 1) t)))"
  by pat_completeness auto
termination by (relation "measure length") auto

function appendUnescaped :: "string \<Rightarrow> string" where
  "appendUnescaped [] = []"
| "appendUnescaped (c # t) =
     (if c \<noteq> CHR 0x5C then c # appendUnescaped t
      else case escapeAt (c # t) of
        None \<Rightarrow> []
      | Some (ch, w) \<Rightarrow> utf8_encode ch @ appendUnescaped (drop (w - 1) t))"
  by pat_completeness auto
termination by (relation "measure length") auto

definition digestUnescaped :: "string \<Rightarrow> string" where
  "digestUnescaped raw = hex_sha512 (appendUnescaped raw)"

definition unescaped :: "string \<Rightarrow> bool \<Rightarrow> string" where
  "unescaped raw escaped = (if escaped then appendUnescaped raw else raw)"

definition scan_string :: "reader \<Rightarrow> ((string \<times> nat \<times> bool) \<times> reader) option" where
  "scan_string r = map_option (\<lambda>(raw, n, escaped, t). ((raw, n, escaped), r\<lparr>rd_rest := t\<rparr>)) (scanString (tl (rd_rest r)))"

subsection \<open>Scalars\<close>

definition literal :: "string \<Rightarrow> reader \<Rightarrow> reader option" where
  "literal word r =
     (if has_prefix word (rd_rest r)
      then Some (countValue (r\<lparr>rd_rest := drop (length word) (rd_rest r)\<rparr>)) else None)"

text \<open>The grammar of numbers; a fraction or an exponent without digits is refused.\<close>

definition number_after :: "string \<Rightarrow> string option" where
  "number_after s =
     (let s = (if has_prefix ''-'' s then tl s else s)
      in if \<not> starts_digit s then None
         else let s = (if has_prefix ''0'' s then tl s else drop_digits s)
         in do {
           s \<leftarrow> (if has_prefix ''.'' s then (if starts_digit (tl s) then Some (drop_digits (tl s)) else None) else Some s);
           if has_prefix ''e'' s \<or> has_prefix ''E'' s then
             (let s = tl s; s = (if has_prefix ''+'' s \<or> has_prefix ''-'' s then tl s else s)
              in if starts_digit s then Some (drop_digits s) else None)
           else Some s
         })"

definition number :: "reader \<Rightarrow> reader option" where
  "number r = map_option (\<lambda>s. r\<lparr>rd_rest := s\<rparr>) (number_after (rd_rest r))"

subsection \<open>Names\<close>

fun index_of :: "'a \<Rightarrow> 'a list \<Rightarrow> nat option" where
  "index_of x [] = None"
| "index_of x (y # ys) = (if x = y then Some 0 else map_option Suc (index_of x ys))"

fun neighbours_equal :: "'a list \<Rightarrow> bool" where
  "neighbours_equal (x # y # zs) = (x = y \<or> neighbours_equal (y # zs))"
| "neighbours_equal _ = False"

definition checkNames :: "string list \<Rightarrow> reader \<Rightarrow> reader" where
  "checkNames names r = (if neighbours_equal (sort names) then foundDuplicate r else r)"

text \<open>A member's name: its number if the object knows it, else one more unknown name. The state of the
  unknown names is the list of them and the length at which they are checked next.\<close>

type_synonym names = "string list \<times> nat"

definition member_name :: "object_kind \<Rightarrow> names \<Rightarrow> reader \<Rightarrow> ((nat option \<times> names) \<times> reader) option" where
  "member_name kind names r =
     do {
       ((raw, n, escaped), r) \<leftarrow> scan_string r;
       let val = unescaped raw escaped;
       case (if memberNames kind \<noteq> [] \<and> n \<le> maxMemberName then index_of val (memberNames kind) else None) of
         Some i \<Rightarrow> Some ((Some i, names), r)
       | None \<Rightarrow>
           if \<not> rd_track r then Some ((None, names), r)
           else let unknown = fst names @ [val]
                in if snd names \<le> length unknown
                   then Some ((None, (sort unknown, 2 * length unknown)), checkNames unknown r)
                   else Some ((None, (unknown, snd names)), r)
     }"

subsection \<open>Objects and arrays\<close>

type_synonym objects = "object_kind \<Rightarrow> reader \<Rightarrow> (nat set \<times> reader) option"
type_synonym arrays = "elem_kind \<Rightarrow> reader \<Rightarrow> (nat \<times> reader) option"

definition skipValue :: "objects \<Rightarrow> arrays \<Rightarrow> reader \<Rightarrow> reader option" where
  "skipValue ob ar r =
     do {
       (c, r) \<leftarrow> peek r;
       if c = CHR ''{'' then map_option snd (ob KindOther r)
       else if c = CHR ''['' then map_option snd (ar ElemAny r)
       else if c = CHR 0x22 then map_option snd (scan_string (countValue r))
       else if c = CHR ''t'' then literal ''true'' r
       else if c = CHR ''f'' then literal ''false'' r
       else if c = CHR ''n'' then literal ''null'' r
       else if c = CHR ''-'' \<or> is_digit c then number (countValue r)
       else None
     }"

text \<open>A string value with its limit: the value, whether there was a string, the reader.\<close>

definition stringValue :: "objects \<Rightarrow> arrays \<Rightarrow> nat \<Rightarrow> bool \<Rightarrow> reader \<Rightarrow> ((string \<times> bool) \<times> reader) option" where
  "stringValue ob ar limit keep r =
     do {
       (c, r) \<leftarrow> peek r;
       if c \<noteq> CHR 0x22 then map_option (\<lambda>r. (([], False), r)) (skipValue ob ar (violate r))
       else do {
         ((raw, n, escaped), r) \<leftarrow> scan_string (countValue r);
         Some (((if \<not> keep then [] else if limit < n then oversize else unescaped raw escaped), True), r)
       }
     }"

definition arrayValue :: "objects \<Rightarrow> arrays \<Rightarrow> elem_kind \<Rightarrow> reader \<Rightarrow> ((nat \<times> bool) \<times> reader) option" where
  "arrayValue ob ar elem r =
     do {
       (c, r) \<leftarrow> peek r;
       if c \<noteq> CHR ''['' then map_option (\<lambda>r. ((0, False), r)) (skipValue ob ar (violate r))
       else map_option (\<lambda>(n, r). ((n, True), r)) (ar elem r)
     }"

definition chainID :: "objects \<Rightarrow> arrays \<Rightarrow> reader \<Rightarrow> reader option" where
  "chainID ob ar r =
     do {
       (c, r) \<leftarrow> peek r;
       if c \<noteq> CHR 0x22 then skipValue ob ar (violate r)
       else do {
         ((raw, n, escaped), r) \<leftarrow> scan_string (countValue r);
         Some (if \<not> rd_build r then r
               else r\<lparr>rd_chain := (rd_chain r)\<lparr>rc_ID :=
                   (if maxChainID < n then oversize @ digestUnescaped raw else unescaped raw escaped)\<rparr>\<rparr>)
       }
     }"

definition pairValue :: "objects \<Rightarrow> arrays \<Rightarrow> object_kind \<Rightarrow> reader \<Rightarrow> reader option" where
  "pairValue ob ar kind r =
     do {
       (c, r) \<leftarrow> peek r;
       if c \<noteq> CHR ''{'' then skipValue ob ar (violate r)
       else do {
         let r = (if \<not> rd_build r then r
                  else if kind = KindRecordSignature
                  then r\<lparr>rd_entry := (rd_entry r)\<lparr>re_Sig := Some empty_pair\<rparr>\<rparr>
                  else r\<lparr>rd_entry := (rd_entry r)\<lparr>re_Disclosed := Some empty_pair\<rparr>\<rparr>);
         (seen, r) \<leftarrow> ob kind r;
         Some (if seen \<noteq> {0, 1} then violate r else r)
       }
     }"

fun set_field :: "nat \<Rightarrow> string \<Rightarrow> raw_entry \<Rightarrow> raw_entry" where
  "set_field idx s e =
     (if idx = 0 then e\<lparr>re_EntryID := s\<rparr> else if idx = 1 then e\<lparr>re_EntryType := s\<rparr>
      else if idx = 2 then e\<lparr>re_GlobalSeq := s\<rparr> else if idx = 3 then e\<lparr>re_PreviousHash := s\<rparr>
      else if idx = 4 then e\<lparr>re_Timestamp := s\<rparr> else if idx = 5 then e\<lparr>re_ContentHash := s\<rparr>
      else e\<lparr>re_ChainHash := s\<rparr>)"

definition set_pair :: "nat \<Rightarrow> string \<Rightarrow> raw_pair \<Rightarrow> raw_pair" where
  "set_pair idx s p = (if idx = 0 then p\<lparr>rp_a := s\<rparr> else p\<lparr>rp_b := s\<rparr>)"

text \<open>The members of a checkpoint's text, and of its range.\<close>

definition checkpointString :: "objects \<Rightarrow> arrays \<Rightarrow> reader \<Rightarrow> (string \<times> reader) option" where
  "checkpointString ob ar r =
     do {
       ((s, isString), r) \<leftarrow> stringValue ob ar (length (rd_rest r)) True r;
       if isString then Some (s, r) else None
     }"

definition checkpointNumber :: "reader \<Rightarrow> (nat \<times> reader) option" where
  "checkpointNumber r =
     do {
       (c, r) \<leftarrow> peek r;
       require (is_digit c);
       let r = countValue r;
       let digits = takeWhile is_digit (rd_rest r);
       let rest = drop_digits (rd_rest r);
       require (length digits \<le> 16 \<and> \<not> (1 < length digits \<and> hd digits = CHR ''0''));
       require (\<not> (has_prefix ''.'' rest \<or> has_prefix ''e'' rest \<or> has_prefix ''E'' rest));
       require (dec_val digits \<le> maxSafeInteger);
       Some (dec_val digits, r\<lparr>rd_rest := rest\<rparr>)
     }"

definition set_ck :: "(checkpoint \<Rightarrow> checkpoint) \<Rightarrow> reader \<Rightarrow> reader" where
  "set_ck f r = r\<lparr>rd_ck := map_option f (rd_ck r)\<rparr>"

definition ck_string :: "objects \<Rightarrow> arrays \<Rightarrow> (string \<Rightarrow> checkpoint \<Rightarrow> checkpoint) \<Rightarrow> reader \<Rightarrow> reader option" where
  "ck_string ob ar put r = map_option (\<lambda>(s, r). set_ck (put s) r) (checkpointString ob ar r)"

definition ck_number :: "(nat \<Rightarrow> checkpoint \<Rightarrow> checkpoint) \<Rightarrow> reader \<Rightarrow> reader option" where
  "ck_number put r = map_option (\<lambda>(n, r). set_ck (put n) r) (checkpointNumber r)"

definition checkpointMember :: "objects \<Rightarrow> arrays \<Rightarrow> object_kind \<Rightarrow> nat \<Rightarrow> reader \<Rightarrow> reader option" where
  "checkpointMember ob ar kind idx r =
     (if rd_ck r = None then None
      else if kind = KindRange then
        ck_string ob ar (if idx = 0 then (\<lambda>s c. c\<lparr>ck_RangeStart := s\<rparr>) else (\<lambda>s c. c\<lparr>ck_RangeEnd := s\<rparr>)) r
      else if idx = 0 then ck_string ob ar (\<lambda>s c. c\<lparr>ck_AnchorID := s\<rparr>) r
      else if idx = 1 then ck_string ob ar (\<lambda>s c. c\<lparr>ck_ChainHash := s\<rparr>) r
      else if idx = 2 then ck_number (\<lambda>n c. c\<lparr>ck_CreatedAtMs := n\<rparr>) r
      else if idx = 3 then ck_number (\<lambda>n c. c\<lparr>ck_EntryCount := n\<rparr>) r
      else if idx = 4 then ck_string ob ar (\<lambda>s c. c\<lparr>ck_PreviousAnchorID := s\<rparr>) r
      else if idx = 5 then
        do {
          (c, r) \<leftarrow> peek r;
          require (c = CHR ''{'');
          (seen, r) \<leftarrow> ob KindRange r;
          if seen = {0, 1} then Some r else None
        }
      else if idx = 6 then ck_string ob ar (\<lambda>s c. c\<lparr>ck_SignatureText := s\<rparr>) r
      else if idx = 7 then ck_string ob ar (\<lambda>s c. c\<lparr>ck_SigningKeyID := s\<rparr>) r
      else if idx = 8 then ck_string ob ar (\<lambda>s c. c\<lparr>ck_Subject := s\<rparr>) r
      else if idx = 9 then ck_number (\<lambda>n c. c\<lparr>ck_VerifiedThrough := n\<rparr>) r
      else if idx = 10 then ck_number (\<lambda>n c. c\<lparr>ck_Version := n\<rparr>) r
      else None)"

definition member :: "objects \<Rightarrow> arrays \<Rightarrow> object_kind \<Rightarrow> nat \<Rightarrow> reader \<Rightarrow> reader option" where
  "member ob ar kind idx r =
     (case kind of
        KindBundle \<Rightarrow>
          if idx = 0 then
            do {
              ((s, isString), r) \<leftarrow> stringValue ob ar (length FormatID) True r;
              let r = r\<lparr>rd_formatOK := isString \<and> s = FormatID\<rparr>;
              Some (if rd_formatOK r then r else stopBuilding r)
            }
          else map_option snd (arrayValue ob ar ElemChain r)
      | KindChain \<Rightarrow>
          if idx = 0 then chainID ob ar r
          else if idx = 1 then
            do {
              ((n, isArray), r) \<leftarrow> arrayValue ob ar ElemEntry r;
              Some (if isArray \<and> n = 0 then violate r else r)
            }
          else map_option snd (arrayValue ob ar ElemCheckpoint r)
      | KindEntry \<Rightarrow>
          if idx = 7 then pairValue ob ar KindRecordSignature r
          else if idx = 8 then pairValue ob ar KindDisclosed r
          else
            do {
              ((s, _), r) \<leftarrow> stringValue ob ar (entryCaps ! idx) (rd_build r) r;
              Some (if rd_build r then r\<lparr>rd_entry := set_field idx s (rd_entry r)\<rparr> else r)
            }
      | KindRecordSignature \<Rightarrow>
          do {
            ((s, _), r) \<leftarrow> stringValue ob ar (signatureCaps ! idx) (rd_build r) r;
            Some (if rd_build r
                  then r\<lparr>rd_entry := (rd_entry r)\<lparr>re_Sig := map_option (set_pair idx s) (re_Sig (rd_entry r))\<rparr>\<rparr> else r)
          }
      | KindDisclosed \<Rightarrow>
          do {
            ((s, _), r) \<leftarrow> stringValue ob ar (disclosedCaps ! idx) (rd_build r) r;
            Some (if rd_build r
                  then r\<lparr>rd_entry := (rd_entry r)\<lparr>re_Disclosed := map_option (set_pair idx s) (re_Disclosed (rd_entry r))\<rparr>\<rparr>
                  else r)
          }
      | KindOther \<Rightarrow> skipValue ob ar r
      | _ \<Rightarrow> checkpointMember ob ar kind idx r)"

text \<open>The loop of \<open>object\<close>, from a position where a name must start.\<close>

fun object_loop ::
  "nat \<Rightarrow> objects \<Rightarrow> arrays \<Rightarrow> object_kind \<Rightarrow> nat set \<Rightarrow> names \<Rightarrow> reader \<Rightarrow> (nat set \<times> reader) option" where
  "object_loop 0 ob ar kind seen names r = None"
| "object_loop (Suc n) ob ar kind seen names r =
     do {
       require (has_prefix [CHR 0x22] (rd_rest r));
       ((idx, names), r) \<leftarrow> member_name kind names r;
       (c, r) \<leftarrow> peek r;
       require (c = CHR '':'');
       let r = advance r;
       (seen, r) \<leftarrow> (case idx of
           None \<Rightarrow> map_option (Pair seen) (skipValue ob ar (violate r))
         | Some i \<Rightarrow>
             if i \<in> seen then map_option (Pair seen) (skipValue ob ar (foundDuplicate r))
             else map_option (Pair (insert i seen)) (member ob ar kind i r));
       (c, r) \<leftarrow> peek r;
       if c = CHR ''}'' then
         Some (seen, if rd_track r \<and> 1 < length (fst names) then checkNames (fst names) (advance r) else advance r)
       else do {
         require (c = CHR '','');
         (_, r) \<leftarrow> peek (advance r);
         object_loop n ob ar kind seen names r
       }
     }"

definition object_body :: "objects \<Rightarrow> arrays \<Rightarrow> object_kind \<Rightarrow> reader \<Rightarrow> (nat set \<times> reader) option" where
  "object_body ob ar kind r =
     do {
       (c, r) \<leftarrow> peek (advance (countValue r));
       if c = CHR ''}'' then Some ({}, advance r)
       else object_loop (length (rd_rest r)) ob ar kind {} ([], firstNameCheck) r
     }"

definition element :: "objects \<Rightarrow> arrays \<Rightarrow> elem_kind \<Rightarrow> reader \<Rightarrow> reader option" where
  "element ob ar elem r =
     do {
       (c, r) \<leftarrow> peek r;
       case elem of
         ElemChain \<Rightarrow>
           do {
             let r = r\<lparr>rd_nChains := rd_nChains r + 1\<rparr>;
             let r = overLimit (rd_nChains r) (lm_Chains (rd_lim r)) r;
             if c \<noteq> CHR ''{'' then skipValue ob ar (violate r)
             else do {
               (seen, r) \<leftarrow> ob KindChain (r\<lparr>rd_chain := empty_chain\<rparr>);
               let r = (if seen \<noteq> {0, 1, 2} then violate r else r);
               Some (if rd_build r
                     then r\<lparr>rd_chains := rd_chains r @ [rd_chain r], rd_chain := empty_chain\<rparr> else r)
             }
           }
       | ElemEntry \<Rightarrow>
           do {
             let r = r\<lparr>rd_nEntries := rd_nEntries r + 1\<rparr>;
             let r = overLimit (rd_nEntries r) (lm_Entries (rd_lim r)) r;
             if c \<noteq> CHR ''{'' then skipValue ob ar (violate r)
             else do {
               (seen, r) \<leftarrow> ob KindEntry (r\<lparr>rd_entry := empty_entry\<rparr>);
               let r = (if \<not> entryRequired \<subseteq> seen then violate r else r);
               Some (if rd_build r
                     then r\<lparr>rd_chain := (rd_chain r)\<lparr>rc_Entries := rc_Entries (rd_chain r) @ [rd_entry r]\<rparr>,
                            rd_entry := empty_entry\<rparr> else r)
             }
           }
       | ElemCheckpoint \<Rightarrow>
           do {
             let r = r\<lparr>rd_nCheckpoints := rd_nCheckpoints r + 1\<rparr>;
             let r = overLimit (rd_nCheckpoints r) (lm_Checkpoints (rd_lim r)) r;
             if c \<noteq> CHR 0x22 then skipValue ob ar (violate r)
             else do {
               ((raw, n, _), r) \<leftarrow> scan_string (countValue r);
               Some (if rd_build r
                     then r\<lparr>rd_chain := (rd_chain r)\<lparr>rc_Checkpoints := rc_Checkpoints (rd_chain r)
                            @ [if int n \<le> lm_CheckpointBytes (rd_lim r) then Some (appendUnescaped raw) else None]\<rparr>\<rparr>
                     else r)
             }
           }
       | ElemAny \<Rightarrow> skipValue ob ar r
     }"

fun array_loop :: "nat \<Rightarrow> objects \<Rightarrow> arrays \<Rightarrow> elem_kind \<Rightarrow> nat \<Rightarrow> reader \<Rightarrow> (nat \<times> reader) option" where
  "array_loop 0 ob ar elem n r = None"
| "array_loop (Suc k) ob ar elem n r =
     do {
       r \<leftarrow> element ob ar elem r;
       (c, r) \<leftarrow> peek r;
       if c = CHR '']'' then Some (Suc n, advance r)
       else do {
         require (c = CHR '','');
         array_loop k ob ar elem (Suc n) (advance r)
       }
     }"

definition array_body :: "objects \<Rightarrow> arrays \<Rightarrow> elem_kind \<Rightarrow> reader \<Rightarrow> (nat \<times> reader) option" where
  "array_body ob ar elem r =
     do {
       (c, r) \<leftarrow> peek (advance (countValue r));
       if c = CHR '']'' then Some (0, advance r)
       else array_loop (length (rd_rest r)) ob ar elem 0 r
     }"

text \<open>With \<open>d\<close> levels left; at none, one more bracket is over the depth.\<close>

fun object_at :: "nat \<Rightarrow> objects" and array_at :: "nat \<Rightarrow> arrays" where
  "object_at 0 kind r = None"
| "object_at (Suc d) kind r = object_body (object_at d) (array_at d) kind r"
| "array_at 0 elem r = None"
| "array_at (Suc d) elem r = array_body (object_at d) (array_at d) elem r"

definition levels :: "limits \<Rightarrow> nat" where "levels l = nat (lm_Depth l)"

definition document :: "reader \<Rightarrow> reader option" where
  "document r =
     do {
       (c, r) \<leftarrow> peek r;
       r \<leftarrow> (if c = CHR ''{'' then
                do {
                  (seen, r) \<leftarrow> object_at (levels (rd_lim r)) KindBundle (r\<lparr>rd_topObject := True\<rparr>);
                  Some (if 1 \<notin> seen then violate r else r)
                }
              else skipValue (object_at (levels (rd_lim r))) (array_at (levels (rd_lim r))) (violate r));
       if peek r = None then Some r else None
     }"

definition readBundle :: "bytes \<Rightarrow> limits \<Rightarrow> reason + raw_chain list" where
  "readBundle data lim =
     (if lm_BundleBytes lim < int (length data) then Inl ReasonTooLarge
      else case document ((newReader data lim)\<lparr>rd_build := True\<rparr>) of
        None \<Rightarrow> Inl ReasonJSON
      | Some r \<Rightarrow>
          if rd_overValues r then Inl ReasonTooLarge
          else if rd_duplicate r then Inl ReasonDuplicateKey
          else if rd_topObject r \<and> \<not> rd_formatOK r then Inl ReasonFormat
          else if rd_structure r then Inl ReasonStructure
          else if rd_overCount r then Inl ReasonTooLarge
          else Inr (rd_chains r))"

subsection \<open>The text of a checkpoint\<close>

definition checkpoint_shape :: "checkpoint \<Rightarrow> bool" where
  "checkpoint_shape ck \<longleftrightarrow>
     ck_Version ck = 6 \<and> is_label (ck_AnchorID ck) \<and> is_hex 128 (ck_ChainHash ck) \<and> 1 \<le> ck_EntryCount ck \<and>
     is_label (ck_PreviousAnchorID ck) \<and> is_entry_id (ck_RangeStart ck) \<and> is_entry_id (ck_RangeEnd ck) \<and>
     is_hex 32 (ck_SigningKeyID ck) \<and> is_label (ck_Subject ck) \<and> 1 \<le> ck_VerifiedThrough ck"

definition parseCheckpoint :: "bytes option \<Rightarrow> checkpoint option" where
  "parseCheckpoint content =
     do {
       b \<leftarrow> content;
       let lim = \<lparr>lm_BundleBytes = 0, lm_Chains = 0, lm_Entries = 0, lm_Checkpoints = 0, lm_CheckpointBytes = 0,
                 lm_Depth = lm_Depth DefaultLimits, lm_Values = 2 ^ 63 - 1\<rparr>;
       (c, r) \<leftarrow> peek ((newReader b lim)\<lparr>rd_ck := Some empty_checkpoint\<rparr>);
       require (c = CHR ''{'');
       (seen, r) \<leftarrow> object_at (levels lim) KindCheckpoint r;
       require (seen = ckAll \<and> \<not> rd_duplicate r \<and> \<not> rd_structure r);
       require (peek r = None);
       ck \<leftarrow> rd_ck r;
       sig \<leftarrow> decodeCanonicalBase64 (ck_SignatureText ck);
       let ck = ck\<lparr>ck_Signature := sig, ck_SignatureText := []\<rparr>;
       require (length sig = signatureSize);
       require (checkpoint_shape ck);
       Some ck
     }"

end
