(* ===== verification/Export_Grammar.thy ===== *)
theory Export_Grammar
  imports Export_Reader
begin

section \<open>The reader of export bundles as a grammar and an interpreter\<close>

text \<open>
  The reader does two things at once. Here they are taken apart: \<open>strict\<close> is the grammar, from text to a
  tree, and \<open>eff_skip\<close>, \<open>eff_members\<close> and what is built from them say what reading a tree does to the
  reader's state. The reader is the one after the other (\<open>document_run\<close>).
\<close>

subsection \<open>Strings\<close>

lemma hex4_few: "hex4 t = Some v \<Longrightarrow> \<exists>a b c d r. t = a # b # c # d # r \<and> (\<forall>u. hex4 (a # b # c # d # u) = Some v)"
  by (induction t rule: hex4.induct) (auto split: option.splits)

lemma hex4_bound: "hex4 t = Some v \<Longrightarrow> v \<le> 0xFFFF"
proof (induction t rule: hex4.induct)
  case (1 a b c d r)
  have "unhex x = Some n \<Longrightarrow> n < 16" for x n
    by (auto simp: unhex_def less_eq_char_def split: if_splits)
  from this [of a] this [of b] this [of c] this [of d] 1 show ?case by (auto split: option.splits)
qed simp_all

text \<open>What an escape stands for has the length that is counted for it, and the bytes after the escape do
  not matter.\<close>

lemma unescape_ascii: "unescape c = Some x \<Longrightarrow> of_char x < (0x80 :: nat)"
  by (auto simp: unescape_def split: if_splits)

lemma unescape_u [simp]: "unescape (CHR ''u'') = None"
  by (simp add: unescape_def)

lemma escapeAt_Some:
  assumes "escapeAt (c # t) = Some (ch, w)"
  shows "length (utf8_encode ch) = rune_len ch" "2 \<le> w" "w \<le> length (c # t)"
    "escapeAt (take w (c # t) @ u) = Some (ch, w)"
proof -
  from assms obtain d t' where t: "t = d # t'" by (cases t) (simp_all add: escapeAt_def)
  have "length (utf8_encode ch) = rune_len ch \<and> 2 \<le> w \<and> w \<le> length (c # t) \<and> escapeAt (take w (c # t) @ u) = Some (ch, w)"
  proof (cases "d = CHR ''u''")
    case False
    then obtain x where x: "unescape d = Some x" "ch = of_char x" "w = 2"
      using assms t by (auto simp: escapeAt_def)
    then show ?thesis using False unescape_ascii [OF x(1)]
      by (simp add: t utf8_encode_ascii rune_len_def escapeAt_def take_drop_few)
  next
    case True
    then obtain hi where hi: "hex4 t' = Some hi" using assms t by (auto simp: escapeAt_def split: option.splits)
    from hex4_few [OF this] obtain a b e f r where t': "t' = a # b # e # f # r"
      and few: "\<And>u. hex4 (a # b # e # f # u) = Some hi" by blast
    have b: "hi \<le> 0xFFFF" using hex4_bound [OF hi] .
    have not_low: "\<not> (0xDC00 \<le> hi \<and> hi \<le> 0xDFFF)"
      using assms hi by (auto simp: escapeAt_def t True split: if_splits)
    show ?thesis
    proof (cases "hi < 0xD800 \<or> 0xDBFF < hi")
      case True
      then have "ch = hi" "w = 6" using assms hi not_low \<open>d = _\<close> by (auto simp: escapeAt_def t split: if_splits)
      moreover have "hi < 0xD800 \<or> 0xE000 \<le> hi" using True not_low by auto
      moreover have "length (utf8_encode hi) = rune_len hi" if "hi < 0xD800 \<or> 0xE000 \<le> hi"
        using that b by (auto simp: utf8_encode_def rune_len_def)
      ultimately show ?thesis using few True not_low \<open>d = _\<close>
        by (simp add: t t' escapeAt_def del: hex4.simps)
    next
      case False
      then have pre: "has_prefix [CHR 0x5C, CHR ''u''] r"
        using assms hi not_low \<open>d = _\<close> by (auto simp: escapeAt_def t t' split: if_splits)
      then obtain r' where r: "r = CHR 0x5C # CHR ''u'' # r'" by (auto simp: has_prefix_iff)
      obtain lo where lo: "hex4 r' = Some lo" "\<not> (lo < 0xDC00 \<or> 0xDFFF < lo)" 
        and ch: "ch = 0x10000 + (hi - 0xD800) * 1024 + (lo - 0xDC00)" and w: "w = 12"
        using assms hi not_low False \<open>d = _\<close> pre by (auto simp: escapeAt_def t t' r split: if_splits option.splits)
      from hex4_few [OF lo(1)] obtain a' b' e' f' r2 where r': "r' = a' # b' # e' # f' # r2"
        and few': "\<And>u. hex4 (a' # b' # e' # f' # u) = Some lo" by blast
      have "ch \<le> 0x10FFFF" "0x10000 \<le> ch" using ch False lo(2) by (simp_all, linarith)
      then have "length (utf8_encode ch) = rune_len ch" by (simp add: utf8_encode_def rune_len_def)
      then show ?thesis using few few' False not_low lo(2) ch \<open>d = _\<close>
        by (simp add: t t' r r' w escapeAt_def has_prefix_def del: hex4.simps)
    qed
  qed
  then show "length (utf8_encode ch) = rune_len ch" "2 \<le> w" "w \<le> length (c # t)"
    "escapeAt (take w (c # t) @ u) = Some (ch, w)" by blast+
qed

lemma appendUnescaped_plain: "CHR 0x5C \<notin> set u \<Longrightarrow> appendUnescaped (u @ raw) = u @ appendUnescaped raw"
  by (induction u) auto

lemma appendUnescaped_escape:
  assumes "escapeAt (c # t) = Some (ch, w)" "c = CHR 0x5C"
  shows "appendUnescaped (take w (c # t) @ raw) = utf8_encode ch @ appendUnescaped raw"
proof -
  have w: "2 \<le> w" "w \<le> length (c # t)" using escapeAt_Some [OF assms(1)] by blast+
  then have split: "take w (c # t) @ raw = c # take (w - 1) t @ raw" by (cases w) simp_all
  moreover have "drop (w - 1) (take (w - 1) t @ raw) = raw" using w by simp
  ultimately show ?thesis using escapeAt_Some(4) [OF assms(1), of raw] assms(2) by simp
qed

lemma rune_bytes:
  assumes "w = rune_width (c # t)" "w \<noteq> 0"
  shows "w \<le> length (c # t)" "2 \<le> w" "\<And>x. x \<in> set (take w (c # t)) \<Longrightarrow> (0x80 :: nat) \<le> of_char x"
proof -
  show "w \<le> length (c # t)" using assms(1) rune_width_le [of "c # t"] by simp
  from assms show "2 \<le> w" by (elim rune_width_cases) simp_all
  fix x assume "x \<in> set (take w (c # t))"
  with assms show "(0x80 :: nat) \<le> of_char x"
    by (elim rune_width_cases) (auto simp: take_drop_few byte_in_def split: if_splits)
qed

lemma read_string_escape:
  assumes "escapeAt (c # t) = Some (ch, w)" "c = CHR 0x5C" "read_string (drop (w - 1) t) = Some (x, r)"
  shows "read_string (c # t) = Some (utf8_encode ch @ x, r)"
proof -
  from assms(1) obtain d t' where t: "t = d # t'" by (cases t) (simp_all add: escapeAt_def)
  show ?thesis
  proof (cases "d = CHR ''u''")
    case False
    then obtain y where y: "unescape d = Some y" "ch = of_char y" "w = 2"
      using assms(1) t by (auto simp: escapeAt_def)
    then show ?thesis using assms False unescape_ascii [OF y(1)]
      by (simp add: t read_string.simps(2) utf8_encode_ascii)
  next
    case True
    then obtain hi where hi: "hex4 t' = Some hi" using assms t by (auto simp: escapeAt_def split: option.splits)
    have not_low: "\<not> (0xDC00 \<le> hi \<and> hi \<le> 0xDFFF)"
      using assms hi by (auto simp: escapeAt_def t True split: if_splits)
    show ?thesis
    proof (cases "hi < 0xD800 \<or> 0xDBFF < hi")
      case True
      then have "ch = hi" "w = 6" "hi < 0xD800 \<or> 0xE000 \<le> hi"
        using assms hi not_low \<open>d = _\<close> by (auto simp: escapeAt_def t split: if_splits)
      then show ?thesis using assms hi \<open>d = _\<close> by (auto simp: t read_string.simps(2))
    next
      case False
      then have pre: "has_prefix [CHR 0x5C, CHR ''u''] (drop 4 t')"
        using assms hi not_low \<open>d = _\<close> by (auto simp: escapeAt_def t split: if_splits)
      obtain lo where lo: "hex4 (drop 6 t') = Some lo" "\<not> (lo < 0xDC00 \<or> 0xDFFF < lo)" 
        and ch: "ch = 0x10000 + (hi - 0xD800) * 1024 + (lo - 0xDC00)" and w: "w = 12"
        using assms hi not_low False \<open>d = _\<close> pre by (auto simp: escapeAt_def t split: if_splits option.splits)
      have "escape4 (drop 4 t') = Some lo" using pre lo(1) by (simp add: escape4_def)
      then show ?thesis using assms hi False lo(2) \<open>d = _\<close>
        by (simp add: t read_string.simps(2) w ch add.commute add.left_commute)
    qed
  qed
qed

lemma scan_facts:
  assumes "scanString s = Some (raw, n, escaped, r)"
  shows "length (appendUnescaped raw) = n \<and> (\<not> escaped \<longrightarrow> appendUnescaped raw = raw) \<and> length r < length s
    \<and> read_string s = Some (appendUnescaped raw, r)"
  using assms
proof (induction s arbitrary: raw n escaped r rule: scanString.induct)
  case 1
  then show ?case by simp
next
  case (2 c t)
  consider "c = CHR 0x22" | "c = CHR 0x5C" | "c \<noteq> CHR 0x22" "c \<noteq> CHR 0x5C" "of_char c < (0x80 :: nat)"
    | "c \<noteq> CHR 0x22" "c \<noteq> CHR 0x5C" "\<not> of_char c < (0x80 :: nat)" by blast
  then show ?case
  proof cases
    case 1
    with "2.prems" show ?thesis by (auto simp: read_string.simps(2))
  next
    case 2
    with "2.prems" obtain ch w raw' n' e' where ch: "escapeAt (c # t) = Some (ch, w)"
      and rest: "scanString (drop (w - 1) t) = Some (raw', n', e', r)"
      and ps: "raw = take w (c # t) @ raw'" "n = rune_len ch + n'" escaped
      by (auto split: option.splits)
    have IH: "length (appendUnescaped raw') = n'" "length r < length (drop (w - 1) t)"
      "read_string (drop (w - 1) t) = Some (appendUnescaped raw', r)"
      using "2.IH"(1) [OF _ 2 ch refl rest] 2 by simp_all
    note e = escapeAt_Some [OF ch]
    have "appendUnescaped raw = utf8_encode ch @ appendUnescaped raw'"
      unfolding ps by (rule appendUnescaped_escape [OF ch 2])
    moreover have "read_string (c # t) = Some (utf8_encode ch @ appendUnescaped raw', r)"
      by (rule read_string_escape [OF ch 2 IH(3)])
    ultimately show ?thesis using IH e ps by simp
  next
    case 3
    with "2.prems" obtain raw' n' e' where u: "\<not> of_char c < (0x20 :: nat)"
      and rest: "scanString t = Some (raw', n', e', r)" and ps: "raw = c # raw'" "n = Suc n'" "escaped = e'"
      by (auto split: if_splits)
    from "2.IH"(2) [OF 3(1,2) u 3(3) rest] show ?thesis using 3 u ps by (auto simp: read_string.simps(2))
  next
    case 4
    define w where "w = rune_width (c # t)"
    from 4 "2.prems" obtain raw' n' e' where w0: "w \<noteq> 0" and u: "\<not> of_char c < (0x20 :: nat)"
      and rest: "scanString (drop (w - 1) t) = Some (raw', n', e', r)"
      and ps: "raw = take w (c # t) @ raw'" "n = w + n'" "escaped = e'"
      by (auto simp: Let_def w_def split: if_splits)
    note f = rune_bytes [OF w_def w0]
    have IH: "length (appendUnescaped raw') = n'" "length r < length (drop (w - 1) t)" "\<not> e' \<longrightarrow> appendUnescaped raw' = raw'"
      "read_string (drop (w - 1) t) = Some (appendUnescaped raw', r)"
      using "2.IH"(3) [OF 4(1,2) u 4(3) w_def w0 rest] by simp_all
    have "CHR 0x5C \<notin> set (take w (c # t))" using f(3) by force
    then have "appendUnescaped raw = take w (c # t) @ appendUnescaped raw'"
      unfolding ps by (rule appendUnescaped_plain)
    moreover have "drop w (c # t) = drop (w - 1) t" using f(2) by (cases w) simp_all
    then have "read_string (c # t) = Some (take w (c # t) @ appendUnescaped raw', r)"
      using 4 u w0 IH(4) by (simp add: read_string.simps(2) w_def [symmetric] Let_def)
    ultimately show ?thesis using IH f(1) ps by simp
  qed
qed

subsection \<open>The grammar\<close>

definition strict_string :: "string \<Rightarrow> (string \<times> string) option" where
  "strict_string s = map_option (\<lambda>(raw, n, escaped, r). (appendUnescaped raw, r)) (scanString s)"

definition strict_scalar :: "string \<Rightarrow> (json \<times> string) option" where
  "strict_scalar s =
     (case skip_ws s of
        [] \<Rightarrow> None
      | c # t \<Rightarrow>
          if c = CHR 0x22 then map_option (\<lambda>(x, r). (JStr x, r)) (strict_string t)
          else if c = CHR ''t'' then (if has_prefix ''true'' (c # t) then Some (JBool True, drop 4 (c # t)) else None)
          else if c = CHR ''f'' then (if has_prefix ''false'' (c # t) then Some (JBool False, drop 5 (c # t)) else None)
          else if c = CHR ''n'' then (if has_prefix ''null'' (c # t) then Some (JNull, drop 4 (c # t)) else None)
          else if c = CHR ''-'' \<or> is_digit c then
            map_option (\<lambda>r. (JNum (take (length (c # t) - length r) (c # t)), r)) (number_after (c # t))
          else None)"

fun strict_members :: "nat \<Rightarrow> (string \<Rightarrow> (json \<times> string) option) \<Rightarrow> string \<Rightarrow> ((string \<times> json) list \<times> string) option" where
  "strict_members 0 val s = None"
| "strict_members (Suc n) val s =
     do {
       require (has_prefix [CHR 0x22] s);
       (k, s) \<leftarrow> strict_string (tl s);
       require (has_prefix '':'' (skip_ws s));
       (v, s) \<leftarrow> val (tl (skip_ws s));
       if has_prefix ''}'' (skip_ws s) then Some ([(k, v)], tl (skip_ws s))
       else do {
         require (has_prefix '','' (skip_ws s));
         (ms, s) \<leftarrow> strict_members n val (skip_ws (tl (skip_ws s)));
         Some ((k, v) # ms, s)
       }
     }"

fun strict_items :: "nat \<Rightarrow> (string \<Rightarrow> (json \<times> string) option) \<Rightarrow> string \<Rightarrow> (json list \<times> string) option" where
  "strict_items 0 val s = None"
| "strict_items (Suc n) val s =
     do {
       (v, s) \<leftarrow> val s;
       if has_prefix '']'' (skip_ws s) then Some ([v], tl (skip_ws s))
       else do {
         require (has_prefix '','' (skip_ws s));
         (vs, s) \<leftarrow> strict_items n val (tl (skip_ws s));
         Some (v # vs, s)
       }
     }"

text \<open>After the bracket.\<close>

definition strict_object :: "(string \<Rightarrow> (json \<times> string) option) \<Rightarrow> string \<Rightarrow> ((string \<times> json) list \<times> string) option" where
  "strict_object val s =
     (if has_prefix ''}'' (skip_ws s) then Some ([], tl (skip_ws s))
      else strict_members (length (skip_ws s)) val (skip_ws s))"

definition strict_array :: "(string \<Rightarrow> (json \<times> string) option) \<Rightarrow> string \<Rightarrow> (json list \<times> string) option" where
  "strict_array val s =
     (if has_prefix '']'' (skip_ws s) then Some ([], tl (skip_ws s))
      else strict_items (length (skip_ws s)) val (skip_ws s))"

fun strict :: "nat \<Rightarrow> string \<Rightarrow> (json \<times> string) option" where
  "strict 0 s = strict_scalar s"
| "strict (Suc d) s =
     (if has_prefix ''{'' (skip_ws s) then map_option (\<lambda>(ms, r). (JObj ms, r)) (strict_object (strict d) (tl (skip_ws s)))
      else if has_prefix ''['' (skip_ws s) then map_option (\<lambda>(xs, r). (JArr xs, r)) (strict_array (strict d) (tl (skip_ws s)))
      else strict_scalar s)"

text \<open>A whole text, of at most \<open>d\<close> levels.\<close>

definition strict_text :: "nat \<Rightarrow> string \<Rightarrow> json option" where
  "strict_text d s = do { (v, r) \<leftarrow> strict d s; if skip_ws r = [] then Some v else None }"

subsection \<open>What reading a tree does\<close>

definition eff_name :: "object_kind \<Rightarrow> names \<Rightarrow> string \<Rightarrow> reader \<Rightarrow> (nat option \<times> names) \<times> reader" where
  "eff_name kind names k r =
     (case (if memberNames kind \<noteq> [] \<and> length k \<le> maxMemberName then index_of k (memberNames kind) else None) of
        Some i \<Rightarrow> ((Some i, names), r)
      | None \<Rightarrow>
          if \<not> rd_track r then ((None, names), r)
          else let unknown = fst names @ [k]
               in if snd names \<le> length unknown
                  then ((None, (sort unknown, 2 * length unknown)), checkNames unknown r)
                  else ((None, (unknown, snd names)), r))"

fun eff_members ::
  "(json \<Rightarrow> reader \<Rightarrow> reader) \<Rightarrow> (nat \<Rightarrow> json \<Rightarrow> reader \<Rightarrow> reader) \<Rightarrow> object_kind \<Rightarrow> nat set \<Rightarrow> names
     \<Rightarrow> (string \<times> json) list \<Rightarrow> reader \<Rightarrow> nat set \<times> reader" where
  "eff_members sk h kind seen names [] r =
     (seen, if rd_track r \<and> 1 < length (fst names) then checkNames (fst names) r else r)"
| "eff_members sk h kind seen names ((k, v) # ms) r =
     (case eff_name kind names k r of
        ((None, names), r) \<Rightarrow> eff_members sk h kind seen names ms (sk v (violate r))
      | ((Some i, names), r) \<Rightarrow>
          if i \<in> seen then eff_members sk h kind seen names ms (sk v (foundDuplicate r))
          else eff_members sk h kind (insert i seen) names ms (h i v r))"

lemma eff_members_cong [fundef_cong]:
  assumes "ms = ms'" "r = r'" "kind = kind'" "seen = seen'" "names = names'"
    and "\<And>k v r. (k, v) \<in> set ms' \<Longrightarrow> sk v r = sk' v r"
    and "\<And>k v i r. (k, v) \<in> set ms' \<Longrightarrow> h i v r = h' i v r"
  shows "eff_members sk h kind seen names ms r = eff_members sk' h' kind' seen' names' ms' r'"
proof -
  have "eff_members sk h kind seen names ms' r = eff_members sk' h' kind seen names ms' r"
    using assms(6,7)
  proof (induction ms' arbitrary: seen names r)
    case (Cons m ms)
    obtain k v where m: "m = (k, v)" by fastforce
    have "sk v r = sk' v r" for r using Cons.prems(1) [of k v r] m by simp
    moreover have "h i v r = h' i v r" for i r using Cons.prems(2) [of k v i r] m by simp
    moreover have "sk v r = sk' v r" if "(k, v) \<in> set ms" for k v r using Cons.prems(1) [of k v r] that by simp
    moreover have "h i v r = h' i v r" if "(k, v) \<in> set ms" for k v i r using Cons.prems(2) [of k v i r] that by simp
    ultimately have "eff_members sk h kind seen names ms r = eff_members sk' h' kind seen names ms r" for seen names r
      by (intro Cons.IH)
    moreover note \<open>\<And>r. sk v r = sk' v r\<close> \<open>\<And>i r. h i v r = h' i v r\<close>
    ultimately show ?case unfolding m by (simp split: prod.split option.split)
  qed simp
  with assms(1-5) show ?thesis by simp
qed

definition eff_object ::
  "(json \<Rightarrow> reader \<Rightarrow> reader) \<Rightarrow> (nat \<Rightarrow> json \<Rightarrow> reader \<Rightarrow> reader) \<Rightarrow> object_kind \<Rightarrow> (string \<times> json) list \<Rightarrow> reader
     \<Rightarrow> nat set \<times> reader" where
  "eff_object sk h kind ms r = eff_members sk h kind {} ([], firstNameCheck) ms (countValue r)"

lemma eff_object_cong [fundef_cong]:
  assumes "ms = ms'" "r = r'" "kind = kind'"
    and "\<And>k v r. (k, v) \<in> set ms' \<Longrightarrow> sk v r = sk' v r"
    and "\<And>k v i r. (k, v) \<in> set ms' \<Longrightarrow> h i v r = h' i v r"
  shows "eff_object sk h kind ms r = eff_object sk' h' kind' ms' r'"
  unfolding eff_object_def assms(1-3) by (rule eff_members_cong) (use assms(4,5) in auto)

fun eff_skip :: "json \<Rightarrow> reader \<Rightarrow> reader" where
  "eff_skip (JObj ms) r = snd (eff_object eff_skip (\<lambda>_. eff_skip) KindOther ms r)"
| "eff_skip (JArr xs) r = fold eff_skip xs (countValue r)"
| "eff_skip v r = countValue r"

subsection \<open>The reader is the interpreter after the grammar\<close>

definition run :: "(string \<Rightarrow> ('a \<times> string) option) \<Rightarrow> ('a \<Rightarrow> reader \<Rightarrow> reader) \<Rightarrow> reader \<Rightarrow> reader option" where
  "run val f r = map_option (\<lambda>(v, s). (f v r)\<lparr>rd_rest := s\<rparr>) (val (rd_rest r))"

definition run_with :: "(string \<Rightarrow> ('a \<times> string) option) \<Rightarrow> ('a \<Rightarrow> reader \<Rightarrow> 'b \<times> reader) \<Rightarrow> reader \<Rightarrow> ('b \<times> reader) option" where
  "run_with val f r = map_option (\<lambda>(v, s). (fst (f v r), (snd (f v r))\<lparr>rd_rest := s\<rparr>)) (val (rd_rest r))"

text \<open>An effect neither reads nor moves the position.\<close>

definition restless :: "(reader \<Rightarrow> reader) \<Rightarrow> bool" where
  "restless f \<longleftrightarrow> (\<forall>r s. f (r\<lparr>rd_rest := s\<rparr>) = (f r)\<lparr>rd_rest := s\<rparr>)"

definition restless2 :: "(reader \<Rightarrow> 'b \<times> reader) \<Rightarrow> bool" where
  "restless2 f \<longleftrightarrow> (\<forall>r s. f (r\<lparr>rd_rest := s\<rparr>) = (fst (f r), (snd (f r))\<lparr>rd_rest := s\<rparr>))"

lemmas reader_steps = stopBuilding_def violate_def stopTracking_def foundDuplicate_def countValue_def overLimit_def
  checkNames_def Let_def

lemma step_rest [simp]:
  "violate (r\<lparr>rd_rest := s\<rparr>) = (violate r)\<lparr>rd_rest := s\<rparr>"
  "foundDuplicate (r\<lparr>rd_rest := s\<rparr>) = (foundDuplicate r)\<lparr>rd_rest := s\<rparr>"
  "stopBuilding (r\<lparr>rd_rest := s\<rparr>) = (stopBuilding r)\<lparr>rd_rest := s\<rparr>"
  "countValue (r\<lparr>rd_rest := s\<rparr>) = (countValue r)\<lparr>rd_rest := s\<rparr>"
  "overLimit n m (r\<lparr>rd_rest := s\<rparr>) = (overLimit n m r)\<lparr>rd_rest := s\<rparr>"
  "checkNames names (r\<lparr>rd_rest := s\<rparr>) = (checkNames names r)\<lparr>rd_rest := s\<rparr>"
  by (simp_all add: reader_steps)

lemma step_rest_same [simp]:
  "rd_rest (violate r) = rd_rest r" "rd_rest (foundDuplicate r) = rd_rest r" "rd_rest (stopBuilding r) = rd_rest r"
  "rd_rest (countValue r) = rd_rest r" "rd_rest (overLimit n m r) = rd_rest r" "rd_rest (checkNames names r) = rd_rest r"
  by (simp_all add: reader_steps)

lemma eff_name_rest [simp]:
  "eff_name kind names k (r\<lparr>rd_rest := s\<rparr>) = (fst (eff_name kind names k r), (snd (eff_name kind names k r))\<lparr>rd_rest := s\<rparr>)"
  by (simp add: eff_name_def Let_def split: option.split)

lemma restless_comp: "restless f \<Longrightarrow> restless g \<Longrightarrow> restless (\<lambda>r. f (g r))"
  by (simp add: restless_def)

lemma restless_steps [simp]: "restless violate" "restless foundDuplicate" "restless stopBuilding" "restless countValue"
  "restless (overLimit n m)" "restless (checkNames names)"
  by (simp_all add: restless_def)

lemma eff_members_restless:
  assumes "\<And>k v. (k, v) \<in> set ms \<Longrightarrow> restless (sk v)" "\<And>k v i. (k, v) \<in> set ms \<Longrightarrow> restless (h i v)"
  shows "restless2 (eff_members sk h kind seen names ms)"
  using assms
proof (induction ms arbitrary: seen names)
  case Nil
  then show ?case by (simp add: restless2_def)
next
  case (Cons m ms)
  obtain k v where m: "m = (k, v)" by fastforce
  have 1: "restless (sk v)" using Cons.prems(1) [of k v] m by simp
  have 2: "restless (h i v)" for i using Cons.prems(2) [of k v i] m by simp
  have 3: "restless (sk v)" if "(k, v) \<in> set ms" for k v using Cons.prems(1) [of k v] that by simp
  have 4: "restless (h i v)" if "(k, v) \<in> set ms" for k v i using Cons.prems(2) [of k v i] that by simp
  have "restless2 (eff_members sk h kind seen names ms)" for seen names by (rule Cons.IH [OF 3 4])
  with 1 2 show ?case unfolding m restless2_def restless_def
    by (simp split: prod.split option.split)
qed

lemma eff_object_restless:
  assumes "\<And>k v. (k, v) \<in> set ms \<Longrightarrow> restless (sk v)" "\<And>k v i. (k, v) \<in> set ms \<Longrightarrow> restless (h i v)"
  shows "restless2 (eff_object sk h kind ms)"
  using eff_members_restless [OF assms, where kind = kind and seen = "{}" and names = "([], firstNameCheck)"] by (simp add: restless2_def eff_object_def)

lemma fold_restless: "(\<And>x. x \<in> set xs \<Longrightarrow> restless (f x)) \<Longrightarrow> restless (fold f xs)"
proof (induction xs)
  case (Cons x xs)
  then have "restless (f x)" "restless (fold f xs)" by simp_all
  then show ?case by (simp add: restless_def)
qed (simp add: restless_def)

lemma eff_skip_restless [simp]: "restless (eff_skip v)"
proof (induction v)
  case (JArr xs)
  then have "restless (fold eff_skip xs)" by (intro fold_restless)
  then show ?case by (simp add: restless_def)
next
  case (JObj ms)
  then have "restless2 (eff_object eff_skip (\<lambda>_. eff_skip) KindOther ms)"
    by (intro eff_object_restless) force+
  then show ?case by (simp add: restless_def restless2_def)
qed (simp_all add: restless_def)

lemma scan_string_run:
  "scan_string r = map_option (\<lambda>(raw, n, escaped, t). ((raw, n, escaped), r\<lparr>rd_rest := t\<rparr>)) (scanString (tl (rd_rest r)))"
  by (simp add: scan_string_def)

lemma unescaped_scan: "scanString s = Some (raw, n, escaped, t) \<Longrightarrow> unescaped raw escaped = appendUnescaped raw \<and> n = length (appendUnescaped raw)"
  using scan_facts [of s raw n escaped t] by (auto simp: unescaped_def)

lemma member_name_run:
  "member_name kind names r = run_with strict_string (eff_name kind names) (advance r)"
proof (cases "scanString (tl (rd_rest r))")
  case None
  then show ?thesis by (simp add: member_name_def scan_string_def run_with_def strict_string_def advance_def)
next
  case (Some x)
  then obtain raw n escaped t where s: "scanString (tl (rd_rest r)) = Some (raw, n, escaped, t)" by (cases x) auto
  then have "unescaped raw escaped = appendUnescaped raw" "n = length (appendUnescaped raw)"
    using unescaped_scan by blast+
  with s show ?thesis
    by (simp add: member_name_def scan_string_def run_with_def strict_string_def advance_def eff_name_def Let_def
        split: option.split)
qed

lemma peek_run: "peek r = (case skip_ws (rd_rest r) of [] \<Rightarrow> None | c # t \<Rightarrow> Some (c, r\<lparr>rd_rest := skip_ws (rd_rest r)\<rparr>))"
  by (simp add: peek_def split: list.split)

lemma has_prefix_one: "has_prefix [c] s \<longleftrightarrow> (\<exists>t. s = c # t)"
  by (simp add: has_prefix_iff)

lemma index_of_less: "index_of x ys = Some i \<Longrightarrow> i < length ys"
  by (induction ys arbitrary: i) (auto split: if_splits)

lemma eff_name_index: "fst (fst (eff_name kind names k r)) = Some i \<Longrightarrow> i < length (memberNames kind)"
  by (auto simp: eff_name_def Let_def split: option.splits if_splits dest: index_of_less)

text \<open>The end of an object and of an array, and the step to the next member or element.\<close>

lemma bind_require: "require b \<bind> f = (if b then f () else None)"
  by (simp add: require_def)

lemma strict_members_Nil [simp]: "strict_members n val [] = None"
  by (cases n) (simp_all add: bind_require has_prefix_def)

lemma object_loop_run:
  assumes sk: "\<And>r. skipValue ob ar r = run val sk r" and skr: "\<And>v. restless (sk v)"
    and h: "\<And>i r. i < length (memberNames kind) \<Longrightarrow> member ob ar kind i r = run val (h i) r"
    and hr: "\<And>i v. restless (h i v)"
  shows "object_loop n ob ar kind seen names r
    = run_with (strict_members n val) (eff_members sk h kind seen names) r"
proof (induction n arbitrary: seen names r)
  case 0
  then show ?case by (simp add: run_with_def)
next
  case (Suc n)
  show ?case
  proof (cases "has_prefix [CHR 0x22] (rd_rest r)")
    case False
    then show ?thesis by (simp add: bind_require run_with_def)
  next
    case q: True
    show ?thesis
    proof (cases "strict_string (tl (rd_rest r))")
      case None
      with q show ?thesis by (simp add: bind_require run_with_def member_name_run advance_def)
    next
      case (Some x)
      then obtain k s where ks: "strict_string (tl (rd_rest r)) = Some (k, s)" by (cases x) auto
      obtain idx names' r1 where e: "eff_name kind names k r = ((idx, names'), r1)"
        by (cases "eff_name kind names k r") auto
      have mn: "member_name kind names r = Some ((idx, names'), r1\<lparr>rd_rest := s\<rparr>)"
        using ks e by (simp add: member_name_run run_with_def advance_def)
      have step: "object_loop (Suc n) ob ar kind seen names r =
         do {
           (c, r) \<leftarrow> peek (r1\<lparr>rd_rest := s\<rparr>);
           require (c = CHR '':'');
           let r = advance r;
           (seen, r) \<leftarrow> (case idx of
               None \<Rightarrow> map_option (Pair seen) (skipValue ob ar (violate r))
             | Some i \<Rightarrow>
                 if i \<in> seen then map_option (Pair seen) (skipValue ob ar (foundDuplicate r))
                 else map_option (Pair (insert i seen)) (member ob ar kind i r));
           (c, r) \<leftarrow> peek r;
           if c = CHR ''}'' then
             Some (seen, if rd_track r \<and> 1 < length (fst names') then checkNames (fst names') (advance r) else advance r)
           else do {
             require (c = CHR '','');
             (_, r) \<leftarrow> peek (advance r);
             object_loop n ob ar kind seen names' r
           }
         }"
        by (simp add: bind_require q mn)
      show ?thesis
      proof (cases "has_prefix '':'' (skip_ws s)")
        case False
        then show ?thesis unfolding step
          by (auto simp: bind_require run_with_def q ks peek_run has_prefix_one split: list.splits)
      next
        case colon: True
        then obtain u where u: "skip_ws s = CHR '':'' # u" by (auto simp: has_prefix_one)
        define seen' where "seen' = (case idx of None \<Rightarrow> seen | Some i \<Rightarrow> insert i seen)"
        define g where "g = (\<lambda>v. case idx of None \<Rightarrow> sk v (violate r1)
          | Some i \<Rightarrow> if i \<in> seen then sk v (foundDuplicate r1) else h i v r1)"
        have i: "i < length (memberNames kind)" if "idx = Some i" for i
          using eff_name_index [of kind names k r i] e that by simp
        have mid: "(case idx of
               None \<Rightarrow> map_option (Pair seen) (skipValue ob ar (violate (r1\<lparr>rd_rest := u\<rparr>)))
             | Some i \<Rightarrow>
                 if i \<in> seen then map_option (Pair seen) (skipValue ob ar (foundDuplicate (r1\<lparr>rd_rest := u\<rparr>)))
                 else map_option (Pair (insert i seen)) (member ob ar kind i (r1\<lparr>rd_rest := u\<rparr>)))
            = map_option (\<lambda>(v, w). (seen', (g v)\<lparr>rd_rest := w\<rparr>)) (val u)"
          using skr hr i
          by (cases "val u") (auto simp: sk h run_def seen'_def g_def restless_def insert_absorb split: option.split)
        have tree: "eff_members sk h kind seen names ((k, v) # ms) r = eff_members sk h kind seen' names' ms (g v)" for v ms
          by (auto simp: e seen'_def g_def insert_absorb split: option.split)
        have fin: "eff_members sk h kind seen names [(k, v)] r
            = (seen', if rd_track (g v) \<and> 1 < length (fst names') then checkNames (fst names') (g v) else g v)" for v
          unfolding tree by simp
        show ?thesis
        proof (cases "val u")
          case None
          then show ?thesis unfolding step
            by (simp add: bind_require run_with_def q ks peek_run u advance_def mid has_prefix_one)
        next
          case (Some x)
          then obtain v w where v: "val u = Some (v, w)" by (cases x) auto
          have loop: "object_loop n ob ar kind seen' names' ((g v)\<lparr>rd_rest := t\<rparr>)
              = map_option (\<lambda>(ms, s). (fst (eff_members sk h kind seen names ((k, v) # ms) r),
                  (snd (eff_members sk h kind seen names ((k, v) # ms) r))\<lparr>rd_rest := s\<rparr>)) (strict_members n val t)" for t
          proof -
            have "restless2 (eff_members sk h kind seen' names' ms)" for ms
              by (intro eff_members_restless skr hr)
            then show ?thesis unfolding Suc.IH tree by (simp add: run_with_def restless2_def)
          qed
          have whole: "object_loop (Suc n) ob ar kind seen names r =
             do {
               (c, r) \<leftarrow> peek ((g v)\<lparr>rd_rest := w\<rparr>);
               if c = CHR ''}'' then
                 Some (seen', if rd_track r \<and> 1 < length (fst names') then checkNames (fst names') (advance r) else advance r)
               else do {
                 require (c = CHR '','');
                 (_, r) \<leftarrow> peek (advance r);
                 object_loop n ob ar kind seen' names' r
               }
             }"
            unfolding step by (simp add: bind_require peek_run u advance_def mid v)
          have strict: "strict_members (Suc n) val (rd_rest r) =
             (if has_prefix ''}'' (skip_ws w) then Some ([(k, v)], tl (skip_ws w))
              else do {
                require (has_prefix '','' (skip_ws w));
                (ms, s) \<leftarrow> strict_members n val (skip_ws (tl (skip_ws w)));
                Some ((k, v) # ms, s)
              })"
            using colon by (simp add: bind_require q ks u v)
          show ?thesis
          proof (cases "skip_ws w")
            case Nil
            then show ?thesis unfolding whole run_with_def strict by (simp add: peek_run has_prefix_def bind_require)
          next
            case (Cons c t)
            show ?thesis
            proof (cases "c = CHR ''}''")
              case True
              then show ?thesis unfolding whole run_with_def strict
                by (simp add: peek_run Cons fin has_prefix_def advance_def del: eff_members.simps)
            next
              case False
              then show ?thesis unfolding whole run_with_def strict
                using loop [of "skip_ws t"]
                by (cases "skip_ws t"; cases "strict_members n val (skip_ws t)")
                  (auto simp: peek_run Cons has_prefix_def advance_def bind_require simp del: eff_members.simps)
            qed
          qed
        qed
      qed
    qed
  qed
qed

lemma object_body_run:
  assumes sk: "\<And>r. skipValue ob ar r = run val sk r" and skr: "\<And>v. restless (sk v)"
    and h: "\<And>i r. i < length (memberNames kind) \<Longrightarrow> member ob ar kind i r = run val (h i) r"
    and hr: "\<And>i v. restless (h i v)"
  shows "object_body ob ar kind r = run_with (\<lambda>s. strict_object val (tl s)) (eff_object sk h kind) r"
proof -
  note loop = object_loop_run [OF sk skr h hr]
  have rest: "restless2 (eff_members sk h kind {} ([], firstNameCheck) ms)" for ms
    by (intro eff_members_restless skr hr)
  show ?thesis
  proof (cases "skip_ws (tl (rd_rest r))")
    case Nil
    then show ?thesis
      by (simp add: object_body_def run_with_def strict_object_def peek_run advance_def has_prefix_def)
  next
    case (Cons c t)
    then show ?thesis using rest
      by (cases "c = CHR ''}''")
        (auto simp: object_body_def run_with_def strict_object_def peek_run advance_def has_prefix_def
          eff_object_def loop restless2_def intro!: option.map_cong)
  qed
qed

lemma array_loop_run:
  assumes el: "\<And>r. element ob ar elem r = run val el r" and elr: "\<And>v. restless (el v)"
  shows "array_loop n ob ar elem k r = run_with (strict_items n val) (\<lambda>vs r. (k + length vs, fold el vs r)) r"
proof (induction n arbitrary: k r)
  case 0
  then show ?case by (simp add: run_with_def)
next
  case (Suc n)
  have fr: "fold el vs (r\<lparr>rd_rest := s\<rparr>) = (fold el vs r)\<lparr>rd_rest := s\<rparr>" for vs r s
    using fold_restless [of vs el] elr by (simp add: restless_def)
  show ?case
  proof (cases "val (rd_rest r)")
    case None
    then show ?thesis by (simp add: run_with_def run_def el)
  next
    case (Some x)
    then obtain v w where v: "val (rd_rest r) = Some (v, w)" by (cases x) auto
    show ?thesis
    proof (cases "skip_ws w")
      case Nil
      then show ?thesis by (simp add: run_with_def run_def el v peek_run has_prefix_def bind_require)
    next
      case (Cons c t)
      then show ?thesis
        by (cases "c = CHR '']''"; cases "strict_items n val t")
          (auto simp: run_with_def run_def el v peek_run has_prefix_def advance_def bind_require Suc.IH fr)
    qed
  qed
qed

definition eff_array :: "(json \<Rightarrow> reader \<Rightarrow> reader) \<Rightarrow> json list \<Rightarrow> reader \<Rightarrow> nat \<times> reader" where
  "eff_array el xs r = (length xs, fold el xs (countValue r))"

lemma array_body_run:
  assumes el: "\<And>r. element ob ar elem r = run val el r" and elr: "\<And>v. restless (el v)"
  shows "array_body ob ar elem r = run_with (\<lambda>s. strict_array val (tl s)) (eff_array el) r"
proof -
  have fr: "fold el vs (r\<lparr>rd_rest := s\<rparr>) = (fold el vs r)\<lparr>rd_rest := s\<rparr>" for vs r s
    using fold_restless [of vs el] elr by (simp add: restless_def)
  show ?thesis
  proof (cases "skip_ws (tl (rd_rest r))")
    case Nil
    then show ?thesis
      by (simp add: array_body_def run_with_def strict_array_def peek_run advance_def has_prefix_def)
  next
    case (Cons c t)
    then show ?thesis
      by (cases "c = CHR '']''")
        (auto simp: array_body_def run_with_def strict_array_def peek_run advance_def has_prefix_def
          eff_array_def array_loop_run [OF el elr] fr)
  qed
qed

lemma skip_ws_twice [simp]: "skip_ws (skip_ws s) = skip_ws s"
  by (simp add: skip_ws_def)

lemma strict_skip_ws [simp]: "strict d (skip_ws s) = strict d s"
  by (cases d) (simp_all add: strict_scalar_def)

lemma strict_Nil [simp]: "strict d [] = None"
  by (cases d) (simp_all add: strict_scalar_def skip_ws_def has_prefix_def)

lemma scalar_run:
  assumes "\<And>t. skip_ws (rd_rest r) \<noteq> CHR ''{'' # t" "\<And>t. skip_ws (rd_rest r) \<noteq> CHR ''['' # t"
  shows "skipValue ob ar r = run strict_scalar eff_skip r"
proof (cases "skip_ws (rd_rest r)")
  case Nil
  then show ?thesis by (simp add: skipValue_def peek_run run_def strict_scalar_def)
next
  case (Cons c t)
  let ?s = "c # t"
  have c: "c \<noteq> CHR ''{''" "c \<noteq> CHR ''[''" using assms Cons by auto
  have lit: "literal word (r\<lparr>rd_rest := s\<rparr>) = (if has_prefix word s then Some ((countValue r)\<lparr>rd_rest := drop (length word) s\<rparr>) else None)" for word s
    by (simp add: literal_def)
  have num: "number ((countValue r)\<lparr>rd_rest := s\<rparr>) = map_option (\<lambda>s. (countValue r)\<lparr>rd_rest := s\<rparr>) (number_after s)" for s
    by (simp add: number_def)
  consider "c = CHR 0x22" | "c \<noteq> CHR 0x22" "c = CHR ''t''" | "c \<noteq> CHR 0x22" "c = CHR ''f''" | "c \<noteq> CHR 0x22" "c = CHR ''n''"
    | "c \<noteq> CHR 0x22" "c \<noteq> CHR ''t''" "c \<noteq> CHR ''f''" "c \<noteq> CHR ''n''" by blast
  then show ?thesis
  proof cases
    case 1
    then show ?thesis
      by (cases "scanString t") (auto simp: skipValue_def peek_run Cons run_def strict_scalar_def scan_string_def strict_string_def)
  next
    case 2
    then show ?thesis
      by (cases "has_prefix ''true'' ?s") (simp_all add: skipValue_def peek_run Cons run_def strict_scalar_def lit eval_nat_numeral)
  next
    case 3
    then show ?thesis
      by (cases "has_prefix ''false'' ?s") (simp_all add: skipValue_def peek_run Cons run_def strict_scalar_def lit eval_nat_numeral)
  next
    case 4
    then show ?thesis
      by (cases "has_prefix ''null'' ?s") (simp_all add: skipValue_def peek_run Cons run_def strict_scalar_def lit eval_nat_numeral)
  next
    case 5
    then show ?thesis using c
      by (cases "number_after ?s") (simp_all add: skipValue_def peek_run Cons run_def strict_scalar_def num)
  qed
qed

lemma fold_skip_rest [simp]: "fold eff_skip xs (r\<lparr>rd_rest := s\<rparr>) = (fold eff_skip xs r)\<lparr>rd_rest := s\<rparr>"
  using fold_restless [of xs eff_skip, OF eff_skip_restless] by (simp add: restless_def)

text \<open>A value of no interest, at every level.\<close>

lemma skip_run: "skipValue (object_at d) (array_at d) r = run (strict d) eff_skip r"
proof (induction d arbitrary: r)
  case 0
  have "skipValue (object_at 0) (array_at 0) r = run strict_scalar eff_skip r"
  proof (cases "(\<exists>t. skip_ws (rd_rest r) = CHR ''{'' # t) \<or> (\<exists>t. skip_ws (rd_rest r) = CHR ''['' # t)")
    case True
    then show ?thesis by (auto simp: skipValue_def peek_run run_def strict_scalar_def is_digit_def)
  next
    case False
    then show ?thesis by (intro scalar_run) auto
  qed
  moreover have "strict 0 = strict_scalar" by (rule ext) simp
  ultimately show ?case by (simp only:)
next
  case (Suc d)
  have ob: "object_body (object_at d) (array_at d) KindOther r
      = run_with (\<lambda>s. strict_object (strict d) (tl s)) (eff_object eff_skip (\<lambda>_. eff_skip) KindOther) r" for r
    by (rule object_body_run) (simp_all add: Suc.IH)
  have el: "element (object_at d) (array_at d) ElemAny r = run (strict d) eff_skip r" for r
    using strict_skip_ws [of d "rd_rest r"] eff_skip_restless [unfolded restless_def]
    by (cases "skip_ws (rd_rest r)") (simp_all add: element_def peek_run Suc.IH run_def)
  note ar = array_body_run [OF el eff_skip_restless]
  show ?case
  proof (cases "(\<exists>t. skip_ws (rd_rest r) = CHR ''{'' # t) \<or> (\<exists>t. skip_ws (rd_rest r) = CHR ''['' # t)")
    case False
    then have "skipValue (object_at (Suc d)) (array_at (Suc d)) r = run strict_scalar eff_skip r"
      by (intro scalar_run) auto
    moreover have "strict (Suc d) (rd_rest r) = strict_scalar (rd_rest r)" using False by (auto simp: has_prefix_one)
    ultimately show ?thesis by (simp only: run_def)
  next
    case True
    then show ?thesis
    proof (elim disjE exE)
      fix t assume "skip_ws (rd_rest r) = CHR ''{'' # t"
      then show ?thesis
        by (cases "strict_object (strict d) t") (auto simp: skipValue_def peek_run ob run_with_def run_def has_prefix_one
            eff_object_restless [unfolded restless2_def])
    next
      fix t assume "skip_ws (rd_rest r) = CHR ''['' # t"
      then show ?thesis
        by (cases "strict_array (strict d) t") (auto simp: skipValue_def peek_run ar run_with_def run_def has_prefix_one eff_array_def
            fold_skip_rest)
    qed
  qed
qed

subsection \<open>Values of known kinds\<close>

fun members_of :: "json \<Rightarrow> (string \<times> json) list" where
  "members_of (JObj ms) = ms" | "members_of v = []"

fun items_of :: "json \<Rightarrow> json list" where
  "items_of (JArr xs) = xs" | "items_of v = []"

fun opens_with :: "json \<Rightarrow> char \<Rightarrow> bool" where
  "opens_with (JStr s) c = (c = CHR 0x22)"
| "opens_with (JObj ms) c = (c = CHR ''{'')"
| "opens_with (JArr xs) c = (c = CHR ''['')"
| "opens_with v c = (c \<noteq> CHR 0x22 \<and> c \<noteq> CHR ''{'' \<and> c \<noteq> CHR ''['')"

text \<open>The first character tells the kind.\<close>

lemma scalar_opens_with: "strict_scalar s = Some (v, r) \<Longrightarrow> \<exists>c t. skip_ws s = c # t \<and> opens_with v c"
proof (cases "skip_ws s")
  case (Cons c t)
  assume a: "strict_scalar s = Some (v, r)"
  consider "c = CHR 0x22" | "c \<noteq> CHR 0x22" "c = CHR ''t'' \<or> c = CHR ''f'' \<or> c = CHR ''n''"
    | "c \<noteq> CHR 0x22" "c \<noteq> CHR ''t''" "c \<noteq> CHR ''f''" "c \<noteq> CHR ''n''" by blast
  then have "opens_with v c"
  proof cases
    case 1
    with a Cons show ?thesis by (auto simp: strict_scalar_def)
  next
    case 2
    with a Cons show ?thesis unfolding strict_scalar_def by (elim disjE) (auto split: if_split_asm)
  next
    case 3
    with a Cons have "c = CHR ''-'' \<or> is_digit c" "\<exists>n. v = JNum n" by (auto simp: strict_scalar_def split: if_split_asm)
    then show ?thesis by (auto simp: is_digit_def)
  qed
  with Cons show ?thesis by blast
qed (simp add: strict_scalar_def)

lemma strict_opening:
  assumes "strict d s = Some (v, r)"
  shows "\<exists>c t. skip_ws s = c # t \<and> opens_with v c"
proof (cases d)
  case 0
  with assms scalar_opens_with [of s v r] show ?thesis by simp
next
  case (Suc e)
  with assms scalar_opens_with [of s v r] show ?thesis by (auto simp: has_prefix_one split: if_splits)
qed

lemma strict_quote:
  "skip_ws s = CHR 0x22 # t \<Longrightarrow> strict d s = map_option (\<lambda>(x, r). (JStr x, r)) (strict_string t)"
  by (cases d) (simp_all add: strict_scalar_def has_prefix_def)

lemma object_at_run:
  assumes h: "\<And>e i r. i < length (memberNames kind) \<Longrightarrow> member (object_at e) (array_at e) kind i r = run (strict e) (h i) r"
    and hr: "\<And>i v. restless (h i v)"
    and r: "rd_rest r = CHR ''{'' # t"
  shows "object_at d kind r
    = map_option (\<lambda>(v, s). (fst (eff_object eff_skip h kind (members_of v) r), (snd (eff_object eff_skip h kind (members_of v) r))\<lparr>rd_rest := s\<rparr>))
        (strict d (rd_rest r))"
proof -
  have ws: "skip_ws (rd_rest r) = CHR ''{'' # t" using r by (simp add: skip_ws_def)
  show ?thesis
  proof (cases d)
    case 0
    then show ?thesis by (simp add: strict_scalar_def ws is_digit_def)
  next
    case (Suc e)
    have "object_at d kind r = run_with (\<lambda>s. strict_object (strict e) (tl s)) (eff_object eff_skip h kind) r"
      unfolding Suc object_at.simps by (rule object_body_run [OF skip_run eff_skip_restless h hr])
    then show ?thesis unfolding Suc
      by (cases "strict_object (strict e) t") (auto simp: run_with_def has_prefix_one ws r)
  qed
qed

lemma array_at_run:
  assumes el: "\<And>e r. element (object_at e) (array_at e) elem r = run (strict e) el r"
    and elr: "\<And>v. restless (el v)"
    and r: "rd_rest r = CHR ''['' # t"
  shows "array_at d elem r
    = map_option (\<lambda>(v, s). (length (items_of v), (snd (eff_array el (items_of v) r))\<lparr>rd_rest := s\<rparr>)) (strict d (rd_rest r))"
proof -
  have ws: "skip_ws (rd_rest r) = CHR ''['' # t" using r by (simp add: skip_ws_def)
  show ?thesis
  proof (cases d)
    case 0
    then show ?thesis by (simp add: strict_scalar_def ws is_digit_def)
  next
    case (Suc e)
    have "array_at d elem r = run_with (\<lambda>s. strict_array (strict e) (tl s)) (eff_array el) r"
      unfolding Suc array_at.simps by (rule array_body_run [OF el elr])
    then show ?thesis unfolding Suc
      by (cases "strict_array (strict e) t") (auto simp: run_with_def has_prefix_one ws r eff_array_def)
  qed
qed

definition eff_string :: "nat \<Rightarrow> bool \<Rightarrow> json \<Rightarrow> reader \<Rightarrow> (string \<times> bool) \<times> reader" where
  "eff_string limit keep v r =
     (case v of
        JStr s \<Rightarrow> ((if \<not> keep then [] else if limit < length s then oversize else s, True), countValue r)
      | _ \<Rightarrow> (([], False), eff_skip v (violate r)))"

lemma run_skip:
  "map_option f (skipValue (object_at d) (array_at d) r) = map_option (\<lambda>(v, s). f ((eff_skip v r)\<lparr>rd_rest := s\<rparr>)) (strict d (rd_rest r))"
  by (cases "strict d (rd_rest r)") (auto simp: skip_run run_def)

lemma skip_rest [simp]: "eff_skip v (r\<lparr>rd_rest := s\<rparr>) = (eff_skip v r)\<lparr>rd_rest := s\<rparr>"
  using eff_skip_restless [of v] by (simp add: restless_def)

text \<open>A value that ought to start with a certain character.\<close>

lemma expect_run:
  assumes "\<And>r' t. r' = r\<lparr>rd_rest := c # t\<rparr> \<Longrightarrow> skip_ws (rd_rest r) = c # t \<Longrightarrow> K r' = map_option (\<lambda>(v, s). good v s) (strict d (rd_rest r'))"
    and "\<And>v s. opens_with v c \<Longrightarrow> good v s = whole v s"
    and "\<And>v s c'. opens_with v c' \<Longrightarrow> c' \<noteq> c \<Longrightarrow> f ((eff_skip v (violate r))\<lparr>rd_rest := s\<rparr>) = whole v s"
  shows "do { (c', r) \<leftarrow> peek r; if c' \<noteq> c then map_option f (skipValue (object_at d) (array_at d) (violate r)) else K r }
    = map_option (\<lambda>(v, s). whole v s) (strict d (rd_rest r))"
proof (cases "skip_ws (rd_rest r)")
  case Nil
  then have "strict d (rd_rest r) = None" using strict_opening by (metis neq_Nil_conv not_None_eq prod.exhaust list.distinct(1))
  with Nil show ?thesis by (simp add: peek_run)
next
  case (Cons c' t)
  have same: "strict d (c' # t) = strict d (rd_rest r)" using strict_skip_ws [of d "rd_rest r"] Cons by simp
  have op: "opens_with v c'" if "strict d (rd_rest r) = Some (v, s)" for v s
    using strict_opening [OF that] Cons by auto
  show ?thesis
  proof (cases "c' = c")
    case True
    then show ?thesis using assms(1) [OF refl] assms(2) op Cons same
      by (cases "strict d (rd_rest r)") (auto simp: peek_run)
  next
    case False
    then show ?thesis using assms(3) op Cons same
      by (cases "strict d (rd_rest r)") (auto simp: peek_run run_skip)
  qed
qed

lemma stringValue_run:
  "stringValue (object_at d) (array_at d) limit keep r = run_with (strict d) (eff_string limit keep) r"
  unfolding stringValue_def run_with_def
proof (rule expect_run [where good = "\<lambda>v s. (fst (eff_string limit keep v r), (snd (eff_string limit keep v r))\<lparr>rd_rest := s\<rparr>)"])
  fix r' t assume r': "r' = r\<lparr>rd_rest := CHR 0x22 # t\<rparr>" and ws: "skip_ws (rd_rest r) = CHR 0x22 # t"
  have q: "strict d (CHR 0x22 # t) = map_option (\<lambda>(x, r). (JStr x, r)) (strict_string t)"
    by (rule strict_quote) (simp add: skip_ws_def)
  show "do { ((raw, n, escaped), r) \<leftarrow> scan_string (countValue r');
         Some (((if \<not> keep then [] else if limit < n then oversize else unescaped raw escaped), True), r) }
    = map_option (\<lambda>(v, s). (fst (eff_string limit keep v r), (snd (eff_string limit keep v r))\<lparr>rd_rest := s\<rparr>)) (strict d (rd_rest r'))"
    by (cases "scanString t") (auto simp: r' q scan_string_def strict_string_def eff_string_def dest: unescaped_scan)
next
  fix v s c' assume "opens_with v c'" "c' \<noteq> CHR 0x22"
  then show "(\<lambda>r. (([], False), r)) ((eff_skip v (violate r))\<lparr>rd_rest := s\<rparr>)
      = (fst (eff_string limit keep v r), (snd (eff_string limit keep v r))\<lparr>rd_rest := s\<rparr>)"
    by (cases v) (simp_all add: eff_string_def)
qed simp

subsection \<open>Chains, entries and what is in them\<close>

definition set_sig :: "nat \<Rightarrow> string \<Rightarrow> raw_entry \<Rightarrow> raw_entry" where
  "set_sig idx s e = e\<lparr>re_Sig := map_option (set_pair idx s) (re_Sig e)\<rparr>"

definition set_disclosed :: "nat \<Rightarrow> string \<Rightarrow> raw_entry \<Rightarrow> raw_entry" where
  "set_disclosed idx s e = e\<lparr>re_Disclosed := map_option (set_pair idx s) (re_Disclosed e)\<rparr>"

definition when_build :: "(reader \<Rightarrow> reader) \<Rightarrow> reader \<Rightarrow> reader" where
  "when_build f r = (if rd_build r then f r else r)"

definition on_entry :: "(raw_entry \<Rightarrow> raw_entry) \<Rightarrow> reader \<Rightarrow> reader" where
  "on_entry f = when_build (\<lambda>r. r\<lparr>rd_entry := f (rd_entry r)\<rparr>)"

definition on_chain :: "(raw_chain \<Rightarrow> raw_chain) \<Rightarrow> reader \<Rightarrow> reader" where
  "on_chain f = when_build (\<lambda>r. r\<lparr>rd_chain := f (rd_chain r)\<rparr>)"

definition eff_field :: "nat \<Rightarrow> (string \<Rightarrow> raw_entry \<Rightarrow> raw_entry) \<Rightarrow> json \<Rightarrow> reader \<Rightarrow> reader" where
  "eff_field limit put v r = (case eff_string limit (rd_build r) v r of ((s, _), r) \<Rightarrow> on_entry (put s) r)"

definition eff_pair_member :: "object_kind \<Rightarrow> nat \<Rightarrow> json \<Rightarrow> reader \<Rightarrow> reader" where
  "eff_pair_member kind idx =
     (if kind = KindRecordSignature then eff_field (signatureCaps ! idx) (set_sig idx)
      else eff_field (disclosedCaps ! idx) (set_disclosed idx))"

definition new_pair :: "object_kind \<Rightarrow> raw_entry \<Rightarrow> raw_entry" where
  "new_pair kind e =
     (if kind = KindRecordSignature then e\<lparr>re_Sig := Some empty_pair\<rparr> else e\<lparr>re_Disclosed := Some empty_pair\<rparr>)"

definition violate_when :: "bool \<Rightarrow> reader \<Rightarrow> reader" where
  "violate_when b r = (if b then violate r else r)"

definition eff_pair :: "object_kind \<Rightarrow> json \<Rightarrow> reader \<Rightarrow> reader" where
  "eff_pair kind v r =
     (case v of
        JObj ms \<Rightarrow>
          (case eff_object eff_skip (eff_pair_member kind) kind ms (on_entry (new_pair kind) r) of
             (seen, r) \<Rightarrow> violate_when (seen \<noteq> {0, 1}) r)
      | _ \<Rightarrow> eff_skip v (violate r))"

definition eff_entry_member :: "nat \<Rightarrow> json \<Rightarrow> reader \<Rightarrow> reader" where
  "eff_entry_member idx =
     (if idx = 7 then eff_pair KindRecordSignature else if idx = 8 then eff_pair KindDisclosed
      else eff_field (entryCaps ! idx) (set_field idx))"

definition count_entry :: "reader \<Rightarrow> reader" where
  "count_entry r = (let r = r\<lparr>rd_nEntries := rd_nEntries r + 1\<rparr> in overLimit (rd_nEntries r) (lm_Entries (rd_lim r)) r)"

definition count_chain :: "reader \<Rightarrow> reader" where
  "count_chain r = (let r = r\<lparr>rd_nChains := rd_nChains r + 1\<rparr> in overLimit (rd_nChains r) (lm_Chains (rd_lim r)) r)"

definition count_checkpoint :: "reader \<Rightarrow> reader" where
  "count_checkpoint r =
     (let r = r\<lparr>rd_nCheckpoints := rd_nCheckpoints r + 1\<rparr> in overLimit (rd_nCheckpoints r) (lm_Checkpoints (rd_lim r)) r)"

definition keep_entry :: "reader \<Rightarrow> reader" where
  "keep_entry = when_build (\<lambda>r. r\<lparr>rd_chain := (rd_chain r)\<lparr>rc_Entries := rc_Entries (rd_chain r) @ [rd_entry r]\<rparr>,
     rd_entry := empty_entry\<rparr>)"

definition eff_entry :: "json \<Rightarrow> reader \<Rightarrow> reader" where
  "eff_entry v r =
     (let r = count_entry r in
      case v of
        JObj ms \<Rightarrow>
          (case eff_object eff_skip eff_entry_member KindEntry ms (r\<lparr>rd_entry := empty_entry\<rparr>) of
             (seen, r) \<Rightarrow> keep_entry (violate_when (\<not> entryRequired \<subseteq> seen) r))
      | _ \<Rightarrow> eff_skip v (violate r))"

definition checkpoint_text :: "limits \<Rightarrow> string \<Rightarrow> bytes option" where
  "checkpoint_text l s = (if int (length s) \<le> lm_CheckpointBytes l then Some s else None)"

definition eff_checkpoint :: "json \<Rightarrow> reader \<Rightarrow> reader" where
  "eff_checkpoint v r =
     (let r = count_checkpoint r in
      case v of
        JStr s \<Rightarrow> on_chain (\<lambda>c. c\<lparr>rc_Checkpoints := rc_Checkpoints c @ [checkpoint_text (rd_lim r) s]\<rparr>) (countValue r)
      | _ \<Rightarrow> eff_skip v (violate r))"

definition chain_id_text :: "string \<Rightarrow> string" where
  "chain_id_text s = (if maxChainID < length s then oversize @ hex_sha512 s else s)"

definition eff_chain_id :: "json \<Rightarrow> reader \<Rightarrow> reader" where
  "eff_chain_id v r =
     (case v of
        JStr s \<Rightarrow> on_chain (\<lambda>c. c\<lparr>rc_ID := chain_id_text s\<rparr>) (countValue r)
      | _ \<Rightarrow> eff_skip v (violate r))"

definition eff_items :: "(json \<Rightarrow> reader \<Rightarrow> reader) \<Rightarrow> bool \<Rightarrow> json \<Rightarrow> reader \<Rightarrow> reader" where
  "eff_items el some v r =
     (case v of
        JArr xs \<Rightarrow> violate_when (some \<and> xs = []) (fold el xs (countValue r))
      | _ \<Rightarrow> eff_skip v (violate r))"

definition eff_chain_member :: "nat \<Rightarrow> json \<Rightarrow> reader \<Rightarrow> reader" where
  "eff_chain_member idx =
     (if idx = 0 then eff_chain_id else if idx = 1 then eff_items eff_entry True else eff_items eff_checkpoint False)"

definition keep_chain :: "reader \<Rightarrow> reader" where
  "keep_chain = when_build (\<lambda>r. r\<lparr>rd_chains := rd_chains r @ [rd_chain r], rd_chain := empty_chain\<rparr>)"

definition eff_chain :: "json \<Rightarrow> reader \<Rightarrow> reader" where
  "eff_chain v r =
     (let r = count_chain r in
      case v of
        JObj ms \<Rightarrow>
          (case eff_object eff_skip eff_chain_member KindChain ms (r\<lparr>rd_chain := empty_chain\<rparr>) of
             (seen, r) \<Rightarrow> keep_chain (violate_when (seen \<noteq> {0, 1, 2}) r))
      | _ \<Rightarrow> eff_skip v (violate r))"

definition eff_format :: "json \<Rightarrow> reader \<Rightarrow> reader" where
  "eff_format v r =
     (case eff_string (length FormatID) True v r of
        ((s, isString), r) \<Rightarrow>
          if isString \<and> s = FormatID then r\<lparr>rd_formatOK := True\<rparr> else stopBuilding (r\<lparr>rd_formatOK := False\<rparr>))"

definition eff_bundle_member :: "nat \<Rightarrow> json \<Rightarrow> reader \<Rightarrow> reader" where
  "eff_bundle_member idx = (if idx = 0 then eff_format else eff_items eff_chain False)"

definition eff_bundle :: "json \<Rightarrow> reader \<Rightarrow> reader" where
  "eff_bundle v r =
     (case v of
        JObj ms \<Rightarrow>
          (case eff_object eff_skip eff_bundle_member KindBundle ms (r\<lparr>rd_topObject := True\<rparr>) of
             (seen, r) \<Rightarrow> violate_when (1 \<notin> seen) r)
      | _ \<Rightarrow> eff_skip v (violate r))"

text \<open>None of them moves the position.\<close>

lemma step_rest2 [simp]:
  "when_build f (r\<lparr>rd_rest := s\<rparr>) = (if rd_build r then f (r\<lparr>rd_rest := s\<rparr>) else r\<lparr>rd_rest := s\<rparr>)"
  "on_entry g (r\<lparr>rd_rest := s\<rparr>) = (on_entry g r)\<lparr>rd_rest := s\<rparr>"
  "on_chain k (r\<lparr>rd_rest := s\<rparr>) = (on_chain k r)\<lparr>rd_rest := s\<rparr>"
  "violate_when b (r\<lparr>rd_rest := s\<rparr>) = (violate_when b r)\<lparr>rd_rest := s\<rparr>"
  "count_entry (r\<lparr>rd_rest := s\<rparr>) = (count_entry r)\<lparr>rd_rest := s\<rparr>"
  "count_chain (r\<lparr>rd_rest := s\<rparr>) = (count_chain r)\<lparr>rd_rest := s\<rparr>"
  "count_checkpoint (r\<lparr>rd_rest := s\<rparr>) = (count_checkpoint r)\<lparr>rd_rest := s\<rparr>"
  "keep_entry (r\<lparr>rd_rest := s\<rparr>) = (keep_entry r)\<lparr>rd_rest := s\<rparr>"
  "keep_chain (r\<lparr>rd_rest := s\<rparr>) = (keep_chain r)\<lparr>rd_rest := s\<rparr>"
  by (simp_all add: when_build_def on_entry_def on_chain_def violate_when_def count_entry_def count_chain_def
      count_checkpoint_def keep_entry_def keep_chain_def reader_steps)

lemma eff_string_rest [simp]:
  "eff_string limit keep v (r\<lparr>rd_rest := s\<rparr>) = (fst (eff_string limit keep v r), (snd (eff_string limit keep v r))\<lparr>rd_rest := s\<rparr>)"
  by (simp add: eff_string_def split: json.split)

lemma eff_field_restless [simp]: "restless (eff_field limit put v)"
  by (simp add: restless_def eff_field_def case_prod_beta)

lemma object_effect_restless:
  assumes "\<And>i v. restless (h i v)"
  shows "eff_object eff_skip h kind ms (r\<lparr>rd_rest := s\<rparr>)
    = (fst (eff_object eff_skip h kind ms r), (snd (eff_object eff_skip h kind ms r))\<lparr>rd_rest := s\<rparr>)"
  using eff_object_restless [of ms eff_skip h kind] assms by (simp add: restless2_def)

lemma pair_member_restless [simp]: "restless (eff_pair_member kind idx v)"
  by (simp add: eff_pair_member_def)

lemma eff_pair_restless [simp]: "restless (eff_pair kind v)"
  unfolding restless_def by (simp add: eff_pair_def object_effect_restless case_prod_beta split: json.split)

lemma entry_member_restless [simp]: "restless (eff_entry_member idx v)"
  by (simp add: eff_entry_member_def)

lemma entry_update_rest: "r\<lparr>rd_rest := s, rd_entry := e\<rparr> = r\<lparr>rd_entry := e, rd_rest := s\<rparr>"
  "r\<lparr>rd_rest := s, rd_chain := c\<rparr> = r\<lparr>rd_chain := c, rd_rest := s\<rparr>"
  "r\<lparr>rd_rest := s, rd_topObject := b\<rparr> = r\<lparr>rd_topObject := b, rd_rest := s\<rparr>"
  by simp_all

lemma eff_entry_restless [simp]: "restless (eff_entry v)"
  unfolding restless_def by (simp add: eff_entry_def object_effect_restless case_prod_beta entry_update_rest Let_def split: json.split)

lemma eff_checkpoint_restless [simp]: "restless (eff_checkpoint v)"
  by (simp add: restless_def eff_checkpoint_def Let_def split: json.split)

lemma eff_items_restless [simp]: "(\<And>v. restless (el v)) \<Longrightarrow> restless (eff_items el b v)"
  using fold_restless [of _ el] by (simp add: restless_def eff_items_def split: json.split)

lemma chain_member_restless [simp]: "restless (eff_chain_member idx v)"
proof -
  have "restless (eff_chain_id v)" by (simp add: restless_def eff_chain_id_def split: json.split)
  then show ?thesis by (simp add: eff_chain_member_def)
qed

lemma eff_chain_restless [simp]: "restless (eff_chain v)"
  unfolding restless_def by (simp add: eff_chain_def object_effect_restless case_prod_beta entry_update_rest Let_def split: json.split)

lemma bundle_member_restless [simp]: "restless (eff_bundle_member idx v)"
proof -
  have "restless (eff_format v)" by (auto simp: restless_def eff_format_def case_prod_beta stopBuilding_def)
  then show ?thesis by (simp add: eff_bundle_member_def)
qed

subsection \<open>The reader at chains, entries and what is in them\<close>

lemma field_run:
  "do { ((s, _), r') \<leftarrow> stringValue (object_at d) (array_at d) limit (rd_build r) r; Some (on_entry (put s) r') }
    = run (strict d) (eff_field limit put) r"
  by (cases "strict d (rd_rest r)") (auto simp: stringValue_run run_with_def run_def eff_field_def case_prod_beta)

lemma pair_member_run:
  assumes "kind = KindRecordSignature \<or> kind = KindDisclosed"
  shows "member (object_at d) (array_at d) kind idx r = run (strict d) (eff_pair_member kind idx) r"
  using assms
proof
  assume k: "kind = KindRecordSignature"
  show ?thesis
    unfolding k eff_pair_member_def if_True simp_thms
    by (subst field_run [symmetric]) (simp add: member_def on_entry_def when_build_def set_sig_def)
next
  assume k: "kind = KindDisclosed"
  show ?thesis
    unfolding k eff_pair_member_def
    by (simp, subst field_run [symmetric]) (simp add: member_def on_entry_def when_build_def set_disclosed_def)
qed

text \<open>Where an object ought to be: what is done before it, the object, what is done after it.\<close>

lemma typed_object_run:
  assumes h: "\<And>e i r. i < length (memberNames kind) \<Longrightarrow> member (object_at e) (array_at e) kind i r = run (strict e) (h i) r"
    and hr: "\<And>i v. restless (h i v)"
    and pre: "restless pre" "\<And>r. rd_rest (pre r) = rd_rest r" and post: "\<And>seen. restless (post seen)"
  shows "do { (c, r) \<leftarrow> peek r; if c \<noteq> CHR ''{'' then skipValue (object_at d) (array_at d) (violate r)
           else do { (seen, r) \<leftarrow> object_at d kind (pre r); Some (post seen r) } }
    = run (strict d) (\<lambda>v r. case v of
          JObj ms \<Rightarrow> (case eff_object eff_skip h kind ms (pre r) of (seen, r) \<Rightarrow> post seen r)
        | _ \<Rightarrow> eff_skip v (violate r)) r"
proof -
  let ?ob = "eff_object eff_skip h kind"
  define good where "good v s = (case ?ob (members_of v) (pre r) of (seen, r) \<Rightarrow> post seen r)\<lparr>rd_rest := s\<rparr>" for v s
  define whole where "whole v s = (case v of
          JObj ms \<Rightarrow> (case ?ob ms (pre r) of (seen, r) \<Rightarrow> post seen r)
        | _ \<Rightarrow> eff_skip v (violate r))\<lparr>rd_rest := s\<rparr>" for v s
  have "do { (c, r) \<leftarrow> peek r; if c \<noteq> CHR ''{'' then map_option (\<lambda>r. r) (skipValue (object_at d) (array_at d) (violate r))
           else do { (seen, r) \<leftarrow> object_at d kind (pre r); Some (post seen r) } }
    = map_option (\<lambda>(v, s). whole v s) (strict d (rd_rest r))"
  proof (rule expect_run [where good = good])
    fix r' t assume r': "r' = r\<lparr>rd_rest := CHR ''{'' # t\<rparr>"
    then have rest: "rd_rest (pre r') = CHR ''{'' # t" by (simp add: pre(2))
    have pr: "pre r' = (pre r)\<lparr>rd_rest := CHR ''{'' # t\<rparr>" using pre(1) by (simp add: restless_def r')
    have "object_at d kind (pre r') = map_option (\<lambda>(v, s). (fst (?ob (members_of v) (pre r')),
        (snd (?ob (members_of v) (pre r')))\<lparr>rd_rest := s\<rparr>)) (strict d (rd_rest (pre r')))"
      by (rule object_at_run [OF h hr rest])
    then show "do { (seen, r) \<leftarrow> object_at d kind (pre r'); Some (post seen r) } = map_option (\<lambda>(v, s). good v s) (strict d (rd_rest r'))"
      using post unfolding rest pre(2) [of r', unfolded rest, symmetric]
      by (cases "strict d (CHR ''{'' # t)") (auto simp: pr object_effect_restless [OF hr] case_prod_beta good_def restless_def)
  next
    fix v s assume "opens_with v (CHR ''{'')"
    then show "good v s = whole v s" by (cases v) (simp_all add: whole_def good_def)
  next
    fix v s c' assume "opens_with v c'" "c' \<noteq> CHR ''{''"
    then show "(eff_skip v (violate r))\<lparr>rd_rest := s\<rparr> = whole v s" by (cases v) (simp_all add: whole_def)
  qed
  then show ?thesis unfolding run_def whole_def option.map_ident .
qed

text \<open>Where a string ought to be.\<close>

lemma typed_string_run:
  assumes f: "\<And>raw n escaped r. unescaped raw escaped = appendUnescaped raw \<Longrightarrow> n = length (appendUnescaped raw) \<Longrightarrow>
      f raw n escaped r = g (appendUnescaped raw) r"
    and g: "\<And>s. restless (g s)"
  shows "do { (c, r) \<leftarrow> peek r; if c \<noteq> CHR 0x22 then skipValue (object_at d) (array_at d) (violate r)
           else do { ((raw, n, escaped), r) \<leftarrow> scan_string (countValue r); Some (f raw n escaped r) } }
    = run (strict d) (\<lambda>v r. case v of JStr s \<Rightarrow> g s (countValue r) | _ \<Rightarrow> eff_skip v (violate r)) r"
proof -
  define whole where "whole v s = (case v of JStr x \<Rightarrow> g x (countValue r) | _ \<Rightarrow> eff_skip v (violate r))\<lparr>rd_rest := s\<rparr>" for v s
  have "do { (c, r) \<leftarrow> peek r; if c \<noteq> CHR 0x22 then map_option (\<lambda>r. r) (skipValue (object_at d) (array_at d) (violate r))
           else do { ((raw, n, escaped), r) \<leftarrow> scan_string (countValue r); Some (f raw n escaped r) } }
    = map_option (\<lambda>(v, s). whole v s) (strict d (rd_rest r))"
  proof (rule expect_run [where good = whole])
    fix r' t assume r': "r' = r\<lparr>rd_rest := CHR 0x22 # t\<rparr>"
    have q: "strict d (CHR 0x22 # t) = map_option (\<lambda>(x, r). (JStr x, r)) (strict_string t)"
      by (rule strict_quote) (simp add: skip_ws_def)
    show "do { ((raw, n, escaped), r) \<leftarrow> scan_string (countValue r'); Some (f raw n escaped r) }
      = map_option (\<lambda>(v, s). whole v s) (strict d (rd_rest r'))"
    proof (cases "scanString t")
      case None
      then show ?thesis by (simp add: r' q scan_string_def strict_string_def)
    next
      case (Some x)
      then obtain raw n escaped u where x: "scanString t = Some (raw, n, escaped, u)" by (cases x) auto
      from f [of raw escaped n] unescaped_scan [OF x] g show ?thesis
        by (simp add: r' q scan_string_def strict_string_def x whole_def restless_def)
    qed
  next
    fix v s c' assume "opens_with v c'" "c' \<noteq> CHR 0x22"
    then show "(eff_skip v (violate r))\<lparr>rd_rest := s\<rparr> = whole v s" by (cases v) (simp_all add: whole_def)
  qed simp
  then show ?thesis unfolding run_def whole_def option.map_ident .
qed

text \<open>Where an array ought to be.\<close>

lemma typed_array_run:
  assumes el: "\<And>e r. element (object_at e) (array_at e) elem r = run (strict e) el r"
    and elr: "\<And>v. restless (el v)"
  shows "arrayValue (object_at d) (array_at d) elem r
    = run_with (strict d) (\<lambda>v r. case v of
          JArr xs \<Rightarrow> ((length xs, True), fold el xs (countValue r)) | _ \<Rightarrow> ((0, False), eff_skip v (violate r))) r"
proof -
  define eff where "eff v r = (case v of
          JArr xs \<Rightarrow> ((length xs, True), fold el xs (countValue r)) | _ \<Rightarrow> ((0, False), eff_skip v (violate r)))" for v r
  define good where "good v s = ((length (items_of v), True), (snd (eff_array el (items_of v) r))\<lparr>rd_rest := s\<rparr>)" for v s
  define whole where "whole v s = (fst (eff v r), (snd (eff v r))\<lparr>rd_rest := s\<rparr>)" for v s
  have "arrayValue (object_at d) (array_at d) elem r = map_option (\<lambda>(v, s). whole v s) (strict d (rd_rest r))"
    unfolding arrayValue_def
  proof (rule expect_run [where good = good])
    fix r' t assume r': "r' = r\<lparr>rd_rest := CHR ''['' # t\<rparr>"
    then have rest: "rd_rest r' = CHR ''['' # t" by simp
    have fr: "fold el vs (r\<lparr>rd_rest := s\<rparr>) = (fold el vs r)\<lparr>rd_rest := s\<rparr>" for vs r s
      using fold_restless [of vs el] elr by (simp add: restless_def)
    from array_at_run [OF el elr rest, of d]
    show "map_option (\<lambda>(n, r). ((n, True), r)) (array_at d elem r') = map_option (\<lambda>(v, s). good v s) (strict d (rd_rest r'))"
      by (cases "strict d (rd_rest r')") (auto simp: good_def eff_array_def r' fr)
  next
    fix v s assume "opens_with v (CHR ''['')"
    then show "good v s = whole v s" by (cases v) (simp_all add: whole_def good_def eff_def eff_array_def)
  next
    fix v s c' assume "opens_with v c'" "c' \<noteq> CHR ''[''"
    then show "(\<lambda>r. ((0, False), r)) ((eff_skip v (violate r))\<lparr>rd_rest := s\<rparr>) = whole v s"
      by (cases v) (simp_all add: whole_def eff_def)
  qed
  then show ?thesis unfolding run_with_def whole_def eff_def .
qed

lemma restless_more [simp]: "restless (on_entry f)" "restless (on_chain g)" "restless (violate_when b)"
  "restless keep_entry" "restless keep_chain"
  by (simp_all add: restless_def)

lemma step_rest_same2 [simp]: "rd_rest (on_entry f r) = rd_rest r" "rd_rest (on_chain g r) = rd_rest r"
  "rd_rest (count_entry r) = rd_rest r" "rd_rest (count_chain r) = rd_rest r" "rd_rest (count_checkpoint r) = rd_rest r"
  by (simp_all add: on_entry_def on_chain_def when_build_def count_entry_def count_chain_def count_checkpoint_def reader_steps)

lemma pairValue_run:
  assumes "kind = KindRecordSignature \<or> kind = KindDisclosed"
  shows "pairValue (object_at d) (array_at d) kind r = run (strict d) (eff_pair kind) r"
proof -
  have np: "(if \<not> rd_build r then r
      else if kind = KindRecordSignature then r\<lparr>rd_entry := (rd_entry r)\<lparr>re_Sig := Some empty_pair\<rparr>\<rparr>
      else r\<lparr>rd_entry := (rd_entry r)\<lparr>re_Disclosed := Some empty_pair\<rparr>\<rparr>) = on_entry (new_pair kind) r" for r
    by (simp add: on_entry_def when_build_def new_pair_def)
  have "eff_pair kind = (\<lambda>v r. case v of
          JObj ms \<Rightarrow> (case eff_object eff_skip (eff_pair_member kind) kind ms (on_entry (new_pair kind) r) of
             (seen, r) \<Rightarrow> violate_when (seen \<noteq> {0, 1}) r)
        | _ \<Rightarrow> eff_skip v (violate r))"
    by (intro ext) (simp add: eff_pair_def)
  moreover note typed_object_run [of kind "eff_pair_member kind" "on_entry (new_pair kind)"
      "\<lambda>seen. violate_when (seen \<noteq> {0, 1})", OF pair_member_run [OF assms] pair_member_restless restless_more(1)
      step_rest_same2(1) restless_more(3), of r d]
  ultimately show ?thesis unfolding pairValue_def np Let_def violate_when_def by (simp only:)
qed

lemma entry_member_run:
  assumes "i < length (memberNames KindEntry)"
  shows "member (object_at d) (array_at d) KindEntry i r = run (strict d) (eff_entry_member i) r"
proof -
  have pairs: "pairValue (object_at d) (array_at d) KindRecordSignature r = run (strict d) (eff_pair KindRecordSignature) r"
    "pairValue (object_at d) (array_at d) KindDisclosed r = run (strict d) (eff_pair KindDisclosed) r"
    by (rule pairValue_run, simp)+
  show ?thesis unfolding eff_entry_member_def
    using field_run [of d "entryCaps ! i" r "set_field i"]
    by (simp add: member_def pairs on_entry_def when_build_def del: set_field.simps)
qed

lemma peek_count:
  "peek (count_entry r) = map_option (\<lambda>(c, r). (c, count_entry r)) (peek r)"
  "peek (count_chain r) = map_option (\<lambda>(c, r). (c, count_chain r)) (peek r)"
  "peek (count_checkpoint r) = map_option (\<lambda>(c, r). (c, count_checkpoint r)) (peek r)"
  by (simp_all add: peek_run split: list.split)

lemma bind_peek_count:
  "(map_option (\<lambda>(c, r). (c, g r)) x \<bind> (\<lambda>(c, r). k c r)) = (x \<bind> (\<lambda>(c, r). k c (g r)))"
  by (cases x) auto

lemma element_entry_run: "element (object_at d) (array_at d) ElemEntry r = run (strict d) eff_entry r"
proof -
  let ?pre = "\<lambda>r. r\<lparr>rd_entry := empty_entry\<rparr>"
  let ?post = "\<lambda>seen r. keep_entry (violate_when (\<not> entryRequired \<subseteq> seen) r)"
  have pre: "restless ?pre" "\<And>r. rd_rest (?pre r) = rd_rest r" and post: "restless (?post seen)" for seen
    by (simp_all add: restless_def)
  have "element (object_at d) (array_at d) ElemEntry r =
      do { (c, r) \<leftarrow> peek (count_entry r); if c \<noteq> CHR ''{'' then skipValue (object_at d) (array_at d) (violate r)
           else do { (seen, r) \<leftarrow> object_at d KindEntry (?pre r); Some (?post seen r) } }"
    unfolding peek_count bind_peek_count
    by (simp add: element_def count_entry_def Let_def keep_entry_def when_build_def violate_when_def cong: if_cong)
  also have "\<dots> = run (strict d) (\<lambda>v r. case v of
          JObj ms \<Rightarrow> (case eff_object eff_skip eff_entry_member KindEntry ms (?pre r) of (seen, r) \<Rightarrow> ?post seen r)
        | _ \<Rightarrow> eff_skip v (violate r)) (count_entry r)"
    by (rule typed_object_run [OF entry_member_run entry_member_restless pre post])
  also have "\<dots> = run (strict d) eff_entry r"
    by (simp add: run_def eff_entry_def Let_def)
  finally show ?thesis .
qed

lemma step_lim [simp]: "rd_lim (countValue r) = rd_lim r" "rd_lim (violate r) = rd_lim r"
  "rd_lim (foundDuplicate r) = rd_lim r" "rd_lim (checkNames names r) = rd_lim r" "rd_lim (overLimit n m r) = rd_lim r"
  "rd_lim (stopBuilding r) = rd_lim r"
  by (simp_all add: reader_steps)

lemma element_checkpoint_run: "element (object_at d) (array_at d) ElemCheckpoint r = run (strict d) eff_checkpoint r"
proof -
  let ?put = "\<lambda>r t. on_chain (\<lambda>c. c\<lparr>rc_Checkpoints := rc_Checkpoints c @ [t]\<rparr>) r"
  let ?f = "\<lambda>(raw :: string) n (escaped :: bool) r.
    ?put r (if int n \<le> lm_CheckpointBytes (rd_lim r) then Some (appendUnescaped raw) else None)"
  let ?g = "\<lambda>s r. ?put r (checkpoint_text (rd_lim r) s)"
  have g: "restless (?g s)" for s by (simp add: restless_def)
  have "element (object_at d) (array_at d) ElemCheckpoint r =
      do { (c, r) \<leftarrow> peek (count_checkpoint r); if c \<noteq> CHR 0x22 then skipValue (object_at d) (array_at d) (violate r)
           else do { ((raw, n, escaped), r) \<leftarrow> scan_string (countValue r); Some (?f raw n escaped r) } }"
    unfolding peek_count bind_peek_count
    by (simp add: element_def count_checkpoint_def Let_def on_chain_def when_build_def cong: if_cong)
  also have "\<dots> = run (strict d) (\<lambda>v r. case v of JStr s \<Rightarrow> ?g s (countValue r) | _ \<Rightarrow> eff_skip v (violate r)) (count_checkpoint r)"
    by (rule typed_string_run [OF _ g]) (simp add: checkpoint_text_def)
  also have "\<dots> = run (strict d) eff_checkpoint r"
    by (simp add: run_def eff_checkpoint_def Let_def cong: json.case_cong)
  finally show ?thesis .
qed

lemma chain_id_run: "chainID (object_at d) (array_at d) r = run (strict d) eff_chain_id r"
proof -
  let ?f = "\<lambda>raw n escaped. on_chain (\<lambda>c. c\<lparr>rc_ID := if maxChainID < n then oversize @ digestUnescaped raw else unescaped raw escaped\<rparr>)"
  let ?g = "\<lambda>s. on_chain (\<lambda>c. c\<lparr>rc_ID := chain_id_text s\<rparr>)"
  have "chainID (object_at d) (array_at d) r =
      do { (c, r) \<leftarrow> peek r; if c \<noteq> CHR 0x22 then skipValue (object_at d) (array_at d) (violate r)
           else do { ((raw, n, escaped), r) \<leftarrow> scan_string (countValue r); Some (?f raw n escaped r) } }"
  proof -
    have "(if \<not> rd_build r then r else r\<lparr>rd_chain := (rd_chain r)\<lparr>rc_ID := x\<rparr>\<rparr>) = on_chain (\<lambda>c. c\<lparr>rc_ID := x\<rparr>) r" for r x
      by (simp add: on_chain_def when_build_def)
    then show ?thesis unfolding chainID_def by (simp only:)
  qed
  also have "\<dots> = run (strict d) (\<lambda>v r. case v of JStr s \<Rightarrow> ?g s (countValue r) | _ \<Rightarrow> eff_skip v (violate r)) r"
    by (rule typed_string_run) (simp_all add: chain_id_text_def digestUnescaped_def)
  also have "\<dots> = run (strict d) eff_chain_id r" by (simp add: run_def eff_chain_id_def)
  finally show ?thesis .
qed

lemma items_run:
  assumes "\<And>e r. element (object_at e) (array_at e) elem r = run (strict e) el r" "\<And>v. restless (el v)"
  shows "do { ((n, isArray), r) \<leftarrow> arrayValue (object_at d) (array_at d) elem r; Some (violate_when (some \<and> isArray \<and> n = 0) r) }
    = run (strict d) (eff_items el some) r"
proof (cases "strict d (rd_rest r)")
  case None
  then show ?thesis by (simp add: typed_array_run [OF assms] run_def run_with_def)
next
  case (Some x)
  then obtain v s where "strict d (rd_rest r) = Some (v, s)" by (cases x) auto
  then show ?thesis
    by (cases v) (auto simp: typed_array_run [OF assms] run_def run_with_def eff_items_def violate_when_def)
qed

lemma chain_member_run:
  assumes "i < length (memberNames KindChain)"
  shows "member (object_at d) (array_at d) KindChain i r = run (strict d) (eff_chain_member i) r"
proof -
  have e: "member (object_at d) (array_at d) KindChain 1 r = run (strict d) (eff_items eff_entry True) r"
    by (subst items_run [OF element_entry_run eff_entry_restless, symmetric])
      (simp add: member_def violate_when_def cong: if_cong)
  have c: "member (object_at d) (array_at d) KindChain 2 r = run (strict d) (eff_items eff_checkpoint False) r"
    by (subst items_run [OF element_checkpoint_run eff_checkpoint_restless, symmetric])
      (cases "arrayValue (object_at d) (array_at d) ElemCheckpoint r"; auto simp: member_def violate_when_def)
  from assms have "i = 0 \<or> i = 1 \<or> i = 2" by auto
  then consider "i = 0" | "i = 1" | "i = 2" by blast
  then show ?thesis
  proof cases
    case 1
    then show ?thesis by (simp add: eff_chain_member_def chain_id_run member_def)
  next
    case 2
    have "eff_chain_member 1 = eff_items eff_entry True" by (simp add: eff_chain_member_def)
    with e 2 show ?thesis by (simp only:)
  next
    case 3
    have "eff_chain_member 2 = eff_items eff_checkpoint False" by (simp add: eff_chain_member_def)
    with c 3 show ?thesis by (simp only:)
  qed
qed

lemma element_chain_run: "element (object_at d) (array_at d) ElemChain r = run (strict d) eff_chain r"
proof -
  let ?pre = "\<lambda>r. r\<lparr>rd_chain := empty_chain\<rparr>"
  let ?post = "\<lambda>seen r. keep_chain (violate_when (seen \<noteq> {0, 1, 2}) r)"
  have pre: "restless ?pre" "\<And>r. rd_rest (?pre r) = rd_rest r" and post: "restless (?post seen)" for seen
    by (simp_all add: restless_def)
  have "element (object_at d) (array_at d) ElemChain r =
      do { (c, r) \<leftarrow> peek (count_chain r); if c \<noteq> CHR ''{'' then skipValue (object_at d) (array_at d) (violate r)
           else do { (seen, r) \<leftarrow> object_at d KindChain (?pre r); Some (?post seen r) } }"
    unfolding peek_count bind_peek_count
    by (simp add: element_def count_chain_def Let_def keep_chain_def when_build_def violate_when_def cong: if_cong)
  also have "\<dots> = run (strict d) (\<lambda>v r. case v of
          JObj ms \<Rightarrow> (case eff_object eff_skip eff_chain_member KindChain ms (?pre r) of (seen, r) \<Rightarrow> ?post seen r)
        | _ \<Rightarrow> eff_skip v (violate r)) (count_chain r)"
    by (rule typed_object_run [OF chain_member_run chain_member_restless pre post])
  also have "\<dots> = run (strict d) eff_chain r"
    by (simp add: run_def eff_chain_def Let_def)
  finally show ?thesis .
qed

lemma bundle_member_run:
  assumes "i < length (memberNames KindBundle)"
  shows "member (object_at d) (array_at d) KindBundle i r = run (strict d) (eff_bundle_member i) r"
proof -
  have c: "member (object_at d) (array_at d) KindBundle 1 r = run (strict d) (eff_items eff_chain False) r"
    by (subst items_run [OF element_chain_run eff_chain_restless, symmetric])
      (cases "arrayValue (object_at d) (array_at d) ElemChain r"; auto simp: member_def violate_when_def)
  have f: "member (object_at d) (array_at d) KindBundle 0 r = run (strict d) eff_format r"
    by (cases "strict d (rd_rest r)")
      (auto simp: member_def stringValue_run run_with_def run_def eff_format_def case_prod_beta stopBuilding_def)
  from assms have "i = 0 \<or> i = 1" by auto
  then consider "i = 0" | "i = 1" by blast
  then show ?thesis
  proof cases
    case 1
    have "eff_bundle_member 0 = eff_format" by (simp add: eff_bundle_member_def)
    with f 1 show ?thesis by (simp only:)
  next
    case 2
    have "eff_bundle_member 1 = eff_items eff_chain False" by (simp add: eff_bundle_member_def)
    with c 2 show ?thesis by (simp only:)
  qed
qed

lemma document_run:
  "document r = do { (v, s) \<leftarrow> strict (levels (rd_lim r)) (rd_rest r);
     if skip_ws s = [] then Some ((eff_bundle v r)\<lparr>rd_rest := s\<rparr>) else None }"
proof -
  let ?d = "levels (rd_lim r)"
  let ?pre = "\<lambda>r. r\<lparr>rd_topObject := True\<rparr>"
  let ?post = "\<lambda>seen r. violate_when (1 \<notin> seen) r"
  have pre: "restless ?pre" "\<And>r. rd_rest (?pre r) = rd_rest r" and post: "restless (?post seen)" for seen
    by (simp_all add: restless_def)
  have lim: "rd_lim r' = rd_lim r" if "peek r = Some (c, r')" for c r'
    using that by (auto simp: peek_def split: list.splits)
  have "do { (c, r) \<leftarrow> peek r; if c \<noteq> CHR ''{'' then skipValue (object_at ?d) (array_at ?d) (violate r)
           else do { (seen, r) \<leftarrow> object_at ?d KindBundle (?pre r); Some (?post seen r) } }
      = run (strict ?d) (\<lambda>v r. case v of
          JObj ms \<Rightarrow> (case eff_object eff_skip eff_bundle_member KindBundle ms (?pre r) of (seen, r) \<Rightarrow> ?post seen r)
        | _ \<Rightarrow> eff_skip v (violate r)) r" (is "?doc = _")
    by (rule typed_object_run [OF bundle_member_run bundle_member_restless pre post])
  also have "\<dots> = run (strict ?d) eff_bundle r" by (simp add: run_def eff_bundle_def)
  finally have doc: "?doc = run (strict ?d) eff_bundle r" .
  have "document r = ?doc \<bind> (\<lambda>r. if peek r = None then Some r else None)"
  proof (cases "peek r")
    case None
    then show ?thesis by (simp add: document_def)
  next
    case (Some x)
    then obtain c r' where x: "peek r = Some (c, r')" by (cases x) auto
    with lim [OF this] show ?thesis by (simp add: document_def violate_when_def cong: if_cong)
  qed
  also have "\<dots> = do { (v, s) \<leftarrow> strict ?d (rd_rest r); if skip_ws s = [] then Some ((eff_bundle v r)\<lparr>rd_rest := s\<rparr>) else None }"
    unfolding doc by (cases "strict ?d (rd_rest r)") (auto simp: run_def peek_run split: list.split)
  finally show ?thesis .
qed


subsection \<open>Fuel\<close>

text \<open>Every round of a loop shortens the input, so the length of the input is fuel enough.\<close>

lemma strict_string_shorter: "strict_string s = Some (x, r) \<Longrightarrow> length r < length s"
  by (auto simp: strict_string_def dest: scan_facts)

lemma skip_ws_length: "length (skip_ws s) \<le> length s"
  by (simp add: skip_ws_def length_dropWhile_le)

lemma tl_shorter: "has_prefix [c] s \<Longrightarrow> length (tl s) < length s"
  by (auto simp: has_prefix_one)

lemma strict_members_shorter:
  assumes "\<And>s v r. val s = Some (v, r) \<Longrightarrow> length r < length s"
  shows "strict_members n val s = Some (ms, r) \<Longrightarrow> length r < length s"
proof (induction n arbitrary: s ms)
  case (Suc n)
  from Suc.prems obtain k s1 v s2 where s: "has_prefix [CHR 0x22] s" "strict_string (tl s) = Some (k, s1)"
    "has_prefix '':'' (skip_ws s1)" "val (tl (skip_ws s1)) = Some (v, s2)"
    and rest: "has_prefix ''}'' (skip_ws s2) \<and> r = tl (skip_ws s2) \<or>
      (\<exists>ms'. has_prefix '','' (skip_ws s2) \<and> strict_members n val (skip_ws (tl (skip_ws s2))) = Some (ms', r))"
    by (auto simp: require_def bind_eq_Some_conv split: if_splits)
  have "length s2 < length s"
    using tl_shorter [OF s(1)] strict_string_shorter [OF s(2)] tl_shorter [OF s(3)] skip_ws_length [of s1] assms [OF s(4)] by linarith
  moreover have "length r < length (skip_ws s2)" using rest
  proof
    assume "has_prefix ''}'' (skip_ws s2) \<and> r = tl (skip_ws s2)"
    then show ?thesis using tl_shorter by blast
  next
    assume "\<exists>ms'. has_prefix '','' (skip_ws s2) \<and> strict_members n val (skip_ws (tl (skip_ws s2))) = Some (ms', r)"
    then obtain ms' where c: "has_prefix '','' (skip_ws s2)" "strict_members n val (skip_ws (tl (skip_ws s2))) = Some (ms', r)" by blast
    show ?thesis using Suc.IH [OF c(2)] tl_shorter [OF c(1)] skip_ws_length [of "tl (skip_ws s2)"] by linarith
  qed
  ultimately show ?case using skip_ws_length [of s2] by linarith
qed simp

lemma strict_items_shorter:
  assumes "\<And>s v r. val s = Some (v, r) \<Longrightarrow> length r < length s"
  shows "strict_items n val s = Some (xs, r) \<Longrightarrow> length r < length s"
proof (induction n arbitrary: s xs)
  case (Suc n)
  from Suc.prems obtain v s2 where s: "val s = Some (v, s2)"
    and rest: "has_prefix '']'' (skip_ws s2) \<and> r = tl (skip_ws s2) \<or>
      (\<exists>xs'. has_prefix '','' (skip_ws s2) \<and> strict_items n val (tl (skip_ws s2)) = Some (xs', r))"
    by (auto simp: require_def bind_eq_Some_conv split: if_splits)
  have "length r < length (skip_ws s2)" using rest
  proof
    assume "has_prefix '']'' (skip_ws s2) \<and> r = tl (skip_ws s2)"
    then show ?thesis using tl_shorter by blast
  next
    assume "\<exists>xs'. has_prefix '','' (skip_ws s2) \<and> strict_items n val (tl (skip_ws s2)) = Some (xs', r)"
    then obtain xs' where c: "has_prefix '','' (skip_ws s2)" "strict_items n val (tl (skip_ws s2)) = Some (xs', r)" by blast
    show ?thesis using Suc.IH [OF c(2)] tl_shorter [OF c(1)] by linarith
  qed
  then show ?case using assms [OF s] skip_ws_length [of s2] by linarith
qed simp


lemma drop_digits_length: "length (drop_digits s) \<le> length s"
  by (simp add: drop_digits_def length_dropWhile_le)

lemma number_shorter: "number_after s = Some r \<Longrightarrow> length r < length s"
proof -
  assume n: "number_after s = Some r"
  define s1 where "s1 = (if has_prefix ''-'' s then tl s else s)"
  define s2 where "s2 = (if has_prefix ''0'' s1 then tl s1 else drop_digits s1)"
  have l1: "length s1 \<le> length s" by (simp add: s1_def)
  have d: "starts_digit s1" using n by (auto simp: number_after_def Let_def s1_def split: if_splits)
  then obtain c t where ct: "s1 = c # t" "is_digit c" by (cases s1) (auto simp: starts_digit_def)
  have l2: "length s2 < length s1"
    using drop_digits_length [of t] ct by (auto simp: s2_def drop_digits_def)
  obtain s3 where s3: "(if has_prefix ''.'' s2 then (if starts_digit (tl s2) then Some (drop_digits (tl s2)) else None) else Some s2) = Some s3"
    and r: "(if has_prefix ''e'' s3 \<or> has_prefix ''E'' s3 then
          (let s = tl s3; s = (if has_prefix ''+'' s \<or> has_prefix ''-'' s then tl s else s)
           in if starts_digit s then Some (drop_digits s) else None) else Some s3) = Some r"
    using n d unfolding number_after_def Let_def s1_def [symmetric] s2_def [symmetric] by (auto simp: bind_eq_Some_conv split: if_splits)
  have l3: "length s3 \<le> length s2"
    using s3 drop_digits_length [of "tl s2"] by (auto split: if_splits)
  have "length r \<le> length s3"
    using r drop_digits_length [of "tl s3"] drop_digits_length [of "tl (tl s3)"] by (auto simp: Let_def split: if_splits)
  with l1 l2 l3 show ?thesis by linarith
qed

lemma strict_scalar_shorter: "strict_scalar s = Some (v, r) \<Longrightarrow> length r < length s"
proof -
  assume v: "strict_scalar s = Some (v, r)"
  then obtain c t where c: "skip_ws s = c # t" by (cases "skip_ws s") (auto simp: strict_scalar_def)
  have "length r < length (c # t)"
    using v number_shorter [of "c # t"] by (auto simp: strict_scalar_def c dest!: strict_string_shorter split: if_splits)
  with c skip_ws_length [of s] show ?thesis by simp
qed

lemma strict_shorter: "strict d s = Some (v, r) \<Longrightarrow> length r < length s"
proof (induction d arbitrary: s v r)
  case 0
  then show ?case using strict_scalar_shorter by simp
next
  case (Suc d)
  have "length r < length (skip_ws s)" if c: "has_prefix [c] (skip_ws s)" and
    o: "strict_object (strict d) (tl (skip_ws s)) = Some (ms, r) \<or> strict_array (strict d) (tl (skip_ws s)) = Some (xs, r)" for c ms xs
  proof -
    have val: "\<And>s v r. strict d s = Some (v, r) \<Longrightarrow> length r < length s" by (rule Suc.IH)
    have mem: "strict_members n (strict d) u = Some (ms, r) \<Longrightarrow> length r < length u"
      and items: "strict_items n (strict d) u = Some (xs, r) \<Longrightarrow> length r < length u" for n u
      by (erule strict_members_shorter [rotated], erule val) (erule strict_items_shorter [rotated], erule val)
    let ?t = "skip_ws (tl (skip_ws s))"
    have "length r < length ?t"
      using o
    proof
      assume o: "strict_object (strict d) (tl (skip_ws s)) = Some (ms, r)"
      then have "has_prefix ''}'' ?t \<and> r = tl ?t \<or> strict_members (length ?t) (strict d) ?t = Some (ms, r)"
        by (auto simp: strict_object_def split: if_splits)
      then show ?thesis using mem tl_shorter by blast
    next
      assume o: "strict_array (strict d) (tl (skip_ws s)) = Some (xs, r)"
      then have "has_prefix '']'' ?t \<and> r = tl ?t \<or> strict_items (length ?t) (strict d) ?t = Some (xs, r)"
        by (auto simp: strict_array_def split: if_splits)
      then show ?thesis using items tl_shorter by blast
    qed
    then have "length r < length (tl (skip_ws s))" using skip_ws_length [of "tl (skip_ws s)"] by linarith
    with tl_shorter [OF c] show ?thesis by linarith
  qed
  then have "length r < length (skip_ws s) \<or> strict_scalar s = Some (v, r)"
    using Suc.prems by (auto split: if_splits)
  then show ?case using skip_ws_length [of s] strict_scalar_shorter by fastforce
qed

lemma strict_members_fuel:
  assumes val: "\<And>s v r. val s = Some (v, r) \<Longrightarrow> length r < length s"
  shows "length s \<le> n \<Longrightarrow> strict_members n val s = strict_members (length s) val s"
proof -
  have any: "strict_members n val s = strict_members m val s" if "length s \<le> n" "length s \<le> m" for n m s
    using that
  proof (induction n arbitrary: m s)
    case (Suc n)
    show ?case
    proof (cases m)
      case 0
      with Suc.prems show ?thesis by simp
    next
      case (Suc m')
      have "strict_members n val (skip_ws (tl (skip_ws s2))) = strict_members m' val (skip_ws (tl (skip_ws s2)))"
        if "has_prefix [CHR 0x22] s" "strict_string (tl s) = Some (k, s1)" "has_prefix '':'' (skip_ws s1)"
          "val (tl (skip_ws s1)) = Some (v, s2)" for k s1 v s2
      proof (rule Suc.IH)
        have "length (skip_ws (tl (skip_ws s2))) < length s"
          using tl_shorter [OF that(1)] strict_string_shorter [OF that(2)] tl_shorter [OF that(3)] skip_ws_length [of s1] val [OF that(4)]
            skip_ws_length [of s2] skip_ws_length [of "tl (skip_ws s2)"] by simp
        then show "length (skip_ws (tl (skip_ws s2))) \<le> n" "length (skip_ws (tl (skip_ws s2))) \<le> m'"
          using Suc.prems Suc by simp_all
      qed
      note same = this
      show ?thesis
      proof (cases "has_prefix [CHR 0x22] s \<and> strict_string (tl s) \<noteq> None")
        case False
        then show ?thesis by (cases "strict_string (tl s)") (simp_all add: Suc bind_require)
      next
        case True
        then obtain k s1 where k: "has_prefix [CHR 0x22] s" "strict_string (tl s) = Some (k, s1)" by auto
        show ?thesis
        proof (cases "has_prefix '':'' (skip_ws s1) \<and> val (tl (skip_ws s1)) \<noteq> None")
          case False
          then show ?thesis by (cases "val (tl (skip_ws s1))") (simp_all add: Suc bind_require k)
        next
          case True
          then obtain v s2 where v: "has_prefix '':'' (skip_ws s1)" "val (tl (skip_ws s1)) = Some (v, s2)" by auto
          show ?thesis by (simp add: Suc bind_require k v same [OF k v])
        qed
      qed
    qed
  qed simp
  show "length s \<le> n \<Longrightarrow> strict_members n val s = strict_members (length s) val s" by (rule any) simp_all
qed

lemma strict_items_fuel:
  assumes val: "\<And>s v r. val s = Some (v, r) \<Longrightarrow> length r < length s"
  shows "length s \<le> n \<Longrightarrow> strict_items n val s = strict_items (length s) val s"
proof -
  have any: "strict_items n val s = strict_items m val s" if "length s \<le> n" "length s \<le> m" for n m s
    using that
  proof (induction n arbitrary: m s)
    case 0
    then have s: "s = []" by simp
    have "val [] = None" using val [of "[]"] by (cases "val []") auto
    then show ?case by (cases m) (simp_all add: s)
  next
    case (Suc n)
    show ?case
    proof (cases m)
      case 0
      with Suc.prems have s: "s = []" by simp
      have "val [] = None" using val [of "[]"] by (cases "val []") auto
      then show ?thesis by (simp add: s 0)
    next
      case (Suc m')
      have "strict_items n val (tl (skip_ws s2)) = strict_items m' val (tl (skip_ws s2))" if "val s = Some (v, s2)" for v s2
      proof (rule Suc.IH)
        have "length (tl (skip_ws s2)) < length s" using val [OF that] skip_ws_length [of s2] by simp
        then show "length (tl (skip_ws s2)) \<le> n" "length (tl (skip_ws s2)) \<le> m'" using Suc.prems Suc by simp_all
      qed
      note same = this
      show ?thesis
      proof (cases "val s")
        case None
        then show ?thesis by (simp add: Suc)
      next
        case (Some x)
        obtain v s2 where x: "x = (v, s2)" by (cases x)
        show ?thesis by (simp add: Suc \<open>val s = Some x\<close> x same [OF Some [unfolded x]])
      qed
    qed
  qed
  show "length s \<le> n \<Longrightarrow> strict_items n val s = strict_items (length s) val s" by (rule any) simp_all
qed

end
