(* ===== verification/Export_Rules.thy ===== *)
theory Export_Rules
  imports Export_Grammar "HOL-Library.Multiset"
begin

section \<open>The rules of the export format, and what is wrong with a bundle\<close>

text \<open>
  The rules of the format (\<open>docs/bundle-format.md\<close>, sections 3, 4, 5 and 9.1), stated over the tree of a
  text: \<open>read_reference\<close>. And what a stretch of the reader's work does to its flags, \<open>effect\<close>: how many
  values it counts, whether a name is repeated or the structure broken, how many chains, entries and
  checkpoints there are. What a part does is composed from what its own parts do (\<open>effect_trans\<close>), so
  there is one lemma for each kind of object, up to \<open>eff_chain_effect\<close>.
\<close>

subsection \<open>The rules over a tree\<close>

text \<open>Values, at every depth; objects with a repeated name; objects with a member.\<close>

fun value_count :: "json \<Rightarrow> nat" where
  "value_count (JObj ms) = Suc (sum_list (map (\<lambda>(k, v). value_count v) ms))"
| "value_count (JArr xs) = Suc (sum_list (map value_count xs))"
| "value_count v = 1"

fun repeats :: "json \<Rightarrow> bool" where
  "repeats (JObj ms) = (\<not> distinct (map fst ms) \<or> list_ex (\<lambda>(k, v). repeats v) ms)"
| "repeats (JArr xs) = list_ex repeats xs"
| "repeats v = False"

fun has_members :: "json \<Rightarrow> bool" where
  "has_members (JObj ms) = (ms \<noteq> [])"
| "has_members (JArr xs) = list_ex has_members xs"
| "has_members v = False"

fun is_string :: "json \<Rightarrow> bool" where
  "is_string (JStr s) = True" | "is_string v = False"

fun text_of :: "json \<Rightarrow> string" where
  "text_of (JStr s) = s" | "text_of v = []"

definition member_at :: "string \<Rightarrow> json \<Rightarrow> json" where
  "member_at k v = (case map_of (members_of v) k of Some x \<Rightarrow> x | None \<Rightarrow> JNull)"

fun is_object :: "json \<Rightarrow> bool" where
  "is_object (JObj ms) = True" | "is_object v = False"

fun is_array :: "json \<Rightarrow> bool" where
  "is_array (JArr xs) = True" | "is_array v = False"

abbreviation member_names :: "json \<Rightarrow> string set" where
  "member_names v \<equiv> fst ` set (members_of v)"

definition pair_ok :: "object_kind \<Rightarrow> json \<Rightarrow> bool" where
  "pair_ok kind v \<longleftrightarrow>
     is_object v \<and> member_names v = set (memberNames kind) \<and> list_all (\<lambda>(k, x). is_string x) (members_of v)"

definition entry_names :: "string list" where "entry_names = take 7 (memberNames KindEntry)"

definition entry_member_ok :: "string \<Rightarrow> json \<Rightarrow> bool" where
  "entry_member_ok k x =
     (if k = ''record_signature'' then pair_ok KindRecordSignature x
      else if k = ''disclosed'' then pair_ok KindDisclosed x else is_string x)"

definition entry_ok :: "json \<Rightarrow> bool" where
  "entry_ok v \<longleftrightarrow>
     is_object v \<and> set entry_names \<subseteq> member_names v \<and> member_names v \<subseteq> set (memberNames KindEntry) \<and>
     list_all (\<lambda>(k, x). entry_member_ok k x) (members_of v)"

definition chain_ok :: "json \<Rightarrow> bool" where
  "chain_ok v \<longleftrightarrow>
     is_object v \<and> member_names v = set (memberNames KindChain) \<and>
     is_string (member_at ''chain_id'' v) \<and>
     is_array (member_at ''entries'' v) \<and> items_of (member_at ''entries'' v) \<noteq> [] \<and>
     list_all entry_ok (items_of (member_at ''entries'' v)) \<and>
     is_array (member_at ''checkpoints'' v) \<and> list_all is_string (items_of (member_at ''checkpoints'' v))"

definition bundle_ok :: "json \<Rightarrow> bool" where
  "bundle_ok v \<longleftrightarrow>
     is_object v \<and> ''chains'' \<in> member_names v \<and> member_names v \<subseteq> set (memberNames KindBundle) \<and>
     is_array (member_at ''chains'' v) \<and> list_all chain_ok (items_of (member_at ''chains'' v))"

definition format_ok :: "json \<Rightarrow> bool" where
  "format_ok v \<longleftrightarrow> member_at ''format'' v = JStr FormatID"

definition chains_in :: "json \<Rightarrow> json list" where
  "chains_in v = items_of (member_at ''chains'' v)"

definition entries_in :: "json \<Rightarrow> json list" where
  "entries_in v = items_of (member_at ''entries'' v)"

definition checkpoints_in :: "json \<Rightarrow> json list" where
  "checkpoints_in v = items_of (member_at ''checkpoints'' v)"

definition over_counts :: "limits \<Rightarrow> json \<Rightarrow> bool" where
  "over_counts l v \<longleftrightarrow>
     lm_Chains l < int (length (chains_in v)) \<or>
     lm_Entries l < int (sum_list (map (length \<circ> entries_in) (chains_in v))) \<or>
     lm_Checkpoints l < int (sum_list (map (length \<circ> checkpoints_in) (chains_in v)))"

text \<open>What a bundle holds, of strings at most as long as the reader keeps them.\<close>

definition capped :: "nat \<Rightarrow> string \<Rightarrow> string" where
  "capped limit s = (if limit < length s then oversize else s)"

definition pair_value :: "object_kind \<Rightarrow> nat list \<Rightarrow> json \<Rightarrow> raw_pair" where
  "pair_value kind caps p =
     (let field = (\<lambda>i. capped (caps ! i) (text_of (member_at (memberNames kind ! i) p)))
      in \<lparr>rp_a = field 0, rp_b = field 1\<rparr>)"

definition pair_in :: "string \<Rightarrow> object_kind \<Rightarrow> nat list \<Rightarrow> json \<Rightarrow> raw_pair option" where
  "pair_in k kind caps v = (if k \<notin> member_names v then None else Some (pair_value kind caps (member_at k v)))"

definition entry_in :: "json \<Rightarrow> raw_entry" where
  "entry_in v =
     (let field = (\<lambda>i. capped (entryCaps ! i) (text_of (member_at (memberNames KindEntry ! i) v)))
      in \<lparr>re_EntryID = field 0, re_EntryType = field 1, re_GlobalSeq = field 2, re_PreviousHash = field 3,
          re_Timestamp = field 4, re_ContentHash = field 5, re_ChainHash = field 6,
          re_Sig = pair_in ''record_signature'' KindRecordSignature signatureCaps v,
          re_Disclosed = pair_in ''disclosed'' KindDisclosed disclosedCaps v\<rparr>)"

definition chain_in :: "limits \<Rightarrow> json \<Rightarrow> raw_chain" where
  "chain_in l v =
     \<lparr>rc_ID = chain_id_text (text_of (member_at ''chain_id'' v)), rc_Entries = map entry_in (entries_in v),
      rc_Checkpoints = map (checkpoint_text l \<circ> text_of) (checkpoints_in v)\<rparr>"

definition read_reference :: "limits \<Rightarrow> bytes \<Rightarrow> reason + raw_chain list" where
  "read_reference l data =
     (if lm_BundleBytes l < int (length data) then Inl ReasonTooLarge
      else case strict_text (levels l) data of
        None \<Rightarrow> Inl ReasonJSON
      | Some v \<Rightarrow>
          if lm_Values l < int (value_count v) then Inl ReasonTooLarge
          else if repeats v then Inl ReasonDuplicateKey
          else if is_object v \<and> \<not> format_ok v then Inl ReasonFormat
          else if \<not> bundle_ok v then Inl ReasonStructure
          else if over_counts l v then Inl ReasonTooLarge
          else Inr (map (chain_in l) (chains_in v)))"

subsection \<open>What a stretch of reading does to the flags\<close>

definition good :: "reader \<Rightarrow> bool" where
  "good r \<longleftrightarrow> \<not> rd_overValues r \<and> \<not> rd_duplicate r"

definition clean_flags :: "reader \<Rightarrow> bool" where
  "clean_flags r \<longleftrightarrow> good r \<and> \<not> rd_structure r \<and> \<not> rd_overCount r"

definition counter :: "nat \<Rightarrow> reader \<Rightarrow> int" where
  "counter j r = (if j = 0 then rd_nChains r else if j = 1 then rd_nEntries r else rd_nCheckpoints r)"

definition reader_inv :: "reader \<Rightarrow> bool" where
  "reader_inv r \<longleftrightarrow>
     (rd_overValues r \<longleftrightarrow> lm_Values (rd_lim r) < rd_values r) \<and> (rd_track r \<longleftrightarrow> good r) \<and>
     (rd_overCount r \<longleftrightarrow> lm_Chains (rd_lim r) < rd_nChains r \<or> lm_Entries (rd_lim r) < rd_nEntries r \<or>
        lm_Checkpoints (rd_lim r) < rd_nCheckpoints r) \<and>
     (rd_build r \<longrightarrow> clean_flags r)"

text \<open>From \<open>r\<close> to \<open>r'\<close> there were \<open>n\<close> values, a repeated name or not, a violation of the structure or not, and
  as many chains, entries and checkpoints as \<open>c\<close> says. What a lesser reason would be is open once there is
  a greater one.\<close>

definition effect :: "nat \<Rightarrow> bool \<Rightarrow> bool \<Rightarrow> (nat \<Rightarrow> nat) \<Rightarrow> reader \<Rightarrow> reader \<Rightarrow> bool" where
  "effect n dup bad c r r' \<longleftrightarrow>
     (reader_inv r \<longrightarrow>
        reader_inv r' \<and> rd_lim r' = rd_lim r \<and> rd_values r' = rd_values r + int n \<and>
        (\<not> rd_overValues r' \<longrightarrow> rd_duplicate r' = (rd_duplicate r \<or> dup)) \<and>
        (good r' \<longrightarrow> rd_structure r' = (rd_structure r \<or> bad)) \<and>
        (good r' \<and> \<not> rd_structure r' \<longrightarrow> (\<forall>j. counter j r' = counter j r + int (c j))) \<and>
        rd_topObject r' = rd_topObject r \<and> rd_formatOK r' = rd_formatOK r \<and>
        (rd_build r' \<longleftrightarrow> rd_build r \<and> clean_flags r'))"

lemma effectD:
  assumes "effect n dup bad c r r'" "reader_inv r"
  shows "reader_inv r'" "rd_lim r' = rd_lim r" "rd_values r' = rd_values r + int n"
    "\<not> rd_overValues r' \<Longrightarrow> rd_duplicate r' = (rd_duplicate r \<or> dup)"
    "good r' \<Longrightarrow> rd_structure r' = (rd_structure r \<or> bad)"
    "good r' \<Longrightarrow> \<not> rd_structure r' \<Longrightarrow> counter j r' = counter j r + int (c j)"
    "rd_topObject r' = rd_topObject r" "rd_formatOK r' = rd_formatOK r"
    "rd_build r' \<longleftrightarrow> rd_build r \<and> clean_flags r'"
  using assms unfolding effect_def by blast+

lemma effect_good:
  assumes "effect n dup bad c r r'" "reader_inv r" "good r'"
  shows "good r \<and> \<not> dup"
proof -
  from effectD [OF assms(1,2)] have "rd_overValues r \<longrightarrow> rd_overValues r'"
    using assms(2) by (auto simp: reader_inv_def)
  with assms(3) effectD(4) [OF assms(1,2)] show ?thesis by (auto simp: good_def)
qed

lemma effect_refl: "effect 0 False False (\<lambda>_. 0) r r"
proof -
  have "reader_inv r \<Longrightarrow> rd_build r \<longrightarrow> clean_flags r" by (simp add: reader_inv_def)
  then show ?thesis unfolding effect_def by (simp, blast)
qed

lemma effect_trans:
  assumes 1: "effect n d b c r r1" and 2: "effect m d' b' c' r1 r2"
  shows "effect (n + m) (d \<or> d') (b \<or> b') (\<lambda>j. c j + c' j) r r2"
  unfolding effect_def
proof
  assume inv: "reader_inv r"
  note e1 = effectD [OF 1 inv]
  note e2 = effectD [OF 2 e1(1)]
  have v: "rd_overValues r1 \<longrightarrow> rd_overValues r2"
    using e1(1) e2(1,2,3) by (auto simp: reader_inv_def)
  have g: "good r2 \<longrightarrow> good r1" using effect_good [OF 2 e1(1)] by blast
  have s: "good r2 \<and> \<not> rd_structure r2 \<longrightarrow> \<not> rd_structure r1" using e2(5) by blast
  have cl: "clean_flags r2 \<longrightarrow> clean_flags r1"
  proof
    assume c2: "clean_flags r2"
    then have "\<not> rd_structure r1" "good r1" using g s by (auto simp: clean_flags_def)
    moreover have "counter j r1 \<le> counter j r2" for j using c2 e2(6) [of j] by (simp add: clean_flags_def)
    from this [of 0] this [of 1] this [of 2]
    have "rd_nChains r1 \<le> rd_nChains r2" "rd_nEntries r1 \<le> rd_nEntries r2" "rd_nCheckpoints r1 \<le> rd_nCheckpoints r2"
      by (simp_all add: counter_def)
    then have "\<not> rd_overCount r1" using c2 e1(1,2) e2(1,2) by (auto simp: clean_flags_def reader_inv_def)
    ultimately show "clean_flags r1" by (simp add: clean_flags_def)
  qed
  have inv2: "reader_inv r2" and lim: "rd_lim r2 = rd_lim r" "rd_values r2 = rd_values r + int (n + m)"
    and rest: "rd_topObject r2 = rd_topObject r" "rd_formatOK r2 = rd_formatOK r"
    using e1 e2 by simp_all
  have dup: "\<not> rd_overValues r2 \<longrightarrow> rd_duplicate r2 = (rd_duplicate r \<or> d \<or> d')"
    using e1(4) e2(4) v by blast
  have str: "good r2 \<longrightarrow> rd_structure r2 = (rd_structure r \<or> b \<or> b')"
    using e1(5) e2(5) g by blast
  have cnt: "counter j r2 = counter j r + int (c j + c' j)" if "good r2" "\<not> rd_structure r2" for j
  proof -
    have "good r1" "\<not> rd_structure r1" using that g s by blast+
    with e1(6) [of j] e2(6) [of j] that show ?thesis by simp
  qed
  have bld: "rd_build r2 \<longleftrightarrow> rd_build r \<and> clean_flags r2" using e1(9) e2(9) cl by blast
  show "reader_inv r2 \<and> rd_lim r2 = rd_lim r \<and> rd_values r2 = rd_values r + int (n + m) \<and>
        (\<not> rd_overValues r2 \<longrightarrow> rd_duplicate r2 = (rd_duplicate r \<or> d \<or> d')) \<and>
        (good r2 \<longrightarrow> rd_structure r2 = (rd_structure r \<or> b \<or> b')) \<and>
        (good r2 \<and> \<not> rd_structure r2 \<longrightarrow> (\<forall>j. counter j r2 = counter j r + int (c j + c' j))) \<and>
        rd_topObject r2 = rd_topObject r \<and> rd_formatOK r2 = rd_formatOK r \<and>
        (rd_build r2 \<longleftrightarrow> rd_build r \<and> clean_flags r2)"
    using inv2 lim rest dup str cnt bld by blast
qed

text \<open>Once a greater reason is there, the lesser ones are open.\<close>

lemma effect_dup_weaken: "effect n True b c r r' \<Longrightarrow> effect n True b' c' r r'"
proof -
  assume e: "effect n True b c r r'"
  have "\<not> good r'" if "reader_inv r" using effectD(4) [OF e that] by (auto simp: good_def)
  with e show ?thesis unfolding effect_def by blast
qed

lemma effect_bad_weaken: "effect n d True c r r' \<Longrightarrow> effect n d True c' r r'"
  unfolding effect_def by blast

lemma effect_conv:
  assumes "effect n d b c r r'" "n' = n" "d' = d" "\<not> d \<Longrightarrow> b' = b" "\<not> d \<Longrightarrow> \<not> b \<Longrightarrow> (\<And>j. c' j = c j)"
  shows "effect n' d' b' c' r r'"
proof (cases d)
  case True
  with assms show ?thesis by (auto intro: effect_dup_weaken)
next
  case d: False
  show ?thesis
  proof (cases b)
    case True
    with assms d show ?thesis by (auto intro: effect_bad_weaken)
  next
    case False
    with assms(5) d have "c' = c" by blast
    with assms d show ?thesis by simp
  qed
qed

lemma effect_count: "effect 1 False False (\<lambda>_. 0) r (countValue r)"
  unfolding effect_def
proof
  assume inv: "reader_inv r"
  show "reader_inv (countValue r) \<and> rd_lim (countValue r) = rd_lim r \<and> rd_values (countValue r) = rd_values r + int 1 \<and>
        (\<not> rd_overValues (countValue r) \<longrightarrow> rd_duplicate (countValue r) = (rd_duplicate r \<or> False)) \<and>
        (good (countValue r) \<longrightarrow> rd_structure (countValue r) = (rd_structure r \<or> False)) \<and>
        (good (countValue r) \<and> \<not> rd_structure (countValue r) \<longrightarrow> (\<forall>j. counter j (countValue r) = counter j r + int 0)) \<and>
        rd_topObject (countValue r) = rd_topObject r \<and> rd_formatOK (countValue r) = rd_formatOK r \<and>
        (rd_build (countValue r) \<longleftrightarrow> rd_build r \<and> clean_flags (countValue r))"
    using inv
    by (cases "lm_Values (rd_lim r) < rd_values r + 1"; cases "rd_overValues r")
      (auto simp: countValue_def stopTracking_def stopBuilding_def reader_inv_def good_def clean_flags_def counter_def Let_def)
qed

lemma effect_violate: "effect 0 False True c r (violate r)"
  by (auto simp: effect_def violate_def stopBuilding_def reader_inv_def good_def clean_flags_def)

lemma effect_duplicate: "effect 0 True b c r (foundDuplicate r)"
  by (auto simp: effect_def foundDuplicate_def stopTracking_def stopBuilding_def reader_inv_def good_def clean_flags_def)

lemma effect_entry: "effect 0 False False (\<lambda>j. if j = 1 then 1 else 0) r (count_entry r)"
  by (auto simp: effect_def count_entry_def overLimit_def stopBuilding_def reader_inv_def good_def clean_flags_def counter_def Let_def)

lemma effect_chain: "effect 0 False False (\<lambda>j. if j = 0 then 1 else 0) r (count_chain r)"
  by (auto simp: effect_def count_chain_def overLimit_def stopBuilding_def reader_inv_def good_def clean_flags_def counter_def Let_def)

lemma effect_checkpoint: "effect 0 False False (\<lambda>j. if 1 < j then 1 else 0) r (count_checkpoint r)"
  by (auto simp: effect_def count_checkpoint_def overLimit_def stopBuilding_def reader_inv_def good_def clean_flags_def counter_def Let_def)

text \<open>What only touches what is built.\<close>

definition data_only :: "(reader \<Rightarrow> reader) \<Rightarrow> bool" where
  "data_only f \<longleftrightarrow> (\<forall>r. \<exists>a b c. f r = r\<lparr>rd_chains := a, rd_chain := b, rd_entry := c\<rparr>)"

lemma data_onlyI: "f = (\<lambda>r. r\<lparr>rd_chains := a r, rd_chain := b r, rd_entry := c r\<rparr>) \<Longrightarrow> data_only f"
  by (auto simp: data_only_def)

lemma data_only_simps [simp]: "data_only (on_entry f)" "data_only (on_chain g)" "data_only keep_entry" "data_only keep_chain"
  "data_only (\<lambda>r. r\<lparr>rd_entry := e\<rparr>)" "data_only (\<lambda>r. r\<lparr>rd_chain := k\<rparr>)"
proof -
  have same: "r = r\<lparr>rd_chains := rd_chains r, rd_chain := rd_chain r, rd_entry := rd_entry r\<rparr>" for r :: reader by simp
  have "r\<lparr>rd_entry := x\<rparr> = r\<lparr>rd_chains := rd_chains r, rd_chain := rd_chain r, rd_entry := x\<rparr>"
    "r\<lparr>rd_chain := y\<rparr> = r\<lparr>rd_chains := rd_chains r, rd_chain := y, rd_entry := rd_entry r\<rparr>"
    "r\<lparr>rd_chains := z, rd_chain := y\<rparr> = r\<lparr>rd_chains := z, rd_chain := y, rd_entry := rd_entry r\<rparr>"
    "r\<lparr>rd_chain := y, rd_entry := x\<rparr> = r\<lparr>rd_chains := rd_chains r, rd_chain := y, rd_entry := x\<rparr>" for r :: reader and x y z
    by simp_all
  with same show "data_only (on_entry f)" "data_only (on_chain g)" "data_only keep_entry" "data_only keep_chain"
    "data_only (\<lambda>r. r\<lparr>rd_entry := e\<rparr>)" "data_only (\<lambda>r. r\<lparr>rd_chain := k\<rparr>)"
    unfolding data_only_def on_entry_def on_chain_def keep_entry_def keep_chain_def when_build_def
    by metis+
qed

lemma effect_data:
  assumes "data_only f"
  shows "effect 0 False False (\<lambda>_. 0) r (f r)"
proof -
  obtain a b c where f: "f r = r\<lparr>rd_chains := a, rd_chain := b, rd_entry := c\<rparr>" using assms unfolding data_only_def by blast
  have same: "reader_inv (r\<lparr>rd_chains := a, rd_chain := b, rd_entry := c\<rparr>) = reader_inv r"
    "good (r\<lparr>rd_chains := a, rd_chain := b, rd_entry := c\<rparr>) = good r"
    "clean_flags (r\<lparr>rd_chains := a, rd_chain := b, rd_entry := c\<rparr>) = clean_flags r"
    "counter j (r\<lparr>rd_chains := a, rd_chain := b, rd_entry := c\<rparr>) = counter j r" for j
    by (simp_all add: reader_inv_def good_def clean_flags_def counter_def)
  have "reader_inv r \<Longrightarrow> rd_build r \<longrightarrow> clean_flags r" by (simp add: reader_inv_def)
  then show ?thesis unfolding f effect_def same by (simp, blast)
qed

lemma effect_violate_when: "effect 0 False b (\<lambda>_. 0) r (violate_when b r)"
  using effect_violate effect_refl by (simp add: violate_when_def)


subsection \<open>Objects\<close>

lemma memberNames_short: "k \<in> set (memberNames kind) \<Longrightarrow> length k \<le> maxMemberName"
  by (cases kind) (auto simp: maxMemberName_def)

lemma index_of_None [simp]: "index_of x ys = None \<longleftrightarrow> x \<notin> set ys"
  by (induction ys) auto

lemma index_of_None' [simp]: "None = index_of x ys \<longleftrightarrow> x \<notin> set ys"
  by (metis index_of_None)

lemma index_of_Some_in: "index_of x ys = Some i \<Longrightarrow> x \<in> set ys"
  by (metis index_of_None option.distinct(1))

lemma index_of_inject: "index_of x ys = Some i \<Longrightarrow> index_of y ys = Some i \<Longrightarrow> x = y"
  by (induction ys arbitrary: i) (auto split: if_splits)

lemma eff_name_cases:
  "eff_name kind names k r =
     (case index_of k (memberNames kind) of
        Some i \<Rightarrow> ((Some i, names), r)
      | None \<Rightarrow>
          if \<not> rd_track r then ((None, names), r)
          else let unknown = fst names @ [k]
               in if snd names \<le> length unknown
                  then ((None, (sort unknown, 2 * length unknown)), checkNames unknown r)
                  else ((None, (unknown, snd names)), r))"
proof -
  have "(if memberNames kind \<noteq> [] \<and> length k \<le> maxMemberName then index_of k (memberNames kind) else None)
      = index_of k (memberNames kind)"
    using memberNames_short [of k kind] by auto
  then show ?thesis by (simp only: eff_name_def)
qed

lemma neighbours_sorted: "sorted xs \<Longrightarrow> neighbours_equal xs \<longleftrightarrow> \<not> distinct xs" for xs :: "'a :: linorder list"
  by (induction xs rule: neighbours_equal.induct) (auto intro: antisym)

lemma checkNames_distinct: "checkNames names r = (if distinct names then r else foundDuplicate r)"
  by (simp add: checkNames_def neighbours_sorted)

definition known :: "object_kind \<Rightarrow> string \<Rightarrow> bool" where
  "known kind k \<longleftrightarrow> k \<in> set (memberNames kind)"

definition member_bad :: "object_kind \<Rightarrow> (nat \<Rightarrow> json \<Rightarrow> bool) \<Rightarrow> string \<times> json \<Rightarrow> bool" where
  "member_bad kind hb = (\<lambda>(k, v). case index_of k (memberNames kind) of None \<Rightarrow> True | Some i \<Rightarrow> hb i v)"

definition member_count :: "object_kind \<Rightarrow> (nat \<Rightarrow> json \<Rightarrow> nat \<Rightarrow> nat) \<Rightarrow> nat \<Rightarrow> string \<times> json \<Rightarrow> nat" where
  "member_count kind hc j = (\<lambda>(k, v). case index_of k (memberNames kind) of None \<Rightarrow> 0 | Some i \<Rightarrow> hc i v j)"

definition seen_in :: "object_kind \<Rightarrow> (string \<times> json) list \<Rightarrow> nat set" where
  "seen_in kind ms = {i. \<exists>k \<in> fst ` set ms. index_of k (memberNames kind) = Some i}"

abbreviation names_of :: "object_kind \<Rightarrow> bool \<Rightarrow> (string \<times> json) list \<Rightarrow> string list" where
  "names_of kind b ms \<equiv> filter (\<lambda>k. known kind k = b) (map fst ms)"

lemma seen_in_Nil [simp]: "seen_in kind [] = {}"
  by (simp add: seen_in_def)

lemma seen_in_Cons:
  "seen_in kind ((k, v) # ms) = (case index_of k (memberNames kind) of None \<Rightarrow> {} | Some i \<Rightarrow> {i}) \<union> seen_in kind ms"
proof (cases "index_of k (memberNames kind)")
  case None
  show ?thesis by (simp add: seen_in_def None)
next
  case (Some i)
  then show ?thesis by (auto simp: seen_in_def)
qed

lemma seen_in_iff: "index_of k (memberNames kind) = Some i \<Longrightarrow> i \<in> seen_in kind ms \<longleftrightarrow> k \<in> fst ` set ms"
proof
  assume "index_of k (memberNames kind) = Some i" "i \<in> seen_in kind ms"
  then obtain k' where "k' \<in> fst ` set ms" "index_of k' (memberNames kind) = Some i"
    "index_of k (memberNames kind) = Some i" unfolding seen_in_def by blast
  with index_of_inject [OF this(3,2)] show "k \<in> fst ` set ms" by simp
next
  assume "index_of k (memberNames kind) = Some i" "k \<in> fst ` set ms"
  then show "i \<in> seen_in kind ms" unfolding seen_in_def by blast
qed

lemma inv_track: "effect n d b c r r' \<Longrightarrow> reader_inv r \<Longrightarrow> rd_track r' \<Longrightarrow> rd_track r \<and> \<not> d"
  using effect_good [of n d b c r r'] effectD(1) [of n d b c r r'] by (auto simp: reader_inv_def)

lemma eff_members_effect:
  assumes sk: "\<And>k v r. (k, v) \<in> set ms \<Longrightarrow> effect (value_count v) (repeats v) (has_members v) (\<lambda>_. 0) r (sk v r)"
    and h: "\<And>k v i r. (k, v) \<in> set ms \<Longrightarrow> index_of k (memberNames kind) = Some i \<Longrightarrow>
      effect (value_count v) (repeats v) (hb i v) (hc i v) r (h i v r)"
    and inv: "reader_inv r" and names: "rd_track r \<Longrightarrow> mset (fst names) = mset U"
  shows "effect (sum_list (map (\<lambda>(k, v). value_count v) ms))
      (\<not> distinct (U @ names_of kind False ms) \<or> \<not> distinct (names_of kind True ms) \<or> seen \<inter> seen_in kind ms \<noteq> {}
        \<or> list_ex (\<lambda>(k, v). repeats v) ms)
      (list_ex (member_bad kind hb) ms) (\<lambda>j. sum_list (map (member_count kind hc j) ms))
      r (snd (eff_members sk h kind seen names ms r))
    \<and> fst (eff_members sk h kind seen names ms r) = seen \<union> seen_in kind ms"
  using assms
proof (induction ms arbitrary: seen names U r)
  case Nil
  have d: "mset (fst names) = mset U \<Longrightarrow> distinct (fst names) = distinct U"
    by (metis mset_eq_imp_distinct_iff)
  have l: "mset (fst names) = mset U \<Longrightarrow> length (fst names) = length U" by (metis mset_eq_length)
  have "effect 0 (\<not> distinct U) False (\<lambda>_. 0) r
      (if rd_track r \<and> 1 < length (fst names) then checkNames (fst names) r else r)"
  proof (cases "distinct U")
    case True
    then show ?thesis using Nil.prems(4) d effect_refl by (auto simp: checkNames_distinct)
  next
    case False
    then have len: "1 < length U" by (cases U; cases "tl U") auto
    show ?thesis
    proof (cases "rd_track r")
      case True
      then show ?thesis using Nil.prems(4) d l len False effect_duplicate by (auto simp: checkNames_distinct)
    next
      case t: False
      then have "\<not> good r" using Nil.prems(3) by (simp add: reader_inv_def)
      then have "effect 0 True False (\<lambda>_. 0) r r" unfolding effect_def good_def
        by (auto simp: reader_inv_def)
      with t False show ?thesis by simp
    qed
  qed
  then show ?case by simp
next
  case (Cons m ms)
  obtain k v where m: "m = (k, v)" by fastforce
  have sk: "effect (value_count v) (repeats v) (has_members v) (\<lambda>_. 0) r (sk v r)" for r
    using Cons.prems(1) [of k v r] m by simp
  have rest: "effect (sum_list (map (\<lambda>(k, v). value_count v) ms))
      (\<not> distinct (U @ names_of kind False ms) \<or> \<not> distinct (names_of kind True ms) \<or> seen \<inter> seen_in kind ms \<noteq> {}
        \<or> list_ex (\<lambda>(k, v). repeats v) ms)
      (list_ex (member_bad kind hb) ms) (\<lambda>j. sum_list (map (member_count kind hc j) ms))
      r (snd (eff_members sk h kind seen names ms r))
    \<and> fst (eff_members sk h kind seen names ms r) = seen \<union> seen_in kind ms"
    if "reader_inv r" "rd_track r \<Longrightarrow> mset (fst names) = mset U" for r names seen U
  proof (rule Cons.IH)
    show "effect (value_count v) (repeats v) (has_members v) (\<lambda>_. 0) r (sk v r)" if "(k, v) \<in> set ms" for k v r
      using Cons.prems(1) [of k v r] that by simp
    show "effect (value_count v) (repeats v) (hb i v) (hc i v) r (h i v r)"
      if "(k, v) \<in> set ms" "index_of k (memberNames kind) = Some i" for k v i r
      using Cons.prems(2) [of k v i r] that by simp
  qed (use that in auto)
  show ?case
  proof (cases "index_of k (memberNames kind)")
    case (Some i)
    have n: "eff_name kind names k r = ((Some i, names), r)" by (simp add: eff_name_cases Some)
    have kn: "known kind k" using Some by (auto simp: known_def dest: index_of_Some_in)
    have again: "k \<in> set (names_of kind True ms) \<longleftrightarrow> i \<in> seen_in kind ms"
      using kn by (simp add: seen_in_iff [OF Some])
    show ?thesis
    proof (cases "i \<in> seen")
      case True
      define r2 where "r2 = sk v (foundDuplicate r)"
      have e: "effect (value_count v) True False (\<lambda>_. 0) r r2"
        unfolding r2_def by (rule effect_conv [OF effect_trans [OF effect_duplicate sk]]) simp_all
      have inv2: "reader_inv r2" using effectD(1) [OF e Cons.prems(3)] .
      have "rd_track r2 \<Longrightarrow> mset (fst names) = mset U" using inv_track [OF e Cons.prems(3)] by simp
      note R = rest [OF inv2 this, of seen]
      have step: "eff_members sk h kind seen names (m # ms) r = eff_members sk h kind seen names ms r2"
        using True by (simp add: m n r2_def)
      show ?thesis unfolding step
      proof
        show "effect (sum_list (map (\<lambda>(k, v). value_count v) (m # ms)))
          (\<not> distinct (U @ names_of kind False (m # ms)) \<or> \<not> distinct (names_of kind True (m # ms)) \<or> seen \<inter> seen_in kind (m # ms) \<noteq> {}
            \<or> list_ex (\<lambda>(k, v). repeats v) (m # ms))
          (list_ex (member_bad kind hb) (m # ms)) (\<lambda>j. sum_list (map (member_count kind hc j) (m # ms)))
          r (snd (eff_members sk h kind seen names ms r2))"
          by (rule effect_conv [OF effect_trans [OF e R [THEN conjunct1]]])
            (use True in \<open>auto simp: m seen_in_Cons Some\<close>)
        show "fst (eff_members sk h kind seen names ms r2) = seen \<union> seen_in kind (m # ms)"
          using R True by (auto simp: m seen_in_Cons Some)
      qed
    next
      case False
      define r2 where "r2 = h i v r"
      have e: "effect (value_count v) (repeats v) (hb i v) (hc i v) r r2"
        unfolding r2_def using Cons.prems(2) [of k v i r] m Some by simp
      have inv2: "reader_inv r2" using effectD(1) [OF e Cons.prems(3)] .
      have "rd_track r2 \<Longrightarrow> mset (fst names) = mset U" using inv_track [OF e Cons.prems(3)] Cons.prems(4) by simp
      note R = rest [OF inv2 this, of "insert i seen"]
      have step: "eff_members sk h kind seen names (m # ms) r = eff_members sk h kind (insert i seen) names ms r2"
        using False by (simp add: m n r2_def)
      show ?thesis unfolding step
      proof
        show "effect (sum_list (map (\<lambda>(k, v). value_count v) (m # ms)))
          (\<not> distinct (U @ names_of kind False (m # ms)) \<or> \<not> distinct (names_of kind True (m # ms)) \<or> seen \<inter> seen_in kind (m # ms) \<noteq> {}
            \<or> list_ex (\<lambda>(k, v). repeats v) (m # ms))
          (list_ex (member_bad kind hb) (m # ms)) (\<lambda>j. sum_list (map (member_count kind hc j) (m # ms)))
          r (snd (eff_members sk h kind (insert i seen) names ms r2))"
          by (rule effect_conv [OF effect_trans [OF e R [THEN conjunct1]]])
            (use False kn again in \<open>auto simp: m seen_in_Cons Some member_bad_def member_count_def\<close>)
        show "fst (eff_members sk h kind (insert i seen) names ms r2) = seen \<union> seen_in kind (m # ms)"
          using R by (auto simp: m seen_in_Cons Some)
      qed
    qed
  next
    case None
    then have kn: "\<not> known kind k" by (simp add: known_def)
    obtain names' r1 where n: "eff_name kind names k r = ((None, names'), r1)"
      by (cases "eff_name kind names k r") (auto simp: eff_name_cases None Let_def split: if_splits)
    define r2 where "r2 = sk v (violate r1)"
    have names': "mset (fst names') = mset (U @ [k])" if "rd_track r"
      using n Cons.prems(4) that by (auto simp: eff_name_cases None Let_def split: if_splits)
    define d where "d = (r1 \<noteq> r)"
    have r1: "r1 = r \<or> r1 = checkNames (fst names @ [k]) r \<and> rd_track r"
      using n by (auto simp: eff_name_cases None Let_def split: if_splits)
    have d: "effect 0 d False (\<lambda>_. 0) r r1" "d \<Longrightarrow> \<not> distinct (U @ [k])"
    proof -
      show "effect 0 d False (\<lambda>_. 0) r r1"
        using r1 effect_refl effect_duplicate by (cases "r1 = r") (auto simp: d_def checkNames_distinct)
      assume d
      with r1 have "\<not> distinct (fst names @ [k])" "rd_track r" by (auto simp: d_def checkNames_distinct split: if_splits)
      moreover have "mset (fst names @ [k]) = mset (U @ [k])" using Cons.prems(4) \<open>rd_track r\<close> by simp
      ultimately show "\<not> distinct (U @ [k])" by (metis mset_eq_imp_distinct_iff)
    qed
    have e: "effect (value_count v) (d \<or> repeats v) True (\<lambda>_. 0) r r2"
      unfolding r2_def
      by (rule effect_conv [OF effect_trans [OF effect_trans [OF d(1) effect_violate] sk]]) simp_all
    have inv2: "reader_inv r2" using effectD(1) [OF e Cons.prems(3)] .
    have "rd_track r2 \<Longrightarrow> mset (fst names') = mset (U @ [k])" using inv_track [OF e Cons.prems(3)] names' by simp
    note R = rest [OF inv2 this, of seen]
    have step: "eff_members sk h kind seen names (m # ms) r = eff_members sk h kind seen names' ms r2"
      by (simp add: m n r2_def)
    show ?thesis unfolding step
    proof
      show "effect (sum_list (map (\<lambda>(k, v). value_count v) (m # ms)))
        (\<not> distinct (U @ names_of kind False (m # ms)) \<or> \<not> distinct (names_of kind True (m # ms)) \<or> seen \<inter> seen_in kind (m # ms) \<noteq> {}
          \<or> list_ex (\<lambda>(k, v). repeats v) (m # ms))
        (list_ex (member_bad kind hb) (m # ms)) (\<lambda>j. sum_list (map (member_count kind hc j) (m # ms)))
        r (snd (eff_members sk h kind seen names' ms r2))"
        by (rule effect_conv [OF effect_trans [OF e R [THEN conjunct1]]])
          (use kn d(2) in \<open>auto simp: m seen_in_Cons None member_bad_def member_count_def\<close>)
      show "fst (eff_members sk h kind seen names' ms r2) = seen \<union> seen_in kind (m # ms)"
        using R by (auto simp: m seen_in_Cons None)
    qed
  qed
qed


lemma effectI: "(reader_inv r \<Longrightarrow> effect n d b c r r') \<Longrightarrow> effect n d b c r r'"
  unfolding effect_def by blast

lemma distinct_parts: "distinct (filter P xs) \<and> distinct (filter (\<lambda>x. \<not> P x) xs) \<longleftrightarrow> distinct xs"
  by (induction xs) auto

lemma eff_object_effect:
  assumes sk: "\<And>k v r. (k, v) \<in> set ms \<Longrightarrow> effect (value_count v) (repeats v) (has_members v) (\<lambda>_. 0) r (sk v r)"
    and h: "\<And>k v i r. (k, v) \<in> set ms \<Longrightarrow> index_of k (memberNames kind) = Some i \<Longrightarrow>
      effect (value_count v) (repeats v) (hb i v) (hc i v) r (h i v r)"
    and inv: "reader_inv r"
  shows "effect (value_count (JObj ms)) (repeats (JObj ms)) (list_ex (member_bad kind hb) ms)
      (\<lambda>j. sum_list (map (member_count kind hc j) ms)) r (snd (eff_object sk h kind ms r))"
    and "fst (eff_object sk h kind ms r) = seen_in kind ms"
proof -
  note inv2 = effectD(1) [OF effect_count inv]
  have R: "effect (sum_list (map (\<lambda>(k, v). value_count v) ms))
      (\<not> distinct ([] @ names_of kind False ms) \<or> \<not> distinct (names_of kind True ms) \<or> {} \<inter> seen_in kind ms \<noteq> {}
        \<or> list_ex (\<lambda>(k, v). repeats v) ms)
      (list_ex (member_bad kind hb) ms) (\<lambda>j. sum_list (map (member_count kind hc j) ms))
      (countValue r) (snd (eff_members sk h kind {} ([], firstNameCheck) ms (countValue r)))
    \<and> fst (eff_members sk h kind {} ([], firstNameCheck) ms (countValue r)) = {} \<union> seen_in kind ms"
    by (rule eff_members_effect [OF sk h inv2]) simp_all
  then show "fst (eff_object sk h kind ms r) = seen_in kind ms" by (simp add: eff_object_def)
  have d: "distinct (names_of kind False ms) \<and> distinct (names_of kind True ms) \<longleftrightarrow> distinct (map fst ms)"
    using distinct_parts [of "\<lambda>k. known kind k" "map fst ms"] by auto
  show "effect (value_count (JObj ms)) (repeats (JObj ms)) (list_ex (member_bad kind hb) ms)
      (\<lambda>j. sum_list (map (member_count kind hc j) ms)) r (snd (eff_object sk h kind ms r))"
    unfolding eff_object_def
    by (rule effect_conv [OF effect_trans [OF effect_count R [THEN conjunct1]]]) (use d in auto)
qed

lemma fold_effect:
  assumes "\<And>x r. x \<in> set xs \<Longrightarrow> effect (n x) (d x) (b x) (c x) r (f x r)"
  shows "effect (sum_list (map n xs)) (list_ex d xs) (list_ex b xs) (\<lambda>j. sum_list (map (\<lambda>x. c x j) xs)) r (fold f xs r)"
  using assms
proof (induction xs arbitrary: r)
  case Nil
  then show ?case using effect_refl by simp
next
  case (Cons x xs)
  have "effect (n x) (d x) (b x) (c x) r (f x r)" using Cons.prems [of x r] by simp
  from effect_trans [OF this Cons.IH [of "f x r"]] Cons.prems show ?case by simp
qed

lemma value_count_array: "value_count (JArr xs) = 1 + sum_list (map value_count xs)"
  by simp

lemma eff_skip_effect: "effect (value_count v) (repeats v) (has_members v) (\<lambda>_. 0) r (eff_skip v r)"
proof (induction v arbitrary: r)
  case (JArr xs)
  have "effect (sum_list (map value_count xs)) (list_ex repeats xs) (list_ex has_members xs)
      (\<lambda>j. sum_list (map (\<lambda>x. 0) xs)) (countValue r) (fold eff_skip xs (countValue r))"
    by (rule fold_effect) (rule JArr)
  from effect_trans [OF effect_count this] show ?case
    unfolding eff_skip.simps by (rule effect_conv) (simp_all add: comp_def)
next
  case (JObj ms)
  show ?case
  proof (rule effectI)
    assume inv: "reader_inv r"
    have sk: "effect (value_count v) (repeats v) (has_members v) (\<lambda>_. 0) r (eff_skip v r)" if "(k, v) \<in> set ms" for k v r
      by (rule JObj [of "(k, v)" v r]) (use that in auto)
    have "effect (value_count (JObj ms)) (repeats (JObj ms)) (list_ex (member_bad KindOther (\<lambda>_ _. False)) ms)
        (\<lambda>j. sum_list (map (member_count KindOther (\<lambda>_ _ _. 0) j) ms)) r (snd (eff_object eff_skip (\<lambda>_. eff_skip) KindOther ms r))"
      by (rule eff_object_effect [OF sk _ inv]) simp_all
    then show "effect (value_count (JObj ms)) (repeats (JObj ms)) (has_members (JObj ms)) (\<lambda>_. 0) r (eff_skip (JObj ms) r)"
      unfolding eff_skip.simps
      by (rule effect_conv) (cases ms; auto simp: member_bad_def)+
  qed
qed (simp_all only: eff_skip.simps value_count.simps repeats.simps has_members.simps effect_count)

lemma skip_bad_effect: "effect (value_count v) (repeats v) True c r (eff_skip v (violate r))"
  by (rule effect_conv [OF effect_trans [OF effect_violate eff_skip_effect]]) simp_all

subsection \<open>Strings, pairs, entries and chains\<close>

lemma eff_string_effect: "effect (value_count v) (repeats v) (\<not> is_string v) (\<lambda>_. 0) r (snd (eff_string limit keep v r))"
proof (cases v)
  case (JStr s)
  then show ?thesis using effect_count by (simp add: eff_string_def)
qed (use skip_bad_effect [of v "\<lambda>_. 0" r] in
  \<open>simp_all add: eff_string_def del: eff_skip.simps value_count.simps repeats.simps\<close>)

lemma eff_field_effect: "effect (value_count v) (repeats v) (\<not> is_string v) (\<lambda>_. 0) r (eff_field limit put v r)"
proof -
  have "effect (value_count v) (repeats v) (\<not> is_string v) (\<lambda>_. 0) r
      (on_entry (put (fst (fst (eff_string limit (rd_build r) v r)))) (snd (eff_string limit (rd_build r) v r)))"
    by (rule effect_conv [OF effect_trans [OF eff_string_effect effect_data]]) simp_all
  then show ?thesis by (simp add: eff_field_def case_prod_beta)
qed

lemma pair_member_effect:
  "effect (value_count v) (repeats v) (\<not> is_string v) (\<lambda>_. 0) r (eff_pair_member kind i v r)"
  by (simp add: eff_pair_member_def eff_field_effect)

text \<open>The numbers of the members that were seen, and their names.\<close>

lemma index_of_nth: "distinct ys \<Longrightarrow> i < length ys \<Longrightarrow> index_of (ys ! i) ys = Some i"
proof (induction ys arbitrary: i)
  case (Cons y ys)
  then show ?case by (cases i) auto
qed simp

lemma memberNames_distinct: "distinct (memberNames kind)"
  by (cases kind) simp_all

lemma seen_nth: "i < length (memberNames kind) \<Longrightarrow> i \<in> seen_in kind ms \<longleftrightarrow> memberNames kind ! i \<in> fst ` set ms"
  using seen_in_iff [OF index_of_nth [OF memberNames_distinct]] by blast

lemma seen_bound: "i \<in> seen_in kind ms \<Longrightarrow> i < length (memberNames kind)"
  by (auto simp: seen_in_def dest: index_of_less)

lemma seen_all:
  assumes "\<forall>k \<in> fst ` set ms. known kind k"
  shows "seen_in kind ms = {..<length (memberNames kind)} \<longleftrightarrow> fst ` set ms = set (memberNames kind)"
proof
  assume "seen_in kind ms = {..<length (memberNames kind)}"
  then have "set (memberNames kind) \<subseteq> fst ` set ms"
    using seen_nth [of _ kind ms] by (force simp: in_set_conv_nth)
  with assms show "fst ` set ms = set (memberNames kind)" by (auto simp: known_def)
next
  assume "fst ` set ms = set (memberNames kind)"
  then show "seen_in kind ms = {..<length (memberNames kind)}"
    using seen_nth [of _ kind ms] seen_bound [of _ kind ms] by (auto simp: nth_mem)
qed

text \<open>A typed object: what is wrong with its members, and with which of them there are.\<close>

lemma typed_object_effect:
  assumes h: "\<And>k v i r. (k, v) \<in> set ms \<Longrightarrow> index_of k (memberNames kind) = Some i \<Longrightarrow>
      effect (value_count v) (repeats v) (hb i v) (hc i v) r (h i v r)"
    and pre: "data_only pre"
  shows "effect (value_count (JObj ms)) (repeats (JObj ms)) (list_ex (member_bad kind hb) ms \<or> Q (seen_in kind ms))
      (\<lambda>j. sum_list (map (member_count kind hc j) ms)) r
      (case eff_object eff_skip h kind ms (pre r) of (seen, r) \<Rightarrow> violate_when (Q seen) r)"
proof (rule effectI)
  assume inv: "reader_inv r"
  note inv2 = effectD(1) [OF effect_data [OF pre] inv]
  note R = eff_object_effect [OF eff_skip_effect h inv2]
  have s: "fst (eff_object eff_skip h kind ms (pre r)) = seen_in kind ms"
    by (rule eff_object_effect(2) [OF eff_skip_effect h inv2])
  have e: "effect (value_count (JObj ms)) (repeats (JObj ms)) (list_ex (member_bad kind hb) ms)
      (\<lambda>j. sum_list (map (member_count kind hc j) ms)) (pre r) (snd (eff_object eff_skip h kind ms (pre r)))"
    by (rule eff_object_effect(1) [OF eff_skip_effect h inv2])
  show "effect (value_count (JObj ms)) (repeats (JObj ms)) (list_ex (member_bad kind hb) ms \<or> Q (seen_in kind ms))
      (\<lambda>j. sum_list (map (member_count kind hc j) ms)) r
      (case eff_object eff_skip h kind ms (pre r) of (seen, r) \<Rightarrow> violate_when (Q seen) r)"
    unfolding case_prod_beta s
    by (rule effect_conv [OF effect_trans [OF effect_trans [OF effect_data [OF pre] e] effect_violate_when]])
      (simp_all del: value_count.simps repeats.simps)
qed

lemma member_bad_at: "member_bad kind hb m \<longleftrightarrow>
    \<not> known kind (fst m) \<or> (\<exists>i. index_of (fst m) (memberNames kind) = Some i \<and> hb i (snd m))"
proof (cases "index_of (fst m) (memberNames kind)")
  case None
  show ?thesis unfolding member_bad_def case_prod_beta None using None by (simp add: known_def)
next
  case (Some i)
  then have "known kind (fst m)" by (auto simp: known_def dest: index_of_Some_in)
  with Some show ?thesis by (simp add: member_bad_def case_prod_beta)
qed

lemma member_bad_iff:
  "list_ex (member_bad kind hb) ms \<longleftrightarrow>
     (\<exists>m \<in> set ms. \<not> known kind (fst m) \<or> (\<exists>i. index_of (fst m) (memberNames kind) = Some i \<and> hb i (snd m)))"
  by (simp add: list_ex_iff member_bad_at)

lemma no_unknown: "\<not> list_ex (member_bad kind hb) ms \<Longrightarrow> k \<in> fst ` set ms \<Longrightarrow> known kind k"
  unfolding member_bad_iff by fastforce

lemma members_exact:
  "list_ex (member_bad kind hb) ms \<or> seen_in kind ms \<noteq> {..<length (memberNames kind)} \<longleftrightarrow>
     \<not> (fst ` set ms = set (memberNames kind) \<and>
        (\<forall>m \<in> set ms. \<forall>i. index_of (fst m) (memberNames kind) = Some i \<longrightarrow> \<not> hb i (snd m)))"
proof (cases "\<forall>k \<in> fst ` set ms. known kind k")
  case True
  with seen_all [OF True] show ?thesis unfolding member_bad_iff by (metis imageI)
next
  case False
  then have "fst ` set ms \<noteq> set (memberNames kind)" by (auto simp: known_def)
  moreover have "list_ex (member_bad kind hb) ms" using False no_unknown by metis
  ultimately show ?thesis by blast
qed

lemma lessThan_two: "{..<length (memberNames KindRecordSignature)} = {0, 1}"
  "{..<length (memberNames KindDisclosed)} = {0, 1}" "{..<length (memberNames KindChain)} = {0, 1, 2}"
  by auto

lemma pair_bad:
  assumes "kind \<in> {KindRecordSignature, KindDisclosed}"
  shows "list_ex (member_bad kind (\<lambda>i v. \<not> is_string v)) ms \<or> seen_in kind ms \<noteq> {0, 1} \<longleftrightarrow> \<not> pair_ok kind (JObj ms)"
proof -
  have two: "{..<length (memberNames kind)} = {0, 1}" using assms lessThan_two(1,2) by blast
  have i: "\<exists>i. index_of k (memberNames kind) = Some i" if "k \<in> set (memberNames kind)" for k
    using that index_of_None [of k "memberNames kind"] by fast
  have "(\<forall>m \<in> set ms. \<forall>i. index_of (fst m) (memberNames kind) = Some i \<longrightarrow> is_string (snd m))
      \<longleftrightarrow> (\<forall>m \<in> set ms. is_string (snd m))" if e: "fst ` set ms = set (memberNames kind)"
  proof -
    have "\<exists>i. index_of (fst m) (memberNames kind) = Some i" if "m \<in> set ms" for m
      by (rule i) (use that e in blast)
    then show ?thesis by blast
  qed
  moreover have "pair_ok kind (JObj ms) \<longleftrightarrow>
      fst ` set ms = set (memberNames kind) \<and> (\<forall>m \<in> set ms. is_string (snd m))"
    by (simp add: pair_ok_def list_all_iff case_prod_beta)
  ultimately show ?thesis
    using members_exact [of kind "\<lambda>i v. \<not> is_string v" ms, unfolded two not_not] by blast
qed

lemma member_count_zero: "sum_list (map (member_count kind (\<lambda>_ _ _. 0) j) ms) = 0"
  by (induction ms) (auto simp: member_count_def split: option.split)

lemma eff_pair_effect:
  assumes "kind \<in> {KindRecordSignature, KindDisclosed}"
  shows "effect (value_count v) (repeats v) (\<not> pair_ok kind v) (\<lambda>_. 0) r (eff_pair kind v r)"
proof (cases v)
  case (JObj ms)
  show ?thesis unfolding JObj eff_pair_def json.case
    by (rule effect_conv [OF typed_object_effect [where kind = kind and hb = "\<lambda>i v. \<not> is_string v" and hc = "\<lambda>_ _ _. 0"
            and Q = "\<lambda>s. s \<noteq> {0, 1}", OF pair_member_effect data_only_simps(1)]])
      (use pair_bad [OF assms] in \<open>simp_all add: member_count_zero del: value_count.simps repeats.simps\<close>)
qed (use skip_bad_effect [of v "\<lambda>_. 0" r] in
  \<open>simp_all add: eff_pair_def pair_ok_def del: eff_skip.simps value_count.simps repeats.simps\<close>)

definition entry_hb :: "nat \<Rightarrow> json \<Rightarrow> bool" where
  "entry_hb i v = (if i = 7 then \<not> pair_ok KindRecordSignature v
     else if i = 8 then \<not> pair_ok KindDisclosed v else \<not> is_string v)"

lemma entry_hb_iff:
  assumes "index_of k (memberNames KindEntry) = Some i"
  shows "entry_hb i v \<longleftrightarrow> \<not> entry_member_ok k v"
  using assms by (simp add: entry_hb_def entry_member_ok_def split: if_splits)

lemma entryRequired_iff: "entryRequired \<subseteq> seen_in KindEntry ms \<longleftrightarrow> set entry_names \<subseteq> fst ` set ms"
proof -
  have s: "i \<in> seen_in KindEntry ms \<longleftrightarrow> memberNames KindEntry ! i \<in> fst ` set ms" if "i < 9" for i
    by (rule seen_nth) (use that in simp)
  have "entryRequired = {..<7}" by (simp add: entryRequired_def lessThan_Suc eval_nat_numeral insert_commute)
  then have "entryRequired \<subseteq> seen_in KindEntry ms \<longleftrightarrow> (\<forall>i < 7. i \<in> seen_in KindEntry ms)" by auto
  also have "\<dots> \<longleftrightarrow> (\<forall>i < 7. memberNames KindEntry ! i \<in> fst ` set ms)" using s by fastforce
  also have "\<dots> \<longleftrightarrow> (\<forall>i < length entry_names. entry_names ! i \<in> fst ` set ms)"
  proof -
    have len: "length entry_names = 7" by (simp add: entry_names_def)
    have at: "entry_names ! i = memberNames KindEntry ! i" if "i < 7" for i
      unfolding entry_names_def by (rule nth_take) (rule that)
    show ?thesis unfolding len using at by metis
  qed
  also have "\<dots> \<longleftrightarrow> (\<forall>k \<in> set entry_names. k \<in> fst ` set ms)" by (simp only: all_set_conv_all_nth)
  finally show ?thesis by blast
qed

lemma member_bad_none:
  "\<not> list_ex (member_bad kind hb) ms \<longleftrightarrow>
     fst ` set ms \<subseteq> set (memberNames kind) \<and>
     (\<forall>m \<in> set ms. \<forall>i. index_of (fst m) (memberNames kind) = Some i \<longrightarrow> \<not> hb i (snd m))"
  unfolding member_bad_iff known_def by blast

lemma known_index: "fst ` set ms \<subseteq> set (memberNames kind) \<Longrightarrow> m \<in> set ms \<Longrightarrow> \<exists>i. index_of (fst m) (memberNames kind) = Some i"
  using index_of_None [of "fst m" "memberNames kind"] by blast

lemma entry_bad:
  "list_ex (member_bad KindEntry entry_hb) ms \<or> \<not> entryRequired \<subseteq> seen_in KindEntry ms \<longleftrightarrow> \<not> entry_ok (JObj ms)"
proof -
  have "(\<forall>m \<in> set ms. \<forall>i. index_of (fst m) (memberNames KindEntry) = Some i \<longrightarrow> \<not> entry_hb i (snd m))
      \<longleftrightarrow> (\<forall>m \<in> set ms. entry_member_ok (fst m) (snd m))" if e: "fst ` set ms \<subseteq> set (memberNames KindEntry)"
    using known_index [OF e] entry_hb_iff by blast
  moreover have "entry_ok (JObj ms) \<longleftrightarrow>
      set entry_names \<subseteq> fst ` set ms \<and> fst ` set ms \<subseteq> set (memberNames KindEntry) \<and>
      (\<forall>m \<in> set ms. entry_member_ok (fst m) (snd m))"
    by (simp only: entry_ok_def is_object.simps members_of.simps list_all_iff case_prod_unfold simp_thms)
  ultimately show ?thesis unfolding entryRequired_iff using member_bad_none [of KindEntry entry_hb ms] by blast
qed

lemma entry_member_effect:
  "effect (value_count v) (repeats v) (entry_hb i v) (\<lambda>_. 0) r (eff_entry_member i v r)"
proof -
  have "i = 7 \<or> i = 8 \<or> i \<noteq> 7 \<and> i \<noteq> 8" by blast
  then show ?thesis using eff_pair_effect eff_field_effect by (elim disjE) (simp_all add: eff_entry_member_def entry_hb_def)
qed

lemma eff_entry_effect:
  "effect (value_count v) (repeats v) (\<not> entry_ok v) (\<lambda>j. if j = 1 then 1 else 0) r (eff_entry v r)"
proof (cases v)
  case (JObj ms)
  note object = typed_object_effect [where kind = KindEntry and hb = entry_hb and hc = "\<lambda>_ _ _. 0"
      and Q = "\<lambda>s. \<not> entryRequired \<subseteq> s", OF entry_member_effect data_only_simps(5)]
  show ?thesis unfolding JObj eff_entry_def json.case Let_def case_prod_beta
    by (rule effect_conv [OF effect_trans [OF effect_trans [OF effect_entry object [unfolded case_prod_beta]]
            effect_data [OF data_only_simps(3)]]])
      (use entry_bad in \<open>simp_all add: member_count_zero del: value_count.simps repeats.simps\<close>)
qed (use effect_trans [OF effect_entry skip_bad_effect, of v "\<lambda>_. 0" r] in
  \<open>simp_all add: eff_entry_def entry_ok_def Let_def del: eff_skip.simps value_count.simps repeats.simps\<close>)

lemma eff_checkpoint_effect:
  "effect (value_count v) (repeats v) (\<not> is_string v) (\<lambda>j. if 1 < j then 1 else 0) r (eff_checkpoint v r)"
proof (cases v)
  case (JStr s)
  show ?thesis unfolding JStr eff_checkpoint_def json.case Let_def
    by (rule effect_conv [OF effect_trans [OF effect_trans [OF effect_checkpoint effect_count]
            effect_data [OF data_only_simps(2)]]]) simp_all
qed (use effect_trans [OF effect_checkpoint skip_bad_effect, of v "\<lambda>_. 0" r] in
  \<open>simp_all add: eff_checkpoint_def Let_def del: eff_skip.simps value_count.simps repeats.simps\<close>)

lemma eff_items_effect_each:
  assumes "\<And>x r. effect (value_count x) (repeats x) (\<not> ok x) (c x) r (el x r)"
  shows "effect (value_count v) (repeats v) (\<not> (is_array v \<and> (some \<longrightarrow> items_of v \<noteq> []) \<and> list_all ok (items_of v)))
      (\<lambda>j. sum_list (map (\<lambda>x. c x j) (items_of v))) r (eff_items el some v r)"
proof (cases v)
  case (JArr xs)
  have "effect (sum_list (map value_count xs)) (list_ex repeats xs) (list_ex (\<lambda>x. \<not> ok x) xs)
      (\<lambda>j. sum_list (map (\<lambda>x. c x j) xs)) (countValue r) (fold el xs (countValue r))"
    by (rule fold_effect) (rule assms)
  from effect_trans [OF effect_trans [OF effect_count this] effect_violate_when] show ?thesis
    unfolding JArr eff_items_def json.case
    by (rule effect_conv) (auto simp: list_ex_iff list_all_iff)
qed (use skip_bad_effect [of v _ r] in
  \<open>simp_all add: eff_items_def del: eff_skip.simps value_count.simps repeats.simps\<close>)

lemma eff_items_effect:
  assumes "\<And>x r. effect (value_count x) (repeats x) (\<not> ok x) c r (el x r)"
  shows "effect (value_count v) (repeats v) (\<not> (is_array v \<and> (some \<longrightarrow> items_of v \<noteq> []) \<and> list_all ok (items_of v)))
      (\<lambda>j. length (items_of v) * c j) r (eff_items el some v r)"
  by (rule effect_conv [OF eff_items_effect_each [OF assms]]) (simp_all add: sum_list_triv)

lemma member_at_in: "distinct (map fst ms) \<Longrightarrow> (k, v) \<in> set ms \<Longrightarrow> member_at k (JObj ms) = v"
  by (simp add: member_at_def)

lemma member_at_missing: "k \<notin> fst ` set ms \<Longrightarrow> member_at k (JObj ms) = JNull"
  by (simp add: member_at_def map_of_eq_None_iff [THEN iffD2])

lemma index_of_at: "index_of k ys = Some i \<Longrightarrow> ys ! i = k"
  by (induction ys arbitrary: i) (auto split: if_splits)

lemma members_at:
  assumes d: "distinct (map fst ms)" and all: "fst ` set ms = set (memberNames kind)"
  shows "(\<forall>m \<in> set ms. \<forall>i. index_of (fst m) (memberNames kind) = Some i \<longrightarrow> P i (snd m))
    \<longleftrightarrow> (\<forall>i < length (memberNames kind). P i (member_at (memberNames kind ! i) (JObj ms)))"
proof (intro iffI allI impI ballI)
  fix i assume P: "\<forall>m \<in> set ms. \<forall>i. index_of (fst m) (memberNames kind) = Some i \<longrightarrow> P i (snd m)"
    and i: "i < length (memberNames kind)"
  then have "memberNames kind ! i \<in> fst ` set ms" using all by simp
  then obtain v where v: "(memberNames kind ! i, v) \<in> set ms" by force
  moreover have "index_of (memberNames kind ! i) (memberNames kind) = Some i"
    by (rule index_of_nth [OF memberNames_distinct i])
  ultimately show "P i (member_at (memberNames kind ! i) (JObj ms))" using P member_at_in [OF d v] by fastforce
next
  fix m i assume P: "\<forall>i < length (memberNames kind). P i (member_at (memberNames kind ! i) (JObj ms))"
    and m: "m \<in> set ms" and i: "index_of (fst m) (memberNames kind) = Some i"
  have "member_at (fst m) (JObj ms) = snd m" using member_at_in [OF d, of "fst m" "snd m"] m by simp
  with P index_of_less [OF i] index_of_at [OF i] show "P i (snd m)" by metis
qed

lemma member_count_at:
  assumes "distinct (map fst ms)" "index_of k (memberNames kind) = Some i" "hc i JNull j = 0"
    and other: "\<And>i' v. i' \<noteq> i \<Longrightarrow> i' < length (memberNames kind) \<Longrightarrow> hc i' v j = 0"
  shows "sum_list (map (member_count kind hc j) ms) = hc i (member_at k (JObj ms)) j"
  using assms(1)
proof (induction ms)
  case Nil
  then show ?case by (simp add: member_at_def assms(3))
next
  case (Cons m ms)
  obtain k' v where m: "m = (k', v)" by fastforce
  show ?case
  proof (cases "k' = k")
    case True
    then have "member_at k (JObj ms) = JNull" using Cons.prems m by (intro member_at_missing) auto
    with True Cons show ?thesis by (simp add: m member_count_def assms(2,3) member_at_def)
  next
    case False
    have "member_count kind hc j m = 0"
    proof (cases "index_of k' (memberNames kind)")
      case None
      show ?thesis by (simp only: m member_count_def case_prod_conv None option.case)
    next
      case (Some i')
      then have "i' \<noteq> i" using False index_of_inject assms(2) by metis
      from other [OF this index_of_less [OF Some]] Some show ?thesis by (simp add: m member_count_def)
    qed
    with Cons False show ?thesis by (simp add: m member_at_def)
  qed
qed

definition chain_hb :: "nat \<Rightarrow> json \<Rightarrow> bool" where
  "chain_hb i v =
     (if i = 0 then \<not> is_string v
      else if i = 1 then \<not> (is_array v \<and> items_of v \<noteq> [] \<and> list_all entry_ok (items_of v))
      else \<not> (is_array v \<and> list_all is_string (items_of v)))"

definition chain_hc :: "nat \<Rightarrow> json \<Rightarrow> nat \<Rightarrow> nat" where
  "chain_hc i v j =
     (if i = 0 then 0 else if i = 1 then length (items_of v) * (if j = 1 then 1 else 0)
      else length (items_of v) * (if 1 < j then 1 else 0))"

lemma chain_member_effect:
  assumes "index_of k (memberNames KindChain) = Some i"
  shows "effect (value_count v) (repeats v) (chain_hb i v) (chain_hc i v) r (eff_chain_member i v r)"
proof -
  have id: "effect (value_count v) (repeats v) (\<not> is_string v) (\<lambda>_. 0) r (eff_chain_id v r)"
  proof (cases v)
    case (JStr s)
    show ?thesis unfolding JStr eff_chain_id_def json.case
      by (rule effect_conv [OF effect_trans [OF effect_count effect_data [OF data_only_simps(2)]]]) simp_all
  qed (use skip_bad_effect [of v _ r] in
    \<open>simp_all add: eff_chain_id_def del: eff_skip.simps value_count.simps repeats.simps\<close>)
  note entries = eff_items_effect [where some = True, OF eff_entry_effect, of v r]
  note checkpoints = eff_items_effect [where some = False, OF eff_checkpoint_effect, of v r]
  have "i < 3" using index_of_less [OF assms] by simp
  then consider "i = 0" | "i = 1" | "i = 2" by linarith
  then show ?thesis
  proof cases
    case 1
    show ?thesis unfolding 1 eff_chain_member_def by (simp, rule effect_conv [OF id]) (simp_all add: chain_hb_def chain_hc_def)
  next
    case 2
    then show ?thesis unfolding eff_chain_member_def by (simp, intro effect_conv [OF entries]) (auto simp: chain_hb_def chain_hc_def)
  next
    case 3
    then show ?thesis unfolding eff_chain_member_def by (simp, intro effect_conv [OF checkpoints]) (auto simp: chain_hb_def chain_hc_def)
  qed
qed

lemma chain_bad:
  assumes d: "distinct (map fst ms)"
  shows "list_ex (member_bad KindChain chain_hb) ms \<or> seen_in KindChain ms \<noteq> {0, 1, 2} \<longleftrightarrow> \<not> chain_ok (JObj ms)"
proof -
  have "(\<forall>i < 3. \<not> chain_hb i (member_at (memberNames KindChain ! i) (JObj ms))) \<longleftrightarrow>
      is_string (member_at ''chain_id'' (JObj ms)) \<and>
      (is_array (member_at ''entries'' (JObj ms)) \<and> items_of (member_at ''entries'' (JObj ms)) \<noteq> [] \<and>
        list_all entry_ok (items_of (member_at ''entries'' (JObj ms)))) \<and>
      is_array (member_at ''checkpoints'' (JObj ms)) \<and> list_all is_string (items_of (member_at ''checkpoints'' (JObj ms)))"
    by (simp add: eval_nat_numeral All_less_Suc chain_hb_def conj_commute conj_left_commute)
  moreover have "length (memberNames KindChain) = 3" by simp
  ultimately show ?thesis
    using members_exact [of KindChain chain_hb ms, unfolded lessThan_two]
      members_at [OF d, of KindChain "\<lambda>i v. \<not> chain_hb i v"]
    by (simp only: chain_ok_def is_object.simps members_of.simps simp_thms) blast
qed

lemma chain_count:
  assumes d: "distinct (map fst ms)"
  shows "sum_list (map (member_count KindChain chain_hc j) ms) =
    (if j = 0 then 0 else if j = 1 then length (entries_in (JObj ms)) else length (checkpoints_in (JObj ms)))"
proof -
  consider "j = 0" | "j = 1" | "1 < j" by linarith
  then show ?thesis
  proof cases
    case 1
    have "member_count KindChain chain_hc 0 m = 0" for m
      by (cases "index_of (fst m) (memberNames KindChain)") (simp_all add: member_count_def case_prod_beta chain_hc_def)
    then have "map (member_count KindChain chain_hc 0) ms = map (\<lambda>_. 0) ms" by simp
    then show ?thesis unfolding 1 by (simp only:) simp
  next
    case 2
    have "sum_list (map (member_count KindChain chain_hc 1) ms) = chain_hc 1 (member_at ''entries'' (JObj ms)) 1"
      by (rule member_count_at [OF d]) (simp_all add: chain_hc_def)
    with 2 show ?thesis by (simp add: chain_hc_def entries_in_def)
  next
    case 3
    have "sum_list (map (member_count KindChain chain_hc j) ms) = chain_hc 2 (member_at ''checkpoints'' (JObj ms)) j"
      by (rule member_count_at [OF d]) (use 3 in \<open>simp_all add: chain_hc_def\<close>)
    with 3 show ?thesis by (simp add: chain_hc_def checkpoints_in_def)
  qed
qed

lemma eff_chain_effect:
  "effect (value_count v) (repeats v) (\<not> chain_ok v)
     (\<lambda>j. if j = 0 then 1 else if j = 1 then length (entries_in v) else length (checkpoints_in v)) r (eff_chain v r)"
proof -
  have skip: "effect (value_count v) (repeats v) True c r (eff_skip v (violate (count_chain r)))" for c v
    by (rule effect_conv [OF effect_trans [OF effect_chain skip_bad_effect]]) simp_all
  show ?thesis
  proof (cases v)
  case (JObj ms)
  note object = typed_object_effect [where kind = KindChain and hb = chain_hb and hc = chain_hc
      and Q = "\<lambda>s. s \<noteq> {0, 1, 2}", OF chain_member_effect data_only_simps(6)]
  have d: "\<not> repeats (JObj ms) \<Longrightarrow> distinct (map fst ms)" by simp
  show ?thesis unfolding JObj eff_chain_def json.case Let_def case_prod_beta
    by (rule effect_conv [OF effect_trans [OF effect_trans [OF effect_chain object [unfolded case_prod_beta]]
            effect_data [OF data_only_simps(4)]]])
      (use chain_bad [OF d] chain_count [OF d] in \<open>simp_all del: value_count.simps repeats.simps\<close>)
  qed (use skip in \<open>simp_all add: eff_chain_def chain_ok_def Let_def del: eff_skip.simps value_count.simps repeats.simps\<close>)
qed

subsection \<open>The format\<close>

text \<open>The format member sets its own flag, and a wrong one stops the building. It does not matter when.\<close>

definition fmt :: "bool \<Rightarrow> reader \<Rightarrow> reader" where
  "fmt b r = (if b then r\<lparr>rd_formatOK := True\<rparr> else stopBuilding (r\<lparr>rd_formatOK := False\<rparr>))"

definition eff_read_string :: "json \<Rightarrow> reader \<Rightarrow> reader" where
  "eff_read_string v r = snd (eff_string (length FormatID) True v r)"

lemma eff_format_fmt: "eff_format v r = fmt (v = JStr FormatID) (eff_read_string v r)"
  by (cases v) (auto simp: eff_format_def fmt_def eff_read_string_def eff_string_def FormatID_def oversize_def)

definition free :: "(reader \<Rightarrow> reader) \<Rightarrow> bool" where
  "free f \<longleftrightarrow> (\<forall>b r. f (fmt b r) = fmt b (f r))"

lemma fmt_flags [simp]: "rd_track (fmt b r) = rd_track r" "rd_lim (fmt b r) = rd_lim r" "rd_build (fmt b r) = (b \<and> rd_build r)"
  by (simp_all add: fmt_def stopBuilding_def)

lemma free_steps: "free violate" "free foundDuplicate" "free countValue" "free (checkNames names)"
  "free count_entry" "free count_chain" "free count_checkpoint"
  by (auto simp: free_def fmt_def reader_steps count_entry_def count_chain_def count_checkpoint_def)

lemma free_data: "free (on_entry f)" "free (on_chain g)" "free keep_entry" "free keep_chain"
  "free (\<lambda>r. r\<lparr>rd_entry := empty_entry\<rparr>)" "free (\<lambda>r. r\<lparr>rd_chain := empty_chain\<rparr>)" "free (violate_when b)"
  by (auto simp: free_def fmt_def on_entry_def on_chain_def keep_entry_def keep_chain_def when_build_def violate_when_def reader_steps)

lemma freeD: "free f \<Longrightarrow> f (fmt b r) = fmt b (f r)"
  by (simp add: free_def)

lemma free_members:
  assumes "\<And>k v. (k, v) \<in> set ms \<Longrightarrow> free (sk v)" "\<And>k v i. (k, v) \<in> set ms \<Longrightarrow> free (h i v)"
  shows "eff_members sk h kind seen names ms (fmt b r) =
    (fst (eff_members sk h kind seen names ms r), fmt b (snd (eff_members sk h kind seen names ms r)))"
  using assms
proof (induction ms arbitrary: seen names r)
  case Nil
  then show ?case using freeD [OF free_steps(4)] by simp
next
  case (Cons m ms)
  obtain k v where m: "m = (k, v)" by fastforce
  have sk: "free (sk v)" using Cons.prems(1) [of k v] m by simp
  have h: "free (h i v)" for i using Cons.prems(2) [of k v i] m by simp
  have IH: "eff_members sk h kind seen names ms (fmt b r) =
    (fst (eff_members sk h kind seen names ms r), fmt b (snd (eff_members sk h kind seen names ms r)))" for seen names r
  proof (rule Cons.IH)
    show "free (sk v)" if "(k, v) \<in> set ms" for k v using Cons.prems(1) [of k v] that by simp
    show "free (h i v)" if "(k, v) \<in> set ms" for k v i using Cons.prems(2) [of k v i] that by simp
  qed
  have n: "eff_name kind names k (fmt b r) = (fst (eff_name kind names k r), fmt b (snd (eff_name kind names k r)))"
    by (simp add: eff_name_def Let_def freeD [OF free_steps(4)] split: option.split del: index_of_None index_of_None')
  show ?case unfolding m eff_members.simps n
    by (simp add: case_prod_beta IH freeD [OF sk] freeD [OF h] freeD [OF free_steps(1)] freeD [OF free_steps(2)]
        split: option.split)
qed

lemma free_object:
  assumes "\<And>k v. (k, v) \<in> set ms \<Longrightarrow> free (sk v)" "\<And>k v i. (k, v) \<in> set ms \<Longrightarrow> free (h i v)"
  shows "eff_object sk h kind ms (fmt b r) = (fst (eff_object sk h kind ms r), fmt b (snd (eff_object sk h kind ms r)))"
  unfolding eff_object_def freeD [OF free_steps(3)] by (rule free_members [OF assms])

lemma free_fold: "(\<And>x. x \<in> set xs \<Longrightarrow> free (f x)) \<Longrightarrow> free (fold f xs)"
proof (induction xs)
  case (Cons x xs)
  then have "free (f x)" "free (fold f xs)" by simp_all
  then show ?case by (simp add: free_def)
qed (simp add: free_def)

lemma free_comp: "free f \<Longrightarrow> free g \<Longrightarrow> free (\<lambda>r. f (g r))"
  by (simp add: free_def)

lemma free_skip: "free (eff_skip v)"
proof (induction v)
  case (JArr xs)
  have "free (\<lambda>r. fold eff_skip xs (countValue r))" by (rule free_comp [OF free_fold free_steps(3)]) (rule JArr)
  then show ?case by (simp add: free_def)
next
  case (JObj ms)
  have sk: "free (eff_skip v)" if "(k, v) \<in> set ms" for k v by (rule JObj [of "(k, v)" v]) (use that in auto)
  show ?case unfolding free_def eff_skip.simps using free_object [of ms eff_skip "\<lambda>_. eff_skip"] sk by auto
qed (use free_steps(3) in \<open>simp_all add: free_def\<close>)

lemma free_skip_bad: "free (\<lambda>r. eff_skip v (violate r))"
  by (rule free_comp [OF free_skip free_steps(1)])

lemma on_entry_wrong: "on_entry f (fmt False r) = fmt False (on_entry g r)"
  by (simp add: on_entry_def when_build_def fmt_def stopBuilding_def)

lemma eff_string_fmt: "snd (eff_string limit keep v (fmt b r)) = fmt b (snd (eff_string limit keep' v r))"
  by (cases v) (simp_all add: eff_string_def freeD [OF free_steps(3)] freeD [OF free_skip_bad] del: eff_skip.simps)

lemma eff_string_text: "fst (eff_string limit keep v r) = fst (eff_string limit keep v r')"
  by (cases v) (simp_all add: eff_string_def)

lemma free_field: "free (eff_field limit put v)"
  unfolding free_def
proof (intro allI)
  fix b r
  show "eff_field limit put v (fmt b r) = fmt b (eff_field limit put v r)"
  proof (cases b)
    case False
    then show ?thesis
      by (simp add: eff_field_def case_prod_beta eff_string_fmt [of limit False v False r "rd_build r"]
          on_entry_wrong [of _ _ "put (fst (fst (eff_string limit (rd_build r) v r)))"])
  next
    case True
    have "fst (eff_string limit (rd_build r) v (fmt True r)) = fst (eff_string limit (rd_build r) v r)"
      by (rule eff_string_text)
    with True show ?thesis
      by (simp add: eff_field_def case_prod_beta eff_string_fmt [of limit "rd_build r" v True r "rd_build r"] freeD [OF free_data(1)])
  qed
qed

lemma free_pair: "free (eff_pair kind v)"
proof (cases v)
  case (JObj ms)
  have "free (eff_pair_member kind i v)" for i v by (simp add: eff_pair_member_def free_field)
  note object = free_object [OF free_skip this]
  show ?thesis unfolding JObj free_def eff_pair_def
    by (simp add: case_prod_beta freeD [OF free_data(1)] object freeD [OF free_data(7)])
qed (use free_skip_bad [of v] in \<open>simp_all add: eff_pair_def [abs_def] del: eff_skip.simps\<close>)

lemma free_entry: "free (eff_entry v)"
proof (cases v)
  case (JObj ms)
  have "free (eff_entry_member i v)" for i v by (simp add: eff_entry_member_def free_field free_pair)
  note object = free_object [OF free_skip this]
  show ?thesis unfolding JObj free_def eff_entry_def
    by (simp add: case_prod_beta Let_def freeD [OF free_steps(5)] freeD [OF free_data(5)] object
        freeD [OF free_data(7)] freeD [OF free_data(3)])
qed (use free_comp [OF free_skip_bad [of v] free_steps(5)] in \<open>simp_all add: eff_entry_def [abs_def] Let_def del: eff_skip.simps\<close>)

lemma free_checkpoint: "free (eff_checkpoint v)"
proof (cases v)
  case (JStr s)
  show ?thesis unfolding JStr free_def eff_checkpoint_def
    by (simp add: Let_def freeD [OF free_steps(7)] freeD [OF free_steps(3)] freeD [OF free_data(2)])
qed (use free_comp [OF free_skip_bad [of v] free_steps(7)] in \<open>simp_all add: eff_checkpoint_def [abs_def] Let_def del: eff_skip.simps\<close>)

lemma free_items: "(\<And>x. free (el x)) \<Longrightarrow> free (eff_items el some v)"
proof -
  assume el: "\<And>x. free (el x)"
  show ?thesis
  proof (cases v)
    case (JArr xs)
    have "free (fold el xs)" by (rule free_fold) (rule el)
    then show ?thesis unfolding JArr free_def eff_items_def
      by (simp add: freeD [OF free_steps(3)] freeD [OF free_data(7)])
  qed (use free_skip_bad [of v] in \<open>simp_all add: eff_items_def [abs_def] del: eff_skip.simps\<close>)
qed

lemma free_chain: "free (eff_chain v)"
proof (cases v)
  case (JObj ms)
  have "free (eff_chain_id v)" for v
  proof (cases v)
    case (JStr s)
    show ?thesis unfolding JStr free_def eff_chain_id_def by (simp add: freeD [OF free_steps(3)] freeD [OF free_data(2)])
  qed (use free_skip_bad [of v] in \<open>simp_all add: eff_chain_id_def [abs_def] del: eff_skip.simps\<close>)
  then have "free (eff_chain_member i v)" for i v
    by (simp add: eff_chain_member_def free_items free_entry free_checkpoint)
  note object = free_object [OF free_skip this]
  show ?thesis unfolding JObj free_def eff_chain_def
    by (simp add: case_prod_beta Let_def freeD [OF free_steps(6)] freeD [OF free_data(6)] object
        freeD [OF free_data(7)] freeD [OF free_data(4)])
qed (use free_comp [OF free_skip_bad [of v] free_steps(6)] in \<open>simp_all add: eff_chain_def [abs_def] Let_def del: eff_skip.simps\<close>)

end
