(* ===== verification/Export_Read.thy ===== *)
theory Export_Read
  imports Export_Rules
begin

section \<open>What the reader of export bundles answers\<close>

text \<open>
  The reader looks at each byte once, keeps no tree and gives up building as soon as something is wrong;
  it answers what the rules of the format say (\<open>readBundle_reference\<close>). The flags are in \<open>Export_Rules\<close>;
  here is what is built while none is set.
\<close>

subsection \<open>What is built\<close>

definition built :: "limits \<Rightarrow> (reader \<Rightarrow> 'a) \<Rightarrow> ('a \<Rightarrow> 'a) \<Rightarrow> reader \<Rightarrow> reader \<Rightarrow> bool" where
  "built l P g r r' \<longleftrightarrow>
     (rd_lim r = l \<longrightarrow> rd_lim r' = l \<and> (rd_build r' \<longrightarrow> rd_build r \<and> P r' = g (P r)))"

definition with_entry :: "reader \<Rightarrow> raw_chain list \<times> raw_chain \<times> raw_entry" where
  "with_entry r = (rd_chains r, rd_chain r, rd_entry r)"

definition with_chain :: "reader \<Rightarrow> raw_chain list \<times> raw_chain" where
  "with_chain r = (rd_chains r, rd_chain r)"

definition to_entry :: "(raw_entry \<Rightarrow> raw_entry) \<Rightarrow> raw_chain list \<times> raw_chain \<times> raw_entry \<Rightarrow> raw_chain list \<times> raw_chain \<times> raw_entry" where
  "to_entry f = (\<lambda>(cs, c, e). (cs, c, f e))"

definition to_chain :: "(raw_chain \<Rightarrow> raw_chain) \<Rightarrow> raw_chain list \<times> raw_chain \<Rightarrow> raw_chain list \<times> raw_chain" where
  "to_chain f = (\<lambda>(cs, c). (cs, f c))"

lemma built_trans: "built l P g r r1 \<Longrightarrow> built l P g' r1 r2 \<Longrightarrow> built l P (g' \<circ> g) r r2"
  by (auto simp: built_def)

lemma built_conv: "built l P g r r' \<Longrightarrow> g' (P r) = g (P r) \<Longrightarrow> built l P g' r r'"
  by (simp add: built_def)

lemma built_refl: "built l P id r r"
  by (simp add: built_def)

lemma built_steps:
  "built l with_entry id r (countValue r)" "built l with_chain id r (countValue r)" "built l rd_chains id r (countValue r)"
  "built l with_entry id r (count_entry r)" "built l with_chain id r (count_checkpoint r)"
  "built l with_chain id r (count_chain r)"
  by (auto simp: built_def with_entry_def with_chain_def reader_steps count_entry_def count_checkpoint_def count_chain_def)

lemma built_data:
  "built l with_entry (to_entry f) r (on_entry f r)" "built l with_chain (to_chain g) r (on_chain g r)"
  "built l with_entry (\<lambda>(cs, c, e). (cs, c\<lparr>rc_Entries := rc_Entries c @ [e]\<rparr>, empty_entry)) r (keep_entry r)"
  "built l with_chain (\<lambda>(cs, c). (cs @ [c], empty_chain)) r (keep_chain r)"
  "built l with_entry (to_entry (\<lambda>_. e)) r (r\<lparr>rd_entry := e\<rparr>)"
  "built l with_chain (to_chain (\<lambda>_. c)) r (r\<lparr>rd_chain := c\<rparr>)"
  by (auto simp: built_def with_entry_def with_chain_def to_entry_def to_chain_def on_entry_def on_chain_def keep_entry_def
      keep_chain_def when_build_def)

text \<open>The members of an object, when all are known and none is there twice.\<close>

definition by_name :: "object_kind \<Rightarrow> (nat \<Rightarrow> json \<Rightarrow> 'a \<Rightarrow> 'a) \<Rightarrow> string \<times> json \<Rightarrow> 'a \<Rightarrow> 'a" where
  "by_name kind g = (\<lambda>(k, v). g (the (index_of k (memberNames kind))) v)"

lemma members_built:
  assumes h: "\<And>k v i r. (k, v) \<in> set ms \<Longrightarrow> index_of k (memberNames kind) = Some i \<Longrightarrow> built l P (g i v) r (h i v r)"
    and "fst ` set ms \<subseteq> set (memberNames kind)" "distinct (map fst ms)" "seen \<inter> seen_in kind ms = {}"
  shows "built l P (fold (by_name kind g) ms) r (snd (eff_members sk h kind seen ([], n) ms r))"
  using assms
proof (induction ms arbitrary: seen r)
  case Nil
  show ?case by (simp add: built_def)
next
  case (Cons m ms)
  obtain k v where m: "m = (k, v)" by fastforce
  obtain i where i: "index_of k (memberNames kind) = Some i"
    using known_index [OF Cons.prems(2), of m] m by auto
  have new: "i \<notin> seen" "seen \<inter> seen_in kind ms = {}" using Cons.prems(4) by (auto simp: m seen_in_Cons i)
  have "k \<notin> fst ` set ms" using Cons.prems(3) m by auto
  then have later: "i \<notin> seen_in kind ms" using seen_in_iff [OF i] by blast
  have n: "eff_name kind ([], n) k r = ((Some i, ([], n)), r)" by (simp add: eff_name_cases i)
  have step: "eff_members sk h kind seen ([], n) (m # ms) r = eff_members sk h kind (insert i seen) ([], n) ms (h i v r)"
    using new by (simp add: m n)
  have "built l P (g i v) r (h i v r)" using Cons.prems(1) [of k v i r] m i by simp
  moreover have "built l P (fold (by_name kind g) ms) (h i v r) (snd (eff_members sk h kind (insert i seen) ([], n) ms (h i v r)))"
  proof (rule Cons.IH)
    show "built l P (g i v) r (h i v r)" if "(k, v) \<in> set ms" "index_of k (memberNames kind) = Some i" for k v i r
      using Cons.prems(1) [of k v i r] that by simp
  qed (use Cons.prems new later in auto)
  ultimately show ?case unfolding step using built_trans by (fastforce simp: by_name_def m i comp_def)
qed

lemma object_built:
  assumes "\<And>k v i r. (k, v) \<in> set ms \<Longrightarrow> index_of k (memberNames kind) = Some i \<Longrightarrow> built l P (g i v) r (h i v r)"
    and "fst ` set ms \<subseteq> set (memberNames kind)" "distinct (map fst ms)" "\<And>r. built l P id r (countValue r)"
  shows "built l P (fold (by_name kind g) ms) r (snd (eff_object sk h kind ms r))"
proof -
  have "built l P (fold (by_name kind g) ms) (countValue r)
      (snd (eff_members sk h kind {} ([], firstNameCheck) ms (countValue r)))"
    by (rule members_built [OF assms(1-3)]) simp_all
  from built_trans [OF assms(4) this] show ?thesis by (simp add: eff_object_def)
qed

lemma to_entry_app: "to_entry f (cs, c, e) = (cs, c, f e)" and to_chain_app: "to_chain k (cs, c) = (cs, k c)"
  by (simp_all add: to_entry_def to_chain_def)

lemma fold_to_entry: "fold (\<lambda>x. to_entry (f x)) xs (cs, c, e) = (cs, c, fold f xs e)"
  by (induction xs arbitrary: e) (simp_all add: to_entry_app)

lemma fold_to_chain: "fold (\<lambda>x. to_chain (f x)) xs (cs, c) = (cs, fold f xs c)"
  by (induction xs arbitrary: c) (simp_all add: to_chain_app)

text \<open>One field of a record that is filled member by member.\<close>

lemma fold_field_of:
  assumes "\<And>i v e. i < length (memberNames kind) \<Longrightarrow> sel (g i v e) = (if i = pos then W v (sel e) else sel e)"
    and pos: "pos < length (memberNames kind)"
    and "fst ` set ms \<subseteq> set (memberNames kind)" "distinct (map fst ms)"
  shows "sel (fold (by_name kind g) ms e) = (case map_of ms (memberNames kind ! pos) of None \<Rightarrow> sel e | Some v \<Rightarrow> W v (sel e))"
  using assms(3,4)
proof (induction ms arbitrary: e)
  case (Cons m ms)
  obtain k v where m: "m = (k, v)" by fastforce
  obtain i where i: "index_of k (memberNames kind) = Some i"
    using known_index [OF Cons.prems(1), of m] m by auto
  have IH: "sel (fold (by_name kind g) ms e) = (case map_of ms (memberNames kind ! pos) of None \<Rightarrow> sel e | Some v \<Rightarrow> W v (sel e))" for e
    using Cons by simp
  have s: "sel (g i v e) = (if i = pos then W v (sel e) else sel e)" by (rule assms(1) [OF index_of_less [OF i]])
  have k: "k = memberNames kind ! pos \<longleftrightarrow> i = pos"
    using index_of_at [OF i] index_of_nth [OF memberNames_distinct pos] i by (metis option.inject)
  have step: "fold (by_name kind g) (m # ms) e = fold (by_name kind g) ms (g i v e)" by (simp add: m by_name_def i)
  show ?case
  proof (cases "i = pos")
    case True
    then have "map_of ms (memberNames kind ! pos) = None" using Cons.prems(2) k m by (simp add: map_of_eq_None_iff)
    with True k show ?thesis unfolding step IH s by (simp add: m)
  next
    case False
    with k show ?thesis unfolding step IH s by (simp add: m)
  qed
qed simp

lemma fold_field:
  assumes "\<And>i v e. i < length (memberNames kind) \<Longrightarrow> sel (g i v e) = (if i = pos then W v else sel e)"
    and "pos < length (memberNames kind)"
    and "fst ` set ms \<subseteq> set (memberNames kind)" "distinct (map fst ms)"
  shows "sel (fold (by_name kind g) ms e) = (case map_of ms (memberNames kind ! pos) of None \<Rightarrow> sel e | Some v \<Rightarrow> W v)"
  by (rule fold_field_of [where W = "\<lambda>v _. W v"]) (use assms in simp_all)

lemma members_seen: "fst (eff_members sk h kind seen names ms r) = seen \<union> seen_in kind ms"
proof (induction ms arbitrary: seen names r)
  case (Cons m ms)
  obtain k v where m: "m = (k, v)" by fastforce
  show ?case
  proof (cases "index_of k (memberNames kind)")
    case None
    have "fst (fst (eff_name kind names k r)) = None" unfolding eff_name_cases None by (simp add: Let_def)
    then obtain names' r' where "eff_name kind names k r = ((None, names'), r')" by (metis prod.collapse)
    then show ?thesis by (simp add: m Cons.IH seen_in_Cons None)
  next
    case (Some i)
    have n: "eff_name kind names k r = ((Some i, names), r)" by (simp add: eff_name_cases Some)
    show ?thesis by (cases "i \<in> seen") (auto simp: m n Cons.IH seen_in_Cons Some)
  qed
qed simp

lemma object_seen: "fst (eff_object sk h kind ms r) = seen_in kind ms"
  by (simp add: eff_object_def members_seen)

lemma member_case:
  "(case map_of ms k of None \<Rightarrow> a | Some v \<Rightarrow> W v) = (if k \<in> fst ` set ms then W (member_at k (JObj ms)) else a)"
proof (cases "map_of ms k")
  case None
  then have "k \<notin> fst ` set ms" by (simp add: map_of_eq_None_iff)
  with None show ?thesis by simp
next
  case (Some v)
  then have "k \<in> fst ` set ms" by (metis map_of_eq_None_iff option.distinct(1))
  with Some show ?thesis by (simp add: member_at_def)
qed

lemma strings_built:
  assumes "is_string v"
  shows "built l with_entry (to_entry (put (capped limit (text_of v)))) r (eff_field limit put v r)"
proof -
  obtain s where v: "v = JStr s" using assms by (cases v) auto
  have "rd_build (countValue r) \<Longrightarrow> rd_build r" by (auto simp: reader_steps split: if_splits)
  then have "built l with_entry (to_entry (put (capped limit s))) (countValue r)
      (on_entry (put (if \<not> rd_build r then [] else capped limit s)) (countValue r))"
    by (auto simp: built_def with_entry_def to_entry_def on_entry_def when_build_def)
  moreover have "eff_field limit put (JStr s) r = on_entry (put (if \<not> rd_build r then [] else capped limit s)) (countValue r)"
    by (simp add: eff_field_def eff_string_def capped_def)
  ultimately show ?thesis using built_trans [OF built_steps(1)] by (simp add: v)
qed

definition pair_step :: "nat list \<Rightarrow> nat \<Rightarrow> json \<Rightarrow> raw_pair \<Rightarrow> raw_pair" where
  "pair_step caps i v = set_pair i (capped (caps ! i) (text_of v))"

lemma pair_fold:
  assumes kind: "kind \<in> {KindRecordSignature, KindDisclosed}" and ok: "pair_ok kind (JObj ms)" and d: "distinct (map fst ms)"
  shows "fold (by_name kind (pair_step caps)) ms empty_pair = pair_value kind caps (JObj ms)"
proof -
  have names: "fst ` set ms = set (memberNames kind)" using ok by (simp add: pair_ok_def)
  then have sub: "fst ` set ms \<subseteq> set (memberNames kind)" by simp
  have len: "length (memberNames kind) = 2" using kind by (elim insertE) simp_all
  then have there: "memberNames kind ! 0 \<in> fst ` set ms" "memberNames kind ! 1 \<in> fst ` set ms" unfolding names by simp_all
  have "rp_a (fold (by_name kind (pair_step caps)) ms empty_pair) = capped (caps ! 0) (text_of (member_at (memberNames kind ! 0) (JObj ms)))"
    by (subst fold_field [where pos = 0 and W = "\<lambda>v. capped (caps ! 0) (text_of v)", OF _ _ sub d])
      (use there in \<open>simp_all add: len pair_step_def set_pair_def member_case\<close>)
  moreover have "rp_b (fold (by_name kind (pair_step caps)) ms empty_pair) = capped (caps ! 1) (text_of (member_at (memberNames kind ! 1) (JObj ms)))"
    by (subst fold_field [where pos = 1 and W = "\<lambda>v. capped (caps ! 1) (text_of v)", OF _ _ sub d])
      (use there in \<open>auto simp add: len pair_step_def set_pair_def member_case less_2_cases_iff\<close>)
  ultimately show ?thesis by (simp add: pair_value_def)
qed

definition set_pair_of :: "object_kind \<Rightarrow> raw_pair \<Rightarrow> raw_entry \<Rightarrow> raw_entry" where
  "set_pair_of kind p e = (if kind = KindRecordSignature then e\<lparr>re_Sig := Some p\<rparr> else e\<lparr>re_Disclosed := Some p\<rparr>)"

definition caps_of :: "object_kind \<Rightarrow> nat list" where
  "caps_of kind = (if kind = KindRecordSignature then signatureCaps else disclosedCaps)"

lemma pair_entry_fold:
  "fold (by_name kind (\<lambda>i v. if kind = KindRecordSignature then set_sig i (capped (signatureCaps ! i) (text_of v))
       else set_disclosed i (capped (disclosedCaps ! i) (text_of v)))) ms (set_pair_of kind p e)
   = set_pair_of kind (fold (by_name kind (pair_step (caps_of kind))) ms p) e"
  by (induction ms arbitrary: p)
    (auto simp: by_name_def set_pair_of_def pair_step_def caps_of_def set_sig_def set_disclosed_def)

lemma new_pair_of: "new_pair kind e = set_pair_of kind empty_pair e"
  by (simp add: new_pair_def set_pair_of_def)

lemma pair_built:
  assumes kind: "kind \<in> {KindRecordSignature, KindDisclosed}" and ok: "pair_ok kind v" and "\<not> repeats v"
  shows "built l with_entry (to_entry (set_pair_of kind (pair_value kind (caps_of kind) v))) r (eff_pair kind v r)"
proof -
  obtain ms where v: "v = JObj ms" using ok by (cases v) (auto simp: pair_ok_def)
  have d: "distinct (map fst ms)" using assms(3) by (simp add: v)
  have sub: "fst ` set ms \<subseteq> set (memberNames kind)" using ok by (simp add: v pair_ok_def)
  let ?g = "\<lambda>i v. if kind = KindRecordSignature then set_sig i (capped (signatureCaps ! i) (text_of v))
       else set_disclosed i (capped (disclosedCaps ! i) (text_of v))"
  have seen: "fst (eff_object eff_skip (eff_pair_member kind) kind ms r') = {0, 1}" for r'
  proof -
    have "fst (eff_object eff_skip (eff_pair_member kind) kind ms r') = seen_in kind ms"
      by (rule object_seen)
    with pair_bad [OF kind, of ms] ok v show ?thesis by blast
  qed
  have "built l with_entry (fold (by_name kind (\<lambda>i v. to_entry (?g i v))) ms) (on_entry (new_pair kind) r)
      (snd (eff_object eff_skip (eff_pair_member kind) kind ms (on_entry (new_pair kind) r)))"
  proof (rule object_built [OF _ sub d built_steps(1)])
    fix k w i r assume "(k, w) \<in> set ms"
    then have "is_string w" using ok v by (auto simp: pair_ok_def list_all_iff)
    then show "built l with_entry (to_entry (?g i w)) r (eff_pair_member kind i w r)"
      using strings_built by (simp add: eff_pair_member_def)
  qed
  from built_trans [OF built_data(1) this]
  have "built l with_entry (fold (by_name kind (\<lambda>i v. to_entry (?g i v))) ms \<circ> to_entry (new_pair kind)) r (eff_pair kind v r)"
    by (simp add: v eff_pair_def case_prod_beta seen violate_when_def)
  then show ?thesis
  proof (rule built_conv)
    have to: "by_name kind (\<lambda>i v. to_entry (?g i v)) = (\<lambda>x. to_entry (by_name kind ?g x))"
      by (simp add: by_name_def fun_eq_iff)
    obtain cs c e where P: "with_entry r = (cs, c, e)" by (cases "with_entry r") auto
    show "to_entry (set_pair_of kind (pair_value kind (caps_of kind) v)) (with_entry r)
      = (fold (by_name kind (\<lambda>i v. to_entry (?g i v))) ms \<circ> to_entry (new_pair kind)) (with_entry r)"
      unfolding P to comp_apply to_entry_app fold_to_entry new_pair_of pair_entry_fold pair_fold [OF kind ok [unfolded v] d] v ..
  qed
qed

definition entry_step :: "nat \<Rightarrow> json \<Rightarrow> raw_entry \<Rightarrow> raw_entry" where
  "entry_step i v =
     (if i = 7 then set_pair_of KindRecordSignature (pair_value KindRecordSignature signatureCaps v)
      else if i = 8 then set_pair_of KindDisclosed (pair_value KindDisclosed disclosedCaps v)
      else set_field i (capped (entryCaps ! i) (text_of v)))"

lemma entry_step_fields:
  assumes "i < length (memberNames KindEntry)"
  shows "re_EntryID (entry_step i v e) = (if i = 0 then capped (entryCaps ! 0) (text_of v) else re_EntryID e)"
    "re_EntryType (entry_step i v e) = (if i = 1 then capped (entryCaps ! 1) (text_of v) else re_EntryType e)"
    "re_GlobalSeq (entry_step i v e) = (if i = 2 then capped (entryCaps ! 2) (text_of v) else re_GlobalSeq e)"
    "re_PreviousHash (entry_step i v e) = (if i = 3 then capped (entryCaps ! 3) (text_of v) else re_PreviousHash e)"
    "re_Timestamp (entry_step i v e) = (if i = 4 then capped (entryCaps ! 4) (text_of v) else re_Timestamp e)"
    "re_ContentHash (entry_step i v e) = (if i = 5 then capped (entryCaps ! 5) (text_of v) else re_ContentHash e)"
    "re_ChainHash (entry_step i v e) = (if i = 6 then capped (entryCaps ! 6) (text_of v) else re_ChainHash e)"
    "re_Sig (entry_step i v e) = (if i = 7 then Some (pair_value KindRecordSignature signatureCaps v) else re_Sig e)"
    "re_Disclosed (entry_step i v e) = (if i = 8 then Some (pair_value KindDisclosed disclosedCaps v) else re_Disclosed e)"
proof -
  have "i < 9" using assms by simp
  then have "i \<noteq> 7 \<Longrightarrow> i \<noteq> 8 \<Longrightarrow> i \<in> {0, 1, 2, 3, 4, 5, 6}" by auto
  then show "re_EntryID (entry_step i v e) = (if i = 0 then capped (entryCaps ! 0) (text_of v) else re_EntryID e)"
    "re_EntryType (entry_step i v e) = (if i = 1 then capped (entryCaps ! 1) (text_of v) else re_EntryType e)"
    "re_GlobalSeq (entry_step i v e) = (if i = 2 then capped (entryCaps ! 2) (text_of v) else re_GlobalSeq e)"
    "re_PreviousHash (entry_step i v e) = (if i = 3 then capped (entryCaps ! 3) (text_of v) else re_PreviousHash e)"
    "re_Timestamp (entry_step i v e) = (if i = 4 then capped (entryCaps ! 4) (text_of v) else re_Timestamp e)"
    "re_ContentHash (entry_step i v e) = (if i = 5 then capped (entryCaps ! 5) (text_of v) else re_ContentHash e)"
    "re_ChainHash (entry_step i v e) = (if i = 6 then capped (entryCaps ! 6) (text_of v) else re_ChainHash e)"
    "re_Sig (entry_step i v e) = (if i = 7 then Some (pair_value KindRecordSignature signatureCaps v) else re_Sig e)"
    "re_Disclosed (entry_step i v e) = (if i = 8 then Some (pair_value KindDisclosed disclosedCaps v) else re_Disclosed e)"
    by (auto simp: entry_step_def set_pair_of_def)
qed

lemma entry_fold:
  assumes ok: "entry_ok (JObj ms)" and d: "distinct (map fst ms)"
  shows "fold (by_name KindEntry entry_step) ms empty_entry = entry_in (JObj ms)"
proof -
  have sub: "fst ` set ms \<subseteq> set (memberNames KindEntry)" and req: "set entry_names \<subseteq> fst ` set ms"
    using ok by (simp_all add: entry_ok_def)
  have len: "length (memberNames KindEntry) = 9" by simp
  note F = fold_field [of KindEntry _ entry_step, OF _ _ sub d, of _ _ _ empty_entry, unfolded member_case]
  have there: "memberNames KindEntry ! i \<in> fst ` set ms" if "i < 7" for i
  proof -
    have "entry_names ! i \<in> set entry_names" by (rule nth_mem) (use that in \<open>simp add: entry_names_def\<close>)
    moreover have "entry_names ! i = memberNames KindEntry ! i" unfolding entry_names_def by (rule nth_take) (rule that)
    ultimately show ?thesis using req by (metis subsetD)
  qed
  let ?T = "\<lambda>i. capped (entryCaps ! i) (text_of (member_at (memberNames KindEntry ! i) (JObj ms)))"
  let ?R = "fold (by_name KindEntry entry_step) ms empty_entry"
  have "re_EntryID ?R = ?T 0" "re_EntryType ?R = ?T 1" "re_GlobalSeq ?R = ?T 2" "re_PreviousHash ?R = ?T 3"
    "re_Timestamp ?R = ?T 4" "re_ContentHash ?R = ?T 5" "re_ChainHash ?R = ?T 6"
    using F [OF entry_step_fields(1)] F [OF entry_step_fields(2)] F [OF entry_step_fields(3)] F [OF entry_step_fields(4)]
      F [OF entry_step_fields(5)] F [OF entry_step_fields(6)] F [OF entry_step_fields(7)]
      there [of 0] there [of 1] there [of 2] there [of 3] there [of 4] there [of 5] there [of 6]
    by (simp_all only: len if_True)
  moreover have "re_Sig ?R = pair_in ''record_signature'' KindRecordSignature signatureCaps (JObj ms)"
    using F [OF entry_step_fields(8)] by (simp add: pair_in_def empty_entry_def)
  moreover have "re_Disclosed ?R = pair_in ''disclosed'' KindDisclosed disclosedCaps (JObj ms)"
    using F [OF entry_step_fields(9)] by (simp add: pair_in_def empty_entry_def)
  ultimately show ?thesis unfolding entry_in_def Let_def by (intro raw_entry.equality) simp_all
qed

lemma entry_member_built:
  assumes "index_of k (memberNames KindEntry) = Some i" "entry_member_ok k v" "\<not> repeats v"
  shows "built l with_entry (to_entry (entry_step i v)) r (eff_entry_member i v r)"
proof -
  have bad: "\<not> entry_hb i v" using entry_hb_iff [OF assms(1)] assms(2) by blast
  consider "i = 7" | "i = 8" | "i \<noteq> 7" "i \<noteq> 8" by blast
  then show ?thesis
  proof cases
    case 1
    then have "pair_ok KindRecordSignature v" using bad by (simp add: entry_hb_def)
    from pair_built [OF _ this assms(3), of l r] 1 show ?thesis by (simp add: entry_step_def eff_entry_member_def caps_of_def)
  next
    case 2
    then have "pair_ok KindDisclosed v" using bad by (simp add: entry_hb_def)
    from pair_built [OF _ this assms(3), of l r] 2 show ?thesis by (simp add: entry_step_def eff_entry_member_def caps_of_def)
  next
    case 3
    then have "is_string v" using bad by (simp add: entry_hb_def)
    from strings_built [OF this] 3 show ?thesis by (simp add: entry_step_def eff_entry_member_def)
  qed
qed

lemma entry_built:
  assumes ok: "entry_ok v" and "\<not> repeats v"
  shows "built l with_entry (\<lambda>(cs, c, e). (cs, c\<lparr>rc_Entries := rc_Entries c @ [entry_in v]\<rparr>, empty_entry)) r (eff_entry v r)"
proof -
  obtain ms where v: "v = JObj ms" using ok by (cases v) (auto simp: entry_ok_def)
  have d: "distinct (map fst ms)" and clean: "\<And>k w. (k, w) \<in> set ms \<Longrightarrow> \<not> repeats w"
    using assms(2) by (auto simp: v list_ex_iff)
  have sub: "fst ` set ms \<subseteq> set (memberNames KindEntry)" using ok by (simp add: v entry_ok_def)
  let ?r = "(count_entry r)\<lparr>rd_entry := empty_entry\<rparr>"
  have seen: "entryRequired \<subseteq> fst (eff_object eff_skip eff_entry_member KindEntry ms r')" for r'
    unfolding object_seen using entry_bad [of ms] ok v by blast
  have "built l with_entry (fold (by_name KindEntry (\<lambda>i v. to_entry (entry_step i v))) ms) ?r
      (snd (eff_object eff_skip eff_entry_member KindEntry ms ?r))"
  proof (rule object_built [OF _ sub d built_steps(1)])
    fix k w i r assume m: "(k, w) \<in> set ms" and i: "index_of k (memberNames KindEntry) = Some i"
    have "entry_member_ok k w" using ok v m by (auto simp: entry_ok_def list_all_iff)
    from entry_member_built [OF i this clean [OF m]]
    show "built l with_entry (to_entry (entry_step i w)) r (eff_entry_member i w r)" .
  qed
  from built_trans [OF built_trans [OF built_trans [OF built_steps(4) built_data(5)] this] built_data(3)]
  have "built l with_entry ((\<lambda>(cs, c, e). (cs, c\<lparr>rc_Entries := rc_Entries c @ [e]\<rparr>, empty_entry)) \<circ>
      (fold (by_name KindEntry (\<lambda>i v. to_entry (entry_step i v))) ms \<circ> (to_entry (\<lambda>_. empty_entry) \<circ> id))) r (eff_entry v r)"
    by (simp add: v eff_entry_def case_prod_beta seen violate_when_def Let_def)
  then show ?thesis
  proof (rule built_conv)
    have to: "by_name KindEntry (\<lambda>i v. to_entry (entry_step i v)) = (\<lambda>x. to_entry (by_name KindEntry entry_step x))"
      by (simp add: by_name_def fun_eq_iff)
    obtain cs c e where P: "with_entry r = (cs, c, e)" by (cases "with_entry r") auto
    show "(\<lambda>(cs, c, e). (cs, c\<lparr>rc_Entries := rc_Entries c @ [entry_in v]\<rparr>, empty_entry)) (with_entry r)
      = ((\<lambda>(cs, c, e). (cs, c\<lparr>rc_Entries := rc_Entries c @ [e]\<rparr>, empty_entry)) \<circ>
        (fold (by_name KindEntry (\<lambda>i v. to_entry (entry_step i v))) ms \<circ> (to_entry (\<lambda>_. empty_entry) \<circ> id))) (with_entry r)"
      unfolding P to comp_apply id_apply to_entry_app fold_to_entry entry_fold [OF ok [unfolded v] d] v by simp
  qed
qed

subsection \<open>Chains\<close>

lemma items_built:
  assumes "is_array v" "some \<Longrightarrow> items_of v \<noteq> []" "\<And>x r. x \<in> set (items_of v) \<Longrightarrow> built l P (g x) r (el x r)"
    and "\<And>r. built l P id r (countValue r)"
  shows "built l P (fold g (items_of v)) r (eff_items el some v r)"
proof -
  obtain xs where v: "v = JArr xs" using assms(1) by (cases v) auto
  have "built l P (fold g xs) r (fold el xs r)" for r using assms(3) unfolding v items_of.simps
  proof (induction xs arbitrary: r)
    case Nil
    show ?case by (simp add: built_def)
  next
    case (Cons x xs)
    have "built l P (g x) r (el x r)" using Cons.prems [of x r] by simp
    moreover have "built l P (fold g xs) (el x r) (fold el xs (el x r))" using Cons by simp
    ultimately have "built l P (fold g xs \<circ> g x) r (fold el xs (el x r))" by (rule built_trans)
    then show ?case by (simp add: comp_def)
  qed
  from built_trans [OF assms(4) this] assms(2) show ?thesis by (auto simp: v eff_items_def violate_when_def)
qed

definition chain_step :: "limits \<Rightarrow> nat \<Rightarrow> json \<Rightarrow> raw_chain \<Rightarrow> raw_chain" where
  "chain_step l i v c =
     (if i = 0 then c\<lparr>rc_ID := chain_id_text (text_of v)\<rparr>
      else if i = 1 then c\<lparr>rc_Entries := rc_Entries c @ map entry_in (items_of v)\<rparr>
      else c\<lparr>rc_Checkpoints := rc_Checkpoints c @ map (checkpoint_text l \<circ> text_of) (items_of v)\<rparr>)"

lemma map_of_member: "k \<in> fst ` set ms \<Longrightarrow> map_of ms k = Some (member_at k (JObj ms))"
proof -
  assume "k \<in> fst ` set ms"
  then obtain v where "map_of ms k = Some v" by (metis map_of_eq_None_iff option.exhaust)
  then show ?thesis by (simp add: member_at_def)
qed

lemma chain_fold:
  assumes ok: "chain_ok (JObj ms)" and d: "distinct (map fst ms)"
  shows "fold (by_name KindChain (chain_step l)) ms empty_chain = chain_in l (JObj ms)"
proof -
  have names: "fst ` set ms = set (memberNames KindChain)" using ok by (simp only: chain_ok_def members_of.simps simp_thms)
  then have sub: "fst ` set ms \<subseteq> set (memberNames KindChain)" by simp
  have len: "length (memberNames KindChain) = 3" by simp
  have there: "map_of ms (memberNames KindChain ! i) = Some (member_at (memberNames KindChain ! i) (JObj ms))" if "i < 3" for i
    by (rule map_of_member, unfold names, rule nth_mem) (use that in simp)
  let ?R = "fold (by_name KindChain (chain_step l)) ms empty_chain"
  let ?M = "\<lambda>i. member_at (memberNames KindChain ! i) (JObj ms)"
  have "rc_ID ?R = chain_id_text (text_of (?M 0))"
    by (subst fold_field_of [where pos = 0 and W = "\<lambda>v _. chain_id_text (text_of v)", OF _ _ sub d])
      (use there [of 0] in \<open>simp_all add: chain_step_def\<close>)
  moreover have "rc_Entries ?R = rc_Entries empty_chain @ map entry_in (items_of (?M 1))"
    by (subst fold_field_of [where pos = 1 and W = "\<lambda>v es. es @ map entry_in (items_of v)", OF _ _ sub d])
      (use there [of 1] in \<open>simp_all add: chain_step_def\<close>)
  moreover have "rc_Checkpoints ?R = rc_Checkpoints empty_chain @ map (checkpoint_text l \<circ> text_of) (items_of (?M 2))"
    by (subst fold_field_of [where pos = 2 and W = "\<lambda>v cs. cs @ map (checkpoint_text l \<circ> text_of) (items_of v)", OF _ _ sub d])
      (use there [of 2] in \<open>auto simp add: chain_step_def\<close>)
  ultimately show ?thesis unfolding chain_in_def
    by (intro raw_chain.equality) (simp_all add: entries_in_def checkpoints_in_def empty_chain_def eval_nat_numeral)
qed

lemma chain_of_entry: "built l with_entry (\<lambda>(cs, c, e). (cs, f c, e')) r r' \<Longrightarrow> built l with_chain (to_chain f) r r'"
  by (auto simp: built_def with_entry_def with_chain_def to_chain_def)

lemma fold_append: "fold (\<lambda>x. to_chain (\<lambda>c. c\<lparr>rc_Entries := rc_Entries c @ [f x]\<rparr>)) xs (cs, c) = (cs, c\<lparr>rc_Entries := rc_Entries c @ map f xs\<rparr>)"
  "fold (\<lambda>x. to_chain (\<lambda>c. c\<lparr>rc_Checkpoints := rc_Checkpoints c @ [k x]\<rparr>)) xs (cs, c) = (cs, c\<lparr>rc_Checkpoints := rc_Checkpoints c @ map k xs\<rparr>)"
  by (induction xs arbitrary: c) (simp_all add: to_chain_app)

lemma checkpoint_built:
  assumes "is_string v"
  shows "built l with_chain (to_chain (\<lambda>c. c\<lparr>rc_Checkpoints := rc_Checkpoints c @ [(checkpoint_text l \<circ> text_of) v]\<rparr>)) r (eff_checkpoint v r)"
proof -
  obtain s where v: "v = JStr s" using assms by (cases v) auto
  have lim: "rd_lim (count_checkpoint r) = rd_lim r" by (simp add: count_checkpoint_def reader_steps)
  show ?thesis
  proof (cases "rd_lim r = l")
    case True
    with built_trans [OF built_trans [OF built_steps(5) built_steps(2)] built_data(2)] show ?thesis
      by (simp add: v eff_checkpoint_def Let_def lim)
  next
    case False
    then show ?thesis by (simp add: built_def)
  qed
qed

lemma chain_member_built:
  assumes i: "index_of k (memberNames KindChain) = Some i" and bad: "\<not> chain_hb i v" and rep: "\<not> repeats v"
  shows "built l with_chain (to_chain (chain_step l i v)) r (eff_chain_member i v r)"
proof -
  have "i < 3" using index_of_less [OF i] by simp
  then consider "i = 0" | "i = 1" | "i = 2" by linarith
  then show ?thesis
  proof cases
    case 1
    then obtain s where v: "v = JStr s" using bad by (cases v) (auto simp: chain_hb_def)
    from built_trans [OF built_steps(2) built_data(2)] show ?thesis
      by (simp add: 1 v eff_chain_member_def eff_chain_id_def chain_step_def [abs_def])
  next
    case 2
    then have ok: "is_array v" "items_of v \<noteq> []" "list_all entry_ok (items_of v)" using bad by (auto simp: chain_hb_def)
    have each: "built l with_chain (to_chain (\<lambda>c. c\<lparr>rc_Entries := rc_Entries c @ [entry_in x]\<rparr>)) r (eff_entry x r)"
      if "x \<in> set (items_of v)" for x r
      by (rule chain_of_entry [OF entry_built]) (use that ok rep in \<open>auto simp: list_all_iff list_ex_iff elim!: is_array.elims\<close>)
    have "built l with_chain (fold (\<lambda>x. to_chain (\<lambda>c. c\<lparr>rc_Entries := rc_Entries c @ [entry_in x]\<rparr>)) (items_of v)) r
        (eff_items eff_entry True v r)"
      by (rule items_built [OF ok(1) ok(2) each built_steps(2)])
    then have "built l with_chain (to_chain (chain_step l 1 v)) r (eff_items eff_entry True v r)"
    proof (rule built_conv)
      obtain cs c where P: "with_chain r = (cs, c)" by (cases "with_chain r") auto
      show "to_chain (chain_step l 1 v) (with_chain r)
        = fold (\<lambda>x. to_chain (\<lambda>c. c\<lparr>rc_Entries := rc_Entries c @ [entry_in x]\<rparr>)) (items_of v) (with_chain r)"
        unfolding P fold_append to_chain_app by (simp add: chain_step_def)
    qed
    with 2 show ?thesis by (simp add: eff_chain_member_def)
  next
    case 3
    then have ok: "is_array v" "list_all is_string (items_of v)" using bad by (auto simp: chain_hb_def)
    have each: "built l with_chain (to_chain (\<lambda>c. c\<lparr>rc_Checkpoints := rc_Checkpoints c @ [(checkpoint_text l \<circ> text_of) x]\<rparr>)) r (eff_checkpoint x r)"
      if "x \<in> set (items_of v)" for x r
      by (rule checkpoint_built) (use that ok in \<open>auto simp: list_all_iff\<close>)
    have "built l with_chain (fold (\<lambda>x. to_chain (\<lambda>c. c\<lparr>rc_Checkpoints := rc_Checkpoints c @ [(checkpoint_text l \<circ> text_of) x]\<rparr>)) (items_of v)) r
        (eff_items eff_checkpoint False v r)"
      by (rule items_built [OF ok(1) _ each built_steps(2)]) simp
    then have "built l with_chain (to_chain (chain_step l 2 v)) r (eff_items eff_checkpoint False v r)"
    proof (rule built_conv)
      obtain cs c where P: "with_chain r = (cs, c)" by (cases "with_chain r") auto
      show "to_chain (chain_step l 2 v) (with_chain r)
        = fold (\<lambda>x. to_chain (\<lambda>c. c\<lparr>rc_Checkpoints := rc_Checkpoints c @ [(checkpoint_text l \<circ> text_of) x]\<rparr>)) (items_of v) (with_chain r)"
        unfolding P fold_append to_chain_app by (simp add: chain_step_def)
    qed
    with 3 show ?thesis by (simp add: eff_chain_member_def)
  qed
qed

lemma chain_built:
  assumes ok: "chain_ok v" and "\<not> repeats v"
  shows "built l with_chain (\<lambda>(cs, c). (cs @ [chain_in l v], empty_chain)) r (eff_chain v r)"
proof -
  obtain ms where v: "v = JObj ms" using ok by (cases v) (auto simp: chain_ok_def)
  have d: "distinct (map fst ms)" and clean: "\<And>k w. (k, w) \<in> set ms \<Longrightarrow> \<not> repeats w"
    using assms(2) by (auto simp: v list_ex_iff)
  have fine: "\<not> list_ex (member_bad KindChain chain_hb) ms" "seen_in KindChain ms = {0, 1, 2}"
    using chain_bad [OF d] ok v by blast+
  have sub: "fst ` set ms \<subseteq> set (memberNames KindChain)" using fine(1) member_bad_none by blast
  let ?r = "(count_chain r)\<lparr>rd_chain := empty_chain\<rparr>"
  have seen: "fst (eff_object eff_skip eff_chain_member KindChain ms r') = {0, 1, 2}" for r'
    unfolding object_seen by (rule fine(2))
  have "built l with_chain (fold (by_name KindChain (\<lambda>i v. to_chain (chain_step l i v))) ms) ?r
      (snd (eff_object eff_skip eff_chain_member KindChain ms ?r))"
  proof (rule object_built [OF _ sub d built_steps(2)])
    fix k w i r assume m: "(k, w) \<in> set ms" and i: "index_of k (memberNames KindChain) = Some i"
    have "\<not> chain_hb i w" using fine(1) m i unfolding member_bad_none by fastforce
    from chain_member_built [OF i this clean [OF m]]
    show "built l with_chain (to_chain (chain_step l i w)) r (eff_chain_member i w r)" .
  qed
  from built_trans [OF built_trans [OF built_trans [OF built_steps(6) built_data(6)] this] built_data(4)]
  have "built l with_chain ((\<lambda>(cs, c). (cs @ [c], empty_chain)) \<circ>
      (fold (by_name KindChain (\<lambda>i v. to_chain (chain_step l i v))) ms \<circ> (to_chain (\<lambda>_. empty_chain) \<circ> id))) r (eff_chain v r)"
    by (simp add: v eff_chain_def case_prod_beta seen violate_when_def Let_def)
  then show ?thesis
  proof (rule built_conv)
    have to: "by_name KindChain (\<lambda>i v. to_chain (chain_step l i v)) = (\<lambda>x. to_chain (by_name KindChain (chain_step l) x))"
      by (simp add: by_name_def fun_eq_iff)
    obtain cs c where P: "with_chain r = (cs, c)" by (cases "with_chain r") auto
    show "(\<lambda>(cs, c). (cs @ [chain_in l v], empty_chain)) (with_chain r)
      = ((\<lambda>(cs, c). (cs @ [c], empty_chain)) \<circ>
        (fold (by_name KindChain (\<lambda>i v. to_chain (chain_step l i v))) ms \<circ> (to_chain (\<lambda>_. empty_chain) \<circ> id))) (with_chain r)"
      unfolding P to comp_apply id_apply to_chain_app fold_to_chain chain_fold [OF ok [unfolded v] d] v by simp
  qed
qed

subsection \<open>The bundle\<close>

text \<open>The bundle without the format member's own flag.\<close>

definition plain_member :: "nat \<Rightarrow> json \<Rightarrow> reader \<Rightarrow> reader" where
  "plain_member i = (if i = 0 then eff_read_string else eff_items eff_chain False)"

definition fmt_of :: "json option \<Rightarrow> reader \<Rightarrow> reader" where
  "fmt_of w = (case w of None \<Rightarrow> id | Some v \<Rightarrow> fmt (v = JStr FormatID))"

lemma free_plain: "free (plain_member i v)"
proof (cases "i = 0")
  case True
  then show ?thesis unfolding plain_member_def free_def eff_read_string_def
    using eff_string_fmt [of "length FormatID" True v _ _ True] by simp
next
  case False
  then show ?thesis by (simp add: plain_member_def free_items [OF free_chain])
qed

lemma bundle_index: "index_of k (memberNames KindBundle) = Some i \<Longrightarrow> i = 0 \<and> k = ''format'' \<or> i = 1 \<and> k = ''chains''"
  by (simp split: if_splits)

lemma members_fmt:
  "snd (eff_members eff_skip eff_bundle_member KindBundle seen names ms r) =
     fmt_of (if 0 \<in> seen then None else map_of ms ''format'')
       (snd (eff_members eff_skip plain_member KindBundle seen names ms r))"
proof (induction ms arbitrary: seen names r)
  case Nil
  show ?case by (simp add: fmt_of_def)
next
  case (Cons m ms)
  obtain k v where m: "m = (k, v)" by fastforce
  show ?case
  proof (cases "index_of k (memberNames KindBundle)")
    case None
    have k: "k \<noteq> ''format''"
    proof
      assume "k = ''format''"
      with None show False by simp
    qed
    have "fst (fst (eff_name KindBundle names k r)) = None" unfolding eff_name_cases None by (simp add: Let_def)
    then obtain names' r' where n: "eff_name KindBundle names k r = ((None, names'), r')" by (metis prod.collapse)
    show ?thesis unfolding m eff_members.simps n prod.case option.case Cons.IH using k by simp
  next
    case (Some i)
    have n: "eff_name KindBundle names k r = ((Some i, names), r)" unfolding eff_name_cases Some by simp
    show ?thesis
    proof (cases "i \<in> seen")
      case True
      from bundle_index [OF Some] show ?thesis
      proof
        assume "i = 0 \<and> k = ''format''"
        with True show ?thesis unfolding m eff_members.simps n prod.case option.case by (simp add: Cons.IH)
      next
        assume "i = 1 \<and> k = ''chains''"
        with True show ?thesis unfolding m eff_members.simps n prod.case option.case by (simp add: Cons.IH)
      qed
    next
      case False
      from bundle_index [OF Some] show ?thesis
      proof
        assume k: "i = 0 \<and> k = ''format''"
        have h: "eff_bundle_member i v r = fmt (v = JStr FormatID) (plain_member i v r)"
          using k by (simp add: eff_bundle_member_def plain_member_def eff_format_fmt)
        show ?thesis unfolding m eff_members.simps n prod.case option.case h
          using k False by (simp add: Cons.IH free_members [OF free_skip free_plain] fmt_of_def)
      next
        assume k: "i = 1 \<and> k = ''chains''"
        have h: "eff_bundle_member i v r = plain_member i v r"
          using k by (simp add: eff_bundle_member_def plain_member_def)
        show ?thesis unfolding m eff_members.simps n prod.case option.case h
          using k False by (simp add: Cons.IH)
      qed
    qed
  qed
qed

definition bundle_hb :: "nat \<Rightarrow> json \<Rightarrow> bool" where
  "bundle_hb i v = (if i = 0 then \<not> is_string v else \<not> (is_array v \<and> list_all chain_ok (items_of v)))"

definition chain_counts :: "json \<Rightarrow> nat \<Rightarrow> nat" where
  "chain_counts v j = (if j = 0 then 1 else if j = 1 then length (entries_in v) else length (checkpoints_in v))"

definition bundle_hc :: "nat \<Rightarrow> json \<Rightarrow> nat \<Rightarrow> nat" where
  "bundle_hc i v j = (if i = 0 then 0 else sum_list (map (\<lambda>x. chain_counts x j) (items_of v)))"

lemma plain_member_effect:
  assumes "index_of k (memberNames KindBundle) = Some i"
  shows "effect (value_count v) (repeats v) (bundle_hb i v) (bundle_hc i v) r (plain_member i v r)"
proof -
  note chains = eff_items_effect_each [where some = False, OF eff_chain_effect [folded chain_counts_def], of v r]
  from bundle_index [OF assms] consider "i = 0" | "i = 1" by blast
  then show ?thesis
  proof cases
    case 1
    then show ?thesis unfolding plain_member_def eff_read_string_def
      by (simp, intro effect_conv [OF eff_string_effect]) (simp_all add: bundle_hb_def bundle_hc_def)
  next
    case 2
    then show ?thesis unfolding plain_member_def
      by (simp, intro effect_conv [OF chains]) (auto simp: bundle_hb_def bundle_hc_def)
  qed
qed

lemma bundle_count:
  assumes d: "distinct (map fst ms)"
  shows "sum_list (map (member_count KindBundle bundle_hc j) ms) = sum_list (map (\<lambda>x. chain_counts x j) (chains_in (JObj ms)))"
proof -
  have "sum_list (map (member_count KindBundle bundle_hc j) ms) = bundle_hc 1 (member_at ''chains'' (JObj ms)) j"
    by (rule member_count_at [OF d]) (simp_all add: bundle_hc_def)
  then show ?thesis by (simp add: bundle_hc_def chains_in_def)
qed

lemma bundle_bad:
  assumes d: "distinct (map fst ms)" and f: "format_ok (JObj ms)"
  shows "list_ex (member_bad KindBundle bundle_hb) ms \<or> 1 \<notin> seen_in KindBundle ms \<longleftrightarrow> \<not> bundle_ok (JObj ms)"
proof -
  have one: "1 \<in> seen_in KindBundle ms \<longleftrightarrow> ''chains'' \<in> fst ` set ms"
    using seen_nth [of 1 KindBundle ms] by simp
  have fm: "''format'' \<in> fst ` set ms" using f member_at_missing [of "''format''" ms] by (auto simp: format_ok_def)
  show ?thesis
  proof (cases "fst ` set ms = set (memberNames KindBundle)")
    case True
    then have c: "''chains'' \<in> fst ` set ms" by simp
    have "(\<forall>i < 2. \<not> bundle_hb i (member_at (memberNames KindBundle ! i) (JObj ms))) \<longleftrightarrow>
        is_string (member_at ''format'' (JObj ms)) \<and> is_array (member_at ''chains'' (JObj ms)) \<and>
        list_all chain_ok (items_of (member_at ''chains'' (JObj ms)))"
      by (simp add: eval_nat_numeral All_less_Suc bundle_hb_def conj_commute)
    moreover have "length (memberNames KindBundle) = 2" by simp
    moreover have "is_string (member_at ''format'' (JObj ms))" using f by (simp add: format_ok_def)
    moreover note members_at [OF d True, of "\<lambda>i v. \<not> bundle_hb i v"] member_bad_none [of KindBundle bundle_hb ms]
    ultimately have "\<not> list_ex (member_bad KindBundle bundle_hb) ms \<longleftrightarrow>
        is_array (member_at ''chains'' (JObj ms)) \<and> list_all chain_ok (items_of (member_at ''chains'' (JObj ms)))"
      using True by (metis subset_refl)
    with c one True show ?thesis by (simp only: bundle_ok_def is_object.simps members_of.simps) blast
  next
    case False
    have "\<not> bundle_ok (JObj ms)"
    proof
      assume "bundle_ok (JObj ms)"
      then have "''chains'' \<in> fst ` set ms" "fst ` set ms \<subseteq> {''format'', ''chains''}" by (simp_all add: bundle_ok_def)
      with fm have "fst ` set ms = {''format'', ''chains''}" by blast
      with False show False by simp
    qed
    moreover have "list_ex (member_bad KindBundle bundle_hb) ms \<or> 1 \<notin> seen_in KindBundle ms"
    proof (rule ccontr)
      assume no: "\<not> ?thesis"
      then have "fst ` set ms \<subseteq> set (memberNames KindBundle)" using member_bad_none by blast
      moreover have "set (memberNames KindBundle) \<subseteq> fst ` set ms" using no one fm by simp
      ultimately show False using False by blast
    qed
    ultimately show ?thesis by blast
  qed
qed


lemma plain_built:
  assumes f: "format_ok (JObj ms)" and ok: "bundle_ok (JObj ms)" and rep: "\<not> repeats (JObj ms)"
  shows "built l rd_chains (\<lambda>cs. cs @ map (chain_in l) (chains_in (JObj ms))) r
    (snd (eff_object eff_skip plain_member KindBundle ms r))"
proof -
  let ?g = "\<lambda>i v cs. if i = 0 then cs else cs @ map (chain_in l) (items_of v)"
  have d: "distinct (map fst ms)" and clean: "\<And>k w. (k, w) \<in> set ms \<Longrightarrow> \<not> repeats w"
    using rep by (auto simp: list_ex_iff)
  have fine: "\<not> list_ex (member_bad KindBundle bundle_hb) ms" using bundle_bad [OF d f] ok by blast
  have sub: "fst ` set ms \<subseteq> set (memberNames KindBundle)" using fine member_bad_none by blast
  have "built l rd_chains (fold (by_name KindBundle ?g) ms) r (snd (eff_object eff_skip plain_member KindBundle ms r))"
  proof (rule object_built [OF _ sub d built_steps(3)])
    fix k w i r assume m: "(k, w) \<in> set ms" and i: "index_of k (memberNames KindBundle) = Some i"
    have good: "\<not> bundle_hb i w" using fine m i unfolding member_bad_none by fastforce
    show "built l rd_chains (?g i w) r (plain_member i w r)"
    proof (cases "i = 0")
      case True
      then obtain s where w: "w = JStr s" using good by (cases w) (auto simp: bundle_hb_def)
      have "built l rd_chains (?g i w) r (countValue r)" by (rule built_conv [OF built_steps(3)]) (simp add: True)
      then show ?thesis by (simp add: w True plain_member_def eff_read_string_def eff_string_def)
    next
      case False
      then have a: "is_array w" "list_all chain_ok (items_of w)" using good by (auto simp: bundle_hb_def)
      have "built l rd_chains (\<lambda>cs. cs @ [chain_in l x]) r (eff_chain x r)" if "x \<in> set (items_of w)" for x r
      proof -
        have "chain_ok x" "\<not> repeats x"
          using that a clean [OF m] by (auto simp: list_all_iff list_ex_iff elim!: is_array.elims)
        from chain_built [OF this, of l r] show ?thesis by (auto simp: built_def with_chain_def)
      qed
      from items_built [OF a(1) _ this built_steps(3), where some = False]
      have "built l rd_chains (fold (\<lambda>x cs. cs @ [chain_in l x]) (items_of w)) r (eff_items eff_chain False w r)" by simp
      moreover have "fold (\<lambda>x cs. cs @ [chain_in l x]) xs cs = cs @ map (chain_in l) xs" for xs cs
        by (induction xs arbitrary: cs) simp_all
      ultimately show ?thesis using False by (simp add: plain_member_def built_def)
    qed
  qed
  then show ?thesis
  proof (rule built_conv)
    have c: "map_of ms ''chains'' = Some (member_at ''chains'' (JObj ms))"
      by (rule map_of_member) (use ok in \<open>simp add: bundle_ok_def\<close>)
    have "id (fold (by_name KindBundle ?g) ms (rd_chains r)) = (case map_of ms (memberNames KindBundle ! 1) of None \<Rightarrow> id (rd_chains r)
        | Some v \<Rightarrow> id (rd_chains r) @ map (chain_in l) (items_of v))"
      by (rule fold_field_of [OF _ _ sub d]) (auto simp: less_2_cases_iff numeral_2_eq_2)
    then show "rd_chains r @ map (chain_in l) (chains_in (JObj ms)) = fold (by_name KindBundle ?g) ms (rd_chains r)"
      using c by (simp add: chains_in_def)
  qed
qed

definition answer :: "reader \<Rightarrow> reason + raw_chain list" where
  "answer r =
     (if rd_overValues r then Inl ReasonTooLarge
      else if rd_duplicate r then Inl ReasonDuplicateKey
      else if rd_topObject r \<and> \<not> rd_formatOK r then Inl ReasonFormat
      else if rd_structure r then Inl ReasonStructure
      else if rd_overCount r then Inl ReasonTooLarge
      else Inr (rd_chains r))"

definition tree_reference :: "limits \<Rightarrow> json \<Rightarrow> reason + raw_chain list" where
  "tree_reference l v =
     (if lm_Values l < int (value_count v) then Inl ReasonTooLarge
      else if repeats v then Inl ReasonDuplicateKey
      else if is_object v \<and> \<not> format_ok v then Inl ReasonFormat
      else if \<not> bundle_ok v then Inl ReasonStructure
      else if over_counts l v then Inl ReasonTooLarge
      else Inr (map (chain_in l) (chains_in v)))"

definition start :: "bytes \<Rightarrow> limits \<Rightarrow> reader" where
  "start data lim = (newReader data lim)\<lparr>rd_build := True\<rparr>"

lemma start_inv: "wf_limits lim \<Longrightarrow> reader_inv (start data lim)"
  by (simp add: start_def newReader_def reader_inv_def good_def clean_flags_def wf_limits_def)

lemma fmt_of_flags:
  "rd_overValues (fmt_of w r) = rd_overValues r" "rd_duplicate (fmt_of w r) = rd_duplicate r"
  "rd_structure (fmt_of w r) = rd_structure r" "rd_overCount (fmt_of w r) = rd_overCount r"
  "rd_topObject (fmt_of w r) = rd_topObject r"
  "rd_formatOK (fmt_of w r) = (case w of None \<Rightarrow> rd_formatOK r | Some v \<Rightarrow> v = JStr FormatID)"
  "w = Some (JStr FormatID) \<Longrightarrow> rd_chains (fmt_of w r) = rd_chains r"
  by (auto simp: fmt_of_def fmt_def stopBuilding_def split: option.split)

lemma violate_when_flags:
  "rd_overValues (violate_when b r) = rd_overValues r" "rd_duplicate (violate_when b r) = rd_duplicate r"
  "rd_structure (violate_when b r) = (rd_structure r \<or> b)" "rd_overCount (violate_when b r) = rd_overCount r"
  "rd_topObject (violate_when b r) = rd_topObject r" "rd_formatOK (violate_when b r) = rd_formatOK r"
  "\<not> b \<Longrightarrow> violate_when b r = r"
  by (simp_all add: violate_when_def violate_def stopBuilding_def)


lemma no_bundle_answer:
  assumes wf: "wf_limits lim" and no: "\<not> is_object v"
  shows "answer (eff_skip v (violate (start data lim))) = tree_reference lim v"
proof -
  define x where "x = eff_skip v (violate (start data lim))"
  have E: "effect (value_count v) (repeats v) True (\<lambda>_. 0) (start data lim) x" unfolding x_def by (rule skip_bad_effect)
  note D = effectD [OF E start_inv [OF wf]]
  have init: "rd_lim (start data lim) = lim" "rd_values (start data lim) = 0" "\<not> rd_duplicate (start data lim)"
    "\<not> rd_topObject (start data lim)" by (simp_all add: start_def newReader_def)
  have over: "rd_overValues x \<longleftrightarrow> lm_Values lim < int (value_count v)" using D(1-3) init by (simp add: reader_inv_def)
  have "\<not> rd_overValues x \<Longrightarrow> rd_duplicate x \<longleftrightarrow> repeats v" using D(4) init by simp
  moreover have "\<not> rd_overValues x \<Longrightarrow> \<not> repeats v \<Longrightarrow> rd_structure x" using D(4,5) init by (simp add: good_def)
  moreover have "\<not> rd_topObject x" using D(7) init by simp
  moreover have "\<not> bundle_ok v" using no by (simp add: bundle_ok_def)
  ultimately show ?thesis using over no unfolding x_def [symmetric] answer_def tree_reference_def by simp
qed

lemma eff_bundle_answer:
  assumes wf: "wf_limits lim"
  shows "answer (eff_bundle v (start data lim)) = tree_reference lim v"
proof (cases v)
  case (JObj ms)
  define r0 where "r0 = (start data lim)\<lparr>rd_topObject := True\<rparr>"
  have inv: "reader_inv r0" using start_inv [OF wf, of data] by (auto simp: r0_def reader_inv_def good_def clean_flags_def)
  have init: "rd_lim r0 = lim" "rd_values r0 = 0" "\<not> rd_duplicate r0" "\<not> rd_structure r0" "rd_topObject r0" "\<not> rd_formatOK r0"
    "rd_build r0" "rd_chains r0 = []" "rd_nChains r0 = 0" "rd_nEntries r0 = 0" "rd_nCheckpoints r0 = 0"
    by (simp_all add: r0_def start_def newReader_def)
  define x where "x = snd (eff_object eff_skip plain_member KindBundle ms r0)"
  define F where "F = fmt_of (map_of ms ''format'')"
  define missing where "missing \<longleftrightarrow> 1 \<notin> seen_in KindBundle ms"
  have whole: "eff_bundle v (start data lim) = violate_when missing (F x)"
    by (simp add: JObj eff_bundle_def case_prod_beta r0_def [symmetric] missing_def object_seen)
      (simp add: eff_object_def members_fmt x_def F_def)
  have E: "effect (value_count v) (repeats v) (list_ex (member_bad KindBundle bundle_hb) ms)
      (\<lambda>j. sum_list (map (member_count KindBundle bundle_hc j) ms)) r0 x"
    unfolding x_def JObj by (rule eff_object_effect(1) [OF eff_skip_effect plain_member_effect inv])
  note D = effectD [OF E inv]
  have obj: "is_object v" by (simp add: JObj)
  have over: "rd_overValues x \<longleftrightarrow> lm_Values lim < int (value_count v)"
    using D(1-3) init by (simp add: reader_inv_def)
  have fmtv: "rd_formatOK (F x) \<longleftrightarrow> format_ok v"
    unfolding F_def fmt_of_flags D(8) using init by (auto simp: format_ok_def JObj member_at_def split: option.split)
  show ?thesis
  proof (cases "rd_overValues x")
    case True
    with over show ?thesis
      by (simp add: whole answer_def tree_reference_def violate_when_flags fmt_of_flags F_def)
  next
    case no_over: False
    then have dup: "rd_duplicate x \<longleftrightarrow> repeats v" using D(4) init by simp
    show ?thesis
    proof (cases "repeats v")
      case True
      with over no_over dup show ?thesis
        by (simp add: whole answer_def tree_reference_def violate_when_flags fmt_of_flags F_def)
    next
      case no_dup: False
      then have g: "good x" using no_over dup by (simp add: good_def)
      have str: "rd_structure x \<longleftrightarrow> list_ex (member_bad KindBundle bundle_hb) ms" using D(5) [OF g] init by simp
      show ?thesis
      proof (cases "format_ok v")
        case False
        with over no_over dup no_dup fmtv obj D(7) init show ?thesis
          by (simp add: whole answer_def tree_reference_def violate_when_flags F_def fmt_of_flags(1-5))
      next
        case fok: True
        have d: "distinct (map fst ms)" using no_dup by (simp add: JObj)
        have bad: "rd_structure x \<or> missing \<longleftrightarrow> \<not> bundle_ok v"
          using bundle_bad [OF d] fok str by (simp add: JObj missing_def)
        show ?thesis
        proof (cases "bundle_ok v")
          case False
          with over no_over dup no_dup fok fmtv bad show ?thesis
            by (simp add: whole answer_def tree_reference_def violate_when_flags F_def fmt_of_flags(1-5))
        next
          case bok: True
          have s: "\<not> rd_structure x" "\<not> missing" using bad bok by blast+
          have n: "counter j x = counter j r0 + int (sum_list (map (\<lambda>x. chain_counts x j) (chains_in v)))" for j
            using D(6) [OF g s(1), of j] bundle_count [OF d, of j] by (simp add: JObj)
          have cnt: "rd_overCount x \<longleftrightarrow> over_counts lim v"
            using D(1,2) n [of 0] n [of 1] n [of 2] init
            by (simp add: reader_inv_def counter_def chain_counts_def over_counts_def sum_list_triv comp_def)
          show ?thesis
          proof (cases "over_counts lim v")
            case True
            with over no_over dup no_dup fok fmtv bok s cnt show ?thesis
              by (simp add: whole answer_def tree_reference_def violate_when_flags F_def fmt_of_flags(1-5))
          next
            case False
            then have "rd_build x" using D(9) g s(1) cnt init by (simp add: clean_flags_def)
            moreover have "built lim rd_chains (\<lambda>cs. cs @ map (chain_in lim) (chains_in v)) r0 x"
              unfolding x_def JObj by (rule plain_built) (use fok bok no_dup JObj in simp_all)
            ultimately have ch: "rd_chains x = map (chain_in lim) (chains_in v)" using init by (simp add: built_def)
            have "map_of ms ''format'' = Some (JStr FormatID)"
              using fok by (auto simp: format_ok_def JObj member_at_def split: option.splits)
            then have "rd_chains (F x) = rd_chains x" unfolding F_def by (rule fmt_of_flags(7))
            with over no_over dup no_dup fok fmtv bok s cnt ch False show ?thesis
              by (simp add: whole answer_def tree_reference_def violate_when_flags(1-7) F_def fmt_of_flags(1-5))
          qed
        qed
      qed
    qed
  qed
qed (use no_bundle_answer [OF wf, of v data] in \<open>simp_all add: eff_bundle_def del: eff_skip.simps\<close>)


lemma answer_rest [simp]: "answer (r\<lparr>rd_rest := s\<rparr>) = answer r"
  by (simp add: answer_def)

lemma readBundle_answer:
  "readBundle data lim =
     (if lm_BundleBytes lim < int (length data) then Inl ReasonTooLarge
      else case document (start data lim) of None \<Rightarrow> Inl ReasonJSON | Some r \<Rightarrow> answer r)"
  by (simp add: readBundle_def start_def answer_def split: option.split)

lemma readBundle_is_reference:
  assumes "wf_limits lim"
  shows "readBundle data lim = read_reference lim data"
proof -
  have doc: "document (start data lim) = do { (v, s) \<leftarrow> strict (levels lim) data;
      if skip_ws s = [] then Some ((eff_bundle v (start data lim))\<lparr>rd_rest := s\<rparr>) else None }"
    using document_run [of "start data lim"] by (simp add: start_def newReader_def)
  have "(case document (start data lim) of None \<Rightarrow> Inl ReasonJSON | Some r \<Rightarrow> answer r)
      = (case strict_text (levels lim) data of None \<Rightarrow> Inl ReasonJSON | Some v \<Rightarrow> tree_reference lim v)"
    unfolding doc strict_text_def
    by (cases "strict (levels lim) data") (auto simp: eff_bundle_answer [OF assms])
  then show ?thesis unfolding readBundle_answer read_reference_def tree_reference_def by simp
qed

text \<open>C38. For all limits above zero and every input, the one-pass reader of export bundles answers what the rules
  of the bundle format say of the input's tree: too large, not JSON, a repeated name, a wrong format, a
  broken structure, too many chains, entries or checkpoints, in this order of precedence, or else the
  chains that the tree holds.\<close>

theorem readBundle_reference:
  assumes "wf_limits lim"
  shows "readBundle data lim = read_reference lim data"
  by (rule readBundle_is_reference [OF assms])

theorem readBundle_reference_witness:
  "readBundle ''{}'' DefaultLimits = Inl ReasonFormat \<and> readBundle ''[true,1]'' DefaultLimits = Inl ReasonStructure
   \<and> wf_limits DefaultLimits"
proof -
  have l: "levels DefaultLimits = Suc (Suc (levels DefaultLimits - 2))" "int 5 \<le> lm_Values DefaultLimits" "int 100 \<le> lm_BundleBytes DefaultLimits"
    by (simp_all add: levels_def DefaultLimits_def)
  have "strict_text (Suc (Suc n)) ''{}'' = Some (JObj [])" for n
    by code_simp
  then have 1: "strict_text (levels DefaultLimits) ''{}'' = Some (JObj [])" using l(1) by metis
  have "strict_text (Suc (Suc n)) ''[true,1]'' = Some (JArr [JBool True, JNum ''1''])" for n
    by code_simp
  then have 2: "strict_text (levels DefaultLimits) ''[true,1]'' = Some (JArr [JBool True, JNum ''1''])" using l(1) by metis
  show ?thesis
    using readBundle_reference [OF wf_DefaultLimits, of "''{}''"] readBundle_reference [OF wf_DefaultLimits, of "''[true,1]''"] l
    by (simp add: read_reference_def 1 2 format_ok_def member_at_def bundle_ok_def)
qed

end
