(* ===== verification/Export_Verify.thy ===== *)
theory Export_Verify
  imports Export_Reader Chain_Format Commitment Anchor_Core
begin

section \<open>Verifying export bundles: \<open>exportbundle/verify.go\<close> and \<open>result.go\<close>\<close>

text \<open>
  What is checked of each chain of a bundle (the shape of its entries, their links and hashes, erasures,
  disclosed contents, checkpoints, record signatures), what is counted, and the verdict. A problem code
  is a constructor; \<open>code_text\<close> is its text, by which problems are sorted. The signature scheme is the
  wrapper of \<open>Mldsa\<close> over a library \<open>C\<close>. A chain's flags are a record for each entry.
\<close>

subsection \<open>Results\<close>

datatype code =
    DuplicateChain | InvalidChainID | FieldShape | DuplicateEntryID | FirstEntry | Sequence | Link | ChainHashCode
  | EntryTypeCode | ErasureInvalid | AfterErasure | ErasedEventDisclosed | Modified | CheckpointMalformed
  | CheckpointSubject | CheckpointSequence | CheckpointOverreach | CheckpointBinding | CheckpointUnknownKey
  | CheckpointBadSignature | Unsigned | MalformedSignature | UnknownKey | BadSignature

fun code_text :: "code \<Rightarrow> string" where
  "code_text DuplicateChain = ''duplicate-chain''"
| "code_text InvalidChainID = ''invalid-chain-id''"
| "code_text FieldShape = ''field-shape''"
| "code_text DuplicateEntryID = ''duplicate-entry-id''"
| "code_text FirstEntry = ''first-entry''"
| "code_text Sequence = ''sequence''"
| "code_text Link = ''link''"
| "code_text ChainHashCode = ''chain-hash''"
| "code_text EntryTypeCode = ''entry-type''"
| "code_text ErasureInvalid = ''erasure-invalid''"
| "code_text AfterErasure = ''after-erasure''"
| "code_text ErasedEventDisclosed = ''erased-event-disclosed''"
| "code_text Modified = ''modified''"
| "code_text CheckpointMalformed = ''checkpoint-malformed''"
| "code_text CheckpointSubject = ''checkpoint-subject''"
| "code_text CheckpointSequence = ''checkpoint-sequence''"
| "code_text CheckpointOverreach = ''checkpoint-overreach''"
| "code_text CheckpointBinding = ''checkpoint-binding''"
| "code_text CheckpointUnknownKey = ''checkpoint-unknown-key''"
| "code_text CheckpointBadSignature = ''checkpoint-bad-signature''"
| "code_text Unsigned = ''unsigned''"
| "code_text MalformedSignature = ''malformed-signature''"
| "code_text UnknownKey = ''unknown-key''"
| "code_text BadSignature = ''bad-signature''"

datatype verdict = VerdictOK | VerdictUnauthenticated | VerdictFailed

datatype erasure = ErasureNone | ErasureRecorded | ErasureAnchored | ErasureSigned

record problem =
  pb_Code :: code
  pb_Count :: nat
  pb_First :: "nat option"

record counts =
  ct_Entries :: nat
  ct_Events :: nat
  ct_Erasures :: nat
  ct_Opened :: nat
  ct_Committed :: nat
  ct_Erased :: nat
  ct_Checkpoints :: nat
  ct_Unanchored :: nat
  ct_Authenticated :: nat
  ct_Unauthenticated :: nat
  ct_CheckpointAuthenticated :: nat
  ct_RecordAuthenticated :: nat
  ct_RecordSignaturesPresent :: nat

record chain_result =
  cr_Key :: string
  cr_Verdict :: verdict
  cr_Erasure :: erasure
  cr_Counts :: counts
  cr_Problems :: "problem list"

text \<open>A bundle that could not be read has a reason and nothing else of the result; both trust
  dimensions are told in either case.\<close>

record bundle_result =
  br_Reason :: "reason option"
  br_CheckpointTrust :: bool
  br_RecordTrust :: bool
  br_Verdict :: verdict
  br_BundleProblems :: "problem list"
  br_Chains :: "chain_result list"

datatype exit_code = ExitOK | ExitFailed | ExitUnreadable | ExitUnauthenticated

fun exit_number :: "exit_code \<Rightarrow> int" where
  "exit_number ExitOK = 0" | "exit_number ExitFailed = 1" | "exit_number ExitUnreadable = 3"
| "exit_number ExitUnauthenticated = 4"

definition ExitCode :: "bundle_result \<Rightarrow> exit_code" where
  "ExitCode r =
     (if br_Reason r \<noteq> None then ExitUnreadable
      else case br_Verdict r of
        VerdictOK \<Rightarrow> ExitOK | VerdictFailed \<Rightarrow> ExitFailed | VerdictUnauthenticated \<Rightarrow> ExitUnauthenticated)"

definition worse :: "verdict \<Rightarrow> verdict \<Rightarrow> verdict" where
  "worse a b =
     (if a = VerdictFailed \<or> b = VerdictFailed then VerdictFailed
      else if a = VerdictUnauthenticated \<or> b = VerdictUnauthenticated then VerdictUnauthenticated
      else VerdictOK)"

text \<open>A tally of problems: one line for each code, with how many there were and the lowest index.\<close>

fun tally_add :: "code \<Rightarrow> nat \<Rightarrow> problem list \<Rightarrow> problem list" where
  "tally_add code index [] = [\<lparr>pb_Code = code, pb_Count = 1, pb_First = Some index\<rparr>]"
| "tally_add code index (p # ps) =
     (if pb_Code p = code
      then p\<lparr>pb_Count := pb_Count p + 1,
             pb_First := map_option (\<lambda>f. if index < f then index else f) (pb_First p)\<rparr> # ps
      else p # tally_add code index ps)"

definition addNoIndex :: "code \<Rightarrow> problem list \<Rightarrow> problem list" where
  "addNoIndex code ps = ps @ [\<lparr>pb_Code = code, pb_Count = 1, pb_First = None\<rparr>]"

definition tally_sorted :: "problem list \<Rightarrow> problem list" where
  "tally_sorted ps = sort_key (\<lambda>p. code_text (pb_Code p)) ps"

definition add_when :: "bool \<Rightarrow> code \<Rightarrow> nat \<Rightarrow> problem list \<Rightarrow> problem list" where
  "add_when b code index ps = (if b then tally_add code index ps else ps)"

subsection \<open>Entries\<close>

definition typeEvent :: string where "typeEvent = ''sink.event''"
definition typeErasure :: string where "typeErasure = ''sink.erasure''"
definition erasureDomain :: string where "erasureDomain = ''aleutian.sink.erasure.v1:''"
definition recordDomain :: string where "recordDomain = ''aleutian.proof.record.v1''"

text \<open>The text of an erasure record, which has quotes in it.\<close>

definition quoted :: "string \<Rightarrow> string" where "quoted s = CHR 0x22 # s @ [CHR 0x22]"

definition erasureRecord :: "string \<Rightarrow> string" where
  "erasureRecord seq =
     ''{'' @ quoted ''erased'' @ '':'' @ quoted ''every earlier event on this chain'' @ '','' @
     quoted ''through_global_seq'' @ '':'' @ quoted seq @ ''}''"

definition erasureHash :: "string \<Rightarrow> string" where
  "erasureHash previousSeq = hex_sha512 (erasureDomain @ erasureRecord previousSeq)"

definition is_global_seq :: "string \<Rightarrow> bool" where
  "is_global_seq s \<longleftrightarrow>
     s = ''0'' \<or> (s \<noteq> [] \<and> list_all is_digit s \<and> hd s \<noteq> CHR ''0'' \<and> length s \<le> 19)"

definition parseGlobalSeq :: "string \<Rightarrow> int option" where
  "parseGlobalSeq s = (if is_global_seq s then parse_int64 s else None)"

definition timestamp_shape :: "(char \<Rightarrow> bool) list" where
  "timestamp_shape =
     replicate 4 is_digit @ [(=) (CHR ''-'')] @ replicate 2 is_digit @ [(=) (CHR ''-'')] @ replicate 2 is_digit
     @ [(=) (CHR ''T'')] @ replicate 2 is_digit @ [(=) (CHR '':'')] @ replicate 2 is_digit @ [(=) (CHR '':'')]
     @ replicate 2 is_digit @ [(=) (CHR ''.'')] @ replicate 6 is_digit @ [(=) (CHR ''Z'')]"

text \<open>\<open>s[from:to]\<close> as a number.\<close>

definition num_at :: "string \<Rightarrow> nat \<Rightarrow> nat \<Rightarrow> nat" where
  "num_at s from until = dec_val (take (until - from) (drop from s))"

definition parseTimestamp :: "string \<Rightarrow> gotime option" where
  "parseTimestamp s =
     (if \<not> list_all2 (\<lambda>p c. p c) timestamp_shape s then None
      else
        let year = num_at s 0 4; month = num_at s 5 7; day = num_at s 8 10;
            hour = num_at s 11 13; minute = num_at s 14 16; second = num_at s 17 19; micro = num_at s 20 26
        in if year < 1 \<or> month < 1 \<or> month > 12 \<or> day < 1 \<or> hour > 23 \<or> minute > 59 \<or> second > 59 then None
           else
             let t = go_date (int year) month (int day) (int hour) (int minute) (int second) (micro * 1000)
             in if snd (snd (utc_date t)) \<noteq> int day then None else Some t)"

text \<open>The sequence number and the time, when the entry is in shape.\<close>

definition entryShape :: "raw_entry \<Rightarrow> (int \<times> gotime) option" where
  "entryShape e =
     (case (parseTimestamp (re_Timestamp e), parseGlobalSeq (re_GlobalSeq e)) of
        (Some ts, Some seq) \<Rightarrow>
          if is_entry_id (re_EntryID e) \<and>
             (re_PreviousHash e = [] \<or> is_hex 128 (re_PreviousHash e)) \<and>
             is_hex 128 (re_ContentHash e) \<and> is_hex 128 (re_ChainHash e)
          then Some (seq, ts) else None
      | _ \<Rightarrow> None)"

definition disclosedShape :: "raw_pair \<Rightarrow> bool" where
  "disclosedShape d \<longleftrightarrow>
     is_hex 64 (rp_b d) \<and> rp_a d \<noteq> [] \<and> length (rp_a d) \<le> disclosedCaps ! 0 \<and>
     (case decodeCanonicalBase64 (rp_a d) of
        None \<Rightarrow> False | Some content \<Rightarrow> 1 \<le> length content \<and> length content \<le> 65536)"

definition opens :: "raw_entry \<Rightarrow> bool" where
  "opens e =
     (case re_Disclosed e of
        None \<Rightarrow> False
      | Some d \<Rightarrow>
          (case (decodeCanonicalBase64 (rp_a d), hex_decode (rp_b d)) of
             (Some content, Some nonce) \<Rightarrow> Commitment.Verify (re_ContentHash e) nonce content
           | _ \<Rightarrow> False))"

text \<open>What the first pass over the entries keeps of each, and of the chain.\<close>

record entry_flags =
  es_seq :: int
  es_wellFormed :: bool
  es_event :: bool
  es_erasure :: bool
  es_disclosedBad :: bool
  es_holdsErasure :: bool

record scan =
  sc_ids :: "string list"
  sc_firstMalformed :: "nat option"
  sc_lastErasure :: "nat option"
  sc_problems :: "problem list"

definition entry_state :: "raw_entry \<Rightarrow> (raw_entry \<times> entry_flags) option \<Rightarrow> entry_flags" where
  "entry_state e prev =
     (let event = re_EntryType e = typeEvent; shape = entryShape e in
      \<lparr>es_seq = (case shape of None \<Rightarrow> 0 | Some (seq, ts) \<Rightarrow> seq),
       es_wellFormed = (shape \<noteq> None),
       es_event = event,
       es_erasure = (re_EntryType e = typeErasure),
       es_disclosedBad = (case re_Disclosed e of None \<Rightarrow> False | Some d \<Rightarrow> \<not> event \<or> \<not> disclosedShape d),
       es_holdsErasure =
         (case prev of
            None \<Rightarrow> False
          | Some (p, s) \<Rightarrow> shape \<noteq> None \<and> es_wellFormed s \<and> re_ContentHash e = erasureHash (re_GlobalSeq p))\<rparr>)"

definition maxSeq :: int where "maxSeq = 2 ^ 63 - 1"

text \<open>The body of the first loop, for the entry at \<open>i\<close> with the entry before it.\<close>

definition scan_entry :: "nat \<Rightarrow> (raw_entry \<times> entry_flags) option \<Rightarrow> raw_entry \<Rightarrow> scan \<Rightarrow> scan" where
  "scan_entry i prev e sc =
     (let st = entry_state e prev;
          ps = add_when (\<not> es_wellFormed st \<or> es_disclosedBad st) FieldShape i (sc_problems sc);
          repeated = re_EntryID e \<in> set (sc_ids sc);
          ps = add_when repeated DuplicateEntryID i ps;
          ids = (if \<not> repeated \<and> es_wellFormed st then re_EntryID e # sc_ids sc else sc_ids sc)
      in case entryShape e of
        None \<Rightarrow>
          sc\<lparr>sc_ids := ids, sc_problems := ps,
             sc_firstMalformed := (case sc_firstMalformed sc of None \<Rightarrow> Some i | Some j \<Rightarrow> Some (min j i))\<rparr>
      | Some (seq, ts) \<Rightarrow>
          let ps = (case prev of
                None \<Rightarrow> add_when (re_GlobalSeq e \<noteq> ''0'' \<or> re_PreviousHash e \<noteq> []) FirstEntry i ps
              | Some (p, s) \<Rightarrow>
                  if \<not> es_wellFormed s then ps
                  else add_when (re_PreviousHash e \<noteq> re_ChainHash p) Link i
                         (add_when (es_seq s = maxSeq \<or> seq \<noteq> es_seq s + 1) Sequence i ps));
              ps = add_when (ComputeChainHashV3Unchecked (re_PreviousHash e) seq ts (re_ContentHash e) \<noteq> re_ChainHash e)
                     ChainHashCode i ps
          in sc\<lparr>sc_ids := ids, sc_problems := ps,
                sc_lastErasure := (if es_holdsErasure st then Some i else sc_lastErasure sc)\<rparr>)"

fun scan_entries ::
  "nat \<Rightarrow> (raw_entry \<times> entry_flags) option \<Rightarrow> raw_entry list \<Rightarrow> scan \<Rightarrow> entry_flags list \<times> scan" where
  "scan_entries i prev [] sc = ([], sc)"
| "scan_entries i prev (e # es) sc =
     (let st = entry_state e prev;
          (sts, sc) = scan_entries (Suc i) (Some (e, st)) es (scan_entry i prev e sc)
      in (st # sts, sc))"

text \<open>The second loop: what each entry is, given where the last erasure is.\<close>

datatype outcome = Skipped | Problem code | GenuineErasure | Erased | Opened | Committed

definition classify :: "nat option \<Rightarrow> nat \<Rightarrow> raw_entry \<Rightarrow> entry_flags \<Rightarrow> outcome" where
  "classify lastErasure i e st =
     (if \<not> es_wellFormed st then Skipped
      else if (case lastErasure of None \<Rightarrow> False | Some j \<Rightarrow> j < i) then Problem AfterErasure
      else if es_disclosedBad st then Skipped
      else if es_holdsErasure st \<and> es_erasure st then GenuineErasure
      else if es_holdsErasure st \<or> es_erasure st then Problem ErasureInvalid
      else if \<not> es_event st then Problem EntryTypeCode
      else if lastErasure \<noteq> None \<and> re_Disclosed e = None then Erased
      else if lastErasure \<noteq> None then Problem ErasedEventDisclosed
      else if re_Disclosed e = None then Committed
      else if opens e then Opened
      else Problem Modified)"

fun add_outcome :: "nat \<Rightarrow> outcome \<Rightarrow> problem list \<Rightarrow> problem list" where
  "add_outcome i (Problem code) ps = tally_add code i ps"
| "add_outcome i _ ps = ps"

definition outcomes :: "nat option \<Rightarrow> raw_entry list \<Rightarrow> entry_flags list \<Rightarrow> outcome list" where
  "outcomes lastErasure es sts =
     map (\<lambda>(i, e, st). classify lastErasure i e st) (zip [0..<length es] (zip es sts))"

subsection \<open>Checkpoints\<close>

type_synonym keys = "(string \<times> bytes) list"

record verifier =
  vf_checkpointKeys :: keys
  vf_recordKeys :: keys

datatype internal_error = ChainHashRefused anchor_error | CanonicalRefused anchor_error

definition checkpoint_anchor :: "checkpoint \<Rightarrow> anchor" where
  "checkpoint_anchor ck =
     \<lparr>an_Version = int (ck_Version ck), an_AnchorID = ck_AnchorID ck, an_Subject = ck_Subject ck,
      an_ChainHash = ck_ChainHash ck, an_Range = \<lparr>StartEntryID = ck_RangeStart ck, EndEntryID = ck_RangeEnd ck\<rparr>,
      an_EntryCount = int (ck_EntryCount ck), an_Signature = [], an_SigningKeyID = ck_SigningKeyID ck,
      an_CreatedAtMs = int (ck_CreatedAtMs ck), an_PreviousAnchorID = ck_PreviousAnchorID ck,
      an_VerifiedThrough = int (ck_VerifiedThrough ck)\<rparr>"

text \<open>What a checkpoint follows: the id, the anchor hash and the count of the one before it.\<close>

type_synonym previous = "string \<times> string \<times> nat"

definition seed_previous :: previous where "seed_previous = (SeedAnchorID, SeedAnchorHash, 0)"

definition previous_of :: "checkpoint \<Rightarrow> previous" where
  "previous_of ck = (ck_AnchorID ck, ck_ChainHash ck, ck_EntryCount ck)"

definition checkCheckpoint ::
  "circl \<Rightarrow> keys \<Rightarrow> raw_chain \<Rightarrow> bool \<Rightarrow> nat \<Rightarrow> previous \<Rightarrow> bytes option \<Rightarrow> internal_error + code + checkpoint" where
  "checkCheckpoint C keys c valid firstMalformed prev content =
     (let n = length (rc_Entries c); (previousID, previousHash, previousCount) = prev in
      case parseCheckpoint content of
        None \<Rightarrow> Inr (Inl CheckpointMalformed)
      | Some ck \<Rightarrow>
          if \<not> valid \<or> ck_Subject ck \<noteq> rc_ID c then Inr (Inl CheckpointSubject)
          else if ck_PreviousAnchorID ck \<noteq> previousID \<or> ck_EntryCount ck \<le> previousCount
          then Inr (Inl CheckpointSequence)
          else if n < ck_EntryCount ck then Inr (Inl CheckpointOverreach)
          else
            let cnt = ck_EntryCount ck; tip = rc_Entries c ! (cnt - 1) in
            if firstMalformed < cnt \<or> ck_RangeStart ck \<noteq> re_EntryID (rc_Entries c ! 0) \<or> ck_RangeEnd ck \<noteq> re_EntryID tip
            then Inr (Inl CheckpointBinding)
            else case ChainHash_anchor previousHash (rc_ID c) (ck_RangeStart ck) (ck_RangeEnd ck) (re_ChainHash tip) of
              Inl err \<Rightarrow> Inl (ChainHashRefused err)
            | Inr want \<Rightarrow>
                if want \<noteq> ck_ChainHash ck then Inr (Inl CheckpointBinding)
                else if keys = [] then Inr (Inr ck)
                else case map_of keys (ck_SigningKeyID ck) of
                  None \<Rightarrow> Inr (Inl CheckpointUnknownKey)
                | Some key \<Rightarrow>
                    (case Canonicalize (checkpoint_anchor ck) of
                       Inl err \<Rightarrow> Inl (CanonicalRefused err)
                     | Inr canonical \<Rightarrow>
                         if Verify_mldsa C MLDSA65 key canonical (ck_Signature ck) \<noteq> None
                         then Inr (Inl CheckpointBadSignature) else Inr (Inr ck)))"

text \<open>The loop over the checkpoints: the ones that passed, and the first that did not.\<close>

fun checkCheckpoints ::
  "circl \<Rightarrow> keys \<Rightarrow> raw_chain \<Rightarrow> bool \<Rightarrow> nat \<Rightarrow> previous \<Rightarrow> bytes option list \<Rightarrow>
     internal_error + checkpoint list \<times> code option" where
  "checkCheckpoints C keys c valid firstMalformed prev [] = Inr ([], None)"
| "checkCheckpoints C keys c valid firstMalformed prev (content # cs) =
     (case checkCheckpoint C keys c valid firstMalformed prev content of
        Inl err \<Rightarrow> Inl err
      | Inr (Inl code) \<Rightarrow> Inr ([], Some code)
      | Inr (Inr ck) \<Rightarrow>
          map_sum id (\<lambda>(cks, p). (ck # cks, p)) (checkCheckpoints C keys c valid firstMalformed (previous_of ck) cs))"

subsection \<open>Record signatures\<close>

fun envelope_fields :: "nat \<Rightarrow> string list \<Rightarrow> bytes" where
  "envelope_fields i [] = []"
| "envelope_fields i (v # vs) = char_of i # be_bytes 4 (length v) @ v @ envelope_fields (Suc i) vs"

definition recordEnvelope :: "string \<Rightarrow> raw_entry \<Rightarrow> string \<Rightarrow> bytes" where
  "recordEnvelope chain_id e keyID =
     recordDomain @ [CHR 0x00] @ envelope_fields 1
       [chain_id, re_EntryID e, re_EntryType e, re_GlobalSeq e, re_PreviousHash e, re_Timestamp e, re_ContentHash e, keyID]"

definition checkRecordSignature ::
  "circl \<Rightarrow> keys \<Rightarrow> string \<Rightarrow> bool \<Rightarrow> raw_entry \<Rightarrow> entry_flags \<Rightarrow> code option" where
  "checkRecordSignature C keys chain_id valid e st =
     (case re_Sig e of
        None \<Rightarrow> Some Unsigned
      | Some sig \<Rightarrow>
          (case (if is_hex 32 (rp_a sig) then decodeCanonicalBase64 (rp_b sig) else None) of
             None \<Rightarrow> Some MalformedSignature
           | Some signature \<Rightarrow>
               if length signature \<noteq> signatureSize then Some MalformedSignature
               else case map_of keys (rp_a sig) of
                 None \<Rightarrow> Some UnknownKey
               | Some key \<Rightarrow>
                   if \<not> es_wellFormed st \<or> \<not> valid \<or> \<not> (es_event st \<or> es_erasure st) \<or>
                      (re_PreviousHash e = []) \<noteq> (re_GlobalSeq e = ''0'')
                   then Some BadSignature
                   else if Verify_mldsa C MLDSA65 key (recordEnvelope chain_id e (rp_a sig)) signature \<noteq> None
                   then Some BadSignature else None))"

subsection \<open>A chain\<close>

fun add_codes :: "nat \<Rightarrow> code option list \<Rightarrow> problem list \<Rightarrow> problem list" where
  "add_codes i [] ps = ps"
| "add_codes i (None # cs) ps = add_codes (Suc i) cs ps"
| "add_codes i (Some code # cs) ps = add_codes (Suc i) cs (tally_add code i ps)"

fun add_outcomes :: "nat \<Rightarrow> outcome list \<Rightarrow> problem list \<Rightarrow> problem list" where
  "add_outcomes i [] ps = ps"
| "add_outcomes i (out # os) ps = add_outcomes (Suc i) os (add_outcome i out ps)"

definition tally_of :: "('a \<Rightarrow> bool) \<Rightarrow> 'a list \<Rightarrow> nat" where
  "tally_of p xs = length (filter p xs)"

definition checkChain :: "circl \<Rightarrow> verifier \<Rightarrow> raw_chain \<Rightarrow> internal_error + chain_result \<times> bool" where
  "checkChain C v c =
     (let entries = rc_Entries c; n = length entries;
          valid = is_chain_id (rc_ID c);
          ps = (if \<not> valid then addNoIndex InvalidChainID [] else []);
          (sts, sc) = scan_entries 0 None entries
            \<lparr>sc_ids = [], sc_firstMalformed = None, sc_lastErasure = None, sc_problems = ps\<rparr>;
          lastErasure = sc_lastErasure sc;
          firstMalformed = (case sc_firstMalformed sc of None \<Rightarrow> n | Some i \<Rightarrow> i);
          outs = outcomes lastErasure entries sts;
          ps = add_outcomes 0 outs (sc_problems sc) in
      case checkCheckpoints C (vf_checkpointKeys v) c valid firstMalformed seed_previous (rc_Checkpoints c) of
        Inl err \<Rightarrow> Inl err
      | Inr (cks, bad) \<Rightarrow>
          let ps = (case bad of None \<Rightarrow> ps | Some code \<Rightarrow> tally_add code (length cks) ps);
              covered = (if cks = [] then 0 else ck_EntryCount (last cks));
              recordTrust = vf_recordKeys v \<noteq> [];
              recs = map (\<lambda>(e, st). checkRecordSignature C (vf_recordKeys v) (rc_ID c) valid e st) (zip entries sts);
              ps = (if recordTrust then add_codes 0 recs ps else ps);
              checkpointTrust = vf_checkpointKeys v \<noteq> [];
              byCheckpoint = map (\<lambda>(i, st). checkpointTrust \<and> i < covered \<and> es_wellFormed st) (zip [0..<n] sts);
              byRecord = map (\<lambda>r. recordTrust \<and> r = None) recs;
              authenticated = tally_of (\<lambda>(a, b). a \<or> b) (zip byCheckpoint byRecord);
              problems = tally_sorted ps;
              erasure = (case lastErasure of
                  None \<Rightarrow> ErasureNone
                | Some j \<Rightarrow>
                    if outs ! j \<noteq> GenuineErasure then ErasureNone
                    else if problems \<noteq> [] then ErasureRecorded
                    else if checkpointTrust \<and> j < covered then ErasureAnchored
                    else if byRecord ! j then ErasureSigned
                    else ErasureRecorded)
          in Inr (\<lparr>cr_Key = rc_ID c,
                   cr_Verdict = (if problems \<noteq> [] then VerdictFailed
                                 else if 0 < n - authenticated then VerdictUnauthenticated else VerdictOK),
                   cr_Erasure = erasure,
                   cr_Counts =
                     \<lparr>ct_Entries = n,
                      ct_Events = tally_of es_event sts,
                      ct_Erasures = tally_of (\<lambda>x. x = GenuineErasure) outs,
                      ct_Opened = tally_of (\<lambda>x. x = Opened) outs,
                      ct_Committed = tally_of (\<lambda>x. x = Committed) outs,
                      ct_Erased = tally_of (\<lambda>x. x = Erased) outs,
                      ct_Checkpoints = length cks,
                      ct_Unanchored = n - covered,
                      ct_Authenticated = authenticated,
                      ct_Unauthenticated = n - authenticated,
                      ct_CheckpointAuthenticated = tally_of (\<lambda>b. b) byCheckpoint,
                      ct_RecordAuthenticated = tally_of (\<lambda>b. b) byRecord,
                      ct_RecordSignaturesPresent = tally_of (\<lambda>e. re_Sig e \<noteq> None) entries\<rparr>,
                   cr_Problems = problems\<rparr>, valid))"

subsection \<open>A bundle\<close>

record public_key =
  pk_id :: string
  pk_raw :: bytes

record trust =
  tr_Checkpoint :: "public_key list"
  tr_Record :: "public_key list"

text \<open>A key without an id is none; of two keys with one id the later one stays.\<close>

definition keySet :: "public_key list \<Rightarrow> keys" where
  "keySet ks = rev (map (\<lambda>k. (pk_id k, pk_raw k)) (filter (\<lambda>k. pk_id k \<noteq> []) ks))"

fun duplicate_chains :: "nat \<Rightarrow> string list \<Rightarrow> raw_chain list \<Rightarrow> problem list \<Rightarrow> problem list" where
  "duplicate_chains i seen [] ps = ps"
| "duplicate_chains i seen (c # cs) ps =
     duplicate_chains (Suc i) (rc_ID c # seen) cs (add_when (rc_ID c \<in> set seen) DuplicateChain i ps)"

fun check_chains ::
  "circl \<Rightarrow> verifier \<Rightarrow> (string \<Rightarrow> bool) \<Rightarrow> nat \<Rightarrow> raw_chain list \<Rightarrow> nat \<times> internal_error + chain_result list" where
  "check_chains C v copied i [] = Inr []"
| "check_chains C v copied i (c # cs) =
     (case checkChain C v c of
        Inl err \<Rightarrow> Inl (i, err)
      | Inr (cr, valid) \<Rightarrow>
          map_sum id ((#) (if \<not> valid \<or> copied (rc_ID c) then cr\<lparr>cr_Key := CHR ''#'' # dec_nat i\<rparr> else cr))
            (check_chains C v copied (Suc i) cs))"

definition VerifyWithLimits :: "circl \<Rightarrow> bytes \<Rightarrow> trust \<Rightarrow> limits \<Rightarrow> nat \<times> internal_error + bundle_result" where
  "VerifyWithLimits C bundle tr limits =
     (let v = \<lparr>vf_checkpointKeys = keySet (tr_Checkpoint tr), vf_recordKeys = keySet (tr_Record tr)\<rparr>;
          res = \<lparr>br_Reason = None, br_CheckpointTrust = (vf_checkpointKeys v \<noteq> []),
                 br_RecordTrust = (vf_recordKeys v \<noteq> []), br_Verdict = VerdictOK, br_BundleProblems = [], br_Chains = []\<rparr>
      in case readBundle bundle (withDefaults limits) of
        Inl reason \<Rightarrow> Inr (res\<lparr>br_Reason := Some reason\<rparr>)
      | Inr read \<Rightarrow>
          let bundleProblems = tally_sorted (duplicate_chains 0 [] read []);
              start = (if read = [] then VerdictUnauthenticated else VerdictOK);
              copied = (\<lambda>i. 1 < tally_of (\<lambda>c. rc_ID c = i) read)
          in map_sum id
               (\<lambda>crs. res\<lparr>br_BundleProblems := bundleProblems, br_Chains := crs,
                          br_Verdict := (if bundleProblems \<noteq> [] then VerdictFailed
                                         else fold (\<lambda>cr w. worse w (cr_Verdict cr)) crs start)\<rparr>)
               (check_chains C v copied 0 read))"

definition Verify_bundle :: "circl \<Rightarrow> bytes \<Rightarrow> trust \<Rightarrow> nat \<times> internal_error + bundle_result" where
  "Verify_bundle C bundle tr = VerifyWithLimits C bundle tr DefaultLimits"

end
