(* ===== verification/Export_Sound.thy ===== *)
theory Export_Sound
  imports Export_Verify "HOL-Library.Multiset"
begin

section \<open>What the verdict on an export bundle says\<close>

text \<open>
  Verification never ends in an internal error (\<open>verify_returns\<close>): what the parser and the shape checks let
  through, the hash and the canonical form of an anchor take. The counts of a result fit together
  (\<open>result_well_formed\<close>). A chain has no problem exactly when it keeps the rules of the format, written
  here over its entries (\<open>chain_clean_iff\<close>); so the verdict OK says that every chain does, and that each
  entry is under a checkpoint or a record signature that verifies (\<open>verdict_ok_sound\<close>).
\<close>

subsection \<open>The first loop\<close>

lemma tally_add_not_empty [simp]: "tally_add code i ps \<noteq> []"
  by (cases ps) simp_all

lemma add_when_empty [simp]: "add_when b code i ps = [] \<longleftrightarrow> \<not> b \<and> ps = []"
  by (simp add: add_when_def)

lemma scan_entries_length: "length (fst (scan_entries i prev es sc)) = length es"
  by (induction es arbitrary: i prev sc) (simp_all add: Let_def case_prod_beta)

lemma well_formed_shape: "es_wellFormed (entry_state e prev) \<longleftrightarrow> entryShape e \<noteq> None"
  by (simp add: entry_state_def Let_def)

lemma entry_state_type: "es_event (entry_state e prev) \<longleftrightarrow> re_EntryType e = typeEvent"
  "es_erasure (entry_state e prev) \<longleftrightarrow> re_EntryType e = typeErasure"
  "es_disclosedBad (entry_state e prev) \<longleftrightarrow>
    (case re_Disclosed e of None \<Rightarrow> False | Some d \<Rightarrow> re_EntryType e \<noteq> typeEvent \<or> \<not> disclosedShape d)"
  "es_seq (entry_state e prev) = (case entryShape e of None \<Rightarrow> 0 | Some (seq, ts) \<Rightarrow> seq)"
  by (simp_all add: entry_state_def Let_def)

text \<open>The state of each entry.\<close>

lemma scan_entries_nth:
  assumes "k < length es"
  shows "fst (scan_entries i prev es sc) ! k =
    entry_state (es ! k) (if k = 0 then prev else Some (es ! (k - 1), fst (scan_entries i prev es sc) ! (k - 1)))"
  using assms
proof (induction es arbitrary: i prev sc k)
  case (Cons e es)
  show ?case
  proof (cases k)
    case 0
    then show ?thesis by (simp add: Let_def case_prod_beta)
  next
    case (Suc m)
    let ?sc = "scan_entry i prev e sc" and ?st = "entry_state e prev"
    have "fst (scan_entries (Suc i) (Some (e, ?st)) es ?sc) ! m = entry_state (es ! m)
        (if m = 0 then Some (e, ?st) else Some (es ! (m - 1), fst (scan_entries (Suc i) (Some (e, ?st)) es ?sc) ! (m - 1)))"
      by (rule Cons.IH) (use Cons.prems Suc in simp)
    then show ?thesis using Suc by (cases m) (simp_all add: Let_def case_prod_beta)
  qed
qed simp

lemma scan_well_formed:
  "k < length es \<Longrightarrow> es_wellFormed (fst (scan_entries i prev es sc) ! k) \<longleftrightarrow> entryShape (es ! k) \<noteq> None"
  by (simp add: scan_entries_nth well_formed_shape)

text \<open>The first entry out of shape.\<close>

lemma scan_entry_first: "sc_firstMalformed (scan_entry i prev e sc) =
    (if entryShape e = None then (case sc_firstMalformed sc of None \<Rightarrow> Some i | Some j \<Rightarrow> Some (min j i))
     else sc_firstMalformed sc)"
  by (auto simp: scan_entry_def Let_def split: option.split prod.split)

lemma scan_first_before:
  assumes "k < length es" "\<And>j. sc_firstMalformed (snd (scan_entries i prev es sc)) = Some j \<Longrightarrow> i + k < j"
  shows "entryShape (es ! k) \<noteq> None"
  using assms
proof (induction es arbitrary: i prev sc k)
  case (Cons e es)
  let ?sc = "scan_entry i prev e sc" and ?st = "entry_state e prev"
  have whole: "snd (scan_entries i prev (e # es) sc) = snd (scan_entries (Suc i) (Some (e, ?st)) es ?sc)"
    by (simp add: Let_def case_prod_beta)
  have keep: "\<exists>j \<le> m. sc_firstMalformed (snd (scan_entries i' prev' es' sc')) = Some j"
    if "sc_firstMalformed sc' = Some m" for i' prev' es' sc' m
    using that
  proof (induction es' arbitrary: i' prev' sc' m)
    case (Cons e' es')
    have "\<exists>j \<le> m. sc_firstMalformed (scan_entry i' prev' e' sc') = Some j"
      using Cons.prems by (cases "entryShape e' = None") (simp_all add: scan_entry_first)
    then obtain j where "j \<le> m" "sc_firstMalformed (scan_entry i' prev' e' sc') = Some j" by blast
    moreover from Cons.IH [OF this(2), of "Suc i'" "Some (e', entry_state e' prev')"] obtain j'
      where "j' \<le> j" "sc_firstMalformed (snd (scan_entries i' prev' (e' # es') sc')) = Some j'"
      by (auto simp: Let_def case_prod_beta)
    ultimately show ?case by (meson le_trans)
  qed simp
  show ?case
  proof (cases k)
    case 0
    show ?thesis
    proof
      assume "entryShape ((e # es) ! k) = None"
      then have "\<exists>m \<le> i. sc_firstMalformed ?sc = Some m" using 0 by (auto simp: scan_entry_first split: option.split)
      then obtain m where "m \<le> i" "sc_firstMalformed ?sc = Some m" by blast
      from keep [OF this(2), of "Suc i" "Some (e, ?st)" es] obtain j
        where "j \<le> m" "sc_firstMalformed (snd (scan_entries i prev (e # es) sc)) = Some j" unfolding whole by blast
      with Cons.prems(2) [of j] \<open>m \<le> i\<close> show False by simp
    qed
  next
    case (Suc m)
    have "entryShape (es ! m) \<noteq> None"
    proof (rule Cons.IH)
      show "m < length es" using Cons.prems(1) Suc by simp
      show "Suc i + m < j" if "sc_firstMalformed (snd (scan_entries (Suc i) (Some (e, ?st)) es ?sc)) = Some j" for j
        using Cons.prems(2) [of j] that Suc unfolding whole by simp
    qed
    then show ?thesis using Suc by simp
  qed
qed simp

subsection \<open>No internal error\<close>

lemma no_bar_hex: "is_hex n s \<Longrightarrow> CHR ''|'' \<notin> set s"
  by (auto simp: is_hex_def list_all_iff is_lower_hex_def is_digit_def byte_in_def)

lemma no_bar_entry_id: "is_entry_id s \<Longrightarrow> CHR ''|'' \<notin> set s"
proof -
  assume i: "is_entry_id s"
  have "set s = set (take 5 s) \<union> set (drop 5 s)" by (metis append_take_drop_id set_append)
  with i no_bar_hex [of 32 "drop 5 s"] show ?thesis by (auto simp: is_entry_id_def)
qed

lemma parseCheckpoint_shape: "parseCheckpoint content = Some ck \<Longrightarrow> checkpoint_shape ck"
  by (auto simp: parseCheckpoint_def Let_def require_def bind_eq_Some_conv split: if_splits)

lemma shape_tip: "entryShape e \<noteq> None \<Longrightarrow> is_hex 128 (re_ChainHash e)"
  by (auto simp: entryShape_def split: option.splits if_splits)

lemma seed_no_bar: "CHR ''|'' \<notin> set SeedAnchorHash"
  by (simp add: SeedAnchorHash_def)


lemma checkCheckpoint_returns:
  assumes bar: "CHR ''|'' \<notin> set (fst (snd prev))"
    and shape: "\<And>k. k < length (rc_Entries c) \<Longrightarrow> k < firstMalformed \<Longrightarrow> entryShape (rc_Entries c ! k) \<noteq> None"
  shows "\<exists>x. checkCheckpoint C keys c valid firstMalformed prev content = Inr x"
proof (cases "parseCheckpoint content")
  case None
  then show ?thesis by (simp add: checkCheckpoint_def case_prod_beta)
next
  case (Some ck)
  note s = parseCheckpoint_shape [OF Some, unfolded checkpoint_shape_def]
  let ?cnt = "ck_EntryCount ck"
  let ?tip = "rc_Entries c ! (?cnt - 1)"
  obtain previousID previousHash previousCount where prev: "prev = (previousID, previousHash, previousCount)" by (cases prev)
  have canonical: "\<exists>b. Canonicalize (checkpoint_anchor ck) = Inr b"
    using s by (simp add: Canonicalize_def checkpoint_anchor_def MinVersion_def WithdrawnVersion_def SubjectVersion_def)
  have hash: "\<exists>h. ChainHash_anchor previousHash (rc_ID c) (ck_RangeStart ck) (ck_RangeEnd ck) (re_ChainHash ?tip) = Inr h"
    if "ck_Subject ck = rc_ID c" "?cnt \<le> length (rc_Entries c)" "\<not> firstMalformed < ?cnt"
  proof -
    have "1 \<le> ?cnt" using s by blast
    then have "?cnt - 1 < length (rc_Entries c)" "?cnt - 1 < firstMalformed" using that by linarith+
    then have "entryShape ?tip \<noteq> None" by (rule shape)
    then have "CHR ''|'' \<notin> set (re_ChainHash ?tip)" using no_bar_hex shape_tip by blast
    moreover have "CHR ''|'' \<notin> set (rc_ID c)" using s that(1) by (simp add: is_label_def)
    moreover have "CHR ''|'' \<notin> set (ck_RangeStart ck)" "CHR ''|'' \<notin> set (ck_RangeEnd ck)" using s no_bar_entry_id by blast+
    ultimately show ?thesis using bar unfolding ChainHash_iff by (simp add: prev)
  qed
  show ?thesis
  proof (cases "ck_Subject ck = rc_ID c \<and> ?cnt \<le> length (rc_Entries c) \<and> \<not> firstMalformed < ?cnt")
    case True
    from hash [of] True obtain h
      where "ChainHash_anchor previousHash (rc_ID c) (ck_RangeStart ck) (ck_RangeEnd ck) (re_ChainHash ?tip) = Inr h" by blast
    moreover obtain b where "Canonicalize (checkpoint_anchor ck) = Inr b" using canonical by blast
    ultimately show ?thesis by (auto simp: checkCheckpoint_def prev Some Let_def split: option.split)
  next
    case False
    then show ?thesis by (auto simp: checkCheckpoint_def prev Some Let_def)
  qed
qed

lemma checkCheckpoint_passes:
  assumes "checkCheckpoint C keys c valid firstMalformed prev content = Inr (Inr ck)"
  shows "parseCheckpoint content = Some ck"
  using assms by (auto simp: checkCheckpoint_def Let_def case_prod_beta split: option.splits sum.splits if_splits)

lemma checkCheckpoints_return:
  assumes "CHR ''|'' \<notin> set (fst (snd prev))"
    and shape: "\<And>k. k < length (rc_Entries c) \<Longrightarrow> k < firstMalformed \<Longrightarrow> entryShape (rc_Entries c ! k) \<noteq> None"
  shows "\<exists>x. checkCheckpoints C keys c valid firstMalformed prev contents = Inr x"
  using assms(1)
proof (induction contents arbitrary: prev)
  case (Cons content contents)
  obtain x where x: "checkCheckpoint C keys c valid firstMalformed prev content = Inr x"
    using checkCheckpoint_returns [OF Cons.prems shape] by blast
  show ?case
  proof (cases x)
    case (Inl code)
    with x show ?thesis by simp
  next
    case (Inr ck)
    have "is_hex 128 (ck_ChainHash ck)"
      using parseCheckpoint_shape [OF checkCheckpoint_passes [OF x [unfolded Inr]]] by (simp add: checkpoint_shape_def)
    then have "CHR ''|'' \<notin> set (fst (snd (previous_of ck)))" using no_bar_hex by (simp add: previous_of_def)
    from Cons.IH [OF this] obtain y where "checkCheckpoints C keys c valid firstMalformed (previous_of ck) contents = Inr y" by blast
    with x Inr show ?thesis by simp
  qed
qed simp

lemma checkChain_returns: "\<exists>x. checkChain C v c = Inr x"
proof -
  define start where "start = \<lparr>sc_ids = [], sc_firstMalformed = None, sc_lastErasure = None,
      sc_problems = (if \<not> is_chain_id (rc_ID c) then addNoIndex InvalidChainID [] else [])\<rparr>"
  define sc where "sc = snd (scan_entries 0 None (rc_Entries c) start)"
  define fm where "fm = (case sc_firstMalformed sc of None \<Rightarrow> length (rc_Entries c) | Some i \<Rightarrow> i)"
  have shape: "entryShape (rc_Entries c ! k) \<noteq> None" if "k < length (rc_Entries c)" "k < fm" for k
    by (rule scan_first_before [OF that(1), of 0 None start]) (use that(2) in \<open>simp add: fm_def sc_def\<close>)
  have "CHR ''|'' \<notin> set (fst (snd seed_previous))" using seed_no_bar by (simp add: seed_previous_def)
  from checkCheckpoints_return [OF this shape] obtain x
    where "checkCheckpoints C (vf_checkpointKeys v) c (is_chain_id (rc_ID c)) fm seed_previous (rc_Checkpoints c) = Inr x" by blast
  then show ?thesis
    unfolding checkChain_def Let_def start_def [symmetric] case_prod_beta sc_def [symmetric] fm_def [symmetric] by simp
qed

lemma check_chains_return: "\<exists>x. check_chains C v copied i cs = Inr x"
proof (induction cs arbitrary: i)
  case (Cons c cs)
  obtain cr valid where "checkChain C v c = Inr (cr, valid)" using checkChain_returns by (metis surj_pair)
  moreover obtain y where "check_chains C v copied (Suc i) cs = Inr y" using Cons.IH by blast
  ultimately show ?case by simp
qed simp

lemma VerifyWithLimits_returns: "\<exists>res. VerifyWithLimits C bundle tr lim = Inr res"
proof (cases "readBundle bundle (withDefaults lim)")
  case (Inl reason)
  then show ?thesis by (simp add: VerifyWithLimits_def Let_def)
next
  case (Inr read)
  obtain x where "check_chains C \<lparr>vf_checkpointKeys = keySet (tr_Checkpoint tr), vf_recordKeys = keySet (tr_Record tr)\<rparr>
      (\<lambda>i. 1 < tally_of (\<lambda>c. rc_ID c = i) read) 0 read = Inr x" using check_chains_return by blast
  with Inr show ?thesis by (simp add: VerifyWithLimits_def Let_def)
qed

subsection \<open>The rules a chain keeps\<close>

definition chained :: "raw_entry list \<Rightarrow> nat \<Rightarrow> bool" where
  "chained es i \<longleftrightarrow>
     (let e = es ! i; prev = (if i = 0 then [] else re_ChainHash (es ! (i - 1))) in
      case entryShape e of
        None \<Rightarrow> False
      | Some (seq, ts) \<Rightarrow>
          seq = int i \<and> (i = 0 \<longrightarrow> re_GlobalSeq e = ''0'') \<and> re_PreviousHash e = prev \<and>
          re_ChainHash e = ComputeChainHashV3Unchecked prev (int i) ts (re_ContentHash e))"

definition erases :: "raw_entry list \<Rightarrow> nat \<Rightarrow> bool" where
  "erases es i \<longleftrightarrow> 0 < i \<and> re_ContentHash (es ! i) = erasureHash (re_GlobalSeq (es ! (i - 1)))"

definition has_erasure :: "raw_entry list \<Rightarrow> bool" where
  "has_erasure es \<longleftrightarrow> (\<exists>i < length es. erases es i)"

definition content_ok :: "raw_entry list \<Rightarrow> nat \<Rightarrow> bool" where
  "content_ok es i \<longleftrightarrow>
     re_EntryType (es ! i) = (if erases es i then typeErasure else typeEvent) \<and>
     (case re_Disclosed (es ! i) of
        None \<Rightarrow> True
      | Some d \<Rightarrow> disclosedShape d \<and> \<not> has_erasure es \<and> opens (es ! i))"

definition entries_ok :: "raw_entry list \<Rightarrow> bool" where
  "entries_ok es \<longleftrightarrow>
     distinct (map re_EntryID es) \<and> (\<forall>i < length es. chained es i \<and> content_ok es i) \<and>
     (has_erasure es \<longrightarrow> erases es (length es - 1))"

text \<open>The first loop finds nothing.\<close>

definition fine_step :: "(raw_entry \<times> entry_flags) option \<Rightarrow> string set \<Rightarrow> raw_entry \<Rightarrow> bool" where
  "fine_step prev ids e \<longleftrightarrow>
     \<not> es_disclosedBad (entry_state e prev) \<and> re_EntryID e \<notin> ids \<and>
     (case entryShape e of
        None \<Rightarrow> False
      | Some (seq, ts) \<Rightarrow>
          (case prev of
             None \<Rightarrow> re_GlobalSeq e = ''0'' \<and> re_PreviousHash e = []
           | Some (p, s) \<Rightarrow> es_wellFormed s \<longrightarrow> re_PreviousHash e = re_ChainHash p \<and> es_seq s \<noteq> maxSeq \<and> seq = es_seq s + 1) \<and>
          ComputeChainHashV3Unchecked (re_PreviousHash e) seq ts (re_ContentHash e) = re_ChainHash e)"

lemma scan_entry_fine:
  "sc_problems (scan_entry i prev e sc) = [] \<longleftrightarrow> sc_problems sc = [] \<and> fine_step prev (set (sc_ids sc)) e"
  "sc_problems (scan_entry i prev e sc) = [] \<Longrightarrow> set (sc_ids (scan_entry i prev e sc)) = insert (re_EntryID e) (set (sc_ids sc))"
proof -
  show "sc_problems (scan_entry i prev e sc) = [] \<longleftrightarrow> sc_problems sc = [] \<and> fine_step prev (set (sc_ids sc)) e"
    by (cases "entryShape e"; cases prev)
      (auto simp: scan_entry_def fine_step_def Let_def well_formed_shape split: prod.split)
  assume "sc_problems (scan_entry i prev e sc) = []"
  then show "set (sc_ids (scan_entry i prev e sc)) = insert (re_EntryID e) (set (sc_ids sc))"
    by (auto simp: scan_entry_def Let_def well_formed_shape split: prod.split option.splits)
qed

fun fine_from :: "(raw_entry \<times> entry_flags) option \<Rightarrow> string set \<Rightarrow> raw_entry list \<Rightarrow> bool" where
  "fine_from prev ids [] = True"
| "fine_from prev ids (e # es) =
     (fine_step prev ids e \<and> fine_from (Some (e, entry_state e prev)) (insert (re_EntryID e) ids) es)"

lemma scan_entries_fine:
  "sc_problems (snd (scan_entries i prev es sc)) = [] \<longleftrightarrow> sc_problems sc = [] \<and> fine_from prev (set (sc_ids sc)) es"
proof (induction es arbitrary: i prev sc)
  case (Cons e es)
  have whole: "snd (scan_entries i prev (e # es) sc)
      = snd (scan_entries (Suc i) (Some (e, entry_state e prev)) es (scan_entry i prev e sc))"
    by (simp add: Let_def case_prod_beta)
  show ?case unfolding whole Cons.IH
    using scan_entry_fine [of i prev e sc] by (cases "sc_problems (scan_entry i prev e sc) = []") auto
qed simp

lemma int64_seq: "parseGlobalSeq s = Some v \<Longrightarrow> v \<le> maxSeq"
  by (auto simp: parseGlobalSeq_def parse_int64_def maxSeq_def int64_def Let_def split: if_splits)

lemma shape_seq: "entryShape e = Some (seq, ts) \<Longrightarrow> parseGlobalSeq (re_GlobalSeq e) = Some seq"
  by (auto simp: entryShape_def split: option.splits if_splits)

lemma seq_zero: "parseGlobalSeq ''0'' = Some 0"
  by code_simp

lemma shape_hash: "entryShape e = Some x \<Longrightarrow> re_ChainHash e \<noteq> []"
  using shape_tip [of e] by (auto simp: is_hex_def)

definition disclosed_fine :: "raw_entry \<Rightarrow> bool" where
  "disclosed_fine e \<longleftrightarrow> (case re_Disclosed e of None \<Rightarrow> True | Some d \<Rightarrow> re_EntryType e = typeEvent \<and> disclosedShape d)"

text \<open>Over the whole list, by the entries before and the ones to come.\<close>

lemma fine_from_iff:
  assumes "\<And>p s. prev = Some (p, s) \<Longrightarrow> done_es \<noteq> [] \<and> p = last done_es \<and> es_wellFormed s \<and> es_seq s = int (length done_es) - 1"
    and "prev = None \<longleftrightarrow> done_es = []"
  shows "fine_from prev ids es \<longleftrightarrow>
    (\<forall>i < length es. chained (done_es @ es) (length done_es + i) \<and> disclosed_fine (es ! i)) \<and>
    distinct (map re_EntryID es) \<and> ids \<inter> set (map re_EntryID es) = {}"
  using assms
proof (induction es arbitrary: prev ids done_es)
  case (Cons e es)
  have here: "(done_es @ e # es) ! length done_es = e" by simp
  have step: "fine_step prev ids e \<longleftrightarrow> chained (done_es @ e # es) (length done_es) \<and> disclosed_fine e \<and> re_EntryID e \<notin> ids"
  proof (cases "entryShape e")
    case None
    then show ?thesis by (simp add: fine_step_def chained_def)
  next
    case (Some x)
    obtain seq ts where x: "x = (seq, ts)" by (cases x)
    have seq: "parseGlobalSeq (re_GlobalSeq e) = Some seq" by (rule shape_seq [OF Some [unfolded x]])
    have dis: "es_disclosedBad (entry_state e q) \<longleftrightarrow> \<not> disclosed_fine e" for q
      by (simp add: entry_state_type disclosed_fine_def split: option.split)
    show ?thesis
    proof (cases prev)
      case None
      then have d: "done_es = []" using Cons.prems(2) by simp
      have "re_GlobalSeq e = ''0'' \<Longrightarrow> seq = 0" using seq seq_zero by simp
      then show ?thesis using None d by (auto simp: fine_step_def chained_def Some x dis)
    next
      case (Some q)
      obtain p s where q: "q = (p, s)" by (cases q)
      note P = Cons.prems(1) [OF Some [unfolded q]]
      have before: "(done_es @ e # es) ! (length done_es - 1) = p" using P by (simp add: nth_append last_conv_nth)
      have "0 < length done_es" using P by simp
      moreover have "es_seq s \<noteq> maxSeq \<and> seq = es_seq s + 1 \<longleftrightarrow> seq = int (length done_es)"
        using int64_seq [OF seq] P by auto
      ultimately show ?thesis using P before
        by (auto simp: fine_step_def chained_def Let_def Some q \<open>entryShape e = Some x\<close> x dis)
    qed
  qed
  show ?case
  proof (cases "fine_step prev ids e")
    case False
    then have "\<not> (chained (done_es @ e # es) (length done_es) \<and> disclosed_fine e \<and> re_EntryID e \<notin> ids)" using step by blast
    with False show ?thesis by (auto simp: All_less_Suc2)
  next
    case True
    then have c: "chained (done_es @ e # es) (length done_es)" "disclosed_fine e" "re_EntryID e \<notin> ids" using step by blast+
    obtain ts where sh: "entryShape e = Some (int (length done_es), ts)"
      using c(1) by (auto simp: chained_def Let_def split: option.splits)
    have "fine_from (Some (e, entry_state e prev)) (insert (re_EntryID e) ids) es \<longleftrightarrow>
        (\<forall>i < length es. chained ((done_es @ [e]) @ es) (length (done_es @ [e]) + i) \<and> disclosed_fine (es ! i)) \<and>
        distinct (map re_EntryID es) \<and> insert (re_EntryID e) ids \<inter> set (map re_EntryID es) = {}"
      by (rule Cons.IH) (auto simp: well_formed_shape entry_state_type sh)
    then show ?thesis using True c by (auto simp: All_less_Suc2)
  qed
qed simp


text \<open>The last erasure.\<close>

lemma scan_entry_erasure:
  "sc_lastErasure (scan_entry i prev e sc) = (if es_holdsErasure (entry_state e prev) then Some i else sc_lastErasure sc)"
  by (auto simp: scan_entry_def Let_def entry_state_def split: option.split prod.split)

lemma scan_last_erasure:
  "sc_lastErasure (snd (scan_entries i prev es sc)) =
    (case find (\<lambda>k. es_holdsErasure (fst (scan_entries i prev es sc) ! k)) (rev [0..<length es]) of
       None \<Rightarrow> sc_lastErasure sc | Some k \<Rightarrow> Some (i + k))"
proof (induction es arbitrary: i prev sc)
  case (Cons e es)
  let ?st = "entry_state e prev" and ?sc = "scan_entry i prev e sc"
  let ?sts = "fst (scan_entries (Suc i) (Some (e, ?st)) es ?sc)"
  have whole: "snd (scan_entries i prev (e # es) sc) = snd (scan_entries (Suc i) (Some (e, ?st)) es ?sc)"
    "fst (scan_entries i prev (e # es) sc) = ?st # ?sts"
    by (simp_all add: Let_def case_prod_beta)
  have up: "find (\<lambda>k. P ((x # xs) ! k)) (rev [0..<Suc n]) =
      (case find (\<lambda>k. P (xs ! k)) (rev [0..<n]) of None \<Rightarrow> if P x then Some 0 else None | Some k \<Rightarrow> Some (Suc k))"
    for P and x :: entry_flags and xs n
  proof -
    have "[0..<Suc n] = 0 # map Suc [0..<n]" by (simp only: upt_rec [of 0 "Suc n"] map_Suc_upt) simp
    then have r: "rev [0..<Suc n] = map Suc (rev [0..<n]) @ [0]" by (simp add: rev_map)
    have f: "find Q (map Suc ks @ [0]) = (case find (\<lambda>k. Q (Suc k)) ks of None \<Rightarrow> if Q 0 then Some 0 else None | Some k \<Rightarrow> Some (Suc k))"
      for Q and ks :: "nat list" by (induction ks) auto
    show ?thesis unfolding r f by simp
  qed
  show ?case unfolding whole list.size add_0_right add_Suc_right up [of es_holdsErasure] Cons.IH scan_entry_erasure
    by (auto split: option.split)
qed simp


lemma find_last:
  "find P (rev [0..<n]) = None \<longleftrightarrow> (\<forall>k < n. \<not> P k)"
  "find P (rev [0..<n]) = Some j \<Longrightarrow> j < n \<and> P j \<and> (\<forall>k. j < k \<and> k < n \<longrightarrow> \<not> P k)"
proof -
  show "find P (rev [0..<n]) = None \<longleftrightarrow> (\<forall>k < n. \<not> P k)" by (auto simp: find_None_iff)
  show "find P (rev [0..<n]) = Some j \<Longrightarrow> j < n \<and> P j \<and> (\<forall>k. j < k \<and> k < n \<longrightarrow> \<not> P k)"
  proof (induction n)
    case (Suc n)
    show ?case
    proof (cases "P n")
      case False
      with Suc have "j < n \<and> P j \<and> (\<forall>k. j < k \<and> k < n \<longrightarrow> \<not> P k)" by simp
      with False show ?thesis using less_Suc_eq by auto
    qed (use Suc.prems in auto)
  qed simp
qed

text \<open>The second loop, when the first found nothing.\<close>

lemma types_differ: "typeEvent \<noteq> typeErasure" "typeErasure \<noteq> typeEvent"
  by (simp_all add: typeEvent_def typeErasure_def)

lemma classify_fine:
  assumes len: "length sts = length es"
    and wf: "\<And>k. k < length es \<Longrightarrow> es_wellFormed (sts ! k) \<and> \<not> es_disclosedBad (sts ! k)"
    and dis: "\<And>k. k < length es \<Longrightarrow> disclosed_fine (es ! k)"
    and holds: "\<And>k. k < length es \<Longrightarrow> es_holdsErasure (sts ! k) \<longleftrightarrow> erases es k"
    and type: "\<And>k. k < length es \<Longrightarrow> (es_event (sts ! k) \<longleftrightarrow> re_EntryType (es ! k) = typeEvent)
      \<and> (es_erasure (sts ! k) \<longleftrightarrow> re_EntryType (es ! k) = typeErasure)"
    and L: "L = find (\<lambda>k. es_holdsErasure (sts ! k)) (rev [0..<length es])"
  shows "(\<forall>k < length es. \<forall>code. classify L k (es ! k) (sts ! k) \<noteq> Problem code) \<longleftrightarrow>
    (\<forall>k < length es. content_ok es k) \<and> (has_erasure es \<longrightarrow> erases es (length es - 1))"
proof (cases L)
  case None
  then have "find (\<lambda>k. es_holdsErasure (sts ! k)) (rev [0..<length es]) = None" using L by simp
  then have "\<forall>k < length es. \<not> es_holdsErasure (sts ! k)" by (simp only: find_last(1))
  then have no: "\<not> erases es k" if "k < length es" for k using holds [OF that] that by blast
  then have he: "\<not> has_erasure es" by (auto simp: has_erasure_def)
  have "(\<forall>code. classify L k (es ! k) (sts ! k) \<noteq> Problem code) \<longleftrightarrow> content_ok es k" if k: "k < length es" for k
    using wf [OF k] dis [OF k] holds [OF k] type [OF k] no [OF k] he None types_differ
    by (cases "re_Disclosed (es ! k)"; cases "re_EntryType (es ! k) = typeErasure"; cases "opens (es ! k)")
      (simp_all add: classify_def content_ok_def disclosed_fine_def)
  with he show ?thesis by blast
next
  case (Some j)
  then have "find (\<lambda>k. es_holdsErasure (sts ! k)) (rev [0..<length es]) = Some j" using L by simp
  note J = find_last(2) [OF this]
  then have j: "j < length es" "erases es j" using holds [of j] by blast+
  have later: "\<not> erases es k" if "j < k" "k < length es" for k using J holds [OF that(2)] that by blast
  have he: "has_erasure es" using j by (auto simp: has_erasure_def)
  have each: "(\<forall>code. classify L k (es ! k) (sts ! k) \<noteq> Problem code) \<longleftrightarrow> k \<le> j \<and> content_ok es k" if k: "k < length es" for k
  proof (cases "j < k")
    case True
    then show ?thesis using wf [OF k] Some by (simp add: classify_def)
  next
    case False
    then show ?thesis using wf [OF k] dis [OF k] holds [OF k] type [OF k] he Some types_differ
      by (cases "re_Disclosed (es ! k)"; cases "re_EntryType (es ! k) = typeErasure"; cases "erases es k")
        (simp_all add: classify_def content_ok_def disclosed_fine_def)
  qed
  have "(\<forall>k < length es. k \<le> j) \<longleftrightarrow> erases es (length es - 1)"
  proof
    assume "\<forall>k < length es. k \<le> j"
    then have "length es - 1 < length es \<longrightarrow> length es - 1 \<le> j" by blast
    then have "length es - 1 = j" using j(1) by linarith
    with j(2) show "erases es (length es - 1)" by simp
  next
    assume e: "erases es (length es - 1)"
    have "length es - 1 < length es" using j(1) by linarith
    then have "\<not> j < length es - 1" using later e by blast
    then show "\<forall>k < length es. k \<le> j" by auto
  qed
  with each he show ?thesis by blast
qed

lemma add_outcomes_empty: "add_outcomes i outs ps = [] \<longleftrightarrow> ps = [] \<and> (\<forall>x \<in> set outs. \<forall>code. x \<noteq> Problem code)"
proof (induction outs arbitrary: i ps)
  case (Cons x outs)
  then show ?case by (cases x) auto
qed simp

lemma add_codes_empty: "add_codes i cs ps = [] \<longleftrightarrow> ps = [] \<and> (\<forall>x \<in> set cs. x = None)"
proof (induction cs arbitrary: i ps)
  case (Cons x cs)
  then show ?case by (cases x) auto
qed simp

lemma outcomes_set: "length sts = length es \<Longrightarrow>
    set (outcomes L es sts) = (\<lambda>k. classify L k (es ! k) (sts ! k)) ` {..<length es}"
  by (force simp: outcomes_def set_conv_nth)


subsection \<open>What the checks of checkpoints and record signatures pass\<close>

definition checkpoint_ok :: "circl \<Rightarrow> keys \<Rightarrow> raw_chain \<Rightarrow> previous \<Rightarrow> bytes option \<Rightarrow> checkpoint \<Rightarrow> bool" where
  "checkpoint_ok C keys c prev content ck \<longleftrightarrow>
     (case prev of (previousID, previousHash, previousCount) \<Rightarrow>
        let es = rc_Entries c; cnt = ck_EntryCount ck in
        parseCheckpoint content = Some ck \<and> ck_Subject ck = rc_ID c \<and> ck_PreviousAnchorID ck = previousID \<and>
        previousCount < cnt \<and> cnt \<le> length es \<and>
        ck_RangeStart ck = re_EntryID (es ! 0) \<and> ck_RangeEnd ck = re_EntryID (es ! (cnt - 1)) \<and>
        ck_ChainHash ck = hex_sha512 (anchor_preimage previousHash (rc_ID c) (ck_RangeStart ck) (ck_RangeEnd ck) (re_ChainHash (es ! (cnt - 1)))) \<and>
        (keys \<noteq> [] \<longrightarrow>
           (\<exists>key canonical. map_of keys (ck_SigningKeyID ck) = Some key \<and> Canonicalize (checkpoint_anchor ck) = Inr canonical \<and>
              Verify_mldsa C MLDSA65 key canonical (ck_Signature ck) = None)))"

fun checkpoints_ok :: "circl \<Rightarrow> keys \<Rightarrow> raw_chain \<Rightarrow> previous \<Rightarrow> bytes option list \<Rightarrow> checkpoint list \<Rightarrow> bool" where
  "checkpoints_ok C keys c prev [] [] = True"
| "checkpoints_ok C keys c prev (x # xs) (ck # cks) =
     (checkpoint_ok C keys c prev x ck \<and> checkpoints_ok C keys c (previous_of ck) xs cks)"
| "checkpoints_ok C keys c prev _ _ = False"

definition record_ok :: "circl \<Rightarrow> keys \<Rightarrow> string \<Rightarrow> raw_entry \<Rightarrow> bool" where
  "record_ok C keys chain_id e \<longleftrightarrow>
     (\<exists>sig signature key. re_Sig e = Some sig \<and> is_hex 32 (rp_a sig) \<and> decodeCanonicalBase64 (rp_b sig) = Some signature \<and>
        length signature = signatureSize \<and> map_of keys (rp_a sig) = Some key \<and>
        Verify_mldsa C MLDSA65 key (recordEnvelope chain_id e (rp_a sig)) signature = None)"

lemma checkCheckpoint_iff:
  assumes bar: "CHR ''|'' \<notin> set (fst (snd prev))" and shape: "\<And>k. k < length (rc_Entries c) \<Longrightarrow> entryShape (rc_Entries c ! k) \<noteq> None"
  shows "checkCheckpoint C keys c True (length (rc_Entries c)) prev content = Inr (Inr ck) \<longleftrightarrow> checkpoint_ok C keys c prev content ck"
proof -
  obtain previousID previousHash previousCount where prev: "prev = (previousID, previousHash, previousCount)" by (cases prev)
  show ?thesis
  proof
    assume "checkCheckpoint C keys c True (length (rc_Entries c)) prev content = Inr (Inr ck)"
    then show "checkpoint_ok C keys c prev content ck"
      by (auto simp: checkCheckpoint_def checkpoint_ok_def prev Let_def ChainHash_iff split: option.splits sum.splits if_splits)
  next
    assume "checkpoint_ok C keys c prev content ck"
    then have ok: "parseCheckpoint content = Some ck" "ck_Subject ck = rc_ID c" "ck_PreviousAnchorID ck = previousID"
      "\<not> ck_EntryCount ck \<le> previousCount" "\<not> length (rc_Entries c) < ck_EntryCount ck"
      "ck_RangeStart ck = re_EntryID (rc_Entries c ! 0)" "ck_RangeEnd ck = re_EntryID (rc_Entries c ! (ck_EntryCount ck - 1))"
      "ck_ChainHash ck = hex_sha512 (anchor_preimage previousHash (rc_ID c) (ck_RangeStart ck) (ck_RangeEnd ck)
        (re_ChainHash (rc_Entries c ! (ck_EntryCount ck - 1))))"
      and sig: "keys \<noteq> [] \<longrightarrow> (\<exists>key canonical. map_of keys (ck_SigningKeyID ck) = Some key \<and>
        Canonicalize (checkpoint_anchor ck) = Inr canonical \<and> Verify_mldsa C MLDSA65 key canonical (ck_Signature ck) = None)"
      by (simp_all add: checkpoint_ok_def prev Let_def)
    note s = parseCheckpoint_shape [OF ok(1), unfolded checkpoint_shape_def]
    have "1 \<le> ck_EntryCount ck" using s by blast
    then have "ck_EntryCount ck - 1 < length (rc_Entries c)" using ok(5) by linarith
    then have "CHR ''|'' \<notin> set (re_ChainHash (rc_Entries c ! (ck_EntryCount ck - 1)))" using shape no_bar_hex shape_tip by blast
    moreover have "CHR ''|'' \<notin> set (rc_ID c)" using s ok(2) by (simp add: is_label_def)
    moreover have "CHR ''|'' \<notin> set (ck_RangeStart ck)" "CHR ''|'' \<notin> set (ck_RangeEnd ck)" using s no_bar_entry_id by blast+
    ultimately have h: "ChainHash_anchor previousHash (rc_ID c) (ck_RangeStart ck) (ck_RangeEnd ck)
        (re_ChainHash (rc_Entries c ! (ck_EntryCount ck - 1))) = Inr (ck_ChainHash ck)"
      unfolding ChainHash_iff using bar ok(8) by (simp add: prev)
    show "checkCheckpoint C keys c True (length (rc_Entries c)) prev content = Inr (Inr ck)"
    proof (cases "keys = []")
      case True
      then show ?thesis using ok(2-5) h unfolding checkCheckpoint_def prev ok(1) Let_def
        by (simp add: ok(6,7))
    next
      case False
      then obtain key canonical where "map_of keys (ck_SigningKeyID ck) = Some key"
        "Canonicalize (checkpoint_anchor ck) = Inr canonical" "Verify_mldsa C MLDSA65 key canonical (ck_Signature ck) = None"
        using sig by blast
      then show ?thesis using False ok(2-5) h unfolding checkCheckpoint_def prev ok(1) Let_def
        by (simp add: ok(6,7))
    qed
  qed
qed


lemma checkCheckpoints_iff:
  assumes shape: "\<And>k. k < length (rc_Entries c) \<Longrightarrow> entryShape (rc_Entries c ! k) \<noteq> None"
    and "CHR ''|'' \<notin> set (fst (snd prev))"
  shows "checkCheckpoints C keys c True (length (rc_Entries c)) prev contents = Inr (cks, None) \<longleftrightarrow>
    checkpoints_ok C keys c prev contents cks"
  using assms(2)
proof (induction contents arbitrary: prev cks)
  case Nil
  show ?case by (cases cks) auto
next
  case (Cons content contents)
  note IH = Cons.IH and one = checkCheckpoint_iff [OF Cons.prems shape, where C = C and keys = keys and content = content]
  obtain x where x: "checkCheckpoint C keys c True (length (rc_Entries c)) prev content = Inr x"
    using checkCheckpoint_returns [OF Cons.prems shape] by blast
  show ?case
  proof (cases x)
    case (Inl code)
    then have "\<not> checkpoint_ok C keys c prev content ck" for ck using one [of ck] x by simp
    with x Inl show ?thesis by (cases cks) auto
  next
    case (Inr ck)
    have c: "checkpoint_ok C keys c prev content ck' \<longleftrightarrow> ck' = ck" for ck' using one [of ck'] x Inr by auto
    have "is_hex 128 (ck_ChainHash ck)"
      using parseCheckpoint_shape [OF checkCheckpoint_passes [OF x [unfolded Inr]]] by (simp add: checkpoint_shape_def)
    then have bar: "CHR ''|'' \<notin> set (fst (snd (previous_of ck)))" using no_bar_hex by (simp add: previous_of_def)
    obtain y where y: "checkCheckpoints C keys c True (length (rc_Entries c)) (previous_of ck) contents = Inr y"
      using checkCheckpoints_return [OF bar shape] by blast
    show ?thesis
    proof (cases cks)
      case Nil
      with x Inr y show ?thesis by (cases y) simp
    next
      case (Cons ck' cks')
      have "checkCheckpoints C keys c True (length (rc_Entries c)) prev (content # contents) = Inr (ck' # cks', None) \<longleftrightarrow>
          ck' = ck \<and> checkCheckpoints C keys c True (length (rc_Entries c)) (previous_of ck) contents = Inr (cks', None)"
        using x Inr y by (cases y) auto
      then show ?thesis using IH [OF bar, of cks'] c by (auto simp: Cons)
    qed
  qed
qed

subsection \<open>A chain without a problem\<close>

definition chain_clean :: "circl \<Rightarrow> verifier \<Rightarrow> raw_chain \<Rightarrow> checkpoint list \<Rightarrow> bool" where
  "chain_clean C v c cks \<longleftrightarrow>
     is_chain_id (rc_ID c) \<and> entries_ok (rc_Entries c) \<and>
     checkpoints_ok C (vf_checkpointKeys v) c seed_previous (rc_Checkpoints c) cks \<and>
     (vf_recordKeys v \<noteq> [] \<longrightarrow> (\<forall>e \<in> set (rc_Entries c). record_ok C (vf_recordKeys v) (rc_ID c) e))"

definition covers :: "checkpoint list \<Rightarrow> nat" where
  "covers cks = (if cks = [] then 0 else ck_EntryCount (last cks))"

definition chain_accepted :: "circl \<Rightarrow> verifier \<Rightarrow> raw_chain \<Rightarrow> bool" where
  "chain_accepted C v c \<longleftrightarrow>
     (\<exists>cks. chain_clean C v c cks \<and>
        (rc_Entries c = [] \<or> vf_recordKeys v \<noteq> [] \<or> vf_checkpointKeys v \<noteq> [] \<and> length (rc_Entries c) \<le> covers cks))"

lemma scan_first_none:
  "\<forall>e \<in> set es. entryShape e \<noteq> None \<Longrightarrow> sc_firstMalformed (snd (scan_entries i prev es sc)) = sc_firstMalformed sc"
proof (induction es arbitrary: i prev sc)
  case (Cons e es)
  have "snd (scan_entries i prev (e # es) sc) = snd (scan_entries (Suc i) (Some (e, entry_state e prev)) es (scan_entry i prev e sc))"
    by (simp add: Let_def case_prod_beta)
  moreover have "entryShape e \<noteq> None" using Cons.prems by simp
  moreover have "\<forall>e \<in> set es. entryShape e \<noteq> None" using Cons.prems by simp
  ultimately show ?case
    using Cons.IH [of "Suc i" "Some (e, entry_state e prev)" "scan_entry i prev e sc"] scan_entry_first [of i prev e sc] by argo
qed simp

lemma record_iff:
  assumes "es_wellFormed st" "es_event st \<or> es_erasure st" "(re_PreviousHash e = []) = (re_GlobalSeq e = ''0'')"
  shows "checkRecordSignature C keys cid True e st = None \<longleftrightarrow> record_ok C keys cid e"
  using assms by (auto simp: checkRecordSignature_def record_ok_def split: option.splits if_splits)

lemma chained_facts:
  assumes "\<forall>i < length es. chained es i" "i < length es"
  shows "entryShape (es ! i) \<noteq> None" "(re_PreviousHash (es ! i) = []) = (re_GlobalSeq (es ! i) = ''0'')"
proof -
  have c: "chained es i" using assms by blast
  obtain ts where s: "entryShape (es ! i) = Some (int i, ts)"
    and z: "i = 0 \<longrightarrow> re_GlobalSeq (es ! i) = ''0''"
    and p: "re_PreviousHash (es ! i) = (if i = 0 then [] else re_ChainHash (es ! (i - 1)))"
    using c by (auto simp: chained_def Let_def split: option.splits)
  show "entryShape (es ! i) \<noteq> None" using s by simp
  show "(re_PreviousHash (es ! i) = []) = (re_GlobalSeq (es ! i) = ''0'')"
  proof (cases "i = 0")
    case True
    with z p show ?thesis by simp
  next
    case False
    then have "chained es (i - 1)" using assms by simp
    then obtain x where "entryShape (es ! (i - 1)) = Some x" by (auto simp: chained_def Let_def split: option.splits)
    then have "re_PreviousHash (es ! i) \<noteq> []" using p False shape_hash by simp
    moreover have "re_GlobalSeq (es ! i) \<noteq> ''0''" using shape_seq [OF s] seq_zero False by auto
    ultimately show ?thesis by blast
  qed
qed

definition scan_start :: "raw_chain \<Rightarrow> scan" where
  "scan_start c = \<lparr>sc_ids = [], sc_firstMalformed = None, sc_lastErasure = None,
      sc_problems = (if \<not> is_chain_id (rc_ID c) then addNoIndex InvalidChainID [] else [])\<rparr>"

definition chain_states :: "raw_chain \<Rightarrow> entry_flags list" where
  "chain_states c = fst (scan_entries 0 None (rc_Entries c) (scan_start c))"

definition chain_scan :: "raw_chain \<Rightarrow> scan" where
  "chain_scan c = snd (scan_entries 0 None (rc_Entries c) (scan_start c))"

definition first_bad :: "raw_chain \<Rightarrow> nat" where
  "first_bad c = (case sc_firstMalformed (chain_scan c) of None \<Rightarrow> length (rc_Entries c) | Some i \<Rightarrow> i)"

definition chain_outcomes :: "raw_chain \<Rightarrow> outcome list" where
  "chain_outcomes c = outcomes (sc_lastErasure (chain_scan c)) (rc_Entries c) (chain_states c)"

definition chain_records :: "circl \<Rightarrow> verifier \<Rightarrow> raw_chain \<Rightarrow> code option list" where
  "chain_records C v c = map (\<lambda>(e, st). checkRecordSignature C (vf_recordKeys v) (rc_ID c) (is_chain_id (rc_ID c)) e st)
     (zip (rc_Entries c) (chain_states c))"

definition by_checkpoint :: "verifier \<Rightarrow> raw_chain \<Rightarrow> checkpoint list \<Rightarrow> bool list" where
  "by_checkpoint v c cks = map (\<lambda>(i, st). vf_checkpointKeys v \<noteq> [] \<and> i < covers cks \<and> es_wellFormed st)
     (zip [0..<length (rc_Entries c)] (chain_states c))"

definition by_record :: "circl \<Rightarrow> verifier \<Rightarrow> raw_chain \<Rightarrow> bool list" where
  "by_record C v c = map (\<lambda>r. vf_recordKeys v \<noteq> [] \<and> r = None) (chain_records C v c)"

definition authenticated_in :: "circl \<Rightarrow> verifier \<Rightarrow> raw_chain \<Rightarrow> checkpoint list \<Rightarrow> nat" where
  "authenticated_in C v c cks = tally_of (\<lambda>(a, b). a \<or> b) (zip (by_checkpoint v c cks) (by_record C v c))"

text \<open>The chain's result, in these terms.\<close>

definition chain_problems :: "circl \<Rightarrow> verifier \<Rightarrow> raw_chain \<Rightarrow> checkpoint list \<Rightarrow> code option \<Rightarrow> problem list" where
  "chain_problems C v c cks bad =
     (let ps = add_outcomes 0 (chain_outcomes c) (sc_problems (chain_scan c));
          ps = (case bad of None \<Rightarrow> ps | Some code \<Rightarrow> tally_add code (length cks) ps)
      in tally_sorted (if vf_recordKeys v \<noteq> [] then add_codes 0 (chain_records C v c) ps else ps))"

definition chain_erasure :: "circl \<Rightarrow> verifier \<Rightarrow> raw_chain \<Rightarrow> checkpoint list \<Rightarrow> code option \<Rightarrow> erasure" where
  "chain_erasure C v c cks bad =
     (case sc_lastErasure (chain_scan c) of
        None \<Rightarrow> ErasureNone
      | Some j \<Rightarrow>
          if chain_outcomes c ! j \<noteq> GenuineErasure then ErasureNone
          else if chain_problems C v c cks bad \<noteq> [] then ErasureRecorded
          else if vf_checkpointKeys v \<noteq> [] \<and> j < covers cks then ErasureAnchored
          else if by_record C v c ! j then ErasureSigned
          else ErasureRecorded)"

definition chain_counts :: "circl \<Rightarrow> verifier \<Rightarrow> raw_chain \<Rightarrow> checkpoint list \<Rightarrow> counts" where
  "chain_counts C v c cks =
     \<lparr>ct_Entries = length (rc_Entries c), ct_Events = tally_of es_event (chain_states c),
      ct_Erasures = tally_of (\<lambda>x. x = GenuineErasure) (chain_outcomes c), ct_Opened = tally_of (\<lambda>x. x = Opened) (chain_outcomes c),
      ct_Committed = tally_of (\<lambda>x. x = Committed) (chain_outcomes c), ct_Erased = tally_of (\<lambda>x. x = Erased) (chain_outcomes c),
      ct_Checkpoints = length cks, ct_Unanchored = length (rc_Entries c) - covers cks,
      ct_Authenticated = authenticated_in C v c cks,
      ct_Unauthenticated = length (rc_Entries c) - authenticated_in C v c cks,
      ct_CheckpointAuthenticated = tally_of (\<lambda>b. b) (by_checkpoint v c cks),
      ct_RecordAuthenticated = tally_of (\<lambda>b. b) (by_record C v c),
      ct_RecordSignaturesPresent = tally_of (\<lambda>e. re_Sig e \<noteq> None) (rc_Entries c)\<rparr>"

definition chain_report :: "circl \<Rightarrow> verifier \<Rightarrow> raw_chain \<Rightarrow> checkpoint list \<Rightarrow> code option \<Rightarrow> chain_result" where
  "chain_report C v c cks bad =
     \<lparr>cr_Key = rc_ID c,
      cr_Verdict = (if chain_problems C v c cks bad \<noteq> [] then VerdictFailed
         else if 0 < length (rc_Entries c) - authenticated_in C v c cks then VerdictUnauthenticated else VerdictOK),
      cr_Erasure = chain_erasure C v c cks bad, cr_Counts = chain_counts C v c cks,
      cr_Problems = chain_problems C v c cks bad\<rparr>"

lemma checkChain_report:
  "checkChain C v c =
     (case checkCheckpoints C (vf_checkpointKeys v) c (is_chain_id (rc_ID c)) (first_bad c) seed_previous (rc_Checkpoints c) of
        Inl err \<Rightarrow> Inl err
      | Inr (cks, bad) \<Rightarrow> Inr (chain_report C v c cks bad, is_chain_id (rc_ID c)))"
  unfolding checkChain_def chain_report_def chain_counts_def chain_erasure_def chain_problems_def authenticated_in_def
    by_checkpoint_def by_record_def chain_records_def chain_outcomes_def first_bad_def chain_scan_def chain_states_def
    scan_start_def covers_def Let_def case_prod_beta ..

lemma checkChain_cases:
  obtains cks bad where
    "checkCheckpoints C (vf_checkpointKeys v) c (is_chain_id (rc_ID c)) (first_bad c) seed_previous (rc_Checkpoints c) = Inr (cks, bad)"
    "checkChain C v c = Inr (chain_report C v c cks bad, is_chain_id (rc_ID c))"
proof -
  obtain x where x: "checkChain C v c = Inr x" using checkChain_returns by blast
  then obtain cks bad where
    "checkCheckpoints C (vf_checkpointKeys v) c (is_chain_id (rc_ID c)) (first_bad c) seed_previous (rc_Checkpoints c) = Inr (cks, bad)"
    unfolding checkChain_report by (auto split: sum.splits prod.splits)
  with that show thesis unfolding checkChain_report by simp
qed

lemma chain_problems_empty:
  "chain_problems C v c cks bad = [] \<longleftrightarrow>
     sc_problems (chain_scan c) = [] \<and> (\<forall>x \<in> set (chain_outcomes c). \<forall>code. x \<noteq> Problem code) \<and>
     bad = None \<and> (vf_recordKeys v \<noteq> [] \<longrightarrow> (\<forall>r \<in> set (chain_records C v c). r = None))"
proof -
  have "tally_sorted ps = [] \<longleftrightarrow> ps = []" for ps
    unfolding tally_sorted_def by (metis length_0_conv length_sort)
  then show ?thesis by (auto simp: chain_problems_def Let_def add_outcomes_empty add_codes_empty split: option.split)
qed


lemma chain_scan_fine:
  "sc_problems (chain_scan c) = [] \<longleftrightarrow>
     is_chain_id (rc_ID c) \<and> distinct (map re_EntryID (rc_Entries c)) \<and>
     (\<forall>i < length (rc_Entries c). chained (rc_Entries c) i \<and> disclosed_fine (rc_Entries c ! i))"
  using fine_from_iff [of None "[]" "{}" "rc_Entries c"]
  by (auto simp: chain_scan_def scan_entries_fine scan_start_def addNoIndex_def)

lemma chain_states_length [simp]: "length (chain_states c) = length (rc_Entries c)"
  by (simp add: chain_states_def scan_entries_length)

lemma chain_states_nth:
  assumes "k < length (rc_Entries c)"
  shows "chain_states c ! k = entry_state (rc_Entries c ! k)
    (if k = 0 then None else Some (rc_Entries c ! (k - 1), chain_states c ! (k - 1)))"
  unfolding chain_states_def by (rule scan_entries_nth [OF assms])

lemma clean_states:
  assumes "\<forall>i < length (rc_Entries c). chained (rc_Entries c) i \<and> disclosed_fine (rc_Entries c ! i)" "k < length (rc_Entries c)"
  shows "es_wellFormed (chain_states c ! k)" "\<not> es_disclosedBad (chain_states c ! k)"
    "es_holdsErasure (chain_states c ! k) \<longleftrightarrow> erases (rc_Entries c) k"
    "es_event (chain_states c ! k) \<longleftrightarrow> re_EntryType (rc_Entries c ! k) = typeEvent"
    "es_erasure (chain_states c ! k) \<longleftrightarrow> re_EntryType (rc_Entries c ! k) = typeErasure"
proof -
  have wf: "es_wellFormed (chain_states c ! k)" if "k < length (rc_Entries c)" for k
    unfolding chain_states_nth [OF that] well_formed_shape using chained_facts(1) assms(1) that by blast
  show "es_wellFormed (chain_states c ! k)" by (rule wf [OF assms(2)])
  have d: "disclosed_fine (rc_Entries c ! k)" using assms by blast
  show "\<not> es_disclosedBad (chain_states c ! k)"
    unfolding chain_states_nth [OF assms(2)] entry_state_type using d by (auto simp: disclosed_fine_def split: option.splits)
  show "es_event (chain_states c ! k) \<longleftrightarrow> re_EntryType (rc_Entries c ! k) = typeEvent"
    "es_erasure (chain_states c ! k) \<longleftrightarrow> re_EntryType (rc_Entries c ! k) = typeErasure"
    unfolding chain_states_nth [OF assms(2)] entry_state_type by (rule refl)+
  have shape: "entryShape (rc_Entries c ! k) \<noteq> None" using chained_facts(1) assms by blast
  show "es_holdsErasure (chain_states c ! k) \<longleftrightarrow> erases (rc_Entries c) k"
  proof (cases "k = 0")
    case True
    then show ?thesis unfolding chain_states_nth [OF assms(2)] by (simp add: entry_state_def erases_def Let_def)
  next
    case False
    then have "es_wellFormed (chain_states c ! (k - 1))" using assms(2) by (intro wf) simp
    then show ?thesis using False shape by (subst chain_states_nth [OF assms(2)]) (simp add: entry_state_def erases_def Let_def)
  qed
qed

text \<open>No problem, and the rules kept.\<close>

lemma chain_report_clean:
  assumes checks: "checkCheckpoints C (vf_checkpointKeys v) c (is_chain_id (rc_ID c)) (first_bad c) seed_previous (rc_Checkpoints c)
      = Inr (cks, bad)"
  shows "chain_problems C v c cks bad = [] \<longleftrightarrow> chain_clean C v c cks"
    and "chain_clean C v c cks' \<Longrightarrow> bad = None \<and> cks' = cks"
proof -
  let ?es = "rc_Entries c"
  have both: "(chain_problems C v c cks bad = [] \<longleftrightarrow> chain_clean C v c cks) \<and> (chain_clean C v c cks' \<longrightarrow> bad = None \<and> cks' = cks)"
  proof (cases "sc_problems (chain_scan c) = []")
    case False
    have "\<not> chain_clean C v c cks'" for cks'
    proof
      assume "chain_clean C v c cks'"
      then have id: "is_chain_id (rc_ID c)" and ok: "entries_ok ?es" by (simp_all add: chain_clean_def)
      have "disclosed_fine (?es ! i)" if "i < length ?es" for i
      proof -
        have "content_ok ?es i" using ok that by (simp add: entries_ok_def)
        moreover have "\<not> has_erasure ?es \<Longrightarrow> \<not> erases ?es i" using that by (auto simp: has_erasure_def)
        ultimately show ?thesis by (auto simp: content_ok_def disclosed_fine_def split: option.splits)
      qed
      with id ok False show False unfolding chain_scan_fine by (simp add: entries_ok_def)
    qed
    with False show ?thesis by (simp add: chain_problems_empty)
  next
    case True
    then have id: "is_chain_id (rc_ID c)" and dist: "distinct (map re_EntryID ?es)"
      and fine: "\<forall>i < length ?es. chained ?es i \<and> disclosed_fine (?es ! i)" unfolding chain_scan_fine by blast+
    have shape: "entryShape (?es ! k) \<noteq> None" if "k < length ?es" for k using chained_facts(1) fine that by blast
    then have "\<forall>e \<in> set ?es. entryShape e \<noteq> None" by (metis in_set_conv_nth)
    from scan_first_none [OF this] have fm: "first_bad c = length ?es"
      by (simp add: first_bad_def chain_scan_def scan_start_def)
    have bar: "CHR ''|'' \<notin> set (fst (snd seed_previous))" using seed_no_bar by (simp add: seed_previous_def)
    note cp = checkCheckpoints_iff [OF shape bar, where C = C and keys = "vf_checkpointKeys v" and contents = "rc_Checkpoints c"]
    have cks: "checkpoints_ok C (vf_checkpointKeys v) c seed_previous (rc_Checkpoints c) cks' \<longleftrightarrow> bad = None \<and> cks' = cks" for cks'
      using cp [of cks'] checks by (auto simp: id fm)
    have L: "sc_lastErasure (chain_scan c) = find (\<lambda>k. es_holdsErasure (chain_states c ! k)) (rev [0..<length ?es])"
      unfolding chain_scan_def chain_states_def scan_last_erasure by (simp add: scan_start_def split: option.split)
    have outs: "(\<forall>x \<in> set (chain_outcomes c). \<forall>code. x \<noteq> Problem code) \<longleftrightarrow>
        (\<forall>k < length ?es. content_ok ?es k) \<and> (has_erasure ?es \<longrightarrow> erases ?es (length ?es - 1))"
      using classify_fine [of "chain_states c" ?es, OF _ _ _ _ _ L] clean_states [OF fine] fine
      by (auto simp: chain_outcomes_def outcomes_set)
    have recs: "(\<forall>r \<in> set (chain_records C v c). r = None) \<longleftrightarrow> (\<forall>e \<in> set ?es. record_ok C (vf_recordKeys v) (rc_ID c) e)"
      if "\<forall>k < length ?es. content_ok ?es k"
    proof -
      have "checkRecordSignature C (vf_recordKeys v) (rc_ID c) True (?es ! k) (chain_states c ! k) = None
          \<longleftrightarrow> record_ok C (vf_recordKeys v) (rc_ID c) (?es ! k)" if k: "k < length ?es" for k
      proof (rule record_iff)
        show "es_wellFormed (chain_states c ! k)" by (rule clean_states [OF fine k])
        have "content_ok ?es k" using \<open>\<forall>k < length ?es. content_ok ?es k\<close> k by blast
        then show "es_event (chain_states c ! k) \<or> es_erasure (chain_states c ! k)"
          unfolding clean_states(4,5) [OF fine k] by (simp add: content_ok_def split: if_splits)
        show "(re_PreviousHash (?es ! k) = []) = (re_GlobalSeq (?es ! k) = ''0'')"
          by (rule chained_facts(2)) (use fine k in auto)
      qed
      then show ?thesis by (auto simp: chain_records_def id set_zip all_set_conv_all_nth)
    qed
    have eok: "entries_ok ?es \<longleftrightarrow> (\<forall>k < length ?es. content_ok ?es k) \<and> (has_erasure ?es \<longrightarrow> erases ?es (length ?es - 1))"
      using dist fine by (auto simp: entries_ok_def)
    show ?thesis unfolding chain_problems_empty chain_clean_def eok outs cks using True id recs by blast
  qed
  then show "chain_problems C v c cks bad = [] \<longleftrightarrow> chain_clean C v c cks" by blast
  from both show "chain_clean C v c cks' \<Longrightarrow> bad = None \<and> cks' = cks" by blast
qed

subsection \<open>Who vouches for the entries\<close>

lemma tally_all: "length xs - tally_of p xs = 0 \<longleftrightarrow> (\<forall>x \<in> set xs. p x)"
proof -
  have "length (filter p xs) \<le> length xs" by simp
  then have "length xs - length (filter p xs) = 0 \<longleftrightarrow> length (filter p xs) = length xs" by linarith
  also have "\<dots> \<longleftrightarrow> (\<forall>x \<in> set xs. p x)"
    by (metis filter_True filter_id_conv length_filter_less linorder_neq_iff)
  finally show ?thesis by (simp only: tally_of_def)
qed

lemma vouch_lengths [simp]: "length (by_checkpoint v c cks) = length (rc_Entries c)" "length (by_record C v c) = length (rc_Entries c)"
  "length (chain_records C v c) = length (rc_Entries c)" "length (chain_outcomes c) = length (rc_Entries c)"
  by (simp_all add: by_checkpoint_def by_record_def chain_records_def chain_outcomes_def outcomes_def)

lemma vouched_all:
  assumes "chain_clean C v c cks"
  shows "length (rc_Entries c) - authenticated_in C v c cks = 0 \<longleftrightarrow>
    rc_Entries c = [] \<or> vf_recordKeys v \<noteq> [] \<or> vf_checkpointKeys v \<noteq> [] \<and> length (rc_Entries c) \<le> covers cks"
proof -
  let ?n = "length (rc_Entries c)"
  have ok: "\<forall>i < ?n. chained (rc_Entries c) i" using assms by (simp add: chain_clean_def entries_ok_def)
  have wf: "es_wellFormed (chain_states c ! k)" if "k < ?n" for k
    unfolding chain_states_nth [OF that] well_formed_shape by (rule chained_facts(1) [OF ok that])
  have all: "?n - authenticated_in C v c cks = 0 \<longleftrightarrow> (\<forall>k < ?n. by_checkpoint v c cks ! k \<or> by_record C v c ! k)"
    using tally_all [of "zip (by_checkpoint v c cks) (by_record C v c)" "\<lambda>(a, b). a \<or> b"]
    by (simp add: authenticated_in_def all_set_conv_all_nth)
  have cp: "by_checkpoint v c cks ! k \<longleftrightarrow> vf_checkpointKeys v \<noteq> [] \<and> k < covers cks" if "k < ?n" for k
    using that wf [OF that] by (simp add: by_checkpoint_def)
  have rk: "by_record C v c ! k \<longleftrightarrow> vf_recordKeys v \<noteq> []" if k: "k < ?n" for k
  proof (cases "vf_recordKeys v = []")
    case True
    with k show ?thesis by (simp add: by_record_def)
  next
    case False
    obtain cks' bad where "checkCheckpoints C (vf_checkpointKeys v) c (is_chain_id (rc_ID c)) (first_bad c) seed_previous (rc_Checkpoints c)
        = Inr (cks', bad)" by (rule checkChain_cases)
    note R = chain_report_clean [OF this]
    have "chain_problems C v c cks' bad = []" using R(1) R(2) [OF assms] assms by blast
    then have "\<forall>r \<in> set (chain_records C v c). r = None" using False by (simp add: chain_problems_empty)
    then have "chain_records C v c ! k = None" using k by simp
    with False k show ?thesis by (simp add: by_record_def)
  qed
  have "(\<forall>k < ?n. by_checkpoint v c cks ! k \<or> by_record C v c ! k) \<longleftrightarrow>
      (\<forall>k < ?n. vf_checkpointKeys v \<noteq> [] \<and> k < covers cks \<or> vf_recordKeys v \<noteq> [])" using cp rk by blast
  also have "\<dots> \<longleftrightarrow> ?n = 0 \<or> vf_recordKeys v \<noteq> [] \<or> vf_checkpointKeys v \<noteq> [] \<and> ?n \<le> covers cks"
  proof -
    have "(\<forall>k < n. A \<and> k < m \<or> B) \<longleftrightarrow> n = 0 \<or> B \<or> A \<and> n \<le> m" for n m :: nat and A B
      by (cases A; cases B) (auto simp: not_le)
    then show ?thesis .
  qed
  finally show ?thesis using all by simp
qed

lemma chain_verdict:
  assumes "checkChain C v c = Inr (cr, valid)"
  shows "cr_Verdict cr = VerdictOK \<longleftrightarrow> chain_accepted C v c" "valid = is_chain_id (rc_ID c)" "cr_Key cr = rc_ID c"
proof -
  obtain cks bad where checks: "checkCheckpoints C (vf_checkpointKeys v) c (is_chain_id (rc_ID c)) (first_bad c) seed_previous
      (rc_Checkpoints c) = Inr (cks, bad)"
    and r: "checkChain C v c = Inr (chain_report C v c cks bad, is_chain_id (rc_ID c))" by (rule checkChain_cases)
  have cr: "cr = chain_report C v c cks bad" and valid: "valid = is_chain_id (rc_ID c)" using assms r by simp_all
  show "valid = is_chain_id (rc_ID c)" "cr_Key cr = rc_ID c" using valid by (simp_all add: cr chain_report_def)
  note R = chain_report_clean [OF checks]
  show "cr_Verdict cr = VerdictOK \<longleftrightarrow> chain_accepted C v c"
  proof (cases "chain_problems C v c cks bad = []")
    case True
    then have clean: "chain_clean C v c cks" using R(1) by blast
    have "cr_Verdict cr = VerdictOK \<longleftrightarrow> length (rc_Entries c) - authenticated_in C v c cks = 0"
      using True by (simp add: cr chain_report_def)
    also have "\<dots> \<longleftrightarrow> chain_accepted C v c"
      unfolding vouched_all [OF clean] chain_accepted_def using clean R(2) by blast
    finally show ?thesis .
  next
    case False
    have "\<not> chain_clean C v c cks'" for cks' using False R(1) R(2) [of cks'] by blast
    with False show ?thesis by (simp add: cr chain_report_def chain_accepted_def)
  qed
qed

lemma duplicate_chains_empty:
  "duplicate_chains i seen cs ps = [] \<longleftrightarrow> ps = [] \<and> distinct (map rc_ID cs) \<and> set seen \<inter> set (map rc_ID cs) = {}"
  by (induction cs arbitrary: i seen ps) auto

lemma worst_ok: "fold (\<lambda>cr w. worse w (cr_Verdict cr)) crs start = VerdictOK \<longleftrightarrow> start = VerdictOK \<and> (\<forall>cr \<in> set crs. cr_Verdict cr = VerdictOK)"
proof (induction crs arbitrary: start)
  case (Cons cr crs)
  have "worse a b = VerdictOK \<longleftrightarrow> a = VerdictOK \<and> b = VerdictOK" for a b by (cases a; cases b) (simp_all add: worse_def)
  with Cons show ?case by auto
qed simp

lemma check_chains_verdicts:
  "check_chains C v copied i cs = Inr crs \<Longrightarrow>
     (\<forall>cr \<in> set crs. cr_Verdict cr = VerdictOK) \<longleftrightarrow> (\<forall>c \<in> set cs. chain_accepted C v c)"
proof (induction cs arbitrary: i crs)
  case (Cons c cs)
  obtain cr valid where cr: "checkChain C v c = Inr (cr, valid)" using checkChain_returns by (metis surj_pair)
  obtain rest where rest: "check_chains C v copied (Suc i) cs = Inr rest" using check_chains_return by blast
  define cr' where "cr' = (if \<not> valid \<or> copied (rc_ID c) then cr\<lparr>cr_Key := CHR ''#'' # dec_nat i\<rparr> else cr)"
  have crs: "crs = cr' # rest" using Cons.prems cr rest by (simp add: cr'_def)
  have "cr_Verdict cr' = cr_Verdict cr" by (simp add: cr'_def)
  with Cons.IH [OF rest] chain_verdict(1) [OF cr] show ?case by (simp add: crs)
qed simp

definition verifier_of :: "trust \<Rightarrow> verifier" where
  "verifier_of tr = \<lparr>vf_checkpointKeys = keySet (tr_Checkpoint tr), vf_recordKeys = keySet (tr_Record tr)\<rparr>"

definition bundle_accepted :: "circl \<Rightarrow> trust \<Rightarrow> raw_chain list \<Rightarrow> bool" where
  "bundle_accepted C tr cs \<longleftrightarrow>
     cs \<noteq> [] \<and> distinct (map rc_ID cs) \<and> (\<forall>c \<in> set cs. chain_accepted C (verifier_of tr) c)"

lemma verify_accepts:
  "(\<exists>res. VerifyWithLimits C bundle tr lim = Inr res \<and> ExitCode res = ExitOK) \<longleftrightarrow>
     (\<exists>cs. readBundle bundle (withDefaults lim) = Inr cs \<and> bundle_accepted C tr cs)"
proof (cases "readBundle bundle (withDefaults lim)")
  case (Inl reason)
  then show ?thesis by (simp add: VerifyWithLimits_def Let_def ExitCode_def)
next
  case (Inr cs)
  let ?v = "verifier_of tr"
  obtain crs where crs: "check_chains C ?v (\<lambda>i. 1 < tally_of (\<lambda>c. rc_ID c = i) cs) 0 cs = Inr crs" using check_chains_return by blast
  have sorted: "tally_sorted ps = [] \<longleftrightarrow> ps = []" for ps unfolding tally_sorted_def by (metis length_0_conv length_sort)
  define verdict where "verdict = (if tally_sorted (duplicate_chains 0 [] cs []) \<noteq> [] then VerdictFailed
      else fold (\<lambda>cr w. worse w (cr_Verdict cr)) crs (if cs = [] then VerdictUnauthenticated else VerdictOK))"
  obtain res where res: "VerifyWithLimits C bundle tr lim = Inr res" "br_Reason res = None" "br_Verdict res = verdict"
    using Inr crs unfolding VerifyWithLimits_def Let_def verifier_of_def [symmetric] verdict_def by simp
  have "ExitCode res = ExitOK \<longleftrightarrow> verdict = VerdictOK" using res by (simp add: ExitCode_def split: verdict.split)
  also have "\<dots> \<longleftrightarrow> bundle_accepted C tr cs"
    using check_chains_verdicts [OF crs] unfolding verdict_def bundle_accepted_def
    by (simp add: sorted duplicate_chains_empty worst_ok)
  finally show ?thesis using res Inr by simp
qed

subsection \<open>What every result is like\<close>

definition wf_problems :: "problem list \<Rightarrow> bool" where
  "wf_problems ps \<longleftrightarrow> distinct (map pb_Code ps) \<and> (\<forall>p \<in> set ps. 1 \<le> pb_Count p)"

definition wf_counts :: "counts \<Rightarrow> bool" where
  "wf_counts ct \<longleftrightarrow>
     ct_Authenticated ct + ct_Unauthenticated ct = ct_Entries ct \<and>
     ct_CheckpointAuthenticated ct \<le> ct_Authenticated ct \<and> ct_RecordAuthenticated ct \<le> ct_Authenticated ct \<and>
     ct_Authenticated ct \<le> ct_CheckpointAuthenticated ct + ct_RecordAuthenticated ct \<and>
     ct_Opened ct + ct_Committed ct + ct_Erased ct + ct_Erasures ct \<le> ct_Entries ct \<and>
     ct_Events ct \<le> ct_Entries ct \<and> ct_Unanchored ct \<le> ct_Entries ct \<and> ct_RecordSignaturesPresent ct \<le> ct_Entries ct"

definition wf_chain_result :: "chain_result \<Rightarrow> bool" where
  "wf_chain_result cr \<longleftrightarrow>
     wf_counts (cr_Counts cr) \<and> wf_problems (cr_Problems cr) \<and>
     sorted (map (\<lambda>p. code_text (pb_Code p)) (cr_Problems cr)) \<and>
     (cr_Verdict cr = VerdictFailed \<longleftrightarrow> cr_Problems cr \<noteq> []) \<and>
     (cr_Verdict cr = VerdictOK \<longleftrightarrow> cr_Problems cr = [] \<and> ct_Unauthenticated (cr_Counts cr) = 0) \<and>
     (cr_Erasure cr \<in> {ErasureAnchored, ErasureSigned} \<longrightarrow> cr_Problems cr = [])"

lemma tally_add_wf: "wf_problems ps \<Longrightarrow> wf_problems (tally_add code i ps)"
proof -
  have codes: "set (map pb_Code (tally_add code i ps)) = insert code (set (map pb_Code ps))"
    by (induction ps) auto
  have "distinct (map pb_Code ps) \<Longrightarrow> distinct (map pb_Code (tally_add code i ps))" for ps :: "problem list"
  proof (induction ps)
    case (Cons p ps)
    have "set (map pb_Code (tally_add code i ps)) = insert code (set (map pb_Code ps))" by (induction ps) auto
    with Cons show ?case by auto
  qed simp
  moreover have "\<forall>p \<in> set ps. 1 \<le> pb_Count p \<Longrightarrow> \<forall>p \<in> set (tally_add code i ps). 1 \<le> pb_Count p" for ps :: "problem list"
    by (induction ps) auto
  ultimately show "wf_problems ps \<Longrightarrow> wf_problems (tally_add code i ps)" unfolding wf_problems_def by blast
qed

lemma add_when_wf: "wf_problems ps \<Longrightarrow> wf_problems (add_when b code i ps)"
  by (simp add: add_when_def tally_add_wf)

lemma scan_entry_wf: "wf_problems (sc_problems sc) \<Longrightarrow> wf_problems (sc_problems (scan_entry i prev e sc))"
  by (simp add: scan_entry_def Let_def add_when_wf split: option.split prod.split)

lemma scan_entries_wf: "wf_problems (sc_problems sc) \<Longrightarrow> wf_problems (sc_problems (snd (scan_entries i prev es sc)))"
proof (induction es arbitrary: i prev sc)
  case (Cons e es)
  then show ?case by (simp add: Let_def case_prod_beta scan_entry_wf)
qed simp

lemma add_outcomes_wf: "wf_problems ps \<Longrightarrow> wf_problems (add_outcomes i outs ps)"
proof (induction outs arbitrary: i ps)
  case (Cons x outs)
  then show ?case by (cases x) (simp_all add: tally_add_wf)
qed simp

lemma add_codes_wf: "wf_problems ps \<Longrightarrow> wf_problems (add_codes i cs ps)"
proof (induction cs arbitrary: i ps)
  case (Cons x cs)
  then show ?case by (cases x) (simp_all add: tally_add_wf)
qed simp

lemma sorted_wf: "wf_problems ps \<Longrightarrow> wf_problems (tally_sorted ps)"
proof -
  have "mset (map pb_Code (tally_sorted ps)) = mset (map pb_Code ps)" by (simp add: tally_sorted_def)
  then have "distinct (map pb_Code (tally_sorted ps)) = distinct (map pb_Code ps)" by (rule mset_eq_imp_distinct_iff)
  then show "wf_problems ps \<Longrightarrow> wf_problems (tally_sorted ps)" by (simp add: wf_problems_def tally_sorted_def)
qed

lemma chain_problems_wf: "wf_problems (chain_problems C v c cks bad)"
proof -
  have "wf_problems (sc_problems (chain_scan c))"
    unfolding chain_scan_def by (rule scan_entries_wf) (simp add: scan_start_def wf_problems_def addNoIndex_def)
  then have "wf_problems (add_outcomes 0 (chain_outcomes c) (sc_problems (chain_scan c)))" by (rule add_outcomes_wf)
  then show ?thesis unfolding chain_problems_def Let_def
    by (intro sorted_wf) (simp add: tally_add_wf add_codes_wf split: option.split)
qed

lemma tally_le: "tally_of p xs \<le> length xs"
  by (simp add: tally_of_def)

lemma tally_or:
  "length as = length bs \<Longrightarrow> tally_of (\<lambda>b. b) as \<le> tally_of (\<lambda>(a, b). a \<or> b) (zip as bs)"
  "length as = length bs \<Longrightarrow> tally_of (\<lambda>b. b) bs \<le> tally_of (\<lambda>(a, b). a \<or> b) (zip as bs)"
  "length as = length bs \<Longrightarrow> tally_of (\<lambda>(a, b). a \<or> b) (zip as bs) \<le> tally_of (\<lambda>b. b) as + tally_of (\<lambda>b. b) bs"
  by (induction as bs rule: list_induct2; simp add: tally_of_def)+

lemma tally_four:
  "tally_of (\<lambda>x. x = Opened) xs + tally_of (\<lambda>x. x = Committed) xs + tally_of (\<lambda>x. x = Erased) xs
     + tally_of (\<lambda>x. x = GenuineErasure) xs \<le> length xs"
  by (induction xs) (auto simp: tally_of_def)

lemma chain_counts_wf: "wf_counts (chain_counts C v c cks)"
proof -
  have "authenticated_in C v c cks \<le> length (rc_Entries c)"
    using tally_le [of _ "zip (by_checkpoint v c cks) (by_record C v c)"] by (simp add: authenticated_in_def)
  moreover have "tally_of es_event (chain_states c) \<le> length (rc_Entries c)" using tally_le [of es_event "chain_states c"] by simp
  moreover note tally_le [of "\<lambda>e. re_Sig e \<noteq> None" "rc_Entries c"] tally_four [of "chain_outcomes c"]
    tally_or [of "by_checkpoint v c cks" "by_record C v c"]
  ultimately show ?thesis by (simp add: wf_counts_def chain_counts_def authenticated_in_def)
qed

lemma checkChain_wf:
  assumes "checkChain C v c = Inr (cr, valid)"
  shows "wf_chain_result cr"
proof -
  obtain cks bad where "checkChain C v c = Inr (chain_report C v c cks bad, is_chain_id (rc_ID c))" by (rule checkChain_cases)
  then have cr: "cr = chain_report C v c cks bad" using assms by simp
  have "sorted (map (\<lambda>p. code_text (pb_Code p)) (chain_problems C v c cks bad))"
    by (simp add: chain_problems_def Let_def tally_sorted_def)
  then show ?thesis using chain_counts_wf [of C v c cks] chain_problems_wf [of C v c cks bad]
    by (auto simp: wf_chain_result_def cr chain_report_def chain_counts_def chain_erasure_def split: option.splits if_splits)
qed

text \<open>The keys of the chains in a result.\<close>

definition position_key :: "nat \<Rightarrow> string" where
  "position_key i = CHR ''#'' # dec_nat i"

lemma check_chains_nth:
  assumes "check_chains C v copied i cs = Inr crs"
  shows "length crs = length cs"
    and "k < length cs \<Longrightarrow> wf_chain_result (crs ! k) \<and>
      cr_Key (crs ! k) = (if \<not> is_chain_id (rc_ID (cs ! k)) \<or> copied (rc_ID (cs ! k)) then position_key (i + k) else rc_ID (cs ! k))"
proof -
  have "length crs = length cs \<and> (\<forall>k < length cs. wf_chain_result (crs ! k) \<and>
      cr_Key (crs ! k) = (if \<not> is_chain_id (rc_ID (cs ! k)) \<or> copied (rc_ID (cs ! k)) then position_key (i + k) else rc_ID (cs ! k)))"
    using assms
  proof (induction cs arbitrary: i crs)
    case (Cons c cs)
    obtain cr valid where cr: "checkChain C v c = Inr (cr, valid)" using checkChain_returns by (metis surj_pair)
    obtain rest where rest: "check_chains C v copied (Suc i) cs = Inr rest" using check_chains_return by blast
    define cr' where "cr' = (if \<not> valid \<or> copied (rc_ID c) then cr\<lparr>cr_Key := position_key i\<rparr> else cr)"
    have crs: "crs = cr' # rest" using Cons.prems cr rest by (auto simp: cr'_def position_key_def)
    have "wf_chain_result cr'" using checkChain_wf [OF cr] by (simp add: cr'_def wf_chain_result_def)
    moreover have "cr_Key cr' = (if \<not> is_chain_id (rc_ID c) \<or> copied (rc_ID c) then position_key i else rc_ID c)"
      using chain_verdict(2,3) [OF cr] by (simp add: cr'_def)
    ultimately show ?case using Cons.IH [OF rest] by (auto simp: crs nth_Cons split: nat.split)
  qed simp
  then show "length crs = length cs"
    and "k < length cs \<Longrightarrow> wf_chain_result (crs ! k) \<and>
      cr_Key (crs ! k) = (if \<not> is_chain_id (rc_ID (cs ! k)) \<or> copied (rc_ID (cs ! k)) then position_key (i + k) else rc_ID (cs ! k))"
    by blast+
qed

lemma tally_two:
  assumes "i < length xs" "j < length xs" "i \<noteq> j" "p (xs ! i)" "p (xs ! j)"
  shows "1 < tally_of p xs"
proof -
  have "card {i, j} \<le> card {k. k < length xs \<and> p (xs ! k)}" by (rule card_mono) (use assms in auto)
  with assms(3) show ?thesis by (simp add: tally_of_def length_filter_conv_card)
qed

lemma chain_id_start: "is_chain_id s \<Longrightarrow> hd s \<noteq> CHR ''#''"
  by (auto simp: is_chain_id_def Let_def lower_or_digit_def is_digit_def byte_in_def hd_take)

lemma position_apart: "is_chain_id s \<Longrightarrow> position_key i \<noteq> s" "is_chain_id s \<Longrightarrow> s \<noteq> position_key i"
  using chain_id_start [of s] by (auto simp: position_key_def)

lemma position_key_inject [simp]: "position_key i = position_key j \<longleftrightarrow> i = j"
  by (simp add: position_key_def)

lemma result_keys:
  assumes "check_chains C v (\<lambda>x. 1 < tally_of (\<lambda>c. rc_ID c = x) cs) 0 cs = Inr crs"
  shows "distinct (map cr_Key crs)" "\<forall>k < length crs. is_chain_id (cr_Key (crs ! k)) \<or> cr_Key (crs ! k) = position_key k"
proof -
  note N = check_chains_nth [OF assms]
  show "\<forall>k < length crs. is_chain_id (cr_Key (crs ! k)) \<or> cr_Key (crs ! k) = position_key k" using N by auto
  show "distinct (map cr_Key crs)" unfolding distinct_conv_nth
  proof (intro allI impI)
    fix i j assume ij: "i < length (map cr_Key crs)" "j < length (map cr_Key crs)" "i \<noteq> j"
    then have l: "i < length cs" "j < length cs" using N(1) by simp_all
    have same: "1 < tally_of (\<lambda>c. rc_ID c = rc_ID (cs ! i)) cs" if "rc_ID (cs ! i) = rc_ID (cs ! j)"
      by (rule tally_two [OF l ij(3)]) (use that in simp_all)
    have "cr_Key (crs ! i) \<noteq> cr_Key (crs ! j)"
      using N(2) [OF l(1)] N(2) [OF l(2)] same ij(3) by (auto simp: position_apart split: if_splits)
    then show "map cr_Key crs ! i \<noteq> map cr_Key crs ! j" using ij by simp
  qed
qed


text \<open>A result of a whole bundle. What could not be read has no chains.\<close>

definition wf_result :: "bundle_result \<Rightarrow> bool" where
  "wf_result res \<longleftrightarrow>
     list_all wf_chain_result (br_Chains res) \<and> distinct (map cr_Key (br_Chains res)) \<and>
     (\<forall>k < length (br_Chains res). is_chain_id (cr_Key (br_Chains res ! k)) \<or> cr_Key (br_Chains res ! k) = position_key k) \<and>
     (br_Reason res \<noteq> None \<longrightarrow> br_Chains res = [] \<and> br_BundleProblems res = []) \<and>
     (br_Verdict res = VerdictOK \<longrightarrow>
        br_BundleProblems res = [] \<and> list_all (\<lambda>cr. cr_Verdict cr = VerdictOK) (br_Chains res))"

lemma verify_wf:
  assumes "VerifyWithLimits C bundle tr lim = Inr res"
  shows "wf_result res"
proof (cases "readBundle bundle (withDefaults lim)")
  case (Inl reason)
  with assms show ?thesis by (auto simp: VerifyWithLimits_def Let_def wf_result_def)
next
  case (Inr cs)
  let ?v = "verifier_of tr"
  obtain crs where crs: "check_chains C ?v (\<lambda>i. 1 < tally_of (\<lambda>c. rc_ID c = i) cs) 0 cs = Inr crs" using check_chains_return by blast
  note A = assms [unfolded VerifyWithLimits_def Let_def verifier_of_def [symmetric] Inr sum.case crs map_sum.simps sum.inject, symmetric]
  have res: "br_Reason res = None" "br_Chains res = crs" "br_BundleProblems res = tally_sorted (duplicate_chains 0 [] cs [])"
    "br_Verdict res = (if tally_sorted (duplicate_chains 0 [] cs []) \<noteq> [] then VerdictFailed
      else fold (\<lambda>cr w. worse w (cr_Verdict cr)) crs (if cs = [] then VerdictUnauthenticated else VerdictOK))"
    unfolding A by simp_all
  have "list_all wf_chain_result crs" using check_chains_nth [OF crs] by (simp add: list_all_length)
  moreover have "br_Verdict res = VerdictOK \<longrightarrow> br_BundleProblems res = [] \<and> list_all (\<lambda>cr. cr_Verdict cr = VerdictOK) crs"
    unfolding res by (simp add: worst_ok list_all_iff)
  moreover have "br_Reason res \<noteq> None \<longrightarrow> br_Chains res = [] \<and> br_BundleProblems res = []" using res(1) by simp
  ultimately show ?thesis using result_keys [OF crs] unfolding wf_result_def res(2) by blast
qed

text \<open>C40. For all bytes, trust and limits, verifying a bundle gives a result, never an internal error, and the result fits
  together: the keys of its chains are distinct, each a chain id or its position; in every chain authenticated
  and unauthenticated entries add up to all entries, neither kind of authentication exceeds the total, events
  are counted at most once; problems are sorted, each code once and with a count; a chain failed exactly when
  it has a problem, and is OK exactly when it has none and no entry is unauthenticated; an erasure counts as
  anchored or signed only where there is no problem; what could not be read has no chains; and the verdict
  of the bundle is OK only if every chain's is.\<close>

theorem verify_result_well_formed:
  "\<exists>res. VerifyWithLimits C bundle tr lim = Inr res \<and> wf_result res"
  using VerifyWithLimits_returns verify_wf by blast

text \<open>C39. The exit code for a bundle is OK exactly when the bundle is readable, has a chain, no chain id twice, and every
  chain keeps the rules the code checks: a valid id; entries in shape, each with the next sequence number, the
  hash of the one before, its own hash recomputed and a new id; only events and erasures, the last entry an
  erasure if there is one, and then nothing disclosed; every disclosed content opening its commitment; every
  checkpoint the next in a series, bound to the entries it covers and, with checkpoint keys given, signed;
  with record keys given, every entry signed; and each entry under the last checkpoint or a record signature.
  These are the rules of the bundle format with one exception, which the second part states: contents and
  signatures in base64 may hold line breaks. A text passes exactly when its length is a multiple of four and
  it is canonical base64 once its carriage returns and line feeds are left out; section 3 of the format
  allows no white space there.\<close>

theorem verify_ok_iff:
  "((\<exists>res. VerifyWithLimits C bundle tr lim = Inr res \<and> ExitCode res = ExitOK) \<longleftrightarrow>
     (\<exists>cs. readBundle bundle (withDefaults lim) = Inr cs \<and> bundle_accepted C tr cs)) \<and>
   (\<forall>s bs. decodeCanonicalBase64 s = Some bs \<longleftrightarrow>
     length s mod 4 = 0 \<and> filter (\<lambda>c. c \<noteq> CHR 0x0A \<and> c \<noteq> CHR 0x0D) s = b64_encode bs)"
  using verify_accepts decodeCanonicalBase64_iff by (simp add: is_break_def)

end
