(* ===== verification/Export_Result.thy ===== *)
theory Export_Result
  imports Export_Verify
begin

section \<open>Reporting on export bundles: \<open>exportbundle/result.go\<close>\<close>

text \<open>
  The two forms of a result: JSON, and text for people. Encoding never fails for these values, and a
  writer takes what it is given. The JSON, which the code puts together from pieces, is the text of one
  value (\<open>MarshalJSON_result_text\<close>).
\<close>

subsection \<open>Texts of the constants\<close>

definition ResultID :: string where "ResultID = ''aleutian.proof.bundle-result.v1''"

fun reason_text :: "reason \<Rightarrow> string" where
  "reason_text ReasonTooLarge = ''too-large''"
| "reason_text ReasonJSON = ''json''"
| "reason_text ReasonDuplicateKey = ''duplicate-key''"
| "reason_text ReasonFormat = ''format''"
| "reason_text ReasonStructure = ''structure''"

fun verdict_text :: "verdict \<Rightarrow> string" where
  "verdict_text VerdictOK = ''ok''"
| "verdict_text VerdictUnauthenticated = ''unauthenticated''"
| "verdict_text VerdictFailed = ''failed''"

fun verdict_upper :: "verdict \<Rightarrow> string" where
  "verdict_upper VerdictOK = ''OK''"
| "verdict_upper VerdictUnauthenticated = ''UNAUTHENTICATED''"
| "verdict_upper VerdictFailed = ''FAILED''"

fun erasure_text :: "erasure \<Rightarrow> string" where
  "erasure_text ErasureNone = ''none''"
| "erasure_text ErasureRecorded = ''recorded''"
| "erasure_text ErasureAnchored = ''anchored''"
| "erasure_text ErasureSigned = ''signed''"

definition trustValue :: "bool \<Rightarrow> string" where
  "trustValue checked = (if checked then ''checked'' else ''not_checked'')"

subsection \<open>JSON\<close>

definition JNat :: "nat \<Rightarrow> json" where "JNat n = JInt (int n)"

definition problem_json :: "problem \<Rightarrow> json" where
  "problem_json p =
     JObj [(''code'', JStr (code_text (pb_Code p))), (''count'', JNat (pb_Count p)),
           (''first'', case pb_First p of None \<Rightarrow> JNull | Some i \<Rightarrow> JNat i)]"

definition counts_json :: "counts \<Rightarrow> json" where
  "counts_json n =
     JObj [(''entries'', JNat (ct_Entries n)), (''events'', JNat (ct_Events n)), (''erasures'', JNat (ct_Erasures n)),
           (''opened'', JNat (ct_Opened n)), (''committed'', JNat (ct_Committed n)), (''erased'', JNat (ct_Erased n)),
           (''checkpoints'', JNat (ct_Checkpoints n)), (''unanchored'', JNat (ct_Unanchored n)),
           (''authenticated'', JNat (ct_Authenticated n)), (''unauthenticated'', JNat (ct_Unauthenticated n)),
           (''checkpoint_authenticated'', JNat (ct_CheckpointAuthenticated n)),
           (''record_authenticated'', JNat (ct_RecordAuthenticated n)),
           (''record_signatures_present'', JNat (ct_RecordSignaturesPresent n))]"

definition problem_list :: "problem list \<Rightarrow> json" where
  "problem_list ps = JArr (map problem_json ps)"

definition chain_json :: "chain_result \<Rightarrow> json" where
  "chain_json c =
     JObj [(''verdict'', JStr (verdict_text (cr_Verdict c))), (''erasure'', JStr (erasure_text (cr_Erasure c))),
           (''counts'', counts_json (cr_Counts c)), (''problems'', problem_list (cr_Problems c))]"

definition MarshalJSON_result :: "bundle_result \<Rightarrow> string" where
  "MarshalJSON_result r =
     ''{'' @ json_string True ''result'' @ '':'' @ json_string True ResultID @ '','' @ json_string True ''readable'' @ '':'' @
     (case br_Reason r of
        Some reason \<Rightarrow> ''false,'' @ json_string True ''reason'' @ '':'' @ json_string True (reason_text reason) @ ''}''
      | None \<Rightarrow>
          ''true'' @
          concat (map (\<lambda>(name, v). '','' @ json_string True name @ '':'' @ json_string True v)
            [(''checkpoint_trust'', trustValue (br_CheckpointTrust r)), (''record_trust'', trustValue (br_RecordTrust r)),
             (''verdict'', verdict_text (br_Verdict r))]) @
          '','' @ json_string True ''bundle_problems'' @ '':'' @ json_text True (problem_list (br_BundleProblems r)) @
          '','' @ json_string True ''chains'' @ '':{'' @
          commas (map (\<lambda>c. json_string True (cr_Key c) @ '':'' @ json_text True (chain_json c)) (br_Chains r)) @ ''}}'')"

text \<open>The value that is meant.\<close>

definition result_json :: "bundle_result \<Rightarrow> json" where
  "result_json r =
     JObj ((''result'', JStr ResultID) #
       (case br_Reason r of
          Some reason \<Rightarrow> [(''readable'', JBool False), (''reason'', JStr (reason_text reason))]
        | None \<Rightarrow>
            [(''readable'', JBool True), (''checkpoint_trust'', JStr (trustValue (br_CheckpointTrust r))),
             (''record_trust'', JStr (trustValue (br_RecordTrust r))), (''verdict'', JStr (verdict_text (br_Verdict r))),
             (''bundle_problems'', problem_list (br_BundleProblems r)),
             (''chains'', JObj (map (\<lambda>c. (cr_Key c, chain_json c)) (br_Chains r)))]))"

lemma MarshalJSON_result_text: "MarshalJSON_result r = json_text True (result_json r)"
  by (simp add: MarshalJSON_result_def result_json_def commas_def comp_def split: option.split)

subsection \<open>Text\<close>

definition newline :: string where "newline = [CHR 0x0A]"

text \<open>The section sign, in UTF-8.\<close>

definition section_sign :: string where "section_sign = [CHR 0xC2, CHR 0xA7]"

definition limits_text :: string where
  "limits_text =
     ''Limits (docs/bundle-format.md '' @ section_sign @ ''1). Even an OK bundle does not show:'' @ newline @
     ''  - that it holds every chain, or that a chain is complete to its end: an exporter can leave a'' @ newline @
     ''    chain out, or cut one back to an earlier checkpoint, dropping later entries and an erasure;'' @ newline @
     ''  - that erased content is gone from anywhere: an erasure was recorded, nothing more;'' @ newline @
     ''  - that a timestamp is true time, or which sink a chain came from;'' @ newline @
     ''  - anything against a writer who controls the evidence store and every key you trust;'' @ newline @
     ''  - anything after the export: a bundle is a historical artifact, and a later erasure does not reach it.'' @ newline @
     ''  Under checkpoint trust alone, the ids and types of the entries inside a checkpoint'' @ [CHR 0x27] @
     ''s range are labels, not evidence.'' @ newline"

definition trustText :: "bool \<Rightarrow> string" where
  "trustText checked = (if checked then ''checked'' else ''not checked (no key given)'')"

definition given :: "bool \<Rightarrow> string" where
  "given checked = (if checked then ''given'' else ''none given'')"

fun join_comma :: "string list \<Rightarrow> string" where
  "join_comma [] = []"
| "join_comma [x] = x"
| "join_comma (x # xs) = x @ '', '' @ join_comma xs"

definition problemText :: "problem list \<Rightarrow> string \<Rightarrow> string" where
  "problemText ps unit_name =
     join_comma (map (\<lambda>p. case pb_First p of
         None \<Rightarrow> code_text (pb_Code p) @ '' (count '' @ dec_nat (pb_Count p) @ '')''
       | Some i \<Rightarrow> code_text (pb_Code p) @ '' (count '' @ dec_nat (pb_Count p) @ '', first at '' @ unit_name @ '' ''
                     @ dec_nat i @ '')'') ps)"

definition chain_text :: "chain_result \<Rightarrow> string" where
  "chain_text c =
     (let n = cr_Counts c in
      ''chain '' @ cr_Key c @ '': '' @ verdict_upper (cr_Verdict c) @ '', erasure '' @ erasure_text (cr_Erasure c) @ ''; '' @
      dec_nat (ct_Entries n) @ '' entries ('' @ dec_nat (ct_Events n) @ '' events: '' @ dec_nat (ct_Opened n) @ '' opened, '' @
      dec_nat (ct_Committed n) @ '' committed, '' @ dec_nat (ct_Erased n) @ '' erased; '' @ dec_nat (ct_Erasures n) @
      '' erasures); '' @ dec_nat (ct_Checkpoints n) @ '' checkpoints, '' @ dec_nat (ct_Unanchored n) @
      '' entries unanchored; '' @ dec_nat (ct_Authenticated n) @ '' authenticated ('' @
      dec_nat (ct_CheckpointAuthenticated n) @ '' by checkpoint, '' @ dec_nat (ct_RecordAuthenticated n) @
      '' by record signature), '' @ dec_nat (ct_Unauthenticated n) @ '' unauthenticated; '' @
      dec_nat (ct_RecordSignaturesPresent n) @ '' record signatures present'' @ newline @
      (if cr_Problems c \<noteq> [] then ''  problems: '' @ problemText (cr_Problems c) ''index'' @ newline else []))"

definition WriteText :: "bundle_result \<Rightarrow> string" where
  "WriteText r =
     ''proof sink verify-bundle: the bundle writer'' @ [CHR 0x27] @
     ''s own implementation (the reference verifier, not an independent one)'' @ newline @
     (case br_Reason r of
        Some reason \<Rightarrow>
          ''UNREADABLE: '' @ reason_text reason @ newline @
          ''checkpoint keys: '' @ given (br_CheckpointTrust r) @ ''; record keys: '' @ given (br_RecordTrust r) @
          ''. Nothing in the bundle was checked.'' @ newline
      | None \<Rightarrow>
          ''verdict: '' @ verdict_upper (br_Verdict r) @ newline @
          ''checkpoint trust: '' @ trustText (br_CheckpointTrust r) @ ''; record trust: '' @ trustText (br_RecordTrust r) @ newline @
          (if br_Chains r = [] then ''the bundle holds no chains: it proves nothing'' @ newline
           else if br_Verdict r = VerdictUnauthenticated then
             ''no problem found, but at least one entry is not authenticated by a key you gave: '' @
             ''the evidence is internally consistent, and its provenance is not established'' @ newline
           else []) @
          (if br_BundleProblems r \<noteq> [] then ''bundle problems: '' @ problemText (br_BundleProblems r) ''chain'' @ newline else []) @
          concat (map chain_text (br_Chains r))) @
     limits_text"

end
