(* ===== verification/Export_Keys.thy ===== *)
theory Export_Keys
  imports Export_Verify
begin

section \<open>Trusted keys: \<open>exportbundle/keys.go\<close>\<close>

text \<open>
  The keys a verifier of export bundles is given: raw, or in key files, which are PEM with one block of
  a fixed form and white space around it. A file is whether it is regular, the size it claims, and the
  bytes it yields. What is shown: a key file, however its lines are cut, is read back as its key
  (\<open>ParsePublicKeyPEM_file\<close>); a key that is accepted is 1952 bytes under its own id
  (\<open>NewPublicKey_accepts\<close>); and of a regular file at most one byte more than the limit is read.
\<close>

subsection \<open>Raw keys\<close>

datatype key_file_error =
    KeyBytes nat | KeyUnparsed | KeyIDFailed keyfile_error | KeyFileOver nat | NotOneBlock | NotBase64 | NotSPKI
  | CannotOpenKeyFile | KeyFileNotRegular | KeyFileReadFails

definition MaxKeyFileBytes :: nat where "MaxKeyFileBytes = 16384"
definition publicKeySize :: nat where "publicKeySize = 1952"

definition spkiPrefix :: bytes where
  "spkiPrefix = map (char_of :: nat \<Rightarrow> char)
     [0x30, 0x82, 0x07, 0xb2, 0x30, 0x0b, 0x06, 0x09, 0x60, 0x86, 0x48, 0x01, 0x65, 0x03, 0x04, 0x03, 0x12,
      0x03, 0x82, 0x07, 0xa1, 0x00]"

definition NewPublicKey :: "circl \<Rightarrow> bytes \<Rightarrow> key_file_error + public_key" where
  "NewPublicKey C raw =
     (if length raw \<noteq> publicKeySize then Inl (KeyBytes (length raw))
      else if Verify_mldsa C MLDSA65 raw [] (replicate signatureSize (CHR 0x00)) = Some MldsaPublicKeyUnparsed
      then Inl KeyUnparsed
      else case KeyIDHex KF_MLDSA65 raw of
        Inl err \<Rightarrow> Inl (KeyIDFailed err)
      | Inr i \<Rightarrow> Inr \<lparr>pk_id = i, pk_raw = raw\<rparr>)"

subsection \<open>Key files\<close>

definition pem_begin :: string where "pem_begin = ''-----BEGIN PUBLIC KEY-----''"
definition pem_end :: string where "pem_end = ''-----END PUBLIC KEY-----''"

definition pem_char :: "char \<Rightarrow> bool" where
  "pem_char c \<longleftrightarrow> c \<in> set b64_alphabet \<or> c = CHR ''=''"

text \<open>A line break, one character or two.\<close>

definition eat_break :: "string \<Rightarrow> string option" where
  "eat_break s =
     (if has_prefix [CHR 0x0A] s then Some (drop 1 s)
      else if has_prefix [CHR 0x0D, CHR 0x0A] s then Some (drop 2 s) else None)"

text \<open>The lines of the body, without their breaks, and what follows; a line is not empty.\<close>

function body_lines :: "string \<Rightarrow> string \<times> string" where
  "body_lines s =
     (let line = takeWhile pem_char s; rest = dropWhile pem_char s
      in if line = [] then ([], s)
         else case eat_break rest of
           None \<Rightarrow> ([], s)
         | Some t \<Rightarrow> (case body_lines t of (b, u) \<Rightarrow> (line @ b, u)))"
  by pat_completeness auto
termination
proof (relation "measure length", simp)
  fix s line rest t
  assume "line = takeWhile pem_char s" "rest = dropWhile pem_char s" "line \<noteq> []" "eat_break rest = Some t"
  then have "length t \<le> length (dropWhile pem_char s)"
    by (auto simp: eat_break_def split: if_splits)
  moreover have "length (takeWhile pem_char s) + length (dropWhile pem_char s) = length s"
    by (metis length_append takeWhile_dropWhile_id)
  ultimately have "length t \<le> length (dropWhile pem_char s)" "length s = length line + length (dropWhile pem_char s)"
    using \<open>line = _\<close> by simp_all
  with \<open>line \<noteq> []\<close> show "(t, s) \<in> measure length" by (cases line) simp_all
qed

declare body_lines.simps [simp del]

text \<open>\<open>keyFilePattern\<close>: the match of its group without the line breaks, which the code removes next.\<close>

definition key_file_body :: "string \<Rightarrow> string option" where
  "key_file_body data =
     (let s = skip_ws data in
      if \<not> has_prefix pem_begin s then None
      else case eat_break (drop (length pem_begin) s) of
        None \<Rightarrow> None
      | Some s \<Rightarrow>
          (case body_lines s of
             (b, s) \<Rightarrow>
               if b = [] \<or> \<not> has_prefix pem_end s \<or> skip_ws (drop (length pem_end) s) \<noteq> [] then None else Some b))"

definition ParsePublicKeyPEM :: "circl \<Rightarrow> bytes \<Rightarrow> key_file_error + public_key" where
  "ParsePublicKeyPEM C data =
     (if MaxKeyFileBytes < length data then Inl (KeyFileOver MaxKeyFileBytes)
      else case key_file_body data of
        None \<Rightarrow> Inl NotOneBlock
      | Some body \<Rightarrow>
          (case decodeCanonicalBase64 body of
             None \<Rightarrow> Inl NotBase64
           | Some der \<Rightarrow>
               if length der \<noteq> length spkiPrefix + publicKeySize \<or> \<not> has_prefix spkiPrefix der then Inl NotSPKI
               else NewPublicKey C (drop (length spkiPrefix) der)))"

text \<open>A file as the reader meets it: \<open>None\<close> when it cannot be opened; its claimed size need not be
  what it yields (a file of a virtual file system, or one that grows).\<close>

record disk_file =
  df_regular :: bool
  df_size :: nat
  df_bytes :: bytes

definition readRegular :: "disk_file option \<Rightarrow> nat \<Rightarrow> key_file_error + bytes" where
  "readRegular file limit =
     (case file of
        None \<Rightarrow> Inl CannotOpenKeyFile
      | Some f \<Rightarrow>
          if \<not> df_regular f then Inl KeyFileNotRegular
          else
            let most = limit + 1; buf = take (min (df_size f) most) (df_bytes f); n = length buf
            in if n = df_size f \<and> n < most then Inr (buf @ take (most - n) (drop n (df_bytes f))) else Inr buf)"

definition ReadPublicKeyFile :: "circl \<Rightarrow> disk_file option \<Rightarrow> key_file_error + public_key" where
  "ReadPublicKeyFile C file =
     (case readRegular file MaxKeyFileBytes of Inl err \<Rightarrow> Inl err | Inr data \<Rightarrow> ParsePublicKeyPEM C data)"

definition ReadBundleFile :: "disk_file option \<Rightarrow> nat \<Rightarrow> key_file_error + bytes" where
  "ReadBundleFile file limit = readRegular file limit"

subsection \<open>What is read\<close>

text \<open>Whatever size a file claims, its first bytes are read, at most one more than the limit.\<close>

lemma readRegular_bytes:
  "df_regular f \<Longrightarrow> readRegular (Some f) limit = Inr (take (limit + 1) (df_bytes f))"
  by (auto simp: readRegular_def Let_def min_def take_add [symmetric] simp del: take_append)


text \<open>A key that is accepted.\<close>

lemma NewPublicKey_accepts:
  "NewPublicKey C raw = Inr k \<Longrightarrow> pk_raw k = raw \<and> length raw = publicKeySize \<and> KeyIDHex KF_MLDSA65 raw = Inr (pk_id k)"
  by (auto simp: NewPublicKey_def split: if_splits sum.splits)

text \<open>A key file as it is written: the marks, and the body cut into lines.\<close>

definition pem_text :: "string list \<Rightarrow> string" where
  "pem_text body = pem_begin @ [CHR 0x0A] @ concat (map (\<lambda>l. l @ [CHR 0x0A]) body) @ pem_end @ [CHR 0x0A]"

lemma body_lines_cut:
  assumes "\<forall>l \<in> set body. l \<noteq> [] \<and> list_all pem_char l" "takeWhile pem_char t = []"
  shows "body_lines (concat (map (\<lambda>l. l @ [CHR 0x0A]) body) @ t) = (concat body, t)"
  using assms(1)
proof (induction body)
  case Nil
  show ?case by (subst body_lines.simps) (simp add: assms(2))
next
  case (Cons l body)
  let ?u = "concat (map (\<lambda>l. l @ [CHR 0x0A]) body) @ t"
  have l: "l \<noteq> []" "list_all pem_char l" using Cons.prems by simp_all
  have nl: "\<not> pem_char (CHR 0x0A)" by code_simp
  have "takeWhile pem_char (l @ CHR 0x0A # ?u) = l" "dropWhile pem_char (l @ CHR 0x0A # ?u) = CHR 0x0A # ?u"
    using l(2) nl by (simp_all add: takeWhile_append dropWhile_append list_all_iff)
  moreover have "eat_break (CHR 0x0A # ?u) = Some ?u" by (simp add: eat_break_def has_prefix_def)
  moreover have "body_lines ?u = (concat body, t)" by (rule Cons.IH) (use Cons.prems in simp)
  ultimately show ?case using l(1) by (subst body_lines.simps) simp
qed

lemma key_file_body_text:
  assumes "body \<noteq> []" "\<forall>l \<in> set body. l \<noteq> [] \<and> list_all pem_char l"
  shows "key_file_body (pem_text body) = Some (concat body)"
proof -
  have first: "skip_ws (pem_begin @ u) = pem_begin @ u" "skip_ws [CHR 0x0A] = []" for u
    by (simp_all add: pem_begin_def skip_ws_def)
  have e: "takeWhile pem_char (pem_end @ [CHR 0x0A]) = []" by code_simp
  have ne: "concat body \<noteq> []" using assms by (cases body) auto
  have "eat_break ([CHR 0x0A] @ u) = Some u" for u by (simp add: eat_break_def has_prefix_def)
  then show ?thesis using ne body_lines_cut [OF assms(2) e]
    by (simp add: key_file_body_def pem_text_def first Let_def has_prefix_def)
qed

lemma pem_char_encoded: "list_all pem_char (b64_encode bs)"
proof -
  have "length b64_alphabet = 64" by code_simp
  then have c: "n < 64 \<Longrightarrow> pem_char (b64_char n)" for n
    unfolding pem_char_def b64_char_def by (metis nth_mem)
  have pad: "pem_char (CHR ''='')" by (simp add: pem_char_def)
  show ?thesis
  proof (induction bs rule: b64_encode.induct)
    case (2 x)
    show ?case using b64_bounds [of "of_char x" 0] by (simp add: c pad)
  next
    case (3 x y)
    show ?case using b64_bounds [of "of_char x" "of_char y"] b64_bounds [of "of_char y" 0] by (simp add: c pad)
  next
    case (4 x y z r)
    show ?case using 4 b64_bounds [of "of_char x" "of_char y"] b64_bounds [of "of_char y" "of_char z"] b64_bounds [of "of_char z" 0]
      by (simp add: c)
  qed simp
qed

lemma ParsePublicKeyPEM_file:
  assumes body: "concat body = b64_encode (spkiPrefix @ raw)" "\<forall>l \<in> set body. l \<noteq> []"
    and "length raw = publicKeySize" "length (pem_text body) \<le> MaxKeyFileBytes"
  shows "ParsePublicKeyPEM C (pem_text body) = NewPublicKey C raw"
proof -
  have "list_all pem_char l" if "l \<in> set body" for l
  proof -
    have "set l \<subseteq> set (concat body)" using that by auto
    with pem_char_encoded [of "spkiPrefix @ raw"] show ?thesis unfolding body(1) by (auto simp: list_all_iff)
  qed
  moreover have "body \<noteq> []" using body(1) by (auto simp: spkiPrefix_def)
  ultimately have "key_file_body (pem_text body) = Some (concat body)" using body(2) by (intro key_file_body_text) auto
  then show ?thesis using assms(3,4) by (simp add: ParsePublicKeyPEM_def body(1) has_prefix_def)
qed

end
