(* ===== verification/Spec2Isabelle.thy ===== *)
theory Spec2Isabelle
  imports Chain_Format Merkle_Frontier Merkle_Consistency Verify_Walk Anchor_Build Bolt_Contract
    Capture_V3 Canonical_Json Commitment Anchor_Json Entries_Json Bundle
    Export_Read Export_Sound Export_Result Export_Keys
begin

text \<open>
  A model of the Go module \<open>proof\<close>: tamper-evident chains of evidence entries, the stores that hold
  them, the verifier that walks them, and the signed anchors that pin a chain's head.

  \<^bold>\<open>The parts and how they meet.\<close> A caller hands content hashes to the linker (package \<open>linker\<close>), which
  reads the tail of a chain from a store (\<open>store\<close>), links the batch by the hash formats of
  \<open>chainformat\<close>, and writes the rows under a lease. A verifier (\<open>verify\<close>) walks the rows, recomputing
  every hash; an anchor (\<open>anchor\<close>) is a signed statement of a chain's head and length, built over a
  walked chain (\<open>anchor/build\<close>), bound to chains and put in series by \<open>verify\<close>. Package \<open>merkle\<close> proves
  membership in and growth of lists of hashes; \<open>commitment\<close> hides content behind a nonce; \<open>canonical\<close>
  gives JSON one byte form.

  \<^bold>\<open>The theories.\<close>
  \<^item> \<open>Prelude\<close>: Go strings as byte lists, 64-bit wrap-around (\<open>wrap64\<close>), hex, decimal, UTF-8, early
    returns. \<open>Go_Time\<close>: \<open>time.Time\<close> as seconds and nanoseconds, the calendar, RFC 3339 text.
    \<open>Sha512\<close>: SHA-512 in full, with \<open>collision\<close> and \<open>collide\<close> naming two explicit strings that hash alike.
    \<open>Go_Json\<close>, \<open>Json_Parse\<close>: the string and value encoders of \<open>encoding/json\<close>, its reader with escapes,
    depth limit and fuel, and base64. \<open>Json_Local\<close>: a value is read from its own characters.
    \<open>Json_Object\<close>: the token loop of \<open>json.Decoder\<close> over one object. \<open>Store_Json\<close>: decoding into structs,
    and the rows of a store as JSON.
  \<^item> \<open>Chain_Format\<close>: \<open>chainformat/chain_hash.go\<close>, \<open>chain_hash_v3.go\<close>, \<open>tombstone.go\<close>. \<open>Capture_V3\<close>:
    \<open>capture_v3.go\<close> and \<open>entry.go\<close>.
  \<^item> \<open>Merkle_Tree\<close>, \<open>Merkle_Frontier\<close>, \<open>Merkle_Consistency\<close>: package \<open>merkle\<close>.
  \<^item> \<open>Store_Types\<close>: \<open>store/store.go\<close> and \<open>append_check.go\<close>, and the locale \<open>store_port\<close>, what an appender
    may rely on. \<open>Mem_Store\<close>: \<open>store/memory\<close>, and its interpretation of the port. \<open>Bolt_Store\<close>:
    \<open>store/bolt\<close> over the calls of its database; \<open>Bolt_Rows\<close>, \<open>Bolt_Write\<close>, \<open>Bolt_Contract\<close>: its keys
    in order, its simulation by the memory store, its interpretation of the port.
  \<^item> \<open>Linker\<close>: package \<open>linker\<close>, proved once over the port.
  \<^item> \<open>Verify_Walk\<close>: \<open>verify/verify.go\<close>. \<open>Anchor_Core\<close>, \<open>Anchor_Sign\<close>: package \<open>anchor\<close>. \<open>Anchor_Bind\<close>,
    \<open>Anchor_Series\<close>: \<open>verify/anchor.go\<close>, \<open>walker_anchor.go\<close>, \<open>series.go\<close>. \<open>Anchor_Build\<close>: \<open>anchor/build\<close>.
    \<open>Anchor_Json\<close>: \<open>anchor/subject_json.go\<close>. \<open>Entries_Json\<close>: \<open>verify/entries_json.go\<close>.
  \<^item> \<open>Mldsa\<close>, \<open>Key_Id\<close>: package \<open>mldsa\<close> and the algorithm table, public key encoding and key ids of
    \<open>keyfile\<close>.
  \<^item> \<open>Bundle\<close>: package \<open>bundle\<close>, over the slash-separated paths of \<open>Go_Path\<close>.
  \<^item> Package \<open>exportbundle\<close>: \<open>Export_Types\<close> and \<open>Export_Reader\<close> are \<open>reader.go\<close> and \<open>checkpoint.go\<close>,
    \<open>Export_Verify\<close> is \<open>verify.go\<close>, \<open>Export_Result\<close> is \<open>result.go\<close>, \<open>Export_Keys\<close> is \<open>keys.go\<close>. The reader is
    taken apart into a grammar and an interpreter in \<open>Export_Grammar\<close>; \<open>Export_Rules\<close> states the rules of the
    format over the tree of a text and what reading does to the reader's flags, \<open>Export_Read\<close> shows that the
    reader answers what the rules say; \<open>Export_Sound\<close> shows what a verdict means. Run on the 114 cases of
    \<open>fixtures/testdata/bundle_v1_vectors.json\<close> the definitions give the recorded results, as far as no
    ML-DSA signature decides.
  \<^item> \<open>Canonical_Json\<close>: package \<open>canonical\<close>. \<open>Commitment\<close>: package \<open>commitment\<close>.

  \<^bold>\<open>Conventions.\<close> A Go error is a constructor with the values its text prints; a fallible function
  returns a sum, a validator an option. A context is asked only whether it is done. Clocks and random
  bytes are arguments. A mutex makes a method one step. Integers of the code are \<^typ>\<open>int\<close> with
  \<open>wrap64\<close> where the code adds near the end of the range. Statements about hashes hold without
  assumption on SHA-512: the alternative is always a collision of two strings that are written out.

  \<^bold>\<open>What is shown.\<close> That hashes, anchors, key ids, content hashes, commitments and Merkle roots bind what they
  cover; that appends, batches and multi-chain updates extend exactly the chains they name or change
  nothing; that the verifier says INTACT exactly for chains that recompute, stays so after appends
  and erasures, and can be run in segments; that anchors made by the program verify, that an accepted
  anchor series pins one chain; that canonical JSON depends on the value alone; that anchors and entry
  files are read by exact names and nothing else, in one piece or one entry at a time; that the bolt
  store holds what the memory store would hold after the calls that were done, also when transactions fail,
  and besides at most the effect of the one call that panicked (rows and records in UTF-8; positions below
  zero are where the two stores differ); that a directory is intact exactly when it holds what
  its manifest lists, and a manifest root pins those files; that the one-pass reader of export bundles follows
  the rules of the format, that verifying a bundle always gives a result that fits together, and that its exit
  code is OK exactly for bundles whose chains keep every rule the code checks and whose entries are vouched
  for; these are the rules of the format, but for line breaks in base64, which the code lets pass.

  \<^bold>\<open>Parameters.\<close> The CIRCL library's ML-DSA (a record of functions, its documented behaviour the
  hypothesis \<open>circl_ok\<close>), the bbolt database (a record of its calls with the hypothesis \<open>bbolt_ok\<close>, which
  an instance over red-black trees meets), Unicode normalisation (\<open>nfc\<close>, \<open>is_nfc\<close>). What happens to a
  transaction of the database is an argument too (\<open>db_fault\<close>): it may not begin, not commit, or panic, with the
  outcomes that \<open>internal/safebolt\<close> documents: an ordinary error means that nothing was written; after a panic
  it is not known whether the transaction reached the disk, the error is \<open>ErrCorrupt\<close>, and the guard of
  \<open>internal/fault\<close> refuses every later call (\<open>handle_call\<close>). The append over the bolt store is proved for
  transactions that do not panic after reaching the disk.

  \<^bold>\<open>Fuel and bounds.\<close> \<open>parse\<close> runs with twice the length of its input, and more changes nothing
  (\<open>read_fuel\<close>); the loops of the export bundle's reader run with the length of their input, and more
  changes nothing (\<open>strict_members_fuel\<close>, \<open>strict_items_fuel\<close>). All other recursions are shown to terminate. \<open>largestPowerOfTwoLessThan64\<close> keeps the
  loop of the source with not returning as a value, and returns for every argument.

  \<^bold>\<open>Not modelled\<close>, with the reason: the command line and MCP programs (argument parsing and terminal
  output), examples and scripts (no logic of the library), test helpers (\<open>fixtures\<close>, \<open>store/storetest\<close>),
  X-Wing and ML-KEM wrappers and key wrapping (calls of CIRCL and of the AEADs of the standard library), the
  file formats of private keys, opening, checking and closing of database files, panics of functions the
  caller passes in, and the sink (files, clocks, several stores and signers; of it only
  \<open>toVerifyEntry\<close>).
\<close>

end
